(* ===== verification/Prelude.thy ===== *)
theory Prelude
  imports Main "HOL-Library.Word"
begin

text \<open>
  Shared vocabulary of the development: thrown errors as values, JavaScript's
  \<open>||\<close> on numbers, comparator functions in the style of \<open>Array.prototype.sort\<close>
  with their laws as a locale, sorting and merging of arrays under a comparator, and
  the bisection loop that every search routine of the engine instantiates.
\<close>

named_theorems res_simps \<open>evaluation of the error-propagating operations\<close>

section \<open>Thrown errors as values\<close>

text \<open>
  Every \<open>throw\<close> of the modelled code is a value of \<open>jserr\<close>. \<open>TxError\<close> carries its
  message and its code, \<open>PolicyBudgetError\<close> the name of the rule. \<open>Diverges\<close> is not thrown
  by the program: it is the result of a fuelled recursion that ran out of fuel, and
  theorems show it does not occur. Nor is \<open>Unmodelled\<close>: the program goes on there with a
  number that the model has no value for (an entity id or a reference that is no integer, the
  NaN of an invalid date), so what the model does with it is no claim about the program.
\<close>

datatype jserr =
    RangeError string
  | TypeError string
  | Error string
  | TxError string string
  | PolicyParseError string
  | QueryBudgetError string
  | PolicyBudgetError "16 word list"
  | Diverges
  | Unmodelled

type_synonym 'a res = "jserr + 'a"

fun rbind :: "'a res \<Rightarrow> ('a \<Rightarrow> 'b res) \<Rightarrow> 'b res" where
  "rbind (Inl e) f = Inl e"
| "rbind (Inr x) f = f x"

lemma rbind_Inr_conv [res_simps]:
  "rbind m f = Inr y \<longleftrightarrow> (\<exists>x. m = Inr x \<and> f x = Inr y)"
  by (cases m) auto

lemma rbind_cong [fundef_cong]:
  "m = m' \<Longrightarrow> (\<And>x. m' = Inr x \<Longrightarrow> f x = g x) \<Longrightarrow> rbind m f = rbind m' g"
  by (cases m') auto

lemma rbind_assoc: "rbind (rbind m f) g = rbind m (\<lambda>x. rbind (f x) g)"
  by (cases m) auto

fun rmap :: "('a \<Rightarrow> 'b) \<Rightarrow> 'a res \<Rightarrow> 'b res" where
  "rmap f (Inl e) = Inl e"
| "rmap f (Inr x) = Inr (f x)"

lemma rmap_Inr_conv [res_simps]: "rmap f m = Inr y \<longleftrightarrow> (\<exists>x. m = Inr x \<and> y = f x)"
  by (cases m) auto

text \<open>A loop over an array that stops at the first error.\<close>

fun rmaplist :: "('a \<Rightarrow> 'b res) \<Rightarrow> 'a list \<Rightarrow> 'b list res" where
  "rmaplist f [] = Inr []"
| "rmaplist f (x # xs) = rbind (f x) (\<lambda>y. rmap ((#) y) (rmaplist f xs))"

lemma rmaplist_cong [fundef_cong]:
  "xs = ys \<Longrightarrow> (\<And>x. x \<in> set ys \<Longrightarrow> f x = g x) \<Longrightarrow> rmaplist f xs = rmaplist g ys"
proof (induction ys arbitrary: xs)
  case (Cons y ys)
  then have "rmaplist f ys = rmaplist g ys" by auto
  with Cons.prems show ?case by simp
qed simp

lemma rmaplist_length: "rmaplist f xs = Inr ys \<Longrightarrow> length ys = length xs"
  by (induction xs arbitrary: ys) (auto simp: res_simps)

lemma rmaplist_ok: "(\<And>x. x \<in> set xs \<Longrightarrow> f x = Inr (g x)) \<Longrightarrow> rmaplist f xs = Inr (map g xs)"
  by (induction xs) auto

text \<open>A loop that threads a state and stops at the first error.\<close>

fun rfold :: "('a \<Rightarrow> 's \<Rightarrow> 's res) \<Rightarrow> 'a list \<Rightarrow> 's \<Rightarrow> 's res" where
  "rfold f [] s = Inr s"
| "rfold f (x # xs) s = rbind (f x s) (rfold f xs)"

lemma rfold_append: "rfold f (xs @ ys) s = rbind (rfold f xs s) (rfold f ys)"
proof (induction xs arbitrary: s)
  case (Cons x xs)
  then show ?case by (cases "f x s") simp_all
qed simp

lemma rfold_inv:
  assumes "rfold f xs s = Inr s'" "P s"
    and "\<And>x s s'. x \<in> set xs \<Longrightarrow> P s \<Longrightarrow> f x s = Inr s' \<Longrightarrow> P s'"
  shows "P s'"
  using assms
proof (induction xs arbitrary: s)
  case (Cons x xs)
  then obtain s1 where "f x s = Inr s1" "rfold f xs s1 = Inr s'" by (auto simp: res_simps)
  with Cons show ?case by (metis list.set_intros)
qed simp

section \<open>Comparators\<close>

text \<open>JavaScript's \<open>x || y\<close> on two numbers: \<open>y\<close> where \<open>x\<close> is zero.\<close>

definition or_else :: "int \<Rightarrow> int \<Rightarrow> int" where
  "or_else c d = (if c = 0 then d else c)"

lemma or_else_simps [simp]:
  "or_else 0 d = d" "c \<noteq> 0 \<Longrightarrow> or_else c d = c" "or_else c 0 = c"
  by (auto simp: or_else_def)

lemma or_else_zero [simp]: "or_else c d = 0 \<longleftrightarrow> c = 0 \<and> d = 0"
  by (auto simp: or_else_def)

text \<open>
  The laws of a comparator on the elements that satisfy \<open>ok\<close>: a total preorder given
  by the sign of the result. \<open>cmp_total\<close> adds that only equal elements compare as 0.
\<close>

locale cmp_order =
  fixes cmp :: "'a \<Rightarrow> 'a \<Rightarrow> int"
    and ok :: "'a \<Rightarrow> bool"
  assumes cmp_refl: "ok x \<Longrightarrow> cmp x x = 0"
    and cmp_anti: "ok x \<Longrightarrow> ok y \<Longrightarrow> cmp y x < 0 \<longleftrightarrow> 0 < cmp x y"
    and cmp_trans: "ok x \<Longrightarrow> ok y \<Longrightarrow> ok z \<Longrightarrow> cmp x y \<le> 0 \<Longrightarrow> cmp y z \<le> 0 \<Longrightarrow> cmp x z \<le> 0"
begin

lemma cmp_sym_zero: "ok x \<Longrightarrow> ok y \<Longrightarrow> cmp x y = 0 \<longleftrightarrow> cmp y x = 0"
  using cmp_anti [of x y] cmp_anti [of y x] by linarith

lemma cmp_le_ge: "ok x \<Longrightarrow> ok y \<Longrightarrow> cmp x y \<le> 0 \<longleftrightarrow> 0 \<le> cmp y x"
  using cmp_anti [of x y] cmp_anti [of y x] by linarith

lemma cmp_less_le_trans:
  assumes "ok x" "ok y" "ok z" "cmp x y < 0" "cmp y z \<le> 0"
  shows "cmp x z < 0"
proof (rule ccontr)
  assume "\<not> cmp x z < 0"
  then have "cmp z x \<le> 0" using cmp_le_ge [of z x] assms by linarith
  then have "cmp y x \<le> 0" using cmp_trans [of y z x] assms by blast
  then show False using cmp_anti [of y x] assms by linarith
qed

lemma cmp_le_less_trans:
  assumes "ok x" "ok y" "ok z" "cmp x y \<le> 0" "cmp y z < 0"
  shows "cmp x z < 0"
proof (rule ccontr)
  assume "\<not> cmp x z < 0"
  then have "cmp z x \<le> 0" using cmp_le_ge [of z x] assms by linarith
  then have "cmp z y \<le> 0" using cmp_trans [of z x y] assms by blast
  then show False using cmp_anti [of z y] assms by linarith
qed

lemma cmp_less_trans:
  "ok x \<Longrightarrow> ok y \<Longrightarrow> ok z \<Longrightarrow> cmp x y < 0 \<Longrightarrow> cmp y z < 0 \<Longrightarrow> cmp x z < 0"
  using cmp_less_le_trans [of x y z] by simp

lemma cmp_zero_less:
  assumes "ok x" "ok y" "ok z" "cmp x y = 0"
  shows "cmp x z < 0 \<longleftrightarrow> cmp y z < 0" and "0 < cmp x z \<longleftrightarrow> 0 < cmp y z"
    and "cmp x z = 0 \<longleftrightarrow> cmp y z = 0"
proof -
  have yx: "cmp y x = 0" using assms cmp_sym_zero by blast
  show 1: "cmp x z < 0 \<longleftrightarrow> cmp y z < 0"
    using cmp_le_less_trans [of x y z] cmp_le_less_trans [of y x z] assms yx by auto
  have "cmp x z \<le> 0 \<longleftrightarrow> cmp y z \<le> 0"
    using cmp_trans [of x y z] cmp_trans [of y x z] assms yx by auto
  then show "0 < cmp x z \<longleftrightarrow> 0 < cmp y z" by linarith
  with 1 show "cmp x z = 0 \<longleftrightarrow> cmp y z = 0" by linarith
qed

end

locale cmp_total = cmp_order cmp ok
  for cmp :: "'a \<Rightarrow> 'a \<Rightarrow> int" and ok :: "'a \<Rightarrow> bool" +
  assumes cmp_zero_eq: "ok x \<Longrightarrow> ok y \<Longrightarrow> cmp x y = 0 \<Longrightarrow> x = y"

text \<open>Comparing a component, and comparing one component after another.\<close>

lemma cmp_order_pullback:
  "cmp_order c ok \<Longrightarrow> (\<And>x. ok' x \<Longrightarrow> ok (f x)) \<Longrightarrow> cmp_order (\<lambda>x y. c (f x) (f y)) ok'"
  unfolding cmp_order_def by (simp, meson)

lemma cmp_order_cong:
  assumes "cmp_order c ok" and "\<And>x y. ok x \<Longrightarrow> ok y \<Longrightarrow> d x y = c x y"
  shows "cmp_order d ok"
proof (rule cmp_order.intro)
  fix x assume "ok x"
  then show "d x x = 0" using assms by (simp add: cmp_order.cmp_refl)
next
  fix x y assume "ok x" "ok y"
  then show "d y x < 0 \<longleftrightarrow> 0 < d x y" using assms by (simp add: cmp_order.cmp_anti)
next
  fix x y z assume "ok x" "ok y" "ok z" "d x y \<le> 0" "d y z \<le> 0"
  then show "d x z \<le> 0" using assms cmp_order.cmp_trans [OF assms(1), of x y z] by simp
qed

lemma cmp_order_or_else:
  assumes "cmp_order c ok" and "cmp_order d ok"
  shows "cmp_order (\<lambda>x y. or_else (c x y) (d x y)) ok"
proof (rule cmp_order.intro)
  fix x assume "ok x"
  then show "or_else (c x x) (d x x) = 0"
    using assms by (simp add: cmp_order.cmp_refl)
next
  fix x y assume xy: "ok x" "ok y"
  have "c x y = 0 \<longleftrightarrow> c y x = 0" using cmp_order.cmp_sym_zero [OF assms(1)] xy by blast
  then show "or_else (c y x) (d y x) < 0 \<longleftrightarrow> 0 < or_else (c x y) (d x y)"
    using cmp_order.cmp_anti [OF assms(1)] cmp_order.cmp_anti [OF assms(2)] xy
    by (auto simp: or_else_def)
next
  fix x y z assume xyz: "ok x" "ok y" "ok z"
    and le1: "or_else (c x y) (d x y) \<le> 0" and le2: "or_else (c y z) (d y z) \<le> 0"
  have c1: "c x y \<le> 0" and c2: "c y z \<le> 0"
    using le1 le2 by (auto simp: or_else_def split: if_splits)
  have c3: "c x z \<le> 0" using cmp_order.cmp_trans [OF assms(1) xyz c1 c2] .
  show "or_else (c x z) (d x z) \<le> 0"
  proof (cases "c x z = 0")
    case True
    have "c x y = 0" using cmp_order.cmp_less_le_trans [OF assms(1) xyz _ c2] c1 True by linarith
    moreover have "c y z = 0"
      using cmp_order.cmp_le_less_trans [OF assms(1) xyz c1] c2 True by linarith
    ultimately show ?thesis
      using le1 le2 True cmp_order.cmp_trans [OF assms(2) xyz] by simp
  next
    case False
    with c3 show ?thesis by (simp add: or_else_def)
  qed
qed

section \<open>Sorting, deduplication and union under a comparator\<close>

definition strictly_sorted :: "('a \<Rightarrow> 'a \<Rightarrow> int) \<Rightarrow> 'a list \<Rightarrow> bool" where
  "strictly_sorted cmp xs = sorted_wrt (\<lambda>x y. cmp x y < 0) xs"

text \<open>\<open>Array.prototype.sort\<close>: a stable sort by the sign of the comparator.\<close>

fun insert_by :: "('a \<Rightarrow> 'a \<Rightarrow> int) \<Rightarrow> 'a \<Rightarrow> 'a list \<Rightarrow> 'a list" where
  "insert_by cmp x [] = [x]"
| "insert_by cmp x (y # ys) = (if cmp x y \<le> 0 then x # y # ys else y # insert_by cmp x ys)"

definition js_sort :: "('a \<Rightarrow> 'a \<Rightarrow> int) \<Rightarrow> 'a list \<Rightarrow> 'a list" where
  "js_sort cmp xs = foldr (insert_by cmp) xs []"

text \<open>The loop \<open>if (i === 0 || cmp(p[i-1], p[i]) !== 0) out.push(p[i])\<close>.\<close>

fun dedup_from :: "('a \<Rightarrow> 'a \<Rightarrow> int) \<Rightarrow> 'a \<Rightarrow> 'a list \<Rightarrow> 'a list" where
  "dedup_from cmp p [] = []"
| "dedup_from cmp p (x # xs) = (if cmp p x \<noteq> 0 then x # dedup_from cmp x xs else dedup_from cmp x xs)"

fun dedup_adjacent :: "('a \<Rightarrow> 'a \<Rightarrow> int) \<Rightarrow> 'a list \<Rightarrow> 'a list" where
  "dedup_adjacent cmp [] = []"
| "dedup_adjacent cmp (x # xs) = x # dedup_from cmp x xs"

lemma set_insert_by [simp]: "set (insert_by cmp x xs) = insert x (set xs)"
  by (induction xs) auto

lemma set_js_sort [simp]: "set (js_sort cmp xs) = set xs"
  by (induction xs) (auto simp: js_sort_def)

lemma set_dedup_from_subset: "set (dedup_from cmp p xs) \<subseteq> set xs"
  by (induction xs arbitrary: p) auto

lemma set_dedup_adjacent_subset: "set (dedup_adjacent cmp xs) \<subseteq> set xs"
  using set_dedup_from_subset by (cases xs) fastforce+

context cmp_order begin

lemma insert_by_sorted:
  "sorted_wrt (\<lambda>x y. cmp x y \<le> 0) xs \<Longrightarrow> ok x \<Longrightarrow> \<forall>y\<in>set xs. ok y \<Longrightarrow>
   sorted_wrt (\<lambda>x y. cmp x y \<le> 0) (insert_by cmp x xs)"
proof (induction xs)
  case (Cons y ys)
  have "cmp y x \<le> 0" if "\<not> cmp x y \<le> 0"
    using that cmp_anti [of x y] Cons.prems by auto
  moreover have "cmp x z \<le> 0" if "cmp x y \<le> 0" "z \<in> set ys" for z
    using that cmp_trans [of x y z] Cons.prems by auto
  ultimately show ?case using Cons by auto
qed simp

lemma js_sort_sorted:
  "\<forall>y\<in>set xs. ok y \<Longrightarrow> sorted_wrt (\<lambda>x y. cmp x y \<le> 0) (js_sort cmp xs)"
proof (induction xs)
  case (Cons x xs)
  have "js_sort cmp (x # xs) = insert_by cmp x (js_sort cmp xs)" by (simp add: js_sort_def)
  with Cons show ?case by (simp add: insert_by_sorted)
qed (simp add: js_sort_def)

lemma dedup_from_strict:
  "sorted_wrt (\<lambda>x y. cmp x y \<le> 0) (p # xs) \<Longrightarrow> \<forall>y\<in>set (p # xs). ok y \<Longrightarrow>
   strictly_sorted cmp (p # dedup_from cmp p xs)"
proof (induction xs arbitrary: p)
  case (Cons x xs)
  have IH: "strictly_sorted cmp (x # dedup_from cmp x xs)"
    using Cons.prems by (intro Cons.IH) auto
  have sub: "set (dedup_from cmp x xs) \<subseteq> set xs" by (rule set_dedup_from_subset)
  show ?case
  proof (cases "cmp p x = 0")
    case True
    have "cmp p y < 0" if "y \<in> set (dedup_from cmp x xs)" for y
    proof -
      have "cmp x y < 0" using IH that by (simp add: strictly_sorted_def)
      then show ?thesis
        using cmp_le_less_trans [of p x y] True Cons.prems that sub by auto
    qed
    with IH True show ?thesis by (auto simp: strictly_sorted_def)
  next
    case False
    then have px: "cmp p x < 0" using Cons.prems by auto
    have "cmp p y < 0" if "y \<in> set (dedup_from cmp x xs)" for y
    proof -
      have "cmp x y < 0" using IH that by (simp add: strictly_sorted_def)
      then show ?thesis
        using cmp_less_trans [of p x y] px Cons.prems that sub by auto
    qed
    with IH px False show ?thesis by (auto simp: strictly_sorted_def)
  qed
qed (simp add: strictly_sorted_def)

lemma dedup_adjacent_strict:
  assumes "\<forall>y\<in>set xs. ok y"
  shows "strictly_sorted cmp (dedup_adjacent cmp (js_sort cmp xs))"
proof (cases "js_sort cmp xs")
  case (Cons y ys)
  have "sorted_wrt (\<lambda>x y. cmp x y \<le> 0) (y # ys)" and "\<forall>z\<in>set (y # ys). ok z"
    using js_sort_sorted [OF assms] assms set_js_sort [of cmp xs] Cons by auto
  then show ?thesis using dedup_from_strict Cons by simp
qed (simp add: strictly_sorted_def)

end

text \<open>The two-pointer loop that merges sorted arrays and drops identical elements.\<close>

fun merge_union :: "('a \<Rightarrow> 'a \<Rightarrow> int) \<Rightarrow> 'a list \<Rightarrow> 'a list \<Rightarrow> 'a list" where
  "merge_union cmp [] ys = ys"
| "merge_union cmp (x # xs) [] = x # xs"
| "merge_union cmp (x # xs) (y # ys) =
     (if cmp x y < 0 then x # merge_union cmp xs (y # ys)
      else if cmp x y > 0 then y # merge_union cmp (x # xs) ys
      else x # merge_union cmp xs ys)"

lemma merge_union_Nil2 [simp]: "merge_union cmp xs [] = xs"
  by (cases xs) auto

lemma list_pair_induct [case_names Nil1 Nil2 Cons]:
  assumes "\<And>ys. Q [] ys" and "\<And>x xs. Q (x # xs) []"
    and "\<And>x xs y ys. Q xs (y # ys) \<Longrightarrow> Q (x # xs) ys \<Longrightarrow> Q xs ys \<Longrightarrow> Q (x # xs) (y # ys)"
  shows "Q xs ys"
proof (induction xs arbitrary: ys)
  case (Cons x xs)
  show ?case by (induction ys) (auto intro: assms Cons)
qed (rule assms)

context cmp_total begin

lemma set_dedup_from:
  "\<forall>y\<in>set (p # xs). ok y \<Longrightarrow> insert p (set (dedup_from cmp p xs)) = insert p (set xs)"
proof (induction xs arbitrary: p)
  case (Cons x xs)
  then have "insert x (set (dedup_from cmp x xs)) = insert x (set xs)" by simp
  moreover have "x = p" if "cmp p x = 0" using that cmp_zero_eq [of p x] Cons.prems by simp
  ultimately show ?case by (cases "cmp p x = 0") auto
qed simp

lemma set_dedup_adjacent: "\<forall>y\<in>set xs. ok y \<Longrightarrow> set (dedup_adjacent cmp xs) = set xs"
  using set_dedup_from by (cases xs) auto

lemma set_merge_union:
  "\<forall>x\<in>set xs \<union> set ys. ok x \<Longrightarrow> set (merge_union cmp xs ys) = set xs \<union> set ys"
proof (induction xs ys rule: list_pair_induct)
  case (Cons x xs y ys)
  show ?case
  proof (cases "cmp x y = 0")
    case True
    then have "x = y" using cmp_zero_eq [of x y] Cons.prems by simp
    with Cons show ?thesis by auto
  next
    case False
    then show ?thesis using Cons by auto
  qed
qed auto

lemma strictly_sorted_merge_union:
  "strictly_sorted cmp xs \<Longrightarrow> strictly_sorted cmp ys \<Longrightarrow> \<forall>x\<in>set xs \<union> set ys. ok x \<Longrightarrow>
   strictly_sorted cmp (merge_union cmp xs ys)"
proof (induction xs ys rule: list_pair_induct)
  case (Cons x xs y ys)
  have ok: "ok x" "ok y" "\<forall>z\<in>set xs. ok z" "\<forall>z\<in>set ys. ok z" using Cons.prems by auto
  have xs: "\<forall>z\<in>set xs. cmp x z < 0" and ys: "\<forall>z\<in>set ys. cmp y z < 0"
    using Cons.prems by (auto simp: strictly_sorted_def)
  show ?case
  proof (cases "cmp x y < 0")
    case True
    then have "\<forall>z\<in>set (y # ys). cmp x z < 0"
      using cmp_less_trans [of x y] ok ys by auto
    moreover have "strictly_sorted cmp (merge_union cmp xs (y # ys))"
      using Cons by (simp add: strictly_sorted_def)
    moreover have "set (merge_union cmp xs (y # ys)) = set xs \<union> set (y # ys)"
      using set_merge_union [of xs "y # ys"] ok by (simp add: ball_Un)
    ultimately show ?thesis using True xs by (auto simp: strictly_sorted_def)
  next
    case nlt: False
    show ?thesis
    proof (cases "cmp x y = 0")
      case True
      then have "x = y" using cmp_zero_eq ok by blast
      moreover have "strictly_sorted cmp (merge_union cmp xs ys)"
        using Cons by (simp add: strictly_sorted_def)
      moreover have "set (merge_union cmp xs ys) = set xs \<union> set ys"
        using set_merge_union [of xs ys] ok by auto
      ultimately show ?thesis using True xs ys by (auto simp: strictly_sorted_def)
    next
      case False
      with nlt have "cmp y x < 0" using cmp_anti [of x y] ok by auto
      then have "\<forall>z\<in>set (x # xs). cmp y z < 0"
        using cmp_less_trans [of y x] ok xs by auto
      moreover have "strictly_sorted cmp (merge_union cmp (x # xs) ys)"
        using Cons by (simp add: strictly_sorted_def)
      moreover have "set (merge_union cmp (x # xs) ys) = set (x # xs) \<union> set ys"
        using set_merge_union [of "x # xs" ys] ok by (simp add: ball_Un)
      ultimately show ?thesis using nlt False ys by (auto simp: strictly_sorted_def)
    qed
  qed
qed (auto simp: strictly_sorted_def)

text \<open>A strictly sorted array is determined by its elements.\<close>

lemma strictly_sorted_unique:
  "strictly_sorted cmp xs \<Longrightarrow> strictly_sorted cmp ys \<Longrightarrow> set xs = set ys \<Longrightarrow>
   \<forall>x\<in>set xs. ok x \<Longrightarrow> xs = ys"
proof (induction xs arbitrary: ys)
  case (Cons x xs)
  then obtain y ys' where ys: "ys = y # ys'" by (cases ys) auto
  have ok: "ok x" "ok y" using Cons.prems ys by auto
  have xs_less: "\<forall>z\<in>set xs. cmp x z < 0" and ys_less: "\<forall>z\<in>set ys'. cmp y z < 0"
    using Cons.prems ys by (auto simp: strictly_sorted_def)
  have "x = y"
  proof (rule ccontr)
    assume "x \<noteq> y"
    then have "x \<in> set ys'" and "y \<in> set xs" using Cons.prems(3) ys by auto
    then show False using xs_less ys_less cmp_anti [of x y] ok by force
  qed
  moreover have "x \<notin> set xs" "y \<notin> set ys'" using xs_less ys_less ok cmp_refl by force+
  ultimately have "set xs = set ys'" using Cons.prems(3) ys by auto
  then have "xs = ys'" using Cons.IH Cons.prems ys by (auto simp: strictly_sorted_def)
  with \<open>x = y\<close> ys show ?case by simp
qed simp

lemma strictly_sorted_distinct:
  "strictly_sorted cmp xs \<Longrightarrow> \<forall>x\<in>set xs. ok x \<Longrightarrow> distinct xs"
proof (induction xs)
  case (Cons x xs)
  then show ?case using cmp_refl [of x] by (force simp: strictly_sorted_def)
qed simp

end

lemma strictly_sorted_simps [simp]:
  "strictly_sorted cmp []"
  "strictly_sorted cmp (x # xs) \<longleftrightarrow> (\<forall>y\<in>set xs. cmp x y < 0) \<and> strictly_sorted cmp xs"
  by (auto simp: strictly_sorted_def)

lemma strictly_sorted_append:
  "strictly_sorted cmp (xs @ ys) \<longleftrightarrow>
   strictly_sorted cmp xs \<and> strictly_sorted cmp ys \<and> (\<forall>x\<in>set xs. \<forall>y\<in>set ys. cmp x y < 0)"
  by (simp add: strictly_sorted_def sorted_wrt_append)

lemma strictly_sorted_filter: "strictly_sorted cmp xs \<Longrightarrow> strictly_sorted cmp (filter P xs)"
  by (simp add: strictly_sorted_def sorted_wrt_filter)

section \<open>Bisection\<close>

text \<open>
  The loop of every binary search of the engine: \<open>lo\<close> and \<open>hi\<close> close in on the first
  index where \<open>lt\<close> fails. The shift \<open>(lo + hi) >>> 1\<close> is the division by two, as
  array lengths stay below $2^{31}$.
\<close>

function bisect :: "(nat \<Rightarrow> bool) \<Rightarrow> nat \<Rightarrow> nat \<Rightarrow> nat" where
  "bisect lt lo hi =
     (if lo < hi then
        let mid = (lo + hi) div 2
        in if lt mid then bisect lt (mid + 1) hi else bisect lt lo mid
      else lo)"
  by pat_completeness auto
termination
  by (relation "measure (\<lambda>(lt, lo, hi). hi - lo)") auto

declare bisect.simps [simp del]

lemma bisect_spec:
  assumes "lo \<le> hi" and "\<And>i j. lo \<le> i \<Longrightarrow> i \<le> j \<Longrightarrow> j < hi \<Longrightarrow> lt j \<Longrightarrow> lt i"
  shows "lo \<le> bisect lt lo hi \<and> bisect lt lo hi \<le> hi \<and>
    (\<forall>i. lo \<le> i \<and> i < bisect lt lo hi \<longrightarrow> lt i) \<and>
    (\<forall>i. bisect lt lo hi \<le> i \<and> i < hi \<longrightarrow> \<not> lt i)"
  using assms
proof (induction lt lo hi rule: bisect.induct)
  case (1 lt lo hi)
  show ?case
  proof (cases "lo < hi")
    case True
    define mid where "mid = (lo + hi) div 2"
    have mid: "lo \<le> mid" "mid < hi" using True by (auto simp: mid_def)
    show ?thesis
    proof (cases "lt mid")
      case tr: True
      have eq: "bisect lt lo hi = bisect lt (mid + 1) hi"
        using True tr by (subst bisect.simps) (simp add: mid_def Let_def)
      have mono: "lt i" if "mid + 1 \<le> i" "i \<le> j" "j < hi" "lt j" for i j
        using 1(4) [of i j] that mid by linarith
      have IH: "mid + 1 \<le> bisect lt (mid + 1) hi \<and> bisect lt (mid + 1) hi \<le> hi \<and>
        (\<forall>i. mid + 1 \<le> i \<and> i < bisect lt (mid + 1) hi \<longrightarrow> lt i) \<and>
        (\<forall>i. bisect lt (mid + 1) hi \<le> i \<and> i < hi \<longrightarrow> \<not> lt i)"
        using 1(1) [OF True mid_def tr _ mono] mid by simp
      have "lt i" if "lo \<le> i" "i \<le> mid" for i using 1(4) [of i mid] that tr mid by simp
      then show ?thesis using IH mid unfolding eq by (metis Suc_eq_plus1 le_trans less_Suc_eq_le linorder_not_le nat_less_le)
    next
      case nlt: False
      have eq: "bisect lt lo hi = bisect lt lo mid"
        using True nlt by (subst bisect.simps) (simp add: mid_def Let_def)
      have mono: "lt i" if "lo \<le> i" "i \<le> j" "j < mid" "lt j" for i j
        using 1(4) [of i j] that mid by linarith
      have IH: "lo \<le> bisect lt lo mid \<and> bisect lt lo mid \<le> mid \<and>
        (\<forall>i. lo \<le> i \<and> i < bisect lt lo mid \<longrightarrow> lt i) \<and>
        (\<forall>i. bisect lt lo mid \<le> i \<and> i < mid \<longrightarrow> \<not> lt i)"
        using 1(2) [OF True mid_def nlt _ mono] mid by simp
      have "\<not> lt i" if "mid \<le> i" "i < hi" for i using 1(4) [of mid i] that nlt mid by blast
      then show ?thesis using IH mid unfolding eq by (metis le_trans less_imp_le linorder_not_le)
    qed
  next
    case False
    then show ?thesis using 1(3) by (subst (1 2 3 4) bisect.simps) auto
  qed
qed

text \<open>
  On an array where \<open>P\<close> holds exactly on an initial segment, bisection returns the
  length of that segment.
\<close>

definition initial_on :: "('a \<Rightarrow> bool) \<Rightarrow> 'a list \<Rightarrow> bool" where
  "initial_on P xs = sorted_wrt (\<lambda>x y. P y \<longrightarrow> P x) xs"

lemma initial_on_simps [simp]:
  "initial_on P []" "initial_on P (x # xs) \<longleftrightarrow> (\<forall>y\<in>set xs. P y \<longrightarrow> P x) \<and> initial_on P xs"
  by (auto simp: initial_on_def)

lemma initial_on_nth: "initial_on P xs \<Longrightarrow> i \<le> j \<Longrightarrow> j < length xs \<Longrightarrow> P (xs ! j) \<Longrightarrow> P (xs ! i)"
  unfolding initial_on_def using sorted_wrt_nth_less [of "\<lambda>x y. P y \<longrightarrow> P x" xs i j]
  by (cases "i = j") auto

lemma bisect_takeWhile:
  assumes "initial_on P xs"
  shows "bisect (\<lambda>i. P (xs ! i)) 0 (length xs) = length (takeWhile P xs)"
proof -
  let ?r = "bisect (\<lambda>i. P (xs ! i)) 0 (length xs)"
  have "0 \<le> ?r \<and> ?r \<le> length xs \<and> (\<forall>i. 0 \<le> i \<and> i < ?r \<longrightarrow> P (xs ! i)) \<and>
    (\<forall>i. ?r \<le> i \<and> i < length xs \<longrightarrow> \<not> P (xs ! i))"
    by (rule bisect_spec) (simp, blast intro: initial_on_nth [OF assms])
  then have r: "?r \<le> length xs" "\<forall>i<?r. P (xs ! i)" "\<forall>i. ?r \<le> i \<and> i < length xs \<longrightarrow> \<not> P (xs ! i)"
    by blast+
  have "takeWhile P xs = take ?r xs"
    by (rule takeWhile_eq_take_P_nth) (use r in blast)+
  with r(1) show ?thesis by simp
qed

lemma initial_on_takeWhile: "initial_on P xs \<Longrightarrow> takeWhile P xs = filter P xs"
  by (induction xs) (auto simp: filter_empty_conv)

lemma initial_on_dropWhile: "initial_on P xs \<Longrightarrow> dropWhile P xs = filter (\<lambda>x. \<not> P x) xs"
  by (induction xs) (auto simp: filter_id_conv)

lemma take_length_takeWhile [simp]: "take (length (takeWhile P xs)) xs = takeWhile P xs"
  by (induction xs) auto

lemma drop_length_takeWhile [simp]: "drop (length (takeWhile P xs)) xs = dropWhile P xs"
  by (induction xs) auto

end
