(* ===== verification/Values.thy ===== *)
theory Values
  imports Prelude
begin

text \<open>
  The value model of \<open>internal/core/datom.ts\<close>: JavaScript strings and numbers as the
  engine sees them, tagged values, normalisation, the value comparators and value
  equality. \<open>value_ok\<close> is the invariant that normalisation establishes; on it
  \<open>compareValue\<close> is a total order.
\<close>

unbundle bit_operations_syntax

section \<open>JavaScript strings, bytes and numbers\<close>

text \<open>A string is its UTF-16 code units; a \<open>Uint8Array\<close> its bytes.\<close>

type_synonym jsstr = "16 word list"
type_synonym bytes = "8 word list"

definition js :: "string \<Rightarrow> jsstr" where
  "js s = map of_char s"

text \<open>
  A double is its IEEE 754 bit pattern. Comparison on bit patterns is sign and
  magnitude; both zeros have key 0, and a NaN is unordered.
\<close>

type_synonym f64 = "64 word"

definition f64_nan :: "f64 \<Rightarrow> bool" where
  "f64_nan x \<longleftrightarrow> 2047 * 2 ^ 52 < unat x mod 2 ^ 63"

definition f64_key :: "f64 \<Rightarrow> int" where
  "f64_key x = (if unat x < 2 ^ 63 then int (unat x) else - (int (unat x) - 2 ^ 63))"

definition f64_lt :: "f64 \<Rightarrow> f64 \<Rightarrow> bool" where
  "f64_lt x y \<longleftrightarrow> \<not> f64_nan x \<and> \<not> f64_nan y \<and> f64_key x < f64_key y"

definition f64_eq :: "f64 \<Rightarrow> f64 \<Rightarrow> bool" where
  "f64_eq x y \<longleftrightarrow> \<not> f64_nan x \<and> \<not> f64_nan y \<and> f64_key x = f64_key y"

definition f64_neg_zero :: f64 where
  "f64_neg_zero = 0x8000000000000000"

text \<open>\<open>x + 0\<close> turns negative zero into positive zero and changes nothing else.\<close>

definition f64_plus_zero :: "f64 \<Rightarrow> f64" where
  "f64_plus_zero x = (if x = f64_neg_zero then 0 else x)"

fun ilog2 :: "nat \<Rightarrow> nat" where
  "ilog2 n = (if n < 2 then 0 else Suc (ilog2 (n div 2)))"

declare ilog2.simps [simp del]

text \<open>The double nearest to an integer (ties to even), infinite beyond the range.\<close>

definition f64_of_int :: "int \<Rightarrow> f64" where
  "f64_of_int n =
     (if n = 0 then 0
      else
        let m = nat \<bar>n\<bar>; e = ilog2 m;
            q = (if e \<le> 52 then m * 2 ^ (52 - e)
                 else
                   let s = e - 52; q = m div 2 ^ s; r = m mod 2 ^ s; h = 2 ^ (s - 1)
                   in if h < r \<or> r = h \<and> odd q then q + 1 else q);
            b = min ((1023 + e) * 2 ^ 52 + (q - 2 ^ 52)) (2047 * 2 ^ 52)
        in word_of_nat ((if n < 0 then 2 ^ 63 else 0) + b))"

text \<open>
  A JavaScript number: \<open>NInt n\<close> is a safe integer (both zeros are \<open>NInt 0\<close>, which the
  modelled code never tells apart before it normalises them), \<open>NDbl x\<close> is any other
  double (fractions, infinities, NaN and integers beyond the safe range).
\<close>

datatype jsnum = NInt int | NDbl f64

definition MAX_ID :: int where
  "MAX_ID = 2 ^ 53 - 1"

definition safe_int :: "int \<Rightarrow> bool" where
  "safe_int n \<longleftrightarrow> \<bar>n\<bar> \<le> MAX_ID"

fun isSafeInteger :: "jsnum \<Rightarrow> bool" where
  "isSafeInteger (NInt n) = safe_int n"
| "isSafeInteger (NDbl x) = False"

fun num_isNaN :: "jsnum \<Rightarrow> bool" where
  "num_isNaN (NInt n) = False"
| "num_isNaN (NDbl x) = f64_nan x"

fun num_f64 :: "jsnum \<Rightarrow> f64" where
  "num_f64 (NInt n) = f64_of_int n"
| "num_f64 (NDbl x) = x"

section \<open>Tags and tagged values\<close>

datatype vtag = Long | Double | Str | Bool | Ref | Uuid | Inst | Bytes

fun tag_code :: "vtag \<Rightarrow> nat" where
  "tag_code Long = 1"
| "tag_code Double = 2"
| "tag_code Str = 3"
| "tag_code Bool = 4"
| "tag_code Ref = 5"
| "tag_code Uuid = 6"
| "tag_code Inst = 7"
| "tag_code Bytes = 8"

definition tag_of_code :: "nat \<Rightarrow> vtag option" where
  "tag_of_code n =
     (if n = 1 then Some Long else if n = 2 then Some Double else if n = 3 then Some Str
      else if n = 4 then Some Bool else if n = 5 then Some Ref else if n = 6 then Some Uuid
      else if n = 7 then Some Inst else if n = 8 then Some Bytes else None)"

lemma tag_of_code_tag_code [simp]: "tag_of_code (tag_code t) = Some t"
  by (cases t) (simp_all add: tag_of_code_def)

lemma tag_code_inj [simp]: "tag_code s = tag_code t \<longleftrightarrow> s = t"
  by (metis option.inject tag_of_code_tag_code)

text \<open>The pair of a tag and its payload, as the tagged union it is.\<close>

datatype tagged_value =
    VLong int
  | VDouble f64
  | VStr jsstr
  | VBool bool
  | VRef int
  | VUuid jsstr
  | VInst int
  | VBytes bytes

fun vt :: "tagged_value \<Rightarrow> vtag" where
  "vt (VLong n) = Long"
| "vt (VDouble x) = Double"
| "vt (VStr s) = Str"
| "vt (VBool b) = Bool"
| "vt (VRef n) = Ref"
| "vt (VUuid s) = Uuid"
| "vt (VInst n) = Inst"
| "vt (VBytes b) = Bytes"

section \<open>Normalisation\<close>

text \<open>A payload before it is checked against a tag.\<close>

datatype payload = PNum jsnum | PStr jsstr | PBool bool | PBytes bytes

definition lower_unit :: "16 word \<Rightarrow> 16 word" where
  "lower_unit c = (if 0x41 \<le> c \<and> c \<le> 0x5A then c + 0x20 else c)"

text \<open>
  \<open>toLowerCase\<close> on the ASCII letters. No other character has a lower-case form made of
  hexadecimal digits and dashes, so the pattern below decides as in the code.
\<close>

definition toLowerCase :: "jsstr \<Rightarrow> jsstr" where
  "toLowerCase s = map lower_unit s"

definition hex_unit :: "16 word \<Rightarrow> bool" where
  "hex_unit c \<longleftrightarrow> 0x30 \<le> c \<and> c \<le> 0x39 \<or> 0x61 \<le> c \<and> c \<le> 0x66"

definition uuid_pattern :: "jsstr \<Rightarrow> bool" where
  "uuid_pattern s \<longleftrightarrow> length s = 36 \<and>
     list_all (\<lambda>(i, c). if i \<in> {8, 13, 18, 23} then c = 0x2D else hex_unit c)
       (zip [0..<36] s)"

fun normalizeValue :: "vtag \<Rightarrow> payload \<Rightarrow> tagged_value res" where
  "normalizeValue Long (PNum n) =
     (case n of NInt k \<Rightarrow> if safe_int k then Inr (VLong k) else Inl (TypeError ''long value must be a safe integer'')
      | NDbl _ \<Rightarrow> Inl (TypeError ''long value must be a safe integer''))"
| "normalizeValue Long _ = Inl (TypeError ''long value must be a safe integer'')"
| "normalizeValue Ref (PNum n) =
     (case n of
        NInt k \<Rightarrow> if \<not> safe_int k then Inl (TypeError ''ref value must be a safe integer'')
                  else if k < 0 then Inl (TypeError ''ref must be non-negative'') else Inr (VRef k)
      | NDbl _ \<Rightarrow> Inl (TypeError ''ref value must be a safe integer''))"
| "normalizeValue Ref _ = Inl (TypeError ''ref value must be a safe integer'')"
| "normalizeValue Inst (PNum n) =
     (case n of NInt k \<Rightarrow> if safe_int k then Inr (VInst k) else Inl (TypeError ''instant value must be a safe integer'')
      | NDbl _ \<Rightarrow> Inl (TypeError ''instant value must be a safe integer''))"
| "normalizeValue Inst _ = Inl (TypeError ''instant value must be a safe integer'')"
| "normalizeValue Double (PNum n) =
     (if num_isNaN n then Inl (TypeError ''double value must not be NaN'')
      else Inr (VDouble (f64_plus_zero (num_f64 n))))"
| "normalizeValue Double _ = Inl (TypeError ''double value must be a number'')"
| "normalizeValue Str (PStr s) = Inr (VStr s)"
| "normalizeValue Str _ = Inl (TypeError ''string value must be a string'')"
| "normalizeValue Bool (PBool b) = Inr (VBool b)"
| "normalizeValue Bool _ = Inl (TypeError ''boolean value must be a boolean'')"
| "normalizeValue Uuid (PStr s) =
     (let l = toLowerCase s
      in if uuid_pattern l then Inr (VUuid l) else Inl (TypeError ''invalid uuid''))"
| "normalizeValue Uuid _ = Inl (TypeError ''uuid value must be a string'')"
| "normalizeValue Bytes (PBytes b) = Inr (VBytes b)"
| "normalizeValue Bytes _ = Inl (TypeError ''bytes value must be a Uint8Array'')"

text \<open>What a stored value satisfies.\<close>

fun value_ok :: "tagged_value \<Rightarrow> bool" where
  "value_ok (VLong n) = safe_int n"
| "value_ok (VDouble x) = (\<not> f64_nan x \<and> x \<noteq> f64_neg_zero)"
| "value_ok (VStr s) = True"
| "value_ok (VBool b) = True"
| "value_ok (VRef n) = (safe_int n \<and> 0 \<le> n)"
| "value_ok (VUuid s) = uuid_pattern s"
| "value_ok (VInst n) = safe_int n"
| "value_ok (VBytes b) = True"

text \<open>The payload a value was made from.\<close>

fun payload_of :: "tagged_value \<Rightarrow> payload" where
  "payload_of (VLong n) = PNum (NInt n)"
| "payload_of (VDouble x) = PNum (NDbl x)"
| "payload_of (VStr s) = PStr s"
| "payload_of (VBool b) = PBool b"
| "payload_of (VRef n) = PNum (NInt n)"
| "payload_of (VUuid s) = PStr s"
| "payload_of (VInst n) = PNum (NInt n)"
| "payload_of (VBytes b) = PBytes b"

lemma ilog2_bounds: "0 < n \<Longrightarrow> 2 ^ ilog2 n \<le> n \<and> n < 2 ^ Suc (ilog2 n)"
proof (induction n rule: ilog2.induct)
  case (1 n)
  show ?case
  proof (cases "n < 2")
    case True
    with 1 show ?thesis by (simp add: ilog2.simps)
  next
    case False
    then have IH: "2 ^ ilog2 (n div 2) \<le> n div 2 \<and> n div 2 < 2 ^ Suc (ilog2 (n div 2))"
      using 1 by auto
    have eq: "ilog2 n = Suc (ilog2 (n div 2))" using False by (subst ilog2.simps) simp
    have "2 * 2 ^ ilog2 (n div 2) \<le> n" using IH by linarith
    moreover have "n < 2 * 2 ^ Suc (ilog2 (n div 2))" using IH by linarith
    ultimately show ?thesis by (simp add: eq)
  qed
qed

text \<open>Whatever the integer, the nearest double is neither NaN nor negative zero.\<close>

lemma f64_of_int_ok: "\<not> f64_nan (f64_of_int n)" "f64_of_int n \<noteq> f64_neg_zero"
proof -
  have *: "\<not> f64_nan (f64_of_int n) \<and> f64_of_int n \<noteq> f64_neg_zero"
  proof (cases "n = 0")
    case True
    then show ?thesis by (simp add: f64_of_int_def f64_nan_def f64_neg_zero_def)
  next
    case False
    obtain q where q: "f64_of_int n = word_of_nat ((if n < 0 then 2 ^ 63 else 0) +
        min ((1023 + ilog2 (nat \<bar>n\<bar>)) * 2 ^ 52 + (q - 2 ^ 52)) (2047 * 2 ^ 52))"
      using False by (simp only: f64_of_int_def Let_def if_False)
    define b where "b = min ((1023 + ilog2 (nat \<bar>n\<bar>)) * 2 ^ 52 + (q - 2 ^ 52)) (2047 * 2 ^ 52 :: nat)"
    have b: "0 < b" "b \<le> 2047 * 2 ^ 52" by (auto simp: b_def)
    define s where "s = (if n < 0 then 2 ^ 63 else 0 :: nat)"
    have "s + b < 2 ^ LENGTH(64)" using b by (auto simp: s_def)
    then have u: "unat (f64_of_int n) = s + b"
      unfolding q b_def [symmetric] s_def [symmetric] by (rule of_nat_inverse [OF refl])
    have "(s + b) mod 2 ^ 63 = b" using b by (auto simp: s_def)
    moreover have "s + b \<noteq> 2 ^ 63" using b by (auto simp: s_def)
    ultimately show ?thesis
      using u b by (auto simp: f64_nan_def f64_neg_zero_def)
  qed
  then show "\<not> f64_nan (f64_of_int n)" "f64_of_int n \<noteq> f64_neg_zero" by auto
qed

lemma f64_plus_zero_ok: "\<not> f64_nan x \<Longrightarrow> \<not> f64_nan (f64_plus_zero x)"
  "f64_plus_zero x \<noteq> f64_neg_zero"
  by (auto simp: f64_plus_zero_def f64_nan_def f64_neg_zero_def)

lemma num_f64_not_nan: "\<not> num_isNaN n \<Longrightarrow> \<not> f64_nan (num_f64 n)"
  using f64_of_int_ok by (cases n) auto

lemma lower_unit_idem: "hex_unit c \<or> c = 0x2D \<Longrightarrow> lower_unit c = c"
  by (auto simp: hex_unit_def lower_unit_def word_le_nat_alt)

lemma uuid_pattern_lower: "uuid_pattern s \<Longrightarrow> toLowerCase s = s"
proof -
  assume u: "uuid_pattern s"
  have "lower_unit c = c" if c: "c \<in> set s" for c
  proof -
    obtain i where i: "i < length s" "c = s ! i" using c by (auto simp: in_set_conv_nth)
    have len: "length s = 36" using u by (simp add: uuid_pattern_def)
    have "zip [0..<36] s ! i = (i, c)" using i len by (simp del: upt_rec_numeral)
    moreover have "zip [0..<36] s ! i \<in> set (zip [0..<36] s)"
      by (rule nth_mem) (use i len in simp)
    ultimately have "(i, c) \<in> set (zip [0..<36] s)" by metis
    then have "if i \<in> {8, 13, 18, 23} then c = 0x2D else hex_unit c"
      using u by (fastforce simp: uuid_pattern_def list_all_iff)
    then show ?thesis using lower_unit_idem by (auto split: if_splits)
  qed
  then show ?thesis by (simp add: toLowerCase_def map_idI)
qed

text \<open>Normalising is idempotent: a stored value is its own normal form.\<close>

lemma normalizeValue_value_ok:
  "normalizeValue t p = Inr v \<Longrightarrow> value_ok v \<and> vt v = t"
  using f64_plus_zero_ok num_f64_not_nan
  by (cases "(t, p)" rule: normalizeValue.cases)
    (auto split: jsnum.splits if_splits simp: Let_def)

lemma normalizeValue_payload_of:
  "value_ok v \<Longrightarrow> normalizeValue (vt v) (payload_of v) = Inr v"
  by (cases v) (auto simp: f64_plus_zero_def uuid_pattern_lower)

section \<open>Comparators\<close>

text \<open>
  \<open>compareStrings\<close> walks both strings to the first difference. Surrogates are moved
  above the rest of the basic plane, so that code units order as code points do.
\<close>

fun compareStrings :: "jsstr \<Rightarrow> jsstr \<Rightarrow> int" where
  "compareStrings [] [] = 0"
| "compareStrings [] (y # ys) = -1"
| "compareStrings (x # xs) [] = 1"
| "compareStrings (x # xs) (y # ys) =
     (if x \<noteq> y then
        let (x', y') =
          (if 0xD800 \<le> x \<and> 0xD800 \<le> y then
             (if 0xE000 \<le> x then x - 0x800 else x + 0x2000,
              if 0xE000 \<le> y then y - 0x800 else y + 0x2000)
           else (x, y))
        in if x' < y' then -1 else 1
      else compareStrings xs ys)"

fun compareBytes :: "bytes \<Rightarrow> bytes \<Rightarrow> int" where
  "compareBytes [] [] = 0"
| "compareBytes [] (y # ys) = -1"
| "compareBytes (x # xs) [] = 1"
| "compareBytes (x # xs) (y # ys) =
     (let d = int (unat x) - int (unat y)
      in if d \<noteq> 0 then (if d < 0 then -1 else 1) else compareBytes xs ys)"

text \<open>The language's \<open><\<close> on strings, by code units.\<close>

fun str_lt :: "jsstr \<Rightarrow> jsstr \<Rightarrow> bool" where
  "str_lt xs [] = False"
| "str_lt [] (y # ys) = True"
| "str_lt (x # xs) (y # ys) = (if x = y then str_lt xs ys else x < y)"

fun compareValue :: "tagged_value \<Rightarrow> tagged_value \<Rightarrow> int" where
  "compareValue (VLong x) (VLong y) = (if x < y then -1 else if x > y then 1 else 0)"
| "compareValue (VDouble x) (VDouble y) = (if f64_lt x y then -1 else if f64_lt y x then 1 else 0)"
| "compareValue (VRef x) (VRef y) = (if x < y then -1 else if x > y then 1 else 0)"
| "compareValue (VInst x) (VInst y) = (if x < y then -1 else if x > y then 1 else 0)"
| "compareValue (VStr x) (VStr y) = compareStrings x y"
| "compareValue (VBool x) (VBool y) = (if x then 1 else 0) - (if y then 1 else 0)"
| "compareValue (VUuid x) (VUuid y) = (if str_lt x y then -1 else if str_lt y x then 1 else 0)"
| "compareValue (VBytes x) (VBytes y) = compareBytes x y"
| "compareValue x y = (if tag_code (vt x) < tag_code (vt y) then -1 else 1)"

text \<open>
  \<open>valueEquals\<close>: strict equality of primitives, NaN equal to NaN, bytes by content.
\<close>

fun valueEquals :: "tagged_value \<Rightarrow> tagged_value \<Rightarrow> bool" where
  "valueEquals (VDouble x) (VDouble y) = (f64_eq x y \<or> f64_nan x \<and> f64_nan y)"
| "valueEquals (VBytes x) (VBytes y) = (x = y \<or> compareBytes x y = 0)"
| "valueEquals (VLong x) (VLong y) = (x = y)"
| "valueEquals (VStr x) (VStr y) = (x = y)"
| "valueEquals (VBool x) (VBool y) = (x = y)"
| "valueEquals (VRef x) (VRef y) = (x = y)"
| "valueEquals (VUuid x) (VUuid y) = (x = y)"
| "valueEquals (VInst x) (VInst y) = (x = y)"
| "valueEquals x y = False"

subsection \<open>Array comparators are lexicographic\<close>

fun lex_by :: "('a \<Rightarrow> nat) \<Rightarrow> 'a list \<Rightarrow> 'a list \<Rightarrow> int" where
  "lex_by k [] [] = 0"
| "lex_by k [] (y # ys) = -1"
| "lex_by k (x # xs) [] = 1"
| "lex_by k (x # xs) (y # ys) =
     (if k x < k y then -1 else if k y < k x then 1 else lex_by k xs ys)"

lemma lex_by_refl [simp]: "lex_by k xs xs = 0"
  by (induction xs) auto

lemma lex_by_anti: "lex_by k ys xs = - lex_by k xs ys"
  by (induction k xs ys rule: lex_by.induct) auto

lemma lex_by_trans: "lex_by k xs ys \<le> 0 \<Longrightarrow> lex_by k ys zs \<le> 0 \<Longrightarrow> lex_by k xs zs \<le> 0"
proof (induction k xs ys arbitrary: zs rule: lex_by.induct)
  case (4 k x xs y ys)
  show ?case
  proof (cases zs)
    case Nil
    with "4.prems" show ?thesis by simp
  next
    case (Cons z zs')
    with "4.prems" "4.IH" [of zs'] show ?thesis
      by (cases "k x" "k y" rule: linorder_cases; cases "k y" "k z" rule: linorder_cases) simp_all
  qed
next
  case (2 k y ys)
  then show ?case by (cases zs) auto
qed auto

lemma lex_by_zero: "inj k \<Longrightarrow> lex_by k xs ys = 0 \<Longrightarrow> xs = ys"
  by (induction k xs ys rule: lex_by.induct) (auto split: if_splits dest: injD)

lemma cmp_order_lex_by: "cmp_order (lex_by k) ok"
proof (rule cmp_order.intro)
  fix x y
  show "lex_by k y x < 0 \<longleftrightarrow> 0 < lex_by k x y"
    by (simp add: lex_by_anti [of k y x])
next
  fix x y z assume "lex_by k x y \<le> 0" "lex_by k y z \<le> 0"
  then show "lex_by k x z \<le> 0" by (rule lex_by_trans)
qed simp

definition point_key :: "16 word \<Rightarrow> nat" where
  "point_key c = (if unat c < 0xD800 then unat c
     else if unat c < 0xE000 then unat c + 0x2000 else unat c - 0x800)"

lemma unat_word16: "unat (x :: 16 word) < 65536"
  using unsigned_less [of x] by simp

lemma point_key_inj: "inj point_key"
proof (rule injI)
  fix x y assume "point_key x = point_key y"
  then have "unat x = unat y"
    using unat_word16 [of x] unat_word16 [of y] by (auto simp: point_key_def split: if_splits)
  then show "x = y" by (rule word_unat_eq_iff [THEN iffD2])
qed

lemma unat_minus_800: "0xE000 \<le> (x :: 16 word) \<Longrightarrow> unat (x - 0x800) = unat x - 0x800"
  by (subst unat_sub) (auto simp: word_le_nat_alt)

lemma unat_plus_2000: "x < (0xE000 :: 16 word) \<Longrightarrow> unat (x + 0x2000) = unat x + 0x2000"
  by (subst unat_add_lem [THEN iffD1]) (auto simp: word_less_nat_alt)

lemma compareStrings_lex: "compareStrings xs ys = lex_by point_key xs ys"
proof (induction xs ys rule: compareStrings.induct)
  case (4 x xs y ys)
  show ?case
  proof (cases "x = y")
    case True
    then show ?thesis using 4 by simp
  next
    case False
    have ne: "point_key x \<noteq> point_key y" using False point_key_inj by (auto dest: injD)
    show ?thesis
      using False ne unat_word16 [of x] unat_word16 [of y] unat_minus_800 [of x]
        unat_minus_800 [of y] unat_plus_2000 [of x] unat_plus_2000 [of y]
      by (auto simp: point_key_def word_le_nat_alt word_less_nat_alt not_le not_less
          split: if_splits)
  qed
qed auto

lemma unat_inj8: "inj (unat :: 8 word \<Rightarrow> nat)"
  by (rule injI) (simp add: word_unat_eq_iff)

lemma unat_inj16: "inj (unat :: 16 word \<Rightarrow> nat)"
  by (rule injI) (simp add: word_unat_eq_iff)

lemma compareBytes_lex: "compareBytes xs ys = lex_by unat xs ys"
  by (induction xs ys rule: compareBytes.induct) (auto simp: Let_def simp del: of_nat_unat)

lemma lex_by_Nil2: "0 \<le> lex_by k xs []"
  by (cases xs) auto

lemma str_lt_lex: "str_lt xs ys \<longleftrightarrow> lex_by unat xs ys < 0"
  by (induction xs ys rule: str_lt.induct)
    (auto simp: word_less_nat_alt word_unat_eq_iff lex_by_Nil2 not_less)

lemma str_cmp_lex: "(if str_lt x y then -1 else if str_lt y x then 1 else 0) = sgn (lex_by unat x y)"
  using lex_by_anti [of unat y x] by (auto simp: str_lt_lex)

subsection \<open>\<open>compareValue\<close> is a total order\<close>

text \<open>
  A value as its tag and, per tag, a number or a list of numbers; the comparators agree
  with the comparison of these keys.
\<close>

fun num_key :: "tagged_value \<Rightarrow> int" where
  "num_key (VLong n) = n"
| "num_key (VDouble x) = f64_key x"
| "num_key (VRef n) = n"
| "num_key (VInst n) = n"
| "num_key (VBool b) = (if b then 1 else 0)"
| "num_key v = 0"

fun list_key :: "tagged_value \<Rightarrow> nat list" where
  "list_key (VStr s) = map point_key s"
| "list_key (VUuid s) = map unat s"
| "list_key (VBytes b) = map unat b"
| "list_key v = []"

definition sgn_cmp :: "int \<Rightarrow> int \<Rightarrow> int" where
  "sgn_cmp x y = (if x < y then -1 else if x > y then 1 else 0)"

lemma cmp_order_sgn_cmp: "cmp_order sgn_cmp ok"
  by unfold_locales (auto simp: sgn_cmp_def split: if_splits)

lemma lex_by_map: "lex_by k xs ys = lex_by id (map k xs) (map k ys)"
  by (induction k xs ys rule: lex_by.induct) auto

lemma lex_by_sgn [simp]: "sgn (lex_by k xs ys) = lex_by k xs ys"
  by (induction k xs ys rule: lex_by.induct) auto

lemma compareValue_key:
  assumes "value_ok v" and "value_ok w"
  shows "compareValue v w =
    or_else (sgn_cmp (int (tag_code (vt v))) (int (tag_code (vt w))))
      (or_else (sgn_cmp (num_key v) (num_key w)) (lex_by id (list_key v) (list_key w)))"
  using assms
  by (cases v; cases w)
    (auto simp: sgn_cmp_def f64_lt_def str_cmp_lex compareStrings_lex compareBytes_lex
      lex_by_map [of point_key] lex_by_map [of "unat :: 8 word \<Rightarrow> nat"] lex_by_map [of "unat :: 16 word \<Rightarrow> nat"])

lemma f64_key_inj:
  assumes "f64_key x = f64_key y" and "x \<noteq> f64_neg_zero" and "y \<noteq> f64_neg_zero"
  shows "x = y"
proof -
  have nz: "unat x \<noteq> 2 ^ 63" "unat y \<noteq> 2 ^ 63"
    using assms(2,3) by (auto simp: f64_neg_zero_def word_unat_eq_iff)
  have "unat x = unat y"
    using assms(1) nz by (auto simp: f64_key_def simp del: of_nat_unat split: if_splits)
  then show ?thesis by (simp add: word_unat_eq_iff)
qed

lemma map_unat_eq8 [simp]: "map unat (xs :: bytes) = map unat ys \<longleftrightarrow> xs = ys"
  by (simp add: inj_map_eq_map unat_inj8)

lemma map_unat_eq16 [simp]: "map unat (xs :: jsstr) = map unat ys \<longleftrightarrow> xs = ys"
  by (simp add: inj_map_eq_map unat_inj16)

lemma map_point_key_eq [simp]: "map point_key xs = map point_key ys \<longleftrightarrow> xs = ys"
  by (simp add: inj_map_eq_map point_key_inj)

lemma value_key_inj:
  "value_ok v \<Longrightarrow> value_ok w \<Longrightarrow> vt v = vt w \<Longrightarrow> num_key v = num_key w \<Longrightarrow> list_key v = list_key w \<Longrightarrow> v = w"
  by (cases v; cases w) (auto dest: f64_key_inj split: if_splits)

interpretation value_cmp: cmp_total compareValue value_ok
proof -
  let ?c = "\<lambda>v w. or_else (sgn_cmp (int (tag_code (vt v))) (int (tag_code (vt w))))
      (or_else (sgn_cmp (num_key v) (num_key w)) (lex_by id (list_key v) (list_key w)))"
  have num: "cmp_order (\<lambda>v w. sgn_cmp (f v) (f w)) value_ok" for f :: "tagged_value \<Rightarrow> int"
    by (rule cmp_order_pullback [OF cmp_order_sgn_cmp [where ok = "\<lambda>_. True"]]) simp
  have lst: "cmp_order (\<lambda>v w. lex_by id (list_key v) (list_key w)) value_ok"
    by (rule cmp_order_pullback [OF cmp_order_lex_by [where ok = "\<lambda>_. True"]]) simp
  have c: "cmp_order ?c value_ok"
    by (rule cmp_order_or_else [OF num cmp_order_or_else [OF num lst]])
  have ord: "cmp_order compareValue value_ok"
    by (rule cmp_order_cong [OF c]) (simp add: compareValue_key)
  have zero: "x = y" if "value_ok x" "value_ok y" "compareValue x y = 0" for x y
  proof -
    have "?c x y = 0" using compareValue_key that by simp
    then have "vt x = vt y" "num_key x = num_key y" "lex_by id (list_key x) (list_key y) = 0"
      by (auto simp: sgn_cmp_def split: if_splits)
    then show ?thesis using value_key_inj that lex_by_zero [of id] by auto
  qed
  show "cmp_total compareValue value_ok"
    unfolding cmp_total_def cmp_total_axioms_def using ord zero by blast
qed

lemma valueEquals_iff: "value_ok v \<Longrightarrow> value_ok w \<Longrightarrow> valueEquals v w \<longleftrightarrow> v = w"
  using f64_key_inj lex_by_zero [OF unat_inj8]
  by (cases v; cases w) (auto simp: f64_eq_def compareBytes_lex)

end
