(* ===== verification/Datoms.thy ===== *)
theory Datoms
  imports Values
begin

text \<open>
  Datoms, the four index orders and prefix keys (\<open>internal/core/datom.ts\<close>). The index
  comparators are total orders on well-formed datoms, and comparing against a prefix is
  monotone along them: the two contracts that the trees, the novelty buffers and the
  scans rely on, stated as the locale \<open>prefix_order\<close>.
\<close>

section \<open>Datoms\<close>

record datom =
  d_e :: int
  d_a :: int
  d_v :: "tagged_value"
  d_t :: int
  d_op :: bool

definition mk_datom :: "int \<Rightarrow> int \<Rightarrow> vtag \<Rightarrow> payload \<Rightarrow> int \<Rightarrow> bool \<Rightarrow> datom res" where
  "mk_datom e a tag p t op' =
     rmap (\<lambda>v. \<lparr>d_e = e, d_a = a, d_v = v, d_t = t, d_op = op'\<rparr>) (normalizeValue tag p)"

definition id_ok :: "int \<Rightarrow> bool" where
  "id_ok n \<longleftrightarrow> 0 \<le> n \<and> n \<le> MAX_ID"

text \<open>What every stored datom satisfies.\<close>

definition datom_ok :: "datom \<Rightarrow> bool" where
  "datom_ok d \<longleftrightarrow> id_ok (d_e d) \<and> id_ok (d_a d) \<and> value_ok (d_v d) \<and> id_ok (d_t d)"

section \<open>Index orders\<close>

datatype index = EAVT | AEVT | AVET | VAET

definition ALL_INDEXES :: "index list" where
  "ALL_INDEXES = [EAVT, AEVT, AVET, VAET]"

definition cmpNum :: "int \<Rightarrow> int \<Rightarrow> int" where
  "cmpNum a b = (if a < b then -1 else if a > b then 1 else 0)"

definition cmpOp :: "bool \<Rightarrow> bool \<Rightarrow> int" where
  "cmpOp a b = (if a = b then 0 else if a then 1 else -1)"

definition cmpEAVT :: "datom \<Rightarrow> datom \<Rightarrow> int" where
  "cmpEAVT x y =
     or_else (cmpNum (d_e x) (d_e y)) (or_else (cmpNum (d_a x) (d_a y))
       (or_else (compareValue (d_v x) (d_v y))
         (or_else (cmpNum (d_t x) (d_t y)) (cmpOp (d_op x) (d_op y)))))"

definition cmpAEVT :: "datom \<Rightarrow> datom \<Rightarrow> int" where
  "cmpAEVT x y =
     or_else (cmpNum (d_a x) (d_a y)) (or_else (cmpNum (d_e x) (d_e y))
       (or_else (compareValue (d_v x) (d_v y))
         (or_else (cmpNum (d_t x) (d_t y)) (cmpOp (d_op x) (d_op y)))))"

definition cmpAVET :: "datom \<Rightarrow> datom \<Rightarrow> int" where
  "cmpAVET x y =
     or_else (cmpNum (d_a x) (d_a y)) (or_else (compareValue (d_v x) (d_v y))
       (or_else (cmpNum (d_e x) (d_e y))
         (or_else (cmpNum (d_t x) (d_t y)) (cmpOp (d_op x) (d_op y)))))"

definition cmpVAET :: "datom \<Rightarrow> datom \<Rightarrow> int" where
  "cmpVAET x y =
     or_else (compareValue (d_v x) (d_v y)) (or_else (cmpNum (d_a x) (d_a y))
       (or_else (cmpNum (d_e x) (d_e y))
         (or_else (cmpNum (d_t x) (d_t y)) (cmpOp (d_op x) (d_op y)))))"

fun comparatorFor :: "index \<Rightarrow> datom \<Rightarrow> datom \<Rightarrow> int" where
  "comparatorFor EAVT = cmpEAVT"
| "comparatorFor AEVT = cmpAEVT"
| "comparatorFor AVET = cmpAVET"
| "comparatorFor VAET = cmpVAET"

definition datomEquals :: "datom \<Rightarrow> datom \<Rightarrow> bool" where
  "datomEquals x y \<longleftrightarrow>
     d_e x = d_e y \<and> d_a x = d_a y \<and> d_t x = d_t y \<and> d_op x = d_op y \<and> valueEquals (d_v x) (d_v y)"

section \<open>Prefix keys\<close>

text \<open>A component that is \<open>undefined\<close> is \<open>None\<close>; tag and payload come together.\<close>

record prefix =
  p_e :: "int option"
  p_a :: "int option"
  p_v :: "tagged_value option"
  p_t :: "int option"

fun comparePrefix :: "index \<Rightarrow> datom \<Rightarrow> prefix \<Rightarrow> int" where
  "comparePrefix EAVT d p =
     (case p_e p of None \<Rightarrow> 0 | Some e \<Rightarrow> or_else (cmpNum (d_e d) e)
     (case p_a p of None \<Rightarrow> 0 | Some a \<Rightarrow> or_else (cmpNum (d_a d) a)
     (case p_v p of None \<Rightarrow> 0 | Some v \<Rightarrow> or_else (compareValue (d_v d) v)
     (case p_t p of None \<Rightarrow> 0 | Some t \<Rightarrow> cmpNum (d_t d) t))))"
| "comparePrefix AEVT d p =
     (case p_a p of None \<Rightarrow> 0 | Some a \<Rightarrow> or_else (cmpNum (d_a d) a)
     (case p_e p of None \<Rightarrow> 0 | Some e \<Rightarrow> or_else (cmpNum (d_e d) e)
     (case p_v p of None \<Rightarrow> 0 | Some v \<Rightarrow> or_else (compareValue (d_v d) v)
     (case p_t p of None \<Rightarrow> 0 | Some t \<Rightarrow> cmpNum (d_t d) t))))"
| "comparePrefix AVET d p =
     (case p_a p of None \<Rightarrow> 0 | Some a \<Rightarrow> or_else (cmpNum (d_a d) a)
     (case p_v p of None \<Rightarrow> 0 | Some v \<Rightarrow> or_else (compareValue (d_v d) v)
     (case p_e p of None \<Rightarrow> 0 | Some e \<Rightarrow> or_else (cmpNum (d_e d) e)
     (case p_t p of None \<Rightarrow> 0 | Some t \<Rightarrow> cmpNum (d_t d) t))))"
| "comparePrefix VAET d p =
     (case p_v p of None \<Rightarrow> 0 | Some v \<Rightarrow> or_else (compareValue (d_v d) v)
     (case p_a p of None \<Rightarrow> 0 | Some a \<Rightarrow> or_else (cmpNum (d_a d) a)
     (case p_e p of None \<Rightarrow> 0 | Some e \<Rightarrow> or_else (cmpNum (d_e d) e)
     (case p_t p of None \<Rightarrow> 0 | Some t \<Rightarrow> cmpNum (d_t d) t))))"

datatype component = CE | CA | CV | CT

fun INDEX_ORDER :: "index \<Rightarrow> component list" where
  "INDEX_ORDER EAVT = [CE, CA, CV, CT]"
| "INDEX_ORDER AEVT = [CA, CE, CV, CT]"
| "INDEX_ORDER AVET = [CA, CV, CE, CT]"
| "INDEX_ORDER VAET = [CV, CA, CE, CT]"

fun has_component :: "prefix \<Rightarrow> component \<Rightarrow> bool" where
  "has_component p CE = (p_e p \<noteq> None)"
| "has_component p CA = (p_a p \<noteq> None)"
| "has_component p CV = (p_v p \<noteq> None)"
| "has_component p CT = (p_t p \<noteq> None)"

fun count_leading :: "(component \<Rightarrow> bool) \<Rightarrow> component list \<Rightarrow> nat" where
  "count_leading has [] = 0"
| "count_leading has (k # ks) = (if has k then 1 + count_leading has ks else 0)"

definition prefixDepth :: "index \<Rightarrow> prefix \<Rightarrow> nat" where
  "prefixDepth i p = count_leading (has_component p) (INDEX_ORDER i)"

text \<open>The comparison of one component of a datom with the prefix's component.\<close>

fun component_cmp :: "datom \<Rightarrow> prefix \<Rightarrow> component \<Rightarrow> int" where
  "component_cmp d p CE = (case p_e p of None \<Rightarrow> 0 | Some e \<Rightarrow> cmpNum (d_e d) e)"
| "component_cmp d p CA = (case p_a p of None \<Rightarrow> 0 | Some a \<Rightarrow> cmpNum (d_a d) a)"
| "component_cmp d p CV = (case p_v p of None \<Rightarrow> 0 | Some v \<Rightarrow> compareValue (d_v d) v)"
| "component_cmp d p CT = (case p_t p of None \<Rightarrow> 0 | Some t \<Rightarrow> cmpNum (d_t d) t)"

definition prefix_ok :: "prefix \<Rightarrow> bool" where
  "prefix_ok p \<longleftrightarrow> (\<forall>v. p_v p = Some v \<longrightarrow> value_ok v)"

section \<open>The contract of an index order with its prefix comparison\<close>

text \<open>
  Along the order, the outcome of the prefix comparison goes from negative over zero to
  positive. \<open>pre_ok\<close> says which prefixes take part.
\<close>

locale prefix_order = cmp_total cmp ok
  for cmp :: "'a \<Rightarrow> 'a \<Rightarrow> int" and ok :: "'a \<Rightarrow> bool" +
  fixes pcmp :: "'a \<Rightarrow> 'p \<Rightarrow> int" and pre_ok :: "'p \<Rightarrow> bool"
  assumes pcmp_neg_mono: "ok x \<Longrightarrow> ok y \<Longrightarrow> pre_ok p \<Longrightarrow> cmp x y \<le> 0 \<Longrightarrow> pcmp y p < 0 \<Longrightarrow> pcmp x p < 0"
    and pcmp_pos_mono: "ok x \<Longrightarrow> ok y \<Longrightarrow> pre_ok p \<Longrightarrow> cmp x y \<le> 0 \<Longrightarrow> 0 < pcmp x p \<Longrightarrow> 0 < pcmp y p"
begin

lemma initial_neg:
  assumes "strictly_sorted cmp xs" "\<forall>x\<in>set xs. ok x" "pre_ok p"
  shows "initial_on (\<lambda>x. pcmp x p < 0) xs"
  using assms by (induction xs) (auto dest: less_imp_le pcmp_neg_mono)

lemma initial_nonpos:
  assumes "strictly_sorted cmp xs" "\<forall>x\<in>set xs. ok x" "pre_ok p"
  shows "initial_on (\<lambda>x. pcmp x p \<le> 0) xs"
  using assms pcmp_pos_mono by (induction xs) (force simp flip: not_less)+

end

text \<open>Sign of the comparison with a fixed target, along a comparator.\<close>

definition sign_le :: "int \<Rightarrow> int \<Rightarrow> bool" where
  "sign_le a b \<longleftrightarrow> (b < 0 \<longrightarrow> a < 0) \<and> (0 < a \<longrightarrow> 0 < b)"

lemma sign_le_refl [simp]: "sign_le a a"
  by (simp add: sign_le_def)

text \<open>
  One lexicographic level: if the first components decide, the targets are ordered by
  them and not both equal to the target; if they tie, the rest decides.
\<close>

lemma sign_le_or_else:
  fixes c :: int
  assumes "c \<le> 0" and "sign_le q1 q2" and "c = 0 \<Longrightarrow> sign_le q2 q1 \<and> sign_le r1 r2"
    and "c < 0 \<Longrightarrow> \<not> (q1 = 0 \<and> q2 = 0)"
  shows "sign_le (or_else q1 r1) (or_else q2 r2)"
proof (cases "c = 0")
  case True
  with assms show ?thesis by (auto simp: sign_le_def or_else_def split: if_splits)
next
  case False
  with assms(1) have "c < 0" by simp
  with assms show ?thesis by (auto simp: sign_le_def or_else_def split: if_splits)
qed

context cmp_order begin

lemma sign_le_target:
  assumes "ok x" "ok y" "ok v" "cmp x y \<le> 0"
  shows "sign_le (cmp x v) (cmp y v)"
  using assms cmp_le_less_trans [of x y v] cmp_trans [of x y v]
  by (auto simp: sign_le_def) (metis leD le_less_linear)

lemma sign_le_target_strict:
  assumes "ok x" "ok y" "ok v" "cmp x y < 0"
  shows "\<not> (cmp x v = 0 \<and> cmp y v = 0)"
  using assms cmp_zero_less [of x v y] cmp_sym_zero [of y v] by auto

end

interpretation num_cmp: cmp_total cmpNum "\<lambda>_. True"
  by unfold_locales (auto simp: cmpNum_def split: if_splits)

interpretation op_cmp: cmp_total cmpOp "\<lambda>_. True"
  by unfold_locales (auto simp: cmpOp_def split: if_splits)

lemma cmp_order_num: "cmp_order (\<lambda>x y. cmpNum (f x) (f y)) ok"
  by (rule cmp_order_pullback [OF num_cmp.cmp_order_axioms]) simp

lemma cmp_order_op: "cmp_order (\<lambda>x y. cmpOp (d_op x) (d_op y)) ok"
  by (rule cmp_order_pullback [OF op_cmp.cmp_order_axioms]) simp

lemma cmp_order_val: "cmp_order (\<lambda>x y. compareValue (d_v x) (d_v y)) datom_ok"
  by (rule cmp_order_pullback [OF value_cmp.cmp_order_axioms]) (simp add: datom_ok_def)

lemmas comparator_defs = cmpEAVT_def cmpAEVT_def cmpAVET_def cmpVAET_def

lemma comparator_order: "cmp_order (comparatorFor i) datom_ok"
  by (cases i; simp add: comparator_defs [abs_def];
      intro cmp_order_or_else cmp_order_num cmp_order_val cmp_order_op)

lemma datom_eqI:
  "d_e x = d_e y \<Longrightarrow> d_a x = d_a y \<Longrightarrow> d_v x = d_v y \<Longrightarrow> d_t x = d_t y \<Longrightarrow> d_op x = d_op y \<Longrightarrow> x = (y :: datom)"
  by simp

lemma comparator_zero_parts:
  "comparatorFor i x y = 0 \<Longrightarrow>
   cmpNum (d_e x) (d_e y) = 0 \<and> cmpNum (d_a x) (d_a y) = 0 \<and> compareValue (d_v x) (d_v y) = 0 \<and>
   cmpNum (d_t x) (d_t y) = 0 \<and> cmpOp (d_op x) (d_op y) = 0"
  by (cases i) (simp_all add: comparator_defs)

lemma comparator_zero:
  assumes "datom_ok x" "datom_ok y" "comparatorFor i x y = 0"
  shows "x = y"
proof -
  have "value_ok (d_v x)" "value_ok (d_v y)" using assms by (auto simp: datom_ok_def)
  then show ?thesis
    using comparator_zero_parts [OF assms(3)] num_cmp.cmp_zero_eq op_cmp.cmp_zero_eq
      value_cmp.cmp_zero_eq by (intro datom_eqI) blast+
qed

lemma num_level:
  assumes "or_else (cmpNum a b) r \<le> 0" and "a = b \<Longrightarrow> r \<le> 0 \<Longrightarrow> sign_le s1 s2"
  shows "sign_le (or_else (cmpNum a v) s1) (or_else (cmpNum b v) s2)"
proof (rule sign_le_or_else [of "cmpNum a b"])
  show le: "cmpNum a b \<le> 0" using assms(1) by (auto simp: or_else_def split: if_splits)
  then show "sign_le (cmpNum a v) (cmpNum b v)" using num_cmp.sign_le_target by blast
  show "\<not> (cmpNum a v = 0 \<and> cmpNum b v = 0)" if "cmpNum a b < 0"
    using that num_cmp.sign_le_target_strict by blast
  assume z: "cmpNum a b = 0"
  then have "a = b" using num_cmp.cmp_zero_eq by blast
  then show "sign_le (cmpNum b v) (cmpNum a v) \<and> sign_le s1 s2" using assms z by simp
qed

lemma val_level:
  assumes "or_else (compareValue a b) r \<le> 0" and "a = b \<Longrightarrow> r \<le> 0 \<Longrightarrow> sign_le s1 s2"
    and ok: "value_ok a" "value_ok b" "value_ok v"
  shows "sign_le (or_else (compareValue a v) s1) (or_else (compareValue b v) s2)"
proof (rule sign_le_or_else [of "compareValue a b"])
  show le: "compareValue a b \<le> 0" using assms(1) by (auto simp: or_else_def split: if_splits)
  then show "sign_le (compareValue a v) (compareValue b v)"
    using value_cmp.sign_le_target ok by blast
  show "\<not> (compareValue a v = 0 \<and> compareValue b v = 0)" if "compareValue a b < 0"
    using that value_cmp.sign_le_target_strict ok by blast
  assume z: "compareValue a b = 0"
  then have "a = b" using value_cmp.cmp_zero_eq ok by blast
  then show "sign_le (compareValue b v) (compareValue a v) \<and> sign_le s1 s2" using assms z by simp
qed

lemma num_last: "or_else (cmpNum a b) r \<le> 0 \<Longrightarrow> sign_le (cmpNum a v) (cmpNum b v)"
  using num_level [of a b r 0 0 v] by simp

lemma val_last:
  "or_else (compareValue a b) r \<le> 0 \<Longrightarrow> value_ok a \<Longrightarrow> value_ok b \<Longrightarrow> value_ok v \<Longrightarrow>
   sign_le (compareValue a v) (compareValue b v)"
  using val_level [of a b r 0 0 v] by simp

lemma comparePrefix_sign_le:
  assumes "datom_ok x" "datom_ok y" "prefix_ok p" "comparatorFor i x y \<le> 0"
  shows "sign_le (comparePrefix i x p) (comparePrefix i y p)"
proof -
  have v: "value_ok (d_v x)" "value_ok (d_v y)" "\<And>v. p_v p = Some v \<Longrightarrow> value_ok v"
    using assms by (auto simp: datom_ok_def prefix_ok_def)
  show ?thesis
  proof (cases i)
    case EAVT
    show ?thesis using assms(4) v unfolding EAVT
      by (cases "p_e p"; cases "p_a p"; cases "p_v p"; cases "p_t p"; simp add: cmpEAVT_def)
        (erule num_level val_level num_last val_last | simp)+
  next
    case AEVT
    show ?thesis using assms(4) v unfolding AEVT
      by (cases "p_e p"; cases "p_a p"; cases "p_v p"; cases "p_t p"; simp add: cmpAEVT_def)
        (erule num_level val_level num_last val_last | simp)+
  next
    case AVET
    show ?thesis using assms(4) v unfolding AVET
      by (cases "p_e p"; cases "p_a p"; cases "p_v p"; cases "p_t p"; simp add: cmpAVET_def)
        (erule num_level val_level num_last val_last | simp)+
  next
    case VAET
    show ?thesis using assms(4) v unfolding VAET
      by (cases "p_e p"; cases "p_a p"; cases "p_v p"; cases "p_t p"; simp add: cmpVAET_def)
        (erule num_level val_level num_last val_last | simp)+
  qed
qed

text \<open>
  Every index order with its prefix comparison satisfies the contract; the four are
  interpreted by one instance over the index.
\<close>

interpretation idx: prefix_order "comparatorFor i" datom_ok "comparePrefix i" prefix_ok for i
proof (intro prefix_order.intro cmp_total.intro cmp_total_axioms.intro prefix_order_axioms.intro)
  show "cmp_order (comparatorFor i) datom_ok" by (rule comparator_order)
qed (use comparator_zero comparePrefix_sign_le in \<open>auto simp: sign_le_def\<close>)

text \<open>
  \<open>comparePrefix\<close> is 0 exactly when every leading bound component of the prefix equals the
  datom's; \<open>prefixDepth\<close> counts those components.
\<close>

definition matches_components :: "index \<Rightarrow> datom \<Rightarrow> prefix \<Rightarrow> bool" where
  "matches_components i d p \<longleftrightarrow>
     (\<forall>k \<in> set (take (prefixDepth i p) (INDEX_ORDER i)). component_cmp d p k = 0)"

lemma comparePrefix_zero_iff: "comparePrefix i d p = 0 \<longleftrightarrow> matches_components i d p"
  by (cases i; cases "p_e p"; cases "p_a p"; cases "p_v p"; cases "p_t p";
      simp add: matches_components_def prefixDepth_def)

lemma cmpNum_zero [simp]: "cmpNum a b = 0 \<longleftrightarrow> a = b"
  by (auto simp: cmpNum_def)

lemma compareValue_zero_iff: "value_ok v \<Longrightarrow> value_ok w \<Longrightarrow> compareValue v w = 0 \<longleftrightarrow> v = w"
  using value_cmp.cmp_zero_eq value_cmp.cmp_refl by blast

lemma datomEquals_iff: "datom_ok x \<Longrightarrow> datom_ok y \<Longrightarrow> datomEquals x y \<longleftrightarrow> x = y"
  by (auto simp: datomEquals_def datom_ok_def valueEquals_iff)

end
