(* ===== verification/SegTree.thy ===== *)
theory SegTree
  imports Datoms
begin

text \<open>
  The segment trees of \<open>internal/core/tree.ts\<close>: nodes and references, the searches
  inside a sorted array of datoms, and the ordered scan of a prefix over nodes that are
  fetched by hash. \<open>represents\<close> relates a reference in a source of nodes to the abstract
  tree it stands for; the scan is correct for every represented, well-formed tree.
\<close>

section \<open>Nodes\<close>

datatype node_kind = KLeaf | KDir

record node_ref =
  r_hash :: string
  r_kind :: node_kind
  r_count :: nat

datatype tree_node = LeafNode "datom list" | DirNode "datom list" "node_ref list"

fun kind_of :: "tree_node \<Rightarrow> node_kind" where
  "kind_of (LeafNode ds) = KLeaf"
| "kind_of (DirNode ks rs) = KDir"

text \<open>
  A source maps a hash to its node; \<open>peek\<close> and \<open>load\<close> differ in where they find it, not
  in what they find. A missing node makes \<open>load\<close> throw.
\<close>

type_synonym node_source = "string \<rightharpoonup> tree_node"

definition getNode :: "node_source \<Rightarrow> node_ref \<Rightarrow> tree_node res" where
  "getNode src r = (case src (r_hash r) of Some n \<Rightarrow> Inr n | None \<Rightarrow> Inl (Error ''missing node''))"

definition DEFAULT_LEAF :: nat where
  "DEFAULT_LEAF = 3000"

definition DEFAULT_FANOUT :: nat where
  "DEFAULT_FANOUT = 1024"

section \<open>Searching a sorted array\<close>

definition lowerBound :: "index \<Rightarrow> datom list \<Rightarrow> prefix \<Rightarrow> nat" where
  "lowerBound i ds p = bisect (\<lambda>mid. comparePrefix i (ds ! mid) p < 0) 0 (length ds)"

definition upperBound :: "index \<Rightarrow> datom list \<Rightarrow> prefix \<Rightarrow> nat" where
  "upperBound i ds p = bisect (\<lambda>mid. comparePrefix i (ds ! mid) p \<le> 0) 0 (length ds)"

text \<open>Comparing a number with a component that may be \<open>undefined\<close>: both tests fail then.\<close>

fun cmpNumU :: "int \<Rightarrow> int option \<Rightarrow> int" where
  "cmpNumU x (Some y) = (if x < y then -1 else if x > y then 1 else 0)"
| "cmpNumU x None = 0"

definition prefixComparator :: "index \<Rightarrow> prefix \<Rightarrow> datom \<Rightarrow> prefix \<Rightarrow> int" where
  "prefixComparator i p =
     (let hasE = (p_e p \<noteq> None); hasA = (p_a p \<noteq> None); hasV = (p_v p \<noteq> None); hasT = (p_t p \<noteq> None)
      in if \<not> hasV \<and> \<not> hasT \<and> i = EAVT \<and> hasE \<and> \<not> hasA then (\<lambda>d q. cmpNumU (d_e d) (p_e q))
         else if \<not> hasV \<and> \<not> hasT \<and> i = EAVT \<and> hasE \<and> hasA then
           (\<lambda>d q. or_else (cmpNumU (d_e d) (p_e q)) (cmpNumU (d_a d) (p_a q)))
         else if \<not> hasV \<and> \<not> hasT \<and> i = AEVT \<and> hasA \<and> \<not> hasE then (\<lambda>d q. cmpNumU (d_a d) (p_a q))
         else if \<not> hasV \<and> \<not> hasT \<and> i = AEVT \<and> hasA \<and> hasE then
           (\<lambda>d q. or_else (cmpNumU (d_a d) (p_a q)) (cmpNumU (d_e d) (p_e q)))
         else (\<lambda>d q. comparePrefix i d q))"

text \<open>
  The galloping phase of \<open>lowerBoundFrom\<close> and \<open>upperBoundFrom\<close>; the step doubles, so it
  is kept as its exponent.
\<close>

function gallop :: "(nat \<Rightarrow> bool) \<Rightarrow> nat \<Rightarrow> nat \<Rightarrow> nat \<Rightarrow> nat \<Rightarrow> nat \<times> nat" where
  "gallop lt n lo hi k =
     (if hi < n \<and> lt hi then gallop lt n (hi + 1) (hi + 2 ^ k) (k + 1) else (lo, hi))"
  by pat_completeness auto
termination
  by (relation "measure (\<lambda>(lt, n, lo, hi, k). n - hi)") (auto simp: diff_less_mono2)

declare gallop.simps [simp del]

definition lowerBoundFrom :: "(datom \<Rightarrow> prefix \<Rightarrow> int) \<Rightarrow> datom list \<Rightarrow> prefix \<Rightarrow> nat \<Rightarrow> nat" where
  "lowerBoundFrom cmp ds p from =
     (let n = length ds; (lo, hi) = gallop (\<lambda>h. cmp (ds ! h) p < 0) n from from 0
      in bisect (\<lambda>mid. cmp (ds ! mid) p < 0) lo (min hi n))"

definition upperBoundFrom :: "(datom \<Rightarrow> prefix \<Rightarrow> int) \<Rightarrow> datom list \<Rightarrow> prefix \<Rightarrow> nat \<Rightarrow> nat" where
  "upperBoundFrom cmp ds p from =
     (let n = length ds; (lo, hi) = gallop (\<lambda>h. cmp (ds ! h) p \<le> 0) n from from 0
      in bisect (\<lambda>mid. cmp (ds ! mid) p \<le> 0) lo (min hi n))"

definition lowerBoundDatom :: "(datom \<Rightarrow> datom \<Rightarrow> int) \<Rightarrow> datom list \<Rightarrow> datom \<Rightarrow> nat" where
  "lowerBoundDatom cmp ds d = bisect (\<lambda>mid. cmp (ds ! mid) d < 0) 0 (length ds)"

definition childForPrefix :: "index \<Rightarrow> datom list \<Rightarrow> prefix \<Rightarrow> nat" where
  "childForPrefix i keys p =
     (let lo = bisect (\<lambda>mid. comparePrefix i (keys ! mid) p < 0) 0 (length keys)
      in if lo = 0 then 0 else lo - 1)"

section \<open>Scanning a prefix\<close>

record chunk =
  c_datoms :: "datom list"
  c_start :: nat
  c_end :: nat

text \<open>The datoms a chunk stands for.\<close>

definition chunk_slice :: "chunk \<Rightarrow> datom list" where
  "chunk_slice c = drop (c_start c) (take (c_end c) (c_datoms c))"

definition chunks_datoms :: "chunk list \<Rightarrow> datom list" where
  "chunks_datoms cs = concat (map chunk_slice cs)"

text \<open>
  The cursor is the stack of directory nodes on the path to the current leaf, each with
  the index of its next child. Following references is fuelled; running out is
  \<open>Diverges\<close>. An index past the references is \<open>undefined\<close>, and using it throws.
\<close>

type_synonym frame = "datom list \<times> node_ref list \<times> nat"

fun descend :: "nat \<Rightarrow> node_source \<Rightarrow> (datom list \<Rightarrow> nat) \<Rightarrow> node_ref \<Rightarrow> frame list \<Rightarrow> (datom list \<times> frame list) res" where
  "descend 0 src pick r fs = Inl Diverges"
| "descend (Suc n) src pick r fs =
     rbind (getNode src r) (\<lambda>node. case node of
       LeafNode ds \<Rightarrow> Inr (ds, fs)
     | DirNode ks rs \<Rightarrow>
         (let j = pick ks
          in if j < length rs then descend n src pick (rs ! j) ((ks, rs, j + 1) # fs)
             else Inl (TypeError ''undefined reference'')))"

fun exhausted :: "frame \<Rightarrow> bool" where
  "exhausted (ks, rs, j) = (length rs \<le> j)"

fun scan_rest :: "nat \<Rightarrow> node_source \<Rightarrow> index \<Rightarrow> prefix \<Rightarrow> frame list \<Rightarrow> chunk list res" where
  "scan_rest 0 src i p fs = Inl Diverges"
| "scan_rest (Suc n) src i p fs =
     (case dropWhile exhausted fs of
        [] \<Rightarrow> Inr []
      | (ks, rs, j) # fs' \<Rightarrow>
          if comparePrefix i (ks ! j) p > 0 then Inr []
          else rbind (descend n src (\<lambda>_. 0) (rs ! j) ((ks, rs, j + 1) # fs')) (\<lambda>(ds, fs'').
            let e = upperBound i ds p;
                here = (if e > 0 then [\<lparr>c_datoms = ds, c_start = 0, c_end = e\<rparr>] else [])
            in if e < length ds then Inr here
               else rmap ((@) here) (scan_rest n src i p fs'')))"

definition scan :: "nat \<Rightarrow> node_source \<Rightarrow> index \<Rightarrow> node_ref \<Rightarrow> prefix \<Rightarrow> chunk list res" where
  "scan n src i root p =
     rbind (descend n src (\<lambda>ks. childForPrefix i ks p) root []) (\<lambda>(ds, fs).
       let s = lowerBound i ds p
       in if s < length ds then
            (let e = upperBound i ds p;
                 here = (if s < e then [\<lparr>c_datoms = ds, c_start = s, c_end = e\<rparr>] else [])
             in if e < length ds then Inr here else rmap ((@) here) (scan_rest n src i p fs))
          else scan_rest n src i p fs)"

definition seekOne :: "nat \<Rightarrow> node_source \<Rightarrow> index \<Rightarrow> node_ref \<Rightarrow> prefix \<Rightarrow> datom option res" where
  "seekOne n src i root p =
     rmap (\<lambda>cs. case cs of [] \<Rightarrow> None | c # _ \<Rightarrow> Some (c_datoms c ! c_start c)) (scan n src i root p)"

definition collect :: "nat \<Rightarrow> node_source \<Rightarrow> index \<Rightarrow> node_ref \<Rightarrow> prefix \<Rightarrow> datom list res" where
  "collect n src i root p = rmap chunks_datoms (scan n src i root p)"

section \<open>The abstract tree behind a reference\<close>

datatype atree = ALeaf "datom list" | ADir "(datom \<times> atree) list"

fun contents :: "atree \<Rightarrow> datom list" where
  "contents (ALeaf ds) = ds"
| "contents (ADir kts) = concat (map (\<lambda>(k, t). contents t) kts)"

fun nodes :: "atree \<Rightarrow> nat" where
  "nodes (ALeaf ds) = 1"
| "nodes (ADir kts) = Suc (sum_list (map (\<lambda>(k, t). nodes t) kts))"

fun wf_tree :: "atree \<Rightarrow> bool" where
  "wf_tree (ALeaf ds) = (ds \<noteq> [])"
| "wf_tree (ADir kts) = (kts \<noteq> [] \<and> (\<forall>(k, t) \<in> set kts. wf_tree t \<and> k = hd (contents t)))"

inductive represents :: "node_source \<Rightarrow> node_ref \<Rightarrow> atree \<Rightarrow> bool" for src where
  rep_leaf: "src (r_hash r) = Some (LeafNode ds) \<Longrightarrow> r_kind r = KLeaf \<Longrightarrow> r_count r = length ds \<Longrightarrow>
     represents src r (ALeaf ds)"
| rep_dir: "src (r_hash r) = Some (DirNode (map fst kts) rs) \<Longrightarrow> r_kind r = KDir \<Longrightarrow>
     r_count r = length (contents (ADir kts)) \<Longrightarrow>
     list_all2 (\<lambda>r kt. represents src r (snd kt)) rs kts \<Longrightarrow>
     represents src r (ADir kts)"

inductive_cases represents_leafE: "represents src r (ALeaf ds)"
inductive_cases represents_dirE: "represents src r (ADir kts)"

text \<open>A root may also be the empty leaf.\<close>

definition wf_root :: "index \<Rightarrow> atree \<Rightarrow> bool" where
  "wf_root i t \<longleftrightarrow> (t = ALeaf [] \<or> wf_tree t) \<and> strictly_sorted (comparatorFor i) (contents t) \<and>
     (\<forall>d \<in> set (contents t). datom_ok d)"

section \<open>Searches on sorted arrays\<close>

definition index_sorted :: "index \<Rightarrow> datom list \<Rightarrow> bool" where
  "index_sorted i ds \<longleftrightarrow> strictly_sorted (comparatorFor i) ds \<and> (\<forall>d \<in> set ds. datom_ok d)"

abbreviation below :: "index \<Rightarrow> prefix \<Rightarrow> datom \<Rightarrow> bool" where
  "below i p d \<equiv> comparePrefix i d p < 0"

abbreviation upto_end :: "index \<Rightarrow> prefix \<Rightarrow> datom \<Rightarrow> bool" where
  "upto_end i p d \<equiv> comparePrefix i d p \<le> 0"

abbreviation matching :: "index \<Rightarrow> prefix \<Rightarrow> datom \<Rightarrow> bool" where
  "matching i p d \<equiv> comparePrefix i d p = 0"

lemma index_sorted_append:
  "index_sorted i (xs @ ys) \<longleftrightarrow>
   index_sorted i xs \<and> index_sorted i ys \<and> (\<forall>x\<in>set xs. \<forall>y\<in>set ys. comparatorFor i x y < 0)"
  by (auto simp: index_sorted_def strictly_sorted_append)

lemma index_sorted_simps [simp]:
  "index_sorted i []"
  "index_sorted i (x # xs) \<longleftrightarrow> datom_ok x \<and> (\<forall>y\<in>set xs. comparatorFor i x y < 0) \<and> index_sorted i xs"
  by (auto simp: index_sorted_def)

lemma index_sorted_filter: "index_sorted i ds \<Longrightarrow> index_sorted i (filter P ds)"
  by (simp add: index_sorted_def strictly_sorted_filter)

lemma index_sorted_unique:
  "index_sorted i xs \<Longrightarrow> index_sorted i ys \<Longrightarrow> set xs = set ys \<Longrightarrow> xs = ys"
  by (auto simp: index_sorted_def intro: idx.strictly_sorted_unique)

lemma index_sorted_merge_union:
  "index_sorted i xs \<Longrightarrow> index_sorted i ys \<Longrightarrow> index_sorted i (merge_union (comparatorFor i) xs ys)"
  using idx.strictly_sorted_merge_union [of i xs ys] idx.set_merge_union [of xs ys i]
  by (auto simp: index_sorted_def ball_Un)

lemma set_index_merge_union:
  "index_sorted i xs \<Longrightarrow> index_sorted i ys \<Longrightarrow>
   set (merge_union (comparatorFor i) xs ys) = set xs \<union> set ys"
  using idx.set_merge_union [of xs ys i] by (simp add: index_sorted_def ball_Un)

lemma initial_below: "index_sorted i ds \<Longrightarrow> prefix_ok p \<Longrightarrow> initial_on (below i p) ds"
  by (auto simp: index_sorted_def intro: idx.initial_neg)

lemma initial_upto: "index_sorted i ds \<Longrightarrow> prefix_ok p \<Longrightarrow> initial_on (upto_end i p) ds"
  by (auto simp: index_sorted_def intro: idx.initial_nonpos)

lemma lowerBound_takeWhile:
  "index_sorted i ds \<Longrightarrow> prefix_ok p \<Longrightarrow> lowerBound i ds p = length (takeWhile (below i p) ds)"
  unfolding lowerBound_def by (rule bisect_takeWhile [OF initial_below])

lemma upperBound_takeWhile:
  "index_sorted i ds \<Longrightarrow> prefix_ok p \<Longrightarrow> upperBound i ds p = length (takeWhile (upto_end i p) ds)"
  unfolding upperBound_def by (rule bisect_takeWhile [OF initial_upto])

lemma take_upperBound:
  "index_sorted i ds \<Longrightarrow> prefix_ok p \<Longrightarrow> take (upperBound i ds p) ds = filter (upto_end i p) ds"
  by (metis upperBound_takeWhile take_length_takeWhile initial_on_takeWhile initial_upto)

lemma drop_lowerBound:
  "index_sorted i ds \<Longrightarrow> prefix_ok p \<Longrightarrow>
   drop (lowerBound i ds p) ds = filter (\<lambda>d. \<not> below i p d) ds"
  by (metis lowerBound_takeWhile drop_length_takeWhile initial_on_dropWhile initial_below)

lemma lowerBound_le_upperBound:
  "index_sorted i ds \<Longrightarrow> prefix_ok p \<Longrightarrow> lowerBound i ds p \<le> upperBound i ds p"
  by (simp add: lowerBound_takeWhile upperBound_takeWhile initial_on_takeWhile initial_below
      initial_upto) (induction ds, auto)

lemma upperBound_le_length: "index_sorted i ds \<Longrightarrow> prefix_ok p \<Longrightarrow> upperBound i ds p \<le> length ds"
  by (simp add: upperBound_takeWhile length_takeWhile_le)

lemma slice_bounds:
  assumes "index_sorted i ds" "prefix_ok p"
  shows "drop (lowerBound i ds p) (take (upperBound i ds p) ds) = filter (matching i p) ds"
proof -
  let ?us = "filter (upto_end i p) ds"
  have "lowerBound i ds p = length (filter (below i p) ds)"
    using assms by (simp add: lowerBound_takeWhile initial_on_takeWhile initial_below)
  also have "\<dots> = length (filter (below i p) ?us)"
    by (simp add: conj_commute) (metis (no_types, lifting) order_less_imp_le)
  also have "\<dots> = lowerBound i ?us p"
    using assms by (simp add: lowerBound_takeWhile initial_on_takeWhile initial_below index_sorted_filter)
  finally have "drop (lowerBound i ds p) ?us = filter (\<lambda>d. \<not> below i p d) ?us"
    using assms by (simp add: drop_lowerBound index_sorted_filter)
  also have "\<dots> = filter (matching i p) ds"
    by (simp add: conj_commute) (metis (mono_tags, opaque_lifting) order_antisym_conv not_less order_refl)
  finally show ?thesis using assms by (simp add: take_upperBound)
qed

lemma past_upperBound:
  assumes "index_sorted i (ds @ es)" "prefix_ok p" "upperBound i ds p < length ds"
  shows "filter (matching i p) es = []"
proof -
  have s: "index_sorted i ds" using assms(1) by (simp add: index_sorted_append)
  have "takeWhile (upto_end i p) ds \<noteq> ds"
    using assms(3) upperBound_takeWhile [OF s assms(2)] by (metis less_irrefl)
  then obtain d where d: "d \<in> set ds" "0 < comparePrefix i d p"
    by (auto simp: takeWhile_eq_all_conv not_le)
  have "0 < comparePrefix i e p" if e: "e \<in> set es" for e
  proof (rule idx.pcmp_pos_mono [OF _ _ assms(2) _ d(2)])
    show "datom_ok d" "datom_ok e" "comparatorFor i d e \<le> 0"
      using assms(1) d(1) e by (auto simp: index_sorted_def strictly_sorted_append intro: less_imp_le)
  qed
  then have "\<forall>e\<in>set es. \<not> matching i p e" by (metis less_irrefl)
  then show ?thesis by (simp add: filter_empty_conv)
qed

section \<open>The scan visits exactly the matching datoms\<close>

text \<open>What a cursor frame stands for: the children of an abstract directory from an index on.\<close>

type_synonym aframe = "(datom \<times> atree) list \<times> nat"

fun frame_rep :: "node_source \<Rightarrow> frame \<Rightarrow> aframe \<Rightarrow> bool" where
  "frame_rep src (ks, rs, j) (kts, j') =
     (ks = map fst kts \<and> j = j' \<and> list_all2 (\<lambda>r kt. represents src r (snd kt)) rs kts)"

definition children_datoms :: "(datom \<times> atree) list \<Rightarrow> datom list" where
  "children_datoms kts = concat (map (\<lambda>(k, t). contents t) kts)"

definition pending :: "aframe list \<Rightarrow> datom list" where
  "pending afs = concat (map (\<lambda>(kts, j). children_datoms (drop j kts)) afs)"

definition children_wf :: "(datom \<times> atree) list \<Rightarrow> bool" where
  "children_wf kts \<longleftrightarrow> (\<forall>(k, t) \<in> set kts. wf_tree t \<and> k = hd (contents t))"

definition frames_wf :: "aframe list \<Rightarrow> bool" where
  "frames_wf afs \<longleftrightarrow> (\<forall>(kts, j) \<in> set afs. children_wf kts)"

definition children_nodes :: "(datom \<times> atree) list \<Rightarrow> nat" where
  "children_nodes kts = sum_list (map (\<lambda>(k, t). nodes t) kts)"

definition pending_nodes :: "aframe list \<Rightarrow> nat" where
  "pending_nodes afs = sum_list (map (\<lambda>(kts, j). children_nodes (drop j kts)) afs)"

lemma contents_ADir [simp]: "contents (ADir kts) = children_datoms kts"
  by (simp add: children_datoms_def)

lemma nodes_ADir [simp]: "nodes (ADir kts) = Suc (children_nodes kts)"
  by (simp add: children_nodes_def)

lemma wf_tree_ADir [simp]: "wf_tree (ADir kts) \<longleftrightarrow> kts \<noteq> [] \<and> children_wf kts"
  by (simp add: children_wf_def)

declare contents.simps(2) [simp del] nodes.simps(2) [simp del] wf_tree.simps(2) [simp del]

lemma children_simps [simp]:
  "children_datoms [] = []" "children_datoms ((k, t) # kts) = contents t @ children_datoms kts"
  "children_nodes [] = 0" "children_nodes ((k, t) # kts) = nodes t + children_nodes kts"
  "children_datoms (xs @ ys) = children_datoms xs @ children_datoms ys"
  "children_nodes (xs @ ys) = children_nodes xs + children_nodes ys"
  by (simp_all add: children_datoms_def children_nodes_def)

lemma pending_simps [simp]:
  "pending [] = []" "pending ((kts, j) # afs) = children_datoms (drop j kts) @ pending afs"
  "pending (xs @ ys) = pending xs @ pending ys"
  "pending_nodes [] = 0"
  "pending_nodes ((kts, j) # afs) = children_nodes (drop j kts) + pending_nodes afs"
  "pending_nodes (xs @ ys) = pending_nodes xs + pending_nodes ys"
  by (simp_all add: pending_def pending_nodes_def)

lemma frames_wf_simps [simp]:
  "frames_wf []" "frames_wf ((kts, j) # afs) \<longleftrightarrow> children_wf kts \<and> frames_wf afs"
  "frames_wf (xs @ ys) \<longleftrightarrow> frames_wf xs \<and> frames_wf ys"
  by (auto simp: frames_wf_def)

lemma nodes_pos: "0 < nodes t"
  by (cases t) simp_all

lemma wf_tree_nonempty: "wf_tree t \<Longrightarrow> contents t \<noteq> []"
proof (induction t)
  case (ADir kts)
  then obtain k t kts' where kts: "kts = (k, t) # kts'" by (cases kts) auto
  with ADir.prems have "wf_tree t" by (auto simp: children_wf_def)
  with ADir.IH [of "(k, t)" t] kts show ?case by simp
qed simp

lemma split_child:
  assumes "j < length kts"
  obtains k t where "kts ! j = (k, t)" and "drop j kts = (k, t) # drop (Suc j) kts"
    and "kts = take j kts @ (k, t) # drop (Suc j) kts"
  using assms by (metis Cons_nth_drop_Suc id_take_nth_drop surj_pair)

lemma descend_leftmost:
  assumes "represents src r t" and "wf_tree t" and "nodes t \<le> n"
  shows "\<exists>ds gs ags. descend n src (\<lambda>_. 0) r fs = Inr (ds, gs @ fs) \<and> list_all2 (frame_rep src) gs ags \<and>
    frames_wf ags \<and> contents t = ds @ pending ags \<and> ds \<noteq> [] \<and> pending_nodes ags < nodes t"
  using assms
proof (induction t arbitrary: r n fs rule: atree.induct)
  case (ALeaf ds)
  then obtain m where "n = Suc m" by (cases n) auto
  with ALeaf show ?case by (auto simp: getNode_def elim!: represents_leafE)
next
  case (ADir kts)
  obtain rs where rs: "src (r_hash r) = Some (DirNode (map fst kts) rs)"
    and reps: "list_all2 (\<lambda>r kt. represents src r (snd kt)) rs kts"
    using ADir.prems(1) by (auto elim!: represents_dirE)
  obtain m where m: "n = Suc m" using ADir.prems(3) by (cases n) auto
  obtain k t kts' where kts: "kts = (k, t) # kts'" using ADir.prems(2) by (cases kts) auto
  obtain r0 rs' where rs': "rs = r0 # rs'" "represents src r0 t" using reps kts by (cases rs) auto
  have "wf_tree t" "nodes t \<le> m" using ADir.prems kts m by (auto simp: children_wf_def)
  then obtain ds gs ags where IH: "descend m src (\<lambda>_. 0) r0 ((map fst kts, rs, 1) # fs) =
      Inr (ds, gs @ (map fst kts, rs, 1) # fs)" "list_all2 (frame_rep src) gs ags"
      "frames_wf ags" "contents t = ds @ pending ags" "ds \<noteq> []" "pending_nodes ags < nodes t"
    using ADir.IH [of "(k, t)" t r0 m "(map fst kts, rs, 1) # fs"] kts rs' by auto
  let ?gs = "gs @ [(map fst kts, rs, 1)]" and ?ags = "ags @ [(kts, 1)]"
  have "descend n src (\<lambda>_. 0) r fs = Inr (ds, ?gs @ fs)"
    using rs rs' m IH(1) by (simp add: getNode_def)
  moreover have "list_all2 (frame_rep src) ?gs ?ags"
    using IH(2) reps by (simp add: list_all2_appendI)
  moreover have "frames_wf ?ags" using IH(3) ADir.prems(2) by simp
  moreover have "contents (ADir kts) = ds @ pending ?ags" using IH(4) kts by simp
  moreover have "pending_nodes ?ags < nodes (ADir kts)" using IH(6) kts by simp
  ultimately show ?case using IH(5) by blast
qed

lemma keys_sorted:
  assumes "children_wf kts" and "index_sorted i (children_datoms kts)"
  shows "index_sorted i (map fst kts)"
  using assms
proof (induction kts)
  case (Cons kt kts)
  obtain k t where kt: "kt = (k, t)" by (cases kt)
  have wf: "children_wf kts" "wf_tree t" "k = hd (contents t)" "contents t \<noteq> []"
    using Cons.prems(1) kt wf_tree_nonempty by (auto simp: children_wf_def)
  have sorted: "index_sorted i (contents t)" "index_sorted i (children_datoms kts)"
    "\<forall>x\<in>set (contents t). \<forall>y\<in>set (children_datoms kts). comparatorFor i x y < 0"
    using Cons.prems(2) kt by (auto simp: index_sorted_append)
  have k: "k \<in> set (contents t)" using wf by simp
  have "fst kt' \<in> set (children_datoms kts)" if "kt' \<in> set kts" for kt'
  proof -
    obtain k' t' where kt': "kt' = (k', t')" by (cases kt')
    then have "wf_tree t'" "k' = hd (contents t')" using wf(1) that by (auto simp: children_wf_def)
    then have "k' \<in> set (contents t')" using wf_tree_nonempty by simp
    then show ?thesis using that kt' by (auto simp: children_datoms_def)
  qed
  then have "\<forall>y\<in>set (map fst kts). comparatorFor i k y < 0" using sorted(3) k by auto
  moreover have "datom_ok k" using sorted(1) k by (auto simp: index_sorted_def)
  ultimately show ?case using Cons.IH [OF wf(1) sorted(2)] kt by simp
qed simp

lemma children_wf_append [simp]:
  "children_wf (xs @ ys) \<longleftrightarrow> children_wf xs \<and> children_wf ys"
  "children_wf ((k, t) # kts) \<longleftrightarrow> wf_tree t \<and> k = hd (contents t) \<and> children_wf kts"
  "children_wf []"
  by (auto simp: children_wf_def)

text \<open>The first datom of a child bounds every datom of the children before it.\<close>

lemma before_key_below:
  assumes "index_sorted i (xs @ ys)" "ys \<noteq> []" "prefix_ok p" "below i p (hd ys)" "d \<in> set xs"
  shows "below i p d"
proof (rule idx.pcmp_neg_mono [OF _ _ assms(3) _ assms(4)])
  show "datom_ok d" "datom_ok (hd ys)" "comparatorFor i d (hd ys) \<le> 0"
    using assms(1,2,5) by (auto simp: index_sorted_def strictly_sorted_append intro: less_imp_le)
qed

text \<open>From a datom that is not below the prefix on, none is.\<close>

lemma after_not_below:
  assumes "index_sorted i (x # xs)" "prefix_ok p" "\<not> below i p x" "d \<in> set (x # xs)"
  shows "\<not> below i p d"
proof (cases "d = x")
  case False
  with assms have d: "datom_ok x" "datom_ok d" "comparatorFor i x d \<le> 0"
    by (auto simp: index_sorted_def less_imp_le)
  with idx.pcmp_neg_mono [OF d(1,2) assms(2) d(3)] assms(3) show ?thesis by blast
qed (use assms in simp)

text \<open>\<open>childForPrefix\<close> picks the last child whose key is below the prefix, or the first.\<close>

lemma childForPrefix_spec:
  assumes "index_sorted i ks" "prefix_ok p" "ks \<noteq> []"
  defines "j \<equiv> childForPrefix i ks p"
  shows "j < length ks" and "0 < j \<Longrightarrow> below i p (ks ! j)"
    and "\<And>m. j < m \<Longrightarrow> m < length ks \<Longrightarrow> \<not> below i p (ks ! m)"
proof -
  define lo where "lo = length (takeWhile (below i p) ks)"
  have j: "j = lo - 1"
    using lowerBound_takeWhile [OF assms(1,2)] unfolding j_def childForPrefix_def lowerBound_def lo_def
    by (simp add: Let_def)
  have lo: "lo \<le> length ks" by (simp add: lo_def length_takeWhile_le)
  have "0 < length ks" using assms(3) by simp
  then show "j < length ks" using j lo by linarith
  show "below i p (ks ! j)" if "0 < j"
  proof -
    have "j < lo" using that j by simp
    then show ?thesis using nth_mem [of j "takeWhile (below i p) ks"] set_takeWhileD
      by (metis lo_def takeWhile_nth)
  qed
  show "\<not> below i p (ks ! m)" if m: "j < m" "m < length ks" for m
  proof -
    have "lo \<le> m" using m j by simp
    moreover have "\<not> below i p (ks ! lo)" if "lo < length ks"
      using that nth_length_takeWhile [of "below i p" ks] by (simp add: lo_def)
    ultimately show ?thesis
      using initial_on_nth [OF initial_below [OF assms(1,2)]] m by (meson le_less_trans)
  qed
qed

lemma children_not_below:
  assumes "children_wf kts" "index_sorted i (children_datoms kts)" "prefix_ok p"
    "kts \<noteq> [] \<Longrightarrow> \<not> below i p (fst (hd kts))" "d \<in> set (children_datoms kts)"
  shows "\<not> below i p d"
proof (cases kts)
  case (Cons kt kts')
  obtain k t where kt: "kt = (k, t)" by (cases kt)
  then have t: "contents t \<noteq> []" "k = hd (contents t)"
    using assms(1) Cons wf_tree_nonempty by auto
  then obtain x xs where x: "contents t = x # xs" "k = x" by (cases "contents t") auto
  show ?thesis
    using after_not_below [of i x "xs @ children_datoms kts'" p d] assms Cons kt x by simp
qed (use assms in simp)

lemma descend_to_prefix:
  assumes "represents src r t" and "wf_tree t" and "nodes t \<le> n"
    and "index_sorted i (contents t)" and "prefix_ok p"
  shows "\<exists>ds gs ags pre. descend n src (\<lambda>ks. childForPrefix i ks p) r fs = Inr (ds, gs @ fs) \<and>
    list_all2 (frame_rep src) gs ags \<and> frames_wf ags \<and> contents t = pre @ ds @ pending ags \<and>
    pending_nodes ags < nodes t \<and> (\<forall>d\<in>set pre. below i p d) \<and>
    (\<forall>d\<in>set (pending ags). \<not> below i p d)"
  using assms(1-4)
proof (induction t arbitrary: r n fs rule: atree.induct)
  case (ALeaf ds)
  then obtain m where "n = Suc m" by (cases n) auto
  with ALeaf have "descend n src (\<lambda>ks. childForPrefix i ks p) r fs = Inr (ds, [] @ fs)"
    by (auto simp: getNode_def elim!: represents_leafE)
  then show ?case by (intro exI [of _ ds] exI [of _ "[]"]) auto
next
  case (ADir kts)
  obtain rs where rs: "src (r_hash r) = Some (DirNode (map fst kts) rs)"
    and reps: "list_all2 (\<lambda>r kt. represents src r (snd kt)) rs kts"
    using ADir.prems(1) by (auto elim!: represents_dirE)
  obtain m where m: "n = Suc m" using ADir.prems(3) by (cases n) auto
  have wf: "children_wf kts" "kts \<noteq> []" and sorted: "index_sorted i (children_datoms kts)"
    using ADir.prems by auto
  define j where "j = childForPrefix i (map fst kts) p"
  note pick = childForPrefix_spec [OF keys_sorted [OF wf(1) sorted] assms(5), folded j_def]
  have j: "j < length kts" using pick(1) wf(2) by simp
  obtain k t where kt: "kts ! j = (k, t)" "drop j kts = (k, t) # drop (Suc j) kts"
    "kts = take j kts @ (k, t) # drop (Suc j) kts" by (rule split_child [OF j])
  have lens: "length rs = length kts" using reps by (rule list_all2_lengthD)
  have rep_t: "represents src (rs ! j) t" using list_all2_nthD [OF reps, of j] j lens kt(1) by simp
  have parts: "children_wf (take j kts)" "wf_tree t" "k = hd (contents t)" "children_wf (drop (Suc j) kts)"
    using wf(1) kt(3) children_wf_append by metis+
  have split: "children_datoms kts =
      children_datoms (take j kts) @ contents t @ children_datoms (drop (Suc j) kts)"
    using arg_cong [OF kt(3), of children_datoms] by simp
  have sorted_t: "index_sorted i (contents t)"
    using sorted unfolding split by (auto simp: index_sorted_append)
  have nodes_t: "nodes t + children_nodes (drop (Suc j) kts) \<le> m"
    using arg_cong [OF kt(3), of children_nodes] ADir.prems(3) m by simp
  have "(k, t) \<in> set kts" using kt(1) j by (metis nth_mem)
  then obtain ds gs ags pre where IH:
      "descend m src (\<lambda>ks. childForPrefix i ks p) (rs ! j) ((map fst kts, rs, Suc j) # fs) =
        Inr (ds, gs @ (map fst kts, rs, Suc j) # fs)" "list_all2 (frame_rep src) gs ags"
      "frames_wf ags" "contents t = pre @ ds @ pending ags" "pending_nodes ags < nodes t"
      "\<forall>d\<in>set pre. below i p d" "\<forall>d\<in>set (pending ags). \<not> below i p d"
    using ADir.IH [of "(k, t)" t "rs ! j" m "(map fst kts, rs, Suc j) # fs"] rep_t parts(2) nodes_t
      sorted_t by auto
  let ?gs = "gs @ [(map fst kts, rs, Suc j)]" and ?ags = "ags @ [(kts, Suc j)]"
  let ?pre = "children_datoms (take j kts) @ pre"
  have "descend n src (\<lambda>ks. childForPrefix i ks p) r fs = Inr (ds, ?gs @ fs)"
    using rs m IH(1) j lens by (simp add: getNode_def j_def)
  moreover have "list_all2 (frame_rep src) ?gs ?ags"
    using IH(2) reps by (simp add: list_all2_appendI)
  moreover have "frames_wf ?ags" using IH(3) wf by simp
  moreover have "contents (ADir kts) = ?pre @ ds @ pending ?ags" using IH(4) split by simp
  moreover have "pending_nodes ?ags < nodes (ADir kts)"
    using IH(5) arg_cong [OF kt(3), of children_nodes] by simp
  moreover have "\<forall>d\<in>set ?pre. below i p d"
  proof -
    have "below i p d" if d: "d \<in> set (children_datoms (take j kts))" for d
    proof (rule before_key_below [of i "children_datoms (take j kts)" "contents t @ children_datoms (drop (Suc j) kts)"])
      have "0 < j" using d by (cases j) auto
      then have "below i p k" using pick(2) wf(2) j kt(1) by simp
      then show "below i p (hd (contents t @ children_datoms (drop (Suc j) kts)))"
        using parts(3) wf_tree_nonempty [OF parts(2)] by simp
    qed (use sorted split wf_tree_nonempty [OF parts(2)] assms(5) d in auto)
    then show ?thesis using IH(6) by auto
  qed
  moreover have "\<forall>d\<in>set (pending ?ags). \<not> below i p d"
  proof -
    have "\<not> below i p d" if d: "d \<in> set (children_datoms (drop (Suc j) kts))" for d
    proof (rule children_not_below [OF parts(4) _ assms(5) _ d])
      show "index_sorted i (children_datoms (drop (Suc j) kts))"
        using sorted unfolding split by (auto simp: index_sorted_append)
      show "\<not> below i p (fst (hd (drop (Suc j) kts)))" if ne: "drop (Suc j) kts \<noteq> []"
        using pick(3) [of "Suc j"] wf(2) ne by (simp add: hd_drop_conv_nth)
    qed
    then show ?thesis using IH(7) by auto
  qed
  ultimately show ?case by blast
qed

lemma pending_dropWhile:
  "list_all2 (frame_rep src) fs afs \<Longrightarrow>
   \<exists>afs'. list_all2 (frame_rep src) (dropWhile exhausted fs) afs' \<and> pending afs' = pending afs \<and>
     pending_nodes afs' = pending_nodes afs \<and> (frames_wf afs \<longrightarrow> frames_wf afs')"
proof (induction fs afs rule: list_all2_induct)
  case (Cons f fs af afs)
  obtain ks rs j where f: "f = (ks, rs, j)" by (cases f)
  obtain kts where af: "af = (kts, j)" using Cons.hyps(1) f by (cases af) auto
  have len: "length rs = length kts" using Cons.hyps(1) f af by (auto dest: list_all2_lengthD)
  show ?case
  proof (cases "exhausted f")
    case True
    then have "drop j kts = []" using f len by simp
    with Cons.IH True f af show ?thesis by auto
  next
    case False
    with Cons.hyps show ?thesis by (intro exI [of _ "af # afs"]) auto
  qed
qed auto

text \<open>
  Continuing after a leaf: all pending datoms are at or past the prefix, and the rest of
  the scan yields those that match.
\<close>

lemma scan_rest_correct:
  assumes "list_all2 (frame_rep src) fs afs" "frames_wf afs" "index_sorted i (pending afs)"
    "prefix_ok p" "\<forall>d\<in>set (pending afs). \<not> below i p d" "pending_nodes afs < n"
  shows "\<exists>cs. scan_rest n src i p fs = Inr cs \<and> chunks_datoms cs = filter (matching i p) (pending afs) \<and>
    (\<forall>c\<in>set cs. c_start c < c_end c \<and> c_end c \<le> length (c_datoms c))"
  using assms
proof (induction n arbitrary: fs afs)
  case (Suc n)
  obtain afs' where afs': "list_all2 (frame_rep src) (dropWhile exhausted fs) afs'"
      "pending afs' = pending afs" "pending_nodes afs' = pending_nodes afs" "frames_wf afs'"
    using pending_dropWhile [OF Suc.prems(1)] Suc.prems(2) by auto
  show ?case
  proof (cases "dropWhile exhausted fs")
    case Nil
    then have "afs' = []" using afs'(1) by (metis list_all2_Nil)
    then have "pending afs = []" using afs'(2) by simp
    moreover have "scan_rest (Suc n) src i p fs = Inr []"
      by (simp only: scan_rest.simps Nil list.case)
    ultimately show ?thesis by (simp add: chunks_datoms_def)
  next
    case (Cons f gs)
    obtain ks rs j where f: "f = (ks, rs, j)" by (cases f)
    obtain kts ags where af: "afs' = (kts, j) # ags" and ks: "ks = map fst kts"
      and reps: "list_all2 (\<lambda>r kt. represents src r (snd kt)) rs kts"
      and gs: "list_all2 (frame_rep src) gs ags"
      using afs'(1) Cons f by (auto simp: list_all2_Cons1)
    have "\<not> exhausted f" using Cons by (metis dropWhile_eq_Cons_conv)
    then have j: "j < length rs" "j < length kts" using f list_all2_lengthD [OF reps] by auto
    obtain k t where kt: "kts ! j = (k, t)" "drop j kts = (k, t) # drop (Suc j) kts"
      "kts = take j kts @ (k, t) # drop (Suc j) kts" by (rule split_child [OF j(2)])
    have parts: "wf_tree t" "k = hd (contents t)"
      using afs'(4) af kt(3) by (metis children_wf_append(1,2) frames_wf_simps(2))+
    let ?later = "children_datoms (drop (Suc j) kts) @ pending ags"
    have pend: "pending afs = contents t @ ?later" using afs'(2) af kt(2) by simp
    have nodes: "nodes t + children_nodes (drop (Suc j) kts) + pending_nodes ags \<le> n"
      using afs'(3) af kt(2) Suc.prems(6) by simp
    have wfs: "frames_wf ((kts, Suc j) # ags)" using afs'(4) af by simp
    have keyj: "ks ! j = k" using ks kt(1) j by simp
    have kin: "k \<in> set (contents t)" using parts wf_tree_nonempty by simp
    show ?thesis
    proof (cases "comparePrefix i k p > 0")
      case True
      have "\<not> matching i p d" if d: "d \<in> set (pending afs)" for d
      proof -
        obtain xs where xs: "pending afs = k # xs"
          using pend parts wf_tree_nonempty [OF parts(1)] by (cases "contents t") auto
        have "0 < comparePrefix i d p"
        proof (cases "d = k")
          case False
          then show ?thesis
            using idx.pcmp_pos_mono [OF _ _ Suc.prems(4) _ True, of d] Suc.prems(3) d xs
            by (auto simp: index_sorted_def intro: less_imp_le)
        qed (use True in simp)
        then show ?thesis by simp
      qed
      then have "filter (matching i p) (pending afs) = []" by (simp add: filter_empty_conv)
      then show ?thesis using Cons f True keyj by (simp add: chunks_datoms_def)
    next
      case False
      obtain ds hs ahs where D: "descend n src (\<lambda>_. 0) (rs ! j) ((ks, rs, Suc j) # gs) =
          Inr (ds, hs @ (ks, rs, Suc j) # gs)" "list_all2 (frame_rep src) hs ahs" "frames_wf ahs"
          "contents t = ds @ pending ahs" "ds \<noteq> []" "pending_nodes ahs < nodes t"
        using descend_leftmost [of src "rs ! j" t n "(ks, rs, Suc j) # gs"]
          list_all2_nthD [OF reps j(1)] kt(1) parts(1) nodes by auto
      let ?e = "upperBound i ds p"
      define here where "here = (if ?e > 0 then [\<lparr>c_datoms = ds, c_start = 0, c_end = ?e\<rparr>] else [])"
      define rest where "rest = pending ahs @ ?later"
      have pend2: "pending afs = ds @ rest" using pend D(4) by (simp add: rest_def)
      have sds: "index_sorted i ds" "index_sorted i rest"
        using Suc.prems(3) pend2 by (simp_all add: index_sorted_append)
      have "filter (upto_end i p) ds = filter (matching i p) ds"
        using Suc.prems(5) pend2 by (intro filter_cong) (auto simp: not_less intro: order_antisym)
      then have "take ?e ds = filter (matching i p) ds"
        using take_upperBound [OF sds(1) Suc.prems(4)] by simp
      then have hd: "chunks_datoms here = filter (matching i p) ds"
        by (auto simp: here_def chunks_datoms_def chunk_slice_def)
      have hbounds: "\<forall>c\<in>set here. c_start c < c_end c \<and> c_end c \<le> length (c_datoms c)"
        using upperBound_le_length [OF sds(1) Suc.prems(4)] by (simp add: here_def)
      have unf: "scan_rest (Suc n) src i p fs = (if ?e < length ds then Inr here
          else rmap ((@) here) (scan_rest n src i p (hs @ (ks, rs, Suc j) # gs)))"
        using Cons f keyj False D(1) by (simp add: here_def Let_def)
      show ?thesis
      proof (cases "?e < length ds")
        case True
        then have "filter (matching i p) rest = []"
          using past_upperBound Suc.prems(3,4) pend2 by metis
        then show ?thesis using unf True hd hbounds pend2 by simp
      next
        case False
        have "list_all2 (frame_rep src) (hs @ (ks, rs, Suc j) # gs) (ahs @ (kts, Suc j) # ags)"
          using D(2) gs ks reps by (simp add: list_all2_appendI)
        moreover have pr: "pending (ahs @ (kts, Suc j) # ags) = rest" by (simp add: rest_def)
        moreover have "frames_wf (ahs @ (kts, Suc j) # ags)" using D(3) wfs by simp
        moreover have "pending_nodes (ahs @ (kts, Suc j) # ags) < n" using D(6) nodes by simp
        moreover have "\<forall>d\<in>set rest. \<not> below i p d" using Suc.prems(5) pend2 by simp
        ultimately obtain cs where "scan_rest n src i p (hs @ (ks, rs, Suc j) # gs) = Inr cs"
            "chunks_datoms cs = filter (matching i p) rest"
            "\<forall>c\<in>set cs. c_start c < c_end c \<and> c_end c \<le> length (c_datoms c)"
          using Suc.IH sds(2) Suc.prems(4) by metis
        then show ?thesis using unf False hd hbounds pend2
          by (intro exI [of _ "here @ cs"]) (auto simp: chunks_datoms_def)
      qed
    qed
  qed
qed simp

lemma filter_matching_below:
  "\<forall>d\<in>set xs. below i p d \<Longrightarrow> filter (matching i p) xs = []"
  by (force simp: filter_empty_conv)

text \<open>
  The descent from the root, be it the empty leaf: what is left of the leaf it reaches is
  below the prefix, what is right of it is not.
\<close>

lemma descend_root:
  assumes rep: "represents src root t" and wf: "wf_root i t" and p: "prefix_ok p" and n: "nodes t < n"
  shows "\<exists>ds gs ags pre. descend n src (\<lambda>ks. childForPrefix i ks p) root [] = Inr (ds, gs) \<and>
    list_all2 (frame_rep src) gs ags \<and> frames_wf ags \<and> contents t = pre @ ds @ pending ags \<and>
    pending_nodes ags < nodes t \<and> (\<forall>d\<in>set pre. below i p d) \<and>
    (\<forall>d\<in>set (pending ags). \<not> below i p d)"
proof (cases "wf_tree t")
  case True
  have sorted: "index_sorted i (contents t)" using wf by (auto simp: wf_root_def index_sorted_def)
  show ?thesis using descend_to_prefix [OF rep True _ sorted p, of n "[]"] n by auto
next
  case False
  then have t: "t = ALeaf []" using wf by (simp add: wf_root_def)
  moreover obtain m where "n = Suc m" using n by (cases n) auto
  ultimately have "descend n src (\<lambda>ks. childForPrefix i ks p) root [] = Inr ([], [])"
    using rep by (auto simp: getNode_def elim!: represents_leafE)
  then show ?thesis using t by (intro exI [of _ "[]"]) auto
qed

lemma scan_correct:
  assumes rep: "represents src root t" and wf: "wf_root i t" and p: "prefix_ok p" and n: "nodes t < n"
  shows "\<exists>cs. scan n src i root p = Inr cs \<and> chunks_datoms cs = filter (matching i p) (contents t) \<and>
    (\<forall>c\<in>set cs. c_start c < c_end c \<and> c_end c \<le> length (c_datoms c))"
proof -
  have sorted: "index_sorted i (contents t)" using wf by (auto simp: wf_root_def index_sorted_def)
  obtain ds gs ags pre where D:
      "descend n src (\<lambda>ks. childForPrefix i ks p) root [] = Inr (ds, gs)"
      "list_all2 (frame_rep src) gs ags" "frames_wf ags" "contents t = pre @ ds @ pending ags"
      "pending_nodes ags < nodes t" "\<forall>d\<in>set pre. below i p d" "\<forall>d\<in>set (pending ags). \<not> below i p d"
    using descend_root [OF rep wf p n] by blast
  have sorted': "index_sorted i (ds @ pending ags)" "index_sorted i ds" "index_sorted i (pending ags)"
    using sorted D(4) by (simp_all add: index_sorted_append)
  let ?s = "lowerBound i ds p" and ?e = "upperBound i ds p"
  obtain cs where R: "scan_rest n src i p gs = Inr cs"
      "chunks_datoms cs = filter (matching i p) (pending ags)"
      "\<forall>c\<in>set cs. c_start c < c_end c \<and> c_end c \<le> length (c_datoms c)"
    using scan_rest_correct [OF D(2,3) sorted'(3) p D(7), of n] D(5) n by auto
  define here where "here = (if ?s < ?e then [\<lparr>c_datoms = ds, c_start = ?s, c_end = ?e\<rparr>] else [])"
  have "drop ?s (take ?e ds) = filter (matching i p) ds" by (rule slice_bounds [OF sorted'(2) p])
  then have hd: "chunks_datoms here = filter (matching i p) ds"
    by (auto simp: here_def chunks_datoms_def chunk_slice_def not_less)
  have hbounds: "\<forall>c\<in>set here. c_start c < c_end c \<and> c_end c \<le> length (c_datoms c)"
    using upperBound_le_length [OF sorted'(2) p] by (simp add: here_def)
  have pre: "filter (matching i p) pre = []" by (rule filter_matching_below [OF D(6)])
  have unf: "scan n src i root p = (if ?s < length ds
      then (if ?e < length ds then Inr here else Inr (here @ cs)) else Inr cs)"
    using D(1) R(1) by (simp add: scan_def here_def Let_def)
  consider "?s < length ds" "?e < length ds" | "?s < length ds" "\<not> ?e < length ds" | "\<not> ?s < length ds"
    by blast
  then show ?thesis
  proof cases
    case 1
    then have "filter (matching i p) (pending ags) = []" using past_upperBound sorted'(1) p by blast
    then show ?thesis using unf 1 hd hbounds pre D(4) by simp
  next
    case 2
    then show ?thesis using unf hd hbounds pre D(4) R
      by (intro exI [of _ "here @ cs"]) (auto simp: chunks_datoms_def)
  next
    case 3
    then have "here = []"
      using upperBound_le_length [OF sorted'(2) p] by (simp add: here_def)
    then have "filter (matching i p) ds = []" using hd by (simp add: chunks_datoms_def)
    then show ?thesis using unf 3 pre D(4) R by simp
  qed
qed

end
