(* ===== verification/TreeWrite.thy ===== *)
theory TreeWrite
  imports SegTree
begin

text \<open>
  Building and merging segment trees (\<open>internal/core/tree.ts\<close>). The code takes a
  \<open>NodeStore\<close> as an argument; the model takes its \<open>put\<close> and its read side. The locale
  \<open>node_store\<close> states what the tree code relies on: a stored node can be fetched by the
  reference that \<open>put\<close> returned, and nothing stored before is lost or changed. In it,
  building yields a well-formed tree of exactly the given datoms, and merging yields the
  sorted union with the novelty while all old roots stay readable.
\<close>

section \<open>Definitions\<close>

text \<open>\<open>Math.ceil(a / b)\<close> for a positive \<open>b\<close>.\<close>

definition ceil_div :: "nat \<Rightarrow> nat \<Rightarrow> nat" where
  "ceil_div a b = (a + b - 1) div b"

text \<open>
  The loop \<open>for (let i = 0; i < xs.length; i += per) \<dots> xs.slice(i, i + per)\<close>. It does not
  end for \<open>per = 0\<close>, which positive leaf sizes and fanouts exclude.
\<close>

function slices :: "nat \<Rightarrow> 'a list \<Rightarrow> 'a list list" where
  "slices per xs = (if xs = [] \<or> per = 0 then [] else take per xs # slices per (drop per xs))"
  by pat_completeness auto
termination
  by (relation "measure (\<lambda>(per, xs). length xs)") auto

declare slices.simps [simp del]

type_synonym entry = "datom \<times> node_ref"
type_synonym 's put = "'s \<Rightarrow> index \<Rightarrow> tree_node \<Rightarrow> (node_ref \<times> 's) res"

fun countOf :: "tree_node \<Rightarrow> nat" where
  "countOf (LeafNode ds) = length ds"
| "countOf (DirNode ks rs) = sum_list (map r_count rs)"

fun put_leaves :: "'s put \<Rightarrow> index \<Rightarrow> 's \<Rightarrow> datom list list \<Rightarrow> (entry list \<times> 's) res" where
  "put_leaves put i s [] = Inr ([], s)"
| "put_leaves put i s (ds # dss) =
     rbind (put s i (LeafNode ds)) (\<lambda>(r, s'). rbind (put_leaves put i s' dss) (\<lambda>(es, s'').
       Inr ((hd ds, r) # es, s'')))"

fun put_dirs :: "'s put \<Rightarrow> index \<Rightarrow> 's \<Rightarrow> entry list list \<Rightarrow> (entry list \<times> 's) res" where
  "put_dirs put i s [] = Inr ([], s)"
| "put_dirs put i s (g # gs) =
     rbind (put s i (DirNode (map fst g) (map snd g))) (\<lambda>(r, s'). rbind (put_dirs put i s' gs) (\<lambda>(es, s'').
       Inr ((fst (hd g), r) # es, s'')))"

text \<open>Group entries into at most \<open>fanout\<close> per directory, evenly.\<close>

definition group_entries :: "nat \<Rightarrow> entry list \<Rightarrow> entry list list" where
  "group_entries fanout es =
     (let groups = ceil_div (length es) fanout; per = ceil_div (length es) groups in slices per es)"

fun build_levels :: "nat \<Rightarrow> 's put \<Rightarrow> index \<Rightarrow> nat \<Rightarrow> 's \<Rightarrow> entry list \<Rightarrow> (node_ref \<times> 's) res" where
  "build_levels 0 put i fanout s lvl = Inl Diverges"
| "build_levels (Suc n) put i fanout s lvl =
     (if length lvl > 1 then
        rbind (put_dirs put i s (group_entries fanout lvl)) (\<lambda>(nxt, s'). build_levels n put i fanout s' nxt)
      else case lvl of [] \<Rightarrow> Inl (TypeError ''undefined entry'') | (k, r) # _ \<Rightarrow> Inr (r, s))"

text \<open>
  Each round at least shortens the level when the fanout is two or more, so the number
  of entries is fuel enough; with fanout 1 the loop of the code does not end.
\<close>

definition buildLevels :: "'s put \<Rightarrow> index \<Rightarrow> nat \<Rightarrow> 's \<Rightarrow> entry list \<Rightarrow> (node_ref \<times> 's) res" where
  "buildLevels put i fanout s es = build_levels (Suc (length es)) put i fanout s es"

definition buildTree :: "'s put \<Rightarrow> index \<Rightarrow> nat \<Rightarrow> nat \<Rightarrow> 's \<Rightarrow> datom list \<Rightarrow> (node_ref \<times> 's) res" where
  "buildTree put i leafSize fanout s ds =
     (if ds = [] then put s i (LeafNode [])
      else
        let nLeaves = ceil_div (length ds) leafSize; per = ceil_div (length ds) nLeaves
        in rbind (put_leaves put i s (slices per ds)) (\<lambda>(es, s'). buildLevels put i fanout s' es))"

definition sortedUnion :: "(datom \<Rightarrow> datom \<Rightarrow> int) \<Rightarrow> datom list \<Rightarrow> datom list \<Rightarrow> datom list" where
  "sortedUnion cmp a b = merge_union cmp a b"

definition slice :: "nat \<Rightarrow> nat \<Rightarrow> 'a list \<Rightarrow> 'a list" where
  "slice lo hi xs = drop lo (take hi xs)"

text \<open>
  The loop over the children of a directory: the novelty range \<open>[start, hi)\<close> is cut at
  each next key; a child with novelty is merged by \<open>rec\<close>, the others are kept.
\<close>

fun merge_children ::
  "('s \<Rightarrow> node_ref \<Rightarrow> datom \<Rightarrow> nat \<Rightarrow> nat \<Rightarrow> (entry list \<times> 's) res) \<Rightarrow> (datom \<Rightarrow> datom \<Rightarrow> int) \<Rightarrow>
   datom list \<Rightarrow> nat \<Rightarrow> 's \<Rightarrow> nat \<Rightarrow> entry list \<Rightarrow> (entry list \<times> bool \<times> 's) res" where
  "merge_children rec cmp nov hi s start [] = Inr ([], False, s)"
| "merge_children rec cmp nov hi s start ((k, r) # rest) =
     (let e = (case rest of [] \<Rightarrow> hi
               | (k', r') # rest' \<Rightarrow> bisect (\<lambda>mid. cmp (nov ! mid) k' < 0) start hi)
      in if start < e then
           rbind (rec s r k start e) (\<lambda>(sub, s').
           rbind (merge_children rec cmp nov hi s' e rest) (\<lambda>(es, ch, s'').
             Inr (sub @ es, (length sub \<noteq> 1 \<or> r_hash (snd (hd sub)) \<noteq> r_hash r) \<or> ch, s'')))
         else
           rbind (merge_children rec cmp nov hi s e rest) (\<lambda>(es, ch, s'). Inr ((k, r) # es, ch, s')))"

fun mergeNode ::
  "nat \<Rightarrow> ('s \<Rightarrow> node_source) \<Rightarrow> 's put \<Rightarrow> index \<Rightarrow> nat \<Rightarrow> nat \<Rightarrow> datom list \<Rightarrow>
   's \<Rightarrow> node_ref \<Rightarrow> datom option \<Rightarrow> nat \<Rightarrow> nat \<Rightarrow> (entry list \<times> 's) res" where
  "mergeNode 0 get put i leafSize fanout nov s r key lo hi = Inl Diverges"
| "mergeNode (Suc n) get put i leafSize fanout nov s r key lo hi =
     (if lo \<ge> hi then
        (case key of Some k \<Rightarrow> Inr ([(k, r)], s) | None \<Rightarrow> Inl (TypeError ''undefined key''))
      else rbind (getNode (get s) r) (\<lambda>node. case node of
        LeafNode ds \<Rightarrow>
          (let merged = sortedUnion (comparatorFor i) ds (slice lo hi nov)
           in if length merged = length ds then
                Inr ([(case key of Some k \<Rightarrow> k | None \<Rightarrow> hd ds, r)], s)
              else if length merged \<le> leafSize * 3 div 2 then
                rbind (put s i (LeafNode merged)) (\<lambda>(r', s'). Inr ([(hd merged, r')], s'))
              else
                (let parts = ceil_div (length merged) leafSize; per = ceil_div (length merged) parts
                 in put_leaves put i s (slices per merged)))
      | DirNode ks rs \<Rightarrow>
          rbind (merge_children
                   (\<lambda>s r k lo hi. mergeNode n get put i leafSize fanout nov s r (Some k) lo hi)
                   (comparatorFor i) nov hi s lo (zip ks rs)) (\<lambda>(children, changed, s').
            if \<not> changed then Inr ([(case key of Some k \<Rightarrow> k | None \<Rightarrow> hd ks, r)], s')
            else put_dirs put i s' (group_entries fanout children))))"

definition mergeTree ::
  "nat \<Rightarrow> ('s \<Rightarrow> node_source) \<Rightarrow> 's put \<Rightarrow> index \<Rightarrow> nat \<Rightarrow> nat \<Rightarrow> 's \<Rightarrow> node_ref \<Rightarrow> datom list \<Rightarrow> (node_ref \<times> 's) res" where
  "mergeTree n get put i leafSize fanout s root nov =
     (if nov = [] then Inr (root, s)
      else rbind (mergeNode n get put i leafSize fanout nov s root None 0 (length nov)) (\<lambda>(es, s').
        if length es = 1 then Inr (snd (hd es), s') else buildLevels put i fanout s' es))"

fun treeDepth :: "nat \<Rightarrow> node_source \<Rightarrow> node_ref \<Rightarrow> nat res" where
  "treeDepth 0 src r = Inl Diverges"
| "treeDepth (Suc n) src r =
     rbind (getNode src r) (\<lambda>node. case node of
       LeafNode ds \<Rightarrow> Inr 1
     | DirNode ks rs \<Rightarrow>
         (case rs of [] \<Rightarrow> Inl (TypeError ''undefined reference'')
          | r' # _ \<Rightarrow> rmap Suc (treeDepth n src r')))"

text \<open>
  Marking for garbage collection: depth first over an explicit stack (its top is the head
  of the list), following the references of directory nodes.
\<close>

fun reachable :: "nat \<Rightarrow> node_source \<Rightarrow> node_ref list \<Rightarrow> string set \<Rightarrow> string set res" where
  "reachable 0 src stack into = Inl Diverges"
| "reachable (Suc n) src [] into = Inr into"
| "reachable (Suc n) src (r # stack) into =
     (if r_hash r \<in> into then reachable n src stack into
      else
        let into' = insert (r_hash r) into
        in if r_kind r = KDir then
             rbind (getNode src r) (\<lambda>node. case node of
               LeafNode ds \<Rightarrow> reachable n src stack into'
             | DirNode ks rs \<Rightarrow> reachable n src (rev rs @ stack) into')
           else reachable n src stack into')"

section \<open>Slicing arrays evenly\<close>

lemma ceil_div_le_iff: "0 < b \<Longrightarrow> ceil_div a b \<le> m \<longleftrightarrow> a \<le> m * b"
proof -
  assume b: "0 < b"
  have "ceil_div a b \<le> m \<longleftrightarrow> (a + b - 1) div b < m + 1" by (auto simp: ceil_div_def)
  also have "\<dots> \<longleftrightarrow> a + b - 1 < (m + 1) * b" using b by (simp add: div_less_iff_less_mult)
  also have "\<dots> \<longleftrightarrow> a \<le> m * b" using b by auto
  finally show ?thesis .
qed

lemma ceil_div_pos: "0 < b \<Longrightarrow> 0 < a \<Longrightarrow> 0 < ceil_div a b"
  using ceil_div_le_iff [of b a 0] by simp

lemma ceil_div_upper: "0 < b \<Longrightarrow> a \<le> ceil_div a b * b"
  using ceil_div_le_iff [of b a "ceil_div a b"] by simp

lemma even_split_le:
  "0 < a \<Longrightarrow> 0 < b \<Longrightarrow> ceil_div a (ceil_div a b) \<le> b"
  using ceil_div_le_iff [of "ceil_div a b" a b] ceil_div_pos [of b a] ceil_div_upper [of b a]
  by (simp add: mult.commute)

lemma slices_Nil [simp]: "slices per [] = []"
  by (simp add: slices.simps)

lemma slices_step: "xs \<noteq> [] \<Longrightarrow> 0 < per \<Longrightarrow> slices per xs = take per xs # slices per (drop per xs)"
  by (subst slices.simps) simp

lemma concat_slices: "0 < per \<Longrightarrow> concat (slices per xs) = xs"
proof (induction per xs rule: slices.induct)
  case (1 per xs)
  then show ?case by (cases "xs = []") (simp_all add: slices_step [of xs per])
qed

lemma slices_mem: "ys \<in> set (slices per xs) \<Longrightarrow> ys \<noteq> [] \<and> length ys \<le> per \<and> set ys \<subseteq> set xs"
proof (induction per xs rule: slices.induct)
  case (1 per xs)
  then show ?case
    by (cases "xs = [] \<or> per = 0")
      (auto simp: slices.simps [of per xs] dest: in_set_takeD in_set_dropD split: if_splits)
qed

lemma length_slices: "0 < per \<Longrightarrow> length (slices per xs) = ceil_div (length xs) per"
proof (induction per xs rule: slices.induct)
  case (1 per xs)
  show ?case
  proof (cases "xs = []")
    case True
    with 1 show ?thesis by (simp add: slices.simps ceil_div_def)
  next
    case False
    then have IH: "length (slices per (drop per xs)) = ceil_div (length xs - per) per" using 1 by simp
    have "ceil_div (length xs) per = Suc (ceil_div (length xs - per) per)"
    proof (cases "length xs \<le> per")
      case True
      have "ceil_div (length xs) per \<le> 1" using ceil_div_le_iff [OF 1(2), of "length xs" 1] True by simp
      moreover have "0 < ceil_div (length xs) per" using ceil_div_pos [OF 1(2)] False by simp
      moreover have "ceil_div (length xs - per) per \<le> 0"
        using ceil_div_le_iff [OF 1(2), of "length xs - per" 0] True by simp
      ultimately show ?thesis by linarith
    next
      case ge: False
      then have eq: "length xs + per - 1 = (length xs - per + per - 1) + per" using 1(2) by simp
      have "(length xs - per + per - 1 + per) div per = Suc ((length xs - per + per - 1) div per)"
        using div_add_self2 [of per "length xs - per + per - 1"] 1(2) by linarith
      then show ?thesis by (simp only: ceil_div_def eq)
    qed
    then show ?thesis using IH slices_step [OF False 1(2)] by simp
  qed
qed

lemma group_entries_props:
  assumes "1 < fanout" "es \<noteq> []"
  shows "concat (group_entries fanout es) = es"
    and "g \<in> set (group_entries fanout es) \<Longrightarrow> g \<noteq> [] \<and> length g \<le> fanout"
    and "1 < length es \<Longrightarrow> length (group_entries fanout es) < length es"
    and "group_entries fanout es \<noteq> []"
proof -
  let ?g = "ceil_div (length es) fanout" let ?per = "ceil_div (length es) ?g"
  have g: "0 < ?g" using ceil_div_pos assms by simp
  then have per: "0 < ?per" using ceil_div_pos assms by simp
  have le: "?per \<le> fanout" using even_split_le assms by simp
  show 1: "concat (group_entries fanout es) = es"
    using concat_slices [OF per] by (simp add: group_entries_def Let_def)
  show "g \<noteq> [] \<and> length g \<le> fanout" if "g \<in> set (group_entries fanout es)"
    using slices_mem [of g ?per es] that le by (auto simp: group_entries_def Let_def)
  show "group_entries fanout es \<noteq> []" using 1 assms(2) by auto
  show "length (group_entries fanout es) < length es" if gt: "1 < length es"
  proof -
    have "length es \<le> (length es - 1) * fanout"
    proof -
      have "length es \<le> (length es - 1) * 2" using gt by simp
      also have "\<dots> \<le> (length es - 1) * fanout" using assms(1) by simp
      finally show ?thesis .
    qed
    then have "?g \<le> length es - 1" using ceil_div_le_iff [of fanout "length es"] assms(1) by simp
    then have "?g * 1 < length es" using gt by simp
    then have "\<not> ?per \<le> 1" using ceil_div_le_iff [of ?g "length es" 1] g by simp
    then have "length es \<le> (length es - 1) * ?per"
    proof -
      have "2 \<le> ?per" using \<open>\<not> ?per \<le> 1\<close> by simp
      then have "(length es - 1) * 2 \<le> (length es - 1) * ?per" by (intro mult_le_mono) auto
      moreover have "length es \<le> (length es - 1) * 2" using gt by simp
      ultimately show ?thesis by (rule le_trans [rotated])
    qed
    then have "ceil_div (length es) ?per \<le> length es - 1"
      using ceil_div_le_iff [OF per] by simp
    then show ?thesis using gt length_slices [OF per, of es] by (simp add: group_entries_def Let_def)
  qed
qed

section \<open>The contract of a node store\<close>

text \<open>
  A node that a store accepts: at most \<open>cap\<close> entries, well-formed datoms, acceptable
  references, and a total count that is a safe integer.
\<close>

fun node_ok :: "nat \<Rightarrow> (datom \<Rightarrow> bool) \<Rightarrow> (node_ref \<Rightarrow> bool) \<Rightarrow> tree_node \<Rightarrow> bool" where
  "node_ok cap dok rok (LeafNode ds) = (length ds \<le> cap \<and> (\<forall>d\<in>set ds. dok d))"
| "node_ok cap dok rok (DirNode ks rs) =
     (length ks = length rs \<and> length rs \<le> cap \<and> (\<forall>d\<in>set ks. dok d) \<and> (\<forall>r\<in>set rs. rok r) \<and>
      countOf (DirNode ks rs) < 2 ^ 53)"

text \<open>
  Nodes are named by the hash of their bytes. Two different nodes of the same hash would
  overwrite each other; a store of the contract reports that, so that its users are
  correct up to the first collision.
\<close>

abbreviation collision :: "'a res" where
  "collision \<equiv> Inl (Error ''hash collision'')"

locale node_store =
  fixes get :: "'s \<Rightarrow> node_source" and put :: "'s \<Rightarrow> index \<Rightarrow> tree_node \<Rightarrow> (node_ref \<times> 's) res"
    and inv :: "'s \<Rightarrow> bool" and rok :: "node_ref \<Rightarrow> bool" and dok :: "datom \<Rightarrow> bool" and cap :: nat
  assumes put_succeeds: "inv s \<Longrightarrow> node_ok cap dok rok nd \<Longrightarrow>
      put s i nd = collision \<or> (\<exists>r s'. put s i nd = Inr (r, s'))"
    and put_result: "inv s \<Longrightarrow> node_ok cap dok rok nd \<Longrightarrow> put s i nd = Inr (r, s') \<Longrightarrow>
      inv s' \<and> rok r \<and> get s' (r_hash r) = Some nd \<and> r_kind r = kind_of nd \<and> r_count r = countOf nd \<and>
      get s \<subseteq>\<^sub>m get s'"
    and stored_ok: "inv s \<Longrightarrow> get s h = Some nd \<Longrightarrow> node_ok cap dok rok nd"

section \<open>Entries and the trees they stand for\<close>

fun entry_rep :: "node_source \<Rightarrow> (node_ref \<Rightarrow> bool) \<Rightarrow> entry \<Rightarrow> atree \<Rightarrow> bool" where
  "entry_rep src rok (k, r) t = (represents src r t \<and> rok r \<and> wf_tree t \<and> k = hd (contents t))"

definition trees_datoms :: "atree list \<Rightarrow> datom list" where
  "trees_datoms ts = concat (map contents ts)"

lemma trees_datoms_simps [simp]:
  "trees_datoms [] = []" "trees_datoms (t # ts) = contents t @ trees_datoms ts"
  "trees_datoms (ts @ us) = trees_datoms ts @ trees_datoms us"
  by (simp_all add: trees_datoms_def)

lemma represents_mono: "represents src r t \<Longrightarrow> src \<subseteq>\<^sub>m src' \<Longrightarrow> represents src' r t"
proof (induction rule: represents.induct)
  case (rep_leaf r ds)
  then have "src' (r_hash r) = Some (LeafNode ds)" by (metis domI map_le_def)
  then show ?case using rep_leaf by (intro represents.rep_leaf)
next
  case (rep_dir r kts rs)
  then have "src' (r_hash r) = Some (DirNode (map fst kts) rs)" by (metis domI map_le_def)
  moreover have "list_all2 (\<lambda>r kt. represents src' r (snd kt)) rs kts"
    using rep_dir by (auto elim!: list_all2_mono)
  ultimately show ?case using rep_dir by (intro represents.rep_dir)
qed

lemma entries_mono:
  "list_all2 (entry_rep src rok) es ts \<Longrightarrow> src \<subseteq>\<^sub>m src' \<Longrightarrow> list_all2 (entry_rep src' rok) es ts"
  by (erule list_all2_mono) (auto intro: represents_mono)

lemma list_all2_split_right:
  "list_all2 P (concat gs) ts \<Longrightarrow> \<exists>tss. concat tss = ts \<and> list_all2 (list_all2 P) gs tss"
proof (induction gs arbitrary: ts)
  case (Cons g gs)
  then obtain us vs where us: "ts = us @ vs" "list_all2 P g us" "list_all2 P (concat gs) vs"
    by (auto simp: list_all2_append1)
  with Cons.IH obtain tss where "concat tss = vs" "list_all2 (list_all2 P) gs tss" by blast
  with us show ?case by (intro exI [of _ "us # tss"]) simp
qed simp

lemma map_le_trans': "f \<subseteq>\<^sub>m g \<Longrightarrow> g \<subseteq>\<^sub>m h \<Longrightarrow> f \<subseteq>\<^sub>m h"
  by (rule map_le_trans)

definition group_tree :: "entry list \<Rightarrow> atree list \<Rightarrow> atree" where
  "group_tree g ts = ADir (zip (map fst g) ts)"

lemma entries_children:
  assumes "list_all2 (entry_rep src rok) g ts"
  shows "children_datoms (zip (map fst g) ts) = trees_datoms ts"
    and "children_wf (zip (map fst g) ts)"
    and "list_all2 (\<lambda>r kt. represents src r (snd kt)) (map snd g) (zip (map fst g) ts)"
    and "sum_list (map r_count (map snd g)) = length (trees_datoms ts)"
    and "\<forall>r\<in>set (map snd g). rok r"
    and "set (map fst g) \<subseteq> set (trees_datoms ts)"
  using assms
proof (induction g ts rule: list_all2_induct)
  case (Cons e es t ts)
  obtain k r where e: "e = (k, r)" by (cases e)
  have t: "represents src r t" "rok r" "wf_tree t" "k = hd (contents t)" using Cons.hyps(1) e by auto
  have cnt: "r_count r = length (contents t)" using t(1) by (cases rule: represents.cases) auto
  have k: "k \<in> set (contents t)" using t wf_tree_nonempty by simp
  {
    case 1 show ?case using Cons.IH(1) e by simp
  next
    case 2 show ?case using Cons.IH(2) e t by simp
  next
    case 3 show ?case using Cons.IH(3) e t by simp
  next
    case 4 show ?case using Cons.IH(4) e cnt by simp
  next
    case 5 show ?case using Cons.IH(5) e t by simp
  next
    case 6 show ?case using Cons.IH(6) e k by auto
  }
qed simp_all

context node_store begin

lemma put_leaves_ok:
  assumes "inv s" "\<forall>ds\<in>set dss. ds \<noteq> [] \<and> length ds \<le> cap \<and> (\<forall>d\<in>set ds. dok d)"
  shows "put_leaves put i s dss = collision \<or> (\<exists>es s'. put_leaves put i s dss = Inr (es, s') \<and> inv s' \<and> get s \<subseteq>\<^sub>m get s' \<and>
    list_all2 (entry_rep (get s') rok) es (map ALeaf dss))"
  using assms
proof (induction dss arbitrary: s)
  case (Cons ds dss)
  have nok: "node_ok cap dok rok (LeafNode ds)" using Cons.prems by simp
  show ?case
  proof (cases "put s i (LeafNode ds) = collision")
    case False
    then obtain r s1 where p: "put s i (LeafNode ds) = Inr (r, s1)"
      using put_succeeds [OF Cons.prems(1) nok] by blast
    note R = put_result [OF Cons.prems(1) nok p]
    show ?thesis
    proof (cases "put_leaves put i s1 dss = collision")
      case True
      then show ?thesis using p by simp
    next
      case False
      then obtain es s' where IH: "put_leaves put i s1 dss = Inr (es, s')" "inv s'" "get s1 \<subseteq>\<^sub>m get s'"
          "list_all2 (entry_rep (get s') rok) es (map ALeaf dss)"
        using Cons.IH [of s1] R Cons.prems(2) by auto
      have "represents (get s1) r (ALeaf ds)" using R by (intro rep_leaf) auto
      then have "represents (get s') r (ALeaf ds)" using IH(3) by (rule represents_mono)
      then show ?thesis using p IH R Cons.prems(2) by (auto intro: map_le_trans)
    qed
  qed simp
qed simp

lemma put_dirs_ok:
  assumes "inv s" "list_all2 (list_all2 (entry_rep (get s) rok)) gs tss"
    "\<forall>g\<in>set gs. g \<noteq> [] \<and> length g \<le> cap" "\<forall>ts\<in>set tss. \<forall>d\<in>set (trees_datoms ts). dok d"
    "length (trees_datoms (concat tss)) < 2 ^ 53"
  shows "put_dirs put i s gs = collision \<or> (\<exists>es s' us. put_dirs put i s gs = Inr (es, s') \<and> inv s' \<and> get s \<subseteq>\<^sub>m get s' \<and>
    list_all2 (entry_rep (get s') rok) es us \<and> trees_datoms us = trees_datoms (concat tss) \<and>
    length us = length gs)"
  using assms
proof (induction gs arbitrary: s tss)
  case (Cons g gs)
  obtain ts tss' where tss: "tss = ts # tss'" and g: "list_all2 (entry_rep (get s) rok) g ts"
    and gs: "list_all2 (list_all2 (entry_rep (get s) rok)) gs tss'"
    using Cons.prems(2) by (auto simp: list_all2_Cons1)
  note C = entries_children [OF g]
  let ?nd = "DirNode (map fst g) (map snd g)"
  have nok: "node_ok cap dok rok ?nd"
    using C(4-6) Cons.prems tss by auto
  show ?case
  proof (cases "put s i ?nd = collision")
    case True
    then show ?thesis by simp
  next
    case False
    then obtain r s1 where p: "put s i ?nd = Inr (r, s1)" using put_succeeds [OF Cons.prems(1) nok] by blast
    note R = put_result [OF Cons.prems(1) nok p]
    have gs1: "list_all2 (list_all2 (entry_rep (get s1) rok)) gs tss'"
      using gs R by (auto elim!: list_all2_mono intro: represents_mono)
    show ?thesis
    proof (cases "put_dirs put i s1 gs = collision")
      case True
      then show ?thesis using p by simp
    next
      case False
      then obtain es s' us where IH: "put_dirs put i s1 gs = Inr (es, s')" "inv s'" "get s1 \<subseteq>\<^sub>m get s'"
          "list_all2 (entry_rep (get s') rok) es us" "trees_datoms us = trees_datoms (concat tss')"
          "length us = length gs"
        using Cons.IH [OF _ gs1] R Cons.prems(3-5) tss by auto
      let ?t = "group_tree g ts"
      have ne: "g \<noteq> []" "ts \<noteq> []" using Cons.prems(3) g by auto
      have cont: "contents ?t = trees_datoms ts" using C(1) by (simp add: group_tree_def)
      have "map fst (zip (map fst g) ts) = map fst g" using g by (simp add: list_all2_lengthD)
      then have "represents (get s1) r ?t"
        unfolding group_tree_def
        by (intro rep_dir [where rs = "map snd g"])
          (use R C in \<open>auto elim!: list_all2_mono intro: represents_mono\<close>)
      then have rep: "represents (get s') r ?t" using IH(3) by (rule represents_mono)
      have wf: "wf_tree ?t" using C(2) ne by (auto simp: group_tree_def)
      have "fst (hd g) = hd (contents (hd ts))" using g ne by (cases g; cases ts) auto
      moreover have "contents (hd ts) \<noteq> []" using g ne wf_tree_nonempty by (cases g; cases ts) auto
      ultimately have key: "fst (hd g) = hd (contents ?t)" using cont ne by (cases ts) auto
      have "\<exists>es s' us. put_dirs put i s (g # gs) = Inr (es, s') \<and> inv s' \<and> get s \<subseteq>\<^sub>m get s' \<and>
        list_all2 (entry_rep (get s') rok) es us \<and> trees_datoms us = trees_datoms (concat tss) \<and>
        length us = length (g # gs)"
        using p IH R rep wf key tss cont
        by (intro exI [of _ "(fst (hd g), r) # es"] exI [of _ s'] exI [of _ "?t # us"])
          (auto intro: map_le_trans)
      then show ?thesis ..
    qed
  qed
qed auto

lemma group_put_ok:
  assumes "inv s" "list_all2 (entry_rep (get s) rok) es ts" "es \<noteq> []" "1 < fanout" "fanout \<le> cap"
    "\<forall>d\<in>set (trees_datoms ts). dok d" "length (trees_datoms ts) < 2 ^ 53"
  shows "put_dirs put i s (group_entries fanout es) = collision \<or>
    (\<exists>es' s' us. put_dirs put i s (group_entries fanout es) = Inr (es', s') \<and> inv s' \<and>
    get s \<subseteq>\<^sub>m get s' \<and> list_all2 (entry_rep (get s') rok) es' us \<and> trees_datoms us = trees_datoms ts \<and>
    length es' = length (group_entries fanout es))"
proof (cases "put_dirs put i s (group_entries fanout es) = collision")
  case False
  note G = group_entries_props [OF assms(4,3)]
  obtain tss where tss: "concat tss = ts" "list_all2 (list_all2 (entry_rep (get s) rok)) (group_entries fanout es) tss"
    using list_all2_split_right [of "entry_rep (get s) rok" "group_entries fanout es" ts] G(1) assms(2) by metis
  have "\<forall>us\<in>set tss. \<forall>d\<in>set (trees_datoms us). dok d"
    using assms(6) tss(1) by (fastforce simp: trees_datoms_def)
  moreover have "\<forall>g\<in>set (group_entries fanout es). g \<noteq> [] \<and> length g \<le> cap"
    using G(2) assms(5) by (meson le_trans)
  ultimately obtain es' s' us where "put_dirs put i s (group_entries fanout es) = Inr (es', s')" "inv s'"
      "get s \<subseteq>\<^sub>m get s'" "list_all2 (entry_rep (get s') rok) es' us"
      "trees_datoms us = trees_datoms ts" "length us = length (group_entries fanout es)"
  proof -
    assume a: "\<forall>us\<in>set tss. \<forall>d\<in>set (trees_datoms us). dok d"
      "\<forall>g\<in>set (group_entries fanout es). g \<noteq> [] \<and> length g \<le> cap"
    have len: "length (trees_datoms (concat tss)) < 2 ^ 53" using assms(7) tss(1) by simp
    show ?thesis
      using put_dirs_ok [OF assms(1) tss(2) a(2,1) len] False that unfolding tss(1) by blast
  qed
  then show ?thesis by (metis list_all2_lengthD)
qed simp

lemma build_levels_ok:
  assumes "inv s" "list_all2 (entry_rep (get s) rok) es ts" "es \<noteq> []" "1 < fanout" "fanout \<le> cap"
    "\<forall>d\<in>set (trees_datoms ts). dok d" "length (trees_datoms ts) < 2 ^ 53" "length es \<le> n"
  shows "build_levels (Suc n) put i fanout s es = collision \<or>
    (\<exists>r s' t. build_levels (Suc n) put i fanout s es = Inr (r, s') \<and> inv s' \<and> get s \<subseteq>\<^sub>m get s' \<and>
    rok r \<and> represents (get s') r t \<and> wf_tree t \<and> contents t = trees_datoms ts)"
  using assms
proof (induction n arbitrary: s es ts)
  case (Suc n)
  show ?case
  proof (cases "1 < length es")
    case True
    show ?thesis
    proof (cases "put_dirs put i s (group_entries fanout es) = collision")
    case True
    then show ?thesis using \<open>1 < length es\<close> by simp
    next
    case nc: False
    then obtain es' s1 us where P: "put_dirs put i s (group_entries fanout es) = Inr (es', s1)" "inv s1"
        "get s \<subseteq>\<^sub>m get s1" "list_all2 (entry_rep (get s1) rok) es' us" "trees_datoms us = trees_datoms ts"
        "length es' = length (group_entries fanout es)"
      using group_put_ok [OF Suc.prems(1-7)] by blast
    have "es' \<noteq> []" "length es' \<le> n"
      using P(6) group_entries_props(3,4) [OF Suc.prems(4,3)] True Suc.prems(8) by fastforce+
    note IH = Suc.IH [OF P(2,4) this(1) Suc.prems(4,5) Suc.prems(6,7) [folded P(5)] this(2)]
    from IH consider (col) "build_levels (Suc n) put i fanout s1 es' = collision"
      | (ok) r s' t where "build_levels (Suc n) put i fanout s1 es' = Inr (r, s')" "inv s'"
        "get s1 \<subseteq>\<^sub>m get s'" "rok r" "represents (get s') r t" "wf_tree t" "contents t = trees_datoms us"
      by blast
    then show ?thesis
    proof cases
      case col
      then show ?thesis using P(1) True by simp
    next
      case ok
      then show ?thesis using P True by (auto intro: map_le_trans)
    qed
    qed
  next
    case False
    then obtain k r where es: "es = [(k, r)]" using Suc.prems(3) by (cases es rule: list.exhaust) auto
    then obtain t where "ts = [t]" "entry_rep (get s) rok (k, r) t"
      using Suc.prems(2) by (auto simp: list_all2_Cons1)
    then show ?thesis using es Suc.prems(1) by auto
  qed
qed simp

lemma buildLevels_ok:
  assumes "inv s" "list_all2 (entry_rep (get s) rok) es ts" "es \<noteq> []" "1 < fanout" "fanout \<le> cap"
    "\<forall>d\<in>set (trees_datoms ts). dok d" "length (trees_datoms ts) < 2 ^ 53"
  shows "buildLevels put i fanout s es = collision \<or>
    (\<exists>r s' t. buildLevels put i fanout s es = Inr (r, s') \<and> inv s' \<and> get s \<subseteq>\<^sub>m get s' \<and>
    rok r \<and> represents (get s') r t \<and> wf_tree t \<and> contents t = trees_datoms ts)"
  unfolding buildLevels_def by (rule build_levels_ok [OF assms]) simp

lemma buildTree_ok:
  assumes "inv s" "1 < fanout" "fanout \<le> cap" "0 < leafSize" "leafSize \<le> cap"
    "index_sorted i ds" "length ds < 2 ^ 53" and ok: "\<forall>d\<in>set ds. dok d"
  shows "buildTree put i leafSize fanout s ds = collision \<or>
    (\<exists>r s' t. buildTree put i leafSize fanout s ds = Inr (r, s') \<and> inv s' \<and> get s \<subseteq>\<^sub>m get s' \<and>
    rok r \<and> represents (get s') r t \<and> wf_root i t \<and> contents t = ds)"
proof (cases "ds = []")
  case True
  have nok: "node_ok cap dok rok (LeafNode [])" by simp
  show ?thesis
  proof (cases "put s i (LeafNode []) = collision")
    case nc: False
    then obtain r s' where p: "put s i (LeafNode []) = Inr (r, s')" using put_succeeds [OF assms(1) nok] by blast
    note R = put_result [OF assms(1) nok p]
    have "represents (get s') r (ALeaf [])" using R by (intro rep_leaf) auto
    then show ?thesis using p R True by (auto simp: buildTree_def wf_root_def)
  qed (use True in \<open>simp add: buildTree_def\<close>)
next
  case False
  let ?n = "ceil_div (length ds) leafSize" let ?per = "ceil_div (length ds) ?n"
  have n: "0 < ?n" using False assms(4) by (intro ceil_div_pos) auto
  then have per: "0 < ?per" using False ceil_div_pos [OF n, of "length ds"] by simp
  have le: "?per \<le> cap" using even_split_le [of "length ds" leafSize] False assms(4,5) by simp
  have "\<forall>xs\<in>set (slices ?per ds). xs \<noteq> [] \<and> length xs \<le> cap \<and> (\<forall>d\<in>set xs. dok d)"
  proof
    fix xs assume "xs \<in> set (slices ?per ds)"
    then show "xs \<noteq> [] \<and> length xs \<le> cap \<and> (\<forall>d\<in>set xs. dok d)"
      using slices_mem [of xs ?per ds] le ok by auto
  qed
  then consider (col) "put_leaves put i s (slices ?per ds) = collision"
    | (ok) es s1 where "put_leaves put i s (slices ?per ds) = Inr (es, s1)" "inv s1"
      "get s \<subseteq>\<^sub>m get s1" "list_all2 (entry_rep (get s1) rok) es (map ALeaf (slices ?per ds))"
    using put_leaves_ok [OF assms(1)] by blast
  then show ?thesis
  proof cases
  case col
  then show ?thesis using False by (simp add: buildTree_def Let_def)
  next
  case L: ok
  have datoms: "trees_datoms (map ALeaf (slices ?per ds)) = ds"
    using concat_slices [OF per, of ds] by (simp add: trees_datoms_def comp_def)
  have "es \<noteq> []" using L(4) datoms False by auto
  have m: "\<forall>d\<in>set (trees_datoms (map ALeaf (slices ?per ds))). dok d"
    "length (trees_datoms (map ALeaf (slices ?per ds))) < 2 ^ 53" using ok assms(7) datoms by simp_all
  from buildLevels_ok [OF L(2,4) \<open>es \<noteq> []\<close> assms(2,3) m, unfolded datoms]
  consider (col) "buildLevels put i fanout s1 es = collision"
    | (ok) r s' t where "buildLevels put i fanout s1 es = Inr (r, s')" "inv s'"
      "get s1 \<subseteq>\<^sub>m get s'" "rok r" "represents (get s') r t" "wf_tree t" "contents t = ds"
    by blast
  then show ?thesis
  proof cases
    case col
    then show ?thesis using L(1) False by (simp add: buildTree_def Let_def)
  next
    case ok
    then show ?thesis using L False assms(6)
      by (auto simp: buildTree_def wf_root_def index_sorted_def intro: map_le_trans)
  qed
  qed
qed

end

section \<open>Merging\<close>

lemma represents_hash_unique:
  "represents src r t \<Longrightarrow> represents src r' t' \<Longrightarrow> r_hash r = r_hash r' \<Longrightarrow> t = t'"
proof (induction arbitrary: r' t' rule: represents.induct)
  case (rep_leaf r ds)
  from rep_leaf.prems(1) show ?case
    by (cases rule: represents.cases) (use rep_leaf in auto)
next
  case (rep_dir r kts rs)
  obtain kts' rs' where t': "t' = ADir kts'" "src (r_hash r') = Some (DirNode (map fst kts') rs')"
      "list_all2 (\<lambda>r kt. represents src r (snd kt)) rs' kts'"
    using rep_dir.prems(1) by (cases rule: represents.cases) (use rep_dir in auto)
  then have eq: "map fst kts = map fst kts'" "rs' = rs" using rep_dir by auto
  have "list_all2 (\<lambda>kt kt'. snd kt = snd kt') kts kts'"
  proof (rule list_all2_all_nthI)
    show len: "length kts = length kts'" using eq(1) by (metis length_map)
    fix j assume j: "j < length kts"
    have "length rs = length kts" using t'(3) eq(2) len by (auto dest: list_all2_lengthD)
    then show "snd (kts ! j) = snd (kts' ! j)"
      using rep_dir.IH j t'(3) eq(2) len by (auto simp: list_all2_conv_all_nth)
  qed
  then have "map snd kts = map snd kts'"
    by (auto simp: list_all2_conv_all_nth intro: nth_equalityI)
  with eq(1) have "kts = kts'" by (metis zip_map_fst_snd)
  with t' show ?case by simp
qed

lemma in_set_slice: "x \<in> set (slice a b xs) \<Longrightarrow> \<exists>j. a \<le> j \<and> j < b \<and> j < length xs \<and> x = xs ! j"
proof -
  assume "x \<in> set (slice a b xs)"
  then obtain m where m: "m < length (slice a b xs)" "x = slice a b xs ! m" by (metis in_set_conv_nth)
  then have b: "a + m < b" "a + m < length xs" by (auto simp: slice_def)
  moreover have "x = xs ! (a + m)" using m(2) b by (simp add: slice_def nth_drop)
  ultimately have "a + m < b" "a + m < length xs" "x = xs ! (a + m)" by blast+
  then show ?thesis by (intro exI [of _ "a + m"]) auto
qed

lemma length_slice: "hi \<le> length xs \<Longrightarrow> length (slice lo hi xs) = hi - lo"
  by (simp add: slice_def)

lemma slice_append: "a \<le> b \<Longrightarrow> b \<le> c \<Longrightarrow> slice a c xs = slice a b xs @ slice b c xs"
proof -
  assume ab: "a \<le> b" "b \<le> c"
  have "take c xs = take b xs @ drop b (take c xs)"
    using append_take_drop_id [of b "take c xs"] ab(2) by (simp add: min_absorb1)
  then have "slice a c xs = drop a (take b xs @ drop b (take c xs))" by (simp add: slice_def)
  also have "\<dots> = slice a b xs @ slice b c xs"
    using ab by (cases "b \<le> length xs") (simp_all add: slice_def)
  finally show ?thesis .
qed

lemma slice_same [simp]: "slice a a xs = []"
  by (simp add: slice_def)

lemma slice_full [simp]: "slice 0 (length xs) xs = xs"
  by (simp add: slice_def)

lemma set_slice_subset: "set (slice a b xs) \<subseteq> set xs"
  unfolding slice_def using set_drop_subset set_take_subset by (meson order_trans)

lemma index_sorted_slice: "index_sorted i xs \<Longrightarrow> index_sorted i (slice a b xs)"
  using set_slice_subset [of a b xs]
  by (auto simp: index_sorted_def strictly_sorted_def slice_def sorted_wrt_drop sorted_wrt_take)

text \<open>Cutting the novelty at a key.\<close>

lemma novelty_cut:
  assumes "index_sorted i nov" "datom_ok k" "start \<le> hi" "hi \<le> length nov"
  defines "e \<equiv> bisect (\<lambda>mid. comparatorFor i (nov ! mid) k < 0) start hi"
  shows "start \<le> e" and "e \<le> hi" and "\<forall>x\<in>set (slice start e nov). comparatorFor i x k < 0"
    and "\<forall>x\<in>set (slice e hi nov). comparatorFor i k x \<le> 0"
proof -
  have ok: "datom_ok (nov ! m)" if "m < hi" for m
    using that assms(1,4) by (simp add: index_sorted_def)
  have mono: "comparatorFor i (nov ! m) k < 0"
    if "start \<le> m" "m \<le> j" "j < hi" "comparatorFor i (nov ! j) k < 0" for m j
  proof (cases "m = j")
    case False
    then have "comparatorFor i (nov ! m) (nov ! j) < 0"
      using that assms(1,4) sorted_wrt_nth_less [of "\<lambda>x y. comparatorFor i x y < 0" nov m j]
      by (simp add: index_sorted_def strictly_sorted_def)
    then show ?thesis using idx.cmp_less_trans [of "nov ! m" "nov ! j" k i] ok assms(2) that by simp
  qed (use that in simp)
  have *: "start \<le> e \<and> e \<le> hi \<and> (\<forall>m. start \<le> m \<and> m < e \<longrightarrow> comparatorFor i (nov ! m) k < 0) \<and>
     (\<forall>m. e \<le> m \<and> m < hi \<longrightarrow> \<not> comparatorFor i (nov ! m) k < 0)"
    unfolding e_def by (rule bisect_spec [OF assms(3) mono])
  then show "start \<le> e" "e \<le> hi" by blast+
  show "\<forall>x\<in>set (slice start e nov). comparatorFor i x k < 0" using * in_set_slice by metis
  show "\<forall>x\<in>set (slice e hi nov). comparatorFor i k x \<le> 0"
  proof
    fix x assume "x \<in> set (slice e hi nov)"
    then obtain m where m: "e \<le> m" "m < hi" "x = nov ! m" using in_set_slice by metis
    then have "\<not> comparatorFor i x k < 0" using * by blast
    then show "comparatorFor i k x \<le> 0" using idx.cmp_le_ge [of k x i] assms(2) ok m by simp
  qed
qed

text \<open>Merging block by block, when the blocks are separated by a key.\<close>

lemma merge_union_blocks:
  assumes xs: "index_sorted i (xs @ ys)" and "ys \<noteq> []" and nv: "index_sorted i (as @ bs)"
    and as: "\<forall>a\<in>set as. comparatorFor i a (hd ys) < 0" and bs: "\<forall>b\<in>set bs. comparatorFor i (hd ys) b \<le> 0"
  shows "merge_union (comparatorFor i) (xs @ ys) (as @ bs) =
    merge_union (comparatorFor i) xs as @ merge_union (comparatorFor i) ys bs"
proof (rule index_sorted_unique [of i])
  let ?c = "comparatorFor i"
  have s: "index_sorted i xs" "index_sorted i ys" "index_sorted i as" "index_sorted i bs"
    using xs nv by (simp_all add: index_sorted_append)
  have ok: "\<forall>d\<in>set xs \<union> set ys \<union> set as \<union> set bs. datom_ok d"
    using s by (auto simp: index_sorted_def)
  obtain y ys' where y: "ys = y # ys'" using assms(2) by (cases ys) auto
  have y_le: "?c y d \<le> 0" if "d \<in> set ys" for d
    using that s(2) y idx.cmp_refl ok by (auto simp: intro: less_imp_le)
  have lt_y: "?c d y < 0" if "d \<in> set xs \<union> set as" for d
    using that as xs y by (auto simp: index_sorted_append)
  have "?c x d < 0" if "x \<in> set xs \<union> set as" "d \<in> set ys \<union> set bs" for x d
    using idx.cmp_less_le_trans [of x y d i] lt_y [OF that(1)] y_le that bs ok y by auto
  then show "index_sorted i (merge_union ?c xs as @ merge_union ?c ys bs)"
    using s by (simp add: index_sorted_append index_sorted_merge_union set_index_merge_union)
  show "index_sorted i (merge_union ?c (xs @ ys) (as @ bs))"
    using xs nv by (rule index_sorted_merge_union)
  show "set (merge_union ?c (xs @ ys) (as @ bs)) = set (merge_union ?c xs as @ merge_union ?c ys bs)"
    using s xs nv by (auto simp: set_index_merge_union)
qed

lemma length_merge_union: "length (merge_union c xs ys) \<le> length xs + length ys"
  by (induction c xs ys rule: merge_union.induct) auto

lemma merge_union_all_dups:
  assumes "index_sorted i xs" "index_sorted i ys"
    "length (merge_union (comparatorFor i) xs ys) = length xs"
  shows "merge_union (comparatorFor i) xs ys = xs"
proof (rule index_sorted_unique [of i])
  let ?m = "merge_union (comparatorFor i) xs ys"
  have set: "set ?m = set xs \<union> set ys" using assms(1,2) by (rule set_index_merge_union)
  show s: "index_sorted i ?m" using assms(1,2) by (rule index_sorted_merge_union)
  have "distinct zs" if "index_sorted i zs" for zs
    using that idx.strictly_sorted_distinct by (auto simp: index_sorted_def)
  then have "card (set ?m) = card (set xs)" using assms s by (simp add: distinct_card)
  then show "set ?m = set xs" using set by (metis List.finite_set card_subset_eq sup_ge1)
qed (rule assms)

fun child_rep :: "node_source \<Rightarrow> (node_ref \<Rightarrow> bool) \<Rightarrow> entry \<Rightarrow> datom \<times> atree \<Rightarrow> bool" where
  "child_rep src rok (k, r) (k', t) = (k = k' \<and> represents src r t \<and> rok r)"

lemma child_rep_mono:
  "list_all2 (child_rep src rok) es kts \<Longrightarrow> src \<subseteq>\<^sub>m src' \<Longrightarrow> list_all2 (child_rep src' rok) es kts"
  by (erule list_all2_mono) (auto intro: represents_mono)

lemma zip_child_rep:
  "list_all2 (\<lambda>r kt. represents src r (snd kt)) rs kts \<Longrightarrow> \<forall>r\<in>set rs. rok r \<Longrightarrow>
   list_all2 (child_rep src rok) (zip (map fst kts) rs) kts"
  by (induction rs kts rule: list_all2_induct) (auto simp: case_prod_beta split_beta)

text \<open>What a call that merges the range \<open>[lo, hi)\<close> of the novelty into a subtree achieves.\<close>

definition merges_to ::
  "('s \<Rightarrow> node_source) \<Rightarrow> ('s \<Rightarrow> bool) \<Rightarrow> (node_ref \<Rightarrow> bool) \<Rightarrow> 's \<Rightarrow> datom list \<Rightarrow> (entry list \<times> 's) res \<Rightarrow> bool" where
  "merges_to get I rok s ds res \<longleftrightarrow>
     res = collision \<or> (\<exists>es s' ts. res = Inr (es, s') \<and> I s' \<and> get s \<subseteq>\<^sub>m get s' \<and> es \<noteq> [] \<and>
        list_all2 (entry_rep (get s') rok) es ts \<and> trees_datoms ts = ds)"

context node_store begin

lemma merge_children_ok:
  assumes rec: "\<And>s r k t lo hi. inv s \<Longrightarrow> represents (get s) r t \<Longrightarrow> rok r \<Longrightarrow> wf_tree t \<Longrightarrow>
      index_sorted i (contents t) \<Longrightarrow> k = hd (contents t) \<Longrightarrow> nodes t \<le> n \<Longrightarrow> lo < hi \<Longrightarrow> hi \<le> length nov \<Longrightarrow>
      length (contents t) + (hi - lo) < 2 ^ 53 \<Longrightarrow>
      merges_to get inv rok s (merge_union (comparatorFor i) (contents t) (slice lo hi nov)) (rec s r k lo hi)"
    and nov: "index_sorted i nov" "hi \<le> length nov"
  shows "inv s \<Longrightarrow> list_all2 (child_rep (get s) rok) es kts \<Longrightarrow> es \<noteq> [] \<Longrightarrow> children_wf kts \<Longrightarrow>
    index_sorted i (children_datoms kts) \<Longrightarrow> children_nodes kts \<le> n \<Longrightarrow> start \<le> hi \<Longrightarrow>
    length (children_datoms kts) + (hi - start) < 2 ^ 53 \<Longrightarrow>
    merge_children rec (comparatorFor i) nov hi s start es = collision \<or>
    (\<exists>es' ch s' ts. merge_children rec (comparatorFor i) nov hi s start es = Inr (es', ch, s') \<and> inv s' \<and>
      get s \<subseteq>\<^sub>m get s' \<and> es' \<noteq> [] \<and> list_all2 (entry_rep (get s') rok) es' ts \<and>
      trees_datoms ts = merge_union (comparatorFor i) (children_datoms kts) (slice start hi nov) \<and>
      (\<not> ch \<longrightarrow> trees_datoms ts = children_datoms kts))"
proof (induction es arbitrary: s kts start)
  case (Cons e es)
  let ?c = "comparatorFor i"
  obtain k r where e: "e = (k, r)" by (cases e)
  obtain t kts' where kts: "kts = (k, t) # kts'" and t: "represents (get s) r t" "rok r"
    and reps: "list_all2 (child_rep (get s) rok) es kts'"
    using Cons.prems(2) e by (auto simp: list_all2_Cons1)
  have wf: "wf_tree t" "k = hd (contents t)" "children_wf kts'" using Cons.prems(4) kts by auto
  have sorted: "index_sorted i (contents t)" "index_sorted i (children_datoms kts')"
    using Cons.prems(5) kts by (simp_all add: index_sorted_append)
  define end' where "end' = (case es of [] \<Rightarrow> hi
      | (k', r') # rest \<Rightarrow> bisect (\<lambda>mid. ?c (nov ! mid) k' < 0) start hi)"
  have ne: "es = [] \<longleftrightarrow> kts' = []" using reps by (cases es; cases kts') auto
  have cut: "start \<le> end'" "end' \<le> hi"
    "merge_union ?c (contents t @ children_datoms kts') (slice start hi nov) =
     merge_union ?c (contents t) (slice start end' nov) @ merge_union ?c (children_datoms kts') (slice end' hi nov)"
  proof -
    have "start \<le> end' \<and> end' \<le> hi \<and>
      merge_union ?c (contents t @ children_datoms kts') (slice start hi nov) =
      merge_union ?c (contents t) (slice start end' nov) @ merge_union ?c (children_datoms kts') (slice end' hi nov)"
    proof (cases es)
      case Nil
      then show ?thesis using ne Cons.prems(7) by (simp add: end'_def)
    next
      case (Cons e2 es2)
      obtain k2 r2 where e2: "e2 = (k2, r2)" by (cases e2)
      obtain t2 kts2 where kts2: "kts' = (k2, t2) # kts2"
        using reps Cons e2 by (auto simp: list_all2_Cons1)
      have t2: "contents t2 \<noteq> []" "k2 = hd (contents t2)" using wf(3) kts2 wf_tree_nonempty by auto
      then have k2: "k2 = hd (children_datoms kts')" "children_datoms kts' \<noteq> []" using kts2 by simp_all
      then have ok: "datom_ok k2" using sorted(2) by (auto simp: index_sorted_def)
      have end': "end' = bisect (\<lambda>mid. ?c (nov ! mid) k2 < 0) start hi" using Cons e2 by (simp add: end'_def)
      note C = novelty_cut [OF nov(1) ok Cons.prems(7) nov(2), folded end']
      have s1: "index_sorted i (contents t @ children_datoms kts')" using Cons.prems(5) kts by simp
      have s2: "index_sorted i (slice start end' nov @ slice end' hi nov)"
        using index_sorted_slice [OF nov(1), of start hi] slice_append [OF C(1,2), of nov] by simp
      show ?thesis
        using merge_union_blocks [OF s1 k2(2) s2] C k2(1) slice_append [OF C(1,2), of nov] by simp
    qed
    then show "start \<le> end'" "end' \<le> hi" "merge_union ?c (contents t @ children_datoms kts') (slice start hi nov) =
      merge_union ?c (contents t) (slice start end' nov) @ merge_union ?c (children_datoms kts') (slice end' hi nov)"
      by blast+
  qed
  have rest: "merge_children rec ?c nov hi s1 end' es = collision \<or>
    (\<exists>es' ch s' ts. merge_children rec ?c nov hi s1 end' es = Inr (es', ch, s') \<and> inv s' \<and>
      get s1 \<subseteq>\<^sub>m get s' \<and> list_all2 (entry_rep (get s') rok) es' ts \<and>
      trees_datoms ts = merge_union ?c (children_datoms kts') (slice end' hi nov) \<and>
      (\<not> ch \<longrightarrow> trees_datoms ts = children_datoms kts'))" if s1: "inv s1" "get s \<subseteq>\<^sub>m get s1" for s1
  proof (cases "es = []")
    case True
    then show ?thesis using ne s1 by (auto simp: end'_def)
  next
    case False
    have n': "children_nodes kts' \<le> n" using Cons.prems(6) kts by simp
    have "length (children_datoms kts') \<le> length (children_datoms kts)" using kts by simp
    then have len': "length (children_datoms kts') + (hi - end') < 2 ^ 53"
      using Cons.prems(8) cut(1) by linarith
    show ?thesis
      using Cons.IH [OF s1(1) child_rep_mono [OF reps s1(2)] False wf(3) sorted(2) n' cut(2) len'] by blast
  qed
  have unf: "merge_children rec ?c nov hi s start (e # es) =
      (if start < end' then
         rbind (rec s r k start end') (\<lambda>(sub, s'). rbind (merge_children rec ?c nov hi s' end' es)
           (\<lambda>(es', ch, s''). Inr (sub @ es', (length sub \<noteq> 1 \<or> r_hash (snd (hd sub)) \<noteq> r_hash r) \<or> ch, s'')))
       else rbind (merge_children rec ?c nov hi s end' es) (\<lambda>(es', ch, s'). Inr ((k, r) # es', ch, s')))"
    using e by (simp add: end'_def Let_def)
  show ?case
  proof (cases "start < end'")
    case True
    have "merges_to get inv rok s (merge_union ?c (contents t) (slice start end' nov)) (rec s r k start end')"
      using rec [OF Cons.prems(1) t wf(1) sorted(1) wf(2)] Cons.prems(6,8) kts True cut(2) nov(2) by auto
    then consider (col) "rec s r k start end' = collision"
      | (ok) sub s1 us where "rec s r k start end' = Inr (sub, s1)" "inv s1" "get s \<subseteq>\<^sub>m get s1" "sub \<noteq> []"
        "list_all2 (entry_rep (get s1) rok) sub us"
        "trees_datoms us = merge_union ?c (contents t) (slice start end' nov)"
      by (auto simp: merges_to_def)
    then show ?thesis
    proof cases
    case col
    then show ?thesis using unf True by simp
    next
    case R: ok
    show ?thesis
    proof (cases "merge_children rec ?c nov hi s1 end' es = collision")
    case col: True
    then show ?thesis using unf True R(1) by simp
    next
    case False
    then obtain es' ch s' ts where M: "merge_children rec ?c nov hi s1 end' es = Inr (es', ch, s')" "inv s'"
        "get s1 \<subseteq>\<^sub>m get s'" "list_all2 (entry_rep (get s') rok) es' ts"
        "trees_datoms ts = merge_union ?c (children_datoms kts') (slice end' hi nov)"
        "\<not> ch \<longrightarrow> trees_datoms ts = children_datoms kts'"
      using rest [OF R(2,3)] by blast
    have same: "trees_datoms us = contents t" if "length sub = 1" "r_hash (snd (hd sub)) = r_hash r"
    proof -
      obtain k1 r1 where sub: "sub = [(k1, r1)]"
        using \<open>length sub = 1\<close> by (cases sub) auto
      then obtain u where u: "us = [u]" "represents (get s1) r1 u"
        using R(5) by (auto simp: list_all2_Cons1)
      have "u = t"
        using represents_hash_unique [OF u(2) represents_mono [OF t(1) R(3)]] that(2) sub by simp
      then show ?thesis using u by simp
    qed
    let ?es = "sub @ es'" let ?ch = "(length sub \<noteq> 1 \<or> r_hash (snd (hd sub)) \<noteq> r_hash r) \<or> ch"
    have res: "merge_children rec ?c nov hi s start (e # es) = Inr (?es, ?ch, s')"
      using unf True R(1) M(1) by simp
    have "get s \<subseteq>\<^sub>m get s'" using R(3) M(3) by (rule map_le_trans)
    moreover have "list_all2 (entry_rep (get s') rok) ?es (us @ ts)"
      using entries_mono [OF R(5) M(3)] M(4) by (rule list_all2_appendI)
    moreover have "trees_datoms (us @ ts) = merge_union ?c (children_datoms kts) (slice start hi nov)"
      using R(6) M(5) kts cut(3) by simp
    moreover have "\<not> ?ch \<longrightarrow> trees_datoms (us @ ts) = children_datoms kts" using same M(6) kts by auto
    moreover have "?es \<noteq> []" using R(4) by simp
    ultimately show ?thesis using res M(2) by blast
    qed
    qed
  next
    case False
    then have eq: "end' = start" using cut(1) by simp
    show ?thesis
    proof (cases "merge_children rec ?c nov hi s end' es = collision")
    case col: True
    then show ?thesis using unf False by simp
    next
    case nc: False
    then obtain es' ch s' ts where M: "merge_children rec ?c nov hi s end' es = Inr (es', ch, s')" "inv s'"
        "get s \<subseteq>\<^sub>m get s'" "list_all2 (entry_rep (get s') rok) es' ts"
        "trees_datoms ts = merge_union ?c (children_datoms kts') (slice end' hi nov)"
        "\<not> ch \<longrightarrow> trees_datoms ts = children_datoms kts'"
      using rest [OF Cons.prems(1) map_le_refl] by blast
    have res: "merge_children rec ?c nov hi s start (e # es) = Inr ((k, r) # es', ch, s')"
      using unf False M(1) by simp
    have "list_all2 (entry_rep (get s') rok) ((k, r) # es') (t # ts)"
      using M(4) t wf represents_mono [OF t(1) M(3)] by simp
    moreover have "trees_datoms (t # ts) = merge_union ?c (children_datoms kts) (slice start hi nov)"
      using M(5) kts cut(3) eq by simp
    moreover have "\<not> ch \<longrightarrow> trees_datoms (t # ts) = children_datoms kts" using M(6) kts by auto
    ultimately show ?thesis using res M(2,3) by blast
    qed
  qed
qed simp

lemma stored_datoms_ok: "represents (get s) r t \<Longrightarrow> inv s \<Longrightarrow> \<forall>d\<in>set (contents t). dok d"
proof (induction rule: represents.induct)
  case (rep_leaf r ds)
  then show ?case using stored_ok [of s "r_hash r" "LeafNode ds"] by auto
next
  case (rep_dir r kts rs)
  have "\<forall>d\<in>set (contents (snd kt)). dok d" if "kt \<in> set kts" for kt
  proof -
    obtain j where "j < length kts" "kts ! j = kt" using \<open>kt \<in> set kts\<close> by (auto simp: in_set_conv_nth)
    then show ?thesis using rep_dir by (auto simp: list_all2_conv_all_nth)
  qed
  then show ?case by (fastforce simp: children_datoms_def)
qed

text \<open>The parameters of a build: positive sizes, a fanout of two or more, within the store's cap.\<close>

lemma mergeNode_ok:
  assumes par: "1 < fanout" "fanout \<le> cap" "0 < leafSize" "leafSize * 3 div 2 \<le> cap" "leafSize \<le> cap"
    and nov: "index_sorted i nov" "\<forall>d\<in>set nov. dok d"
  shows "inv s \<Longrightarrow> represents (get s) r t \<Longrightarrow> rok r \<Longrightarrow> wf_tree t \<or> t = ALeaf [] \<and> key = None \<Longrightarrow>
    index_sorted i (contents t) \<Longrightarrow> key = None \<or> key = Some (hd (contents t)) \<Longrightarrow> nodes t \<le> n \<Longrightarrow>
    lo < hi \<Longrightarrow> hi \<le> length nov \<Longrightarrow> length (contents t) + (hi - lo) < 2 ^ 53 \<Longrightarrow>
    merges_to get inv rok s (merge_union (comparatorFor i) (contents t) (slice lo hi nov))
      (mergeNode n get put i leafSize fanout nov s r key lo hi)"
proof (induction n arbitrary: s r t key lo hi)
  case 0
  then show ?case using nodes_pos [of t] by simp
next
  case (Suc n)
  let ?c = "comparatorFor i" let ?nov = "slice lo hi nov"
  let ?m = "merge_union ?c (contents t) ?nov"
  have sn: "index_sorted i ?nov" using nov(1) by (rule index_sorted_slice)
  have sm: "index_sorted i ?m" using Suc.prems(5) sn by (rule index_sorted_merge_union)
  have okm: "\<forall>d\<in>set ?m. dok d"
    using set_index_merge_union [OF Suc.prems(5) sn] stored_datoms_ok [OF Suc.prems(2,1)] nov(2)
      set_slice_subset [of lo hi nov] by auto
  have lenm: "length ?m < 2 ^ 53"
    using length_merge_union [of ?c "contents t" ?nov] length_slice [OF Suc.prems(9), of lo] Suc.prems(10)
    by linarith
  show ?case
  proof (cases t)
    case (ALeaf ds)
    have g: "getNode (get s) r = Inr (LeafNode ds)"
      using Suc.prems(2) ALeaf by (auto simp: getNode_def elim!: represents_leafE)
    have "?nov \<noteq> []" using length_slice [OF Suc.prems(9), of lo] Suc.prems(8) by auto
    moreover have "set ?m = set ds \<union> set ?nov" using set_index_merge_union [OF Suc.prems(5) sn] ALeaf by simp
    ultimately have mne: "?m \<noteq> []" by auto
    show ?thesis
    proof (cases "length ?m = length ds")
      case True
      then have eq: "?m = ds" using merge_union_all_dups [OF Suc.prems(5) sn] ALeaf by simp
      then have "wf_tree t" using mne ALeaf by simp
      moreover have "(case key of Some k \<Rightarrow> k | None \<Rightarrow> hd ds) = hd (contents t)"
        using Suc.prems(6) ALeaf by auto
      ultimately have "entry_rep (get s) rok (case key of Some k \<Rightarrow> k | None \<Rightarrow> hd ds, r) t"
        using Suc.prems(2,3) by simp
      then have "merges_to get inv rok s ds (Inr ([(case key of Some k \<Rightarrow> k | None \<Rightarrow> hd ds, r)], s))"
        using Suc.prems(1) ALeaf
        by (auto simp: merges_to_def intro!: exI [of _ "[t]"])
      then show ?thesis using g True ALeaf eq Suc.prems(8) by (simp add: sortedUnion_def Let_def)
    next
      case neq: False
      show ?thesis
      proof (cases "length ?m \<le> leafSize * 3 div 2")
        case True
        have pre: "\<forall>xs\<in>set [?m]. xs \<noteq> [] \<and> length xs \<le> cap \<and> (\<forall>d\<in>set xs. dok d)"
          using mne okm True par(4) by simp
        have "merges_to get inv rok s ?m (put_leaves put i s [?m])"
        proof (cases "put_leaves put i s [?m] = collision")
          case False
          then obtain es s' where P: "put_leaves put i s [?m] = Inr (es, s')" "inv s'" "get s \<subseteq>\<^sub>m get s'"
              "list_all2 (entry_rep (get s') rok) es (map ALeaf [?m])"
            using put_leaves_ok [OF Suc.prems(1) pre, of i] by blast
          have "es \<noteq> []" "trees_datoms (map ALeaf [?m]) = ?m" using P(4) by auto
          then show ?thesis using P unfolding merges_to_def by blast
        qed (simp add: merges_to_def)
        moreover have "put_leaves put i s [?m] =
            rbind (put s i (LeafNode ?m)) (\<lambda>(r', s'). Inr ([(hd ?m, r')], s'))" by simp
        ultimately show ?thesis using g neq True ALeaf Suc.prems(8) by (simp add: sortedUnion_def Let_def)
      next
        case False
        let ?parts = "ceil_div (length ?m) leafSize" let ?per = "ceil_div (length ?m) ?parts"
        have "0 < ?parts" using mne par(3) ceil_div_pos [of leafSize "length ?m"] by simp
        then have per: "0 < ?per" using mne ceil_div_pos [of ?parts "length ?m"] by simp
        have le: "?per \<le> cap" using even_split_le [of "length ?m" leafSize] mne par(3,5) by simp
        have "\<forall>xs\<in>set (slices ?per ?m). xs \<noteq> [] \<and> length xs \<le> cap \<and> (\<forall>d\<in>set xs. dok d)"
        proof
          fix xs assume "xs \<in> set (slices ?per ?m)"
          then show "xs \<noteq> [] \<and> length xs \<le> cap \<and> (\<forall>d\<in>set xs. dok d)"
            using slices_mem [of xs ?per ?m] le okm by auto
        qed
        note pre = this
        have "merges_to get inv rok s ?m (put_leaves put i s (slices ?per ?m))"
        proof (cases "put_leaves put i s (slices ?per ?m) = collision")
          case False
          then obtain es s' where P: "put_leaves put i s (slices ?per ?m) = Inr (es, s')" "inv s'"
              "get s \<subseteq>\<^sub>m get s'" "list_all2 (entry_rep (get s') rok) es (map ALeaf (slices ?per ?m))"
            using put_leaves_ok [OF Suc.prems(1) pre, of i] by blast
          have d: "trees_datoms (map ALeaf (slices ?per ?m)) = ?m"
            using concat_slices [OF per, of ?m] by (simp add: trees_datoms_def comp_def)
          then have "es \<noteq> []" using P(4) mne by auto
          then show ?thesis using P d unfolding merges_to_def by blast
        qed (simp add: merges_to_def)
        then show ?thesis using g neq False ALeaf Suc.prems(8) by (simp add: sortedUnion_def Let_def)
      qed
    qed
  next
    case (ADir kts)
    obtain rs where rs: "get s (r_hash r) = Some (DirNode (map fst kts) rs)"
      and reps: "list_all2 (\<lambda>r kt. represents (get s) r (snd kt)) rs kts"
      using Suc.prems(2) ADir by (auto elim!: represents_dirE)
    have wf: "children_wf kts" "kts \<noteq> []" using Suc.prems(4) ADir by auto
    have "\<forall>r\<in>set rs. rok r" using stored_ok [OF Suc.prems(1) rs] by simp
    then have ch: "list_all2 (child_rep (get s) rok) (zip (map fst kts) rs) kts"
      using zip_child_rep [OF reps] by blast
    have zne: "zip (map fst kts) rs \<noteq> []" using wf(2) list_all2_lengthD [OF reps] by (cases kts; cases rs) auto
    let ?rec = "\<lambda>s r k lo hi. mergeNode n get put i leafSize fanout nov s r (Some k) lo hi"
    have rec: "merges_to get inv rok s (merge_union ?c (contents t) (slice lo hi nov)) (?rec s r k lo hi)"
      if "inv s" "represents (get s) r t" "rok r" "wf_tree t" "index_sorted i (contents t)"
        "k = hd (contents t)" "nodes t \<le> n" "lo < hi" "hi \<le> length nov"
        "length (contents t) + (hi - lo) < 2 ^ 53" for s r k t lo hi
      using Suc.IH [of s r t "Some k" lo hi] that by simp
    have g: "getNode (get s) r = Inr (DirNode (map fst kts) rs)" using rs by (simp add: getNode_def)
    show ?thesis
    proof (cases "merge_children ?rec ?c nov hi s lo (zip (map fst kts) rs) = collision")
    case True
    then show ?thesis using g Suc.prems(8) by (simp add: merges_to_def)
    next
    case nc: False
    obtain es' chg s' ts where M: "merge_children ?rec ?c nov hi s lo (zip (map fst kts) rs) = Inr (es', chg, s')"
        "inv s'" "get s \<subseteq>\<^sub>m get s'" "es' \<noteq> []" "list_all2 (entry_rep (get s') rok) es' ts"
        "trees_datoms ts = merge_union ?c (children_datoms kts) ?nov"
        "\<not> chg \<longrightarrow> trees_datoms ts = children_datoms kts"
    proof -
      have pre: "index_sorted i (children_datoms kts)" "children_nodes kts \<le> n" "lo \<le> hi"
        "length (children_datoms kts) + (hi - lo) < 2 ^ 53"
        using Suc.prems(5,7,8,10) ADir by simp_all
      note R = merge_children_ok [where rec = ?rec and n = n, OF rec nov(1) Suc.prems(9,1) ch zne wf(1) pre]
      from R nc obtain es' chg s' ts where "merge_children ?rec ?c nov hi s lo (zip (map fst kts) rs) = Inr (es', chg, s')"
        "inv s'" "get s \<subseteq>\<^sub>m get s'" "es' \<noteq> []" "list_all2 (entry_rep (get s') rok) es' ts"
        "trees_datoms ts = merge_union ?c (children_datoms kts) ?nov"
        "\<not> chg \<longrightarrow> trees_datoms ts = children_datoms kts"
        by blast
      then show thesis by (rule that)
    qed
    show ?thesis
    proof (cases chg)
      case False
      then have eq: "?m = contents t" using M(6,7) ADir by simp
      have wft: "wf_tree t" using wf ADir by simp
      have "hd (map fst kts) = hd (contents t)"
        using wf ADir wf_tree_nonempty by (cases kts) auto
      then have "(case key of Some k \<Rightarrow> k | None \<Rightarrow> hd (map fst kts)) = hd (contents t)"
        using Suc.prems(6) by auto
      then have "entry_rep (get s') rok (case key of Some k \<Rightarrow> k | None \<Rightarrow> hd (map fst kts), r) t"
        using Suc.prems(3) wft represents_mono [OF Suc.prems(2) M(3)] by simp
      then have "merges_to get inv rok s ?m (Inr ([(case key of Some k \<Rightarrow> k | None \<Rightarrow> hd (map fst kts), r)], s'))"
        using M(2,3) eq by (auto simp: merges_to_def intro!: exI [of _ "[t]"])
      then show ?thesis using g M(1) False Suc.prems(8) by simp
    next
      case True
      have m: "trees_datoms ts = ?m" using M(6) ADir by simp
      have pre: "\<forall>d\<in>set (trees_datoms ts). dok d" "length (trees_datoms ts) < 2 ^ 53"
        using okm lenm m by simp_all
      have "merges_to get inv rok s ?m (put_dirs put i s' (group_entries fanout es'))"
      proof (cases "put_dirs put i s' (group_entries fanout es') = collision")
        case False
        then obtain es'' s'' us where P: "put_dirs put i s' (group_entries fanout es') = Inr (es'', s'')" "inv s''"
            "get s' \<subseteq>\<^sub>m get s''" "list_all2 (entry_rep (get s'') rok) es'' us" "trees_datoms us = trees_datoms ts"
            "length es'' = length (group_entries fanout es')"
          using group_put_ok [OF M(2,5,4) par(1,2) pre] by blast
        have "es'' \<noteq> []" using P(6) group_entries_props(4) [OF par(1) M(4)] by auto
        moreover have "get s \<subseteq>\<^sub>m get s''" using M(3) P(3) by (rule map_le_trans)
        moreover have "trees_datoms us = ?m" using P(5) m by simp
        ultimately show ?thesis using P(1,2,4) unfolding merges_to_def by blast
      qed (simp add: merges_to_def)
      then show ?thesis using g M(1) True Suc.prems(8) by simp
    qed
    qed
  qed
qed

lemma mergeTree_ok:
  assumes par: "1 < fanout" "fanout \<le> cap" "0 < leafSize" "leafSize * 3 div 2 \<le> cap" "leafSize \<le> cap"
    and nov: "index_sorted i nov" "\<forall>d\<in>set nov. dok d" and s: "inv s" "represents (get s) r t" "rok r" "wf_root i t"
    and n: "nodes t \<le> n" and len: "length (contents t) + length nov < 2 ^ 53"
  shows "mergeTree n get put i leafSize fanout s r nov = collision \<or>
    (\<exists>r' s' t'. mergeTree n get put i leafSize fanout s r nov = Inr (r', s') \<and> inv s' \<and>
    get s \<subseteq>\<^sub>m get s' \<and> rok r' \<and> represents (get s') r' t' \<and> wf_root i t' \<and>
    contents t' = merge_union (comparatorFor i) (contents t) nov)"
proof (cases "nov = []")
  case True
  then show ?thesis using s by (auto simp: mergeTree_def)
next
  case False
  let ?m = "merge_union (comparatorFor i) (contents t) nov"
  have sorted: "index_sorted i (contents t)" using s(4) by (simp add: wf_root_def index_sorted_def)
  have sm: "index_sorted i ?m" using sorted nov(1) by (rule index_sorted_merge_union)
  have root_t: "wf_tree t \<or> t = ALeaf []" using s(4) by (auto simp: wf_root_def)
  have "merges_to get inv rok s ?m (mergeNode n get put i leafSize fanout nov s r None 0 (length nov))"
  proof -
    have key: "wf_tree t \<or> t = ALeaf [] \<and> (None :: datom option) = None" "(None :: datom option) = None \<or> None = Some (hd (contents t))"
      using root_t by simp_all
    have "0 < length nov" "length (contents t) + (length nov - 0) < 2 ^ 53" using False len by simp_all
    from mergeNode_ok [OF par nov s(1-3) key(1) sorted key(2) n this(1) le_refl this(2)]
    show ?thesis by (simp only: slice_full)
  qed
  then consider (col) "mergeNode n get put i leafSize fanout nov s r None 0 (length nov) = collision"
    | (ok) es s1 ts where "mergeNode n get put i leafSize fanout nov s r None 0 (length nov) = Inr (es, s1)"
      "inv s1" "get s \<subseteq>\<^sub>m get s1" "es \<noteq> []" "list_all2 (entry_rep (get s1) rok) es ts" "trees_datoms ts = ?m"
    by (auto simp: merges_to_def)
  then show ?thesis
  proof cases
  case col
  then show ?thesis using False by (simp add: mergeTree_def)
  next
  case M: ok
  have root: "wf_root i t'" if "wf_tree t'" "contents t' = ?m" for t'
    using that sm by (simp add: wf_root_def index_sorted_def)
  show ?thesis
  proof (cases "length es = 1")
    case True
    then obtain k1 r1 where es: "es = [(k1, r1)]" by (cases es) auto
    then obtain u where u: "ts = [u]" "represents (get s1) r1 u" "rok r1" "wf_tree u"
      using M(5) by (auto simp: list_all2_Cons1)
    then have cu: "contents u = ?m" using M(6) by simp
    have "mergeTree n get put i leafSize fanout s r nov = Inr (r1, s1)"
      using M(1) es False by (simp add: mergeTree_def)
    then show ?thesis using M(2,3) u cu root [OF u(4) cu] by blast
  next
    case ne: False
    have "length ?m < 2 ^ 53" using length_merge_union [of _ "contents t" nov] len by (meson le_less_trans)
    moreover have "\<forall>d\<in>set ?m. dok d"
      using set_index_merge_union [OF sorted nov(1)] stored_datoms_ok [OF s(2,1)] nov(2) by auto
    ultimately have pre: "\<forall>d\<in>set (trees_datoms ts). dok d" "length (trees_datoms ts) < 2 ^ 53"
      using M(6) by simp_all
    show ?thesis
    proof (cases "buildLevels put i fanout s1 es = collision")
      case True
      then show ?thesis using M(1) ne False by (auto simp: mergeTree_def)
    next
      case nc: False
      then obtain r' s' t' where B: "buildLevels put i fanout s1 es = Inr (r', s')" "inv s'"
          "get s1 \<subseteq>\<^sub>m get s'" "rok r'" "represents (get s') r' t'" "wf_tree t'" "contents t' = ?m"
        using buildLevels_ok [OF M(2,5,4) par(1,2) pre] unfolding M(6) by blast
      have "get s \<subseteq>\<^sub>m get s'" using M(3) B(3) by (rule map_le_trans)
      moreover have "mergeTree n get put i leafSize fanout s r nov = Inr (r', s')"
        using M(1) B(1) ne False by (auto simp: mergeTree_def)
      ultimately show ?thesis using B(2,4,5,7) root [OF B(6,7)] by blast
    qed
  qed
  qed
qed

end

end
