(* ===== verification/Encoding.thy ===== *)
theory Encoding
  imports Values
begin

text \<open>
  The byte encodings of \<open>internal/core/datom.ts\<close>: text encoding and decoding as the web
  platform defines it, the fixed-width order-preserving encodings of numbers, UUID bytes,
  and \<open>encodeValue\<close> / \<open>decodeValue\<close>. Encoding preserves the order of values and decoding
  inverts it, for strings that are well-formed UTF-16 (and, for decoding, do not start
  with a byte order mark, which the decoder drops).
\<close>

section \<open>Text\<close>

text \<open>
  \<open>TextEncoder\<close>: code units to scalar values, a surrogate without its partner becoming
  the replacement character, then each scalar value to its bytes.
\<close>

fun to_scalars :: "jsstr \<Rightarrow> nat list" where
  "to_scalars [] = []"
| "to_scalars [c] = (if 0xD800 \<le> unat c \<and> unat c < 0xE000 then [0xFFFD] else [unat c])"
| "to_scalars (c # d # cs) =
     (if 0xD800 \<le> unat c \<and> unat c < 0xDC00 then
        (if 0xDC00 \<le> unat d \<and> unat d < 0xE000 then
           (0x10000 + (unat c - 0xD800) * 0x400 + (unat d - 0xDC00)) # to_scalars cs
         else 0xFFFD # to_scalars (d # cs))
      else if 0xDC00 \<le> unat c \<and> unat c < 0xE000 then 0xFFFD # to_scalars (d # cs)
      else unat c # to_scalars (d # cs))"

definition utf8_nats :: "nat \<Rightarrow> nat list" where
  "utf8_nats x =
     (if x < 0x80 then [x]
      else if x < 0x800 then [0xC0 + x div 64, 0x80 + x mod 64]
      else if x < 0x10000 then [0xE0 + x div 4096, 0x80 + x div 64 mod 64, 0x80 + x mod 64]
      else [0xF0 + x div 262144, 0x80 + x div 4096 mod 64, 0x80 + x div 64 mod 64, 0x80 + x mod 64])"

definition utf8_scalar :: "nat \<Rightarrow> bytes" where
  "utf8_scalar x = map of_nat (utf8_nats x)"

definition utf8_encode :: "jsstr \<Rightarrow> bytes" where
  "utf8_encode s = concat (map utf8_scalar (to_scalars s))"

text \<open>
  \<open>TextDecoder\<close>: the state is the number of continuation bytes still needed, the scalar
  value so far and the range allowed for the next byte. A byte out of range yields the
  replacement character and is read again as a first byte.
\<close>

fun utf8_loop :: "nat \<Rightarrow> nat \<Rightarrow> nat \<Rightarrow> nat \<Rightarrow> nat list \<Rightarrow> nat list" where
  "utf8_loop needed cp lo hi [] = (if needed = 0 then [] else [0xFFFD])"
| "utf8_loop needed cp lo hi (b # bs) =
     (if 0 < needed \<and> lo \<le> b \<and> b \<le> hi then
        (let cp' = cp * 64 + b mod 64
         in if needed = 1 then cp' # utf8_loop 0 0 0x80 0xBF bs
            else utf8_loop (needed - 1) cp' 0x80 0xBF bs)
      else
        (if 0 < needed then [0xFFFD] else []) @
        (if b < 0x80 then b # utf8_loop 0 0 0x80 0xBF bs
         else if 0xC2 \<le> b \<and> b \<le> 0xDF then utf8_loop 1 (b mod 32) 0x80 0xBF bs
         else if 0xE0 \<le> b \<and> b \<le> 0xEF then
           utf8_loop 2 (b mod 16) (if b = 0xE0 then 0xA0 else 0x80) (if b = 0xED then 0x9F else 0xBF) bs
         else if 0xF0 \<le> b \<and> b \<le> 0xF4 then
           utf8_loop 3 (b mod 8) (if b = 0xF0 then 0x90 else 0x80) (if b = 0xF4 then 0x8F else 0xBF) bs
         else 0xFFFD # utf8_loop 0 0 0x80 0xBF bs))"

fun drop_bom :: "nat list \<Rightarrow> nat list" where
  "drop_bom [] = []"
| "drop_bom (x # xs) = (if x = 0xFEFF then xs else x # xs)"

definition units :: "nat \<Rightarrow> jsstr" where
  "units x = (if x < 0x10000 then [of_nat x]
     else [of_nat (0xD800 + (x - 0x10000) div 0x400), of_nat (0xDC00 + (x - 0x10000) mod 0x400)])"

definition utf8_decode :: "bytes \<Rightarrow> jsstr" where
  "utf8_decode bs = concat (map units (drop_bom (utf8_loop 0 0 0x80 0xBF (map unat bs))))"

text \<open>Strings of whole scalar values, and those that survive a trip through their bytes.\<close>

fun wf_utf16 :: "jsstr \<Rightarrow> bool" where
  "wf_utf16 [] = True"
| "wf_utf16 [c] = (unat c < 0xD800 \<or> 0xE000 \<le> unat c)"
| "wf_utf16 (c # d # cs) =
     (if 0xD800 \<le> unat c \<and> unat c < 0xDC00 then 0xDC00 \<le> unat d \<and> unat d < 0xE000 \<and> wf_utf16 cs
      else (unat c < 0xD800 \<or> 0xE000 \<le> unat c) \<and> wf_utf16 (d # cs))"

definition text_ok :: "jsstr \<Rightarrow> bool" where
  "text_ok s \<longleftrightarrow> wf_utf16 s \<and> (s = [] \<or> hd s \<noteq> 0xFEFF)"

definition scalar_ok :: "nat \<Rightarrow> bool" where
  "scalar_ok x \<longleftrightarrow> x < 0xD800 \<or> 0xE000 \<le> x \<and> x < 0x110000"

lemma units_to_scalars:
  "wf_utf16 s \<Longrightarrow> concat (map units (to_scalars s)) = s \<and> (\<forall>x\<in>set (to_scalars s). scalar_ok x)"
proof (induction s rule: to_scalars.induct)
  case (2 c)
  then show ?case using unat_word16 [of c] by (auto simp: units_def scalar_ok_def)
next
  case (3 c d cs)
  have *: "(0x10000 + (unat c - 0xD800) * 0x400 + (unat d - 0xDC00) - 0x10000) div 0x400 = unat c - 0xD800"
    "(0x10000 + (unat c - 0xD800) * 0x400 + (unat d - 0xDC00) - 0x10000) mod 0x400 = unat d - 0xDC00"
    if "0xDC00 \<le> unat d" "unat d < 0xE000"
  proof -
    have "0x10000 + a * 0x400 + k - 0x10000 = k + a * (0x400 :: nat)" for a k by simp
    moreover have "unat d - 0xDC00 < 0x400" using that by simp
    ultimately show "(0x10000 + (unat c - 0xD800) * 0x400 + (unat d - 0xDC00) - 0x10000) div 0x400 = unat c - 0xD800"
      "(0x10000 + (unat c - 0xD800) * 0x400 + (unat d - 0xDC00) - 0x10000) mod 0x400 = unat d - 0xDC00"
      by (simp_all only: mod_mult_self1 div_mult_self1 mod_less div_less)
  qed
  show ?case
  proof (cases "0xD800 \<le> unat c \<and> unat c < 0xDC00")
    case True
    then have d: "0xDC00 \<le> unat d" "unat d < 0xE000" "wf_utf16 cs" using "3.prems" by auto
    let ?x = "0x10000 + (unat c - 0xD800) * 0x400 + (unat d - 0xDC00)"
    have s: "scalar_ok ?x" using True d by (auto simp: scalar_ok_def)
    have u: "units ?x = [of_nat (0xD800 + (unat c - 0xD800)), of_nat (0xDC00 + (unat d - 0xDC00))]"
      by (simp only: units_def * [OF d(1,2)]) simp
    then have "units ?x = [c, d]" using True d by simp
    then show ?thesis using "3.IH"(1) [OF True] True d s by simp
  next
    case False
    then have c: "unat c < 0xD800 \<or> 0xE000 \<le> unat c" "wf_utf16 (d # cs)" using "3.prems" by (auto split: if_splits)
    then have "\<not> (0xDC00 \<le> unat c \<and> unat c < 0xE000)" by auto
    then show ?thesis using "3.IH"(4) [OF False] c unat_word16 [of c] False
      by (auto simp: units_def scalar_ok_def)
  qed
qed simp

lemma utf8_nats_bytes: "scalar_ok x \<Longrightarrow> \<forall>b\<in>set (utf8_nats x). b < 256"
  by (auto simp: utf8_nats_def scalar_ok_def)

lemma unat_utf8_scalar: "scalar_ok x \<Longrightarrow> map unat (utf8_scalar x) = utf8_nats x"
proof -
  assume "scalar_ok x"
  then have "unat (of_nat b :: 8 word) = b" if "b \<in> set (utf8_nats x)" for b
    using utf8_nats_bytes that by (auto intro!: of_nat_inverse [OF refl])
  then show ?thesis by (simp add: utf8_scalar_def comp_def map_idI)
qed

lemma lead_mods:
  "a < 32 \<Longrightarrow> (0xC0 + a) mod 32 = (a :: nat)" "a < 16 \<Longrightarrow> (0xE0 + a) mod 16 = (a :: nat)"
  "a < 8 \<Longrightarrow> (0xF0 + a) mod 8 = (a :: nat)" "a < 64 \<Longrightarrow> (0x80 + a) mod 64 = (a :: nat)"
  using mod_mult_self4 [of 32 6 a] mod_mult_self4 [of 16 14 a] mod_mult_self4 [of 8 30 a] mod_mult_self4 [of 64 2 a]
  by simp_all

lemma digits64:
  fixes x :: nat
  shows "x div 64 * 64 + x mod 64 = x" "x div 4096 * 4096 + x div 64 mod 64 * 64 + x mod 64 = x"
    "x div 262144 * 262144 + x div 4096 mod 64 * 4096 + x div 64 mod 64 * 64 + x mod 64 = x"
proof -
  have d: "x div 4096 = x div 64 div 64" "x div 262144 = x div 64 div 64 div 64"
    by (simp_all add: div_mult2_eq [symmetric])
  note m = div_mult_mod_eq [of x 64] div_mult_mod_eq [of "x div 64" 64] div_mult_mod_eq [of "x div 64 div 64" 64]
  show "x div 64 * 64 + x mod 64 = x" by (rule m(1))
  show "x div 4096 * 4096 + x div 64 mod 64 * 64 + x mod 64 = x" using m(1,2) unfolding d by linarith
  show "x div 262144 * 262144 + x div 4096 mod 64 * 4096 + x div 64 mod 64 * 64 + x mod 64 = x"
    using m unfolding d by linarith
qed

text \<open>The decoder reads back one encoded scalar value.\<close>

lemma utf8_loop_scalar:
  "scalar_ok x \<Longrightarrow> utf8_loop 0 0 0x80 0xBF (utf8_nats x @ bs) = x # utf8_loop 0 0 0x80 0xBF bs"
proof -
  assume x: "scalar_ok x"
  consider "x < 0x80" | "0x80 \<le> x" "x < 0x800" | "0x800 \<le> x" "x < 0x10000" | "0x10000 \<le> x" by linarith
  then show ?thesis
  proof cases
    case 1
    then show ?thesis by (simp add: utf8_nats_def)
  next
    case 2
    define a b where "a = x div 64" and "b = x mod 64"
    have eq: "x = a * 64 + b" using digits64(1) [of x] by (simp add: a_def b_def)
    have lt: "b < 64" "a < 32" "2 \<le> a" using 2 unfolding a_def b_def by simp_all
    have m: "(0xC0 + a) mod 32 = a" "(0x80 + b) mod 64 = b" using lt by (simp_all add: lead_mods)
    have u: "utf8_nats x = [0xC0 + a, 0x80 + b]" using 2 by (simp add: utf8_nats_def a_def b_def)
    show ?thesis unfolding u using lt m by (simp add: Let_def) (simp add: eq)
  next
    case 3
    define a b c where "a = x div 4096" and "b = x div 64 mod 64" and "c = x mod 64"
    have eq: "x = a * 4096 + b * 64 + c" using digits64(2) [of x] by (simp add: a_def b_def c_def)
    have lt: "b < 64" "c < 64" "a < 16" using 3 unfolding a_def b_def c_def by simp_all
    have lo: "a = 0 \<Longrightarrow> 32 \<le> b" using 3 lt unfolding eq by linarith
    have hi: "a = 13 \<Longrightarrow> b \<le> 31" using x lt 3 unfolding scalar_ok_def eq by linarith
    have m: "(0xE0 + a) mod 16 = a" "(0x80 + b) mod 64 = b" "(0x80 + c) mod 64 = c"
      using lt by (simp_all add: lead_mods)
    have u: "utf8_nats x = [0xE0 + a, 0x80 + b, 0x80 + c]"
      using 3 by (simp add: utf8_nats_def a_def b_def c_def)
    show ?thesis unfolding u using lt lo hi m by (simp add: Let_def) (simp add: eq)
  next
    case 4
    define a b c d where "a = x div 262144" and "b = x div 4096 mod 64" and "c = x div 64 mod 64" and "d = x mod 64"
    have eq: "x = a * 262144 + b * 4096 + c * 64 + d" using digits64(3) [of x] by (simp add: a_def b_def c_def d_def)
    have lt: "b < 64" "c < 64" "d < 64" unfolding b_def c_def d_def by simp_all
    have a: "a \<le> 4" using 4 x lt unfolding scalar_ok_def eq by linarith
    have lo: "a = 0 \<Longrightarrow> 16 \<le> b" using 4 lt unfolding eq by linarith
    have hi: "a = 4 \<Longrightarrow> b \<le> 15" using x 4 lt unfolding scalar_ok_def eq by linarith
    have m: "(0xF0 + a) mod 8 = a" "(0x80 + b) mod 64 = b" "(0x80 + c) mod 64 = c" "(0x80 + d) mod 64 = d"
      using lt a by (simp_all add: lead_mods)
    have u: "utf8_nats x = [0xF0 + a, 0x80 + b, 0x80 + c, 0x80 + d]"
      using 4 by (simp add: utf8_nats_def a_def b_def c_def d_def)
    show ?thesis unfolding u using lt a lo hi m by (simp add: Let_def) (simp add: eq)
  qed
qed

lemma utf8_loop_scalars:
  "\<forall>x\<in>set xs. scalar_ok x \<Longrightarrow> utf8_loop 0 0 0x80 0xBF (concat (map utf8_nats xs)) = xs"
  by (induction xs) (auto simp: utf8_loop_scalar)

lemma map_unat_utf8_encode:
  "wf_utf16 s \<Longrightarrow> map unat (utf8_encode s) = concat (map utf8_nats (to_scalars s))"
  using units_to_scalars [of s]
  by (auto simp: utf8_encode_def map_concat unat_utf8_scalar intro!: arg_cong [where f = concat])

lemma hd_to_scalars_bom: "to_scalars (c # s) \<noteq> [] \<and> (hd (to_scalars (c # s)) = 0xFEFF \<longrightarrow> c = 0xFEFF)"
  by (cases s) (auto simp: word_unat_eq_iff)

lemma utf8_decode_encode: "text_ok s \<Longrightarrow> utf8_decode (utf8_encode s) = s"
proof -
  assume s: "text_ok s"
  then have wf: "wf_utf16 s" by (simp add: text_ok_def)
  have l: "utf8_loop 0 0 0x80 0xBF (map unat (utf8_encode s)) = to_scalars s"
    using units_to_scalars [OF wf] by (simp add: map_unat_utf8_encode [OF wf] utf8_loop_scalars)
  have "drop_bom (to_scalars s) = to_scalars s"
  proof (cases s)
    case (Cons c cs)
    then show ?thesis using s hd_to_scalars_bom [of c cs] by (cases "to_scalars s") (auto simp: text_ok_def)
  qed simp
  then show ?thesis using l units_to_scalars [OF wf] by (simp add: utf8_decode_def)
qed

subsection \<open>Bytes order as scalar values do\<close>

lemma lex_by_prefix [simp]: "lex_by k (p @ xs) (p @ ys) = lex_by k xs ys"
  by (induction p) auto

text \<open>A code that orders single symbols before any continuation orders sequences of symbols.\<close>

lemma lex_by_concat:
  assumes code: "\<And>x y as bs. ok x \<Longrightarrow> ok y \<Longrightarrow> x < y \<Longrightarrow> lex_by k (code x @ as) (code y @ bs) = -1"
    and ne: "\<And>x. ok x \<Longrightarrow> code x \<noteq> []"
  shows "\<forall>x\<in>set xs \<union> set ys. ok x \<Longrightarrow>
    lex_by k (concat (map code xs)) (concat (map code ys)) = lex_by (id :: nat \<Rightarrow> nat) xs ys"
proof (induction "id :: nat \<Rightarrow> nat" xs ys rule: lex_by.induct)
  case (2 y ys)
  then show ?case using ne [of y] by (cases "code y") auto
next
  case (3 x xs)
  then show ?case using ne [of x] by (cases "code x") auto
next
  case (4 x xs y ys)
  show ?case
  proof (cases x y rule: linorder_cases)
    case equal
    then show ?thesis using 4 by simp
  next
    case less
    then show ?thesis using "4.prems" code [of x y] by simp
  next
    case greater
    then show ?thesis
      using "4.prems" code [of y x "concat (map code ys)" "concat (map code xs)"]
        lex_by_anti [of k "code x @ concat (map code xs)"] by simp
  qed
qed simp

lemma divmod_less:
  fixes u v :: nat
  assumes "u < v"
  shows "u div n < v div n \<or> u div n = v div n \<and> u mod n < v mod n"
proof (cases "u div n = v div n")
  case True
  then have "u mod n < v mod n"
    using div_mult_mod_eq [of u n] div_mult_mod_eq [of v n] assms by (metis add_less_cancel_left)
  then show ?thesis using True by simp
qed (use div_le_mono [of u v n] assms in simp)

lemma lex_units:
  assumes "scalar_ok x" "scalar_ok y" "x < y"
  shows "lex_by point_key (units x @ as) (units y @ bs) = -1"
proof -
  have key: "point_key (of_nat z) = (if z < 0xD800 then z else z - 0x800)" if "scalar_ok z" "z < 0x10000" for z
  proof -
    have "unat (of_nat z :: 16 word) = z" using that by (auto intro!: of_nat_inverse [OF refl])
    then show ?thesis using that by (auto simp: point_key_def scalar_ok_def)
  qed
  have hi: "point_key (of_nat (0xD800 + (z - 0x10000) div 0x400)) = 0xF800 + (z - 0x10000) div 0x400"
    and lo: "point_key (of_nat (0xDC00 + (z - 0x10000) mod 0x400)) = 0xFC00 + (z - 0x10000) mod 0x400"
    if "scalar_ok z" "0x10000 \<le> z" for z
  proof -
    have d: "(z - 0x10000) div 0x400 < 0x400" "(z - 0x10000) mod 0x400 < 0x400"
      using that by (auto simp: scalar_ok_def)
    then have b: "0xD800 + (z - 0x10000) div 0x400 < 0x10000" "0xDC00 + (z - 0x10000) mod 0x400 < 0x10000"
      by linarith+
    have "unat (of_nat n :: 16 word) = n" if "n < 0x10000" for n
      using that by (auto intro!: of_nat_inverse [OF refl])
    from this [OF b(1)] this [OF b(2)]
    have "unat (of_nat (0xD800 + (z - 0x10000) div 0x400) :: 16 word) = 0xD800 + (z - 0x10000) div 0x400"
      "unat (of_nat (0xDC00 + (z - 0x10000) mod 0x400) :: 16 word) = 0xDC00 + (z - 0x10000) mod 0x400"
      by blast+
    then show "point_key (of_nat (0xD800 + (z - 0x10000) div 0x400)) = 0xF800 + (z - 0x10000) div 0x400"
      "point_key (of_nat (0xDC00 + (z - 0x10000) mod 0x400)) = 0xFC00 + (z - 0x10000) mod 0x400"
      using d unfolding point_key_def by (simp_all only:) simp_all
  qed
  consider "y < 0x10000" | "x < 0x10000" "0x10000 \<le> y" | "0x10000 \<le> x" using assms(3) by linarith
  then show ?thesis
  proof cases
    case 1
    then show ?thesis using assms key [of x] key [of y] by (auto simp: units_def scalar_ok_def)
  next
    case 2
    then show ?thesis using assms key [of x] hi [of y] by (auto simp: units_def scalar_ok_def)
  next
    case 3
    then have y: "0x10000 \<le> y" using assms(3) by simp
    define u v where "u = x - 0x10000" and "v = y - 0x10000"
    have "u < v" using 3 assms(3) by (simp add: u_def v_def)
    then have "u div 0x400 < v div 0x400 \<or> u div 0x400 = v div 0x400 \<and> u mod 0x400 < v mod 0x400"
      by (rule divmod_less)
    then show ?thesis
      using 3 y hi [OF assms(1) 3] hi [OF assms(2) y] lo [OF assms(1) 3] lo [OF assms(2) y]
      unfolding units_def u_def [symmetric] v_def [symmetric] by auto
  qed
qed

lemma compareStrings_scalars:
  assumes "wf_utf16 s" "wf_utf16 t"
  shows "compareStrings s t = lex_by id (to_scalars s) (to_scalars t)"
proof -
  have "lex_by point_key (concat (map units (to_scalars s))) (concat (map units (to_scalars t))) =
      lex_by id (to_scalars s) (to_scalars t)"
    by (rule lex_by_concat [where ok = scalar_ok, OF lex_units])
      (use units_to_scalars [OF assms(1)] units_to_scalars [OF assms(2)] in \<open>auto simp: units_def\<close>)
  then show ?thesis
    using units_to_scalars [OF assms(1)] units_to_scalars [OF assms(2)] by (simp add: compareStrings_lex)
qed

lemma lex_utf8:
  assumes "scalar_ok x" "scalar_ok y" "x < y"
  shows "lex_by id (utf8_nats x @ as) (utf8_nats y @ bs) = -1"
proof -
  have d: "z div 4096 = z div 64 div 64" "z div 262144 = z div 64 div 64 div 64" for z :: nat
    by (simp_all add: div_mult2_eq [symmetric])
  note dm = divmod_less [OF assms(3), of 64]
  have dm2: "x div 4096 < y div 4096 \<or> x div 4096 = y div 4096 \<and>
      (x div 64 mod 64 < y div 64 mod 64 \<or> x div 64 mod 64 = y div 64 mod 64 \<and> x mod 64 < y mod 64)"
    using dm divmod_less [of "x div 64" "y div 64" 64] unfolding d by auto
  have dm3: "x div 262144 < y div 262144 \<or> x div 262144 = y div 262144 \<and>
      (x div 4096 mod 64 < y div 4096 mod 64 \<or> x div 4096 mod 64 = y div 4096 mod 64 \<and>
      (x div 64 mod 64 < y div 64 mod 64 \<or> x div 64 mod 64 = y div 64 mod 64 \<and> x mod 64 < y mod 64))"
    using dm2 divmod_less [of "x div 64 div 64" "y div 64 div 64" 64] unfolding d by auto
  define a2 a3 a4 b3 b4 c d2 d3 d4 e3 e4 f where
    "a2 = x div 64" and "a3 = x div 4096" and "a4 = x div 262144" and "b3 = a2 mod 64" and
    "b4 = a3 mod 64" and "c = x mod 64" and "d2 = y div 64" and "d3 = y div 4096" and
    "d4 = y div 262144" and "e3 = d2 mod 64" and "e4 = d3 mod 64" and "f = y mod 64"
  note names = a2_def [symmetric] a3_def [symmetric] a4_def [symmetric] b3_def [symmetric] b4_def [symmetric]
    c_def [symmetric] d2_def [symmetric] d3_def [symmetric] d4_def [symmetric] e3_def [symmetric]
    e4_def [symmetric] f_def [symmetric]
  note dms = dm [unfolded names] dm2 [unfolded names] dm3 [unfolded names]
  have le: "0x80 \<le> y \<longrightarrow> 2 \<le> d2" "x < 0x800 \<longrightarrow> a2 < 32" "x < 0x10000 \<longrightarrow> a3 < 16"
    unfolding d2_def a2_def a3_def by linarith+
  have x: "utf8_nats x = (if x < 0x80 then [x] else if x < 0x800 then [0xC0 + a2, 0x80 + c]
      else if x < 0x10000 then [0xE0 + a3, 0x80 + b3, 0x80 + c] else [0xF0 + a4, 0x80 + b4, 0x80 + b3, 0x80 + c])"
    unfolding utf8_nats_def names ..
  have y: "utf8_nats y = (if y < 0x80 then [y] else if y < 0x800 then [0xC0 + d2, 0x80 + f]
      else if y < 0x10000 then [0xE0 + d3, 0x80 + e3, 0x80 + f] else [0xF0 + d4, 0x80 + e4, 0x80 + e3, 0x80 + f])"
    unfolding utf8_nats_def names ..
  consider "y < 0x80" | "x < 0x80" "0x80 \<le> y" | "0x80 \<le> x" "y < 0x800"
    | "0x80 \<le> x" "x < 0x800" "0x800 \<le> y" | "0x800 \<le> x" "y < 0x10000"
    | "0x800 \<le> x" "x < 0x10000" "0x10000 \<le> y" | "0x10000 \<le> x" using assms(3) by linarith
  then show ?thesis
  proof cases
    case 1
    then show ?thesis unfolding x y using assms(3) by simp
  next
    case 2
    then show ?thesis unfolding x y by simp
  next
    case 3
    then show ?thesis unfolding x y using assms(3) dms(1) by auto
  next
    case 4
    then show ?thesis unfolding x y using le(2) by simp
  next
    case 5
    then show ?thesis unfolding x y using assms(3) dms(2) by auto
  next
    case 6
    then show ?thesis unfolding x y using le(3) by simp
  next
    case 7
    then show ?thesis unfolding x y using assms(3) dms(3) by auto
  qed
qed

lemma compareBytes_utf8_encode:
  assumes "wf_utf16 s" "wf_utf16 t"
  shows "compareBytes (utf8_encode s) (utf8_encode t) = compareStrings s t"
proof -
  have "lex_by id (concat (map utf8_nats (to_scalars s))) (concat (map utf8_nats (to_scalars t))) =
      lex_by id (to_scalars s) (to_scalars t)"
    by (rule lex_by_concat [where ok = scalar_ok, OF lex_utf8])
      (use units_to_scalars [OF assms(1)] units_to_scalars [OF assms(2)] in \<open>auto simp: utf8_nats_def\<close>)
  then show ?thesis
    using assms by (simp add: compareBytes_lex lex_by_map [of "unat :: 8 word \<Rightarrow> nat"] map_unat_utf8_encode
        compareStrings_scalars)
qed

section \<open>Numbers\<close>

text \<open>The four bytes of a 32-bit word, most significant first, by the shifts of the code.\<close>

definition be32 :: "32 word \<Rightarrow> bytes" where
  "be32 w = [ucast (drop_bit 24 w), ucast (drop_bit 16 w AND 0xFF), ucast (drop_bit 8 w AND 0xFF), ucast (w AND 0xFF)]"

text \<open>Reading them back; past the end of the buffer the sum is not a number (\<open>None\<close>).\<close>

definition u32_at :: "bytes \<Rightarrow> nat \<Rightarrow> nat option" where
  "u32_at buf off =
     (if off + 3 < length buf then
        Some (unat (buf ! off) * 2 ^ 24 + unat (buf ! (off + 1)) * 2 ^ 16 + unat (buf ! (off + 2)) * 2 ^ 8
              + unat (buf ! (off + 3)))
      else None)"

definition or_zero :: "nat option \<Rightarrow> nat" where
  "or_zero x = (case x of Some n \<Rightarrow> n | None \<Rightarrow> 0)"

definition SIGN_FLIP :: "64 word" where
  "SIGN_FLIP = push_bit 63 1"

definition encodeI64 :: "int \<Rightarrow> bytes" where
  "encodeI64 n =
     (let b = word_of_int n XOR SIGN_FLIP; hi = ucast (drop_bit 32 b); lo = ucast (b AND 0xFFFFFFFF)
      in be32 hi @ be32 lo)"

definition decodeI64 :: "bytes \<Rightarrow> nat \<Rightarrow> int" where
  "decodeI64 buf off =
     (let hi = or_zero (u32_at buf off); lo = or_zero (u32_at buf (off + 4));
          u = push_bit 32 (of_nat hi) OR of_nat lo
      in sint (u XOR SIGN_FLIP))"

definition encodeU64 :: "int \<Rightarrow> bytes" where
  "encodeU64 n = be32 (word_of_int (n div 0x100000000)) @ be32 (word_of_int (n mod 0x100000000))"

text \<open>A JavaScript number from an integer result, rounded beyond the safe range.\<close>

definition num_of_int :: "int \<Rightarrow> jsnum" where
  "num_of_int n = (if safe_int n then NInt n else NDbl (f64_of_int n))"

definition f64_NaN :: f64 where
  "f64_NaN = 0x7FF8000000000000"

definition decodeU64 :: "bytes \<Rightarrow> nat \<Rightarrow> jsnum" where
  "decodeU64 buf off =
     (case (u32_at buf off, u32_at buf (off + 4)) of
        (Some hi, Some lo) \<Rightarrow> num_of_int (int hi * 0x100000000 + int lo)
      | _ \<Rightarrow> NDbl f64_NaN)"

definition encodeF64 :: "f64 \<Rightarrow> bytes" where
  "encodeF64 x =
     (let y = f64_plus_zero x; hi = ucast (drop_bit 32 y) :: 32 word; lo = ucast y :: 32 word
      in if hi AND 0x80000000 \<noteq> 0 then be32 (NOT hi) @ be32 (NOT lo) else be32 (hi OR 0x80000000) @ be32 lo)"

definition decodeF64 :: "bytes \<Rightarrow> nat \<Rightarrow> f64" where
  "decodeF64 buf off =
     (let hi = of_nat (or_zero (u32_at buf off)) :: 32 word; lo = of_nat (or_zero (u32_at buf (off + 4))) :: 32 word;
          (hi', lo') = (if hi AND 0x80000000 \<noteq> 0 then (hi AND 0x7FFFFFFF, lo) else (NOT hi, NOT lo))
      in push_bit 32 (ucast hi') OR ucast lo')"

subsection \<open>Big-endian bytes are numbers\<close>

definition be_val :: "bytes \<Rightarrow> nat" where
  "be_val bs = foldl (\<lambda>a b. a * 256 + unat b) 0 bs"

lemma be_val_foldl: "foldl (\<lambda>a b. a * 256 + unat b) a (bs :: bytes) = a * 256 ^ length bs + be_val bs"
proof (induction bs arbitrary: a)
  case (Cons b bs)
  show ?case
    unfolding be_val_def foldl_Cons Cons.IH [of "a * 256 + unat b"] Cons.IH [of "0 * 256 + unat b"]
    by (simp add: algebra_simps)
qed (simp add: be_val_def)

lemma be_val_append: "be_val (xs @ ys) = be_val xs * 256 ^ length ys + be_val ys"
  using be_val_foldl [of "be_val xs" ys] by (simp add: be_val_def)

lemma unat_byte: "unat (b :: 8 word) < 256"
  using unsigned_less [of b] by simp

lemma be_val_less: "be_val bs < 256 ^ length bs"
proof (induction bs rule: rev_induct)
  case (snoc b bs)
  then show ?case using unat_byte [of b] by (simp add: be_val_append) (simp add: be_val_def)
qed (simp add: be_val_def)

lemma sgn_cmp_nat: "sgn_cmp (int a) (int b) = (if a < b then -1 else if b < a then 1 else 0)"
  by (simp add: sgn_cmp_def)

lemma lex_be_val: "length xs = length ys \<Longrightarrow> lex_by unat xs ys = sgn_cmp (int (be_val xs)) (int (be_val ys))"
proof (induction xs ys rule: list_induct2)
  case (Cons x xs y ys)
  have v: "be_val (z # zs) = unat z * 256 ^ length zs + be_val zs" for z and zs :: bytes
    using be_val_append [of "[z]" zs] by (simp add: be_val_def)
  have *: "a < b \<Longrightarrow> be_val as < 256 ^ n \<Longrightarrow> a * 256 ^ n + be_val as < b * 256 ^ n + be_val bs" for a b n and as bs :: bytes
    using mult_le_mono1 [of "a + 1" b "256 ^ n"] by simp
  have "be_val xs < 256 ^ length xs" "be_val ys < 256 ^ length xs"
    using be_val_less [of xs] be_val_less [of ys] Cons.hyps by simp_all
  then show ?case
    using Cons * [of "unat x" "unat y" xs "length xs" ys] * [of "unat y" "unat x" ys "length xs" xs]
    unfolding v sgn_cmp_nat
    by (cases "unat x" "unat y" rule: linorder_cases) auto
qed (simp add: be_val_def sgn_cmp_def)

lemma unat_ucast8: "unat (ucast (w :: 32 word) :: 8 word) = unat w mod 256"
  by (simp add: unsigned_ucast_eq take_bit_eq_mod)

lemma be32_nats: "map unat (be32 w) = [unat w div 2 ^ 24, unat w div 2 ^ 16 mod 256, unat w div 2 ^ 8 mod 256, unat w mod 256]"
proof -
  have m: "ucast (v AND 0xFF) = (ucast v :: 8 word)" for v :: "32 word"
  proof -
    have t: "v AND 0xFF = take_bit 8 v" by (simp add: take_bit_eq_mask mask_eq_exp_minus_1)
    have "unat (v AND 0xFF) = unat v mod 256"
      by (simp only: t unsigned_take_bit_eq) (simp add: take_bit_eq_mod)
    then have "unat (ucast (v AND 0xFF) :: 8 word) = unat (ucast v :: 8 word)"
      unfolding unat_ucast8 by (simp only: mod_mod_trivial)
    then show ?thesis by (simp add: word_unat_eq_iff)
  qed
  have "unat w < 2 ^ 32" using unsigned_less [of w] by simp
  then have "unat w div 2 ^ 24 < 256" by simp
  then show ?thesis
    by (simp only: be32_def m list.map unat_ucast8 unat_drop_bit_eq) (simp add: drop_bit_eq_div)
qed

lemma digits256:
  fixes n :: nat
  shows "n div 2 ^ 24 * 2 ^ 24 + n div 2 ^ 16 mod 256 * 2 ^ 16 + n div 2 ^ 8 mod 256 * 2 ^ 8 + n mod 256 = n"
proof -
  have d: "n div 2 ^ 16 = n div 256 div 256" "n div 2 ^ 24 = n div 256 div 256 div 256"
    by (simp_all add: div_mult2_eq [symmetric])
  have "n div 256 div 256 div 256 * 16777216 + n div 256 div 256 mod 256 * 65536 + n div 256 mod 256 * 256 + n mod 256 = n"
    using div_mult_mod_eq [of n 256] div_mult_mod_eq [of "n div 256" 256] div_mult_mod_eq [of "n div 256 div 256" 256]
    by linarith
  then show ?thesis unfolding d by simp
qed

lemma length_be32 [simp]: "length (be32 w) = 4"
  by (simp add: be32_def)

lemma be_val_nats: "be_val bs = foldl (\<lambda>a b. a * 256 + b) 0 (map unat bs)"
  by (simp add: be_val_def foldl_map)

lemma be_val_be32: "be_val (be32 w) = unat w"
  using digits256 [of "unat w"] unfolding be_val_nats be32_nats by simp

lemma u32_at_be32: "length pre = off \<Longrightarrow> u32_at (pre @ be32 w @ rest) off = Some (unat w)"
proof -
  assume off: "length pre = off"
  have n: "(pre @ be32 w @ rest) ! (off + k) = be32 w ! k" if "k < 4" for k
    using off that by (simp add: nth_append)
  have u: "unat (be32 w ! k) = map unat (be32 w) ! k" if "k < 4" for k using that by simp
  show ?thesis
    using n [of 0] n [of 1] n [of 2] n [of 3] off digits256 [of "unat w"]
    by (simp add: u32_at_def u be32_nats)
qed

subsection \<open>Numbers round-trip and keep their order\<close>

lemma bit_SIGN_FLIP: "bit (SIGN_FLIP :: 64 word) n \<longleftrightarrow> n = 63"
  unfolding SIGN_FLIP_def bit_push_bit_iff by (auto simp: bit_1_iff)

lemma xor_sign_flip: "w XOR SIGN_FLIP = w + SIGN_FLIP"
proof (cases "bit w 63")
  case False
  then have "w AND SIGN_FLIP = 0" by (intro bit_word_eqI) (auto simp: bit_SIGN_FLIP bit_and_iff bit_xor_iff)
  then show ?thesis by (simp add: disjunctive_add_eq_xor)
next
  case True
  let ?w = "w XOR SIGN_FLIP"
  have "?w AND SIGN_FLIP = 0" using True by (intro bit_word_eqI) (auto simp: bit_SIGN_FLIP bit_and_iff bit_xor_iff)
  then have "?w + SIGN_FLIP = ?w XOR SIGN_FLIP" by (simp add: disjunctive_add_eq_xor)
  then have "?w + SIGN_FLIP = w" by (simp add: xor.assoc)
  moreover have "SIGN_FLIP + SIGN_FLIP = 0" by (simp add: SIGN_FLIP_def)
  ultimately show ?thesis by (metis add.assoc add.right_neutral)
qed

lemma unat_i64: "safe_int n \<Longrightarrow> int (unat (word_of_int n XOR SIGN_FLIP)) = n + 2 ^ 63"
proof -
  assume n: "safe_int n"
  have "word_of_int n XOR SIGN_FLIP = word_of_int (n + 2 ^ 63)"
    unfolding xor_sign_flip by (simp add: SIGN_FLIP_def)
  moreover have "uint (word_of_int (n + 2 ^ 63) :: 64 word) = n + 2 ^ 63"
    by (rule trans [OF uint_word_of_int]) (use n in \<open>simp add: safe_int_def MAX_ID_def\<close>)
  ultimately show ?thesis by (simp only: of_nat_unat)
qed

lemma unat_low_high:
  fixes b :: "64 word"
  shows "unat (ucast (drop_bit 32 b) :: 32 word) = unat b div 2 ^ 32" "unat (ucast b :: 32 word) = unat b mod 2 ^ 32"
    "ucast (b AND 0xFFFFFFFF) = (ucast b :: 32 word)"
proof -
  have "unat b < 2 ^ 64" using unsigned_less [of b] by simp
  then have "unat b div 2 ^ 32 < 2 ^ 32" by (simp add: div_less_iff_less_mult)
  then show "unat (ucast (drop_bit 32 b) :: 32 word) = unat b div 2 ^ 32"
    by (simp only: unsigned_ucast_eq unat_drop_bit_eq) (simp add: take_bit_eq_mod drop_bit_eq_div)
  show low: "unat (ucast b :: 32 word) = unat b mod 2 ^ 32"
    by (simp add: unsigned_ucast_eq take_bit_eq_mod)
  have t: "b AND 0xFFFFFFFF = take_bit 32 b" by (simp add: take_bit_eq_mask mask_eq_exp_minus_1)
  have "unat (ucast (b AND 0xFFFFFFFF) :: 32 word) = unat (ucast b :: 32 word)"
    by (simp only: t unsigned_ucast_eq unsigned_take_bit_eq) simp
  then show "ucast (b AND 0xFFFFFFFF) = (ucast b :: 32 word)" by (simp only: word_unat_eq_iff)
qed

text \<open>Eight bytes written as two halves are the 64-bit number.\<close>

lemma be_val_halves: "be_val (be32 hi @ be32 lo) = unat hi * 2 ^ 32 + unat lo"
  by (simp add: be_val_append be_val_be32)

lemma be_val_word64: "be_val (be32 (ucast (drop_bit 32 b)) @ be32 (ucast (b :: 64 word))) = unat b"
proof -
  have "unat (ucast (drop_bit 32 b) :: 32 word) = unat b div 2 ^ 32" by (rule unat_low_high)
  then show ?thesis using div_mult_mod_eq [of "unat b" "2 ^ 32"] by (simp only: be_val_halves unat_low_high)
qed

lemma u32_at_halves:
  "length pre = off \<Longrightarrow> u32_at (pre @ be32 hi @ be32 lo @ rest) off = Some (unat hi)"
  "length pre = off \<Longrightarrow> u32_at (pre @ be32 hi @ be32 lo @ rest) (off + 4) = Some (unat lo)"
  using u32_at_be32 [of pre off hi "be32 lo @ rest"] u32_at_be32 [of "pre @ be32 hi" "off + 4" lo rest] by simp_all

lemma join_halves: "push_bit 32 (ucast (ucast (drop_bit 32 b) :: 32 word)) OR ucast (ucast b :: 32 word) = (b :: 64 word)"
  by (rule bit_word_eqI) (auto simp: bit_simps)

lemma be_val_encodeI64: "safe_int n \<Longrightarrow> int (be_val (encodeI64 n)) = n + 2 ^ 63"
  unfolding encodeI64_def Let_def unat_low_high(3) be_val_word64 by (rule unat_i64)

lemma length_encode_num [simp]:
  "length (encodeI64 n) = 8" "length (encodeU64 n) = 8" "length (encodeF64 x) = 8"
  by (simp_all add: encodeI64_def encodeU64_def encodeF64_def Let_def)

lemma decodeI64_encode: "safe_int n \<Longrightarrow> length pre = off \<Longrightarrow> decodeI64 (pre @ encodeI64 n @ rest) off = n"
proof -
  assume n: "safe_int n" and off: "length pre = off"
  let ?b = "word_of_int n XOR SIGN_FLIP"
  have "decodeI64 (pre @ encodeI64 n @ rest) off = sint (?b XOR SIGN_FLIP)"
    unfolding decodeI64_def encodeI64_def Let_def unat_low_high(3)
    using u32_at_halves [OF off, of "ucast (drop_bit 32 ?b)" "ucast ?b" rest]
    by (simp only: append_assoc or_zero_def option.case of_nat_unat join_halves)
  also have "\<dots> = sint (word_of_int n :: 64 word)" by (simp only: xor.assoc xor_self_eq xor.right_neutral)
  also have "\<dots> = n" using n by (simp only: int_word_sint) (simp add: safe_int_def MAX_ID_def)
  finally show ?thesis .
qed

lemma be_val_encodeU64: "safe_int n \<Longrightarrow> 0 \<le> n \<Longrightarrow> int (be_val (encodeU64 n)) = n"
  and decodeU64_encode: "safe_int n \<Longrightarrow> 0 \<le> n \<Longrightarrow> length pre = off \<Longrightarrow>
    decodeU64 (pre @ encodeU64 n @ rest) off = NInt n"
proof -
  assume n: "safe_int n" "0 \<le> n"
  have q: "0 \<le> n div 2 ^ 32" "n div 2 ^ 32 < 2 ^ 32" "0 \<le> n mod 2 ^ 32" "n mod 2 ^ 32 < 2 ^ 32"
    using n by (auto simp: safe_int_def MAX_ID_def div_less_iff_less_mult)
  have u: "int (unat (word_of_int m :: 32 word)) = m" if "0 \<le> m" "m < 2 ^ 32" for m
    unfolding of_nat_unat by (rule trans [OF uint_word_of_int]) (use that in simp)
  have v: "int (unat (word_of_int (n div 0x100000000) :: 32 word)) = n div 0x100000000"
    "int (unat (word_of_int (n mod 0x100000000) :: 32 word)) = n mod 0x100000000"
    using u [OF q(1,2)] u [OF q(3,4)] by simp_all
  have e: "n div 0x100000000 * 0x100000000 + n mod 0x100000000 = n" by (rule div_mult_mod_eq)
  show "int (be_val (encodeU64 n)) = n"
    using v e unfolding encodeU64_def be_val_halves by (simp del: of_nat_unat)
  assume off: "length pre = off"
  show "decodeU64 (pre @ encodeU64 n @ rest) off = NInt n"
    using u32_at_halves [OF off, of "word_of_int (n div 0x100000000)" "word_of_int (n mod 0x100000000)" rest] v e n(1)
    by (simp add: decodeU64_def encodeU64_def num_of_int_def del: of_nat_unat)
qed

text \<open>The order key of a double as an unsigned number: the sign bit decides what is flipped.\<close>

definition f64_flip :: "f64 \<Rightarrow> 64 word" where
  "f64_flip y = (if bit y 63 then NOT y else y OR SIGN_FLIP)"

definition TOP32 :: "32 word" where
  "TOP32 = push_bit 31 1"

lemma bit_TOP32: "bit TOP32 n \<longleftrightarrow> n = 31"
  unfolding TOP32_def bit_push_bit_iff by (auto simp: bit_1_iff)

lemma TOP32_numeral: "0x80000000 = TOP32" "0x7FFFFFFF = NOT TOP32"
  by (simp_all add: TOP32_def)

lemma bit_high: "(ucast (drop_bit 32 y) :: 32 word) AND TOP32 \<noteq> 0 \<longleftrightarrow> bit (y :: 64 word) 63"
proof -
  have "((ucast (drop_bit 32 y) :: 32 word) AND TOP32 = 0) \<longleftrightarrow> \<not> bit y 63"
    unfolding bit_eq_iff by (auto simp: bit_TOP32 bit_and_iff bit_simps dest: spec [of _ 31])
  then show ?thesis by blast
qed

lemma halves_flip:
  fixes y :: "64 word"
  shows "NOT (ucast (drop_bit 32 y)) = (ucast (drop_bit 32 (NOT y)) :: 32 word)"
    "NOT (ucast y) = (ucast (NOT y) :: 32 word)"
    "(ucast (drop_bit 32 y) :: 32 word) OR TOP32 = ucast (drop_bit 32 (y OR SIGN_FLIP))"
    "ucast (y OR SIGN_FLIP) = (ucast y :: 32 word)"
  by (rule bit_word_eqI, auto simp: bit_TOP32 bit_SIGN_FLIP bit_or_iff bit_simps)+

lemma encodeF64_flip:
  "encodeF64 x = be32 (ucast (drop_bit 32 (f64_flip (f64_plus_zero x)))) @ be32 (ucast (f64_flip (f64_plus_zero x)))"
  unfolding encodeF64_def Let_def TOP32_numeral bit_high f64_flip_def
  by (cases "bit (f64_plus_zero x) 63") (simp only: if_True halves_flip(1), simp only: halves_flip(2),
      simp only: if_False halves_flip(3,4))

lemma decodeF64_encode:
  assumes "x \<noteq> f64_neg_zero" "length pre = off"
  shows "decodeF64 (pre @ encodeF64 x @ rest) off = x"
proof -
  let ?f = "f64_flip x" let ?hi = "ucast (drop_bit 32 ?f) :: 32 word" let ?lo = "ucast ?f :: 32 word"
  have px: "f64_plus_zero x = x" using assms(1) by (simp add: f64_plus_zero_def)
  have u: "u32_at (pre @ encodeF64 x @ rest) off = Some (unat ?hi)"
    "u32_at (pre @ encodeF64 x @ rest) (off + 4) = Some (unat ?lo)"
    unfolding encodeF64_flip px append_assoc by (rule u32_at_halves [OF assms(2)])+
  have w: "of_nat (unat v) = v" for v :: "32 word" by simp
  have d: "decodeF64 (pre @ encodeF64 x @ rest) off =
     (if bit ?f 63 then push_bit 32 (ucast (?hi AND NOT TOP32)) OR ucast ?lo
      else push_bit 32 (ucast (NOT ?hi)) OR ucast (NOT ?lo))"
    unfolding decodeF64_def u Let_def or_zero_def option.case w TOP32_numeral bit_high by simp
  have n63: "n - 32 = 31 \<longleftrightarrow> n = 63" for n :: nat by arith
  show ?thesis
    unfolding d
    by (rule bit_word_eqI)
      (auto simp: f64_flip_def bit_TOP32 n63 bit_SIGN_FLIP bit_or_iff bit_and_iff bit_not_iff bit_simps)
qed

lemma f64_flip_key:
  assumes "y \<noteq> f64_neg_zero"
  shows "int (unat (f64_flip y)) = f64_key y + (if unat y < 2 ^ 63 then 2 ^ 63 else 2 ^ 63 - 1)"
proof -
  have lt: "unat y < 2 ^ 64" using unsigned_less [of y] by simp
  have b: "bit y 63 \<longleftrightarrow> 2 ^ 63 \<le> unat y"
  proof -
    have "bit y 63 \<longleftrightarrow> bit (unat y) 63" by (simp add: bit_unsigned_iff)
    then have "bit y 63 \<longleftrightarrow> odd (unat y div 2 ^ 63)" by (simp only: bit_iff_odd)
    moreover have "unat y div 2 ^ 63 = (if 2 ^ 63 \<le> unat y then 1 else 0)" using lt by (auto simp: div_if)
    ultimately show ?thesis by simp
  qed
  show ?thesis
  proof (cases "bit y 63")
    case True
    have "unat y \<noteq> 2 ^ 63" using assms by (simp add: f64_neg_zero_def word_unat_eq_iff)
    moreover have "int (unat (NOT y)) = 2 ^ 64 - 1 - int (unat y)"
    proof -
      have "0 \<le> uint y" "uint y < 2 ^ 64" using unsigned_less [of y] by simp_all
      then have "take_bit 64 (uint y) = uint y" by (simp add: take_bit_int_eq_self)
      then have "uint (NOT y) = mask 64 - uint y"
        using take_bit_not_eq_mask_diff [of 64 "uint y"] by (simp add: unsigned_not_eq)
      then show ?thesis by (simp add: mask_eq_exp_minus_1)
    qed
    ultimately show ?thesis using True b by (simp add: f64_flip_def f64_key_def del: of_nat_unat)
  next
    case False
    then have "y AND SIGN_FLIP = 0" by (intro bit_word_eqI) (auto simp: bit_SIGN_FLIP bit_and_iff)
    then have "y OR SIGN_FLIP = y + SIGN_FLIP" by (simp add: disjunctive_add_eq_or)
    moreover have "unat (y + SIGN_FLIP) = unat y + 2 ^ 63"
      using False b by (simp add: SIGN_FLIP_def unat_word_ariths)
    ultimately show ?thesis using False b by (simp add: f64_flip_def f64_key_def del: of_nat_unat)
  qed
qed

lemma f64_flip_mono:
  assumes "x \<noteq> f64_neg_zero" "y \<noteq> f64_neg_zero"
  shows "sgn_cmp (int (unat (f64_flip x))) (int (unat (f64_flip y))) = sgn_cmp (f64_key x) (f64_key y)"
proof -
  have neg: "f64_key z < 0" if "2 ^ 63 \<le> unat z" "z \<noteq> f64_neg_zero" for z
  proof -
    have "unat z \<noteq> 2 ^ 63" using that(2) by (simp add: f64_neg_zero_def word_unat_eq_iff)
    then show ?thesis using that(1) by (simp add: f64_key_def del: of_nat_unat)
  qed
  have pos: "0 \<le> f64_key z" if "unat z < 2 ^ 63" for z using that by (simp add: f64_key_def)
  have "f64_key x < 0 \<or> unat x < 2 ^ 63" "f64_key y < 0 \<or> unat y < 2 ^ 63"
    using neg [of x] neg [of y] assms by linarith+
  then show ?thesis
    unfolding f64_flip_key [OF assms(1)] f64_flip_key [OF assms(2)]
    using pos [of x] pos [of y] by (auto simp: sgn_cmp_def)
qed

lemma be_val_encodeF64: "x \<noteq> f64_neg_zero \<Longrightarrow> be_val (encodeF64 x) = unat (f64_flip x)"
  by (simp only: encodeF64_flip f64_plus_zero_def if_False be_val_word64)

section \<open>UUIDs\<close>

text \<open>
  \<open>parseInt(\<dots>, 16)\<close> on at most two code units, as stored in a byte: the hexadecimal
  digits up to the first other character, 0 when there is none. (Blanks and signs,
  which validated text does not contain, are not modelled.)
\<close>

definition hexval :: "nat \<Rightarrow> nat option" where
  "hexval c = (if 48 \<le> c \<and> c \<le> 57 then Some (c - 48) else if 97 \<le> c \<and> c \<le> 102 then Some (c - 87)
     else if 65 \<le> c \<and> c \<le> 70 then Some (c - 55) else None)"

fun parse_hex2 :: "nat list \<Rightarrow> 8 word" where
  "parse_hex2 (a # b # _) =
     (case hexval a of None \<Rightarrow> 0
      | Some x \<Rightarrow> (case hexval b of None \<Rightarrow> of_nat x | Some y \<Rightarrow> of_nat (x * 16 + y)))"
| "parse_hex2 [a] = (case hexval a of None \<Rightarrow> 0 | Some x \<Rightarrow> of_nat x)"
| "parse_hex2 [] = 0"

definition hexdigit :: "nat \<Rightarrow> nat" where
  "hexdigit n = (if n < 10 then 48 + n else 87 + n)"

definition hex2 :: "8 word \<Rightarrow> nat list" where
  "hex2 b = [hexdigit (unat b div 16), hexdigit (unat b mod 16)]"

definition uuidToBytes :: "jsstr \<Rightarrow> bytes" where
  "uuidToBytes u =
     (let hex = map unat (filter (\<lambda>c. c \<noteq> 0x2D) u) in map (\<lambda>i. parse_hex2 (take 2 (drop (i * 2) hex))) [0..<16])"

text \<open>Reading a missing byte and calling a method on it throws.\<close>

definition bytesToUuid :: "bytes \<Rightarrow> nat \<Rightarrow> jsstr res" where
  "bytesToUuid b off =
     (if off + 16 \<le> length b then
        Inr (map of_nat (concat (map (\<lambda>i. hex2 (b ! (off + i)) @ (if i \<in> {3, 5, 7, 9} then [0x2D] else [])) [0..<16])))
      else Inl (TypeError ''undefined byte''))"

lemma hexdigit_hexval: "hexval c = Some x \<Longrightarrow> 48 \<le> c \<and> c \<le> 57 \<or> 97 \<le> c \<and> c \<le> 102 \<Longrightarrow> hexdigit x = c \<and> x < 16"
  by (auto simp: hexval_def hexdigit_def split: if_splits)

lemma hexval_hexdigit: "x < 16 \<Longrightarrow> hexval (hexdigit x) = Some x"
  by (auto simp: hexval_def hexdigit_def)

lemma hex_unit_val: "hex_unit c \<Longrightarrow> \<exists>x. hexval (unat c) = Some x \<and> x < 16 \<and> hexdigit x = unat c"
  by (auto simp: hex_unit_def hexval_def hexdigit_def word_le_nat_alt)

lemma hex2_parse: "hex_unit a \<Longrightarrow> hex_unit b \<Longrightarrow> hex2 (parse_hex2 [unat a, unat b]) = [unat a, unat b]"
proof -
  assume "hex_unit a" "hex_unit b"
  then obtain x y where x: "hexval (unat a) = Some x" "x < 16" "hexdigit x = unat a"
    and y: "hexval (unat b) = Some y" "y < 16" "hexdigit y = unat b" using hex_unit_val by metis
  then have "unat (of_nat (x * 16 + y) :: 8 word) = x * 16 + y"
    by (intro of_nat_inverse [OF refl]) simp
  then show ?thesis using x y by (simp add: hex2_def)
qed

lemma parse_hex2_hex2: "parse_hex2 (hex2 b) = b"
proof -
  have "unat b div 16 < 16" "unat b mod 16 < 16" using unat_byte [of b] by simp_all
  then show ?thesis by (simp add: hex2_def hexval_hexdigit)
qed

lemma uuid_nth:
  assumes "uuid_pattern s"
  shows "length s = 36" "i < 36 \<Longrightarrow> if i \<in> {8, 13, 18, 23} then s ! i = 0x2D else hex_unit (s ! i)"
proof -
  show len: "length s = 36" using assms by (simp add: uuid_pattern_def)
  assume i: "i < 36"
  have "zip [0..<36] s ! i = (i, s ! i)" using i len by (simp del: upt_rec_numeral)
  moreover have "zip [0..<36] s ! i \<in> set (zip [0..<36] s)"
    by (rule nth_mem) (use i len in simp)
  ultimately have "(i, s ! i) \<in> set (zip [0..<36] s)" by simp
  then show "if i \<in> {8, 13, 18, 23} then s ! i = 0x2D else hex_unit (s ! i)"
    using assms by (fastforce simp: uuid_pattern_def list_all_iff)
qed

lemma hex_unit_not_dash: "hex_unit c \<Longrightarrow> c \<noteq> 0x2D"
  by (auto simp: hex_unit_def word_le_nat_alt)

text \<open>A UUID is sixteen pairs of digits with dashes after the pairs 3, 5, 7 and 9.\<close>

definition uuid_of_units :: "(nat \<Rightarrow> 16 word) \<Rightarrow> jsstr" where
  "uuid_of_units h = map h [0..<8] @ [0x2D] @ map h [8..<12] @ [0x2D] @ map h [12..<16] @ [0x2D] @
     map h [16..<20] @ [0x2D] @ map h [20..<32]"

lemma upt_from_0: "2 \<le> (numeral n :: nat) \<Longrightarrow> [0..<numeral n] = 0 # 1 # [2..<numeral n]"
  by (simp add: upt_conv_Cons numeral_2_eq_2)

lemma uuid_obtain_units:
  assumes "uuid_pattern s"
  obtains h where "s = uuid_of_units h" "\<forall>i<32. hex_unit (h i)"
proof
  define p :: "nat \<Rightarrow> nat" where
    "p i = (if i < 8 then i else if i < 12 then i + 1 else if i < 16 then i + 2 else if i < 20 then i + 3 else i + 4)" for i
  note n = uuid_nth(2) [OF assms]
  have "s = map ((!) s) [0..<36]" using map_nth [of s] uuid_nth(1) [OF assms] by simp
  then show "s = uuid_of_units (\<lambda>i. s ! p i)"
    using n [of 8] n [of 13] n [of 18] n [of 23] by (simp add: uuid_of_units_def p_def upt_from_0)
  show "\<forall>i<32. hex_unit (s ! p i)"
  proof (intro allI impI)
    fix i :: nat assume "i < 32"
    then have "p i < 36" "p i \<notin> {8, 13, 18, 23}" by (auto simp: p_def)
    then show "hex_unit (s ! p i)" using n [of "p i"] by auto
  qed
qed

lemma uuid_hex_digits:
  assumes "\<forall>i<32. hex_unit (h i)"
  shows "filter (\<lambda>c. c \<noteq> 0x2D) (uuid_of_units h) = map h [0..<32]"
proof -
  have f: "filter (\<lambda>c. c \<noteq> 0x2D) (map h [a..<b]) = map h [a..<b]" if "b \<le> 32" for a b
    using assms hex_unit_not_dash that by (intro filter_True) force
  have "map h [0..<32] = map h [0..<8] @ map h [8..<12] @ map h [12..<16] @ map h [16..<20] @ map h [20..<32]"
    by (simp add: upt_from_0)
  then show ?thesis by (simp only: uuid_of_units_def filter_append f) (simp del: upt_rec_numeral)
qed

lemma uuidToBytes_units:
  assumes "\<forall>i<32. hex_unit (h i)"
  shows "uuidToBytes (uuid_of_units h) = map (\<lambda>i. parse_hex2 [unat (h (2 * i)), unat (h (2 * i + 1))]) [0..<16]"
proof -
  have "take 2 (drop (i * 2) (map unat (map h [0..<32]))) = [unat (h (2 * i)), unat (h (2 * i + 1))]" if "i < 16" for i
  proof (rule nth_equalityI)
    show "length (take 2 (drop (i * 2) (map unat (map h [0..<32])))) = length [unat (h (2 * i)), unat (h (2 * i + 1))]"
      using that by (simp del: upt_rec_numeral)
    fix j assume "j < length (take 2 (drop (i * 2) (map unat (map h [0..<32]))))"
    then have "j < 2" "i * 2 + j < 32" using that by (simp_all del: upt_rec_numeral)
    then show "take 2 (drop (i * 2) (map unat (map h [0..<32]))) ! j = [unat (h (2 * i)), unat (h (2 * i + 1))] ! j"
      by (auto simp: less_2_cases_iff mult.commute simp del: upt_rec_numeral)
  qed
  then show ?thesis
    unfolding uuidToBytes_def Let_def uuid_hex_digits [OF assms] by (intro map_cong) simp_all
qed

lemma length_uuidToBytes [simp]: "length (uuidToBytes s) = 16"
  by (simp add: uuidToBytes_def)

lemma bytesToUuid_uuidToBytes:
  assumes "uuid_pattern s" "length pre = off"
  shows "bytesToUuid (pre @ uuidToBytes s @ rest) off = Inr s"
proof -
  obtain h where s: "s = uuid_of_units h" and h: "\<forall>i<32. hex_unit (h i)"
    using uuid_obtain_units [OF assms(1)] .
  have b: "hex2 ((pre @ uuidToBytes s @ rest) ! (off + i)) = [unat (h (2 * i)), unat (h (2 * i + 1))]" if "i < 16" for i
  proof -
    have "(pre @ uuidToBytes s @ rest) ! (off + i) = uuidToBytes s ! i"
      using assms(2) that by (simp add: nth_append)
    also have "\<dots> = parse_hex2 [unat (h (2 * i)), unat (h (2 * i + 1))]"
      using that nth_upt [of 0 i 16] unfolding s uuidToBytes_units [OF h]
      by (simp only: nth_map length_upt minus_nat.diff_0 add_0)
    finally show ?thesis using hex2_parse [of "h (2 * i)" "h (2 * i + 1)"] h that by simp
  qed
  have "bytesToUuid (pre @ uuidToBytes s @ rest) off = Inr (map of_nat (concat (map (\<lambda>i.
      [unat (h (2 * i)), unat (h (2 * i + 1))] @ (if i \<in> {3, 5, 7, 9} then [0x2D] else [])) [0..<16])))"
  proof -
    have m: "map (\<lambda>i. hex2 ((pre @ uuidToBytes s @ rest) ! (off + i)) @ (if i \<in> {3, 5, 7, 9} then [0x2D] else [])) [0..<16] =
      map (\<lambda>i. [unat (h (2 * i)), unat (h (2 * i + 1))] @ (if i \<in> {3, 5, 7, 9} then [0x2D] else [])) [0..<16]"
    proof (rule map_cong [OF refl])
      fix i assume "i \<in> set [0..<16 :: nat]"
      then have "i < 16" by (simp del: upt_rec_numeral)
      then show "hex2 ((pre @ uuidToBytes s @ rest) ! (off + i)) @ (if i \<in> {3, 5, 7, 9} then [0x2D] else []) =
        [unat (h (2 * i)), unat (h (2 * i + 1))] @ (if i \<in> {3, 5, 7, 9} then [0x2D] else [])" by (simp only: b)
    qed
    have "off + 16 \<le> length (pre @ uuidToBytes s @ rest)" using assms(2) by simp
    then show ?thesis by (simp only: bytesToUuid_def m if_True)
  qed
  also have "\<dots> = Inr s" by (simp add: s uuid_of_units_def upt_from_0)
  finally show ?thesis .
qed

subsection \<open>UUID bytes order as UUID text does\<close>

lemma lex_by_filter:
  "length xs = length ys \<Longrightarrow> \<forall>i<length xs. xs ! i = c \<longleftrightarrow> ys ! i = c \<Longrightarrow>
   lex_by k (filter (\<lambda>x. x \<noteq> c) xs) (filter (\<lambda>x. x \<noteq> c) ys) = lex_by k xs ys"
proof (induction xs ys rule: list_induct2)
  case (Cons x xs y ys)
  have "x = c \<longleftrightarrow> y = c" using Cons.prems by (auto dest: spec [of _ 0])
  moreover have "\<forall>i<length xs. xs ! i = c \<longleftrightarrow> ys ! i = c"
    using Cons.prems by (metis Suc_less_eq length_Cons nth_Cons_Suc)
  ultimately show ?case using Cons.IH by (auto simp: not_less)
qed simp

fun hex_pairs :: "16 word list \<Rightarrow> bytes" where
  "hex_pairs (a # b # cs) = parse_hex2 [unat a, unat b] # hex_pairs cs"
| "hex_pairs _ = []"

lemma hex_pairs_map:
  "hex_pairs (map h [2 * a..<2 * b]) = map (\<lambda>i. parse_hex2 [unat (h (2 * i)), unat (h (2 * i + 1))]) [a..<b]"
proof (induction "b - a" arbitrary: a)
  case (Suc n)
  then have "a < b" by simp
  then have "[2 * a..<2 * b] = 2 * a # (2 * a + 1) # [2 * Suc a..<2 * b]" "[a..<b] = a # [Suc a..<b]"
    by (simp_all add: upt_conv_Cons)
  moreover have "hex_pairs (map h [2 * Suc a..<2 * b]) =
      map (\<lambda>i. parse_hex2 [unat (h (2 * i)), unat (h (2 * i + 1))]) [Suc a..<b]"
    by (rule Suc.hyps(1)) (use Suc.hyps(2) in simp)
  ultimately show ?case by (simp only: list.map hex_pairs.simps)
qed simp

lemma lex_hex_pairs:
  "length xs = length ys \<Longrightarrow> \<forall>c\<in>set xs \<union> set ys. hex_unit c \<Longrightarrow> even (length xs) \<Longrightarrow>
   lex_by unat (hex_pairs xs) (hex_pairs ys) = lex_by unat xs ys"
proof (induction xs arbitrary: ys rule: hex_pairs.induct)
  case (1 a b cs)
  obtain a' b' cs' where ys: "ys = a' # b' # cs'" using "1.prems"(1) by (cases ys; cases "tl ys") auto
  have hex: "hex_unit a" "hex_unit b" "hex_unit a'" "hex_unit b'" using "1.prems"(2) ys by auto
  have mono: "x < y \<longleftrightarrow> unat c < unat d" if "hexval (unat c) = Some x" "hexval (unat d) = Some y"
    "hex_unit c" "hex_unit d" for c d :: "16 word" and x y
    using that by (auto simp: hexval_def hex_unit_def word_le_nat_alt split: if_splits)
  have val: "\<exists>x. hexval (unat c) = Some x \<and> x < 16" if "hex_unit c" for c using hex_unit_val [OF that] by blast
  obtain x y x' y' where v: "hexval (unat a) = Some x" "hexval (unat b) = Some y"
      "hexval (unat a') = Some x'" "hexval (unat b') = Some y'" "x < 16" "y < 16" "x' < 16" "y' < 16"
    using val [OF hex(1)] val [OF hex(2)] val [OF hex(3)] val [OF hex(4)] by blast
  have u: "unat (of_nat (p * 16 + q) :: 8 word) = p * 16 + q" if "p < 16" "q < 16" for p q
    using that by (intro of_nat_inverse [OF refl]) simp
  have p: "unat (parse_hex2 [unat a, unat b]) = x * 16 + y" "unat (parse_hex2 [unat a', unat b']) = x' * 16 + y'"
    using v u by simp_all
  have IH: "lex_by unat (hex_pairs cs) (hex_pairs cs') = lex_by unat cs cs'"
    using "1.IH" [of cs'] "1.prems" ys by simp
  have m: "x < x' \<longleftrightarrow> unat a < unat a'" "x' < x \<longleftrightarrow> unat a' < unat a"
    "y < y' \<longleftrightarrow> unat b < unat b'" "y' < y \<longleftrightarrow> unat b' < unat b"
    by (rule mono; fact v hex)+
  have "lex_by unat (hex_pairs (a # b # cs)) (hex_pairs ys) =
      (if x * 16 + y < x' * 16 + y' then -1 else if x' * 16 + y' < x * 16 + y then 1 else lex_by unat cs cs')"
    unfolding ys hex_pairs.simps lex_by.simps p IH ..
  also have "\<dots> = (if x < x' then -1 else if x' < x then 1 else if y < y' then -1 else if y' < y then 1 else lex_by unat cs cs')"
    using v(5-8) by (auto split: if_splits)
  finally show ?case by (simp add: ys m)
qed auto

lemma lex_uuidToBytes:
  assumes "uuid_pattern s" "uuid_pattern t"
  shows "lex_by unat (uuidToBytes s) (uuidToBytes t) = lex_by unat s t"
proof -
  obtain h where s: "s = uuid_of_units h" and h: "\<forall>i<32. hex_unit (h i)" using uuid_obtain_units [OF assms(1)] .
  obtain g where t: "t = uuid_of_units g" and g: "\<forall>i<32. hex_unit (g i)" using uuid_obtain_units [OF assms(2)] .
  have bytes: "uuidToBytes s = hex_pairs (map h [0..<32])" "uuidToBytes t = hex_pairs (map g [0..<32])"
    using hex_pairs_map [of h 0 16] hex_pairs_map [of g 0 16]
    unfolding s t uuidToBytes_units [OF h] uuidToBytes_units [OF g] by (simp_all del: upt_rec_numeral)
  have "\<forall>i<length s. s ! i = 0x2D \<longleftrightarrow> t ! i = 0x2D"
    using uuid_nth [OF assms(1)] uuid_nth [OF assms(2)] hex_unit_not_dash by metis
  then have "lex_by unat s t = lex_by unat (map h [0..<32]) (map g [0..<32])"
    using lex_by_filter [of s t "0x2D" unat] uuid_nth(1) [OF assms(1)] uuid_nth(1) [OF assms(2)]
      uuid_hex_digits [OF h] uuid_hex_digits [OF g] s t by metis
  also have "\<dots> = lex_by unat (uuidToBytes s) (uuidToBytes t)"
    unfolding bytes by (rule lex_hex_pairs [symmetric]) (use h g in \<open>auto simp del: upt_rec_numeral\<close>)
  finally show ?thesis by simp
qed

section \<open>Values\<close>

definition tag_byte :: "vtag \<Rightarrow> 8 word" where
  "tag_byte t = of_nat (tag_code t)"

fun encodeValue :: "tagged_value \<Rightarrow> bytes" where
  "encodeValue (VLong n) = tag_byte Long # encodeI64 n"
| "encodeValue (VInst n) = tag_byte Inst # encodeI64 n"
| "encodeValue (VRef n) = tag_byte Ref # encodeU64 n"
| "encodeValue (VDouble x) = tag_byte Double # encodeF64 x"
| "encodeValue (VStr s) = tag_byte Str # utf8_encode s"
| "encodeValue (VBool b) = [tag_byte Bool, if b then 1 else 0]"
| "encodeValue (VUuid s) = tag_byte Uuid # uuidToBytes s"
| "encodeValue (VBytes b) = tag_byte Bytes # b"

text \<open>
  The decoder yields a tag and a payload; a missing first byte is an unknown tag, and a
  missing byte differs from 0, so an empty boolean reads as true.
\<close>

definition decodeValue :: "bytes \<Rightarrow> (vtag \<times> payload) res" where
  "decodeValue buf =
     (case (case buf of [] \<Rightarrow> None | b # _ \<Rightarrow> tag_of_code (unat b)) of
        None \<Rightarrow> Inl (TypeError ''unknown value tag'')
      | Some Long \<Rightarrow> Inr (Long, PNum (num_of_int (decodeI64 buf 1)))
      | Some Inst \<Rightarrow> Inr (Inst, PNum (num_of_int (decodeI64 buf 1)))
      | Some Ref \<Rightarrow> Inr (Ref, PNum (decodeU64 buf 1))
      | Some Double \<Rightarrow> Inr (Double, PNum (NDbl (decodeF64 buf 1)))
      | Some Str \<Rightarrow> Inr (Str, PStr (utf8_decode (drop 1 buf)))
      | Some Bool \<Rightarrow> Inr (Bool, PBool (case drop 1 buf of [] \<Rightarrow> True | b # _ \<Rightarrow> b \<noteq> 0))
      | Some Uuid \<Rightarrow> rmap (\<lambda>u. (Uuid, PStr u)) (bytesToUuid buf 1)
      | Some Bytes \<Rightarrow> Inr (Bytes, PBytes (drop 1 buf)))"

text \<open>Values whose text survives encoding: order needs well-formed text, reading back also no leading mark.\<close>

fun value_wf :: "tagged_value \<Rightarrow> bool" where
  "value_wf (VStr s) = wf_utf16 s"
| "value_wf v = True"

fun value_text_ok :: "tagged_value \<Rightarrow> bool" where
  "value_text_ok (VStr s) = text_ok s"
| "value_text_ok v = True"

lemma unat_tag_byte [simp]: "unat (tag_byte t) = tag_code t"
  by (cases t) (simp_all add: tag_byte_def)

lemma hd_encodeValue: "\<exists>bs. encodeValue v = tag_byte (vt v) # bs"
  by (cases v) auto

lemma sgn_cmp_shift: "sgn_cmp (a + c) (b + c) = sgn_cmp a b"
  by (simp add: sgn_cmp_def)

lemma compareBytes_num:
  "length xs = length ys \<Longrightarrow> compareBytes xs ys = sgn_cmp (int (be_val xs)) (int (be_val ys))"
  by (simp only: compareBytes_lex lex_be_val)

text \<open>Byte-wise comparison of encodings is \<open>compareValue\<close>.\<close>

lemma encodeValue_order:
  assumes ok: "value_ok v" "value_ok w" and wf: "value_wf v" "value_wf w"
  shows "compareBytes (encodeValue v) (encodeValue w) = compareValue v w"
proof (cases "vt v = vt w")
  case False
  obtain bs cs where "encodeValue v = tag_byte (vt v) # bs" "encodeValue w = tag_byte (vt w) # cs"
    using hd_encodeValue by blast
  moreover have "tag_code (vt v) \<noteq> tag_code (vt w)" using False by simp
  ultimately have "compareBytes (encodeValue v) (encodeValue w) = (if tag_code (vt v) < tag_code (vt w) then -1 else 1)"
    by (simp add: compareBytes_lex)
  moreover have "compareValue v w = (if tag_code (vt v) < tag_code (vt w) then -1 else 1)"
    using False by (cases v; cases w) simp_all
  ultimately show ?thesis by simp
next
  case True
  have cons: "compareBytes (t # xs) (t # ys) = compareBytes xs ys" for t xs ys by (simp add: Let_def)
  show ?thesis
  proof (cases v)
    case (VLong n)
    then obtain m where w: "w = VLong m" using True by (cases w) auto
    have "compareBytes (encodeValue v) (encodeValue w) = sgn_cmp (n + 2 ^ 63) (m + 2 ^ 63)"
      using VLong w ok by (simp only: encodeValue.simps cons compareBytes_num length_encode_num value_ok.simps be_val_encodeI64)
    then show ?thesis using VLong w by (simp only: sgn_cmp_shift) (simp add: sgn_cmp_def)
  next
    case (VInst n)
    then obtain m where w: "w = VInst m" using True by (cases w) auto
    have "compareBytes (encodeValue v) (encodeValue w) = sgn_cmp (n + 2 ^ 63) (m + 2 ^ 63)"
      using VInst w ok by (simp only: encodeValue.simps cons compareBytes_num length_encode_num value_ok.simps be_val_encodeI64)
    then show ?thesis using VInst w by (simp only: sgn_cmp_shift) (simp add: sgn_cmp_def)
  next
    case (VRef n)
    then obtain m where w: "w = VRef m" using True by (cases w) auto
    have "compareBytes (encodeValue v) (encodeValue w) = sgn_cmp n m"
      using VRef w ok by (simp only: encodeValue.simps cons compareBytes_num length_encode_num value_ok.simps be_val_encodeU64)
    then show ?thesis using VRef w by (simp add: sgn_cmp_def)
  next
    case (VDouble x)
    then obtain y where w: "w = VDouble y" using True by (cases w) auto
    have "compareBytes (encodeValue v) (encodeValue w) = sgn_cmp (f64_key x) (f64_key y)"
      using VDouble w ok by (simp add: cons compareBytes_num be_val_encodeF64 f64_flip_mono del: of_nat_unat compareBytes.simps)
    then show ?thesis using VDouble w ok by (simp add: sgn_cmp_def f64_lt_def)
  next
    case (VStr s)
    then obtain t where w: "w = VStr t" using True by (cases w) auto
    then show ?thesis using VStr wf by (simp only: encodeValue.simps cons compareValue.simps value_wf.simps compareBytes_utf8_encode)
  next
    case (VBool b)
    then obtain c where w: "w = VBool c" using True by (cases w) auto
    then show ?thesis using VBool by (simp add: Let_def)
  next
    case (VUuid s)
    then obtain t where w: "w = VUuid t" using True by (cases w) auto
    have "compareValue v w = sgn (lex_by unat s t)" using VUuid w by (simp only: compareValue.simps str_cmp_lex)
    then show ?thesis using VUuid w ok by (simp add: Let_def compareBytes_lex lex_uuidToBytes)
  next
    case (VBytes b)
    then obtain c where w: "w = VBytes c" using True by (cases w) auto
    then show ?thesis using VBytes by (simp only: encodeValue.simps cons compareValue.simps)
  qed
qed

lemma decode_at_1:
  "safe_int n \<Longrightarrow> decodeI64 (b # encodeI64 n) 1 = n"
  "safe_int n \<Longrightarrow> 0 \<le> n \<Longrightarrow> decodeU64 (b # encodeU64 n) 1 = NInt n"
  "x \<noteq> f64_neg_zero \<Longrightarrow> decodeF64 (b # encodeF64 x) 1 = x"
  "uuid_pattern s \<Longrightarrow> bytesToUuid (b # uuidToBytes s) 1 = Inr s"
  using decodeI64_encode [of n "[b]" 1 "[]"] decodeU64_encode [of n "[b]" 1 "[]"] decodeF64_encode [of x "[b]" 1 "[]"]
    bytesToUuid_uuidToBytes [of s "[b]" 1 "[]"] by simp_all

text \<open>Decoding an encoded value yields its tag and payload.\<close>

lemma decodeValue_encode: "value_ok v \<Longrightarrow> value_text_ok v \<Longrightarrow> decodeValue (encodeValue v) = Inr (vt v, payload_of v)"
  using decode_at_1 [of _ "tag_byte (vt v)"] utf8_decode_encode
  by (cases v) (simp_all add: decodeValue_def tag_of_code_def num_of_int_def)

end
