(* ===== verification/ByteIO.thy ===== *)
theory ByteIO
  imports Encoding
begin

text \<open>
  The byte writer and reader of \<open>internal/core/bytes.ts\<close>: a growing buffer with a write
  position, a buffer with a read position, and LEB128 variable-length integers. Every
  write operation appends the bytes of its format to what \<open>finish\<close> would return, and the
  read operations invert them.
\<close>

section \<open>The writer\<close>

record writer =
  w_buf :: bytes
  w_pos :: nat

definition ByteWriter :: "nat \<Rightarrow> writer" where
  "ByteWriter initial = \<lparr>w_buf = replicate initial 0, w_pos = 0\<rparr>"

text \<open>
  The doubling loop of \<open>ensure\<close>. It never ends for an empty buffer; every writer of the
  program starts with at least 16 bytes.
\<close>

function grow_cap :: "nat \<Rightarrow> nat \<Rightarrow> nat" where
  "grow_cap cap need = (if need \<le> cap \<or> cap = 0 then cap else grow_cap (cap * 2) need)"
  by pat_completeness auto
termination
  by (relation "measure (\<lambda>(cap, need). need - cap)") auto

declare grow_cap.simps [simp del]

definition ensure :: "nat \<Rightarrow> writer \<Rightarrow> writer" where
  "ensure n w =
     (if w_pos w + n \<le> length (w_buf w) then w
      else
        let cap = grow_cap (length (w_buf w) * 2) (w_pos w + n)
        in w\<lparr>w_buf := take (w_pos w) (w_buf w) @ replicate (cap - w_pos w) 0\<rparr>)"

text \<open>Storing a byte at the position; a store past the end of a typed array is ignored.\<close>

definition put_byte :: "8 word \<Rightarrow> writer \<Rightarrow> writer" where
  "put_byte b w = w\<lparr>w_buf := (w_buf w)[w_pos w := b], w_pos := w_pos w + 1\<rparr>"

definition w_u8 :: "nat \<Rightarrow> writer \<Rightarrow> writer" where
  "w_u8 x w = put_byte (of_nat x AND 0xFF) (ensure 1 w)"

text \<open>\<open>buf.set(b, pos)\<close>, after room for all of \<open>b\<close> is ensured.\<close>

definition set_at :: "bytes \<Rightarrow> nat \<Rightarrow> bytes \<Rightarrow> bytes" where
  "set_at buf pos b = take pos buf @ b @ drop (pos + length b) buf"

definition w_bytes :: "bytes \<Rightarrow> writer \<Rightarrow> writer" where
  "w_bytes b w =
     (let w' = ensure (length b) w
      in w'\<lparr>w_buf := set_at (w_buf w') (w_pos w') b, w_pos := w_pos w' + length b\<rparr>)"

definition w_u32 :: "nat \<Rightarrow> writer \<Rightarrow> writer" where
  "w_u32 x w =
     (let w' = ensure 4 w
      in w'\<lparr>w_buf := set_at (w_buf w') (w_pos w') (be32 (of_nat x)), w_pos := w_pos w' + 4\<rparr>)"

definition w_f64 :: "f64 \<Rightarrow> writer \<Rightarrow> writer" where
  "w_f64 x w =
     (let w' = ensure 8 w
      in w'\<lparr>w_buf := set_at (w_buf w') (w_pos w') (be32 (ucast (drop_bit 32 x)) @ be32 (ucast x)),
            w_pos := w_pos w' + 8\<rparr>)"

function uvar_loop :: "nat \<Rightarrow> writer \<Rightarrow> writer" where
  "uvar_loop x w =
     (if 0x80 \<le> x then uvar_loop (x div 0x80) (put_byte (of_nat (x mod 0x80) OR 0x80) w)
      else put_byte (of_nat x) w)"
  by pat_completeness auto
termination
  by (relation "measure fst") auto

declare uvar_loop.simps [simp del]

definition w_uvar :: "int \<Rightarrow> writer \<Rightarrow> writer res" where
  "w_uvar x w =
     (if x < 0 \<or> \<not> safe_int x then Inl (RangeError ''uvar: bad value'')
      else Inr (uvar_loop (nat x) (ensure 10 w)))"

definition w_svar :: "int \<Rightarrow> writer \<Rightarrow> writer res" where
  "w_svar x w =
     (if \<not> safe_int x then Inl (RangeError ''svar: bad value'')
      else
        let neg = (if x < 0 then 1 else 0 :: nat); m = nat (if x < 0 then - x - 1 else x);
            rest = m div 64; low = (m mod 64) * 2 + neg; w' = ensure 1 w
        in if rest = 0 then Inr (put_byte (of_nat low) w')
           else w_uvar (int rest) (put_byte (of_nat low OR 0x80) w'))"

definition w_lbytes :: "bytes \<Rightarrow> writer \<Rightarrow> writer res" where
  "w_lbytes b w = rbind (w_uvar (int (length b)) w) (\<lambda>w'. Inr (w_bytes b w'))"

definition w_str :: "jsstr \<Rightarrow> writer \<Rightarrow> writer res" where
  "w_str s w = w_lbytes (utf8_encode s) w"

definition w_reserve :: "nat \<Rightarrow> writer \<Rightarrow> nat \<times> writer" where
  "w_reserve n w = (let w' = ensure n w in (w_pos w', w'\<lparr>w_pos := w_pos w' + n\<rparr>))"

definition w_patchU32 :: "nat \<Rightarrow> nat \<Rightarrow> writer \<Rightarrow> writer res" where
  "w_patchU32 off x w =
     (if off + 4 \<le> length (w_buf w) then Inr (w\<lparr>w_buf := set_at (w_buf w) off (be32 (of_nat x))\<rparr>)
      else Inl (RangeError ''offset out of bounds''))"

definition w_finish :: "writer \<Rightarrow> bytes" where
  "w_finish w = take (w_pos w) (w_buf w)"

section \<open>Every write appends its bytes\<close>

definition writer_ok :: "writer \<Rightarrow> bool" where
  "writer_ok w \<longleftrightarrow> 0 < length (w_buf w) \<and> w_pos w \<le> length (w_buf w)"

definition appends :: "writer \<Rightarrow> bytes \<Rightarrow> writer \<Rightarrow> bool" where
  "appends w bs w' \<longleftrightarrow> writer_ok w' \<and> w_finish w' = w_finish w @ bs"

definition writes :: "writer \<Rightarrow> bytes \<Rightarrow> writer res \<Rightarrow> bool" where
  "writes w bs r \<longleftrightarrow> (\<exists>w'. r = Inr w' \<and> appends w bs w')"

lemma writer_ok_ByteWriter: "0 < n \<Longrightarrow> writer_ok (ByteWriter n)" "w_finish (ByteWriter n) = []"
  by (simp_all add: writer_ok_def ByteWriter_def w_finish_def)

lemma grow_cap_ge: "0 < cap \<Longrightarrow> need \<le> grow_cap cap need \<and> cap \<le> grow_cap cap need"
proof (induction cap need rule: grow_cap.induct)
  case (1 cap need)
  show ?case
  proof (cases "need \<le> cap \<or> cap = 0")
    case True
    then show ?thesis using "1.prems" by (simp add: grow_cap.simps)
  next
    case False
    then show ?thesis using "1.IH" by (simp add: grow_cap.simps [of cap])
  qed
qed

lemma ensure_ok:
  assumes "writer_ok w"
  shows "w_pos (ensure n w) = w_pos w" "w_finish (ensure n w) = w_finish w"
    "writer_ok (ensure n w)" "w_pos w + n \<le> length (w_buf (ensure n w))"
proof -
  have "w_pos w + n \<le> grow_cap (length (w_buf w) * 2) (w_pos w + n)"
    "length (w_buf w) * 2 \<le> grow_cap (length (w_buf w) * 2) (w_pos w + n)"
    using grow_cap_ge [of "length (w_buf w) * 2" "w_pos w + n"] assms by (simp_all add: writer_ok_def)
  then show "w_pos (ensure n w) = w_pos w" "w_finish (ensure n w) = w_finish w"
    "writer_ok (ensure n w)" "w_pos w + n \<le> length (w_buf (ensure n w))"
    using assms by (auto simp: ensure_def writer_ok_def w_finish_def Let_def)
qed

lemma set_at_appends:
  assumes "writer_ok w" "w_pos w + length b \<le> length (w_buf w)"
  shows "appends w b (w\<lparr>w_buf := set_at (w_buf w) (w_pos w) b, w_pos := w_pos w + length b\<rparr>)"
  using assms by (auto simp: appends_def writer_ok_def w_finish_def set_at_def)

lemma put_byte_appends: "writer_ok w \<Longrightarrow> w_pos w < length (w_buf w) \<Longrightarrow> appends w [b] (put_byte b w)"
  by (auto simp: appends_def writer_ok_def w_finish_def put_byte_def take_Suc_conv_app_nth)

lemma w_u8_appends: "writer_ok w \<Longrightarrow> x < 256 \<Longrightarrow> appends w [of_nat x] (w_u8 x w)"
proof -
  assume w: "writer_ok w" and x: "x < 256"
  have "(0xFF :: 8 word) = -1" by simp
  then have "of_nat x AND 0xFF = (of_nat x :: 8 word)" by (simp only: and.right_neutral)
  then show ?thesis
    using put_byte_appends [of "ensure 1 w" "of_nat x"] ensure_ok [OF w, of 1] by (simp add: w_u8_def appends_def)
qed

lemma w_bytes_appends: "writer_ok w \<Longrightarrow> appends w b (w_bytes b w)"
  using set_at_appends [of "ensure (length b) w" b] ensure_ok [of w "length b"]
  by (simp add: w_bytes_def Let_def appends_def)

lemma w_u32_appends: "writer_ok w \<Longrightarrow> appends w (be32 (of_nat x)) (w_u32 x w)"
  using set_at_appends [of "ensure 4 w" "be32 (of_nat x)"] ensure_ok [of w 4]
  by (simp add: w_u32_def Let_def appends_def)

definition f64_bytes :: "f64 \<Rightarrow> bytes" where
  "f64_bytes x = be32 (ucast (drop_bit 32 x)) @ be32 (ucast x)"

lemma w_f64_appends: "writer_ok w \<Longrightarrow> appends w (f64_bytes x) (w_f64 x w)"
  using set_at_appends [of "ensure 8 w" "f64_bytes x"] ensure_ok [of w 8]
  by (simp add: w_f64_def f64_bytes_def Let_def appends_def)

text \<open>The format of an unsigned variable-length integer.\<close>

function uvar_bytes :: "nat \<Rightarrow> bytes" where
  "uvar_bytes x = (if 0x80 \<le> x then (of_nat (x mod 0x80) OR 0x80) # uvar_bytes (x div 0x80) else [of_nat x])"
  by pat_completeness auto
termination
  by (relation "measure id") auto

declare uvar_bytes.simps [simp del]

lemma length_uvar_bytes: "x < 2 ^ (7 * n) \<Longrightarrow> 0 < n \<Longrightarrow> length (uvar_bytes x) \<le> n"
proof (induction n arbitrary: x)
  case (Suc n)
  show ?case
  proof (cases "x < 0x80")
    case True
    then show ?thesis by (simp add: uvar_bytes.simps)
  next
    case False
    then have "0 < n" using Suc.prems by (cases n) auto
    moreover have "x div 0x80 < 2 ^ (7 * n)"
      using Suc.prems(1) by (simp add: div_less_iff_less_mult power_add mult.commute)
    ultimately show ?thesis using Suc.IH [of "x div 0x80"] False by (simp add: uvar_bytes.simps [of x])
  qed
qed simp

lemma appends_trans: "appends w xs w' \<Longrightarrow> appends w' ys w'' \<Longrightarrow> appends w (xs @ ys) w''"
  by (simp add: appends_def)

lemma appends_ok: "appends w xs w' \<Longrightarrow> writer_ok w'"
  by (simp add: appends_def)

lemma uvar_loop_appends:
  "writer_ok w \<Longrightarrow> w_pos w + length (uvar_bytes x) \<le> length (w_buf w) \<Longrightarrow> appends w (uvar_bytes x) (uvar_loop x w)"
proof (induction x w rule: uvar_loop.induct)
  case (1 x w)
  show ?case
  proof (cases "0x80 \<le> x")
    case True
    let ?b = "of_nat (x mod 0x80) OR 0x80"
    have bytes: "uvar_bytes x = ?b # uvar_bytes (x div 0x80)" using True by (simp add: uvar_bytes.simps [of x])
    have a: "appends w [?b] (put_byte ?b w)" using "1.prems" bytes by (intro put_byte_appends) simp_all
    have "appends (put_byte ?b w) (uvar_bytes (x div 0x80)) (uvar_loop (x div 0x80) (put_byte ?b w))"
      using "1.IH" [OF True] a "1.prems"(2) bytes by (simp add: appends_def put_byte_def)
    then show ?thesis using appends_trans [OF a] True bytes by (simp add: uvar_loop.simps [of x])
  next
    case False
    then have "uvar_bytes x = [of_nat x]" by (simp add: uvar_bytes.simps)
    then show ?thesis using False put_byte_appends "1.prems" by (simp add: uvar_loop.simps [of x])
  qed
qed

lemma w_uvar_writes:
  assumes "writer_ok w" "0 \<le> x" "safe_int x"
  shows "writes w (uvar_bytes (nat x)) (w_uvar x w)"
proof -
  have "length (uvar_bytes (nat x)) \<le> 8"
    using assms(2,3) by (intro length_uvar_bytes) (simp_all add: safe_int_def MAX_ID_def nat_less_iff)
  then have "appends (ensure 10 w) (uvar_bytes (nat x)) (uvar_loop (nat x) (ensure 10 w))"
    using ensure_ok [OF assms(1), of 10] by (intro uvar_loop_appends) simp_all
  then show ?thesis using assms ensure_ok [OF assms(1), of 10] by (simp add: writes_def w_uvar_def appends_def)
qed

definition svar_bytes :: "int \<Rightarrow> bytes" where
  "svar_bytes x =
     (let neg = (if x < 0 then 1 else 0 :: nat); m = nat (if x < 0 then - x - 1 else x);
          rest = m div 64; low = (m mod 64) * 2 + neg
      in if rest = 0 then [of_nat low] else (of_nat low OR 0x80) # uvar_bytes rest)"

lemma w_svar_writes:
  assumes "writer_ok w" "safe_int x"
  shows "writes w (svar_bytes x) (w_svar x w)"
proof -
  let ?w = "ensure 1 w" let ?m = "nat (if x < 0 then - x - 1 else x)"
  note e = ensure_ok [OF assms(1), of 1]
  have p: "appends w [b] (put_byte b ?w)" for b
    using put_byte_appends [of ?w b] e by (simp add: appends_def)
  show ?thesis
  proof (cases "?m div 64 = 0")
    case True
    then show ?thesis using p assms(2) by (simp add: writes_def w_svar_def svar_bytes_def Let_def)
  next
    case False
    let ?b = "of_nat ((?m mod 64) * 2 + (if x < 0 then 1 else 0)) OR (0x80 :: 8 word)"
    have "safe_int (int (?m div 64))" using assms(2) by (auto simp: safe_int_def MAX_ID_def)
    then have "writes (put_byte ?b ?w) (uvar_bytes (?m div 64)) (w_uvar (int (?m div 64)) (put_byte ?b ?w))"
      using w_uvar_writes [OF appends_ok [OF p], of "int (?m div 64)" ?b] by (simp only: nat_int of_nat_0_le_iff)
    then have "writes w (?b # uvar_bytes (?m div 64)) (w_uvar (int (?m div 64)) (put_byte ?b ?w))"
      using appends_trans [OF p [of ?b]] by (auto simp: writes_def)
    moreover have "w_svar x w = w_uvar (int (?m div 64)) (put_byte ?b ?w)"
      using False assms(2) unfolding w_svar_def Let_def by (simp only: if_False not_True_eq_False)
    moreover have "svar_bytes x = ?b # uvar_bytes (?m div 64)"
      using False unfolding svar_bytes_def Let_def by (simp only: if_False)
    ultimately show ?thesis by (simp only:)
  qed
qed

lemma writes_bind:
  "writes w xs r \<Longrightarrow> (\<And>w'. writer_ok w' \<Longrightarrow> writes w' ys (f w')) \<Longrightarrow> writes w (xs @ ys) (rbind r f)"
  unfolding writes_def by (metis appends_ok appends_trans rbind.simps(2))

lemma writes_Inr: "appends w xs w' \<Longrightarrow> writes w xs (Inr w')"
  by (simp add: writes_def)

lemma writes_Inr_bind: "appends w xs w' \<Longrightarrow> writes w' ys r \<Longrightarrow> writes w (xs @ ys) r"
  unfolding writes_def using appends_trans by blast

lemma w_lbytes_writes:
  "writer_ok w \<Longrightarrow> length b < 2 ^ 53 \<Longrightarrow> writes w (uvar_bytes (length b) @ b) (w_lbytes b w)"
  unfolding w_lbytes_def
  using w_uvar_writes [of w "int (length b)"]
  by (intro writes_bind) (auto simp: safe_int_def MAX_ID_def intro!: writes_Inr w_bytes_appends)

text \<open>Reserved bytes that are patched later hold the patched number.\<close>

lemma w_patchU32_finish:
  assumes "writer_ok w" "off + 4 \<le> w_pos w"
  shows "\<exists>w'. w_patchU32 off x w = Inr w' \<and> writer_ok w' \<and>
    w_finish w' = set_at (w_finish w) off (be32 (of_nat x))"
proof -
  have "take (w_pos w) (set_at (w_buf w) off (be32 (of_nat x))) = set_at (take (w_pos w) (w_buf w)) off (be32 (of_nat x))"
    using assms by (simp add: set_at_def writer_ok_def min_def drop_take)
  moreover have "length (set_at (w_buf w) off (be32 (of_nat x))) = length (w_buf w)"
    using assms by (simp add: set_at_def writer_ok_def)
  ultimately show ?thesis
    using assms by (auto simp: w_patchU32_def writer_ok_def w_finish_def)
qed

section \<open>The reader\<close>

record reader =
  rd_buf :: bytes
  rd_pos :: nat

type_synonym 'a rd = "reader \<Rightarrow> ('a \<times> reader) res"

definition rd_return :: "'a \<Rightarrow> 'a rd" where
  "rd_return x = (\<lambda>r. Inr (x, r))"

definition rd_bind :: "'a rd \<Rightarrow> ('a \<Rightarrow> 'b rd) \<Rightarrow> 'b rd" where
  "rd_bind m f = (\<lambda>r. rbind (m r) (\<lambda>(x, r'). f x r'))"

fun rd_repeat :: "nat \<Rightarrow> 'a rd \<Rightarrow> 'a list rd" where
  "rd_repeat 0 m = rd_return []"
| "rd_repeat (Suc n) m = rd_bind m (\<lambda>x. rd_bind (rd_repeat n m) (\<lambda>xs. rd_return (x # xs)))"

definition ByteReader :: "bytes \<Rightarrow> nat \<Rightarrow> reader" where
  "ByteReader buf pos = \<lparr>rd_buf = buf, rd_pos = pos\<rparr>"

definition rd_remaining :: "reader \<Rightarrow> int" where
  "rd_remaining r = int (length (rd_buf r)) - int (rd_pos r)"

text \<open>Rounding of an integer result to the nearest double (ties to even).\<close>

definition fnat :: "nat \<Rightarrow> nat" where
  "fnat n =
     (if n \<le> 2 ^ 53 then n
      else
        let s = ilog2 n - 52; q = n div 2 ^ s; r = n mod 2 ^ s; h = 2 ^ (s - 1)
        in (if h < r \<or> r = h \<and> odd q then q + 1 else q) * 2 ^ s)"

definition fint :: "int \<Rightarrow> int" where
  "fint n = (if n < 0 then - int (fnat (nat (- n))) else int (fnat (nat n)))"

definition r_u8 :: "nat rd" where
  "r_u8 r =
     (if rd_pos r \<ge> length (rd_buf r) then Inl (RangeError ''ByteReader: EOF'')
      else Inr (unat (rd_buf r ! rd_pos r), r\<lparr>rd_pos := rd_pos r + 1\<rparr>))"

definition r_u32 :: "nat rd" where
  "r_u32 r =
     (case u32_at (rd_buf r) (rd_pos r) of
        None \<Rightarrow> Inl (RangeError ''offset out of bounds'')
      | Some x \<Rightarrow> Inr (x, r\<lparr>rd_pos := rd_pos r + 4\<rparr>))"

text \<open>The multiplier is \<open>0x80\<close> to the power \<open>k\<close>; more than nine bytes are refused.\<close>

function r_uvar_loop :: "nat \<Rightarrow> nat \<Rightarrow> nat rd" where
  "r_uvar_loop result k r =
     (if rd_pos r \<ge> length (rd_buf r) then Inl (RangeError ''ByteReader: EOF in varint'')
      else
        let b = rd_buf r ! rd_pos r; r' = r\<lparr>rd_pos := rd_pos r + 1\<rparr>;
            result' = fnat (result + unat (b AND 0x7F) * 0x80 ^ k)
        in if b AND 0x80 = 0 then Inr (result', r')
           else if 0x80 ^ (k + 1) > (2 ^ 56 :: nat) then Inl (RangeError ''varint too long'')
           else r_uvar_loop result' (k + 1) r')"
  by pat_completeness auto
termination
  by (relation "measure (\<lambda>(result, k, r). length (rd_buf r) - rd_pos r)") auto

declare r_uvar_loop.simps [simp del]

definition r_uvar :: "nat rd" where
  "r_uvar = r_uvar_loop 0 0"

definition r_svar :: "int rd" where
  "r_svar = rd_bind r_u8 (\<lambda>b.
     let neg = odd b; m0 = b div 2 mod 0x40
     in rd_bind (if b div 0x80 mod 2 = 1 then rd_bind r_uvar (\<lambda>u. rd_return (fnat (m0 + fnat (u * 64)))) else rd_return m0)
          (\<lambda>m. rd_return (if neg then fint (- int m - 1) else int m)))"

definition r_f64 :: "f64 rd" where
  "r_f64 r =
     (case (u32_at (rd_buf r) (rd_pos r), u32_at (rd_buf r) (rd_pos r + 4)) of
        (Some hi, Some lo) \<Rightarrow> Inr (push_bit 32 (of_nat hi) OR of_nat lo, r\<lparr>rd_pos := rd_pos r + 8\<rparr>)
      | _ \<Rightarrow> Inl (RangeError ''offset out of bounds''))"

definition r_bytes :: "nat \<Rightarrow> bytes rd" where
  "r_bytes n r =
     (if rd_pos r + n > length (rd_buf r) then Inl (RangeError ''ByteReader: EOF in bytes'')
      else Inr (take n (drop (rd_pos r) (rd_buf r)), r\<lparr>rd_pos := rd_pos r + n\<rparr>))"

definition r_lbytes :: "bytes rd" where
  "r_lbytes = rd_bind r_uvar r_bytes"

definition r_str :: "jsstr rd" where
  "r_str = rd_bind r_lbytes (\<lambda>b. rd_return (utf8_decode b))"

section \<open>Reading what was written\<close>

text \<open>\<open>reads m bs x\<close>: wherever \<open>bs\<close> stands in a buffer, \<open>m\<close> reads exactly it and yields \<open>x\<close>.\<close>

definition reads :: "'a rd \<Rightarrow> bytes \<Rightarrow> 'a \<Rightarrow> bool" where
  "reads m bs x \<longleftrightarrow> (\<forall>pre rest. m (ByteReader (pre @ bs @ rest) (length pre)) =
     Inr (x, ByteReader (pre @ bs @ rest) (length pre + length bs)))"

lemma reads_return: "reads (rd_return x) [] x"
  by (simp add: reads_def rd_return_def)

lemma reads_bind: "reads m xs x \<Longrightarrow> reads (f x) ys y \<Longrightarrow> reads (rd_bind m f) (xs @ ys) y"
  unfolding reads_def
proof (intro allI)
  fix pre rest
  assume m: "\<forall>pre rest. m (ByteReader (pre @ xs @ rest) (length pre)) =
      Inr (x, ByteReader (pre @ xs @ rest) (length pre + length xs))"
    and f: "\<forall>pre rest. f x (ByteReader (pre @ ys @ rest) (length pre)) =
      Inr (y, ByteReader (pre @ ys @ rest) (length pre + length ys))"
  show "rd_bind m f (ByteReader (pre @ (xs @ ys) @ rest) (length pre)) =
      Inr (y, ByteReader (pre @ (xs @ ys) @ rest) (length pre + length (xs @ ys)))"
    using m [THEN spec, THEN spec, of pre "ys @ rest"] f [THEN spec, THEN spec, of "pre @ xs" rest]
    by (simp add: rd_bind_def add.assoc)
qed

lemma reads_bind_return: "reads m xs x \<Longrightarrow> reads (rd_bind m (\<lambda>x. rd_return (f x))) xs (f x)"
  using reads_bind [OF _ reads_return, of m xs x] by simp

lemma reads_repeat:
  "list_all2 (reads m) bss xs \<Longrightarrow> reads (rd_repeat (length xs) m) (concat bss) xs"
proof (induction bss xs rule: list_all2_induct)
  case (Cons bs bss x xs)
  then show ?case using reads_bind [OF Cons.hyps(1) reads_bind_return [OF Cons.IH]] by simp
qed (simp add: reads_return)

lemma reads_u8: "reads r_u8 [b] (unat b)"
  by (simp add: reads_def r_u8_def ByteReader_def nth_append)

lemma reads_u32: "reads r_u32 (be32 w) (unat w)"
  by (simp add: reads_def r_u32_def ByteReader_def u32_at_be32)

lemma reads_bytes: "reads (r_bytes (length b)) b b"
  by (simp add: reads_def r_bytes_def ByteReader_def)

lemma reads_f64: "reads r_f64 (f64_bytes x) x"
proof -
  have "push_bit 32 (of_nat (unat (ucast (drop_bit 32 x) :: 32 word))) OR of_nat (unat (ucast x :: 32 word)) = x"
    using join_halves [of x] by (simp only: of_nat_unat)
  then show ?thesis
    unfolding reads_def r_f64_def ByteReader_def f64_bytes_def
    using u32_at_halves [OF refl] by (simp del: of_nat_unat)
qed

lemma fnat_small: "n \<le> 2 ^ 53 \<Longrightarrow> fnat n = n"
  by (simp add: fnat_def)

lemma fint_small: "\<bar>n\<bar> \<le> 2 ^ 53 \<Longrightarrow> fint n = n"
  by (auto simp: fint_def fnat_small nat_le_iff)

definition TOP8 :: "8 word" where
  "TOP8 = push_bit 7 1"

lemma TOP8_numeral: "0x80 = TOP8" "0x7F = NOT TOP8"
  by (simp_all add: TOP8_def)

lemma bit_TOP8: "bit TOP8 n \<longleftrightarrow> n = 7"
  unfolding TOP8_def bit_push_bit_iff by (auto simp: bit_1_iff)

lemma varint_byte:
  assumes "n < 0x80"
  shows "unat ((of_nat n :: 8 word) AND 0x7F) = n" "(of_nat n :: 8 word) AND 0x80 = 0"
    "unat ((of_nat n OR 0x80 :: 8 word) AND 0x7F) = n" "(of_nat n OR 0x80 :: 8 word) AND 0x80 \<noteq> 0"
    "unat (of_nat n OR 0x80 :: 8 word) = n + 0x80"
proof -
  let ?v = "of_nat n :: 8 word"
  have u: "unat ?v = n" using assms by (intro of_nat_inverse [OF refl]) simp
  have "\<not> bit (unat ?v) 7" unfolding u bit_iff_odd using assms by simp
  then have b7: "\<not> bit ?v 7" by (simp add: bit_unsigned_iff)
  have a: "?v AND NOT TOP8 = ?v" "(?v OR TOP8) AND NOT TOP8 = ?v" "?v AND TOP8 = 0"
    using b7 by (intro bit_word_eqI; auto simp: bit_and_iff bit_or_iff bit_not_iff bit_TOP8)+
  have "bit ((?v OR TOP8) AND TOP8) 7" by (simp add: bit_and_iff bit_or_iff bit_TOP8)
  then have ne: "(?v OR TOP8) AND TOP8 \<noteq> 0" by force
  have "?v OR TOP8 = ?v + TOP8" using a(3) by (simp add: disjunctive_add_eq_or)
  moreover have "unat (?v + TOP8) = n + 0x80"
    using assms u by (simp add: TOP8_def unat_word_ariths)
  ultimately show "unat (?v AND 0x7F) = n" "?v AND 0x80 = 0" "unat ((?v OR 0x80) AND 0x7F) = n"
    "(?v OR 0x80) AND 0x80 \<noteq> 0" "unat (?v OR 0x80) = n + 0x80"
    unfolding TOP8_numeral using a ne u by simp_all
qed

lemma reads_uvar_loop:
  "result < 0x80 ^ k \<Longrightarrow> result + x * 0x80 ^ k \<le> 2 ^ 53 \<Longrightarrow>
   reads (r_uvar_loop result k) (uvar_bytes x) (result + x * 0x80 ^ k)"
proof (induction x arbitrary: result k rule: uvar_bytes.induct)
  case (1 x)
  show ?case
  proof (cases "0x80 \<le> x")
    case False
    then have b: "uvar_bytes x = [of_nat x]" by (simp add: uvar_bytes.simps)
    show ?thesis
      unfolding reads_def b
      using False "1.prems"(2) varint_byte [of x]
      by (simp add: r_uvar_loop.simps ByteReader_def Let_def fnat_small)
  next
    case True
    let ?d = "x mod 0x80" let ?q = "x div 0x80" let ?b = "of_nat ?d OR 0x80 :: 8 word"
    let ?res = "result + ?d * 0x80 ^ k"
    have bytes: "uvar_bytes x = ?b # uvar_bytes ?q" using True by (simp add: uvar_bytes.simps [of x])
    have "?res + ?q * 0x80 ^ (k + 1) = result + (?q * 0x80 + ?d) * 0x80 ^ k"
      by (simp only: power_add power_one_right distrib_right mult.assoc mult.commute [of "0x80 ^ k"] add.assoc
          add.commute [of "?d * 0x80 ^ k"])
    then have sum: "?res + ?q * 0x80 ^ (k + 1) = result + x * 0x80 ^ k" by (simp only: div_mult_mod_eq)
    have "?d \<le> 0x7F" by (simp add: less_Suc_eq_le [symmetric])
    then have "?d * 0x80 ^ k \<le> 0x7F * 0x80 ^ k" by (rule mult_le_mono1)
    then have lt: "?res < 0x80 ^ (k + 1)" using "1.prems"(1) by (simp only: power_add power_one_right)
    have le: "?res \<le> 2 ^ 53" using "1.prems"(2) sum by linarith
    have "(1 :: nat) \<le> ?q" using True by (simp add: div_greater_zero_iff Suc_le_eq)
    then have "0x80 ^ (k + 1) \<le> ?q * 0x80 ^ (k + 1)" by simp
    then have "0x80 ^ (k + 1) \<le> (2 ^ 53 :: nat)" using "1.prems"(2) sum by linarith
    then have small: "\<not> (0x80 ^ (k + 1) > (2 ^ 56 :: nat))" by simp
    have "reads (r_uvar_loop ?res (k + 1)) (uvar_bytes ?q) (?res + ?q * 0x80 ^ (k + 1))"
      using "1.IH" [OF True lt] "1.prems"(2) sum by simp
    then have IH: "reads (r_uvar_loop ?res (k + 1)) (uvar_bytes ?q) (result + x * 0x80 ^ k)"
      unfolding sum .
    have step: "r_uvar_loop result k (ByteReader (pre @ (?b # rest)) (length pre)) =
        r_uvar_loop ?res (k + 1) (ByteReader ((pre @ [?b]) @ rest) (length (pre @ [?b])))" for pre rest
      using varint_byte [of ?d] small le
      by (subst r_uvar_loop.simps) (simp add: ByteReader_def Let_def fnat_small)
    show ?thesis
      unfolding reads_def bytes
    proof (intro allI)
      fix pre rest
      show "r_uvar_loop result k (ByteReader (pre @ (?b # uvar_bytes ?q) @ rest) (length pre)) =
          Inr (result + x * 0x80 ^ k, ByteReader (pre @ (?b # uvar_bytes ?q) @ rest)
            (length pre + length (?b # uvar_bytes ?q)))"
        using step [of pre "uvar_bytes ?q @ rest"] IH [unfolded reads_def, THEN spec, THEN spec, of "pre @ [?b]" rest]
        by simp
    qed
  qed
qed

lemma reads_uvar: "x \<le> 2 ^ 53 \<Longrightarrow> reads r_uvar (uvar_bytes x) x"
  using reads_uvar_loop [of 0 0 x] by (simp add: r_uvar_def)

lemma reads_svar: "safe_int x \<Longrightarrow> reads r_svar (svar_bytes x) x"
proof -
  assume x: "safe_int x"
  define neg where "neg = (if x < 0 then 1 else 0 :: nat)"
  define m where "m = nat (if x < 0 then - x - 1 else x)"
  define low where "low = (m mod 64) * 2 + neg"
  have low: "low < 0x80" "low div 2 = m mod 64" "odd low \<longleftrightarrow> x < 0" "m mod 64 mod 0x40 = m mod 64"
  proof -
    have "m mod 64 \<le> 63" by (simp add: less_Suc_eq_le [symmetric])
    then show "low < 0x80" by (simp add: low_def neg_def)
  qed (auto simp: low_def neg_def)
  have m: "m < 2 ^ 53" using x by (auto simp: m_def safe_int_def MAX_ID_def nat_less_iff)
  have inv_m: "(if x < 0 then fint (- int m - 1) else int m) = x"
  proof (cases "x < 0")
    case True
    then have e: "- int m - 1 = x" by (simp add: m_def)
    have "\<bar>x\<bar> \<le> 2 ^ 53" using x by (simp add: safe_int_def MAX_ID_def)
    then show ?thesis using True fint_small [of x] unfolding e by simp
  qed (simp add: m_def)
  let ?k = "\<lambda>m'. rd_return (if odd low then fint (- int m' - 1) else int m')"
  have fin: "reads (?k m) [] x" using reads_return [of "if odd low then fint (- int m - 1) else int m"] inv_m low(3) by simp
  show ?thesis
  proof (cases "m div 64 = 0")
    case True
    then have m64: "m mod 64 = m" by (simp add: div_eq_0_iff)
    have b: "svar_bytes x = [of_nat low]"
      using True unfolding svar_bytes_def Let_def low_def neg_def m_def by (simp only: if_True simp_thms)
    have u: "unat (of_nat low :: 8 word) = low" using low(1) by (intro of_nat_inverse [OF refl]) simp
    have no: "(low div 0x80 mod 2 = 1) = False" using low(1) by simp
    have "reads (?k (m mod 64)) [] x" using fin by (simp only: m64)
    then have "reads (rd_bind (rd_return (m mod 64)) ?k) ([] @ []) x"
      by (rule reads_bind [where x = "m mod 64", OF reads_return])
    then have "reads (rd_bind r_u8 (\<lambda>b. let neg = odd b; m0 = b div 2 mod 0x40
     in rd_bind (if b div 0x80 mod 2 = 1 then rd_bind r_uvar (\<lambda>u. rd_return (fnat (m0 + fnat (u * 64)))) else rd_return m0)
          (\<lambda>m. rd_return (if neg then fint (- int m - 1) else int m)))) ([of_nat low] @ []) x"
      by (intro reads_bind [OF reads_u8]) (simp only: u no low(2,4) Let_def if_False append.right_neutral append_Nil)
    then show ?thesis unfolding r_svar_def b by (simp only: append.right_neutral)
  next
    case False
    let ?b = "of_nat low OR 0x80 :: 8 word"
    have b: "svar_bytes x = [?b] @ uvar_bytes (m div 64)"
      using False unfolding svar_bytes_def Let_def low_def neg_def m_def by (simp only: if_False append.simps)
    have u: "unat ?b = low + 0x80" using varint_byte [OF low(1)] by simp
    have "(low + 0x80) div 2 = low div 2 + 0x40" by simp
    then have h2: "(low + 0x80) div 2 mod 0x40 = m mod 64" using low(2) by simp
    have h: "((low + 0x80) div 0x80 mod 2 = 1) = True" "odd (low + 0x80) \<longleftrightarrow> odd low"
      using low(1) by simp_all
    have "m div 64 \<le> 2 ^ 53" using m by simp
    then have rd: "reads r_uvar (uvar_bytes (m div 64)) (m div 64)" by (rule reads_uvar)
    have e: "fnat (m mod 64 + fnat (m div 64 * 64)) = m" using m by (simp add: fnat_small)
    have "reads (rd_bind (rd_bind r_uvar (\<lambda>v. rd_return (fnat (m mod 64 + fnat (v * 64))))) ?k) (uvar_bytes (m div 64) @ []) x"
      by (rule reads_bind [OF reads_bind_return [OF rd]]) (simp only: e fin)
    then have "reads (rd_bind r_u8 (\<lambda>b. let neg = odd b; m0 = b div 2 mod 0x40
     in rd_bind (if b div 0x80 mod 2 = 1 then rd_bind r_uvar (\<lambda>u. rd_return (fnat (m0 + fnat (u * 64)))) else rd_return m0)
          (\<lambda>m. rd_return (if neg then fint (- int m - 1) else int m)))) ([?b] @ uvar_bytes (m div 64)) x"
      by (intro reads_bind [OF reads_u8]) (simp only: u h h2 Let_def if_True append.right_neutral)
    then show ?thesis unfolding r_svar_def b .
  qed
qed

lemma reads_lbytes: "length b < 2 ^ 53 \<Longrightarrow> reads r_lbytes (uvar_bytes (length b) @ b) b"
  unfolding r_lbytes_def
  using reads_bind [of r_uvar "uvar_bytes (length b)" "length b" r_bytes b b] reads_uvar reads_bytes by simp

lemma reads_str:
  "length (utf8_encode s) < 2 ^ 53 \<Longrightarrow> text_ok s \<Longrightarrow>
   reads r_str (uvar_bytes (length (utf8_encode s)) @ utf8_encode s) s"
  unfolding r_str_def using reads_bind_return [OF reads_lbytes, of "utf8_encode s" utf8_decode]
  by (simp add: utf8_decode_encode)

section \<open>Hexadecimal text and plain byte arrays\<close>

definition concatBytes :: "bytes list \<Rightarrow> bytes" where
  "concatBytes parts = foldl (\<lambda>out p. out @ p) [] parts"

fun bytesEqual :: "bytes \<Rightarrow> bytes \<Rightarrow> bool" where
  "bytesEqual a b = (length a = length b \<and> list_all (\<lambda>(x, y). x = y) (zip a b))"

definition toHex :: "bytes \<Rightarrow> string" where
  "toHex b = map char_of (concat (map hex2 b))"

definition fromHex :: "string \<Rightarrow> bytes" where
  "fromHex h = map (\<lambda>i. parse_hex2 (map of_char (take 2 (drop (i * 2) h)))) [0..<length h div 2]"

lemma concatBytes_concat: "concatBytes parts = concat parts"
proof -
  have "foldl (\<lambda>out p. out @ p) acc parts = acc @ concat parts" for acc
    by (induction parts arbitrary: acc) simp_all
  then show ?thesis by (simp add: concatBytes_def)
qed

lemma bytesEqual_iff: "bytesEqual a b \<longleftrightarrow> a = b"
proof (cases "length a = length b")
  case True
  then show ?thesis by (induction a b rule: list_induct2) auto
qed auto

lemma length_toHex [simp]: "length (toHex b) = 2 * length b"
  by (induction b) (simp_all add: toHex_def hex2_def)

lemma hexdigit_less: "n < 16 \<Longrightarrow> hexdigit n < 256"
  by (simp add: hexdigit_def)

lemma fromHex_step: "fromHex (a # c # h) = parse_hex2 [of_char a, of_char c] # fromHex h"
  by (simp add: fromHex_def map_upt_Suc del: upt_Suc)

lemma fromHex_toHex: "fromHex (toHex b) = b"
proof (induction b)
  case (Cons x b)
  have "unat x div 16 < 16" "unat x mod 16 < 16" using unat_byte [of x] by simp_all
  then have "toHex (x # b) = char_of (hexdigit (unat x div 16)) # char_of (hexdigit (unat x mod 16)) # toHex b"
    "hexdigit (unat x div 16) < 256" "hexdigit (unat x mod 16) < 256"
    by (simp_all add: toHex_def hex2_def hexdigit_less)
  then show ?case
    using Cons parse_hex2_hex2 [of x] by (simp add: fromHex_step hex2_def del: parse_hex2.simps)
qed (simp add: fromHex_def toHex_def)

end
