(* ===== verification/Segments.thy ===== *)
theory Segments
  imports ByteIO SegTree
begin

text \<open>
  The object formats: leaf segments (\<open>internal/core/segment.ts\<close>), directory nodes
  (\<open>encodeNode\<close> / \<open>decodeNode\<close> of \<open>internal/core/tree.ts\<close>) and log chunks
  (\<open>internal/core/log.ts\<close>). What the encoders write, the decoders read back, for datoms
  whose ids are safe and whose text survives UTF-8.
\<close>

section \<open>Values and datoms\<close>

fun writeValue :: "tagged_value \<Rightarrow> writer \<Rightarrow> writer res" where
  "writeValue (VLong n) w = w_svar n (w_u8 (tag_code Long) w)"
| "writeValue (VInst n) w = w_svar n (w_u8 (tag_code Inst) w)"
| "writeValue (VRef n) w = w_uvar n (w_u8 (tag_code Ref) w)"
| "writeValue (VDouble x) w = Inr (w_f64 x (w_u8 (tag_code Double) w))"
| "writeValue (VStr s) w = w_str s (w_u8 (tag_code Str) w)"
| "writeValue (VBool b) w = Inr (w_u8 (if b then 1 else 0) (w_u8 (tag_code Bool) w))"
| "writeValue (VUuid s) w = Inr (w_bytes (uuidToBytes s) (w_u8 (tag_code Uuid) w))"
| "writeValue (VBytes b) w = w_lbytes b (w_u8 (tag_code Bytes) w)"

definition rd_lift :: "'a res \<Rightarrow> 'a rd" where
  "rd_lift m = (\<lambda>r. rbind m (\<lambda>x. Inr (x, r)))"

definition rd_fail :: "jserr \<Rightarrow> 'a rd" where
  "rd_fail e = (\<lambda>r. Inl e)"

definition readValue :: "tagged_value rd" where
  "readValue = rd_bind r_u8 (\<lambda>c. case tag_of_code c of
      Some Long \<Rightarrow> rd_bind r_svar (\<lambda>n. rd_return (VLong n))
    | Some Inst \<Rightarrow> rd_bind r_svar (\<lambda>n. rd_return (VInst n))
    | Some Ref \<Rightarrow> rd_bind r_uvar (\<lambda>n. rd_return (VRef (int n)))
    | Some Double \<Rightarrow> rd_bind r_f64 (\<lambda>x. rd_return (VDouble x))
    | Some Str \<Rightarrow> rd_bind r_str (\<lambda>s. rd_return (VStr s))
    | Some Bool \<Rightarrow> rd_bind r_u8 (\<lambda>b. rd_return (VBool (b \<noteq> 0)))
    | Some Uuid \<Rightarrow> rd_bind (r_bytes 16) (\<lambda>b. rd_bind (rd_lift (bytesToUuid b 0)) (\<lambda>u. rd_return (VUuid u)))
    | Some Bytes \<Rightarrow> rd_bind r_lbytes (\<lambda>b. rd_return (VBytes b))
    | None \<Rightarrow> rd_fail (TypeError ''unknown value tag''))"

definition writeDatom :: "datom \<Rightarrow> writer \<Rightarrow> writer res" where
  "writeDatom d w =
     rbind (w_uvar (d_e d) w) (\<lambda>w. rbind (w_uvar (d_a d) w) (\<lambda>w. rbind (writeValue (d_v d) w) (\<lambda>w.
       rbind (w_uvar (d_t d) w) (\<lambda>w. Inr (w_u8 (if d_op d then 1 else 0) w)))))"

definition readDatom :: "datom rd" where
  "readDatom = rd_bind r_uvar (\<lambda>e. rd_bind r_uvar (\<lambda>a. rd_bind readValue (\<lambda>v. rd_bind r_uvar (\<lambda>t.
     rd_bind r_u8 (\<lambda>b. rd_return (\<lparr>d_e = int e, d_a = int a, d_v = v, d_t = int t, d_op = (b \<noteq> 0)\<rparr>))))))"

text \<open>The formats as byte strings.\<close>

fun value_bytes :: "tagged_value \<Rightarrow> bytes" where
  "value_bytes (VLong n) = tag_byte Long # svar_bytes n"
| "value_bytes (VInst n) = tag_byte Inst # svar_bytes n"
| "value_bytes (VRef n) = tag_byte Ref # uvar_bytes (nat n)"
| "value_bytes (VDouble x) = tag_byte Double # f64_bytes x"
| "value_bytes (VStr s) = tag_byte Str # uvar_bytes (length (utf8_encode s)) @ utf8_encode s"
| "value_bytes (VBool b) = [tag_byte Bool, if b then 1 else 0]"
| "value_bytes (VUuid s) = tag_byte Uuid # uuidToBytes s"
| "value_bytes (VBytes b) = tag_byte Bytes # uvar_bytes (length b) @ b"

definition bool_byte :: "bool \<Rightarrow> bytes" where
  "bool_byte b = [if b then 1 else 0]"

definition datom_bytes :: "datom \<Rightarrow> bytes" where
  "datom_bytes d = uvar_bytes (nat (d_e d)) @ uvar_bytes (nat (d_a d)) @ value_bytes (d_v d) @
     uvar_bytes (nat (d_t d)) @ bool_byte (d_op d)"

text \<open>Lengths that a length prefix can carry; no JavaScript array or string is longer.\<close>

fun value_short :: "tagged_value \<Rightarrow> bool" where
  "value_short (VStr s) = (length (utf8_encode s) < 2 ^ 53)"
| "value_short (VBytes b) = (length b < 2 ^ 53)"
| "value_short v = True"

definition value_storable :: "tagged_value \<Rightarrow> bool" where
  "value_storable v \<longleftrightarrow> value_ok v \<and> value_text_ok v \<and> value_short v"

definition datom_storable :: "datom \<Rightarrow> bool" where
  "datom_storable d \<longleftrightarrow> datom_ok d \<and> value_text_ok (d_v d) \<and> value_short (d_v d)"

lemma datom_storable_value: "datom_storable d \<Longrightarrow> value_storable (d_v d)"
  by (auto simp: datom_storable_def value_storable_def datom_ok_def)

lemma tag_appends: "writer_ok w \<Longrightarrow> appends w [tag_byte t] (w_u8 (tag_code t) w)"
  using w_u8_appends [of w "tag_code t"] by (cases t) (simp_all add: tag_byte_def)

lemma writes_tag: "writer_ok w \<Longrightarrow> writes (w_u8 (tag_code t) w) bs r \<Longrightarrow> writes w (tag_byte t # bs) r"
  using writes_Inr_bind [OF tag_appends [of w t], of bs r] by simp

lemma tag_ok: "writer_ok w \<Longrightarrow> writer_ok (w_u8 (tag_code t) w)"
  by (rule appends_ok [OF tag_appends])

lemma bool_appends: "writer_ok w \<Longrightarrow> appends w (bool_byte b) (w_u8 (if b then 1 else 0) w)"
  using w_u8_appends [of w 1] w_u8_appends [of w 0] by (cases b) (simp_all add: bool_byte_def)

lemma writeValue_writes:
  assumes w: "writer_ok w" and v: "value_storable v"
  shows "writes w (value_bytes v) (writeValue v w)"
proof -
  note ok = tag_ok [OF w]
  have vo: "value_ok v" "value_short v" using v by (simp_all add: value_storable_def)
  show ?thesis
  proof (cases v)
    case (VLong n)
    show ?thesis unfolding VLong writeValue.simps value_bytes.simps
      using vo VLong by (intro writes_tag [OF w] w_svar_writes ok) simp
  next
    case (VInst n)
    show ?thesis unfolding VInst writeValue.simps value_bytes.simps
      using vo VInst by (intro writes_tag [OF w] w_svar_writes ok) simp
  next
    case (VRef n)
    show ?thesis unfolding VRef writeValue.simps value_bytes.simps
      using vo VRef by (intro writes_tag [OF w] w_uvar_writes ok) simp_all
  next
    case (VDouble x)
    show ?thesis unfolding VDouble writeValue.simps value_bytes.simps
      by (intro writes_tag [OF w] writes_Inr w_f64_appends ok)
  next
    case (VStr s)
    show ?thesis unfolding VStr writeValue.simps value_bytes.simps w_str_def
      using vo VStr by (intro writes_tag [OF w] w_lbytes_writes ok) simp
  next
    case (VBool b)
    show ?thesis unfolding VBool writeValue.simps value_bytes.simps
      by (intro writes_tag [OF w] writes_Inr bool_appends [unfolded bool_byte_def] ok)
  next
    case (VUuid s)
    show ?thesis unfolding VUuid writeValue.simps value_bytes.simps
      by (intro writes_tag [OF w] writes_Inr w_bytes_appends ok)
  next
    case (VBytes b)
    show ?thesis unfolding VBytes writeValue.simps value_bytes.simps
      using vo VBytes by (intro writes_tag [OF w] w_lbytes_writes ok) simp
  qed
qed

lemma reads_value: "value_storable v \<Longrightarrow> reads readValue (value_bytes v) v"
proof -
  assume v: "value_storable v"
  have tag: "reads readValue (tag_byte t # bs) x" if "reads (case t of
      Long \<Rightarrow> rd_bind r_svar (\<lambda>n. rd_return (VLong n))
    | Inst \<Rightarrow> rd_bind r_svar (\<lambda>n. rd_return (VInst n))
    | Ref \<Rightarrow> rd_bind r_uvar (\<lambda>n. rd_return (VRef (int n)))
    | Double \<Rightarrow> rd_bind r_f64 (\<lambda>x. rd_return (VDouble x))
    | Str \<Rightarrow> rd_bind r_str (\<lambda>s. rd_return (VStr s))
    | Bool \<Rightarrow> rd_bind r_u8 (\<lambda>b. rd_return (VBool (b \<noteq> 0)))
    | Uuid \<Rightarrow> rd_bind (r_bytes 16) (\<lambda>b. rd_bind (rd_lift (bytesToUuid b 0)) (\<lambda>u. rd_return (VUuid u)))
    | Bytes \<Rightarrow> rd_bind r_lbytes (\<lambda>b. rd_return (VBytes b))) bs x" for t bs x
  proof -
    have "reads readValue ([tag_byte t] @ bs) x"
      unfolding readValue_def
      by (rule reads_bind [OF reads_u8]) (use that in \<open>cases t; simp add: tag_of_code_def\<close>)
    then show ?thesis by simp
  qed
  show ?thesis
  proof (cases v)
    case (VLong n)
    then show ?thesis using v reads_bind_return [OF reads_svar [of n], of VLong] by (auto simp: value_storable_def intro!: tag)
  next
    case (VInst n)
    then show ?thesis using v reads_bind_return [OF reads_svar [of n], of VInst] by (auto simp: value_storable_def intro!: tag)
  next
    case (VRef n)
    then have n: "0 \<le> n" "nat n \<le> 2 ^ 53" using v by (auto simp: value_storable_def safe_int_def MAX_ID_def nat_le_iff)
    then show ?thesis using VRef reads_bind_return [OF reads_uvar [OF n(2)], of "\<lambda>n. VRef (int n)"] by (auto intro!: tag)
  next
    case (VDouble x)
    then show ?thesis using reads_bind_return [OF reads_f64 [of x], of VDouble] by (auto intro!: tag)
  next
    case (VStr s)
    then show ?thesis using v reads_bind_return [OF reads_str [of s], of VStr] by (auto simp: value_storable_def intro!: tag)
  next
    case (VBool b)
    then show ?thesis using reads_bind_return [OF reads_u8 [of "if b then 1 else 0"], of "\<lambda>b. VBool (b \<noteq> 0)"]
      by (cases b) (auto intro!: tag)
  next
    case (VUuid s)
    then have "uuid_pattern s" using v by (simp add: value_storable_def)
    then have u: "reads (rd_lift (bytesToUuid (uuidToBytes s) 0)) [] s"
      using bytesToUuid_uuidToBytes [of s "[]" 0 "[]"] by (simp add: rd_lift_def reads_def)
    have "reads (rd_bind (r_bytes 16) (\<lambda>b. rd_bind (rd_lift (bytesToUuid b 0)) (\<lambda>u. rd_return (VUuid u))))
        (uuidToBytes s @ []) (VUuid s)"
      by (rule reads_bind [where x = "uuidToBytes s"], use reads_bytes [of "uuidToBytes s"] in simp,
          rule reads_bind_return [OF u])
    then show ?thesis using VUuid by (auto intro!: tag)
  next
    case (VBytes b)
    then show ?thesis using v reads_bind_return [OF reads_lbytes [of b], of VBytes]
      by (auto simp: value_storable_def intro!: tag)
  qed
qed

text \<open>A run of writes, one per element, and the repeated read that inverts it.\<close>

fun w_each :: "('a \<Rightarrow> writer \<Rightarrow> writer res) \<Rightarrow> 'a list \<Rightarrow> writer \<Rightarrow> writer res" where
  "w_each f [] w = Inr w"
| "w_each f (x # xs) w = rbind (f x w) (w_each f xs)"

lemma writes_nil: "writer_ok w \<Longrightarrow> writes w [] (Inr w)"
  by (simp add: writes_def appends_def)

lemma w_each_writes:
  assumes "\<And>x w. x \<in> set xs \<Longrightarrow> writer_ok w \<Longrightarrow> writes w (g x) (f x w)" and "writer_ok w"
  shows "writes w (concat (map g xs)) (w_each f xs w)"
  using assms
proof (induction xs arbitrary: w)
  case (Cons x xs)
  have "writes w (g x @ concat (map g xs)) (rbind (f x w) (w_each f xs))"
    by (rule writes_bind) (use Cons in auto)
  then show ?case by simp
qed (simp add: writes_nil)

lemma reads_each:
  assumes "\<And>x. x \<in> set xs \<Longrightarrow> reads m (g x) (h x)" and "n = length xs"
  shows "reads (rd_repeat n m) (concat (map g xs)) (map h xs)"
proof -
  have "list_all2 (reads m) (map g xs) (map h xs)"
    using assms(1) by (auto simp: list_all2_map1 list_all2_map2 intro!: list.rel_refl_strong)
  then show ?thesis using reads_repeat [of m "map g xs" "map h xs"] assms(2) by simp
qed

lemma writeDatom_writes:
  assumes "writer_ok w" "datom_storable d"
  shows "writes w (datom_bytes d) (writeDatom d w)"
proof -
  have ids: "0 \<le> d_e d" "safe_int (d_e d)" "0 \<le> d_a d" "safe_int (d_a d)" "0 \<le> d_t d" "safe_int (d_t d)"
    using assms(2) by (auto simp: datom_storable_def datom_ok_def id_ok_def safe_int_def)
  show ?thesis
    unfolding writeDatom_def datom_bytes_def
    using assms ids
    by (intro writes_bind w_uvar_writes writeValue_writes datom_storable_value writes_Inr bool_appends) assumption+
qed

lemma reads_id: "id_ok n \<Longrightarrow> reads r_uvar (uvar_bytes (nat n)) (nat n)"
  by (rule reads_uvar) (simp add: id_ok_def MAX_ID_def nat_le_iff)

lemma reads_datom:
  assumes "datom_storable d"
  shows "reads readDatom (datom_bytes d) d"
proof -
  have ids: "id_ok (d_e d)" "id_ok (d_a d)" "id_ok (d_t d)"
    using assms by (auto simp: datom_storable_def datom_ok_def)
  then have "0 \<le> d_e d" "0 \<le> d_a d" "0 \<le> d_t d" by (simp_all add: id_ok_def)
  then have d: "\<lparr>d_e = int (nat (d_e d)), d_a = int (nat (d_a d)), d_v = d_v d, d_t = int (nat (d_t d)),
      d_op = (unat (if d_op d then 1 else 0 :: 8 word) \<noteq> 0)\<rparr> = d" by simp
  have op: "reads r_u8 (bool_byte (d_op d)) (unat (if d_op d then 1 else 0 :: 8 word))"
    unfolding bool_byte_def by (rule reads_u8)
  have "reads readDatom (uvar_bytes (nat (d_e d)) @ uvar_bytes (nat (d_a d)) @ value_bytes (d_v d) @
      uvar_bytes (nat (d_t d)) @ bool_byte (d_op d))
      \<lparr>d_e = int (nat (d_e d)), d_a = int (nat (d_a d)), d_v = d_v d, d_t = int (nat (d_t d)),
       d_op = (unat (if d_op d then 1 else 0 :: 8 word) \<noteq> 0)\<rparr>"
    unfolding readDatom_def
    by (rule reads_bind [OF reads_id [OF ids(1)]], rule reads_bind [OF reads_id [OF ids(2)]],
        rule reads_bind [OF reads_value [OF datom_storable_value [OF assms]]],
        rule reads_bind [OF reads_id [OF ids(3)]], rule reads_bind_return [OF op])
  then show ?thesis unfolding datom_bytes_def d .
qed

section \<open>Segments\<close>

definition MAGIC :: nat where
  "MAGIC = 0x52534731"

fun index_code :: "index \<Rightarrow> nat" where
  "index_code EAVT = 0"
| "index_code AEVT = 1"
| "index_code AVET = 2"
| "index_code VAET = 3"

text \<open>The delta columns.\<close>

fun w_deltas :: "int \<Rightarrow> int list \<Rightarrow> writer \<Rightarrow> writer res" where
  "w_deltas prev [] w = Inr w"
| "w_deltas prev (x # xs) w = rbind (w_svar (fint (x - prev)) w) (w_deltas x xs)"

fun r_deltas :: "nat \<Rightarrow> int \<Rightarrow> int list rd" where
  "r_deltas 0 prev = rd_return []"
| "r_deltas (Suc n) prev = rd_bind r_svar (\<lambda>d. let x = fint (prev + d)
     in rd_bind (r_deltas n x) (\<lambda>xs. rd_return (x # xs)))"

text \<open>The bit-packed column: \<open>b |= 1 << j\<close> for each of up to eight datoms.\<close>

fun op_bits :: "nat \<Rightarrow> 8 word \<Rightarrow> bool list \<Rightarrow> 8 word" where
  "op_bits j b [] = b"
| "op_bits j b (p # ps) = op_bits (j + 1) (if p then b OR push_bit j 1 else b) ps"

function w_ops :: "bool list \<Rightarrow> writer \<Rightarrow> writer" where
  "w_ops ps w = (if ps = [] then w else w_ops (drop 8 ps) (w_u8 (unat (op_bits 0 0 (take 8 ps))) w))"
  by pat_completeness auto
termination
  by (relation "measure (\<lambda>(ps, w). length ps)") auto

declare w_ops.simps [simp del]

function r_ops :: "nat \<Rightarrow> bool list rd" where
  "r_ops n = (if n = 0 then rd_return []
     else rd_bind r_u8 (\<lambda>b. rd_bind (r_ops (n - 8)) (\<lambda>ps. rd_return (map (bit b) [0..<min 8 n] @ ps))))"
  by pat_completeness auto
termination
  by (relation "measure id") auto

declare r_ops.simps [simp del]

definition encodeSegment :: "index \<Rightarrow> datom list \<Rightarrow> bytes res" where
  "encodeSegment i ds =
     (let n = length ds;
          w = w_u32 n (w_u8 (index_code i) (w_u32 MAGIC (ByteWriter (max 1024 (n * 24)))))
      in rbind (w_deltas 0 (map d_e ds) w) (\<lambda>w. rbind (w_each (\<lambda>d. w_uvar (d_a d)) ds w) (\<lambda>w.
         rbind (w_each (\<lambda>d. writeValue (d_v d)) ds w) (\<lambda>w. rbind (w_deltas 0 (map d_t ds) w) (\<lambda>w.
           Inr (w_finish (w_ops (map d_op ds) w)))))))"

definition decodeSegment :: "bytes \<Rightarrow> (nat \<times> datom list) res" where
  "decodeSegment buf = rmap fst (rd_bind r_u32 (\<lambda>m.
     if m \<noteq> MAGIC then rd_fail (Error ''bad segment magic'')
     else rd_bind r_u8 (\<lambda>index. rd_bind r_u32 (\<lambda>n. rd_bind (r_deltas n 0) (\<lambda>es.
       rd_bind (rd_repeat n r_uvar) (\<lambda>as. rd_bind (rd_repeat n readValue) (\<lambda>vs. rd_bind (r_deltas n 0) (\<lambda>ts.
         rd_bind (r_ops n) (\<lambda>ops. rd_return (index,
           map (\<lambda>k. \<lparr>d_e = es ! k, d_a = int (as ! k), d_v = vs ! k, d_t = ts ! k, d_op = ops ! k\<rparr>) [0..<n])))))))))
     (ByteReader buf 0))"

lemma bit_op_bits:
  "j + length ps \<le> 8 \<Longrightarrow> bit (op_bits j b ps) k \<longleftrightarrow> bit b k \<or> j \<le> k \<and> k < j + length ps \<and> ps ! (k - j)"
proof (induction j b ps rule: op_bits.induct)
  case (2 j b p ps)
  have b: "bit (if p then b OR push_bit j 1 else b) k \<longleftrightarrow> bit b k \<or> k = j \<and> p"
  proof -
    have "bit (push_bit j 1 :: 8 word) k \<longleftrightarrow> k = j"
      using "2.prems" unfolding bit_push_bit_iff by (auto simp: bit_1_iff)
    then show ?thesis by (auto simp: bit_or_iff)
  qed
  have IH: "bit (op_bits (j + 1) (if p then b OR push_bit j 1 else b) ps) k \<longleftrightarrow>
      bit (if p then b OR push_bit j 1 else b) k \<or> j + 1 \<le> k \<and> k < j + 1 + length ps \<and> ps ! (k - (j + 1))"
    using 2 by simp
  have "j < k \<Longrightarrow> (p # ps) ! (k - j) = ps ! (k - (j + 1))" by (simp add: nth_Cons')
  then show ?case
    unfolding op_bits.simps IH b by (cases k j rule: linorder_cases) auto
qed auto

text \<open>The bytes of the op column.\<close>

function ops_bytes :: "bool list \<Rightarrow> bytes" where
  "ops_bytes ps = (if ps = [] then [] else op_bits 0 0 (take 8 ps) # ops_bytes (drop 8 ps))"
  by pat_completeness auto
termination
  by (relation "measure length") auto

declare ops_bytes.simps [simp del]

lemma w_ops_appends: "writer_ok w \<Longrightarrow> appends w (ops_bytes ps) (w_ops ps w)"
proof (induction ps w rule: w_ops.induct)
  case (1 ps w)
  show ?case
  proof (cases "ps = []")
    case True
    then show ?thesis using 1 by (simp add: w_ops.simps ops_bytes.simps appends_def)
  next
    case False
    have "appends w [op_bits 0 0 (take 8 ps)] (w_u8 (unat (op_bits 0 0 (take 8 ps))) w)"
      using w_u8_appends [OF "1.prems" unat_byte [of "op_bits 0 0 (take 8 ps)"]] by simp
    from appends_trans [OF this "1.IH" [OF False appends_ok [OF this]]]
    show ?thesis using False by (simp add: w_ops.simps [of ps w] ops_bytes.simps [of ps])
  qed
qed

lemma reads_ops: "reads (r_ops (length ps)) (ops_bytes ps) ps"
proof (induction ps rule: ops_bytes.induct)
  case (1 ps)
  show ?case
  proof (cases "ps = []")
    case True
    then show ?thesis by (simp add: r_ops.simps ops_bytes.simps reads_return)
  next
    case False
    let ?b = "op_bits 0 0 (take 8 ps)"
    have bits: "map (bit (unat ?b)) [0..<min 8 (length ps)] = take 8 ps"
    proof (rule nth_equalityI)
      fix k assume k: "k < length (map (bit (unat ?b)) [0..<min 8 (length ps)])"
      then have "bit (unat ?b) k \<longleftrightarrow> bit ?b k" by (simp add: bit_unsigned_iff)
      then show "map (bit (unat ?b)) [0..<min 8 (length ps)] ! k = take 8 ps ! k"
        using k by (simp add: bit_op_bits)
    qed simp
    have IH: "reads (r_ops (length ps - 8)) (ops_bytes (drop 8 ps)) (drop 8 ps)" using "1.IH" [OF False] by simp
    have "reads (rd_bind r_u8 (\<lambda>b. rd_bind (r_ops (length ps - 8)) (\<lambda>qs. rd_return (map (bit b) [0..<min 8 (length ps)] @ qs))))
      ([?b] @ ops_bytes (drop 8 ps)) (map (bit (unat ?b)) [0..<min 8 (length ps)] @ drop 8 ps)"
      by (rule reads_bind [OF reads_u8]) (rule reads_bind_return [OF IH])
    then have "reads (rd_bind r_u8 (\<lambda>b. rd_bind (r_ops (length ps - 8)) (\<lambda>qs. rd_return (map (bit b) [0..<min 8 (length ps)] @ qs))))
      ([?b] @ ops_bytes (drop 8 ps)) ps"
      unfolding bits append_take_drop_id .
    then show ?thesis using False by (simp add: r_ops.simps [of "length ps"] ops_bytes.simps [of ps])
  qed
qed

fun deltas_bytes :: "int \<Rightarrow> int list \<Rightarrow> bytes" where
  "deltas_bytes prev [] = []"
| "deltas_bytes prev (x # xs) = svar_bytes (x - prev) @ deltas_bytes x xs"

lemma delta_safe: "id_ok a \<Longrightarrow> id_ok b \<Longrightarrow> safe_int (a - b) \<and> fint (a - b) = a - b \<and> fint a = a"
  by (auto simp: id_ok_def safe_int_def MAX_ID_def intro!: fint_small)

lemma w_deltas_writes: "writer_ok w \<Longrightarrow> id_ok prev \<Longrightarrow> \<forall>x\<in>set xs. id_ok x \<Longrightarrow>
    writes w (deltas_bytes prev xs) (w_deltas prev xs w)"
proof (induction xs arbitrary: w prev)
  case (Cons x xs)
  have "safe_int (x - prev)" "fint (x - prev) = x - prev" using delta_safe [of x prev] Cons.prems by auto
  then show ?case
    unfolding w_deltas.simps deltas_bytes.simps
    using Cons by (intro writes_bind) (auto intro: w_svar_writes)
qed (simp add: writes_nil)

lemma reads_deltas: "id_ok prev \<Longrightarrow> \<forall>x\<in>set xs. id_ok x \<Longrightarrow> reads (r_deltas (length xs) prev) (deltas_bytes prev xs) xs"
proof (induction xs arbitrary: prev)
  case (Cons x xs)
  have d: "safe_int (x - prev)" "fint (prev + (x - prev)) = x" using delta_safe [of x prev] Cons.prems by auto
  have IH: "reads (r_deltas (length xs) x) (deltas_bytes x xs) xs" using Cons by simp
  show ?case
    unfolding list.size deltas_bytes.simps add_0_right add_Suc_right r_deltas.simps
    by (rule reads_bind [OF reads_svar [OF d(1)]]) (simp only: Let_def d(2) reads_bind_return [OF IH])
qed (simp add: reads_return)

text \<open>The bytes of a segment.\<close>

definition segment_bytes :: "index \<Rightarrow> datom list \<Rightarrow> bytes" where
  "segment_bytes i ds = be32 (of_nat MAGIC) @ [of_nat (index_code i)] @ be32 (of_nat (length ds)) @
     deltas_bytes 0 (map d_e ds) @ concat (map (\<lambda>d. uvar_bytes (nat (d_a d))) ds) @
     concat (map (\<lambda>d. value_bytes (d_v d)) ds) @ deltas_bytes 0 (map d_t ds) @ ops_bytes (map d_op ds)"

lemma ids_of_storable: "datom_storable d \<Longrightarrow> id_ok (d_e d) \<and> id_ok (d_a d) \<and> id_ok (d_t d)"
  by (auto simp: datom_storable_def datom_ok_def)

lemma id_ok_0 [simp]: "id_ok 0"
  by (simp add: id_ok_def MAX_ID_def)

lemma writes_start: "writes w xs r \<Longrightarrow> w_finish w = pre \<Longrightarrow> \<exists>w'. r = Inr w' \<and> writer_ok w' \<and> w_finish w' = pre @ xs"
  by (auto simp: writes_def appends_def)

lemma rmap_rbind: "rmap f (rbind m g) = rbind m (\<lambda>x. rmap f (g x))"
  by (cases m) simp_all

lemma encodeSegment_bytes:
  assumes ds: "\<forall>d\<in>set ds. datom_storable d"
  shows "encodeSegment i ds = Inr (segment_bytes i ds)"
proof -
  let ?init = "ByteWriter (max 1024 (length ds * 24))"
  let ?w = "w_u32 (length ds) (w_u8 (index_code i) (w_u32 MAGIC ?init))"
  have ok: "writer_ok ?init" by (rule writer_ok_ByteWriter) simp
  note h1 = w_u32_appends [OF ok, of MAGIC]
  have h2: "appends (w_u32 MAGIC ?init) [of_nat (index_code i)] (w_u8 (index_code i) (w_u32 MAGIC ?init))"
    by (rule w_u8_appends [OF appends_ok [OF h1]]) (cases i; simp)
  note h3 = w_u32_appends [OF appends_ok [OF h2], of "length ds"]
  note head = appends_trans [OF appends_trans [OF h1 h2] h3]
  have okw: "writer_ok ?w" by (rule appends_ok [OF head])
  let ?F = "\<lambda>w. rbind (w_each (\<lambda>d. w_uvar (d_a d)) ds w) (\<lambda>w.
         rbind (w_each (\<lambda>d. writeValue (d_v d)) ds w) (\<lambda>w. rbind (w_deltas 0 (map d_t ds) w) (\<lambda>w.
           Inr (w_ops (map d_op ds) w))))"
  have "writes ?w (deltas_bytes 0 (map d_e ds) @ concat (map (\<lambda>d. uvar_bytes (nat (d_a d))) ds) @
      concat (map (\<lambda>d. value_bytes (d_v d)) ds) @ deltas_bytes 0 (map d_t ds) @ ops_bytes (map d_op ds))
      (rbind (w_deltas 0 (map d_e ds) ?w) ?F)"
  proof (intro writes_bind)
    show "writes ?w (deltas_bytes 0 (map d_e ds)) (w_deltas 0 (map d_e ds) ?w)"
      using okw ds ids_of_storable by (intro w_deltas_writes) auto
    show "writes w (concat (map (\<lambda>d. uvar_bytes (nat (d_a d))) ds)) (w_each (\<lambda>d. w_uvar (d_a d)) ds w)" if "writer_ok w" for w
      using that ds ids_of_storable by (intro w_each_writes w_uvar_writes) (auto simp: id_ok_def safe_int_def)
    show "writes w (concat (map (\<lambda>d. value_bytes (d_v d)) ds)) (w_each (\<lambda>d. writeValue (d_v d)) ds w)" if "writer_ok w" for w
      using that ds by (intro w_each_writes writeValue_writes datom_storable_value) auto
    show "writes w (deltas_bytes 0 (map d_t ds)) (w_deltas 0 (map d_t ds) w)" if "writer_ok w" for w
      using that ds ids_of_storable by (intro w_deltas_writes) auto
    show "writes w (ops_bytes (map d_op ds)) (Inr (w_ops (map d_op ds) w))" if "writer_ok w" for w
      using that by (intro writes_Inr w_ops_appends)
  qed
  then obtain w' where w': "rbind (w_deltas 0 (map d_e ds) ?w) ?F = Inr w'" "w_finish w' = w_finish ?w @
      (deltas_bytes 0 (map d_e ds) @ concat (map (\<lambda>d. uvar_bytes (nat (d_a d))) ds) @
      concat (map (\<lambda>d. value_bytes (d_v d)) ds) @ deltas_bytes 0 (map d_t ds) @ ops_bytes (map d_op ds))"
    by (auto simp: writes_def appends_def)
  have "encodeSegment i ds = rmap w_finish (rbind (w_deltas 0 (map d_e ds) ?w) ?F)"
    unfolding encodeSegment_def Let_def by (simp add: rmap_rbind)
  then show ?thesis
    using w' head writer_ok_ByteWriter(2) by (simp add: appends_def segment_bytes_def)
qed

lemma reads_run: "reads m bs x \<Longrightarrow> rmap fst (m (ByteReader (bs @ rest) 0)) = Inr x"
  using append_Nil unfolding reads_def by (metis fst_conv list.size(3) rmap.simps(2))

lemma unat_of_nat32: "n < 2 ^ 32 \<Longrightarrow> unat (of_nat n :: 32 word) = n"
  by (intro of_nat_inverse [OF refl]) simp

lemma decodeSegment_bytes:
  assumes ds: "\<forall>d\<in>set ds. datom_storable d" and n: "length ds < 2 ^ 32"
  shows "decodeSegment (segment_bytes i ds @ rest) = Inr (index_code i, ds)"
proof -
  let ?n = "length ds" let ?as = "map (\<lambda>d. nat (d_a d)) ds"
  have ids: "\<forall>x\<in>set (map d_e ds). id_ok x" "\<forall>x\<in>set (map d_t ds). id_ok x" "\<forall>d\<in>set ds. id_ok (d_a d)"
    using ds ids_of_storable by auto
  have m: "reads r_u32 (be32 (of_nat MAGIC)) MAGIC" "reads r_u32 (be32 (of_nat ?n)) ?n"
    using reads_u32 [of "of_nat MAGIC"] reads_u32 [of "of_nat ?n"] unat_of_nat32 [OF n] by (simp_all add: MAGIC_def)
  have i: "reads r_u8 [of_nat (index_code i)] (index_code i)"
    using reads_u8 [of "of_nat (index_code i)"] by (cases i) simp_all
  have e: "reads (r_deltas ?n 0) (deltas_bytes 0 (map d_e ds)) (map d_e ds)"
    using reads_deltas [OF id_ok_0 ids(1)] by simp
  have a: "reads (rd_repeat ?n r_uvar) (concat (map (\<lambda>d. uvar_bytes (nat (d_a d))) ds)) ?as"
    using ids(3) by (intro reads_each reads_id) auto
  have v: "reads (rd_repeat ?n readValue) (concat (map (\<lambda>d. value_bytes (d_v d)) ds)) (map d_v ds)"
    using ds by (intro reads_each reads_value datom_storable_value) auto
  have t: "reads (r_deltas ?n 0) (deltas_bytes 0 (map d_t ds)) (map d_t ds)"
    using reads_deltas [OF id_ok_0 ids(2)] by simp
  have p: "reads (r_ops ?n) (ops_bytes (map d_op ds)) (map d_op ds)"
    using reads_ops [of "map d_op ds"] by simp
  have res: "map (\<lambda>k. \<lparr>d_e = map d_e ds ! k, d_a = int (?as ! k), d_v = map d_v ds ! k, d_t = map d_t ds ! k,
      d_op = map d_op ds ! k\<rparr>) [0..<?n] = ds"
  proof (rule nth_equalityI)
    fix k assume "k < length (map (\<lambda>k. \<lparr>d_e = map d_e ds ! k, d_a = int (?as ! k), d_v = map d_v ds ! k,
      d_t = map d_t ds ! k, d_op = map d_op ds ! k\<rparr>) [0..<?n])"
    then have k: "k < ?n" by simp
    then have "0 \<le> d_a (ds ! k)" using ids(3) by (auto simp: id_ok_def)
    then show "map (\<lambda>k. \<lparr>d_e = map d_e ds ! k, d_a = int (?as ! k), d_v = map d_v ds ! k, d_t = map d_t ds ! k,
      d_op = map d_op ds ! k\<rparr>) [0..<?n] ! k = ds ! k" using k by simp
  qed simp
  let ?R = "\<lambda>n es as vs ts ops. map (\<lambda>k. \<lparr>d_e = es ! k, d_a = int (as ! k), d_v = vs ! k, d_t = ts ! k, d_op = ops ! k\<rparr>) [0..<n]"
  have "reads (rd_bind r_u32 (\<lambda>m. if m \<noteq> MAGIC then rd_fail (Error ''bad segment magic'')
     else rd_bind r_u8 (\<lambda>index. rd_bind r_u32 (\<lambda>n. rd_bind (r_deltas n 0) (\<lambda>es.
       rd_bind (rd_repeat n r_uvar) (\<lambda>as. rd_bind (rd_repeat n readValue) (\<lambda>vs. rd_bind (r_deltas n 0) (\<lambda>ts.
         rd_bind (r_ops n) (\<lambda>ops. rd_return (index, ?R n es as vs ts ops))))))))))
     (segment_bytes i ds) (index_code i, ?R ?n (map d_e ds) ?as (map d_v ds) (map d_t ds) (map d_op ds))"
    unfolding segment_bytes_def
    by (rule reads_bind [OF m(1)], simp only: simp_thms if_False,
        rule reads_bind [OF i], rule reads_bind [OF m(2)], rule reads_bind [OF e], rule reads_bind [OF a],
        rule reads_bind [OF v], rule reads_bind [OF t], rule reads_bind_return [OF p])
  from reads_run [OF this, of rest] show ?thesis
    unfolding decodeSegment_def res .
qed

section \<open>Nodes\<close>

definition DIR_MAGIC :: nat where
  "DIR_MAGIC = 0x52444E31"

fun kind_code :: "node_kind \<Rightarrow> nat" where
  "kind_code KLeaf = 0"
| "kind_code KDir = 1"

text \<open>The program only asks whether a kind is 0.\<close>

definition kind_of_code :: "nat \<Rightarrow> node_kind" where
  "kind_of_code n = (if n = 0 then KLeaf else KDir)"

definition writeChild :: "node_ref \<times> datom \<Rightarrow> writer \<Rightarrow> writer res" where
  "writeChild = (\<lambda>(r, k) w. rbind (w_uvar (int (r_count r)) (w_bytes (fromHex (r_hash r)) (w_u8 (kind_code (r_kind r)) w)))
     (writeDatom k))"

fun encodeNode :: "index \<Rightarrow> tree_node \<Rightarrow> bytes res" where
  "encodeNode i (LeafNode ds) = encodeSegment i ds"
| "encodeNode i (DirNode ks rs) =
     (if length ks < length rs then Inl (TypeError ''undefined key'')
      else
        let n = length rs; w = w_u32 n (w_u8 (index_code i) (w_u32 DIR_MAGIC (ByteWriter (n * 64 + 16))))
        in rmap w_finish (w_each writeChild (zip rs ks) w))"

definition readChild :: "(node_ref \<times> datom) rd" where
  "readChild = rd_bind r_u8 (\<lambda>kind. rd_bind (r_bytes 32) (\<lambda>hash. rd_bind r_uvar (\<lambda>count. rd_bind readDatom (\<lambda>key.
     rd_return (\<lparr>r_hash = toHex hash, r_kind = kind_of_code kind, r_count = count\<rparr>, key)))))"

definition decodeNode :: "bytes \<Rightarrow> (nat \<times> tree_node) res" where
  "decodeNode buf = rbind (r_u32 (ByteReader buf 0)) (\<lambda>(magic, r).
     if magic = DIR_MAGIC then
       rmap fst (rd_bind r_u8 (\<lambda>index. rd_bind r_u32 (\<lambda>n. rd_bind (rd_repeat n readChild) (\<lambda>cs.
         rd_return (index, DirNode (map snd cs) (map fst cs))))) r)
     else rmap (\<lambda>(index, ds). (index, LeafNode ds)) (decodeSegment buf))"

text \<open>References and nodes that the format can carry: 32-byte hashes and 32-bit counts of entries.\<close>

definition ref_storable :: "node_ref \<Rightarrow> bool" where
  "ref_storable r \<longleftrightarrow> (\<exists>b. length b = 32 \<and> r_hash r = toHex b) \<and> r_count r < 2 ^ 53"

fun node_storable :: "tree_node \<Rightarrow> bool" where
  "node_storable (LeafNode ds) = (length ds < 2 ^ 32 \<and> (\<forall>d\<in>set ds. datom_storable d))"
| "node_storable (DirNode ks rs) = (length ks = length rs \<and> length rs < 2 ^ 32 \<and>
     (\<forall>d\<in>set ks. datom_storable d) \<and> (\<forall>r\<in>set rs. ref_storable r))"

definition child_bytes :: "node_ref \<times> datom \<Rightarrow> bytes" where
  "child_bytes = (\<lambda>(r, k). [of_nat (kind_code (r_kind r))] @ fromHex (r_hash r) @ uvar_bytes (r_count r) @ datom_bytes k)"

fun node_bytes :: "index \<Rightarrow> tree_node \<Rightarrow> bytes" where
  "node_bytes i (LeafNode ds) = segment_bytes i ds"
| "node_bytes i (DirNode ks rs) = be32 (of_nat DIR_MAGIC) @ [of_nat (index_code i)] @ be32 (of_nat (length rs)) @
     concat (map child_bytes (zip rs ks))"

lemma writeChild_writes:
  assumes "writer_ok w" "ref_storable r" "datom_storable k"
  shows "writes w (child_bytes (r, k)) (writeChild (r, k) w)"
proof -
  have h1: "appends w [of_nat (kind_code (r_kind r))] (w_u8 (kind_code (r_kind r)) w)"
    by (rule w_u8_appends [OF assms(1)]) (cases "r_kind r"; simp)
  note h = appends_trans [OF h1 w_bytes_appends [OF appends_ok [OF h1], of "fromHex (r_hash r)"]]
  have "safe_int (int (r_count r))" using assms(2) by (simp add: ref_storable_def safe_int_def MAX_ID_def)
  then have "writes (w_bytes (fromHex (r_hash r)) (w_u8 (kind_code (r_kind r)) w))
      (uvar_bytes (nat (int (r_count r))) @ datom_bytes k)
      (rbind (w_uvar (int (r_count r)) (w_bytes (fromHex (r_hash r)) (w_u8 (kind_code (r_kind r)) w))) (writeDatom k))"
    using appends_ok [OF h] assms(3) by (intro writes_bind w_uvar_writes writeDatom_writes) simp_all
  from writes_Inr_bind [OF h this] show ?thesis by (simp add: child_bytes_def writeChild_def)
qed

lemma reads_child:
  assumes "ref_storable r" "datom_storable k"
  shows "reads readChild (child_bytes (r, k)) (r, k)"
proof -
  obtain b where b: "length b = 32" "r_hash r = toHex b" and c: "r_count r < 2 ^ 53"
    using assms(1) by (auto simp: ref_storable_def)
  have k: "reads r_u8 [of_nat (kind_code (r_kind r))] (kind_code (r_kind r))"
    using reads_u8 [of "of_nat (kind_code (r_kind r))"] by (cases "r_kind r") simp_all
  have h: "reads (r_bytes 32) (fromHex (r_hash r)) b"
    using reads_bytes [of b] b by (simp add: fromHex_toHex)
  have n: "reads r_uvar (uvar_bytes (r_count r)) (r_count r)" using c by (intro reads_uvar) simp
  have e: "\<lparr>r_hash = toHex b, r_kind = kind_of_code (kind_code (r_kind r)), r_count = r_count r\<rparr> = r"
    using b by (cases "r_kind r") (simp_all add: kind_of_code_def)
  have "reads readChild (child_bytes (r, k))
      (\<lparr>r_hash = toHex b, r_kind = kind_of_code (kind_code (r_kind r)), r_count = r_count r\<rparr>, k)"
    unfolding readChild_def child_bytes_def prod.case
    by (rule reads_bind [OF k], rule reads_bind [OF h], rule reads_bind [OF n],
        rule reads_bind_return [OF reads_datom [OF assms(2)]])
  then show ?thesis unfolding e .
qed

lemma encodeNode_bytes: "node_storable nd \<Longrightarrow> encodeNode i nd = Inr (node_bytes i nd)"
proof (cases nd)
  case (LeafNode ds)
  then show "node_storable nd \<Longrightarrow> encodeNode i nd = Inr (node_bytes i nd)" by (simp add: encodeSegment_bytes)
next
  case (DirNode ks rs)
  assume "node_storable nd"
  then have nd: "length ks = length rs" "length rs < 2 ^ 32" "\<forall>d\<in>set ks. datom_storable d" "\<forall>r\<in>set rs. ref_storable r"
    using DirNode by simp_all
  let ?init = "ByteWriter (length rs * 64 + 16)"
  let ?w = "w_u32 (length rs) (w_u8 (index_code i) (w_u32 DIR_MAGIC ?init))"
  have ok: "writer_ok ?init" by (rule writer_ok_ByteWriter) simp
  note h1 = w_u32_appends [OF ok, of DIR_MAGIC]
  have h2: "appends (w_u32 DIR_MAGIC ?init) [of_nat (index_code i)] (w_u8 (index_code i) (w_u32 DIR_MAGIC ?init))"
    by (rule w_u8_appends [OF appends_ok [OF h1]]) (cases i; simp)
  note h3 = w_u32_appends [OF appends_ok [OF h2], of "length rs"]
  note head = appends_trans [OF appends_trans [OF h1 h2] h3]
  have "writes ?w (concat (map child_bytes (zip rs ks))) (w_each writeChild (zip rs ks) ?w)"
  proof (rule w_each_writes [OF _ appends_ok [OF head]])
    fix x w assume x: "x \<in> set (zip rs ks)" and w: "writer_ok w"
    obtain r k where rk: "x = (r, k)" by (cases x)
    then have "ref_storable r" "datom_storable k" using x nd by (auto dest: set_zip_leftD set_zip_rightD)
    then show "writes w (child_bytes x) (writeChild x w)" unfolding rk by (rule writeChild_writes [OF w])
  qed
  from writes_Inr_bind [OF head this] show ?thesis
    using DirNode nd writer_ok_ByteWriter(2) by (auto simp: writes_def appends_def)
qed

lemma r_u32_start: "r_u32 (ByteReader (be32 w @ rest) 0) = Inr (unat w, ByteReader (be32 w @ rest) 4)"
  using reads_u32 [of w] unfolding reads_def by (metis add_0 append_Nil length_be32 list.size(3))

lemma decodeNode_bytes: "node_storable nd \<Longrightarrow> decodeNode (node_bytes i nd) = Inr (index_code i, nd)"
proof (cases nd)
  case (LeafNode ds)
  assume "node_storable nd"
  then have ds: "\<forall>d\<in>set ds. datom_storable d" "length ds < 2 ^ 32" using LeafNode by simp_all
  have "r_u32 (ByteReader (segment_bytes i ds) 0) = Inr (MAGIC, ByteReader (segment_bytes i ds) 4)"
    unfolding segment_bytes_def r_u32_start by (simp add: MAGIC_def)
  moreover have "decodeSegment (segment_bytes i ds) = Inr (index_code i, ds)"
    using decodeSegment_bytes [OF ds, of i "[]"] by simp
  moreover have "MAGIC \<noteq> DIR_MAGIC" by (simp add: MAGIC_def DIR_MAGIC_def)
  ultimately show ?thesis using LeafNode by (simp add: decodeNode_def)
next
  case (DirNode ks rs)
  assume "node_storable nd"
  then have nd: "length ks = length rs" "length rs < 2 ^ 32" "\<forall>d\<in>set ks. datom_storable d" "\<forall>r\<in>set rs. ref_storable r"
    using DirNode by simp_all
  have m: "unat (of_nat DIR_MAGIC :: 32 word) = DIR_MAGIC" by (simp add: DIR_MAGIC_def)
  have i: "reads r_u8 [of_nat (index_code i)] (index_code i)"
    using reads_u8 [of "of_nat (index_code i)"] by (cases i) simp_all
  have n: "reads r_u32 (be32 (of_nat (length rs))) (length rs)"
    using reads_u32 [of "of_nat (length rs)"] unat_of_nat32 [OF nd(2)] by simp
  have c: "reads (rd_repeat (length rs) readChild) (concat (map child_bytes (zip rs ks))) (map id (zip rs ks))"
  proof (rule reads_each)
    fix x assume x: "x \<in> set (zip rs ks)"
    obtain r k where rk: "x = (r, k)" by (cases x)
    then have "ref_storable r" "datom_storable k" using x nd by (auto dest: set_zip_leftD set_zip_rightD)
    then show "reads readChild (child_bytes x) (id x)" unfolding rk id_apply by (rule reads_child)
  qed (simp add: nd)
  let ?M = "rd_bind r_u8 (\<lambda>index. rd_bind r_u32 (\<lambda>n. rd_bind (rd_repeat n readChild) (\<lambda>cs.
         rd_return (index, DirNode (map snd cs) (map fst cs)))))"
  let ?tail = "[of_nat (index_code i)] @ be32 (of_nat (length rs)) @ concat (map child_bytes (zip rs ks))"
  have body: "reads ?M ?tail (index_code i, DirNode (map snd (map id (zip rs ks))) (map fst (map id (zip rs ks))))"
    by (rule reads_bind [OF i], rule reads_bind [OF n], rule reads_bind_return [OF c])
  have "rmap fst (?M (ByteReader (be32 (of_nat DIR_MAGIC) @ ?tail) 4)) = Inr (index_code i, nd)"
    using body [unfolded reads_def, THEN spec, THEN spec, of "be32 (of_nat DIR_MAGIC)" "[]"] nd(1) DirNode
    by simp
  then show ?thesis using DirNode unfolding decodeNode_def node_bytes.simps
    by (simp add: r_u32_start m del: append_Cons)
qed

end
