(* ===== verification/JsMap.thy ===== *)
theory JsMap
  imports Main
begin

text \<open>
  The \<open>Map\<close> of the language: entries in insertion order. Setting a present key keeps its
  place, a new key goes to the end, and iteration follows the order.
\<close>

type_synonym ('k, 'v) jsmap = "('k \<times> 'v) list"

definition jm_get :: "('k, 'v) jsmap \<Rightarrow> 'k \<Rightarrow> 'v option" where
  "jm_get m k = map_of m k"

definition jm_has :: "('k, 'v) jsmap \<Rightarrow> 'k \<Rightarrow> bool" where
  "jm_has m k = (map_of m k \<noteq> None)"

fun jm_set :: "'k \<Rightarrow> 'v \<Rightarrow> ('k, 'v) jsmap \<Rightarrow> ('k, 'v) jsmap" where
  "jm_set k v [] = [(k, v)]"
| "jm_set k v ((k', v') # m) = (if k' = k then (k, v) # m else (k', v') # jm_set k v m)"

definition jm_delete :: "'k \<Rightarrow> ('k, 'v) jsmap \<Rightarrow> ('k, 'v) jsmap" where
  "jm_delete k m = filter (\<lambda>(k', v). k' \<noteq> k) m"

definition jm_ok :: "('k, 'v) jsmap \<Rightarrow> bool" where
  "jm_ok m \<longleftrightarrow> distinct (map fst m)"

lemma jm_get_Nil [simp]: "jm_get [] k = None"
  by (simp add: jm_get_def)

lemma jm_get_Cons [simp]: "jm_get ((k', v) # m) k = (if k = k' then Some v else jm_get m k)"
  by (simp add: jm_get_def)

lemma jm_has_iff: "jm_has m k \<longleftrightarrow> jm_get m k \<noteq> None"
  by (simp add: jm_has_def jm_get_def)

lemma jm_get_set [simp]: "jm_get (jm_set k v m) k' = (if k' = k then Some v else jm_get m k')"
  by (induction m) auto

lemma keys_jm_set: "fst ` set (jm_set k v m) = insert k (fst ` set m)"
  by (induction k v m rule: jm_set.induct) (simp_all add: insert_commute insert_absorb2)

lemma jm_ok_Nil [simp]: "jm_ok []"
  by (simp add: jm_ok_def)

lemma jm_ok_set [simp, intro]: "jm_ok m \<Longrightarrow> jm_ok (jm_set k v m)"
  unfolding jm_ok_def using keys_jm_set [of k v] by (induction m) (auto simp: image_iff)

lemma jm_get_filter: "jm_ok m \<Longrightarrow> jm_get (filter (\<lambda>(k, v). P k) m) k = (if P k then jm_get m k else None)"
  by (induction m) (auto simp: jm_ok_def jm_get_def map_of_eq_None_iff)

lemma jm_get_delete [simp]: "jm_get (jm_delete k m) k' = (if k' = k then None else jm_get m k')"
  by (induction m) (auto simp: jm_delete_def)

lemma jm_ok_filter [simp, intro]: "jm_ok m \<Longrightarrow> jm_ok (filter P m)"
  unfolding jm_ok_def by (induction m) auto

lemma jm_ok_delete [simp, intro]: "jm_ok m \<Longrightarrow> jm_ok (jm_delete k m)"
  by (simp add: jm_delete_def)

lemma jm_get_mem: "jm_get m k = Some v \<Longrightarrow> (k, v) \<in> set m"
  by (simp add: jm_get_def map_of_SomeD)

lemma jm_get_iff: "jm_ok m \<Longrightarrow> jm_get m k = Some v \<longleftrightarrow> (k, v) \<in> set m"
  by (simp add: jm_get_def jm_ok_def)

lemma jm_get_None: "jm_get m k = None \<longleftrightarrow> k \<notin> fst ` set m"
  by (simp add: jm_get_def map_of_eq_None_iff)

lemma length_jm_set: "length (jm_set k v m) = (if jm_has m k then length m else Suc (length m))"
  by (induction m) (auto simp: jm_has_def)

lemma jm_get_tl: "jm_ok m \<Longrightarrow> jm_get (tl m) k = Some v \<Longrightarrow> jm_get m k = Some v"
  by (cases m) (auto simp: jm_ok_def jm_get_def dest: map_of_SomeD intro: rev_image_eqI)

end
