(* ===== verification/Store.thy ===== *)
theory Store
  imports TreeWrite Segments JsMap
begin

text \<open>
  The node stores of \<open>internal/core/store.ts\<close>. \<open>MemStore\<close> keeps the compressed bodies of
  nodes by the hash of the body, and a cache of decoded nodes; \<open>CachingSource\<close> is an LRU
  cache in front of a source. The compression of a codec and the digest are library
  functions, so they are arguments; what is relied on is that decompression inverts
  compression and that a digest prints 32 bytes. \<open>MemStore\<close> satisfies the contract
  \<open>node_store\<close>, and a garbage collection that keeps what \<open>reachable\<close> finds keeps the tree.
\<close>

section \<open>Serialisation\<close>

definition identity_compress :: "bytes \<Rightarrow> bytes" where
  "identity_compress d = d"

definition identity_decompress :: "bytes \<Rightarrow> bytes res" where
  "identity_decompress d = Inr d"

definition objectKey :: "node_kind \<Rightarrow> string \<Rightarrow> string" where
  "objectKey k h = (if k = KLeaf then ''seg/'' else ''n/'') @ h"

definition serializeNode :: "(bytes \<Rightarrow> bytes) \<Rightarrow> (bytes \<Rightarrow> string) \<Rightarrow> index \<Rightarrow> tree_node \<Rightarrow> (node_ref \<times> bytes) res" where
  "serializeNode compress sha i nd = rbind (encodeNode i nd) (\<lambda>raw.
     let body = compress raw; hash = sha body
     in Inr (\<lparr>r_hash = hash, r_kind = kind_of nd, r_count = countOf nd\<rparr>, body))"

definition deserializeNode :: "(bytes \<Rightarrow> bytes res) \<Rightarrow> bytes \<Rightarrow> tree_node res" where
  "deserializeNode decompress body = rbind (decompress body) (\<lambda>raw. rmap snd (decodeNode raw))"

section \<open>\<open>MemStore\<close>\<close>

record mem_store =
  ms_nodes :: "string \<rightharpoonup> tree_node"
  ms_bodies :: "(string, bytes) jsmap"
  ms_puts :: nat
  ms_objects :: nat
  ms_loads :: nat
  ms_bytes :: nat
  ms_keepDecoded :: bool

definition MemStore :: "bool \<Rightarrow> mem_store" where
  "MemStore keep = \<lparr>ms_nodes = Map.empty, ms_bodies = [], ms_puts = 0, ms_objects = 0, ms_loads = 0,
     ms_bytes = 0, ms_keepDecoded = keep\<rparr>"

definition MemStore_peek :: "mem_store \<Rightarrow> string \<Rightarrow> tree_node option" where
  "MemStore_peek s h = ms_nodes s h"

definition MemStore_load :: "(bytes \<Rightarrow> bytes res) \<Rightarrow> mem_store \<Rightarrow> node_ref \<Rightarrow> tree_node res \<times> mem_store" where
  "MemStore_load decompress s r =
     (let s = s\<lparr>ms_loads := ms_loads s + 1\<rparr>
      in case ms_nodes s (r_hash r) of
           Some n \<Rightarrow> (Inr n, s)
         | None \<Rightarrow>
             (case jm_get (ms_bodies s) (r_hash r) of
                None \<Rightarrow> (Inl (Error ''MemStore: missing node''), s)
              | Some body \<Rightarrow>
                  (case deserializeNode decompress body of
                     Inl e \<Rightarrow> (Inl e, s)
                   | Inr n \<Rightarrow> (Inr n, if ms_keepDecoded s then s\<lparr>ms_nodes := (ms_nodes s)(r_hash r \<mapsto> n)\<rparr> else s))))"

text \<open>A \<open>put\<close> that throws has only counted itself; its result is the error.\<close>

definition MemStore_put :: "(bytes \<Rightarrow> bytes) \<Rightarrow> (bytes \<Rightarrow> string) \<Rightarrow> mem_store put" where
  "MemStore_put compress sha s i nd =
     (let s = s\<lparr>ms_puts := ms_puts s + 1\<rparr>
      in rbind (serializeNode compress sha i nd) (\<lambda>(r, body).
           let s' = (if jm_has (ms_bodies s) (r_hash r) then s
                     else s\<lparr>ms_bodies := jm_set (r_hash r) body (ms_bodies s), ms_objects := ms_objects s + 1,
                            ms_bytes := ms_bytes s + length body\<rparr>)
           in Inr (r, if ms_keepDecoded s' then s'\<lparr>ms_nodes := (ms_nodes s')(r_hash r \<mapsto> nd)\<rparr> else s')))"

definition MemStore_evictDecoded :: "mem_store \<Rightarrow> mem_store" where
  "MemStore_evictDecoded s = s\<lparr>ms_nodes := Map.empty\<rparr>"

definition MemStore_sweep :: "mem_store \<Rightarrow> (string \<Rightarrow> bool) \<Rightarrow> nat \<times> mem_store" where
  "MemStore_sweep s keep =
     (let gone = filter (\<lambda>(h, b). \<not> keep h) (ms_bodies s);
          s' = s\<lparr>ms_bodies := filter (\<lambda>(h, b). keep h) (ms_bodies s),
                 ms_nodes := foldl (\<lambda>m (h, b). m(h := None)) (ms_nodes s) gone\<rparr>
      in (length gone, s'\<lparr>ms_objects := length (ms_bodies s')\<rparr>))"

text \<open>
  What can be read from the store: a decoded node, or the decoding of its body. Loading
  yields exactly this and does not change it.
\<close>

definition mem_read :: "(bytes \<Rightarrow> bytes res) \<Rightarrow> tree_node option \<Rightarrow> bytes option \<Rightarrow> tree_node option" where
  "mem_read decompress decoded body =
     (case decoded of
        Some n \<Rightarrow> Some n
      | None \<Rightarrow> (case body of
            None \<Rightarrow> None
          | Some b \<Rightarrow> (case deserializeNode decompress b of Inl e \<Rightarrow> None | Inr n \<Rightarrow> Some n)))"

definition mem_get :: "(bytes \<Rightarrow> bytes res) \<Rightarrow> mem_store \<Rightarrow> node_source" where
  "mem_get decompress s h = mem_read decompress (ms_nodes s h) (jm_get (ms_bodies s) h)"

lemma mem_read_simps [simp]:
  "mem_read d (Some n) bo = Some n" "mem_read d None None = None"
  "mem_read d None (Some b) = (case deserializeNode d b of Inl e \<Rightarrow> None | Inr n \<Rightarrow> Some n)"
  by (simp_all add: mem_read_def)

text \<open>
  The store as the tree code uses it up to a hash collision: two different bodies with
  one hash are reported instead of the first one being kept.
\<close>

definition mem_put :: "(bytes \<Rightarrow> bytes) \<Rightarrow> (bytes \<Rightarrow> string) \<Rightarrow> mem_store put" where
  "mem_put compress sha s i nd = rbind (serializeNode compress sha i nd) (\<lambda>(r, body).
     if jm_get (ms_bodies s) (r_hash r) \<notin> {None, Some body} then collision
     else MemStore_put compress sha s i nd)"

text \<open>What is relied on of the codec and the digest.\<close>

definition codec_laws :: "(bytes \<Rightarrow> bytes) \<Rightarrow> (bytes \<Rightarrow> bytes res) \<Rightarrow> (bytes \<Rightarrow> string) \<Rightarrow> bool" where
  "codec_laws compress decompress sha \<longleftrightarrow> (\<forall>b. decompress (compress b) = Inr b) \<and>
     (\<forall>b. \<exists>h. length h = 32 \<and> sha b = toHex h)"

definition NODE_CAP :: nat where
  "NODE_CAP = 2 ^ 32 - 1"

text \<open>The representation invariant.\<close>

definition mem_inv :: "(bytes \<Rightarrow> bytes) \<Rightarrow> (bytes \<Rightarrow> bytes res) \<Rightarrow> (bytes \<Rightarrow> string) \<Rightarrow> mem_store \<Rightarrow> bool" where
  "mem_inv compress decompress sha s \<longleftrightarrow> codec_laws compress decompress sha \<and> jm_ok (ms_bodies s) \<and>
     dom (ms_nodes s) \<subseteq> fst ` set (ms_bodies s) \<and>
     (\<forall>(h, b) \<in> set (ms_bodies s). \<exists>i nd. node_ok NODE_CAP datom_storable ref_storable nd \<and>
        b = compress (node_bytes i nd) \<and> (\<forall>n. ms_nodes s h = Some n \<longrightarrow> n = nd))"

lemma node_ok_storable: "node_ok NODE_CAP datom_storable ref_storable nd \<Longrightarrow> node_storable nd"
  by (cases nd) (auto simp: NODE_CAP_def)

lemma deserialize_body:
  assumes "codec_laws compress decompress sha" "node_ok NODE_CAP datom_storable ref_storable nd"
  shows "deserializeNode decompress (compress (node_bytes i nd)) = Inr nd"
  using assms decodeNode_bytes [OF node_ok_storable] by (simp add: deserializeNode_def codec_laws_def)

lemma serialize_ok:
  "node_ok NODE_CAP datom_storable ref_storable nd \<Longrightarrow> serializeNode compress sha i nd =
    Inr (\<lparr>r_hash = sha (compress (node_bytes i nd)), r_kind = kind_of nd, r_count = countOf nd\<rparr>, compress (node_bytes i nd))"
  by (simp add: serializeNode_def encodeNode_bytes [OF node_ok_storable] Let_def)

lemma mem_inv_body:
  assumes "mem_inv compress decompress sha s" "jm_get (ms_bodies s) h = Some b"
  obtains i nd where "node_ok NODE_CAP datom_storable ref_storable nd" "b = compress (node_bytes i nd)"
    "mem_get decompress s h = Some nd"
proof -
  have laws: "codec_laws compress decompress sha" using assms(1) by (simp add: mem_inv_def)
  obtain i nd where nd: "node_ok NODE_CAP datom_storable ref_storable nd" "b = compress (node_bytes i nd)"
      "\<forall>n. ms_nodes s h = Some n \<longrightarrow> n = nd"
    using assms jm_get_mem [OF assms(2)] by (fastforce simp: mem_inv_def)
  then have "mem_get decompress s h = Some nd"
    using assms(2) deserialize_body [OF laws nd(1)] by (auto simp: mem_get_def mem_read_def split: option.splits)
  then show ?thesis using that nd by blast
qed

lemma mem_get_SomeD:
  assumes "mem_inv compress decompress sha s" "mem_get decompress s h = Some nd"
  obtains i where "node_ok NODE_CAP datom_storable ref_storable nd"
    "jm_get (ms_bodies s) h = Some (compress (node_bytes i nd))"
proof -
  have "jm_get (ms_bodies s) h \<noteq> None"
  proof (cases "ms_nodes s h")
    case None
    then show ?thesis using assms(2) by (auto simp: mem_get_def mem_read_def split: option.splits)
  next
    case (Some n)
    then have "h \<in> dom (ms_nodes s)" by blast
    then show ?thesis using assms(1) unfolding mem_inv_def jm_get_None by blast
  qed
  then obtain b where b: "jm_get (ms_bodies s) h = Some b" by blast
  then show ?thesis using mem_inv_body [OF assms(1) b] assms(2) that by (metis option.inject)
qed

lemma mem_put_result:
  assumes inv: "mem_inv compress decompress sha s" and nok: "node_ok NODE_CAP datom_storable ref_storable nd"
    and put: "mem_put compress sha s i nd = Inr (r, s')"
  shows "mem_inv compress decompress sha s' \<and> ref_storable r \<and> mem_get decompress s' (r_hash r) = Some nd \<and>
    r_kind r = kind_of nd \<and> r_count r = countOf nd \<and> mem_get decompress s \<subseteq>\<^sub>m mem_get decompress s'"
proof -
  have laws: "codec_laws compress decompress sha" using inv by (simp add: mem_inv_def)
  let ?body = "compress (node_bytes i nd)" let ?h = "sha ?body"
  have r: "r = \<lparr>r_hash = ?h, r_kind = kind_of nd, r_count = countOf nd\<rparr>"
    and nc: "jm_get (ms_bodies s) ?h \<in> {None, Some ?body}"
    using put by (auto simp: mem_put_def MemStore_put_def serialize_ok [OF nok] Let_def split: if_splits)
  have s': "ms_bodies s' = (if jm_has (ms_bodies s) ?h then ms_bodies s else jm_set ?h ?body (ms_bodies s))"
    "ms_nodes s' = (if ms_keepDecoded s then (ms_nodes s)(?h \<mapsto> nd) else ms_nodes s)"
    using put nc by (auto simp: mem_put_def MemStore_put_def serialize_ok [OF nok] Let_def)
  have b': "jm_get (ms_bodies s') = (jm_get (ms_bodies s))(?h \<mapsto> ?body)"
    using nc by (auto simp: s'(1) jm_has_iff fun_eq_iff)
  have old: "n = nd" if "ms_nodes s ?h = Some n" for n
  proof -
    have g: "mem_get decompress s ?h = Some n" using that by (simp add: mem_get_def)
    obtain j where j: "node_ok NODE_CAP datom_storable ref_storable n"
        "jm_get (ms_bodies s) ?h = Some (compress (node_bytes j n))" using mem_get_SomeD [OF inv g] .
    then have "compress (node_bytes j n) = ?body" using nc by simp
    then show ?thesis using deserialize_body [OF laws j(1), of j] deserialize_body [OF laws nok, of i] by simp
  qed
  have at_h: "mem_get decompress s' ?h = Some nd"
    using s'(2) b' deserialize_body [OF laws nok] old by (auto simp: mem_get_def mem_read_def split: option.splits)
  have keep: "mem_get decompress s' h = mem_get decompress s h" if "h \<noteq> ?h" for h
  proof -
    have e: "ms_nodes s' h = ms_nodes s h" "jm_get (ms_bodies s') h = jm_get (ms_bodies s) h"
      using that b' by (simp_all add: s'(2))
    show ?thesis unfolding mem_get_def e ..
  qed
  have mono: "mem_get decompress s \<subseteq>\<^sub>m mem_get decompress s'"
  proof -
    have "mem_get decompress s h = mem_get decompress s' h" if dm: "h \<in> dom (mem_get decompress s)" for h
    proof (cases "h = ?h")
      case True
      then obtain n where n: "mem_get decompress s ?h = Some n" using dm by auto
      obtain j where j: "node_ok NODE_CAP datom_storable ref_storable n"
          "jm_get (ms_bodies s) ?h = Some (compress (node_bytes j n))" using mem_get_SomeD [OF inv n] .
      then have "compress (node_bytes j n) = ?body" using nc by simp
      then have "n = nd" using deserialize_body [OF laws j(1), of j] deserialize_body [OF laws nok, of i] by simp
      then show ?thesis using True n at_h by simp
    qed (simp add: keep)
    then show ?thesis by (simp add: map_le_def)
  qed
  have ok': "jm_ok (ms_bodies s')" using inv by (simp add: s'(1) mem_inv_def)
  have "mem_inv compress decompress sha s'"
    unfolding mem_inv_def
  proof (intro conjI laws ok' ballI, goal_cases)
    case 1
    have "fst ` set (ms_bodies s) \<subseteq> fst ` set (ms_bodies s')" "?h \<in> fst ` set (ms_bodies s')"
      using b' by (auto simp: s'(1) keys_jm_set jm_has_iff jm_get_None)
    moreover have "dom (ms_nodes s') \<subseteq> insert ?h (dom (ms_nodes s))" by (auto simp: s'(2))
    moreover have "dom (ms_nodes s) \<subseteq> fst ` set (ms_bodies s)" using inv unfolding mem_inv_def by blast
    ultimately show ?case by blast
  next
    case (2 hb)
    obtain h b where hb: "hb = (h, b)" by (cases hb)
    then have g: "jm_get (ms_bodies s') h = Some b" using 2 ok' by (simp add: jm_get_iff)
    show ?case
    proof (cases "h = ?h")
      case True
      then have "b = ?body" using g b' by simp
      moreover have "\<forall>n. ms_nodes s' h = Some n \<longrightarrow> n = nd" using True s'(2) old by auto
      ultimately show ?thesis using hb nok by blast
    next
      case False
      then have "jm_get (ms_bodies s) h = Some b" "ms_nodes s' h = ms_nodes s h" using g b' s'(2) by simp_all
      then show ?thesis using hb inv jm_get_mem by (fastforce simp: mem_inv_def)
    qed
  qed
  moreover have "ref_storable r"
  proof -
    have "countOf nd < 2 ^ 53" using nok by (cases nd) (auto simp: NODE_CAP_def)
    then show ?thesis using laws by (auto simp: r ref_storable_def codec_laws_def)
  qed
  ultimately show ?thesis using r at_h mono by simp
qed

interpretation mem: node_store "mem_get decompress" "mem_put compress sha" "mem_inv compress decompress sha"
  ref_storable datom_storable NODE_CAP for compress decompress sha
proof (unfold_locales, goal_cases)
  case (1 s nd i)
  then show ?case by (auto simp: mem_put_def MemStore_put_def serialize_ok Let_def)
next
  case (2 s nd i r s')
  then show ?case by (rule mem_put_result)
next
  case (3 s h nd)
  then show ?case using mem_get_SomeD by blast
qed

section \<open>Loading, eviction and the trees they keep readable\<close>

lemma mem_state_cong:
  assumes "ms_nodes s' = ms_nodes s" "ms_bodies s' = ms_bodies s"
  shows "mem_get decompress s' = mem_get decompress s" "mem_inv compress decompress sha s' = mem_inv compress decompress sha s"
  unfolding mem_get_def [abs_def] mem_inv_def assms by (rule refl)+

lemma MemStore_load_mem_get:
  assumes "mem_inv compress decompress sha s" "MemStore_load decompress s r = (res, s')"
  shows "mem_get decompress s' = mem_get decompress s" "mem_inv compress decompress sha s'"
    "getNode (mem_get decompress s) r = (case res of Inr n \<Rightarrow> Inr n | Inl e \<Rightarrow> Inl (Error ''missing node''))"
proof -
  have shape: "mem_get decompress s' = mem_get decompress s \<and> mem_inv compress decompress sha s' \<and>
    getNode (mem_get decompress s) r = (case res of Inr n \<Rightarrow> Inr n | Inl e \<Rightarrow> Inl (Error ''missing node''))"
  proof (cases "ms_nodes s (r_hash r)")
    case (Some n)
    then have "res = Inr n" "s' = s\<lparr>ms_loads := ms_loads s + 1\<rparr>"
      using assms(2) by (simp_all add: MemStore_load_def Let_def)
    moreover have "mem_get decompress s (r_hash r) = Some n" using Some by (simp add: mem_get_def)
    ultimately show ?thesis using assms(1) mem_state_cong [of s' s] by (simp add: getNode_def)
  next
    case None
    show ?thesis
    proof (cases "jm_get (ms_bodies s) (r_hash r)")
      case None': None
      then have "res = Inl (Error ''MemStore: missing node'')" "s' = s\<lparr>ms_loads := ms_loads s + 1\<rparr>"
        using assms(2) None by (simp_all add: MemStore_load_def Let_def)
      moreover have "mem_get decompress s (r_hash r) = None" using None None' by (simp add: mem_get_def)
      ultimately show ?thesis using assms(1) mem_state_cong [of s' s] by (simp add: getNode_def)
    next
      case (Some b)
      obtain i nd where nd: "node_ok NODE_CAP datom_storable ref_storable nd" "b = compress (node_bytes i nd)"
          "mem_get decompress s (r_hash r) = Some nd" using mem_inv_body [OF assms(1) Some] .
      have laws: "codec_laws compress decompress sha" using assms(1) by (simp add: mem_inv_def)
      have d: "deserializeNode decompress b = Inr nd" using deserialize_body [OF laws nd(1)] nd(2) by simp
      have s': "s' = (if ms_keepDecoded s then s\<lparr>ms_loads := ms_loads s + 1, ms_nodes := (ms_nodes s)(r_hash r \<mapsto> nd)\<rparr>
          else s\<lparr>ms_loads := ms_loads s + 1\<rparr>)" "res = Inr nd"
        using assms(2) None Some d by (auto simp: MemStore_load_def Let_def split: if_splits)
      have bodies: "ms_bodies s' = ms_bodies s" by (simp add: s'(1))
      have "mem_get decompress s' h = mem_get decompress s h" for h
      proof (cases "h = r_hash r \<and> ms_keepDecoded s")
        case True
        then show ?thesis using nd(3) by (simp add: s'(1) mem_get_def)
      next
        case False
        then have "ms_nodes s' h = ms_nodes s h" by (auto simp: s'(1))
        then show ?thesis by (simp add: mem_get_def bodies)
      qed
      moreover have "mem_inv compress decompress sha s'"
        unfolding mem_inv_def
      proof (intro conjI laws ballI, goal_cases)
        case 1
        then show ?case using assms(1) by (simp add: s'(1) mem_inv_def)
      next
        case 2
        have "r_hash r \<in> fst ` set (ms_bodies s)" using jm_get_mem [OF Some] by force
        then show ?case using assms(1) by (auto simp: s'(1) mem_inv_def)
      next
        case (3 hb)
        obtain h b' where hb: "hb = (h, b')" by (cases hb)
        show ?case
        proof (cases "h = r_hash r")
          case True
          have "jm_get (ms_bodies s) h = Some b'" using 3 hb assms(1) by (simp add: s'(1) mem_inv_def jm_get_iff split: if_splits)
          then have "b' = b" using True Some by simp
          then show ?thesis using hb nd True None by (auto simp: s'(1))
        next
          case False
          then show ?thesis using 3 hb assms(1) by (fastforce simp: s'(1) mem_inv_def split: if_splits)
        qed
      qed
      ultimately show ?thesis using nd(3) s'(2) by (auto simp: getNode_def)
    qed
  qed
  then show "mem_get decompress s' = mem_get decompress s" "mem_inv compress decompress sha s'"
    "getNode (mem_get decompress s) r = (case res of Inr n \<Rightarrow> Inr n | Inl e \<Rightarrow> Inl (Error ''missing node''))"
    by blast+
qed

lemma evictDecoded_mem_get:
  assumes "mem_inv compress decompress sha s"
  shows "mem_get decompress (MemStore_evictDecoded s) = mem_get decompress s"
proof
  fix h
  show "mem_get decompress (MemStore_evictDecoded s) h = mem_get decompress s h"
  proof (cases "jm_get (ms_bodies s) h")
    case None
    then have "ms_nodes s h = None" using assms by (auto simp: mem_inv_def jm_get_None)
    then show ?thesis using None by (simp add: mem_get_def MemStore_evictDecoded_def)
  next
    case (Some b)
    obtain i nd where nd: "node_ok NODE_CAP datom_storable ref_storable nd" "b = compress (node_bytes i nd)"
        "mem_get decompress s h = Some nd" using mem_inv_body [OF assms Some] .
    have laws: "codec_laws compress decompress sha" using assms by (simp add: mem_inv_def)
    have "deserializeNode decompress b = Inr nd" using deserialize_body [OF laws nd(1)] nd(2) by simp
    then show ?thesis using nd(3) Some by (simp add: mem_get_def MemStore_evictDecoded_def)
  qed
qed

lemma foldl_delete: "foldl (\<lambda>m (h, b). m(h := None)) f xs h = (if h \<in> fst ` set xs then None else f h)"
  by (induction xs arbitrary: f) (auto simp: rev_image_eqI)

lemma sweep_mem_get:
  assumes "mem_inv compress decompress sha s"
  shows "mem_get decompress (snd (MemStore_sweep s keep)) h = (if keep h then mem_get decompress s h else None)"
proof -
  have ok: "jm_ok (ms_bodies s)" using assms by (simp add: mem_inv_def)
  have b: "jm_get (ms_bodies (snd (MemStore_sweep s keep))) h = (if keep h then jm_get (ms_bodies s) h else None)"
    using jm_get_filter [OF ok] by (simp add: MemStore_sweep_def Let_def)
  have "ms_nodes s h \<noteq> None \<Longrightarrow> h \<in> fst ` set (ms_bodies s)" using assms by (auto simp: mem_inv_def)
  then have "h \<notin> fst ` set (ms_bodies s) \<Longrightarrow> ms_nodes s h = None" by blast
  moreover have "h \<in> fst ` set (filter (\<lambda>(h, b). \<not> keep h) (ms_bodies s)) \<longleftrightarrow> h \<in> fst ` set (ms_bodies s) \<and> \<not> keep h"
    by force
  ultimately have n: "ms_nodes (snd (MemStore_sweep s keep)) h = (if keep h then ms_nodes s h else None)"
    by (simp add: MemStore_sweep_def Let_def foldl_delete)
  show ?thesis unfolding mem_get_def b n by (cases "keep h") simp_all
qed

section \<open>Garbage collection keeps what is reachable\<close>

definition child_hashes :: "node_source \<Rightarrow> string \<Rightarrow> string set" where
  "child_hashes src h = (case src h of Some (DirNode ks rs) \<Rightarrow> r_hash ` set rs | _ \<Rightarrow> {})"

text \<open>A set of hashes that contains the children of its nodes, up to a list of pending references.\<close>

definition closed_upto :: "node_source \<Rightarrow> node_ref list \<Rightarrow> string set \<Rightarrow> bool" where
  "closed_upto src stack K \<longleftrightarrow> (\<forall>h\<in>K. child_hashes src h \<subseteq> K \<union> r_hash ` set stack)"

lemma closed_upto_keep:
  "represents src r t \<Longrightarrow> r_hash r \<in> K \<Longrightarrow> closed_upto src [] K \<Longrightarrow>
   represents (\<lambda>h. if h \<in> K then src h else None) r t"
proof (induction rule: represents.induct)
  case (rep_leaf r ds)
  then show ?case by (intro represents.rep_leaf) simp_all
next
  case (rep_dir r kts rs)
  have "r_hash ` set rs \<subseteq> K" using rep_dir by (fastforce simp: closed_upto_def child_hashes_def)
  then have "list_all2 (\<lambda>r kt. represents (\<lambda>h. if h \<in> K then src h else None) r (snd kt)) rs kts"
    using rep_dir.IH rep_dir.prems(2) by (auto simp: list_all2_conv_all_nth image_subset_iff)
  then show ?case using rep_dir by (intro represents.rep_dir) simp_all
qed

text \<open>The marking loop ends and closes the set, when the pending references stand for trees.\<close>

lemma reachable_closed:
  "list_all2 (represents src) stack ts \<Longrightarrow> sum_list (map nodes ts) < n \<Longrightarrow> closed_upto src stack K \<Longrightarrow>
   \<exists>K'. reachable n src stack K = Inr K' \<and> closed_upto src [] K' \<and> K \<subseteq> K' \<and> r_hash ` set stack \<subseteq> K'"
proof (induction n arbitrary: stack ts K)
  case (Suc n)
  show ?case
  proof (cases stack)
    case Nil
    then show ?thesis using Suc.prems by simp
  next
    case (Cons r rest)
    then obtain t us where ts: "ts = t # us" and t: "represents src r t" and us: "list_all2 (represents src) rest us"
      using Suc.prems(1) by (auto simp: list_all2_Cons1)
    have n: "sum_list (map nodes us) < n" using Suc.prems(2) ts nodes_pos [of t] by simp
    show ?thesis
    proof (cases "r_hash r \<in> K")
      case True
      then have "closed_upto src rest K" using Suc.prems(3) Cons by (auto simp: closed_upto_def)
      from Suc.IH [OF us n this] obtain K' where "reachable n src rest K = Inr K'" "closed_upto src [] K'"
          "K \<subseteq> K'" "r_hash ` set rest \<subseteq> K'" by blast
      then show ?thesis using True Cons by auto
    next
      case new: False
      let ?K = "insert (r_hash r) K"
      show ?thesis
        using t
      proof (cases rule: represents.cases)
        case (rep_leaf ds)
        then have "closed_upto src rest ?K" using Suc.prems(3) Cons by (auto simp: closed_upto_def child_hashes_def)
        from Suc.IH [OF us n this] obtain K' where "reachable n src rest ?K = Inr K'" "closed_upto src [] K'"
            "?K \<subseteq> K'" "r_hash ` set rest \<subseteq> K'" by blast
        then show ?thesis using new Cons rep_leaf by (auto simp: Let_def)
      next
        case (rep_dir kts rs)
        have "list_all2 (represents src) rs (map snd kts)" using rep_dir(5) by (simp add: list_all2_map2)
        then have l: "list_all2 (represents src) (rev rs @ rest) (rev (map snd kts) @ us)"
          using us by (intro list_all2_appendI) (simp_all add: list_all2_rev)
        have "nodes t = Suc (sum_list (map nodes (map snd kts)))"
        proof -
          have "sum_list (map (\<lambda>(k, t). nodes t) kts) = sum_list (map nodes (map snd kts))" by (induction kts) auto
          then show ?thesis using rep_dir(1) by (simp add: children_nodes_def)
        qed
        then have m: "sum_list (map nodes (rev (map snd kts) @ us)) < n"
          using Suc.prems(2) ts by (simp add: rev_map [symmetric])
        have "child_hashes src (r_hash r) = r_hash ` set rs" using rep_dir(2) by (simp add: child_hashes_def)
        then have "closed_upto src (rev rs @ rest) ?K"
          using Suc.prems(3) Cons unfolding closed_upto_def set_append set_rev image_Un by auto
        from Suc.IH [OF l m this] obtain K' where "reachable n src (rev rs @ rest) ?K = Inr K'" "closed_upto src [] K'"
            "?K \<subseteq> K'" "r_hash ` set (rev rs @ rest) \<subseteq> K'" by blast
        then show ?thesis using new Cons rep_dir by (auto simp: Let_def getNode_def)
      qed
    qed
  qed
qed simp

lemma gc_keeps_tree:
  assumes inv: "mem_inv compress decompress sha s" and t: "represents (mem_get decompress s) root t" "nodes t < n"
    and K: "closed_upto (mem_get decompress s) [] into"
  shows "\<exists>K. reachable n (mem_get decompress s) [root] into = Inr K \<and>
    represents (mem_get decompress (snd (MemStore_sweep s (\<lambda>h. h \<in> K)))) root t"
proof -
  let ?src = "mem_get decompress s"
  have "closed_upto ?src [root] into" using K by (auto simp: closed_upto_def)
  then obtain K' where K': "reachable n ?src [root] into = Inr K'" "closed_upto ?src [] K'" "r_hash root \<in> K'"
    using reachable_closed [of ?src "[root]" "[t]" n into] t by auto
  have "mem_get decompress (snd (MemStore_sweep s (\<lambda>h. h \<in> K'))) = (\<lambda>h. if h \<in> K' then ?src h else None)"
    using sweep_mem_get [OF inv] by (simp add: fun_eq_iff)
  then show ?thesis using K' closed_upto_keep [OF t(1) K'(3,2)] by auto
qed

section \<open>\<open>CachingSource\<close>\<close>

record caching_source =
  cs_cache :: "(string, tree_node) jsmap"
  cs_hits :: nat
  cs_misses :: nat
  cs_maxNodes :: nat

definition CachingSource :: "nat \<Rightarrow> caching_source" where
  "CachingSource m = \<lparr>cs_cache = [], cs_hits = 0, cs_misses = 0, cs_maxNodes = m\<rparr>"

definition cs_remember :: "string \<Rightarrow> tree_node \<Rightarrow> caching_source \<Rightarrow> caching_source" where
  "cs_remember h n c =
     (let cache = jm_set h n (cs_cache c)
      in c\<lparr>cs_cache := (if length cache > cs_maxNodes c then tl cache else cache)\<rparr>)"

text \<open>The backing source is given by what its \<open>peek\<close> and its \<open>load\<close> return.\<close>

definition cs_peek :: "(string \<Rightarrow> tree_node option) \<Rightarrow> caching_source \<Rightarrow> string \<Rightarrow> tree_node option \<times> caching_source" where
  "cs_peek backing_peek c h =
     (case jm_get (cs_cache c) h of
        Some n \<Rightarrow> (Some n, c\<lparr>cs_hits := cs_hits c + 1, cs_cache := jm_set h n (jm_delete h (cs_cache c))\<rparr>)
      | None \<Rightarrow>
          (case backing_peek h of
             Some b \<Rightarrow> (Some b, cs_remember h b c)
           | None \<Rightarrow> (None, c)))"

definition cs_load ::
  "(string \<Rightarrow> tree_node option) \<Rightarrow> (node_ref \<Rightarrow> tree_node res) \<Rightarrow> caching_source \<Rightarrow> node_ref \<Rightarrow> tree_node res \<times> caching_source" where
  "cs_load backing_peek backing_load c r =
     (case cs_peek backing_peek c (r_hash r) of
        (Some n, c') \<Rightarrow> (Inr n, c')
      | (None, c') \<Rightarrow>
          (let c' = c'\<lparr>cs_misses := cs_misses c' + 1\<rparr>
           in case backing_load r of Inl e \<Rightarrow> (Inl e, c') | Inr n \<Rightarrow> (Inr n, cs_remember (r_hash r) n c')))"

text \<open>A backing source without \<open>put\<close> is read-only.\<close>

definition cs_put ::
  "('s put) option \<Rightarrow> 's \<Rightarrow> caching_source \<Rightarrow> index \<Rightarrow> tree_node \<Rightarrow> (node_ref \<times> 's \<times> caching_source) res" where
  "cs_put backing_put s c i nd =
     (case backing_put of
        None \<Rightarrow> Inl (Error ''CachingSource: backing source is read-only'')
      | Some put \<Rightarrow> rbind (put s i nd) (\<lambda>(r, s'). Inr (r, s', cs_remember (r_hash r) nd c)))"

text \<open>The cache only holds what the source holds, and never more than its bound.\<close>

definition cs_inv :: "node_source \<Rightarrow> caching_source \<Rightarrow> bool" where
  "cs_inv src c \<longleftrightarrow> jm_ok (cs_cache c) \<and> length (cs_cache c) \<le> cs_maxNodes c \<and> jm_get (cs_cache c) \<subseteq>\<^sub>m src"

lemma cs_inv_remember:
  assumes "cs_inv src c" "src h = Some n"
  shows "cs_inv src (cs_remember h n c)"
proof -
  let ?m = "jm_set h n (cs_cache c)"
  have ok: "jm_ok ?m" using assms(1) by (simp add: cs_inv_def)
  have sub: "jm_get ?m \<subseteq>\<^sub>m src" using assms by (auto simp: cs_inv_def map_le_def dom_def)
  have "jm_get (tl ?m) \<subseteq>\<^sub>m jm_get ?m" unfolding map_le_def using jm_get_tl [OF ok] by (metis domD)
  then have "jm_get (tl ?m) \<subseteq>\<^sub>m src" using sub by (rule map_le_trans)
  moreover have "jm_ok (tl ?m)" using ok by (cases ?m) (auto simp: jm_ok_def)
  moreover have "length ?m \<le> Suc (cs_maxNodes c)" using assms(1) by (auto simp: cs_inv_def length_jm_set)
  ultimately show ?thesis using ok sub by (auto simp: cs_inv_def cs_remember_def Let_def)
qed

lemma cs_peek_transparent:
  assumes "cs_inv src c" "\<And>h n. backing_peek h = Some n \<Longrightarrow> src h = Some n" "cs_peek backing_peek c h = (res, c')"
  shows "cs_inv src c' \<and> (\<forall>n. res = Some n \<longrightarrow> src h = Some n)"
proof (cases "jm_get (cs_cache c) h")
  case (Some n)
  let ?m = "jm_set h n (jm_delete h (cs_cache c))"
  have ok: "jm_ok (cs_cache c)" using assms(1) by (simp add: cs_inv_def)
  have g: "jm_get ?m = jm_get (cs_cache c)" using Some ok by (auto simp: fun_eq_iff)
  have "length (jm_delete h (cs_cache c)) < length (cs_cache c)"
    using jm_get_mem [OF Some] unfolding jm_delete_def by (intro length_filter_less) auto
  then have "length ?m \<le> length (cs_cache c)" by (auto simp: length_jm_set)
  moreover have "src h = Some n" using assms(1) Some by (auto simp: cs_inv_def map_le_def dom_def)
  ultimately show ?thesis using assms(1,3) Some ok g by (auto simp: cs_inv_def cs_peek_def)
next
  case None
  show ?thesis
  proof (cases "backing_peek h")
    case None': None
    then show ?thesis using assms(1,3) None by (simp add: cs_peek_def)
  next
    case (Some n)
    then show ?thesis
      using assms(3) None cs_inv_remember [OF assms(1) assms(2) [OF Some]] assms(2) [OF Some]
      by (auto simp: cs_peek_def)
  qed
qed

lemma cs_load_transparent:
  assumes "cs_inv src c" "\<And>h n. backing_peek h = Some n \<Longrightarrow> src h = Some n"
    "\<And>r. backing_load r = getNode src r" "cs_load backing_peek backing_load c r = (res, c')"
  shows "cs_inv src c' \<and> res = getNode src r"
proof -
  obtain p c1 where p: "cs_peek backing_peek c (r_hash r) = (p, c1)" by (cases "cs_peek backing_peek c (r_hash r)")
  note P = cs_peek_transparent [OF assms(1) assms(2) p]
  show ?thesis
  proof (cases p)
    case (Some n)
    then show ?thesis using P assms(4) p by (auto simp: cs_load_def getNode_def)
  next
    case None
    have c1: "cs_inv src (c1\<lparr>cs_misses := cs_misses c1 + 1\<rparr>)" using P by (simp add: cs_inv_def)
    show ?thesis
    proof (cases "src (r_hash r)")
      case None': None
      then show ?thesis using c1 assms(3,4) p None by (auto simp: cs_load_def getNode_def Let_def)
    next
      case (Some n)
      then show ?thesis
        using cs_inv_remember [OF c1 Some] assms(3,4) p None by (auto simp: cs_load_def getNode_def Let_def)
    qed
  qed
qed

end
