(* ===== verification/TreeCount.thy ===== *)
theory TreeCount
  imports SegTree
begin

text \<open>
  The cardinality estimate of \<open>internal/core/tree.ts\<close>: \<open>estimateCount\<close> walks at most two
  paths and adds the counts stored in references. On a well-formed tree it is exact.
\<close>

section \<open>Definitions\<close>

text \<open>The children whose ranges can intersect the prefix: the first and the last.\<close>

definition locate :: "index \<Rightarrow> datom list \<Rightarrow> prefix \<Rightarrow> nat \<times> nat" where
  "locate i keys p =
     (let first = childForPrefix i keys p;
          lo = bisect (\<lambda>mid. comparePrefix i (keys ! mid) p \<le> 0) first (length keys)
      in (first, max first (lo - 1)))"

text \<open>The last child whose key is not past the prefix.\<close>

definition lastChild :: "index \<Rightarrow> datom list \<Rightarrow> prefix \<Rightarrow> nat" where
  "lastChild i keys p =
     bisect (\<lambda>mid. comparePrefix i (keys ! mid) p \<le> 0) 0 (length keys) - 1"

definition refs_count :: "node_ref list \<Rightarrow> nat" where
  "refs_count rs = sum_list (map r_count rs)"

definition ref_at :: "node_ref list \<Rightarrow> nat \<Rightarrow> node_ref res" where
  "ref_at rs j = (if j < length rs then Inr (rs ! j) else Inl (TypeError ''undefined reference''))"

fun count_left :: "nat \<Rightarrow> node_source \<Rightarrow> index \<Rightarrow> prefix \<Rightarrow> node_ref \<Rightarrow> nat res" where
  "count_left 0 src i p r = Inl Diverges"
| "count_left (Suc n) src i p r =
     rbind (getNode src r) (\<lambda>node. case node of
       LeafNode ds \<Rightarrow> Inr (length ds - lowerBound i ds p)
     | DirNode ks rs \<Rightarrow>
         (let c = childForPrefix i ks p
          in rbind (ref_at rs c) (\<lambda>r'.
             rmap ((+) (refs_count (drop (c + 1) rs))) (count_left n src i p r'))))"

fun count_right :: "nat \<Rightarrow> node_source \<Rightarrow> index \<Rightarrow> prefix \<Rightarrow> node_ref \<Rightarrow> nat res" where
  "count_right 0 src i p r = Inl Diverges"
| "count_right (Suc n) src i p r =
     rbind (getNode src r) (\<lambda>node. case node of
       LeafNode ds \<Rightarrow> Inr (upperBound i ds p)
     | DirNode ks rs \<Rightarrow>
         (let c = lastChild i ks p
          in rbind (ref_at rs c) (\<lambda>r'.
             rmap ((+) (refs_count (take c rs))) (count_right n src i p r'))))"

fun estimateCount :: "nat \<Rightarrow> node_source \<Rightarrow> index \<Rightarrow> node_ref \<Rightarrow> prefix \<Rightarrow> nat res" where
  "estimateCount 0 src i r p = Inl Diverges"
| "estimateCount (Suc n) src i r p =
     rbind (getNode src r) (\<lambda>node. case node of
       LeafNode ds \<Rightarrow> Inr (upperBound i ds p - lowerBound i ds p)
     | DirNode ks rs \<Rightarrow>
         (let (li, ri) = locate i ks p
          in if li = ri then rbind (ref_at rs li) (\<lambda>r'. estimateCount n src i r' p)
             else rbind (ref_at rs li) (\<lambda>lref. rbind (count_left n src i p lref) (\<lambda>l.
               rbind (ref_at rs ri) (\<lambda>rref. rbind (count_right n src i p rref) (\<lambda>r'.
                 Inr (refs_count (take (ri - (li + 1)) (drop (li + 1) rs)) + l + r')))))))"

section \<open>Exactness\<close>

definition matches :: "index \<Rightarrow> prefix \<Rightarrow> datom list \<Rightarrow> nat" where
  "matches i p ds = length (filter (matching i p) ds)"

lemma matches_simps [simp]:
  "matches i p [] = 0" "matches i p (xs @ ys) = matches i p xs + matches i p ys"
  by (simp_all add: matches_def)

lemma matches_below: "\<forall>d\<in>set xs. below i p d \<Longrightarrow> matches i p xs = 0"
  by (simp add: matches_def filter_matching_below)

lemma matches_past: "\<forall>d\<in>set xs. \<not> upto_end i p d \<Longrightarrow> matches i p xs = 0"
  by (force simp: matches_def filter_empty_conv)

lemma matches_all: "\<forall>d\<in>set xs. \<not> below i p d \<and> upto_end i p d \<Longrightarrow> matches i p xs = length xs"
  by (simp add: matches_def) (metis (mono_tags, lifting) filter_True order_antisym_conv not_less)

lemma refs_count_children:
  "list_all2 (\<lambda>r kt. represents src r (snd kt)) rs kts \<Longrightarrow> refs_count rs = length (children_datoms kts)"
proof (induction rs kts rule: list_all2_induct)
  case (Cons r rs kt kts)
  have "r_count r = length (contents (snd kt))"
    using Cons.hyps(1) by (cases rule: represents.cases) auto
  then show ?case using Cons.IH by (cases kt) (simp add: refs_count_def)
qed (simp add: refs_count_def)

lemma dir_child:
  assumes "represents src r (ADir kts)" and "wf_tree (ADir kts)" and "j < length kts"
    and "index_sorted i (children_datoms kts)"
  obtains rs k t where "getNode src r = Inr (DirNode (map fst kts) rs)"
    and "list_all2 (\<lambda>r kt. represents src r (snd kt)) rs kts"
    and "kts ! j = (k, t)" and "kts = take j kts @ (k, t) # drop (Suc j) kts"
    and "represents src (rs ! j) t" and "ref_at rs j = Inr (rs ! j)" and "wf_tree t"
    and "k = hd (contents t)" and "children_wf (take j kts)" and "children_wf (drop (Suc j) kts)"
    and "children_datoms kts = children_datoms (take j kts) @ contents t @ children_datoms (drop (Suc j) kts)"
    and "nodes t < nodes (ADir kts)" and "(k, t) \<in> set kts"
proof -
  obtain rs where rs: "src (r_hash r) = Some (DirNode (map fst kts) rs)"
    and reps: "list_all2 (\<lambda>r kt. represents src r (snd kt)) rs kts"
    using assms(1) by (auto elim!: represents_dirE)
  obtain k t where kt: "kts ! j = (k, t)" "kts = take j kts @ (k, t) # drop (Suc j) kts"
    using split_child [OF assms(3)] by metis
  have len: "length rs = length kts" using reps by (rule list_all2_lengthD)
  have rep: "represents src (rs ! j) t" using list_all2_nthD [OF reps, of j] assms(3) len kt(1) by simp
  have wf: "children_wf (take j kts)" "wf_tree t" "k = hd (contents t)" "children_wf (drop (Suc j) kts)"
    using assms(2) kt(2) by (metis children_wf_append(1,2) wf_tree_ADir)+
  have split: "children_datoms kts =
      children_datoms (take j kts) @ contents t @ children_datoms (drop (Suc j) kts)"
    using arg_cong [OF kt(2), of children_datoms] by simp
  have "nodes t < nodes (ADir kts)" using arg_cong [OF kt(2), of children_nodes] by simp
  moreover have "(k, t) \<in> set kts" using kt(1) assms(3) by (metis nth_mem)
  ultimately show ?thesis
    using that [of rs k t] rs reps kt rep wf split len assms(3) by (simp add: getNode_def ref_at_def)
qed

text \<open>Where a child's key is past the prefix, or not past it, so is everything after, or before.\<close>

lemma children_past:
  assumes "children_wf kts" "index_sorted i (children_datoms kts)" "prefix_ok p"
    "kts \<noteq> [] \<Longrightarrow> \<not> upto_end i p (fst (hd kts))"
  shows "\<forall>d\<in>set (children_datoms kts). \<not> upto_end i p d"
proof (cases kts)
  case (Cons kt kts')
  obtain k t where kt: "kt = (k, t)" by (cases kt)
  obtain x xs where x: "contents t = x # xs" "k = x"
    using assms(1) Cons kt wf_tree_nonempty by (cases "contents t") auto
  have past: "\<not> upto_end i p x" using assms(4) Cons kt x by simp
  have sorted: "datom_ok x" "\<forall>d\<in>set xs \<union> set (children_datoms kts'). comparatorFor i x d < 0 \<and> datom_ok d"
    using assms(2) Cons kt x by (auto simp: index_sorted_def)
  have "\<not> upto_end i p d" if "d \<in> set xs \<union> set (children_datoms kts')" for d
    using idx.pcmp_pos_mono [of x d p i] sorted that assms(3) past by (auto simp: not_le intro: less_imp_le)
  then show ?thesis using Cons kt x past by auto
qed simp

lemma before_key_upto:
  assumes "index_sorted i (xs @ ys)" "ys \<noteq> []" "prefix_ok p" "upto_end i p (hd ys)"
  shows "\<forall>d\<in>set xs. upto_end i p d"
proof
  fix d assume d: "d \<in> set xs"
  then have "datom_ok d" "datom_ok (hd ys)" "comparatorFor i d (hd ys) \<le> 0"
    using assms(1,2) by (auto simp: index_sorted_def strictly_sorted_append intro: less_imp_le)
  then show "upto_end i p d"
    using idx.pcmp_pos_mono [of d "hd ys" p i] assms(3,4) by (meson not_less)
qed

lemma lastChild_spec:
  assumes "index_sorted i ks" "prefix_ok p" "ks \<noteq> []"
  defines "j \<equiv> lastChild i ks p"
  shows "j < length ks" and "0 < j \<Longrightarrow> upto_end i p (ks ! j)"
    and "\<And>m. j < m \<Longrightarrow> m < length ks \<Longrightarrow> \<not> upto_end i p (ks ! m)"
proof -
  define lo where "lo = length (takeWhile (upto_end i p) ks)"
  have j: "j = lo - 1"
    using upperBound_takeWhile [OF assms(1,2)] unfolding j_def lastChild_def upperBound_def lo_def
    by simp
  have lo: "lo \<le> length ks" by (simp add: lo_def length_takeWhile_le)
  have "0 < length ks" using assms(3) by simp
  then show "j < length ks" using j lo by linarith
  show "upto_end i p (ks ! j)" if "0 < j"
  proof -
    have "j < lo" using that j by simp
    then show ?thesis using nth_mem [of j "takeWhile (upto_end i p) ks"] set_takeWhileD
      by (metis lo_def takeWhile_nth)
  qed
  show "\<not> upto_end i p (ks ! m)" if m: "j < m" "m < length ks" for m
  proof -
    have "lo \<le> m" using m j by simp
    moreover have "\<not> upto_end i p (ks ! lo)" if "lo < length ks"
      using that nth_length_takeWhile [of "upto_end i p" ks] by (simp add: lo_def)
    ultimately show ?thesis
      using initial_on_nth [OF initial_upto [OF assms(1,2)]] m by (meson le_less_trans)
  qed
qed

lemma locate_spec:
  assumes "index_sorted i ks" "prefix_ok p" "ks \<noteq> []" "locate i ks p = (a, b)"
  shows "a = childForPrefix i ks p" and "a \<le> b" and "b < length ks"
    and "a < b \<Longrightarrow> upto_end i p (ks ! b)"
    and "\<And>m. b < m \<Longrightarrow> m < length ks \<Longrightarrow> \<not> upto_end i p (ks ! m)"
proof -
  define lo where "lo = bisect (\<lambda>mid. upto_end i p (ks ! mid)) a (length ks)"
  show a: "a = childForPrefix i ks p" using assms(4) by (simp add: locate_def Let_def)
  have b: "b = max a (lo - 1)" using assms(4) a by (simp add: locate_def Let_def lo_def)
  have alen: "a < length ks" using childForPrefix_spec(1) [OF assms(1-3)] a by simp
  have "a \<le> lo \<and> lo \<le> length ks \<and> (\<forall>m. a \<le> m \<and> m < lo \<longrightarrow> upto_end i p (ks ! m)) \<and>
      (\<forall>m. lo \<le> m \<and> m < length ks \<longrightarrow> \<not> upto_end i p (ks ! m))"
    unfolding lo_def
    by (rule bisect_spec) (use alen in simp, blast intro: initial_on_nth [OF initial_upto [OF assms(1,2)]])
  then have lo: "a \<le> lo" "lo \<le> length ks" "\<And>m. a \<le> m \<Longrightarrow> m < lo \<Longrightarrow> upto_end i p (ks ! m)"
    "\<And>m. lo \<le> m \<Longrightarrow> m < length ks \<Longrightarrow> \<not> upto_end i p (ks ! m)" by blast+
  show "a \<le> b" using b by simp
  show "b < length ks" using b lo(2) alen by linarith
  show "upto_end i p (ks ! b)" if "a < b" using that b lo(3) [of b] by linarith
  show "\<not> upto_end i p (ks ! m)" if "b < m" "m < length ks" for m
    using that b lo(4) [of m] by linarith
qed

lemma count_left_exact:
  assumes "represents src r t" "wf_tree t" "nodes t \<le> n" "index_sorted i (contents t)" "prefix_ok p"
    "\<forall>d\<in>set (contents t). upto_end i p d"
  shows "count_left n src i p r = Inr (matches i p (contents t))"
  using assms(1-4,6)
proof (induction t arbitrary: r n rule: atree.induct)
  case (ALeaf ds)
  then obtain m where "n = Suc m" by (cases n) auto
  moreover have "matches i p ds = length (filter (\<lambda>d. \<not> below i p d) ds)"
    using ALeaf.prems(5) unfolding matches_def by (intro arg_cong [where f = length] filter_cong) auto
  moreover have "length ds - lowerBound i ds p = length (filter (\<lambda>d. \<not> below i p d) ds)"
    using drop_lowerBound [of i ds p] ALeaf.prems(4) assms(5) by (metis contents.simps(1) length_drop)
  ultimately show ?case using ALeaf.prems(1) by (auto simp: getNode_def elim!: represents_leafE)
next
  case (ADir kts)
  obtain m where m: "n = Suc m" using ADir.prems(3) by (cases n) auto
  have wf: "children_wf kts" "kts \<noteq> []" and sorted: "index_sorted i (children_datoms kts)"
    using ADir.prems by auto
  define j where "j = childForPrefix i (map fst kts) p"
  note pick = childForPrefix_spec [OF keys_sorted [OF wf(1) sorted] assms(5), folded j_def]
  have j: "j < length kts" using pick(1) wf(2) by simp
  obtain rs k t where C: "getNode src r = Inr (DirNode (map fst kts) rs)"
    "list_all2 (\<lambda>r kt. represents src r (snd kt)) rs kts" "kts ! j = (k, t)"
    "represents src (rs ! j) t" "ref_at rs j = Inr (rs ! j)" "wf_tree t" "k = hd (contents t)"
    "children_wf (drop (Suc j) kts)" "(k, t) \<in> set kts" "nodes t < nodes (ADir kts)"
    "children_datoms kts = children_datoms (take j kts) @ contents t @ children_datoms (drop (Suc j) kts)"
    using dir_child [OF ADir.prems(1,2) j sorted] by metis
  have parts: "index_sorted i (contents t)" "index_sorted i (children_datoms (drop (Suc j) kts))"
    "\<forall>d\<in>set (contents t) \<union> set (children_datoms (drop (Suc j) kts)). upto_end i p d"
    using sorted ADir.prems(5) unfolding contents_ADir C(11) by (auto simp: index_sorted_append)
  have IH: "count_left m src i p (rs ! j) = Inr (matches i p (contents t))"
    using ADir.IH [of "(k, t)" t "rs ! j" m] C parts ADir.prems(3) m by auto
  have "\<forall>d\<in>set (children_datoms (take j kts)). below i p d"
  proof
    fix d assume d: "d \<in> set (children_datoms (take j kts))"
    then have "0 < j" by (cases j) auto
    then have "below i p (hd (contents t))" using pick(2) wf(2) j C(3,7) by simp
    then show "below i p d"
      using before_key_below [of i "children_datoms (take j kts)"
          "contents t @ children_datoms (drop (Suc j) kts)" p d]
        sorted C(11) wf_tree_nonempty [OF C(6)] assms(5) d by simp
  qed
  then have before: "matches i p (children_datoms (take j kts)) = 0" by (rule matches_below)
  have "\<not> below i p d" if d: "d \<in> set (children_datoms (drop (Suc j) kts))" for d
  proof (rule children_not_below [OF C(8) parts(2) assms(5) _ d])
    show "\<not> below i p (fst (hd (drop (Suc j) kts)))" if ne: "drop (Suc j) kts \<noteq> []"
      using pick(3) [of "Suc j"] wf(2) ne by (simp add: hd_drop_conv_nth)
  qed
  then have "matches i p (children_datoms (drop (Suc j) kts)) = length (children_datoms (drop (Suc j) kts))"
    using parts(3) by (intro matches_all) auto
  also have "\<dots> = refs_count (drop (j + 1) rs)"
    using refs_count_children [OF list_all2_dropI [OF C(2), of "j + 1"]] by simp
  finally show ?case
    using C(1,5) IH before m by (simp add: j_def [symmetric] C(11))
qed

lemma count_right_exact:
  assumes "represents src r t" "wf_tree t" "nodes t \<le> n" "index_sorted i (contents t)" "prefix_ok p"
    "\<forall>d\<in>set (contents t). \<not> below i p d"
  shows "count_right n src i p r = Inr (matches i p (contents t))"
  using assms(1-4,6)
proof (induction t arbitrary: r n rule: atree.induct)
  case (ALeaf ds)
  then obtain m where "n = Suc m" by (cases n) auto
  moreover have "matches i p ds = length (filter (upto_end i p) ds)"
    using ALeaf.prems(5) unfolding matches_def
    by (intro arg_cong [where f = length] filter_cong) (auto simp: not_less intro: order_antisym)
  moreover have "upperBound i ds p = length (filter (upto_end i p) ds)"
    using take_upperBound [of i ds p] upperBound_le_length [of i ds p] ALeaf.prems(4) assms(5)
    by (metis contents.simps(1) length_take min.absorb2)
  ultimately show ?case using ALeaf.prems(1) by (auto simp: getNode_def elim!: represents_leafE)
next
  case (ADir kts)
  obtain m where m: "n = Suc m" using ADir.prems(3) by (cases n) auto
  have wf: "children_wf kts" "kts \<noteq> []" and sorted: "index_sorted i (children_datoms kts)"
    using ADir.prems by auto
  define j where "j = lastChild i (map fst kts) p"
  note pick = lastChild_spec [OF keys_sorted [OF wf(1) sorted] assms(5), folded j_def]
  have j: "j < length kts" using pick(1) wf(2) by simp
  obtain rs k t where C: "getNode src r = Inr (DirNode (map fst kts) rs)"
    "list_all2 (\<lambda>r kt. represents src r (snd kt)) rs kts" "kts ! j = (k, t)"
    "represents src (rs ! j) t" "ref_at rs j = Inr (rs ! j)" "wf_tree t" "k = hd (contents t)"
    "children_wf (drop (Suc j) kts)" "(k, t) \<in> set kts" "nodes t < nodes (ADir kts)"
    "children_datoms kts = children_datoms (take j kts) @ contents t @ children_datoms (drop (Suc j) kts)"
    using dir_child [OF ADir.prems(1,2) j sorted] by metis
  have parts: "index_sorted i (contents t)" "index_sorted i (children_datoms (drop (Suc j) kts))"
    "\<forall>d\<in>set (children_datoms (take j kts)) \<union> set (contents t). \<not> below i p d"
    using sorted ADir.prems(5) unfolding contents_ADir C(11) by (auto simp: index_sorted_append)
  have IH: "count_right m src i p (rs ! j) = Inr (matches i p (contents t))"
    using ADir.IH [of "(k, t)" t "rs ! j" m] C parts ADir.prems(3) m by auto
  have "\<forall>d\<in>set (children_datoms (take j kts)). upto_end i p d"
  proof (cases "0 < j")
    case True
    then have "upto_end i p (hd (contents t))" using pick(2) wf(2) j C(3,7) by simp
    then show ?thesis
      using before_key_upto [of i "children_datoms (take j kts)"
          "contents t @ children_datoms (drop (Suc j) kts)" p]
        sorted C(11) wf_tree_nonempty [OF C(6)] assms(5) by simp
  qed simp
  then have "matches i p (children_datoms (take j kts)) = length (children_datoms (take j kts))"
    using parts(3) by (intro matches_all) auto
  also have "\<dots> = refs_count (take j rs)"
    using refs_count_children [OF list_all2_takeI [OF C(2), of j]] by simp
  finally have before: "matches i p (children_datoms (take j kts)) = refs_count (take j rs)" .
  have "\<forall>d\<in>set (children_datoms (drop (Suc j) kts)). \<not> upto_end i p d"
  proof (rule children_past [OF C(8) parts(2) assms(5)])
    show "\<not> upto_end i p (fst (hd (drop (Suc j) kts)))" if ne: "drop (Suc j) kts \<noteq> []"
      using pick(3) [of "Suc j"] wf(2) ne by (simp add: hd_drop_conv_nth)
  qed
  then have "matches i p (children_datoms (drop (Suc j) kts)) = 0" by (rule matches_past)
  with before show ?case
    using C(1,5) IH m by (simp add: j_def [symmetric] C(11))
qed

text \<open>The children strictly between the first and the last lie inside the prefix.\<close>

lemma middle_split:
  assumes "a < b" "b < length (xs :: 'a list)"
  shows "drop (Suc a) xs = take (b - Suc a) (drop (Suc a) xs) @ xs ! b # drop (Suc b) xs"
proof -
  have "drop (b - Suc a) (drop (Suc a) xs) = xs ! b # drop (Suc b) xs"
    using assms by (simp add: Cons_nth_drop_Suc)
  then show ?thesis by (metis append_take_drop_id)
qed

lemma estimateCount_wf:
  assumes "represents src r t" "wf_tree t" "nodes t < n" "index_sorted i (contents t)" "prefix_ok p"
  shows "estimateCount n src i r p = Inr (matches i p (contents t))"
  using assms(1-4)
proof (induction t arbitrary: r n rule: atree.induct)
  case (ALeaf ds)
  then obtain m where "n = Suc m" by (cases n) auto
  moreover have "matches i p ds = upperBound i ds p - lowerBound i ds p"
    using slice_bounds [of i ds p] ALeaf.prems(4) assms(5) upperBound_le_length [of i ds p]
    unfolding matches_def by (metis contents.simps(1) length_drop length_take min.absorb2)
  ultimately show ?case using ALeaf.prems(1) by (auto simp: getNode_def elim!: represents_leafE)
next
  case (ADir kts)
  obtain m where m: "n = Suc m" using ADir.prems(3) by (cases n) auto
  have wf: "children_wf kts" "kts \<noteq> []" and sorted: "index_sorted i (children_datoms kts)"
    using ADir.prems by auto
  note ks = keys_sorted [OF wf(1) sorted]
  obtain a b where ab: "locate i (map fst kts) p = (a, b)" by (cases "locate i (map fst kts) p")
  have ne: "map fst kts \<noteq> []" using wf(2) by simp
  note L = locate_spec [OF ks assms(5) ne ab]
  note F = childForPrefix_spec [OF ks assms(5) ne, folded L(1)]
  have a: "a < length kts" and b: "b < length kts" using F(1) L(3) wf(2) by simp_all
  let ?before = "children_datoms (take a kts)" and ?after = "children_datoms (drop (Suc b) kts)"
  obtain rs k t where C: "getNode src r = Inr (DirNode (map fst kts) rs)"
    "list_all2 (\<lambda>r kt. represents src r (snd kt)) rs kts" "kts ! a = (k, t)"
    "represents src (rs ! a) t" "ref_at rs a = Inr (rs ! a)" "wf_tree t" "k = hd (contents t)"
    "children_wf (drop (Suc a) kts)" "(k, t) \<in> set kts" "nodes t < nodes (ADir kts)"
    "children_datoms kts = ?before @ contents t @ children_datoms (drop (Suc a) kts)"
    using dir_child [OF ADir.prems(1,2) a sorted] by metis
  have sa: "index_sorted i (contents t)" "index_sorted i (children_datoms (drop (Suc a) kts))"
    using sorted unfolding C(11) by (auto simp: index_sorted_append)
  have "\<forall>d\<in>set ?before. below i p d"
  proof
    fix d assume d: "d \<in> set ?before"
    then have "0 < a" by (cases a) auto
    then have "below i p (hd (contents t))" using F(2) wf(2) a C(3,7) by simp
    then show "below i p d"
      using before_key_below [of i ?before "contents t @ children_datoms (drop (Suc a) kts)" p d]
        sorted C(11) wf_tree_nonempty [OF C(6)] assms(5) d by simp
  qed
  then have before: "matches i p ?before = 0" by (rule matches_below)
  have "\<forall>d\<in>set ?after. \<not> upto_end i p d"
  proof (rule children_past)
    show "children_wf (drop (Suc b) kts)" using wf(1) by (auto simp: children_wf_def dest: in_set_dropD)
    show "index_sorted i ?after"
      using sorted append_take_drop_id [of "Suc b" kts] children_simps(5) index_sorted_append by metis
    show "\<not> upto_end i p (fst (hd (drop (Suc b) kts)))" if ne: "drop (Suc b) kts \<noteq> []"
      using L(5) [of "Suc b"] wf(2) ne by (simp add: hd_drop_conv_nth)
  qed (rule assms(5))
  then have after: "matches i p ?after = 0" by (rule matches_past)
  show ?case
  proof (cases "a = b")
    case True
    have IH: "estimateCount m src i (rs ! a) p = Inr (matches i p (contents t))"
      using ADir.IH [of "(k, t)" t "rs ! a" m] C sa ADir.prems(3) m by auto
    then show ?thesis using C(1,5) ab True m before after by (simp add: C(11))
  next
    case False
    with L(2) wf(2) have lt: "a < b" by simp
    obtain kb tb where D: "kts ! b = (kb, tb)" "represents src (rs ! b) tb"
      "ref_at rs b = Inr (rs ! b)" "wf_tree tb" "kb = hd (contents tb)" "nodes tb < nodes (ADir kts)"
      using dir_child [OF ADir.prems(1,2) b sorted] C(1) by (metis Inr_inject tree_node.inject(2))
    let ?mid = "take (b - Suc a) (drop (Suc a) kts)"
    have later: "drop (Suc a) kts = ?mid @ (kb, tb) # drop (Suc b) kts"
      using middle_split [OF lt b] D(1) by simp
    have datoms: "children_datoms (drop (Suc a) kts) = children_datoms ?mid @ contents tb @ ?after"
      using arg_cong [OF later, of children_datoms] by simp
    have nb: "\<not> below i p d" if d: "d \<in> set (children_datoms (drop (Suc a) kts))" for d
    proof (rule children_not_below [OF C(8) sa(2) assms(5) _ d])
      show "\<not> below i p (fst (hd (drop (Suc a) kts)))" if ne: "drop (Suc a) kts \<noteq> []"
        using F(3) [of "Suc a"] wf(2) ne by (simp add: hd_drop_conv_nth)
    qed
    have "upto_end i p (hd (contents tb))" using L(4) lt wf(2) b D(1,5) by simp
    then have up: "\<forall>d\<in>set (contents t @ children_datoms ?mid). upto_end i p d"
      using before_key_upto [of i "contents t @ children_datoms ?mid" "contents tb @ ?after" p]
        sorted C(11) datoms wf_tree_nonempty [OF D(4)] assms(5) by (simp add: index_sorted_append)
    have "matches i p (children_datoms ?mid) = length (children_datoms ?mid)"
      using up nb datoms by (intro matches_all) auto
    also have "\<dots> = refs_count (take (b - (a + 1)) (drop (a + 1) rs))"
      using refs_count_children [OF list_all2_takeI [OF list_all2_dropI [OF C(2)]]] by simp
    finally have mid: "matches i p (children_datoms ?mid) = refs_count (take (b - (a + 1)) (drop (a + 1) rs))" .
    have "count_left m src i p (rs ! a) = Inr (matches i p (contents t))"
      using count_left_exact [OF C(4,6) _ sa(1) assms(5)] up C(10) ADir.prems(3) m by simp
    moreover have "count_right m src i p (rs ! b) = Inr (matches i p (contents tb))"
      using count_right_exact [OF D(2,4) _ _ assms(5)] nb datoms sa(2) D(6) ADir.prems(3) m
      by (simp add: index_sorted_append)
    ultimately show ?thesis
      using C(1,5) D(3) ab False m before after mid by (simp add: C(11) datoms)
  qed
qed

lemma estimateCount_exact:
  assumes "represents src r t" "wf_root i t" "nodes t < n" "prefix_ok p"
  shows "estimateCount n src i r p = Inr (length (filter (matching i p) (contents t)))"
proof (cases "wf_tree t")
  case True
  have "index_sorted i (contents t)" using assms(2) by (auto simp: wf_root_def index_sorted_def)
  then show ?thesis using estimateCount_wf [OF assms(1) True assms(3) _ assms(4)] by (simp add: matches_def)
next
  case False
  then have t: "t = ALeaf []" using assms(2) by (simp add: wf_root_def)
  moreover obtain m where "n = Suc m" using assms(3) by (cases n) auto
  moreover have "upperBound i [] p = 0" "lowerBound i [] p = 0"
    by (simp_all add: upperBound_def lowerBound_def bisect.simps)
  ultimately show ?thesis using assms(1) by (auto simp: getNode_def elim!: represents_leafE)
qed

end
