(* ===== verification/StorageClaims.thy ===== *)
theory StorageClaims
  imports Store TreeCount
begin

text \<open>
  The properties of the storage layer: index orders, byte encodings, segment trees over a
  content-addressed store, and garbage collection. Each rests on the component lemmas of
  the theories it names and on the interpretation \<open>mem\<close> of the contract \<open>node_store\<close>.
\<close>

section \<open>Samples\<close>

definition sample_datom :: datom where
  "sample_datom = \<lparr>d_e = 1000, d_a = 62, d_v = VStr (js ''doc''), d_t = 7, d_op = True\<rparr>"

lemma sample_datom_storable [simp]: "datom_storable sample_datom" "datom_ok sample_datom"
proof -
  have "to_scalars (js ''doc'') = [100, 111, 99]" by (simp add: js_def)
  moreover have "wf_utf16 (js ''doc'')" by (simp add: js_def)
  ultimately show "datom_storable sample_datom" "datom_ok sample_datom"
    by (simp_all add: sample_datom_def datom_storable_def datom_ok_def id_ok_def MAX_ID_def text_ok_def js_def
        utf8_encode_def utf8_scalar_def utf8_nats_def)
qed

text \<open>A digest of the right shape: the first 32 bytes, padded.\<close>

definition sample_sha :: "bytes \<Rightarrow> string" where
  "sample_sha b = toHex (take 32 (b @ replicate 32 0))"

lemma sample_codec: "codec_laws identity_compress identity_decompress sample_sha"
  by (auto simp: codec_laws_def identity_compress_def identity_decompress_def sample_sha_def
      intro!: exI [of _ "take 32 (b @ replicate 32 0)" for b])

lemma empty_store_inv: "mem_inv identity_compress identity_decompress sample_sha (MemStore k)"
  using sample_codec by (simp add: mem_inv_def MemStore_def)

lemma index_sorted_single: "datom_ok d \<Longrightarrow> index_sorted i [d]"
  by (simp add: index_sorted_def)

text \<open>A store that holds the tree of the sample datom, built by the code.\<close>

lemma sample_tree:
  obtains s r where "mem_inv identity_compress identity_decompress sample_sha s" "ref_storable r"
    "represents (mem_get identity_decompress s) r (ALeaf [sample_datom])"
proof -
  let ?nd = "LeafNode [sample_datom]" let ?s = "MemStore True"
  have nok: "node_ok NODE_CAP datom_storable ref_storable ?nd" by (simp add: NODE_CAP_def)
  have "mem_put identity_compress sample_sha ?s EAVT ?nd \<noteq> collision"
    by (simp add: mem_put_def serialize_ok [OF nok] MemStore_def MemStore_put_def Let_def)
  then obtain r s where p: "mem_put identity_compress sample_sha ?s EAVT ?nd = Inr (r, s)"
    using mem.put_succeeds [OF empty_store_inv nok] by blast
  note R = mem_put_result [OF empty_store_inv nok p]
  then have "represents (mem_get identity_decompress s) r (ALeaf [sample_datom])"
    by (intro rep_leaf) simp_all
  then show ?thesis using that R by blast
qed

lemma sample_root: "wf_root i (ALeaf [sample_datom])"
  by (simp add: wf_root_def)

section \<open>Properties\<close>

text \<open>
  C1: Reading a prefix of an index. For any tree that a root reference stands for in a
  source of nodes, scanning for a prefix returns, in index order and without error, exactly
  the datoms of the tree that match the prefix; every chunk is a non-empty range inside its
  array. The fuel is the number of nodes, so the traversal ends.
\<close>

theorem scan_returns_matches:
  assumes "represents src root t" "wf_root i t" "prefix_ok p" "nodes t < n"
  shows "\<exists>cs. scan n src i root p = Inr cs \<and> chunks_datoms cs = filter (matching i p) (contents t) \<and>
    (\<forall>c\<in>set cs. c_start c < c_end c \<and> c_end c \<le> length (c_datoms c))"
  using assms by (rule scan_correct)

theorem scan_returns_matches_witness:
  "\<exists>src r cs. scan 2 src EAVT r \<lparr>p_e = Some 1000, p_a = None, p_v = None, p_t = None\<rparr> = Inr cs \<and>
     chunks_datoms cs = [sample_datom]"
proof -
  let ?p = "\<lparr>p_e = Some 1000, p_a = None, p_v = None, p_t = None\<rparr> :: prefix"
  obtain s r where r: "represents (mem_get identity_decompress s) r (ALeaf [sample_datom])"
    using sample_tree by metis
  have p: "prefix_ok ?p" by (simp add: prefix_ok_def id_ok_def MAX_ID_def)
  have "nodes (ALeaf [sample_datom]) < 2" by simp
  from scan_returns_matches [OF r sample_root p this]
  obtain cs where "scan 2 (mem_get identity_decompress s) EAVT r ?p = Inr cs"
    "chunks_datoms cs = filter (matching EAVT ?p) [sample_datom]"
    by (simp only: contents.simps) blast
  moreover have "comparePrefix EAVT sample_datom ?p = 0" by (simp add: sample_datom_def cmpNum_def)
  ultimately show ?thesis by auto
qed

text \<open>
  C2: Absorbing novelty into an index. Unless two bodies collide under the digest, merging
  sorted novelty into a stored tree succeeds; the new root stands for the sorted union of the
  old datoms and the novelty, and the old root still stands for the old tree, so readers of
  the previous root are not disturbed.
\<close>

theorem mergeTree_is_union:
  assumes "mem_inv compress decompress sha s" "represents (mem_get decompress s) root t" "ref_storable root"
    "wf_root i t" "index_sorted i nov" "\<forall>d\<in>set nov. datom_storable d"
    "1 < fanout" "fanout \<le> NODE_CAP" "0 < leafSize" "leafSize * 3 div 2 \<le> NODE_CAP"
    "nodes t \<le> n" "length (contents t) + length nov < 2 ^ 53"
  shows "mergeTree n (mem_get decompress) (mem_put compress sha) i leafSize fanout s root nov = collision \<or>
    (\<exists>root' s' t'. mergeTree n (mem_get decompress) (mem_put compress sha) i leafSize fanout s root nov = Inr (root', s') \<and>
       mem_inv compress decompress sha s' \<and> represents (mem_get decompress s') root' t' \<and> wf_root i t' \<and>
       contents t' = merge_union (comparatorFor i) (contents t) nov \<and>
       set (contents t') = set (contents t) \<union> set nov \<and> represents (mem_get decompress s') root t)"
proof -
  have "leafSize \<le> NODE_CAP" using assms(10) by linarith
  from mem.mergeTree_ok [OF assms(7,8,9,10) this assms(5,6,1,2,3,4,11,12)]
  show ?thesis
  proof (elim disjE exE conjE)
    fix r' s' t' assume R: "mergeTree n (mem_get decompress) (mem_put compress sha) i leafSize fanout s root nov = Inr (r', s')"
      "mem_inv compress decompress sha s'" "mem_get decompress s \<subseteq>\<^sub>m mem_get decompress s'" "ref_storable r'"
      "represents (mem_get decompress s') r' t'" "wf_root i t'" "contents t' = merge_union (comparatorFor i) (contents t) nov"
    have "index_sorted i (contents t)" using assms(4) by (simp add: wf_root_def index_sorted_def)
    then have "set (contents t') = set (contents t) \<union> set nov" using R(7) assms(5) by (simp add: set_index_merge_union)
    then show ?thesis using R represents_mono [OF assms(2) R(3)] by blast
  qed simp
qed

theorem mergeTree_is_union_witness:
  "\<exists>s root nov. mergeTree 1 (mem_get identity_decompress) (mem_put identity_compress sample_sha) EAVT 3000 1024 s root nov = collision \<or>
    (\<exists>root' s' t'. mergeTree 1 (mem_get identity_decompress) (mem_put identity_compress sample_sha) EAVT 3000 1024 s root nov = Inr (root', s') \<and>
       represents (mem_get identity_decompress s') root' t' \<and> set (contents t') = {sample_datom, sample_datom\<lparr>d_t := 8\<rparr>})"
proof -
  obtain s r where s: "mem_inv identity_compress identity_decompress sample_sha s" "ref_storable r"
      "represents (mem_get identity_decompress s) r (ALeaf [sample_datom])" using sample_tree .
  let ?d = "sample_datom\<lparr>d_t := 8\<rparr>"
  have d: "datom_storable ?d" using sample_datom_storable(1)
    by (auto simp: datom_storable_def datom_ok_def sample_datom_def id_ok_def MAX_ID_def)
  then have ok: "datom_ok ?d" by (simp add: datom_storable_def)
  have "mergeTree 1 (mem_get identity_decompress) (mem_put identity_compress sample_sha) EAVT 3000 1024 s r [?d] = collision \<or>
    (\<exists>root' s' t'. mergeTree 1 (mem_get identity_decompress) (mem_put identity_compress sample_sha) EAVT 3000 1024 s r [?d] = Inr (root', s') \<and>
       mem_inv identity_compress identity_decompress sample_sha s' \<and> represents (mem_get identity_decompress s') root' t' \<and> wf_root EAVT t' \<and>
       contents t' = merge_union (comparatorFor EAVT) (contents (ALeaf [sample_datom])) [?d] \<and>
       set (contents t') = set (contents (ALeaf [sample_datom])) \<union> set [?d] \<and>
       represents (mem_get identity_decompress s') r (ALeaf [sample_datom]))"
    by (rule mergeTree_is_union [OF s(1,3,2) sample_root index_sorted_single [OF ok]])
      (use d in \<open>simp_all add: NODE_CAP_def\<close>)
  then show ?thesis by (intro exI [of _ s] exI [of _ r] exI [of _ "[?d]"]) auto
qed

text \<open>
  Building an index. Unless two bodies collide, building a tree from a sorted array
  succeeds and the root stands for a well-formed tree of exactly that array.
\<close>

lemma buildTree_contents:
  assumes "mem_inv compress decompress sha s" "index_sorted i ds" "\<forall>d\<in>set ds. datom_storable d"
    "1 < fanout" "fanout \<le> NODE_CAP" "0 < leafSize" "leafSize \<le> NODE_CAP" "length ds < 2 ^ 53"
  shows "buildTree (mem_put compress sha) i leafSize fanout s ds = collision \<or>
    (\<exists>r s' t. buildTree (mem_put compress sha) i leafSize fanout s ds = Inr (r, s') \<and> mem_inv compress decompress sha s' \<and>
       represents (mem_get decompress s') r t \<and> wf_root i t \<and> contents t = ds)"
  using mem.buildTree_ok [OF assms(1,4,5,6,7,2,8,3)] by blast

lemma buildTree_contents_witness:
  "buildTree (mem_put identity_compress sample_sha) AVET 3000 1024 (MemStore True) [sample_datom] = collision \<or>
    (\<exists>r s t. buildTree (mem_put identity_compress sample_sha) AVET 3000 1024 (MemStore True) [sample_datom] = Inr (r, s) \<and>
       represents (mem_get identity_decompress s) r t \<and> contents t = [sample_datom])"
  using buildTree_contents [OF empty_store_inv [of True] index_sorted_single [of sample_datom AVET], of 1024 3000]
  by (auto simp: NODE_CAP_def)

text \<open>
  C3: Garbage collection. Marking from a root, on top of any set of hashes that is closed
  under references, ends; sweeping everything that is not marked leaves the root's tree
  exactly as readable as before.
\<close>

theorem gc_preserves_tree:
  assumes "mem_inv compress decompress sha s" "represents (mem_get decompress s) root t" "nodes t < n"
    "closed_upto (mem_get decompress s) [] into"
  shows "\<exists>K. reachable n (mem_get decompress s) [root] into = Inr K \<and>
    represents (mem_get decompress (snd (MemStore_sweep s (\<lambda>h. h \<in> K)))) root t"
  using assms by (rule gc_keeps_tree)

theorem gc_preserves_tree_witness:
  "\<exists>s r K. reachable 2 (mem_get identity_decompress s) [r] {} = Inr K \<and>
    represents (mem_get identity_decompress (snd (MemStore_sweep s (\<lambda>h. h \<in> K)))) r (ALeaf [sample_datom])"
proof -
  obtain s r where s: "mem_inv identity_compress identity_decompress sample_sha s"
      "represents (mem_get identity_decompress s) r (ALeaf [sample_datom])" using sample_tree by metis
  have "nodes (ALeaf [sample_datom]) < 2" "closed_upto (mem_get identity_decompress s) [] {}"
    by (simp_all add: closed_upto_def)
  then show ?thesis using gc_preserves_tree [OF s] by blast
qed



text \<open>
  C5: Stored nodes read back. Every node that fits the format (safe ids, text that survives
  UTF-8, 32-byte hashes, fewer than 2^32 entries) is encoded without error, and decoding
  the bytes yields the node and its index.
\<close>

theorem decodeNode_encodeNode:
  assumes "node_storable nd"
  shows "rbind (encodeNode i nd) decodeNode = Inr (index_code i, nd)"
  using assms by (simp add: encodeNode_bytes decodeNode_bytes)

theorem decodeNode_encodeNode_witness:
  "rbind (encodeNode VAET (LeafNode [sample_datom])) decodeNode = Inr (3, LeafNode [sample_datom])"
  using decodeNode_encodeNode [of "LeafNode [sample_datom]" VAET] by simp



text \<open>
  In each of the four indexes, a datom compares as 0 with another exactly when
  \<open>datomEquals\<close> holds, which on stored datoms is equality: no two distinct datoms of an
  index are identified by its order, and the deduplicating merges lose none.
\<close>

lemma comparator_identifies_equals:
  assumes "datom_ok x" and "datom_ok y"
  shows "(comparatorFor i x y = 0 \<longleftrightarrow> datomEquals x y) \<and> (datomEquals x y \<longleftrightarrow> x = y)"
  using assms datomEquals_iff comparator_zero idx.cmp_refl by metis

lemma comparator_identifies_equals_witness:
  "comparatorFor AVET sample_datom sample_datom = 0 \<and>
   comparatorFor AVET sample_datom (sample_datom\<lparr>d_op := False\<rparr>) = 1"
proof -
  have "comparatorFor AVET sample_datom sample_datom = 0"
    using comparator_identifies_equals [of sample_datom sample_datom AVET] by simp
  moreover have "comparatorFor AVET sample_datom (sample_datom\<lparr>d_op := False\<rparr>) = 1"
    by (simp add: sample_datom_def cmpAVET_def cmpNum_def cmpOp_def compareStrings_lex or_else_def)
  ultimately show ?thesis by blast
qed

text \<open>
  The planner's estimate of a prefix is the exact number of matching datoms, read
  from the counts along two paths of the tree.
\<close>

lemma estimateCount_is_exact:
  assumes "represents src r t" "wf_root i t" "nodes t < n" "prefix_ok p"
  shows "estimateCount n src i r p = Inr (length (filter (matching i p) (contents t)))"
  using assms by (rule estimateCount_exact)

lemma estimateCount_is_exact_witness:
  "\<exists>src r. estimateCount 2 src EAVT r \<lparr>p_e = Some 1001, p_a = None, p_v = None, p_t = None\<rparr> = Inr 0"
proof -
  let ?p = "\<lparr>p_e = Some 1001, p_a = None, p_v = None, p_t = None\<rparr> :: prefix"
  obtain s r where r: "represents (mem_get identity_decompress s) r (ALeaf [sample_datom])"
    using sample_tree by metis
  have p: "prefix_ok ?p" by (simp add: prefix_ok_def id_ok_def MAX_ID_def)
  have "nodes (ALeaf [sample_datom]) < 2" by simp
  from estimateCount_is_exact [OF r sample_root this p]
  have "estimateCount 2 (mem_get identity_decompress s) EAVT r ?p = Inr (length (filter (matching EAVT ?p) [sample_datom]))"
    by simp
  moreover have "comparePrefix EAVT sample_datom ?p \<noteq> 0" by (simp add: sample_datom_def cmpNum_def)
  ultimately show ?thesis by auto
qed

text \<open>
  The LRU cache is transparent. Loading through \<open>CachingSource\<close> gives what the backing
  source gives, errors included, keeps the cache a part of the source, and keeps its size
  within the bound.
\<close>

lemma caching_is_transparent:
  assumes "cs_inv src c" "\<And>h n. backing_peek h = Some n \<Longrightarrow> src h = Some n"
    "\<And>r. backing_load r = getNode src r" "cs_load backing_peek backing_load c r = (res, c')"
  shows "res = getNode src r \<and> cs_inv src c' \<and> length (cs_cache c') \<le> cs_maxNodes c'"
  using cs_load_transparent [OF assms] by (simp add: cs_inv_def)

lemma caching_is_transparent_witness:
  "fst (cs_load (\<lambda>h. None) (getNode [''a'' \<mapsto> LeafNode []]) (CachingSource 1) \<lparr>r_hash = ''a'', r_kind = KLeaf, r_count = 0\<rparr>)
     = Inr (LeafNode [])"
proof -
  let ?src = "[''a'' \<mapsto> LeafNode []]" let ?r = "\<lparr>r_hash = ''a'', r_kind = KLeaf, r_count = 0\<rparr>"
  have "cs_inv ?src (CachingSource 1)" by (auto simp: cs_inv_def CachingSource_def map_le_def dom_def jm_ok_def)
  from caching_is_transparent [OF this, of "\<lambda>h. None" "getNode ?src" ?r]
  show ?thesis by (cases "cs_load (\<lambda>h. None) (getNode ?src) (CachingSource 1) ?r") (auto simp: getNode_def)
qed

end
