(* ===== verification/JsValues.thy ===== *)
theory JsValues
  imports Encoding Datoms
begin

text \<open>
  Plain JavaScript values as transaction data, query inputs and JSON bodies hold them, with
  the conversions of \<open>internal/core/datom.ts\<close> and the coercion of \<open>internal/core/db.ts\<close>
  between them and tagged values. Coercion accepts exactly what normalisation accepts,
  except that it lets an invalid date through; value keys are injective.
\<close>

section \<open>Values of the language\<close>

text \<open>
  An object is its own enumerable properties in order; a \<open>bigint\<close> its integer; a \<open>Date\<close> its
  time value, which is an integer of at most \<open>8.64e15\<close> milliseconds, or \<open>None\<close> for an
  invalid date.
\<close>

datatype jsval =
    JUndefined
  | JNull
  | JNum jsnum
  | JBig int
  | JStr jsstr
  | JBool bool
  | JBytes bytes
  | JDate "int option"
  | JArr "jsval list"
  | JObj "(jsstr \<times> jsval) list"

definition j_get :: "(jsstr \<times> jsval) list \<Rightarrow> string \<Rightarrow> jsval" where
  "j_get o' k = (case map_of o' (js k) of Some v \<Rightarrow> v | None \<Rightarrow> JUndefined)"

definition j_has :: "(jsstr \<times> jsval) list \<Rightarrow> string \<Rightarrow> bool" where
  "j_has o' k = (map_of o' (js k) \<noteq> None)"

text \<open>What the program takes from its platform: \<open>Date.parse\<close>, and the decimal form of a double.\<close>

record platform =
  pf_date_parse :: "jsstr \<Rightarrow> int option"
  pf_double_string :: "f64 \<Rightarrow> jsstr"

definition MAX_DATE :: int where
  "MAX_DATE = 8640000000000000"

definition getTime :: "int option \<Rightarrow> jsnum" where
  "getTime d = (case d of Some ms \<Rightarrow> NInt ms | None \<Rightarrow> NDbl f64_NaN)"

text \<open>\<open>Number.isInteger\<close>; an \<open>NDbl\<close> is an integer when it is finite and beyond the safe range.\<close>

fun isInteger :: "jsnum \<Rightarrow> bool" where
  "isInteger (NInt n) = True"
| "isInteger (NDbl x) = (let e = unat x div 2 ^ 52 mod 2048 in 1076 \<le> e \<and> e < 2047)"

fun payload_js :: "payload \<Rightarrow> jsval" where
  "payload_js (PNum n) = JNum n"
| "payload_js (PStr s) = JStr s"
| "payload_js (PBool b) = JBool b"
| "payload_js (PBytes b) = JBytes b"

fun js_payload :: "jsval \<Rightarrow> payload option" where
  "js_payload (JNum n) = Some (PNum n)"
| "js_payload (JStr s) = Some (PStr s)"
| "js_payload (JBool b) = Some (PBool b)"
| "js_payload (JBytes b) = Some (PBytes b)"
| "js_payload _ = None"

text \<open>\<open>normalizeValue\<close> on any JavaScript value: what is no payload fails the type test.\<close>

definition normalize_js :: "vtag \<Rightarrow> jsval \<Rightarrow> tagged_value res" where
  "normalize_js tag v =
     (case js_payload v of
        Some p \<Rightarrow> normalizeValue tag p
      | None \<Rightarrow> normalizeValue tag (if tag = Bool then PStr [] else PBool False))"

section \<open>Tagged values\<close>

text \<open>A \<open>TaggedValue\<close> as it is passed around: the tag and a payload that need not be normalised.\<close>

type_synonym tagged = "jsval \<times> jsval"

definition tag_js :: "vtag \<Rightarrow> jsval" where
  "tag_js t = JNum (NInt (int (tag_code t)))"

definition tagged_of :: "tagged_value \<Rightarrow> tagged" where
  "tagged_of v = (tag_js (vt v), payload_js (payload_of v))"

text \<open>\<open>"vt" in v && "v" in v\<close> on an object.\<close>

fun as_tagged :: "jsval \<Rightarrow> tagged option" where
  "as_tagged (JObj o') = (if j_has o' ''vt'' \<and> j_has o' ''v'' then Some (j_get o' ''vt'', j_get o' ''v'') else None)"
| "as_tagged _ = None"

fun inferTag :: "jsval \<Rightarrow> tagged res" where
  "inferTag (JNum n) = Inr (tag_js (if isInteger n then Long else Double), JNum n)"
| "inferTag (JBig n) = Inr (tag_js Long, JNum (num_of_int n))"
| "inferTag (JStr s) = Inr (tag_js Str, JStr s)"
| "inferTag (JBool b) = Inr (tag_js Bool, JBool b)"
| "inferTag (JDate d) = Inr (tag_js Inst, JNum (getTime d))"
| "inferTag (JBytes b) = Inr (tag_js Bytes, JBytes b)"
| "inferTag v =
     (case as_tagged v of Some tv \<Rightarrow> Inr tv | None \<Rightarrow> Inl (TypeError ''cannot infer value type''))"

fun toJsValue :: "tagged_value \<Rightarrow> jsval" where
  "toJsValue (VInst n) = JDate (if \<bar>n\<bar> \<le> MAX_DATE then Some n else None)"
| "toJsValue v = payload_js (payload_of v)"

definition datomJsValue :: "datom \<Rightarrow> jsval" where
  "datomJsValue d = toJsValue (d_v d)"

text \<open>
  \<open>coerceValue\<close>. The type of an attribute is \<open>None\<close> when it is none of the eight tags; then
  the last branch infers a tag.
\<close>

definition is_number :: "jsval \<Rightarrow> bool" where
  "is_number v = (case v of JNum n \<Rightarrow> True | _ \<Rightarrow> False)"

definition coerceValue :: "platform \<Rightarrow> vtag option \<Rightarrow> jsval \<Rightarrow> tagged res" where
  "coerceValue pf vty v =
     (case as_tagged v of
        Some (t, x) \<Rightarrow>
          (case vty of
             Some tag \<Rightarrow>
               if t \<noteq> tag_js tag then
                 (if is_number x \<and> tag \<in> {Long, Double, Ref, Inst} then rmap tagged_of (normalize_js tag x)
                  else Inl (TypeError ''value has another type''))
               else rmap tagged_of (normalize_js tag x)
           | None \<Rightarrow> Inl (TypeError ''value has another type''))
      | None \<Rightarrow>
          (case vty of
             Some Inst \<Rightarrow>
               (case v of
                  JDate d \<Rightarrow> Inr (tag_js Inst, JNum (getTime d))
                | JStr s \<Rightarrow>
                    (case pf_date_parse pf s of
                       None \<Rightarrow> Inl (TypeError ''bad instant'')
                     | Some ms \<Rightarrow> Inr (tag_js Inst, JNum (NInt ms)))
                | _ \<Rightarrow> rmap tagged_of (normalize_js Inst v))
           | Some tag \<Rightarrow>
               (case v of
                  JBig n \<Rightarrow>
                    if tag \<in> {Long, Ref} then rmap tagged_of (normalize_js tag (JNum (num_of_int n)))
                    else rmap tagged_of (normalize_js tag v)
                | _ \<Rightarrow> rmap tagged_of (normalize_js tag v))
           | None \<Rightarrow> inferTag v))"

text \<open>The value a tagged value stands for, when its payload fits its tag.\<close>

definition value_of :: "tagged \<Rightarrow> tagged_value option" where
  "value_of tv =
     (case tv of
        (JNum (NInt c), p) \<Rightarrow>
          (case tag_of_code (nat c) of
             Some tag \<Rightarrow> (case normalize_js tag p of Inr v \<Rightarrow> if payload_js (payload_of v) = p then Some v else None | Inl e \<Rightarrow> None)
           | None \<Rightarrow> None)
      | _ \<Rightarrow> None)"

section \<open>Keys\<close>

text \<open>Decimal digits of an integer, and \<open>String(v)\<close> on a payload.\<close>

function nat_digits :: "nat \<Rightarrow> jsstr" where
  "nat_digits n = (if n < 10 then [of_nat (48 + n)] else nat_digits (n div 10) @ [of_nat (48 + n mod 10)])"
  by pat_completeness auto
termination
  by (relation "measure id") auto

declare nat_digits.simps [simp del]

definition int_string :: "int \<Rightarrow> jsstr" where
  "int_string n = (if n < 0 then 0x2D # nat_digits (nat (- n)) else nat_digits (nat n))"

fun payload_string :: "platform \<Rightarrow> payload \<Rightarrow> jsstr" where
  "payload_string pf (PNum (NInt n)) = int_string n"
| "payload_string pf (PNum (NDbl x)) = pf_double_string pf x"
| "payload_string pf (PStr s) = s"
| "payload_string pf (PBool b) = (if b then js ''true'' else js ''false'')"
| "payload_string pf (PBytes b) = concat (map (\<lambda>x. nat_digits (unat x) @ [0x2C]) b)"

fun valueKey :: "platform \<Rightarrow> tagged_value \<Rightarrow> jsstr" where
  "valueKey pf (VBytes b) = js ''8:'' @ map ucast b"
| "valueKey pf v = nat_digits (tag_code (vt v)) @ js '':'' @ payload_string pf (payload_of v)"


section \<open>Coercion normalises\<close>

definition date_ok :: "int option \<Rightarrow> bool" where
  "date_ok d \<longleftrightarrow> (\<forall>ms. d = Some ms \<longrightarrow> \<bar>ms\<bar> \<le> MAX_DATE)"

fun jsval_ok :: "jsval \<Rightarrow> bool" where
  "jsval_ok (JDate d) = date_ok d"
| "jsval_ok _ = True"

lemma normalize_js_ok: "normalize_js tag v = Inr x \<Longrightarrow> value_ok x \<and> vt x = tag"
  unfolding normalize_js_def using normalizeValue_value_ok by (auto split: option.splits if_splits)

lemma date_value: "\<bar>ms\<bar> \<le> MAX_DATE \<Longrightarrow> (tag_js Inst, JNum (NInt ms)) = tagged_of (VInst ms) \<and> value_ok (VInst ms)"
  by (simp add: tagged_of_def safe_int_def MAX_ID_def MAX_DATE_def)

text \<open>
  Coercing to one of the eight types yields a normalised value of that type; the one
  exception is an invalid date, which passes with the payload NaN.
\<close>

lemma coerceValue_normalised:
  assumes "coerceValue pf (Some tag) v = Inr tv" "\<And>s. date_ok (pf_date_parse pf s)" "jsval_ok v"
  shows "(\<exists>x. tv = tagged_of x \<and> value_ok x \<and> vt x = tag) \<or>
    tag = Inst \<and> v = JDate None \<and> tv = (tag_js Inst, JNum (NDbl f64_NaN))"
proof (cases "as_tagged v")
  case (Some tx)
  with assms(1) show ?thesis
    by (cases tx) (auto simp: coerceValue_def res_simps dest: normalize_js_ok split: if_splits)
next
  case None
  show ?thesis
  proof (cases "tag = Inst")
    case True
    with None assms date_value show ?thesis
      by (cases v) (auto simp: coerceValue_def res_simps date_ok_def getTime_def
          dest: normalize_js_ok split: option.splits)
  next
    case False
    with None assms(1) have "\<exists>y. rmap tagged_of (normalize_js tag y) = Inr tv"
      by (cases tag; cases v) (auto simp: coerceValue_def split: if_splits)
    then show ?thesis by (auto simp: res_simps dest: normalize_js_ok)
  qed
qed

lemma coerceValue_invalid_date: "coerceValue pf (Some Inst) (JDate None) = Inr (tag_js Inst, JNum (NDbl f64_NaN))"
  by (simp add: coerceValue_def getTime_def)

section \<open>Keys are injective\<close>

fun digits_value :: "nat \<Rightarrow> jsstr \<Rightarrow> nat" where
  "digits_value acc [] = acc"
| "digits_value acc (c # cs) = digits_value (10 * acc + (unat c - 48)) cs"

lemma digits_value_append: "digits_value acc (xs @ ys) = digits_value (digits_value acc xs) ys"
  by (induction xs arbitrary: acc) auto

lemma unat_digit: "k < 10 \<Longrightarrow> unat (of_nat (48 + k) :: 16 word) = 48 + k"
  by (rule of_nat_inverse [OF refl]) simp

lemma digits_value_digits: "digits_value 0 (nat_digits n) = n"
proof (induction n rule: nat_digits.induct)
  case (1 n)
  show ?case
  proof (cases "n < 10")
    case True
    then show ?thesis using unat_digit [of n] by (subst nat_digits.simps) (simp del: of_nat_add)
  next
    case False
    then show ?thesis using 1 unat_digit [of "n mod 10"]
      by (subst nat_digits.simps) (simp add: digits_value_append del: of_nat_add)
  qed
qed

lemma nat_digits_inj: "nat_digits m = nat_digits n \<Longrightarrow> m = n"
  by (metis digits_value_digits)

lemma nat_digits_range: "c \<in> set (nat_digits n) \<Longrightarrow> 48 \<le> unat c \<and> unat c < 58"
proof (induction n rule: nat_digits.induct)
  case (1 n)
  show ?case
  proof (cases "n < 10")
    case True
    then show ?thesis using 1(2) unat_digit [of n] by (subst (asm) nat_digits.simps) (simp del: of_nat_add)
  next
    case False
    then have "c \<in> set (nat_digits (n div 10)) \<or> c = of_nat (48 + n mod 10)"
      using 1(2) by (subst (asm) nat_digits.simps) auto
    then show ?thesis using 1(1) [OF False] unat_digit [of "n mod 10"] by (auto simp del: of_nat_add)
  qed
qed

lemma nat_digits_nonempty: "nat_digits n \<noteq> []"
  by (subst nat_digits.simps) simp

lemma minus_not_digit: "0x2D # xs \<noteq> nat_digits n"
proof
  assume "0x2D # xs = nat_digits n"
  then have "(0x2D :: 16 word) \<in> set (nat_digits n)" by (metis list.set_intros(1))
  from nat_digits_range [OF this] show False by simp
qed

lemma int_string_inj: "int_string m = int_string n \<Longrightarrow> m = n"
  using minus_not_digit minus_not_digit [THEN not_sym] nat_digits_inj
  by (auto simp: int_string_def split: if_splits dest!: nat_digits_inj)

lemma tag_digits: "nat_digits (tag_code t) = [of_nat (48 + tag_code t)]"
  by (cases t) (simp_all add: nat_digits.simps)

lemma tag_digit_inj: "(of_nat (48 + tag_code s) :: 16 word) = of_nat (48 + tag_code t) \<Longrightarrow> s = t"
  by (cases s; cases t) simp_all

lemma ucast_inj8: "map (ucast :: 8 word \<Rightarrow> 16 word) xs = map ucast ys \<Longrightarrow> xs = ys"
proof (erule map_injective)
  have "(x :: 8 word) = y" if "(ucast x :: 16 word) = ucast y" for x y
  proof -
    have "unat (ucast x :: 16 word) = unat x" "unat (ucast y :: 16 word) = unat y"
      by (simp_all add: unsigned_ucast_eq take_bit_nat_eq_self unsigned_less [THEN order_less_le_trans])
    with that show ?thesis by (metis unsigned_word_eqI)
  qed
  then show "inj (ucast :: 8 word \<Rightarrow> 16 word)" by (rule injI)
qed

text \<open>
  What ECMAScript guarantees of \<open>String\<close> on numbers: reading the text back gives the number,
  so different numbers have different texts. All NaNs are one number, and both zeros give one
  text; normalised doubles are neither NaN nor negative zero.
\<close>

definition renders_doubles :: "platform \<Rightarrow> bool" where
  "renders_doubles pf \<longleftrightarrow> inj_on (pf_double_string pf) {x. \<not> f64_nan x \<and> x \<noteq> f64_neg_zero}"

text \<open>
  The values a transaction works with: normalised ones, and references, which may be any
  integer. Two of them have the same key only when they are the same value.
\<close>

definition keyed :: "tagged_value \<Rightarrow> bool" where
  "keyed v \<longleftrightarrow> value_ok v \<or> vt v = Ref"

lemma keyed_VRef [simp]: "keyed (VRef n)"
  by (simp add: keyed_def)

lemma valueKey_head: "\<exists>rest. valueKey pf v = of_nat (48 + tag_code (vt v)) # 0x3A # rest"
  by (cases v) (auto simp: tag_digits js_def nat_digits.simps)

lemma valueKey_inj:
  assumes "valueKey pf v = valueKey pf w" "renders_doubles pf" "keyed v" "keyed w"
  shows "v = w"
proof -
  have "vt v = vt w"
    using valueKey_head [of pf v] valueKey_head [of pf w] assms(1) tag_digit_inj by (metis list.inject)
  with assms show ?thesis
    by (cases v; cases w) (auto simp: tag_digits js_def renders_doubles_def keyed_def dest: int_string_inj ucast_inj8 inj_onD split: if_splits)
qed

text \<open>A payload that is a value of its tag is a normalised one.\<close>

lemma value_of_ok: "value_of tv = Some v \<Longrightarrow> value_ok v"
  by (auto simp: value_of_def normalize_js_def dest: normalizeValue_value_ok split: prod.splits jsval.splits jsnum.splits option.splits sum.splits if_splits)

end
