(* ===== verification/LogCodec.thy ===== *)
theory LogCodec
  imports Segments JsValues
begin

text \<open>
  Transaction log records (\<open>internal/core/log.ts\<close>): the binary log chunk, the JSON wire
  form of datoms and novelty frames, and the base64 text of byte arrays. Chunks and frames
  are read back as they were written; the wire form carries finite doubles only, since JSON
  has no other numbers.
\<close>

section \<open>Log chunks\<close>

record log_entry =
  le_t :: int
  le_txInstant :: int
  le_datoms :: "datom list"

definition LOG_MAGIC :: nat where
  "LOG_MAGIC = 0x524c4731"

definition write_log_datom :: "datom \<Rightarrow> writer \<Rightarrow> writer res" where
  "write_log_datom d w =
     rbind (w_uvar (d_e d) w) (\<lambda>w. rbind (w_uvar (d_a d) w) (\<lambda>w. rbind (writeValue (d_v d) w) (\<lambda>w.
       Inr (w_u8 (if d_op d then 1 else 0) w))))"

definition write_log_entry :: "log_entry \<Rightarrow> writer \<Rightarrow> writer res" where
  "write_log_entry e w =
     rbind (w_uvar (le_t e) w) (\<lambda>w. rbind (w_uvar (le_txInstant e) w) (\<lambda>w.
       rbind (w_uvar (int (length (le_datoms e))) w) (w_each write_log_datom (le_datoms e))))"

definition encodeLogChunk :: "log_entry list \<Rightarrow> bytes res" where
  "encodeLogChunk es =
     rmap w_finish (rbind (w_uvar (int (length es)) (w_u32 LOG_MAGIC (ByteWriter 4096))) (w_each write_log_entry es))"

text \<open>The datoms of an entry take its \<open>t\<close>. An array length is below \<open>2 ^ 32\<close>.\<close>

definition read_log_datom :: "nat \<Rightarrow> datom rd" where
  "read_log_datom t = rd_bind r_uvar (\<lambda>e. rd_bind r_uvar (\<lambda>a. rd_bind readValue (\<lambda>v. rd_bind r_u8 (\<lambda>b.
     rd_return (\<lparr>d_e = int e, d_a = int a, d_v = v, d_t = int t, d_op = (b \<noteq> 0)\<rparr>)))))"

definition read_log_entry :: "log_entry rd" where
  "read_log_entry = rd_bind r_uvar (\<lambda>t. rd_bind r_uvar (\<lambda>i. rd_bind r_uvar (\<lambda>m.
     if m \<ge> 2 ^ 32 then rd_fail (RangeError ''Invalid array length'')
     else rd_bind (rd_repeat m (read_log_datom t)) (\<lambda>ds.
       rd_return (\<lparr>le_t = int t, le_txInstant = int i, le_datoms = ds\<rparr>)))))"

definition decodeLogChunk :: "bytes \<Rightarrow> log_entry list res" where
  "decodeLogChunk buf = rmap fst (rd_bind r_u32 (\<lambda>m.
     if m \<noteq> LOG_MAGIC then rd_fail (Error ''bad log chunk magic'')
     else rd_bind r_uvar (\<lambda>n. rd_repeat n read_log_entry)) (ByteReader buf 0))"

text \<open>The entries a chunk can hold: storable datoms, all of the entry's own \<open>t\<close>.\<close>

definition entry_storable :: "log_entry \<Rightarrow> bool" where
  "entry_storable e \<longleftrightarrow> id_ok (le_t e) \<and> id_ok (le_txInstant e) \<and> length (le_datoms e) < 2 ^ 32 \<and>
     (\<forall>d\<in>set (le_datoms e). datom_storable d \<and> d_t d = le_t e)"

definition log_datom_bytes :: "datom \<Rightarrow> bytes" where
  "log_datom_bytes d = uvar_bytes (nat (d_e d)) @ uvar_bytes (nat (d_a d)) @ value_bytes (d_v d) @ bool_byte (d_op d)"

definition entry_bytes :: "log_entry \<Rightarrow> bytes" where
  "entry_bytes e = uvar_bytes (nat (le_t e)) @ uvar_bytes (nat (le_txInstant e)) @
     uvar_bytes (length (le_datoms e)) @ concat (map log_datom_bytes (le_datoms e))"

definition log_bytes :: "log_entry list \<Rightarrow> bytes" where
  "log_bytes es = be32 (of_nat LOG_MAGIC) @ uvar_bytes (length es) @ concat (map entry_bytes es)"

lemma id_ok_uvar: "id_ok n \<Longrightarrow> writer_ok w \<Longrightarrow> writes w (uvar_bytes (nat n)) (w_uvar n w)"
  by (rule w_uvar_writes) (auto simp: id_ok_def safe_int_def)

lemma length_uvar: "n < 2 ^ 53 \<Longrightarrow> writer_ok w \<Longrightarrow> writes w (uvar_bytes n) (w_uvar (int n) w)"
  using w_uvar_writes [of w "int n"] by (simp add: safe_int_def MAX_ID_def)

lemma write_log_datom_writes:
  assumes "writer_ok w" "datom_storable d"
  shows "writes w (log_datom_bytes d) (write_log_datom d w)"
  unfolding write_log_datom_def log_datom_bytes_def
  using assms ids_of_storable [OF assms(2)]
  by (intro writes_bind id_ok_uvar writeValue_writes datom_storable_value writes_Inr bool_appends) simp_all

lemma write_log_entry_writes:
  assumes "writer_ok w" "entry_storable e"
  shows "writes w (entry_bytes e) (write_log_entry e w)"
  unfolding write_log_entry_def entry_bytes_def
  using assms
  by (intro writes_bind id_ok_uvar length_uvar w_each_writes write_log_datom_writes)
    (simp_all add: entry_storable_def)

lemma encodeLogChunk_bytes:
  assumes "\<forall>e\<in>set es. entry_storable e" "length es < 2 ^ 53"
  shows "encodeLogChunk es = Inr (log_bytes es)"
proof -
  have ok: "writer_ok (ByteWriter 4096)" "w_finish (ByteWriter 4096) = []" by (simp_all add: writer_ok_ByteWriter)
  note head = w_u32_appends [OF ok(1), of LOG_MAGIC]
  have "writes (w_u32 LOG_MAGIC (ByteWriter 4096)) (uvar_bytes (length es) @ concat (map entry_bytes es))
      (rbind (w_uvar (int (length es)) (w_u32 LOG_MAGIC (ByteWriter 4096))) (w_each write_log_entry es))"
    using assms appends_ok [OF head]
    by (intro writes_bind length_uvar w_each_writes write_log_entry_writes) simp_all
  from writes_start [OF this refl] head show ?thesis
    by (auto simp: encodeLogChunk_def log_bytes_def appends_def ok(2))
qed

lemma reads_log_datom:
  assumes "datom_storable d" "d_t d = int t"
  shows "reads (read_log_datom t) (log_datom_bytes d) d"
proof -
  have ids: "id_ok (d_e d)" "id_ok (d_a d)" using ids_of_storable [OF assms(1)] by auto
  then have "0 \<le> d_e d" "0 \<le> d_a d" by (simp_all add: id_ok_def)
  then have d: "\<lparr>d_e = int (nat (d_e d)), d_a = int (nat (d_a d)), d_v = d_v d, d_t = int t,
      d_op = (unat (if d_op d then 1 else 0 :: 8 word) \<noteq> 0)\<rparr> = d" using assms(2) by simp
  have op: "reads r_u8 (bool_byte (d_op d)) (unat (if d_op d then 1 else 0 :: 8 word))"
    unfolding bool_byte_def by (rule reads_u8)
  have "reads (read_log_datom t) (log_datom_bytes d)
      \<lparr>d_e = int (nat (d_e d)), d_a = int (nat (d_a d)), d_v = d_v d, d_t = int t,
       d_op = (unat (if d_op d then 1 else 0 :: 8 word) \<noteq> 0)\<rparr>"
    unfolding read_log_datom_def log_datom_bytes_def
    by (rule reads_bind [OF reads_id [OF ids(1)]], rule reads_bind [OF reads_id [OF ids(2)]],
        rule reads_bind [OF reads_value [OF datom_storable_value [OF assms(1)]]], rule reads_bind_return [OF op])
  then show ?thesis unfolding d .
qed

lemma reads_log_entry:
  assumes e: "entry_storable e"
  shows "reads read_log_entry (entry_bytes e) e"
proof -
  let ?ds = "le_datoms e" and ?t = "nat (le_t e)"
  have ids: "id_ok (le_t e)" "id_ok (le_txInstant e)" "length ?ds < 2 ^ 32"
    "\<forall>d\<in>set ?ds. datom_storable d \<and> d_t d = le_t e" using e by (auto simp: entry_storable_def)
  have t: "int ?t = le_t e" "int (nat (le_txInstant e)) = le_txInstant e" using ids(1,2) by (auto simp: id_ok_def)
  have n: "reads r_uvar (uvar_bytes (length ?ds)) (length ?ds)" "(length ?ds \<ge> 2 ^ 32) = False"
    using ids(3) by (auto intro: reads_uvar)
  have ds: "reads (rd_repeat (length ?ds) (read_log_datom ?t)) (concat (map log_datom_bytes ?ds)) ?ds"
    using reads_each [of ?ds "read_log_datom ?t" log_datom_bytes id "length ?ds"] ids(4) t(1) by (simp add: reads_log_datom)
  have "reads read_log_entry (entry_bytes e) \<lparr>le_t = int ?t, le_txInstant = int (nat (le_txInstant e)), le_datoms = ?ds\<rparr>"
    unfolding read_log_entry_def entry_bytes_def
    by (rule reads_bind [OF reads_id [OF ids(1)]], rule reads_bind [OF reads_id [OF ids(2)]],
        rule reads_bind [OF n(1)], simp only: n(2) if_False, rule reads_bind_return [OF ds])
  moreover have "\<lparr>le_t = int ?t, le_txInstant = int (nat (le_txInstant e)), le_datoms = ?ds\<rparr> = e"
    by (rule log_entry.equality) (simp_all add: t del: int_nat_eq nat_0_le)
  ultimately show ?thesis by simp
qed

lemma decodeLogChunk_bytes:
  assumes "\<forall>e\<in>set es. entry_storable e" "length es < 2 ^ 53"
  shows "decodeLogChunk (log_bytes es @ rest) = Inr es"
proof -
  have m: "reads r_u32 (be32 (of_nat LOG_MAGIC)) LOG_MAGIC"
    using reads_u32 [of "of_nat LOG_MAGIC"] by (simp add: LOG_MAGIC_def)
  have n: "reads r_uvar (uvar_bytes (length es)) (length es)" using assms(2) by (intro reads_uvar) simp
  have es: "reads (rd_repeat (length es) read_log_entry) (concat (map entry_bytes es)) es"
    using reads_each [of es read_log_entry entry_bytes id "length es"] assms(1) by (simp add: reads_log_entry)
  have "reads (rd_bind r_u32 (\<lambda>m. if m \<noteq> LOG_MAGIC then rd_fail (Error ''bad log chunk magic'')
     else rd_bind r_uvar (\<lambda>n. rd_repeat n read_log_entry))) (log_bytes es) es"
    unfolding log_bytes_def
    by (rule reads_bind [OF m], simp only: simp_thms if_False, rule reads_bind [OF n], rule es)
  from reads_run [OF this, of rest] show ?thesis unfolding decodeLogChunk_def .
qed

section \<open>Base64\<close>

text \<open>
  \<open>btoa\<close> and \<open>atob\<close> of the web platform, on strings whose code units are bytes: groups of
  three bytes and four characters, padded with \<open>=\<close>. \<open>atob\<close> skips ASCII white space, accepts
  missing padding and refuses any other character.
\<close>

definition b64_char :: "nat \<Rightarrow> 16 word" where
  "b64_char n = of_nat
     (if n < 26 then n + 65 else if n < 52 then n + 71 else if n < 62 then n - 4 else if n = 62 then 43 else 47)"

definition b64_index :: "16 word \<Rightarrow> nat option" where
  "b64_index c =
     (let n = unat c
      in if 65 \<le> n \<and> n \<le> 90 then Some (n - 65) else if 97 \<le> n \<and> n \<le> 122 then Some (n - 71)
         else if 48 \<le> n \<and> n \<le> 57 then Some (n + 4) else if n = 43 then Some 62
         else if n = 47 then Some 63 else None)"

fun b64_group :: "nat list \<Rightarrow> jsstr" where
  "b64_group (x # y # z # r) = map b64_char [x div 4, x mod 4 * 16 + y div 16, y mod 16 * 4 + z div 64, z mod 64] @ b64_group r"
| "b64_group [x, y] = map b64_char [x div 4, x mod 4 * 16 + y div 16, y mod 16 * 4] @ [0x3D]"
| "b64_group [x] = map b64_char [x div 4, x mod 4 * 16] @ [0x3D, 0x3D]"
| "b64_group [] = []"

fun b64_ungroup :: "nat list \<Rightarrow> nat list" where
  "b64_ungroup (a # b # c # d # r) = [a * 4 + b div 16, b mod 16 * 16 + c div 4, c mod 4 * 64 + d] @ b64_ungroup r"
| "b64_ungroup [a, b, c] = [a * 4 + b div 16, b mod 16 * 16 + c div 4]"
| "b64_ungroup [a, b] = [a * 4 + b div 16]"
| "b64_ungroup _ = []"

definition b64_unpad :: "jsstr \<Rightarrow> jsstr" where
  "b64_unpad s =
     (if length s mod 4 = 0 \<and> s \<noteq> [] \<and> last s = 0x3D
      then (if butlast s \<noteq> [] \<and> last (butlast s) = 0x3D then butlast (butlast s) else butlast s) else s)"

definition atob :: "jsstr \<Rightarrow> bytes res" where
  "atob s =
     (let s' = b64_unpad (filter (\<lambda>c. c \<notin> {0x09, 0x0A, 0x0C, 0x0D, 0x20}) s); is = map b64_index s'
      in if length s' mod 4 = 1 \<or> None \<in> set is then Inl (Error ''InvalidCharacterError'')
         else Inr (map of_nat (b64_ungroup (map the is))))"

definition bytesToBase64 :: "bytes \<Rightarrow> jsstr" where
  "bytesToBase64 b = b64_group (map unat b)"

definition base64ToBytes :: "jsstr \<Rightarrow> bytes res" where
  "base64ToBytes s = atob s"

lemma unat_b64_char: "n < 64 \<Longrightarrow> unat (b64_char n) =
    (if n < 26 then n + 65 else if n < 52 then n + 71 else if n < 62 then n - 4 else if n = 62 then 43 else 47)"
  unfolding b64_char_def by (rule of_nat_inverse [OF refl]) auto

lemma b64_index_char [simp]: "n < 64 \<Longrightarrow> b64_index (b64_char n) = Some n"
  by (auto simp: b64_index_def unat_b64_char Let_def)

lemma b64_char_plain: "n < 64 \<Longrightarrow> 47 < unat (b64_char n) \<and> unat (b64_char n) \<noteq> 61 \<or> unat (b64_char n) = 43 \<or> unat (b64_char n) = 47"
  by (auto simp: unat_b64_char)

definition b64_plain :: "16 word \<Rightarrow> bool" where
  "b64_plain c \<longleftrightarrow> c \<notin> {0x09, 0x0A, 0x0C, 0x0D, 0x20} \<and> c \<noteq> 0x3D"

lemma b64_plain_char [simp]: "n < 64 \<Longrightarrow> b64_plain (b64_char n)"
  using b64_char_plain [of n] by (auto simp: b64_plain_def)

text \<open>The text of a byte array: its digits, each a plain character, and the padding.\<close>

definition b64_shape :: "nat list \<Rightarrow> nat list \<Rightarrow> nat \<Rightarrow> bool" where
  "b64_shape xs ds k \<longleftrightarrow> b64_group xs = map b64_char ds @ replicate k 0x3D \<and> (\<forall>d\<in>set ds. d < 64) \<and>
     b64_ungroup ds = xs \<and> (length ds + k) mod 4 = 0 \<and> k < 3 \<and> (k > 0 \<longrightarrow> ds \<noteq> [])"

lemma b64_group_shape: "\<forall>x\<in>set xs. x < 256 \<Longrightarrow> \<exists>ds k. b64_shape xs ds k"
proof (induction xs rule: b64_group.induct)
  case (1 x y z r)
  then obtain ds k where IH: "b64_shape r ds k" by auto
  let ?d = "[x div 4, x mod 4 * 16 + y div 16, y mod 16 * 4 + z div 64, z mod 64]"
  have b: "x < 256" "y < 256" "z < 256" using "1.prems" by auto
  have "\<forall>d\<in>set ?d. d < 64" using b by auto
  moreover have "b64_ungroup (?d @ ds) = [x, y, z] @ b64_ungroup ds" using b by simp
  moreover have "(length (?d @ ds) + k) mod 4 = (length ds + k) mod 4" by simp
  ultimately have "b64_shape (x # y # z # r) (?d @ ds) k" using IH unfolding b64_shape_def by auto
  then show ?case by blast
next
  case (2 x y)
  then have "b64_shape [x, y] [x div 4, x mod 4 * 16 + y div 16, y mod 16 * 4] 1" by (auto simp: b64_shape_def)
  then show ?case by blast
next
  case (3 x)
  then have "b64_shape [x] [x div 4, x mod 4 * 16] 2" by (auto simp: b64_shape_def numeral_2_eq_2)
  then show ?case by blast
next
  case 4
  have "b64_shape [] [] 0" by (simp add: b64_shape_def)
  then show ?case by blast
qed

lemma b64_unpad_replicate:
  assumes "k < 3" "(length s + k) mod 4 = 0" "k > 0 \<longrightarrow> s \<noteq> []" "\<forall>c\<in>set s. b64_plain c"
  shows "b64_unpad (s @ replicate k 0x3D) = s"
proof -
  have no: "s \<noteq> [] \<Longrightarrow> last s \<noteq> 0x3D" using assms(4) last_in_set [of s] unfolding b64_plain_def by blast
  consider "k = 0" | "k = 1" | "k = 2" using assms(1) by linarith
  then show ?thesis
  proof cases
    case 3
    then have "s @ replicate k 0x3D = s @ [0x3D, 0x3D]" by (simp add: numeral_2_eq_2)
    then show ?thesis using assms(2,3) 3 by (simp add: b64_unpad_def butlast_append)
  qed (use no assms in \<open>auto simp: b64_unpad_def butlast_append\<close>)
qed

lemma base64ToBytes_bytesToBase64: "base64ToBytes (bytesToBase64 b) = Inr b"
proof -
  have bytes: "\<forall>x\<in>set (map unat b). x < 256" using unat_byte by auto
  obtain ds k where shape: "b64_shape (map unat b) ds k" using b64_group_shape [OF bytes] by blast
  then have g: "b64_group (map unat b) = map b64_char ds @ replicate k 0x3D" "\<forall>d\<in>set ds. d < 64"
     "b64_ungroup ds = map unat b" "(length ds + k) mod 4 = 0" "k < 3" "k > 0 \<longrightarrow> ds \<noteq> []"
    unfolding b64_shape_def by simp_all
  let ?ws = "{0x09, 0x0A, 0x0C, 0x0D, 0x20} :: 16 word set"
  have plain: "\<forall>c\<in>set (map b64_char ds). b64_plain c" using g(2) by simp
  have nows: "\<forall>c\<in>set (map b64_char ds @ replicate k 0x3D). c \<notin> ?ws"
  proof
    fix c assume "c \<in> set (map b64_char ds @ replicate k 0x3D)"
    then have "b64_plain c \<or> c = 0x3D" using plain by auto
    then show "c \<notin> ?ws" unfolding b64_plain_def by auto
  qed
  have f: "filter (\<lambda>c. c \<notin> ?ws) (map b64_char ds @ replicate k 0x3D) = map b64_char ds @ replicate k 0x3D"
    by (rule filter_True) (use nows in blast)
  have u: "b64_unpad (map b64_char ds @ replicate k 0x3D) = map b64_char ds"
    using g(4-6) plain by (intro b64_unpad_replicate) auto
  have ix: "map b64_index (map b64_char ds) = map Some ds" using g(2) by simp
  have len: "length ds mod 4 \<noteq> 1" using g(4,5) by presburger
  have "atob (map b64_char ds @ replicate k 0x3D) = Inr (map of_nat (map unat b))"
    unfolding atob_def f u ix Let_def using len g(3) by (simp add: comp_def)
  then show ?thesis unfolding base64ToBytes_def bytesToBase64_def g(1) by (simp add: comp_def)
qed

section \<open>The wire format\<close>

type_synonym wire_datom = "int \<times> int \<times> int \<times> jsval \<times> int \<times> nat"

definition toWireDatom :: "datom \<Rightarrow> wire_datom" where
  "toWireDatom d =
     (d_e d, d_a d, int (tag_code (vt (d_v d))),
      (case d_v d of VBytes b \<Rightarrow> JStr (bytesToBase64 b) | v \<Rightarrow> payload_js (payload_of v)),
      d_t d, if d_op d then 1 else 0)"

text \<open>
  The program stores whatever stands at the value's place; a payload that does not fit the
  tag is no datom of the model and reported as an error.
\<close>

definition wire_value :: "int \<Rightarrow> jsval \<Rightarrow> tagged_value res" where
  "wire_value c v =
     (if c = int (tag_code Bytes)
      then (case v of JStr s \<Rightarrow> rmap VBytes (base64ToBytes s) | _ \<Rightarrow> Inl (TypeError ''payload is no value''))
      else (case value_of (JNum (NInt c), v) of Some x \<Rightarrow> Inr x | None \<Rightarrow> Inl (TypeError ''payload is no value'')))"

definition fromWireDatom :: "wire_datom \<Rightarrow> datom res" where
  "fromWireDatom w =
     (case w of (e, a, c, v, t, p) \<Rightarrow> rmap (\<lambda>x. \<lparr>d_e = e, d_a = a, d_v = x, d_t = t, d_op = (p = 1)\<rparr>) (wire_value c v))"

record novelty_frame =
  nf_t :: int
  nf_txInstant :: int
  nf_datoms :: "wire_datom list"

definition txFrame :: "log_entry \<Rightarrow> novelty_frame" where
  "txFrame e = \<lparr>nf_t = le_t e, nf_txInstant = le_txInstant e, nf_datoms = map toWireDatom (le_datoms e)\<rparr>"

fun each_res :: "('a \<Rightarrow> 'b res) \<Rightarrow> 'a list \<Rightarrow> 'b list res" where
  "each_res f [] = Inr []"
| "each_res f (x # xs) = rbind (f x) (\<lambda>y. rmap (Cons y) (each_res f xs))"

definition entryFromFrame :: "novelty_frame \<Rightarrow> log_entry res" where
  "entryFromFrame f = rmap (\<lambda>ds. \<lparr>le_t = nf_t f, le_txInstant = nf_txInstant f, le_datoms = ds\<rparr>)
     (each_res fromWireDatom (nf_datoms f))"

text \<open>
  A number that goes through JSON text: an infinite or undefined one is written as \<open>null\<close>.
\<close>

definition f64_finite :: "f64 \<Rightarrow> bool" where
  "f64_finite x \<longleftrightarrow> unat x div 2 ^ 52 mod 2048 < 2047"

fun json_scalar :: "jsval \<Rightarrow> jsval" where
  "json_scalar (JNum (NDbl x)) = (if f64_finite x then JNum (NDbl x) else JNull)"
| "json_scalar v = v"

definition json_wire :: "wire_datom \<Rightarrow> wire_datom" where
  "json_wire w = (case w of (e, a, c, v, t, p) \<Rightarrow> (e, a, c, json_scalar v, t, p))"

definition json_frame :: "novelty_frame \<Rightarrow> novelty_frame" where
  "json_frame f = f\<lparr>nf_datoms := map json_wire (nf_datoms f)\<rparr>"

definition value_finite :: "tagged_value \<Rightarrow> bool" where
  "value_finite v = (case v of VDouble x \<Rightarrow> f64_finite x | _ \<Rightarrow> True)"

lemma value_of_tagged: "value_ok v \<Longrightarrow> value_of (JNum (NInt (int (tag_code (vt v)))), payload_js (payload_of v)) = Some v"
proof -
  assume v: "value_ok v"
  have "js_payload (payload_js (payload_of v)) = Some (payload_of v)" by (cases v) simp_all
  then show ?thesis using normalizeValue_payload_of [OF v] by (simp add: value_of_def normalize_js_def)
qed

lemma fromWireDatom_toWireDatom:
  assumes "value_ok (d_v d)" "value_finite (d_v d)"
  shows "fromWireDatom (json_wire (toWireDatom d)) = Inr d"
proof (cases "d_v d")
  case (VBytes b)
  then show ?thesis
    by (simp add: fromWireDatom_def json_wire_def toWireDatom_def wire_value_def base64ToBytes_bytesToBase64)
next
  case (VDouble x)
  then have x: "f64_finite x" using assms(2) by (simp add: value_finite_def)
  show ?thesis
    using value_of_tagged [OF assms(1)] VDouble x
    by (simp add: fromWireDatom_def json_wire_def toWireDatom_def wire_value_def)
qed (use value_of_tagged [OF assms(1)] in \<open>simp_all add: fromWireDatom_def json_wire_def toWireDatom_def wire_value_def\<close>)

lemma each_res_map: "\<forall>x\<in>set xs. f (g x) = Inr x \<Longrightarrow> each_res f (map g xs) = Inr xs"
  by (induction xs) simp_all

lemma entryFromFrame_txFrame:
  assumes "\<forall>d\<in>set (le_datoms e). value_ok (d_v d) \<and> value_finite (d_v d)"
  shows "entryFromFrame (json_frame (txFrame e)) = Inr e"
proof -
  have "each_res fromWireDatom (map (json_wire \<circ> toWireDatom) (le_datoms e)) = Inr (le_datoms e)"
    using assms by (intro each_res_map) (simp add: fromWireDatom_toWireDatom)
  then show ?thesis by (simp add: entryFromFrame_def json_frame_def txFrame_def)
qed

text \<open>An infinite double does not survive the wire.\<close>

lemma wire_infinity:
  assumes "\<not> f64_finite x" "d_v d = VDouble x"
  shows "fromWireDatom (json_wire (toWireDatom d)) = Inl (TypeError ''payload is no value'')"
  using assms
  by (simp add: fromWireDatom_def json_wire_def toWireDatom_def wire_value_def value_of_def normalize_js_def tag_of_code_def)

end
