(* ===== verification/JsonCodec.thy ===== *)
theory JsonCodec
  imports LogCodec
begin

text \<open>
  The JSON transport of \<open>internal/core/json.ts\<close>: dates, byte arrays and uuids travel as
  one-key objects. Sets and maps, which become arrays and objects, are no values of the
  model. Every plain value comes back from the wire as it was sent.
\<close>

section \<open>Encoding\<close>

lemma each_res_cong [fundef_cong]: "xs = ys \<Longrightarrow> (\<And>x. x \<in> set ys \<Longrightarrow> f x = g x) \<Longrightarrow> each_res f xs = each_res g ys"
  by (induction xs arbitrary: ys) auto

lemma size_obj_member [termination_simp]: "(k, x) \<in> set o' \<Longrightarrow> size x < Suc (size_list (size_prod (\<lambda>x. 0) size) o')"
  by (induction o') auto

lemma size_list_member: "x \<in> set xs \<Longrightarrow> size x < Suc (size_list size xs)"
  by (induction xs) auto

lemma size_j_get: "j_has o' k \<Longrightarrow> size (j_get o' k) < Suc (size_list (size_prod (\<lambda>x. 0) size) o')"
  unfolding j_has_def j_get_def by (auto dest!: map_of_SomeD size_obj_member split: option.split)

text \<open>
  Building an object key by key: a key \<open>__proto__\<close> sets the prototype and adds no property.
\<close>

definition js_object :: "(jsstr \<times> jsval) list \<Rightarrow> jsval" where
  "js_object ps = JObj (filter (\<lambda>(k, x). k \<noteq> js ''__proto__'') ps)"

definition two_key_tagged :: "(jsstr \<times> jsval) list \<Rightarrow> bool" where
  "two_key_tagged o' \<longleftrightarrow> j_has o' ''vt'' \<and> j_has o' ''v'' \<and> length o' = 2"

function toJson :: "jsval \<Rightarrow> jsval res" where
  "toJson JUndefined = Inr JNull"
| "toJson JNull = Inr JNull"
| "toJson (JDate d) = Inr (JObj [(js ''$inst'', JNum (getTime d))])"
| "toJson (JBytes b) = Inr (JObj [(js ''$bytes'', JStr (bytesToBase64 b))])"
| "toJson (JBig n) = Inr (JNum (num_of_int n))"
| "toJson (JArr xs) = rmap JArr (each_res toJson xs)"
| "toJson (JObj o') =
     (if two_key_tagged o' then
        (if j_get o' ''vt'' = tag_js Uuid then Inr (JObj [(js ''$uuid'', j_get o' ''v'')])
         else if j_get o' ''vt'' = tag_js Inst then Inr (JObj [(js ''$inst'', j_get o' ''v'')])
         else if j_get o' ''vt'' = tag_js Bytes then
           (case j_get o' ''v'' of
              JBytes b \<Rightarrow> Inr (JObj [(js ''$bytes'', JStr (bytesToBase64 b))])
            | _ \<Rightarrow> Inl (TypeError ''payload is no byte array''))
         else toJson (j_get o' ''v''))
      else rmap js_object (each_res (\<lambda>(k, x). rmap (Pair k) (toJson x)) o'))"
| "toJson (JNum n) = Inr (JNum n)"
| "toJson (JStr s) = Inr (JStr s)"
| "toJson (JBool b) = Inr (JBool b)"
  by pat_completeness auto
termination
  by (relation "measure size") (auto simp: two_key_tagged_def intro: size_j_get size_list_member size_obj_member)

text \<open>What \<open>JSON.parse\<close> reads from the text of a value without dates, byte arrays and bigints.\<close>

fun json_text :: "jsval \<Rightarrow> jsval" where
  "json_text JUndefined = JNull"
| "json_text (JNum n) = json_scalar (JNum n)"
| "json_text (JArr xs) = JArr (map json_text xs)"
| "json_text (JObj o') = JObj (map (\<lambda>(k, x). (k, json_text x)) (filter (\<lambda>(k, x). x \<noteq> JUndefined) o'))"
| "json_text v = v"

section \<open>Decoding\<close>

text \<open>A finite double as an integer, cut towards zero, and the time value of a number.\<close>

definition f64_trunc :: "f64 \<Rightarrow> int" where
  "f64_trunc x =
     (let n = unat x; e = n div 2 ^ 52 mod 2048; f = n mod 2 ^ 52;
          m = (if e = 0 then f else 2 ^ 52 + f); e' = max e 1;
          a = (if 1075 \<le> e' then m * 2 ^ (e' - 1075) else m div 2 ^ (1075 - e'))
      in if n < 2 ^ 63 then int a else - int a)"

definition clip :: "int \<Rightarrow> int option" where
  "clip n = (if \<bar>n\<bar> \<le> MAX_DATE then Some n else None)"

fun time_clip :: "jsnum \<Rightarrow> int option" where
  "time_clip (NInt n) = clip n"
| "time_clip (NDbl x) = (if f64_finite x then clip (f64_trunc x) else None)"

text \<open>
  \<open>String(v)\<close> on a parsed value: an object with an own \<open>toString\<close> has no callable one.
\<close>

definition join_comma :: "jsstr list \<Rightarrow> jsstr" where
  "join_comma ss = (case ss of [] \<Rightarrow> [] | s # r \<Rightarrow> s @ concat (map (\<lambda>x. 0x2C # x) r))"

fun js_string :: "platform \<Rightarrow> jsval \<Rightarrow> jsstr res" where
  "js_string pf (JStr s) = Inr s"
| "js_string pf (JNum (NInt n)) = Inr (int_string n)"
| "js_string pf (JNum (NDbl x)) = Inr (pf_double_string pf x)"
| "js_string pf (JBool b) = Inr (if b then js ''true'' else js ''false'')"
| "js_string pf JNull = Inr (js ''null'')"
| "js_string pf JUndefined = Inr (js ''undefined'')"
| "js_string pf (JArr xs) = rmap join_comma
     (each_res (\<lambda>x. if x = JNull \<or> x = JUndefined then Inr [] else js_string pf x) xs)"
| "js_string pf (JObj o') =
     (if j_has o' ''toString'' then Inl (TypeError ''Cannot convert object to primitive value'')
      else Inr (js ''[object Object]''))"
| "js_string pf (JBig n) = Inr (int_string n)"
| "js_string pf (JBytes b) = Inr (join_comma (map (\<lambda>x. nat_digits (unat x)) b))"
| "js_string pf (JDate d) = Inl (TypeError ''no parsed value'')"

function fromJson :: "platform \<Rightarrow> jsval \<Rightarrow> jsval res" where
  "fromJson pf (JArr xs) = rmap JArr (each_res (fromJson pf) xs)"
| "fromJson pf (JObj o') =
     (if length o' = 1 \<and> j_has o' ''$inst'' then
        (case j_get o' ''$inst'' of
           JNum n \<Rightarrow> Inr (JDate (time_clip n))
         | v \<Rightarrow> rmap (\<lambda>s. JDate (pf_date_parse pf s)) (js_string pf v))
      else if length o' = 1 \<and> j_has o' ''$bytes'' then
        rbind (js_string pf (j_get o' ''$bytes'')) (\<lambda>s. rmap JBytes (base64ToBytes s))
      else if length o' = 1 \<and> j_has o' ''$uuid'' then
        rmap (\<lambda>s. JObj [(js ''vt'', tag_js Uuid), (js ''v'', JStr (toLowerCase s))]) (js_string pf (j_get o' ''$uuid''))
      else rmap js_object (each_res (\<lambda>(k, x). rmap (Pair k) (fromJson pf x)) o'))"
| "fromJson pf JUndefined = Inr JUndefined"
| "fromJson pf JNull = Inr JNull"
| "fromJson pf (JNum n) = Inr (JNum n)"
| "fromJson pf (JBig n) = Inr (JBig n)"
| "fromJson pf (JStr s) = Inr (JStr s)"
| "fromJson pf (JBool b) = Inr (JBool b)"
| "fromJson pf (JBytes b) = Inr (JBytes b)"
| "fromJson pf (JDate d) = Inr (JDate d)"
  by pat_completeness auto
termination
  by (relation "measure (\<lambda>(pf, v). size v)") (auto intro: size_list_member size_obj_member)

section \<open>Round trip\<close>

definition uuid_object :: "(jsstr \<times> jsval) list \<Rightarrow> bool" where
  "uuid_object o' \<longleftrightarrow> (\<exists>s. o' = [(js ''vt'', tag_js Uuid), (js ''v'', JStr s)] \<and> toLowerCase s = s)"

definition marker_keys :: "jsstr set" where
  "marker_keys = {js ''$inst'', js ''$bytes'', js ''$uuid''}"

definition plain_keys :: "(jsstr \<times> jsval) list \<Rightarrow> bool" where
  "plain_keys o' \<longleftrightarrow> js ''__proto__'' \<notin> fst ` set o' \<and> \<not> two_key_tagged o' \<and>
     (length o' = 1 \<longrightarrow> fst ` set o' \<inter> marker_keys = {})"

text \<open>Plain values: no object that looks like an encoded one, and numbers that JSON has.\<close>

inductive json_plain :: "jsval \<Rightarrow> bool" where
  plain_null: "json_plain JNull"
| plain_bool: "json_plain (JBool b)"
| plain_str: "json_plain (JStr s)"
| plain_num: "json_scalar (JNum n) = JNum n \<Longrightarrow> json_plain (JNum n)"
| plain_date: "\<bar>ms\<bar> \<le> MAX_DATE \<Longrightarrow> json_plain (JDate (Some ms))"
| plain_bytes: "json_plain (JBytes b)"
| plain_arr: "\<forall>x\<in>set xs. json_plain x \<Longrightarrow> json_plain (JArr xs)"
| plain_uuid: "uuid_object o' \<Longrightarrow> json_plain (JObj o')"
| plain_obj: "plain_keys o' \<Longrightarrow> \<forall>p\<in>set o'. json_plain (snd p) \<Longrightarrow> json_plain (JObj o')"

definition carried :: "platform \<Rightarrow> jsval \<Rightarrow> jsval \<Rightarrow> bool" where
  "carried pf v j \<longleftrightarrow> toJson v = Inr j \<and> j \<noteq> JUndefined \<and> fromJson pf (json_text j) = Inr v"

lemma js_inj: "js s = js t \<longleftrightarrow> s = t"
proof
  assume a: "js s = js t"
  have u: "unat (of_char c :: 16 word) = of_char c" for c
  proof -
    have "of_char c = (of_nat (of_char c) :: 16 word)" by (simp only: of_nat_of_char)
    moreover have "unat (of_nat (of_char c) :: 16 word) = of_char c"
      by (rule of_nat_inverse [OF refl]) (rule less_trans [OF nat_of_char_less_256], simp)
    ultimately show ?thesis by (simp only:)
  qed
  then have "inj (of_char :: char \<Rightarrow> 16 word)"
    by (intro injI) (metis of_char_eq_iff)
  with a show "s = t" unfolding js_def by (simp add: inj_map_eq_map)
qed simp

lemma each_carried:
  assumes "\<forall>x\<in>set xs. \<exists>j. carried pf x j"
  shows "\<exists>js. each_res toJson xs = Inr js \<and> each_res (fromJson pf) (map json_text js) = Inr xs"
  using assms
proof (induction xs)
  case (Cons x xs)
  then obtain j js where "carried pf x j" "each_res toJson xs = Inr js" "each_res (fromJson pf) (map json_text js) = Inr xs"
    by auto
  then show ?case by (intro exI [of _ "j # js"]) (simp add: carried_def)
qed simp

lemma each_prop_carried:
  assumes "\<forall>p\<in>set o'. \<exists>j. carried pf (snd p) j"
  shows "\<exists>js. each_res (\<lambda>(k, x). rmap (Pair k) (toJson x)) o' = Inr js \<and> map fst js = map fst o' \<and>
    JUndefined \<notin> snd ` set js \<and>
    each_res (\<lambda>(k, x). rmap (Pair k) (fromJson pf x)) (map (\<lambda>(k, x). (k, json_text x)) js) = Inr o'"
  using assms
proof (induction o')
  case (Cons p o')
  obtain k x where p: "p = (k, x)" by (cases p)
  from Cons obtain js where IH: "each_res (\<lambda>(k, x). rmap (Pair k) (toJson x)) o' = Inr js" "map fst js = map fst o'"
    "JUndefined \<notin> snd ` set js"
    "each_res (\<lambda>(k, x). rmap (Pair k) (fromJson pf x)) (map (\<lambda>(k, x). (k, json_text x)) js) = Inr o'" by auto
  obtain j where "carried pf x j" using Cons.prems p by auto
  with IH show ?case unfolding p by (intro exI [of _ "(k, j) # js"]) (auto simp: carried_def)
qed simp

lemma filter_keys: "js ''__proto__'' \<notin> fst ` set ps \<Longrightarrow> js_object ps = JObj ps"
  unfolding js_object_def by (force intro: filter_True)

lemma j_has_key: "j_has o' k \<longleftrightarrow> js k \<in> fst ` set o'"
  by (simp add: j_has_def map_of_eq_None_iff)

lemma fromJson_object:
  assumes "length o' = 1 \<longrightarrow> fst ` set o' \<inter> marker_keys = {}"
  shows "fromJson pf (JObj o') = rmap js_object (each_res (\<lambda>(k, x). rmap (Pair k) (fromJson pf x)) o')"
  using assms by (auto simp: j_has_key marker_keys_def)

lemma toJson_carried: "json_plain v \<Longrightarrow> \<exists>j. carried pf v j"
proof (induction rule: json_plain.induct)
  case (plain_date ms)
  then show ?case by (simp add: carried_def getTime_def j_has_def j_get_def clip_def)
next
  case (plain_bytes b)
  have "js ''$bytes'' \<noteq> js ''$inst''" unfolding js_inj by simp
  then show ?case by (simp add: carried_def j_has_def j_get_def base64ToBytes_bytesToBase64)
next
  case (plain_arr xs)
  then obtain js where "each_res toJson xs = Inr js" "each_res (fromJson pf) (map json_text js) = Inr xs"
    using each_carried [of xs pf] by auto
  then show ?case by (simp add: carried_def)
next
  case (plain_uuid o')
  then obtain s where o': "o' = [(js ''vt'', tag_js Uuid), (js ''v'', JStr s)]" "toLowerCase s = s"
    by (auto simp: uuid_object_def)
  have "js ''v'' \<noteq> js ''vt''" "js ''$uuid'' \<noteq> js ''$inst''" "js ''$uuid'' \<noteq> js ''$bytes''"
    unfolding js_inj by simp_all
  then show ?case using o' by (simp add: carried_def two_key_tagged_def j_has_def j_get_def tag_js_def)
next
  case (plain_obj o')
  then obtain ps where ps: "each_res (\<lambda>(k, x). rmap (Pair k) (toJson x)) o' = Inr ps" "map fst ps = map fst o'"
    "JUndefined \<notin> snd ` set ps"
    "each_res (\<lambda>(k, x). rmap (Pair k) (fromJson pf x)) (map (\<lambda>(k, x). (k, json_text x)) ps) = Inr o'"
    using each_prop_carried [of o' pf] by auto
  let ?qs = "map (\<lambda>(k, x). (k, json_text x)) ps"
  have keys: "fst ` set ps = fst ` set o'" "length ps = length o'"
    using ps(2) by (metis list.set_map, metis length_map)
  have "map fst ?qs = map fst ps" by (simp add: case_prod_beta comp_def)
  then have keys': "fst ` set ?qs = fst ` set o'" using keys(1) by (metis list.set_map)
  have plain: "js ''__proto__'' \<notin> fst ` set o'" "\<not> two_key_tagged o'"
    "length o' = 1 \<longrightarrow> fst ` set o' \<inter> marker_keys = {}" using plain_obj.hyps(1) by (auto simp: plain_keys_def)
  have to: "toJson (JObj o') = Inr (JObj ps)" using ps(1) plain(1,2) keys by (simp add: filter_keys)
  have "filter (\<lambda>(k, x). x \<noteq> JUndefined) ps = ps" using ps(3) by (force intro: filter_True)
  then have parsed: "json_text (JObj ps) = JObj ?qs" by simp
  have "fromJson pf (JObj ?qs) = Inr (JObj o')"
    using fromJson_object [of ?qs pf] plain(1,3) keys' keys(2) ps(4) filter_keys [of o'] by simp
  then show ?case using to parsed by (auto simp: carried_def)
qed (auto simp: carried_def)

end
