(* ===== verification/WireClaims.thy ===== *)
theory WireClaims
  imports StorageClaims JsonCodec
begin

text \<open>
  The properties of the formats outside the node store: log chunks, novelty frames, base64,
  the JSON transport, and the value keys and coercions at the border to JavaScript values.
\<close>

text \<open>
  C7: Log chunks read back. A chunk of entries whose datoms are storable and carry the
  \<open>t\<close> of their entry is encoded without error, and decoding returns the entries.
\<close>

theorem decodeLogChunk_encodeLogChunk:
  assumes "\<forall>e\<in>set es. entry_storable e" "length es < 2 ^ 53"
  shows "rbind (encodeLogChunk es) decodeLogChunk = Inr es"
  using encodeLogChunk_bytes [OF assms] decodeLogChunk_bytes [OF assms, of "[]"] by simp

definition sample_entry :: log_entry where
  "sample_entry = \<lparr>le_t = 7, le_txInstant = 1700000000000, le_datoms = [sample_datom]\<rparr>"

theorem decodeLogChunk_encodeLogChunk_witness:
  "rbind (encodeLogChunk [sample_entry]) decodeLogChunk = Inr [sample_entry]"
proof (rule decodeLogChunk_encodeLogChunk)
  have "d_t sample_datom = 7" by (simp add: sample_datom_def)
  then show "\<forall>e\<in>set [sample_entry]. entry_storable e"
    by (simp add: entry_storable_def sample_entry_def id_ok_def MAX_ID_def)
qed simp

text \<open>
  C8: Novelty frames survive the wire. A frame made from an entry, sent as JSON text and
  parsed again, gives back the entry when its doubles are finite. JSON writes an infinite
  double as \<open>null\<close>.
\<close>

theorem frame_round_trip:
  assumes "\<forall>d\<in>set (le_datoms e). value_ok (d_v d) \<and> value_finite (d_v d)"
  shows "entryFromFrame (json_frame (txFrame e)) = Inr e"
  using assms by (rule entryFromFrame_txFrame)

theorem frame_round_trip_witness:
  "entryFromFrame (json_frame (txFrame (sample_entry\<lparr>le_datoms := [sample_datom\<lparr>d_v := VBytes [0, 255, 16]\<rparr>]\<rparr>))) =
     Inr (sample_entry\<lparr>le_datoms := [sample_datom\<lparr>d_v := VBytes [0, 255, 16]\<rparr>]\<rparr>)"
  by (rule frame_round_trip) (simp add: value_finite_def)

text \<open>
  C9: The JSON transport. A plain value (finite numbers, valid dates, byte arrays, uuids,
  arrays and objects that do not look like an encoded date, byte array or uuid) is encoded
  without error, and decoding the parsed text gives it back.
\<close>

theorem json_round_trip:
  assumes "json_plain v"
  shows "rbind (toJson v) (\<lambda>j. fromJson pf (json_text j)) = Inr v"
  using toJson_carried [OF assms, of pf] by (auto simp: carried_def)

theorem json_round_trip_witness:
  "rbind (toJson (JArr [JDate (Some 0), JBytes [1, 2], JObj [(js ''k'', JNull)]]))
     (\<lambda>j. fromJson \<lparr>pf_date_parse = (\<lambda>s. None), pf_double_string = (\<lambda>x. [])\<rparr> (json_text j)) =
   Inr (JArr [JDate (Some 0), JBytes [1, 2], JObj [(js ''k'', JNull)]])"
proof (rule json_round_trip)
  have "plain_keys [(js ''k'', JNull)]"
    unfolding plain_keys_def two_key_tagged_def marker_keys_def by (auto simp: js_inj)
  then have "json_plain (JObj [(js ''k'', JNull)])" by (intro plain_obj) (auto intro: plain_null)
  then show "json_plain (JArr [JDate (Some 0), JBytes [1, 2], JObj [(js ''k'', JNull)]])"
    by (intro plain_arr) (auto intro: plain_bytes plain_date simp: MAX_DATE_def)
qed

text \<open>
  C10: Coercion normalises. Whatever \<open>coerceValue\<close> accepts for one of the eight value types
  is a normalised value of that type, with one exception: an invalid date passes as the
  number NaN.
\<close>

theorem coercion_normalises:
  assumes "coerceValue pf (Some tag) v = Inr tv" "\<And>s. date_ok (pf_date_parse pf s)" "jsval_ok v"
  shows "(\<exists>x. tv = tagged_of x \<and> value_ok x \<and> vt x = tag) \<or>
    tag = Inst \<and> v = JDate None \<and> tv = (tag_js Inst, JNum (NDbl f64_NaN))"
  using assms by (rule coerceValue_normalised)

text \<open>
  A platform for the examples. As with \<open>String\<close>, every NaN is \<open>NaN\<close> and both zeros are \<open>0\<close>;
  the other doubles are written by their bits.
\<close>

definition sample_double_string :: "f64 \<Rightarrow> jsstr" where
  "sample_double_string x = (if f64_nan x then js ''NaN'' else if f64_key x = 0 then js ''0''
     else map (\<lambda>n. if bit x n then 0x31 else 0x30) [0..<64])"

definition sample_platform :: platform where
  "sample_platform = \<lparr>pf_date_parse = (\<lambda>s. None), pf_double_string = sample_double_string\<rparr>"

theorem coercion_normalises_witness:
  "\<exists>x. coerceValue sample_platform (Some Ref) (JBig 5) = Inr (tagged_of x) \<and> value_ok x \<and> vt x = Ref"
proof -
  have e: "coerceValue sample_platform (Some Ref) (JBig 5) = Inr (tagged_of (VRef 5))"
    by (simp add: coerceValue_def num_of_int_def safe_int_def MAX_ID_def normalize_js_def)
  from coercion_normalises [OF e] show ?thesis
    using e by (auto simp: sample_platform_def date_ok_def)
qed

text \<open>
  Value keys identify values. Two values a transaction works with have one key only when
  they are equal, for any rendering of doubles with the guarantee of \<open>String\<close>, so a map keyed
  by \<open>valueKey\<close> never confuses two values, whatever their types.
\<close>

lemma valueKey_injective:
  assumes "renders_doubles pf" "keyed v" "keyed w"
  shows "valueKey pf v = valueKey pf w \<longleftrightarrow> v = w"
  using assms valueKey_inj by blast

lemma bit_text_inj: "map (\<lambda>n. if bit x n then 0x31 else 0x30 :: 16 word) [0..<64] = map (\<lambda>n. if bit y n then 0x31 else 0x30) [0..<64] \<Longrightarrow>
  (x :: f64) = y"
proof (rule bit_word_eqI)
  fix n assume e: "map (\<lambda>n. if bit x n then 0x31 else 0x30 :: 16 word) [0..<64] = map (\<lambda>n. if bit y n then 0x31 else 0x30) [0..<64]"
    and "n < LENGTH(64)"
  then have n: "n < 64" by simp
  from e have "\<forall>n\<in>{0..<64}. (if bit x n then 0x31 else 0x30 :: 16 word) = (if bit y n then 0x31 else 0x30)"
    by (simp del: upt_rec_numeral)
  then have "(if bit x n then 0x31 else 0x30 :: 16 word) = (if bit y n then 0x31 else 0x30)" using n by auto
  then show "bit x n \<longleftrightarrow> bit y n" by (auto split: if_splits)
qed

lemma sample_platform_renders: "renders_doubles sample_platform"
  unfolding renders_doubles_def
proof (rule inj_onI)
  fix x y assume x: "x \<in> {x. \<not> f64_nan x \<and> x \<noteq> f64_neg_zero}" and y: "y \<in> {x. \<not> f64_nan x \<and> x \<noteq> f64_neg_zero}"
    and e: "pf_double_string sample_platform x = pf_double_string sample_platform y"
  have zero: "z = 0" if "f64_key z = 0" "z \<noteq> f64_neg_zero" for z :: f64
  proof -
    have "unat z = 0 \<or> int (unat z) = int (2 ^ 63)" using that(1) by (simp add: f64_key_def unsigned_eq_0_iff split: if_splits)
    then have "unat z = 0 \<or> unat z = 2 ^ 63" by (simp only: of_nat_eq_iff)
    moreover have "z = f64_neg_zero" if "unat z = 2 ^ 63"
      using that by (simp add: f64_neg_zero_def word_unat_eq_iff)
    ultimately show ?thesis using that(2) by (auto simp: unat_eq_zero)
  qed
  have bits: "map (\<lambda>n. if bit z n then 0x31 else 0x30 :: 16 word) [0..<64] \<noteq> js ''0''" for z :: f64
  proof
    assume "map (\<lambda>n. if bit z n then 0x31 else 0x30 :: 16 word) [0..<64] = js ''0''"
    then have "length (map (\<lambda>n. if bit z n then 0x31 else 0x30 :: 16 word) [0..<64]) = length (js ''0'')" by (rule arg_cong)
    then show False by (simp add: js_def del: upt_rec_numeral)
  qed
  show "x = y"
  proof (cases "f64_key x = 0 \<or> f64_key y = 0")
    case True
    then have "f64_key x = 0 \<and> f64_key y = 0" using e x y bits [of x] bits [of y] by (auto simp: sample_platform_def sample_double_string_def split: if_splits)
    then show ?thesis using zero [of x] zero [of y] x y by auto
  next
    case False
    then show ?thesis using e x y bit_text_inj by (simp add: sample_platform_def sample_double_string_def del: upt_rec_numeral)
  qed
qed

lemma valueKey_injective_witness:
  "valueKey sample_platform (VLong 1) \<noteq> valueKey sample_platform (VRef 1) \<and>
   valueKey sample_platform (VStr (js ''true'')) \<noteq> valueKey sample_platform (VBool True)"
  using valueKey_injective [OF sample_platform_renders, of "VLong 1" "VRef 1"]
    valueKey_injective [OF sample_platform_renders, of "VStr (js ''true'')" "VBool True"]
  by (simp add: keyed_def safe_int_def MAX_ID_def)

end
