(* ===== verification/Novelty.thy ===== *)
theory Novelty
  imports SegTree "HOL-Library.Sublist"
begin

text \<open>
  Novelty (\<open>internal/core/novelty.ts\<close>): the sorted in-memory buffers of datoms newer than
  the index roots, the iterator that merges a tree scan with a buffer, and the collapse of
  a history into present-tense facts. A buffer refines the set of datoms it was given;
  the merge iterator is the sorted union; the streaming collapse equals the collapse of
  the whole array, which keeps the newest version of every fact that is asserted.
\<close>

section \<open>One index's buffer\<close>

record sorted_novelty =
  sn_index :: index
  sn_base :: "datom list"
  sn_pending :: "datom list"

definition SortedNovelty :: "index \<Rightarrow> sorted_novelty" where
  "SortedNovelty i = \<lparr>sn_index = i, sn_base = [], sn_pending = []\<rparr>"

definition sn_size :: "sorted_novelty \<Rightarrow> nat" where
  "sn_size s = length (sn_base s) + length (sn_pending s)"

definition sn_add :: "datom list \<Rightarrow> sorted_novelty \<Rightarrow> sorted_novelty" where
  "sn_add ds s = s\<lparr>sn_pending := sn_pending s @ ds\<rparr>"

definition sn_flush :: "sorted_novelty \<Rightarrow> datom list \<times> sorted_novelty" where
  "sn_flush s =
     (if sn_pending s \<noteq> [] then
        (let cmp = comparatorFor (sn_index s);
             dp = dedup_adjacent cmp (js_sort cmp (sn_pending s));
             base = (if sn_base s = [] then dp else merge_union cmp (sn_base s) dp)
         in (base, s\<lparr>sn_base := base, sn_pending := []\<rparr>))
      else (sn_base s, s))"

definition sn_all :: "sorted_novelty \<Rightarrow> datom list \<times> sorted_novelty" where
  "sn_all s = sn_flush s"

definition sn_range :: "prefix \<Rightarrow> sorted_novelty \<Rightarrow> chunk option \<times> sorted_novelty" where
  "sn_range p s =
     (let (ds, s') = sn_flush s
      in if ds = [] then (None, s')
         else let b = lowerBound (sn_index s) ds p
              in if b \<ge> length ds then (None, s')
                 else let e = upperBound (sn_index s) ds p
                      in if b \<ge> e then (None, s')
                         else (Some \<lparr>c_datoms = ds, c_start = b, c_end = e\<rparr>, s'))"

definition sn_dropThrough :: "int \<Rightarrow> sorted_novelty \<Rightarrow> sorted_novelty" where
  "sn_dropThrough maxT s = (let (ds, s') = sn_flush s in s'\<lparr>sn_base := filter (\<lambda>d. d_t d > maxT) ds\<rparr>)"

definition sn_clear :: "sorted_novelty \<Rightarrow> sorted_novelty" where
  "sn_clear s = s\<lparr>sn_base := [], sn_pending := []\<rparr>"

text \<open>
  The buffer as the set it stands for, and its invariant: the base is sorted, and every
  datom given to it is well-formed.
\<close>

definition sn_abs :: "sorted_novelty \<Rightarrow> datom set" where
  "sn_abs s = set (sn_base s) \<union> set (sn_pending s)"

definition sn_inv :: "sorted_novelty \<Rightarrow> bool" where
  "sn_inv s \<longleftrightarrow> index_sorted (sn_index s) (sn_base s) \<and> (\<forall>d \<in> set (sn_pending s). datom_ok d)"

lemma index_sorted_dedup:
  "\<forall>d\<in>set ds. datom_ok d \<Longrightarrow> index_sorted i (dedup_adjacent (comparatorFor i) (js_sort (comparatorFor i) ds))"
  using idx.dedup_adjacent_strict [of ds i] idx.set_dedup_adjacent [of "js_sort (comparatorFor i) ds" i]
  by (simp add: index_sorted_def)

lemma set_index_dedup:
  "\<forall>d\<in>set ds. datom_ok d \<Longrightarrow> set (dedup_adjacent (comparatorFor i) (js_sort (comparatorFor i) ds)) = set ds"
  using idx.set_dedup_adjacent [of "js_sort (comparatorFor i) ds" i] by simp

lemma sn_flush_spec:
  assumes "sn_inv s" "sn_flush s = (ds, s')"
  shows "index_sorted (sn_index s) ds \<and> set ds = sn_abs s \<and> sn_base s' = ds \<and> sn_pending s' = [] \<and>
    sn_index s' = sn_index s"
proof -
  let ?c = "comparatorFor (sn_index s)"
  let ?dp = "dedup_adjacent ?c (js_sort ?c (sn_pending s))"
  have dp: "index_sorted (sn_index s) ?dp" "set ?dp = set (sn_pending s)"
    using assms(1) by (simp_all add: sn_inv_def index_sorted_dedup set_index_dedup)
  have b: "index_sorted (sn_index s) (sn_base s)" using assms(1) by (simp add: sn_inv_def)
  show ?thesis
    using assms(2) dp b index_sorted_merge_union [OF b dp(1)] set_index_merge_union [OF b dp(1)]
    by (auto simp: sn_flush_def sn_abs_def Let_def split: if_splits)
qed

lemma sn_range_spec:
  assumes "sn_inv s" "prefix_ok p" "sn_range p s = (r, s')" "sn_flush s = (ds, t)"
  shows "(case r of None \<Rightarrow> filter (matching (sn_index s) p) ds = []
    | Some c \<Rightarrow> c_start c < c_end c \<and> c_end c \<le> length (c_datoms c) \<and>
        chunk_slice c = filter (matching (sn_index s) p) ds) \<and> s' = t"
proof -
  let ?i = "sn_index s"
  have so: "index_sorted ?i ds" using sn_flush_spec [OF assms(1,4)] by simp
  note sl = slice_bounds [OF so assms(2)]
  have e: "upperBound ?i ds p \<le> length ds" using upperBound_le_length [OF so assms(2)] .
  show ?thesis
  proof (cases "ds = [] \<or> lowerBound ?i ds p \<ge> upperBound ?i ds p \<or> lowerBound ?i ds p \<ge> length ds")
    case True
    then have "filter (matching ?i p) ds = []" using sl by (auto simp flip: sl)
    moreover have "r = None \<and> s' = t" using True assms(3,4) by (auto simp: sn_range_def Let_def split: if_splits)
    ultimately show ?thesis by simp
  next
    case False
    then have "r = Some \<lparr>c_datoms = ds, c_start = lowerBound ?i ds p, c_end = upperBound ?i ds p\<rparr> \<and> s' = t"
      using assms(3,4) by (simp add: sn_range_def Let_def)
    with False e sl show ?thesis by (simp add: chunk_slice_def)
  qed
qed

text \<open>The operations refine the set operations and keep the invariant.\<close>

lemma sn_ops_inv [simp, intro]:
  "sn_inv (SortedNovelty i)"
  "sn_inv s \<Longrightarrow> \<forall>d\<in>set ds. datom_ok d \<Longrightarrow> sn_inv (sn_add ds s)"
  "sn_inv s \<Longrightarrow> sn_inv (snd (sn_flush s))"
  "sn_inv s \<Longrightarrow> sn_inv (sn_dropThrough m s)"
  "sn_inv (sn_clear s)"
proof -
  show "sn_inv (snd (sn_flush s))" if "sn_inv s"
    using sn_flush_spec [OF that, of "fst (sn_flush s)" "snd (sn_flush s)"] by (simp add: sn_inv_def)
  show "sn_inv (sn_dropThrough m s)" if "sn_inv s"
    using sn_flush_spec [OF that, of "fst (sn_flush s)" "snd (sn_flush s)"]
    by (simp add: sn_inv_def sn_dropThrough_def split_beta index_sorted_filter)
qed (auto simp: sn_inv_def SortedNovelty_def sn_add_def sn_clear_def)

lemma sn_ops_abs [simp]:
  "sn_abs (SortedNovelty i) = {}"
  "sn_abs (sn_add ds s) = sn_abs s \<union> set ds"
  "sn_inv s \<Longrightarrow> sn_abs (snd (sn_flush s)) = sn_abs s"
  "sn_inv s \<Longrightarrow> sn_abs (sn_dropThrough m s) = {d \<in> sn_abs s. d_t d > m}"
  "sn_abs (sn_clear s) = {}"
proof -
  show "sn_abs (snd (sn_flush s)) = sn_abs s" if "sn_inv s"
    using sn_flush_spec [OF that, of "fst (sn_flush s)" "snd (sn_flush s)"] by (simp add: sn_abs_def)
  show "sn_abs (sn_dropThrough m s) = {d \<in> sn_abs s. d_t d > m}" if "sn_inv s"
    using sn_flush_spec [OF that, of "fst (sn_flush s)" "snd (sn_flush s)"]
    by (auto simp: sn_abs_def sn_dropThrough_def split_beta)
qed (auto simp: sn_abs_def SortedNovelty_def sn_add_def sn_clear_def)

lemma sn_index_ops [simp]:
  "sn_index (SortedNovelty i) = i" "sn_index (sn_add ds s) = sn_index s"
  "sn_index (sn_dropThrough m s) = sn_index s" "sn_index (sn_clear s) = sn_index s"
  "sn_index (snd (sn_flush s)) = sn_index s"
  by (auto simp: SortedNovelty_def sn_add_def sn_dropThrough_def sn_clear_def sn_flush_def Let_def)

section \<open>The buffers of the four indexes\<close>

record novelty =
  nv_byIndex :: "index \<Rightarrow> sorted_novelty"
  nv_cached :: nat
  nv_seen :: int

definition Novelty_new :: novelty where
  "Novelty_new = \<lparr>nv_byIndex = SortedNovelty, nv_cached = 0, nv_seen = 0\<rparr>"

definition nv_update :: "index \<Rightarrow> (sorted_novelty \<Rightarrow> sorted_novelty) \<Rightarrow> novelty \<Rightarrow> novelty" where
  "nv_update i f n = n\<lparr>nv_byIndex := (nv_byIndex n)(i := f (nv_byIndex n i))\<rparr>"

definition nv_add :: "datom list \<Rightarrow> (int \<Rightarrow> bool) \<Rightarrow> (int \<Rightarrow> bool) \<Rightarrow> novelty \<Rightarrow> novelty" where
  "nv_add ds avet vaet n =
     (if ds = [] then n
      else
        let n1 = nv_update AEVT (sn_add ds) (nv_update EAVT (sn_add ds) n);
            av = filter (\<lambda>d. avet (d_a d)) ds;
            va = filter (\<lambda>d. vaet (d_a d)) ds;
            n2 = n1\<lparr>nv_seen := fold (\<lambda>d m. if d_t d > m then d_t d else m) ds (nv_seen n1)\<rparr>;
            n3 = (if av \<noteq> [] then nv_update AVET (sn_add av) n2 else n2);
            n4 = (if va \<noteq> [] then nv_update VAET (sn_add va) n3 else n3)
        in n4\<lparr>nv_cached := nv_cached n4 + length ds\<rparr>)"

definition nv_count :: "novelty \<Rightarrow> nat" where
  "nv_count n = sn_size (nv_byIndex n EAVT)"

definition nv_maxT :: "novelty \<Rightarrow> int" where
  "nv_maxT n = nv_seen n"

definition nv_dropThrough :: "int \<Rightarrow> novelty \<Rightarrow> novelty" where
  "nv_dropThrough maxT n =
     (let n' = fold (\<lambda>i. nv_update i (sn_dropThrough maxT)) ALL_INDEXES n
      in n'\<lparr>nv_cached := sn_size (nv_byIndex n' EAVT)\<rparr>)"

definition nv_clear :: "novelty \<Rightarrow> novelty" where
  "nv_clear n = (fold (\<lambda>i. nv_update i sn_clear) ALL_INDEXES n)\<lparr>nv_cached := 0\<rparr>"

text \<open>
  The four buffers hold one set of datoms, each index its share: \<open>keeps avet vaet i d\<close> says
  whether index \<open>i\<close> takes part in \<open>d\<close>'s attribute.
\<close>

fun keeps :: "(int \<Rightarrow> bool) \<Rightarrow> (int \<Rightarrow> bool) \<Rightarrow> index \<Rightarrow> datom \<Rightarrow> bool" where
  "keeps avet vaet AVET d = avet (d_a d)"
| "keeps avet vaet VAET d = vaet (d_a d)"
| "keeps avet vaet _ d = True"

definition nv_inv :: "novelty \<Rightarrow> bool" where
  "nv_inv n \<longleftrightarrow> (\<forall>i. sn_index (nv_byIndex n i) = i \<and> sn_inv (nv_byIndex n i))"

abbreviation nv_abs :: "novelty \<Rightarrow> index \<Rightarrow> datom set" where
  "nv_abs n i \<equiv> sn_abs (nv_byIndex n i)"

lemma nv_update_byIndex [simp]:
  "nv_byIndex (nv_update i f n) j = (if j = i then f (nv_byIndex n i) else nv_byIndex n j)"
  by (simp add: nv_update_def)

lemma nv_inv_new [simp]: "nv_inv Novelty_new"
  by (simp add: nv_inv_def Novelty_new_def)

lemma nv_add_byIndex:
  "nv_byIndex (nv_add ds avet vaet n) i =
     (let part = filter (keeps avet vaet i) ds in if part = [] then nv_byIndex n i else sn_add part (nv_byIndex n i))"
  by (cases i) (auto simp: nv_add_def Let_def cong: filter_cong)

lemma nv_add_inv:
  assumes "nv_inv n" "\<forall>d\<in>set ds. datom_ok d"
  shows "nv_inv (nv_add ds avet vaet n)"
  using assms by (auto simp: nv_inv_def nv_add_byIndex Let_def)

lemma nv_add_abs: "nv_abs (nv_add ds avet vaet n) i = nv_abs n i \<union> {d \<in> set ds. keeps avet vaet i d}"
  by (simp add: nv_add_byIndex Let_def) (auto simp: filter_empty_conv)

lemma nv_dropThrough_byIndex: "nv_byIndex (nv_dropThrough m n) i = sn_dropThrough m (nv_byIndex n i)"
  by (cases i) (simp_all add: nv_dropThrough_def ALL_INDEXES_def Let_def)

lemma nv_dropThrough_inv: "nv_inv n \<Longrightarrow> nv_inv (nv_dropThrough m n)"
  by (auto simp: nv_inv_def nv_dropThrough_byIndex)

lemma nv_dropThrough_abs: "nv_inv n \<Longrightarrow> nv_abs (nv_dropThrough m n) i = {d \<in> nv_abs n i. d_t d > m}"
  by (simp add: nv_inv_def nv_dropThrough_byIndex)

lemma nv_clear_byIndex: "nv_byIndex (nv_clear n) i = sn_clear (nv_byIndex n i)"
  by (cases i) (simp_all add: nv_clear_def ALL_INDEXES_def)

lemma nv_clear_inv: "nv_inv n \<Longrightarrow> nv_inv (nv_clear n)"
  by (auto simp: nv_inv_def nv_clear_byIndex)

lemma maxT_fold: "fold (\<lambda>d m. if d_t d > m then d_t d else m) ds m0 = fold max (map d_t ds) m0"
  by (induction ds arbitrary: m0) (auto simp: max_def)

section \<open>Merging a tree scan with a buffer\<close>

text \<open>
  The inner loops of \<open>mergeChunks\<close> on one chunk: the elements emitted and the novelty
  that is left.
\<close>

fun merge_into :: "('a \<Rightarrow> 'a \<Rightarrow> int) \<Rightarrow> 'a list \<Rightarrow> 'a list \<Rightarrow> 'a list \<times> 'a list" where
  "merge_into cmp [] ns = ([], ns)"
| "merge_into cmp (x # xs) [] = (x # xs, [])"
| "merge_into cmp (x # xs) (n # ns) =
     (let c = cmp x n
      in if c < 0 then let (out, left) = merge_into cmp xs (n # ns) in (x # out, left)
         else if c > 0 then let (out, left) = merge_into cmp (x # xs) ns in (n # out, left)
         else let (out, left) = merge_into cmp xs ns in (x # out, left))"

fun merge_chunk_list :: "(datom \<Rightarrow> datom \<Rightarrow> int) \<Rightarrow> datom list \<Rightarrow> nat \<Rightarrow> nat \<Rightarrow> chunk list \<Rightarrow> chunk list" where
  "merge_chunk_list cmp nds jEnd j [] =
     (if j < jEnd then [\<lparr>c_datoms = nds, c_start = j, c_end = jEnd\<rparr>] else [])"
| "merge_chunk_list cmp nds jEnd j (c # cs) =
     (let last = c_datoms c ! (c_end c - 1)
      in if j \<ge> jEnd \<or> cmp last (nds ! j) < 0 then c # merge_chunk_list cmp nds jEnd j cs
         else
           let (out, left) = merge_into cmp (chunk_slice c) (drop j (take jEnd nds));
               more = takeWhile (\<lambda>d. cmp d last \<le> 0) left;
               left' = dropWhile (\<lambda>d. cmp d last \<le> 0) left;
               ds = out @ more
           in \<lparr>c_datoms = ds, c_start = 0, c_end = length ds\<rparr> # merge_chunk_list cmp nds jEnd (jEnd - length left') cs)"

definition mergeChunks :: "(datom \<Rightarrow> datom \<Rightarrow> int) \<Rightarrow> chunk list \<Rightarrow> chunk option \<Rightarrow> chunk list" where
  "mergeChunks cmp tree nov =
     (case nov of None \<Rightarrow> tree | Some n \<Rightarrow> merge_chunk_list cmp (c_datoms n) (c_end n) (c_start n) tree)"

definition chunk_ok :: "chunk \<Rightarrow> bool" where
  "chunk_ok c \<longleftrightarrow> c_start c < c_end c \<and> c_end c \<le> length (c_datoms c)"

lemma chunk_slice_nonempty: "chunk_ok c \<Longrightarrow> chunk_slice c \<noteq> []"
  by (simp add: chunk_ok_def chunk_slice_def)

lemma chunk_slice_last: "chunk_ok c \<Longrightarrow> c_datoms c ! (c_end c - Suc 0) = last (chunk_slice c)"
  by (simp add: chunk_ok_def chunk_slice_def last_conv_nth min_absorb1 min_absorb2)

lemma chunk_slice_whole [simp]: "chunk_slice \<lparr>c_datoms = ds, c_start = 0, c_end = length ds\<rparr> = ds"
  by (simp add: chunk_slice_def)

lemma chunks_datoms_simps [simp]:
  "chunks_datoms [] = []" "chunks_datoms (c # cs) = chunk_slice c @ chunks_datoms cs"
  by (simp_all add: chunks_datoms_def)

context cmp_order begin

lemma merge_union_before:
  "strictly_sorted cmp xs \<Longrightarrow> \<forall>x\<in>set (xs @ ns). ok x \<Longrightarrow> xs \<noteq> [] \<Longrightarrow> ns \<noteq> [] \<Longrightarrow> cmp (last xs) (hd ns) < 0 \<Longrightarrow>
   merge_union cmp (xs @ ys) ns = xs @ merge_union cmp ys ns"
proof (induction xs)
  case (Cons x xs)
  obtain n ns' where ns: "ns = n # ns'" using Cons.prems by (cases ns) auto
  have "cmp x n < 0"
  proof (cases "xs = []")
    case False
    then have "cmp x (last xs) < 0" using Cons.prems by (simp add: strictly_sorted_def)
    then show ?thesis using cmp_less_trans [of x "last xs" n] Cons.prems False ns by (auto simp: last_in_set)
  qed (use Cons.prems ns in simp)
  with Cons ns show ?case by (cases "xs = []") (auto simp: strictly_sorted_def)
qed simp

lemma merge_into_concat:
  "merge_union cmp (xs @ ys) ns = fst (merge_into cmp xs ns) @ merge_union cmp ys (snd (merge_into cmp xs ns))"
  by (induction xs ns rule: list_pair_induct) (auto simp: Let_def split: prod.splits)

lemma merge_into_left: "\<exists>us. ns = us @ snd (merge_into cmp xs ns)"
proof (induction xs ns rule: list_pair_induct)
  case (Cons x xs n ns)
  then obtain us vs where "n # ns = us @ snd (merge_into cmp xs (n # ns))"
    "ns = vs @ snd (merge_into cmp (x # xs) ns)" by blast
  moreover obtain ws where "ns = ws @ snd (merge_into cmp xs ns)" using Cons.IH by blast
  ultimately show ?case
    by (simp add: Let_def split: prod.splits) (metis append_Cons snd_conv)
qed auto

lemma merge_into_above:
  "strictly_sorted cmp xs \<Longrightarrow> strictly_sorted cmp ns \<Longrightarrow> \<forall>x\<in>set xs \<union> set ns. ok x \<Longrightarrow> xs \<noteq> [] \<Longrightarrow>
   \<forall>d\<in>set (snd (merge_into cmp xs ns)). 0 < cmp d (last xs)"
proof (induction xs ns rule: list_pair_induct)
  case (Cons x xs n ns)
  have up: "0 < cmp d x" if "cmp x n \<le> 0" "d \<in> set ns" for d
    using that cmp_le_less_trans [of x n d] cmp_anti [of d x] Cons.prems by auto
  have "0 < cmp n x" if "cmp x n < 0" using that cmp_anti [of n x] Cons.prems by auto
  with up Cons show ?case
    by (cases "xs = []") (auto simp: Let_def split: prod.splits)
qed auto

end

lemma drop_take_length: "k \<le> n \<Longrightarrow> n \<le> length xs \<Longrightarrow> drop k (take n xs) = us @ vs \<Longrightarrow> drop (n - length vs) (take n xs) = vs"
proof -
  assume a: "k \<le> n" "n \<le> length xs" "drop k (take n xs) = us @ vs"
  then have "n - k = length us + length vs" by (metis length_append length_drop length_take min_absorb2)
  then have "n - length vs = length us + k" using a(1) by arith
  then have "drop (n - length vs) (take n xs) = drop (length us) (drop k (take n xs))" by simp
  then show ?thesis using a(3) by simp
qed

text \<open>
  The bounds, the order of what remains and the chunks left are carried along; each round
  emits a non-empty chunk.
\<close>

lemma merge_chunk_list_union:
  assumes "jEnd \<le> length nds" "index_sorted i (drop j (take jEnd nds))" "j \<le> jEnd"
    "index_sorted i (chunks_datoms cs)" "\<forall>c\<in>set cs. chunk_ok c"
  shows "chunks_datoms (merge_chunk_list (comparatorFor i) nds jEnd j cs) =
      merge_union (comparatorFor i) (chunks_datoms cs) (drop j (take jEnd nds)) \<and>
    (\<forall>c\<in>set (merge_chunk_list (comparatorFor i) nds jEnd j cs). chunk_ok c)"
  using assms
proof (induction cs arbitrary: j)
  case Nil
  then show ?case by (auto simp: chunk_slice_def chunk_ok_def)
next
  case (Cons c cs)
  let ?c = "comparatorFor i" and ?xs = "chunk_slice c" and ?ns = "drop j (take jEnd nds)"
  have ok: "chunk_ok c" "\<forall>c\<in>set cs. chunk_ok c" using Cons.prems by auto
  note ne = chunk_slice_nonempty [OF ok(1)]
  have so: "index_sorted i ?xs" "index_sorted i (chunks_datoms cs)"
    using Cons.prems by (simp_all add: index_sorted_append)
  show ?case
  proof (cases "jEnd \<le> j \<or> ?c (last ?xs) (nds ! j) < 0")
    case True
    have "merge_union ?c (?xs @ chunks_datoms cs) ?ns = ?xs @ merge_union ?c (chunks_datoms cs) ?ns"
    proof (cases "jEnd \<le> j")
      case False
      then have nn: "?ns \<noteq> []" "hd ?ns = nds ! j" using Cons.prems(1) by (simp_all add: hd_drop_conv_nth)
      have dok: "\<forall>x\<in>set (?xs @ ?ns). datom_ok x" using so(1) Cons.prems(2) unfolding index_sorted_def by simp blast
      have ss: "strictly_sorted ?c ?xs" using so(1) unfolding index_sorted_def ..
      have lt: "?c (last ?xs) (hd ?ns) < 0" unfolding nn(2) using True False by blast
      show ?thesis by (rule idx.merge_union_before [OF ss dok ne nn(1) lt])
    qed simp
    with True ok Cons.IH [OF Cons.prems(1,2,3) so(2) ok(2)] show ?thesis by (simp add: chunk_slice_last Let_def)
  next
    case False
    obtain out left where m: "merge_into ?c ?xs ?ns = (out, left)" by fastforce
    obtain us where us: "?ns = us @ left" using idx.merge_into_left [of ?ns i ?xs] m by auto
    have "\<forall>d\<in>set left. 0 < ?c d (last ?xs)"
      using idx.merge_into_above [of i ?xs ?ns] so(1) Cons.prems(2) ne m by (auto simp: index_sorted_def)
    then have tw: "takeWhile (\<lambda>d. ?c d (last ?xs) \<le> 0) left = []" "dropWhile (\<lambda>d. ?c d (last ?xs) \<le> 0) left = left"
      by (cases left; simp)+
    have left: "drop (jEnd - length left) (take jEnd nds) = left"
      by (rule drop_take_length [OF Cons.prems(3,1) us])
    have uni: "merge_union ?c (?xs @ chunks_datoms cs) ?ns = out @ merge_union ?c (chunks_datoms cs) left"
      using idx.merge_into_concat [of i ?xs "chunks_datoms cs" ?ns] m by simp
    have out: "out \<noteq> []"
      using m ne False Cons.prems(1) by (cases ?xs; cases ?ns) (auto simp: Let_def split: if_splits prod.splits)
    have "index_sorted i left" using Cons.prems(2) us by (simp add: index_sorted_append)
    with Cons.IH [of "jEnd - length left"] left Cons.prems(1) so(2) ok(2)
    have "chunks_datoms (merge_chunk_list ?c nds jEnd (jEnd - length left) cs) = merge_union ?c (chunks_datoms cs) left \<and>
      (\<forall>c\<in>set (merge_chunk_list ?c nds jEnd (jEnd - length left) cs). chunk_ok c)" by simp
    with False m tw uni ok(1) out show ?thesis by (simp add: chunk_slice_last chunk_ok_def Let_def)
  qed
qed

lemma mergeChunks_union:
  assumes "index_sorted i (chunks_datoms cs)" "\<forall>c\<in>set cs. chunk_ok c"
    "\<And>n. nov = Some n \<Longrightarrow> chunk_ok n \<and> index_sorted i (chunk_slice n)"
  shows "chunks_datoms (mergeChunks (comparatorFor i) cs nov) =
      merge_union (comparatorFor i) (chunks_datoms cs) (case nov of None \<Rightarrow> [] | Some n \<Rightarrow> chunk_slice n) \<and>
    (\<forall>c\<in>set (mergeChunks (comparatorFor i) cs nov). chunk_ok c)"
proof (cases nov)
  case (Some n)
  with assms merge_chunk_list_union [of "c_end n" "c_datoms n" i "c_start n" cs] show ?thesis
    by (simp add: mergeChunks_def chunk_ok_def chunk_slice_def)
qed (use assms in \<open>simp add: mergeChunks_def\<close>)

section \<open>Collapsing a history into present-tense facts\<close>

definition same_fact :: "datom \<Rightarrow> datom \<Rightarrow> bool" where
  "same_fact x y \<longleftrightarrow> d_e x = d_e y \<and> d_a x = d_a y \<and> valueEquals (d_v x) (d_v y)"

definition visible :: "int option \<Rightarrow> datom \<Rightarrow> bool" where
  "visible asOf d = (case asOf of None \<Rightarrow> True | Some t \<Rightarrow> \<not> d_t d > t)"

text \<open>The slices that are handed to \<open>isPlainChunk\<close> are never empty.\<close>

fun plain_from :: "int option \<Rightarrow> datom \<Rightarrow> datom list \<Rightarrow> bool" where
  "plain_from asOf prev [] = True"
| "plain_from asOf prev (d # ds) =
     (if \<not> d_op d \<or> \<not> visible asOf d then False
      else if same_fact prev d then False else plain_from asOf d ds)"

fun isPlainChunk :: "int option \<Rightarrow> datom list \<Rightarrow> bool" where
  "isPlainChunk asOf [] = False"
| "isPlainChunk asOf (d # ds) = (if \<not> d_op d \<or> \<not> visible asOf d then False else plain_from asOf d ds)"

definition continues :: "datom option \<Rightarrow> datom \<Rightarrow> bool" where
  "continues pend d = (case pend of None \<Rightarrow> False | Some p \<Rightarrow> same_fact p d)"

definition emit :: "datom option \<Rightarrow> datom list" where
  "emit pend = (case pend of None \<Rightarrow> [] | Some p \<Rightarrow> if d_op p then [p] else [])"

fun collapse_loop :: "int option \<Rightarrow> datom option \<Rightarrow> datom list \<Rightarrow> datom list \<times> datom option" where
  "collapse_loop asOf pend [] = ([], pend)"
| "collapse_loop asOf pend (d # ds) =
     (if \<not> visible asOf d then collapse_loop asOf pend ds
      else if continues pend d then collapse_loop asOf (Some d) ds
      else let (out, p) = collapse_loop asOf (Some d) ds in (emit pend @ out, p))"

definition collapseCurrent :: "int option \<Rightarrow> datom list \<Rightarrow> datom list" where
  "collapseCurrent asOf ds =
     (if ds = [] \<or> isPlainChunk asOf ds then ds
      else let (out, p) = collapse_loop asOf None ds in out @ emit p)"

text \<open>
  The generator keeps one pending datom, or holds back a whole plain leaf. One round takes
  a chunk to the arrays it yields and the next state.
\<close>

type_synonym cv_state = "datom option \<times> datom list option"

definition cv_release :: "datom \<Rightarrow> cv_state \<Rightarrow> datom list list \<times> datom option" where
  "cv_release first st =
     (case st of
        (pend, Some held) \<Rightarrow>
          if same_fact (last held) first
          then ((if length held > 1 then [butlast held] else []), Some (last held))
          else ([held], None)
      | (pend, None) \<Rightarrow> ([], pend))"

definition cv_settle :: "datom \<Rightarrow> datom option \<Rightarrow> datom list list \<times> datom option" where
  "cv_settle first pend =
     (case pend of
        Some p \<Rightarrow> if \<not> same_fact p first then ((if d_op p then [[p]] else []), None) else ([], pend)
      | None \<Rightarrow> ([], None))"

definition cv_step :: "int option \<Rightarrow> cv_state \<Rightarrow> chunk \<Rightarrow> datom list list \<times> cv_state" where
  "cv_step asOf st c =
     (let ds = c_datoms c; xs = chunk_slice c; first = ds ! c_start c;
          (ys1, p1) = cv_release first st;
          (ys2, p2) = cv_settle first p1
      in if p2 = None \<and> isPlainChunk asOf xs then
           (if c_start c = 0 \<and> c_end c = length ds then (ys1 @ ys2, (None, Some ds))
            else (ys1 @ ys2 @ (if c_end c - 1 > c_start c then [butlast xs] else []),
                  (Some (ds ! (c_end c - 1)), None)))
         else
           (let (out, p3) = collapse_loop asOf p2 xs
            in (ys1 @ ys2 @ (if out \<noteq> [] then [out] else []), (p3, None))))"

fun cv_run :: "int option \<Rightarrow> cv_state \<Rightarrow> chunk list \<Rightarrow> datom list list" where
  "cv_run asOf (pend, held) [] =
     (case held of Some hs \<Rightarrow> [hs] | None \<Rightarrow> if emit pend \<noteq> [] then [emit pend] else [])"
| "cv_run asOf st (c # cs) =
     (if c_start c \<ge> c_end c then cv_run asOf st cs
      else let (ys, st') = cv_step asOf st c in ys @ cv_run asOf st' cs)"

definition currentView :: "int option \<Rightarrow> chunk list \<Rightarrow> datom list list" where
  "currentView asOf chunks = cv_run asOf (None, None) chunks"

definition filterAsOf :: "int \<Rightarrow> chunk list \<Rightarrow> datom list list" where
  "filterAsOf asOf chunks = filter (\<lambda>out. out \<noteq> []) (map (\<lambda>c. filter (\<lambda>d. d_t d \<le> asOf) (chunk_slice c)) chunks)"

definition rawView :: "chunk list \<Rightarrow> datom list list" where
  "rawView chunks =
     map (\<lambda>c. if c_start c = 0 \<and> c_end c = length (c_datoms c) then c_datoms c else chunk_slice c) chunks"

definition matchesPrefix :: "index \<Rightarrow> datom \<Rightarrow> prefix \<Rightarrow> bool" where
  "matchesPrefix i d p = (comparePrefix i d p = 0)"

section \<open>The collapse of an array, specified\<close>

text \<open>
  The reference: the facts of a set of datoms as of \<open>t\<close> are the asserted datoms that no
  visible datom about the same fact postdates.
\<close>

definition currentFacts :: "int option \<Rightarrow> datom set \<Rightarrow> datom set" where
  "currentFacts asOf V =
     {d \<in> V. visible asOf d \<and> d_op d \<and>
       (\<forall>d' \<in> V. visible asOf d' \<and> d_e d' = d_e d \<and> d_a d' = d_a d \<and> d_v d' = d_v d \<longrightarrow> d_t d' \<le> d_t d)}"

text \<open>The collapse of an array of visible datoms after a pending one.\<close>

fun collapse :: "datom option \<Rightarrow> datom list \<Rightarrow> datom list" where
  "collapse pend [] = emit pend"
| "collapse pend (d # ds) = (if continues pend d then [] else emit pend) @ collapse (Some d) ds"

lemma emit_simps [simp]:
  "emit None = []" "emit (Some p) = (if d_op p then [p] else [])"
  "continues None d = False" "continues (Some p) d = same_fact p d"
  by (simp_all add: emit_def continues_def)

lemma collapse_loop_collapse:
  "collapse_loop asOf p ds = (out, q) \<Longrightarrow> collapse p (filter (visible asOf) ds @ es) = out @ collapse q es"
  by (induction ds arbitrary: p out q) (auto simp: Let_def split: if_splits prod.splits)

lemma plain_from_collapse:
  "plain_from asOf p ds \<Longrightarrow> d_op p \<Longrightarrow>
   filter (visible asOf) ds = ds \<and> d_op (last (p # ds)) \<and>
   collapse (Some p) (ds @ es) = butlast (p # ds) @ collapse (Some (last (p # ds))) es"
  by (induction ds arbitrary: p) (auto split: if_splits)

lemma isPlainChunk_collapse:
  assumes "isPlainChunk asOf ds"
  shows "ds \<noteq> [] \<and> filter (visible asOf) ds = ds \<and> d_op (last ds) \<and>
    collapse None (ds @ es) = butlast ds @ collapse (Some (last ds)) es"
  using assms plain_from_collapse [of asOf "hd ds" "tl ds" es] by (cases ds) (auto split: if_splits)

lemma collapseCurrent_collapse: "collapseCurrent asOf ds = collapse None (filter (visible asOf) ds)"
proof (cases "isPlainChunk asOf ds")
  case True
  from isPlainChunk_collapse [OF this, of "[]"] True show ?thesis
    by (simp add: collapseCurrent_def)
next
  case False
  obtain out q where "collapse_loop asOf None ds = (out, q)" by fastforce
  with collapse_loop_collapse [OF this, of "[]"] False show ?thesis by (auto simp: collapseCurrent_def)
qed

text \<open>Datoms about one fact are adjacent.\<close>

definition grouped :: "datom list \<Rightarrow> bool" where
  "grouped xs \<longleftrightarrow> (\<forall>x y z. subseq [x, y, z] xs \<longrightarrow> same_fact x z \<longrightarrow> same_fact x y)"

lemma grouped_subseq: "grouped xs \<Longrightarrow> subseq ys xs \<Longrightarrow> grouped ys"
  unfolding grouped_def by (meson subseq_order.trans)

lemma grouped_past:
  assumes "grouped (p # f # ds)" "\<not> same_fact p f" "d \<in> set (f # ds)"
  shows "\<not> same_fact p d"
proof (cases "d = f")
  case False
  then have "subseq [p, f, d] (p # f # ds)" using assms(3) by (auto simp: subseq_singleton_left)
  then show ?thesis using assms(1,2) by (auto simp: grouped_def)
qed (use assms in simp)

lemma collapse_past:
  "\<forall>d\<in>set ds. \<not> same_fact p d \<Longrightarrow> collapse (Some p) ds = emit (Some p) @ collapse None ds"
  by (cases ds) auto

text \<open>What a state of the generator still owes on the visible datoms to come.\<close>

fun cv_owes :: "cv_state \<Rightarrow> datom list \<Rightarrow> datom list" where
  "cv_owes (pend, None) ds = collapse pend ds"
| "cv_owes (pend, Some held) ds = butlast held @ collapse (Some (last held)) ds"

fun cv_tail :: "cv_state \<Rightarrow> datom list" where
  "cv_tail (None, None) = []"
| "cv_tail (Some p, None) = [p]"
| "cv_tail (pend, Some held) = [last held]"

fun cv_ok :: "cv_state \<Rightarrow> bool" where
  "cv_ok (pend, None) = True"
| "cv_ok (pend, Some held) = (held \<noteq> [] \<and> d_op (last held) \<and> pend = None)"

lemma collapse_loop_pending: "collapse_loop asOf p ds = (out, q) \<Longrightarrow> q = p \<or> (\<exists>d\<in>set ds. q = Some d)"
  by (induction ds arbitrary: p out q) (auto simp: Let_def split: if_splits prod.splits)

lemma collapse_loop_tail:
  "collapse_loop asOf p ds = (out, q) \<Longrightarrow> subseq (cv_tail (q, None)) (cv_tail (p, None) @ ds)"
  using collapse_loop_pending [of asOf p ds out q]
  by (auto simp: subseq_singleton_left)

lemma cv_release_spec:
  assumes "cv_release f st = (ys, p)" "cv_ok st" "grouped (cv_tail st @ f # ds)"
  shows "cv_owes st (filter (visible asOf) (f # ds)) = concat ys @ collapse p (filter (visible asOf) (f # ds)) \<and>
    subseq (cv_tail (p, None)) (cv_tail st)"
proof (cases st)
  case (Pair pend h)
  show ?thesis
  proof (cases h)
    case (Some held)
    have h: "held \<noteq> []" "d_op (last held)" using assms(2) Pair Some by auto
    show ?thesis
    proof (cases "same_fact (last held) f")
      case True
      with assms(1) h Pair Some show ?thesis by (cases held rule: rev_cases) (auto simp: cv_release_def)
    next
      case False
      have "\<forall>d\<in>set (f # ds). \<not> same_fact (last held) d"
        using grouped_past [of "last held" f ds] assms(3) False Pair Some by simp
      then have "collapse (Some (last held)) (filter (visible asOf) (f # ds)) = last held # collapse None (filter (visible asOf) (f # ds))"
        using collapse_past [of "filter (visible asOf) (f # ds)" "last held"] h by auto
      with assms(1) h False Pair Some show ?thesis by (auto simp: cv_release_def)
    qed
  qed (use assms Pair in \<open>auto simp: cv_release_def\<close>)
qed

lemma cv_settle_spec:
  assumes "cv_settle f p = (ys, q)" "grouped (cv_tail (p, None) @ f # ds)"
  shows "collapse p (filter (visible asOf) (f # ds)) = concat ys @ collapse q (filter (visible asOf) (f # ds)) \<and>
    (q = p \<or> q = None)"
proof (cases p)
  case (Some x)
  show ?thesis
  proof (cases "same_fact x f")
    case False
    have "\<forall>d\<in>set (f # ds). \<not> same_fact x d" using grouped_past [of x f ds] assms(2) False Some by simp
    then have "collapse (Some x) (filter (visible asOf) (f # ds)) = emit (Some x) @ collapse None (filter (visible asOf) (f # ds))"
      by (intro collapse_past) auto
    with assms(1) False Some show ?thesis by (auto simp: cv_settle_def)
  qed (use assms Some in \<open>auto simp: cv_settle_def\<close>)
qed (use assms in \<open>auto simp: cv_settle_def\<close>)

lemma cv_tail_cases: "q = p \<or> q = None \<Longrightarrow> subseq (cv_tail (q, None)) (cv_tail (p, None))"
  by auto

lemma chunk_slice_split:
  "chunk_ok c \<Longrightarrow> \<exists>xs. chunk_slice c = c_datoms c ! c_start c # xs"
  unfolding chunk_slice_def chunk_ok_def
  by (metis Cons_nth_drop_Suc length_take min_absorb2 nth_take)

lemma cv_step_spec:
  assumes "cv_step asOf st c = (ys, st')" "cv_ok st" "chunk_ok c" "grouped (cv_tail st @ chunk_slice c @ ds)"
  shows "cv_owes st (filter (visible asOf) (chunk_slice c @ ds)) = concat ys @ cv_owes st' (filter (visible asOf) ds) \<and>
    cv_ok st' \<and> grouped (cv_tail st' @ ds)"
proof -
  let ?f = "c_datoms c ! c_start c" and ?v = "filter (visible asOf)"
  obtain xs where xs: "chunk_slice c = ?f # xs" using chunk_slice_split [OF assms(3)] by blast
  obtain ys1 p1 where r: "cv_release ?f st = (ys1, p1)" by fastforce
  obtain ys2 p2 where s: "cv_settle ?f p1 = (ys2, p2)" by fastforce
  have R: "cv_owes st (?v (chunk_slice c @ ds)) = concat ys1 @ collapse p1 (?v (chunk_slice c @ ds))"
    "subseq (cv_tail (p1, None)) (cv_tail st)"
    using cv_release_spec [OF r assms(2), of "xs @ ds"] assms(4) unfolding xs by simp_all
  have g1: "grouped (cv_tail (p1, None) @ chunk_slice c @ ds)"
    by (rule grouped_subseq [OF assms(4)]) (simp add: R(2) list_emb_append_mono)
  have S: "collapse p1 (?v (chunk_slice c @ ds)) = concat ys2 @ collapse p2 (?v (chunk_slice c @ ds))" "p2 = p1 \<or> p2 = None"
    using cv_settle_spec [OF s, of "xs @ ds"] g1 unfolding xs by simp_all
  have g2: "grouped (cv_tail (p2, None) @ chunk_slice c @ ds)"
    by (rule grouped_subseq [OF g1]) (simp add: cv_tail_cases [OF S(2)] list_emb_append_mono)
  show ?thesis
  proof (cases "p2 = None \<and> isPlainChunk asOf (chunk_slice c)")
    case True
    note P = isPlainChunk_collapse [OF conjunct2 [OF True], of "?v ds"]
    have L: "last (chunk_slice c) = c_datoms c ! (c_end c - Suc 0)" by (simp add: chunk_slice_last [OF assms(3)])
    have "subseq [last (chunk_slice c)] (chunk_slice c)" using P by (simp add: subseq_singleton_left)
    then have g3: "grouped (last (chunk_slice c) # ds)"
      using grouped_subseq [OF g2, of "[last (chunk_slice c)] @ ds"] True
        list_emb_append_mono [of "(=)" "[last (chunk_slice c)]" "chunk_slice c" ds ds] by simp
    have B: "butlast (chunk_slice c) = [] \<longleftrightarrow> \<not> c_start c < c_end c - Suc 0"
    proof -
      have "length (butlast (chunk_slice c)) = c_end c - Suc 0 - c_start c"
        using assms(3) by (simp add: chunk_slice_def chunk_ok_def)
      then show ?thesis by (metis length_0_conv zero_less_diff not_gr_zero)
    qed
    have W: "chunk_slice c = c_datoms c" if "c_start c = 0 \<and> c_end c = length (c_datoms c)"
      using that by (simp add: chunk_slice_def)
    show ?thesis using assms(1) R S True P L g3 B W r s
      by (auto simp: cv_step_def Let_def split: if_splits)
  next
    case False
    obtain out p3 where l: "collapse_loop asOf p2 (chunk_slice c) = (out, p3)" by fastforce
    have "grouped (cv_tail (p3, None) @ ds)"
      using grouped_subseq [OF g2, of "cv_tail (p3, None) @ ds"] list_emb_append_mono [OF collapse_loop_tail [OF l], of ds ds]
      by simp
    with collapse_loop_collapse [OF l, of "?v ds"] assms(1) R S False r s l show ?thesis
      by (auto simp: cv_step_def Let_def)
  qed
qed

lemma cv_run_spec:
  assumes "cv_ok st" "\<forall>c\<in>set cs. c_start c < c_end c \<longrightarrow> chunk_ok c" "grouped (cv_tail st @ chunks_datoms cs)"
  shows "concat (cv_run asOf st cs) = cv_owes st (filter (visible asOf) (chunks_datoms cs))"
  using assms
proof (induction cs arbitrary: st)
  case Nil
  obtain p h where "st = (p, h)" by fastforce
  with Nil show ?case by (cases h; cases p) auto
next
  case (Cons c cs)
  show ?case
  proof (cases "c_start c < c_end c")
    case True
    then have ok: "chunk_ok c" using Cons.prems by simp
    obtain ys st' where st: "cv_step asOf st c = (ys, st')" by (rule prod.exhaust)
    have g: "grouped (cv_tail st @ chunk_slice c @ chunks_datoms cs)" using Cons.prems(3) by simp
    note S = cv_step_spec [OF st Cons.prems(1) ok g]
    have "concat (cv_run asOf st' cs) = cv_owes st' (filter (visible asOf) (chunks_datoms cs))"
      by (rule Cons.IH) (use S Cons.prems(2) in auto)
    with S st True show ?thesis by simp
  next
    case False
    then have "chunk_slice c = []" by (simp add: chunk_slice_def)
    with False Cons show ?thesis by simp
  qed
qed

lemma currentView_collapse:
  assumes "grouped (chunks_datoms cs)" "\<forall>c\<in>set cs. c_start c < c_end c \<longrightarrow> chunk_ok c"
  shows "concat (currentView asOf cs) = collapseCurrent asOf (chunks_datoms cs)"
  using cv_run_spec [of "(None, None)" cs asOf] assms by (simp add: currentView_def collapseCurrent_collapse)

section \<open>Sorted histories\<close>

lemma same_fact_iff:
  "datom_ok x \<Longrightarrow> datom_ok y \<Longrightarrow> same_fact x y \<longleftrightarrow> d_e x = d_e y \<and> d_a x = d_a y \<and> d_v x = d_v y"
  by (auto simp: same_fact_def datom_ok_def valueEquals_iff)

lemma same_fact_sym: "datom_ok x \<Longrightarrow> datom_ok y \<Longrightarrow> same_fact x y \<Longrightarrow> same_fact y x"
  by (simp add: same_fact_iff)

lemma same_fact_trans:
  "datom_ok x \<Longrightarrow> datom_ok y \<Longrightarrow> datom_ok z \<Longrightarrow> same_fact x y \<Longrightarrow> same_fact y z \<Longrightarrow> same_fact x z"
  by (simp add: same_fact_iff)

text \<open>A datom with transaction and operation blanked compares by its fact alone.\<close>

definition fact_key :: "datom \<Rightarrow> datom" where
  "fact_key d = \<lparr>d_e = d_e d, d_a = d_a d, d_v = d_v d, d_t = 0, d_op = True\<rparr>"

lemma fact_key_ok: "datom_ok d \<Longrightarrow> datom_ok (fact_key d)"
  by (simp add: datom_ok_def fact_key_def id_ok_def MAX_ID_def)

lemma fact_key_le: "comparatorFor i x y \<le> 0 \<Longrightarrow> comparatorFor i (fact_key x) (fact_key y) \<le> 0"
  by (cases i) (auto simp: comparator_defs fact_key_def or_else_def cmpOp_def split: if_splits)

lemma fact_key_eq: "datom_ok x \<Longrightarrow> datom_ok y \<Longrightarrow> fact_key x = fact_key y \<longleftrightarrow> same_fact x y"
  by (auto simp: same_fact_iff fact_key_def)

lemma fact_between:
  assumes "datom_ok x" "datom_ok y" "datom_ok z" "comparatorFor i x y \<le> 0" "comparatorFor i y z \<le> 0" "same_fact x z"
  shows "same_fact x y"
proof -
  have eq: "fact_key x = fact_key z" using assms fact_key_eq by blast
  have "comparatorFor i (fact_key x) (fact_key y) \<le> 0" "comparatorFor i (fact_key y) (fact_key x) \<le> 0"
    using fact_key_le [OF assms(4)] fact_key_le [OF assms(5)] eq by simp_all
  then have "comparatorFor i (fact_key x) (fact_key y) = 0"
    using idx.cmp_le_ge [of "fact_key y" "fact_key x" i] assms(1,2) by (simp add: fact_key_ok)
  then have "fact_key x = fact_key y" by (rule comparator_zero [rotated 2]) (use assms in \<open>simp_all add: fact_key_ok\<close>)
  then show ?thesis using assms fact_key_eq by blast
qed

lemma index_sorted_subseq: "subseq ys xs \<Longrightarrow> index_sorted i xs \<Longrightarrow> index_sorted i ys"
  by (induction rule: list_emb.induct) (auto dest: list_emb_set)

lemma index_sorted_grouped: "index_sorted i xs \<Longrightarrow> grouped xs"
  unfolding grouped_def
proof (intro allI impI)
  fix x y z
  assume "index_sorted i xs" "subseq [x, y, z] xs" "same_fact x z"
  moreover from this have "index_sorted i [x, y, z]" using index_sorted_subseq by blast
  ultimately show "same_fact x y" using fact_between [of x y z i] by auto
qed

lemma collapse_subseq: "subseq (collapse p ds) (emit p @ ds)"
proof (induction ds arbitrary: p)
  case (Cons d ds)
  have "subseq (emit (Some d) @ ds) (d # ds)" by (auto intro: list_emb_Cons)
  with Cons [of "Some d"] have "subseq (collapse (Some d) ds) (d # ds)" using subseq_order.trans by blast
  then show ?case by (simp add: list_emb_append_mono subseq_drop_many)
qed simp

lemma collapse_sorted: "index_sorted i ds \<Longrightarrow> index_sorted i (collapse None ds)"
  using index_sorted_subseq [OF collapse_subseq [of None ds]] by simp

text \<open>In any index the versions of one fact are in the order of their transactions, retractions first.\<close>

lemma comparator_same_fact:
  assumes "datom_ok x" "datom_ok y" "same_fact x y" "comparatorFor i x y < 0"
  shows "d_t x < d_t y \<or> d_t x = d_t y \<and> \<not> d_op x"
proof -
  have e: "d_e x = d_e y" "d_a x = d_a y" "d_v x = d_v y" using assms same_fact_iff by blast+
  then have "compareValue (d_v x) (d_v y) = 0"
    using assms(2) value_cmp.cmp_refl by (simp add: datom_ok_def)
  with e assms(4) show ?thesis
    by (cases i) (auto simp: comparator_defs or_else_def cmpNum_def cmpOp_def split: if_splits)
qed

definition newest :: "datom set \<Rightarrow> datom set" where
  "newest S = {d \<in> S. d_op d \<and> (\<forall>d'\<in>S. same_fact d' d \<longrightarrow> d_t d' \<le> d_t d)}"

lemma newest_superseded:
  assumes "d \<in> S" "same_fact p d" "same_fact d p" "\<And>x. x \<in> S \<Longrightarrow> same_fact p x \<Longrightarrow> same_fact d x"
    "d_t p < d_t d \<or> d_t p = d_t d \<and> \<not> d_op p"
  shows "newest (insert p S) = newest S"
proof (rule set_eqI)
  fix x
  have "x \<noteq> p" if "x \<in> newest (insert p S)" using that assms(1,3,5) by (auto simp: newest_def)
  moreover have "d_t p \<le> d_t x" if "x \<in> newest S" "same_fact p x"
    using that assms(1,4,5) by (fastforce simp: newest_def)
  ultimately show "x \<in> newest (insert p S) \<longleftrightarrow> x \<in> newest S" by (auto simp: newest_def)
qed

lemma newest_alone:
  assumes "\<forall>x\<in>S. \<not> same_fact p x \<and> \<not> same_fact x p"
  shows "newest (insert p S) = set (emit (Some p)) \<union> newest S"
  using assms by (auto simp: newest_def)

lemma collapse_current:
  "index_sorted i (p # ds) \<Longrightarrow> set (collapse (Some p) ds) = newest (set (p # ds))"
proof (induction ds arbitrary: p)
  case Nil
  then show ?case by (auto simp: newest_def)
next
  case (Cons d ds)
  have IH: "set (collapse (Some d) ds) = newest (set (d # ds))" by (rule Cons.IH) (use Cons.prems in simp)
  have ok: "datom_ok p" "datom_ok d" "\<And>x. x \<in> set (d # ds) \<Longrightarrow> datom_ok x" using Cons.prems by (auto simp: index_sorted_def)
  have lt: "comparatorFor i p d < 0" using Cons.prems by simp
  show ?case
  proof (cases "same_fact p d")
    case True
    have "newest (insert p (set (d # ds))) = newest (set (d # ds))"
    proof (rule newest_superseded [of d])
      show dp: "same_fact d p" by (rule same_fact_sym [OF ok(1,2) True])
      show "same_fact d x" if "x \<in> set (d # ds)" "same_fact p x" for x
        by (rule same_fact_trans [OF ok(2,1) ok(3) [OF that(1)] dp that(2)])
    qed (use True comparator_same_fact [OF ok(1,2) True lt] in simp_all)
    with IH True show ?thesis by simp
  next
    case False
    have "\<not> same_fact p x \<and> \<not> same_fact x p" if x: "x \<in> set (d # ds)" for x
      using grouped_past [OF index_sorted_grouped [OF Cons.prems] False x] same_fact_sym [OF ok(3) [OF x] ok(1)] by blast
    then have "newest (insert p (set (d # ds))) = set (emit (Some p)) \<union> newest (set (d # ds))"
      using newest_alone by blast
    with IH False show ?thesis by simp
  qed
qed

lemma collapseCurrent_facts:
  assumes "index_sorted i ds"
  shows "set (collapseCurrent asOf ds) = currentFacts asOf (set ds) \<and> index_sorted i (collapseCurrent asOf ds)"
proof -
  let ?vs = "filter (visible asOf) ds"
  have s: "index_sorted i ?vs" using assms by (rule index_sorted_filter)
  then have ok: "\<forall>d\<in>set ?vs. datom_ok d" by (simp add: index_sorted_def)
  have "set (collapse None ?vs) = newest (set ?vs)"
  proof (cases ?vs)
    case (Cons p xs)
    with collapse_current [of i p xs] s show ?thesis by simp
  qed (simp add: newest_def)
  also have "\<dots> = currentFacts asOf (set ds)"
  proof (rule set_eqI)
    fix d
    have "same_fact d' d \<longleftrightarrow> d_e d' = d_e d \<and> d_a d' = d_a d \<and> d_v d' = d_v d" if "d \<in> set ?vs" "d' \<in> set ?vs" for d'
      using that ok same_fact_iff by blast
    then show "d \<in> newest (set ?vs) \<longleftrightarrow> d \<in> currentFacts asOf (set ds)"
      by (simp add: newest_def currentFacts_def) blast
  qed
  finally show ?thesis using collapse_sorted [OF s] by (simp add: collapseCurrent_collapse)
qed

end
