(* ===== verification/SchemaModel.thy ===== *)
theory SchemaModel
  imports Datoms JsMap
begin

text \<open>
  Schema (\<open>internal/core/schema.ts\<close>): attributes are entities described by datoms, and a
  \<open>Schema\<close> is the projection of those datoms the engine consults. The attribute table is
  at every moment the image of the accumulated descriptions, so applying datoms in one
  batch or in several gives the same attributes.
\<close>

section \<open>System attributes\<close>

definition DB_IDENT :: int where "DB_IDENT = 10"
definition DB_VALUE_TYPE :: int where "DB_VALUE_TYPE = 40"
definition DB_CARDINALITY :: int where "DB_CARDINALITY = 41"
definition DB_UNIQUE :: int where "DB_UNIQUE = 42"
definition DB_IS_COMPONENT :: int where "DB_IS_COMPONENT = 43"
definition DB_INDEX :: int where "DB_INDEX = 44"
definition DB_TX_INSTANT :: int where "DB_TX_INSTANT = 50"
definition DB_DOC :: int where "DB_DOC = 62"

definition FIRST_USER_EID :: int where "FIRST_USER_EID = 1000"
definition TX_BASE :: int where "TX_BASE = 2 ^ 42"

definition txEid :: "int \<Rightarrow> int" where "txEid t = TX_BASE + t"
definition isTxEid :: "int \<Rightarrow> bool" where "isTxEid e \<longleftrightarrow> e \<ge> TX_BASE"
definition tOfTxEid :: "int \<Rightarrow> int" where "tOfTxEid e = e - TX_BASE"

lemmas system_ids = DB_IDENT_def DB_VALUE_TYPE_def DB_CARDINALITY_def DB_UNIQUE_def
  DB_IS_COMPONENT_def DB_INDEX_def DB_TX_INSTANT_def DB_DOC_def

section \<open>Attributes\<close>

datatype cardinality = One | Many
datatype uniqueness = UIdentity | UValue

text \<open>
  The value type is \<open>None\<close> when the stored name is that of a property every object
  inherits: the table lookup then yields a function, which is none of the tags.
\<close>

record attribute =
  at_id :: int
  at_ident :: jsstr
  at_valueType :: "vtag option"
  at_cardinality :: cardinality
  at_unique :: "uniqueness option"
  at_index :: bool
  at_isComponent :: bool
  at_doc :: "jsstr option"

definition VALUE_TYPE_IDENTS :: "(jsstr \<times> vtag) list" where
  "VALUE_TYPE_IDENTS =
     [(js '':db.type/long'', Long), (js '':db.type/double'', Double), (js '':db.type/string'', Str),
      (js '':db.type/boolean'', Bool), (js '':db.type/ref'', Ref), (js '':db.type/uuid'', Uuid),
      (js '':db.type/instant'', Inst), (js '':db.type/bytes'', Bytes)]"

text \<open>The properties of \<open>Object.prototype\<close>, which \<open>in\<close> and indexing also find.\<close>

definition INHERITED :: "jsstr list" where
  "INHERITED =
     map js [''constructor'', ''toString'', ''valueOf'', ''hasOwnProperty'', ''isPrototypeOf'',
       ''propertyIsEnumerable'', ''toLocaleString'', ''__proto__'', ''__defineGetter__'',
       ''__defineSetter__'', ''__lookupGetter__'', ''__lookupSetter__'']"

text \<open>\<open>VALUE_TYPE_IDENTS[s]\<close>: \<open>None\<close> is \<open>undefined\<close>, \<open>Some None\<close> an inherited property.\<close>

definition valueTypeOf :: "jsstr \<Rightarrow> vtag option option" where
  "valueTypeOf s =
     (case map_of VALUE_TYPE_IDENTS s of
        Some t \<Rightarrow> Some (Some t)
      | None \<Rightarrow> if s \<in> set INHERITED then Some None else None)"

fun VALUE_TYPE_NAMES :: "vtag \<Rightarrow> jsstr" where
  "VALUE_TYPE_NAMES Long = js '':db.type/long''"
| "VALUE_TYPE_NAMES Double = js '':db.type/double''"
| "VALUE_TYPE_NAMES Str = js '':db.type/string''"
| "VALUE_TYPE_NAMES Bool = js '':db.type/boolean''"
| "VALUE_TYPE_NAMES Ref = js '':db.type/ref''"
| "VALUE_TYPE_NAMES Uuid = js '':db.type/uuid''"
| "VALUE_TYPE_NAMES Inst = js '':db.type/instant''"
| "VALUE_TYPE_NAMES Bytes = js '':db.type/bytes''"

record attribute_spec =
  sp_ident :: jsstr
  sp_valueType :: "jsstr + vtag"
  sp_cardinality :: "cardinality option"
  sp_unique :: "uniqueness option"
  sp_index :: bool
  sp_isComponent :: bool
  sp_doc :: "jsstr option"

definition cardinality_name :: "cardinality \<Rightarrow> jsstr" where
  "cardinality_name c = (case c of One \<Rightarrow> js '':db.cardinality/one'' | Many \<Rightarrow> js '':db.cardinality/many'')"

definition unique_name :: "uniqueness \<Rightarrow> jsstr" where
  "unique_name u = (case u of UIdentity \<Rightarrow> js '':db.unique/identity'' | UValue \<Rightarrow> js '':db.unique/value'')"

definition assert_str :: "int \<Rightarrow> int \<Rightarrow> jsstr \<Rightarrow> int \<Rightarrow> datom" where
  "assert_str e a s t = \<lparr>d_e = e, d_a = a, d_v = VStr s, d_t = t, d_op = True\<rparr>"

definition assert_true :: "int \<Rightarrow> int \<Rightarrow> int \<Rightarrow> datom" where
  "assert_true e a t = \<lparr>d_e = e, d_a = a, d_v = VBool True, d_t = t, d_op = True\<rparr>"

text \<open>
  A spec whose type name is an inherited property passes the check for \<open>undefined\<close> and then
  looks up a name under a function; that \<open>undefined\<close> payload has no value here, so the
  case is the error it leads to when the datom is encoded.
\<close>

definition attributeDatoms :: "int \<Rightarrow> attribute_spec \<Rightarrow> int \<Rightarrow> datom list res" where
  "attributeDatoms e spec t =
     (case (case sp_valueType spec of Inl s \<Rightarrow> valueTypeOf s | Inr tag \<Rightarrow> Some (Some tag)) of
        None \<Rightarrow> Inl (Error ''unknown valueType'')
      | Some None \<Rightarrow> Inl (TypeError ''undefined value'')
      | Some (Some tag) \<Rightarrow>
          Inr ([assert_str e DB_IDENT (sp_ident spec) t,
                assert_str e DB_VALUE_TYPE (VALUE_TYPE_NAMES tag) t,
                assert_str e DB_CARDINALITY (cardinality_name (case sp_cardinality spec of Some c \<Rightarrow> c | None \<Rightarrow> One)) t]
            @ (case sp_unique spec of Some u \<Rightarrow> [assert_str e DB_UNIQUE (unique_name u) t] | None \<Rightarrow> [])
            @ (if sp_index spec then [assert_true e DB_INDEX t] else [])
            @ (if sp_isComponent spec then [assert_true e DB_IS_COMPONENT t] else [])
            @ (case sp_doc spec of Some s \<Rightarrow> if s = [] then [] else [assert_str e DB_DOC s t] | None \<Rightarrow> [])))"

definition system_spec :: "string \<Rightarrow> string \<Rightarrow> attribute_spec" where
  "system_spec name ty =
     \<lparr>sp_ident = js name, sp_valueType = Inl (js ty), sp_cardinality = Some One, sp_unique = None,
      sp_index = False, sp_isComponent = False, sp_doc = None\<rparr>"

definition BOOTSTRAP_SPECS :: "(int \<times> attribute_spec) list" where
  "BOOTSTRAP_SPECS =
     [(DB_IDENT, (system_spec '':db/ident'' '':db.type/string'')
         \<lparr>sp_unique := Some UIdentity, sp_doc := Some (js ''Unique name of an entity'')\<rparr>),
      (DB_VALUE_TYPE, system_spec '':db/valueType'' '':db.type/string''),
      (DB_CARDINALITY, system_spec '':db/cardinality'' '':db.type/string''),
      (DB_UNIQUE, system_spec '':db/unique'' '':db.type/string''),
      (DB_IS_COMPONENT, system_spec '':db/isComponent'' '':db.type/boolean''),
      (DB_INDEX, system_spec '':db/index'' '':db.type/boolean''),
      (DB_TX_INSTANT, (system_spec '':db/txInstant'' '':db.type/instant'')\<lparr>sp_index := True\<rparr>),
      (DB_DOC, system_spec '':db/doc'' '':db.type/string'')]"

definition bootstrapDatoms :: "datom list res" where
  "bootstrapDatoms =
     rmap (\<lambda>dss. concat dss @ [\<lparr>d_e = txEid 1, d_a = DB_TX_INSTANT, d_v = VInst 0, d_t = 1, d_op = True\<rparr>])
       (rmaplist (\<lambda>(i, s). attributeDatoms i s 1) BOOTSTRAP_SPECS)"

section \<open>The projection\<close>

record partial_attr =
  pa_ident :: "jsstr option"
  pa_valueType :: "jsstr option"
  pa_cardinality :: "jsstr option"
  pa_unique :: "jsstr option"
  pa_index :: "bool option"
  pa_isComponent :: "bool option"
  pa_doc :: "jsstr option"

definition empty_partial :: partial_attr where
  "empty_partial = \<lparr>pa_ident = None, pa_valueType = None, pa_cardinality = None, pa_unique = None,
     pa_index = None, pa_isComponent = None, pa_doc = None\<rparr>"

record schema =
  sc_byId :: "(int, attribute) jsmap"
  sc_byIdent :: "(jsstr, attribute) jsmap"
  sc_idents :: "(jsstr, int) jsmap"
  sc_identOf :: "(int, jsstr) jsmap"
  sc_partials :: "(int, partial_attr) jsmap"

definition Schema_new :: schema where
  "Schema_new = \<lparr>sc_byId = [], sc_byIdent = [], sc_idents = [], sc_identOf = [], sc_partials = []\<rparr>"

text \<open>Copying the maps makes an equal value; the model's maps are not shared in the first place.\<close>

definition Schema_clone :: "schema \<Rightarrow> schema" where
  "Schema_clone s =
     \<lparr>sc_byId = fold (\<lambda>(k, v). jm_set k v) (sc_byId s) [], sc_byIdent = fold (\<lambda>(k, v). jm_set k v) (sc_byIdent s) [],
      sc_idents = fold (\<lambda>(k, v). jm_set k v) (sc_idents s) [], sc_identOf = fold (\<lambda>(k, v). jm_set k v) (sc_identOf s) [],
      sc_partials = fold (\<lambda>(k, v). jm_set k v) (sc_partials s) []\<rparr>"

text \<open>
  The casts \<open>d.v as string\<close> and \<open>d.v as boolean\<close>. A uuid is a string at run time too; on the
  other types the casts are not used, as transaction processing gives every system
  attribute a value of its declared type.
\<close>

fun as_str :: "tagged_value \<Rightarrow> jsstr" where
  "as_str (VStr s) = s"
| "as_str (VUuid s) = s"
| "as_str _ = []"

fun as_bool :: "tagged_value \<Rightarrow> bool" where
  "as_bool (VBool b) = b"
| "as_bool _ = False"

definition rebuild_attr :: "int \<Rightarrow> partial_attr \<Rightarrow> attribute option" where
  "rebuild_attr e p =
     (case (pa_ident p, pa_valueType p) of
        (Some i, Some ty) \<Rightarrow>
          if i = [] \<or> ty = [] then None
          else (case valueTypeOf ty of
            None \<Rightarrow> None
          | Some vty \<Rightarrow>
              (let unique = (if pa_unique p = Some (js '':db.unique/identity'') then Some UIdentity
                             else if pa_unique p = Some (js '':db.unique/value'') then Some UValue else None)
               in Some \<lparr>at_id = e, at_ident = i, at_valueType = vty,
                    at_cardinality = (if pa_cardinality p = Some (js '':db.cardinality/many'') then Many else One),
                    at_unique = unique, at_index = (pa_index p = Some True \<or> unique \<noteq> None),
                    at_isComponent = (pa_isComponent p = Some True), at_doc = pa_doc p\<rparr>))
      | _ \<Rightarrow> None)"

definition Schema_rebuild :: "int \<Rightarrow> schema \<Rightarrow> schema" where
  "Schema_rebuild e s =
     (let s1 = (case jm_get (sc_byId s) e of
                  Some old \<Rightarrow> s\<lparr>sc_byId := jm_delete e (sc_byId s), sc_byIdent := jm_delete (at_ident old) (sc_byIdent s)\<rparr>
                | None \<Rightarrow> s)
      in case (case jm_get (sc_partials s) e of Some p \<Rightarrow> rebuild_attr e p | None \<Rightarrow> None) of
           None \<Rightarrow> s1
         | Some attr \<Rightarrow> s1\<lparr>sc_byId := jm_set e attr (sc_byId s1), sc_byIdent := jm_set (at_ident attr) attr (sc_byIdent s1)\<rparr>)"

text \<open>One datom of \<open>apply\<close>: how the description of its entity changes, when it is about one.\<close>

definition partial_step :: "datom \<Rightarrow> partial_attr \<Rightarrow> partial_attr option" where
  "partial_step d p =
     (let s = (if d_op d then Some (as_str (d_v d)) else None); b = (if d_op d then Some (as_bool (d_v d)) else None)
      in if d_a d > DB_DOC then None
         else if d_a d = DB_IDENT then
           Some (if d_op d then p\<lparr>pa_ident := s\<rparr>
                 else if pa_ident p = Some (as_str (d_v d)) then p\<lparr>pa_ident := None\<rparr> else p)
         else if d_a d = DB_VALUE_TYPE then Some (p\<lparr>pa_valueType := s\<rparr>)
         else if d_a d = DB_CARDINALITY then Some (p\<lparr>pa_cardinality := s\<rparr>)
         else if d_a d = DB_UNIQUE then Some (p\<lparr>pa_unique := s\<rparr>)
         else if d_a d = DB_INDEX then Some (p\<lparr>pa_index := b\<rparr>)
         else if d_a d = DB_IS_COMPONENT then Some (p\<lparr>pa_isComponent := b\<rparr>)
         else if d_a d = DB_DOC then Some (p\<lparr>pa_doc := s\<rparr>)
         else None)"

definition partial_of :: "schema \<Rightarrow> int \<Rightarrow> partial_attr" where
  "partial_of s e = (case jm_get (sc_partials s) e of Some p \<Rightarrow> p | None \<Rightarrow> empty_partial)"

definition ident_step :: "datom \<Rightarrow> schema \<Rightarrow> schema" where
  "ident_step d s =
     (let i = as_str (d_v d)
      in if d_a d \<noteq> DB_IDENT then s
         else if d_op d then s\<lparr>sc_idents := jm_set i (d_e d) (sc_idents s), sc_identOf := jm_set (d_e d) i (sc_identOf s)\<rparr>
         else s\<lparr>sc_idents := (if jm_get (sc_idents s) i = Some (d_e d) then jm_delete i (sc_idents s) else sc_idents s),
                sc_identOf := jm_delete (d_e d) (sc_identOf s)\<rparr>)"

definition Schema_step :: "datom \<Rightarrow> schema \<times> int list \<Rightarrow> schema \<times> int list" where
  "Schema_step d st =
     (case st of (s, touched) \<Rightarrow>
        (case partial_step d (partial_of s (d_e d)) of
           None \<Rightarrow> (s, touched)
         | Some p \<Rightarrow>
             (ident_step d (s\<lparr>sc_partials := jm_set (d_e d) p (sc_partials s)\<rparr>),
              if d_e d \<in> set touched then touched else touched @ [d_e d])))"

definition Schema_apply :: "datom list \<Rightarrow> schema \<Rightarrow> schema" where
  "Schema_apply ds s = (let (s', touched) = fold Schema_step ds (s, []) in fold Schema_rebuild touched s')"

definition Schema_bootstrap :: "schema res" where
  "Schema_bootstrap = rmap (\<lambda>ds. Schema_apply ds Schema_new) bootstrapDatoms"

definition attr_by_id :: "schema \<Rightarrow> int \<Rightarrow> attribute option" where
  "attr_by_id s e = jm_get (sc_byId s) e"

definition attr_by_ident :: "schema \<Rightarrow> jsstr \<Rightarrow> attribute option" where
  "attr_by_ident s i = jm_get (sc_byIdent s) i"

definition Schema_attr :: "schema \<Rightarrow> int + jsstr \<Rightarrow> attribute option" where
  "Schema_attr s x = (case x of Inl e \<Rightarrow> attr_by_id s e | Inr i \<Rightarrow> attr_by_ident s i)"

definition requireAttr :: "schema \<Rightarrow> int + jsstr \<Rightarrow> attribute res" where
  "requireAttr s x = (case Schema_attr s x of Some a \<Rightarrow> Inr a | None \<Rightarrow> Inl (Error ''unknown attribute''))"

definition Schema_entid :: "schema \<Rightarrow> jsstr \<Rightarrow> int option" where
  "Schema_entid s i = jm_get (sc_idents s) i"

definition Schema_ident :: "schema \<Rightarrow> int \<Rightarrow> jsstr option" where
  "Schema_ident s e = jm_get (sc_identOf s) e"

definition Schema_attributes :: "schema \<Rightarrow> attribute list" where
  "Schema_attributes s = map snd (sc_byId s)"

definition isAvet :: "schema \<Rightarrow> int \<Rightarrow> bool" where
  "isAvet s a = (case attr_by_id s a of None \<Rightarrow> False | Some at \<Rightarrow> at_index at)"

definition isVaet :: "schema \<Rightarrow> int \<Rightarrow> bool" where
  "isVaet s a = (case attr_by_id s a of None \<Rightarrow> False | Some at \<Rightarrow> at_valueType at = Some Ref)"

section \<open>The attribute table is the image of the descriptions\<close>

definition attr_of :: "schema \<Rightarrow> int \<Rightarrow> attribute option" where
  "attr_of s e = (case jm_get (sc_partials s) e of None \<Rightarrow> None | Some p \<Rightarrow> rebuild_attr e p)"

definition schema_inv :: "schema \<Rightarrow> bool" where
  "schema_inv s \<longleftrightarrow> (\<forall>e. attr_by_id s e = attr_of s e)"

lemma ident_step_simps [simp]:
  "sc_partials (ident_step d s) = sc_partials s" "sc_byId (ident_step d s) = sc_byId s"
  "sc_byIdent (ident_step d s) = sc_byIdent s"
  by (simp_all add: ident_step_def Let_def)

lemma Schema_step_simps [simp]:
  "sc_byId (fst (Schema_step d st)) = sc_byId (fst st)"
  "sc_byIdent (fst (Schema_step d st)) = sc_byIdent (fst st)"
  by (auto simp: Schema_step_def split: prod.splits option.splits)

lemma Schema_step_touched:
  "set (snd st) \<subseteq> set (snd (Schema_step d st))"
  "e \<notin> set (snd (Schema_step d st)) \<Longrightarrow> jm_get (sc_partials (fst (Schema_step d st))) e = jm_get (sc_partials (fst st)) e"
  by (auto simp: Schema_step_def split: prod.splits option.splits if_splits)

lemma fold_Schema_step:
  "sc_byId (fst (fold Schema_step ds st)) = sc_byId (fst st) \<and>
   set (snd st) \<subseteq> set (snd (fold Schema_step ds st)) \<and>
   (\<forall>e. e \<notin> set (snd (fold Schema_step ds st)) \<longrightarrow>
      jm_get (sc_partials (fst (fold Schema_step ds st))) e = jm_get (sc_partials (fst st)) e)"
proof (induction ds arbitrary: st)
  case (Cons d ds)
  note IH = Cons.IH [of "Schema_step d st"] and T = Schema_step_touched [where st = st and d = d]
  have "jm_get (sc_partials (fst (fold Schema_step (d # ds) st))) e = jm_get (sc_partials (fst st)) e"
    if e: "e \<notin> set (snd (fold Schema_step (d # ds) st))" for e
  proof -
    have "e \<notin> set (snd (Schema_step d st))" using e IH by auto
    then show ?thesis using e IH T(2) by simp
  qed
  with IH T(1) show ?case by auto
qed simp

lemma Schema_rebuild_simps [simp]:
  "sc_partials (Schema_rebuild e s) = sc_partials s" "sc_idents (Schema_rebuild e s) = sc_idents s"
  "sc_identOf (Schema_rebuild e s) = sc_identOf s"
  by (auto simp: Schema_rebuild_def Let_def split: option.splits)

lemma attr_of_cong: "sc_partials s = sc_partials s' \<Longrightarrow> attr_of s e = attr_of s' e"
  by (simp add: attr_of_def)

lemma Schema_rebuild_attr: "attr_by_id (Schema_rebuild e s) e' = (if e' = e then attr_of s e else attr_by_id s e')"
  by (auto simp: Schema_rebuild_def attr_of_def attr_by_id_def Let_def split: option.splits)

lemma fold_Schema_rebuild:
  "sc_partials (fold Schema_rebuild es s) = sc_partials s \<and> sc_idents (fold Schema_rebuild es s) = sc_idents s \<and>
   sc_identOf (fold Schema_rebuild es s) = sc_identOf s \<and>
   attr_by_id (fold Schema_rebuild es s) e = (if e \<in> set es then attr_of s e else attr_by_id s e)"
proof (induction es arbitrary: s)
  case (Cons x es)
  have "attr_of (Schema_rebuild x s) e = attr_of s e" by (rule attr_of_cong) simp
  with Cons [of "Schema_rebuild x s"] show ?case by (auto simp: Schema_rebuild_attr)
qed simp

definition apply_partials :: "datom list \<Rightarrow> schema \<Rightarrow> schema" where
  "apply_partials ds s = fst (fold Schema_step ds (s, []))"

lemma Schema_apply_split:
  "Schema_apply ds s = fold Schema_rebuild (snd (fold Schema_step ds (s, []))) (apply_partials ds s)"
  by (simp add: Schema_apply_def apply_partials_def split_beta)

lemma Schema_apply_partials [simp]:
  "sc_partials (Schema_apply ds s) = sc_partials (apply_partials ds s)"
  "sc_idents (Schema_apply ds s) = sc_idents (apply_partials ds s)"
  "sc_identOf (Schema_apply ds s) = sc_identOf (apply_partials ds s)"
  using fold_Schema_rebuild by (simp_all add: Schema_apply_split)

lemma Schema_apply_inv:
  assumes "schema_inv s"
  shows "schema_inv (Schema_apply ds s)"
proof -
  let ?st = "fold Schema_step ds (s, [])"
  have "attr_by_id (Schema_apply ds s) e = attr_of (Schema_apply ds s) e" for e
  proof -
    have c: "attr_of (Schema_apply ds s) e = attr_of (fst ?st) e"
      by (rule attr_of_cong) (simp add: apply_partials_def)
    show ?thesis
    proof (cases "e \<in> set (snd ?st)")
      case True
      then show ?thesis using c fold_Schema_rebuild [where e = e] by (simp add: Schema_apply_split apply_partials_def)
    next
      case False
      then have "attr_of (fst ?st) e = attr_of s e" using fold_Schema_step [of ds "(s, [])"] by (simp add: attr_of_def)
      moreover have "attr_by_id (fst ?st) e = attr_by_id s e"
        using fold_Schema_step [of ds "(s, [])"] by (simp add: attr_by_id_def)
      ultimately show ?thesis
        using False c assms fold_Schema_rebuild [where e = e]
        by (simp add: Schema_apply_split apply_partials_def schema_inv_def)
    qed
  qed
  then show ?thesis by (simp add: schema_inv_def)
qed

lemma schema_inv_new [simp]: "schema_inv Schema_new"
  by (simp add: schema_inv_def attr_of_def attr_by_id_def Schema_new_def)

text \<open>The table by ident only points into the table by id.\<close>

definition ident_inv :: "schema \<Rightarrow> bool" where
  "ident_inv s \<longleftrightarrow> (\<forall>i at. attr_by_ident s i = Some at \<longrightarrow> at_ident at = i \<and> attr_by_id s (at_id at) = Some at)"

lemma rebuild_attr_id: "rebuild_attr e p = Some at \<Longrightarrow> at_id at = e"
  by (auto simp: rebuild_attr_def Let_def split: option.splits if_splits)

lemma attr_by_id_id: "schema_inv s \<Longrightarrow> attr_by_id s e = Some at \<Longrightarrow> at_id at = e"
  by (auto simp: schema_inv_def attr_of_def dest: rebuild_attr_id split: option.splits)

lemma Schema_rebuild_ident:
  "attr_by_ident (Schema_rebuild e s) i =
     (case attr_of s e of
        Some at \<Rightarrow> if i = at_ident at then Some at
                   else (case attr_by_id s e of Some old \<Rightarrow> if i = at_ident old then None else attr_by_ident s i | None \<Rightarrow> attr_by_ident s i)
      | None \<Rightarrow> (case attr_by_id s e of Some old \<Rightarrow> if i = at_ident old then None else attr_by_ident s i | None \<Rightarrow> attr_by_ident s i))"
  by (auto simp: Schema_rebuild_def attr_of_def attr_by_id_def attr_by_ident_def Let_def split: option.splits)

lemma attr_of_id: "attr_of s e = Some at \<Longrightarrow> at_id at = e"
  by (auto simp: attr_of_def dest: rebuild_attr_id split: option.splits)

lemma Schema_rebuild_ident_inv:
  assumes "ident_inv s" "\<And>at. attr_by_id s e = Some at \<Longrightarrow> at_id at = e"
  shows "ident_inv (Schema_rebuild e s)"
  unfolding ident_inv_def
proof (intro allI impI)
  fix i at
  assume a: "attr_by_ident (Schema_rebuild e s) i = Some at"
  show "at_ident at = i \<and> attr_by_id (Schema_rebuild e s) (at_id at) = Some at"
  proof (cases "attr_of s e = Some at \<and> i = at_ident at")
    case True
    then show ?thesis using attr_of_id [of s e at] by (simp add: Schema_rebuild_attr)
  next
    case False
    then have old: "attr_by_ident s i = Some at" "\<And>o'. attr_by_id s e = Some o' \<Longrightarrow> i \<noteq> at_ident o'"
      using a by (auto simp: Schema_rebuild_ident split: option.splits if_splits)
    then have "at_ident at = i" "attr_by_id s (at_id at) = Some at" using assms(1) by (auto simp: ident_inv_def)
    moreover from this old(2) have "at_id at \<noteq> e" by auto
    ultimately show ?thesis by (simp add: Schema_rebuild_attr)
  qed
qed

lemma fold_rebuild_ident_inv:
  assumes "ident_inv s" "\<And>e at. attr_by_id s e = Some at \<Longrightarrow> at_id at = e"
  shows "ident_inv (fold Schema_rebuild es s)"
  using assms
proof (induction es arbitrary: s)
  case (Cons e es)
  have "ident_inv (Schema_rebuild e s)" by (rule Schema_rebuild_ident_inv) (use Cons.prems in auto)
  moreover have "at_id at = x" if "attr_by_id (Schema_rebuild e s) x = Some at" for x at
    using that Cons.prems(2) attr_of_id by (auto simp: Schema_rebuild_attr split: if_splits)
  ultimately show ?case using Cons.IH [of "Schema_rebuild e s"] by simp
qed simp

lemma fold_step_byIdent: "sc_byIdent (fst (fold Schema_step ds st)) = sc_byIdent (fst st)"
  by (induction ds arbitrary: st) simp_all

lemma Schema_apply_ident_inv:
  assumes "ident_inv s" "schema_inv s"
  shows "ident_inv (Schema_apply ds s)"
  unfolding Schema_apply_split
proof (rule fold_rebuild_ident_inv)
  have e: "sc_byIdent (apply_partials ds s) = sc_byIdent s" "sc_byId (apply_partials ds s) = sc_byId s"
    using fold_step_byIdent [of ds "(s, [])"] fold_Schema_step [of ds "(s, [])"] by (simp_all add: apply_partials_def)
  then show "ident_inv (apply_partials ds s)" using assms(1) by (simp add: ident_inv_def attr_by_ident_def attr_by_id_def)
  show "at_id at = x" if "attr_by_id (apply_partials ds s) x = Some at" for x at
    using that e(2) attr_by_id_id [OF assms(2)] by (simp add: attr_by_id_def)
qed

lemma ident_inv_new [simp]: "ident_inv Schema_new"
  by (simp add: ident_inv_def attr_by_ident_def Schema_new_def)

section \<open>Batches\<close>

text \<open>The parts of a schema that the datoms determine directly.\<close>

definition same_descriptions :: "schema \<Rightarrow> schema \<Rightarrow> bool" where
  "same_descriptions s s' \<longleftrightarrow>
     sc_partials s = sc_partials s' \<and> sc_idents s = sc_idents s' \<and> sc_identOf s = sc_identOf s'"

lemma ident_step_same: "same_descriptions s s' \<Longrightarrow> same_descriptions (ident_step d s) (ident_step d s')"
  by (simp add: same_descriptions_def ident_step_def Let_def)

lemma Schema_step_same:
  "same_descriptions s s' \<Longrightarrow> same_descriptions (fst (Schema_step d (s, es))) (fst (Schema_step d (s', es')))"
  by (auto simp: Schema_step_def partial_of_def same_descriptions_def ident_step_def Let_def split: option.splits)

lemma fold_Schema_step_same:
  "same_descriptions s s' \<Longrightarrow>
   same_descriptions (fst (fold Schema_step ds (s, es))) (fst (fold Schema_step ds (s', es')))"
proof (induction ds arbitrary: s s' es es')
  case (Cons d ds)
  have "same_descriptions (fst (Schema_step d (s, es))) (fst (Schema_step d (s', es')))"
    by (rule Schema_step_same [OF Cons.prems])
  then show ?case
    using Cons.IH [of "fst (Schema_step d (s, es))" "fst (Schema_step d (s', es'))"
        "snd (Schema_step d (s, es))" "snd (Schema_step d (s', es'))"] by simp
qed simp

lemma Schema_apply_append_same:
  "same_descriptions (Schema_apply (xs @ ys) s) (Schema_apply ys (Schema_apply xs s))"
proof -
  obtain s1 es where st: "fold Schema_step xs (s, []) = (s1, es)" by fastforce
  have "same_descriptions s1 (Schema_apply xs s)"
    using Schema_apply_partials [of xs s] by (simp add: same_descriptions_def apply_partials_def st)
  from fold_Schema_step_same [OF this, of ys es "[]"] show ?thesis
    using Schema_apply_partials [of "xs @ ys" s] Schema_apply_partials [of ys "Schema_apply xs s"]
    by (simp add: same_descriptions_def apply_partials_def st)
qed

lemma same_descriptions_attr:
  "schema_inv s \<Longrightarrow> schema_inv s' \<Longrightarrow> same_descriptions s s' \<Longrightarrow> attr_by_id s = attr_by_id s'"
  by (rule ext) (simp add: schema_inv_def attr_of_def same_descriptions_def)

lemma Schema_apply_append:
  assumes "schema_inv s"
  shows "attr_by_id (Schema_apply (xs @ ys) s) = attr_by_id (Schema_apply ys (Schema_apply xs s))"
  by (intro same_descriptions_attr Schema_apply_append_same Schema_apply_inv assms)

lemma isAvet_cong: "attr_by_id s = attr_by_id s' \<Longrightarrow> isAvet s = isAvet s'"
  by (rule ext) (simp add: isAvet_def)

lemma isVaet_cong: "attr_by_id s = attr_by_id s' \<Longrightarrow> isVaet s = isVaet s'"
  by (rule ext) (simp add: isVaet_def)

section \<open>Cloning\<close>

lemma fold_jm_set: "jm_ok (acc @ m) \<Longrightarrow> fold (\<lambda>(k, v). jm_set k v) m acc = acc @ m"
proof (induction m arbitrary: acc)
  case (Cons kv m)
  obtain k v where kv: "kv = (k, v)" by fastforce
  have "k \<notin> fst ` set acc" using Cons.prems kv by (auto simp: jm_ok_def)
  then have "jm_set k v acc = acc @ [(k, v)]" by (induction acc) auto
  with Cons kv show ?case by simp
qed simp

definition schema_maps_ok :: "schema \<Rightarrow> bool" where
  "schema_maps_ok s \<longleftrightarrow> jm_ok (sc_byId s) \<and> jm_ok (sc_byIdent s) \<and> jm_ok (sc_idents s) \<and> jm_ok (sc_identOf s) \<and> jm_ok (sc_partials s)"

lemma Schema_clone_id: "schema_maps_ok s \<Longrightarrow> Schema_clone s = s"
  by (simp add: Schema_clone_def schema_maps_ok_def fold_jm_set [of "[]", simplified])

lemma ident_step_maps: "schema_maps_ok s \<Longrightarrow> schema_maps_ok (ident_step d s)"
  by (auto simp: schema_maps_ok_def ident_step_def Let_def)

lemma Schema_step_maps: "schema_maps_ok (fst st) \<Longrightarrow> schema_maps_ok (fst (Schema_step d st))"
  by (auto simp: Schema_step_def split: prod.splits option.splits intro!: ident_step_maps)
    (auto simp: schema_maps_ok_def)

lemma fold_step_maps: "schema_maps_ok (fst st) \<Longrightarrow> schema_maps_ok (fst (fold Schema_step ds st))"
  by (induction ds arbitrary: st) (simp_all add: Schema_step_maps)

lemma Schema_rebuild_maps: "schema_maps_ok s \<Longrightarrow> schema_maps_ok (Schema_rebuild e s)"
  by (auto simp: schema_maps_ok_def Schema_rebuild_def Let_def split: option.splits)

lemma fold_rebuild_maps: "schema_maps_ok s \<Longrightarrow> schema_maps_ok (fold Schema_rebuild es s)"
  by (induction es arbitrary: s) (simp_all add: Schema_rebuild_maps)

lemma Schema_apply_maps: "schema_maps_ok s \<Longrightarrow> schema_maps_ok (Schema_apply ds s)"
  using fold_step_maps [of "(s, [])" ds] by (simp add: Schema_apply_split apply_partials_def fold_rebuild_maps)

lemma schema_maps_new [simp]: "schema_maps_ok Schema_new"
  by (simp add: schema_maps_ok_def Schema_new_def)

section \<open>Describing an attribute\<close>

text \<open>The attribute a spec describes.\<close>

definition spec_attribute :: "int \<Rightarrow> attribute_spec \<Rightarrow> vtag \<Rightarrow> attribute" where
  "spec_attribute e spec tag =
     \<lparr>at_id = e, at_ident = sp_ident spec, at_valueType = Some tag,
      at_cardinality = (case sp_cardinality spec of Some c \<Rightarrow> c | None \<Rightarrow> One), at_unique = sp_unique spec,
      at_index = (sp_index spec \<or> sp_unique spec \<noteq> None), at_isComponent = sp_isComponent spec,
      at_doc = (case sp_doc spec of Some s \<Rightarrow> if s = [] then None else Some s | None \<Rightarrow> None)\<rparr>"

fun partial_steps :: "datom list \<Rightarrow> partial_attr \<Rightarrow> partial_attr" where
  "partial_steps [] p = p"
| "partial_steps (d # ds) p = partial_steps ds (case partial_step d p of Some p' \<Rightarrow> p' | None \<Rightarrow> p)"

lemma partial_of_step:
  "partial_of (fst (Schema_step d st)) e =
     (if d_e d = e then (case partial_step d (partial_of (fst st) e) of Some p \<Rightarrow> p | None \<Rightarrow> partial_of (fst st) e)
      else partial_of (fst st) e)"
  by (auto simp: Schema_step_def partial_of_def split: prod.splits option.splits)

lemma partial_of_fold:
  "\<forall>d\<in>set ds. d_e d = e \<Longrightarrow> partial_of (fst (fold Schema_step ds st)) e = partial_steps ds (partial_of (fst st) e)"
  by (induction ds arbitrary: st) (simp_all add: partial_of_step)

lemma rebuild_empty [simp]: "rebuild_attr e empty_partial = None"
  by (simp add: rebuild_attr_def empty_partial_def)

lemma attr_of_partial: "attr_of s e = rebuild_attr e (partial_of s e)"
  by (auto simp: attr_of_def partial_of_def split: option.splits)

lemma valueTypeOf_name: "valueTypeOf (VALUE_TYPE_NAMES tag) = Some (Some tag)" "VALUE_TYPE_NAMES tag \<noteq> []"
  by (cases tag; simp add: valueTypeOf_def VALUE_TYPE_IDENTS_def js_def)+

lemma names_distinct [simp]:
  "js '':db.cardinality/one'' \<noteq> js '':db.cardinality/many''" "js '':db.unique/value'' \<noteq> js '':db.unique/identity''"
  by (simp_all add: js_def)

definition described :: "attribute_spec \<Rightarrow> vtag \<Rightarrow> partial_attr" where
  "described spec tag =
    \<lparr>pa_ident = Some (sp_ident spec), pa_valueType = Some (VALUE_TYPE_NAMES tag),
     pa_cardinality = Some (cardinality_name (case sp_cardinality spec of Some c \<Rightarrow> c | None \<Rightarrow> One)),
     pa_unique = map_option unique_name (sp_unique spec), pa_index = (if sp_index spec then Some True else None),
     pa_isComponent = (if sp_isComponent spec then Some True else None),
     pa_doc = (case sp_doc spec of Some s \<Rightarrow> if s = [] then None else Some s | None \<Rightarrow> None)\<rparr>"

lemma partial_steps_spec:
  assumes "attributeDatoms e spec t = Inr ds"
  shows "(\<forall>d\<in>set ds. d_e d = e) \<and> (\<exists>tag. partial_steps ds empty_partial = described spec tag \<and>
    (case sp_valueType spec of Inl s \<Rightarrow> valueTypeOf s = Some (Some tag) | Inr tag' \<Rightarrow> tag' = tag))"
proof -
  obtain tag where tag: "case sp_valueType spec of Inl s \<Rightarrow> valueTypeOf s = Some (Some tag) | Inr tag' \<Rightarrow> tag' = tag"
    using assms by (auto simp: attributeDatoms_def split: sum.splits option.splits)
  then have ds: "ds = [assert_str e DB_IDENT (sp_ident spec) t,
                assert_str e DB_VALUE_TYPE (VALUE_TYPE_NAMES tag) t,
                assert_str e DB_CARDINALITY (cardinality_name (case sp_cardinality spec of Some c \<Rightarrow> c | None \<Rightarrow> One)) t]
            @ (case sp_unique spec of Some u \<Rightarrow> [assert_str e DB_UNIQUE (unique_name u) t] | None \<Rightarrow> [])
            @ (if sp_index spec then [assert_true e DB_INDEX t] else [])
            @ (if sp_isComponent spec then [assert_true e DB_IS_COMPONENT t] else [])
            @ (case sp_doc spec of Some s \<Rightarrow> if s = [] then [] else [assert_str e DB_DOC s t] | None \<Rightarrow> [])"
    using assms by (auto simp: attributeDatoms_def split: sum.splits option.splits)
  show ?thesis
  proof (intro conjI exI [of _ tag] tag)
    show "\<forall>d\<in>set ds. d_e d = e"
      unfolding ds by (auto simp: assert_str_def assert_true_def split: option.splits)
  qed (cases "sp_unique spec"; cases "sp_doc spec"; cases "sp_index spec"; cases "sp_isComponent spec";
       simp add: ds described_def partial_step_def assert_str_def assert_true_def system_ids empty_partial_def)
qed

lemma names_back [simp]:
  "(if map_option unique_name u = Some (js '':db.unique/identity'') then Some UIdentity
    else if map_option unique_name u = Some (js '':db.unique/value'') then Some UValue else None) = u"
  "(if Some (cardinality_name c) = Some (js '':db.cardinality/many'') then Many else One) = c"
  "(if b then Some True else None) = Some True \<longleftrightarrow> b"
proof -
  show "(if map_option unique_name u = Some (js '':db.unique/identity'') then Some UIdentity
    else if map_option unique_name u = Some (js '':db.unique/value'') then Some UValue else None) = u"
  proof (cases u)
    case (Some x)
    then show ?thesis by (cases x) (simp_all add: unique_name_def)
  qed simp
  show "(if Some (cardinality_name c) = Some (js '':db.cardinality/many'') then Many else One) = c"
    by (cases c) (simp_all add: cardinality_name_def)
qed simp

lemma rebuild_described:
  assumes "sp_ident spec \<noteq> []"
  shows "rebuild_attr e (described spec tag) = Some (spec_attribute e spec tag)"
  unfolding described_def rebuild_attr_def spec_attribute_def Let_def partial_attr.simps names_back
  using assms valueTypeOf_name [of tag] by simp

lemma attribute_described:
  assumes "schema_inv s" "jm_get (sc_partials s) e = None" "attributeDatoms e spec t = Inr ds" "sp_ident spec \<noteq> []"
  shows "\<exists>tag. attr_by_id (Schema_apply ds s) e = Some (spec_attribute e spec tag) \<and>
    (case sp_valueType spec of Inl n \<Rightarrow> valueTypeOf n = Some (Some tag) | Inr tag' \<Rightarrow> tag' = tag)"
proof -
  note P = partial_steps_spec [OF assms(3)]
  have "partial_of s e = empty_partial" using assms(2) by (simp add: partial_of_def)
  then have p: "partial_of (apply_partials ds s) e = partial_steps ds empty_partial"
    using partial_of_fold [of ds e "(s, [])"] P by (simp add: apply_partials_def)
  have "attr_by_id (Schema_apply ds s) e = rebuild_attr e (partial_of (apply_partials ds s) e)"
    using Schema_apply_inv [OF assms(1), of ds] by (simp add: schema_inv_def attr_of_partial partial_of_def)
  moreover obtain tag where "partial_steps ds empty_partial = described spec tag"
    "case sp_valueType spec of Inl n \<Rightarrow> valueTypeOf n = Some (Some tag) | Inr tag' \<Rightarrow> tag' = tag"
    using P by blast
  ultimately show ?thesis using rebuild_described [OF assms(4)] p by auto
qed

section \<open>The bootstrap schema\<close>

lemma bootstrapDatoms_ok:
  "case bootstrapDatoms of Inl e \<Rightarrow> False | Inr ds \<Rightarrow> list_all (\<lambda>d. datom_ok d \<and> d_t d = 1 \<and> d_op d) ds"
  by code_simp

lemma bootstrap_attributes:
  "case Schema_bootstrap of
     Inl e \<Rightarrow> False
   | Inr s \<Rightarrow> map at_id (Schema_attributes s) = map fst BOOTSTRAP_SPECS \<and>
       attr_by_id s DB_IDENT = Some (spec_attribute DB_IDENT (snd (hd BOOTSTRAP_SPECS)) Str)"
  by code_simp

lemma bootstrap_inv: "Schema_bootstrap = Inr s \<Longrightarrow> schema_inv s \<and> ident_inv s \<and> schema_maps_ok s"
  by (auto simp: Schema_bootstrap_def res_simps intro: Schema_apply_inv Schema_apply_ident_inv Schema_apply_maps)

section \<open>What datoms say of an attribute\<close>

text \<open>
  The reference of the projection, written over the datoms alone: the value an entity has for
  a system attribute is what the last datom about both leaves, its ident is the last asserted
  one that no later datom retracts, and an attribute is an entity with an ident and a type.
\<close>

fun newest_value :: "int \<Rightarrow> int \<Rightarrow> datom list \<Rightarrow> tagged_value option" where
  "newest_value e a [] = None"
| "newest_value e a (d # ds) =
     (if d_e d = e \<and> d_a d = a then (if d_op d then Some (d_v d) else None) else newest_value e a ds)"

fun newest_ident :: "int \<Rightarrow> datom list \<Rightarrow> jsstr option" where
  "newest_ident e [] = None"
| "newest_ident e (d # ds) =
     (if d_e d = e \<and> d_a d = DB_IDENT then
        (if d_op d then Some (as_str (d_v d))
         else if newest_ident e ds = Some (as_str (d_v d)) then None else newest_ident e ds)
      else newest_ident e ds)"

definition described_attribute :: "datom list \<Rightarrow> int \<Rightarrow> attribute option" where
  "described_attribute ds e =
     (let string_at = (\<lambda>a. map_option as_str (newest_value e a (rev ds)));
          true_at = (\<lambda>a. map_option as_bool (newest_value e a (rev ds)) = Some True);
          unique = (if string_at DB_UNIQUE = Some (js '':db.unique/identity'') then Some UIdentity
                    else if string_at DB_UNIQUE = Some (js '':db.unique/value'') then Some UValue else None)
      in case (newest_ident e (rev ds), string_at DB_VALUE_TYPE) of
           (Some i, Some name) \<Rightarrow>
             if i = [] \<or> name = [] then None
             else map_option (\<lambda>tag.
               \<lparr>at_id = e, at_ident = i, at_valueType = tag,
                at_cardinality = (if string_at DB_CARDINALITY = Some (js '':db.cardinality/many'') then Many else One),
                at_unique = unique, at_index = (true_at DB_INDEX \<or> unique \<noteq> None),
                at_isComponent = true_at DB_IS_COMPONENT, at_doc = string_at DB_DOC\<rparr>) (valueTypeOf name)
         | _ \<Rightarrow> None)"

definition partial_said :: "datom list \<Rightarrow> int \<Rightarrow> partial_attr" where
  "partial_said rds e =
     \<lparr>pa_ident = newest_ident e rds, pa_valueType = map_option as_str (newest_value e DB_VALUE_TYPE rds),
      pa_cardinality = map_option as_str (newest_value e DB_CARDINALITY rds),
      pa_unique = map_option as_str (newest_value e DB_UNIQUE rds), pa_index = map_option as_bool (newest_value e DB_INDEX rds),
      pa_isComponent = map_option as_bool (newest_value e DB_IS_COMPONENT rds),
      pa_doc = map_option as_str (newest_value e DB_DOC rds)\<rparr>"

lemma partial_said_step:
  "partial_said (d # rds) e =
     (if d_e d = e then (case partial_step d (partial_said rds e) of Some p \<Rightarrow> p | None \<Rightarrow> partial_said rds e) else partial_said rds e)"
proof (cases "d_e d = e")
  case True
  consider "d_a d = DB_IDENT" | "d_a d = DB_VALUE_TYPE" | "d_a d = DB_CARDINALITY" | "d_a d = DB_UNIQUE" | "d_a d = DB_INDEX"
    | "d_a d = DB_IS_COMPONENT" | "d_a d = DB_DOC"
    | "d_a d \<notin> {DB_IDENT, DB_VALUE_TYPE, DB_CARDINALITY, DB_UNIQUE, DB_INDEX, DB_IS_COMPONENT, DB_DOC}" by blast
  then show ?thesis
    using True by cases (simp_all add: partial_said_def partial_step_def system_ids)
qed (simp add: partial_said_def)

lemma partial_of_said: "partial_of (fst (fold Schema_step ds (Schema_new, es))) e = partial_said (rev ds) e"
proof (induction ds rule: rev_induct)
  case Nil
  then show ?case by (simp add: partial_of_def partial_said_def Schema_new_def empty_partial_def)
next
  case (snoc d ds)
  then show ?case by (simp add: partial_of_step partial_said_step split: option.split)
qed

lemma rebuild_said: "rebuild_attr e (partial_said (rev ds) e) = described_attribute ds e"
  by (auto simp: rebuild_attr_def partial_said_def described_attribute_def Let_def split: option.splits)

lemma Schema_apply_same:
  assumes "same_descriptions s s'"
  shows "same_descriptions (Schema_apply ds s) (Schema_apply ds s')"
  using fold_Schema_step_same [OF assms, of ds "[]" "[]"] by (simp add: same_descriptions_def apply_partials_def)

lemma same_descriptions_trans: "same_descriptions s s' \<Longrightarrow> same_descriptions s' s'' \<Longrightarrow> same_descriptions s s''"
  by (simp add: same_descriptions_def)

lemma Schema_batches_same: "same_descriptions (fold Schema_apply dss Schema_new) (Schema_apply (concat dss) Schema_new)"
proof (induction dss rule: rev_induct)
  case Nil
  then show ?case by (simp add: same_descriptions_def apply_partials_def)
next
  case (snoc ds dss)
  have "same_descriptions (Schema_apply ds (Schema_apply (concat dss) Schema_new)) (Schema_apply (concat dss @ ds) Schema_new)"
    using Schema_apply_append_same [of "concat dss" ds Schema_new] by (simp add: same_descriptions_def)
  with Schema_apply_same [OF snoc, of ds] show ?case by (auto intro: same_descriptions_trans)
qed

lemma Schema_batches_inv: "schema_inv s \<Longrightarrow> schema_inv (fold Schema_apply dss s)"
  "schema_inv s \<Longrightarrow> ident_inv s \<Longrightarrow> ident_inv (fold Schema_apply dss s)"
  by (induction dss arbitrary: s) (simp_all add: Schema_apply_inv Schema_apply_ident_inv)

lemma Schema_batches_described: "attr_by_id (fold Schema_apply dss Schema_new) e = described_attribute (concat dss) e"
proof -
  have "attr_by_id (fold Schema_apply dss Schema_new) = attr_by_id (Schema_apply (concat dss) Schema_new)"
    by (intro same_descriptions_attr Schema_batches_same Schema_batches_inv Schema_apply_inv schema_inv_new)
  moreover have "attr_by_id (Schema_apply (concat dss) Schema_new) e = rebuild_attr e (partial_said (rev (concat dss)) e)"
    using Schema_apply_inv [OF schema_inv_new, of "concat dss"] partial_of_said [of "concat dss" "[]" e]
    by (simp add: schema_inv_def attr_of_partial partial_of_def apply_partials_def)
  ultimately show ?thesis by (simp add: rebuild_said)
qed

lemma Schema_batches_ident:
  assumes "attr_by_ident (fold Schema_apply dss Schema_new) i = Some at"
  shows "at_ident at = i \<and> described_attribute (concat dss) (at_id at) = Some at"
  using assms Schema_batches_inv(2) [OF schema_inv_new ident_inv_new, of dss] Schema_batches_described [of dss "at_id at"]
  by (simp add: ident_inv_def)

end
