(* ===== verification/DbView.thy ===== *)
theory DbView
  imports Novelty TreeCount SchemaModel JsValues
begin

text \<open>
  The database value (\<open>internal/core/db.ts\<close>): index roots, novelty, a basis and a schema.
  A read scans the tree, merges the novelty in and collapses the history; it returns, in
  index order, exactly the facts current at the effective basis, and no later
  transaction changes it.
\<close>

section \<open>Roots and database values\<close>

record roots =
  ro_t :: int
  ro_eavt :: node_ref
  ro_aevt :: node_ref
  ro_avet :: node_ref
  ro_vaet :: node_ref

fun rootFor :: "roots \<Rightarrow> index \<Rightarrow> node_ref" where
  "rootFor r EAVT = ro_eavt r"
| "rootFor r AEVT = ro_aevt r"
| "rootFor r AVET = ro_avet r"
| "rootFor r VAET = ro_vaet r"

record db =
  db_store :: node_source
  db_roots :: roots
  db_novelty :: novelty
  db_basisT :: int
  db_schema :: schema
  db_nextEid :: int
  db_asOfT :: "int option"
  db_isHistory :: bool

definition effectiveT :: "db \<Rightarrow> int" where
  "effectiveT d =
     (case db_asOfT d of Some t \<Rightarrow> if t < db_basisT d then t else db_basisT d | None \<Rightarrow> db_basisT d)"

definition Db_asOf :: "int \<Rightarrow> db \<Rightarrow> db" where
  "Db_asOf t d = d\<lparr>db_asOfT := Some t\<rparr>"

definition Db_history :: "db \<Rightarrow> db" where
  "Db_history d = d\<lparr>db_isHistory := True\<rparr>"

section \<open>Reads\<close>

text \<open>
  A generator is the list of what it yields. The flush that reading a buffer performs is
  not threaded on: it leaves every later answer of the buffer the same. The walk through
  the tree is fuelled.
\<close>

definition nov_range :: "db \<Rightarrow> index \<Rightarrow> prefix \<Rightarrow> chunk option" where
  "nov_range d i p = fst (sn_range p (nv_byIndex (db_novelty d) i))"

definition rawHistory :: "db \<Rightarrow> bool" where
  "rawHistory d \<longleftrightarrow> effectiveT d \<ge> nv_maxT (db_novelty d) \<and> effectiveT d \<ge> ro_t (db_roots d) \<and> db_asOfT d = None"

definition Db_datoms :: "nat \<Rightarrow> db \<Rightarrow> index \<Rightarrow> prefix \<Rightarrow> datom list list res" where
  "Db_datoms n d i p =
     rmap (\<lambda>tree.
       let merged = mergeChunks (comparatorFor i) tree (nov_range d i p)
       in if db_isHistory d then
            (if rawHistory d then rawView merged else filterAsOf (effectiveT d) merged)
          else currentView (Some (effectiveT d)) merged)
     (scan n (db_store d) i (rootFor (db_roots d) i) p)"

definition datomsArray :: "nat \<Rightarrow> db \<Rightarrow> index \<Rightarrow> prefix \<Rightarrow> datom list res" where
  "datomsArray n d i p = rmap concat (Db_datoms n d i p)"

definition Db_first :: "nat \<Rightarrow> db \<Rightarrow> index \<Rightarrow> prefix \<Rightarrow> datom option res" where
  "Db_first n d i p = rmap (\<lambda>arrs. case arrs of [] \<Rightarrow> None | a # _ \<Rightarrow> (case a of [] \<Rightarrow> None | x # _ \<Rightarrow> Some x)) (Db_datoms n d i p)"

definition Db_estimate :: "nat \<Rightarrow> db \<Rightarrow> index \<Rightarrow> prefix \<Rightarrow> nat res" where
  "Db_estimate n d i p =
     rmap (\<lambda>t. t + (case nov_range d i p of Some c \<Rightarrow> c_end c - c_start c | None \<Rightarrow> 0))
       (estimateCount n (db_store d) i (rootFor (db_roots d) i) p)"

section \<open>Schema helpers\<close>

definition Db_attr :: "db \<Rightarrow> int + jsstr \<Rightarrow> attribute option" where
  "Db_attr d x = Schema_attr (db_schema d) x"

definition Db_requireAttr :: "db \<Rightarrow> int + jsstr \<Rightarrow> attribute res" where
  "Db_requireAttr d x = requireAttr (db_schema d) x"

definition Db_coerce :: "platform \<Rightarrow> attribute \<Rightarrow> jsval \<Rightarrow> tagged res" where
  "Db_coerce pf at v = coerceValue pf (at_valueType at) v"

text \<open>The key under which a JavaScript value is looked up in the attribute tables.\<close>

fun attr_key :: "jsval \<Rightarrow> (int + jsstr) option" where
  "attr_key (JNum (NInt n)) = Some (Inl n)"
| "attr_key (JStr s) = Some (Inr s)"
| "attr_key _ = None"

definition attr_prefix :: "attribute \<Rightarrow> tagged_value \<Rightarrow> prefix" where
  "attr_prefix at v = \<lparr>p_e = None, p_a = Some (at_id at), p_v = Some v, p_t = None\<rparr>"

text \<open>
  A coerced payload that is no value of its tag is the NaN of an invalid date (or comes
  from an attribute without a proper type); comparing with it is outside the model.
\<close>

definition value_res :: "tagged \<Rightarrow> tagged_value res" where
  "value_res tv = (case value_of tv of Some v \<Rightarrow> Inr v | None \<Rightarrow> Inl Unmodelled)"

definition Db_entid :: "nat \<Rightarrow> platform \<Rightarrow> db \<Rightarrow> jsval \<Rightarrow> jsnum option res" where
  "Db_entid n pf d ref =
     (case ref of
        JNum k \<Rightarrow> Inr (Some k)
      | JStr s \<Rightarrow> Inr (map_option NInt (Schema_entid (db_schema d) s))
      | JArr [a, v] \<Rightarrow>
          (case (case attr_key a of Some k \<Rightarrow> Db_attr d k | None \<Rightarrow> None) of
             None \<Rightarrow> Inl (Error ''lookup ref: unknown attribute'')
           | Some at \<Rightarrow>
               if at_unique at = None then Inl (Error ''lookup ref: attribute is not unique'')
               else rbind (Db_coerce pf at v) (\<lambda>tv. rbind (value_res tv) (\<lambda>x.
                      rmap (map_option (\<lambda>x. NInt (d_e x))) (Db_first n d AVET (attr_prefix at x)))))
      | _ \<Rightarrow> Inl (Error ''bad entity reference''))"

definition entity_prefix :: "int \<Rightarrow> prefix" where
  "entity_prefix e = \<lparr>p_e = Some e, p_a = None, p_v = None, p_t = None\<rparr>"

definition Db_exists :: "nat \<Rightarrow> db \<Rightarrow> int \<Rightarrow> bool res" where
  "Db_exists n d e = rmap (\<lambda>x. x \<noteq> None) (Db_first n d EAVT (entity_prefix e))"

definition entity_step :: "db \<Rightarrow> datom \<Rightarrow> (jsstr, jsval) jsmap \<Rightarrow> (jsstr, jsval) jsmap res" where
  "entity_step d x out =
     (let at = Db_attr d (Inl (d_a x)); key = (case at of Some a \<Rightarrow> at_ident a | None \<Rightarrow> int_string (d_a x));
          val = toJsValue (d_v x)
      in if (case at of Some a \<Rightarrow> at_cardinality a = Many | None \<Rightarrow> False) then
           (case jm_get out key of
              None \<Rightarrow> Inr (jm_set key (JArr [val]) out)
            | Some (JArr vs) \<Rightarrow> Inr (jm_set key (JArr (vs @ [val])) out)
            | Some _ \<Rightarrow> Inl (TypeError ''push is not a function''))
         else Inr (jm_set key val out))"

fun entity_loop :: "db \<Rightarrow> datom list \<Rightarrow> (jsstr, jsval) jsmap \<Rightarrow> (jsstr, jsval) jsmap res" where
  "entity_loop d [] out = Inr out"
| "entity_loop d (x # xs) out = rbind (entity_step d x out) (entity_loop d xs)"

definition Db_entity :: "nat \<Rightarrow> db \<Rightarrow> int \<Rightarrow> (jsstr, jsval) jsmap option res" where
  "Db_entity n d e =
     rbind (datomsArray n d EAVT (entity_prefix e)) (\<lambda>ds.
       if ds = [] then Inr None else rmap Some (entity_loop d ds [(js '':db/id'', JNum (NInt e))]))"

definition Db_identOf :: "db \<Rightarrow> int \<Rightarrow> jsstr option" where
  "Db_identOf d e = Schema_ident (db_schema d) e"

definition Db_isTx :: "db \<Rightarrow> int \<Rightarrow> bool" where
  "Db_isTx d e = isTxEid e"

section \<open>What a read returns\<close>

text \<open>
  The trees behind the roots and the buffers are well-formed; \<open>db_datoms_in\<close> is the set of
  datoms an index holds in one or the other.
\<close>

definition db_rep :: "db \<Rightarrow> (index \<Rightarrow> atree) \<Rightarrow> bool" where
  "db_rep d t \<longleftrightarrow> (\<forall>i. represents (db_store d) (rootFor (db_roots d) i) (t i) \<and> wf_root i (t i)) \<and>
     nv_inv (db_novelty d)"

definition db_datoms_in :: "db \<Rightarrow> (index \<Rightarrow> atree) \<Rightarrow> index \<Rightarrow> datom set" where
  "db_datoms_in d t i = set (contents (t i)) \<union> nv_abs (db_novelty d) i"

text \<open>A flush changes nothing that a later read can see.\<close>

lemma sn_flush_idem: "sn_flush (snd (sn_flush s)) = (fst (sn_flush s), snd (sn_flush s))"
  by (simp add: sn_flush_def Let_def)

lemma sn_range_after_flush: "fst (sn_range p (snd (sn_flush s))) = fst (sn_range p s)"
  by (simp add: sn_range_def sn_flush_idem Let_def split_beta)

lemma merged_scan:
  assumes "db_rep d t" "prefix_ok p" "nodes (t i) < n"
  shows "\<exists>cs. scan n (db_store d) i (rootFor (db_roots d) i) p = Inr cs \<and>
    index_sorted i (chunks_datoms (mergeChunks (comparatorFor i) cs (nov_range d i p))) \<and>
    set (chunks_datoms (mergeChunks (comparatorFor i) cs (nov_range d i p))) =
      {x \<in> db_datoms_in d t i. matching i p x} \<and>
    (\<forall>c\<in>set (mergeChunks (comparatorFor i) cs (nov_range d i p)). chunk_ok c)"
proof -
  let ?s = "nv_byIndex (db_novelty d) i"
  have r: "represents (db_store d) (rootFor (db_roots d) i) (t i)" "wf_root i (t i)"
    "sn_index ?s = i" "sn_inv ?s" using assms(1) by (auto simp: db_rep_def nv_inv_def)
  obtain cs where cs: "scan n (db_store d) i (rootFor (db_roots d) i) p = Inr cs"
    "chunks_datoms cs = filter (matching i p) (contents (t i))" "\<forall>c\<in>set cs. chunk_ok c"
    using scan_correct [OF r(1,2) assms(2,3)] unfolding chunk_ok_def by blast
  obtain ds s' where f: "sn_flush ?s = (ds, s')" by fastforce
  obtain nc s'' where g: "sn_range p ?s = (nc, s'')" by fastforce
  have ds: "index_sorted i ds" "set ds = sn_abs ?s" using sn_flush_spec [OF r(4) f] r(3) by auto
  have nc: "nov_range d i p = nc" by (simp add: nov_range_def g)
  have N: "case nc of None \<Rightarrow> filter (matching i p) ds = []
    | Some c \<Rightarrow> chunk_ok c \<and> chunk_slice c = filter (matching i p) ds"
    using sn_range_spec [OF r(4) assms(2) g f] r(3) by (auto simp: chunk_ok_def split: option.splits)
  have tree: "index_sorted i (chunks_datoms cs)"
    unfolding cs(2) using r(2) by (intro index_sorted_filter) (auto simp: wf_root_def index_sorted_def)
  have nov: "(case nc of None \<Rightarrow> [] | Some n \<Rightarrow> chunk_slice n) = filter (matching i p) ds"
    using N by (cases nc) auto
  have M: "chunks_datoms (mergeChunks (comparatorFor i) cs nc) =
      merge_union (comparatorFor i) (chunks_datoms cs) (filter (matching i p) ds) \<and>
    (\<forall>c\<in>set (mergeChunks (comparatorFor i) cs nc). chunk_ok c)"
    unfolding nov [symmetric] by (rule mergeChunks_union [OF tree cs(3)]) (use N ds in \<open>auto simp: index_sorted_filter\<close>)
  have fs: "index_sorted i (filter (matching i p) ds)" by (rule index_sorted_filter [OF ds(1)])
  show ?thesis
    using M cs(1) index_sorted_merge_union [OF tree fs] set_index_merge_union [OF tree fs] ds(2) cs(2)
    by (auto simp: nc db_datoms_in_def)
qed

lemma concat_rawView: "concat (rawView cs) = chunks_datoms cs"
  by (induction cs) (simp_all add: rawView_def chunk_slice_def)

lemma concat_filterAsOf: "concat (filterAsOf t cs) = filter (\<lambda>d. d_t d \<le> t) (chunks_datoms cs)"
proof (induction cs)
  case (Cons c cs)
  then show ?case by (cases "filter (\<lambda>d. d_t d \<le> t) (chunk_slice c)") (simp_all add: filterAsOf_def)
qed (simp add: filterAsOf_def)

lemma datoms_current:
  assumes "db_rep d t" "prefix_ok p" "nodes (t i) < n" "\<not> db_isHistory d"
  shows "\<exists>ds. datomsArray n d i p = Inr ds \<and> index_sorted i ds \<and>
    set ds = currentFacts (Some (effectiveT d)) {x \<in> db_datoms_in d t i. matching i p x}"
proof -
  obtain cs where cs: "scan n (db_store d) i (rootFor (db_roots d) i) p = Inr cs"
    "index_sorted i (chunks_datoms (mergeChunks (comparatorFor i) cs (nov_range d i p)))"
    "set (chunks_datoms (mergeChunks (comparatorFor i) cs (nov_range d i p))) = {x \<in> db_datoms_in d t i. matching i p x}"
    "\<forall>c\<in>set (mergeChunks (comparatorFor i) cs (nov_range d i p)). chunk_ok c"
    using merged_scan [OF assms(1-3)] by blast
  note F = collapseCurrent_facts [OF cs(2), of "Some (effectiveT d)"]
  have "concat (currentView (Some (effectiveT d)) (mergeChunks (comparatorFor i) cs (nov_range d i p))) =
    collapseCurrent (Some (effectiveT d)) (chunks_datoms (mergeChunks (comparatorFor i) cs (nov_range d i p)))"
    by (rule currentView_collapse) (use cs(4) index_sorted_grouped [OF cs(2)] in auto)
  with F cs(1,3) assms(4) show ?thesis by (simp add: datomsArray_def Db_datoms_def Let_def)
qed

text \<open>
  A prefix without a transaction does not cut through the versions of a fact, so filtering
  and collapsing commute.
\<close>

lemma matching_same_fact:
  assumes "p_t p = None" "d_e d' = d_e d" "d_a d' = d_a d" "d_v d' = d_v d"
  shows "matching i p d' \<longleftrightarrow> matching i p d"
  using assms by (cases i) (simp_all split: option.splits)

lemma currentFacts_matching:
  assumes "p_t p = None"
  shows "currentFacts asOf {x \<in> V. matching i p x} = {x \<in> currentFacts asOf V. matching i p x}"
proof (rule set_eqI)
  fix x
  have "matching i p d' \<longleftrightarrow> matching i p x" if "d_e d' = d_e x \<and> d_a d' = d_a x \<and> d_v d' = d_v x" for d'
    using matching_same_fact [OF assms, of d' x i] that by blast
  then show "x \<in> currentFacts asOf {x \<in> V. matching i p x} \<longleftrightarrow> x \<in> {x \<in> currentFacts asOf V. matching i p x}"
    unfolding currentFacts_def mem_Collect_eq by blast
qed

lemma datoms_current_matching:
  assumes "db_rep d t" "prefix_ok p" "nodes (t i) < n" "\<not> db_isHistory d" "p_t p = None"
  shows "\<exists>ds. datomsArray n d i p = Inr ds \<and> index_sorted i ds \<and>
    set ds = {x \<in> currentFacts (Some (effectiveT d)) (db_datoms_in d t i). matching i p x}"
  using datoms_current [OF assms(1-4)] by (simp add: currentFacts_matching [OF assms(5)])

text \<open>With history: every matching datom up to the effective basis.\<close>

definition db_bounded :: "db \<Rightarrow> (index \<Rightarrow> atree) \<Rightarrow> bool" where
  "db_bounded d t \<longleftrightarrow> (\<forall>i. (\<forall>x\<in>set (contents (t i)). d_t x \<le> ro_t (db_roots d)) \<and>
     (\<forall>x\<in>nv_abs (db_novelty d) i. d_t x \<le> nv_maxT (db_novelty d)))"

lemma datoms_history:
  assumes "db_rep d t" "prefix_ok p" "nodes (t i) < n" "db_isHistory d" "db_bounded d t"
  shows "\<exists>ds. datomsArray n d i p = Inr ds \<and> index_sorted i ds \<and>
    set ds = {x \<in> db_datoms_in d t i. matching i p x \<and> d_t x \<le> effectiveT d}"
proof -
  obtain cs where cs: "scan n (db_store d) i (rootFor (db_roots d) i) p = Inr cs"
    "index_sorted i (chunks_datoms (mergeChunks (comparatorFor i) cs (nov_range d i p)))"
    "set (chunks_datoms (mergeChunks (comparatorFor i) cs (nov_range d i p))) = {x \<in> db_datoms_in d t i. matching i p x}"
    using merged_scan [OF assms(1-3)] by blast
  show ?thesis
  proof (cases "rawHistory d")
    case True
    then have "d_t x \<le> effectiveT d" if "x \<in> db_datoms_in d t i" for x
      using that assms(5) by (fastforce simp: rawHistory_def db_bounded_def db_datoms_in_def)
    with cs True assms(4) show ?thesis
      by (auto simp: datomsArray_def Db_datoms_def Let_def concat_rawView)
  next
    case False
    with cs assms(4) show ?thesis
      by (auto simp: datomsArray_def Db_datoms_def Let_def concat_filterAsOf index_sorted_filter)
  qed
qed

section \<open>First match, existence and estimate\<close>

lemma cv_release_nonempty: "cv_release f st = (ys, p) \<Longrightarrow> cv_ok st \<Longrightarrow> \<forall>y\<in>set ys. y \<noteq> []"
proof -
  assume a: "cv_release f st = (ys, p)" "cv_ok st"
  obtain q h where st: "st = (q, h)" by (rule prod.exhaust)
  have "[] = butlast held \<longleftrightarrow> length held \<le> 1" for held :: "datom list"
    by (cases held rule: rev_cases) auto
  with a st show ?thesis by (cases h) (auto simp: cv_release_def split: if_splits)
qed

lemma cv_settle_nonempty: "cv_settle f p = (ys, q) \<Longrightarrow> \<forall>y\<in>set ys. y \<noteq> []"
  by (auto simp: cv_settle_def split: option.splits if_splits)

lemma cv_step_nonempty:
  assumes "cv_step asOf st c = (ys, st')" "cv_ok st" "chunk_ok c"
  shows "(\<forall>y\<in>set ys. y \<noteq> []) \<and> cv_ok st'"
proof -
  let ?f = "c_datoms c ! c_start c" and ?xs = "chunk_slice c"
  obtain ys1 p1 where r: "cv_release ?f st = (ys1, p1)" by (rule prod.exhaust)
  obtain ys2 p2 where s: "cv_settle ?f p1 = (ys2, p2)" by (rule prod.exhaust)
  obtain out p3 where l: "collapse_loop asOf p2 ?xs = (out, p3)" by (rule prod.exhaust)
  have N: "\<forall>y\<in>set (ys1 @ ys2). y \<noteq> []"
    using cv_release_nonempty [OF r assms(2)] cv_settle_nonempty [OF s] by auto
  have len: "length ?xs = c_end c - c_start c" using assms(3) by (simp add: chunk_slice_def chunk_ok_def)
  have B: "c_end c - 1 > c_start c \<Longrightarrow> butlast ?xs \<noteq> []" using len by (cases ?xs rule: rev_cases) auto
  have P: "isPlainChunk asOf ?xs \<Longrightarrow> ?xs \<noteq> [] \<and> d_op (last ?xs)" using isPlainChunk_collapse [of asOf ?xs] by blast
  have W: "c_start c = 0 \<and> c_end c = length (c_datoms c) \<Longrightarrow> c_datoms c = ?xs" by (simp add: chunk_slice_def)
  consider (whole) "p2 = None" "isPlainChunk asOf ?xs" "c_start c = 0 \<and> c_end c = length (c_datoms c)"
    | (part) "p2 = None" "isPlainChunk asOf ?xs" "\<not> (c_start c = 0 \<and> c_end c = length (c_datoms c))"
    | (loop) "\<not> (p2 = None \<and> isPlainChunk asOf ?xs)" by blast
  then show ?thesis
  proof cases
    case whole
    then have e: "ys = ys1 @ ys2 \<and> st' = (None, Some (c_datoms c))"
      using assms(1) r s by (simp add: cv_step_def Let_def)
    show ?thesis using e N P [OF whole(2)] W [OF whole(3)] by simp
  next
    case part
    then have e: "ys = ys1 @ ys2 @ (if c_end c - 1 > c_start c then [butlast ?xs] else []) \<and> snd st' = None"
      using assms(1) r s by (auto simp: cv_step_def Let_def)
    then have "cv_ok st'" by (cases st') simp
    then show ?thesis using e N B by auto
  next
    case loop
    then have e: "ys = ys1 @ ys2 @ (if out \<noteq> [] then [out] else []) \<and> snd st' = None"
      using assms(1) r s l by (auto simp: cv_step_def Let_def)
    then have "cv_ok st'" by (cases st') simp
    then show ?thesis using e N by auto
  qed
qed

lemma cv_run_nonempty:
  "cv_ok st \<Longrightarrow> \<forall>c\<in>set cs. chunk_ok c \<Longrightarrow> \<forall>y\<in>set (cv_run asOf st cs). y \<noteq> []"
proof (induction cs arbitrary: st)
  case Nil
  obtain p h where "st = (p, h)" by (rule prod.exhaust)
  with Nil show ?case by (cases h) auto
next
  case (Cons c cs)
  obtain ys st' where st: "cv_step asOf st c = (ys, st')" by (rule prod.exhaust)
  have c: "chunk_ok c" using Cons.prems by simp
  note S = cv_step_nonempty [OF st Cons.prems(1) c]
  have "\<forall>y\<in>set (cv_run asOf st' cs). y \<noteq> []" by (rule Cons.IH) (use S Cons.prems in auto)
  with S st c show ?case by (auto simp: chunk_ok_def)
qed

text \<open>The first array is never empty, so \<open>first\<close> is the head of the whole answer.\<close>

definition head_opt :: "'a list \<Rightarrow> 'a option" where
  "head_opt xs = (case xs of [] \<Rightarrow> None | x # _ \<Rightarrow> Some x)"

lemma head_opt_concat: "\<forall>y\<in>set ys. y \<noteq> [] \<Longrightarrow>
  (case ys of [] \<Rightarrow> None | a # _ \<Rightarrow> (case a of [] \<Rightarrow> None | x # _ \<Rightarrow> Some x)) = head_opt (concat ys)"
  by (cases ys) (auto simp: head_opt_def split: list.splits)

lemma Db_first_head:
  assumes "db_rep d t" "prefix_ok p" "nodes (t i) < n" "\<not> db_isHistory d"
  shows "Db_first n d i p = rmap head_opt (datomsArray n d i p)"
proof -
  obtain cs where cs: "scan n (db_store d) i (rootFor (db_roots d) i) p = Inr cs"
    "\<forall>c\<in>set (mergeChunks (comparatorFor i) cs (nov_range d i p)). chunk_ok c"
    using merged_scan [OF assms(1-3)] by blast
  have "\<forall>y\<in>set (currentView (Some (effectiveT d)) (mergeChunks (comparatorFor i) cs (nov_range d i p))). y \<noteq> []"
    unfolding currentView_def by (rule cv_run_nonempty) (use cs in simp_all)
  with cs(1) assms(4) show ?thesis
    by (simp add: Db_first_def datomsArray_def Db_datoms_def Let_def head_opt_concat)
qed

lemma head_opt_None: "head_opt xs = None \<longleftrightarrow> xs = []"
  by (cases xs) (simp_all add: head_opt_def)

lemma Db_exists_iff:
  assumes "db_rep d t" "nodes (t EAVT) < n" "\<not> db_isHistory d"
  shows "Db_exists n d e = Inr (\<exists>x \<in> currentFacts (Some (effectiveT d)) (db_datoms_in d t EAVT). d_e x = e)"
proof -
  have p: "prefix_ok (entity_prefix e)" "p_t (entity_prefix e) = None" by (simp_all add: prefix_ok_def entity_prefix_def)
  obtain ds where ds: "datomsArray n d EAVT (entity_prefix e) = Inr ds"
    "set ds = {x \<in> currentFacts (Some (effectiveT d)) (db_datoms_in d t EAVT). matching EAVT (entity_prefix e) x}"
    using datoms_current_matching [OF assms(1) p(1) assms(2,3) p(2)] by blast
  have "ds \<noteq> [] \<longleftrightarrow> (\<exists>x \<in> currentFacts (Some (effectiveT d)) (db_datoms_in d t EAVT). d_e x = e)"
    using ds(2) by (auto simp: entity_prefix_def simp flip: set_empty)
  with ds(1) Db_first_head [OF assms(1) p(1) assms(2,3)] show ?thesis
    by (cases ds) (simp_all add: Db_exists_def head_opt_def)
qed

text \<open>The estimate counts versions: those in the tree and those in the buffer.\<close>

lemma Db_estimate_counts:
  assumes "db_rep d t" "prefix_ok p" "nodes (t i) < n"
  shows "Db_estimate n d i p = Inr (length (filter (matching i p) (contents (t i))) +
    card {x \<in> nv_abs (db_novelty d) i. matching i p x})"
proof -
  let ?s = "nv_byIndex (db_novelty d) i"
  have r: "represents (db_store d) (rootFor (db_roots d) i) (t i)" "wf_root i (t i)" "sn_index ?s = i" "sn_inv ?s"
    using assms(1) by (auto simp: db_rep_def nv_inv_def)
  obtain ds s' where f: "sn_flush ?s = (ds, s')" by (rule prod.exhaust)
  obtain nc s'' where g: "sn_range p ?s = (nc, s'')" by (rule prod.exhaust)
  have ds: "index_sorted i ds" "set ds = sn_abs ?s" using sn_flush_spec [OF r(4) f] r(3) by auto
  have "distinct (filter (matching i p) ds)" using ds(1) idx.strictly_sorted_distinct by (auto simp: index_sorted_def)
  then have "card {x \<in> sn_abs ?s. matching i p x} = length (filter (matching i p) ds)"
    using ds(2) distinct_card [of "filter (matching i p) ds"] by simp
  moreover have "(case nc of Some c \<Rightarrow> c_end c - c_start c | None \<Rightarrow> 0) = length (filter (matching i p) ds)"
    using sn_range_spec [OF r(4) assms(2) g f] r(3)
    by (cases nc) (auto simp: chunk_slice_def dest!: arg_cong [where f = length])
  ultimately show ?thesis
    using estimateCount_exact [OF r(1,2) assms(3,2)] by (simp add: Db_estimate_def nov_range_def g)
qed

section \<open>Snapshots\<close>

lemma currentFacts_later:
  assumes "\<forall>w\<in>W. t < d_t w"
  shows "currentFacts (Some t) (V \<union> W) = currentFacts (Some t) V"
proof -
  have "visible (Some t) x \<Longrightarrow> x \<notin> W" for x using assms by (auto simp: visible_def)
  then show ?thesis unfolding currentFacts_def by blast
qed

lemma fold_max_bounds:
  fixes m :: int
  shows "m \<le> fold max xs m \<and> (\<forall>x\<in>set xs. x \<le> fold max xs m)"
proof (induction xs arbitrary: m)
  case (Cons x xs)
  have "max x m \<le> fold max xs (max x m)" "\<forall>y\<in>set xs. y \<le> fold max xs (max x m)"
    using Cons.IH [of "max x m"] by blast+
  then show ?case by auto
qed simp

lemma nv_maxT_add: "nv_maxT (nv_add ds avet vaet n) = fold max (map d_t ds) (nv_maxT n)"
  by (simp add: nv_add_def nv_maxT_def Let_def maxT_fold nv_update_def)

lemma db_rep_add:
  assumes "db_rep d t" "\<forall>x\<in>set ds. datom_ok x"
  shows "db_rep (d\<lparr>db_novelty := nv_add ds avet vaet (db_novelty d)\<rparr>) t"
  using assms nv_add_inv by (simp add: db_rep_def)

lemma db_bounded_add:
  assumes "db_bounded d t"
  shows "db_bounded (d\<lparr>db_novelty := nv_add ds avet vaet (db_novelty d)\<rparr>) t"
  unfolding db_bounded_def
proof (intro allI conjI ballI)
  fix i x
  let ?m = "fold max (map d_t ds) (nv_maxT (db_novelty d))"
  assume "x \<in> nv_abs (db_novelty (d\<lparr>db_novelty := nv_add ds avet vaet (db_novelty d)\<rparr>)) i"
  then have "x \<in> nv_abs (db_novelty d) i \<or> x \<in> set ds" by (auto simp: nv_add_abs)
  moreover have "nv_maxT (db_novelty d) \<le> ?m" "\<forall>y\<in>set ds. d_t y \<le> ?m" using fold_max_bounds [of "nv_maxT (db_novelty d)" "map d_t ds"] by auto
  ultimately show "d_t x \<le> nv_maxT (db_novelty (d\<lparr>db_novelty := nv_add ds avet vaet (db_novelty d)\<rparr>))"
    using assms by (fastforce simp: db_bounded_def nv_maxT_add)
qed (use assms in \<open>simp add: db_bounded_def\<close>)

text \<open>
  What a database value shows depends only on the datoms up to its effective basis:
  however they are spread over trees and buffers, and whatever came later.
\<close>

lemma currentFacts_visible: "currentFacts (Some T) V = currentFacts (Some T) {x \<in> V. d_t x \<le> T}"
  unfolding currentFacts_def visible_def by auto

definition seen :: "db \<Rightarrow> (index \<Rightarrow> atree) \<Rightarrow> index \<Rightarrow> datom set" where
  "seen d t i = {x \<in> db_datoms_in d t i. d_t x \<le> effectiveT d}"

lemma reads_agree_on:
  assumes d: "db_rep d t" "db_bounded d t" "nodes (t i) < n"
    and d': "db_rep d' t'" "db_bounded d' t'" "nodes (t' i) < n'"
    and p: "prefix_ok p" and eq: "db_isHistory d' = db_isHistory d" "effectiveT d' = effectiveT d"
      "{x \<in> seen d' t' i. matching i p x} = {x \<in> seen d t i. matching i p x}"
  shows "datomsArray n' d' i p = datomsArray n d i p"
proof -
  let ?T = "effectiveT d" and ?A = "db_datoms_in d t i" and ?B = "db_datoms_in d' t' i"
  have S: "{x \<in> {x \<in> ?B. matching i p x}. d_t x \<le> ?T} = {x \<in> {x \<in> ?A. matching i p x}. d_t x \<le> ?T}"
    using eq by (auto simp: seen_def set_eq_iff)
  obtain a b where ab: "datomsArray n d i p = Inr a" "index_sorted i a" "datomsArray n' d' i p = Inr b" "index_sorted i b" "set a = set b"
  proof (cases "db_isHistory d")
    case True
    obtain a b where "datomsArray n d i p = Inr a" "index_sorted i a" "set a = {x \<in> ?A. matching i p x \<and> d_t x \<le> ?T}"
      "datomsArray n' d' i p = Inr b" "index_sorted i b" "set b = {x \<in> ?B. matching i p x \<and> d_t x \<le> ?T}"
      using datoms_history [OF d(1) p d(3) True d(2)] datoms_history [OF d'(1) p d'(3) _ d'(2)] True eq by auto
    moreover from this S have "set a = set b" by (auto simp: set_eq_iff)
    ultimately show ?thesis using that by blast
  next
    case False
    obtain a b where "datomsArray n d i p = Inr a" "index_sorted i a" "set a = currentFacts (Some ?T) {x \<in> ?A. matching i p x}"
      "datomsArray n' d' i p = Inr b" "index_sorted i b" "set b = currentFacts (Some ?T) {x \<in> ?B. matching i p x}"
      using datoms_current [OF d(1) p d(3) False] datoms_current [OF d'(1) p d'(3)] False eq by auto
    moreover from this S have "set a = set b"
      using currentFacts_visible [of ?T "{x \<in> ?A. matching i p x}"] currentFacts_visible [of ?T "{x \<in> ?B. matching i p x}"] by simp
    ultimately show ?thesis using that by blast
  qed
  with index_sorted_unique [OF ab(2,4,5)] show ?thesis by simp
qed

lemma reads_agree:
  assumes "db_rep d t" "db_bounded d t" "nodes (t i) < n" "db_rep d' t'" "db_bounded d' t'" "nodes (t' i) < n'"
    "prefix_ok p" "db_isHistory d' = db_isHistory d" "effectiveT d' = effectiveT d" "seen d' t' i = seen d t i"
  shows "datomsArray n' d' i p = datomsArray n d i p"
  by (rule reads_agree_on [OF assms(1-9)]) (simp add: assms(10))

text \<open>
  Datoms after the effective basis change no read, current or historical, so a database
  value may share the growing buffer with its successors; and reading a successor as of
  the old basis is reading the old value.
\<close>

lemma later_datoms_unseen:
  assumes "\<forall>x\<in>set ds. effectiveT d < d_t x" "effectiveT d' = effectiveT d"
    "db_novelty d' = nv_add ds avet vaet (db_novelty d)"
  shows "seen d' t i = seen d t i"
  using assms by (fastforce simp: seen_def db_datoms_in_def nv_add_abs)

lemma reads_stable:
  assumes "db_rep d t" "db_bounded d t" "prefix_ok p" "nodes (t i) < n"
    "\<forall>x\<in>set ds. datom_ok x \<and> effectiveT d < d_t x"
  shows "datomsArray n (d\<lparr>db_novelty := nv_add ds avet vaet (db_novelty d)\<rparr>) i p = datomsArray n d i p"
proof -
  let ?d' = "d\<lparr>db_novelty := nv_add ds avet vaet (db_novelty d)\<rparr>"
  have eff: "effectiveT ?d' = effectiveT d" by (cases "db_asOfT d") (simp_all add: effectiveT_def)
  show ?thesis
    by (rule reads_agree [OF assms(1,2,4) db_rep_add [OF assms(1)] db_bounded_add [OF assms(2)] assms(4,3)])
      (use assms(5) eff later_datoms_unseen [of ds d ?d' avet vaet t i] in auto)
qed

lemma as_of_is_snapshot:
  assumes "db_rep d t" "db_bounded d t" "prefix_ok p" "nodes (t i) < n" "db_asOfT d = None"
    "\<forall>x\<in>set ds. datom_ok x \<and> db_basisT d < d_t x" "db_basisT d \<le> b"
  shows "datomsArray n (Db_asOf (db_basisT d) (d\<lparr>db_novelty := nv_add ds avet vaet (db_novelty d), db_basisT := b\<rparr>)) i p =
    datomsArray n d i p"
proof -
  let ?d1 = "d\<lparr>db_novelty := nv_add ds avet vaet (db_novelty d)\<rparr>"
  let ?d' = "Db_asOf (db_basisT d) (d\<lparr>db_novelty := nv_add ds avet vaet (db_novelty d), db_basisT := b\<rparr>)"
  have eff: "effectiveT ?d' = effectiveT d" "effectiveT d = db_basisT d" using assms(5,7) by (simp_all add: effectiveT_def Db_asOf_def)
  have rb: "db_rep ?d' t" "db_bounded ?d' t"
    using db_rep_add [OF assms(1), of ds avet vaet] db_bounded_add [OF assms(2), of ds avet vaet] assms(6)
    by (simp_all add: db_rep_def db_bounded_def Db_asOf_def)
  show ?thesis
    by (rule reads_agree [OF assms(1,2,4) rb assms(4,3)])
      (use assms(6) eff later_datoms_unseen [of ds d ?d' avet vaet t i] in \<open>simp_all add: Db_asOf_def\<close>)
qed

end
