(* ===== verification/DatabaseClaims.thy ===== *)
theory DatabaseClaims
  imports WireClaims DbView
begin

text \<open>
  The properties of the read side: novelty buffers, merged and current views, the schema as a
  view of the datoms, and the reads of a database value.
\<close>

section \<open>Samples\<close>

text \<open>A source with one empty leaf, and a log of three datoms: a fact, its retraction, a new fact.\<close>

definition sample_ref :: node_ref where
  "sample_ref = \<lparr>r_hash = ''e'', r_kind = KLeaf, r_count = 0\<rparr>"

definition sample_source :: node_source where
  "sample_source = [''e'' \<mapsto> LeafNode []]"

definition sample_gone :: datom where
  "sample_gone = sample_datom\<lparr>d_t := 8, d_op := False\<rparr>"

definition sample_new :: datom where
  "sample_new = sample_datom\<lparr>d_v := VStr (js ''new''), d_t := 8\<rparr>"

definition sample_novelty :: novelty where
  "sample_novelty = nv_add [sample_new, sample_datom, sample_gone] (\<lambda>a. True) (\<lambda>a. False) Novelty_new"

definition sample_db :: db where
  "sample_db = \<lparr>db_store = sample_source,
     db_roots = \<lparr>ro_t = 0, ro_eavt = sample_ref, ro_aevt = sample_ref, ro_avet = sample_ref, ro_vaet = sample_ref\<rparr>,
     db_novelty = sample_novelty, db_basisT = 8, db_schema = Schema_new, db_nextEid = 2000, db_asOfT = None,
     db_isHistory = False\<rparr>"

definition sample_trees :: "index \<Rightarrow> atree" where
  "sample_trees = (\<lambda>i. ALeaf [])"

lemma sample_datoms_ok [simp]: "datom_ok sample_gone" "datom_ok sample_new"
  using sample_datom_storable(2) by (auto simp: sample_gone_def sample_new_def sample_datom_def datom_ok_def id_ok_def MAX_ID_def)

lemma sample_datoms_t [simp]: "d_t sample_datom = 7" "d_t sample_gone = 8" "d_t sample_new = 8"
  "d_op sample_datom" "\<not> d_op sample_gone" "d_op sample_new" "d_e sample_datom = 1000" "d_e sample_gone = 1000"
  "d_e sample_new = 1000"
  by (simp_all add: sample_gone_def sample_new_def sample_datom_def)

lemma sample_facts:
  "d_v sample_gone = d_v sample_datom" "d_a sample_gone = d_a sample_datom" "d_a sample_new = d_a sample_datom"
  "d_v sample_new \<noteq> d_v sample_datom"
  by (simp_all add: sample_gone_def sample_new_def sample_datom_def js_def)

lemma Novelty_new_inv [simp]: "nv_inv Novelty_new" "nv_abs Novelty_new i = {}" "nv_maxT Novelty_new = 0"
  by (auto simp: nv_inv_def Novelty_new_def nv_maxT_def)

lemma sample_novelty_inv: "nv_inv sample_novelty"
  unfolding sample_novelty_def by (rule nv_add_inv) auto

lemma sample_novelty_abs:
  "nv_abs sample_novelty i = (if i = VAET then {} else {sample_new, sample_datom, sample_gone})"
  unfolding sample_novelty_def nv_add_abs by (cases i) auto

lemma sample_novelty_maxT: "nv_maxT sample_novelty = 8"
  by (simp add: sample_novelty_def nv_add_def nv_maxT_def nv_update_def Let_def Novelty_new_def)

lemma sample_represents: "represents sample_source sample_ref (ALeaf [])" "wf_root i (ALeaf [])"
  by (rule rep_leaf) (simp_all add: sample_source_def sample_ref_def wf_root_def)

lemma sample_db_rep: "db_rep sample_db sample_trees"
proof -
  have "rootFor (db_roots sample_db) i = sample_ref" for i by (cases i) (simp_all add: sample_db_def)
  moreover have "db_store sample_db = sample_source" "db_novelty sample_db = sample_novelty"
    by (simp_all add: sample_db_def)
  ultimately show ?thesis
    using sample_represents sample_novelty_inv by (simp add: db_rep_def sample_trees_def)
qed

lemma sample_db_bounded: "db_bounded sample_db sample_trees"
proof -
  have "nv_abs sample_novelty i \<subseteq> {sample_new, sample_datom, sample_gone}" for i by (simp add: sample_novelty_abs)
  then show ?thesis
    by (fastforce simp: db_bounded_def sample_trees_def sample_db_def sample_novelty_maxT)
qed

lemma sample_db_datoms: "db_datoms_in sample_db sample_trees EAVT = {sample_new, sample_datom, sample_gone}"
  by (simp add: db_datoms_in_def sample_trees_def sample_db_def sample_novelty_abs)

lemma filter_one: "{x \<in> {a}. Q x} = (if Q a then {a} else {})"
  by auto

lemma filter_three:
  "{x \<in> {a, b, c}. Q x} = (if Q a then {a} else {}) \<union> (if Q b then {b} else {}) \<union> (if Q c then {c} else {})"
  by auto

lemma sample_current: "currentFacts (Some 8) {sample_new, sample_datom, sample_gone} = {sample_new}"
  "currentFacts (Some 7) {sample_new, sample_datom, sample_gone} = {sample_datom}"
proof -
  let ?V = "{sample_new, sample_datom, sample_gone}"
  let ?P = "\<lambda>t d. visible (Some t) d \<and> d_op d \<and>
    (\<forall>d'\<in>?V. visible (Some t) d' \<and> d_e d' = d_e d \<and> d_a d' = d_a d \<and> d_v d' = d_v d \<longrightarrow> d_t d' \<le> d_t d)"
  have P: "?P 8 sample_new = True" "?P 8 sample_datom = False" "?P 8 sample_gone = False"
    "?P 7 sample_new = False" "?P 7 sample_datom = True" "?P 7 sample_gone = False"
    using sample_facts by (simp_all add: visible_def)
  show "currentFacts (Some 8) ?V = {sample_new}" "currentFacts (Some 7) ?V = {sample_datom}"
    unfolding currentFacts_def filter_three P by simp_all
qed

lemma sample_prefix: "prefix_ok (entity_prefix 1000)" "matching EAVT (entity_prefix 1000) x \<longleftrightarrow> d_e x = 1000"
  by (auto simp: prefix_ok_def entity_prefix_def id_ok_def MAX_ID_def cmpNum_def)

lemma sample_nodes: "nodes (sample_trees i) < 2"
  by (simp add: sample_trees_def)

lemma sample_effective: "effectiveT sample_db = 8" "\<not> db_isHistory sample_db" "db_asOfT sample_db = None"
  "db_basisT sample_db = 8"
  by (simp_all add: sample_db_def effectiveT_def)

section \<open>Novelty buffers and views\<close>

text \<open>
  C11: The novelty buffers implement sets. Adding a batch, flushing, dropping everything up
  to a \<open>t\<close> and clearing keep the representation invariant (a sorted base and a pending tail),
  and act on the set of buffered datoms of each index as union with the datoms the index
  keeps, identity, filtering and emptying.
\<close>

theorem novelty_implements_sets:
  assumes "nv_inv n" "\<forall>d\<in>set ds. datom_ok d"
  shows "nv_inv (nv_add ds avet vaet n) \<and> nv_inv (nv_dropThrough m n) \<and> nv_inv (nv_clear n) \<and>
    (\<forall>i. nv_abs (nv_add ds avet vaet n) i = nv_abs n i \<union> {d \<in> set ds. keeps avet vaet i d} \<and>
       nv_abs (nv_dropThrough m n) i = {d \<in> nv_abs n i. d_t d > m} \<and> nv_abs (nv_clear n) i = {} \<and>
       set (fst (sn_all (nv_byIndex n i))) = nv_abs n i)"
proof -
  have "set (fst (sn_all (nv_byIndex n i))) = nv_abs n i" for i
    using assms(1) sn_flush_spec [of "nv_byIndex n i"]
    by (cases "sn_flush (nv_byIndex n i)") (auto simp: sn_all_def nv_inv_def)
  then show ?thesis
    by (simp add: assms nv_add_inv nv_dropThrough_inv nv_clear_inv nv_add_abs nv_dropThrough_abs nv_clear_byIndex)
qed

theorem novelty_implements_sets_witness:
  "nv_abs (nv_dropThrough 7 sample_novelty) AVET = {sample_new, sample_gone} \<and>
   nv_abs (nv_add [sample_datom] (\<lambda>a. True) (\<lambda>a. True) Novelty_new) VAET = {sample_datom}"
  using novelty_implements_sets [OF sample_novelty_inv, of "[]" "\<lambda>a. True" "\<lambda>a. False" 7]
    novelty_implements_sets [OF Novelty_new_inv(1), of "[sample_datom]" "\<lambda>a. True" "\<lambda>a. True" 0]
  by (auto simp: sample_novelty_abs)

text \<open>
  C12: Reading a buffer. The range of a prefix in a novelty buffer is absent when nothing
  buffered matches; otherwise it is a non-empty part of the sorted datoms, exactly those
  that match, and reading only flushes the pending datoms into the sorted base.
\<close>

theorem novelty_range_matches:
  assumes "sn_inv s" "prefix_ok p" "sn_range p s = (r, s')"
  shows "(case r of
      None \<Rightarrow> \<forall>d\<in>sn_abs s. \<not> matching (sn_index s) p d
    | Some c \<Rightarrow> c_start c < c_end c \<and> c_end c \<le> length (c_datoms c) \<and> index_sorted (sn_index s) (chunk_slice c) \<and>
        set (chunk_slice c) = {d \<in> sn_abs s. matching (sn_index s) p d}) \<and> sn_abs s' = sn_abs s \<and> sn_inv s'"
proof -
  obtain ds t where f: "sn_flush s = (ds, t)" by (cases "sn_flush s")
  note F = sn_flush_spec [OF assms(1) f]
  note R = sn_range_spec [OF assms f]
  have t: "s' = snd (sn_flush s)" using R f by simp
  have i: "sn_abs s' = sn_abs s" "sn_inv s'" unfolding t using assms(1) by simp_all
  show ?thesis
  proof (cases r)
    case None
    then have "\<forall>d\<in>set ds. \<not> matching (sn_index s) p d" using R by (simp add: filter_empty_conv)
    then show ?thesis using None i F by simp
  next
    case (Some c)
    then have c: "c_start c < c_end c \<and> c_end c \<le> length (c_datoms c)"
      "chunk_slice c = filter (matching (sn_index s) p) ds" using R by auto
    have "index_sorted (sn_index s) (chunk_slice c)" unfolding c(2) using F by (intro index_sorted_filter) simp
    moreover have "set (chunk_slice c) = {d \<in> sn_abs s. matching (sn_index s) p d}" unfolding c(2) using F by auto
    ultimately show ?thesis using Some i c(1) by simp
  qed
qed

theorem novelty_range_matches_witness:
  "fst (sn_range (entity_prefix 1001) (sn_add [sample_datom] (SortedNovelty EAVT))) = None"
proof -
  let ?s = "sn_add [sample_datom] (SortedNovelty EAVT)"
  have s: "sn_inv ?s" "sn_abs ?s = {sample_datom}" "sn_index ?s = EAVT" by (auto simp: sn_add_def SortedNovelty_def sn_inv_def sn_abs_def)
  have p: "prefix_ok (entity_prefix 1001)" by (simp add: prefix_ok_def entity_prefix_def id_ok_def MAX_ID_def)
  obtain r s' where r: "sn_range (entity_prefix 1001) ?s = (r, s')" by (cases "sn_range (entity_prefix 1001) ?s")
  have no: "\<not> matching EAVT (entity_prefix 1001) sample_datom" by (simp add: entity_prefix_def cmpNum_def)
  have "r = None"
  proof (cases r)
    case (Some c)
    with novelty_range_matches [OF s(1) p r] have c: "c_start c < c_end c" "c_end c \<le> length (c_datoms c)"
      "set (chunk_slice c) = {d \<in> {sample_datom}. matching EAVT (entity_prefix 1001) d}" unfolding s by simp_all
    have "set (chunk_slice c) = {}" unfolding c(3) using no by (simp only: singleton_iff) blast
    then have "chunk_slice c = []" by simp
    with c(1,2) show ?thesis by (simp add: chunk_slice_def)
  qed simp
  with r show ?thesis by simp
qed

text \<open>
  C14: The streaming current view. \<open>currentView\<close> passes through whole chunks where it can,
  holds one back to see whether the next continues its last fact, and collapses the rest; on
  chunks that are sorted by an index it yields, in order, exactly the current facts: the
  assertions visible at \<open>asOf\<close> that no later visible datom of the same entity, attribute
  and value supersedes.
\<close>

theorem currentView_current_facts:
  assumes "index_sorted i (chunks_datoms cs)" "\<forall>c\<in>set cs. chunk_ok c"
  shows "set (concat (currentView asOf cs)) = currentFacts asOf (set (chunks_datoms cs)) \<and>
    index_sorted i (concat (currentView asOf cs))"
proof -
  have "concat (currentView asOf cs) = collapseCurrent asOf (chunks_datoms cs)"
    using assms by (intro currentView_collapse index_sorted_grouped) auto
  then show ?thesis using collapseCurrent_facts [OF assms(1)] by simp
qed

lemma sample_sorted: "index_sorted EAVT [sample_datom, sample_gone, sample_new]"
  by (simp add: index_sorted_def)
    (simp add: sample_datom_def sample_gone_def sample_new_def cmpEAVT_def cmpNum_def cmpOp_def or_else_def js_def compareStrings_lex point_key_def)

theorem currentView_current_facts_witness:
  "set (concat (currentView (Some 8) [\<lparr>c_datoms = [sample_datom], c_start = 0, c_end = 1\<rparr>,
      \<lparr>c_datoms = [sample_gone, sample_new], c_start = 0, c_end = 2\<rparr>])) = {sample_new}"
proof -
  let ?cs = "[\<lparr>c_datoms = [sample_datom], c_start = 0, c_end = 1\<rparr>, \<lparr>c_datoms = [sample_gone, sample_new], c_start = 0, c_end = 2\<rparr>]"
  have cs: "chunks_datoms ?cs = [sample_datom, sample_gone, sample_new]" by (simp add: chunk_slice_def)
  have "set [sample_datom, sample_gone, sample_new] = {sample_new, sample_datom, sample_gone}" by auto
  then show ?thesis
    using currentView_current_facts [of EAVT ?cs "Some 8"] sample_sorted sample_current
    unfolding cs by (simp add: chunk_ok_def)
qed

section \<open>Reads of a database value\<close>

text \<open>
  C15: Reads are queries over the facts. For a database whose four roots stand for
  well-formed trees and whose novelty is well-formed, reading an index by any prefix without
  a transaction component succeeds and returns, sorted by the index, exactly the facts
  current at the effective \<open>t\<close> that match the prefix, whatever part of them lies in the
  trees and whatever in novelty.
\<close>

theorem reads_are_current_facts:
  assumes "db_rep d t" "prefix_ok p" "nodes (t i) < n" "\<not> db_isHistory d" "p_t p = None"
  shows "\<exists>ds. datomsArray n d i p = Inr ds \<and> index_sorted i ds \<and>
    set ds = {x \<in> currentFacts (Some (effectiveT d)) (db_datoms_in d t i). matching i p x}"
  using assms by (rule datoms_current_matching)

theorem reads_are_current_facts_witness:
  "\<exists>ds. datomsArray 2 sample_db EAVT (entity_prefix 1000) = Inr ds \<and> set ds = {sample_new}"
proof -
  have t: "p_t (entity_prefix 1000) = None" by (simp add: entity_prefix_def)
  obtain ds where "datomsArray 2 sample_db EAVT (entity_prefix 1000) = Inr ds"
    "set ds = {x \<in> currentFacts (Some (effectiveT sample_db)) (db_datoms_in sample_db sample_trees EAVT).
       matching EAVT (entity_prefix 1000) x}"
    using reads_are_current_facts [OF sample_db_rep sample_prefix(1) sample_nodes sample_effective(2) t, of EAVT] by blast
  then show ?thesis
    unfolding sample_effective sample_db_datoms sample_current sample_prefix filter_one by simp
qed

text \<open>
  History. A history view returns every datom up to the effective \<open>t\<close>, assertions and
  retractions, in index order; the raw pass-through that it takes when nothing is newer
  returns the same.
\<close>

lemma history_returns_all:
  assumes "db_rep d t" "prefix_ok p" "nodes (t i) < n" "db_bounded d t"
  shows "\<exists>ds. datomsArray n (Db_history d) i p = Inr ds \<and> index_sorted i ds \<and>
    set ds = {x \<in> db_datoms_in d t i. matching i p x \<and> d_t x \<le> effectiveT d}"
proof -
  have r: "db_rep (Db_history d) t" "db_bounded (Db_history d) t" "db_isHistory (Db_history d)"
    using assms by (simp_all add: db_rep_def db_bounded_def Db_history_def)
  have e: "effectiveT (Db_history d) = effectiveT d" "db_datoms_in (Db_history d) t i = db_datoms_in d t i"
    by (simp_all add: effectiveT_def db_datoms_in_def Db_history_def split: option.split)
  show ?thesis using datoms_history [OF r(1) assms(2,3) r(3,2)] unfolding e .
qed

lemma history_returns_all_witness:
  "\<exists>ds. datomsArray 2 (Db_history sample_db) EAVT (entity_prefix 1000) = Inr ds \<and>
     set ds = {sample_new, sample_datom, sample_gone}"
proof -
  obtain ds where "datomsArray 2 (Db_history sample_db) EAVT (entity_prefix 1000) = Inr ds"
    "set ds = {x \<in> db_datoms_in sample_db sample_trees EAVT. matching EAVT (entity_prefix 1000) x \<and> d_t x \<le> effectiveT sample_db}"
    using history_returns_all [OF sample_db_rep sample_prefix(1) sample_nodes sample_db_bounded, of EAVT] by blast
  moreover have "{sample_new} \<union> {sample_datom} \<union> {sample_gone} = {sample_new, sample_datom, sample_gone}" by blast
  ultimately show ?thesis unfolding sample_effective sample_db_datoms sample_prefix filter_three by simp
qed

text \<open>
  C16: The planner's estimate is the number of matching datoms in the tree plus the number
  in novelty, hence never below the number of facts a read returns.
\<close>

theorem estimate_bounds_reads:
  assumes "db_rep d t" "prefix_ok p" "nodes (t i) < n" "\<not> db_isHistory d"
  shows "\<exists>k ds. Db_estimate n d i p = Inr k \<and> datomsArray n d i p = Inr ds \<and> length ds \<le> k"
proof -
  let ?M = "{x \<in> db_datoms_in d t i. matching i p x}"
  obtain ds where ds: "datomsArray n d i p = Inr ds" "index_sorted i ds"
    "set ds = currentFacts (Some (effectiveT d)) ?M" using datoms_current [OF assms] by blast
  have fin: "finite (nv_abs (db_novelty d) i)" by (simp add: sn_abs_def)
  have "set ds \<subseteq> set (filter (matching i p) (contents (t i))) \<union> {x \<in> nv_abs (db_novelty d) i. matching i p x}"
    unfolding ds(3) by (auto simp: currentFacts_def db_datoms_in_def)
  then have "card (set ds) \<le> card (set (filter (matching i p) (contents (t i))) \<union> {x \<in> nv_abs (db_novelty d) i. matching i p x})"
    using fin by (intro card_mono) auto
  also have "\<dots> \<le> card (set (filter (matching i p) (contents (t i)))) + card {x \<in> nv_abs (db_novelty d) i. matching i p x}"
    by (rule card_Un_le)
  also have "\<dots> \<le> length (filter (matching i p) (contents (t i))) + card {x \<in> nv_abs (db_novelty d) i. matching i p x}"
    using card_length by (rule add_right_mono)
  finally have "length ds \<le> length (filter (matching i p) (contents (t i))) + card {x \<in> nv_abs (db_novelty d) i. matching i p x}"
    using ds(2) idx.strictly_sorted_distinct [of i ds] by (simp add: distinct_card index_sorted_def)
  then show ?thesis using ds(1) Db_estimate_counts [OF assms(1-3)] by blast
qed

theorem estimate_bounds_reads_witness:
  "\<exists>k ds. Db_estimate 2 sample_db AEVT (entity_prefix 1000) = Inr k \<and>
     datomsArray 2 sample_db AEVT (entity_prefix 1000) = Inr ds \<and> length ds \<le> k"
  by (rule estimate_bounds_reads [OF sample_db_rep sample_prefix(1) sample_nodes sample_effective(2)])

text \<open>
  Snapshots. A database value taken as of its basis keeps answering as before after
  later transactions have added their datoms to the novelty it shares and moved the basis on.
\<close>

lemma as_of_snapshot:
  assumes "db_rep d t" "db_bounded d t" "prefix_ok p" "nodes (t i) < n" "db_asOfT d = None"
    "\<forall>x\<in>set ds. datom_ok x \<and> db_basisT d < d_t x" "db_basisT d \<le> b"
  shows "datomsArray n (Db_asOf (db_basisT d) (d\<lparr>db_novelty := nv_add ds avet vaet (db_novelty d), db_basisT := b\<rparr>)) i p =
    datomsArray n d i p"
  using assms by (rule as_of_is_snapshot)

lemma as_of_snapshot_witness:
  "datomsArray 2 (Db_asOf 8 (sample_db\<lparr>db_novelty := nv_add [sample_gone\<lparr>d_t := 9\<rparr>] (\<lambda>a. True) (\<lambda>a. True) sample_novelty,
       db_basisT := 9\<rparr>)) EAVT (entity_prefix 1000) = datomsArray 2 sample_db EAVT (entity_prefix 1000)"
proof -
  have "datom_ok (sample_gone\<lparr>d_t := 9\<rparr>)"
    using sample_datoms_ok(1) by (simp add: datom_ok_def id_ok_def MAX_ID_def)
  then have ds: "\<forall>x\<in>set [sample_gone\<lparr>d_t := 9\<rparr>]. datom_ok x \<and> db_basisT sample_db < d_t x"
    by (simp add: sample_effective)
  have b: "db_basisT sample_db \<le> 9" by (simp add: sample_effective)
  have "db_novelty sample_db = sample_novelty" by (simp add: sample_db_def)
  with as_of_snapshot [OF sample_db_rep sample_db_bounded sample_prefix(1) sample_nodes sample_effective(3) ds b,
      where i = EAVT and avet = "\<lambda>a. True" and vaet = "\<lambda>a. True"]
  show ?thesis unfolding sample_effective by simp
qed

section \<open>The schema\<close>

text \<open>
  An attribute described in datoms is installed as described. Applying the datoms that
  \<open>attributeDatoms\<close> writes for a specification to a schema that has not seen the entity
  gives the attribute with the specification's ident, type, cardinality, uniqueness and flags.
\<close>

lemma attribute_round_trip:
  assumes "schema_inv s" "jm_get (sc_partials s) e = None" "attributeDatoms e spec t = Inr ds" "sp_ident spec \<noteq> []"
  shows "\<exists>tag. attr_by_id (Schema_apply ds s) e = Some (spec_attribute e spec tag) \<and>
    (case sp_valueType spec of Inl n \<Rightarrow> valueTypeOf n = Some (Some tag) | Inr tag' \<Rightarrow> tag' = tag)"
  using assms by (rule attribute_described)

definition sample_spec :: attribute_spec where
  "sample_spec = \<lparr>sp_ident = js ''name'', sp_valueType = Inr Str, sp_cardinality = None, sp_unique = Some UIdentity,
     sp_index = False, sp_isComponent = False, sp_doc = None\<rparr>"

lemma attribute_round_trip_witness:
  "\<exists>ds. attributeDatoms 100 sample_spec 1 = Inr ds \<and>
     attr_by_id (Schema_apply ds Schema_new) 100 = Some (spec_attribute 100 sample_spec Str)"
proof -
  obtain ds where ds: "attributeDatoms 100 sample_spec 1 = Inr ds"
    by (simp add: attributeDatoms_def sample_spec_def)
  have "jm_get (sc_partials Schema_new) 100 = None" "sp_ident sample_spec \<noteq> []"
    by (simp_all add: Schema_new_def sample_spec_def js_def)
  from attribute_round_trip [OF schema_inv_new this(1) ds this(2)] ds show ?thesis
    by (auto simp: sample_spec_def)
qed

text \<open>
  Batches do not matter. Applying two batches of datoms one after the other derives the
  same attributes as applying them as one, so a schema replayed from the log in any cut
  equals the one built as transactions came.
\<close>

lemma schema_batches:
  assumes "schema_inv s"
  shows "attr_by_id (Schema_apply (xs @ ys) s) = attr_by_id (Schema_apply ys (Schema_apply xs s)) \<and>
    schema_inv (Schema_apply (xs @ ys) s)"
  using assms Schema_apply_append Schema_apply_inv by blast

lemma schema_batches_witness:
  "attr_by_id (Schema_apply ([sample_datom] @ [sample_gone]) Schema_new) =
     attr_by_id (Schema_apply [sample_gone] (Schema_apply [sample_datom] Schema_new))"
  using schema_batches [OF schema_inv_new] by blast


text \<open>
  C17: The schema is what the datoms say. However a history of datoms is cut into batches,
  applying them one after the other to an empty schema gives, for every entity, the attribute
  that the history describes - the last datom about the entity and each system attribute
  decides - and none when it has no ident or no known type; looking an attribute up by ident
  finds only an attribute described with that ident.
\<close>

theorem schema_is_the_description:
  "attr_by_id (fold Schema_apply dss Schema_new) e = described_attribute (concat dss) e \<and>
    (\<forall>i at. attr_by_ident (fold Schema_apply dss Schema_new) i = Some at \<longrightarrow>
       at_ident at = i \<and> described_attribute (concat dss) (at_id at) = Some at)"
  using Schema_batches_described Schema_batches_ident by blast

definition sample_batches :: "datom list list" where
  "sample_batches =
     [[assert_str 100 DB_IDENT (js '':a/n'') 1, assert_str 100 DB_VALUE_TYPE (js '':db.type/string'') 1, assert_true 100 DB_INDEX 1],
      [(assert_true 100 DB_INDEX 2)\<lparr>d_op := False\<rparr>, assert_str 100 DB_CARDINALITY (js '':db.cardinality/many'') 2]]"

definition sample_described :: attribute where
  "sample_described = \<lparr>at_id = 100, at_ident = js '':a/n'', at_valueType = Some Str, at_cardinality = Many, at_unique = None,
     at_index = False, at_isComponent = False, at_doc = None\<rparr>"

theorem schema_is_the_description_witness:
  "attr_by_ident (fold Schema_apply sample_batches Schema_new) (js '':a/n'') = Some sample_described \<and>
   described_attribute (concat sample_batches) (at_id sample_described) = Some sample_described \<and>
   attr_by_id (fold Schema_apply sample_batches Schema_new) 101 = described_attribute (concat sample_batches) 101"
proof -
  have i: "attr_by_ident (fold Schema_apply sample_batches Schema_new) (js '':a/n'') = Some sample_described" by code_simp
  show ?thesis using schema_is_the_description [of sample_batches 101] i by blast
qed

end
