(* ===== verification/TxModel.thy ===== *)
theory TxModel
  imports DbView
begin

text \<open>
  Transaction processing (\<open>internal/core/tx.ts\<close>): transaction data is flattened into
  operations, temporary ids are resolved (upserting on identity attributes), and each
  operation is turned into concrete datoms against an overlay of the current view.
\<close>

section \<open>Operations\<close>

datatype op_kind = KAdd | KRetract | KRetractEntity

record tx_op =
  op_kind :: op_kind
  op_e :: jsval
  op_a :: jsval
  op_v :: jsval
  op_hasV :: bool

definition GENERATED_TEMPID_PREFIX :: jsstr where
  "GENERATED_TEMPID_PREFIX = js ''__ramose.tmp/''"

definition TX_TEMPID :: "jsstr list" where
  "TX_TEMPID = map js ['':db/tx'', ''datomic.tx'', ''db.tx'']"

definition colon :: "16 word" where
  "colon = 0x3A"

fun isPlainObject :: "jsval \<Rightarrow> bool" where
  "isPlainObject (JObj o') = (\<not> (j_has o' ''vt'' \<and> j_has o' ''v'' \<and> length o' = 2))"
| "isPlainObject _ = False"

fun isLookupRef :: "jsval \<Rightarrow> bool" where
  "isLookupRef (JArr [JStr s, v]) = (s \<noteq> [] \<and> hd s = colon)"
| "isLookupRef _ = False"

fun isTempid :: "jsval \<Rightarrow> bool" where
  "isTempid (JStr s) = (s = [] \<or> hd s \<noteq> colon)"
| "isTempid _ = False"

section \<open>Flattening\<close>

text \<open>
  The name of a key is what follows its last slash (or its first character); a leading
  underscore makes it a reverse reference, and the attribute is the key without it.
\<close>

definition split_key :: "jsstr \<Rightarrow> jsstr \<times> jsstr" where
  "split_key k =
     (if 0x2F \<in> set k then (rev (dropWhile (\<lambda>c. c \<noteq> 0x2F) (rev k)), rev (takeWhile (\<lambda>c. c \<noteq> 0x2F) (rev k)))
      else ([colon], tl k))"

definition reverse_attr :: "jsstr \<Rightarrow> jsstr option" where
  "reverse_attr k =
     (case split_key k of (ns, name) \<Rightarrow> if name \<noteq> [] \<and> hd name = 0x5F then Some (ns @ tl name) else None)"

fun js_elems :: "jsval \<Rightarrow> jsval list" where
  "js_elems (JArr xs) = xs"
| "js_elems v = [v]"

record flat_state =
  fl_ops :: "tx_op list"
  fl_tmp :: nat

definition add_op :: "jsval \<Rightarrow> jsstr \<Rightarrow> jsval \<Rightarrow> tx_op" where
  "add_op e a v = \<lparr>op_kind = KAdd, op_e = e, op_a = JStr a, op_v = v, op_hasV = True\<rparr>"

definition push_op :: "tx_op \<Rightarrow> flat_state \<Rightarrow> flat_state" where
  "push_op x st = st\<lparr>fl_ops := fl_ops st @ [x]\<rparr>"

text \<open>The entity of a map form: its \<open>:db/id\<close>, or a fresh generated tempid.\<close>

definition map_entity :: "(jsstr \<times> jsval) list \<Rightarrow> flat_state \<Rightarrow> jsval \<times> flat_state" where
  "map_entity o' st =
     (let e = j_get o' '':db/id''
      in if e = JUndefined \<or> e = JNull then
           (JStr (GENERATED_TEMPID_PREFIX @ nat_digits (fl_tmp st + 1)), st\<lparr>fl_tmp := fl_tmp st + 1\<rparr>)
         else (e, st))"

lemma js_elems_size: "size_list size (js_elems v) \<le> Suc (size v + n)"
  by (cases v) auto

function (sequential) expand_value :: "jsval \<Rightarrow> flat_state \<Rightarrow> (jsval \<times> flat_state) res"
  and expand_entries :: "jsval \<Rightarrow> (jsstr \<times> jsval) list \<Rightarrow> flat_state \<Rightarrow> flat_state res"
  and expand_forward :: "jsval \<Rightarrow> jsstr \<Rightarrow> jsval list \<Rightarrow> flat_state \<Rightarrow> flat_state res"
  and expand_reverse :: "jsval \<Rightarrow> jsstr \<Rightarrow> jsval list \<Rightarrow> flat_state \<Rightarrow> flat_state res" where
  "expand_value (JObj o') st =
     (if isPlainObject (JObj o') then
        (case map_entity o' st of (e, st1) \<Rightarrow> rmap (\<lambda>st2. (e, st2)) (expand_entries e o' st1))
      else Inr (JObj o', st))"
| "expand_value v st = Inr (v, st)"
| "expand_entries e [] st = Inr st"
| "expand_entries e ((k, val) # rest) st =
     (if k = js '':db/id'' then expand_entries e rest st
      else if k = [] \<or> hd k \<noteq> colon then Inl (TxError ''bad attribute key'' ''tx/invalid'')
      else case reverse_attr k of
        Some a \<Rightarrow> rbind (expand_reverse e a (js_elems val) st) (\<lambda>st'. expand_entries e rest st')
      | None \<Rightarrow> rbind (expand_forward e k (if isLookupRef val then [val] else js_elems val) st)
          (\<lambda>st'. expand_entries e rest st'))"
| "expand_forward e k [] st = Inr st"
| "expand_forward e k (x # xs) st =
     rbind (expand_value x st) (\<lambda>(v, st'). expand_forward e k xs (push_op (add_op e k v) st'))"
| "expand_reverse e a [] st = Inr st"
| "expand_reverse e a (x # xs) st =
     rbind (expand_value x st) (\<lambda>(other, st'). expand_reverse e a xs (push_op (add_op other a e) st'))"
  by pat_completeness auto

termination
proof (relation "measure (\<lambda>x. case x of
    Inl (Inl (v, st)) \<Rightarrow> size v
  | Inl (Inr (e, es, st)) \<Rightarrow> size_list (size_prod (\<lambda>_. 0) size) es
  | Inr (Inl (e, k, xs, st)) \<Rightarrow> size_list size xs
  | Inr (Inr (e, a, xs, st)) \<Rightarrow> size_list size xs)")
  show "wf (measure (\<lambda>x. case x of
    Inl (Inl (v, st)) \<Rightarrow> size v
  | Inl (Inr (e, es, st)) \<Rightarrow> size_list (size_prod (\<lambda>_. 0) size) es
  | Inr (Inl (e, k, xs, st)) \<Rightarrow> size_list size xs
  | Inr (Inr (e, a, xs, st)) \<Rightarrow> size_list size xs) :: _ set)" by simp
qed (auto simp: less_Suc_eq_le le_SucI js_elems_size)

definition nth_js :: "jsval list \<Rightarrow> nat \<Rightarrow> jsval" where
  "nth_js xs i = (if i < length xs then xs ! i else JUndefined)"

definition flatten_item :: "jsval \<Rightarrow> flat_state \<Rightarrow> flat_state res" where
  "flatten_item item st =
     (case item of
        JArr xs \<Rightarrow>
          (let opn = nth_js xs 0; e = nth_js xs 1; a = nth_js xs 2; v = nth_js xs 3
           in if opn = JStr (js '':db/add'') then
                (if length xs \<noteq> 4 then Inl (TxError '':db/add needs [op e a v]'' ''tx/invalid'')
                 else rmap (\<lambda>(v', st'). push_op \<lparr>op_kind = KAdd, op_e = e, op_a = a, op_v = v', op_hasV = True\<rparr> st')
                        (expand_value v st))
              else if opn = JStr (js '':db/retract'') then
                (if length xs \<noteq> 3 \<and> length xs \<noteq> 4 then Inl (TxError '':db/retract needs [op e a v?]'' ''tx/invalid'')
                 else Inr (push_op \<lparr>op_kind = KRetract, op_e = e, op_a = a, op_v = v, op_hasV = (length xs = 4)\<rparr> st))
              else if opn = JStr (js '':db/retractEntity'') \<or> opn = JStr (js '':db.fn/retractEntity'') then
                Inr (push_op \<lparr>op_kind = KRetractEntity, op_e = e, op_a = JUndefined, op_v = JUndefined, op_hasV = False\<rparr> st)
              else Inl (TxError ''unknown tx op'' ''tx/invalid''))
      | _ \<Rightarrow> if isPlainObject item then rmap snd (expand_value item st)
             else Inl (TxError ''bad tx item'' ''tx/invalid''))"

definition flattenTxData :: "jsval list \<Rightarrow> tx_op list res" where
  "flattenTxData txData = rmap fl_ops (rfold flatten_item txData \<lparr>fl_ops = [], fl_tmp = 0\<rparr>)"

section \<open>The state of an expansion\<close>

record expanded_op =
  xo_kind :: op_kind
  xo_e :: int
  xo_a :: int
  xo_attr :: attribute
  xo_datom :: datom
  xo_implicit :: bool
  xo_fromRetractEntity :: bool

text \<open>What an expansion reads and does not change.\<close>

record tx_env =
  te_fuel :: nat
  te_pf :: platform
  te_db :: db
  te_t :: int
  te_newIdents :: "(jsstr, jsval) jsmap"
  te_closureCap :: "nat option"

definition te_txe :: "tx_env \<Rightarrow> int" where
  "te_txe c = txEid (te_t c)"

text \<open>
  The local variables it mutates. The overlay is keyed by entity and attribute (the code
  joins the two numbers with a colon), each entry mapping value keys to datoms.
\<close>

record tx_state =
  ts_tempids :: "(jsstr, int) jsmap"
  ts_out :: "datom list"
  ts_expanded :: "expanded_op list"
  ts_newEntities :: "int list"
  ts_nextEid :: int
  ts_aliases :: "(jsstr, jsstr) jsmap"
  ts_claims :: "(jsstr, jsstr) jsmap"
  ts_cur :: "(int \<times> int, (jsstr, datom) jsmap) jsmap"
  ts_uniqueSeen :: "(jsstr, int) jsmap"
  ts_retracted :: "int list"
  ts_closureCount :: nat
  ts_inRetractEntity :: bool

definition set_add :: "'a \<Rightarrow> 'a list \<Rightarrow> 'a list" where
  "set_add x xs = (if x \<in> set xs then xs else xs @ [x])"

lemma set_fold_set_add: "set (fold set_add xs ys) = set xs \<union> set ys"
  by (induction xs arbitrary: ys) (auto simp: set_add_def)

definition tx_record :: "tx_env \<Rightarrow> op_kind \<Rightarrow> int \<Rightarrow> attribute \<Rightarrow> datom \<Rightarrow> bool \<Rightarrow> tx_state \<Rightarrow> tx_state res" where
  "tx_record c kind e at d implicit s =
     (let s1 = s\<lparr>ts_expanded := ts_expanded s @ [\<lparr>xo_kind = kind, xo_e = e, xo_a = at_id at, xo_attr = at,
                  xo_datom = d, xo_implicit = implicit, xo_fromRetractEntity = ts_inRetractEntity s\<rparr>]\<rparr>
      in if ts_inRetractEntity s then
           (let s2 = s1\<lparr>ts_closureCount := ts_closureCount s + 1\<rparr>
            in case te_closureCap c of
                 Some cap \<Rightarrow>
                   if ts_closureCount s2 > cap then Inl (TxError '':db/retractEntity closure exceeds the cap'' ''tx/closure-cap'')
                   else Inr s2
               | None \<Rightarrow> Inr s2)
         else Inr s1)"

definition attrOf :: "tx_env \<Rightarrow> jsval \<Rightarrow> attribute res" where
  "attrOf c a =
     (if a = JUndefined then Inl (TxError ''missing attribute'' ''tx/invalid'')
      else case (case attr_key a of Some k \<Rightarrow> Db_attr (te_db c) k | None \<Rightarrow> None) of
        None \<Rightarrow> Inl (TxError ''unknown attribute'' ''tx/unknown-attribute'')
      | Some at \<Rightarrow> Inr at)"

definition collect_idents :: "tx_op list \<Rightarrow> (jsstr, jsval) jsmap" where
  "collect_idents ops =
     fold (\<lambda>x m. case op_v x of
         JStr s \<Rightarrow> if op_kind x = KAdd \<and> op_a x = JStr (js '':db/ident'') then jm_set s (op_e x) m else m
       | _ \<Rightarrow> m) ops []"

section \<open>Resolving entities\<close>

text \<open>
  Following aliases. The chain visits every alias at most once, so one step more than
  there are aliases is enough.
\<close>

fun alias_walk :: "nat \<Rightarrow> (jsstr, jsstr) jsmap \<Rightarrow> jsstr \<Rightarrow> jsstr res" where
  "alias_walk 0 al cur = Inl Diverges"
| "alias_walk (Suc k) al cur =
     (case jm_get al cur of
        None \<Rightarrow> Inr cur
      | Some next' \<Rightarrow> if next' = cur then Inr cur else alias_walk k al next')"

definition aliasOf :: "tx_state \<Rightarrow> jsstr \<Rightarrow> jsstr res" where
  "aliasOf s tid = alias_walk (Suc (length (ts_aliases s))) (ts_aliases s) tid"

text \<open>
  A number that the program takes as an entity id or a reference without a check. An integer
  is itself, a negative one too; with any other number the program goes on, and fails when the
  log entry is written: that is outside the model.
\<close>

definition as_eid :: "jsnum \<Rightarrow> int res" where
  "as_eid k = (case k of NInt n \<Rightarrow> Inr n | NDbl x \<Rightarrow> Inl Unmodelled)"

text \<open>
  \<open>resolveEntity\<close>. Idents created in the transaction refer on to the form that creates
  them; the recursion is bounded by fuel, which only a cycle of such forms exhausts (in
  the program, the stack). \<open>None\<close> is \<open>undefined\<close>.
\<close>

fun resolveEntity :: "nat \<Rightarrow> tx_env \<Rightarrow> jsval \<Rightarrow> bool \<Rightarrow> tx_state \<Rightarrow> (int option \<times> tx_state) res" where
  "resolveEntity 0 c form allocate s = Inl Diverges"
| "resolveEntity (Suc k) c form allocate s =
     (case form of
        JNum x \<Rightarrow>
          (case x of
             NInt n \<Rightarrow> if \<not> safe_int n \<or> n < 0 then Inl (TxError ''bad entity id'' ''tx/invalid'') else Inr (Some n, s)
           | NDbl _ \<Rightarrow> Inl (TxError ''bad entity id'' ''tx/invalid''))
      | JStr f \<Rightarrow>
          if f \<in> set TX_TEMPID then Inr (Some (te_txe c), s)
          else if f \<noteq> [] \<and> hd f = colon then
            (case Schema_entid (db_schema (te_db c)) f of
               Some e \<Rightarrow> Inr (Some e, s)
             | None \<Rightarrow>
                 (case jm_get (te_newIdents c) f of
                    Some created \<Rightarrow>
                      if created \<noteq> JUndefined \<and> created \<noteq> JStr f then resolveEntity k c created allocate s
                      else Inl (TxError ''unknown ident'' ''tx/unknown-ident'')
                  | None \<Rightarrow> Inl (TxError ''unknown ident'' ''tx/unknown-ident'')))
          else
            rbind (aliasOf s f) (\<lambda>canonical.
              case jm_get (ts_tempids s) canonical of
                Some e \<Rightarrow> Inr (Some e, if canonical \<noteq> f then s\<lparr>ts_tempids := jm_set f e (ts_tempids s)\<rparr> else s)
              | None \<Rightarrow>
                  if \<not> allocate then Inr (None, s)
                  else
                    (let e = ts_nextEid s;
                         ids = jm_set canonical e (ts_tempids s);
                         ids' = (if canonical \<noteq> f then jm_set f e ids else ids)
                     in Inr (Some e, s\<lparr>ts_nextEid := e + 1, ts_newEntities := set_add e (ts_newEntities s), ts_tempids := ids'\<rparr>)))
      | _ \<Rightarrow>
          if isLookupRef form then
            rbind (Db_entid (te_fuel c) (te_pf c) (te_db c) form) (\<lambda>r.
              case r of None \<Rightarrow> Inl (TxError ''lookup ref does not resolve'' ''tx/lookup-ref'')
                      | Some x \<Rightarrow> rmap (\<lambda>e. (Some e, s)) (as_eid x))
          else
            (case form of
               JObj o' \<Rightarrow>
                 if j_get o' ''vt'' = tag_js Ref then
                   (case j_get o' ''v'' of
                      JNum x \<Rightarrow> rmap (\<lambda>e. (Some e, s)) (as_eid x)
                    | JUndefined \<Rightarrow> Inr (None, s)
                    | _ \<Rightarrow> Inl Unmodelled)
                 else Inl (TxError ''bad entity form'' ''tx/invalid'')
             | _ \<Rightarrow> Inl (TxError ''bad entity form'' ''tx/invalid'')))"

section \<open>The upsert pass\<close>

definition claim_key :: "platform \<Rightarrow> attribute \<Rightarrow> tagged_value \<Rightarrow> jsstr" where
  "claim_key pf at v = int_string (at_id at) @ js ''|'' @ valueKey pf v"

text \<open>
  The value an operation claims: \<open>None\<close> when the operation is skipped, as it is when
  coercion fails (the main pass will report it).
\<close>

definition claim_value :: "tx_env \<Rightarrow> attribute \<Rightarrow> jsval \<Rightarrow> tagged_value option res" where
  "claim_value c at v =
     (case v of
        JStr s \<Rightarrow>
          if at_valueType at = Some Ref \<and> s \<noteq> [] \<and> hd s = colon then
            Inr (map_option VRef (Schema_entid (db_schema (te_db c)) s))
          else (case Db_coerce (te_pf c) at v of Inl _ \<Rightarrow> Inr None | Inr tv \<Rightarrow> rmap Some (value_res tv))
      | _ \<Rightarrow> (case Db_coerce (te_pf c) at v of
                 Inl _ \<Rightarrow> Inr None
               | Inr tv \<Rightarrow> if snd tv = JUndefined then Inr None else rmap Some (value_res tv)))"

definition claim_existing :: "tx_env \<Rightarrow> jsstr \<Rightarrow> datom option \<Rightarrow> tx_state \<Rightarrow> tx_state res" where
  "claim_existing c canonical existing s =
     (case existing of
        None \<Rightarrow> Inr s
      | Some x \<Rightarrow>
          (case jm_get (ts_tempids s) canonical of
             Some prev \<Rightarrow>
               if prev \<noteq> d_e x then Inl (TxError ''tempid resolves to two entities'' ''tx/unique-conflict'')
               else Inr (s\<lparr>ts_tempids := jm_set canonical (d_e x) (ts_tempids s)\<rparr>)
           | None \<Rightarrow> Inr (s\<lparr>ts_tempids := jm_set canonical (d_e x) (ts_tempids s)\<rparr>)))"

definition unify_claim :: "jsstr \<Rightarrow> jsstr \<Rightarrow> tx_state \<Rightarrow> tx_state res" where
  "unify_claim canonical target s =
     (if target = canonical then Inr s
      else
        let a = jm_get (ts_tempids s) canonical; b = jm_get (ts_tempids s) target
        in if a \<noteq> None \<and> b \<noteq> None \<and> a \<noteq> b then
             Inl (TxError ''tempids resolve to different entities'' ''tx/unique-conflict'')
           else
             (let s1 = s\<lparr>ts_aliases := jm_set canonical target (ts_aliases s)\<rparr>
              in Inr (case (a, b) of (Some e, None) \<Rightarrow> s1\<lparr>ts_tempids := jm_set target e (ts_tempids s1)\<rparr> | _ \<Rightarrow> s1)))"

definition claim_step :: "tx_env \<Rightarrow> jsstr \<Rightarrow> attribute \<Rightarrow> tagged_value \<Rightarrow> tx_state \<Rightarrow> tx_state res" where
  "claim_step c tid at v s =
     rbind (Db_first (te_fuel c) (te_db c) AVET (attr_prefix at v)) (\<lambda>existing.
     rbind (aliasOf s tid) (\<lambda>canonical.
     rbind (claim_existing c canonical existing s) (\<lambda>s1.
       let key = claim_key (te_pf c) at v
       in case jm_get (ts_claims s1) key of
            None \<Rightarrow> Inr (s1\<lparr>ts_claims := jm_set key canonical (ts_claims s1)\<rparr>)
          | Some claimant \<Rightarrow> rbind (aliasOf s1 claimant) (\<lambda>target. unify_claim canonical target s1))))"

definition upsert_step :: "tx_env \<Rightarrow> tx_op \<Rightarrow> tx_state \<Rightarrow> tx_state res" where
  "upsert_step c x s =
     (case op_e x of
        JStr tid \<Rightarrow>
          if op_kind x \<noteq> KAdd \<or> \<not> isTempid (op_e x) \<or> tid \<in> set TX_TEMPID then Inr s
          else rbind (attrOf c (op_a x)) (\<lambda>at.
            if at_unique at \<noteq> Some UIdentity then Inr s
            else if at_valueType at = Some Ref \<and> (isTempid (op_v x) \<or> isLookupRef (op_v x) \<or> isPlainObject (op_v x)) then Inr s
            else rbind (claim_value c at (op_v x)) (\<lambda>cv.
              case cv of None \<Rightarrow> Inr s | Some v \<Rightarrow> claim_step c tid at v s))
      | _ \<Rightarrow> Inr s)"

section \<open>The overlay\<close>

definition ea_prefix :: "int \<Rightarrow> int \<Rightarrow> prefix" where
  "ea_prefix e a = \<lparr>p_e = Some e, p_a = Some a, p_v = None, p_t = None\<rparr>"

definition key_datoms :: "platform \<Rightarrow> datom list \<Rightarrow> (jsstr, datom) jsmap" where
  "key_datoms pf ds = fold (\<lambda>d m. jm_set (valueKey pf (d_v d)) d m) ds []"

definition tx_current :: "tx_env \<Rightarrow> int \<Rightarrow> int \<Rightarrow> tx_state \<Rightarrow> ((jsstr, datom) jsmap \<times> tx_state) res" where
  "tx_current c e a s =
     (case jm_get (ts_cur s) (e, a) of
        Some m \<Rightarrow> Inr (m, s)
      | None \<Rightarrow>
          rmap (\<lambda>ds. let m = key_datoms (te_pf c) ds in (m, s\<lparr>ts_cur := jm_set (e, a) m (ts_cur s)\<rparr>))
            (datomsArray (te_fuel c) (te_db c) EAVT (ea_prefix e a)))"

definition set_cur :: "int \<Rightarrow> int \<Rightarrow> (jsstr, datom) jsmap \<Rightarrow> tx_state \<Rightarrow> tx_state" where
  "set_cur e a m s = s\<lparr>ts_cur := jm_set (e, a) m (ts_cur s)\<rparr>"

text \<open>\<open>out.push\<close>, \<open>record\<close> and the removal from the overlay, for one retraction.\<close>

definition push_retract :: "tx_env \<Rightarrow> int \<Rightarrow> attribute \<Rightarrow> bool \<Rightarrow> jsstr \<times> datom \<Rightarrow> tx_state \<Rightarrow> tx_state res" where
  "push_retract c e at implicit kd s =
     (let (k, d) = kd; r = \<lparr>d_e = e, d_a = at_id at, d_v = d_v d, d_t = te_t c, d_op = False\<rparr>
      in rmap (\<lambda>s'. set_cur e (at_id at) (jm_delete k (case jm_get (ts_cur s') (e, at_id at) of Some m \<Rightarrow> m | None \<Rightarrow> [])) s')
           (tx_record c KRetract e at r implicit (s\<lparr>ts_out := ts_out s @ [r]\<rparr>)))"

text \<open>Another entity may hold the value only if this transaction has taken it away.\<close>

definition check_other :: "tx_env \<Rightarrow> int \<Rightarrow> attribute \<Rightarrow> tagged_value \<Rightarrow> datom option \<Rightarrow> tx_state \<Rightarrow> tx_state res" where
  "check_other c e at v other s =
     (case other of
        Some x \<Rightarrow>
          if d_e x \<noteq> e then
            rbind (tx_current c (d_e x) (at_id at) s) (\<lambda>(ov, s1).
              if jm_has ov (valueKey (te_pf c) v)
              then Inl (TxError ''unique conflict: already belongs to another entity'' ''tx/unique-conflict'')
              else Inr s1)
          else Inr s
      | None \<Rightarrow> Inr s)"

definition check_unique :: "tx_env \<Rightarrow> int \<Rightarrow> attribute \<Rightarrow> tagged_value \<Rightarrow> tx_state \<Rightarrow> tx_state res" where
  "check_unique c e at v s =
     (if at_unique at = None then Inr s
      else
        let uk = claim_key (te_pf c) at v; seen = jm_get (ts_uniqueSeen s) uk
        in if seen \<noteq> None \<and> seen \<noteq> Some e then Inl (TxError ''unique conflict: already asserted'' ''tx/unique-conflict'')
           else rbind (Db_first (te_fuel c) (te_db c) AVET (attr_prefix at v)) (\<lambda>other.
             rmap (\<lambda>s'. s'\<lparr>ts_uniqueSeen := jm_set uk e (ts_uniqueSeen s')\<rparr>) (check_other c e at v other s)))"

definition emitAdd :: "tx_env \<Rightarrow> int \<Rightarrow> attribute \<Rightarrow> tagged_value \<Rightarrow> tx_state \<Rightarrow> tx_state res" where
  "emitAdd c e at v s =
     rbind (tx_current c e (at_id at) s) (\<lambda>(vals, s1).
       let vk = valueKey (te_pf c) v
       in if jm_has vals vk then Inr s1
          else rbind (check_unique c e at v s1) (\<lambda>s2.
            rbind (if at_cardinality at = One then rfold (push_retract c e at True) vals s2 else Inr s2) (\<lambda>s3.
              let d = \<lparr>d_e = e, d_a = at_id at, d_v = v, d_t = te_t c, d_op = True\<rparr>
              in rmap (\<lambda>s4. set_cur e (at_id at) (jm_set vk d (case jm_get (ts_cur s4) (e, at_id at) of Some m \<Rightarrow> m | None \<Rightarrow> [])) s4)
                   (tx_record c KAdd e at d False (s3\<lparr>ts_out := ts_out s3 @ [d]\<rparr>)))))"

definition emitRetract :: "tx_env \<Rightarrow> int \<Rightarrow> attribute \<Rightarrow> tagged_value option \<Rightarrow> tx_state \<Rightarrow> tx_state res" where
  "emitRetract c e at tv s =
     rbind (tx_current c e (at_id at) s) (\<lambda>(vals, s1).
       case tv of
         None \<Rightarrow> rfold (push_retract c e at False) vals s1
       | Some v \<Rightarrow>
           (case jm_get vals (valueKey (te_pf c) v) of
              None \<Rightarrow> Inr s1
            | Some d \<Rightarrow> push_retract c e at False (valueKey (te_pf c) v, d) s1))"

section \<open>Retracting an entity\<close>

text \<open>An attribute the schema does not know stands for its id alone.\<close>

definition stub_attribute :: "int \<Rightarrow> attribute" where
  "stub_attribute a = \<lparr>at_id = a, at_ident = [], at_valueType = None, at_cardinality = One, at_unique = None,
     at_index = False, at_isComponent = False, at_doc = None\<rparr>"

definition vaet_prefix :: "int \<Rightarrow> prefix" where
  "vaet_prefix e = \<lparr>p_e = None, p_a = None, p_v = Some (VRef e), p_t = None\<rparr>"

definition retract_own :: "(int \<Rightarrow> tx_state \<Rightarrow> tx_state res) \<Rightarrow> tx_env \<Rightarrow> int \<Rightarrow> datom \<Rightarrow> tx_state \<Rightarrow> tx_state res" where
  "retract_own rec c e d s =
     (let at = Db_attr (te_db c) (Inl (d_a d))
      in rbind (emitRetract c e (case at of Some a \<Rightarrow> a | None \<Rightarrow> stub_attribute (d_a d)) (Some (d_v d)) s) (\<lambda>s'.
           case (at, d_v d) of
             (Some a, VRef child) \<Rightarrow> if at_isComponent a then rec child s' else Inr s'
           | _ \<Rightarrow> Inr s'))"

definition retract_incoming :: "tx_env \<Rightarrow> datom \<Rightarrow> tx_state \<Rightarrow> tx_state res" where
  "retract_incoming c d s =
     (case Db_attr (te_db c) (Inl (d_a d)) of
        Some at \<Rightarrow> emitRetract c (d_e d) at (Some (d_v d)) s
      | None \<Rightarrow> Inr s)"

text \<open>References that this transaction asserted earlier, found in the overlay.\<close>

definition overlay_entry :: "tx_env \<Rightarrow> int \<Rightarrow> (int \<times> int) \<times> (jsstr, datom) jsmap \<Rightarrow> tx_state \<Rightarrow> tx_state res" where
  "overlay_entry c e entry s =
     (case entry of ((ee, aa), m) \<Rightarrow>
        (case Db_attr (te_db c) (Inl aa) of
           Some at \<Rightarrow>
             if at_valueType at = Some Ref then
               rfold (push_retract c ee (at\<lparr>at_id := aa\<rparr>) False)
                 (filter (\<lambda>(k, d). payload_of (d_v d) = PNum (NInt e) \<and> d_t d = te_t c) m) s
             else Inr s
         | None \<Rightarrow> Inr s))"

fun retractEntity :: "nat \<Rightarrow> tx_env \<Rightarrow> int \<Rightarrow> tx_state \<Rightarrow> tx_state res" where
  "retractEntity 0 c e s = Inl Diverges"
| "retractEntity (Suc k) c e s =
     (if e \<in> set (ts_retracted s) then Inr s
      else
        rbind (datomsArray (te_fuel c) (te_db c) EAVT (entity_prefix e)) (\<lambda>own.
        rbind (rfold (retract_own (\<lambda>child s'. retractEntity k c child s') c e) own
                 (s\<lparr>ts_retracted := ts_retracted s @ [e]\<rparr>)) (\<lambda>s2.
        rbind (datomsArray (te_fuel c) (te_db c) VAET (vaet_prefix e)) (\<lambda>incoming.
        rbind (rfold (retract_incoming c) incoming s2) (\<lambda>s3.
          rfold (overlay_entry c e) (ts_cur s3) s3)))))"

section \<open>Values\<close>

definition valueFor :: "nat \<Rightarrow> tx_env \<Rightarrow> attribute \<Rightarrow> jsval \<Rightarrow> tx_state \<Rightarrow> (tagged_value \<times> tx_state) res" where
  "valueFor k c at v s =
     (if v = JUndefined \<or> v = JNull then Inl (TxError ''nil value'' ''tx/invalid'')
      else if at_valueType at = Some Ref then
        (case v of
           JNum x \<Rightarrow> rmap (\<lambda>n. (VRef n, s)) (as_eid x)
         | _ \<Rightarrow> rbind (resolveEntity k c v True s) (\<lambda>(r, s').
             case r of None \<Rightarrow> Inl (TxError ''cannot resolve ref value'' ''tx/invalid'')
                     | Some e \<Rightarrow> Inr (VRef e, s')))
      else
        (case Db_coerce (te_pf c) at v of
           Inl _ \<Rightarrow> Inl (TxError ''value does not fit the attribute'' ''tx/type-mismatch'')
         | Inr tv \<Rightarrow> rmap (\<lambda>x. (x, s)) (value_res tv)))"

definition validateSchemaValue :: "platform \<Rightarrow> attribute \<Rightarrow> tagged_value \<Rightarrow> unit res" where
  "validateSchemaValue pf at v =
     (let str = payload_string pf (payload_of v); is_str = (\<lambda>s. payload_of v = PStr (js s))
      in if at_id at = DB_VALUE_TYPE \<and> valueTypeOf str = None then
           Inl (TxError ''invalid :db/valueType'' ''tx/schema'')
         else if at_id at = DB_CARDINALITY \<and> \<not> is_str '':db.cardinality/one'' \<and> \<not> is_str '':db.cardinality/many'' then
           Inl (TxError ''invalid :db/cardinality'' ''tx/schema'')
         else if at_id at = DB_UNIQUE \<and> \<not> is_str '':db.unique/identity'' \<and> \<not> is_str '':db.unique/value'' then
           Inl (TxError ''invalid :db/unique'' ''tx/schema'')
         else if at_id at = DB_IDENT \<and> (case payload_of v of PStr s \<Rightarrow> s = [] \<or> hd s \<noteq> colon | _ \<Rightarrow> True) then
           Inl (TxError '':db/ident must be a keyword-like string'' ''tx/schema'')
         else Inr ())"

section \<open>The main pass\<close>

text \<open>Three fuels: for tree walks (in the environment), ident chains and component closures.\<close>

definition main_step :: "nat \<Rightarrow> nat \<Rightarrow> tx_env \<Rightarrow> tx_op \<Rightarrow> tx_state \<Rightarrow> tx_state res" where
  "main_step k m c x s =
     (if op_kind x = KRetractEntity then
        rbind (resolveEntity k c (op_e x) False s) (\<lambda>(r, s1).
          case r of
            None \<Rightarrow> Inr s1
          | Some e \<Rightarrow>
              rmap (\<lambda>s'. s'\<lparr>ts_inRetractEntity := False\<rparr>)
                (retractEntity m c e (s1\<lparr>ts_inRetractEntity := True\<rparr>)))
      else
        rbind (attrOf c (op_a x)) (\<lambda>at.
        rbind (resolveEntity k c (op_e x) (op_kind x = KAdd) s) (\<lambda>(r, s1).
          case r of
            None \<Rightarrow> Inr s1
          | Some e \<Rightarrow>
              if op_kind x = KAdd then
                rbind (valueFor k c at (op_v x) s1) (\<lambda>(v, s2).
                rbind (validateSchemaValue (te_pf c) at v) (\<lambda>_. emitAdd c e at v s2))
              else if op_hasV x then
                rbind (valueFor k c at (op_v x) s1) (\<lambda>(v, s2). emitRetract c e at (Some v) s2)
              else emitRetract c e at None s1)))"

record tx_result =
  tr_t :: int
  tr_txEid :: int
  tr_datoms :: "datom list"
  tr_tempids :: "(jsstr, int) jsmap"
  tr_nextEid :: int

record tx_expansion =
  tx_res :: tx_result
  tx_newEntities :: "int list"
  tx_ops :: "expanded_op list"

definition initial_tx :: "int \<Rightarrow> int \<Rightarrow> tx_state" where
  "initial_tx t nextEid =
     \<lparr>ts_tempids = [], ts_out = [], ts_expanded = [], ts_newEntities = [txEid t], ts_nextEid = nextEid,
      ts_aliases = [], ts_claims = [], ts_cur = [], ts_uniqueSeen = [], ts_retracted = [],
      ts_closureCount = 0, ts_inRetractEntity = False\<rparr>"

definition instant_datom :: "int \<Rightarrow> int \<Rightarrow> datom" where
  "instant_datom t txInstant =
     \<lparr>d_e = txEid t, d_a = DB_TX_INSTANT, d_v = VInst txInstant, d_t = t, d_op = True\<rparr>"

definition expandTx ::
  "nat \<times> nat \<times> nat \<Rightarrow> platform \<Rightarrow> db \<Rightarrow> jsval list \<Rightarrow> int \<Rightarrow> int \<Rightarrow> int \<Rightarrow> nat option \<Rightarrow> tx_expansion res" where
  "expandTx fuel pf d txData t nextEid txInstant closureCap =
     (case fuel of (n, k, m) \<Rightarrow>
        rbind (flattenTxData txData) (\<lambda>ops.
          let c = \<lparr>te_fuel = n, te_pf = pf, te_db = d, te_t = t, te_newIdents = collect_idents ops, te_closureCap = closureCap\<rparr>
          in rbind (rfold (upsert_step c) ops (initial_tx t nextEid)) (\<lambda>s1.
             rmap (\<lambda>s. \<lparr>tx_res = \<lparr>tr_t = t, tr_txEid = te_txe c, tr_datoms = instant_datom t txInstant # ts_out s,
                             tr_tempids = ts_tempids s, tr_nextEid = ts_nextEid s\<rparr>,
                        tx_newEntities = ts_newEntities s, tx_ops = ts_expanded s\<rparr>)
               (rfold (main_step k m c) ops s1))))"

definition processTx ::
  "nat \<times> nat \<times> nat \<Rightarrow> platform \<Rightarrow> db \<Rightarrow> jsval list \<Rightarrow> int \<Rightarrow> int \<Rightarrow> int \<Rightarrow> tx_result res" where
  "processTx fuel pf d txData t nextEid txInstant =
     rmap tx_res (expandTx fuel pf d txData t nextEid txInstant None)"

end
