(* ===== verification/TxCorrect.thy ===== *)
theory TxCorrect
  imports TxModel
begin

text \<open>
  What transaction processing guarantees. The reference is a set of facts (entity,
  attribute, value) edited by the emitted datoms: every assertion adds a fact that was
  absent, every retraction removes one that was present, and the overlay agrees with the
  edited set throughout, so cardinality-one attributes never hold two values.
\<close>

section \<open>Facts and edits\<close>

type_synonym fact = "int \<times> int \<times> tagged_value"

definition fact_of :: "datom \<Rightarrow> fact" where
  "fact_of d = (d_e d, d_a d, d_v d)"

definition edit :: "datom \<Rightarrow> fact set \<Rightarrow> fact set" where
  "edit d F = (if d_op d then insert (fact_of d) F else F - {fact_of d})"

definition edits :: "datom list \<Rightarrow> fact set \<Rightarrow> fact set" where
  "edits ds F = fold edit ds F"

fun edit_script :: "datom list \<Rightarrow> fact set \<Rightarrow> bool" where
  "edit_script [] F = True"
| "edit_script (d # ds) F \<longleftrightarrow> (d_op d \<longleftrightarrow> fact_of d \<notin> F) \<and> edit_script ds (edit d F)"

lemma edits_append [simp]: "edits (xs @ ys) F = edits ys (edits xs F)"
  by (simp add: edits_def)

lemma edits_single [simp]: "edits [d] F = edit d F"
  by (simp add: edits_def)

lemma edits_Nil [simp]: "edits [] F = F"
  by (simp add: edits_def)

lemma edit_script_append:
  "edit_script (xs @ ys) F \<longleftrightarrow> edit_script xs F \<and> edit_script ys (edits xs F)"
  by (induction xs arbitrary: F) (auto simp: edits_def)

definition vals_at :: "int \<Rightarrow> int \<Rightarrow> fact set \<Rightarrow> tagged_value set" where
  "vals_at e a F = {v. (e, a, v) \<in> F}"

lemma vals_at_edit:
  "vals_at e a (edit d F) =
     (if (d_e d, d_a d) = (e, a) then (if d_op d then insert (d_v d) (vals_at e a F) else vals_at e a F - {d_v d})
      else vals_at e a F)"
  by (auto simp: vals_at_def edit_def fact_of_def)

section \<open>The overlay represents the edited facts\<close>

definition map_rep :: "platform \<Rightarrow> (jsstr, datom) jsmap \<Rightarrow> tagged_value set \<Rightarrow> bool" where
  "map_rep pf m S \<longleftrightarrow> jm_ok m \<and> (\<forall>k d. jm_get m k = Some d \<longrightarrow> k = valueKey pf (d_v d) \<and> keyed (d_v d)) \<and>
     (\<forall>v\<in>S. keyed v) \<and> (\<forall>v. keyed v \<longrightarrow> (v \<in> S \<longleftrightarrow> jm_get m (valueKey pf v) \<noteq> None))"

definition facts_in :: "db \<Rightarrow> (index \<Rightarrow> atree) \<Rightarrow> fact set" where
  "facts_in d t = fact_of ` currentFacts (Some (effectiveT d)) (db_datoms_in d t EAVT)"

text \<open>The environment reads the facts \<open>F\<close> through the database value.\<close>

definition env_reads :: "tx_env \<Rightarrow> fact set \<Rightarrow> bool" where
  "env_reads c F \<longleftrightarrow> renders_doubles (te_pf c) \<and> (\<forall>(e, a, v)\<in>F. keyed v) \<and>
     (\<forall>e a. \<exists>ds. datomsArray (te_fuel c) (te_db c) EAVT (ea_prefix e a) = Inr ds \<and>
        d_v ` set ds = vals_at e a F)"

fun entry_ok :: "platform \<Rightarrow> (jsstr, datom) jsmap option \<Rightarrow> tagged_value set \<Rightarrow> tagged_value set \<Rightarrow> bool" where
  "entry_ok pf (Some m) S S0 = map_rep pf m S"
| "entry_ok pf None S S0 = (S = S0)"

definition overlay_ok :: "tx_env \<Rightarrow> fact set \<Rightarrow> tx_state \<Rightarrow> bool" where
  "overlay_ok c F s \<longleftrightarrow> (\<forall>e a. entry_ok (te_pf c) (jm_get (ts_cur s) (e, a))
     (vals_at e a (edits (ts_out s) F)) (vals_at e a F))"

definition tx_inv :: "tx_env \<Rightarrow> fact set \<Rightarrow> tx_state \<Rightarrow> bool" where
  "tx_inv c F s \<longleftrightarrow> overlay_ok c F s \<and> edit_script (ts_out s) F \<and>
     map xo_datom (ts_expanded s) = ts_out s \<and> (\<forall>d\<in>set (ts_out s). d_t d = te_t c \<and> keyed (d_v d)) \<and>
     (\<forall>x\<in>set (ts_expanded s). xo_e x = d_e (xo_datom x) \<and> xo_a x = d_a (xo_datom x) \<and>
        xo_kind x = (if d_op (xo_datom x) then KAdd else KRetract))"

lemma map_rep_empty [simp]: "map_rep pf [] {}"
  by (simp add: map_rep_def)

lemma map_rep_set:
  assumes "map_rep pf m S" "renders_doubles pf" "d_v d = v" "keyed v"
  shows "map_rep pf (jm_set (valueKey pf v) d m) (insert v S)"
proof -
  have "w = v" if "valueKey pf w = valueKey pf v" "keyed w" for w using valueKey_inj [OF that(1) assms(2) that(2) assms(4)] .
  then show ?thesis using assms by (fastforce simp: map_rep_def)
qed

lemma map_rep_delete:
  assumes "map_rep pf m S" "renders_doubles pf" "keyed v"
  shows "map_rep pf (jm_delete (valueKey pf v) m) (S - {v})"
proof -
  have "w = v" if "valueKey pf w = valueKey pf v" "keyed w" for w using valueKey_inj [OF that(1) assms(2) that(2) assms(3)] .
  then show ?thesis using assms by (fastforce simp: map_rep_def)
qed

lemma map_rep_key_datoms:
  assumes "renders_doubles pf" "\<forall>d\<in>set ds. keyed (d_v d)"
  shows "map_rep pf (key_datoms pf ds) (d_v ` set ds)"
proof -
  have "map_rep pf m S \<Longrightarrow> \<forall>d\<in>set ds. keyed (d_v d) \<Longrightarrow>
      map_rep pf (fold (\<lambda>d m. jm_set (valueKey pf (d_v d)) d m) ds m) (S \<union> d_v ` set ds)" for m S
  proof (induction ds arbitrary: m S)
    case (Cons d ds)
    have "map_rep pf (jm_set (valueKey pf (d_v d)) d m) (insert (d_v d) S)"
      by (rule map_rep_set [OF Cons.prems(1) assms(1) refl]) (use Cons.prems(2) in simp)
    from Cons.IH [OF this] Cons.prems(2) show ?case by simp
  qed simp
  from this [of "[]" "{}"] assms(2) show ?thesis by (simp add: key_datoms_def)
qed

lemma keyed_vals_at: "\<forall>(e, a, v)\<in>F. keyed v \<Longrightarrow> v \<in> vals_at e a F \<Longrightarrow> keyed v"
  by (auto simp: vals_at_def)

text \<open>Reading through the overlay: the entry is then present and the rest is as before.\<close>

lemma tx_current_spec:
  assumes "env_reads c F" "overlay_ok c F s" "tx_current c e a s = Inr (m, s')"
  shows "jm_get (ts_cur s') (e, a) = Some m \<and> map_rep (te_pf c) m (vals_at e a (edits (ts_out s) F)) \<and>
    overlay_ok c F s' \<and> ts_out s' = ts_out s \<and> ts_expanded s' = ts_expanded s"
proof (cases "jm_get (ts_cur s) (e, a)")
  case None
  obtain ds where ds: "datomsArray (te_fuel c) (te_db c) EAVT (ea_prefix e a) = Inr ds" "d_v ` set ds = vals_at e a F"
    using assms(1) unfolding env_reads_def by blast
  then have m: "m = key_datoms (te_pf c) ds" "s' = s\<lparr>ts_cur := jm_set (e, a) m (ts_cur s)\<rparr>"
    using assms(3) None by (auto simp: tx_current_def Let_def)
  have V: "vals_at e a (edits (ts_out s) F) = vals_at e a F"
    using assms(2) None unfolding overlay_ok_def by (metis entry_ok.simps(2))
  have "\<forall>d\<in>set ds. keyed (d_v d)"
    using assms(1) ds(2) keyed_vals_at [of F] by (auto simp: env_reads_def)
  then have "map_rep (te_pf c) m (vals_at e a (edits (ts_out s) F))"
    using map_rep_key_datoms [of "te_pf c" ds] assms(1) ds(2) m(1) V by (simp add: env_reads_def)
  with m assms(2) show ?thesis by (auto simp: overlay_ok_def)
next
  case (Some m0)
  then have "m = m0 \<and> s' = s" using assms(3) by (simp add: tx_current_def)
  moreover have "map_rep (te_pf c) m0 (vals_at e a (edits (ts_out s) F))"
    using assms(2) Some unfolding overlay_ok_def by (metis entry_ok.simps(1))
  ultimately show ?thesis using Some assms(2) by simp
qed

lemma tx_current_inv:
  assumes "env_reads c F" "tx_inv c F s" "tx_current c e a s = Inr (m, s')"
  shows "tx_inv c F s'"
  using tx_current_spec [OF assms(1) _ assms(3)] assms(2) by (simp add: tx_inv_def)

lemma tx_record_Inr:
  "tx_record c kind e at d implicit s = Inr s' \<Longrightarrow>
   ts_out s' = ts_out s \<and> ts_cur s' = ts_cur s \<and>
   ts_expanded s' = ts_expanded s @ [\<lparr>xo_kind = kind, xo_e = e, xo_a = at_id at, xo_attr = at,
     xo_datom = d, xo_implicit = implicit, xo_fromRetractEntity = ts_inRetractEntity s\<rparr>]"
  by (auto simp: tx_record_def Let_def split: if_splits option.splits)

text \<open>One emitted datom with the matching change of its overlay entry keeps the invariant.\<close>

lemma emit_inv:
  assumes inv: "tx_inv c F s" and rd: "env_reads c F"
    and cur: "jm_get (ts_cur s) (d_e d, d_a d) = Some m"
    and rec: "tx_record c (if d_op d then KAdd else KRetract) (d_e d) at d implicit (s\<lparr>ts_out := ts_out s @ [d]\<rparr>) = Inr s'"
    and d: "d_t d = te_t c" "keyed (d_v d)" "at_id at = d_a d" "d_op d \<longleftrightarrow> jm_get m (valueKey (te_pf c) (d_v d)) = None"
    and m': "map_rep (te_pf c) m' (vals_at (d_e d) (d_a d) (edit d (edits (ts_out s) F)))"
  shows "tx_inv c F (set_cur (d_e d) (d_a d) m' s')"
proof -
  note r = tx_record_Inr [OF rec]
  have rep: "map_rep (te_pf c) m (vals_at (d_e d) (d_a d) (edits (ts_out s) F))"
    using inv cur unfolding tx_inv_def overlay_ok_def by (metis entry_ok.simps(1))
  have "fact_of d \<in> edits (ts_out s) F \<longleftrightarrow> d_v d \<in> vals_at (d_e d) (d_a d) (edits (ts_out s) F)"
    by (simp add: vals_at_def fact_of_def)
  then have "d_op d \<longleftrightarrow> fact_of d \<notin> edits (ts_out s) F"
    using d(2,4) rep by (simp add: map_rep_def)
  then have "edit_script (ts_out s @ [d]) F" using inv by (simp add: tx_inv_def edit_script_append)
  moreover have "overlay_ok c F (set_cur (d_e d) (d_a d) m' s')"
    unfolding overlay_ok_def
  proof (intro allI)
    fix e a
    show "entry_ok (te_pf c) (jm_get (ts_cur (set_cur (d_e d) (d_a d) m' s')) (e, a))
      (vals_at e a (edits (ts_out (set_cur (d_e d) (d_a d) m' s')) F)) (vals_at e a F)"
    proof (cases "(e, a) = (d_e d, d_a d)")
      case True
      then show ?thesis using r m' by (simp add: set_cur_def)
    next
      case False
      then have "vals_at e a (edit d (edits (ts_out s) F)) = vals_at e a (edits (ts_out s) F)"
        by (auto simp: vals_at_edit)
      moreover have "entry_ok (te_pf c) (jm_get (ts_cur s) (e, a)) (vals_at e a (edits (ts_out s) F)) (vals_at e a F)"
        using inv by (simp add: tx_inv_def overlay_ok_def)
      moreover have "ts_out (set_cur (d_e d) (d_a d) m' s') = ts_out s @ [d]"
        "jm_get (ts_cur (set_cur (d_e d) (d_a d) m' s')) (e, a) = jm_get (ts_cur s) (e, a)"
        using r False by (auto simp: set_cur_def)
      ultimately show ?thesis by simp
    qed
  qed
  ultimately show ?thesis using inv r d by (auto simp: tx_inv_def set_cur_def)
qed

section \<open>Cardinality\<close>

definition one_attr :: "tx_env \<Rightarrow> int \<Rightarrow> bool" where
  "one_attr c a \<longleftrightarrow> (\<exists>at. Db_attr (te_db c) (Inl a) = Some at \<and> at_cardinality at = One)"

definition card_ok :: "tx_env \<Rightarrow> fact set \<Rightarrow> bool" where
  "card_ok c G \<longleftrightarrow> (\<forall>e a v w. one_attr c a \<longrightarrow> (e, a, v) \<in> G \<longrightarrow> (e, a, w) \<in> G \<longrightarrow> v = w)"

definition good :: "tx_env \<Rightarrow> fact set \<Rightarrow> tx_state \<Rightarrow> bool" where
  "good c F s \<longleftrightarrow> tx_inv c F s \<and> card_ok c (edits (ts_out s) F) \<and> jm_ok (ts_cur s)"

lemma card_ok_retract: "card_ok c G \<Longrightarrow> \<not> d_op d \<Longrightarrow> card_ok c (edit d G)"
  unfolding card_ok_def edit_def by auto

section \<open>Emission keeps the invariant\<close>

lemma push_retract_good:
  assumes g: "good c F s" and rd: "env_reads c F" and m: "jm_get (ts_cur s) (e, at_id at) = Some m" "jm_get m k = Some d"
    and r: "push_retract c e at i (k, d) s = Inr s'"
  shows "good c F s' \<and> jm_get (ts_cur s') (e, at_id at) = Some (jm_delete k m) \<and>
    (\<forall>x. x \<noteq> (e, at_id at) \<longrightarrow> jm_get (ts_cur s') x = jm_get (ts_cur s) x)"
proof -
  let ?r = "\<lparr>d_e = e, d_a = at_id at, d_v = d_v d, d_t = te_t c, d_op = False\<rparr>"
  obtain s1 where s1: "tx_record c KRetract e at ?r i (s\<lparr>ts_out := ts_out s @ [?r]\<rparr>) = Inr s1"
    "s' = set_cur e (at_id at) (jm_delete k (case jm_get (ts_cur s1) (e, at_id at) of Some m \<Rightarrow> m | None \<Rightarrow> [])) s1"
    using r by (auto simp: push_retract_def Let_def res_simps)
  note R = tx_record_Inr [OF s1(1)]
  have inv: "tx_inv c F s" using g by (simp add: good_def)
  have inj: "renders_doubles (te_pf c)" using rd by (simp add: env_reads_def)
  have rep: "map_rep (te_pf c) m (vals_at e (at_id at) (edits (ts_out s) F))"
    using inv m(1) unfolding tx_inv_def overlay_ok_def by (metis entry_ok.simps(1))
  then have k: "k = valueKey (te_pf c) (d_v d)" "keyed (d_v d)" using m(2) unfolding map_rep_def by blast+
  have s': "s' = set_cur (d_e ?r) (d_a ?r) (jm_delete k m) s1" using s1(2) R m(1) by simp
  have "map_rep (te_pf c) (jm_delete k m) (vals_at (d_e ?r) (d_a ?r) (edit ?r (edits (ts_out s) F)))"
    using map_rep_delete [OF rep inj k(2)] k(1) by (simp add: vals_at_edit)
  from emit_inv [OF inv rd, of ?r m at i s1 "jm_delete k m"] this
  have "tx_inv c F s'" using s1(1) m k s' by simp
  moreover have "ts_out s' = ts_out s @ [?r]" using R s' by (simp add: set_cur_def)
  moreover have "card_ok c (edit ?r (edits (ts_out s) F))" using g by (simp add: good_def card_ok_retract)
  moreover have "ts_cur s' = jm_set (e, at_id at) (jm_delete k m) (ts_cur s)" using R s' by (simp add: set_cur_def)
  ultimately show ?thesis using g by (simp add: good_def)
qed

text \<open>Retracting a set of entries of one overlay map removes exactly those.\<close>

lemma retract_all_good:
  "good c F s \<Longrightarrow> env_reads c F \<Longrightarrow> jm_get (ts_cur s) (e, at_id at) = Some m \<Longrightarrow> distinct (map fst kds) \<Longrightarrow>
   \<forall>(k, d) \<in> set kds. jm_get m k = Some d \<Longrightarrow> rfold (push_retract c e at i) kds s = Inr s' \<Longrightarrow>
   good c F s' \<and> (\<exists>m'. jm_get (ts_cur s') (e, at_id at) = Some m' \<and>
     (\<forall>k. jm_get m' k = (if k \<in> fst ` set kds then None else jm_get m k))) \<and>
   (\<forall>x. x \<noteq> (e, at_id at) \<longrightarrow> jm_get (ts_cur s') x = jm_get (ts_cur s) x)"
proof (induction kds arbitrary: s m)
  case (Cons kd kds)
  obtain k d where kd: "kd = (k, d)" by (rule prod.exhaust)
  obtain s1 where s1: "push_retract c e at i (k, d) s = Inr s1" "rfold (push_retract c e at i) kds s1 = Inr s'"
    using Cons.prems(6) kd by (auto simp: res_simps)
  have P: "good c F s1 \<and> jm_get (ts_cur s1) (e, at_id at) = Some (jm_delete k m) \<and>
      (\<forall>x. x \<noteq> (e, at_id at) \<longrightarrow> jm_get (ts_cur s1) x = jm_get (ts_cur s) x)"
    by (rule push_retract_good [OF Cons.prems(1,2,3) _ s1(1)]) (use Cons.prems(5) kd in simp)
  have "\<forall>(k', d') \<in> set kds. jm_get (jm_delete k m) k' = Some d'"
  proof (intro ballI, clarify)
    fix k' d'
    assume "(k', d') \<in> set kds"
    then have "k' \<noteq> k" "jm_get m k' = Some d'" using Cons.prems(4,5) kd by force+
    then show "jm_get (jm_delete k m) k' = Some d'" by simp
  qed
  then have "good c F s' \<and> (\<exists>m'. jm_get (ts_cur s') (e, at_id at) = Some m' \<and>
      (\<forall>x. jm_get m' x = (if x \<in> fst ` set kds then None else jm_get (jm_delete k m) x))) \<and>
      (\<forall>x. x \<noteq> (e, at_id at) \<longrightarrow> jm_get (ts_cur s') x = jm_get (ts_cur s1) x)"
    by (intro Cons.IH [of s1 "jm_delete k m"]) (use P Cons.prems s1(2) kd in auto)
  then show ?case using kd P by auto
qed auto

lemma retract_map_good:
  assumes "good c F s" "env_reads c F" "jm_get (ts_cur s) (e, at_id at) = Some m"
    "rfold (push_retract c e at i) m s = Inr s'"
  shows "good c F s' \<and> jm_get (ts_cur s') (e, at_id at) = Some []"
proof -
  have "tx_inv c F s" using assms(1) by (simp add: good_def)
  then have ok: "jm_ok m" using assms(3) unfolding tx_inv_def overlay_ok_def map_rep_def by (metis entry_ok.simps(1) map_rep_def)
  have "good c F s' \<and> (\<exists>m'. jm_get (ts_cur s') (e, at_id at) = Some m' \<and>
     (\<forall>k. jm_get m' k = (if k \<in> fst ` set m then None else jm_get m k))) \<and>
     (\<forall>x. x \<noteq> (e, at_id at) \<longrightarrow> jm_get (ts_cur s') x = jm_get (ts_cur s) x)"
  proof (rule retract_all_good [OF assms(1-3) _ _ assms(4)])
    show "distinct (map fst m)" using ok by (simp add: jm_ok_def)
    show "\<forall>(k, d) \<in> set m. jm_get m k = Some d" using jm_get_iff [OF ok] by blast
  qed
  then obtain m' where m': "good c F s'" "jm_get (ts_cur s') (e, at_id at) = Some m'"
    "\<forall>k. jm_get m' k = (if k \<in> fst ` set m then None else jm_get m k)" by blast
  have "jm_get m' k = None" for k using m'(3) jm_get_None [of m k] by simp
  then have "m' = []" by (cases m') (auto, metis jm_get_Cons option.distinct(1) prod.exhaust)
  with m' show ?thesis by simp
qed

lemma tx_current_ok: "jm_ok (ts_cur s) \<Longrightarrow> tx_current c e a s = Inr (m, s') \<Longrightarrow> jm_ok (ts_cur s')"
  by (auto simp: tx_current_def Let_def res_simps split: option.splits)

lemma tx_current_good:
  assumes "good c F s" "env_reads c F" "tx_current c e a s = Inr (m, s')"
  shows "good c F s' \<and> jm_get (ts_cur s') (e, a) = Some m"
  using tx_current_inv [OF assms(2) _ assms(3)] tx_current_spec [OF assms(2) _ assms(3)] assms(1)
    tx_current_ok [OF _ assms(3)]
  by (simp add: good_def tx_inv_def)

lemma tx_current_other:
  "tx_current c e a s = Inr (m, s') \<Longrightarrow> k \<noteq> (e, a) \<Longrightarrow> jm_get (ts_cur s') k = jm_get (ts_cur s) k"
  by (auto simp: tx_current_def Let_def res_simps split: option.splits)

lemma tx_inv_cong:
  "tx_inv c F s \<Longrightarrow> ts_cur s' = ts_cur s \<Longrightarrow> ts_out s' = ts_out s \<Longrightarrow> ts_expanded s' = ts_expanded s \<Longrightarrow> tx_inv c F s'"
  by (simp add: tx_inv_def overlay_ok_def)

lemma good_cong:
  "good c F s \<Longrightarrow> ts_cur s' = ts_cur s \<Longrightarrow> ts_out s' = ts_out s \<Longrightarrow> ts_expanded s' = ts_expanded s \<Longrightarrow> good c F s'"
  by (auto simp: good_def intro: tx_inv_cong)

lemma check_unique_good:
  assumes "good c F s" "env_reads c F" "check_unique c e at v s = Inr s'"
  shows "good c F s' \<and> jm_get (ts_cur s') (e, at_id at) = jm_get (ts_cur s) (e, at_id at)"
proof (cases "at_unique at = None")
  case False
  then obtain other s1 where s1: "s' = s1\<lparr>ts_uniqueSeen := jm_set (claim_key (te_pf c) at v) e (ts_uniqueSeen s1)\<rparr>"
    "check_other c e at v other s = Inr s1"
    using assms(3) by (auto simp: check_unique_def Let_def res_simps split: if_splits)
  have "s1 = s \<or> (\<exists>e' ov. e' \<noteq> e \<and> tx_current c e' (at_id at) s = Inr (ov, s1))"
  proof (cases other)
    case (Some x)
    show ?thesis
    proof (cases "d_e x = e")
      case False
      then obtain ov where "tx_current c (d_e x) (at_id at) s = Inr (ov, s1)"
        using s1(2) Some by (auto simp: check_other_def res_simps split: if_splits)
      with False show ?thesis by blast
    qed (use s1(2) Some in \<open>simp add: check_other_def\<close>)
  qed (use s1(2) in \<open>simp add: check_other_def\<close>)
  then have "good c F s1 \<and> jm_get (ts_cur s1) (e, at_id at) = jm_get (ts_cur s) (e, at_id at)"
  proof (elim disjE exE conjE)
    fix e' ov
    assume "e' \<noteq> e" "tx_current c e' (at_id at) s = Inr (ov, s1)"
    then show ?thesis
      using tx_current_good [OF assms(1,2)] tx_current_other [of c e' "at_id at" s ov s1 "(e, at_id at)"] by simp
  qed (use assms(1) in simp)
  then show ?thesis using s1(1) good_cong [of c F s1 s'] by simp
qed (use assms in \<open>simp add: check_unique_def\<close>)

lemma emitAdd_good:
  assumes g: "good c F s" and rd: "env_reads c F" and at: "Db_attr (te_db c) (Inl (at_id at)) = Some at"
    and v: "keyed v" and r: "emitAdd c e at v s = Inr s'"
  shows "good c F s'"
proof -
  obtain vals s1 where c1: "tx_current c e (at_id at) s = Inr (vals, s1)"
    using r by (auto simp: emitAdd_def res_simps)
  note C = tx_current_good [OF g rd c1]
  show ?thesis
  proof (cases "jm_has vals (valueKey (te_pf c) v)")
    case True
    then show ?thesis using r c1 C by (simp add: emitAdd_def Let_def)
  next
    case False
    let ?d = "\<lparr>d_e = e, d_a = at_id at, d_v = v, d_t = te_t c, d_op = True\<rparr>"
    obtain s2 s3 s4 where s: "check_unique c e at v s1 = Inr s2"
      "(if at_cardinality at = One then rfold (push_retract c e at True) vals s2 else Inr s2) = Inr s3"
      "tx_record c KAdd e at ?d False (s3\<lparr>ts_out := ts_out s3 @ [?d]\<rparr>) = Inr s4"
      "s' = set_cur e (at_id at) (jm_set (valueKey (te_pf c) v) ?d (case jm_get (ts_cur s4) (e, at_id at) of Some m \<Rightarrow> m | None \<Rightarrow> [])) s4"
      using r c1 False by (auto simp: emitAdd_def Let_def res_simps)
    have U: "good c F s2" "jm_get (ts_cur s2) (e, at_id at) = Some vals" using check_unique_good [OF _ rd s(1)] C by auto
    obtain m where m: "good c F s3" "jm_get (ts_cur s3) (e, at_id at) = Some m" "jm_get m (valueKey (te_pf c) v) = None"
      "at_cardinality at = One \<Longrightarrow> m = []"
    proof (cases "at_cardinality at = One")
      case True
      with s(2) retract_map_good [OF U(1) rd U(2), of True s3] that [of "[]"] show ?thesis by simp
    next
      case no: False
      with s(2) U False that [of vals] show ?thesis by (simp add: jm_has_iff)
    qed
    note R = tx_record_Inr [OF s(3)]
    have inv: "tx_inv c F s3" using m(1) by (simp add: good_def)
    have rep: "map_rep (te_pf c) m (vals_at e (at_id at) (edits (ts_out s3) F))"
      using inv m(2) unfolding tx_inv_def overlay_ok_def by (metis entry_ok.simps(1))
    have s': "s' = set_cur (d_e ?d) (d_a ?d) (jm_set (valueKey (te_pf c) v) ?d m) s4" using s(4) R m(2) by simp
    have "map_rep (te_pf c) (jm_set (valueKey (te_pf c) v) ?d m) (vals_at (d_e ?d) (d_a ?d) (edit ?d (edits (ts_out s3) F)))"
      using map_rep_set [OF rep, of ?d v] rd v by (simp add: vals_at_edit env_reads_def)
    from emit_inv [OF inv rd, of ?d m at False s4 "jm_set (valueKey (te_pf c) v) ?d m"] this
    have "tx_inv c F s'" using s(3) m(2,3) s' v by simp
    moreover have "ts_out s' = ts_out s3 @ [?d]" using R s' by (simp add: set_cur_def)
    moreover have "card_ok c (edit ?d (edits (ts_out s3) F))"
    proof -
      have "vals_at e (at_id at) (edits (ts_out s3) F) = {}" if "one_attr c (at_id at)"
        using that at m(4) rep by (auto simp: one_attr_def map_rep_def)
      then show ?thesis using m(1) by (auto simp: good_def card_ok_def edit_def fact_of_def vals_at_def)
    qed
    moreover have "jm_ok (ts_cur s')" using R s' m(1) by (simp add: set_cur_def good_def)
    ultimately show ?thesis by (simp add: good_def)
  qed
qed

lemma emitRetract_good:
  assumes g: "good c F s" and rd: "env_reads c F" and r: "emitRetract c e at tv s = Inr s'"
  shows "good c F s'"
proof -
  obtain vals s1 where c1: "tx_current c e (at_id at) s = Inr (vals, s1)"
    using r by (auto simp: emitRetract_def res_simps)
  note C = tx_current_good [OF g rd c1]
  show ?thesis
  proof (cases tv)
    case None
    then show ?thesis using r c1 C retract_map_good [of c F s1 e at vals False s'] rd by (simp add: emitRetract_def)
  next
    case (Some v)
    then show ?thesis using r c1 C push_retract_good [of c F s1 e at vals "valueKey (te_pf c) v" _ False s'] rd
      by (cases "jm_get vals (valueKey (te_pf c) v)") (auto simp: emitRetract_def)
  qed
qed

section \<open>Resolution does not touch the overlay\<close>

definition same_output :: "tx_state \<Rightarrow> tx_state \<Rightarrow> bool" where
  "same_output s s' \<longleftrightarrow> ts_cur s' = ts_cur s \<and> ts_out s' = ts_out s \<and> ts_expanded s' = ts_expanded s"

lemma same_output_refl [simp]: "same_output s s"
  by (simp add: same_output_def)

lemma same_output_trans: "same_output s s' \<Longrightarrow> same_output s' s'' \<Longrightarrow> same_output s s''"
  by (simp add: same_output_def)

lemma same_output_good: "same_output s s' \<Longrightarrow> good c F s \<Longrightarrow> good c F s'"
  using good_cong [of c F s s'] by (auto simp: same_output_def good_def)

lemma resolveEntity_same: "resolveEntity k c form allocate s = Inr (r, s') \<Longrightarrow> same_output s s'"
proof (induction k arbitrary: form)
  case (Suc k)
  show ?case
  proof (cases form)
    case (JNum x)
    then show ?thesis using Suc.prems by (auto split: jsnum.splits if_splits)
  next
    case (JStr f)
    show ?thesis
    proof (cases "f \<notin> set TX_TEMPID \<and> f \<noteq> [] \<and> hd f = colon")
      case True
      then show ?thesis using Suc JStr by (auto split: option.splits if_splits)
    next
      case False
      then show ?thesis using Suc.prems JStr
        by (auto simp: res_simps Let_def same_output_def split: if_splits option.splits)
    qed
  next
    case (JArr xs)
    then show ?thesis using Suc.prems by (auto simp: res_simps split: if_splits option.splits)
  next
    case (JObj o')
    then show ?thesis using Suc.prems by (auto simp: res_simps split: if_splits jsval.splits)
  qed (use Suc.prems in auto)
qed simp

lemma upsert_step_same: "upsert_step c x s = Inr s' \<Longrightarrow> same_output s s'"
proof -
  assume u: "upsert_step c x s = Inr s'"
  have E: "claim_existing c canonical existing s = Inr s1 \<Longrightarrow> same_output s s1" for canonical existing s1
    by (auto simp: claim_existing_def same_output_def split: option.splits if_splits)
  have U: "unify_claim canonical target s1 = Inr s2 \<Longrightarrow> same_output s1 s2" for canonical target s1 s2
    by (auto simp: unify_claim_def Let_def same_output_def split: option.splits if_splits)
  have C: "claim_step c tid at v s = Inr s2 \<Longrightarrow> same_output s s2" for tid at v s2
  proof -
    assume "claim_step c tid at v s = Inr s2"
    then obtain canonical existing s1 where s1: "claim_existing c canonical existing s = Inr s1"
      "(case jm_get (ts_claims s1) (claim_key (te_pf c) at v) of
          None \<Rightarrow> Inr (s1\<lparr>ts_claims := jm_set (claim_key (te_pf c) at v) canonical (ts_claims s1)\<rparr>)
        | Some claimant \<Rightarrow> rbind (aliasOf s1 claimant) (\<lambda>target. unify_claim canonical target s1)) = Inr s2"
      by (auto simp: claim_step_def Let_def res_simps)
    from s1(2) have "same_output s1 s2"
      by (cases "jm_get (ts_claims s1) (claim_key (te_pf c) at v)") (auto simp: res_simps same_output_def dest: U [unfolded same_output_def])
    with E [OF s1(1)] show ?thesis by (rule same_output_trans)
  qed
  show ?thesis using u C
    by (auto simp: upsert_step_def res_simps split: jsval.splits if_splits option.splits)
qed

section \<open>Retracting entities and the main pass\<close>

lemma rfold_good:
  assumes "rfold f xs s = Inr s'" "good c F s"
    and "\<And>x s s'. x \<in> set xs \<Longrightarrow> good c F s \<Longrightarrow> f x s = Inr s' \<Longrightarrow> good c F s'"
  shows "good c F s'"
  using assms by (rule rfold_inv)

lemma overlay_entry_good:
  assumes g: "good c F s" and rd: "env_reads c F" and m: "jm_get (ts_cur s) (ee, aa) = Some m"
    and r: "overlay_entry c e ((ee, aa), m) s = Inr s'"
  shows "good c F s' \<and> (\<forall>x. x \<noteq> (ee, aa) \<longrightarrow> jm_get (ts_cur s') x = jm_get (ts_cur s) x)"
proof (cases "\<exists>at. Db_attr (te_db c) (Inl aa) = Some at \<and> at_valueType at = Some Ref")
  case True
  then obtain at where at: "Db_attr (te_db c) (Inl aa) = Some at" "at_valueType at = Some Ref" by blast
  let ?kds = "filter (\<lambda>(k, d). payload_of (d_v d) = PNum (NInt e) \<and> d_t d = te_t c) m"
  have ok: "jm_ok m" using g m unfolding good_def tx_inv_def overlay_ok_def by (metis entry_ok.simps(1) map_rep_def)
  have r': "rfold (push_retract c ee (at\<lparr>at_id := aa\<rparr>) False) ?kds s = Inr s'"
    using r at by (simp add: overlay_entry_def)
  have "distinct (map fst ?kds)" using ok by (simp add: jm_ok_def distinct_map_filter)
  moreover have "\<forall>(k, d) \<in> set ?kds. jm_get m k = Some d" using jm_get_iff [OF ok] by auto
  ultimately show ?thesis
    using retract_all_good [OF g rd, of ee "at\<lparr>at_id := aa\<rparr>" m ?kds False s'] m r' by simp
next
  case False
  then have "s' = s" using r by (auto simp: overlay_entry_def split: option.splits if_splits)
  with g show ?thesis by simp
qed

lemma overlay_entries_good:
  "good c F s \<Longrightarrow> env_reads c F \<Longrightarrow> distinct (map fst es) \<Longrightarrow> \<forall>(k, m) \<in> set es. jm_get (ts_cur s) k = Some m \<Longrightarrow>
   rfold (overlay_entry c e) es s = Inr s' \<Longrightarrow> good c F s'"
proof (induction es arbitrary: s)
  case (Cons x es)
  obtain ee aa m where x: "x = ((ee, aa), m)" by (metis prod.exhaust)
  obtain s1 where s1: "overlay_entry c e ((ee, aa), m) s = Inr s1" "rfold (overlay_entry c e) es s1 = Inr s'"
    using Cons.prems(5) x by (auto simp: res_simps)
  have O: "good c F s1 \<and> (\<forall>x. x \<noteq> (ee, aa) \<longrightarrow> jm_get (ts_cur s1) x = jm_get (ts_cur s) x)"
    by (rule overlay_entry_good [OF Cons.prems(1,2) _ s1(1)]) (use Cons.prems(4) x in simp)
  have "\<forall>(k, m) \<in> set es. jm_get (ts_cur s1) k = Some m"
  proof (intro ballI, clarify)
    fix a b m'
    assume "((a, b), m') \<in> set es"
    then have "(a, b) \<noteq> (ee, aa)" "jm_get (ts_cur s) (a, b) = Some m'" using Cons.prems(3,4) x by force+
    then show "jm_get (ts_cur s1) (a, b) = Some m'" using O by simp
  qed
  then show ?case using Cons.IH [of s1] O Cons.prems s1(2) by simp
qed simp

lemma retract_own_good:
  assumes "good c F s" "env_reads c F" "retract_own rec c e d s = Inr s'"
    "\<And>child s s'. good c F s \<Longrightarrow> rec child s = Inr s' \<Longrightarrow> good c F s'"
  shows "good c F s'"
proof -
  obtain s1 where s1: "emitRetract c e (case Db_attr (te_db c) (Inl (d_a d)) of Some a \<Rightarrow> a | None \<Rightarrow> stub_attribute (d_a d))
      (Some (d_v d)) s = Inr s1"
    "(case (Db_attr (te_db c) (Inl (d_a d)), d_v d) of
       (Some a, VRef child) \<Rightarrow> if at_isComponent a then rec child s1 else Inr s1 | _ \<Rightarrow> Inr s1) = Inr s'"
    using assms(3) by (auto simp: retract_own_def Let_def res_simps)
  from s1(2) have s': "s' = s1 \<or> (\<exists>child. rec child s1 = Inr s')"
    by (cases "Db_attr (te_db c) (Inl (d_a d))"; cases "d_v d") (auto split: if_splits)
  have "good c F s1" by (rule emitRetract_good [OF assms(1,2) s1(1)])
  with s' assms(4) show ?thesis by blast
qed

lemma retract_incoming_good:
  "good c F s \<Longrightarrow> env_reads c F \<Longrightarrow> retract_incoming c d s = Inr s' \<Longrightarrow> good c F s'"
  by (auto simp: retract_incoming_def intro: emitRetract_good split: option.splits)

lemma retractEntity_good:
  "good c F s \<Longrightarrow> env_reads c F \<Longrightarrow> retractEntity k c e s = Inr s' \<Longrightarrow> good c F s'"
proof (induction k arbitrary: e s s')
  case (Suc k)
  show ?case
  proof (cases "e \<in> set (ts_retracted s)")
    case False
    then obtain own s2 incoming s3 where r:
      "rfold (retract_own (\<lambda>child s'. retractEntity k c child s') c e) own (s\<lparr>ts_retracted := ts_retracted s @ [e]\<rparr>) = Inr s2"
      "rfold (retract_incoming c) incoming s2 = Inr s3" "rfold (overlay_entry c e) (ts_cur s3) s3 = Inr s'"
      using Suc.prems(3) by (auto simp: res_simps)
    have g1: "good c F (s\<lparr>ts_retracted := ts_retracted s @ [e]\<rparr>)"
      by (rule same_output_good [OF _ Suc.prems(1)]) (simp add: same_output_def)
    have g2: "good c F s2"
      by (rule rfold_good [OF r(1) g1], rule retract_own_good [OF _ Suc.prems(2)]) (use Suc.IH Suc.prems(2) in blast)+
    have g3: "good c F s3"
      by (rule rfold_good [OF r(2) g2]) (rule retract_incoming_good [OF _ Suc.prems(2)])
    have ok: "jm_ok (ts_cur s3)" using g3 by (simp add: good_def)
    show ?thesis
      by (rule overlay_entries_good [OF g3 Suc.prems(2) _ _ r(3)]) (use ok jm_get_iff [OF ok] in \<open>auto simp: jm_ok_def\<close>)
  qed (use Suc.prems in simp)
qed simp

text \<open>Attributes found by ident are those found by id.\<close>

definition attrs_agree :: "tx_env \<Rightarrow> bool" where
  "attrs_agree c \<longleftrightarrow> (\<forall>x at. Db_attr (te_db c) x = Some at \<longrightarrow> Db_attr (te_db c) (Inl (at_id at)) = Some at)"

lemma attrOf_agrees: "attrs_agree c \<Longrightarrow> attrOf c a = Inr at \<Longrightarrow> Db_attr (te_db c) (Inl (at_id at)) = Some at"
  by (auto simp: attrOf_def attrs_agree_def split: if_splits option.splits)

lemma valueFor_same: "valueFor k c at v s = Inr (x, s') \<Longrightarrow> same_output s s'"
  by (auto simp: valueFor_def res_simps split: if_splits jsval.splits sum.splits option.splits
      dest: resolveEntity_same)

lemma value_res_ok: "value_res tv = Inr v \<Longrightarrow> value_ok v"
  by (auto simp: value_res_def dest: value_of_ok split: option.splits)

lemma valueFor_keyed: "valueFor k c at v s = Inr (x, s') \<Longrightarrow> keyed x"
  by (auto simp: valueFor_def res_simps keyed_def dest: value_res_ok split: if_splits jsval.splits sum.splits option.splits)

lemma main_step_good:
  assumes g: "good c F s" and rd: "env_reads c F" and at: "attrs_agree c" and r: "main_step k m c x s = Inr s'"
  shows "good c F s'"
proof (cases "op_kind x = KRetractEntity")
  case True
  then obtain e' s1 where s1: "resolveEntity k c (op_e x) False s = Inr (e', s1)"
    "(case e' of None \<Rightarrow> Inr s1 | Some e \<Rightarrow> rmap (\<lambda>s'. s'\<lparr>ts_inRetractEntity := False\<rparr>)
        (retractEntity m c e (s1\<lparr>ts_inRetractEntity := True\<rparr>))) = Inr s'"
    using r by (auto simp: main_step_def res_simps)
  have g1: "good c F s1" by (rule same_output_good [OF resolveEntity_same [OF s1(1)] g])
  show ?thesis
  proof (cases e')
    case (Some e)
    then obtain s2 where e: "retractEntity m c e (s1\<lparr>ts_inRetractEntity := True\<rparr>) = Inr s2" "s' = s2\<lparr>ts_inRetractEntity := False\<rparr>"
      using s1(2) by (auto simp: res_simps)
    have "good c F (s1\<lparr>ts_inRetractEntity := True\<rparr>)" by (rule same_output_good [OF _ g1]) (simp add: same_output_def)
    then have "good c F s2" using retractEntity_good rd e(1) by blast
    then show ?thesis by (rule same_output_good [rotated]) (simp add: same_output_def e(2))
  qed (use g1 s1(2) in simp)
next
  case False
  then obtain attr e' s1 where s1: "attrOf c (op_a x) = Inr attr" "resolveEntity k c (op_e x) (op_kind x = KAdd) s = Inr (e', s1)"
    "(case e' of None \<Rightarrow> Inr s1
      | Some e \<Rightarrow>
          if op_kind x = KAdd then
            rbind (valueFor k c attr (op_v x) s1) (\<lambda>(v, s2).
            rbind (validateSchemaValue (te_pf c) attr v) (\<lambda>_. emitAdd c e attr v s2))
          else if op_hasV x then
            rbind (valueFor k c attr (op_v x) s1) (\<lambda>(v, s2). emitRetract c e attr (Some v) s2)
          else emitRetract c e attr None s1) = Inr s'"
    using r by (auto simp: main_step_def res_simps)
  have g1: "good c F s1" by (rule same_output_good [OF resolveEntity_same [OF s1(2)] g])
  show ?thesis
  proof (cases e')
    case None
    then show ?thesis using g1 s1(3) by simp
  next
    case (Some e)
    note r1 = s1(3) [unfolded Some option.simps]
    consider (add) "op_kind x = KAdd" | (retract) "op_kind x \<noteq> KAdd" "op_hasV x" | (all) "op_kind x \<noteq> KAdd" "\<not> op_hasV x"
      by blast
    then show ?thesis
    proof cases
      case add
      then obtain v s2 where v: "valueFor k c attr (op_v x) s1 = Inr (v, s2)" "emitAdd c e attr v s2 = Inr s'"
        using r1 by (auto simp: res_simps)
      have "good c F s2" by (rule same_output_good [OF valueFor_same [OF v(1)] g1])
      then show ?thesis using emitAdd_good rd attrOf_agrees [OF at s1(1)] valueFor_keyed [OF v(1)] v(2) by blast
    next
      case retract
      then obtain v s2 where v: "valueFor k c attr (op_v x) s1 = Inr (v, s2)" "emitRetract c e attr (Some v) s2 = Inr s'"
        using r1 by (auto simp: res_simps)
      have "good c F s2" by (rule same_output_good [OF valueFor_same [OF v(1)] g1])
      then show ?thesis using emitRetract_good rd v(2) by blast
    next
      case all
      then show ?thesis using emitRetract_good [OF g1 rd] r1 by simp
    qed
  qed
qed

section \<open>The whole expansion\<close>

lemma initial_good: "card_ok c F \<Longrightarrow> good c F (initial_tx t n)"
  by (simp add: good_def tx_inv_def overlay_ok_def initial_tx_def)

lemma expandTx_good:
  assumes "expandTx (n, k, m) pf d txData t nextEid txInstant cap = Inr x"
    and rd: "\<And>ids. env_reads \<lparr>te_fuel = n, te_pf = pf, te_db = d, te_t = t, te_newIdents = ids, te_closureCap = cap\<rparr> F"
    and at: "\<And>ids. attrs_agree \<lparr>te_fuel = n, te_pf = pf, te_db = d, te_t = t, te_newIdents = ids, te_closureCap = cap\<rparr>"
    and card: "\<And>ids. card_ok \<lparr>te_fuel = n, te_pf = pf, te_db = d, te_t = t, te_newIdents = ids, te_closureCap = cap\<rparr> F"
  shows "\<exists>c s. te_db c = d \<and> te_t c = t \<and> good c F s \<and> tr_datoms (tx_res x) = instant_datom t txInstant # ts_out s \<and>
    tx_ops x = ts_expanded s"
proof -
  obtain ops s1 s where s: "flattenTxData txData = Inr ops"
    "rfold (upsert_step \<lparr>te_fuel = n, te_pf = pf, te_db = d, te_t = t, te_newIdents = collect_idents ops, te_closureCap = cap\<rparr>) ops (initial_tx t nextEid) = Inr s1"
    "rfold (main_step k m \<lparr>te_fuel = n, te_pf = pf, te_db = d, te_t = t, te_newIdents = collect_idents ops, te_closureCap = cap\<rparr>) ops s1 = Inr s"
    "tr_datoms (tx_res x) = instant_datom t txInstant # ts_out s" "tx_ops x = ts_expanded s"
    using assms(1) by (auto simp: expandTx_def Let_def res_simps)
  let ?c = "\<lparr>te_fuel = n, te_pf = pf, te_db = d, te_t = t, te_newIdents = collect_idents ops, te_closureCap = cap\<rparr>"
  have "good ?c F s1"
    by (rule rfold_good [OF s(2) initial_good [OF card]]) (blast intro: same_output_good upsert_step_same)
  then have "good ?c F s"
    by (rule rfold_good [OF s(3)]) (blast intro: main_step_good [OF _ rd at])
  with s(4,5) show ?thesis by (intro exI [of _ ?c] exI [of _ s]) simp
qed

section \<open>Against a database value\<close>

lemma ea_prefix_simps [simp]: "prefix_ok (ea_prefix e a)" "p_t (ea_prefix e a) = None"
  "matching EAVT (ea_prefix e a) x \<longleftrightarrow> d_e x = e \<and> d_a x = a"
  by (simp_all add: ea_prefix_def prefix_ok_def)

lemma vals_at_image: "vals_at e a (fact_of ` S) = d_v ` {x \<in> S. d_e x = e \<and> d_a x = a}"
  by (auto simp: vals_at_def fact_of_def image_iff)

lemma db_rep_datom_ok: "db_rep d t \<Longrightarrow> x \<in> db_datoms_in d t i \<Longrightarrow> datom_ok x"
  by (auto simp: db_rep_def db_datoms_in_def wf_root_def nv_inv_def sn_abs_def sn_inv_def index_sorted_def)

lemma env_reads_db:
  assumes "db_rep d t" "nodes (t EAVT) < te_fuel c" "\<not> db_isHistory d" "te_db c = d" "renders_doubles (te_pf c)"
  shows "env_reads c (facts_in d t)"
  unfolding env_reads_def
proof (intro conjI allI)
  fix e a
  obtain ds where ds: "datomsArray (te_fuel c) d EAVT (ea_prefix e a) = Inr ds"
    "set ds = {x \<in> currentFacts (Some (effectiveT d)) (db_datoms_in d t EAVT). matching EAVT (ea_prefix e a) x}"
    using datoms_current_matching [OF assms(1) ea_prefix_simps(1) assms(2,3) ea_prefix_simps(2)] by blast
  have "d_v ` set ds = vals_at e a (facts_in d t)"
    unfolding ds(2) ea_prefix_simps facts_in_def by (rule vals_at_image [symmetric])
  with ds(1) assms(4) show "\<exists>ds. datomsArray (te_fuel c) (te_db c) EAVT (ea_prefix e a) = Inr ds \<and>
      d_v ` set ds = vals_at e a (facts_in d t)" by blast
next
  show "\<forall>(e, a, v)\<in>facts_in d t. keyed v"
    using db_rep_datom_ok [OF assms(1)] by (auto simp: facts_in_def fact_of_def currentFacts_def visible_def keyed_def datom_ok_def)
qed (rule assms(5))

lemma attrs_agree_schema:
  assumes "schema_inv (db_schema (te_db c))" "ident_inv (db_schema (te_db c))"
  shows "attrs_agree c"
  unfolding attrs_agree_def
proof (intro allI impI)
  fix x at
  assume "Db_attr (te_db c) x = Some at"
  then show "Db_attr (te_db c) (Inl (at_id at)) = Some at"
    using assms attr_by_id_id by (cases x) (auto simp: Db_attr_def Schema_attr_def ident_inv_def)
qed

text \<open>At most one value for every cardinality-one attribute of a schema.\<close>

definition single_valued :: "schema \<Rightarrow> fact set \<Rightarrow> bool" where
  "single_valued s G \<longleftrightarrow> (\<forall>e a at v w. attr_by_id s a = Some at \<longrightarrow> at_cardinality at = One \<longrightarrow>
     (e, a, v) \<in> G \<longrightarrow> (e, a, w) \<in> G \<longrightarrow> v = w)"

lemma card_ok_single: "card_ok c G \<longleftrightarrow> single_valued (db_schema (te_db c)) G"
  by (auto simp: card_ok_def single_valued_def one_attr_def Db_attr_def Schema_attr_def)

lemma expandTx_edits:
  assumes "expandTx (n, k, m) pf d txData t' nextEid inst cap = Inr x"
    and "db_rep d t" "nodes (t EAVT) < n" "\<not> db_isHistory d" "renders_doubles pf"
    and "schema_inv (db_schema d)" "ident_inv (db_schema d)" "single_valued (db_schema d) (facts_in d t)"
  shows "\<exists>out. tr_datoms (tx_res x) = instant_datom t' inst # out \<and> map xo_datom (tx_ops x) = out \<and>
    edit_script out (facts_in d t) \<and> single_valued (db_schema d) (edits out (facts_in d t)) \<and>
    (\<forall>y\<in>set out. d_t y = t' \<and> keyed (d_v y))"
proof -
  obtain c s where s: "te_db c = d" "te_t c = t'" "good c (facts_in d t) s"
    "tr_datoms (tx_res x) = instant_datom t' inst # ts_out s" "tx_ops x = ts_expanded s"
    using expandTx_good [OF assms(1), of "facts_in d t"] env_reads_db [OF assms(2) _ assms(4)] attrs_agree_schema
      card_ok_single assms by auto
  then show ?thesis by (auto simp: good_def tx_inv_def card_ok_single)
qed

section \<open>Committing\<close>

text \<open>
  The emitted datoms all carry the new transaction number. If no fact is touched twice,
  the current view after the commit is the edited set of facts.
\<close>

lemma edits_untouched: "\<forall>y\<in>set out. fact_of y \<noteq> f \<Longrightarrow> f \<in> edits out F \<longleftrightarrow> f \<in> F"
  by (induction out arbitrary: F) (auto simp: edits_def edit_def)

lemma edits_touched_once:
  "y \<in> set out \<Longrightarrow> distinct (map fact_of out) \<Longrightarrow> fact_of y \<in> edits out F \<longleftrightarrow> d_op y"
proof (induction out arbitrary: F)
  case (Cons x out)
  show ?case
  proof (cases "y = x")
    case True
    then have "fact_of y \<in> edits out (edit x F) \<longleftrightarrow> fact_of y \<in> edit x F"
      using Cons.prems by (intro edits_untouched) (auto simp: image_iff)
    with True show ?thesis by (auto simp: edits_def edit_def)
  qed (use Cons in \<open>auto simp: edits_def\<close>)
qed simp

definition facts_at :: "int \<Rightarrow> datom set \<Rightarrow> fact set" where
  "facts_at t V = fact_of ` currentFacts (Some t) V"

lemma facts_at_iff:
  "f \<in> facts_at t V \<longleftrightarrow> (\<exists>x\<in>V. fact_of x = f \<and> d_t x \<le> t \<and> d_op x \<and>
     (\<forall>y\<in>V. fact_of y = f \<longrightarrow> d_t y \<le> t \<longrightarrow> d_t y \<le> d_t x))"
  unfolding facts_at_def currentFacts_def visible_def
  by (force simp: fact_of_def image_iff not_less)

lemma commit_facts:
  assumes "\<forall>x\<in>V. d_t x \<le> b" "b < t" "\<forall>y\<in>set out. d_t y = t" "distinct (map fact_of out)"
  shows "facts_at t (V \<union> set out) = edits out (facts_at b V)"
proof (rule set_eqI)
  fix f
  show "f \<in> facts_at t (V \<union> set out) \<longleftrightarrow> f \<in> edits out (facts_at b V)"
  proof (cases "\<exists>y\<in>set out. fact_of y = f")
    case True
    then obtain y where y: "y \<in> set out" "fact_of y = f" by blast
    have only: "z = y" if "z \<in> set out" "fact_of z = f" for z
      using that y assms(4) by (auto simp: distinct_map inj_on_def)
    have "f \<in> facts_at t (V \<union> set out) \<longleftrightarrow> d_op y"
    proof
      assume "f \<in> facts_at t (V \<union> set out)"
      then obtain x where x: "x \<in> V \<union> set out" "fact_of x = f" "d_op x"
        "\<forall>z\<in>V \<union> set out. fact_of z = f \<longrightarrow> d_t z \<le> t \<longrightarrow> d_t z \<le> d_t x" unfolding facts_at_iff by blast
      have "t \<le> d_t x" using x(4) y assms(3) by auto
      then have "x \<in> set out" using x(1) assms(1,2) by fastforce
      then show "d_op y" using only x by blast
    next
      assume "d_op y"
      moreover have "d_t z \<le> t" if "z \<in> V \<union> set out" for z using that assms(1-3) by fastforce
      ultimately show "f \<in> facts_at t (V \<union> set out)" unfolding facts_at_iff using y assms(3) by auto
    qed
    then show ?thesis using edits_touched_once [OF y(1) assms(4)] y(2) by simp
  next
    case False
    then have "f \<in> edits out (facts_at b V) \<longleftrightarrow> f \<in> facts_at b V" by (intro edits_untouched) blast
    moreover have "f \<in> facts_at t (V \<union> set out) \<longleftrightarrow> f \<in> facts_at b V"
    proof -
      have V: "(\<forall>y\<in>V \<union> set out. fact_of y = f \<longrightarrow> d_t y \<le> t \<longrightarrow> d_t y \<le> n) \<longleftrightarrow>
        (\<forall>y\<in>V. fact_of y = f \<longrightarrow> d_t y \<le> b \<longrightarrow> d_t y \<le> n)" for n
        using False assms(1,2) by fastforce
      have "(x \<in> V \<union> set out \<and> fact_of x = f \<and> d_t x \<le> t) \<longleftrightarrow> (x \<in> V \<and> fact_of x = f \<and> d_t x \<le> b)" for x
        using False assms(1,2) by fastforce
      then show ?thesis unfolding facts_at_iff V by blast
    qed
    ultimately show ?thesis by simp
  qed
qed

text \<open>
  When a transaction both asserts and retracts a fact, the order it did so in is lost: both
  datoms carry the same transaction, and the assertion wins.
\<close>

lemma assert_wins:
  assumes "x \<in> V" "d_op x" "d_t x = t" "\<forall>y\<in>V. d_t y \<le> t"
  shows "fact_of x \<in> facts_at t V"
  unfolding facts_at_iff using assms by auto

end
