(* ===== verification/ConnModel.thy ===== *)
theory ConnModel
  imports TxCorrect Store
begin

text \<open>
  The connection (\<open>internal/core/conn.ts\<close>): the single-writer state machine over a node
  store. A transaction extends the novelty and the basis; indexing merges novelty into
  the trees and is invisible to readers.
\<close>

section \<open>Building and merging roots\<close>

record build_options =
  bo_leafSize :: nat
  bo_fanout :: nat

definition sortForIndex :: "index \<Rightarrow> datom list \<Rightarrow> datom list" where
  "sortForIndex i ds = dedup_adjacent (comparatorFor i) (js_sort (comparatorFor i) ds)"

text \<open>
  One tree per index, in the order of the code; \<open>emptyRoots\<close> starts its four writes at
  once, but each only adds to the store.
\<close>

definition build4 :: "int \<Rightarrow> (index \<Rightarrow> 's \<Rightarrow> (node_ref \<times> 's) res) \<Rightarrow> 's \<Rightarrow> (roots \<times> 's) res" where
  "build4 t f s =
     rbind (f EAVT s) (\<lambda>(r1, s1).
     rbind (f AEVT s1) (\<lambda>(r2, s2).
     rbind (f AVET s2) (\<lambda>(r3, s3).
     rbind (f VAET s3) (\<lambda>(r4, s4).
       Inr (\<lparr>ro_t = t, ro_eavt = r1, ro_aevt = r2, ro_avet = r3, ro_vaet = r4\<rparr>, s4)))))"

definition emptyRoots :: "'s put \<Rightarrow> build_options \<Rightarrow> 's \<Rightarrow> (roots \<times> 's) res" where
  "emptyRoots put bo = build4 0 (\<lambda>i s. buildTree put i (bo_leafSize bo) (bo_fanout bo) s [])"

definition buildRoots :: "'s put \<Rightarrow> schema \<Rightarrow> datom list \<Rightarrow> build_options \<Rightarrow> 's \<Rightarrow> (roots \<times> 's) res" where
  "buildRoots put sc ds bo =
     build4 (fold (\<lambda>d t. if d_t d > t then d_t d else t) ds 0)
       (\<lambda>i s. buildTree put i (bo_leafSize bo) (bo_fanout bo) s
          (sortForIndex i (case i of AVET \<Rightarrow> filter (\<lambda>d. isAvet sc (d_a d)) ds | VAET \<Rightarrow> filter (\<lambda>d. isVaet sc (d_a d)) ds | _ \<Rightarrow> ds)))"

definition mergeRoots ::
  "nat \<Rightarrow> ('s \<Rightarrow> node_source) \<Rightarrow> 's put \<Rightarrow> roots \<Rightarrow> novelty \<Rightarrow> int \<Rightarrow> build_options \<Rightarrow> 's \<Rightarrow> (roots \<times> 's) res" where
  "mergeRoots n get put rts nov maxT bo =
     build4 maxT (\<lambda>i s. mergeTree n get put i (bo_leafSize bo) (bo_fanout bo) s (rootFor rts i)
       (filter (\<lambda>d. d_t d \<le> maxT) (fst (sn_all (nv_byIndex nov i)))))"

definition attr_only :: "int \<Rightarrow> prefix" where
  "attr_only a = \<lparr>p_e = None, p_a = Some a, p_v = None, p_t = None\<rparr>"

text \<open>The entities with an ident are read one by one and projected.\<close>

definition deriveSchema :: "nat \<Rightarrow> node_source \<Rightarrow> roots \<Rightarrow> schema res" where
  "deriveSchema n src rts =
     rbind Schema_bootstrap (\<lambda>sc.
       let tmp = \<lparr>db_store = src, db_roots = rts, db_novelty = Novelty_new, db_basisT = ro_t rts, db_schema = sc,
                  db_nextEid = 0, db_asOfT = None, db_isHistory = False\<rparr>
       in rbind (datomsArray n tmp AEVT (attr_only DB_IDENT)) (\<lambda>ids.
          rmap (\<lambda>dss. Schema_apply (concat dss) sc)
            (rmaplist (\<lambda>e. datomsArray n tmp EAVT (entity_prefix e)) (fold (\<lambda>d es. set_add (d_e d) es) ids []))))"

section \<open>The connection\<close>

record 's connection =
  cn_store :: 's
  cn_roots :: roots
  cn_novelty :: novelty
  cn_schema :: schema
  cn_basisT :: int
  cn_nextEid :: int
  cn_rootHistory :: "roots list"

definition Connection_create :: "'s put \<Rightarrow> build_options \<Rightarrow> 's \<Rightarrow> 's connection res" where
  "Connection_create put bo s =
     rbind Schema_bootstrap (\<lambda>sc. rbind bootstrapDatoms (\<lambda>boot.
     rmap (\<lambda>(rts, s'). \<lparr>cn_store = s', cn_roots = rts, cn_novelty = nv_add boot (isAvet sc) (isVaet sc) Novelty_new,
                       cn_schema = sc, cn_basisT = 1, cn_nextEid = FIRST_USER_EID, cn_rootHistory = [rts]\<rparr>)
       (emptyRoots put bo s)))"

definition maxE_step :: "datom \<Rightarrow> int \<Rightarrow> int" where
  "maxE_step d m = (if d_e d < 2 ^ 42 \<and> d_e d > m then d_e d else m)"

definition applyDatoms :: "datom list \<Rightarrow> 's connection \<Rightarrow> 's connection" where
  "applyDatoms ds c =
     (if ds = [] then c
      else
        let sc = Schema_apply ds (Schema_clone (cn_schema c))
        in c\<lparr>cn_schema := sc, cn_novelty := nv_add ds (isAvet sc) (isVaet sc) (cn_novelty c),
             cn_basisT := fold (\<lambda>d t. if d_t d > t then d_t d else t) ds (cn_basisT c),
             cn_nextEid := fold maxE_step ds (cn_nextEid c - 1) + 1\<rparr>)"

definition Connection_restore ::
  "nat \<Rightarrow> ('s \<Rightarrow> node_source) \<Rightarrow> 's \<Rightarrow> roots \<Rightarrow> datom list \<Rightarrow> int \<Rightarrow> 's connection res" where
  "Connection_restore n get s rts logDatoms nextEid =
     rmap (\<lambda>sc. applyDatoms logDatoms
         \<lparr>cn_store = s, cn_roots = rts, cn_novelty = Novelty_new, cn_schema = sc, cn_basisT = ro_t rts,
          cn_nextEid = nextEid, cn_rootHistory = [rts]\<rparr>)
       (deriveSchema n (get s) rts)"

definition Connection_fromDatoms :: "'s put \<Rightarrow> datom list \<Rightarrow> build_options \<Rightarrow> 's \<Rightarrow> 's connection res" where
  "Connection_fromDatoms put ds bo s =
     rbind Schema_bootstrap (\<lambda>sc0. rbind bootstrapDatoms (\<lambda>boot.
       let sc = Schema_apply ds sc0
       in rmap (\<lambda>(rts, s'). \<lparr>cn_store = s', cn_roots = rts, cn_novelty = Novelty_new, cn_schema = sc,
                  cn_basisT = ro_t rts, cn_nextEid = fold maxE_step ds (FIRST_USER_EID - 1) + 1, cn_rootHistory = [rts]\<rparr>)
            (buildRoots put sc (boot @ ds) bo s)))"

definition conn_db :: "('s \<Rightarrow> node_source) \<Rightarrow> 's connection \<Rightarrow> db" where
  "conn_db get c =
     \<lparr>db_store = get (cn_store c), db_roots = cn_roots c, db_novelty = cn_novelty c, db_basisT = cn_basisT c,
      db_schema = cn_schema c, db_nextEid = cn_nextEid c, db_asOfT = None, db_isHistory = False\<rparr>"

definition dbAtRoot :: "('s \<Rightarrow> node_source) \<Rightarrow> roots \<Rightarrow> 's connection \<Rightarrow> db" where
  "dbAtRoot get rts c =
     \<lparr>db_store = get (cn_store c), db_roots = rts, db_novelty = Novelty_new, db_basisT = ro_t rts,
      db_schema = cn_schema c, db_nextEid = cn_nextEid c, db_asOfT = None, db_isHistory = False\<rparr>"

record tx_report =
  rp_dbBefore :: db
  rp_dbAfter :: db
  rp_t :: int
  rp_txEid :: int
  rp_txData :: "datom list"
  rp_tempids :: "(jsstr, int) jsmap"

text \<open>
  The body of one queued call; the queue runs them one after the other, a failed one
  leaving the connection as it was. \<open>dbBefore\<close> shares the buffers, so it is given here
  with the grown ones, as a later reader finds it.
\<close>

definition transact ::
  "nat \<times> nat \<times> nat \<Rightarrow> platform \<Rightarrow> ('s \<Rightarrow> node_source) \<Rightarrow> jsval list \<Rightarrow> int \<Rightarrow> 's connection \<Rightarrow>
   (tx_report \<times> 's connection) res" where
  "transact fuel pf get txData now c =
     (let before = conn_db get c; t = cn_basisT c + 1
      in rmap (\<lambda>r.
           let sc = Schema_apply (tr_datoms r) (Schema_clone (cn_schema c));
               nov = nv_add (tr_datoms r) (isAvet sc) (isVaet sc) (cn_novelty c);
               c' = c\<lparr>cn_nextEid := tr_nextEid r, cn_schema := sc, cn_novelty := nov, cn_basisT := t\<rparr>
           in (\<lparr>rp_dbBefore = before\<lparr>db_novelty := nov\<rparr>, rp_dbAfter = conn_db get c', rp_t = t, rp_txEid = tr_txEid r,
                rp_txData = tr_datoms r, rp_tempids = tr_tempids r\<rparr>, c'))
         (processTx fuel pf before txData t (cn_nextEid c) now))"

text \<open>A queue of calls: each outcome, and the connection after all of them.\<close>

fun transact_queue ::
  "nat \<times> nat \<times> nat \<Rightarrow> platform \<Rightarrow> ('s \<Rightarrow> node_source) \<Rightarrow> (jsval list \<times> int) list \<Rightarrow> 's connection \<Rightarrow>
   tx_report res list \<times> 's connection" where
  "transact_queue fuel pf get [] c = ([], c)"
| "transact_queue fuel pf get ((txData, now) # calls) c =
     (case transact fuel pf get txData now c of
        Inl e \<Rightarrow> (let (rs, c') = transact_queue fuel pf get calls c in (Inl e # rs, c'))
      | Inr (r, c1) \<Rightarrow> (let (rs, c') = transact_queue fuel pf get calls c1 in (Inr r # rs, c')))"

definition conn_index ::
  "nat \<Rightarrow> ('s \<Rightarrow> node_source) \<Rightarrow> 's put \<Rightarrow> build_options \<Rightarrow> int \<Rightarrow> 's connection \<Rightarrow> (roots \<times> 's connection) res" where
  "conn_index n get put bo upToT c =
     (let maxT = min upToT (cn_basisT c)
      in if nv_count (cn_novelty c) = 0 \<or> maxT \<le> ro_t (cn_roots c) then Inr (cn_roots c, c)
         else rmap (\<lambda>(rts, s').
           let rest = filter (\<lambda>d. d_t d > maxT) (fst (sn_all (nv_byIndex (cn_novelty c) EAVT)));
               remaining = nv_add rest (isAvet (cn_schema c)) (isVaet (cn_schema c)) Novelty_new
           in (rts, c\<lparr>cn_store := s', cn_novelty := remaining, cn_roots := rts, cn_rootHistory := cn_rootHistory c @ [rts]\<rparr>))
         (mergeRoots n get put (cn_roots c) (cn_novelty c) maxT bo (cn_store c)))"

section \<open>Four trees at once\<close>

context node_store begin

lemma build4_ok:
  assumes "inv s0"
    and f: "\<And>i s. inv s \<Longrightarrow> get s0 \<subseteq>\<^sub>m get s \<Longrightarrow> f i s = collision \<or>
      (\<exists>r s' t. f i s = Inr (r, s') \<and> inv s' \<and> get s \<subseteq>\<^sub>m get s' \<and> rok r \<and> represents (get s') r t \<and> Q i t)"
  shows "build4 tt f s0 = collision \<or>
    (\<exists>rts s' T. build4 tt f s0 = Inr (rts, s') \<and> inv s' \<and> get s0 \<subseteq>\<^sub>m get s' \<and> ro_t rts = tt \<and>
       (\<forall>i. rok (rootFor rts i) \<and> represents (get s') (rootFor rts i) (T i) \<and> Q i (T i)))"
proof -
  have z: "get s0 \<subseteq>\<^sub>m get s0" by simp
  show ?thesis
  proof (cases "f EAVT s0 = collision")
    case True then show ?thesis by (simp add: build4_def)
  next
    case c1: False
    then obtain r1 s1 t1 where 1: "f EAVT s0 = Inr (r1, s1)" "inv s1" "get s0 \<subseteq>\<^sub>m get s1" "rok r1" "represents (get s1) r1 t1" "Q EAVT t1"
      using f [OF assms(1) z, of EAVT] by blast
    show ?thesis
    proof (cases "f AEVT s1 = collision")
      case True with 1 show ?thesis by (simp add: build4_def)
    next
      case c2: False
      then obtain r2 s2 t2 where 2: "f AEVT s1 = Inr (r2, s2)" "inv s2" "get s1 \<subseteq>\<^sub>m get s2" "rok r2" "represents (get s2) r2 t2" "Q AEVT t2"
        using f [OF 1(2,3), of AEVT] by blast
      have m2: "get s0 \<subseteq>\<^sub>m get s2" using 1(3) 2(3) by (rule map_le_trans)
      show ?thesis
      proof (cases "f AVET s2 = collision")
        case True with 1 2 show ?thesis by (simp add: build4_def)
      next
        case c3: False
        then obtain r3 s3 t3 where 3: "f AVET s2 = Inr (r3, s3)" "inv s3" "get s2 \<subseteq>\<^sub>m get s3" "rok r3" "represents (get s3) r3 t3" "Q AVET t3"
          using f [OF 2(2) m2, of AVET] by blast
        have m3: "get s0 \<subseteq>\<^sub>m get s3" using m2 3(3) by (rule map_le_trans)
        show ?thesis
        proof (cases "f VAET s3 = collision")
          case True with 1 2 3 show ?thesis by (simp add: build4_def)
        next
          case c4: False
          then obtain r4 s4 t4 where 4: "f VAET s3 = Inr (r4, s4)" "inv s4" "get s3 \<subseteq>\<^sub>m get s4" "rok r4" "represents (get s4) r4 t4" "Q VAET t4"
            using f [OF 3(2) m3, of VAET] by blast
          have m4: "get s0 \<subseteq>\<^sub>m get s4" "get s2 \<subseteq>\<^sub>m get s4" "get s1 \<subseteq>\<^sub>m get s4"
            using m3 2(3) 3(3) 4(3) by (blast intro: map_le_trans)+
          let ?rts = "\<lparr>ro_t = tt, ro_eavt = r1, ro_aevt = r2, ro_avet = r3, ro_vaet = r4\<rparr>"
          let ?T = "\<lambda>i. case i of EAVT \<Rightarrow> t1 | AEVT \<Rightarrow> t2 | AVET \<Rightarrow> t3 | VAET \<Rightarrow> t4"
          have "rok (rootFor ?rts i) \<and> represents (get s4) (rootFor ?rts i) (?T i) \<and> Q i (?T i)" for i
            using 1 2 3 4 represents_mono [OF 1(5) m4(3)] represents_mono [OF 2(5) m4(2)] represents_mono [OF 3(5) 4(3)]
            by (cases i) simp_all
          moreover have "build4 tt f s0 = Inr (?rts, s4)" using 1 2 3 4 by (simp add: build4_def)
          ultimately show ?thesis using 4(2) m4(1) by (intro disjI2 exI [of _ ?rts] exI [of _ s4] exI [of _ ?T]) simp
        qed
      qed
    qed
  qed
qed

end

section \<open>The invariant of a connection\<close>

definition conn_inv ::
  "('s \<Rightarrow> node_source) \<Rightarrow> ('s \<Rightarrow> bool) \<Rightarrow> (node_ref \<Rightarrow> bool) \<Rightarrow> (datom \<Rightarrow> bool) \<Rightarrow> 's connection \<Rightarrow> (index \<Rightarrow> atree) \<Rightarrow> bool" where
  "conn_inv get sok rok dok c T \<longleftrightarrow>
     sok (cn_store c) \<and> (\<forall>i. rok (rootFor (cn_roots c) i)) \<and>
     db_rep (conn_db get c) T \<and> db_bounded (conn_db get c) T \<and>
     (\<forall>i. \<forall>x\<in>nv_abs (cn_novelty c) i. dok x) \<and>
     (\<forall>i. \<forall>x\<in>db_datoms_in (conn_db get c) T i. d_t x \<le> cn_basisT c) \<and>
     schema_inv (cn_schema c) \<and> ident_inv (cn_schema c) \<and> schema_maps_ok (cn_schema c)"

text \<open>
  What the buffers hold. Each is a part of the EAVT one, the AEVT buffer all of it, and of the
  datoms of an attribute in \<open>S\<close> a buffer has exactly those that the present schema keeps there.
  A transaction that turns an index on does not move what is buffered already, so in general
  \<open>S\<close> has only the attributes whose indexing stayed as it was.
\<close>

abbreviation cn_keeps :: "'s connection \<Rightarrow> index \<Rightarrow> datom \<Rightarrow> bool" where
  "cn_keeps c \<equiv> keeps (isAvet (cn_schema c)) (isVaet (cn_schema c))"

definition buffers_ok :: "int set \<Rightarrow> 's connection \<Rightarrow> bool" where
  "buffers_ok S c \<longleftrightarrow> nv_abs (cn_novelty c) AEVT = nv_abs (cn_novelty c) EAVT \<and>
     (\<forall>i. nv_abs (cn_novelty c) i \<subseteq> nv_abs (cn_novelty c) EAVT) \<and>
     (\<forall>i. \<forall>x\<in>nv_abs (cn_novelty c) EAVT. d_a x \<in> S \<longrightarrow> (x \<in> nv_abs (cn_novelty c) i \<longleftrightarrow> cn_keeps c i x))"

text \<open>Every buffer holds its share of the new datoms under the present schema.\<close>

definition indexes_consistent :: "'s connection \<Rightarrow> bool" where
  "indexes_consistent c \<longleftrightarrow> (\<forall>i. nv_abs (cn_novelty c) i = {x \<in> nv_abs (cn_novelty c) EAVT. cn_keeps c i x})"

lemma indexes_consistent_buffers: "indexes_consistent c \<Longrightarrow> buffers_ok S c"
proof -
  assume c: "indexes_consistent c"
  have i: "nv_abs (cn_novelty c) i = {x \<in> nv_abs (cn_novelty c) EAVT. cn_keeps c i x}" for i
    using c unfolding indexes_consistent_def by blast
  have "nv_abs (cn_novelty c) AEVT = nv_abs (cn_novelty c) EAVT" using i [of AEVT] by simp
  moreover have "x \<in> nv_abs (cn_novelty c) i \<longleftrightarrow> x \<in> nv_abs (cn_novelty c) EAVT \<and> cn_keeps c i x" for i x
    using i [of i] by blast
  ultimately show ?thesis unfolding buffers_ok_def by blast
qed

lemma buffers_consistent: "buffers_ok UNIV c \<Longrightarrow> indexes_consistent c"
  unfolding indexes_consistent_def buffers_ok_def by blast

text \<open>For the datoms that a prefix selects, the buffer is the one the present schema asks for.\<close>

definition settled :: "'s connection \<Rightarrow> index \<Rightarrow> prefix \<Rightarrow> bool" where
  "settled c i p \<longleftrightarrow> (\<forall>x\<in>nv_abs (cn_novelty c) EAVT. matching i p x \<longrightarrow> (x \<in> nv_abs (cn_novelty c) i \<longleftrightarrow> cn_keeps c i x))"

lemma settled_always: "buffers_ok S c \<Longrightarrow> i = EAVT \<or> i = AEVT \<Longrightarrow> settled c i p"
  by (auto simp: settled_def buffers_ok_def)

lemma settled_attributes: "buffers_ok S c \<Longrightarrow> \<forall>x. matching i p x \<longrightarrow> d_a x \<in> S \<Longrightarrow> settled c i p"
  by (auto simp: settled_def buffers_ok_def)

lemma conn_db_simps [simp]:
  "db_store (conn_db get c) = get (cn_store c)" "db_roots (conn_db get c) = cn_roots c"
  "db_novelty (conn_db get c) = cn_novelty c" "db_basisT (conn_db get c) = cn_basisT c"
  "db_schema (conn_db get c) = cn_schema c" "db_asOfT (conn_db get c) = None"
  "\<not> db_isHistory (conn_db get c)" "effectiveT (conn_db get c) = cn_basisT c"
  by (simp_all add: conn_db_def effectiveT_def)

lemma nv_abs_new [simp]: "nv_abs Novelty_new i = {}"
  by (simp add: Novelty_new_def)

lemma sn_all_set:
  assumes "nv_inv nov"
  shows "index_sorted i (fst (sn_all (nv_byIndex nov i))) \<and> set (fst (sn_all (nv_byIndex nov i))) = nv_abs nov i"
proof -
  have "sn_inv (nv_byIndex nov i)" "sn_index (nv_byIndex nov i) = i" using assms by (auto simp: nv_inv_def)
  then show ?thesis
    using sn_flush_spec [of "nv_byIndex nov i" "fst (sn_flush (nv_byIndex nov i))" "snd (sn_flush (nv_byIndex nov i))"]
    by (simp add: sn_all_def)
qed

lemma nv_maxT_new: "nv_maxT Novelty_new = 0"
  by (simp add: Novelty_new_def nv_maxT_def)

context node_store begin

lemma mergeRoots_ok:
  assumes par: "1 < bo_fanout bo" "bo_fanout bo \<le> cap" "0 < bo_leafSize bo" "bo_leafSize bo * 3 div 2 \<le> cap" "bo_leafSize bo \<le> cap"
    and s: "inv s" "\<And>i. rok (rootFor rts i)" "\<And>i. represents (get s) (rootFor rts i) (T i)" "\<And>i. wf_root i (T i)"
    and nov: "nv_inv nov" "\<And>i. \<forall>x\<in>nv_abs nov i. dok x"
    and n: "\<And>i. nodes (T i) \<le> n" "\<And>i. length (contents (T i)) + length (fst (sn_all (nv_byIndex nov i))) < 2 ^ 53"
  shows "mergeRoots n get put rts nov maxT bo s = collision \<or>
    (\<exists>rts' s' T'. mergeRoots n get put rts nov maxT bo s = Inr (rts', s') \<and> inv s' \<and> get s \<subseteq>\<^sub>m get s' \<and> ro_t rts' = maxT \<and>
       (\<forall>i. rok (rootFor rts' i) \<and> represents (get s') (rootFor rts' i) (T' i) \<and> wf_root i (T' i) \<and>
          set (contents (T' i)) = set (contents (T i)) \<union> {x \<in> nv_abs nov i. d_t x \<le> maxT}))"
proof -
  let ?pick = "\<lambda>i. filter (\<lambda>d. d_t d \<le> maxT) (fst (sn_all (nv_byIndex nov i)))"
  let ?f = "\<lambda>i s. mergeTree n get put i (bo_leafSize bo) (bo_fanout bo) s (rootFor rts i) (?pick i)"
  let ?Q = "\<lambda>i t. wf_root i t \<and> set (contents t) = set (contents (T i)) \<union> {x \<in> nv_abs nov i. d_t x \<le> maxT}"
  have step: "?f i s1 = collision \<or> (\<exists>r s' t. ?f i s1 = Inr (r, s') \<and> inv s' \<and> get s1 \<subseteq>\<^sub>m get s' \<and> rok r \<and>
      represents (get s') r t \<and> ?Q i t)" if s1: "inv s1" "get s \<subseteq>\<^sub>m get s1" for i s1
  proof -
    have p: "index_sorted i (?pick i)" "set (?pick i) = {x \<in> nv_abs nov i. d_t x \<le> maxT}"
      using sn_all_set [OF nov(1), of i] by (auto simp: index_sorted_filter)
    have pd: "\<forall>d\<in>set (?pick i). dok d" using p(2) nov(2) by blast
    have len: "length (contents (T i)) + length (?pick i) < 2 ^ 53"
      using n(2) [of i] length_filter_le [of "\<lambda>d. d_t d \<le> maxT" "fst (sn_all (nv_byIndex nov i))"] by linarith
    have srt: "index_sorted i (contents (T i))" using s(4) by (simp add: wf_root_def index_sorted_def)
    have "?f i s1 = collision \<or> (\<exists>r' s' t'. ?f i s1 = Inr (r', s') \<and> inv s' \<and> get s1 \<subseteq>\<^sub>m get s' \<and> rok r' \<and>
       represents (get s') r' t' \<and> wf_root i t' \<and> contents t' = merge_union (comparatorFor i) (contents (T i)) (?pick i))"
      by (rule mergeTree_ok [OF par p(1) pd s1(1) represents_mono [OF s(3) s1(2)] s(2,4) n(1) len])
    then show ?thesis
    proof (elim disjE exE conjE)
      fix r' s' t'
      assume R: "?f i s1 = Inr (r', s')" "inv s'" "get s1 \<subseteq>\<^sub>m get s'" "rok r'" "represents (get s') r' t'" "wf_root i t'"
        "contents t' = merge_union (comparatorFor i) (contents (T i)) (?pick i)"
      have "set (contents t') = set (contents (T i)) \<union> {x \<in> nv_abs nov i. d_t x \<le> maxT}"
        unfolding R(7) set_index_merge_union [OF srt p(1)] p(2) ..
      with R show ?thesis by blast
    qed blast
  qed
  show ?thesis unfolding mergeRoots_def
    using build4_ok [where f = ?f and Q = ?Q and tt = maxT, OF s(1) step] by blast
qed

end

section \<open>Indexing is invisible to readers\<close>

lemma remaining_abs:
  assumes "nv_inv nov"
  shows "nv_abs (nv_add (filter P (fst (sn_all (nv_byIndex nov EAVT)))) av va Novelty_new) i =
    {x \<in> nv_abs nov EAVT. P x \<and> keeps av va i x}"
  using sn_all_set [OF assms, of EAVT] by (auto simp: nv_add_abs)

lemma keeps_EAVT [simp]: "keeps av va EAVT x"
  by simp

lemma remaining_inv:
  assumes "nv_inv nov"
  shows "nv_inv (nv_add (filter P (fst (sn_all (nv_byIndex nov EAVT)))) av va Novelty_new)"
  using sn_all_set [OF assms, of EAVT] by (intro nv_add_inv nv_inv_new) (auto simp: index_sorted_def)

lemma remaining_maxT:
  assumes "x \<in> nv_abs (nv_add ds av va Novelty_new) i"
  shows "d_t x \<le> nv_maxT (nv_add ds av va Novelty_new)"
  using assms fold_max_bounds [of "nv_maxT Novelty_new" "map d_t ds"] by (auto simp: nv_add_abs nv_maxT_add)

context node_store begin

text \<open>
  Indexing, from any state. The trees take the buffered datoms up to the bound, each tree from
  its own buffer; the rest is put in new buffers under the present schema, from the EAVT one.
\<close>

lemma conn_index_any:
  assumes par: "1 < bo_fanout bo" "bo_fanout bo \<le> cap" "0 < bo_leafSize bo" "bo_leafSize bo * 3 div 2 \<le> cap"
    and c: "conn_inv get inv rok dok c T"
    and n: "\<And>i. nodes (T i) \<le> n" "\<And>i. length (contents (T i)) + length (fst (sn_all (nv_byIndex (cn_novelty c) i))) < 2 ^ 53"
  shows "conn_index n get put bo upToT c = collision \<or>
    (\<exists>rts c' T'. conn_index n get put bo upToT c = Inr (rts, c') \<and> cn_roots c' = rts \<and>
       conn_inv get inv rok dok c' T' \<and> cn_basisT c' = cn_basisT c \<and> cn_schema c' = cn_schema c \<and>
       get (cn_store c) \<subseteq>\<^sub>m get (cn_store c') \<and>
       (if nv_count (cn_novelty c) \<noteq> 0 \<and> ro_t (cn_roots c) < min upToT (cn_basisT c) then
          ro_t rts = min upToT (cn_basisT c) \<and>
          (\<forall>i. set (contents (T' i)) = set (contents (T i)) \<union> {x \<in> nv_abs (cn_novelty c) i. d_t x \<le> min upToT (cn_basisT c)} \<and>
             nv_abs (cn_novelty c') i = {x \<in> nv_abs (cn_novelty c) EAVT. min upToT (cn_basisT c) < d_t x \<and> cn_keeps c i x})
        else c' = c \<and> T' = T))"
proof -
  let ?m = "min upToT (cn_basisT c)" and ?nov = "cn_novelty c"
  have cap: "bo_leafSize bo \<le> cap" using par(4) by linarith
  have rep: "db_rep (conn_db get c) T" and bnd: "db_bounded (conn_db get c) T" using c by (simp_all add: conn_inv_def)
  have nv: "nv_inv ?nov" using rep by (simp add: db_rep_def)
  show ?thesis
  proof (cases "nv_count ?nov = 0 \<or> ?m \<le> ro_t (cn_roots c)")
    case True
    then have "conn_index n get put bo upToT c = Inr (cn_roots c, c)" by (auto simp: conn_index_def Let_def)
    with c True show ?thesis by (intro disjI2 exI [of _ "cn_roots c"] exI [of _ c] exI [of _ T]) (auto simp: not_less)
  next
    case False
    have M: "mergeRoots n get put (cn_roots c) ?nov ?m bo (cn_store c) = collision \<or>
      (\<exists>rts' s' T'. mergeRoots n get put (cn_roots c) ?nov ?m bo (cn_store c) = Inr (rts', s') \<and> inv s' \<and>
         get (cn_store c) \<subseteq>\<^sub>m get s' \<and> ro_t rts' = ?m \<and>
         (\<forall>i. rok (rootFor rts' i) \<and> represents (get s') (rootFor rts' i) (T' i) \<and> wf_root i (T' i) \<and>
            set (contents (T' i)) = set (contents (T i)) \<union> {x \<in> nv_abs ?nov i. d_t x \<le> ?m}))"
      by (rule mergeRoots_ok [OF par cap])
        (use c n nv rep in \<open>simp_all add: conn_inv_def db_rep_def\<close>)
    then show ?thesis
    proof (elim disjE exE conjE)
      assume "mergeRoots n get put (cn_roots c) ?nov ?m bo (cn_store c) = collision"
      with False show ?thesis by (simp add: conn_index_def Let_def)
    next
      fix rts' s' T'
      assume R: "mergeRoots n get put (cn_roots c) ?nov ?m bo (cn_store c) = Inr (rts', s')" "inv s'"
        "get (cn_store c) \<subseteq>\<^sub>m get s'" "ro_t rts' = ?m"
        and T': "\<forall>i. rok (rootFor rts' i) \<and> represents (get s') (rootFor rts' i) (T' i) \<and> wf_root i (T' i) \<and>
          set (contents (T' i)) = set (contents (T i)) \<union> {x \<in> nv_abs ?nov i. d_t x \<le> ?m}"
      let ?av = "isAvet (cn_schema c)" and ?va = "isVaet (cn_schema c)"
      let ?rem = "nv_add (filter (\<lambda>d. d_t d > ?m) (fst (sn_all (nv_byIndex ?nov EAVT)))) ?av ?va Novelty_new"
      let ?c' = "c\<lparr>cn_store := s', cn_novelty := ?rem, cn_roots := rts', cn_rootHistory := cn_rootHistory c @ [rts']\<rparr>"
      have res: "conn_index n get put bo upToT c = Inr (rts', ?c')" using False R(1) by (simp add: conn_index_def Let_def)
      have ra: "nv_abs ?rem i = {x \<in> nv_abs ?nov EAVT. ?m < d_t x \<and> cn_keeps c i x}" for i
        by (rule remaining_abs [OF nv])
      have old: "d_t x \<le> ?m" if "x \<in> set (contents (T i))" for x i
        using that bnd False by (fastforce simp: db_bounded_def)
      have basis: "d_t x \<le> cn_basisT c" if "x \<in> set (contents (T i)) \<union> nv_abs ?nov i" for x i
        using that c by (auto simp: conn_inv_def db_datoms_in_def)
      have "conn_inv get inv rok dok ?c' T'"
        unfolding conn_inv_def
      proof (intro conjI)
        show "db_rep (conn_db get ?c') T'" using T' remaining_inv [OF nv] by (simp add: db_rep_def)
        show "db_bounded (conn_db get ?c') T'"
          unfolding db_bounded_def
        proof (intro allI conjI ballI)
          fix i x assume "x \<in> set (contents (T' i))"
          then show "d_t x \<le> ro_t (db_roots (conn_db get ?c'))" using T' old R(4) by auto
        next
          fix i x assume "x \<in> nv_abs (db_novelty (conn_db get ?c')) i"
          then show "d_t x \<le> nv_maxT (db_novelty (conn_db get ?c'))" using remaining_maxT by simp
        qed
        show "\<forall>i. \<forall>x\<in>nv_abs (cn_novelty ?c') i. dok x"
        proof (intro allI ballI)
          fix i x assume "x \<in> nv_abs (cn_novelty ?c') i"
          then have "x \<in> nv_abs ?nov EAVT" by (simp add: ra)
          then show "dok x" using c unfolding conn_inv_def by blast
        qed
        show "\<forall>i. \<forall>x\<in>db_datoms_in (conn_db get ?c') T' i. d_t x \<le> cn_basisT ?c'"
        proof (intro allI ballI)
          fix i x assume "x \<in> db_datoms_in (conn_db get ?c') T' i"
          then have "x \<in> set (contents (T i)) \<union> nv_abs ?nov i \<or> x \<in> set (contents (T EAVT)) \<union> nv_abs ?nov EAVT"
            using T' ra [of i] by (auto simp: db_datoms_in_def)
          then show "d_t x \<le> cn_basisT ?c'" using basis by auto
        qed
      qed (use c R T' in \<open>simp_all add: conn_inv_def\<close>)
      moreover have "nv_count ?nov \<noteq> 0 \<and> ro_t (cn_roots c) < ?m" using False by linarith
      ultimately show ?thesis using res R(3,4) T' ra
        by (intro disjI2 exI [of _ rts'] exI [of _ ?c'] exI [of _ T']) (simp del: min_less_iff_conj)
    qed
  qed
qed

text \<open>What the datoms of an index are afterwards, where the buffer is the one the schema asks for.\<close>

lemma merged_datoms:
  assumes T': "set (contents (T' i)) = set (contents (T i)) \<union> {x \<in> nv_abs (cn_novelty c) i. d_t x \<le> m}"
    and nov: "nv_abs (cn_novelty c') i = {x \<in> nv_abs (cn_novelty c) EAVT. m < d_t x \<and> cn_keeps c i x}"
    and c: "nv_abs (cn_novelty c) i \<subseteq> nv_abs (cn_novelty c) EAVT"
    and P: "\<forall>x\<in>nv_abs (cn_novelty c) EAVT. P x \<longrightarrow> (x \<in> nv_abs (cn_novelty c) i \<longleftrightarrow> cn_keeps c i x)"
  shows "{x \<in> db_datoms_in (conn_db get c') T' i. P x} = {x \<in> db_datoms_in (conn_db get c) T i. P x}"
proof (rule set_eqI)
  fix x
  show "x \<in> {x \<in> db_datoms_in (conn_db get c') T' i. P x} \<longleftrightarrow> x \<in> {x \<in> db_datoms_in (conn_db get c) T i. P x}"
  proof (cases "P x \<and> x \<in> nv_abs (cn_novelty c) EAVT")
    case True
    then have "x \<in> nv_abs (cn_novelty c) i \<longleftrightarrow> cn_keeps c i x" using P by blast
    with True show ?thesis by (auto simp: db_datoms_in_def T' nov not_less)
  next
    case False
    then show ?thesis using c by (auto simp: db_datoms_in_def T' nov)
  qed
qed

lemma conn_index_buffers:
  assumes par: "1 < bo_fanout bo" "bo_fanout bo \<le> cap" "0 < bo_leafSize bo" "bo_leafSize bo * 3 div 2 \<le> cap"
    and c: "conn_inv get inv rok dok c T" "buffers_ok S c"
    and n: "\<And>i. nodes (T i) \<le> n" "\<And>i. length (contents (T i)) + length (fst (sn_all (nv_byIndex (cn_novelty c) i))) < 2 ^ 53"
  shows "conn_index n get put bo upToT c = collision \<or>
    (\<exists>rts c' T'. conn_index n get put bo upToT c = Inr (rts, c') \<and> cn_roots c' = rts \<and>
       conn_inv get inv rok dok c' T' \<and> buffers_ok S c' \<and> cn_basisT c' = cn_basisT c \<and> cn_schema c' = cn_schema c \<and>
       get (cn_store c) \<subseteq>\<^sub>m get (cn_store c') \<and>
       (\<forall>i P. (\<forall>x\<in>nv_abs (cn_novelty c) EAVT. P x \<longrightarrow> (x \<in> nv_abs (cn_novelty c) i \<longleftrightarrow> cn_keeps c i x)) \<longrightarrow>
          {x \<in> db_datoms_in (conn_db get c') T' i. P x} = {x \<in> db_datoms_in (conn_db get c) T i. P x}) \<and>
       (nv_count (cn_novelty c) \<noteq> 0 \<and> ro_t (cn_roots c) < min upToT (cn_basisT c) \<longrightarrow>
          ro_t rts = min upToT (cn_basisT c) \<and> indexes_consistent c' \<and>
          (\<forall>i. set (contents (T' i)) = set (contents (T i)) \<union> {x \<in> nv_abs (cn_novelty c) i. d_t x \<le> min upToT (cn_basisT c)} \<and>
             nv_abs (cn_novelty c') i = {x \<in> nv_abs (cn_novelty c) EAVT. min upToT (cn_basisT c) < d_t x \<and> cn_keeps c i x})))"
  using conn_index_any [OF par c(1) n, of upToT]
proof (elim disjE exE conjE)
  fix rts c' T'
  let ?m = "min upToT (cn_basisT c)"
  assume R: "conn_index n get put bo upToT c = Inr (rts, c')" "cn_roots c' = rts" "conn_inv get inv rok dok c' T'"
    "cn_basisT c' = cn_basisT c" "cn_schema c' = cn_schema c" "get (cn_store c) \<subseteq>\<^sub>m get (cn_store c')"
    and M: "if nv_count (cn_novelty c) \<noteq> 0 \<and> ro_t (cn_roots c) < ?m then
       ro_t rts = ?m \<and> (\<forall>i. set (contents (T' i)) = set (contents (T i)) \<union> {x \<in> nv_abs (cn_novelty c) i. d_t x \<le> ?m} \<and>
         nv_abs (cn_novelty c') i = {x \<in> nv_abs (cn_novelty c) EAVT. ?m < d_t x \<and> cn_keeps c i x})
       else c' = c \<and> T' = T"
  show ?thesis
  proof (cases "nv_count (cn_novelty c) \<noteq> 0 \<and> ro_t (cn_roots c) < ?m")
    case False
    with M have e: "c' = c" "T' = T" by simp_all
    show ?thesis using R c(2) False unfolding e by blast
  next
    case True
    with M have D: "ro_t rts = ?m" "\<And>i. set (contents (T' i)) = set (contents (T i)) \<union> {x \<in> nv_abs (cn_novelty c) i. d_t x \<le> ?m}"
      "\<And>i. nv_abs (cn_novelty c') i = {x \<in> nv_abs (cn_novelty c) EAVT. ?m < d_t x \<and> cn_keeps c i x}" by simp_all
    have k: "cn_keeps c' = cn_keeps c" using R(5) by simp
    have I: "indexes_consistent c'" unfolding indexes_consistent_def k D(3) by auto
    have V: "{x \<in> db_datoms_in (conn_db get c') T' i. P x} = {x \<in> db_datoms_in (conn_db get c) T i. P x}"
      if "\<forall>x\<in>nv_abs (cn_novelty c) EAVT. P x \<longrightarrow> (x \<in> nv_abs (cn_novelty c) i \<longleftrightarrow> cn_keeps c i x)" for i P
      by (rule merged_datoms [where P = P and m = ?m and i = i and T = T and T' = T' and c = c and c' = c', OF D(2) D(3) _ that]) (use c(2) in \<open>simp add: buffers_ok_def\<close>)
    show ?thesis using R D I V indexes_consistent_buffers [OF I] by (intro disjI2 exI [of _ rts] exI [of _ c'] exI [of _ T']) simp
  qed
qed simp

lemma conn_index_full:
  assumes par: "1 < bo_fanout bo" "bo_fanout bo \<le> cap" "0 < bo_leafSize bo" "bo_leafSize bo * 3 div 2 \<le> cap"
    and c: "conn_inv get inv rok dok c T" "indexes_consistent c"
    and n: "\<And>i. nodes (T i) \<le> n" "\<And>i. length (contents (T i)) + length (fst (sn_all (nv_byIndex (cn_novelty c) i))) < 2 ^ 53"
  shows "conn_index n get put bo upToT c = collision \<or>
    (\<exists>rts c' T'. conn_index n get put bo upToT c = Inr (rts, c') \<and> cn_roots c' = rts \<and>
       conn_inv get inv rok dok c' T' \<and> indexes_consistent c' \<and> cn_basisT c' = cn_basisT c \<and> cn_schema c' = cn_schema c \<and>
       get (cn_store c) \<subseteq>\<^sub>m get (cn_store c') \<and>
       (\<forall>i. db_datoms_in (conn_db get c') T' i = db_datoms_in (conn_db get c) T i) \<and>
       (nv_count (cn_novelty c) \<noteq> 0 \<and> ro_t (cn_roots c) < min upToT (cn_basisT c) \<longrightarrow>
          ro_t rts = min upToT (cn_basisT c) \<and>
          (\<forall>i. set (contents (T' i)) = set (contents (T i)) \<union> {x \<in> nv_abs (cn_novelty c) i. d_t x \<le> min upToT (cn_basisT c)} \<and>
             nv_abs (cn_novelty c') i = {x \<in> nv_abs (cn_novelty c) i. min upToT (cn_basisT c) < d_t x})))"
  using conn_index_buffers [OF par c(1) indexes_consistent_buffers [OF c(2), of UNIV] n, of upToT]
proof (elim disjE exE conjE)
  fix rts c' T'
  let ?m = "min upToT (cn_basisT c)"
  assume R: "conn_index n get put bo upToT c = Inr (rts, c')" "cn_roots c' = rts" "conn_inv get inv rok dok c' T'"
    "buffers_ok UNIV c'" "cn_basisT c' = cn_basisT c" "cn_schema c' = cn_schema c" "get (cn_store c) \<subseteq>\<^sub>m get (cn_store c')"
    and V: "\<forall>i P. (\<forall>x\<in>nv_abs (cn_novelty c) EAVT. P x \<longrightarrow> (x \<in> nv_abs (cn_novelty c) i \<longleftrightarrow> cn_keeps c i x)) \<longrightarrow>
          {x \<in> db_datoms_in (conn_db get c') T' i. P x} = {x \<in> db_datoms_in (conn_db get c) T i. P x}"
    and M: "nv_count (cn_novelty c) \<noteq> 0 \<and> ro_t (cn_roots c) < ?m \<longrightarrow>
          ro_t rts = ?m \<and> indexes_consistent c' \<and>
          (\<forall>i. set (contents (T' i)) = set (contents (T i)) \<union> {x \<in> nv_abs (cn_novelty c) i. d_t x \<le> ?m} \<and>
             nv_abs (cn_novelty c') i = {x \<in> nv_abs (cn_novelty c) EAVT. ?m < d_t x \<and> cn_keeps c i x})"
  have k: "x \<in> nv_abs (cn_novelty c) i \<longleftrightarrow> x \<in> nv_abs (cn_novelty c) EAVT \<and> cn_keeps c i x" for x i
    using c(2) unfolding indexes_consistent_def by blast
  then have "{x \<in> db_datoms_in (conn_db get c') T' i. True} = {x \<in> db_datoms_in (conn_db get c) T i. True}" for i
    by (intro V [rule_format, of "\<lambda>x. True" i]) blast
  then have V': "\<forall>i. db_datoms_in (conn_db get c') T' i = db_datoms_in (conn_db get c) T i" by simp
  have N: "{x \<in> nv_abs (cn_novelty c) EAVT. ?m < d_t x \<and> cn_keeps c i x} = {x \<in> nv_abs (cn_novelty c) i. ?m < d_t x}" for i
    using k by blast
  show ?thesis using R(1,2,3,5,6,7) V' M [unfolded N] buffers_consistent [OF R(4)] by blast
qed simp

text \<open>
  A read of the database value gives the same answer before and after, where the buffer is
  the one the schema asks for.
\<close>

lemma conn_index_reads:
  assumes "conn_inv get inv rok dok c T" "conn_inv get inv rok dok c' T'" "cn_basisT c' = cn_basisT c"
    "{x \<in> db_datoms_in (conn_db get c') T' i. matching i p x} = {x \<in> db_datoms_in (conn_db get c) T i. matching i p x}"
    "prefix_ok p" "nodes (T i) < n" "nodes (T' i) < n'"
  shows "datomsArray n' (conn_db get c') i p = datomsArray n (conn_db get c) i p"
proof (rule reads_agree_on [of _ T _ _ _ T'])
  have "x \<in> db_datoms_in (conn_db get c') T' i \<and> matching i p x \<longleftrightarrow> x \<in> db_datoms_in (conn_db get c) T i \<and> matching i p x" for x
    using assms(4) by blast
  then show "{x \<in> seen (conn_db get c') T' i. matching i p x} = {x \<in> seen (conn_db get c) T i. matching i p x}"
    using assms(3) by (auto simp: seen_def)
qed (use assms in \<open>simp_all add: conn_inv_def\<close>)

end

section \<open>Transactions\<close>

lemma processTx_edits:
  assumes "processTx (n, k, m) pf d txData t' nextEid inst = Inr r"
    and "db_rep d t" "nodes (t EAVT) < n" "\<not> db_isHistory d" "renders_doubles pf"
    and "schema_inv (db_schema d)" "ident_inv (db_schema d)" "single_valued (db_schema d) (facts_in d t)"
  shows "\<exists>out. tr_datoms r = instant_datom t' inst # out \<and> edit_script out (facts_in d t) \<and>
    single_valued (db_schema d) (edits out (facts_in d t)) \<and> (\<forall>y\<in>set (tr_datoms r). d_t y = t') \<and>
    (\<forall>y\<in>set out. keyed (d_v y))"
proof -
  obtain x where x: "expandTx (n, k, m) pf d txData t' nextEid inst None = Inr x" "r = tx_res x"
    using assms(1) by (auto simp: processTx_def res_simps)
  obtain out where "tr_datoms r = instant_datom t' inst # out" "edit_script out (facts_in d t)"
    "single_valued (db_schema d) (edits out (facts_in d t))" "\<forall>y\<in>set out. d_t y = t' \<and> keyed (d_v y)"
    using expandTx_edits [OF x(1) assms(2-8)] x(2) by blast
  then show ?thesis by (intro exI [of _ out]) (simp add: instant_datom_def)
qed

lemma facts_in_at: "facts_in d t = facts_at (effectiveT d) (db_datoms_in d t EAVT)"
  by (simp add: facts_in_def facts_at_def)

lemma transact_parts:
  assumes "transact fuel pf get txData now c = Inr (rp, c')"
  obtains r where "processTx fuel pf (conn_db get c) txData (cn_basisT c + 1) (cn_nextEid c) now = Inr r"
    "rp_txData rp = tr_datoms r" "cn_basisT c' = cn_basisT c + 1" "cn_store c' = cn_store c" "cn_roots c' = cn_roots c"
    "cn_schema c' = Schema_apply (tr_datoms r) (Schema_clone (cn_schema c))"
    "cn_novelty c' = nv_add (tr_datoms r) (isAvet (cn_schema c')) (isVaet (cn_schema c')) (cn_novelty c)"
    "rp_dbAfter rp = conn_db get c'" "rp_dbBefore rp = (conn_db get c)\<lparr>db_novelty := cn_novelty c'\<rparr>"
  using assms by (auto simp: transact_def Let_def res_simps)

lemma transact_datoms_in:
  assumes "cn_store c' = cn_store c" "cn_roots c' = cn_roots c" "cn_novelty c' = nv_add ds av va (cn_novelty c)"
  shows "db_datoms_in (conn_db get c') T EAVT = db_datoms_in (conn_db get c) T EAVT \<union> set ds"
  by (auto simp: db_datoms_in_def assms(3) nv_add_abs)

text \<open>
  The ids of a datom are in the range that the store can hold. The code checks this neither
  for a reference given as a number nor when it counts up entities.
\<close>

definition ids_ok :: "datom \<Rightarrow> bool" where
  "ids_ok d \<longleftrightarrow> id_ok (d_e d) \<and> id_ok (d_a d) \<and> id_ok (d_t d) \<and> (case d_v d of VRef n \<Rightarrow> id_ok n | _ \<Rightarrow> True)"

lemma ids_keyed_ok: "ids_ok d \<Longrightarrow> keyed (d_v d) \<Longrightarrow> datom_ok d"
  by (cases "d_v d") (auto simp: ids_ok_def keyed_def datom_ok_def id_ok_def safe_int_def)

lemma transact_edits:
  assumes c: "conn_inv get sok rok dok c T" and r: "transact (n, k, m) pf get txData now c = Inr (rp, c')"
    and n: "nodes (T EAVT) < n" and pf: "renders_doubles pf"
    and sv: "single_valued (cn_schema c) (facts_in (conn_db get c) T)"
  shows "cn_basisT c' = cn_basisT c + 1 \<and>
    (\<exists>out. rp_txData rp = instant_datom (cn_basisT c') now # out \<and> edit_script out (facts_in (conn_db get c) T) \<and>
       single_valued (cn_schema c) (edits out (facts_in (conn_db get c) T)) \<and> (\<forall>y\<in>set out. keyed (d_v y)) \<and>
       (distinct (map fact_of (rp_txData rp)) \<longrightarrow>
          facts_in (rp_dbAfter rp) T = edits (rp_txData rp) (facts_in (conn_db get c) T)))"
proof -
  obtain r' where R: "processTx (n, k, m) pf (conn_db get c) txData (cn_basisT c + 1) (cn_nextEid c) now = Inr r'"
    "rp_txData rp = tr_datoms r'" "cn_basisT c' = cn_basisT c + 1" "cn_store c' = cn_store c" "cn_roots c' = cn_roots c"
    "cn_novelty c' = nv_add (tr_datoms r') (isAvet (cn_schema c')) (isVaet (cn_schema c')) (cn_novelty c)"
    "rp_dbAfter rp = conn_db get c'"
    using transact_parts [OF r] by metis
  have I: "db_rep (conn_db get c) T" "schema_inv (cn_schema c)" "ident_inv (cn_schema c)"
    "\<And>i x. x \<in> db_datoms_in (conn_db get c) T i \<Longrightarrow> d_t x \<le> cn_basisT c"
    using c by (auto simp: conn_inv_def)
  obtain out where out: "tr_datoms r' = instant_datom (cn_basisT c + 1) now # out" "edit_script out (facts_in (conn_db get c) T)"
    "single_valued (cn_schema c) (edits out (facts_in (conn_db get c) T))" "\<forall>y\<in>set (tr_datoms r'). d_t y = cn_basisT c + 1"
    "\<forall>y\<in>set out. keyed (d_v y)"
    using processTx_edits [OF R(1) I(1) n _ pf] I(2,3) sv by auto
  have "facts_in (rp_dbAfter rp) T = edits (rp_txData rp) (facts_in (conn_db get c) T)"
    if "distinct (map fact_of (rp_txData rp))"
    unfolding facts_in_at R(7) transact_datoms_in [OF R(4,5,6)]
    using commit_facts [of "db_datoms_in (conn_db get c) T EAVT" "cn_basisT c" "cn_basisT c + 1" "tr_datoms r'"]
      I(4) out(4) that R(2,3) by simp
  then show ?thesis using out R(2,3) by auto
qed

text \<open>The value taken before a transaction reads the same after it.\<close>

lemma transact_before_stable:
  assumes c: "conn_inv get sok rok dok c T" and r: "transact (n, k, m) pf get txData now c = Inr (rp, c')"
    and n: "nodes (T EAVT) < n" "nodes (T i) < l" and pf: "renders_doubles pf"
    and sv: "single_valued (cn_schema c) (facts_in (conn_db get c) T)"
    and ok: "\<forall>x\<in>set (rp_txData rp). datom_ok x \<and> dok x" and p: "prefix_ok p"
  shows "datomsArray l (rp_dbBefore rp) i p = datomsArray l (conn_db get c) i p"
proof -
  obtain r' where R: "rp_txData rp = tr_datoms r'"
    "cn_novelty c' = nv_add (tr_datoms r') (isAvet (cn_schema c')) (isVaet (cn_schema c')) (cn_novelty c)"
    "rp_dbBefore rp = (conn_db get c)\<lparr>db_novelty := cn_novelty c'\<rparr>"
    "processTx (n, k, m) pf (conn_db get c) txData (cn_basisT c + 1) (cn_nextEid c) now = Inr r'"
    using transact_parts [OF r] by metis
  have I: "db_rep (conn_db get c) T" "db_bounded (conn_db get c) T" "schema_inv (cn_schema c)" "ident_inv (cn_schema c)"
    using c by (auto simp: conn_inv_def)
  have "\<forall>y\<in>set (tr_datoms r'). d_t y = cn_basisT c + 1"
    using processTx_edits [OF R(4) I(1) n(1) _ pf] I(3,4) sv by auto
  then have "\<forall>x\<in>set (tr_datoms r'). datom_ok x \<and> effectiveT (conn_db get c) < d_t x" using ok R(1) by auto
  from reads_stable [OF I(1,2) p n(2) this, of "isAvet (cn_schema c')" "isVaet (cn_schema c')"] show ?thesis
    by (simp add: R)
qed

end
