(* ===== verification/ConnRuns.thy ===== *)
theory ConnRuns
  imports ConnModel
begin

text \<open>
  Runs of a connection (\<open>internal/core/conn.ts\<close>): transactions that commit or fail, and
  indexing, in any order. The connection invariant holds in every state that a run
  reaches, and what a run has committed stays readable as of its \<open>t\<close>.
\<close>

section \<open>Every datom of a transaction carries its \<open>t\<close>\<close>

definition stamped :: "tx_env \<Rightarrow> tx_state \<Rightarrow> bool" where
  "stamped c s \<longleftrightarrow> (\<forall>d\<in>set (ts_out s). d_t d = te_t c)"

lemma stamped_cong: "ts_out s' = ts_out s \<Longrightarrow> stamped c s' = stamped c s"
  by (simp add: stamped_def)

lemma same_output_stamped: "same_output s s' \<Longrightarrow> stamped c s \<Longrightarrow> stamped c s'"
  by (simp add: same_output_def stamped_def)

lemma rfold_stamped:
  assumes "rfold f xs s = Inr s'" "stamped c s"
    and "\<And>x s s'. x \<in> set xs \<Longrightarrow> stamped c s \<Longrightarrow> f x s = Inr s' \<Longrightarrow> stamped c s'"
  shows "stamped c s'"
  using assms by (rule rfold_inv)

lemma tx_current_out: "tx_current c e a s = Inr (m, s') \<Longrightarrow> ts_out s' = ts_out s"
  by (auto simp: tx_current_def Let_def res_simps split: option.splits)

lemma push_retract_stamped: "stamped c s \<Longrightarrow> push_retract c e at b kd s = Inr s' \<Longrightarrow> stamped c s'"
  by (cases kd) (auto simp: push_retract_def Let_def res_simps set_cur_def stamped_def dest!: tx_record_Inr)

lemma push_retracts_stamped: "rfold (push_retract c e at b) kds s = Inr s' \<Longrightarrow> stamped c s \<Longrightarrow> stamped c s'"
  by (erule rfold_stamped) (auto intro: push_retract_stamped)

lemma check_unique_out: "check_unique c e at v s = Inr s' \<Longrightarrow> ts_out s' = ts_out s"
  by (auto simp: check_unique_def check_other_def Let_def res_simps dest!: tx_current_out split: if_splits option.splits)

lemma emitAdd_stamped:
  assumes "stamped c s" "emitAdd c e at v s = Inr s'"
  shows "stamped c s'"
proof -
  obtain vals s1 where s1: "tx_current c e (at_id at) s = Inr (vals, s1)" using assms(2) by (auto simp: emitAdd_def res_simps)
  have g1: "stamped c s1" using assms(1) stamped_cong [OF tx_current_out [OF s1]] by simp
  show ?thesis
  proof (cases "jm_has vals (valueKey (te_pf c) v)")
    case True
    then show ?thesis using assms(2) s1 g1 by (simp add: emitAdd_def)
  next
    case False
    let ?d = "\<lparr>d_e = e, d_a = at_id at, d_v = v, d_t = te_t c, d_op = True\<rparr>"
    obtain s2 s3 s4 where s: "check_unique c e at v s1 = Inr s2"
      "(if at_cardinality at = One then rfold (push_retract c e at True) vals s2 else Inr s2) = Inr s3"
      "tx_record c KAdd e at ?d False (s3\<lparr>ts_out := ts_out s3 @ [?d]\<rparr>) = Inr s4" "ts_out s' = ts_out s4"
      using assms(2) s1 False by (auto simp: emitAdd_def Let_def res_simps set_cur_def)
    have "stamped c s2" using g1 stamped_cong [OF check_unique_out [OF s(1)]] by simp
    then have "stamped c s3" using s(2) push_retracts_stamped by (auto split: if_splits)
    then show ?thesis using tx_record_Inr [OF s(3)] s(4) by (simp add: stamped_def)
  qed
qed

lemma emitRetract_stamped:
  assumes "stamped c s" "emitRetract c e at tv s = Inr s'"
  shows "stamped c s'"
proof -
  obtain vals s1 where s1: "tx_current c e (at_id at) s = Inr (vals, s1)" using assms(2) by (auto simp: emitRetract_def res_simps)
  have g1: "stamped c s1" using assms(1) stamped_cong [OF tx_current_out [OF s1]] by simp
  show ?thesis
  proof (cases tv)
    case None
    then show ?thesis using assms(2) s1 g1 push_retracts_stamped by (auto simp: emitRetract_def)
  next
    case (Some v)
    then show ?thesis using assms(2) s1 g1 push_retract_stamped
      by (cases "jm_get vals (valueKey (te_pf c) v)") (auto simp: emitRetract_def)
  qed
qed

lemma overlay_entry_stamped: "stamped c s \<Longrightarrow> overlay_entry c e x s = Inr s' \<Longrightarrow> stamped c s'"
  by (auto simp: overlay_entry_def intro: push_retracts_stamped split: prod.splits option.splits if_splits)

lemma retract_own_stamped:
  assumes "stamped c s" "retract_own rec c e d s = Inr s'"
    "\<And>child s s'. stamped c s \<Longrightarrow> rec child s = Inr s' \<Longrightarrow> stamped c s'"
  shows "stamped c s'"
proof -
  obtain s1 where s1: "emitRetract c e (case Db_attr (te_db c) (Inl (d_a d)) of Some a \<Rightarrow> a | None \<Rightarrow> stub_attribute (d_a d))
      (Some (d_v d)) s = Inr s1"
    "(case (Db_attr (te_db c) (Inl (d_a d)), d_v d) of
       (Some a, VRef child) \<Rightarrow> if at_isComponent a then rec child s1 else Inr s1 | _ \<Rightarrow> Inr s1) = Inr s'"
    using assms(2) by (auto simp: retract_own_def Let_def res_simps)
  from s1(2) have s': "s' = s1 \<or> (\<exists>child. rec child s1 = Inr s')"
    by (cases "Db_attr (te_db c) (Inl (d_a d))"; cases "d_v d") (auto split: if_splits)
  have "stamped c s1" by (rule emitRetract_stamped [OF assms(1) s1(1)])
  with s' assms(3) show ?thesis by blast
qed

lemma retract_incoming_stamped: "stamped c s \<Longrightarrow> retract_incoming c d s = Inr s' \<Longrightarrow> stamped c s'"
  by (auto simp: retract_incoming_def intro: emitRetract_stamped split: option.splits)

lemma retractEntity_stamped: "stamped c s \<Longrightarrow> retractEntity k c e s = Inr s' \<Longrightarrow> stamped c s'"
proof (induction k arbitrary: e s s')
  case (Suc k)
  show ?case
  proof (cases "e \<in> set (ts_retracted s)")
    case False
    then obtain own s2 incoming s3 where r:
      "rfold (retract_own (\<lambda>child s'. retractEntity k c child s') c e) own (s\<lparr>ts_retracted := ts_retracted s @ [e]\<rparr>) = Inr s2"
      "rfold (retract_incoming c) incoming s2 = Inr s3" "rfold (overlay_entry c e) (ts_cur s3) s3 = Inr s'"
      using Suc.prems(2) by (auto simp: res_simps)
    have g1: "stamped c (s\<lparr>ts_retracted := ts_retracted s @ [e]\<rparr>)" using Suc.prems(1) by (simp add: stamped_def)
    have g2: "stamped c s2" by (rule rfold_stamped [OF r(1) g1], rule retract_own_stamped) (use Suc.IH in blast)+
    have g3: "stamped c s3" by (rule rfold_stamped [OF r(2) g2]) (rule retract_incoming_stamped)
    show ?thesis by (rule rfold_stamped [OF r(3) g3]) (rule overlay_entry_stamped)
  qed (use Suc.prems in simp)
qed simp

lemma main_step_stamped:
  assumes g: "stamped c s" and r: "main_step k m c x s = Inr s'"
  shows "stamped c s'"
proof (cases "op_kind x = KRetractEntity")
  case True
  then obtain e' s1 where s1: "resolveEntity k c (op_e x) False s = Inr (e', s1)"
    "(case e' of None \<Rightarrow> Inr s1 | Some e \<Rightarrow> rmap (\<lambda>s'. s'\<lparr>ts_inRetractEntity := False\<rparr>)
        (retractEntity m c e (s1\<lparr>ts_inRetractEntity := True\<rparr>))) = Inr s'"
    using r by (auto simp: main_step_def res_simps)
  have g1: "stamped c s1" by (rule same_output_stamped [OF resolveEntity_same [OF s1(1)] g])
  show ?thesis
  proof (cases e')
    case (Some e)
    then obtain s2 where e: "retractEntity m c e (s1\<lparr>ts_inRetractEntity := True\<rparr>) = Inr s2" "s' = s2\<lparr>ts_inRetractEntity := False\<rparr>"
      using s1(2) by (auto simp: res_simps)
    have "stamped c (s1\<lparr>ts_inRetractEntity := True\<rparr>)" using g1 by (simp add: stamped_def)
    from retractEntity_stamped [OF this e(1)] show ?thesis by (simp add: stamped_def e(2))
  qed (use g1 s1(2) in simp)
next
  case False
  then obtain attr e' s1 where s1: "resolveEntity k c (op_e x) (op_kind x = KAdd) s = Inr (e', s1)"
    "(case e' of None \<Rightarrow> Inr s1
      | Some e \<Rightarrow>
          if op_kind x = KAdd then
            rbind (valueFor k c attr (op_v x) s1) (\<lambda>(v, s2).
            rbind (validateSchemaValue (te_pf c) attr v) (\<lambda>_. emitAdd c e attr v s2))
          else if op_hasV x then
            rbind (valueFor k c attr (op_v x) s1) (\<lambda>(v, s2). emitRetract c e attr (Some v) s2)
          else emitRetract c e attr None s1) = Inr s'"
    using r by (auto simp: main_step_def res_simps)
  have g1: "stamped c s1" by (rule same_output_stamped [OF resolveEntity_same [OF s1(1)] g])
  have sv: "stamped c s2" if "valueFor k c attr (op_v x) s1 = Inr (v, s2)" for v s2
    by (rule same_output_stamped [OF valueFor_same [OF that] g1])
  show ?thesis
  proof (cases e')
    case None
    then show ?thesis using g1 s1(2) by simp
  next
    case (Some e)
    note r1 = s1(2) [unfolded Some option.simps]
    consider (add) v s2 where "valueFor k c attr (op_v x) s1 = Inr (v, s2)" "emitAdd c e attr v s2 = Inr s'"
      | (retract) v s2 where "valueFor k c attr (op_v x) s1 = Inr (v, s2)" "emitRetract c e attr (Some v) s2 = Inr s'"
      | (all) "emitRetract c e attr None s1 = Inr s'"
      using r1 by (cases "op_kind x = KAdd"; cases "op_hasV x") (auto simp: res_simps)
    then show ?thesis
      by cases (use sv emitAdd_stamped emitRetract_stamped g1 in blast)+
  qed
qed

lemma processTx_stamped:
  assumes "processTx fuel pf d txData t nextEid inst = Inr r"
  shows "\<forall>y\<in>set (tr_datoms r). d_t y = t"
proof -
  obtain n k m where fuel: "fuel = (n, k, m)" by (rule prod_cases3)
  obtain ops s1 s where s:
    "rfold (upsert_step \<lparr>te_fuel = n, te_pf = pf, te_db = d, te_t = t, te_newIdents = collect_idents ops, te_closureCap = None\<rparr>) ops (initial_tx t nextEid) = Inr s1"
    "rfold (main_step k m \<lparr>te_fuel = n, te_pf = pf, te_db = d, te_t = t, te_newIdents = collect_idents ops, te_closureCap = None\<rparr>) ops s1 = Inr s"
    "tr_datoms r = instant_datom t inst # ts_out s"
    using assms by (auto simp: processTx_def expandTx_def fuel Let_def res_simps)
  let ?c = "\<lparr>te_fuel = n, te_pf = pf, te_db = d, te_t = t, te_newIdents = collect_idents ops, te_closureCap = None\<rparr>"
  have g: "stamped ?c (initial_tx t nextEid)" by (simp add: stamped_def initial_tx_def)
  have "stamped ?c s1" by (rule rfold_stamped [OF s(1) g]) (blast intro: same_output_stamped upsert_step_same)
  then have "stamped ?c s" by (rule rfold_stamped [OF s(2)]) (rule main_step_stamped)
  then show ?thesis by (simp add: s(3) stamped_def instant_datom_def)
qed

section \<open>Committing keeps the invariant\<close>

text \<open>
  \<open>kept S b c T c' T'\<close>: what \<open>c\<close> held at \<open>b\<close> and before, \<open>c'\<close> still holds, and nothing else
  that old, in EAVT and AEVT, and in AVET and VAET for the attributes in \<open>S\<close>.
\<close>

definition watched :: "int set \<Rightarrow> index \<Rightarrow> datom \<Rightarrow> bool" where
  "watched S i x \<longleftrightarrow> i = EAVT \<or> i = AEVT \<or> d_a x \<in> S"

definition kept :: "('s \<Rightarrow> node_source) \<Rightarrow> int set \<Rightarrow> int \<Rightarrow> 's connection \<Rightarrow> (index \<Rightarrow> atree) \<Rightarrow> 's connection \<Rightarrow> (index \<Rightarrow> atree) \<Rightarrow> bool" where
  "kept get S b c T c' T' \<longleftrightarrow>
     (\<forall>i x. watched S i x \<longrightarrow> d_t x \<le> b \<longrightarrow> (x \<in> db_datoms_in (conn_db get c') T' i \<longleftrightarrow> x \<in> db_datoms_in (conn_db get c) T i))"

lemma kept_refl [simp]: "kept get S b c T c T"
  by (simp add: kept_def)

lemma kept_trans: "kept get S b c T c' T' \<Longrightarrow> kept get S b c' T' c'' T'' \<Longrightarrow> kept get S b c T c'' T''"
  by (simp add: kept_def)

lemma kept_mono: "kept get S b' c T c' T' \<Longrightarrow> b \<le> b' \<Longrightarrow> kept get S b c T c' T'"
  by (simp add: kept_def)

lemma transact_inv:
  assumes c: "conn_inv get sok rok dok c T" and r: "transact fuel pf get txData now c = Inr (rp, c')"
    and ok: "\<forall>x\<in>set (rp_txData rp). datom_ok x \<and> dok x"
  shows "conn_inv get sok rok dok c' T \<and> cn_basisT c' = cn_basisT c + 1 \<and> kept get S (cn_basisT c) c T c' T"
proof -
  obtain r' where R: "processTx fuel pf (conn_db get c) txData (cn_basisT c + 1) (cn_nextEid c) now = Inr r'"
    "rp_txData rp = tr_datoms r'" "cn_basisT c' = cn_basisT c + 1" "cn_store c' = cn_store c" "cn_roots c' = cn_roots c"
    "cn_schema c' = Schema_apply (tr_datoms r') (Schema_clone (cn_schema c))"
    "cn_novelty c' = nv_add (tr_datoms r') (isAvet (cn_schema c')) (isVaet (cn_schema c')) (cn_novelty c)"
    using transact_parts [OF r] by metis
  have I: "db_rep (conn_db get c) T" "db_bounded (conn_db get c) T" "schema_inv (cn_schema c)" "ident_inv (cn_schema c)"
    "schema_maps_ok (cn_schema c)" "\<And>i x. x \<in> db_datoms_in (conn_db get c) T i \<Longrightarrow> d_t x \<le> cn_basisT c"
    using c by (auto simp: conn_inv_def)
  note t = processTx_stamped [OF R(1)]
  have ds: "\<forall>x\<in>set (tr_datoms r'). datom_ok x" using ok R(2) by simp
  have sc: "Schema_clone (cn_schema c) = cn_schema c" by (rule Schema_clone_id [OF I(5)])
  have dbc: "db_rep (conn_db get c') T" "db_bounded (conn_db get c') T"
    using db_rep_add [OF I(1) ds, of "isAvet (cn_schema c')" "isVaet (cn_schema c')"]
      db_bounded_add [OF I(2), of "tr_datoms r'" "isAvet (cn_schema c')" "isVaet (cn_schema c')"] R(4,5,7)
    by (simp_all add: db_rep_def db_bounded_def)
  have V: "db_datoms_in (conn_db get c') T i = db_datoms_in (conn_db get c) T i \<union>
      {x \<in> set (tr_datoms r'). keeps (isAvet (cn_schema c')) (isVaet (cn_schema c')) i x}" for i
    by (auto simp: db_datoms_in_def R(7) nv_add_abs)
  have "conn_inv get sok rok dok c' T"
    unfolding conn_inv_def
  proof (intro conjI)
    show "\<forall>i. \<forall>x\<in>nv_abs (cn_novelty c') i. dok x" using c ok R(2,7) by (auto simp: conn_inv_def nv_add_abs)
    show "\<forall>i. \<forall>x\<in>db_datoms_in (conn_db get c') T i. d_t x \<le> cn_basisT c'"
      using I(6) t R(3) unfolding V by fastforce
  qed (use c dbc R I sc in \<open>simp_all add: conn_inv_def Schema_apply_inv Schema_apply_ident_inv Schema_apply_maps\<close>)
  moreover have "kept get S (cn_basisT c) c T c' T"
    unfolding kept_def V using t by auto
  ultimately show ?thesis using R(3) by simp
qed

section \<open>Steps of a connection\<close>

text \<open>
  A transaction that leaves the indexing of the attributes in \<open>S\<close> alone. (Turning on
  \<open>:db/index\<close>, \<open>:db/unique\<close> or a reference type does not move what is buffered already: from
  then on the buffers disagree on that attribute until the next indexing.)
\<close>

definition steady :: "int set \<Rightarrow> 's connection \<Rightarrow> 's connection \<Rightarrow> bool" where
  "steady S c c' \<longleftrightarrow> (\<forall>a\<in>S. isAvet (cn_schema c') a = isAvet (cn_schema c) a \<and> isVaet (cn_schema c') a = isVaet (cn_schema c) a)"

lemma steady_none [simp]: "steady {} c c'"
  by (simp add: steady_def)

text \<open>Sizes that a count can carry; no JavaScript array is longer.\<close>

definition sizes_ok :: "'s connection \<Rightarrow> bool" where
  "sizes_ok c \<longleftrightarrow> (\<forall>i. r_count (rootFor (cn_roots c) i) + length (fst (sn_all (nv_byIndex (cn_novelty c) i))) < 2 ^ 53)"

text \<open>
  One event at a connection: a transaction that commits datoms which can be stored and
  leaves the indexing of the attributes in \<open>S\<close> alone (with \<open>S = {}\<close>, whatever it does to the
  schema), one that fails, or indexing. The result of indexing is what every sufficient fuel gives.
\<close>

inductive conn_step ::
  "('s \<Rightarrow> node_source) \<Rightarrow> 's put \<Rightarrow> build_options \<Rightarrow> (datom \<Rightarrow> bool) \<Rightarrow> platform \<Rightarrow> int set \<Rightarrow> 's connection \<Rightarrow> 's connection \<Rightarrow> bool"
  for get put bo dok pf S where
  commit: "transact fuel pf get txData now c = Inr (rp, c') \<Longrightarrow> \<forall>x\<in>set (rp_txData rp). datom_ok x \<and> dok x \<Longrightarrow>
    steady S c c' \<Longrightarrow> conn_step get put bo dok pf S c c'"
| abort: "transact fuel pf get txData now c = Inl e \<Longrightarrow> conn_step get put bo dok pf S c c"
| index: "\<forall>n\<ge>n0. conn_index n get put bo upToT c = Inr (rts, c') \<Longrightarrow> sizes_ok c \<Longrightarrow> conn_step get put bo dok pf S c c'"

inductive_cases conn_stepE: "conn_step get put bo dok pf S c c'"

lemma keeps_cong: "av (d_a x) = av' (d_a x) \<Longrightarrow> va (d_a x) = va' (d_a x) \<Longrightarrow> keeps av va i x = keeps av' va' i x"
  by (cases i) simp_all

lemma transact_buffers:
  assumes "buffers_ok S c" "transact fuel pf get txData now c = Inr (rp, c')" "steady S c c'"
  shows "buffers_ok S c'"
proof -
  obtain r' :: tx_result where R: "cn_novelty c' = nv_add (tr_datoms r') (isAvet (cn_schema c')) (isVaet (cn_schema c')) (cn_novelty c)"
    by (rule transact_parts [OF assms(2)]) blast
  have N: "x \<in> nv_abs (cn_novelty c') i \<longleftrightarrow> x \<in> nv_abs (cn_novelty c) i \<or> x \<in> set (tr_datoms r') \<and> cn_keeps c' i x" for i x
    unfolding R nv_add_abs by auto
  have B: "nv_abs (cn_novelty c) AEVT = nv_abs (cn_novelty c) EAVT" "\<And>i. nv_abs (cn_novelty c) i \<subseteq> nv_abs (cn_novelty c) EAVT"
    "\<And>i x. x \<in> nv_abs (cn_novelty c) EAVT \<Longrightarrow> d_a x \<in> S \<Longrightarrow> x \<in> nv_abs (cn_novelty c) i \<longleftrightarrow> cn_keeps c i x"
    using assms(1) unfolding buffers_ok_def by blast+
  have k: "d_a x \<in> S \<Longrightarrow> cn_keeps c i x = cn_keeps c' i x" for i x
    using assms(3) unfolding steady_def by (intro keeps_cong) simp_all
  have 1: "nv_abs (cn_novelty c') AEVT = nv_abs (cn_novelty c') EAVT"
    by (rule set_eqI) (simp only: N B(1) keeps.simps)
  have 2: "nv_abs (cn_novelty c') i \<subseteq> nv_abs (cn_novelty c') EAVT" for i using N B(2) [of i] by auto
  have 3: "x \<in> nv_abs (cn_novelty c') i \<longleftrightarrow> cn_keeps c' i x" if "x \<in> nv_abs (cn_novelty c') EAVT" "d_a x \<in> S" for i x
  proof (cases "x \<in> nv_abs (cn_novelty c) EAVT")
    case True
    then show ?thesis using B(3) [OF True that(2), of i] k [OF that(2), of i] N [of x i] by blast
  next
    case False
    then have "x \<in> set (tr_datoms r')" "x \<notin> nv_abs (cn_novelty c) i" using that(1) N [of x EAVT] B(2) [of i] by blast+
    then show ?thesis using N [of x i] by blast
  qed
  show ?thesis unfolding buffers_ok_def using 1 2 3 by blast
qed

lemma represents_count: "represents src r t \<Longrightarrow> r_count r = length (contents t)"
  by (cases rule: represents.cases) auto

context node_store begin

lemma conn_step_inv:
  assumes par: "1 < bo_fanout bo" "bo_fanout bo \<le> cap" "0 < bo_leafSize bo" "bo_leafSize bo * 3 div 2 \<le> cap"
    and c: "conn_inv get inv rok dok c T" "buffers_ok S c" and step: "conn_step get put bo dok pf S c c'"
  shows "\<exists>T'. conn_inv get inv rok dok c' T' \<and> buffers_ok S c' \<and> cn_basisT c \<le> cn_basisT c' \<and>
    kept get S (cn_basisT c) c T c' T'"
  using step
proof (cases rule: conn_step.cases)
  case (commit fuel txData now rp)
  then show ?thesis
    using transact_inv [OF c(1) commit(1,2)] transact_buffers [OF c(2) commit(1,3)] by (intro exI [of _ T]) simp
next
  case abort
  then show ?thesis using c by (intro exI [of _ T]) simp
next
  case (index n0 upToT rts)
  define n where "n = n0 + nodes (T EAVT) + nodes (T AEVT) + nodes (T AVET) + nodes (T VAET)"
  have r: "conn_index n get put bo upToT c = Inr (rts, c')" using index(1) by (simp add: n_def)
  have nodes: "nodes (T i) \<le> n" for i unfolding n_def by (cases i) simp_all
  have "represents (get (cn_store c)) (rootFor (cn_roots c) i) (T i)" for i
    using c(1) by (simp add: conn_inv_def db_rep_def)
  then have sizes: "length (contents (T i)) + length (fst (sn_all (nv_byIndex (cn_novelty c) i))) < 2 ^ 53" for i
    using index(2) represents_count unfolding sizes_ok_def by metis
  from conn_index_buffers [OF par c nodes sizes, of upToT] r
  obtain T' where T': "conn_inv get inv rok dok c' T'" "buffers_ok S c'" "cn_basisT c' = cn_basisT c"
    "\<And>i P. \<forall>x\<in>nv_abs (cn_novelty c) EAVT. P x \<longrightarrow> (x \<in> nv_abs (cn_novelty c) i \<longleftrightarrow> cn_keeps c i x) \<Longrightarrow>
       {x \<in> db_datoms_in (conn_db get c') T' i. P x} = {x \<in> db_datoms_in (conn_db get c) T i. P x}" by auto
  have "x \<in> db_datoms_in (conn_db get c') T' i \<longleftrightarrow> x \<in> db_datoms_in (conn_db get c) T i" if w: "watched S i x" for i x
  proof -
    have "y \<in> nv_abs (cn_novelty c) i \<longleftrightarrow> cn_keeps c i y" if "y \<in> nv_abs (cn_novelty c) EAVT" "y = x" for y
      using c(2) w that by (auto simp: buffers_ok_def watched_def)
    then have "{y \<in> db_datoms_in (conn_db get c') T' i. y = x} = {y \<in> db_datoms_in (conn_db get c) T i. y = x}"
      by (intro T'(4)) blast
    then show ?thesis by blast
  qed
  then show ?thesis using T'(1-3) by (intro exI [of _ T']) (simp add: kept_def)
qed

lemma conn_run_inv:
  assumes par: "1 < bo_fanout bo" "bo_fanout bo \<le> cap" "0 < bo_leafSize bo" "bo_leafSize bo * 3 div 2 \<le> cap"
    and run: "(conn_step get put bo dok pf S)\<^sup>*\<^sup>* c c'" and c: "conn_inv get inv rok dok c T" "buffers_ok S c"
  shows "\<exists>T'. conn_inv get inv rok dok c' T' \<and> buffers_ok S c' \<and> cn_basisT c \<le> cn_basisT c' \<and>
    kept get S (cn_basisT c) c T c' T'"
  using run
proof (induction rule: rtranclp_induct)
  case base
  then show ?case using c by (intro exI [of _ T]) simp
next
  case (step c1 c2)
  then obtain T1 where T1: "conn_inv get inv rok dok c1 T1" "buffers_ok S c1" "cn_basisT c \<le> cn_basisT c1"
    "kept get S (cn_basisT c) c T c1 T1" by blast
  obtain T2 where T2: "conn_inv get inv rok dok c2 T2" "buffers_ok S c2" "cn_basisT c1 \<le> cn_basisT c2"
    "kept get S (cn_basisT c1) c1 T1 c2 T2" using conn_step_inv [OF par T1(1,2) step.hyps(2)] by blast
  have "kept get S (cn_basisT c) c T c2 T2" using kept_trans [OF T1(4) kept_mono [OF T2(4) T1(3)]] .
  then show ?case using T1(3) T2 by (intro exI [of _ T2]) simp
qed

text \<open>Time travel: as of the \<open>t\<close> of an earlier state, reads answer as they did then.\<close>

lemma as_of_reads:
  assumes "conn_inv get inv rok dok c T" "conn_inv get inv rok dok c' T'" "cn_basisT c \<le> cn_basisT c'"
    "kept get S (cn_basisT c) c T c' T'" "prefix_ok p" "nodes (T i) < n" "nodes (T' i) < n'"
    "\<forall>x. matching i p x \<longrightarrow> watched S i x"
  shows "datomsArray n' (Db_asOf (cn_basisT c) (conn_db get c')) i p = datomsArray n (conn_db get c) i p"
proof (rule reads_agree_on [of _ T _ _ _ T'])
  let ?d = "Db_asOf (cn_basisT c) (conn_db get c')"
  show e: "effectiveT ?d = effectiveT (conn_db get c)" using assms(3) by (simp add: effectiveT_def Db_asOf_def conn_db_def)
  have "db_datoms_in ?d T' i = db_datoms_in (conn_db get c') T' i" by (simp add: db_datoms_in_def Db_asOf_def)
  then show "{x \<in> seen ?d T' i. matching i p x} = {x \<in> seen (conn_db get c) T i. matching i p x}"
    using assms(4,8) unfolding seen_def e kept_def by auto
qed (use assms in \<open>simp_all add: conn_inv_def db_rep_def db_bounded_def Db_asOf_def\<close>)

end

section \<open>The first state\<close>

text \<open>The datoms and the schema every connection starts with.\<close>

lemma bootstrap_both:
  obtains ds s where "bootstrapDatoms = Inr ds" "Schema_bootstrap = Inr s" "\<forall>d\<in>set ds. datom_ok d \<and> d_t d = 1"
    "schema_inv s" "ident_inv s" "schema_maps_ok s"
proof -
  obtain ds where ds: "bootstrapDatoms = Inr ds" using bootstrapDatoms_ok by (auto split: sum.splits)
  have s: "Schema_bootstrap = Inr (Schema_apply ds Schema_new)" unfolding Schema_bootstrap_def ds by simp
  have "\<forall>d\<in>set ds. datom_ok d \<and> d_t d = 1" using bootstrapDatoms_ok unfolding ds by (simp add: list_all_iff)
  with ds s bootstrap_inv [OF s] that show ?thesis by blast
qed

text \<open>All bootstrap texts are ASCII, hence storable.\<close>

fun ascii_value :: "tagged_value \<Rightarrow> bool" where
  "ascii_value (VStr s) = (list_all (\<lambda>c. unat c < 128) s \<and> length s < 100)"
| "ascii_value (VBytes b) = False"
| "ascii_value v = True"

lemma bootstrap_ascii: "case bootstrapDatoms of Inl e \<Rightarrow> False | Inr ds \<Rightarrow> list_all (\<lambda>d. ascii_value (d_v d)) ds"
  by code_simp

lemma ascii_scalars: "list_all (\<lambda>c. unat c < 128) s \<Longrightarrow> to_scalars s = map unat s \<and> wf_utf16 s"
  by (induction s rule: to_scalars.induct) auto

lemma ascii_utf8: "list_all (\<lambda>x. x < 128) xs \<Longrightarrow> length (concat (map utf8_scalar xs)) = length xs"
  by (induction xs) (auto simp: utf8_scalar_def utf8_nats_def)

lemma ascii_value_text: "ascii_value v \<Longrightarrow> value_text_ok v \<and> value_short v"
proof (cases v)
  case (VStr s)
  assume "ascii_value v"
  then have a: "list_all (\<lambda>c. unat c < 128) s" "length s < 100" using VStr by auto
  have b: "list_all (\<lambda>x. x < 128) (map unat s)" using a(1) by (simp add: list.pred_map comp_def)
  have "length (utf8_encode s) = length s"
    using ascii_scalars [OF a(1)] ascii_utf8 [OF b] by (simp add: utf8_encode_def)
  moreover have "s = [] \<or> hd s \<noteq> 0xFEFF" using a(1) by (cases s) auto
  ultimately show ?thesis using VStr a(2) ascii_scalars [OF a(1)] by (simp add: text_ok_def)
qed simp_all

lemma bootstrap_datom_storable: "bootstrapDatoms = Inr ds \<Longrightarrow> \<forall>d\<in>set ds. datom_storable d"
proof -
  assume ds: "bootstrapDatoms = Inr ds"
  show ?thesis
    using bootstrap_ascii bootstrapDatoms_ok ascii_value_text unfolding ds by (auto simp: datom_storable_def list_all_iff)
qed

context node_store begin

lemma emptyRoots_ok:
  assumes par: "1 < bo_fanout bo" "bo_fanout bo \<le> cap" "0 < bo_leafSize bo" "bo_leafSize bo \<le> cap" and s: "inv s"
  shows "emptyRoots put bo s = collision \<or>
    (\<exists>rts s' T. emptyRoots put bo s = Inr (rts, s') \<and> inv s' \<and> ro_t rts = 0 \<and>
       (\<forall>i. rok (rootFor rts i) \<and> represents (get s') (rootFor rts i) (T i) \<and> wf_root i (T i) \<and> contents (T i) = []))"
proof -
  let ?f = "\<lambda>i s. buildTree put i (bo_leafSize bo) (bo_fanout bo) s []"
  let ?Q = "\<lambda>i t. wf_root i t \<and> contents t = []"
  have step: "?f i s1 = collision \<or> (\<exists>r s' t. ?f i s1 = Inr (r, s') \<and> inv s' \<and> get s1 \<subseteq>\<^sub>m get s' \<and> rok r \<and>
      represents (get s') r t \<and> ?Q i t)" if "inv s1" "get s \<subseteq>\<^sub>m get s1" for i s1
    using buildTree_ok [OF that(1) par, of i "[]"] by (auto simp: index_sorted_def)
  show ?thesis unfolding emptyRoots_def
    using build4_ok [where f = ?f and Q = ?Q and tt = 0, OF s step] by blast
qed

lemma Connection_create_ok:
  assumes par: "1 < bo_fanout bo" "bo_fanout bo \<le> cap" "0 < bo_leafSize bo" "bo_leafSize bo \<le> cap" and s: "inv s"
    and boot: "bootstrapDatoms = Inr ds" "\<forall>d\<in>set ds. dok d"
  shows "Connection_create put bo s = collision \<or>
    (\<exists>c T. Connection_create put bo s = Inr c \<and> conn_inv get inv rok dok c T \<and> indexes_consistent c \<and>
       cn_basisT c = 1 \<and> db_datoms_in (conn_db get c) T EAVT = set ds)"
proof -
  obtain sc where sc: "Schema_bootstrap = Inr sc" "\<forall>d\<in>set ds. datom_ok d \<and> d_t d = 1"
    "schema_inv sc" "ident_inv sc" "schema_maps_ok sc"
    using bootstrap_both boot(1) by (metis sum.inject(2))
  let ?nov = "nv_add ds (isAvet sc) (isVaet sc) Novelty_new"
  let ?c = "\<lambda>rts s'. \<lparr>cn_store = s', cn_roots = rts, cn_novelty = ?nov, cn_schema = sc, cn_basisT = 1,
    cn_nextEid = FIRST_USER_EID, cn_rootHistory = [rts]\<rparr>"
  have cr: "Connection_create put bo s = rmap (\<lambda>(rts, s'). ?c rts s') (emptyRoots put bo s)"
    by (simp add: Connection_create_def sc(1) boot(1))
  have nov: "nv_inv ?nov" by (rule nv_add_inv) (use sc(2) in \<open>simp_all add: nv_inv_new\<close>)
  have abs: "nv_abs ?nov i = {d \<in> set ds. keeps (isAvet sc) (isVaet sc) i d}" for i by (simp add: nv_add_abs)
  from emptyRoots_ok [OF par s] show ?thesis
  proof (elim disjE exE conjE)
    assume "emptyRoots put bo s = collision"
    then show ?thesis by (simp add: cr)
  next
    fix rts s' T
    assume R: "emptyRoots put bo s = Inr (rts, s')" "inv s'" "ro_t rts = 0" and T: "\<forall>i. rok (rootFor rts i) \<and>
       represents (get s') (rootFor rts i) (T i) \<and> wf_root i (T i) \<and> contents (T i) = []"
    have V: "db_datoms_in (conn_db get (?c rts s')) T i = {d \<in> set ds. keeps (isAvet sc) (isVaet sc) i d}" for i
      using T by (simp add: db_datoms_in_def abs)
    have "conn_inv get inv rok dok (?c rts s') T"
      unfolding conn_inv_def
    proof (intro conjI)
      show "db_rep (conn_db get (?c rts s')) T" using T nov by (simp add: db_rep_def)
      show "db_bounded (conn_db get (?c rts s')) T" using T remaining_maxT by (simp add: db_bounded_def)
      show "\<forall>i. \<forall>x\<in>db_datoms_in (conn_db get (?c rts s')) T i. d_t x \<le> cn_basisT (?c rts s')" unfolding V using sc(2) by simp
    qed (use R T boot(2) sc in \<open>simp_all add: abs\<close>)
    moreover have "indexes_consistent (?c rts s')" by (simp add: indexes_consistent_def abs)
    ultimately show ?thesis
      using R(1) V by (intro disjI2 exI [of _ "?c rts s'"] exI [of _ T]) (simp add: cr)
  qed
qed

end

end
