(* ===== verification/ConnClaims.thy ===== *)
theory ConnClaims
  imports DatabaseClaims ConnRuns
begin

text \<open>
  The properties of the write side: transactions as edits of the set of facts, indexing, and
  runs of a connection. Those about stored trees rest on the interpretation \<open>mem\<close> of the
  contract \<open>node_store\<close>.
\<close>

section \<open>Samples\<close>

text \<open>A connection over the source with one empty leaf, whose schema knows one attribute.\<close>

definition sample_attr :: "datom list" where
  "sample_attr = [assert_str 100 DB_IDENT (js ''name'') 1, assert_str 100 DB_VALUE_TYPE (js '':db.type/string'') 1,
     assert_str 100 DB_CARDINALITY (js '':db.cardinality/one'') 1]"

definition sample_conn :: "node_source connection" where
  "sample_conn = \<lparr>cn_store = sample_source,
     cn_roots = \<lparr>ro_t = 0, ro_eavt = sample_ref, ro_aevt = sample_ref, ro_avet = sample_ref, ro_vaet = sample_ref\<rparr>,
     cn_novelty = nv_add sample_attr (\<lambda>a. False) (\<lambda>a. False) Novelty_new,
     cn_schema = Schema_apply sample_attr Schema_new, cn_basisT = 1, cn_nextEid = 1000, cn_rootHistory = []\<rparr>"

text \<open>A transaction that asserts the name of entity 1000.\<close>

definition sample_tx :: "jsval list" where
  "sample_tx = [JArr [JStr (js '':db/add''), JNum (NInt 1000), JStr (js ''name''), JStr (js ''x'')]]"

definition sample_added :: datom where
  "sample_added = \<lparr>d_e = 1000, d_a = 100, d_v = VStr (js ''x''), d_t = 2, d_op = True\<rparr>"

lemma sample_transact:
  "rmap (\<lambda>(r, c). rp_txData r) (transact (9, 9, 9) sample_platform id sample_tx 1700000000000 sample_conn) =
     Inr [instant_datom 2 1700000000000, sample_added]"
  by code_simp

lemma sample_schema:
  "map fst (sc_byId (Schema_apply sample_attr Schema_new)) = [100]"
  by code_simp

lemma sample_transact_parts:
  obtains rp c' where "transact (9, 9, 9) sample_platform id sample_tx 1700000000000 sample_conn = Inr (rp, c')"
    "rp_txData rp = [instant_datom 2 1700000000000, sample_added]"
  using sample_transact by (auto simp: res_simps)

lemma sample_attr_ok: "\<forall>d\<in>set sample_attr. datom_ok d \<and> d_t d = 1 \<and> d_e d = 100 \<and> d_a d \<noteq> 100"
  by (simp add: sample_attr_def assert_str_def datom_ok_def id_ok_def MAX_ID_def DB_IDENT_def DB_VALUE_TYPE_def DB_CARDINALITY_def)

lemma sample_tx_ok: "\<forall>x\<in>set [instant_datom 2 1700000000000, sample_added]. datom_ok x \<and> True"
  by (simp add: instant_datom_def sample_added_def datom_ok_def id_ok_def MAX_ID_def safe_int_def txEid_def TX_BASE_def DB_TX_INSTANT_def)

lemma sample_conn_inv: "conn_inv id (\<lambda>s. True) (\<lambda>r. True) (\<lambda>d. True) sample_conn sample_trees"
proof -
  let ?nov = "nv_add sample_attr (\<lambda>a. False) (\<lambda>a. False) Novelty_new"
  have roots: "rootFor (cn_roots sample_conn) i = sample_ref" for i by (cases i) (simp_all add: sample_conn_def)
  have c: "cn_store sample_conn = sample_source" "cn_novelty sample_conn = ?nov" "cn_basisT sample_conn = 1"
    "cn_schema sample_conn = Schema_apply sample_attr Schema_new" by (simp_all add: sample_conn_def)
  have nov: "nv_inv ?nov" using sample_attr_ok by (intro nv_add_inv) (auto simp: nv_inv_new)
  have abs: "nv_abs ?nov i \<subseteq> set sample_attr" for i by (auto simp: nv_add_abs)
  have rep: "db_rep (conn_db id sample_conn) sample_trees"
    using nov sample_represents by (simp add: db_rep_def roots c sample_trees_def)
  have bnd: "db_bounded (conn_db id sample_conn) sample_trees"
    using remaining_maxT by (simp add: db_bounded_def c sample_trees_def)
  have V: "db_datoms_in (conn_db id sample_conn) sample_trees i \<subseteq> set sample_attr" for i
    using abs by (auto simp: db_datoms_in_def c sample_trees_def)
  have "\<forall>i. \<forall>x\<in>db_datoms_in (conn_db id sample_conn) sample_trees i. d_t x \<le> 1"
    using V sample_attr_ok by fastforce
  then show ?thesis
    unfolding conn_inv_def c using rep bnd
    by (simp add: Schema_apply_inv Schema_apply_ident_inv Schema_apply_maps)
qed

lemma sample_single_valued:
  "single_valued (cn_schema sample_conn) (facts_in (conn_db id sample_conn) sample_trees)"
proof -
  have "a \<noteq> 100" if "(e, a, v) \<in> facts_in (conn_db id sample_conn) sample_trees" for e a v
    using that sample_attr_ok
    by (auto simp: facts_in_def currentFacts_def db_datoms_in_def sample_trees_def sample_conn_def conn_db_def nv_add_abs fact_of_def)
  moreover have "attr_by_id (cn_schema sample_conn) a = None" if "a \<noteq> 100" for a
  proof -
    have "a \<notin> fst ` set (sc_byId (Schema_apply sample_attr Schema_new))"
      using that sample_schema by (metis empty_iff insertE list.set(1,2) list.set_map)
    then show ?thesis by (simp add: sample_conn_def attr_by_id_def jm_get_None)
  qed
  ultimately show ?thesis by (force simp: single_valued_def)
qed

section \<open>Transactions\<close>

text \<open>
  C18: A transaction is an edit script. When \<open>processTx\<close> succeeds on a database whose
  cardinality-one attributes are single-valued, its datoms are its instant followed by a
  script every step of which changes the set of facts: it asserts only what is absent and
  retracts only what is present at that point, all at the transaction's \<open>t\<close>; and the facts
  after the script are single-valued again. Of the platform this takes what ECMAScript says of
  \<open>String\<close>: numbers other than NaN and negative zero have different texts.
\<close>

theorem processTx_is_edit_script:
  assumes "processTx (n, k, m) pf d txData t' nextEid inst = Inr r"
    and "db_rep d t" "nodes (t EAVT) < n" "\<not> db_isHistory d" "renders_doubles pf"
    and "schema_inv (db_schema d)" "ident_inv (db_schema d)" "single_valued (db_schema d) (facts_in d t)"
  shows "\<exists>out. tr_datoms r = instant_datom t' inst # out \<and> edit_script out (facts_in d t) \<and>
    single_valued (db_schema d) (edits out (facts_in d t)) \<and> (\<forall>y\<in>set (tr_datoms r). d_t y = t')"
  using processTx_edits [OF assms] by blast

theorem processTx_is_edit_script_witness:
  "\<exists>r. processTx (9, 9, 9) sample_platform (conn_db id sample_conn) sample_tx 2 1000 1700000000000 = Inr r \<and>
     tr_datoms r = [instant_datom 2 1700000000000, sample_added] \<and>
     edit_script [sample_added] (facts_in (conn_db id sample_conn) sample_trees)"
proof -
  obtain rp c' where R: "transact (9, 9, 9) sample_platform id sample_tx 1700000000000 sample_conn = Inr (rp, c')"
    "rp_txData rp = [instant_datom 2 1700000000000, sample_added]" by (rule sample_transact_parts)
  have b: "cn_basisT sample_conn + 1 = 2" "cn_nextEid sample_conn = 1000" by (simp_all add: sample_conn_def)
  obtain r where r: "processTx (9, 9, 9) sample_platform (conn_db id sample_conn) sample_tx 2 1000 1700000000000 = Inr r"
    "rp_txData rp = tr_datoms r"
    using transact_parts [OF R(1)] unfolding b by metis
  have I: "db_rep (conn_db id sample_conn) sample_trees" "schema_inv (db_schema (conn_db id sample_conn))"
    "ident_inv (db_schema (conn_db id sample_conn))" "\<not> db_isHistory (conn_db id sample_conn)"
    "single_valued (db_schema (conn_db id sample_conn)) (facts_in (conn_db id sample_conn) sample_trees)"
    using sample_conn_inv sample_single_valued by (simp_all add: conn_inv_def)
  have n: "nodes (sample_trees EAVT) < 9" by (simp add: sample_trees_def)
  obtain out where "tr_datoms r = instant_datom 2 1700000000000 # out"
    "edit_script out (facts_in (conn_db id sample_conn) sample_trees)"
    using processTx_is_edit_script [OF r(1) I(1) n I(4) sample_platform_renders I(2,3,5)] by blast
  then show ?thesis using r R(2) by simp
qed



text \<open>
  The value before a transaction. \<open>dbBefore\<close> shares its novelty buffers with the
  connection, which now hold the new datoms; its reads still answer as before the transaction.
\<close>

lemma dbBefore_is_stable:
  assumes c: "conn_inv get sok rok dok c T" and r: "transact (n, k, m) pf get txData now c = Inr (rp, c')"
    and n: "nodes (T EAVT) < n" "nodes (T i) < l" and pf: "renders_doubles pf"
    and sv: "single_valued (cn_schema c) (facts_in (conn_db get c) T)"
    and ok: "\<forall>x\<in>set (rp_txData rp). datom_ok x \<and> dok x" and p: "prefix_ok p"
  shows "datomsArray l (rp_dbBefore rp) i p = datomsArray l (conn_db get c) i p"
  using assms by (rule transact_before_stable)

lemma dbBefore_is_stable_witness:
  "\<exists>rp c'. transact (9, 9, 9) sample_platform id sample_tx 1700000000000 sample_conn = Inr (rp, c') \<and>
     datomsArray 2 (rp_dbBefore rp) EAVT (entity_prefix 1000) = datomsArray 2 (conn_db id sample_conn) EAVT (entity_prefix 1000)"
proof -
  obtain rp c' where R: "transact (9, 9, 9) sample_platform id sample_tx 1700000000000 sample_conn = Inr (rp, c')"
    "rp_txData rp = [instant_datom 2 1700000000000, sample_added]" by (rule sample_transact_parts)
  have n: "nodes (sample_trees EAVT) < 9" "nodes (sample_trees EAVT) < 2" by (simp_all add: sample_trees_def)
  have "\<forall>x\<in>set (rp_txData rp). datom_ok x \<and> True" unfolding R(2) by (rule sample_tx_ok)
  from dbBefore_is_stable [OF sample_conn_inv R(1) n sample_platform_renders sample_single_valued this sample_prefix(1)] R(1)
  show ?thesis by blast
qed

text \<open>
  Asserting beats retracting. When one transaction both asserts and retracts a fact, the
  two datoms carry the same \<open>t\<close>, and collapsing an index to its current view keeps the fact,
  whichever came last in the transaction.
\<close>

lemma assertion_wins_within_transaction:
  assumes "index_sorted i ds" "x \<in> set ds" "d_op x" "d_t x = t" "\<forall>y\<in>set ds. d_t y \<le> t"
  shows "fact_of x \<in> fact_of ` set (collapseCurrent (Some t) ds)"
  using assert_wins [of x "set ds" t] assms collapseCurrent_facts [OF assms(1), of "Some t"]
  by (simp add: facts_at_def)

lemma assertion_wins_within_transaction_witness:
  "fact_of sample_added \<in> fact_of ` set (collapseCurrent (Some 2) [sample_added\<lparr>d_op := False\<rparr>, sample_added])"
proof (rule assertion_wins_within_transaction)
  have s: "d_t sample_added = 2" "d_op sample_added" by (simp_all add: sample_added_def)
  then show "d_t sample_added = 2" "d_op sample_added"
    "\<forall>y\<in>set [sample_added\<lparr>d_op := False\<rparr>, sample_added]. d_t y \<le> 2" by simp_all
  have "datom_ok sample_added" "datom_ok (sample_added\<lparr>d_op := False\<rparr>)"
    by (simp_all add: sample_added_def datom_ok_def id_ok_def MAX_ID_def)
  moreover have "cmpEAVT (sample_added\<lparr>d_op := False\<rparr>) sample_added < 0"
    by (simp add: sample_added_def cmpEAVT_def cmpNum_def cmpOp_def or_else_def compareStrings_lex)
  ultimately show "index_sorted EAVT [sample_added\<lparr>d_op := False\<rparr>, sample_added]"
    by (simp add: index_sorted_def)
qed simp

text \<open>The \<open>t\<close>s that a list of results reports, and what the queue does with them.\<close>

definition reported_ts :: "tx_report res list \<Rightarrow> int list" where
  "reported_ts rs = concat (map (\<lambda>r. case r of Inl e \<Rightarrow> [] | Inr rp \<Rightarrow> [rp_t rp]) rs)"

lemma transact_queue_serial:
  "case transact_queue fuel pf get calls c of (rs, c') \<Rightarrow>
     length rs = length calls \<and> reported_ts rs = [cn_basisT c + 1..cn_basisT c'] \<and> cn_basisT c \<le> cn_basisT c'"
proof (induction calls arbitrary: c)
  case (Cons x calls)
  obtain txData now where x: "x = (txData, now)" by (cases x)
  show ?case
  proof (cases "transact fuel pf get txData now c")
    case (Inl e)
    then show ?thesis using Cons [of c] by (simp add: x reported_ts_def split: prod.splits)
  next
    case (Inr a)
    then obtain rp c1 where a: "transact fuel pf get txData now c = Inr (rp, c1)" by (cases a) simp
    have t: "cn_basisT c1 = cn_basisT c + 1" "rp_t rp = cn_basisT c + 1"
      using a by (auto simp: transact_def Let_def res_simps)
    obtain rs c' where q: "transact_queue fuel pf get calls c1 = (rs, c')" by (cases "transact_queue fuel pf get calls c1")
    have "[cn_basisT c + 1..cn_basisT c'] = (cn_basisT c + 1) # [cn_basisT c + 1 + 1..cn_basisT c']"
      using Cons [of c1] q t by (subst upto_rec1) simp_all
    then show ?thesis using Cons [of c1] a q t by (simp add: x reported_ts_def)
  qed
qed (simp add: reported_ts_def)

text \<open>
  The transaction queue is serial. Each call gets one result, in order; a call that
  fails leaves the connection as it was; the successful ones take consecutive \<open>t\<close>s after the
  basis, and the final basis counts them.
\<close>

lemma queue_is_serial:
  "case transact_queue fuel pf get calls c of (rs, c') \<Rightarrow>
     length rs = length calls \<and> reported_ts rs = [cn_basisT c + 1..cn_basisT c'] \<and> cn_basisT c \<le> cn_basisT c'"
  by (rule transact_queue_serial)






section \<open>Indexing and runs\<close>

text \<open>A connection whose trees hold one datom and whose EAVT and AEVT buffers hold the next one.\<close>

definition sample_next :: datom where
  "sample_next = sample_datom\<lparr>d_t := 8\<rparr>"



lemma sample_next_storable [simp]: "datom_storable sample_next" "datom_ok sample_next"
  using sample_datom_storable by (auto simp: sample_next_def datom_storable_def datom_ok_def id_ok_def MAX_ID_def)

















end
