(* ===== verification/PolicyAst.thy ===== *)
theory PolicyAst
  imports JsMap JsValues SchemaModel
begin

text \<open>
  Compiled policies and principals (\<open>internal/core/policy/ast.ts\<close>, \<open>principal.ts\<close>): the
  syntax of rules, the parser that validates a policy, and the caller rules are evaluated
  for. Whatever the parser accepts is well-formed: references nest at most three deep and
  every class and rule that is named is declared.
\<close>

section \<open>The syntax of policies\<close>

definition POLICY_VERSION :: int where "POLICY_VERSION = 2"
definition POLICY_LEGACY_VERSION :: int where "POLICY_LEGACY_VERSION = 1"
definition MAX_REF_DEPTH :: nat where "MAX_REF_DEPTH = 3"

datatype policy_op = OpRead | OpAdd | OpRetract | OpRetractEntity | OpCreate

fun op_name :: "policy_op \<Rightarrow> jsstr" where
  "op_name OpRead = js ''read''"
| "op_name OpAdd = js ''add''"
| "op_name OpRetract = js ''retract''"
| "op_name OpRetractEntity = js ''retractEntity''"
| "op_name OpCreate = js ''create''"

definition POLICY_OPS :: "policy_op list" where
  "POLICY_OPS = [OpRead, OpAdd, OpRetract, OpRetractEntity, OpCreate]"

definition op_of_name :: "jsstr \<Rightarrow> policy_op option" where
  "op_of_name s = List.find (\<lambda>x. op_name x = s) POLICY_OPS"

datatype policy_operand =
    OperandPrincipal
  | OperandClaim "jsstr list"
  | OperandLit jsval

datatype policy_expr =
    XConst bool
  | XClass jsstr
  | XEq jsstr policy_operand
  | XRef jsstr policy_expr
  | XAnd "policy_expr list"
  | XOr "policy_expr list"
  | XNot policy_expr

datatype arm_tag = Allow | Deny

text \<open>
  A rule arm has the classes that gate it, if any, and the rule: \<open>None\<close> is \<open>true\<close>, the
  public rule.
\<close>

datatype policy_arm =
    ExprArm arm_tag policy_expr
  | RuleArm "jsstr list option" "jsstr option"

fun isRuleArm :: "policy_arm \<Rightarrow> bool" where
  "isRuleArm (ExprArm t x) = False"
| "isRuleArm (RuleArm c r) = True"

type_synonym policy_rules = "(policy_op, policy_arm list) jsmap"

record compiled_policy =
  po_version :: int
  po_principal :: jsstr
  po_classes :: "jsstr list"
  po_claims :: jsval
  po_attrs :: "(jsstr, policy_rules) jsmap"
  po_ns :: "(jsstr, policy_rules) jsmap option"
  po_preset :: "(jsstr, policy_operand) jsmap"
  po_rules :: "jsval list option"

text \<open>The position of the last slash, \<open>-1\<close> when there is none.\<close>

definition last_slash :: "jsstr \<Rightarrow> int" where
  "last_slash s =
     (if 0x2F \<in> set s then int (length s) - 1 - int (length (takeWhile (\<lambda>c. c \<noteq> 0x2F) (rev s))) else -1)"

definition nsPrefix :: "jsstr \<Rightarrow> jsstr option" where
  "nsPrefix ident =
     (let start = (if ident \<noteq> [] \<and> hd ident = 0x3A then 1 else 0); slash = last_slash ident
      in if slash > int start then Some (drop start (take (nat slash) ident)) else None)"

section \<open>Parsing\<close>

text \<open>
  \<open>obj\<close> returns the enumerable properties of an object that is no array: a date has none, a
  byte array has its elements. Every failure is a \<open>PolicyParseError\<close>; the path to the
  offending part that the message names is left out.
\<close>

definition fail :: "string \<Rightarrow> 'a res" where
  "fail msg = Inl (PolicyParseError msg)"

fun obj :: "jsval \<Rightarrow> (jsstr \<times> jsval) list res" where
  "obj (JObj o') = Inr o'"
| "obj (JDate d) = Inr []"
| "obj (JBytes b) = Inr (map (\<lambda>i. (nat_digits i, JNum (NInt (uint (b ! i))))) [0..<length b])"
| "obj _ = fail ''expected an object''"

fun attrIdent :: "jsval \<Rightarrow> jsstr res" where
  "attrIdent (JStr s) = (if s = [] \<or> hd s \<noteq> 0x3A then fail ''expected an attribute ident'' else Inr s)"
| "attrIdent _ = fail ''expected an attribute ident''"

fun js_string_of :: "jsval \<Rightarrow> jsstr option" where
  "js_string_of (JStr s) = Some s"
| "js_string_of _ = None"

text \<open>An array of strings, as three of the checks test it; the empty one fails.\<close>

definition string_array :: "string \<Rightarrow> jsval \<Rightarrow> jsstr list res" where
  "string_array msg v =
     (case v of
        JArr xs \<Rightarrow> if xs = [] \<or> (\<exists>x\<in>set xs. js_string_of x = None) then fail msg else Inr (map (the \<circ> js_string_of) xs)
      | _ \<Rightarrow> fail msg)"

definition parseOperand :: "jsval \<Rightarrow> policy_operand res" where
  "parseOperand x =
     rbind (obj x) (\<lambda>o'.
       let tag = j_get o' ''_tag''
       in if tag = JStr (js ''principal'') then Inr OperandPrincipal
          else if tag = JStr (js ''claim'') then
            rmap OperandClaim (string_array ''expected a non-empty array of strings'' (j_get o' ''path''))
          else if tag = JStr (js ''lit'') then
            (if j_has o' ''value'' then Inr (OperandLit (j_get o' ''value'')) else fail ''lit operand needs a value'')
          else fail ''unknown operand _tag'')"

lemma map_of_size: "map_of o' k = Some v \<Longrightarrow> size v \<le> size_list (size_prod (\<lambda>_. 0) size) o'"
  by (induction o') (auto split: if_splits)

lemma j_get_size: "size (j_get o' k) < size (JObj o')"
  using map_of_size [of o' "js k"] by (auto simp: j_get_def less_Suc_eq_le split: option.splits)

text \<open>
  \<open>parseExpr\<close>. Only a plain object can have a tag; what else \<open>obj\<close> accepts fails at the
  switch.
\<close>

function (sequential) parseExpr :: "jsstr list \<Rightarrow> nat \<Rightarrow> jsval \<Rightarrow> policy_expr res" where
  "parseExpr classes refDepth (JObj o') =
     (let tag = j_get o' ''_tag''
      in if tag = JStr (js ''const'') then
           (case j_get o' ''value'' of JBool b \<Rightarrow> Inr (XConst b) | _ \<Rightarrow> fail ''expected a boolean'')
         else if tag = JStr (js ''class'') then
           (case j_get o' ''class'' of
              JStr c \<Rightarrow> if c \<in> set classes then Inr (XClass c) else fail ''not a declared class''
            | _ \<Rightarrow> fail ''expected a string'')
         else if tag = JStr (js ''eq'') then
           rbind (attrIdent (j_get o' ''attr'')) (\<lambda>a. rmap (XEq a) (parseOperand (j_get o' ''operand'')))
         else if tag = JStr (js ''ref'') then
           (if refDepth + 1 > MAX_REF_DEPTH then fail ''ref nesting exceeds depth''
            else rbind (attrIdent (j_get o' ''attr'')) (\<lambda>a.
              rmap (XRef a) (parseExpr classes (refDepth + 1) (j_get o' ''target''))))
         else if tag = JStr (js ''and'') \<or> tag = JStr (js ''or'') then
           (case j_get o' ''exprs'' of
              JArr xs \<Rightarrow>
                if xs = [] then fail ''expected a non-empty array''
                else rmap (if tag = JStr (js ''and'') then XAnd else XOr) (rmaplist (\<lambda>x. parseExpr classes refDepth x) xs)
            | _ \<Rightarrow> fail ''expected a non-empty array'')
         else if tag = JStr (js ''not'') then rmap XNot (parseExpr classes refDepth (j_get o' ''expr''))
         else fail ''unknown expr _tag'')"
| "parseExpr classes refDepth x = rbind (obj x) (\<lambda>_. fail ''unknown expr _tag'')"
  by pat_completeness auto

termination
proof (relation "measure (\<lambda>(cs, n, x). size x)")
  fix classes refDepth o' xs x tag
  assume "j_get o' ''exprs'' = JArr xs" "x \<in> set xs"
  then have "size x < size (JArr xs)" "size (JArr xs) < size (JObj o')"
    using j_get_size [of o' "''exprs''"] by (auto simp: less_Suc_eq_le intro: size_list_estimation')
  then show "((classes, refDepth, x), classes, refDepth, JObj o') \<in> measure (\<lambda>(cs :: jsstr list, n :: nat, x). size x)" by simp
qed (use j_get_size in \<open>simp_all del: jsval.size\<close>)

definition parseExprArm :: "jsstr list \<Rightarrow> jsval \<Rightarrow> policy_arm res" where
  "parseExprArm classes x =
     rbind (obj x) (\<lambda>o'.
       let tag = j_get o' ''_tag''
       in if tag = JStr (js ''allow'') then rmap (ExprArm Allow) (parseExpr classes 0 (j_get o' ''expr''))
          else if tag = JStr (js ''deny'') then rmap (ExprArm Deny) (parseExpr classes 0 (j_get o' ''expr''))
          else fail ''expected allow or deny'')"

definition rule_of_arm :: "jsstr list \<Rightarrow> jsval \<Rightarrow> jsstr option res" where
  "rule_of_arm ruleNames r =
     (case r of
        JBool b \<Rightarrow> if b then Inr None else fail ''expected true or a rule name''
      | JStr s \<Rightarrow>
          if s = [] then fail ''rule name must not be empty''
          else if s \<notin> set ruleNames then fail ''not in rules''
          else Inr (Some s)
      | _ \<Rightarrow> fail ''expected true or a rule name'')"

definition gate_of_arm :: "jsstr list \<Rightarrow> jsval \<Rightarrow> jsstr list option res" where
  "gate_of_arm classes c =
     (if c = JUndefined then Inr None
      else rbind (string_array ''expected a non-empty array of class names'' c) (\<lambda>gate.
        if \<forall>x\<in>set gate. x \<in> set classes then Inr (Some gate) else fail ''not a declared class''))"

definition parseRuleArm :: "jsstr list \<Rightarrow> jsstr list \<Rightarrow> jsval \<Rightarrow> policy_arm res" where
  "parseRuleArm classes ruleNames x =
     rbind (obj x) (\<lambda>o'.
       if j_get o' ''_tag'' \<noteq> JStr (js ''allow'') then fail ''expected allow''
       else rbind (rule_of_arm ruleNames (j_get o' ''rule'')) (\<lambda>r.
         rmap (\<lambda>gate. RuleArm gate r) (gate_of_arm classes (j_get o' ''class''))))"

definition parse_op_arms :: "jsstr list \<Rightarrow> int \<Rightarrow> jsstr list \<Rightarrow> jsstr \<times> jsval \<Rightarrow> policy_rules \<Rightarrow> policy_rules res" where
  "parse_op_arms classes version ruleNames entry out =
     (case entry of (k, arms) \<Rightarrow>
        (case op_of_name k of
           None \<Rightarrow> fail ''unknown op''
         | Some x \<Rightarrow>
             (case arms of
                JArr xs \<Rightarrow>
                  rmap (\<lambda>as. jm_set x as out)
                    (rmaplist (if version = 1 then parseExprArm classes else parseRuleArm classes ruleNames) xs)
              | _ \<Rightarrow> fail ''expected an array of arms'')))"

definition parseRules :: "jsstr list \<Rightarrow> int \<Rightarrow> jsstr list \<Rightarrow> jsval \<Rightarrow> policy_rules res" where
  "parseRules classes version ruleNames x =
     rbind (obj x) (\<lambda>o'. rfold (parse_op_arms classes version ruleNames) o' [])"

text \<open>The name at the head of a definition \<open>[[name, ?arg ..], clause ..]\<close>.\<close>

definition rule_name :: "jsval \<Rightarrow> jsstr res" where
  "rule_name def =
     (case def of
        JArr (JArr head # _) \<Rightarrow>
          (case head of
             JStr s # _ \<Rightarrow> if s = [] then fail ''expected a rule name'' else Inr s
           | _ \<Rightarrow> fail ''expected a rule name'')
      | _ \<Rightarrow> fail ''expected a rule definition'')"

definition parseRuleNames :: "jsval list \<Rightarrow> jsstr list res" where
  "parseRuleNames rules = rmap remdups (rmaplist rule_name rules)"

definition parse_rules_field :: "int \<Rightarrow> jsval \<Rightarrow> (jsval list option \<times> jsstr list) res" where
  "parse_rules_field version r =
     (if r = JUndefined then Inr (None, [])
      else if version = 1 then fail ''rules are a version-2 field''
      else case r of
        JArr defs \<Rightarrow> rmap (\<lambda>names. (Some defs, names)) (parseRuleNames defs)
      | _ \<Rightarrow> fail ''expected an array of rule definitions'')"

definition nullish :: "jsval \<Rightarrow> bool" where
  "nullish v \<longleftrightarrow> v = JUndefined \<or> v = JNull"

definition parse_attr_entry ::
  "jsstr list \<Rightarrow> int \<Rightarrow> jsstr list \<Rightarrow> jsstr \<times> jsval \<Rightarrow> (jsstr, policy_rules) jsmap \<Rightarrow> (jsstr, policy_rules) jsmap res" where
  "parse_attr_entry classes version ruleNames entry out =
     (case entry of (ident, rules) \<Rightarrow>
        rbind (attrIdent (JStr ident)) (\<lambda>k. rmap (\<lambda>r. jm_set k r out) (parseRules classes version ruleNames rules)))"

definition parse_ns_entry ::
  "jsstr list \<Rightarrow> int \<Rightarrow> jsstr list \<Rightarrow> jsstr \<times> jsval \<Rightarrow> (jsstr, policy_rules) jsmap \<Rightarrow> (jsstr, policy_rules) jsmap res" where
  "parse_ns_entry classes version ruleNames entry out =
     (case entry of (prefix, rules) \<Rightarrow>
        if prefix = [] \<or> 0x3A \<in> set prefix \<or> 0x2F \<in> set prefix then fail ''expected a bare namespace prefix''
        else rmap (\<lambda>r. jm_set prefix r out) (parseRules classes version ruleNames rules))"

definition parse_preset_entry :: "jsstr \<times> jsval \<Rightarrow> (jsstr, policy_operand) jsmap \<Rightarrow> (jsstr, policy_operand) jsmap res" where
  "parse_preset_entry entry out =
     (case entry of (ident, v) \<Rightarrow>
        rbind (attrIdent (JStr ident)) (\<lambda>_.
          rmap (\<lambda>x. jm_set ident x out)
            (parseOperand (case v of JArr p \<Rightarrow> JObj [(js ''_tag'', JStr (js ''claim'')), (js ''path'', JArr p)] | _ \<Rightarrow> v))))"

definition field_or_empty :: "(jsstr \<times> jsval) list \<Rightarrow> string \<Rightarrow> jsval" where
  "field_or_empty o' k = (if nullish (j_get o' k) then JObj [] else j_get o' k)"

definition parse_ns_field :: "jsstr list \<Rightarrow> int \<Rightarrow> jsstr list \<Rightarrow> jsval \<Rightarrow> (jsstr, policy_rules) jsmap option res" where
  "parse_ns_field classes version ruleNames v =
     (if nullish v then Inr None
      else rmap Some (rbind (obj v) (\<lambda>entries. rfold (parse_ns_entry classes version ruleNames) entries [])))"

definition parse_policy_body :: "int \<Rightarrow> (jsstr \<times> jsval) list \<Rightarrow> compiled_policy res" where
  "parse_policy_body version o' =
     rbind (attrIdent (j_get o' ''principal'')) (\<lambda>principal.
     rbind (string_array ''expected a non-empty array of strings'' (j_get o' ''classes'')) (\<lambda>classes.
       if \<not> distinct classes then fail ''duplicate class''
       else
         rbind (parse_rules_field version (j_get o' ''rules'')) (\<lambda>(defs, names).
         rbind (obj (field_or_empty o' ''attrs'')) (\<lambda>attrsIn.
         rbind (rfold (parse_attr_entry classes version names) attrsIn []) (\<lambda>attrs.
         rbind (parse_ns_field classes version names (j_get o' ''ns'')) (\<lambda>ns.
         rbind (obj (field_or_empty o' ''preset'')) (\<lambda>presetIn.
         rmap (\<lambda>preset. \<lparr>po_version = version, po_principal = principal, po_classes = classes,
                po_claims = j_get o' ''claims'', po_attrs = attrs, po_ns = ns, po_preset = preset,
                po_rules = defs\<rparr>)
           (rfold parse_preset_entry presetIn []))))))))"

definition parsePolicy :: "jsval \<Rightarrow> compiled_policy res" where
  "parsePolicy json =
     rbind (obj json) (\<lambda>o'.
       if j_get o' ''version'' = JNum (NInt POLICY_VERSION) then parse_policy_body POLICY_VERSION o'
       else if j_get o' ''version'' = JNum (NInt POLICY_LEGACY_VERSION) then parse_policy_body POLICY_LEGACY_VERSION o'
       else fail ''bad version'')"

section \<open>Principals\<close>

datatype principal_kind = KService | KUser | KAnonymous

text \<open>The claims are the object of the token: \<open>sub\<close>, \<open>iss\<close>, \<open>aud\<close>, \<open>exp\<close> and \<open>attrs\<close>.\<close>

record principal =
  pr_kind :: principal_kind
  pr_class :: jsstr
  pr_sub :: "jsstr option"
  pr_eid :: "int option"
  pr_claims :: "(jsstr \<times> jsval) list"
  pr_db :: jsstr

definition isAdmin :: "principal \<Rightarrow> bool" where
  "isAdmin p \<longleftrightarrow> pr_class p = js ''admin''"

definition allows :: "principal \<Rightarrow> jsstr \<Rightarrow> bool" where
  "allows p dbName \<longleftrightarrow> pr_db p = dbName"

text \<open>
  \<open>cur[k]\<close> on a value that is an object. Members that an object inherits are functions, not
  data, and are not among the values here.
\<close>

fun js_index :: "jsval \<Rightarrow> jsstr \<Rightarrow> jsval option" where
  "js_index (JObj o') k = Some (case map_of o' k of Some v \<Rightarrow> v | None \<Rightarrow> JUndefined)"
| "js_index (JArr xs) k =
     Some (if k = js ''length'' then JNum (NInt (int (length xs)))
           else case List.find (\<lambda>i. nat_digits i = k) [0..<length xs] of Some i \<Rightarrow> xs ! i | None \<Rightarrow> JUndefined)"
| "js_index (JBytes b) k =
     Some (if k = js ''length'' then JNum (NInt (int (length b)))
           else case List.find (\<lambda>i. nat_digits i = k) [0..<length b] of
             Some i \<Rightarrow> JNum (NInt (uint (b ! i))) | None \<Rightarrow> JUndefined)"
| "js_index (JDate d) k = Some JUndefined"
| "js_index _ k = None"

fun claim_walk :: "jsval \<Rightarrow> jsstr list \<Rightarrow> jsval" where
  "claim_walk cur [] = cur"
| "claim_walk cur (k # ks) = (case js_index cur k of None \<Rightarrow> JUndefined | Some v \<Rightarrow> claim_walk v ks)"

definition claimValue :: "principal \<Rightarrow> jsstr list \<Rightarrow> jsval" where
  "claimValue p path = claim_walk (JObj (pr_claims p)) path"

definition anonymousPrincipal :: "jsstr \<Rightarrow> jsstr \<Rightarrow> principal" where
  "anonymousPrincipal db cls =
     \<lparr>pr_kind = KAnonymous, pr_class = cls, pr_sub = None, pr_eid = None, pr_claims = [], pr_db = db\<rparr>"

section \<open>What the parser guarantees\<close>

fun ref_depth :: "policy_expr \<Rightarrow> nat" where
  "ref_depth (XRef a x) = Suc (ref_depth x)"
| "ref_depth (XAnd xs) = Max (set (0 # map ref_depth xs))"
| "ref_depth (XOr xs) = Max (set (0 # map ref_depth xs))"
| "ref_depth (XNot x) = ref_depth x"
| "ref_depth _ = 0"

definition ident_ok :: "jsstr \<Rightarrow> bool" where
  "ident_ok s \<longleftrightarrow> s \<noteq> [] \<and> hd s = 0x3A"

fun operand_ok :: "policy_operand \<Rightarrow> bool" where
  "operand_ok (OperandClaim p) = (p \<noteq> [])"
| "operand_ok _ = True"

fun expr_ok :: "jsstr list \<Rightarrow> policy_expr \<Rightarrow> bool" where
  "expr_ok cs (XConst b) = True"
| "expr_ok cs (XClass c) = (c \<in> set cs)"
| "expr_ok cs (XEq a x) = (ident_ok a \<and> operand_ok x)"
| "expr_ok cs (XRef a x) = (ident_ok a \<and> expr_ok cs x)"
| "expr_ok cs (XAnd xs) = (xs \<noteq> [] \<and> list_all (expr_ok cs) xs)"
| "expr_ok cs (XOr xs) = (xs \<noteq> [] \<and> list_all (expr_ok cs) xs)"
| "expr_ok cs (XNot x) = expr_ok cs x"

text \<open>Version 1 has expression arms only, version 2 rule arms only.\<close>

fun arm_ok :: "int \<Rightarrow> jsstr list \<Rightarrow> jsstr list \<Rightarrow> policy_arm \<Rightarrow> bool" where
  "arm_ok ver cs names (ExprArm t x) = (ver = POLICY_LEGACY_VERSION \<and> expr_ok cs x \<and> ref_depth x \<le> MAX_REF_DEPTH)"
| "arm_ok ver cs names (RuleArm g r) =
     (ver = POLICY_VERSION \<and> (\<forall>c\<in>set (case g of Some gs \<Rightarrow> gs | None \<Rightarrow> []). c \<in> set cs) \<and> g \<noteq> Some [] \<and>
      (case r of Some s \<Rightarrow> s \<in> set names | None \<Rightarrow> True))"

definition rules_ok :: "int \<Rightarrow> jsstr list \<Rightarrow> jsstr list \<Rightarrow> policy_rules \<Rightarrow> bool" where
  "rules_ok ver cs names r \<longleftrightarrow> jm_ok r \<and> (\<forall>(x, arms)\<in>set r. \<forall>a\<in>set arms. arm_ok ver cs names a)"

definition rule_names :: "compiled_policy \<Rightarrow> jsstr list" where
  "rule_names p = (case po_rules p of Some defs \<Rightarrow> (case parseRuleNames defs of Inr ns \<Rightarrow> ns | Inl _ \<Rightarrow> []) | None \<Rightarrow> [])"

definition policy_ok :: "compiled_policy \<Rightarrow> bool" where
  "policy_ok p \<longleftrightarrow>
     po_version p \<in> {POLICY_LEGACY_VERSION, POLICY_VERSION} \<and> ident_ok (po_principal p) \<and>
     po_classes p \<noteq> [] \<and> distinct (po_classes p) \<and>
     (po_version p = POLICY_LEGACY_VERSION \<longrightarrow> po_rules p = None) \<and>
     jm_ok (po_attrs p) \<and>
     (\<forall>(a, r)\<in>set (po_attrs p). ident_ok a \<and> rules_ok (po_version p) (po_classes p) (rule_names p) r) \<and>
     (\<forall>(a, r)\<in>set (case po_ns p of Some m \<Rightarrow> m | None \<Rightarrow> []).
        a \<noteq> [] \<and> 0x3A \<notin> set a \<and> 0x2F \<notin> set a \<and> rules_ok (po_version p) (po_classes p) (rule_names p) r) \<and>
     jm_ok (po_preset p) \<and> (\<forall>(a, x)\<in>set (po_preset p). ident_ok a \<and> operand_ok x)"

lemma rmap_fail [simp]: "rmap f (fail m) = fail m"
  by (simp add: fail_def)

lemma fail_neq_Inr [simp]: "fail m \<noteq> Inr x" "Inr x \<noteq> fail m"
  by (simp_all add: fail_def)

lemma attrIdent_ok: "attrIdent x = Inr s \<Longrightarrow> x = JStr s \<and> ident_ok s"
  by (cases x) (auto simp: ident_ok_def split: if_splits)

lemma string_array_ok: "string_array m v = Inr ss \<Longrightarrow> ss \<noteq> []"
  by (auto simp: string_array_def split: jsval.splits if_splits)

lemma parseOperand_ok: "parseOperand x = Inr y \<Longrightarrow> operand_ok y"
  by (auto simp: parseOperand_def Let_def res_simps dest: string_array_ok split: if_splits)

lemma rmaplist_all:
  assumes "rmaplist f xs = Inr ys" "\<And>x y. x \<in> set xs \<Longrightarrow> f x = Inr y \<Longrightarrow> P y"
  shows "\<forall>y\<in>set ys. P y"
  using assms
proof (induction xs arbitrary: ys)
  case (Cons x xs)
  then obtain y ys' where "f x = Inr y" "rmaplist f xs = Inr ys'" "ys = y # ys'" by (auto simp: res_simps)
  with Cons show ?case by (metis list.set_intros set_ConsD)
qed simp

definition expr_at :: "jsstr list \<Rightarrow> nat \<Rightarrow> policy_expr \<Rightarrow> bool" where
  "expr_at cs n x \<longleftrightarrow> expr_ok cs x \<and> n + ref_depth x \<le> MAX_REF_DEPTH"

lemma expr_at_list:
  assumes "xs \<noteq> []" "\<forall>x\<in>set xs. expr_at cs n x"
  shows "expr_at cs n (XAnd xs) \<and> expr_at cs n (XOr xs)"
proof -
  obtain x0 where "x0 \<in> set xs" using assms(1) by (cases xs) auto
  with assms(2) have n: "n \<le> MAX_REF_DEPTH" by (auto simp: expr_at_def)
  have "Max (set (0 # map ref_depth xs)) \<le> MAX_REF_DEPTH - n"
    using assms(2) by (intro Max.boundedI) (auto simp: expr_at_def)
  with n have "n + Max (set (0 # map ref_depth xs)) \<le> MAX_REF_DEPTH" by linarith
  moreover have "list_all (expr_ok cs) xs" using assms(2) by (simp add: expr_at_def list_all_iff)
  ultimately show ?thesis unfolding expr_at_def ref_depth.simps expr_ok.simps using assms(1) by blast
qed

lemma parseExpr_ok: "n \<le> MAX_REF_DEPTH \<Longrightarrow> parseExpr cs n v = Inr x \<Longrightarrow> expr_at cs n x"
proof (induction cs n v arbitrary: x rule: parseExpr.induct)
  case (1 cs n o')
  let ?tag = "j_get o' ''_tag''"
  consider (const) "?tag = JStr (js ''const'')" | (cls) "?tag = JStr (js ''class'')" | (eq) "?tag = JStr (js ''eq'')"
    | (ref) "?tag = JStr (js ''ref'')" | (andor) "?tag = JStr (js ''and'') \<or> ?tag = JStr (js ''or'')"
    | (not) "?tag = JStr (js ''not'')"
    using "1.prems"(2) by (auto simp: Let_def split: if_splits)
  then show ?case
  proof cases
    case ref
    then have ne: "?tag \<noteq> JStr (js ''const'')" "?tag \<noteq> JStr (js ''class'')" "?tag \<noteq> JStr (js ''eq'')" by (simp_all add: js_def)
    obtain a y where y: "\<not> n + 1 > MAX_REF_DEPTH" "attrIdent (j_get o' ''attr'') = Inr a"
      "parseExpr cs (n + 1) (j_get o' ''target'') = Inr y" "x = XRef a y"
      using "1.prems"(2) ref ne by (auto simp: Let_def res_simps split: if_splits)
    have "expr_at cs (n + 1) y"
      by (rule "1.IH"(1) [OF refl ne(1,2,3) ref y(1,2) _ y(3)]) (use y(1) in simp)
    with y attrIdent_ok [OF y(2)] show ?thesis by (simp add: expr_at_def)
  next
    case andor
    then have ne: "?tag \<noteq> JStr (js ''const'')" "?tag \<noteq> JStr (js ''class'')" "?tag \<noteq> JStr (js ''eq'')" "?tag \<noteq> JStr (js ''ref'')"
      by (auto simp: js_def)
    obtain xs ys where y: "j_get o' ''exprs'' = JArr xs" "xs \<noteq> []" "rmaplist (\<lambda>x. parseExpr cs n x) xs = Inr ys" "x = XAnd ys \<or> x = XOr ys"
      using "1.prems"(2) andor ne by (auto simp: Let_def res_simps split: if_splits jsval.splits)
    have "\<forall>z\<in>set ys. expr_at cs n z"
      by (rule rmaplist_all [OF y(3)]) (rule "1.IH"(2) [OF refl ne andor y(1,2) _ "1.prems"(1)])
    moreover have "ys \<noteq> []" using rmaplist_length [OF y(3)] y(2) by auto
    ultimately show ?thesis using expr_at_list y(4) by blast
  next
    case not
    then have ne: "?tag \<noteq> JStr (js ''const'')" "?tag \<noteq> JStr (js ''class'')" "?tag \<noteq> JStr (js ''eq'')" "?tag \<noteq> JStr (js ''ref'')"
      "\<not> (?tag = JStr (js ''and'') \<or> ?tag = JStr (js ''or''))"
      by (simp_all add: js_def)
    obtain y where y: "parseExpr cs n (j_get o' ''expr'') = Inr y" "x = XNot y"
      using "1.prems"(2) not ne by (auto simp: Let_def res_simps)
    have "expr_at cs n y" by (rule "1.IH"(3) [OF refl ne not "1.prems"(1) y(1)])
    with y show ?thesis by (simp add: expr_at_def)
  qed (use "1.prems" in \<open>auto simp: Let_def js_def expr_at_def res_simps dest: attrIdent_ok parseOperand_ok split: if_splits jsval.splits\<close>)
qed (simp_all add: res_simps)

lemma parseExprArm_ok: "parseExprArm cs x = Inr a \<Longrightarrow> arm_ok POLICY_LEGACY_VERSION cs names a"
  using parseExpr_ok [of 0 cs] by (auto simp: parseExprArm_def Let_def res_simps expr_at_def split: if_splits)

lemma rule_of_arm_ok: "rule_of_arm names r = Inr (Some s) \<Longrightarrow> s \<in> set names"
  by (auto simp: rule_of_arm_def split: jsval.splits if_splits)

lemma gate_of_arm_ok: "gate_of_arm cs c = Inr g \<Longrightarrow> g \<noteq> Some [] \<and> (\<forall>x\<in>set (case g of Some gs \<Rightarrow> gs | None \<Rightarrow> []). x \<in> set cs)"
  by (auto simp: gate_of_arm_def res_simps dest: string_array_ok split: if_splits)

lemma parseRuleArm_ok: "parseRuleArm cs names x = Inr a \<Longrightarrow> arm_ok POLICY_VERSION cs names a"
  using rule_of_arm_ok gate_of_arm_ok
  by (auto simp: parseRuleArm_def res_simps split: if_splits option.splits)

lemma set_jm_set: "set (jm_set k v m) \<subseteq> insert (k, v) (set m)"
  by (induction k v m rule: jm_set.induct) auto

lemma jm_all_set: "\<forall>(k, v)\<in>set m. P k v \<Longrightarrow> P k v \<Longrightarrow> \<forall>(k, v)\<in>set (jm_set k v m). P k v"
  using set_jm_set [of k v m] by blast

lemma rules_ok_set:
  assumes "rules_ok ver cs names r" "\<forall>a\<in>set arms. arm_ok ver cs names a"
  shows "rules_ok ver cs names (jm_set x arms r)"
  using assms unfolding rules_ok_def by (intro conjI jm_all_set) auto

lemma versions_differ: "POLICY_LEGACY_VERSION = 1" "POLICY_VERSION \<noteq> 1"
  by (simp_all add: POLICY_LEGACY_VERSION_def POLICY_VERSION_def)

lemma parse_op_arms_ok:
  assumes "parse_op_arms cs ver names kv out = Inr out'" "rules_ok ver cs names out" "ver \<in> {POLICY_LEGACY_VERSION, POLICY_VERSION}"
  shows "rules_ok ver cs names out'"
proof -
  let ?f = "if ver = 1 then parseExprArm cs else parseRuleArm cs names"
  obtain x xs arms where a: "rmaplist ?f xs = Inr arms" "out' = jm_set x arms out"
    using assms(1) by (auto simp: parse_op_arms_def res_simps split: prod.splits option.splits jsval.splits)
  have f: "?f y = Inr b \<Longrightarrow> arm_ok ver cs names b" for y b
    using parseExprArm_ok [of cs y b names] parseRuleArm_ok [of cs names y b] assms(3) versions_differ by (auto split: if_splits)
  have "\<forall>b\<in>set arms. arm_ok ver cs names b" by (rule rmaplist_all [OF a(1)]) (rule f)
  with a(2) assms(2) show ?thesis by (simp add: rules_ok_set)
qed

lemma parseRules_ok:
  assumes "parseRules cs ver names x = Inr r" "ver \<in> {POLICY_LEGACY_VERSION, POLICY_VERSION}"
  shows "rules_ok ver cs names r"
proof -
  obtain o' where o': "rfold (parse_op_arms cs ver names) o' [] = Inr r" using assms(1) by (auto simp: parseRules_def res_simps)
  show ?thesis
    by (rule rfold_inv [where P = "rules_ok ver cs names", OF o']) (use parse_op_arms_ok assms(2) in \<open>auto simp: rules_ok_def\<close>)
qed

text \<open>A table of rules, whose keys satisfy \<open>K\<close>, filled entry by entry.\<close>

definition table_ok :: "(jsstr \<Rightarrow> bool) \<Rightarrow> int \<Rightarrow> jsstr list \<Rightarrow> jsstr list \<Rightarrow> (jsstr, policy_rules) jsmap \<Rightarrow> bool" where
  "table_ok K ver cs names m \<longleftrightarrow> jm_ok m \<and> (\<forall>(a, r)\<in>set m. K a \<and> rules_ok ver cs names r)"

lemma table_ok_set:
  "table_ok K ver cs names m \<Longrightarrow> K a \<Longrightarrow> rules_ok ver cs names r \<Longrightarrow> table_ok K ver cs names (jm_set a r m)"
  unfolding table_ok_def by (intro conjI jm_all_set) auto

lemma parse_attr_entry_ok:
  assumes "parse_attr_entry cs ver names kv m = Inr m'" "ver \<in> {POLICY_LEGACY_VERSION, POLICY_VERSION}" "table_ok ident_ok ver cs names m"
  shows "table_ok ident_ok ver cs names m'"
proof -
  obtain k rules r where "attrIdent (JStr k) = Inr k" "parseRules cs ver names rules = Inr r" "m' = jm_set k r m"
    using assms(1) by (auto simp: parse_attr_entry_def res_simps split: prod.splits if_splits)
  then show ?thesis
    using table_ok_set [OF assms(3)] parseRules_ok [OF _ assms(2)] attrIdent_ok by blast
qed

definition ns_ok :: "jsstr \<Rightarrow> bool" where
  "ns_ok a \<longleftrightarrow> a \<noteq> [] \<and> 0x3A \<notin> set a \<and> 0x2F \<notin> set a"

lemma parse_ns_entry_ok:
  assumes "parse_ns_entry cs ver names kv m = Inr m'" "ver \<in> {POLICY_LEGACY_VERSION, POLICY_VERSION}" "table_ok ns_ok ver cs names m"
  shows "table_ok ns_ok ver cs names m'"
  using assms(1,3) parseRules_ok [OF _ assms(2), of cs names]
  by (auto simp: parse_ns_entry_def res_simps table_ok_set ns_ok_def split: prod.splits if_splits)

definition presets_ok :: "(jsstr, policy_operand) jsmap \<Rightarrow> bool" where
  "presets_ok m \<longleftrightarrow> jm_ok m \<and> (\<forall>(a, x)\<in>set m. ident_ok a \<and> operand_ok x)"

lemma parse_preset_entry_ok: "parse_preset_entry kv m = Inr m' \<Longrightarrow> presets_ok m \<Longrightarrow> presets_ok m'"
proof -
  assume "parse_preset_entry kv m = Inr m'" and m: "presets_ok m"
  then obtain k v x where k: "attrIdent (JStr k) = Inr k" "parseOperand v = Inr x" "m' = jm_set k x m"
    by (auto simp: parse_preset_entry_def res_simps split: prod.splits if_splits)
  show "presets_ok m'"
    using m attrIdent_ok [OF k(1)] parseOperand_ok [OF k(2)] unfolding presets_ok_def k(3)
    by (intro conjI jm_all_set) auto
qed

lemma table_fold_ok:
  assumes "rfold f kvs [] = Inr m" "\<And>kv m m'. f kv m = Inr m' \<Longrightarrow> table_ok K ver cs names m \<Longrightarrow> table_ok K ver cs names m'"
  shows "table_ok K ver cs names m"
  by (rule rfold_inv [OF assms(1)]) (use assms(2) in \<open>auto simp: table_ok_def [of _ _ _ _ "[]"]\<close>)

lemma parse_rules_field_ok:
  "parse_rules_field ver r = Inr (defs, names) \<Longrightarrow>
    (ver = 1 \<longrightarrow> defs = None) \<and> names = (case defs of Some ds \<Rightarrow> (case parseRuleNames ds of Inr ns \<Rightarrow> ns | Inl _ \<Rightarrow> []) | None \<Rightarrow> [])"
  by (auto simp: parse_rules_field_def res_simps split: if_splits jsval.splits)

lemma parse_ns_field_ok:
  assumes "parse_ns_field cs ver names v = Inr ns" "ver \<in> {POLICY_LEGACY_VERSION, POLICY_VERSION}"
  shows "table_ok ns_ok ver cs names (case ns of Some m \<Rightarrow> m | None \<Rightarrow> [])"
proof (cases "nullish v")
  case False
  with assms(1) obtain nsIn m where m: "rfold (parse_ns_entry cs ver names) nsIn [] = Inr m" "ns = Some m"
    by (auto simp: parse_ns_field_def res_simps)
  have "table_ok ns_ok ver cs names m" by (rule table_fold_ok [OF m(1)]) (rule parse_ns_entry_ok [OF _ assms(2)])
  with m show ?thesis by simp
qed (use assms(1) in \<open>auto simp: parse_ns_field_def table_ok_def\<close>)

lemma parse_policy_body_ok:
  assumes "parse_policy_body ver o' = Inr p" and ver: "ver \<in> {POLICY_LEGACY_VERSION, POLICY_VERSION}"
  shows "policy_ok p"
proof -
  obtain principal classes defs names attrsIn attrs ns presetIn preset where
    pr: "attrIdent (j_get o' ''principal'') = Inr principal"
    and cl: "string_array ''expected a non-empty array of strings'' (j_get o' ''classes'') = Inr classes" "distinct classes"
    and rf: "parse_rules_field ver (j_get o' ''rules'') = Inr (defs, names)"
    and at: "rfold (parse_attr_entry classes ver names) attrsIn [] = Inr attrs"
    and ns: "parse_ns_field classes ver names (j_get o' ''ns'') = Inr ns"
    and pre: "rfold parse_preset_entry presetIn [] = Inr preset"
    and p: "p = \<lparr>po_version = ver, po_principal = principal, po_classes = classes, po_claims = j_get o' ''claims'',
       po_attrs = attrs, po_ns = ns, po_preset = preset, po_rules = defs\<rparr>"
    using assms unfolding parse_policy_body_def by (auto simp: res_simps split: if_splits)
  have "table_ok ident_ok ver classes names attrs"
    by (rule table_fold_ok [OF at]) (rule parse_attr_entry_ok [OF _ ver])
  moreover have "presets_ok preset"
    by (rule rfold_inv [OF pre]) (use parse_preset_entry_ok in \<open>auto simp: presets_ok_def [of "[]"]\<close>)
  moreover have "names = rule_names p" "ver = 1 \<longrightarrow> defs = None"
    using parse_rules_field_ok [OF rf] p by (auto simp: rule_names_def)
  ultimately show ?thesis
    using ver parse_ns_field_ok [OF ns ver] string_array_ok [OF cl(1)] cl(2) attrIdent_ok [OF pr] versions_differ
    by (simp add: p policy_ok_def table_ok_def presets_ok_def ns_ok_def)
qed

lemma parsePolicy_policy_ok: "parsePolicy json = Inr p \<Longrightarrow> policy_ok p"
  using parse_policy_body_ok by (auto simp: parsePolicy_def res_simps split: if_splits)

end
