(* ===== verification/PolicyEval.thy ===== *)
theory PolicyEval
  imports PolicyAst TxModel
begin

text \<open>
  Rule evaluation (\<open>internal/core/policy/eval.ts\<close>): expression arms read the current facts,
  fragment arms ask the query engine, and both are cached in the memo of a request. The
  evaluation decides by the facts alone, whatever the memo holds already: a deny arm wins,
  an attribute rule only narrows its namespace rule, and what no rule names is denied.
\<close>

definition isSystemAttrId :: "int \<Rightarrow> bool" where
  "isSystemAttrId a \<longleftrightarrow> a < FIRST_USER_EID"

section \<open>The overlay of references a transaction asserts\<close>

text \<open>
  References by entity and attribute (the code joins the two numbers with a bar). The view
  that rules read is a plain database value or one that also shows these references.
\<close>

type_synonym ref_overlay = "(int \<times> int, int list) jsmap"

datatype rule_db = PlainDb db | OverlayDb db "datom list"

definition overlayDatoms :: "ref_overlay \<Rightarrow> int \<Rightarrow> datom list" where
  "overlayDatoms overlay t =
     concat (map (\<lambda>((e, a), targets). map (\<lambda>v. \<lparr>d_e = e, d_a = a, d_v = VRef v, d_t = t, d_op = True\<rparr>) targets) overlay)"

definition matchOverlay :: "datom list \<Rightarrow> index \<Rightarrow> prefix \<Rightarrow> datom list" where
  "matchOverlay extras i p =
     (let matched = filter (\<lambda>d. comparePrefix i d p = 0) extras
      in if length matched > 1 then js_sort (comparatorFor i) matched else matched)"

definition withRefOverlay :: "db \<Rightarrow> ref_overlay \<Rightarrow> rule_db" where
  "withRefOverlay d overlay = (if overlay = [] then PlainDb d else OverlayDb d (overlayDatoms overlay (db_basisT d)))"

text \<open>One chunk of the source, with the overlay datoms that sort before its last datom.\<close>

fun union_chunk :: "(datom \<Rightarrow> datom \<Rightarrow> int) \<Rightarrow> datom list \<Rightarrow> datom list \<Rightarrow> datom list \<times> datom list" where
  "union_chunk cmp [] arr = (arr, [])"
| "union_chunk cmp (x # extra) [] = ([], x # extra)"
| "union_chunk cmp (x # extra) (y # arr) =
     (if cmp x y \<le> 0 then (case union_chunk cmp extra (y # arr) of (out, rest) \<Rightarrow> (x # out, rest))
      else (case union_chunk cmp (x # extra) arr of (out, rest) \<Rightarrow> (y # out, rest)))"

fun overlay_union :: "(datom \<Rightarrow> datom \<Rightarrow> int) \<Rightarrow> datom list \<Rightarrow> datom list list \<Rightarrow> datom list list" where
  "overlay_union cmp extra [] = (if extra = [] then [] else [extra])"
| "overlay_union cmp extra (arr # src) =
     (if extra = [] then arr # overlay_union cmp [] src
      else (case union_chunk cmp extra arr of (out, rest) \<Rightarrow>
        (if out = [] then [] else [out]) @ overlay_union cmp rest src))"

fun rule_db_datoms :: "nat \<Rightarrow> rule_db \<Rightarrow> index \<Rightarrow> prefix \<Rightarrow> datom list list res" where
  "rule_db_datoms n (PlainDb d) i p = Db_datoms n d i p"
| "rule_db_datoms n (OverlayDb d extras) i p =
     rmap (overlay_union (comparatorFor i) (matchOverlay extras i p)) (Db_datoms n d i p)"

fun rule_db_estimate :: "nat \<Rightarrow> rule_db \<Rightarrow> index \<Rightarrow> prefix \<Rightarrow> nat res" where
  "rule_db_estimate n (PlainDb d) i p = Db_estimate n d i p"
| "rule_db_estimate n (OverlayDb d extras) i p =
     rmap (\<lambda>k. k + length (matchOverlay extras i p)) (Db_estimate n d i p)"

section \<open>The memo of a request\<close>

datatype policy_reason = UnknownAttr | NotARef

record policy_error =
  pe_reason :: policy_reason
  pe_attr :: jsstr

datatype fallback_reason = FallbackSize | FallbackBudget

record visible_set_fallback =
  vf_rule :: jsstr
  vf_reason :: fallback_reason
  vf_size :: "nat option"

datatype visible_set_state = VisibleSet "jsnum list" | SetFallback

definition DEFAULT_VISIBLE_SET_MAX :: int where
  "DEFAULT_VISIBLE_SET_MAX = 10000"

text \<open>
  Expressions are keyed by their structure, where the code numbers the objects: two equal
  expressions share an entry here, and evaluate alike. Compound keys are tuples, where the
  code joins the parts with bars. The parsed queries are not cached.
\<close>

record policy_memo =
  pm_maxCells :: int
  pm_visibleSetMax :: int
  pm_exprCache :: "(policy_expr \<times> int, bool) jsmap"
  pm_ruleCache :: "(jsstr \<times> int, bool) jsmap"
  pm_visibleSets :: "(jsstr, visible_set_state) jsmap"
  pm_fallbacks :: "visible_set_fallback list"
  pm_opCache :: "(policy_op \<times> jsstr \<times> int, bool) jsmap"
  pm_errs :: "(jsstr, policy_error) jsmap"
  pm_overlayDb :: "rule_db option"
  pm_nsBackstopSkip :: "(jsstr, int) jsmap"

definition PolicyMemo_new :: "int \<Rightarrow> int option \<Rightarrow> int option \<Rightarrow> policy_memo" where
  "PolicyMemo_new defaultCells maxCells visibleSetMax =
     \<lparr>pm_maxCells = (case maxCells of Some k \<Rightarrow> k | None \<Rightarrow> defaultCells),
      pm_visibleSetMax = (case visibleSetMax of Some k \<Rightarrow> k | None \<Rightarrow> DEFAULT_VISIBLE_SET_MAX),
      pm_exprCache = [], pm_ruleCache = [], pm_visibleSets = [], pm_fallbacks = [], pm_opCache = [],
      pm_errs = [], pm_overlayDb = None, pm_nsBackstopSkip = []\<rparr>"

definition enter_ns :: "jsstr \<Rightarrow> policy_memo \<Rightarrow> policy_memo" where
  "enter_ns ns m =
     m\<lparr>pm_nsBackstopSkip := jm_set ns ((case jm_get (pm_nsBackstopSkip m) ns of Some k \<Rightarrow> k | None \<Rightarrow> 0) + 1) (pm_nsBackstopSkip m)\<rparr>"

definition exit_ns :: "jsstr \<Rightarrow> policy_memo \<Rightarrow> policy_memo" where
  "exit_ns ns m =
     (let n = (case jm_get (pm_nsBackstopSkip m) ns of Some k \<Rightarrow> k | None \<Rightarrow> 1) - 1
      in m\<lparr>pm_nsBackstopSkip := (if n \<le> 0 then jm_delete ns (pm_nsBackstopSkip m) else jm_set ns n (pm_nsBackstopSkip m))\<rparr>)"

definition enterPushdown :: "jsstr list \<Rightarrow> policy_memo \<Rightarrow> policy_memo" where
  "enterPushdown namespaces m = fold enter_ns namespaces m"

definition exitPushdown :: "jsstr list \<Rightarrow> policy_memo \<Rightarrow> policy_memo" where
  "exitPushdown namespaces m = fold exit_ns namespaces m"

definition skipsNsBackstop :: "policy_memo \<Rightarrow> jsstr option \<Rightarrow> bool" where
  "skipsNsBackstop m ns = (case ns of Some k \<Rightarrow> jm_has (pm_nsBackstopSkip m) k | None \<Rightarrow> False)"

definition memo_report :: "policy_reason \<Rightarrow> jsstr \<Rightarrow> policy_memo \<Rightarrow> policy_memo" where
  "memo_report reason a m =
     (if jm_has (pm_errs m) a then m else m\<lparr>pm_errs := jm_set a \<lparr>pe_reason = reason, pe_attr = a\<rparr> (pm_errs m)\<rparr>)"

definition setExpr :: "policy_expr \<times> int \<Rightarrow> bool \<Rightarrow> policy_memo \<Rightarrow> bool \<times> policy_memo" where
  "setExpr k b m = (b, m\<lparr>pm_exprCache := jm_set k b (pm_exprCache m)\<rparr>)"

definition setOp :: "policy_op \<times> jsstr \<times> int \<Rightarrow> bool \<Rightarrow> policy_memo \<Rightarrow> bool \<times> policy_memo" where
  "setOp k b m = (b, m\<lparr>pm_opCache := jm_set k b (pm_opCache m)\<rparr>)"

definition setRule :: "jsstr \<times> int \<Rightarrow> bool \<Rightarrow> policy_memo \<Rightarrow> bool \<times> policy_memo" where
  "setRule k b m = (b, m\<lparr>pm_ruleCache := jm_set k b (pm_ruleCache m)\<rparr>)"

definition recordVisibleSet :: "jsstr \<Rightarrow> jsnum list \<Rightarrow> policy_memo \<Rightarrow> policy_memo" where
  "recordVisibleSet name eids m = m\<lparr>pm_visibleSets := jm_set name (VisibleSet eids) (pm_visibleSets m)\<rparr>"

definition recordVisibleSetFallback :: "jsstr \<Rightarrow> fallback_reason \<Rightarrow> nat option \<Rightarrow> policy_memo \<Rightarrow> policy_memo" where
  "recordVisibleSetFallback name reason count m =
     m\<lparr>pm_visibleSets := jm_set name SetFallback (pm_visibleSets m),
       pm_fallbacks := pm_fallbacks m @ [\<lparr>vf_rule = name, vf_reason = reason, vf_size = count\<rparr>]\<rparr>"

definition overlayView :: "db \<Rightarrow> ref_overlay \<Rightarrow> policy_memo \<Rightarrow> rule_db \<times> policy_memo" where
  "overlayView d overlay m =
     (case pm_overlayDb m of
        Some v \<Rightarrow> (v, m)
      | None \<Rightarrow> let v = withRefOverlay d overlay in (v, m\<lparr>pm_overlayDb := Some v\<rparr>))"

text \<open>The query a named rule is asked with: for one entity, or for all of them.\<close>

definition rule_call :: "jsstr \<Rightarrow> jsval" where
  "rule_call name = JArr [JArr [JStr name, JStr (js ''?me''), JStr (js ''?e'')]]"

definition ruleQuery :: "jsstr \<Rightarrow> jsval list \<Rightarrow> jsval" where
  "ruleQuery name rules =
     JObj [(js ''find'', JArr [JStr (js ''?e'')]),
       (js ''in'', JArr [JStr (js ''$''), JStr (js ''?me''), JStr (js ''?e'')]),
       (js ''where'', rule_call name), (js ''rules'', JArr rules), (js ''limit'', JNum (NInt 1))]"

definition setQuery :: "int \<Rightarrow> jsstr \<Rightarrow> jsval list \<Rightarrow> jsval" where
  "setQuery visibleSetMax name rules =
     JObj [(js ''find'', JArr [JStr (js ''?e'')]),
       (js ''in'', JArr [JStr (js ''$''), JStr (js ''?me'')]),
       (js ''where'', rule_call name), (js ''rules'', JArr rules), (js ''limit'', JNum (NInt (visibleSetMax + 1)))]"
section \<open>Evaluation\<close>

text \<open>
  The context of an evaluation; the entity judged is a further argument, since following a
  reference changes it. \<open>ec_engine\<close> is the query engine on the unparsed query: the view, the
  query, its inputs and the cell budget.
\<close>

record eval_ctx =
  ec_fuel :: nat
  ec_pf :: platform
  ec_engine :: "rule_db \<Rightarrow> jsval \<Rightarrow> jsval list \<Rightarrow> int \<Rightarrow> jsval res"
  ec_db :: db
  ec_principal :: principal
  ec_overlay :: "ref_overlay option"
  ec_maxCells :: "int option"

definition resolveOperand :: "policy_operand \<Rightarrow> principal \<Rightarrow> jsval" where
  "resolveOperand x p =
     (case x of
        OperandPrincipal \<Rightarrow> (case pr_eid p of Some e \<Rightarrow> JNum (NInt e) | None \<Rightarrow> JUndefined)
      | OperandClaim path \<Rightarrow> claimValue p path
      | OperandLit v \<Rightarrow> v)"

definition presetValue :: "policy_operand \<Rightarrow> principal \<Rightarrow> jsval" where
  "presetValue x p = (let v = resolveOperand x p in if v = JNull then JUndefined else v)"

definition eav_prefix :: "int \<Rightarrow> int \<Rightarrow> tagged_value \<Rightarrow> prefix" where
  "eav_prefix e a v = \<lparr>p_e = Some e, p_a = Some a, p_v = Some v, p_t = None\<rparr>"

definition ref_prefix :: "int \<Rightarrow> int \<Rightarrow> prefix" where
  "ref_prefix e a = \<lparr>p_e = Some e, p_a = Some a, p_v = None, p_t = None\<rparr>"

text \<open>The \<open>eq\<close> case after the cache was missed, and the targets of the \<open>ref\<close> case.\<close>

definition eval_eq :: "eval_ctx \<Rightarrow> jsstr \<Rightarrow> policy_operand \<Rightarrow> int \<Rightarrow> policy_memo \<Rightarrow> (bool \<times> policy_memo) res" where
  "eval_eq c a x e m =
     (let key = (XEq a x, e)
      in case Db_attr (ec_db c) (Inr a) of
        None \<Rightarrow> Inr (setExpr key False (memo_report UnknownAttr a m))
      | Some at \<Rightarrow>
          let raw = resolveOperand x (ec_principal c)
          in if nullish raw then Inr (setExpr key False m)
             else case Db_coerce (ec_pf c) at raw of
               Inl _ \<Rightarrow> Inr (setExpr key False m)
             | Inr tv \<Rightarrow>
                 rbind (value_res tv) (\<lambda>v.
                   rmap (\<lambda>d. setExpr key (d \<noteq> None) m) (Db_first (ec_fuel c) (ec_db c) EAVT (eav_prefix e (at_id at) v))))"

definition ref_value :: "datom \<Rightarrow> int list" where
  "ref_value d = (case d_v d of VRef x \<Rightarrow> [x] | _ \<Rightarrow> [])"

definition overlay_targets :: "eval_ctx \<Rightarrow> int \<Rightarrow> int \<Rightarrow> int list" where
  "overlay_targets c e a =
     (case ec_overlay c of
        Some ov \<Rightarrow> (case jm_get ov (e, a) of Some xs \<Rightarrow> xs | None \<Rightarrow> [])
      | None \<Rightarrow> [])"

definition ref_targets :: "eval_ctx \<Rightarrow> jsstr \<Rightarrow> int \<Rightarrow> policy_memo \<Rightarrow> (int list option \<times> policy_memo) res" where
  "ref_targets c a e m =
     (case Db_attr (ec_db c) (Inr a) of
        None \<Rightarrow> Inr (None, memo_report UnknownAttr a m)
      | Some at \<Rightarrow>
          if at_valueType at \<noteq> Some Ref then Inr (None, memo_report NotARef a m)
          else rmap (\<lambda>ds. (Some (fold set_add (concat (map ref_value ds) @ overlay_targets c e (at_id at)) []), m))
            (datomsArray (ec_fuel c) (ec_db c) EAVT (ref_prefix e (at_id at))))"

function evalExpr :: "eval_ctx \<Rightarrow> policy_expr \<Rightarrow> int \<Rightarrow> policy_memo \<Rightarrow> (bool \<times> policy_memo) res"
  and evalAll :: "eval_ctx \<Rightarrow> policy_expr list \<Rightarrow> int \<Rightarrow> policy_memo \<Rightarrow> (bool \<times> policy_memo) res"
  and evalAny :: "eval_ctx \<Rightarrow> policy_expr list \<Rightarrow> int \<Rightarrow> policy_memo \<Rightarrow> (bool \<times> policy_memo) res"
  and evalTargets :: "eval_ctx \<Rightarrow> policy_expr \<Rightarrow> int list \<Rightarrow> policy_memo \<Rightarrow> (bool \<times> policy_memo) res" where
  "evalExpr c (XConst b) e m = Inr (b, m)"
| "evalExpr c (XClass k) e m = Inr (pr_class (ec_principal c) = k, m)"
| "evalExpr c (XNot x) e m = rmap (\<lambda>(b, m'). (\<not> b, m')) (evalExpr c x e m)"
| "evalExpr c (XAnd xs) e m = evalAll c xs e m"
| "evalExpr c (XOr xs) e m = evalAny c xs e m"
| "evalExpr c (XEq a x) e m =
     (case jm_get (pm_exprCache m) (XEq a x, e) of
        Some hit \<Rightarrow> Inr (hit, m)
      | None \<Rightarrow> eval_eq c a x e m)"
| "evalExpr c (XRef a x) e m =
     (case jm_get (pm_exprCache m) (XRef a x, e) of
        Some hit \<Rightarrow> Inr (hit, m)
      | None \<Rightarrow>
          rbind (ref_targets c a e m) (\<lambda>(ts, m1).
            case ts of
              None \<Rightarrow> Inr (setExpr (XRef a x, e) False m1)
            | Some ts \<Rightarrow> rmap (\<lambda>(b, m2). setExpr (XRef a x, e) b m2) (evalTargets c x ts m1)))"
| "evalAll c [] e m = Inr (True, m)"
| "evalAll c (x # xs) e m =
     rbind (evalExpr c x e m) (\<lambda>(b, m'). if b then evalAll c xs e m' else Inr (False, m'))"
| "evalAny c [] e m = Inr (False, m)"
| "evalAny c (x # xs) e m =
     rbind (evalExpr c x e m) (\<lambda>(b, m'). if b then Inr (True, m') else evalAny c xs e m')"
| "evalTargets c x [] m = Inr (False, m)"
| "evalTargets c x (t # ts) m =
     rbind (evalExpr c x t m) (\<lambda>(b, m'). if b then Inr (True, m') else evalTargets c x ts m')"
  by pat_completeness auto

termination
  by (relation "measures [
      \<lambda>y. case y of Inl (Inl (c, x, e, m)) \<Rightarrow> size x | Inl (Inr (c, xs, e, m)) \<Rightarrow> size_list size xs
        | Inr (Inl (c, xs, e, m)) \<Rightarrow> size_list size xs | Inr (Inr (c, x, ts, m)) \<Rightarrow> size x,
      \<lambda>y. case y of Inl (Inl (c, x, e, m)) \<Rightarrow> 0 | Inl (Inr (c, xs, e, m)) \<Rightarrow> 0
        | Inr (Inl (c, xs, e, m)) \<Rightarrow> 0 | Inr (Inr (c, x, ts, m)) \<Rightarrow> Suc (length ts)]") auto

definition is_budget_error :: "jserr \<Rightarrow> bool" where
  "is_budget_error err = (case err of QueryBudgetError _ \<Rightarrow> True | PolicyBudgetError _ \<Rightarrow> True | _ \<Rightarrow> False)"

definition eval_cells :: "eval_ctx \<Rightarrow> policy_memo \<Rightarrow> int" where
  "eval_cells c m = (case ec_maxCells c of Some k \<Rightarrow> k | None \<Rightarrow> pm_maxCells m)"

definition row_eids :: "jsval list \<Rightarrow> jsnum list" where
  "row_eids rows =
     concat (map (\<lambda>row. case (case row of JArr xs \<Rightarrow> nth_js xs 0 | _ \<Rightarrow> row) of JNum k \<Rightarrow> [k] | _ \<Rightarrow> []) rows)"

definition evalNamedRuleSet ::
  "jsstr \<Rightarrow> eval_ctx \<Rightarrow> jsval list \<Rightarrow> int \<Rightarrow> int \<Rightarrow> policy_memo \<Rightarrow> (bool option \<times> policy_memo) res" where
  "evalNamedRuleSet name c rules eid e m =
     (case jm_get (pm_visibleSets m) name of
        Some SetFallback \<Rightarrow> Inr (None, m)
      | Some (VisibleSet eids) \<Rightarrow> Inr (Some (NInt e \<in> set eids), m)
      | None \<Rightarrow>
          (case ec_engine c (PlainDb (ec_db c)) (setQuery (pm_visibleSetMax m) name rules) [JNum (NInt eid)] (eval_cells c m) of
             Inl err \<Rightarrow> if is_budget_error err then Inr (None, recordVisibleSetFallback name FallbackBudget None m) else Inl err
           | Inr rows \<Rightarrow>
               (case rows of
                  JArr rs \<Rightarrow>
                    if int (length rs) > pm_visibleSetMax m
                    then Inr (None, recordVisibleSetFallback name FallbackSize (Some (length rs)) m)
                    else Inr (Some (NInt e \<in> set (row_eids rs)), recordVisibleSet name (row_eids rs) m)
                | _ \<Rightarrow> Inr (Some False, recordVisibleSet name [] m))))"

definition rule_view :: "eval_ctx \<Rightarrow> policy_memo \<Rightarrow> rule_db \<times> policy_memo" where
  "rule_view c m =
     (case ec_overlay c of
        Some ov \<Rightarrow> if ov \<noteq> [] then overlayView (ec_db c) ov m else (PlainDb (ec_db c), m)
      | None \<Rightarrow> (PlainDb (ec_db c), m))"

definition evalNamedRuleBound ::
  "jsstr \<Rightarrow> eval_ctx \<Rightarrow> jsval list \<Rightarrow> int \<Rightarrow> int \<Rightarrow> policy_memo \<Rightarrow> (bool \<times> policy_memo) res" where
  "evalNamedRuleBound name c rules eid e m =
     (case rule_view c m of (view, m1) \<Rightarrow>
        (case ec_engine c view (ruleQuery name rules) [JNum (NInt eid), JNum (NInt e)] (eval_cells c m1) of
           Inl err \<Rightarrow> Inl (if is_budget_error err then PolicyBudgetError name else err)
         | Inr rows \<Rightarrow> Inr (setRule (name, e) (case rows of JArr rs \<Rightarrow> rs \<noteq> [] | _ \<Rightarrow> False) m1)))"

definition evalNamedRule ::
  "jsstr \<Rightarrow> eval_ctx \<Rightarrow> jsval list option \<Rightarrow> bool \<Rightarrow> int \<Rightarrow> policy_memo \<Rightarrow> (bool \<times> policy_memo) res" where
  "evalNamedRule name c rules useVisibleSet e m =
     (case jm_get (pm_ruleCache m) (name, e) of
        Some hit \<Rightarrow> Inr (hit, m)
      | None \<Rightarrow>
          (case (pr_eid (ec_principal c), rules) of
             (Some eid, Some rs) \<Rightarrow>
               if rs = [] then Inr (setRule (name, e) False m)
               else if useVisibleSet then
                 rbind (evalNamedRuleSet name c rs eid e m) (\<lambda>(fromSet, m1).
                   case fromSet of
                     Some b \<Rightarrow> Inr (setRule (name, e) b m1)
                   | None \<Rightarrow> evalNamedRuleBound name c rs eid e m1)
               else evalNamedRuleBound name c rs eid e m
           | _ \<Rightarrow> Inr (setRule (name, e) False m)))"

definition evalRuleArm ::
  "jsstr list option \<Rightarrow> jsstr option \<Rightarrow> eval_ctx \<Rightarrow> jsval list option \<Rightarrow> bool \<Rightarrow> int \<Rightarrow> policy_memo \<Rightarrow>
    (bool \<times> policy_memo) res" where
  "evalRuleArm gate rule c rules useVisibleSet e m =
     (if (case gate of Some cs \<Rightarrow> pr_class (ec_principal c) \<notin> set cs | None \<Rightarrow> False) then Inr (False, m)
      else case rule of
        None \<Rightarrow> Inr (True, m)
      | Some name \<Rightarrow> evalNamedRule name c rules useVisibleSet e m)"

fun evalArms ::
  "policy_arm list \<Rightarrow> eval_ctx \<Rightarrow> jsval list option \<Rightarrow> bool \<Rightarrow> int \<Rightarrow> bool \<Rightarrow> policy_memo \<Rightarrow> (bool \<times> policy_memo) res" where
  "evalArms [] c rules useVisibleSet e allowed m = Inr (allowed, m)"
| "evalArms (RuleArm gate rule # arms) c rules useVisibleSet e allowed m =
     rbind (evalRuleArm gate rule c rules useVisibleSet e m) (\<lambda>(b, m').
       evalArms arms c rules useVisibleSet e (allowed \<or> b) m')"
| "evalArms (ExprArm tag x # arms) c rules useVisibleSet e allowed m =
     rbind (evalExpr c x e m) (\<lambda>(v, m').
       if tag = Deny then (if v then Inr (False, m') else evalArms arms c rules useVisibleSet e allowed m')
       else evalArms arms c rules useVisibleSet e (allowed \<or> v) m')"

definition attr_arms :: "compiled_policy \<Rightarrow> policy_op \<Rightarrow> jsstr \<Rightarrow> policy_arm list option" where
  "attr_arms p x ident = (case jm_get (po_attrs p) ident of Some r \<Rightarrow> jm_get r x | None \<Rightarrow> None)"

definition ns_arms :: "compiled_policy \<Rightarrow> policy_op \<Rightarrow> jsstr \<Rightarrow> policy_arm list option" where
  "ns_arms p x ident =
     (case (nsPrefix ident, po_ns p) of
        (Some pre, Some m) \<Rightarrow> (case jm_get m pre of Some r \<Rightarrow> jm_get r x | None \<Rightarrow> None)
      | _ \<Rightarrow> None)"

definition allowsOp :: "compiled_policy \<Rightarrow> policy_op \<Rightarrow> jsstr \<Rightarrow> eval_ctx \<Rightarrow> int \<Rightarrow> policy_memo \<Rightarrow> (bool \<times> policy_memo) res" where
  "allowsOp p x ident c e m =
     (case jm_get (pm_opCache m) (x, ident, e) of
        Some hit \<Rightarrow> Inr (hit, m)
      | None \<Rightarrow>
          if x = OpRead \<and> ec_overlay c = None \<and> skipsNsBackstop m (nsPrefix ident) then
            (case attr_arms p x ident of
               None \<Rightarrow> Inr (True, m)
             | Some arms \<Rightarrow> evalArms arms c (po_rules p) False e False m)
          else
            let useVisibleSet = (x = OpRead \<and> ec_overlay c = None \<and> pm_visibleSetMax m > 0);
                run = (\<lambda>arms. evalArms arms c (po_rules p) useVisibleSet e False)
            in rmap (\<lambda>(b, m'). setOp (x, ident, e) b m')
                 (case (attr_arms p x ident, ns_arms p x ident) of
                    (Some attrArms, Some nsArms) \<Rightarrow>
                      rbind (run nsArms m) (\<lambda>(b, m1). if b then run attrArms m1 else Inr (False, m1))
                  | (Some arms, None) \<Rightarrow> run arms m
                  | (None, Some arms) \<Rightarrow> run arms m
                  | (None, None) \<Rightarrow> Inr (False, m)))"

definition canRead :: "compiled_policy \<Rightarrow> jsstr \<Rightarrow> eval_ctx \<Rightarrow> int \<Rightarrow> policy_memo \<Rightarrow> (bool \<times> policy_memo) res" where
  "canRead p ident c e m = allowsOp p OpRead ident c e m"

end
