(* ===== verification/PolicyCorrect.thy ===== *)
theory PolicyCorrect
  imports PolicyEval LogCodec
begin

text \<open>
  What rule evaluation decides: the meaning of an expression on a set of current facts, of a
  named rule on the answers of the query engine, and of the arms of an operation; and the
  proof that the memoised evaluation returns exactly that, keeping the memo truthful.
\<close>

section \<open>The meaning of rules\<close>

text \<open>The value an operand is compared as; \<open>None\<close> when it is missing or does not fit the attribute.\<close>

definition operand_value :: "eval_ctx \<Rightarrow> attribute \<Rightarrow> policy_operand \<Rightarrow> tagged_value option" where
  "operand_value c at x =
     (let raw = resolveOperand x (ec_principal c)
      in if nullish raw then None
         else case Db_coerce (ec_pf c) at raw of Inl _ \<Rightarrow> None | Inr tv \<Rightarrow> value_of tv)"

definition fact_in :: "datom set \<Rightarrow> int \<Rightarrow> int \<Rightarrow> tagged_value \<Rightarrow> bool" where
  "fact_in F e a v \<longleftrightarrow> (\<exists>d\<in>F. d_e d = e \<and> d_a d = a \<and> d_v d = v)"

fun expr_holds :: "eval_ctx \<Rightarrow> datom set \<Rightarrow> policy_expr \<Rightarrow> int \<Rightarrow> bool" where
  "expr_holds c F (XConst b) e = b"
| "expr_holds c F (XClass k) e = (pr_class (ec_principal c) = k)"
| "expr_holds c F (XNot x) e = (\<not> expr_holds c F x e)"
| "expr_holds c F (XAnd xs) e = (\<forall>x\<in>set xs. expr_holds c F x e)"
| "expr_holds c F (XOr xs) e = (\<exists>x\<in>set xs. expr_holds c F x e)"
| "expr_holds c F (XEq a x) e =
     (case Db_attr (ec_db c) (Inr a) of
        None \<Rightarrow> False
      | Some at \<Rightarrow> (case operand_value c at x of None \<Rightarrow> False | Some v \<Rightarrow> fact_in F e (at_id at) v))"
| "expr_holds c F (XRef a x) e =
     (case Db_attr (ec_db c) (Inr a) of
        None \<Rightarrow> False
      | Some at \<Rightarrow> at_valueType at = Some Ref \<and>
          (\<exists>t. (fact_in F e (at_id at) (VRef t) \<or> t \<in> set (overlay_targets c e (at_id at))) \<and> expr_holds c F x t))"

text \<open>
  The answers of the engine to the two queries of a rule. \<open>set_answer\<close> is \<open>None\<close> when the set
  is too large or over budget, and the entity is asked for by itself.
\<close>

definition set_answer :: "eval_ctx \<Rightarrow> int \<Rightarrow> int \<Rightarrow> jsval list \<Rightarrow> int \<Rightarrow> jsstr \<Rightarrow> jsnum list option" where
  "set_answer c cells smax rules eid name =
     (case ec_engine c (PlainDb (ec_db c)) (setQuery smax name rules) [JNum (NInt eid)] cells of
        Inr (JArr rs) \<Rightarrow> if int (length rs) > smax then None else Some (row_eids rs)
      | Inr _ \<Rightarrow> Some []
      | Inl _ \<Rightarrow> None)"

definition eval_view :: "eval_ctx \<Rightarrow> rule_db" where
  "eval_view c =
     (case ec_overlay c of Some ov \<Rightarrow> withRefOverlay (ec_db c) ov | None \<Rightarrow> PlainDb (ec_db c))"

definition bound_answer :: "eval_ctx \<Rightarrow> int \<Rightarrow> jsval list \<Rightarrow> int \<Rightarrow> jsstr \<Rightarrow> int \<Rightarrow> bool" where
  "bound_answer c cells rules eid name e =
     (case ec_engine c (eval_view c) (ruleQuery name rules) [JNum (NInt eid), JNum (NInt e)] cells of
        Inr (JArr rs) \<Rightarrow> rs \<noteq> []
      | _ \<Rightarrow> False)"

definition rule_holds :: "eval_ctx \<Rightarrow> int \<Rightarrow> int \<Rightarrow> bool \<Rightarrow> jsval list option \<Rightarrow> jsstr \<Rightarrow> int \<Rightarrow> bool" where
  "rule_holds c cells smax use rules name e =
     (case (pr_eid (ec_principal c), rules) of
        (Some eid, Some rs) \<Rightarrow>
          rs \<noteq> [] \<and>
          (case (if use then set_answer c cells smax rs eid name else None) of
             Some es \<Rightarrow> NInt e \<in> set es
           | None \<Rightarrow> bound_answer c cells rs eid name e)
      | _ \<Rightarrow> False)"

fun arm_holds :: "eval_ctx \<Rightarrow> datom set \<Rightarrow> (jsstr \<Rightarrow> int \<Rightarrow> bool) \<Rightarrow> int \<Rightarrow> policy_arm \<Rightarrow> bool" where
  "arm_holds c F R e (ExprArm tag x) = expr_holds c F x e"
| "arm_holds c F R e (RuleArm gate rule) =
     ((case gate of Some cs \<Rightarrow> pr_class (ec_principal c) \<in> set cs | None \<Rightarrow> True) \<and>
      (case rule of Some name \<Rightarrow> R name e | None \<Rightarrow> True))"

fun denies :: "policy_arm \<Rightarrow> bool" where
  "denies (ExprArm tag x) = (tag = Deny)"
| "denies (RuleArm gate rule) = False"

definition arms_allow :: "eval_ctx \<Rightarrow> datom set \<Rightarrow> (jsstr \<Rightarrow> int \<Rightarrow> bool) \<Rightarrow> int \<Rightarrow> policy_arm list \<Rightarrow> bool" where
  "arms_allow c F R e arms \<longleftrightarrow>
     (\<exists>a\<in>set arms. \<not> denies a \<and> arm_holds c F R e a) \<and> \<not> (\<exists>a\<in>set arms. denies a \<and> arm_holds c F R e a)"

definition op_allowed ::
  "compiled_policy \<Rightarrow> eval_ctx \<Rightarrow> datom set \<Rightarrow> (jsstr \<Rightarrow> int \<Rightarrow> bool) \<Rightarrow> policy_op \<Rightarrow> jsstr \<Rightarrow> int \<Rightarrow> bool" where
  "op_allowed p c F R x ident e \<longleftrightarrow>
     (attr_arms p x ident \<noteq> None \<or> ns_arms p x ident \<noteq> None) \<and>
     (\<forall>arms. attr_arms p x ident = Some arms \<longrightarrow> arms_allow c F R e arms) \<and>
     (\<forall>arms. ns_arms p x ident = Some arms \<longrightarrow> arms_allow c F R e arms)"

section \<open>What evaluation relies on\<close>

definition rule_facts :: "eval_ctx \<Rightarrow> (index \<Rightarrow> atree) \<Rightarrow> datom set" where
  "rule_facts c t = currentFacts (Some (effectiveT (ec_db c))) (db_datoms_in (ec_db c) t EAVT)"

definition ctx_ok :: "eval_ctx \<Rightarrow> (index \<Rightarrow> atree) \<Rightarrow> bool" where
  "ctx_ok c t \<longleftrightarrow> db_rep (ec_db c) t \<and> nodes (t EAVT) < ec_fuel c \<and> \<not> db_isHistory (ec_db c) \<and>
     (\<forall>s. date_ok (pf_date_parse (ec_pf c) s))"

text \<open>
  Operands are values that JSON can carry (no \<open>Date\<close> objects), and the attributes they are
  compared with have one of the eight types.
\<close>

definition operand_typed :: "eval_ctx \<Rightarrow> jsstr \<Rightarrow> policy_operand \<Rightarrow> bool" where
  "operand_typed c a x \<longleftrightarrow>
     jsval_ok (resolveOperand x (ec_principal c)) \<and> resolveOperand x (ec_principal c) \<noteq> JDate None \<and>
     (case Db_attr (ec_db c) (Inr a) of Some at \<Rightarrow> at_valueType at \<noteq> None | None \<Rightarrow> True)"

fun expr_typed :: "eval_ctx \<Rightarrow> policy_expr \<Rightarrow> bool" where
  "expr_typed c (XEq a x) = operand_typed c a x"
| "expr_typed c (XRef a x) = expr_typed c x"
| "expr_typed c (XNot x) = expr_typed c x"
| "expr_typed c (XAnd xs) = (\<forall>x\<in>set xs. expr_typed c x)"
| "expr_typed c (XOr xs) = (\<forall>x\<in>set xs. expr_typed c x)"
| "expr_typed c _ = True"

fun arm_typed :: "eval_ctx \<Rightarrow> policy_arm \<Rightarrow> bool" where
  "arm_typed c (ExprArm tag x) = expr_typed c x"
| "arm_typed c (RuleArm gate rule) = True"

text \<open>
  The engine answers the query for one entity; the query for the set of all entities it may
  refuse for its budget.
\<close>

definition engine_answers :: "eval_ctx \<Rightarrow> int \<Rightarrow> int \<Rightarrow> jsval list option \<Rightarrow> bool" where
  "engine_answers c cells smax rules \<longleftrightarrow>
     (\<forall>eid rs name. pr_eid (ec_principal c) = Some eid \<and> rules = Some rs \<longrightarrow>
        (\<forall>e. \<exists>v. ec_engine c (eval_view c) (ruleQuery name rs) [JNum (NInt eid), JNum (NInt e)] cells = Inr v) \<and>
        (\<forall>err. ec_engine c (PlainDb (ec_db c)) (setQuery smax name rs) [JNum (NInt eid)] cells = Inl err \<longrightarrow> is_budget_error err))"

text \<open>Every entry of the memo is the verdict it stands for.\<close>

definition memo_ok ::
  "compiled_policy \<Rightarrow> eval_ctx \<Rightarrow> datom set \<Rightarrow> bool \<Rightarrow> int \<Rightarrow> int \<Rightarrow> policy_memo \<Rightarrow> bool" where
  "memo_ok p c F use cells smax m \<longleftrightarrow>
     eval_cells c m = cells \<and> pm_visibleSetMax m = smax \<and> pm_nsBackstopSkip m = [] \<and>
     (\<forall>x e b. jm_get (pm_exprCache m) (x, e) = Some b \<longrightarrow> b = expr_holds c F x e) \<and>
     (\<forall>n e b. jm_get (pm_ruleCache m) (n, e) = Some b \<longrightarrow> b = rule_holds c cells smax use (po_rules p) n e) \<and>
     (\<forall>n eid rs. pr_eid (ec_principal c) = Some eid \<and> po_rules p = Some rs \<longrightarrow>
        (\<forall>s. jm_get (pm_visibleSets m) n = Some s \<longrightarrow>
           set_answer c cells smax rs eid n = (case s of VisibleSet es \<Rightarrow> Some es | SetFallback \<Rightarrow> None))) \<and>
     (\<forall>x i e b. jm_get (pm_opCache m) (x, i, e) = Some b \<longrightarrow>
        b = op_allowed p c F (rule_holds c cells smax use (po_rules p)) x i e) \<and>
     (\<forall>v. pm_overlayDb m = Some v \<longrightarrow> v = eval_view c)"

text \<open>A result is the verdict, with a truthful memo.\<close>

definition decides :: "compiled_policy \<Rightarrow> eval_ctx \<Rightarrow> datom set \<Rightarrow> bool \<Rightarrow> int \<Rightarrow> int \<Rightarrow> (bool \<times> policy_memo) res \<Rightarrow> bool \<Rightarrow> bool" where
  "decides p c F use cells smax r b \<longleftrightarrow> (\<exists>m. r = Inr (b, m) \<and> memo_ok p c F use cells smax m)"

section \<open>Reading the facts\<close>

lemma rule_facts_ok:
  assumes "ctx_ok c t" "d \<in> rule_facts c t"
  shows "datom_ok d"
proof -
  have "d \<in> db_datoms_in (ec_db c) t EAVT" using assms(2) by (simp add: rule_facts_def currentFacts_def)
  moreover have "\<forall>x\<in>set (contents (t EAVT)). datom_ok x" "sn_inv (nv_byIndex (db_novelty (ec_db c)) EAVT)"
    using assms(1) by (auto simp: ctx_ok_def db_rep_def wf_root_def nv_inv_def)
  ultimately show ?thesis by (auto simp: db_datoms_in_def sn_inv_def sn_abs_def index_sorted_def)
qed

lemma rule_reads:
  assumes "ctx_ok c t" "prefix_ok p" "p_t p = None"
  shows "\<exists>ds. datomsArray (ec_fuel c) (ec_db c) EAVT p = Inr ds \<and> set ds = {d \<in> rule_facts c t. matching EAVT p d}"
  using datoms_current_matching [OF _ assms(2) _ _ assms(3), of "ec_db c" t EAVT "ec_fuel c"] assms(1)
  by (auto simp: ctx_ok_def rule_facts_def)

lemma rule_first:
  assumes "ctx_ok c t" "value_ok v"
  shows "\<exists>d. Db_first (ec_fuel c) (ec_db c) EAVT (eav_prefix e a v) = Inr d \<and> (d \<noteq> None \<longleftrightarrow> fact_in (rule_facts c t) e a v)"
proof -
  let ?p = "eav_prefix e a v"
  have p: "prefix_ok ?p" "p_t ?p = None" using assms(2) by (simp_all add: prefix_ok_def eav_prefix_def)
  obtain ds where ds: "datomsArray (ec_fuel c) (ec_db c) EAVT ?p = Inr ds" "set ds = {d \<in> rule_facts c t. matching EAVT ?p d}"
    using rule_reads [OF assms(1) p] by blast
  have "matching EAVT ?p d \<longleftrightarrow> d_e d = e \<and> d_a d = a \<and> d_v d = v" if "d \<in> rule_facts c t" for d
    using rule_facts_ok [OF assms(1) that] assms(2) compareValue_zero_iff by (simp add: eav_prefix_def datom_ok_def)
  then have "set ds \<noteq> {} \<longleftrightarrow> fact_in (rule_facts c t) e a v" unfolding ds(2) fact_in_def by blast
  moreover have "Db_first (ec_fuel c) (ec_db c) EAVT ?p = Inr (head_opt ds)"
    using Db_first_head [OF _ p(1), of "ec_db c" t EAVT "ec_fuel c"] assms(1) ds(1) by (simp add: ctx_ok_def)
  ultimately show ?thesis by (cases ds) (simp_all add: head_opt_def)
qed

lemma rule_refs:
  assumes "ctx_ok c t"
  shows "\<exists>ds. datomsArray (ec_fuel c) (ec_db c) EAVT (ref_prefix e a) = Inr ds \<and>
    set (concat (map ref_value ds)) = {x. fact_in (rule_facts c t) e a (VRef x)}"
proof -
  let ?p = "ref_prefix e a"
  have p: "prefix_ok ?p" "p_t ?p = None" by (simp_all add: prefix_ok_def ref_prefix_def)
  obtain ds where ds: "datomsArray (ec_fuel c) (ec_db c) EAVT ?p = Inr ds" "set ds = {d \<in> rule_facts c t. matching EAVT ?p d}"
    using rule_reads [OF assms(1) p] by blast
  have "x \<in> set (ref_value d) \<longleftrightarrow> d_v d = VRef x" for x d by (cases "d_v d") (auto simp: ref_value_def)
  then have "set (concat (map ref_value ds)) = {x. \<exists>d\<in>set ds. d_v d = VRef x}" by auto
  also have "\<dots> = {x. fact_in (rule_facts c t) e a (VRef x)}" unfolding ds(2) fact_in_def by (auto simp: ref_prefix_def)
  finally show ?thesis using ds(1) by blast
qed

lemma value_of_tagged_of: "value_ok v \<Longrightarrow> value_of (tagged_of v) = Some v"
  using value_of_tagged by (simp add: tagged_of_def tag_js_def)

lemma operand_coerced:
  assumes "ctx_ok c t" "operand_typed c a x" "Db_attr (ec_db c) (Inr a) = Some at"
    "Db_coerce (ec_pf c) at (resolveOperand x (ec_principal c)) = Inr tv"
  obtains v where "tv = tagged_of v" "value_ok v" "value_of tv = Some v" "value_res tv = Inr v"
proof -
  obtain tag where tag: "at_valueType at = Some tag" using assms(2,3) by (auto simp: operand_typed_def)
  have "\<exists>v. tv = tagged_of v \<and> value_ok v"
    using coerceValue_normalised [of "ec_pf c" tag "resolveOperand x (ec_principal c)" tv] assms tag
    by (auto simp: Db_coerce_def ctx_ok_def operand_typed_def)
  then show ?thesis using that value_of_tagged_of by (auto simp: value_res_def)
qed

section \<open>Updates of the memo\<close>

lemma memo_ok_setExpr:
  "memo_ok p c F use cells smax m \<Longrightarrow> b = expr_holds c F x e \<Longrightarrow>
    decides p c F use cells smax (Inr (setExpr (x, e) b m)) b"
  unfolding decides_def setExpr_def memo_ok_def by (simp add: eval_cells_def split: option.splits)

lemma memo_ok_setRule:
  "memo_ok p c F use cells smax m \<Longrightarrow> b = rule_holds c cells smax use (po_rules p) n e \<Longrightarrow>
    decides p c F use cells smax (Inr (setRule (n, e) b m)) b"
  unfolding decides_def setRule_def memo_ok_def by (simp add: eval_cells_def split: option.splits)

lemma memo_ok_setOp:
  "memo_ok p c F use cells smax m \<Longrightarrow> b = op_allowed p c F (rule_holds c cells smax use (po_rules p)) x i e \<Longrightarrow>
    decides p c F use cells smax (Inr (setOp (x, i, e) b m)) b"
  unfolding decides_def setOp_def memo_ok_def by (simp add: eval_cells_def split: option.splits)

lemma memo_ok_report: "memo_ok p c F use cells smax m \<Longrightarrow> memo_ok p c F use cells smax (memo_report r a m)"
  unfolding memo_report_def memo_ok_def by (simp add: eval_cells_def split: option.splits)

section \<open>Expressions\<close>

lemma eval_eq_decides:
  assumes "ctx_ok c t" "operand_typed c a x" "memo_ok p c (rule_facts c t) use cells smax m"
  shows "decides p c (rule_facts c t) use cells smax (eval_eq c a x e m) (expr_holds c (rule_facts c t) (XEq a x) e)"
proof (cases "Db_attr (ec_db c) (Inr a)")
  case None
  then show ?thesis
    using memo_ok_setExpr [OF memo_ok_report [OF assms(3)], of False "XEq a x" e] by (simp add: eval_eq_def Let_def)
next
  case (Some at)
  let ?raw = "resolveOperand x (ec_principal c)"
  show ?thesis
  proof (cases "nullish ?raw")
    case True
    with Some show ?thesis using memo_ok_setExpr [OF assms(3), of False "XEq a x" e] by (simp add: eval_eq_def Let_def operand_value_def)
  next
    case raw: False
    show ?thesis
    proof (cases "Db_coerce (ec_pf c) at ?raw")
      case (Inl err)
      with Some raw show ?thesis using memo_ok_setExpr [OF assms(3), of False "XEq a x" e] by (simp add: eval_eq_def Let_def operand_value_def)
    next
      case (Inr tv)
      obtain v where v: "value_ok v" "value_of tv = Some v" "value_res tv = Inr v"
        using operand_coerced [OF assms(1,2) Some Inr] by blast
      obtain d where d: "Db_first (ec_fuel c) (ec_db c) EAVT (eav_prefix e (at_id at) v) = Inr d"
        "d \<noteq> None \<longleftrightarrow> fact_in (rule_facts c t) e (at_id at) v"
        using rule_first [OF assms(1) v(1)] by blast
      have "eval_eq c a x e m = Inr (setExpr (XEq a x, e) (d \<noteq> None) m)"
        using Some raw Inr v(3) d(1) by (simp add: eval_eq_def Let_def)
      moreover have "expr_holds c (rule_facts c t) (XEq a x) e \<longleftrightarrow> d \<noteq> None"
        using Some raw Inr v(2) d(2) by (simp add: operand_value_def)
      ultimately show ?thesis using memo_ok_setExpr [OF assms(3), of "d \<noteq> None" "XEq a x" e] by simp
    qed
  qed
qed

text \<open>The targets are the references among the facts and in the overlay, if the attribute is one.\<close>

definition targets_of :: "eval_ctx \<Rightarrow> datom set \<Rightarrow> jsstr \<Rightarrow> int \<Rightarrow> int set" where
  "targets_of c F a e =
     (case Db_attr (ec_db c) (Inr a) of
        None \<Rightarrow> {}
      | Some at \<Rightarrow> if at_valueType at = Some Ref
          then {x. fact_in F e (at_id at) (VRef x)} \<union> set (overlay_targets c e (at_id at)) else {})"

lemma expr_holds_ref: "expr_holds c F (XRef a x) e \<longleftrightarrow> (\<exists>y\<in>targets_of c F a e. expr_holds c F x y)"
  by (auto simp: targets_of_def split: option.splits)

declare expr_holds.simps(7) [simp del]

lemma memo_hit:
  assumes "memo_ok p c F use cells smax m" "jm_get (pm_exprCache m) (x, e) = Some b"
  shows "decides p c F use cells smax (Inr (b, m)) (expr_holds c F x e)"
proof -
  have "b = expr_holds c F x e" using assms unfolding memo_ok_def by blast
  with assms(1) show ?thesis by (simp add: decides_def)
qed

lemma ref_targets_spec:
  assumes "ctx_ok c t" "memo_ok p c (rule_facts c t) use cells smax m"
  shows "\<exists>ts m'. ref_targets c a e m = Inr (ts, m') \<and> memo_ok p c (rule_facts c t) use cells smax m' \<and>
    set (case ts of Some xs \<Rightarrow> xs | None \<Rightarrow> []) = targets_of c (rule_facts c t) a e"
proof (cases "Db_attr (ec_db c) (Inr a)")
  case None
  then show ?thesis using memo_ok_report [OF assms(2)] by (simp add: ref_targets_def targets_of_def)
next
  case (Some at)
  obtain ds where "datomsArray (ec_fuel c) (ec_db c) EAVT (ref_prefix e (at_id at)) = Inr ds"
    "set (concat (map ref_value ds)) = {x. fact_in (rule_facts c t) e (at_id at) (VRef x)}"
    using rule_refs [OF assms(1)] by blast
  with Some assms(2) memo_ok_report [OF assms(2)] show ?thesis
    by (auto simp: ref_targets_def targets_of_def set_fold_set_add)
qed

lemma decidesE:
  assumes "decides p c F use cells smax r b"
  obtains m where "r = Inr (b, m)" "memo_ok p c F use cells smax m"
  using assms by (auto simp: decides_def)

lemma decidesI: "memo_ok p c F use cells smax m \<Longrightarrow> decides p c F use cells smax (Inr (b, m)) b"
  by (simp add: decides_def)

lemma ref_decides:
  assumes "ctx_ok c t" "memo_ok p c (rule_facts c t) use cells smax m"
    and "\<And>ts m'. ref_targets c a e m = Inr (Some ts, m') \<Longrightarrow> memo_ok p c (rule_facts c t) use cells smax m' \<Longrightarrow>
      decides p c (rule_facts c t) use cells smax (evalTargets c x ts m') (\<exists>y\<in>set ts. expr_holds c (rule_facts c t) x y)"
  shows "decides p c (rule_facts c t) use cells smax
    (rbind (ref_targets c a e m) (\<lambda>(ts, m1). case ts of
        None \<Rightarrow> Inr (setExpr (XRef a x, e) False m1)
      | Some ts \<Rightarrow> rmap (\<lambda>(b, m2). setExpr (XRef a x, e) b m2) (evalTargets c x ts m1)))
    (expr_holds c (rule_facts c t) (XRef a x) e)"
proof -
  let ?F = "rule_facts c t"
  obtain ts m1 where r: "ref_targets c a e m = Inr (ts, m1)" "memo_ok p c ?F use cells smax m1"
    "set (case ts of Some xs \<Rightarrow> xs | None \<Rightarrow> []) = targets_of c ?F a e"
    using ref_targets_spec [OF assms(1,2)] by blast
  show ?thesis
  proof (cases ts)
    case None
    then have "\<not> expr_holds c ?F (XRef a x) e" using r(3) by (simp add: expr_holds_ref)
    with None r(1) memo_ok_setExpr [OF r(2), of False "XRef a x" e] show ?thesis by simp
  next
    case (Some xs)
    obtain m2 where m2: "evalTargets c x xs m1 = Inr (\<exists>y\<in>set xs. expr_holds c ?F x y, m2)" "memo_ok p c ?F use cells smax m2"
      using assms(3) [OF r(1) [unfolded Some] r(2)] by (rule decidesE)
    have "expr_holds c ?F (XRef a x) e \<longleftrightarrow> (\<exists>y\<in>set xs. expr_holds c ?F x y)" using r(3) Some by (simp only: expr_holds_ref option.case)
    with Some r(1) m2 memo_ok_setExpr [OF m2(2), of _ "XRef a x" e] show ?thesis by simp
  qed
qed

lemma eval_decides:
  "ctx_ok c t \<Longrightarrow> expr_typed c x \<Longrightarrow> memo_ok p c (rule_facts c t) use cells smax m \<Longrightarrow>
    decides p c (rule_facts c t) use cells smax (evalExpr c x e m) (expr_holds c (rule_facts c t) x e)"
  "ctx_ok c t \<Longrightarrow> \<forall>x\<in>set xs. expr_typed c x \<Longrightarrow> memo_ok p c (rule_facts c t) use cells smax m \<Longrightarrow>
    decides p c (rule_facts c t) use cells smax (evalAll c xs e m) (\<forall>x\<in>set xs. expr_holds c (rule_facts c t) x e)"
  "ctx_ok c t \<Longrightarrow> \<forall>x\<in>set xs. expr_typed c x \<Longrightarrow> memo_ok p c (rule_facts c t) use cells smax m \<Longrightarrow>
    decides p c (rule_facts c t) use cells smax (evalAny c xs e m) (\<exists>x\<in>set xs. expr_holds c (rule_facts c t) x e)"
  "ctx_ok c t \<Longrightarrow> expr_typed c x \<Longrightarrow> memo_ok p c (rule_facts c t) use cells smax m \<Longrightarrow>
    decides p c (rule_facts c t) use cells smax (evalTargets c x ts m) (\<exists>y\<in>set ts. expr_holds c (rule_facts c t) x y)"
proof (induction c x e m and c xs e m and c xs e m and c x ts m rule: evalExpr_evalAll_evalAny_evalTargets.induct)
  case (3 c x e m)
  then show ?case by (auto simp: decides_def)
next
  case (6 c a x e m)
  show ?case
  proof (cases "jm_get (pm_exprCache m) (XEq a x, e)")
    case None
    with eval_eq_decides [OF "6.prems"(1) _ "6.prems"(3)] "6.prems"(2) show ?thesis by simp
  next
    case (Some b)
    with memo_hit [OF "6.prems"(3) Some] show ?thesis by simp
  qed
next
  case (7 c a x e m)
  show ?case
  proof (cases "jm_get (pm_exprCache m) (XRef a x, e)")
    case None
    have "decides p c (rule_facts c t) use cells smax (evalTargets c x ts m') (\<exists>y\<in>set ts. expr_holds c (rule_facts c t) x y)"
      if "ref_targets c a e m = Inr (Some ts, m')" "memo_ok p c (rule_facts c t) use cells smax m'" for ts m'
      by (rule "7.IH" [OF None that(1) refl refl "7.prems"(1) _ that(2)]) (use "7.prems"(2) in simp)
    from ref_decides [OF "7.prems"(1,3) this] None show ?thesis by simp
  next
    case (Some b)
    with memo_hit [OF "7.prems"(3) Some] show ?thesis by simp
  qed
next
  case (9 c x xs e m)
  obtain m' where m': "evalExpr c x e m = Inr (expr_holds c (rule_facts c t) x e, m')" "memo_ok p c (rule_facts c t) use cells smax m'"
    using "9.IH"(1) [OF "9.prems"(1) _ "9.prems"(3)] "9.prems"(2) by (auto elim: decidesE)
  show ?case
  proof (cases "expr_holds c (rule_facts c t) x e")
    case True
    with "9.IH"(2) [OF m'(1) refl True "9.prems"(1) _ m'(2)] "9.prems"(2) m'(1) show ?thesis by simp
  qed (use m' in \<open>simp add: decides_def\<close>)
next
  case (11 c x xs e m)
  obtain m' where m': "evalExpr c x e m = Inr (expr_holds c (rule_facts c t) x e, m')" "memo_ok p c (rule_facts c t) use cells smax m'"
    using "11.IH"(1) [OF "11.prems"(1) _ "11.prems"(3)] "11.prems"(2) by (auto elim: decidesE)
  show ?case
  proof (cases "expr_holds c (rule_facts c t) x e")
    case False
    with "11.IH"(2) [OF m'(1) refl False "11.prems"(1) _ m'(2)] "11.prems"(2) m'(1) show ?thesis by simp
  qed (use m' in \<open>simp add: decides_def\<close>)
next
  case (13 c x y ys m)
  obtain m' where m': "evalExpr c x y m = Inr (expr_holds c (rule_facts c t) x y, m')" "memo_ok p c (rule_facts c t) use cells smax m'"
    using "13.IH"(1) [OF "13.prems"] by (rule decidesE)
  show ?case
  proof (cases "expr_holds c (rule_facts c t) x y")
    case False
    with "13.IH"(2) [OF m'(1) refl False "13.prems"(1,2) m'(2)] m'(1) show ?thesis by simp
  qed (use m' in \<open>simp add: decides_def\<close>)
qed (simp_all add: decides_def)

section \<open>Named rules\<close>

lemma rule_view_spec:
  assumes "memo_ok p c F use cells smax m"
  shows "\<exists>m'. rule_view c m = (eval_view c, m') \<and> memo_ok p c F use cells smax m'"
proof (cases "ec_overlay c")
  case None
  with assms show ?thesis by (simp add: rule_view_def eval_view_def)
next
  case (Some ov)
  show ?thesis
  proof (cases "ov = []")
    case True
    with Some assms show ?thesis by (simp add: rule_view_def eval_view_def withRefOverlay_def)
  next
    case False
    have v: "eval_view c = withRefOverlay (ec_db c) ov" using Some by (simp add: eval_view_def)
    have "pm_overlayDb m = Some v \<Longrightarrow> v = eval_view c" for v using assms unfolding memo_ok_def by blast
    moreover have "memo_ok p c F use cells smax (m\<lparr>pm_overlayDb := Some (eval_view c)\<rparr>)"
      using assms unfolding memo_ok_def by (simp add: eval_cells_def split: option.splits)
    ultimately show ?thesis
      using Some False assms v by (cases "pm_overlayDb m") (auto simp: rule_view_def overlayView_def Let_def)
  qed
qed

lemma bound_decides:
  assumes "memo_ok p c F use cells smax m" "engine_answers c cells smax (po_rules p)"
    and "pr_eid (ec_principal c) = Some eid" "po_rules p = Some rs"
    and "bound_answer c cells rs eid name e = rule_holds c cells smax use (po_rules p) name e"
  shows "decides p c F use cells smax (evalNamedRuleBound name c rs eid e m) (rule_holds c cells smax use (po_rules p) name e)"
proof -
  obtain m1 where m1: "rule_view c m = (eval_view c, m1)" "memo_ok p c F use cells smax m1" using rule_view_spec [OF assms(1)] by blast
  obtain v where v: "ec_engine c (eval_view c) (ruleQuery name rs) [JNum (NInt eid), JNum (NInt e)] cells = Inr v"
    using assms(2-4) unfolding engine_answers_def by blast
  have "eval_cells c m1 = cells" using m1(2) by (simp add: memo_ok_def)
  then have "evalNamedRuleBound name c rs eid e m = Inr (setRule (name, e) (bound_answer c cells rs eid name e) m1)"
    using m1(1) v by (cases v) (simp_all add: evalNamedRuleBound_def bound_answer_def)
  with memo_ok_setRule [OF m1(2) refl] assms(5) show ?thesis by simp
qed

lemma memo_ok_set:
  assumes "memo_ok p c F use cells smax m" "pr_eid (ec_principal c) = Some eid" "po_rules p = Some rs"
    and "set_answer c cells smax rs eid name = (case s of VisibleSet es \<Rightarrow> Some es | SetFallback \<Rightarrow> None)"
  shows "memo_ok p c F use cells smax (m\<lparr>pm_visibleSets := jm_set name s (pm_visibleSets m)\<rparr>)"
    "memo_ok p c F use cells smax (m\<lparr>pm_visibleSets := jm_set name s (pm_visibleSets m), pm_fallbacks := fs\<rparr>)"
  using assms unfolding memo_ok_def by (simp_all add: eval_cells_def split: option.splits)

lemma set_decides:
  assumes "memo_ok p c F use cells smax m" "engine_answers c cells smax (po_rules p)"
    and "pr_eid (ec_principal c) = Some eid" "po_rules p = Some rs"
  shows "\<exists>m'. evalNamedRuleSet name c rs eid e m =
      Inr (map_option (\<lambda>es. NInt e \<in> set es) (set_answer c cells smax rs eid name), m') \<and> memo_ok p c F use cells smax m'"
proof (cases "jm_get (pm_visibleSets m) name")
  case (Some s)
  then have "set_answer c cells smax rs eid name = (case s of VisibleSet es \<Rightarrow> Some es | SetFallback \<Rightarrow> None)"
    using assms(1,3,4) unfolding memo_ok_def by blast
  with Some assms(1) show ?thesis by (cases s) (simp_all add: evalNamedRuleSet_def)
next
  case None
  have cs: "eval_cells c m = cells" "pm_visibleSetMax m = smax" using assms(1) by (simp_all add: memo_ok_def)
  note upd = memo_ok_set [OF assms(1,3,4)]
  show ?thesis
  proof (cases "ec_engine c (PlainDb (ec_db c)) (setQuery smax name rs) [JNum (NInt eid)] cells")
    case (Inl err)
    then have "is_budget_error err" using assms(2-4) unfolding engine_answers_def by blast
    moreover have "set_answer c cells smax rs eid name = None" using Inl by (simp add: set_answer_def)
    ultimately show ?thesis
      using None Inl cs upd(2) [of name SetFallback] by (simp add: evalNamedRuleSet_def recordVisibleSetFallback_def)
  next
    case (Inr rows)
    show ?thesis
    proof (cases "\<exists>xs. rows = JArr xs \<and> int (length xs) > smax")
      case True
      then obtain xs where xs: "rows = JArr xs" "int (length xs) > smax" by blast
      with Inr have "set_answer c cells smax rs eid name = None" by (simp add: set_answer_def)
      with None Inr xs cs upd(2) [of name SetFallback] show ?thesis
        by (simp add: evalNamedRuleSet_def recordVisibleSetFallback_def)
    next
      case False
      obtain es where es: "set_answer c cells smax rs eid name = Some es"
        "evalNamedRuleSet name c rs eid e m = Inr (Some (NInt e \<in> set es), recordVisibleSet name es m)"
        using False Inr None cs by (cases rows) (auto simp: set_answer_def evalNamedRuleSet_def)
      with upd(1) [of name "VisibleSet es"] show ?thesis by (simp add: recordVisibleSet_def)
    qed
  qed
qed

lemma named_rule_decides:
  assumes m: "memo_ok p c F use cells smax m" and en: "engine_answers c cells smax (po_rules p)"
  shows "decides p c F use cells smax (evalNamedRule name c (po_rules p) use e m) (rule_holds c cells smax use (po_rules p) name e)"
proof (cases "jm_get (pm_ruleCache m) (name, e)")
  case (Some b)
  then have "b = rule_holds c cells smax use (po_rules p) name e" using m unfolding memo_ok_def by blast
  with Some m show ?thesis by (simp add: evalNamedRule_def decides_def)
next
  case None
  show ?thesis
  proof (cases "\<exists>eid rs. pr_eid (ec_principal c) = Some eid \<and> po_rules p = Some rs \<and> rs \<noteq> []")
    case False
    then have "\<not> rule_holds c cells smax use (po_rules p) name e" by (auto simp: rule_holds_def split: option.splits)
    moreover have "evalNamedRule name c (po_rules p) use e m = Inr (setRule (name, e) False m)"
      using False None by (auto simp: evalNamedRule_def split: option.splits)
    ultimately show ?thesis using memo_ok_setRule [OF m, of False name e] by simp
  next
    case True
    then obtain eid rs where rs: "pr_eid (ec_principal c) = Some eid" "po_rules p = Some rs" "rs \<noteq> []" by blast
    note bound = bound_decides [OF _ en rs(1,2)]
    show ?thesis
    proof (cases use)
      case False
      then have "bound_answer c cells rs eid name e = rule_holds c cells smax use (po_rules p) name e"
        using rs by (simp add: rule_holds_def)
      with bound [OF m] show ?thesis using None rs False by (simp add: evalNamedRule_def)
    next
      case True
      obtain m' where m': "evalNamedRuleSet name c rs eid e m =
          Inr (map_option (\<lambda>es. NInt e \<in> set es) (set_answer c cells smax rs eid name), m')" "memo_ok p c F use cells smax m'"
        using set_decides [OF m en rs(1,2)] by blast
      show ?thesis
      proof (cases "set_answer c cells smax rs eid name")
        case (Some es)
        then have "rule_holds c cells smax use (po_rules p) name e = (NInt e \<in> set es)"
          using rs \<open>use\<close> by (simp add: rule_holds_def)
        with Some None rs \<open>use\<close> m'(1) memo_ok_setRule [OF m'(2) refl, of name e] show ?thesis by (simp add: evalNamedRule_def)
      next
        case none: None
        then have "bound_answer c cells rs eid name e = rule_holds c cells smax use (po_rules p) name e"
          using rs by (simp add: rule_holds_def)
        with bound [OF m'(2)] show ?thesis using None none rs \<open>use\<close> m'(1) by (simp add: evalNamedRule_def)
      qed
    qed
  qed
qed

section \<open>Arms and operations\<close>

definition policy_typed :: "compiled_policy \<Rightarrow> eval_ctx \<Rightarrow> bool" where
  "policy_typed p c \<longleftrightarrow>
     (\<forall>(k, r)\<in>set (po_attrs p @ (case po_ns p of Some m \<Rightarrow> m | None \<Rightarrow> [])).
        \<forall>(x, arms)\<in>set r. \<forall>a\<in>set arms. arm_typed c a)"

lemma policy_typed_arms:
  assumes "policy_typed p c" "attr_arms p x i = Some arms \<or> ns_arms p x i = Some arms"
  shows "\<forall>a\<in>set arms. arm_typed c a"
proof -
  obtain k r where "(k, r) \<in> set (po_attrs p @ (case po_ns p of Some m \<Rightarrow> m | None \<Rightarrow> []))" "(x, arms) \<in> set r"
    using assms(2) by (auto simp: attr_arms_def ns_arms_def split: option.splits prod.splits dest!: jm_get_mem)
  with assms(1) show ?thesis unfolding policy_typed_def by blast
qed

lemma rule_arm_decides:
  assumes "memo_ok p c F use cells smax m" "engine_answers c cells smax (po_rules p)"
  shows "decides p c F use cells smax (evalRuleArm gate rule c (po_rules p) use e m)
    (arm_holds c F (rule_holds c cells smax use (po_rules p)) e (RuleArm gate rule))"
  using named_rule_decides [OF assms] assms(1)
  by (cases rule; cases gate) (auto simp: evalRuleArm_def decides_def)

lemma arms_decide:
  fixes e :: int
  assumes "ctx_ok c t" "engine_answers c cells smax (po_rules p)"
    and "\<forall>a\<in>set arms. arm_typed c a" "memo_ok p c (rule_facts c t) use cells smax m"
  defines "H \<equiv> arm_holds c (rule_facts c t) (rule_holds c cells smax use (po_rules p)) e"
  shows "decides p c (rule_facts c t) use cells smax (evalArms arms c (po_rules p) use e allowed m)
    ((allowed \<or> (\<exists>a\<in>set arms. \<not> denies a \<and> H a)) \<and> \<not> (\<exists>a\<in>set arms. denies a \<and> H a))"
  using assms(3,4)
proof (induction arms arbitrary: allowed m)
  case Nil
  then show ?case by (simp add: decides_def)
next
  case (Cons arm arms)
  show ?case
  proof (cases arm)
    case (RuleArm gate rule)
    obtain m' where m': "evalRuleArm gate rule c (po_rules p) use e m = Inr (H arm, m')" "memo_ok p c (rule_facts c t) use cells smax m'"
      using rule_arm_decides [OF Cons.prems(2) assms(2), of gate rule e] unfolding H_def RuleArm by (rule decidesE)
    have "\<not> denies arm" using RuleArm by simp
    with Cons.IH [OF _ m'(2), of "allowed \<or> H arm"] Cons.prems(1) m'(1) show ?thesis by (simp add: RuleArm disj_assoc)
  next
    case (ExprArm tag x)
    then have "H arm = expr_holds c (rule_facts c t) x e" by (simp add: H_def)
    moreover have "expr_typed c x" using Cons.prems(1) ExprArm by simp
    ultimately obtain m' where m': "evalExpr c x e m = Inr (H arm, m')" "memo_ok p c (rule_facts c t) use cells smax m'"
      using eval_decides(1) [OF assms(1) _ Cons.prems(2), of x e] by (auto elim: decidesE)
    show ?thesis
    proof (cases tag)
      case Allow
      then have "\<not> denies arm" using ExprArm by simp
      with Cons.IH [OF _ m'(2), of "allowed \<or> H arm"] Cons.prems(1) m'(1) Allow show ?thesis by (simp add: ExprArm disj_assoc)
    next
      case Deny
      then have d: "denies arm" using ExprArm by simp
      show ?thesis
      proof (cases "H arm")
        case True
        with d m' Deny show ?thesis by (simp add: ExprArm decides_def)
      next
        case False
        with d Cons.IH [OF _ m'(2), of allowed] Cons.prems(1) m'(1) Deny show ?thesis by (simp add: ExprArm)
      qed
    qed
  qed
qed

lemma arms_allow_decides:
  assumes "ctx_ok c t" "engine_answers c cells smax (po_rules p)"
    and "\<forall>a\<in>set arms. arm_typed c a" "memo_ok p c (rule_facts c t) use cells smax m"
  shows "decides p c (rule_facts c t) use cells smax (evalArms arms c (po_rules p) use e False m)
    (arms_allow c (rule_facts c t) (rule_holds c cells smax use (po_rules p)) e arms)"
  using arms_decide [OF assms, of e False] by (simp add: arms_allow_def)

lemma decides_seq:
  assumes "decides p c F use cells smax r b" "\<And>m. memo_ok p c F use cells smax m \<Longrightarrow> decides p c F use cells smax (f m) b'"
  shows "decides p c F use cells smax (rbind r (\<lambda>(b, m1). if b then f m1 else Inr (False, m1))) (b \<and> b')"
  using assms by (auto simp: decides_def)

definition uses_set :: "policy_op \<Rightarrow> eval_ctx \<Rightarrow> int \<Rightarrow> bool" where
  "uses_set x c smax \<longleftrightarrow> x = OpRead \<and> ec_overlay c = None \<and> smax > 0"

lemma op_decides:
  assumes c: "ctx_ok c t" "engine_answers c cells smax (po_rules p)" "policy_typed p c"
    and m: "memo_ok p c (rule_facts c t) (uses_set x c smax) cells smax m"
  shows "decides p c (rule_facts c t) (uses_set x c smax) cells smax (allowsOp p x ident c e m)
    (op_allowed p c (rule_facts c t) (rule_holds c cells smax (uses_set x c smax) (po_rules p)) x ident e)"
proof (cases "jm_get (pm_opCache m) (x, ident, e)")
  case (Some b)
  then have "b = op_allowed p c (rule_facts c t) (rule_holds c cells smax (uses_set x c smax) (po_rules p)) x ident e"
    using m unfolding memo_ok_def by blast
  with Some m show ?thesis by (simp add: allowsOp_def decides_def)
next
  case None
  let ?F = "rule_facts c t" and ?u = "uses_set x c smax"
  let ?R = "rule_holds c cells smax ?u (po_rules p)"
  let ?run = "\<lambda>arms. evalArms arms c (po_rules p) ?u e False"
  have skip: "\<not> skipsNsBackstop m ns" for ns using m by (simp add: memo_ok_def skipsNsBackstop_def jm_has_def split: option.splits)
  have u: "?u = (x = OpRead \<and> ec_overlay c = None \<and> pm_visibleSetMax m > 0)"
    using m by (simp add: memo_ok_def uses_set_def)
  have run: "decides p c ?F ?u cells smax (?run arms m') (arms_allow c ?F ?R e arms)"
    if "attr_arms p x ident = Some arms \<or> ns_arms p x ident = Some arms" "memo_ok p c ?F ?u cells smax m'" for arms m'
    by (rule arms_allow_decides [OF c(1,2) policy_typed_arms [OF c(3) that(1)] that(2)])
  have "decides p c ?F ?u cells smax
    (case (attr_arms p x ident, ns_arms p x ident) of
       (Some attrArms, Some nsArms) \<Rightarrow> rbind (?run nsArms m) (\<lambda>(b, m1). if b then ?run attrArms m1 else Inr (False, m1))
     | (Some arms, None) \<Rightarrow> ?run arms m
     | (None, Some arms) \<Rightarrow> ?run arms m
     | (None, None) \<Rightarrow> Inr (False, m))
    (op_allowed p c ?F ?R x ident e)"
  proof (cases "attr_arms p x ident"; cases "ns_arms p x ident")
    fix as ns assume "attr_arms p x ident = Some as" "ns_arms p x ident = Some ns"
    with decides_seq [OF run [of ns m] run [of as]] m show ?thesis by (simp add: op_allowed_def conj_commute)
  qed (use run m in \<open>simp_all add: op_allowed_def decidesI\<close>)
  then obtain m' where "rmap (\<lambda>(b, m'). setOp (x, ident, e) b m')
    (case (attr_arms p x ident, ns_arms p x ident) of
       (Some attrArms, Some nsArms) \<Rightarrow> rbind (?run nsArms m) (\<lambda>(b, m1). if b then ?run attrArms m1 else Inr (False, m1))
     | (Some arms, None) \<Rightarrow> ?run arms m
     | (None, Some arms) \<Rightarrow> ?run arms m
     | (None, None) \<Rightarrow> Inr (False, m)) = Inr (setOp (x, ident, e) (op_allowed p c ?F ?R x ident e) m')"
    "memo_ok p c ?F ?u cells smax m'"
    by (auto elim!: decidesE)
  with None skip memo_ok_setOp [OF this(2) refl, of x ident e] show ?thesis
    unfolding allowsOp_def Let_def u [symmetric] by simp
qed

end
