(* ===== verification/PolicyFilter.thy ===== *)
theory PolicyFilter
  imports PolicyCorrect
begin

text \<open>
  The filtered database value (\<open>internal/core/policy/filter.ts\<close>): every raw read drops the
  datoms the caller may not read, judged by the current rules whatever the data view is. A
  filtered read returns exactly the readable datoms of the unfiltered read, in its order.
\<close>

section \<open>Filtered database values\<close>

text \<open>
  The memo of a view is shared and mutable; the reads below take it and return it. The
  runtime is what the evaluation takes from outside: fuel, platform, query engine.
\<close>

record policy_view =
  pv_policy :: compiled_policy
  pv_principal :: principal
  pv_ruleDb :: db
  pv_memo :: policy_memo

record runtime =
  rt_fuel :: nat
  rt_pf :: platform
  rt_engine :: "rule_db \<Rightarrow> jsval \<Rightarrow> jsval list \<Rightarrow> int \<Rightarrow> jsval res"

record filtered_db =
  fd_db :: db
  fd_view :: policy_view

datatype any_db = RawDb db | FilteredDb filtered_db

definition FilteredDb_asOf :: "int \<Rightarrow> filtered_db \<Rightarrow> filtered_db" where
  "FilteredDb_asOf t f = \<lparr>fd_db = Db_asOf t (fd_db f), fd_view = fd_view f\<rparr>"

definition FilteredDb_history :: "filtered_db \<Rightarrow> filtered_db" where
  "FilteredDb_history f = \<lparr>fd_db = Db_history (fd_db f), fd_view = fd_view f\<rparr>"

definition view_ctx :: "runtime \<Rightarrow> policy_view \<Rightarrow> eval_ctx" where
  "view_ctx rt v =
     \<lparr>ec_fuel = rt_fuel rt, ec_pf = rt_pf rt, ec_engine = rt_engine rt, ec_db = pv_ruleDb v,
      ec_principal = pv_principal v, ec_overlay = None, ec_maxCells = None\<rparr>"

definition read_attr :: "filtered_db \<Rightarrow> int \<Rightarrow> attribute option" where
  "read_attr f a =
     (case Db_attr (pv_ruleDb (fd_view f)) (Inl a) of
        Some at \<Rightarrow> Some at
      | None \<Rightarrow> Schema_attr (db_schema (fd_db f)) (Inl a))"

definition FilteredDb_visible :: "runtime \<Rightarrow> filtered_db \<Rightarrow> datom \<Rightarrow> policy_memo \<Rightarrow> (bool \<times> policy_memo) res" where
  "FilteredDb_visible rt f d m =
     (if isSystemAttrId (d_a d) then Inr (True, m)
      else case read_attr f (d_a d) of
        None \<Rightarrow> Inr (False, m)
      | Some at \<Rightarrow> allowsOp (pv_policy (fd_view f)) OpRead (at_ident at) (view_ctx rt (fd_view f)) (d_e d) m)"

fun FilteredDb_keep :: "runtime \<Rightarrow> filtered_db \<Rightarrow> datom list \<Rightarrow> policy_memo \<Rightarrow> (datom list \<times> policy_memo) res" where
  "FilteredDb_keep rt f [] m = Inr ([], m)"
| "FilteredDb_keep rt f (d # ds) m =
     rbind (FilteredDb_visible rt f d m) (\<lambda>(b, m1).
       rmap (\<lambda>(out, m2). (if b then d # out else out, m2)) (FilteredDb_keep rt f ds m1))"

fun FilteredDb_sieve :: "runtime \<Rightarrow> filtered_db \<Rightarrow> datom list list \<Rightarrow> policy_memo \<Rightarrow> (datom list list \<times> policy_memo) res" where
  "FilteredDb_sieve rt f [] m = Inr ([], m)"
| "FilteredDb_sieve rt f (arr # src) m =
     rbind (FilteredDb_keep rt f arr m) (\<lambda>(kept, m1).
       rmap (\<lambda>(out, m2). (if kept = [] then out else kept # out, m2)) (FilteredDb_sieve rt f src m1))"

definition FilteredDb_datoms ::
  "runtime \<Rightarrow> filtered_db \<Rightarrow> index \<Rightarrow> prefix \<Rightarrow> policy_memo \<Rightarrow> (datom list list \<times> policy_memo) res" where
  "FilteredDb_datoms rt f i p m = rbind (Db_datoms (rt_fuel rt) (fd_db f) i p) (\<lambda>src. FilteredDb_sieve rt f src m)"

text \<open>\<open>first\<close> pulls chunks only until one has a datom left.\<close>

fun first_kept :: "runtime \<Rightarrow> filtered_db \<Rightarrow> datom list list \<Rightarrow> policy_memo \<Rightarrow> (datom option \<times> policy_memo) res" where
  "first_kept rt f [] m = Inr (None, m)"
| "first_kept rt f (arr # src) m =
     rbind (FilteredDb_keep rt f arr m) (\<lambda>(kept, m1).
       case kept of [] \<Rightarrow> first_kept rt f src m1 | d # _ \<Rightarrow> Inr (Some d, m1))"

definition FilteredDb_first ::
  "runtime \<Rightarrow> filtered_db \<Rightarrow> index \<Rightarrow> prefix \<Rightarrow> policy_memo \<Rightarrow> (datom option \<times> policy_memo) res" where
  "FilteredDb_first rt f i p m = rbind (Db_datoms (rt_fuel rt) (fd_db f) i p) (\<lambda>src. first_kept rt f src m)"

definition filterDb :: "any_db \<Rightarrow> any_db \<Rightarrow> compiled_policy \<Rightarrow> principal \<Rightarrow> int \<Rightarrow> int option \<Rightarrow> int option \<Rightarrow> any_db" where
  "filterDb d ruleDb p who defaultCells maxCells visibleSetMax =
     (if isAdmin who then d
      else FilteredDb \<lparr>fd_db = (case d of RawDb x \<Rightarrow> x | FilteredDb f \<Rightarrow> fd_db f),
        fd_view = \<lparr>pv_policy = p, pv_principal = who,
          pv_ruleDb = (case ruleDb of RawDb x \<Rightarrow> x | FilteredDb f \<Rightarrow> pv_ruleDb (fd_view f)),
          pv_memo = PolicyMemo_new defaultCells maxCells visibleSetMax\<rparr>\<rparr>)"

definition policyView :: "any_db \<Rightarrow> policy_view option" where
  "policyView d = (case d of RawDb x \<Rightarrow> None | FilteredDb f \<Rightarrow> Some (fd_view f))"

section \<open>A filtered read is the readable part of the read\<close>

definition readable :: "runtime \<Rightarrow> filtered_db \<Rightarrow> (index \<Rightarrow> atree) \<Rightarrow> int \<Rightarrow> int \<Rightarrow> datom \<Rightarrow> bool" where
  "readable rt f t cells smax d \<longleftrightarrow>
     isSystemAttrId (d_a d) \<or>
     (case read_attr f (d_a d) of
        None \<Rightarrow> False
      | Some at \<Rightarrow> op_allowed (pv_policy (fd_view f)) (view_ctx rt (fd_view f)) (rule_facts (view_ctx rt (fd_view f)) t)
          (rule_holds (view_ctx rt (fd_view f)) cells smax (0 < smax) (po_rules (pv_policy (fd_view f)))) OpRead (at_ident at) (d_e d))"

definition view_ok :: "runtime \<Rightarrow> policy_view \<Rightarrow> (index \<Rightarrow> atree) \<Rightarrow> int \<Rightarrow> int \<Rightarrow> bool" where
  "view_ok rt v t cells smax \<longleftrightarrow> ctx_ok (view_ctx rt v) t \<and>
     engine_answers (view_ctx rt v) cells smax (po_rules (pv_policy v)) \<and> policy_typed (pv_policy v) (view_ctx rt v)"

definition view_memo_ok :: "runtime \<Rightarrow> policy_view \<Rightarrow> (index \<Rightarrow> atree) \<Rightarrow> int \<Rightarrow> int \<Rightarrow> policy_memo \<Rightarrow> bool" where
  "view_memo_ok rt v t cells smax m \<longleftrightarrow>
     memo_ok (pv_policy v) (view_ctx rt v) (rule_facts (view_ctx rt v) t) (0 < smax) cells smax m"

lemma view_uses_set: "uses_set OpRead (view_ctx rt v) smax = (0 < smax)"
  by (simp add: uses_set_def view_ctx_def)

lemma new_memo_ok:
  "view_memo_ok rt v t (case k of Some k \<Rightarrow> k | None \<Rightarrow> d) (case s of Some s \<Rightarrow> s | None \<Rightarrow> DEFAULT_VISIBLE_SET_MAX) (PolicyMemo_new d k s)"
  by (simp add: view_memo_ok_def memo_ok_def PolicyMemo_new_def eval_cells_def view_ctx_def)

lemma visible_spec:
  assumes "view_ok rt (fd_view f) t cells smax" "view_memo_ok rt (fd_view f) t cells smax m"
  shows "\<exists>m'. FilteredDb_visible rt f d m = Inr (readable rt f t cells smax d, m') \<and> view_memo_ok rt (fd_view f) t cells smax m'"
proof (cases "isSystemAttrId (d_a d) \<or> read_attr f (d_a d) = None")
  case True
  with assms(2) show ?thesis by (auto simp: FilteredDb_visible_def readable_def)
next
  case False
  then obtain at where at: "\<not> isSystemAttrId (d_a d)" "read_attr f (d_a d) = Some at" by auto
  have "decides (pv_policy (fd_view f)) (view_ctx rt (fd_view f)) (rule_facts (view_ctx rt (fd_view f)) t) (0 < smax) cells smax
      (FilteredDb_visible rt f d m) (readable rt f t cells smax d)"
    using op_decides [of "view_ctx rt (fd_view f)" t cells smax "pv_policy (fd_view f)" OpRead m "at_ident at" "d_e d"] assms at
    by (simp add: view_ok_def view_memo_ok_def view_uses_set FilteredDb_visible_def readable_def)
  then show ?thesis by (simp add: decides_def view_memo_ok_def)
qed

lemma keep_spec:
  assumes "view_ok rt (fd_view f) t cells smax" "view_memo_ok rt (fd_view f) t cells smax m"
  shows "\<exists>m'. FilteredDb_keep rt f ds m = Inr (filter (readable rt f t cells smax) ds, m') \<and> view_memo_ok rt (fd_view f) t cells smax m'"
  using assms(2)
proof (induction ds arbitrary: m)
  case (Cons d ds)
  obtain m1 where m1: "FilteredDb_visible rt f d m = Inr (readable rt f t cells smax d, m1)" "view_memo_ok rt (fd_view f) t cells smax m1"
    using visible_spec [OF assms(1) Cons.prems] by blast
  with Cons.IH [OF m1(2)] show ?case by auto
qed simp

definition non_empty :: "'a list list \<Rightarrow> 'a list list" where
  "non_empty xss = filter (\<lambda>xs. xs \<noteq> []) xss"

lemma sieve_spec:
  assumes "view_ok rt (fd_view f) t cells smax" "view_memo_ok rt (fd_view f) t cells smax m"
  shows "\<exists>m'. FilteredDb_sieve rt f src m = Inr (non_empty (map (filter (readable rt f t cells smax)) src), m') \<and>
    view_memo_ok rt (fd_view f) t cells smax m'"
  using assms(2)
proof (induction src arbitrary: m)
  case (Cons arr src)
  obtain m1 where m1: "FilteredDb_keep rt f arr m = Inr (filter (readable rt f t cells smax) arr, m1)" "view_memo_ok rt (fd_view f) t cells smax m1"
    using keep_spec [OF assms(1) Cons.prems] by blast
  with Cons.IH [OF m1(2)] show ?case by (auto simp: non_empty_def)
qed (simp add: non_empty_def)

lemma concat_non_empty: "concat (non_empty (map (filter P) xss)) = filter P (concat xss)"
  by (induction xss) (auto simp: non_empty_def)

lemma first_kept_spec:
  assumes "view_ok rt (fd_view f) t cells smax" "view_memo_ok rt (fd_view f) t cells smax m"
  shows "\<exists>m'. first_kept rt f src m = Inr (head_opt (filter (readable rt f t cells smax) (concat src)), m') \<and>
    view_memo_ok rt (fd_view f) t cells smax m'"
  using assms(2)
proof (induction src arbitrary: m)
  case Nil
  then show ?case by (simp add: head_opt_def)
next
  case (Cons arr src)
  obtain m1 where m1: "FilteredDb_keep rt f arr m = Inr (filter (readable rt f t cells smax) arr, m1)" "view_memo_ok rt (fd_view f) t cells smax m1"
    using keep_spec [OF assms(1) Cons.prems] by blast
  with Cons.IH [OF m1(2)] show ?case
    by (cases "filter (readable rt f t cells smax) arr") (auto simp: head_opt_def)
qed

lemma filtered_read:
  assumes "view_ok rt (fd_view f) t cells smax" "view_memo_ok rt (fd_view f) t cells smax m"
    and "datomsArray (rt_fuel rt) (fd_db f) i p = Inr ds"
  shows "\<exists>chunks m' m''. FilteredDb_datoms rt f i p m = Inr (chunks, m') \<and> view_memo_ok rt (fd_view f) t cells smax m' \<and>
      (\<forall>ch\<in>set chunks. ch \<noteq> []) \<and> concat chunks = filter (readable rt f t cells smax) ds \<and>
      FilteredDb_first rt f i p m = Inr (head_opt (filter (readable rt f t cells smax) ds), m'') \<and>
      view_memo_ok rt (fd_view f) t cells smax m''"
proof -
  obtain src where src: "Db_datoms (rt_fuel rt) (fd_db f) i p = Inr src" "ds = concat src"
    using assms(3) by (auto simp: datomsArray_def res_simps)
  let ?P = "readable rt f t cells smax"
  obtain m' where "FilteredDb_sieve rt f src m = Inr (non_empty (map (filter ?P) src), m')" "view_memo_ok rt (fd_view f) t cells smax m'"
    using sieve_spec [OF assms(1,2)] by blast
  moreover obtain m'' where "first_kept rt f src m = Inr (head_opt (filter ?P (concat src)), m'')" "view_memo_ok rt (fd_view f) t cells smax m''"
    using first_kept_spec [OF assms(1,2)] by blast
  moreover have "\<forall>ch\<in>set (non_empty (map (filter ?P) src)). ch \<noteq> []" by (simp add: non_empty_def)
  ultimately show ?thesis
    using src by (simp add: FilteredDb_datoms_def FilteredDb_first_def concat_non_empty)
qed

end
