(* ===== verification/PolicyCheck.thy ===== *)
theory PolicyCheck
  imports PolicyFilter
begin

text \<open>
  The write check and the provisioning of principals (\<open>internal/core/policy/check.ts\<close>,
  \<open>provision.ts\<close>): a transaction is expanded against the database value it will apply to,
  and every resulting operation is judged. An accepted transaction consists of allowed
  operations and of preset values the policy dictates.
\<close>

section \<open>Presets\<close>

definition RETRACT_ENTITY_CAP :: nat where "RETRACT_ENTITY_CAP = 10000"

text \<open>A denial names the attribute (an unknown one is kept as it was given) and the operation.\<close>

datatype check_result = CheckOk "jsval list" | PolicyDenied jsval jsstr

record new_entity =
  ne_ref :: jsval
  ne_attrs :: "jsstr list"

definition preset_add :: "jsval \<Rightarrow> jsstr \<Rightarrow> jsval \<Rightarrow> jsval" where
  "preset_add ref ident v = JArr [JStr (js '':db/add''), ref, JStr ident, v]"

fun preset_entries :: "principal \<Rightarrow> new_entity \<Rightarrow> (jsstr \<times> policy_operand) list \<Rightarrow> jsval list \<Rightarrow> check_result" where
  "preset_entries who ent [] ops = CheckOk ops"
| "preset_entries who ent ((ident, operand) # rest) ops =
     (if ident \<in> set (ne_attrs ent) then preset_entries who ent rest ops
      else if nsPrefix ident \<notin> set (map nsPrefix (ne_attrs ent)) then preset_entries who ent rest ops
      else let v = presetValue operand who
        in if v = JUndefined then PolicyDenied (JStr ident) (js ''create'')
           else preset_entries who ent rest (ops @ [preset_add (ne_ref ent) ident v]))"

fun preset_entities :: "compiled_policy \<Rightarrow> principal \<Rightarrow> new_entity list \<Rightarrow> jsval list \<Rightarrow> check_result" where
  "preset_entities p who [] ops = CheckOk ops"
| "preset_entities p who (ent # ents) ops =
     (case preset_entries who ent (po_preset p) ops of
        CheckOk ops' \<Rightarrow> preset_entities p who ents ops'
      | PolicyDenied a x \<Rightarrow> PolicyDenied a x)"

definition presetOps :: "compiled_policy \<Rightarrow> principal \<Rightarrow> new_entity list \<Rightarrow> check_result" where
  "presetOps p who newEntities = preset_entities p who newEntities []"

section \<open>Checking a transaction\<close>

fun kind_name :: "op_kind \<Rightarrow> jsstr" where
  "kind_name KAdd = js ''add''"
| "kind_name KRetract = js ''retract''"
| "kind_name KRetractEntity = js ''retractEntity''"

text \<open>Attributes outside the schema, and the system's own, never reach a rule.\<close>

fun check_attrs :: "schema \<Rightarrow> tx_op list \<Rightarrow> (jsval \<times> jsstr) option" where
  "check_attrs sch [] = None"
| "check_attrs sch (x # xs) =
     (if op_kind x = KRetractEntity then check_attrs sch xs
      else case (case attr_key (op_a x) of Some k \<Rightarrow> Schema_attr sch k | None \<Rightarrow> None) of
        None \<Rightarrow> Some (op_a x, kind_name (op_kind x))
      | Some at \<Rightarrow>
          if isSystemAttrId (at_id at) then Some (JStr (at_ident at), kind_name (op_kind x)) else check_attrs sch xs)"

definition tx_overlay :: "expanded_op list \<Rightarrow> ref_overlay" where
  "tx_overlay ops =
     fold (\<lambda>x ov. case d_v (xo_datom x) of
         VRef v \<Rightarrow>
           if xo_kind x = KAdd
           then jm_set (xo_e x, xo_a x) ((case jm_get ov (xo_e x, xo_a x) of Some cur \<Rightarrow> cur | None \<Rightarrow> []) @ [v]) ov
           else ov
       | _ \<Rightarrow> ov) ops []"

definition is_create :: "int list \<Rightarrow> expanded_op \<Rightarrow> bool" where
  "is_create news x \<longleftrightarrow> xo_kind x = KAdd \<and> xo_e x \<in> set news"

definition policy_op_of :: "int list \<Rightarrow> expanded_op \<Rightarrow> policy_op" where
  "policy_op_of news x =
     (if xo_fromRetractEntity x then OpRetractEntity
      else if xo_kind x = KRetract then OpRetract
      else if is_create news x then OpCreate
      else OpAdd)"

text \<open>
  The attribute of an operation has no ident when a retracted entity holds a datom whose
  attribute the schema does not know.
\<close>

definition no_ident :: "expanded_op \<Rightarrow> bool" where
  "no_ident x \<longleftrightarrow> xo_attr x = stub_attribute (xo_a x)"

text \<open>The peer owns preset values: the same value passes, any other is denied.\<close>

definition preset_matches :: "platform \<Rightarrow> principal \<Rightarrow> policy_operand \<Rightarrow> expanded_op \<Rightarrow> bool res" where
  "preset_matches pf who operand x =
     (let want = presetValue operand who
      in if want = JUndefined then Inr False
         else case Db_coerce pf (xo_attr x) want of
           Inl _ \<Rightarrow> Inr False
         | Inr tv \<Rightarrow> rmap (\<lambda>v. valueKey pf v = valueKey pf (d_v (xo_datom x))) (value_res tv))"

text \<open>The two memos: \<open>create\<close> arms see the overlay, everything else does not.\<close>

type_synonym two_memos = "policy_memo \<times> policy_memo"

definition check_ctx :: "runtime \<Rightarrow> db \<Rightarrow> principal \<Rightarrow> ref_overlay option \<Rightarrow> eval_ctx" where
  "check_ctx rt d who ov =
     \<lparr>ec_fuel = rt_fuel rt, ec_pf = rt_pf rt, ec_engine = rt_engine rt, ec_db = d, ec_principal = who,
      ec_overlay = ov, ec_maxCells = None\<rparr>"

definition check_rule ::
  "runtime \<Rightarrow> db \<Rightarrow> compiled_policy \<Rightarrow> principal \<Rightarrow> ref_overlay \<Rightarrow> policy_op \<Rightarrow> jsstr \<Rightarrow> int \<Rightarrow> two_memos \<Rightarrow> (bool \<times> two_memos) res" where
  "check_rule rt d p who overlay pop ident e ms =
     (if pop = OpCreate
      then rmap (\<lambda>(b, m'). (b, (fst ms, m'))) (allowsOp p pop ident (check_ctx rt d who (Some overlay)) e (snd ms))
      else rmap (\<lambda>(b, m'). (b, (m', snd ms))) (allowsOp p pop ident (check_ctx rt d who None) e (fst ms)))"

definition check_op ::
  "runtime \<Rightarrow> db \<Rightarrow> compiled_policy \<Rightarrow> principal \<Rightarrow> ref_overlay \<Rightarrow> int list \<Rightarrow> expanded_op \<Rightarrow> two_memos \<Rightarrow>
    ((jsval \<times> jsstr) option \<times> two_memos) res" where
  "check_op rt d p who overlay news x ms =
     (let ident = at_ident (xo_attr x); pop = policy_op_of news x
      in if no_ident x then Inr (Some (JStr (int_string (xo_a x)), kind_name (xo_kind x)), ms)
         else if isSystemAttrId (xo_a x) then Inr (Some (JStr ident, kind_name (xo_kind x)), ms)
         else case (if pop = OpCreate then jm_get (po_preset p) ident else None) of
           Some operand \<Rightarrow>
             rmap (\<lambda>b. (if b then None else Some (JStr ident, js ''create''), ms)) (preset_matches (rt_pf rt) who operand x)
         | None \<Rightarrow>
             rmap (\<lambda>(b, ms'). (if b then None else Some (JStr ident, op_name pop), ms'))
               (check_rule rt d p who overlay pop ident (xo_e x) ms))"

fun check_ops ::
  "runtime \<Rightarrow> db \<Rightarrow> compiled_policy \<Rightarrow> principal \<Rightarrow> ref_overlay \<Rightarrow> int list \<Rightarrow> expanded_op list \<Rightarrow> two_memos \<Rightarrow>
    (jsval \<times> jsstr) option res" where
  "check_ops rt d p who overlay news [] ms = Inr None"
| "check_ops rt d p who overlay news (x # xs) ms =
     rbind (check_op rt d p who overlay news x ms) (\<lambda>(r, ms').
       case r of Some den \<Rightarrow> Inr (Some den) | None \<Rightarrow> check_ops rt d p who overlay news xs ms')"

definition created_attrs :: "int list \<Rightarrow> expanded_op list \<Rightarrow> (int, jsstr list) jsmap" where
  "created_attrs news ops =
     fold (\<lambda>x m. if is_create news x
         then jm_set (xo_e x) ((case jm_get m (xo_e x) of Some l \<Rightarrow> l | None \<Rightarrow> []) @ [at_ident (xo_attr x)]) m
         else m) ops []"

text \<open>\<open>Object.entries\<close> lists array indices first, in their order, then the other keys as inserted.\<close>

definition array_index :: "jsstr \<Rightarrow> nat option" where
  "array_index k =
     (let n = digits_value 0 k in if nat_digits n = k \<and> n < 4294967295 then Some n else None)"

definition object_entries :: "(jsstr \<times> 'v) list \<Rightarrow> (jsstr \<times> 'v) list" where
  "object_entries m =
     sort_key (\<lambda>(k, v). the (array_index k)) (filter (\<lambda>(k, v). array_index k \<noteq> None) m) @
     filter (\<lambda>(k, v). array_index k = None) m"

definition is_generated :: "jsstr \<Rightarrow> bool" where
  "is_generated tid \<longleftrightarrow> take (length GENERATED_TEMPID_PREFIX) tid = GENERATED_TEMPID_PREFIX"

definition tempid_of :: "(int, jsstr list) jsmap \<Rightarrow> (jsstr, int) jsmap \<Rightarrow> (int, jsstr) jsmap" where
  "tempid_of created tempids =
     fold (\<lambda>(tid, eid) m.
         if \<not> jm_has created eid then m
         else case jm_get m eid of
           None \<Rightarrow> jm_set eid tid m
         | Some prev \<Rightarrow> if is_generated prev \<and> \<not> is_generated tid then jm_set eid tid m else m)
       (object_entries tempids) []"

definition new_entities :: "(int, jsstr list) jsmap \<Rightarrow> (jsstr, int) jsmap \<Rightarrow> new_entity list" where
  "new_entities created tempids =
     map (\<lambda>(e, attrs). \<lparr>ne_ref = (case jm_get (tempid_of created tempids) e of Some t \<Rightarrow> JStr t | None \<Rightarrow> JNum (NInt e)),
            ne_attrs = attrs\<rparr>) created"

text \<open>Injection comes after the evaluation and is exempt from it.\<close>

definition inject_presets :: "compiled_policy \<Rightarrow> principal \<Rightarrow> tx_expansion \<Rightarrow> jsval list \<Rightarrow> check_result" where
  "inject_presets p who x ops =
     (let created = created_attrs (tx_newEntities x) (tx_ops x)
      in if created = [] then CheckOk ops
         else case presetOps p who (new_entities created (tr_tempids (tx_res x))) of
           PolicyDenied a k \<Rightarrow> PolicyDenied a k
         | CheckOk injected \<Rightarrow> CheckOk (ops @ injected))"

definition expand_checked ::
  "runtime \<Rightarrow> nat \<times> nat \<times> nat \<Rightarrow> db \<Rightarrow> jsval list \<Rightarrow> tx_expansion option res" where
  "expand_checked rt fuel d txData =
     (case expandTx fuel (rt_pf rt) d txData (db_basisT d + 1) (db_nextEid d) 0 (Some RETRACT_ENTITY_CAP) of
        Inr x \<Rightarrow> Inr (Some x)
      | Inl (TxError msg code) \<Rightarrow> if code = ''tx/closure-cap'' then Inr None else Inl (TxError msg code)
      | Inl err \<Rightarrow> Inl err)"

definition checkTx ::
  "runtime \<Rightarrow> nat \<times> nat \<times> nat \<Rightarrow> int \<Rightarrow> jsval list \<Rightarrow> db \<Rightarrow> compiled_policy \<Rightarrow> principal \<Rightarrow> schema option \<Rightarrow> check_result res" where
  "checkTx rt fuel defaultCells txData d p who sch =
     (if isAdmin who then Inr (CheckOk txData)
      else
        rbind (flattenTxData txData) (\<lambda>flat.
          case check_attrs (case sch of Some s \<Rightarrow> s | None \<Rightarrow> db_schema d) flat of
            Some (a, k) \<Rightarrow> Inr (PolicyDenied a k)
          | None \<Rightarrow>
              rbind (expand_checked rt fuel d txData) (\<lambda>r.
                case r of
                  None \<Rightarrow> Inr (PolicyDenied (JStr (js '':db/retractEntity'')) (js ''retractEntity''))
                | Some x \<Rightarrow>
                    let memo = PolicyMemo_new defaultCells None None
                    in rmap (\<lambda>den. case den of
                          Some (a, k) \<Rightarrow> PolicyDenied a k
                        | None \<Rightarrow> inject_presets p who x txData)
                      (check_ops rt d p who (tx_overlay (tx_ops x)) (tx_newEntities x) (tx_ops x) (memo, memo)))))"

section \<open>What an accepted transaction may do\<close>

definition write_ctx :: "runtime \<Rightarrow> db \<Rightarrow> principal \<Rightarrow> ref_overlay \<Rightarrow> policy_op \<Rightarrow> eval_ctx" where
  "write_ctx rt d who overlay pop = check_ctx rt d who (if pop = OpCreate then Some overlay else None)"

definition write_allowed ::
  "runtime \<Rightarrow> db \<Rightarrow> (index \<Rightarrow> atree) \<Rightarrow> compiled_policy \<Rightarrow> principal \<Rightarrow> ref_overlay \<Rightarrow> int \<Rightarrow> policy_op \<Rightarrow> jsstr \<Rightarrow> int \<Rightarrow> bool" where
  "write_allowed rt d t p who overlay cells pop ident e \<longleftrightarrow>
     op_allowed p (write_ctx rt d who overlay pop) (rule_facts (write_ctx rt d who overlay pop) t)
       (rule_holds (write_ctx rt d who overlay pop) cells DEFAULT_VISIBLE_SET_MAX False (po_rules p)) pop ident e"

definition op_accepted ::
  "runtime \<Rightarrow> db \<Rightarrow> (index \<Rightarrow> atree) \<Rightarrow> compiled_policy \<Rightarrow> principal \<Rightarrow> ref_overlay \<Rightarrow> int \<Rightarrow> int list \<Rightarrow> expanded_op \<Rightarrow> bool" where
  "op_accepted rt d t p who overlay cells news x \<longleftrightarrow>
     \<not> no_ident x \<and> \<not> isSystemAttrId (xo_a x) \<and>
     (case (if policy_op_of news x = OpCreate then jm_get (po_preset p) (at_ident (xo_attr x)) else None) of
        Some operand \<Rightarrow> preset_matches (rt_pf rt) who operand x = Inr True
      | None \<Rightarrow> write_allowed rt d t p who overlay cells (policy_op_of news x) (at_ident (xo_attr x)) (xo_e x))"

definition check_ok :: "runtime \<Rightarrow> db \<Rightarrow> (index \<Rightarrow> atree) \<Rightarrow> compiled_policy \<Rightarrow> principal \<Rightarrow> ref_overlay \<Rightarrow> int \<Rightarrow> bool" where
  "check_ok rt d t p who overlay cells \<longleftrightarrow>
     (\<forall>pop. ctx_ok (write_ctx rt d who overlay pop) t \<and> policy_typed p (write_ctx rt d who overlay pop) \<and>
        engine_answers (write_ctx rt d who overlay pop) cells DEFAULT_VISIBLE_SET_MAX (po_rules p))"

definition write_memo_ok ::
  "runtime \<Rightarrow> db \<Rightarrow> (index \<Rightarrow> atree) \<Rightarrow> compiled_policy \<Rightarrow> principal \<Rightarrow> ref_overlay \<Rightarrow> int \<Rightarrow> policy_op \<Rightarrow> policy_memo \<Rightarrow> bool" where
  "write_memo_ok rt d t p who overlay cells pop m \<longleftrightarrow>
     memo_ok p (write_ctx rt d who overlay pop) (rule_facts (write_ctx rt d who overlay pop) t) False cells DEFAULT_VISIBLE_SET_MAX m"

definition memos_ok ::
  "runtime \<Rightarrow> db \<Rightarrow> (index \<Rightarrow> atree) \<Rightarrow> compiled_policy \<Rightarrow> principal \<Rightarrow> ref_overlay \<Rightarrow> int \<Rightarrow> two_memos \<Rightarrow> bool" where
  "memos_ok rt d t p who overlay cells ms \<longleftrightarrow>
     (\<forall>pop. write_memo_ok rt d t p who overlay cells pop (if pop = OpCreate then snd ms else fst ms))"

lemma policy_op_of_not_read: "policy_op_of news x \<noteq> OpRead"
  by (simp add: policy_op_of_def)

lemma write_ctx_cong: "(pop = OpCreate) = (pop' = OpCreate) \<Longrightarrow> write_ctx rt d who ov pop = write_ctx rt d who ov pop'"
  by (simp add: write_ctx_def)

lemma memos_ok_update:
  assumes "memos_ok rt d t p who ov cells ms" "write_memo_ok rt d t p who ov cells pop m"
  shows "memos_ok rt d t p who ov cells (if pop = OpCreate then (fst ms, m) else (m, snd ms))"
proof -
  have "write_memo_ok rt d t p who ov cells pop' m" if "(pop' = OpCreate) = (pop = OpCreate)" for pop'
    using assms(2) unfolding write_memo_ok_def write_ctx_cong [OF that] .
  moreover have "write_memo_ok rt d t p who ov cells pop' (if pop' = OpCreate then snd ms else fst ms)" for pop'
    using assms(1) unfolding memos_ok_def by blast
  ultimately show ?thesis unfolding memos_ok_def by (smt (verit, best) fst_conv snd_conv)
qed

lemma check_rule_decides:
  assumes "check_ok rt d t p who ov cells" "memos_ok rt d t p who ov cells ms" "pop \<noteq> OpRead"
  shows "\<exists>ms'. check_rule rt d p who ov pop ident e ms = Inr (write_allowed rt d t p who ov cells pop ident e, ms') \<and>
    memos_ok rt d t p who ov cells ms'"
proof -
  let ?c = "write_ctx rt d who ov pop" and ?m = "if pop = OpCreate then snd ms else fst ms"
  have u: "uses_set pop ?c DEFAULT_VISIBLE_SET_MAX = False" using assms(3) by (simp add: uses_set_def)
  have c: "ctx_ok ?c t" "engine_answers ?c cells DEFAULT_VISIBLE_SET_MAX (po_rules p)" "policy_typed p ?c"
    using assms(1) by (auto simp: check_ok_def)
  have m: "memo_ok p ?c (rule_facts ?c t) (uses_set pop ?c DEFAULT_VISIBLE_SET_MAX) cells DEFAULT_VISIBLE_SET_MAX ?m"
    using assms(2) unfolding u memos_ok_def write_memo_ok_def by blast
  obtain m' where m': "allowsOp p pop ident ?c e ?m = Inr (write_allowed rt d t p who ov cells pop ident e, m')"
    "write_memo_ok rt d t p who ov cells pop m'"
    using op_decides [OF c m, of ident e] unfolding u write_allowed_def write_memo_ok_def by (rule decidesE)
  have "check_rule rt d p who ov pop ident e ms =
    rmap (\<lambda>(b, m'). (b, if pop = OpCreate then (fst ms, m') else (m', snd ms))) (allowsOp p pop ident ?c e ?m)"
    by (simp add: check_rule_def write_ctx_def)
  with m' memos_ok_update [OF assms(2) m'(2)] show ?thesis by simp
qed

lemma check_op_decides:
  assumes "check_ok rt d t p who ov cells" "memos_ok rt d t p who ov cells ms"
    and "check_op rt d p who ov news x ms = Inr (r, ms')"
  shows "(r = None \<longleftrightarrow> op_accepted rt d t p who ov cells news x) \<and> memos_ok rt d t p who ov cells ms'"
proof -
  let ?pop = "policy_op_of news x" and ?ident = "at_ident (xo_attr x)"
  let ?preset = "if ?pop = OpCreate then jm_get (po_preset p) ?ident else None"
  consider (outside) "no_ident x" | (system) "\<not> no_ident x" "isSystemAttrId (xo_a x)"
    | (preset) operand where "\<not> no_ident x" "\<not> isSystemAttrId (xo_a x)" "?preset = Some operand"
    | (rule) "\<not> no_ident x" "\<not> isSystemAttrId (xo_a x)" "?preset = None"
    by blast
  then show ?thesis
  proof cases
    case preset
    then have "\<exists>b. preset_matches (rt_pf rt) who operand x = Inr b \<and> (r = None \<longleftrightarrow> b) \<and> ms' = ms"
      using assms(3) unfolding check_op_def Let_def preset(3) by (auto simp: res_simps)
    with preset assms(2) show ?thesis unfolding op_accepted_def preset(3) by auto
  next
    case rule
    obtain ms1 where "check_rule rt d p who ov ?pop ?ident (xo_e x) ms =
        Inr (write_allowed rt d t p who ov cells ?pop ?ident (xo_e x), ms1)" "memos_ok rt d t p who ov cells ms1"
      using check_rule_decides [OF assms(1,2) policy_op_of_not_read] by blast
    with rule(1,2) assms(3) show ?thesis unfolding check_op_def Let_def op_accepted_def rule(3) by (auto split: if_splits)
  qed (use assms(2,3) in \<open>auto simp: check_op_def op_accepted_def Let_def\<close>)
qed

lemma check_ops_decides:
  assumes "check_ok rt d t p who ov cells" "memos_ok rt d t p who ov cells ms"
    and "check_ops rt d p who ov news xs ms = Inr r"
  shows "r = None \<longleftrightarrow> (\<forall>x\<in>set xs. op_accepted rt d t p who ov cells news x)"
  using assms(2,3)
proof (induction xs arbitrary: ms)
  case (Cons x xs)
  obtain r1 ms1 where r1: "check_op rt d p who ov news x ms = Inr (r1, ms1)" using Cons.prems(2) by (auto simp: res_simps)
  note x = check_op_decides [OF assms(1) Cons.prems(1) r1]
  show ?case
  proof (cases r1)
    case None
    then have "check_ops rt d p who ov news xs ms1 = Inr r" using Cons.prems(2) r1 by simp
    from Cons.IH [OF _ this] x None show ?thesis by simp
  next
    case (Some den)
    then have "r = Some den" using Cons.prems(2) r1 by simp
    with x Some show ?thesis by simp
  qed
qed simp

text \<open>Every injected operation asserts the value of a preset.\<close>

definition injects :: "compiled_policy \<Rightarrow> principal \<Rightarrow> jsval list \<Rightarrow> bool" where
  "injects p who ops \<longleftrightarrow>
     (\<forall>y\<in>set ops. \<exists>ref ident operand. (ident, operand) \<in> set (po_preset p) \<and> y = preset_add ref ident (presetValue operand who))"

lemma preset_entries_inject:
  "preset_entries who ent entries ops = CheckOk ops' \<Longrightarrow> set entries \<subseteq> set (po_preset p) \<Longrightarrow> injects p who ops \<Longrightarrow> injects p who ops'"
proof (induction who ent entries ops rule: preset_entries.induct)
  case (2 who ent ident operand rest ops)
  have "injects p who (ops @ [preset_add (ne_ref ent) ident (presetValue operand who)])"
    using "2.prems"(2,3) by (auto simp: injects_def)
  with 2 show ?case by (auto simp: Let_def split: if_splits)
qed simp

lemma preset_entities_inject:
  "preset_entities p who ents ops = CheckOk ops' \<Longrightarrow> injects p who ops \<Longrightarrow> injects p who ops'"
proof (induction ents arbitrary: ops)
  case (Cons ent ents)
  then obtain ops1 where ops1: "preset_entries who ent (po_preset p) ops = CheckOk ops1" "preset_entities p who ents ops1 = CheckOk ops'"
    by (auto split: check_result.splits)
  with Cons preset_entries_inject [OF ops1(1)] show ?case by blast
qed simp

lemma inject_presets_spec:
  "inject_presets p who x ops = CheckOk ops' \<Longrightarrow> \<exists>extra. ops' = ops @ extra \<and> injects p who extra"
  using preset_entities_inject [of p who _ "[]"]
  by (auto simp: inject_presets_def presetOps_def Let_def injects_def [of _ _ "[]"] split: if_splits check_result.splits)

lemma new_memos_ok: "memos_ok rt d t p who ov k (PolicyMemo_new k None None, PolicyMemo_new k None None)"
  by (simp add: memos_ok_def write_memo_ok_def memo_ok_def PolicyMemo_new_def eval_cells_def write_ctx_def check_ctx_def)

lemma checkTx_accepts:
  assumes "\<not> isAdmin who" "checkTx rt fuel cells txData d p who sch = Inr (CheckOk ops)"
    and "\<And>x. expand_checked rt fuel d txData = Inr (Some x) \<Longrightarrow> check_ok rt d t p who (tx_overlay (tx_ops x)) cells"
  shows "\<exists>x extra. expandTx fuel (rt_pf rt) d txData (db_basisT d + 1) (db_nextEid d) 0 (Some RETRACT_ENTITY_CAP) = Inr x \<and>
    (\<forall>y\<in>set (tx_ops x). op_accepted rt d t p who (tx_overlay (tx_ops x)) cells (tx_newEntities x) y) \<and>
    ops = txData @ extra \<and> injects p who extra"
proof -
  obtain x den where den: "expand_checked rt fuel d txData = Inr (Some x)"
    "check_ops rt d p who (tx_overlay (tx_ops x)) (tx_newEntities x) (tx_ops x)
      (PolicyMemo_new cells None None, PolicyMemo_new cells None None) = Inr den"
    "(case den of Some (a, k) \<Rightarrow> PolicyDenied a k | None \<Rightarrow> inject_presets p who x txData) = CheckOk ops"
    using assms(1,2) unfolding checkTx_def Let_def
    by (auto simp: res_simps split: option.splits [where option = "check_attrs _ _"] option.splits [where option = "_ :: tx_expansion option"])
  then have "den = None" "inject_presets p who x txData = CheckOk ops" by (auto split: option.splits)
  with den have x: "expand_checked rt fuel d txData = Inr (Some x)"
    "check_ops rt d p who (tx_overlay (tx_ops x)) (tx_newEntities x) (tx_ops x)
      (PolicyMemo_new cells None None, PolicyMemo_new cells None None) = Inr None"
    "inject_presets p who x txData = CheckOk ops"
    by simp_all
  have "expandTx fuel (rt_pf rt) d txData (db_basisT d + 1) (db_nextEid d) 0 (Some RETRACT_ENTITY_CAP) = Inr x"
    using x(1) by (auto simp: expand_checked_def split: sum.splits jserr.splits if_splits)
  moreover have "\<forall>y\<in>set (tx_ops x). op_accepted rt d t p who (tx_overlay (tx_ops x)) cells (tx_newEntities x) y"
    using check_ops_decides [OF assms(3) [OF x(1)] new_memos_ok x(2)] by simp
  ultimately show ?thesis using inject_presets_spec [OF x(3)] by blast
qed

end
