(* ===== verification/PolicyProvision.thy ===== *)
theory PolicyProvision
  imports PolicyCheck
begin

text \<open>
  Provisioning of principals (\<open>internal/core/policy/provision.ts\<close>): the row that the peer owns
  for a signed-in user, with the subject, the class as its role, and the claims that have an
  attribute of a fitting type.
\<close>

definition ROLE_NAME :: jsstr where "ROLE_NAME = js ''role''"

definition shouldProvision :: "principal \<Rightarrow> bool" where
  "shouldProvision who \<longleftrightarrow> pr_kind who = KUser \<and> (case pr_sub who of Some s \<Rightarrow> s \<noteq> [] | None \<Rightarrow> False)"

definition siblingIdentOf :: "jsstr \<Rightarrow> jsstr \<Rightarrow> jsstr" where
  "siblingIdentOf principalAttr name =
     (let slash = last_slash principalAttr
      in (if slash \<le> 0 then principalAttr else take (nat slash) principalAttr) @ [0x2F] @ name)"

definition roleIdentOf :: "jsstr \<Rightarrow> jsstr" where
  "roleIdentOf principalAttr = siblingIdentOf principalAttr ROLE_NAME"

definition isStringAttr :: "attribute \<Rightarrow> bool" where
  "isStringAttr at \<longleftrightarrow> at_valueType at = Some Str"

definition reservedNames :: "jsstr \<Rightarrow> jsstr list" where
  "reservedNames principalAttr =
     (let slash = last_slash principalAttr
      in [if slash \<le> 0 then principalAttr else drop (nat slash + 1) principalAttr, ROLE_NAME])"

definition num_isFinite :: "jsnum \<Rightarrow> bool" where
  "num_isFinite k = (case k of NInt n \<Rightarrow> True | NDbl x \<Rightarrow> unat x div 2 ^ 52 mod 2048 < 2047)"

definition valueMatchesAttr :: "attribute \<Rightarrow> jsval \<Rightarrow> bool" where
  "valueMatchesAttr at v \<longleftrightarrow>
     at_cardinality at = One \<and>
     (case (at_valueType at, v) of
        (Some Str, JStr s) \<Rightarrow> True
      | (Some Bool, JBool b) \<Rightarrow> True
      | (Some Long, JNum k) \<Rightarrow> isSafeInteger k
      | (Some Double, JNum k) \<Rightarrow> num_isFinite k
      | _ \<Rightarrow> False)"

text \<open>
  Strict equality of primitives. The facts that are wanted are strings, booleans and finite
  numbers; a value that is an object is never equal to one.
\<close>

fun strict_equal :: "jsval \<Rightarrow> jsval \<Rightarrow> bool" where
  "strict_equal (JStr a) (JStr b) = (a = b)"
| "strict_equal (JBool a) (JBool b) = (a = b)"
| "strict_equal (JNum a) (JNum b) = f64_eq (num_f64 a) (num_f64 b)"
| "strict_equal _ _ = False"

definition factsMatch :: "(jsstr, jsval) jsmap \<Rightarrow> (jsstr, jsval) jsmap \<Rightarrow> bool" where
  "factsMatch ent wanted \<longleftrightarrow>
     (\<forall>(ident, v)\<in>set wanted. case jm_get ent ident of Some w \<Rightarrow> strict_equal w v | None \<Rightarrow> False)"

text \<open>\<open>Object.entries\<close>: strings, arrays and byte arrays have indices as keys.\<close>

fun js_entries :: "jsval \<Rightarrow> (jsstr \<times> jsval) list" where
  "js_entries (JObj o') = o'"
| "js_entries (JArr xs) = map (\<lambda>i. (nat_digits i, xs ! i)) [0..<length xs]"
| "js_entries (JStr s) = map (\<lambda>i. (nat_digits i, JStr [s ! i])) [0..<length s]"
| "js_entries (JBytes b) = map (\<lambda>i. (nat_digits i, JNum (NInt (uint (b ! i))))) [0..<length b]"
| "js_entries _ = []"

definition claim_attrs :: "principal \<Rightarrow> (jsstr \<times> jsval) list" where
  "claim_attrs who = js_entries (j_get (pr_claims who) ''attrs'')"

definition claim_fact :: "db \<Rightarrow> jsstr \<Rightarrow> jsstr \<times> jsval \<Rightarrow> (jsstr, jsval) jsmap \<Rightarrow> (jsstr, jsval) jsmap" where
  "claim_fact d ident entry m =
     (case entry of (key, v) \<Rightarrow>
        if key \<in> set (reservedNames ident) \<or> nullish v then m
        else case Db_attr d (Inr (siblingIdentOf ident key)) of
          None \<Rightarrow> m
        | Some at \<Rightarrow> if valueMatchesAttr at v then jm_set (siblingIdentOf ident key) v m else m)"

definition wantedFacts :: "compiled_policy \<Rightarrow> principal \<Rightarrow> db \<Rightarrow> (jsstr, jsval) jsmap option" where
  "wantedFacts p who d =
     (if \<not> shouldProvision who then None
      else let ident = po_principal p
        in case Db_attr d (Inr ident) of
          None \<Rightarrow> None
        | Some at \<Rightarrow>
            if at_unique at \<noteq> Some UIdentity then None
            else
              let m0 = [(ident, JStr (the (pr_sub who)))];
                  m1 = (case Db_attr d (Inr (roleIdentOf ident)) of
                          Some ra \<Rightarrow> if isStringAttr ra then jm_set (roleIdentOf ident) (JStr (pr_class who)) m0 else m0
                        | None \<Rightarrow> m0)
              in Some (fold (claim_fact d ident) (claim_attrs who) m1))"

definition principal_ref :: "compiled_policy \<Rightarrow> principal \<Rightarrow> jsval" where
  "principal_ref p who =
     JArr [JStr (po_principal p), case pr_sub who of Some s \<Rightarrow> JStr s | None \<Rightarrow> JUndefined]"

definition provisionTx :: "nat \<Rightarrow> platform \<Rightarrow> compiled_policy \<Rightarrow> principal \<Rightarrow> db \<Rightarrow> jsval list option res" where
  "provisionTx n pf p who d =
     (case wantedFacts p who d of
        None \<Rightarrow> Inr None
      | Some m \<Rightarrow>
          rbind (Db_entid n pf d (principal_ref p who)) (\<lambda>eid.
            case eid of
              None \<Rightarrow> Inr (Some [JObj m])
            | Some k \<Rightarrow>
                rbind (as_eid k) (\<lambda>e.
                  rmap (\<lambda>ent. case ent of
                      Some facts \<Rightarrow> if factsMatch facts m then None else Some [JObj m]
                    | None \<Rightarrow> Some [JObj m])
                    (Db_entity n d e))))"

definition resolveProvisionedEid :: "nat \<Rightarrow> platform \<Rightarrow> compiled_policy \<Rightarrow> principal \<Rightarrow> db \<Rightarrow> jsnum option res" where
  "resolveProvisionedEid n pf p who d =
     (if \<not> shouldProvision who then Inr (map_option NInt (pr_eid who))
      else case pr_eid who of
        Some e \<Rightarrow> Inr (Some (NInt e))
      | None \<Rightarrow> Db_entid n pf d (principal_ref p who))"

section \<open>What is provisioned\<close>

lemma claim_fact_get:
  "jm_get (claim_fact d ident kv m) k = Some v \<Longrightarrow>
    jm_get m k = Some v \<or> (\<exists>key at. k = siblingIdentOf ident key \<and> key \<notin> set (reservedNames ident) \<and> kv = (key, v) \<and>
      Db_attr d (Inr k) = Some at \<and> valueMatchesAttr at v)"
  by (auto simp: claim_fact_def split: prod.splits option.splits if_splits)

lemma claim_facts_get:
  "jm_get (fold (claim_fact d ident) kvs m) k = Some v \<Longrightarrow>
    jm_get m k = Some v \<or> (\<exists>key at. k = siblingIdentOf ident key \<and> key \<notin> set (reservedNames ident) \<and> (key, v) \<in> set kvs \<and>
      Db_attr d (Inr k) = Some at \<and> valueMatchesAttr at v)"
proof (induction kvs arbitrary: m)
  case (Cons kv kvs)
  from Cons.IH [of "claim_fact d ident kv m"] Cons.prems claim_fact_get [of d ident kv m k v] show ?case by auto
qed simp

text \<open>An ident of a namespace names a sibling by appending the name; reserved names stay apart.\<close>

lemma sibling_inj: "siblingIdentOf a x = siblingIdentOf a y \<longleftrightarrow> x = y"
  by (simp add: siblingIdentOf_def Let_def)

lemma takeWhile_shorter: "x \<in> set xs \<Longrightarrow> \<not> P x \<Longrightarrow> length (takeWhile P xs) < length xs"
  by (induction xs) auto

lemma last_slash_split:
  assumes "last_slash s > 0"
  shows "s = take (nat (last_slash s)) s @ [0x2F] @ drop (nat (last_slash s) + 1) s"
proof -
  let ?w = "takeWhile (\<lambda>c. c \<noteq> 0x2F) (rev s)"
  have m: "0x2F \<in> set s" and l: "last_slash s = int (length s) - 1 - int (length ?w)"
    using assms by (auto simp: last_slash_def split: if_splits)
  have w: "length ?w < length (rev s)" by (rule takeWhile_shorter) (use m in auto)
  have "rev s ! length ?w = 0x2F" using nth_length_takeWhile [OF w] by simp
  moreover have n: "nat (last_slash s) = length s - 1 - length ?w" using l by linarith
  ultimately have "s ! nat (last_slash s) = 0x2F" "nat (last_slash s) < length s" using w by (simp_all add: rev_nth)
  then have "take (nat (last_slash s)) s @ [0x2F] @ drop (nat (last_slash s) + 1) s = s"
    using id_take_nth_drop [of "nat (last_slash s)" s, symmetric] by simp
  then show ?thesis by (rule sym)
qed

lemma sibling_not_reserved:
  assumes "key \<notin> set (reservedNames ident)"
  shows "siblingIdentOf ident key \<noteq> ident" "siblingIdentOf ident key \<noteq> roleIdentOf ident"
proof -
  show "siblingIdentOf ident key \<noteq> roleIdentOf ident"
    using assms by (simp add: roleIdentOf_def sibling_inj reservedNames_def Let_def)
  show "siblingIdentOf ident key \<noteq> ident"
  proof (cases "last_slash ident > 0")
    case True
    show ?thesis
    proof
      assume eq: "siblingIdentOf ident key = ident"
      have "take (nat (last_slash ident)) ident @ [0x2F] @ key = ident"
        using eq True by (simp add: siblingIdentOf_def)
      also have "ident = take (nat (last_slash ident)) ident @ [0x2F] @ drop (nat (last_slash ident) + 1) ident"
        by (rule last_slash_split [OF True])
      finally have "key = drop (nat (last_slash ident) + 1) ident" by simp
      with assms True show False by (simp add: reservedNames_def Let_def)
    qed
  qed (simp add: siblingIdentOf_def Let_def)
qed

lemma claim_facts_keep:
  assumes "k = ident \<or> k = roleIdentOf ident"
  shows "jm_get (fold (claim_fact d ident) kvs m) k = jm_get m k"
proof (induction kvs arbitrary: m)
  case (Cons kv kvs)
  have "jm_get (claim_fact d ident kv m) k = jm_get m k"
    using sibling_not_reserved [of "fst kv" ident] assms by (cases kv) (auto simp: claim_fact_def split: option.splits)
  with Cons.IH show ?case by simp
qed simp

lemma wantedFacts_owned:
  assumes "wantedFacts p who d = Some m"
  shows "(roleIdentOf (po_principal p) \<noteq> po_principal p \<longrightarrow> jm_get m (po_principal p) = map_option JStr (pr_sub who)) \<and>
    (\<forall>ra. Db_attr d (Inr (roleIdentOf (po_principal p))) = Some ra \<and> isStringAttr ra \<longrightarrow>
       jm_get m (roleIdentOf (po_principal p)) = Some (JStr (pr_class who))) \<and>
    (\<forall>k v. jm_get m k = Some v \<longrightarrow> k = po_principal p \<or> k = roleIdentOf (po_principal p) \<or>
       (\<exists>key at. (key, v) \<in> set (claim_attrs who) \<and> k = siblingIdentOf (po_principal p) key \<and> key \<notin> set (reservedNames (po_principal p)) \<and>
          Db_attr d (Inr k) = Some at \<and> valueMatchesAttr at v))"
proof -
  let ?i = "po_principal p"
  let ?m0 = "[(?i, JStr (the (pr_sub who)))]"
  let ?m1 = "case Db_attr d (Inr (roleIdentOf ?i)) of
      Some ra \<Rightarrow> if isStringAttr ra then jm_set (roleIdentOf ?i) (JStr (pr_class who)) ?m0 else ?m0
    | None \<Rightarrow> ?m0"
  have m: "m = fold (claim_fact d ?i) (claim_attrs who) ?m1" and sub: "pr_sub who \<noteq> None"
    using assms by (auto simp: wantedFacts_def shouldProvision_def Let_def split: if_splits option.splits)
  have own: "jm_get m ?i = jm_get ?m1 ?i" "jm_get m (roleIdentOf ?i) = jm_get ?m1 (roleIdentOf ?i)"
    unfolding m by (simp_all add: claim_facts_keep)
  have m1: "jm_get ?m1 k = Some v \<Longrightarrow> k = ?i \<or> k = roleIdentOf ?i" for k v
    by (auto split: option.splits if_splits)
  show ?thesis
  proof (intro conjI allI impI)
    assume "roleIdentOf ?i \<noteq> ?i"
    then show "jm_get m ?i = map_option JStr (pr_sub who)" using own(1) sub by (auto split: option.splits)
  next
    fix ra assume "Db_attr d (Inr (roleIdentOf ?i)) = Some ra \<and> isStringAttr ra"
    then show "jm_get m (roleIdentOf ?i) = Some (JStr (pr_class who))" using own(2) by (simp del: jm_set.simps)
  next
    fix k v assume "jm_get m k = Some v"
    from claim_facts_get [OF this [unfolded m]] m1 [of k v]
    show "k = ?i \<or> k = roleIdentOf ?i \<or>
      (\<exists>key at. (key, v) \<in> set (claim_attrs who) \<and> k = siblingIdentOf ?i key \<and> key \<notin> set (reservedNames ?i) \<and>
          Db_attr d (Inr k) = Some at \<and> valueMatchesAttr at v)"
      by blast
  qed
qed

end
