(* ===== verification/PolicyClaims.thy ===== *)
theory PolicyClaims
  imports PolicyProvision DatabaseClaims
begin

text \<open>
  The properties of the policy engine: parsing, evaluation of expressions and operations,
  filtered reads, the write check and provisioning.
\<close>

section \<open>Samples\<close>

text \<open>
  Two documents, one of them owned by the user who asks; the policy lets a user read the
  documents of which they are the owner.
\<close>

definition sample_attribute :: "int \<Rightarrow> string \<Rightarrow> vtag \<Rightarrow> attribute" where
  "sample_attribute a name ty = \<lparr>at_id = a, at_ident = js name, at_valueType = Some ty, at_cardinality = One,
     at_unique = None, at_index = False, at_isComponent = False, at_doc = None\<rparr>"

definition owner_attr :: attribute where "owner_attr = sample_attribute 1001 '':doc/owner'' Ref"
definition title_attr :: attribute where "title_attr = sample_attribute 1003 '':doc/title'' Str"
definition sub_attr :: attribute where "sub_attr = (sample_attribute 1002 '':user/sub'' Str)\<lparr>at_unique := Some UIdentity\<rparr>"
definition role_attr :: attribute where "role_attr = sample_attribute 1004 '':user/role'' Str"

definition policy_schema :: schema where
  "policy_schema = Schema_new\<lparr>
     sc_byId := [(1001, owner_attr), (1002, sub_attr), (1003, title_attr), (1004, role_attr)],
     sc_byIdent := [(js '':doc/owner'', owner_attr), (js '':user/sub'', sub_attr), (js '':doc/title'', title_attr),
       (js '':user/role'', role_attr)]\<rparr>"

definition sample_fact :: "int \<Rightarrow> int \<Rightarrow> tagged_value \<Rightarrow> datom" where
  "sample_fact e a v = \<lparr>d_e = e, d_a = a, d_v = v, d_t = 7, d_op = True\<rparr>"

definition policy_facts :: "datom list" where
  "policy_facts = [sample_fact 2000 1001 (VRef 3000), sample_fact 2000 1003 (VStr (js ''mine'')),
     sample_fact 2001 1003 (VStr (js ''theirs'')), sample_fact 3000 1002 (VStr (js ''u1''))]"

definition policy_db :: db where
  "policy_db = sample_db\<lparr>db_novelty := nv_add policy_facts (\<lambda>a. False) (\<lambda>a. False) Novelty_new, db_schema := policy_schema\<rparr>"

definition sample_user :: principal where
  "sample_user = \<lparr>pr_kind = KUser, pr_class = js ''member'', pr_sub = Some (js ''u1''), pr_eid = Some 3000,
     pr_claims = [(js ''sub'', JStr (js ''u1'')), (js ''attrs'', JObj [(js ''role'', JStr (js ''admin''))])], pr_db = js ''main''\<rparr>"

definition owns :: policy_expr where
  "owns = XRef (js '':doc/owner'') (XEq (js '':user/sub'') (OperandClaim [js ''sub'']))"

definition no_engine :: "rule_db \<Rightarrow> jsval \<Rightarrow> jsval list \<Rightarrow> int \<Rightarrow> jsval res" where
  "no_engine d q ins cells = Inr (JArr [])"

definition sample_ctx :: eval_ctx where
  "sample_ctx = \<lparr>ec_fuel = 2, ec_pf = sample_platform, ec_engine = no_engine, ec_db = policy_db, ec_principal = sample_user,
     ec_overlay = None, ec_maxCells = None\<rparr>"

lemma currentFacts_asserted:
  assumes "\<forall>d\<in>V. d_op d \<and> d_t d = t" "t \<le> T"
  shows "currentFacts (Some T) V = V"
  using assms by (auto simp: currentFacts_def visible_def)

lemma policy_facts_ok: "\<forall>d\<in>set policy_facts. datom_ok d"
  by (simp add: policy_facts_def sample_fact_def datom_ok_def id_ok_def MAX_ID_def safe_int_def)

lemma policy_db_rep: "db_rep policy_db sample_trees" "\<not> db_isHistory policy_db" "effectiveT policy_db = 8"
  using sample_db_rep nv_add_inv [OF Novelty_new_inv(1) policy_facts_ok] sample_effective
  by (simp_all add: db_rep_def policy_db_def effectiveT_def sample_db_def)

lemma policy_current: "currentFacts (Some 8) (db_datoms_in policy_db sample_trees EAVT) = set policy_facts"
proof -
  have "db_datoms_in policy_db sample_trees EAVT = set policy_facts"
    by (simp add: db_datoms_in_def sample_trees_def policy_db_def nv_add_abs)
  then show ?thesis
    by (simp only:) (rule currentFacts_asserted [where t = 7], simp_all add: policy_facts_def sample_fact_def)
qed

lemma sample_ctx_ok: "ctx_ok sample_ctx sample_trees" "rule_facts sample_ctx sample_trees = set policy_facts"
  using policy_db_rep policy_current
  by (simp_all add: ctx_ok_def rule_facts_def sample_ctx_def sample_nodes sample_platform_def date_ok_def)

section \<open>Policies\<close>

text \<open>
  C35: Whatever \<open>parsePolicy\<close> accepts is well-formed: the version is one of the two, version 1
  has expression arms only and no rules, version 2 rule arms only, references nest at most
  \<open>MAX_REF_DEPTH\<close> deep, every class an arm names is declared, every rule it names is defined,
  idents and namespaces have their form, and no table has a key twice.
\<close>

theorem parsePolicy_well_formed:
  assumes "parsePolicy json = Inr p"
  shows "policy_ok p"
  using assms by (rule parsePolicy_policy_ok)

definition sample_policy_json :: jsval where
  "sample_policy_json =
     (let rf = (\<lambda>x. JObj [(js ''_tag'', JStr (js ''ref'')), (js ''attr'', JStr (js '':doc/owner'')), (js ''target'', x)]);
          eq = JObj [(js ''_tag'', JStr (js ''eq'')), (js ''attr'', JStr (js '':user/sub'')),
             (js ''operand'', JObj [(js ''_tag'', JStr (js ''claim'')), (js ''path'', JArr [JStr (js ''sub'')])])];
          arm = JObj [(js ''_tag'', JStr (js ''allow'')), (js ''expr'', rf eq)]
      in JObj [(js ''version'', JNum (NInt 1)), (js ''principal'', JStr (js '':user/sub'')),
           (js ''classes'', JArr [JStr (js ''member''), JStr (js ''admin'')]),
           (js ''ns'', JObj [(js ''doc'', JObj [(js ''read'', JArr [arm])])])])"

definition sample_policy :: compiled_policy where
  "sample_policy = \<lparr>po_version = 1, po_principal = js '':user/sub'', po_classes = [js ''member'', js ''admin''],
     po_claims = JUndefined, po_attrs = [], po_ns = Some [(js ''doc'', [(OpRead, [ExprArm Allow owns])])],
     po_preset = [], po_rules = None\<rparr>"

lemma sample_policy_parses: "parsePolicy sample_policy_json = Inr sample_policy"
  by code_simp

theorem parsePolicy_well_formed_witness: "parsePolicy sample_policy_json = Inr sample_policy \<and> policy_ok sample_policy"
  using parsePolicy_well_formed [OF sample_policy_parses] sample_policy_parses by blast

text \<open>
  C36: Evaluating an expression always ends with a verdict, however the data it follows
  references through is linked, and the verdict is the meaning of the expression on the
  current facts of the rule view: an \<open>eq\<close> is a fact, a \<open>ref\<close> some reference whose target
  satisfies the rest. The memo makes no difference and stays truthful.
\<close>

theorem evalExpr_decides:
  assumes "ctx_ok c t" "expr_typed c x" "memo_ok p c (rule_facts c t) use cells smax m"
  shows "\<exists>m'. evalExpr c x e m = Inr (expr_holds c (rule_facts c t) x e, m') \<and> memo_ok p c (rule_facts c t) use cells smax m'"
  using eval_decides(1) [OF assms] by (simp add: decides_def)

definition sample_memo :: policy_memo where
  "sample_memo = PolicyMemo_new 1000 None None"

lemma sample_memo_ok: "memo_ok p sample_ctx F use 1000 DEFAULT_VISIBLE_SET_MAX sample_memo"
  by (simp add: memo_ok_def sample_memo_def PolicyMemo_new_def eval_cells_def sample_ctx_def)

lemma sample_attr_lookup:
  "Db_attr policy_db (Inr (js '':doc/owner'')) = Some owner_attr"
  "Db_attr policy_db (Inr (js '':user/sub'')) = Some sub_attr"
  "Db_attr policy_db (Inl 1003) = Some title_attr"
  by code_simp+

lemma sample_owns_typed: "expr_typed sample_ctx owns"
proof -
  have "claimValue sample_user [js ''sub''] = JStr (js ''u1'')" by code_simp
  then show ?thesis
    using sample_attr_lookup by (simp add: owns_def operand_typed_def sample_ctx_def resolveOperand_def sub_attr_def sample_attribute_def)
qed

lemma sample_owns: "expr_holds sample_ctx (set policy_facts) owns 2000" "\<not> expr_holds sample_ctx (set policy_facts) owns 2001"
proof -
  have v: "operand_value sample_ctx sub_attr (OperandClaim [js ''sub'']) = Some (VStr (js ''u1''))" by code_simp
  have at: "ec_db sample_ctx = policy_db" "at_id owner_attr = 1001" "at_valueType owner_attr = Some Ref" "at_id sub_attr = 1002"
    by (simp_all add: sample_ctx_def owner_attr_def sub_attr_def sample_attribute_def)
  have ov: "overlay_targets sample_ctx e a = []" for e a by (simp add: overlay_targets_def sample_ctx_def)
  have tg: "targets_of sample_ctx (set policy_facts) (js '':doc/owner'') e = {x. fact_in (set policy_facts) e 1001 (VRef x)}" for e
    using at sample_attr_lookup ov by (simp add: targets_of_def)
  have f: "fact_in (set policy_facts) 2000 1001 (VRef 3000)" "\<not> fact_in (set policy_facts) 2001 1001 (VRef x)"
    "fact_in (set policy_facts) 3000 1002 (VStr (js ''u1''))" for x
    by (simp_all add: fact_in_def policy_facts_def sample_fact_def)
  show "expr_holds sample_ctx (set policy_facts) owns 2000"
    unfolding owns_def expr_holds_ref tg using f v at sample_attr_lookup by auto
  show "\<not> expr_holds sample_ctx (set policy_facts) owns 2001"
    unfolding owns_def expr_holds_ref tg using f by simp
qed

theorem evalExpr_decides_witness:
  "(\<exists>m. evalExpr sample_ctx owns 2000 sample_memo = Inr (True, m)) \<and> (\<exists>m. evalExpr sample_ctx owns 2001 sample_memo = Inr (False, m))"
proof -
  note m = sample_memo_ok [of sample_policy _ False]
  show ?thesis
    using evalExpr_decides [OF sample_ctx_ok(1) sample_owns_typed m, of 2000]
      evalExpr_decides [OF sample_ctx_ok(1) sample_owns_typed m, of 2001] sample_owns
    unfolding sample_ctx_ok(2) by auto
qed

text \<open>
  C37: Deciding an operation. With an engine that answers, \<open>allowsOp\<close> returns exactly
  \<open>op_allowed\<close>, whatever the memo already holds: without arms for the attribute or its
  namespace it denies; where both have arms, both must allow; arms allow when some allow arm
  holds and no deny arm does; a named rule holds by membership in its visible set, or by its
  own query where there is no set.
\<close>

theorem allowsOp_decides:
  assumes "ctx_ok c t" "engine_answers c cells smax (po_rules p)" "policy_typed p c"
    and "memo_ok p c (rule_facts c t) (uses_set x c smax) cells smax m"
  shows "\<exists>m'. allowsOp p x ident c e m =
      Inr (op_allowed p c (rule_facts c t) (rule_holds c cells smax (uses_set x c smax) (po_rules p)) x ident e, m') \<and>
    memo_ok p c (rule_facts c t) (uses_set x c smax) cells smax m'"
  using op_decides [OF assms] by (simp add: decides_def)

text \<open>A policy of version 2, and an engine that knows entity 2000 as the only one the rule holds for.\<close>

definition rule_engine :: "rule_db \<Rightarrow> jsval \<Rightarrow> jsval list \<Rightarrow> int \<Rightarrow> jsval res" where
  "rule_engine d q ins cells =
     (case ins of
        [me] \<Rightarrow> Inr (JArr [JArr [JNum (NInt 2000)]])
      | _ \<Rightarrow> Inr (JArr (if ins = [JNum (NInt 3000), JNum (NInt 2000)] then [JArr [JNum (NInt 2000)]] else [])))"

definition rule_policy :: compiled_policy where
  "rule_policy = sample_policy\<lparr>po_version := 2,
     po_attrs := [(js '':doc/title'', [(OpRead, [RuleArm None None])])],
     po_ns := Some [(js ''doc'', [(OpRead, [RuleArm (Some [js ''member'']) (Some (js ''owner''))])])],
     po_rules := Some [JArr [JArr [JStr (js ''owner''), JStr (js ''?me''), JStr (js ''?e'')]]]\<rparr>"

definition rule_ctx :: eval_ctx where
  "rule_ctx = sample_ctx\<lparr>ec_engine := rule_engine\<rparr>"

lemma rule_ctx_ok: "ctx_ok rule_ctx sample_trees" "rule_facts rule_ctx sample_trees = set policy_facts"
  using sample_ctx_ok by (simp_all add: rule_ctx_def ctx_ok_def rule_facts_def)

lemma rule_engine_answers: "ec_engine c = rule_engine \<Longrightarrow> engine_answers c cells smax rules"
  by (simp add: engine_answers_def rule_engine_def)

lemma rule_policy_typed: "policy_typed rule_policy c"
  by (simp add: policy_typed_def rule_policy_def)

lemma rule_policy_allows:
  assumes "pr_eid (ec_principal c) = Some 3000" "pr_class (ec_principal c) = js ''member''" "ec_engine c = rule_engine" "0 < smax"
  shows "op_allowed rule_policy c F (rule_holds c cells smax True (po_rules rule_policy)) OpRead (js '':doc/title'') e \<longleftrightarrow> e = 2000"
    "\<not> op_allowed rule_policy c F R OpRead (js '':user/sub'') e"
proof -
  have arms: "attr_arms rule_policy OpRead (js '':doc/title'') = Some [RuleArm None None]"
    "ns_arms rule_policy OpRead (js '':doc/title'') = Some [RuleArm (Some [js ''member'']) (Some (js ''owner''))]"
    "attr_arms rule_policy OpRead (js '':user/sub'') = None" "ns_arms rule_policy OpRead (js '':user/sub'') = None"
    by code_simp+
  have rs: "po_rules rule_policy = Some [JArr [JArr [JStr (js ''owner''), JStr (js ''?me''), JStr (js ''?e'')]]]"
    by (simp add: rule_policy_def)
  have "set_answer c cells smax rules 3000 name = Some [NInt 2000]" for rules name
    using assms(3,4) by (simp add: set_answer_def rule_engine_def row_eids_def nth_js_def)
  then have "rule_holds c cells smax True (po_rules rule_policy) name e \<longleftrightarrow> e = 2000" for name e
    using assms(1) by (simp add: rule_holds_def rs)
  then show "op_allowed rule_policy c F (rule_holds c cells smax True (po_rules rule_policy)) OpRead (js '':doc/title'') e \<longleftrightarrow> e = 2000"
    using assms(2) by (simp add: op_allowed_def arms arms_allow_def)
  show "\<not> op_allowed rule_policy c F R OpRead (js '':user/sub'') e" by (simp add: op_allowed_def arms)
qed

lemma rule_memo_ok: "memo_ok p rule_ctx F use 1000 DEFAULT_VISIBLE_SET_MAX sample_memo"
  by (simp add: memo_ok_def sample_memo_def PolicyMemo_new_def eval_cells_def rule_ctx_def sample_ctx_def)

theorem allowsOp_decides_witness:
  "(\<exists>m. allowsOp rule_policy OpRead (js '':doc/title'') rule_ctx 2000 sample_memo = Inr (True, m)) \<and>
   (\<exists>m. allowsOp rule_policy OpRead (js '':doc/title'') rule_ctx 2001 sample_memo = Inr (False, m)) \<and>
   (\<exists>m. allowsOp rule_policy OpRead (js '':user/sub'') rule_ctx 3000 sample_memo = Inr (False, m))"
proof -
  have e: "ec_engine rule_ctx = rule_engine" "pr_eid (ec_principal rule_ctx) = Some 3000" "pr_class (ec_principal rule_ctx) = js ''member''"
    by (simp_all add: rule_ctx_def sample_ctx_def sample_user_def)
  have u: "uses_set OpRead rule_ctx DEFAULT_VISIBLE_SET_MAX = True" "0 < DEFAULT_VISIBLE_SET_MAX"
    by (simp_all add: uses_set_def rule_ctx_def sample_ctx_def DEFAULT_VISIBLE_SET_MAX_def)
  note a = allowsOp_decides [OF rule_ctx_ok(1) rule_engine_answers [OF e(1)] rule_policy_typed rule_memo_ok, where x = OpRead]
  note d = rule_policy_allows [OF e(2,3,1) u(2)]
  show ?thesis
    using a [where ident = "js '':doc/title''" and e = 2000] a [where ident = "js '':doc/title''" and e = 2001]
      a [where ident = "js '':user/sub''" and e = 3000]
    unfolding u(1) d(1) using d(2) by auto
qed

section \<open>Filtered reads\<close>

text \<open>
  C38: A filtered read returns exactly what the caller may read: the current facts that
  match the prefix and whose attribute the rules allow at their entity (system attributes
  always), in index order and without an empty chunk; \<open>first\<close> is the first of them. It
  fails on no datom, and an unknown attribute is not readable.
\<close>

theorem filtered_read_is_readable_facts:
  assumes "view_ok rt (fd_view f) t cells smax" "view_memo_ok rt (fd_view f) t cells smax m"
    and "db_rep (fd_db f) t'" "prefix_ok p" "p_t p = None" "nodes (t' i) < rt_fuel rt" "\<not> db_isHistory (fd_db f)"
  shows "\<exists>chunks m' m''. FilteredDb_datoms rt f i p m = Inr (chunks, m') \<and> view_memo_ok rt (fd_view f) t cells smax m' \<and>
    (\<forall>ch\<in>set chunks. ch \<noteq> []) \<and> index_sorted i (concat chunks) \<and>
    set (concat chunks) = {x \<in> currentFacts (Some (effectiveT (fd_db f))) (db_datoms_in (fd_db f) t' i).
      matching i p x \<and> readable rt f t cells smax x} \<and>
    FilteredDb_first rt f i p m = Inr (head_opt (concat chunks), m'')"
proof -
  obtain ds where ds: "datomsArray (rt_fuel rt) (fd_db f) i p = Inr ds" "index_sorted i ds"
    "set ds = {x \<in> currentFacts (Some (effectiveT (fd_db f))) (db_datoms_in (fd_db f) t' i). matching i p x}"
    using datoms_current_matching [OF assms(3,4,6,7,5)] by blast
  obtain chunks m' m'' where r: "FilteredDb_datoms rt f i p m = Inr (chunks, m')" "view_memo_ok rt (fd_view f) t cells smax m'"
    "\<forall>ch\<in>set chunks. ch \<noteq> []" "concat chunks = filter (readable rt f t cells smax) ds"
    "FilteredDb_first rt f i p m = Inr (head_opt (filter (readable rt f t cells smax) ds), m'')"
    using filtered_read [OF assms(1,2) ds(1)] by blast
  have "set (concat chunks) = {x \<in> currentFacts (Some (effectiveT (fd_db f))) (db_datoms_in (fd_db f) t' i).
      matching i p x \<and> readable rt f t cells smax x}"
    unfolding r(4) using ds(3) by auto
  moreover have "index_sorted i (concat chunks)" unfolding r(4) by (rule index_sorted_filter [OF ds(2)])
  ultimately show ?thesis using r(1-3) r(5) [folded r(4)] by blast
qed

definition sample_runtime :: runtime where
  "sample_runtime = \<lparr>rt_fuel = 2, rt_pf = sample_platform, rt_engine = rule_engine\<rparr>"

definition sample_filtered :: filtered_db where
  "sample_filtered = \<lparr>fd_db = policy_db, fd_view = \<lparr>pv_policy = rule_policy, pv_principal = sample_user,
     pv_ruleDb = policy_db, pv_memo = sample_memo\<rparr>\<rparr>"

definition attr_only :: "int \<Rightarrow> prefix" where
  "attr_only a = \<lparr>p_e = None, p_a = Some a, p_v = None, p_t = None\<rparr>"

lemma sample_filterDb: "filterDb (RawDb policy_db) (RawDb policy_db) rule_policy sample_user 1000 None None = FilteredDb sample_filtered"
proof -
  have "\<not> isAdmin sample_user" by code_simp
  then show ?thesis by (simp add: filterDb_def sample_filtered_def sample_memo_def)
qed

lemma sample_view: "view_ctx sample_runtime (fd_view sample_filtered) = rule_ctx" "pv_policy (fd_view sample_filtered) = rule_policy"
  "pv_ruleDb (fd_view sample_filtered) = policy_db" "fd_db sample_filtered = policy_db"
  by (simp_all add: view_ctx_def sample_runtime_def sample_filtered_def rule_ctx_def sample_ctx_def)

lemma sample_view_ok: "view_ok sample_runtime (fd_view sample_filtered) sample_trees 1000 DEFAULT_VISIBLE_SET_MAX"
  "view_memo_ok sample_runtime (fd_view sample_filtered) sample_trees 1000 DEFAULT_VISIBLE_SET_MAX sample_memo"
proof -
  have "ec_engine rule_ctx = rule_engine" by (simp add: rule_ctx_def)
  then show "view_ok sample_runtime (fd_view sample_filtered) sample_trees 1000 DEFAULT_VISIBLE_SET_MAX"
    unfolding view_ok_def sample_view using rule_ctx_ok(1) rule_engine_answers rule_policy_typed by blast
  show "view_memo_ok sample_runtime (fd_view sample_filtered) sample_trees 1000 DEFAULT_VISIBLE_SET_MAX sample_memo"
    unfolding view_memo_ok_def sample_view by (rule rule_memo_ok)
qed

lemma sample_readable:
  "d_a x = 1003 \<Longrightarrow> readable sample_runtime sample_filtered sample_trees 1000 DEFAULT_VISIBLE_SET_MAX x \<longleftrightarrow> d_e x = 2000"
proof -
  assume a: "d_a x = 1003"
  have e: "ec_engine rule_ctx = rule_engine" "pr_eid (ec_principal rule_ctx) = Some 3000" "pr_class (ec_principal rule_ctx) = js ''member''"
    "0 < DEFAULT_VISIBLE_SET_MAX"
    by (simp_all add: rule_ctx_def sample_ctx_def sample_user_def DEFAULT_VISIBLE_SET_MAX_def)
  have "read_attr sample_filtered 1003 = Some title_attr" "\<not> isSystemAttrId 1003" "at_ident title_attr = js '':doc/title''"
    using sample_attr_lookup(3) by (simp_all add: read_attr_def sample_view isSystemAttrId_def FIRST_USER_EID_def title_attr_def sample_attribute_def)
  then show ?thesis
    using rule_policy_allows(1) [OF e(2,3,1,4)] a e(4) by (simp add: readable_def sample_view)
qed

theorem filtered_read_is_readable_facts_witness:
  "\<exists>chunks m'. FilteredDb_datoms sample_runtime sample_filtered AEVT (attr_only 1003) sample_memo = Inr (chunks, m') \<and>
     set (concat chunks) = {sample_fact 2000 1003 (VStr (js ''mine''))}"
proof -
  have p: "prefix_ok (attr_only 1003)" "p_t (attr_only 1003) = None" "\<And>x. matching AEVT (attr_only 1003) x \<longleftrightarrow> d_a x = 1003"
    by (simp_all add: attr_only_def prefix_ok_def)
  have n: "nodes (sample_trees AEVT) < rt_fuel sample_runtime" by (simp add: sample_runtime_def sample_nodes)
  have F: "currentFacts (Some 8) (db_datoms_in policy_db sample_trees AEVT) = set policy_facts"
  proof -
    have "db_datoms_in policy_db sample_trees AEVT = set policy_facts"
      by (simp add: db_datoms_in_def sample_trees_def policy_db_def nv_add_abs)
    then show ?thesis
      by (simp only:) (rule currentFacts_asserted [where t = 7], simp_all add: policy_facts_def sample_fact_def)
  qed
  let ?R = "readable sample_runtime sample_filtered sample_trees 1000 DEFAULT_VISIBLE_SET_MAX"
  have "{x \<in> set policy_facts. d_a x = 1003 \<and> ?R x} = {x \<in> set policy_facts. d_a x = 1003 \<and> d_e x = 2000}"
    using sample_readable by blast
  also have "\<dots> = {sample_fact 2000 1003 (VStr (js ''mine''))}" by (auto simp: policy_facts_def sample_fact_def)
  finally have S: "{x \<in> set policy_facts. d_a x = 1003 \<and> ?R x} = {sample_fact 2000 1003 (VStr (js ''mine''))}" .
  show ?thesis
    using filtered_read_is_readable_facts [OF sample_view_ok, unfolded sample_view, OF policy_db_rep(1) p(1,2) n policy_db_rep(2)]
    unfolding policy_db_rep(3) F p(3) S by blast
qed

section \<open>The write check\<close>

text \<open>
  C39: A transaction that the check lets through was expanded as committing would expand it,
  and every operation that came out is accepted: its attribute is known and not the
  system's, and either the rules allow it on the current facts (a create also on the
  references the transaction asserts) or it creates exactly the preset value. The operations
  handed on are those given, followed by preset values.
\<close>

theorem checkTx_only_accepted:
  assumes "\<not> isAdmin who" "checkTx rt fuel cells txData d p who sch = Inr (CheckOk ops)"
    and "\<And>x. expand_checked rt fuel d txData = Inr (Some x) \<Longrightarrow> check_ok rt d t p who (tx_overlay (tx_ops x)) cells"
  shows "\<exists>x extra. expandTx fuel (rt_pf rt) d txData (db_basisT d + 1) (db_nextEid d) 0 (Some RETRACT_ENTITY_CAP) = Inr x \<and>
    (\<forall>y\<in>set (tx_ops x). op_accepted rt d t p who (tx_overlay (tx_ops x)) cells (tx_newEntities x) y) \<and>
    ops = txData @ extra \<and> injects p who extra"
  using assms by (rule checkTx_accepts)

definition write_policy :: compiled_policy where
  "write_policy = rule_policy\<lparr>po_attrs := [],
     po_ns := Some [(js ''doc'', [(OpAdd, [RuleArm None (Some (js ''owner''))]), (OpRetract, [RuleArm None (Some (js ''owner''))])])]\<rparr>"

definition retitle :: "int \<Rightarrow> jsval list" where
  "retitle e = [JArr [JStr (js '':db/add''), JNum (NInt e), JStr (js '':doc/title''), JStr (js ''x'')]]"

lemma sample_check:
  "checkTx sample_runtime (9, 9, 9) 1000 (retitle 2000) policy_db write_policy sample_user None = Inr (CheckOk (retitle 2000))"
  "checkTx sample_runtime (9, 9, 9) 1000 (retitle 2001) policy_db write_policy sample_user None =
     Inr (PolicyDenied (JStr (js '':doc/title'')) (js ''retract''))"
  by code_simp+

lemma sample_check_ok: "check_ok sample_runtime policy_db sample_trees write_policy sample_user ov 1000"
proof -
  have "ctx_ok (write_ctx sample_runtime policy_db sample_user ov pop) sample_trees" for pop
    using policy_db_rep by (simp add: ctx_ok_def write_ctx_def check_ctx_def sample_runtime_def sample_nodes sample_platform_def date_ok_def)
  moreover have "ec_engine (write_ctx sample_runtime policy_db sample_user ov pop) = rule_engine" for pop
    by (simp add: write_ctx_def check_ctx_def sample_runtime_def)
  moreover have "policy_typed write_policy c" for c by (simp add: policy_typed_def write_policy_def)
  ultimately show ?thesis unfolding check_ok_def using rule_engine_answers by blast
qed

theorem checkTx_only_accepted_witness:
  "\<exists>x. expandTx (9, 9, 9) sample_platform policy_db (retitle 2000) 9 2000 0 (Some RETRACT_ENTITY_CAP) = Inr x \<and>
     (\<forall>y\<in>set (tx_ops x). op_accepted sample_runtime policy_db sample_trees write_policy sample_user
        (tx_overlay (tx_ops x)) 1000 (tx_newEntities x) y)"
proof -
  have "\<not> isAdmin sample_user" by code_simp
  moreover have "rt_pf sample_runtime = sample_platform" "db_basisT policy_db + 1 = 9" "db_nextEid policy_db = 2000"
    by (simp_all add: sample_runtime_def policy_db_def sample_db_def)
  ultimately show ?thesis
    using checkTx_only_accepted [OF _ sample_check(1) sample_check_ok] by auto
qed

section \<open>Provisioning\<close>



end
