(* ===== verification/JsonText.thy ===== *)
theory JsonText
  imports JsonCodec JsMap
begin

text \<open>
  The text of JSON, as \<open>JSON.stringify\<close> writes and \<open>JSON.parse\<close> reads it, for the records the
  storage keeps as text: objects, arrays, strings, safe integers, booleans and \<open>null\<close>. What is
  written is read back; numbers with a fraction or an exponent are outside the model.
\<close>

section \<open>Writing\<close>

definition hex4 :: "16 word \<Rightarrow> jsstr" where
  "hex4 c = map (\<lambda>k. of_nat (hexdigit (unat c div 16 ^ k mod 16))) [3, 2, 1, 0]"

definition is_high :: "16 word \<Rightarrow> bool" where
  "is_high c \<longleftrightarrow> 0xD800 \<le> unat c \<and> unat c < 0xDC00"

definition is_low :: "16 word \<Rightarrow> bool" where
  "is_low c \<longleftrightarrow> 0xDC00 \<le> unat c \<and> unat c < 0xE000"

definition escape_unit :: "16 word \<Rightarrow> jsstr" where
  "escape_unit c =
     (if c = 0x22 then [0x5C, 0x22] else if c = 0x5C then [0x5C, 0x5C]
      else if c = 0x08 then [0x5C, 0x62] else if c = 0x0C then [0x5C, 0x66]
      else if c = 0x0A then [0x5C, 0x6E] else if c = 0x0D then [0x5C, 0x72]
      else if c = 0x09 then [0x5C, 0x74]
      else if unat c < 32 then [0x5C, 0x75] @ hex4 c else [c])"

text \<open>A surrogate without its partner is written as an escape.\<close>

fun escape :: "jsstr \<Rightarrow> jsstr" where
  "escape [] = []"
| "escape [c] = (if is_high c \<or> is_low c then [0x5C, 0x75] @ hex4 c else escape_unit c)"
| "escape (c # d # s) =
     (if is_high c \<and> is_low d then c # d # escape s
      else (if is_high c \<or> is_low c then [0x5C, 0x75] @ hex4 c else escape_unit c) @ escape (d # s))"

definition quote :: "jsstr \<Rightarrow> jsstr" where
  "quote s = 0x22 # escape s @ [0x22]"

fun json_string :: "jsval \<Rightarrow> jsstr" where
  "json_string (JStr s) = quote s"
| "json_string (JNum (NInt n)) = int_string n"
| "json_string (JBool b) = (if b then js ''true'' else js ''false'')"
| "json_string (JArr xs) = 0x5B # join_comma (map json_string xs) @ [0x5D]"
| "json_string (JObj o') =
     0x7B # join_comma (map (\<lambda>(k, x). quote k @ 0x3A # json_string x) o') @ [0x7D]"
| "json_string _ = js ''null''"

section \<open>Reading\<close>

definition json_syntax :: "'a res" where
  "json_syntax = Inl (Error ''SyntaxError'')"

definition is_space :: "16 word \<Rightarrow> bool" where
  "is_space c \<longleftrightarrow> c = 0x20 \<or> c = 0x09 \<or> c = 0x0A \<or> c = 0x0D"

definition skip_space :: "jsstr \<Rightarrow> jsstr" where
  "skip_space s = dropWhile is_space s"

definition expect :: "16 word \<Rightarrow> jsstr \<Rightarrow> jsstr option" where
  "expect k s = (case skip_space s of c # r \<Rightarrow> if c = k then Some r else None | [] \<Rightarrow> None)"

definition unhex4 :: "jsstr \<Rightarrow> 16 word option" where
  "unhex4 s =
     (case map (\<lambda>c. hexval (unat c)) s of
        [Some a, Some b, Some c, Some d] \<Rightarrow> Some (of_nat (((a * 16 + b) * 16 + c) * 16 + d))
      | _ \<Rightarrow> None)"

definition unescape :: "16 word \<Rightarrow> 16 word option" where
  "unescape c =
     (if c = 0x22 \<or> c = 0x5C \<or> c = 0x2F then Some c else if c = 0x62 then Some 0x08
      else if c = 0x66 then Some 0x0C else if c = 0x6E then Some 0x0A
      else if c = 0x72 then Some 0x0D else if c = 0x74 then Some 0x09 else None)"

function json_chars :: "jsstr \<Rightarrow> (jsstr \<times> jsstr) res" where
  "json_chars [] = json_syntax"
| "json_chars (c # s) =
     (if c = 0x22 then Inr ([], s)
      else if c = 0x5C then
        (case s of
           [] \<Rightarrow> json_syntax
         | e # r \<Rightarrow>
             if e = 0x75 then
               (case unhex4 (take 4 r) of
                  None \<Rightarrow> json_syntax
                | Some u \<Rightarrow> rmap (\<lambda>(t, q). (u # t, q)) (json_chars (drop 4 r)))
             else (case unescape e of
                     None \<Rightarrow> json_syntax
                   | Some u \<Rightarrow> rmap (\<lambda>(t, q). (u # t, q)) (json_chars r)))
      else if unat c < 32 then json_syntax
      else rmap (\<lambda>(t, q). (c # t, q)) (json_chars s))"
  by pat_completeness auto
termination
  by (relation "measure length") auto

definition is_digit :: "16 word \<Rightarrow> bool" where
  "is_digit c \<longleftrightarrow> 48 \<le> unat c \<and> unat c < 58"

definition json_digits :: "bool \<Rightarrow> jsstr \<Rightarrow> (jsval \<times> jsstr) res" where
  "json_digits neg s =
     (let ds = takeWhile is_digit s; r = dropWhile is_digit s
      in if ds = [] \<or> length ds > 1 \<and> hd ds = 0x30 then json_syntax
         else if r \<noteq> [] \<and> hd r \<in> {0x2E, 0x45, 0x65} then Inl (Error ''number outside the model'')
         else let n = int (digits_value 0 ds) in Inr (JNum (NInt (if neg then - n else n)), r))"

definition json_int :: "jsstr \<Rightarrow> (jsval \<times> jsstr) res" where
  "json_int s = (if s \<noteq> [] \<and> hd s = 0x2D then json_digits True (tl s) else json_digits False s)"

definition json_word :: "jsstr \<Rightarrow> (jsval \<times> jsstr) res" where
  "json_word s =
     (if take 4 s = js ''null'' then Inr (JNull, drop 4 s)
      else if take 4 s = js ''true'' then Inr (JBool True, drop 4 s)
      else if take 5 s = js ''false'' then Inr (JBool False, drop 5 s)
      else json_syntax)"

text \<open>The fuel bounds the nesting and the length of the lists; the length of the text is enough.\<close>

fun json_value :: "nat \<Rightarrow> jsstr \<Rightarrow> (jsval \<times> jsstr) res"
and json_elems :: "nat \<Rightarrow> jsstr \<Rightarrow> (jsval list \<times> jsstr) res"
and json_members :: "nat \<Rightarrow> jsstr \<Rightarrow> ((jsstr \<times> jsval) list \<times> jsstr) res" where
  "json_value 0 s = Inl Diverges"
| "json_value (Suc n) s =
     (case skip_space s of
        [] \<Rightarrow> json_syntax
      | c # r \<Rightarrow>
          if c = 0x22 then rmap (\<lambda>(t, q). (JStr t, q)) (json_chars r)
          else if c = 0x5B then
            (case expect 0x5D r of
               Some q \<Rightarrow> Inr (JArr [], q)
             | None \<Rightarrow> rmap (\<lambda>(xs, q). (JArr xs, q)) (json_elems n r))
          else if c = 0x7B then
            (case expect 0x7D r of
               Some q \<Rightarrow> Inr (JObj [], q)
             | None \<Rightarrow> rmap (\<lambda>(ms, q). (JObj (fold (\<lambda>(k, x). jm_set k x) ms []), q)) (json_members n r))
          else if is_digit c \<or> c = 0x2D then json_int (c # r)
          else json_word (c # r))"
| "json_elems 0 s = Inl Diverges"
| "json_elems (Suc n) s =
     rbind (json_value n s) (\<lambda>(x, r).
       case expect 0x2C r of
         Some q \<Rightarrow> rmap (\<lambda>(xs, q'). (x # xs, q')) (json_elems n q)
       | None \<Rightarrow> (case expect 0x5D r of Some q \<Rightarrow> Inr ([x], q) | None \<Rightarrow> json_syntax))"
| "json_members 0 s = Inl Diverges"
| "json_members (Suc n) s =
     (case expect 0x22 s of
        None \<Rightarrow> json_syntax
      | Some r \<Rightarrow> rbind (json_chars r) (\<lambda>(k, r).
          case expect 0x3A r of
            None \<Rightarrow> json_syntax
          | Some r \<Rightarrow> rbind (json_value n r) (\<lambda>(x, r).
              case expect 0x2C r of
                Some q \<Rightarrow> rmap (\<lambda>(ms, q'). ((k, x) # ms, q')) (json_members n q)
              | None \<Rightarrow> (case expect 0x7D r of Some q \<Rightarrow> Inr ([(k, x)], q) | None \<Rightarrow> json_syntax))))"

definition json_parse :: "jsstr \<Rightarrow> jsval res" where
  "json_parse s =
     rbind (json_value (Suc (length s)) s) (\<lambda>(x, r). if skip_space r = [] then Inr x else json_syntax)"

section \<open>Reading inverts writing\<close>

text \<open>What the records are made of; an object has every key once.\<close>

fun json_plain :: "jsval \<Rightarrow> bool" where
  "json_plain (JNum (NInt n)) = True"
| "json_plain (JStr s) = True"
| "json_plain (JBool b) = True"
| "json_plain JNull = True"
| "json_plain (JArr xs) = (\<forall>x\<in>set xs. json_plain x)"
| "json_plain (JObj o') = (distinct (map fst o') \<and> (\<forall>p\<in>set o'. json_plain (snd p)))"
| "json_plain _ = False"

lemma hexval_digit: "x < 16 \<Longrightarrow> hexval (unat (of_nat (hexdigit x) :: 16 word)) = Some x"
proof -
  assume x: "x < 16"
  have "hexdigit x < 2 ^ 16" using hexdigit_less [OF x] by simp
  then have "unat (of_nat (hexdigit x) :: 16 word) = hexdigit x" by (intro of_nat_inverse [OF refl]) simp
  then show ?thesis using hexval_hexdigit [OF x] by simp
qed

lemma hex_step: "(c :: nat) div 16 * 16 + c mod 16 = c"
  by simp

lemma hex_digits_value:
  assumes "c < 65536"
  shows "(((c div 16 ^ 3 mod 16) * 16 + c div 16 ^ 2 mod 16) * 16 + c div 16 ^ 1 mod 16) * 16 + c div 16 ^ 0 mod 16 = (c :: nat)"
proof -
  have d: "c div 16 ^ 3 = c div 16 div 16 div 16" "c div 16 ^ 2 = c div 16 div 16" by (simp_all add: div_mult2_eq)
  have "c div 16 div 16 div 16 < 16" using assms by (simp add: div_mult2_eq [symmetric])
  then have "c div 16 div 16 div 16 mod 16 = c div 16 div 16 div 16" by (rule mod_less)
  then show ?thesis
    unfolding d power_one_right power_0 div_by_1 using hex_step [of c] hex_step [of "c div 16"] hex_step [of "c div 16 div 16"]
    by (simp only:)
qed

lemma unhex4_hex4: "unhex4 (hex4 c) = Some c"
proof -
  have "unat c < 65536" using unat_word16 [of c] by simp
  then show ?thesis
    using hex_digits_value [of "unat c"]
    by (simp add: unhex4_def hex4_def hexval_digit del: power_Suc)
qed

lemma length_hex4: "length (hex4 c) = 4"
  by (simp add: hex4_def)

lemma json_chars_u: "json_chars ([0x5C, 0x75] @ hex4 c @ s) = rmap (\<lambda>(t, q). (c # t, q)) (json_chars s)"
proof -
  have "take 4 (hex4 c @ s) = hex4 c" "drop 4 (hex4 c @ s) = s" by (simp_all add: length_hex4)
  then show ?thesis by (simp add: unhex4_hex4)
qed

lemma json_chars_unit:
  "json_chars (escape_unit c @ s) = rmap (\<lambda>(t, q). (c # t, q)) (json_chars s)"
proof (cases "c \<in> {0x22, 0x5C, 0x08, 0x0C, 0x0A, 0x0D, 0x09}")
  case True
  then show ?thesis by (auto simp: escape_unit_def unescape_def)
next
  case False
  then show ?thesis
    using json_chars_u [of c s] by (simp add: escape_unit_def)
qed

lemma surrogate_plain: "is_high c \<or> is_low c \<Longrightarrow> json_chars (c # s) = rmap (\<lambda>(t, q). (c # t, q)) (json_chars s)"
proof -
  assume "is_high c \<or> is_low c"
  then have "0xD800 \<le> unat c" by (auto simp: is_high_def is_low_def)
  then have "c \<noteq> 0x22" "c \<noteq> 0x5C" "\<not> unat c < 32" by auto
  then show ?thesis by simp
qed

lemma json_chars_escape: "json_chars (escape s @ 0x22 # r) = Inr (s, r)"
proof (induction s rule: escape.induct)
  case (2 c)
  then show ?case using json_chars_u [of c "0x22 # r"] json_chars_unit [of c "0x22 # r"] by simp
next
  case (3 c d s)
  show ?case
  proof (cases "is_high c \<and> is_low d")
    case True
    then show ?thesis
      using "3.IH"(1) [OF True] surrogate_plain [of c "d # escape s @ 0x22 # r"] surrogate_plain [of d "escape s @ 0x22 # r"]
      by (simp del: json_chars.simps)
  next
    case False
    then have e: "escape (c # d # s) = (if is_high c \<or> is_low c then [0x5C, 0x75] @ hex4 c else escape_unit c) @ escape (d # s)"
      by (simp only: escape.simps if_False)
    have "json_chars (escape (d # s) @ 0x22 # r) = Inr (d # s, r)" by (rule "3.IH"(2) [OF False])
    then show ?thesis
      using json_chars_u [of c "escape (d # s) @ 0x22 # r"] json_chars_unit [of c "escape (d # s) @ 0x22 # r"]
      unfolding e by (cases "is_high c \<or> is_low c") (simp_all only: if_True if_False append_assoc rmap.simps split)
  qed
qed simp

text \<open>What may follow a value in a text.\<close>

definition ends :: "jsstr \<Rightarrow> bool" where
  "ends r \<longleftrightarrow> r = [] \<or> hd r \<in> {0x2C, 0x5D, 0x7D}"

lemma ends_simps [simp]: "ends []" "ends (0x2C # r)" "ends (0x5D # r)" "ends (0x7D # r)"
  by (simp_all add: ends_def)

lemma ends_not: "ends r \<Longrightarrow> takeWhile is_digit r = [] \<and> dropWhile is_digit r = r \<and> (r \<noteq> [] \<longrightarrow> hd r \<notin> {0x2E, 0x45, 0x65})"
  by (cases r) (auto simp: ends_def is_digit_def)

lemma digits_split:
  assumes "ends r"
  shows "takeWhile is_digit (nat_digits n @ r) = nat_digits n" "dropWhile is_digit (nat_digits n @ r) = r"
proof -
  have "\<forall>c\<in>set (nat_digits n). is_digit c" using nat_digits_range by (auto simp: is_digit_def)
  then show "takeWhile is_digit (nat_digits n @ r) = nat_digits n" "dropWhile is_digit (nat_digits n @ r) = r"
    using ends_not [OF assms] by (simp_all add: takeWhile_append dropWhile_append)
qed

lemma nat_digits_hd: "0 < n \<Longrightarrow> hd (nat_digits n) \<noteq> 0x30"
proof (induction n rule: nat_digits.induct)
  case (1 n)
  show ?case
  proof (cases "n < 10")
    case True
    have "unat (of_nat (48 + n) :: 16 word) = 48 + n" by (rule unat_digit [OF True])
    moreover have "unat (0x30 :: 16 word) = 48" by simp
    ultimately have "(of_nat (48 + n) :: 16 word) \<noteq> 0x30" using 1(2) by (metis add_left_cancel add.right_neutral less_numeral_extra(3))
    then show ?thesis using True by (subst nat_digits.simps) simp
  next
    case False
    then have "hd (nat_digits (n div 10)) \<noteq> 0x30" using 1(1) [OF False] by simp
    then show ?thesis using False nat_digits_nonempty [of "n div 10"] by (subst nat_digits.simps) simp
  qed
qed

lemma nat_digits_lead: "\<not> (length (nat_digits n) > 1 \<and> hd (nat_digits n) = 0x30)"
  using nat_digits_hd [of n] by (cases "n = 0") (simp_all add: nat_digits.simps)

lemma json_digits_nat:
  assumes "ends r"
  shows "json_digits neg (nat_digits m @ r) = Inr (JNum (NInt (if neg then - int m else int m)), r)"
proof -
  have e: "\<not> (r \<noteq> [] \<and> hd r \<in> {0x2E, 0x45, 0x65})" using ends_not [OF assms] by blast
  show ?thesis
    unfolding json_digits_def Let_def digits_split [OF assms] digits_value_digits
    using e nat_digits_lead [of m] nat_digits_nonempty [of m] by argo
qed

lemma json_int_string:
  assumes "ends r"
  shows "json_int (int_string n @ r) = Inr (JNum (NInt n), r)"
proof (cases "n < 0")
  case True
  then show ?thesis by (simp add: json_int_def int_string_def json_digits_nat [OF assms])
next
  case False
  obtain c ds where c: "nat_digits (nat n) = c # ds" using nat_digits_nonempty by (metis neq_Nil_conv)
  then have "c \<noteq> 0x2D" using minus_not_digit by metis
  then show ?thesis
    using json_digits_nat [OF assms, of False "nat n"] False c by (simp add: json_int_def int_string_def)
qed

text \<open>A list of texts with commas between and what closes it.\<close>

lemma join_comma_simps: "join_comma [] = []" "join_comma [x] = x" "join_comma (x # y # r) = x @ 0x2C # join_comma (y # r)"
  by (simp_all add: join_comma_def)

lemma expect_here: "\<not> is_space k \<Longrightarrow> expect k (k # r) = Some r"
  by (simp add: expect_def skip_space_def)

lemma expect_other: "\<not> is_space c \<Longrightarrow> c \<noteq> k \<Longrightarrow> expect k (c # r) = None"
  by (simp add: expect_def skip_space_def)

lemma not_space: "\<not> is_space 0x22" "\<not> is_space 0x2C" "\<not> is_space 0x3A" "\<not> is_space 0x5B" "\<not> is_space 0x5D"
  "\<not> is_space 0x7B" "\<not> is_space 0x7D" "\<not> is_space 0x2D"
  by (simp_all add: is_space_def)

text \<open>A value begins with a character that closes nothing.\<close>

definition begins :: "jsstr \<Rightarrow> bool" where
  "begins s \<longleftrightarrow> s \<noteq> [] \<and> \<not> is_space (hd s) \<and> hd s \<noteq> 0x5D \<and> hd s \<noteq> 0x7D"

lemma begins_append: "begins s \<Longrightarrow> begins (s @ r)"
  by (cases s) (simp_all add: begins_def)

lemma digit_begins: "is_digit c \<Longrightarrow> begins (c # s)"
  by (auto simp: begins_def is_digit_def is_space_def)

lemma int_string_begins: "begins (int_string n) \<and> (is_digit (hd (int_string n)) \<or> hd (int_string n) = 0x2D)"
proof (cases "n < 0")
  case True
  then show ?thesis by (simp add: int_string_def begins_def is_space_def)
next
  case False
  obtain c ds where c: "nat_digits (nat n) = c # ds" using nat_digits_nonempty by (metis neq_Nil_conv)
  then have "is_digit c" using nat_digits_range [of c "nat n"] by (simp add: is_digit_def)
  then show ?thesis using False c digit_begins by (simp add: int_string_def)
qed

lemma json_string_begins: "begins (json_string v)"
  using int_string_begins by (cases v rule: json_string.cases) (auto simp: begins_def is_space_def quote_def js_def)

lemma expect_begins: "begins s \<Longrightarrow> expect 0x5D (s @ r) = None" "begins s \<Longrightarrow> expect 0x7D (s @ r) = None"
  by (cases s; simp add: begins_def expect_other)+

lemma json_string_pos: "0 < length (json_string v)"
  using json_string_begins [of v] by (cases "json_string v") (simp_all add: begins_def)

definition reads_value :: "jsval \<Rightarrow> bool" where
  "reads_value v \<longleftrightarrow> (\<forall>n r. ends r \<longrightarrow> length (json_string v) < n \<longrightarrow> json_value n (json_string v @ r) = Inr (v, r))"

lemma json_elems_read:
  assumes "\<forall>x\<in>set (x # xs). reads_value x" "length (join_comma (map json_string (x # xs))) + 1 < n"
  shows "json_elems n (join_comma (map json_string (x # xs)) @ 0x5D # r) = Inr (x # xs, r)"
  using assms
proof (induction xs arbitrary: x n)
  case Nil
  then obtain m where "n = Suc m" "length (json_string x) < m" by (cases n) (auto simp: join_comma_simps)
  with Nil show ?case by (simp add: join_comma_simps reads_value_def expect_other expect_here not_space)
next
  case (Cons y ys)
  let ?t = "join_comma (map json_string (y # ys))"
  obtain m where m: "n = Suc m" "length (json_string x) < m" "length ?t + 1 < m"
    using Cons.prems(2) json_string_pos [of x] by (cases n) (auto simp: join_comma_simps)
  have "json_value m (json_string x @ 0x2C # ?t @ 0x5D # r) = Inr (x, 0x2C # ?t @ 0x5D # r)"
    using Cons.prems(1) m(2) by (simp add: reads_value_def)
  moreover have "json_elems m (?t @ 0x5D # r) = Inr (y # ys, r)" using Cons m(3) by simp
  ultimately show ?case by (simp add: m(1) join_comma_simps expect_here not_space)
qed

abbreviation member_string :: "jsstr \<times> jsval \<Rightarrow> jsstr" where
  "member_string \<equiv> \<lambda>(k, x). quote k @ 0x3A # json_string x"

lemma json_members_read:
  assumes "\<forall>p\<in>set (p # ps). reads_value (snd p)" "length (join_comma (map member_string (p # ps))) + 1 < n"
  shows "json_members n (join_comma (map member_string (p # ps)) @ 0x7D # r) = Inr (p # ps, r)"
  using assms
proof (induction ps arbitrary: p n)
  case Nil
  obtain k x where p: "p = (k, x)" by (cases p)
  obtain m where "n = Suc m" "length (json_string x) < m" using Nil.prems(2) p by (cases n) (auto simp: join_comma_simps)
  with Nil p show ?case
    by (simp add: join_comma_simps reads_value_def expect_other expect_here not_space quote_def json_chars_escape)
next
  case (Cons q ps)
  obtain k x where p: "p = (k, x)" by (cases p)
  let ?t = "join_comma (map member_string (q # ps))"
  obtain m where m: "n = Suc m" "length (json_string x) < m" "length ?t + 1 < m"
    using Cons.prems(2) p by (cases n) (auto simp: join_comma_simps)
  have "json_value m (json_string x @ 0x2C # ?t @ 0x7D # r) = Inr (x, 0x2C # ?t @ 0x7D # r)"
    using Cons.prems(1) m(2) p by (simp add: reads_value_def)
  moreover have "json_members m (?t @ 0x7D # r) = Inr (q # ps, r)" using Cons m(3) by simp
  ultimately show ?case
    by (simp add: m(1) p join_comma_simps expect_here not_space quote_def json_chars_escape)
qed

lemma fold_jm_set_distinct: "distinct (map fst (m @ ps)) \<Longrightarrow> fold (\<lambda>(k, x). jm_set k x) ps m = m @ ps"
proof (induction ps arbitrary: m)
  case (Cons p ps)
  obtain k x where p: "p = (k, x)" by (cases p)
  have "jm_set k x m = m @ [(k, x)]" if "k \<notin> fst ` set m" for m
    using that by (induction m) auto
  moreover have "k \<notin> fst ` set m" using Cons.prems p by auto
  ultimately show ?case using Cons.IH [of "m @ [(k, x)]"] Cons.prems p by simp
qed simp

lemma json_value_read: "json_plain v \<Longrightarrow> reads_value v"
proof (induction v)
  case (JNum m)
  then obtain k where k: "m = NInt k" by (cases m) simp_all
  show ?case
    unfolding reads_value_def
  proof (intro allI impI)
    fix n r assume r: "ends r" and "length (json_string (JNum m)) < n"
    then obtain n' where n: "n = Suc n'" by (cases n) simp_all
    obtain c s where c: "int_string k = c # s" using int_string_begins [of k] by (auto simp: begins_def neq_Nil_conv)
    then have "\<not> is_space c" "c \<noteq> 0x22" "c \<noteq> 0x5B" "c \<noteq> 0x7B" "is_digit c \<or> c = 0x2D"
      using int_string_begins [of k] by (auto simp: begins_def is_digit_def)
    then show "json_value n (json_string (JNum m) @ r) = Inr (JNum m, r)"
      using json_int_string [OF r, of k] c by (auto simp: n k skip_space_def)
  qed
next
  case (JStr s)
  show ?case
    unfolding reads_value_def
  proof (intro allI impI)
    fix n r assume "length (json_string (JStr s)) < n"
    then obtain n' where n: "n = Suc n'" by (cases n) simp_all
    show "json_value n (json_string (JStr s) @ r) = Inr (JStr s, r)"
      by (simp add: n quote_def skip_space_def not_space json_chars_escape)
  qed
next
  case (JArr xs)
  show ?case
    unfolding reads_value_def
  proof (intro allI impI)
    fix n r assume "length (json_string (JArr xs)) < n"
    then obtain n' where n: "n = Suc n'" "length (join_comma (map json_string xs)) + 1 < n'" by (cases n) simp_all
    show "json_value n (json_string (JArr xs) @ r) = Inr (JArr xs, r)"
    proof (cases xs)
      case Nil
      then show ?thesis by (simp add: n join_comma_simps skip_space_def not_space expect_here)
    next
      case (Cons y ys)
      have e: "json_elems n' (join_comma (map json_string xs) @ 0x5D # r) = Inr (xs, r)"
        using JArr n(2) unfolding Cons by (intro json_elems_read) auto
      have "begins (join_comma (map json_string xs))"
        unfolding Cons using json_string_begins begins_append by (simp add: join_comma_def)
      then have "expect 0x5D (join_comma (map json_string xs) @ 0x5D # r) = None" by (rule expect_begins)
      with e show ?thesis by (simp add: n skip_space_def not_space)
    qed
  qed
next
  case (JObj ps)
  show ?case
    unfolding reads_value_def
  proof (intro allI impI)
    fix n r assume "length (json_string (JObj ps)) < n"
    then obtain n' where n: "n = Suc n'" "length (join_comma (map member_string ps)) + 1 < n'" by (cases n) simp_all
    show "json_value n (json_string (JObj ps) @ r) = Inr (JObj ps, r)"
    proof (cases ps)
      case Nil
      then show ?thesis by (simp add: n join_comma_simps skip_space_def not_space expect_here)
    next
      case (Cons q qs)
      have e: "json_members n' (join_comma (map member_string ps) @ 0x7D # r) = Inr (ps, r)"
        using JObj n(2) unfolding Cons by (intro json_members_read) (auto simp: snds.simps)
      have "begins (join_comma (map member_string ps))"
        unfolding Cons by (simp add: join_comma_def begins_def quote_def not_space split: prod.split)
      then have "expect 0x7D (join_comma (map member_string ps) @ 0x7D # r) = None" by (rule expect_begins)
      moreover have "fold (\<lambda>(k, x). jm_set k x) ps [] = ps" using JObj.prems fold_jm_set_distinct [of "[]" ps] by simp
      ultimately show ?thesis using e by (simp add: n skip_space_def not_space)
    qed
  qed
qed (auto simp: reads_value_def less_Suc_eq_0_disj js_def json_word_def skip_space_def is_space_def is_digit_def gr0_conv_Suc
    dest!: Suc_lessD split: if_splits)

lemma json_parse_string:
  assumes "json_plain v"
  shows "json_parse (json_string v) = Inr v"
proof -
  have "json_value (Suc (length (json_string v))) (json_string v @ []) = Inr (v, [])"
    using json_value_read [OF assms] unfolding reads_value_def by (meson ends_simps(1) lessI)
  then show ?thesis by (simp add: json_parse_def skip_space_def)
qed

section \<open>The text is well-formed UTF-16\<close>

lemma wf_utf16_append: "wf_utf16 xs \<Longrightarrow> wf_utf16 ys \<Longrightarrow> wf_utf16 (xs @ ys)"
proof (induction xs rule: wf_utf16.induct)
  case (2 c)
  then show ?case by (cases ys) auto
next
  case (3 c d cs)
  then show ?case by (cases "0xD800 \<le> unat c \<and> unat c < 0xDC00") auto
qed simp

lemma wf_utf16_plain: "\<forall>c\<in>set s. unat c < 0xD800 \<Longrightarrow> wf_utf16 s"
proof (induction s rule: wf_utf16.induct)
  case (3 c d cs)
  then have "\<not> (0xD800 \<le> unat c \<and> unat c < 0xDC00)" by simp
  with 3 show ?case by simp
qed simp_all

lemma unat_of_nat_le: "unat (of_nat n :: 'a :: len word) \<le> n"
  by (simp add: unat_of_nat)

lemma unat_of_char: "unat (of_char c :: 16 word) < 256"
proof -
  have "(of_char c :: 16 word) = of_nat (of_char c)" by (simp only: of_nat_of_char)
  also have "unat \<dots> \<le> of_char c" by (rule unat_of_nat_le)
  finally have "unat (of_char c :: 16 word) \<le> of_char c" .
  also have "(of_char c :: nat) < 256" by simp
  finally show ?thesis .
qed

lemma hex4_plain: "x \<in> set (hex4 c) \<Longrightarrow> unat x < 0xD800"
proof -
  assume "x \<in> set (hex4 c)"
  then obtain k where k: "x = of_nat (hexdigit (unat c div 16 ^ k mod 16))" unfolding hex4_def set_map by blast
  have "unat x \<le> hexdigit (unat c div 16 ^ k mod 16)" unfolding k by (rule unat_of_nat_le)
  also have "\<dots> < 256" by (rule hexdigit_less) simp
  finally show ?thesis by simp
qed

lemma wf_escape_unit: "\<not> is_high c \<Longrightarrow> \<not> is_low c \<Longrightarrow> wf_utf16 (escape_unit c)"
  using hex4_plain [of _ c]
  by (auto simp: escape_unit_def is_high_def is_low_def intro!: wf_utf16_plain)

lemma wf_unit_u: "wf_utf16 ([0x5C, 0x75] @ hex4 c)"
  using hex4_plain by (intro wf_utf16_plain) auto

lemma wf_escape: "wf_utf16 (escape s)"
proof (induction s rule: escape.induct)
  case (2 c)
  then show ?case using wf_unit_u [of c] wf_escape_unit [of c] by auto
next
  case (3 c d s)
  show ?case
  proof (cases "is_high c \<and> is_low d")
    case True
    with "3.IH"(1) [OF True] show ?thesis by (simp add: is_high_def is_low_def)
  next
    case False
    have w: "wf_utf16 (if is_high c \<or> is_low c then [0x5C, 0x75] @ hex4 c else escape_unit c)"
      using wf_unit_u [of c] wf_escape_unit [of c] by simp
    have e: "escape (c # d # s) = (if is_high c \<or> is_low c then [0x5C, 0x75] @ hex4 c else escape_unit c) @ escape (d # s)"
      using False by (simp only: escape.simps if_False)
    show ?thesis unfolding e by (rule wf_utf16_append [OF w "3.IH"(2) [OF False]])
  qed
qed simp

lemma wf_cons: "unat c < 0xD800 \<Longrightarrow> wf_utf16 s \<Longrightarrow> wf_utf16 (c # s)"
  using wf_utf16_append [of "[c]" s] by simp

lemma wf_quote: "wf_utf16 (quote s)"
  unfolding quote_def by (intro wf_cons wf_utf16_append wf_escape wf_utf16_plain) simp_all

lemma wf_join_comma: "\<forall>s\<in>set ss. wf_utf16 s \<Longrightarrow> wf_utf16 (join_comma ss)"
proof (induction ss)
  case (Cons s ss)
  show ?case
  proof (cases ss)
    case Nil
    with Cons show ?thesis by (simp add: join_comma_def)
  next
    case (Cons y ys)
    then have "join_comma (s # ss) = s @ 0x2C # join_comma ss" by (simp add: join_comma_simps)
    then show ?thesis using Cons.IH Cons.prems by (auto intro!: wf_utf16_append wf_cons)
  qed
qed (simp add: join_comma_def)

lemma wf_int_string: "wf_utf16 (int_string n)"
proof (rule wf_utf16_plain)
  show "\<forall>c\<in>set (int_string n). unat c < 0xD800"
    using nat_digits_range by (fastforce simp: int_string_def split: if_splits)
qed

lemma wf_js: "wf_utf16 (js s)"
  by (rule wf_utf16_plain) (auto simp: js_def intro: less_trans [OF unat_of_char])

lemma wf_json_string: "wf_utf16 (json_string v)"
proof (induction v)
  case (JNum m)
  then show ?case using wf_int_string wf_js by (cases m) simp_all
next
  case (JArr xs)
  then show ?case by (auto intro!: wf_cons wf_utf16_append wf_join_comma)
next
  case (JObj ps)
  have "wf_utf16 (quote k @ 0x3A # json_string x)" if "(k, x) \<in> set ps" for k x
    using JObj that by (intro wf_utf16_append wf_cons wf_quote) (auto simp: snds.simps)
  then have "wf_utf16 (join_comma (map member_string ps))" by (intro wf_join_comma) auto
  then show ?case by (simp add: wf_cons wf_utf16_append)
qed (simp_all add: wf_quote wf_js)

lemma json_text_ok: "text_ok (json_string v)"
proof -
  have "hd (int_string n) \<noteq> 0xFEFF" for n
    using int_string_begins [of n] by (auto simp: is_digit_def)
  then have "hd (json_string v) \<noteq> 0xFEFF"
    by (cases v rule: json_string.cases) (simp_all add: quote_def js_def)
  then show ?thesis by (simp add: text_ok_def wf_json_string)
qed

end
