(* ===== verification/Bucket.thy ===== *)
theory Bucket
  imports JsonText
begin

text \<open>
  Object storage: the interface \<open>R2Like\<close> of \<open>internal/storage/index.ts\<close> as a record of
  operations, with what its users rely on as the locale \<open>r2_bucket\<close>; the in-memory bucket of
  \<open>internal/storage/memory.ts\<close>, which satisfies it; the view of a bucket under a key prefix,
  which satisfies it when the bucket does; and the paged listing every user of a bucket runs.
\<close>

section \<open>The interface\<close>

record http_meta =
  hm_cacheControl :: string
  hm_contentType :: string

record r2_object =
  ob_body :: bytes
  ob_meta :: "http_meta option"

definition object_text :: "r2_object \<Rightarrow> jsstr" where
  "object_text o' = utf8_decode (ob_body o')"

datatype r2_value = RBytes bytes | RText jsstr

fun body_bytes :: "r2_value \<Rightarrow> bytes" where
  "body_bytes (RBytes b) = b"
| "body_bytes (RText s) = utf8_encode s"

record r2_page =
  pg_objects :: "(string \<times> nat) list"
  pg_truncated :: bool
  pg_cursor :: "jsstr option"

record 'b r2like =
  bk_get :: "'b \<Rightarrow> string \<Rightarrow> r2_object option \<times> 'b"
  bk_put :: "'b \<Rightarrow> string \<Rightarrow> r2_value \<Rightarrow> http_meta option \<Rightarrow> 'b"
  bk_head :: "'b \<Rightarrow> string \<Rightarrow> bool"
  bk_delete :: "'b \<Rightarrow> string list \<Rightarrow> 'b"
  bk_list :: "'b \<Rightarrow> string \<Rightarrow> jsstr option \<Rightarrow> nat \<Rightarrow> r2_page"

definition prefixedBucket :: "'b r2like \<Rightarrow> string \<Rightarrow> 'b r2like" where
  "prefixedBucket bk p =
     \<lparr>bk_get = (\<lambda>b k. bk_get bk b (p @ k)),
      bk_put = (\<lambda>b k v m. bk_put bk b (p @ k) v m),
      bk_head = (\<lambda>b k. bk_head bk b (p @ k)),
      bk_delete = (\<lambda>b ks. bk_delete bk b (map ((@) p) ks)),
      bk_list = (\<lambda>b q c l. let page = bk_list bk b (p @ q) c l
        in page\<lparr>pg_objects := map (\<lambda>(k, n). (drop (length p) k, n)) (pg_objects page)\<rparr>)\<rparr>"

section \<open>The in-memory bucket\<close>

record memory_bucket =
  mb_objects :: "(string, r2_object) jsmap"
  mb_puts :: nat
  mb_gets :: nat
  mb_getLog :: "string list"

definition MemoryBucket :: memory_bucket where
  "MemoryBucket = \<lparr>mb_objects = [], mb_puts = 0, mb_gets = 0, mb_getLog = []\<rparr>"

definition MemoryBucket_get :: "memory_bucket \<Rightarrow> string \<Rightarrow> r2_object option \<times> memory_bucket" where
  "MemoryBucket_get b k =
     (jm_get (mb_objects b) k, b\<lparr>mb_gets := mb_gets b + 1, mb_getLog := mb_getLog b @ [k]\<rparr>)"

definition MemoryBucket_put :: "memory_bucket \<Rightarrow> string \<Rightarrow> r2_value \<Rightarrow> http_meta option \<Rightarrow> memory_bucket" where
  "MemoryBucket_put b k v m =
     b\<lparr>mb_puts := mb_puts b + 1, mb_objects := jm_set k \<lparr>ob_body = body_bytes v, ob_meta = m\<rparr> (mb_objects b)\<rparr>"

definition MemoryBucket_head :: "memory_bucket \<Rightarrow> string \<Rightarrow> bool" where
  "MemoryBucket_head b k = jm_has (mb_objects b) k"

definition MemoryBucket_delete :: "memory_bucket \<Rightarrow> string list \<Rightarrow> memory_bucket" where
  "MemoryBucket_delete b ks = b\<lparr>mb_objects := fold jm_delete ks (mb_objects b)\<rparr>"

definition key_cmp :: "string \<Rightarrow> string \<Rightarrow> int" where
  "key_cmp = lex_by (of_char :: char \<Rightarrow> nat)"

fun starts_with :: "string \<Rightarrow> string \<Rightarrow> bool" where
  "starts_with [] k = True"
| "starts_with (x # p) [] = False"
| "starts_with (x # p) (y # k) = (x = y \<and> starts_with p k)"

text \<open>
  A cursor is the decimal position it was made from; \<open>Number\<close> of any other text is taken as
  NaN, from which \<open>slice\<close> takes nothing.
\<close>

definition cursor_position :: "jsstr option \<Rightarrow> nat option" where
  "cursor_position c =
     (case c of
        None \<Rightarrow> Some 0
      | Some s \<Rightarrow> if s = [] then Some 0 else if \<forall>x\<in>set s. is_digit x then Some (digits_value 0 s) else None)"

definition MemoryBucket_list :: "memory_bucket \<Rightarrow> string \<Rightarrow> jsstr option \<Rightarrow> nat \<Rightarrow> r2_page" where
  "MemoryBucket_list b p c l =
     (let ks = js_sort key_cmp (filter (starts_with p) (map fst (mb_objects b)))
      in case cursor_position c of
           None \<Rightarrow> \<lparr>pg_objects = [], pg_truncated = False, pg_cursor = None\<rparr>
         | Some start \<Rightarrow>
             (let truncated = start + l < length ks
              in \<lparr>pg_objects = map (\<lambda>k. (k, length (ob_body (the (jm_get (mb_objects b) k))))) (take l (drop start ks)),
                  pg_truncated = truncated,
                  pg_cursor = if truncated then Some (nat_digits (start + l)) else None\<rparr>))"

definition memory_r2 :: "memory_bucket r2like" where
  "memory_r2 = \<lparr>bk_get = MemoryBucket_get, bk_put = MemoryBucket_put, bk_head = MemoryBucket_head,
     bk_delete = MemoryBucket_delete, bk_list = MemoryBucket_list\<rparr>"

section \<open>Listing page by page\<close>

text \<open>The loop \<open>do \<dots> while (cursor)\<close> over the pages of a prefix; the fuel bounds the pages.\<close>

fun list_pages :: "nat \<Rightarrow> 'b r2like \<Rightarrow> 'b \<Rightarrow> string \<Rightarrow> jsstr option \<Rightarrow> (string \<times> nat) list res" where
  "list_pages 0 bk b p c = Inl Diverges"
| "list_pages (Suc n) bk b p c =
     (let page = bk_list bk b p c 1000; c' = (if pg_truncated page then pg_cursor page else None)
      in rmap ((@) (pg_objects page)) (case c' of None \<Rightarrow> Inr [] | Some s \<Rightarrow> if s = [] then Inr [] else list_pages n bk b p (Some s)))"

section \<open>What users rely on\<close>

text \<open>
  \<open>objs\<close> is the bucket as a map from keys to bodies. A list call returns the keys with the
  prefix in the order of their characters, from a position that its cursor names.
\<close>

definition keys_under :: "(string \<rightharpoonup> bytes) \<Rightarrow> string \<Rightarrow> string list \<Rightarrow> bool" where
  "keys_under m p ks \<longleftrightarrow> set ks = {k \<in> dom m. starts_with p k} \<and> strictly_sorted key_cmp ks"

locale r2_bucket =
  fixes bk :: "'b r2like"
    and objs :: "'b \<Rightarrow> (string \<rightharpoonup> bytes)"
    and ok :: "'b \<Rightarrow> bool"
    and cursor_at :: "nat \<Rightarrow> jsstr"
  assumes get_body: "ok b \<Longrightarrow> bk_get bk b k = (r, b') \<Longrightarrow> ok b' \<and> objs b' = objs b \<and> map_option ob_body r = objs b k"
    and put_body: "ok b \<Longrightarrow> ok (bk_put bk b k v m) \<and> objs (bk_put bk b k v m) = (objs b)(k \<mapsto> body_bytes v)"
    and head_has: "ok b \<Longrightarrow> bk_head bk b k \<longleftrightarrow> objs b k \<noteq> None"
    and delete_all: "ok b \<Longrightarrow> ok (bk_delete bk b ks) \<and> objs (bk_delete bk b ks) = (objs b) |` (- set ks)"
    and keys_exist: "ok b \<Longrightarrow> \<exists>ks. keys_under (objs b) p ks"
    and list_page: "ok b \<Longrightarrow> keys_under (objs b) p ks \<Longrightarrow> c = None \<and> j = 0 \<or> c = Some (cursor_at j) \<Longrightarrow>
      bk_list bk b p c l =
        \<lparr>pg_objects = map (\<lambda>x. (x, length (the (objs b x)))) (take l (drop j ks)),
         pg_truncated = (j + l < length ks),
         pg_cursor = (if j + l < length ks then Some (cursor_at (j + l)) else None)\<rparr>"
    and cursor_nonempty: "cursor_at j \<noteq> []"
begin

lemma list_pages_from:
  assumes "ok b" "keys_under (objs b) p ks" "c = None \<and> k = 0 \<or> c = Some (cursor_at k)" "length ks < k + 1000 * n" "0 < n"
  shows "list_pages n bk b p c = Inr (map (\<lambda>x. (x, length (the (objs b x)))) (drop k ks))"
  using assms(3-)
proof (induction n arbitrary: c k)
  case (Suc n)
  note page = list_page [OF assms(1,2) Suc.prems(1), of 1000]
  show ?case
  proof (cases "k + 1000 < length ks")
    case True
    then have "list_pages n bk b p (Some (cursor_at (k + 1000))) = Inr (map (\<lambda>x. (x, length (the (objs b x)))) (drop (k + 1000) ks))"
      using Suc.prems(2) by (intro Suc.IH) auto
    moreover have "drop k ks = take 1000 (drop k ks) @ drop (k + 1000) ks"
      by (metis append_take_drop_id drop_drop add.commute)
    ultimately show ?thesis using True page cursor_nonempty [of "k + 1000"]
      by (simp add: Let_def) (metis map_append)
  next
    case False
    then show ?thesis using page by (simp add: Let_def)
  qed
qed simp

lemma list_pages_all:
  assumes "ok b" "keys_under (objs b) p ks" "length ks < 1000 * n"
  shows "list_pages n bk b p None = Inr (map (\<lambda>x. (x, length (the (objs b x)))) ks)"
  using list_pages_from [OF assms(1,2), of None 0 n] assms(3) by (cases n) simp_all

end

section \<open>The in-memory bucket keeps the contract\<close>

interpretation keys: cmp_total key_cmp "\<lambda>_. True"
proof (rule cmp_total.intro)
  show "cmp_order key_cmp (\<lambda>_. True)" unfolding key_cmp_def by (rule cmp_order_lex_by)
  have "inj (of_char :: char \<Rightarrow> nat)" by (rule injI) simp
  then show "cmp_total_axioms key_cmp (\<lambda>_. True)" by unfold_locales (auto simp: key_cmp_def dest: lex_by_zero)
qed

lemma distinct_insert_by: "distinct (insert_by cmp x xs) \<longleftrightarrow> x \<notin> set xs \<and> distinct xs"
  by (induction xs) auto

lemma distinct_js_sort: "distinct (js_sort cmp xs) \<longleftrightarrow> distinct xs"
proof (induction xs)
  case (Cons x xs)
  have "js_sort cmp (x # xs) = insert_by cmp x (js_sort cmp xs)" by (simp add: js_sort_def)
  then show ?case using Cons by (simp add: distinct_insert_by)
qed (simp add: js_sort_def)

lemma sorted_distinct_strict: "sorted_wrt (\<lambda>x y. key_cmp x y \<le> 0) ks \<Longrightarrow> distinct ks \<Longrightarrow> strictly_sorted key_cmp ks"
proof (induction ks)
  case (Cons k ks)
  have "key_cmp k x < 0" if "x \<in> set ks" for x
    using Cons.prems that keys.cmp_zero_eq [of k x] by fastforce
  with Cons show ?case by (simp add: strictly_sorted_def)
qed (simp add: strictly_sorted_def)

lemma sort_keys_strict: "distinct ks \<Longrightarrow> strictly_sorted key_cmp (js_sort key_cmp ks)"
  by (rule sorted_distinct_strict) (simp_all add: keys.js_sort_sorted distinct_js_sort)

definition mb_objs :: "memory_bucket \<Rightarrow> (string \<rightharpoonup> bytes)" where
  "mb_objs b k = map_option ob_body (jm_get (mb_objects b) k)"

definition mb_ok :: "memory_bucket \<Rightarrow> bool" where
  "mb_ok b \<longleftrightarrow> jm_ok (mb_objects b)"

lemma dom_jm_get: "{k. jm_get m k \<noteq> None} = fst ` set m"
  by (auto simp: jm_get_None)

lemma mb_keys: "mb_ok b \<Longrightarrow> keys_under (mb_objs b) p (js_sort key_cmp (filter (starts_with p) (map fst (mb_objects b))))"
proof -
  assume "mb_ok b"
  then have "distinct (filter (starts_with p) (map fst (mb_objects b)))" by (simp add: mb_ok_def jm_ok_def)
  moreover have "dom (mb_objs b) = fst ` set (mb_objects b)" using dom_jm_get [of "mb_objects b"] by (auto simp: mb_objs_def dom_def)
  ultimately show ?thesis by (auto simp: keys_under_def sort_keys_strict)
qed

lemma keys_under_unique: "keys_under m p ks \<Longrightarrow> keys_under m p ks' \<Longrightarrow> ks = ks'"
  by (auto simp: keys_under_def intro: keys.strictly_sorted_unique)

lemma jm_get_deletes: "jm_get (fold jm_delete ks m) k = (if k \<in> set ks then None else jm_get m k)"
  by (induction ks arbitrary: m) auto

lemma jm_ok_deletes: "jm_ok m \<Longrightarrow> jm_ok (fold jm_delete ks m)"
  by (induction ks arbitrary: m) auto

lemma cursor_digits: "cursor_position (Some (nat_digits k)) = Some k"
  using nat_digits_range [of _ k] nat_digits_nonempty [of k]
  by (simp add: cursor_position_def digits_value_digits is_digit_def)

interpretation memory: r2_bucket memory_r2 mb_objs mb_ok nat_digits
proof (unfold_locales, goal_cases)
  case (1 b k r b')
  then show ?case by (auto simp: memory_r2_def MemoryBucket_get_def mb_ok_def mb_objs_def fun_eq_iff)
next
  case (2 b k v m)
  then show ?case by (auto simp: memory_r2_def MemoryBucket_put_def mb_ok_def mb_objs_def fun_eq_iff)
next
  case (3 b k)
  then show ?case by (simp add: memory_r2_def MemoryBucket_head_def mb_objs_def jm_has_iff)
next
  case (4 b ks)
  then show ?case
    by (auto simp: memory_r2_def MemoryBucket_delete_def mb_ok_def mb_objs_def fun_eq_iff jm_get_deletes jm_ok_deletes restrict_map_def)
next
  case (5 b p)
  then show ?case using mb_keys by blast
next
  case (6 b p ks c j l)
  then have ks: "ks = js_sort key_cmp (filter (starts_with p) (map fst (mb_objects b)))"
    using keys_under_unique mb_keys by blast
  have c: "cursor_position c = Some j" using 6(3) cursor_digits by (auto simp: cursor_position_def)
  have len: "length (ob_body (the (jm_get (mb_objects b) k))) = length (the (mb_objs b k))" if "k \<in> set ks" for k
  proof -
    have "mb_objs b k \<noteq> None" using that 6(2) by (auto simp: keys_under_def)
    then show ?thesis by (auto simp: mb_objs_def)
  qed
  have "map (\<lambda>k. (k, length (ob_body (the (jm_get (mb_objects b) k))))) (take l (drop j ks)) =
      map (\<lambda>k. (k, length (the (mb_objs b k)))) (take l (drop j ks))"
    by (rule map_cong [OF refl]) (use len in_set_takeD in_set_dropD in fastforce)
  then show ?case by (simp add: memory_r2_def MemoryBucket_list_def c ks [symmetric] Let_def)
next
  case (7 j)
  show ?case by (rule nat_digits_nonempty)
qed

section \<open>A bucket under a prefix keeps the contract\<close>

definition objs_under :: "string \<Rightarrow> ('b \<Rightarrow> (string \<rightharpoonup> bytes)) \<Rightarrow> 'b \<Rightarrow> (string \<rightharpoonup> bytes)" where
  "objs_under p objs b k = objs b (p @ k)"

lemma key_cmp_append: "key_cmp (p @ x) (p @ y) = key_cmp x y"
  by (induction p) (simp_all add: key_cmp_def)

lemma starts_with_append: "starts_with (p @ q) k \<longleftrightarrow> (\<exists>r. k = p @ r \<and> starts_with q r)"
proof (induction p arbitrary: k)
  case (Cons x p)
  then show ?case by (cases k) auto
qed simp

lemma strictly_sorted_map: "(\<And>x y. key_cmp (f x) (f y) = key_cmp x y) \<Longrightarrow> strictly_sorted key_cmp (map f xs) = strictly_sorted key_cmp xs"
  by (simp add: strictly_sorted_def sorted_wrt_map)

lemma keys_under_prefix: "keys_under (objs_under p objs b) q ks \<longleftrightarrow> keys_under (objs b) (p @ q) (map ((@) p) ks)"
proof -
  have "{k \<in> dom (objs b). starts_with (p @ q) k} = (@) p ` {k \<in> dom (objs_under p objs b). starts_with q k}"
    by (auto simp: starts_with_append objs_under_def dom_def image_iff)
  moreover have "(@) p ` A = (@) p ` B \<longleftrightarrow> A = B" for A B :: "string set" by (auto simp: inj_image_eq_iff)
  ultimately show ?thesis
    unfolding keys_under_def by (simp add: strictly_sorted_map key_cmp_append)
qed

lemma prefixedBucket_contract:
  assumes "r2_bucket bk objs ok cursor_at"
  shows "r2_bucket (prefixedBucket bk p) (objs_under p objs) ok cursor_at"
proof -
  note get_body = r2_bucket.get_body [OF assms] and put_body = r2_bucket.put_body [OF assms]
    and head_has = r2_bucket.head_has [OF assms] and delete_all = r2_bucket.delete_all [OF assms]
  show ?thesis
  proof (unfold_locales, goal_cases)
    case (1 b k r b')
    then show ?case using get_body [of b "p @ k" r b'] by (simp add: prefixedBucket_def objs_under_def fun_eq_iff)
  next
    case (2 b k v m)
    then show ?case using put_body [of b "p @ k" v m] by (simp add: prefixedBucket_def objs_under_def fun_eq_iff)
  next
    case (3 b k)
    then show ?case using head_has [of b "p @ k"] by (simp add: prefixedBucket_def objs_under_def)
  next
    case (4 b ks)
    then show ?case using delete_all [of b "map ((@) p) ks"]
      by (auto simp: prefixedBucket_def objs_under_def fun_eq_iff restrict_map_def)
  next
    case (5 b q)
    then obtain ks where ks: "keys_under (objs b) (p @ q) ks" using r2_bucket.keys_exist [OF assms] by blast
    then have "\<forall>k\<in>set ks. \<exists>r. k = p @ r" by (auto simp: keys_under_def starts_with_append)
    then have "map ((@) p) (map (drop (length p)) ks) = ks" by (induction ks) auto
    then show ?case using ks keys_under_prefix by metis
  next
    case (6 b q ks c j l)
    have "bk_list bk b (p @ q) c l =
        \<lparr>pg_objects = map (\<lambda>x. (x, length (the (objs b x)))) (take l (drop j (map ((@) p) ks))),
         pg_truncated = (j + l < length (map ((@) p) ks)),
         pg_cursor = (if j + l < length (map ((@) p) ks) then Some (cursor_at (j + l)) else None)\<rparr>"
      by (rule r2_bucket.list_page [OF assms 6(1) keys_under_prefix [THEN iffD1, OF 6(2)] 6(3)])
    then show ?case by (simp add: prefixedBucket_def Let_def take_map drop_map objs_under_def)
  next
    case (7 j)
    show ?case by (rule r2_bucket.cursor_nonempty [OF assms])
  qed
qed

interpretation memory_under: r2_bucket "prefixedBucket memory_r2 p" "objs_under p mb_objs" mb_ok nat_digits for p
  by (rule prefixedBucket_contract) (rule memory.r2_bucket_axioms)

end
