(* ===== verification/RootStore.thy ===== *)
theory RootStore
  imports Bucket DbView
begin

text \<open>
  What a database keeps beside its nodes in object storage (\<open>internal/storage/index.ts\<close>): the
  records of its roots, the immutable \<open>roots/<t>\<close> and the mutable \<open>root/current\<close>, and the
  chunks of its log, \<open>log/<t0>-<t1>\<close>. What is published is read back, roots are listed
  completely, and the log is read back in order.
\<close>

section \<open>Keys\<close>

text \<open>A text of decimal digits as characters, and \<open>padStart(12, "0")\<close>.\<close>

definition digit_chars :: "int \<Rightarrow> string" where
  "digit_chars t = map (\<lambda>c. char_of (unat c)) (int_string t)"

definition pad12 :: "string \<Rightarrow> string" where
  "pad12 s = replicate (12 - length s) (CHR ''0'') @ s"

definition rootKey :: "int \<Rightarrow> string" where
  "rootKey t = ''roots/'' @ pad12 (digit_chars t)"

definition ROOT_CURRENT_KEY :: string where
  "ROOT_CURRENT_KEY = ''root/current''"

definition logKey :: "int \<Rightarrow> int \<Rightarrow> string" where
  "logKey t0 t1 = ''log/'' @ pad12 (digit_chars t0) @ ''-'' @ pad12 (digit_chars t1)"

text \<open>\<open>Number\<close> of a text of digits; the empty text is 0, other texts are outside the model.\<close>

definition text_number :: "string \<Rightarrow> int option" where
  "text_number s = (if list_all is_digit (js s) then Some (int (digits_value 0 (js s))) else None)"

section \<open>Root records\<close>

record root_record =
  rr_t :: int
  rr_eavt :: node_ref
  rr_aevt :: node_ref
  rr_avet :: node_ref
  rr_vaet :: node_ref
  rr_log_watermark :: int
  rr_next_eid :: int
  rr_codec :: jsstr
  rr_created_at :: int

definition rootsToRecord :: "roots \<Rightarrow> int \<Rightarrow> int \<Rightarrow> jsstr \<Rightarrow> int \<Rightarrow> root_record" where
  "rootsToRecord r watermark next_eid codec created_at =
     \<lparr>rr_t = ro_t r, rr_eavt = ro_eavt r, rr_aevt = ro_aevt r, rr_avet = ro_avet r, rr_vaet = ro_vaet r,
      rr_log_watermark = watermark, rr_next_eid = next_eid, rr_codec = codec, rr_created_at = created_at\<rparr>"

definition recordToRoots :: "root_record \<Rightarrow> roots" where
  "recordToRoots r =
     \<lparr>ro_t = rr_t r, ro_eavt = rr_eavt r, ro_aevt = rr_aevt r, ro_avet = rr_avet r, ro_vaet = rr_vaet r\<rparr>"

definition kind_number :: "node_kind \<Rightarrow> int" where
  "kind_number k = (if k = KLeaf then 0 else 1)"

definition ref_json :: "node_ref \<Rightarrow> jsval" where
  "ref_json r = JObj [(js ''hash'', JStr (js (r_hash r))), (js ''kind'', JNum (NInt (kind_number (r_kind r)))),
     (js ''count'', JNum (NInt (int (r_count r))))]"

definition record_json :: "root_record \<Rightarrow> jsval" where
  "record_json r = JObj
     [(js ''v'', JNum (NInt 1)), (js ''t'', JNum (NInt (rr_t r))),
      (js ''eavt'', ref_json (rr_eavt r)), (js ''aevt'', ref_json (rr_aevt r)),
      (js ''avet'', ref_json (rr_avet r)), (js ''vaet'', ref_json (rr_vaet r)),
      (js ''log_watermark'', JNum (NInt (rr_log_watermark r))), (js ''next_eid'', JNum (NInt (rr_next_eid r))),
      (js ''codec'', JStr (rr_codec r)), (js ''created_at'', JNum (NInt (rr_created_at r)))]"

text \<open>
  \<open>JSON.parse\<close> is cast to a record unchecked. A text that has not the fields of a record,
  or has them of other types, is outside the model.
\<close>

definition ref_of_json :: "jsval \<Rightarrow> node_ref option" where
  "ref_of_json v =
     (case v of
        JObj o' \<Rightarrow>
          (case (j_get o' ''hash'', j_get o' ''kind'', j_get o' ''count'') of
             (JStr h, JNum (NInt k), JNum (NInt c)) \<Rightarrow>
               if k \<in> {0, 1} \<and> 0 \<le> c \<and> list_all (\<lambda>u. unat u < 256) h
               then Some \<lparr>r_hash = map (\<lambda>u. char_of (unat u)) h, r_kind = (if k = 0 then KLeaf else KDir), r_count = nat c\<rparr>
               else None
           | _ \<Rightarrow> None)
      | _ \<Rightarrow> None)"

definition record_of_json :: "jsval \<Rightarrow> root_record option" where
  "record_of_json v =
     (case v of
        JObj o' \<Rightarrow>
          (case (j_get o' ''t'', ref_of_json (j_get o' ''eavt''), ref_of_json (j_get o' ''aevt''), ref_of_json (j_get o' ''avet''),
                 ref_of_json (j_get o' ''vaet''), j_get o' ''log_watermark'', j_get o' ''next_eid'', j_get o' ''codec'', j_get o' ''created_at'') of
             (JNum (NInt t), Some ea, Some ae, Some av, Some va, JNum (NInt w), JNum (NInt e), JStr c, JNum (NInt at)) \<Rightarrow>
               Some \<lparr>rr_t = t, rr_eavt = ea, rr_aevt = ae, rr_avet = av, rr_vaet = va, rr_log_watermark = w,
                 rr_next_eid = e, rr_codec = c, rr_created_at = at\<rparr>
           | _ \<Rightarrow> None)
      | _ \<Rightarrow> None)"

definition parse_record :: "r2_object \<Rightarrow> root_record res" where
  "parse_record o' = rbind (json_parse (object_text o')) (\<lambda>v.
     case record_of_json v of Some r \<Rightarrow> Inr r | None \<Rightarrow> Inl (Error ''not a root record''))"

definition read_record :: "'b r2like \<Rightarrow> 'b \<Rightarrow> string \<Rightarrow> root_record option res \<times> 'b" where
  "read_record bk b k =
     (case bk_get bk b k of
        (None, b') \<Rightarrow> (Inr None, b')
      | (Some o', b') \<Rightarrow> (rmap Some (parse_record o'), b'))"

definition readCurrentRoot :: "'b r2like \<Rightarrow> 'b \<Rightarrow> root_record option res \<times> 'b" where
  "readCurrentRoot bk b = read_record bk b ROOT_CURRENT_KEY"

definition readRootAt :: "'b r2like \<Rightarrow> 'b \<Rightarrow> int \<Rightarrow> root_record option res \<times> 'b" where
  "readRootAt bk b t = read_record bk b (rootKey t)"

definition IMMUTABLE_CACHE_CONTROL :: string where
  "IMMUTABLE_CACHE_CONTROL = ''public, max-age=31536000, immutable''"

definition ROOT_CACHE_CONTROL :: string where
  "ROOT_CACHE_CONTROL = ''no-store''"

text \<open>The immutable record is written first, then \<open>root/current\<close> is flipped to it.\<close>

definition publish_immutable :: "'b r2like \<Rightarrow> 'b \<Rightarrow> root_record \<Rightarrow> 'b" where
  "publish_immutable bk b r =
     bk_put bk b (rootKey (rr_t r)) (RText (json_string (record_json r)))
       (Some \<lparr>hm_cacheControl = IMMUTABLE_CACHE_CONTROL, hm_contentType = ''application/json''\<rparr>)"

definition publishRoot :: "'b r2like \<Rightarrow> 'b \<Rightarrow> root_record \<Rightarrow> 'b" where
  "publishRoot bk b r =
     bk_put bk (publish_immutable bk b r) ROOT_CURRENT_KEY (RText (json_string (record_json r)))
       (Some \<lparr>hm_cacheControl = ROOT_CACHE_CONTROL, hm_contentType = ''application/json''\<rparr>)"

definition by_number :: "int \<Rightarrow> int \<Rightarrow> int" where
  "by_number x y = x - y"

definition listRoots :: "nat \<Rightarrow> 'b r2like \<Rightarrow> 'b \<Rightarrow> int list res" where
  "listRoots n bk b =
     rbind (list_pages n bk b ''roots/'' None) (\<lambda>os.
     rmap (js_sort by_number)
       (rmaplist (\<lambda>(k, s). case text_number (drop 6 k) of Some t \<Rightarrow> Inr t | None \<Rightarrow> Inl (Error ''not a number'')) os))"

section \<open>Log chunks\<close>

definition putLogChunk :: "(bytes \<Rightarrow> bytes) \<Rightarrow> 'b r2like \<Rightarrow> 'b \<Rightarrow> log_entry list \<Rightarrow> (string \<times> 'b) res" where
  "putLogChunk compress bk b es =
     (if es = [] then Inl (Error ''empty log chunk'')
      else let k = logKey (le_t (hd es)) (le_t (last es))
           in rmap (\<lambda>raw. (k, bk_put bk b k (RBytes (compress raw))
                (Some \<lparr>hm_cacheControl = IMMUTABLE_CACHE_CONTROL, hm_contentType = ''application/octet-stream''\<rparr>)))
              (encodeLogChunk es))"

record log_chunk_ref =
  lc_key :: string
  lc_t0 :: int
  lc_t1 :: int

text \<open>The match of \<open>/^log\/(\d+)-(\d+)$/\<close>.\<close>

definition match_log_key :: "string \<Rightarrow> (int \<times> int) option" where
  "match_log_key k =
     (let s = drop 4 k; d0 = takeWhile (\<lambda>c. is_digit (of_char c)) s; r = dropWhile (\<lambda>c. is_digit (of_char c)) s
      in if take 4 k = ''log/'' \<and> d0 \<noteq> [] \<and> r \<noteq> [] \<and> hd r = CHR ''-'' \<and> tl r \<noteq> []
         then (case text_number (tl r) of
                 Some t1 \<Rightarrow> Some (int (digits_value 0 (js d0)), t1)
               | None \<Rightarrow> None)
         else None)"

definition listLogChunks :: "nat \<Rightarrow> 'b r2like \<Rightarrow> 'b \<Rightarrow> int \<Rightarrow> log_chunk_ref list res" where
  "listLogChunks n bk b sinceT =
     rmap (\<lambda>os. js_sort (\<lambda>x y. by_number (lc_t0 x) (lc_t0 y))
       (List.map_filter (\<lambda>(k, s). case match_log_key k of
           Some (t0, t1) \<Rightarrow> if t1 > sinceT then Some \<lparr>lc_key = k, lc_t0 = t0, lc_t1 = t1\<rparr> else None
         | None \<Rightarrow> None) os))
       (list_pages n bk b ''log/'' None)"

definition readLogChunk :: "(bytes \<Rightarrow> bytes res) \<Rightarrow> 'b r2like \<Rightarrow> 'b \<Rightarrow> string \<Rightarrow> log_entry list res \<times> 'b" where
  "readLogChunk decompress bk b k =
     (case bk_get bk b k of
        (None, b') \<Rightarrow> (Inl (Error ''missing log chunk''), b')
      | (Some o', b') \<Rightarrow> (rbind (decompress (ob_body o')) decodeLogChunk, b'))"

text \<open>\<open>untilT\<close> is \<open>None\<close> for \<open>Infinity\<close>.\<close>

definition upto_t :: "int option \<Rightarrow> int \<Rightarrow> bool" where
  "upto_t u t \<longleftrightarrow> (case u of None \<Rightarrow> True | Some x \<Rightarrow> t \<le> x)"

fun read_chunks ::
  "(bytes \<Rightarrow> bytes res) \<Rightarrow> 'b r2like \<Rightarrow> int \<Rightarrow> int option \<Rightarrow> log_chunk_ref list \<Rightarrow> 'b \<Rightarrow> log_entry list res \<times> 'b" where
  "read_chunks decompress bk sinceT untilT [] b = (Inr [], b)"
| "read_chunks decompress bk sinceT untilT (c # cs) b =
     (if \<not> upto_t untilT (lc_t0 c) then (Inr [], b)
      else case readLogChunk decompress bk b (lc_key c) of
        (Inl e, b') \<Rightarrow> (Inl e, b')
      | (Inr es, b') \<Rightarrow>
          (case read_chunks decompress bk sinceT untilT cs b' of
             (r, b'') \<Rightarrow> (rmap ((@) (filter (\<lambda>e. le_t e > sinceT \<and> upto_t untilT (le_t e)) es)) r, b'')))"

definition readLogSince ::
  "nat \<Rightarrow> (bytes \<Rightarrow> bytes res) \<Rightarrow> 'b r2like \<Rightarrow> 'b \<Rightarrow> int \<Rightarrow> int option \<Rightarrow> log_entry list res \<times> 'b" where
  "readLogSince n decompress bk b sinceT untilT =
     (case listLogChunks n bk b sinceT of
        Inl e \<Rightarrow> (Inl e, b)
      | Inr cs \<Rightarrow> read_chunks decompress bk sinceT untilT cs b)"

section \<open>Keys determine their numbers\<close>

lemma js_back: "\<forall>c\<in>set s. unat c < 256 \<Longrightarrow> js (map (\<lambda>c. char_of (unat c)) s) = s"
proof (induction s)
  case (Cons c s)
  have "(of_char (char_of (unat c) :: char) :: 16 word) = of_nat (unat c mod 256)"
    by (metis of_char_of of_nat_of_char)
  then show ?case using Cons by (simp add: js_def)
qed (simp add: js_def)

lemma int_string_small: "\<forall>c\<in>set (int_string t). unat c < 256"
proof -
  have "unat c < 256" if "c \<in> set (nat_digits n)" for c n using nat_digits_range [OF that] by simp
  then show ?thesis by (auto simp: int_string_def)
qed

lemma js_digit_chars: "js (digit_chars t) = int_string t"
  unfolding digit_chars_def by (rule js_back [OF int_string_small])

lemma js_append: "js (s @ t) = js s @ js t"
  by (simp add: js_def)

lemma js_pad12: "0 \<le> t \<Longrightarrow> \<exists>k. js (pad12 (digit_chars t)) = replicate k 0x30 @ nat_digits (nat t)"
  using js_digit_chars [of t] by (auto simp: pad12_def js_append js_def int_string_def)

lemma digits_value_zeros: "digits_value 0 (replicate k 0x30 @ ds) = digits_value 0 ds"
  by (induction k) simp_all

lemma padded_digits: "0 \<le> t \<Longrightarrow> list_all is_digit (js (pad12 (digit_chars t))) \<and> digits_value 0 (js (pad12 (digit_chars t))) = nat t"
  using js_pad12 [of t] nat_digits_range
  by (auto simp: list_all_iff is_digit_def digits_value_zeros digits_value_digits)

lemma text_number_pad12: "0 \<le> t \<Longrightarrow> text_number (pad12 (digit_chars t)) = Some t"
  using padded_digits [of t] by (simp add: text_number_def)

lemma pad12_nonempty: "0 \<le> t \<Longrightarrow> pad12 (digit_chars t) \<noteq> []"
  using nat_digits_nonempty by (auto simp: pad12_def digit_chars_def int_string_def)

lemma rootKey_number: "0 \<le> t \<Longrightarrow> text_number (drop 6 (rootKey t)) = Some t"
  by (simp add: rootKey_def text_number_pad12)

lemma rootKey_inj: "0 \<le> t \<Longrightarrow> 0 \<le> u \<Longrightarrow> rootKey t = rootKey u \<longleftrightarrow> t = u"
  using rootKey_number by (metis option.inject)

lemma rootKey_not_current: "rootKey t \<noteq> ROOT_CURRENT_KEY" "ROOT_CURRENT_KEY \<noteq> rootKey t"
  by (simp_all add: rootKey_def ROOT_CURRENT_KEY_def)

lemma rootKey_starts: "starts_with ''roots/'' (rootKey t)" "\<not> starts_with ''roots/'' ROOT_CURRENT_KEY"
  "\<not> starts_with ''log/'' (rootKey t)" "\<not> starts_with ''log/'' ROOT_CURRENT_KEY"
  by (simp_all add: rootKey_def ROOT_CURRENT_KEY_def)

lemma pad12_digits: "0 \<le> t \<Longrightarrow> c \<in> set (pad12 (digit_chars t)) \<Longrightarrow> is_digit (of_char c)"
  using padded_digits [of t] by (auto simp: list_all_iff js_def)

lemma match_logKey:
  assumes "0 \<le> t0" "0 \<le> t1"
  shows "match_log_key (logKey t0 t1) = Some (t0, t1)"
proof -
  have d: "drop 4 (logKey t0 t1) = pad12 (digit_chars t0) @ CHR ''-'' # pad12 (digit_chars t1)" "take 4 (logKey t0 t1) = ''log/''"
    by (simp_all add: logKey_def)
  have dash: "\<not> is_digit (of_char CHR ''-'')" by (simp add: is_digit_def)
  have tw: "takeWhile (\<lambda>c. is_digit (of_char c)) (drop 4 (logKey t0 t1)) = pad12 (digit_chars t0)"
    "dropWhile (\<lambda>c. is_digit (of_char c)) (drop 4 (logKey t0 t1)) = CHR ''-'' # pad12 (digit_chars t1)"
    using pad12_digits [OF assms(1)] dash unfolding d by (simp_all add: takeWhile_append dropWhile_append)
  show ?thesis
    unfolding match_log_key_def Let_def tw d(2)
    using padded_digits [OF assms(1)] text_number_pad12 [OF assms(2)] pad12_nonempty [OF assms(1)] pad12_nonempty [OF assms(2)] assms(1)
    by simp
qed

lemma logKey_inj: "0 \<le> t0 \<Longrightarrow> 0 \<le> t1 \<Longrightarrow> 0 \<le> u0 \<Longrightarrow> 0 \<le> u1 \<Longrightarrow> logKey t0 t1 = logKey u0 u1 \<longleftrightarrow> t0 = u0 \<and> t1 = u1"
  using match_logKey by (metis option.inject prod.inject)

lemma logKey_starts: "starts_with ''log/'' (logKey t0 t1)" "\<not> starts_with ''roots/'' (logKey t0 t1)" "logKey t0 t1 \<noteq> ROOT_CURRENT_KEY"
  "logKey t0 t1 \<noteq> rootKey t"
  by (simp_all add: logKey_def ROOT_CURRENT_KEY_def rootKey_def)

section \<open>Records are read as they were written\<close>

lemma recordToRoots_rootsToRecord: "recordToRoots (rootsToRecord r w e c at) = r"
  by (simp add: recordToRoots_def rootsToRecord_def)

lemma js_hash_back: "map (\<lambda>u. char_of (unat u)) (js s) = s"
proof (induction s)
  case (Cons c s)
  have "unat (of_char c :: 16 word) = of_char c"
  proof -
    have "unat (of_nat (of_char c) :: 16 word) = of_char c"
      by (rule of_nat_inverse [OF refl]) (rule less_trans [of _ 256], simp_all)
    then show ?thesis by (simp only: of_nat_of_char)
  qed
  then have "char_of (unat (of_char c :: 16 word)) = c" by simp
  with Cons show ?case by (simp add: js_def)
qed (simp add: js_def)

lemma ref_round_trip: "ref_of_json (ref_json r) = Some r"
proof -
  have "list_all (\<lambda>u. unat u < 256) (js (r_hash r))" by (auto simp: list_all_iff js_def unat_of_char)
  moreover have "js ''hash'' \<noteq> js ''kind''" "js ''hash'' \<noteq> js ''count''" "js ''kind'' \<noteq> js ''count''" by (simp_all add: js_def)
  moreover have "\<lparr>r_hash = r_hash r, r_kind = r_kind r, r_count = r_count r\<rparr> = r" by simp
  ultimately show ?thesis
    by (cases "r_kind r") (simp_all add: ref_of_json_def ref_json_def j_get_def kind_number_def js_hash_back del: node_ref.surjective)
qed

lemma record_round_trip: "record_of_json (record_json r) = Some r"
  by (simp add: record_of_json_def record_json_def j_get_def js_def ref_round_trip)

lemma record_plain: "json_plain (record_json r)"
  by (simp add: record_json_def ref_json_def js_def)

lemma parse_record_text: "ob_body o' = utf8_encode (json_string (record_json r)) \<Longrightarrow> parse_record o' = Inr r"
  using json_parse_string [OF record_plain] utf8_decode_encode [OF json_text_ok]
  by (simp add: parse_record_def object_text_def record_round_trip)

definition record_bytes :: "root_record \<Rightarrow> bytes" where
  "record_bytes r = utf8_encode (json_string (record_json r))"

lemma parse_record_bytes: "ob_body o' = record_bytes r \<Longrightarrow> parse_record o' = Inr r"
  by (simp add: record_bytes_def parse_record_text)

section \<open>Publishing\<close>

text \<open>
  The state of a bucket between and after the two writes: a current root, when there is
  one, is also kept under its own key.
\<close>

definition current_kept :: "(string \<rightharpoonup> bytes) \<Rightarrow> bool" where
  "current_kept m \<longleftrightarrow>
     (\<forall>body. m ROOT_CURRENT_KEY = Some body \<longrightarrow>
       (\<exists>r. body = record_bytes r \<and> 0 \<le> rr_t r \<and> m (rootKey (rr_t r)) = Some body))"

definition current_t :: "(string \<rightharpoonup> bytes) \<Rightarrow> int \<Rightarrow> bool" where
  "current_t m t \<longleftrightarrow> (\<exists>r. m ROOT_CURRENT_KEY = Some (record_bytes r) \<and> rr_t r = t)"

context r2_bucket begin

lemma read_record_spec:
  assumes "ok b" "read_record bk b k = (res, b')"
  shows "ok b' \<and> objs b' = objs b \<and> (objs b k = None \<longrightarrow> res = Inr None) \<and> (objs b k = Some (record_bytes r) \<longrightarrow> res = Inr (Some r))"
proof -
  obtain g b1 where g: "bk_get bk b k = (g, b1)" by fastforce
  have "ok b1 \<and> objs b1 = objs b \<and> map_option ob_body g = objs b k" by (rule get_body [OF assms(1) g])
  then show ?thesis
    using assms(2) g by (cases g) (auto simp: read_record_def parse_record_bytes)
qed

lemma publish_immutable_objs:
  assumes "ok b"
  shows "ok (publish_immutable bk b r)" "objs (publish_immutable bk b r) = (objs b)(rootKey (rr_t r) \<mapsto> record_bytes r)"
  using put_body [OF assms] by (auto simp: publish_immutable_def record_bytes_def)

lemma publishRoot_objs:
  assumes "ok b"
  shows "ok (publishRoot bk b r)"
    "objs (publishRoot bk b r) = (objs b)(rootKey (rr_t r) \<mapsto> record_bytes r, ROOT_CURRENT_KEY \<mapsto> record_bytes r)"
  using put_body [OF publish_immutable_objs(1) [OF assms]] publish_immutable_objs(2) [OF assms]
  by (auto simp: publishRoot_def record_bytes_def)

lemma publishRoot_reads:
  assumes "ok b"
  shows "fst (readCurrentRoot bk (publishRoot bk b r)) = Inr (Some r)"
    and "fst (readRootAt bk (publishRoot bk b r) (rr_t r)) = Inr (Some r)"
proof -
  note p = publishRoot_objs [OF assms, of r]
  show "fst (readCurrentRoot bk (publishRoot bk b r)) = Inr (Some r)"
    using read_record_spec [OF p(1), of ROOT_CURRENT_KEY _ _ r] p(2)
    by (cases "read_record bk (publishRoot bk b r) ROOT_CURRENT_KEY") (simp add: readCurrentRoot_def)
  show "fst (readRootAt bk (publishRoot bk b r) (rr_t r)) = Inr (Some r)"
    using read_record_spec [OF p(1), of "rootKey (rr_t r)" _ _ r] p(2) rootKey_not_current
    by (cases "read_record bk (publishRoot bk b r) (rootKey (rr_t r))") (simp add: readRootAt_def)
qed

text \<open>A crash between the writes leaves the old current root in place, and both readable.\<close>

lemma publish_steps_keep:
  assumes "ok b" "current_kept (objs b)" "0 \<le> rr_t r" "\<not> current_t (objs b) (rr_t r)"
  shows "current_kept (objs (publish_immutable bk b r))" "current_kept (objs (publishRoot bk b r))"
    "objs (publish_immutable bk b r) ROOT_CURRENT_KEY = objs b ROOT_CURRENT_KEY"
proof -
  have keep: "objs (publish_immutable bk b r) ROOT_CURRENT_KEY = objs b ROOT_CURRENT_KEY"
    using rootKey_not_current by (simp add: publish_immutable_objs(2) [OF assms(1)])
  show "objs (publish_immutable bk b r) ROOT_CURRENT_KEY = objs b ROOT_CURRENT_KEY" by (rule keep)
  show "current_kept (objs (publish_immutable bk b r))"
    unfolding current_kept_def keep
  proof (intro allI impI)
    fix body assume "objs b ROOT_CURRENT_KEY = Some body"
    then obtain q where q: "body = record_bytes q" "0 \<le> rr_t q" "objs b (rootKey (rr_t q)) = Some body"
      "objs b ROOT_CURRENT_KEY = Some (record_bytes q)"
      using assms(2) by (auto simp: current_kept_def)
    then have "rr_t q \<noteq> rr_t r" using assms(4) by (auto simp: current_t_def)
    then have "objs (publish_immutable bk b r) (rootKey (rr_t q)) = Some body"
      using q assms(3) rootKey_inj by (simp add: publish_immutable_objs(2) [OF assms(1)])
    with q show "\<exists>r'. body = record_bytes r' \<and> 0 \<le> rr_t r' \<and> objs (publish_immutable bk b r) (rootKey (rr_t r')) = Some body" by blast
  qed
  show "current_kept (objs (publishRoot bk b r))"
    using assms(3) rootKey_not_current by (auto simp: current_kept_def publishRoot_objs(2) [OF assms(1)])
qed

end

section \<open>Listing the roots\<close>

interpretation numbers: cmp_total by_number "\<lambda>_. True"
  by unfold_locales (auto simp: by_number_def)

lemma js_sort_unique:
  assumes "cmp_order cmp ok" "\<forall>y\<in>set ys. ok y" "strictly_sorted cmp ys" "distinct xs" "set xs = set ys"
  shows "js_sort cmp xs = ys"
proof -
  have c: "cmp_order cmp (\<lambda>y. y \<in> set ys)" using cmp_order_pullback [OF assms(1), of "\<lambda>y. y \<in> set ys" "\<lambda>x. x"] assms(2) by simp
  have ne: "x = y" if "x \<in> set ys" "y \<in> set ys" "cmp x y = 0" for x y
  proof -
    obtain i j where ij: "i < length ys" "j < length ys" "ys ! i = x" "ys ! j = y" using \<open>x \<in> set ys\<close> \<open>y \<in> set ys\<close> by (metis in_set_conv_nth)
    have "cmp (ys ! i) (ys ! j) < 0" if "i < j" "j < length ys" for i j
      using assms(3) that by (simp add: strictly_sorted_def sorted_wrt_iff_nth_less)
    then show ?thesis using ij \<open>cmp x y = 0\<close> cmp_order.cmp_sym_zero [OF c \<open>x \<in> set ys\<close> \<open>y \<in> set ys\<close>]
      by (metis linorder_cases less_irrefl)
  qed
  have t: "cmp_total cmp (\<lambda>y. y \<in> set ys)" by (intro cmp_total.intro c cmp_total_axioms.intro ne)
  have s: "sorted_wrt (\<lambda>x y. cmp x y \<le> 0) (js_sort cmp xs)" using assms(5) by (intro cmp_order.js_sort_sorted [OF c]) simp
  have "strictly_sorted cmp zs" if "sorted_wrt (\<lambda>x y. cmp x y \<le> 0) zs" "distinct zs" "set zs \<subseteq> set ys" for zs
    using that
  proof (induction zs)
    case (Cons z zs)
    have "cmp z x < 0" if "x \<in> set zs" for x
    proof -
      have "cmp z x \<le> 0" "x \<noteq> z" "x \<in> set ys" "z \<in> set ys" using Cons.prems that by auto
      then show ?thesis using ne [of z x] by fastforce
    qed
    with Cons show ?case by (simp add: strictly_sorted_def)
  qed (simp add: strictly_sorted_def)
  then have "strictly_sorted cmp (js_sort cmp xs)" using s assms(4,5) by (simp add: distinct_js_sort)
  then show ?thesis using cmp_total.strictly_sorted_unique [OF t _ assms(3)] assms(5) by simp
qed

lemma sorted_keys_distinct: "strictly_sorted key_cmp ks \<Longrightarrow> distinct ks"
proof (induction ks)
  case (Cons k ks)
  have "key_cmp k k = 0" by (rule keys.cmp_refl) simp
  with Cons show ?case by (auto simp: strictly_sorted_def)
qed simp

context r2_bucket begin

lemma listRoots_all:
  assumes "ok b" "{k \<in> dom (objs b). starts_with ''roots/'' k} = rootKey ` T" "\<forall>t\<in>T. 0 \<le> t" "finite T" "card T < 1000 * n"
  shows "listRoots n bk b = Inr (sorted_list_of_set T)"
proof -
  obtain ks where ks: "keys_under (objs b) ''roots/'' ks" using keys_exist [OF assms(1)] by blast
  then have set_ks: "set ks = rootKey ` T" "distinct ks" using assms(2) sorted_keys_distinct by (auto simp: keys_under_def)
  have inj: "inj_on rootKey T" using assms(3) rootKey_inj by (auto simp: inj_on_def)
  have "length ks = card T" using set_ks by (metis card_image distinct_card inj)
  then have pages: "list_pages n bk b ''roots/'' None = Inr (map (\<lambda>x. (x, length (the (objs b x)))) ks)"
    using list_pages_all [OF assms(1) ks] assms(5) by simp
  define num where "num = (\<lambda>k. the (text_number (drop 6 k)))"
  have num: "text_number (drop 6 k) = Some (num k)" "k = rootKey (num k)" if "k \<in> set ks" for k
    using that set_ks(1) assms(3) rootKey_number by (auto simp: num_def)
  have ts: "rmaplist (\<lambda>(k, s). case text_number (drop 6 k) of Some t \<Rightarrow> Inr t | None \<Rightarrow> Inl (Error ''not a number''))
      (map (\<lambda>x. (x, length (the (objs b x)))) ks) = Inr (map (\<lambda>(k, s). num k) (map (\<lambda>x. (x, length (the (objs b x)))) ks))"
    by (rule rmaplist_ok) (auto simp: num(1))
  have "num (rootKey t) = t" if "t \<in> T" for t using that assms(3) rootKey_number by (simp add: num_def)
  then have "num ` rootKey ` T = T" unfolding image_image by simp
  then have "set (map num ks) = T" using set_ks(1) by simp
  moreover have "distinct (map num ks)" using set_ks(2) num(2) by (metis (no_types, lifting) distinct_map inj_onI)
  moreover have "strictly_sorted by_number (sorted_list_of_set T)"
    using strict_sorted_iff [of "sorted_list_of_set T"] unfolding strictly_sorted_def by (simp add: by_number_def)
  ultimately have "js_sort by_number (map num ks) = sorted_list_of_set T"
    using js_sort_unique [OF numbers.cmp_order_axioms] assms(4) by simp
  then show ?thesis unfolding listRoots_def pages by (simp add: ts comp_def)
qed

end

section \<open>The log in chunks\<close>

definition chunk_ref :: "log_entry list \<Rightarrow> log_chunk_ref" where
  "chunk_ref es = \<lparr>lc_key = logKey (le_t (hd es)) (le_t (last es)), lc_t0 = le_t (hd es), lc_t1 = le_t (last es)\<rparr>"

text \<open>Chunks as the log is written in them: non-empty, storable, with ascending \<open>t\<close>.\<close>

definition chunks_ok :: "log_entry list list \<Rightarrow> bool" where
  "chunks_ok css \<longleftrightarrow>
     (\<forall>es\<in>set css. es \<noteq> [] \<and> length es < 2 ^ 53 \<and> (\<forall>e\<in>set es. entry_storable e)) \<and>
     sorted_wrt (<) (map le_t (concat css))"

definition holds_log :: "(bytes \<Rightarrow> bytes) \<Rightarrow> (string \<rightharpoonup> bytes) \<Rightarrow> log_entry list list \<Rightarrow> bool" where
  "holds_log compress m css \<longleftrightarrow> chunks_ok css \<and>
     {k \<in> dom m. starts_with ''log/'' k} = (\<lambda>es. lc_key (chunk_ref es)) ` set css \<and>
     (\<forall>es\<in>set css. m (lc_key (chunk_ref es)) = Some (compress (log_bytes es)))"

lemma chunks_ok_append:
  "chunks_ok (xs @ ys) \<longleftrightarrow> chunks_ok xs \<and> chunks_ok ys \<and> (\<forall>x\<in>set (concat xs). \<forall>y\<in>set (concat ys). le_t x < le_t y)"
  unfolding chunks_ok_def by (simp add: sorted_wrt_append ball_Un) blast

lemma chunks_ok_Cons:
  "chunks_ok (es # css) \<longleftrightarrow> chunks_ok [es] \<and> chunks_ok css \<and> (\<forall>x\<in>set es. \<forall>y\<in>set (concat css). le_t x < le_t y)"
  using chunks_ok_append [of "[es]" css] by simp

lemma sorted_hd_last:
  assumes "sorted_wrt (<) (map le_t es)" "e \<in> set es"
  shows "le_t (hd es) \<le> le_t e \<and> le_t e \<le> le_t (last es)"
  using assms
proof (induction es)
  case (Cons x es)
  have later: "le_t x < le_t y" if "y \<in> set es" for y using Cons.prems(1) that by simp
  show ?case
  proof (cases "es = []")
    case False
    then have "le_t x < le_t (last es)" using later by simp
    then show ?thesis using Cons later False by (cases "e = x") (auto intro: less_imp_le)
  qed (use Cons in simp)
qed simp

lemma chunk_bounds:
  assumes "chunks_ok css" "es \<in> set css"
  shows "es \<noteq> []" "0 \<le> le_t (hd es)" "0 \<le> le_t (last es)"
    "\<forall>e\<in>set es. le_t (hd es) \<le> le_t e \<and> le_t e \<le> le_t (last es)"
proof -
  obtain xs ys where s: "css = xs @ es # ys" using assms(2) by (metis split_list)
  have ok: "chunks_ok [es]" using assms(1) unfolding s by (metis chunks_ok_append chunks_ok_Cons)
  then show ne: "es \<noteq> []" by (simp add: chunks_ok_def)
  have "0 \<le> le_t e" if "e \<in> set es" for e using ok that by (auto simp: chunks_ok_def entry_storable_def id_ok_def)
  then show "0 \<le> le_t (hd es)" "0 \<le> le_t (last es)" using ne by simp_all
  show "\<forall>e\<in>set es. le_t (hd es) \<le> le_t e \<and> le_t e \<le> le_t (last es)"
    using ok sorted_hd_last by (auto simp: chunks_ok_def)
qed

lemma chunks_ordered:
  "chunks_ok css \<Longrightarrow> sorted_wrt (\<lambda>es fs. le_t (last es) < le_t (hd fs)) css"
proof (induction css)
  case (Cons es css)
  have c: "chunks_ok [es]" "chunks_ok css" "\<forall>x\<in>set es. \<forall>y\<in>set (concat css). le_t x < le_t y"
    using Cons.prems chunks_ok_Cons by blast+
  have "le_t (last es) < le_t (hd fs)" if "fs \<in> set css" for fs
  proof -
    have "fs \<noteq> []" "es \<noteq> []" using chunk_bounds(1) [OF c(2) that] chunk_bounds(1) [OF c(1), of es] by simp_all
    then have "last es \<in> set es" "hd fs \<in> set fs" by simp_all
    then have "last es \<in> set es" "hd fs \<in> set (concat css)" using that by auto
    then show ?thesis using c(3) by blast
  qed
  with Cons.IH c(2) show ?case by simp
qed simp

lemma chunk_key_inj:
  assumes "chunks_ok css" "es \<in> set css" "fs \<in> set css" "lc_key (chunk_ref es) = lc_key (chunk_ref fs)"
  shows "es = fs"
proof -
  have t: "le_t (hd es) = le_t (hd fs)" "le_t (last es) = le_t (last fs)"
    using assms(4) logKey_inj chunk_bounds(2,3) [OF assms(1,2)] chunk_bounds(2,3) [OF assms(1,3)] by (simp_all add: chunk_ref_def)
  obtain i j where ij: "i < length css" "j < length css" "css ! i = es" "css ! j = fs" using assms(2,3) by (metis in_set_conv_nth)
  have "le_t (last (css ! i)) < le_t (hd (css ! j))" if "i < j" "j < length css" for i j
    using chunks_ordered [OF assms(1)] that by (simp add: sorted_wrt_iff_nth_less)
  moreover have "le_t (hd es) \<le> le_t (last es)" "le_t (hd fs) \<le> le_t (last fs)"
    using chunk_bounds(1,4) [OF assms(1,2)] chunk_bounds(1,4) [OF assms(1,3)] by (metis last_in_set)+
  ultimately show ?thesis using ij t by (metis linorder_cases not_less)
qed

lemma chunks_distinct: "chunks_ok css \<Longrightarrow> distinct css"
proof (induction css)
  case (Cons es css)
  have c: "chunks_ok [es]" "chunks_ok css" "\<forall>x\<in>set es. \<forall>y\<in>set (concat css). le_t x < le_t y"
    using Cons.prems chunks_ok_Cons by blast+
  have "es \<noteq> []" using chunk_bounds(1) [OF c(1), of es] by simp
  then have "hd es \<in> set es" by simp
  then have "es \<notin> set css" using c(3) by fastforce
  with Cons.IH c(2) show ?case by simp
qed simp

lemma chunk_filter_none:
  "\<forall>e\<in>set es. \<not> (le_t e > sinceT \<and> upto_t untilT (le_t e)) \<Longrightarrow> filter (\<lambda>e. le_t e > sinceT \<and> upto_t untilT (le_t e)) es = []"
  by (simp add: filter_empty_conv)

text \<open>The references of the chunks that are newer than \<open>sinceT\<close>, in their order.\<close>

definition newer_chunks :: "int \<Rightarrow> log_entry list list \<Rightarrow> log_entry list list" where
  "newer_chunks sinceT css = filter (\<lambda>es. le_t (last es) > sinceT) css"

lemma chunks_ok_filter: "chunks_ok css \<Longrightarrow> chunks_ok (filter P css)"
proof (induction css)
  case (Cons es css)
  have c: "chunks_ok [es]" "chunks_ok css" "\<forall>x\<in>set es. \<forall>y\<in>set (concat css). le_t x < le_t y"
    using Cons.prems chunks_ok_Cons by blast+
  have "\<forall>x\<in>set es. \<forall>y\<in>set (concat (filter P css)). le_t x < le_t y" using c(3) by auto
  then show ?case using Cons.IH [OF c(2)] c(1) chunks_ok_Cons [of es "filter P css"] by simp
qed simp

lemma newer_entries:
  assumes "chunks_ok css"
  shows "filter (\<lambda>e. le_t e > sinceT \<and> upto_t untilT (le_t e)) (concat (newer_chunks sinceT css)) =
    filter (\<lambda>e. le_t e > sinceT \<and> upto_t untilT (le_t e)) (concat css)"
  using assms
proof (induction css)
  case (Cons es css)
  have c: "chunks_ok [es]" "chunks_ok css" using Cons.prems chunks_ok_Cons by blast+
  have "filter (\<lambda>e. le_t e > sinceT \<and> upto_t untilT (le_t e)) es = []" if "\<not> le_t (last es) > sinceT"
    using chunk_bounds(4) [OF c(1), of es] that by (intro chunk_filter_none) fastforce
  then show ?case using Cons.IH [OF c(2)] by (simp add: newer_chunks_def)
qed (simp add: newer_chunks_def)

lemma set_map_filter: "set (List.map_filter f xs) = {y. \<exists>x\<in>set xs. f x = Some y}"
  by (induction xs) (auto simp: List.map_filter_simps split: option.splits)

lemma distinct_map_filter:
  assumes "distinct (map h xs)" "\<And>x y. f x = Some y \<Longrightarrow> g y = h x"
  shows "distinct (List.map_filter f xs)"
  using assms(1)
proof (induction xs)
  case (Cons x xs)
  have "y \<notin> set (List.map_filter f xs)" if "f x = Some y" for y
  proof
    assume "y \<in> set (List.map_filter f xs)"
    then obtain z where "z \<in> set xs" "f z = Some y" unfolding set_map_filter by blast
    then have "h z = h x" using assms(2) that by metis
    with Cons.prems \<open>z \<in> set xs\<close> show False by (metis distinct.simps(2) image_eqI list.set_map list.simps(9))
  qed
  then show ?case using Cons by (simp add: List.map_filter_simps split: option.splits)
qed (simp add: List.map_filter_simps)

context r2_bucket begin

lemma putLogChunk_holds:
  assumes b: "ok b" and h: "holds_log compress (objs b) css" and c: "chunks_ok (css @ [es])"
  shows "\<exists>b'. putLogChunk compress bk b es = Inr (lc_key (chunk_ref es), b') \<and> ok b' \<and> holds_log compress (objs b') (css @ [es]) \<and>
    (\<forall>k. \<not> starts_with ''log/'' k \<longrightarrow> objs b' k = objs b k)"
proof -
  let ?k = "lc_key (chunk_ref es)"
  let ?m = "Some \<lparr>hm_cacheControl = IMMUTABLE_CACHE_CONTROL, hm_contentType = ''application/octet-stream''\<rparr>"
  let ?b = "bk_put bk b ?k (RBytes (compress (log_bytes es))) ?m"
  have es: "es \<noteq> []" "encodeLogChunk es = Inr (log_bytes es)"
    using c encodeLogChunk_bytes [of es] by (simp_all add: chunks_ok_append) (simp_all add: chunks_ok_def)
  have b': "ok ?b" "objs ?b = (objs b)(?k \<mapsto> compress (log_bytes es))" using put_body [OF b] by simp_all
  have fresh: "lc_key (chunk_ref fs) \<noteq> ?k" if "fs \<in> set css" for fs
  proof
    assume "lc_key (chunk_ref fs) = ?k"
    then have "fs = es" using chunk_key_inj [OF c] that by simp
    then show False using chunks_distinct [OF c] that by simp
  qed
  have lk: "starts_with ''log/'' ?k" by (simp add: chunk_ref_def logKey_starts)
  have "{k \<in> dom (objs ?b). starts_with ''log/'' k} = (\<lambda>es. lc_key (chunk_ref es)) ` set (css @ [es])"
  proof -
    have "{k \<in> dom (objs ?b). starts_with ''log/'' k} = insert ?k {k \<in> dom (objs b). starts_with ''log/'' k}"
      using lk by (auto simp: b'(2))
    then show ?thesis using h by (simp add: holds_log_def)
  qed
  then have "holds_log compress (objs ?b) (css @ [es])" using h c fresh by (auto simp: holds_log_def b'(2))
  moreover have "\<forall>k. \<not> starts_with ''log/'' k \<longrightarrow> objs ?b k = objs b k"
    using lk by (auto simp: b'(2))
  moreover have "putLogChunk compress bk b es = Inr (?k, ?b)" using es by (simp add: putLogChunk_def chunk_ref_def Let_def)
  ultimately show ?thesis using b'(1) by blast
qed

lemma listLogChunks_newer:
  assumes b: "ok b" and h: "holds_log compress (objs b) css" and n: "length css < 1000 * n"
  shows "listLogChunks n bk b sinceT = Inr (map chunk_ref (newer_chunks sinceT css))"
proof -
  have c: "chunks_ok css" using h by (simp add: holds_log_def)
  obtain ks where ks: "keys_under (objs b) ''log/'' ks" using keys_exist [OF b] by blast
  have set_ks: "set ks = (\<lambda>es. lc_key (chunk_ref es)) ` set css" "distinct ks"
    using ks h sorted_keys_distinct by (auto simp: keys_under_def holds_log_def)
  have inj: "inj_on (\<lambda>es. lc_key (chunk_ref es)) (set css)" using chunk_key_inj [OF c] by (auto intro: inj_onI)
  have "length ks = length css" using set_ks chunks_distinct [OF c] by (metis card_image distinct_card inj)
  then have pages: "list_pages n bk b ''log/'' None = Inr (map (\<lambda>x. (x, length (the (objs b x)))) ks)"
    using list_pages_all [OF b ks] n by simp
  let ?f = "\<lambda>(k, s :: nat). case match_log_key k of
           Some (t0, t1) \<Rightarrow> if t1 > sinceT then Some \<lparr>lc_key = k, lc_t0 = t0, lc_t1 = t1\<rparr> else None
         | None \<Rightarrow> None"
  let ?os = "map (\<lambda>x. (x, length (the (objs b x)))) ks" and ?refs = "map chunk_ref (newer_chunks sinceT css)"
  have f: "?f (lc_key (chunk_ref es), s) = (if le_t (last es) > sinceT then Some (chunk_ref es) else None)" if "es \<in> set css" for es s
    using match_logKey chunk_bounds(2,3) [OF c that] by (simp add: chunk_ref_def)
  have "set (List.map_filter ?f ?os) = set ?refs"
  proof -
    have "set (List.map_filter ?f ?os) = {r. \<exists>k\<in>set ks. ?f (k, length (the (objs b k))) = Some r}"
      unfolding set_map_filter by (simp only: set_map image_iff bex_simps)
    also have "\<dots> = {r. \<exists>es\<in>set css. (if le_t (last es) > sinceT then Some (chunk_ref es) else None) = Some r}"
      unfolding set_ks(1) using f by auto
    also have "\<dots> = set ?refs" by (auto simp: newer_chunks_def)
    finally show ?thesis .
  qed
  moreover have "distinct (List.map_filter ?f ?os)"
    by (rule distinct_map_filter [where g = lc_key and h = fst]) (use set_ks(2) in \<open>auto simp: comp_def split: option.splits if_splits\<close>)
  moreover have "strictly_sorted (\<lambda>x y. by_number (lc_t0 x) (lc_t0 y)) ?refs"
  proof -
    have n: "chunks_ok (newer_chunks sinceT css)" unfolding newer_chunks_def by (rule chunks_ok_filter [OF c])
    have "sorted_wrt (\<lambda>es fs. le_t (hd es) - le_t (hd fs) < 0) (newer_chunks sinceT css)"
    proof (rule sorted_wrt_mono_rel [OF _ chunks_ordered [OF n]])
      fix es fs assume "es \<in> set (newer_chunks sinceT css)" "fs \<in> set (newer_chunks sinceT css)" "le_t (last es) < le_t (hd fs)"
      moreover have "le_t (hd es) \<le> le_t (last es)" using chunk_bounds(1,4) [OF n] calculation(1) by (metis last_in_set)
      ultimately show "le_t (hd es) - le_t (hd fs) < 0" by simp
    qed
    then show ?thesis by (simp add: strictly_sorted_def sorted_wrt_map by_number_def chunk_ref_def)
  qed
  moreover have "cmp_order (\<lambda>x y. by_number (lc_t0 x) (lc_t0 y)) (\<lambda>_. True)"
    by (rule cmp_order_pullback [OF numbers.cmp_order_axioms]) simp
  ultimately have "js_sort (\<lambda>x y. by_number (lc_t0 x) (lc_t0 y)) (List.map_filter ?f ?os) = ?refs"
    by (intro js_sort_unique [where ok = "\<lambda>_. True"]) simp_all
  then show ?thesis unfolding listLogChunks_def pages by simp
qed

lemma readLogChunk_holds:
  assumes b: "ok b" and h: "holds_log compress (objs b) css" and es: "es \<in> set css"
    and d: "\<forall>raw. decompress (compress raw) = Inr raw"
  shows "\<exists>b'. readLogChunk decompress bk b (lc_key (chunk_ref es)) = (Inr es, b') \<and> ok b' \<and> objs b' = objs b"
proof -
  obtain g b' where g: "bk_get bk b (lc_key (chunk_ref es)) = (g, b')" by fastforce
  have body: "ok b' \<and> objs b' = objs b \<and> map_option ob_body g = objs b (lc_key (chunk_ref es))" by (rule get_body [OF b g])
  have "objs b (lc_key (chunk_ref es)) = Some (compress (log_bytes es))" using h es by (simp add: holds_log_def)
  then obtain o' where o': "g = Some o'" "ob_body o' = compress (log_bytes es)" using body by auto
  have "length es < 2 ^ 53" "\<forall>e\<in>set es. entry_storable e" using h es unfolding holds_log_def chunks_ok_def by blast+
  then have "decodeLogChunk (log_bytes es) = Inr es" using decodeLogChunk_bytes [of es "[]"] by simp
  then show ?thesis using g body o' d by (simp add: readLogChunk_def)
qed

lemma read_chunks_holds:
  assumes "ok b" "holds_log compress (objs b) css" "\<forall>raw. decompress (compress raw) = Inr raw"
    and "set cs \<subseteq> set css" "chunks_ok cs"
  shows "fst (read_chunks decompress bk sinceT untilT (map chunk_ref cs) b) =
    Inr (filter (\<lambda>e. le_t e > sinceT \<and> upto_t untilT (le_t e)) (concat cs))"
  using assms
proof (induction cs arbitrary: b)
  case (Cons es cs)
  have c: "chunks_ok [es]" "chunks_ok cs" "\<forall>x\<in>set es. \<forall>y\<in>set (concat cs). le_t x < le_t y"
    using Cons.prems(5) chunks_ok_Cons by blast+
  show ?case
  proof (cases "upto_t untilT (le_t (hd es))")
    case True
    obtain b' where b': "readLogChunk decompress bk b (lc_key (chunk_ref es)) = (Inr es, b')" "ok b'" "objs b' = objs b"
      using readLogChunk_holds [OF Cons.prems(1,2) _ Cons.prems(3), of es] Cons.prems(4) by auto
    have "fst (read_chunks decompress bk sinceT untilT (map chunk_ref cs) b') =
      Inr (filter (\<lambda>e. le_t e > sinceT \<and> upto_t untilT (le_t e)) (concat cs))"
      using Cons.IH [OF b'(2) _ Cons.prems(3) _ c(2)] Cons.prems(2,4) b'(3) by simp
    moreover have "lc_t0 (chunk_ref es) = le_t (hd es)" by (simp add: chunk_ref_def)
    ultimately show ?thesis using True b'(1)
      by (cases "read_chunks decompress bk sinceT untilT (map chunk_ref cs) b'") simp
  next
    case False
    have "es \<noteq> []" using chunk_bounds(1) [OF c(1), of es] by simp
    then have "le_t (hd es) \<le> le_t e" if "e \<in> set (concat (es # cs))" for e
      using that chunk_bounds(4) [OF c(1), of es] c(3) hd_in_set less_imp_le by (auto; blast)
    then have "\<forall>e\<in>set (concat (es # cs)). \<not> (le_t e > sinceT \<and> upto_t untilT (le_t e))"
      using False by (fastforce simp: upto_t_def split: option.splits)
    then have "filter (\<lambda>e. le_t e > sinceT \<and> upto_t untilT (le_t e)) (concat (es # cs)) = []" by (rule chunk_filter_none)
    moreover have "lc_t0 (chunk_ref es) = le_t (hd es)" by (simp add: chunk_ref_def)
    ultimately show ?thesis using False by simp
  qed
qed simp

lemma readLogSince_holds:
  assumes "ok b" "holds_log compress (objs b) css" "\<forall>raw. decompress (compress raw) = Inr raw" "length css < 1000 * n"
  shows "fst (readLogSince n decompress bk b sinceT untilT) =
    Inr (filter (\<lambda>e. le_t e > sinceT \<and> upto_t untilT (le_t e)) (concat css))"
proof -
  have c: "chunks_ok css" using assms(2) by (simp add: holds_log_def)
  have "fst (read_chunks decompress bk sinceT untilT (map chunk_ref (newer_chunks sinceT css)) b) =
    Inr (filter (\<lambda>e. le_t e > sinceT \<and> upto_t untilT (le_t e)) (concat (newer_chunks sinceT css)))"
    by (rule read_chunks_holds [OF assms(1-3)]) (use chunks_ok_filter [OF c] in \<open>auto simp: newer_chunks_def\<close>)
  then show ?thesis
    using listLogChunks_newer [OF assms(1,2,4)] newer_entries [OF c] by (simp add: readLogSince_def)
qed

end

end
