(* ===== verification/R2Store.thy ===== *)
theory R2Store
  imports RootStore Store
begin

text \<open>
  The node store over a bucket, \<open>R2NodeStore\<close> of \<open>internal/storage/index.ts\<close>: an LRU of decoded
  nodes in memory, an optional byte tier and an optional cache in front of the bucket. It
  satisfies the contract \<open>node_store\<close>, and loading gives what the bucket holds whatever the
  lower tiers hold, corrupt entries included. A load in flight is shared by its callers; in
  the model a load ends before the next one starts.
\<close>

section \<open>Byte tiers\<close>

text \<open>
  \<open>ByteTier\<close> and \<open>CacheTier\<close>. A \<open>put\<close> may throw; a tier that rejects later has kept what it
  had, and one that evicts has dropped entries.
\<close>

record 't byte_tier =
  bt_get :: "'t \<Rightarrow> string \<Rightarrow> bytes option"
  bt_put :: "'t \<Rightarrow> string \<Rightarrow> bytes \<Rightarrow> 't res"

locale tier_contract =
  fixes tier :: "'t byte_tier"
  assumes put_entries: "bt_put tier t k body = Inr t' \<Longrightarrow> bt_get tier t' k' = Some x \<Longrightarrow>
    bt_get tier t k' = Some x \<or> k' = k \<and> x = body"
    and put_returns: "\<exists>t'. bt_put tier t k body = Inr t'"

section \<open>\<open>R2NodeStore\<close>\<close>

record store_stats =
  st_peekHits :: nat
  st_memHits :: nat
  st_tierHits :: nat
  st_cacheHits :: nat
  st_r2Gets :: nat
  st_r2Puts :: nat
  st_r2PutSkipped :: nat
  st_bytesRead :: nat
  st_bytesWritten :: nat

definition no_stats :: store_stats where
  "no_stats = \<lparr>st_peekHits = 0, st_memHits = 0, st_tierHits = 0, st_cacheHits = 0, st_r2Gets = 0, st_r2Puts = 0,
     st_r2PutSkipped = 0, st_bytesRead = 0, st_bytesWritten = 0\<rparr>"

record ('b, 't, 'c) r2_store =
  rs_bucket :: 'b
  rs_mem :: "(string, tree_node) jsmap"
  rs_tier :: 't
  rs_cache :: 'c
  rs_stats :: store_stats

text \<open>What the constructor is given: the bucket's operations, the codec, the digest and the tiers.\<close>

record ('b, 't, 'c) store_env =
  se_bucket :: "'b r2like"
  se_compress :: "bytes \<Rightarrow> bytes"
  se_decompress :: "bytes \<Rightarrow> bytes res"
  se_sha :: "bytes \<Rightarrow> string"
  se_maxNodes :: nat
  se_tier :: "'t byte_tier option"
  se_cache :: "'c byte_tier option"
  se_headBeforePut :: bool

definition R2NodeStore :: "'b \<Rightarrow> 't \<Rightarrow> 'c \<Rightarrow> ('b, 't, 'c) r2_store" where
  "R2NodeStore b t c = \<lparr>rs_bucket = b, rs_mem = [], rs_tier = t, rs_cache = c, rs_stats = no_stats\<rparr>"

definition rs_remember :: "('b, 't, 'c) store_env \<Rightarrow> string \<Rightarrow> tree_node \<Rightarrow> ('b, 't, 'c) r2_store \<Rightarrow> ('b, 't, 'c) r2_store" where
  "rs_remember env h nd s =
     (let m = jm_set h nd (rs_mem s) in s\<lparr>rs_mem := (if length m > se_maxNodes env then tl m else m)\<rparr>)"

definition R2NodeStore_peek :: "('b, 't, 'c) r2_store \<Rightarrow> string \<Rightarrow> tree_node option \<times> ('b, 't, 'c) r2_store" where
  "R2NodeStore_peek s h =
     (case jm_get (rs_mem s) h of
        None \<Rightarrow> (None, s)
      | Some n \<Rightarrow> (Some n, s\<lparr>rs_stats := (rs_stats s)\<lparr>st_peekHits := st_peekHits (rs_stats s) + 1\<rparr>,
          rs_mem := jm_set h n (jm_delete h (rs_mem s))\<rparr>))"

text \<open>The lookup in one lower tier: a missing, empty or undecodable body is a miss.\<close>

definition tier_node :: "(bytes \<Rightarrow> bytes res) \<Rightarrow> 't byte_tier option \<Rightarrow> 't \<Rightarrow> string \<Rightarrow> tree_node option" where
  "tier_node decompress tier t k =
     (case tier of
        None \<Rightarrow> None
      | Some ops \<Rightarrow>
          (case bt_get ops t k of
             None \<Rightarrow> None
           | Some body \<Rightarrow>
               if body = [] then None
               else (case deserializeNode decompress body of Inl e \<Rightarrow> None | Inr n \<Rightarrow> Some n)))"

definition tier_put :: "'t byte_tier option \<Rightarrow> 't \<Rightarrow> string \<Rightarrow> bytes \<Rightarrow> 't res" where
  "tier_put tier t k body = (case tier of None \<Rightarrow> Inr t | Some ops \<Rightarrow> bt_put ops t k body)"

text \<open>The read from the bucket, which fills the lower tiers.\<close>

definition load_from_bucket ::
  "('b, 't, 'c) store_env \<Rightarrow> ('b, 't, 'c) r2_store \<Rightarrow> node_ref \<Rightarrow> tree_node res \<times> ('b, 't, 'c) r2_store" where
  "load_from_bucket env s r =
     (let key = objectKey (r_kind r) (r_hash r) in
      case bk_get (se_bucket env) (rs_bucket s) key of
        (None, b') \<Rightarrow> (Inl (Error ''R2NodeStore: missing object''), s\<lparr>rs_bucket := b'\<rparr>)
      | (Some o', b') \<Rightarrow>
          (let body = ob_body o';
               s = s\<lparr>rs_bucket := b', rs_stats := (rs_stats s)\<lparr>st_r2Gets := st_r2Gets (rs_stats s) + 1,
                      st_bytesRead := st_bytesRead (rs_stats s) + length body\<rparr>\<rparr>
           in case deserializeNode (se_decompress env) body of
                Inl e \<Rightarrow> (Inl e, s)
              | Inr n \<Rightarrow>
                  (case tier_put (se_cache env) (rs_cache s) key body of
                     Inl e \<Rightarrow> (Inl e, s)
                   | Inr c' \<Rightarrow>
                       (case tier_put (se_tier env) (rs_tier s) key body of
                          Inl e \<Rightarrow> (Inl e, s\<lparr>rs_cache := c'\<rparr>)
                        | Inr t' \<Rightarrow> (Inr n, rs_remember env (r_hash r) n (s\<lparr>rs_cache := c', rs_tier := t'\<rparr>))))))"

definition loadUncached ::
  "('b, 't, 'c) store_env \<Rightarrow> ('b, 't, 'c) r2_store \<Rightarrow> node_ref \<Rightarrow> tree_node res \<times> ('b, 't, 'c) r2_store" where
  "loadUncached env s r =
     (let key = objectKey (r_kind r) (r_hash r); st = rs_stats s in
      case tier_node (se_decompress env) (se_tier env) (rs_tier s) key of
        Some n \<Rightarrow> (Inr n, rs_remember env (r_hash r) n (s\<lparr>rs_stats := st\<lparr>st_tierHits := st_tierHits st + 1\<rparr>\<rparr>))
      | None \<Rightarrow>
          (case tier_node (se_decompress env) (se_cache env) (rs_cache s) key of
             Some n \<Rightarrow> (Inr n, rs_remember env (r_hash r) n (s\<lparr>rs_stats := st\<lparr>st_cacheHits := st_cacheHits st + 1\<rparr>\<rparr>))
           | None \<Rightarrow> load_from_bucket env s r))"

definition R2NodeStore_load ::
  "('b, 't, 'c) store_env \<Rightarrow> ('b, 't, 'c) r2_store \<Rightarrow> node_ref \<Rightarrow> tree_node res \<times> ('b, 't, 'c) r2_store" where
  "R2NodeStore_load env s r =
     (case jm_get (rs_mem s) (r_hash r) of
        Some n \<Rightarrow> (Inr n, s\<lparr>rs_stats := (rs_stats s)\<lparr>st_memHits := st_memHits (rs_stats s) + 1\<rparr>\<rparr>)
      | None \<Rightarrow> loadUncached env s r)"

definition octet_meta :: http_meta where
  "octet_meta = \<lparr>hm_cacheControl = IMMUTABLE_CACHE_CONTROL, hm_contentType = ''application/octet-stream''\<rparr>"

definition R2NodeStore_put :: "('b, 't, 'c) store_env \<Rightarrow> ('b, 't, 'c) r2_store put" where
  "R2NodeStore_put env s i nd =
     rbind (serializeNode (se_compress env) (se_sha env) i nd) (\<lambda>(r, body).
       let key = objectKey (r_kind r) (r_hash r);
           exists = (se_headBeforePut env \<and> bk_head (se_bucket env) (rs_bucket s) key);
           st = rs_stats s;
           s' = (if exists then s\<lparr>rs_stats := st\<lparr>st_r2PutSkipped := st_r2PutSkipped st + 1\<rparr>\<rparr>
                 else s\<lparr>rs_bucket := bk_put (se_bucket env) (rs_bucket s) key (RBytes body) (Some octet_meta),
                        rs_stats := st\<lparr>st_r2Puts := st_r2Puts st + 1, st_bytesWritten := st_bytesWritten st + length body\<rparr>\<rparr>)
       in rbind (tier_put (se_tier env) (rs_tier s') key body) (\<lambda>t'.
            Inr (r, rs_remember env (r_hash r) nd (s'\<lparr>rs_tier := t'\<rparr>))))"

definition R2NodeStore_clearMemory :: "('b, 't, 'c) r2_store \<Rightarrow> ('b, 't, 'c) r2_store" where
  "R2NodeStore_clearMemory s = s\<lparr>rs_mem := []\<rparr>"

section \<open>The SQL tier of a replica\<close>

text \<open>
  \<open>SqliteTier\<close>: rows of a key, a body and a time, in the order they were inserted; replacing a
  row inserts it anew. Rows of one time are evicted in that order.
\<close>

record sqlite_tier =
  sq_rows :: "(string \<times> bytes \<times> int) list"
  sq_maxRows :: nat
  sq_clock :: "int list"

definition SqliteTier_get :: "sqlite_tier \<Rightarrow> string \<Rightarrow> bytes option" where
  "SqliteTier_get t k = map_option fst (map_of (sq_rows t) k)"

text \<open>The clock is what the following calls of \<open>Date.now\<close> return, the last of them for ever.\<close>

definition sq_now :: "sqlite_tier \<Rightarrow> int" where
  "sq_now t = (case sq_clock t of [] \<Rightarrow> 0 | x # xs \<Rightarrow> x)"

definition SqliteTier_put :: "sqlite_tier \<Rightarrow> string \<Rightarrow> bytes \<Rightarrow> sqlite_tier" where
  "SqliteTier_put t k body =
     (let rows = filter (\<lambda>r. fst r \<noteq> k) (sq_rows t) @ [(k, body, sq_now t)];
          t' = t\<lparr>sq_rows := rows, sq_clock := (if length (sq_clock t) \<le> 1 then sq_clock t else tl (sq_clock t))\<rparr>
      in if length rows > sq_maxRows t then
           (let gone = map fst (take (ceil_div (sq_maxRows t) 10) (js_sort (\<lambda>x y. snd (snd x) - snd (snd y)) rows))
            in t'\<lparr>sq_rows := filter (\<lambda>r. fst r \<notin> set gone) rows\<rparr>)
         else t')"

definition sqlite_ops :: "sqlite_tier byte_tier" where
  "sqlite_ops = \<lparr>bt_get = SqliteTier_get, bt_put = (\<lambda>t k body. Inr (SqliteTier_put t k body))\<rparr>"

lemma map_of_filter_key: "map_of (filter (\<lambda>r. P (fst r)) xs) k = (if P k then map_of xs k else None)"
  by (induction xs) auto

lemma map_of_put_row: "map_of (filter (\<lambda>r. fst r \<noteq> k) xs @ [(k, v)]) k' = (if k' = k then Some v else map_of xs k')"
  using map_of_filter_key [of "\<lambda>k'. k' \<noteq> k" xs k'] by (auto simp: map_add_def split: option.splits)

interpretation sqlite: tier_contract sqlite_ops
proof (unfold_locales, goal_cases)
  case (2 t k body)
  show ?case by (simp add: sqlite_ops_def)
next
  case (1 t k body t' k' x)
  have t': "t' = SqliteTier_put t k body" using 1(1) by (simp add: sqlite_ops_def)
  let ?rows = "filter (\<lambda>r. fst r \<noteq> k) (sq_rows t) @ [(k, body, sq_now t)]"
  have "\<exists>P. sq_rows t' = filter (\<lambda>r. P (fst r)) ?rows"
  proof (cases "length ?rows > sq_maxRows t")
    case False
    then show ?thesis by (intro exI [of _ "\<lambda>_. True"]) (simp add: t' SqliteTier_put_def Let_def)
  next
    case True
    define rows where "rows = ?rows"
    define gone where "gone = map fst (take (ceil_div (sq_maxRows t) 10) (js_sort (\<lambda>x y. snd (snd x) - snd (snd y)) rows))"
    have "sq_rows t' = filter (\<lambda>r. fst r \<notin> set gone) rows"
      using True unfolding t' SqliteTier_put_def Let_def rows_def [symmetric] gone_def [symmetric] by simp
    then show ?thesis unfolding rows_def by (rule exI [of _ "\<lambda>h. h \<notin> set gone"])
  qed
  then obtain P where "sq_rows t' = filter (\<lambda>r. P (fst r)) ?rows" by blast
  then have "map_of (sq_rows t') k' = (if P k' then map_of ?rows k' else None)" by (simp only: map_of_filter_key)
  then have "map_of (sq_rows t') k' = (if P k' then (if k' = k then Some (body, sq_now t) else map_of (sq_rows t) k') else None)"
    by (simp only: map_of_put_row)
  then show ?case using 1(2) by (auto simp: sqlite_ops_def SqliteTier_get_def split: if_splits)
qed

section \<open>The store keeps the contract of node stores\<close>

text \<open>The nodes a bucket holds, by hash: a leaf under \<open>seg/\<close>, a directory under \<open>n/\<close>.\<close>

definition bucket_body :: "(string \<rightharpoonup> bytes) \<Rightarrow> string \<Rightarrow> bytes option" where
  "bucket_body m h = (case m (objectKey KLeaf h) of Some b \<Rightarrow> Some b | None \<Rightarrow> m (objectKey KDir h))"

definition bucket_node :: "(bytes \<Rightarrow> bytes res) \<Rightarrow> (string \<rightharpoonup> bytes) \<Rightarrow> node_source" where
  "bucket_node decompress m h =
     (case bucket_body m h of
        None \<Rightarrow> None
      | Some b \<Rightarrow> (case deserializeNode decompress b of Inl e \<Rightarrow> None | Inr n \<Rightarrow> Some n))"

text \<open>Objects are bodies of storable nodes of the kind their key says, one kind per hash.\<close>

definition bucket_nodes_ok :: "(bytes \<Rightarrow> bytes) \<Rightarrow> (string \<rightharpoonup> bytes) \<Rightarrow> bool" where
  "bucket_nodes_ok compress m \<longleftrightarrow>
     (\<forall>k h body. m (objectKey k h) = Some body \<longrightarrow>
        (\<exists>i nd. node_ok NODE_CAP datom_storable ref_storable nd \<and> kind_of nd = k \<and> body = compress (node_bytes i nd))) \<and>
     (\<forall>h. m (objectKey KLeaf h) = None \<or> m (objectKey KDir h) = None)"

text \<open>What a cache holds under a hash agrees with the bucket, when the bucket has the hash.\<close>

definition agrees :: "node_source \<Rightarrow> string \<Rightarrow> tree_node option \<Rightarrow> bool" where
  "agrees src h x \<longleftrightarrow> (\<forall>n. x = Some n \<longrightarrow> src h \<in> {None, Some n})"

definition lower_tiers_agree :: "('b, 't, 'c) store_env \<Rightarrow> ('b, 't, 'c) r2_store \<Rightarrow> node_source \<Rightarrow> bool" where
  "lower_tiers_agree env s src \<longleftrightarrow>
     (\<forall>k h. agrees src h (tier_node (se_decompress env) (se_tier env) (rs_tier s) (objectKey k h)) \<and>
        agrees src h (tier_node (se_decompress env) (se_cache env) (rs_cache s) (objectKey k h)))"

text \<open>
  \<open>put\<close> up to a hash collision: a body or node known under the hash that is not the new one,
  in the bucket or in a cache, is reported.
\<close>

definition other_node :: "tree_node \<Rightarrow> tree_node option \<Rightarrow> bool" where
  "other_node nd x \<longleftrightarrow> x \<noteq> None \<and> x \<noteq> Some nd"

definition hash_taken :: "('b, 't, 'c) store_env \<Rightarrow> (string \<rightharpoonup> bytes) \<Rightarrow> ('b, 't, 'c) r2_store \<Rightarrow> string \<Rightarrow> tree_node \<Rightarrow> bytes \<Rightarrow> bool" where
  "hash_taken env m s h nd body \<longleftrightarrow>
     m (objectKey (kind_of nd) h) \<notin> {None, Some body} \<or>
     (\<exists>k\<in>{KLeaf, KDir}. k \<noteq> kind_of nd \<and> m (objectKey k h) \<noteq> None) \<or>
     other_node nd (jm_get (rs_mem s) h) \<or>
     (\<exists>k\<in>{KLeaf, KDir}. other_node nd (tier_node (se_decompress env) (se_tier env) (rs_tier s) (objectKey k h)) \<or>
        other_node nd (tier_node (se_decompress env) (se_cache env) (rs_cache s) (objectKey k h)))"

definition r2_put :: "('b \<Rightarrow> (string \<rightharpoonup> bytes)) \<Rightarrow> ('b, 't, 'c) store_env \<Rightarrow> ('b, 't, 'c) r2_store put" where
  "r2_put objs env s i nd = rbind (serializeNode (se_compress env) (se_sha env) i nd) (\<lambda>(r, body).
     if hash_taken env (objs (rs_bucket s)) s (r_hash r) nd body then collision else R2NodeStore_put env s i nd)"

lemma objectKey_inj: "objectKey k h = objectKey k' h' \<longleftrightarrow> k = k' \<and> h = h'"
  by (cases k; cases k') (auto simp: objectKey_def)

lemma kinds: "k \<in> {KLeaf, KDir}"
  by (cases k) simp_all

lemma agrees_None [simp]: "agrees src h None"
  by (simp add: agrees_def)

definition r2_get :: "('b \<Rightarrow> (string \<rightharpoonup> bytes)) \<Rightarrow> ('b, 't, 'c) store_env \<Rightarrow> ('b, 't, 'c) r2_store \<Rightarrow> node_source" where
  "r2_get objs env s = bucket_node (se_decompress env) (objs (rs_bucket s))"

definition r2_inv :: "('b \<Rightarrow> (string \<rightharpoonup> bytes)) \<Rightarrow> ('b \<Rightarrow> bool) \<Rightarrow> ('b, 't, 'c) store_env \<Rightarrow> ('b, 't, 'c) r2_store \<Rightarrow> bool" where
  "r2_inv objs ok env s \<longleftrightarrow>
     codec_laws (se_compress env) (se_decompress env) (se_sha env) \<and> ok (rs_bucket s) \<and>
     bucket_nodes_ok (se_compress env) (objs (rs_bucket s)) \<and>
     jm_ok (rs_mem s) \<and> length (rs_mem s) \<le> se_maxNodes env \<and>
     (\<forall>h. agrees (r2_get objs env s) h (jm_get (rs_mem s) h)) \<and> lower_tiers_agree env s (r2_get objs env s)"

lemma bucket_body_node:
  assumes "codec_laws compress decompress sha" "bucket_nodes_ok compress m" "m (objectKey k h) = Some body"
  obtains i nd where "node_ok NODE_CAP datom_storable ref_storable nd" "kind_of nd = k" "body = compress (node_bytes i nd)"
    "deserializeNode decompress body = Inr nd" "bucket_node decompress m h = Some nd"
proof -
  obtain i nd where nd: "node_ok NODE_CAP datom_storable ref_storable nd" "kind_of nd = k" "body = compress (node_bytes i nd)"
    using assms(2,3) unfolding bucket_nodes_ok_def by blast
  have d: "deserializeNode decompress body = Inr nd" using deserialize_body [OF assms(1) nd(1)] nd(3) by simp
  have "bucket_body m h = Some body"
  proof -
    have one: "m (objectKey KLeaf h) = None \<or> m (objectKey KDir h) = None" using assms(2) by (simp add: bucket_nodes_ok_def)
    show ?thesis using one assms(3) by (cases k) (auto simp: bucket_body_def split: option.splits)
  qed
  then show ?thesis using that nd d by (simp add: bucket_node_def)
qed

lemma bucket_node_SomeD:
  assumes "codec_laws compress decompress sha" "bucket_nodes_ok compress m" "bucket_node decompress m h = Some nd"
  obtains i where "node_ok NODE_CAP datom_storable ref_storable nd" "m (objectKey (kind_of nd) h) = Some (compress (node_bytes i nd))"
proof -
  obtain k body where b: "m (objectKey k h) = Some body"
    using assms(3) by (auto simp: bucket_node_def bucket_body_def split: option.splits)
  obtain i nd' where "node_ok NODE_CAP datom_storable ref_storable nd'" "kind_of nd' = k" "body = compress (node_bytes i nd')"
      "deserializeNode decompress body = Inr nd'" "bucket_node decompress m h = Some nd'"
    using bucket_body_node [OF assms(1,2) b] .
  then show ?thesis using that [of i] b assms(3) by simp
qed

lemma bucket_node_None: "bucket_nodes_ok compress m \<Longrightarrow> codec_laws compress decompress sha \<Longrightarrow>
  bucket_node decompress m h = None \<longleftrightarrow> (\<forall>k. m (objectKey k h) = None)"
proof -
  assume a: "bucket_nodes_ok compress m" "codec_laws compress decompress sha"
  have "m (objectKey k h) = None" if "bucket_node decompress m h = None" for k
  proof (rule ccontr)
    assume "m (objectKey k h) \<noteq> None"
    then obtain body where "m (objectKey k h) = Some body" by blast
    from bucket_body_node [OF a(2,1) this] that show False by (metis option.distinct(1))
  qed
  then show ?thesis by (auto simp: bucket_node_def bucket_body_def)
qed

lemma tier_node_put:
  assumes "tier_contract ops" "bt_put ops t k body = Inr t'" "tier_node decompress (Some ops) t' k' = Some n"
  shows "tier_node decompress (Some ops) t k' = Some n \<or> k' = k \<and> deserializeNode decompress body = Inr n"
proof -
  obtain x where x: "bt_get ops t' k' = Some x" "x \<noteq> []" "deserializeNode decompress x = Inr n"
    using assms(3) by (auto simp: tier_node_def split: option.splits if_splits sum.splits)
  with tier_contract.put_entries [OF assms(1,2) x(1)] show ?thesis by (auto simp: tier_node_def)
qed

lemma tier_put_result:
  assumes "\<And>ops. tier = Some ops \<Longrightarrow> tier_contract ops"
  obtains t' where "tier_put tier t k body = Inr t'"
    "\<And>k' n. tier_node decompress tier t' k' = Some n \<Longrightarrow>
       tier_node decompress tier t k' = Some n \<or> k' = k \<and> deserializeNode decompress body = Inr n"
proof (cases tier)
  case None
  then show ?thesis using that [of t] by (simp add: tier_put_def tier_node_def)
next
  case (Some ops)
  then obtain t' where "bt_put ops t k body = Inr t'" using tier_contract.put_returns [OF assms] by blast
  with Some show ?thesis using that [of t'] tier_node_put [OF assms [OF Some]] by (simp add: tier_put_def)
qed

lemma remember_fields [simp]:
  "rs_bucket (rs_remember env h nd s) = rs_bucket s" "rs_tier (rs_remember env h nd s) = rs_tier s"
  "rs_cache (rs_remember env h nd s) = rs_cache s"
  by (simp_all add: rs_remember_def Let_def)

lemma remember_mem:
  assumes "jm_ok (rs_mem s)" "length (rs_mem s) \<le> se_maxNodes env"
  shows "jm_ok (rs_mem (rs_remember env h nd s))" "length (rs_mem (rs_remember env h nd s)) \<le> se_maxNodes env"
    "jm_get (rs_mem (rs_remember env h nd s)) h' = Some n \<Longrightarrow> jm_get (rs_mem s) h' = Some n \<or> h' = h \<and> n = nd"
proof -
  let ?m = "jm_set h nd (rs_mem s)"
  have ok: "jm_ok ?m" using assms(1) by simp
  then have "jm_ok (tl ?m)" by (cases ?m) (auto simp: jm_ok_def)
  with ok show "jm_ok (rs_mem (rs_remember env h nd s))" by (simp add: rs_remember_def Let_def)
  show "length (rs_mem (rs_remember env h nd s)) \<le> se_maxNodes env"
    using assms(2) by (auto simp: rs_remember_def Let_def length_jm_set)
  show "jm_get (rs_mem (rs_remember env h nd s)) h' = Some n \<Longrightarrow> jm_get (rs_mem s) h' = Some n \<or> h' = h \<and> n = nd"
    using jm_get_tl [OF ok, of h' n] by (auto simp: rs_remember_def Let_def split: if_splits)
qed

lemma inv_remember:
  assumes "r2_inv objs ok env s" "agrees (r2_get objs env s) h (Some nd)"
  shows "r2_inv objs ok env (rs_remember env h nd s)" "r2_get objs env (rs_remember env h nd s) = r2_get objs env s"
proof -
  show g: "r2_get objs env (rs_remember env h nd s) = r2_get objs env s" by (simp add: r2_get_def)
  have m: "jm_ok (rs_mem s)" "length (rs_mem s) \<le> se_maxNodes env" using assms(1) by (simp_all add: r2_inv_def)
  have "agrees (r2_get objs env s) h' (jm_get (rs_mem (rs_remember env h nd s)) h')" for h'
    using assms remember_mem(3) [OF m, of h nd h'] by (auto simp: agrees_def r2_inv_def)
  then show "r2_inv objs ok env (rs_remember env h nd s)"
    using assms(1) remember_mem(1,2) [OF m] unfolding r2_inv_def g by (simp add: lower_tiers_agree_def)
qed

lemma inv_cong:
  assumes "r2_inv objs ok env s" "rs_mem s' = rs_mem s" "rs_tier s' = rs_tier s" "rs_cache s' = rs_cache s"
    "ok (rs_bucket s')" "objs (rs_bucket s') = objs (rs_bucket s)"
  shows "r2_inv objs ok env s'" "r2_get objs env s' = r2_get objs env s"
proof -
  show g: "r2_get objs env s' = r2_get objs env s" by (simp add: r2_get_def assms(6))
  show "r2_inv objs ok env s'" using assms unfolding r2_inv_def g by (simp add: lower_tiers_agree_def)
qed

lemma tier_putI:
  assumes "\<And>ops. tier = Some ops \<Longrightarrow> tier_contract ops" "deserializeNode decompress body = Inr nd" "src h = Some nd"
    and "\<forall>k h. agrees src h (tier_node decompress tier t (objectKey k h))"
  obtains t' where "tier_put tier t (objectKey kd h) body = Inr t'"
    "\<forall>k h. agrees src h (tier_node decompress tier t' (objectKey k h))"
proof -
  obtain t' where t': "tier_put tier t (objectKey kd h) body = Inr t'"
    "\<And>k' n. tier_node decompress tier t' k' = Some n \<Longrightarrow>
       tier_node decompress tier t k' = Some n \<or> k' = objectKey kd h \<and> deserializeNode decompress body = Inr n"
    using tier_put_result [of tier t "objectKey kd h" body decompress] assms(1) by metis
  have "agrees src h' (tier_node decompress tier t' (objectKey k h'))" for k h'
    using t'(2) [of "objectKey k h'"] assms(2-4) by (fastforce simp: agrees_def objectKey_inj)
  with t'(1) show ?thesis using that by blast
qed

locale r2_nodes = r2_bucket "se_bucket env" objs ok cursor_at
  for env :: "('b, 't, 'c) store_env" and objs ok cursor_at +
  assumes tier_ops: "se_tier env = Some t_ops \<Longrightarrow> tier_contract t_ops"
    and cache_ops: "se_cache env = Some c_ops \<Longrightarrow> tier_contract c_ops"
begin

lemma load_from_bucket_spec:
  assumes inv: "r2_inv objs ok env s" and load: "load_from_bucket env s r = (res, s')"
  shows "r2_inv objs ok env s' \<and> r2_get objs env s' = r2_get objs env s \<and>
    (\<forall>nd. r2_get objs env s (r_hash r) = Some nd \<longrightarrow> kind_of nd = r_kind r \<longrightarrow> res = Inr nd)"
proof -
  let ?key = "objectKey (r_kind r) (r_hash r)"
  have laws: "codec_laws (se_compress env) (se_decompress env) (se_sha env)"
    and nodes: "bucket_nodes_ok (se_compress env) (objs (rs_bucket s))" and okb: "ok (rs_bucket s)"
    using inv by (simp_all add: r2_inv_def)
  obtain g b' where g: "bk_get (se_bucket env) (rs_bucket s) ?key = (g, b')" by fastforce
  have b': "ok b'" "objs b' = objs (rs_bucket s)" "map_option ob_body g = objs (rs_bucket s) ?key" using get_body [OF okb g] by simp_all
  show ?thesis
  proof (cases g)
    case None
    then have s': "res = Inl (Error ''R2NodeStore: missing object'')" "s' = s\<lparr>rs_bucket := b'\<rparr>"
      using load g by (simp_all add: load_from_bucket_def)
    have "objs (rs_bucket s) ?key = None" using None b'(3) by simp
    then have "kind_of nd \<noteq> r_kind r" if "r2_get objs env s (r_hash r) = Some nd" for nd
      using bucket_node_SomeD [OF laws nodes] that unfolding r2_get_def by (metis option.distinct(1))
    moreover have "r2_inv objs ok env s'" "r2_get objs env s' = r2_get objs env s"
      using inv_cong [OF inv, of s'] b' s'(2) by simp_all
    ultimately show ?thesis by blast
  next
    case (Some o')
    then have body: "objs (rs_bucket s) ?key = Some (ob_body o')" using b'(3) by simp
    obtain i nd where nd: "node_ok NODE_CAP datom_storable ref_storable nd" "kind_of nd = r_kind r"
        "ob_body o' = se_compress env (node_bytes i nd)" "deserializeNode (se_decompress env) (ob_body o') = Inr nd"
        "bucket_node (se_decompress env) (objs (rs_bucket s)) (r_hash r) = Some nd"
      using bucket_body_node [OF laws nodes body] .
    have src: "r2_get objs env s (r_hash r) = Some nd" using nd(5) by (simp add: r2_get_def)
    have low: "\<forall>k h. agrees (r2_get objs env s) h (tier_node (se_decompress env) (se_tier env) (rs_tier s) (objectKey k h))"
      "\<forall>k h. agrees (r2_get objs env s) h (tier_node (se_decompress env) (se_cache env) (rs_cache s) (objectKey k h))"
      using inv by (simp_all add: r2_inv_def lower_tiers_agree_def)
    obtain c' where c': "tier_put (se_cache env) (rs_cache s) ?key (ob_body o') = Inr c'"
        "\<forall>k h. agrees (r2_get objs env s) h (tier_node (se_decompress env) (se_cache env) c' (objectKey k h))"
      using tier_putI [OF _ nd(4) src low(2), of "r_kind r"] cache_ops by metis
    obtain t' where t': "tier_put (se_tier env) (rs_tier s) ?key (ob_body o') = Inr t'"
        "\<forall>k h. agrees (r2_get objs env s) h (tier_node (se_decompress env) (se_tier env) t' (objectKey k h))"
      using tier_putI [OF _ nd(4) src low(1), of "r_kind r"] tier_ops by metis
    let ?st = "(rs_stats s)\<lparr>st_r2Gets := st_r2Gets (rs_stats s) + 1, st_bytesRead := st_bytesRead (rs_stats s) + length (ob_body o')\<rparr>"
    let ?s1 = "s\<lparr>rs_bucket := b', rs_stats := ?st, rs_cache := c', rs_tier := t'\<rparr>"
    have s': "res = Inr nd" "s' = rs_remember env (r_hash r) nd ?s1"
      using load g Some nd(4) c'(1) t'(1) by (simp_all add: load_from_bucket_def Let_def)
    have g1: "r2_get objs env ?s1 = r2_get objs env s" using b'(2) by (simp add: r2_get_def)
    have "r2_inv objs ok env ?s1"
      using inv b' c'(2) t'(2) unfolding r2_inv_def g1 lower_tiers_agree_def by simp
    moreover have "agrees (r2_get objs env ?s1) (r_hash r) (Some nd)" unfolding g1 agrees_def using src by simp
    ultimately have "r2_inv objs ok env s'" "r2_get objs env s' = r2_get objs env s"
      using inv_remember [of objs ok env ?s1] g1 s'(2) by simp_all
    then show ?thesis using s'(1) src by simp
  qed
qed

text \<open>Whatever the lower tiers hold, loading gives the node of the bucket.\<close>

lemma load_spec:
  assumes inv: "r2_inv objs ok env s" and load: "R2NodeStore_load env s r = (res, s')"
  shows "r2_inv objs ok env s' \<and> r2_get objs env s' = r2_get objs env s \<and>
    (\<forall>nd. r2_get objs env s (r_hash r) = Some nd \<longrightarrow> kind_of nd = r_kind r \<longrightarrow> res = Inr nd)"
proof -
  let ?key = "objectKey (r_kind r) (r_hash r)" and ?h = "r_hash r"
  have hit: ?thesis if n: "agrees (r2_get objs env s) ?h (Some n)" and s': "res = Inr n" "s' = rs_remember env ?h n (s\<lparr>rs_stats := st\<rparr>)" for n st
  proof -
    have 1: "r2_inv objs ok env (s\<lparr>rs_stats := st\<rparr>)" "r2_get objs env (s\<lparr>rs_stats := st\<rparr>) = r2_get objs env s"
      using inv_cong [OF inv, of "s\<lparr>rs_stats := st\<rparr>"] inv by (simp_all add: r2_inv_def)
    then have "agrees (r2_get objs env (s\<lparr>rs_stats := st\<rparr>)) ?h (Some n)" using n by simp
    from inv_remember [OF 1(1) this] show ?thesis using 1(2) n s' by (auto simp: agrees_def)
  qed
  show ?thesis
  proof (cases "jm_get (rs_mem s) ?h")
    case (Some n)
    let ?s = "s\<lparr>rs_stats := (rs_stats s)\<lparr>st_memHits := st_memHits (rs_stats s) + 1\<rparr>\<rparr>"
    have "res = Inr n" "s' = ?s" using load Some by (simp_all add: R2NodeStore_load_def)
    moreover have "r2_inv objs ok env ?s" "r2_get objs env ?s = r2_get objs env s"
      using inv_cong [OF inv, of ?s] inv by (simp_all add: r2_inv_def)
    moreover have "agrees (r2_get objs env s) ?h (Some n)" using inv Some unfolding r2_inv_def by metis
    ultimately show ?thesis by (auto simp: agrees_def)
  next
    case miss: None
    have low: "agrees (r2_get objs env s) ?h (tier_node (se_decompress env) (se_tier env) (rs_tier s) ?key)"
      "agrees (r2_get objs env s) ?h (tier_node (se_decompress env) (se_cache env) (rs_cache s) ?key)"
      using inv by (simp_all add: r2_inv_def lower_tiers_agree_def)
    show ?thesis
    proof (cases "tier_node (se_decompress env) (se_tier env) (rs_tier s) ?key")
      case (Some n)
      have "res = Inr n \<and> s' = rs_remember env ?h n (s\<lparr>rs_stats := (rs_stats s)\<lparr>st_tierHits := st_tierHits (rs_stats s) + 1\<rparr>\<rparr>)"
        using load miss Some by (simp add: R2NodeStore_load_def loadUncached_def Let_def)
      then show ?thesis using low(1) Some by (elim conjE) (rule hit, simp_all)
    next
      case no_tier: None
      show ?thesis
      proof (cases "tier_node (se_decompress env) (se_cache env) (rs_cache s) ?key")
        case (Some n)
        have "res = Inr n \<and> s' = rs_remember env ?h n (s\<lparr>rs_stats := (rs_stats s)\<lparr>st_cacheHits := st_cacheHits (rs_stats s) + 1\<rparr>\<rparr>)"
          using load miss no_tier Some by (simp add: R2NodeStore_load_def loadUncached_def Let_def)
        then show ?thesis using low(2) Some by (elim conjE) (rule hit, simp_all)
      next
        case None
        then have "load_from_bucket env s r = (res, s')" using load miss no_tier by (simp add: R2NodeStore_load_def loadUncached_def Let_def)
        then show ?thesis by (rule load_from_bucket_spec [OF inv])
      qed
    qed
  qed
qed

lemma peek_spec:
  assumes inv: "r2_inv objs ok env s" and peek: "R2NodeStore_peek s h = (res, s')"
  shows "r2_inv objs ok env s' \<and> r2_get objs env s' = r2_get objs env s \<and> agrees (r2_get objs env s) h res"
proof (cases "jm_get (rs_mem s) h")
  case None
  then show ?thesis using assms by (simp add: R2NodeStore_peek_def)
next
  case (Some n)
  let ?m = "jm_set h n (jm_delete h (rs_mem s))"
  have ok': "jm_ok (rs_mem s)" using inv by (simp add: r2_inv_def)
  have s': "res = Some n" "rs_mem s' = ?m" "rs_bucket s' = rs_bucket s" "rs_tier s' = rs_tier s" "rs_cache s' = rs_cache s"
    using peek Some by (auto simp: R2NodeStore_peek_def)
  have g: "jm_get ?m = jm_get (rs_mem s)" using Some ok' by (auto simp: fun_eq_iff)
  have "length (jm_delete h (rs_mem s)) < length (rs_mem s)"
    using jm_get_mem [OF Some] unfolding jm_delete_def by (intro length_filter_less) auto
  then have "length ?m \<le> length (rs_mem s)" by (auto simp: length_jm_set)
  moreover have "r2_get objs env s' = r2_get objs env s" by (simp add: r2_get_def s'(3))
  moreover have "agrees (r2_get objs env s) h res" using inv Some s'(1) unfolding r2_inv_def by metis
  ultimately show ?thesis using inv s' ok' g unfolding r2_inv_def by (simp add: lower_tiers_agree_def)
qed

lemma clearMemory_spec:
  "r2_inv objs ok env s \<Longrightarrow> r2_inv objs ok env (R2NodeStore_clearMemory s) \<and> r2_get objs env (R2NodeStore_clearMemory s) = r2_get objs env s"
  by (simp add: r2_inv_def R2NodeStore_clearMemory_def r2_get_def lower_tiers_agree_def)

lemma put_step:
  assumes inv: "r2_inv objs ok env s" and nok: "node_ok NODE_CAP datom_storable ref_storable nd"
    and b: "body = se_compress env (node_bytes i nd)" "h = se_sha env body"
    and free: "\<not> hash_taken env (objs (rs_bucket s)) s h nd body"
    and s1: "ok (rs_bucket s1)" "objs (rs_bucket s1) = (objs (rs_bucket s))(objectKey (kind_of nd) h \<mapsto> body)"
      "rs_mem s1 = rs_mem s" "rs_tier s1 = rs_tier s" "rs_cache s1 = rs_cache s"
  shows "r2_inv objs ok env s1 \<and> r2_get objs env s1 h = Some nd \<and> r2_get objs env s \<subseteq>\<^sub>m r2_get objs env s1"
proof -
  let ?m = "objs (rs_bucket s)" and ?m1 = "objs (rs_bucket s1)"
  have laws: "codec_laws (se_compress env) (se_decompress env) (se_sha env)" and nodes: "bucket_nodes_ok (se_compress env) ?m"
    using inv by (simp_all add: r2_inv_def)
  have other: "?m (objectKey k h) = None" if "k \<noteq> kind_of nd" for k
    using free kinds [of k] that unfolding hash_taken_def by blast
  have same: "?m (objectKey (kind_of nd) h) \<in> {None, Some body}" using free unfolding hash_taken_def by blast
  have nodes1: "bucket_nodes_ok (se_compress env) ?m1"
    unfolding bucket_nodes_ok_def
  proof (intro conjI allI impI)
    fix k h' x assume "?m1 (objectKey k h') = Some x"
    then have "k = kind_of nd \<and> x = body \<or> ?m (objectKey k h') = Some x" by (auto simp: s1(2) objectKey_inj split: if_splits)
    then show "\<exists>i nd. node_ok NODE_CAP datom_storable ref_storable nd \<and> kind_of nd = k \<and> x = se_compress env (node_bytes i nd)"
      using nodes nok b(1) unfolding bucket_nodes_ok_def by blast
  next
    fix h'
    have "?m (objectKey KLeaf h') = None \<or> ?m (objectKey KDir h') = None" using nodes by (simp add: bucket_nodes_ok_def)
    then show "?m1 (objectKey KLeaf h') = None \<or> ?m1 (objectKey KDir h') = None"
      using other [of KLeaf] other [of KDir] by (cases "kind_of nd") (auto simp: s1(2) objectKey_inj)
  qed
  have "?m1 (objectKey (kind_of nd) h) = Some body" by (simp add: s1(2))
  then obtain j nd' where "deserializeNode (se_decompress env) body = Inr nd'" "bucket_node (se_decompress env) ?m1 h = Some nd'"
    using bucket_body_node [OF laws nodes1] by metis
  then have at_h: "r2_get objs env s1 h = Some nd" using deserialize_body [OF laws nok, of i] b(1) by (simp add: r2_get_def)
  have keep: "r2_get objs env s1 h' = r2_get objs env s h'" if "h' \<noteq> h" for h'
  proof -
    have e: "?m1 (objectKey k h') = ?m (objectKey k h')" for k using that by (simp add: s1(2) objectKey_inj)
    show ?thesis unfolding r2_get_def bucket_node_def bucket_body_def e ..
  qed
  have old: "n = nd" if n: "r2_get objs env s h = Some n" for n
  proof -
    obtain j where j: "node_ok NODE_CAP datom_storable ref_storable n" "?m (objectKey (kind_of n) h) = Some (se_compress env (node_bytes j n))"
      using bucket_node_SomeD [OF laws nodes n [unfolded r2_get_def]] .
    then have "kind_of n = kind_of nd" using other by fastforce
    then have "se_compress env (node_bytes j n) = body" using j(2) same by simp
    then show ?thesis using deserialize_body [OF laws j(1), of j] deserialize_body [OF laws nok, of i] b(1) by simp
  qed
  have "r2_get objs env s \<subseteq>\<^sub>m r2_get objs env s1"
    unfolding map_le_def
  proof
    fix h' assume "h' \<in> dom (r2_get objs env s)"
    then show "r2_get objs env s h' = r2_get objs env s1 h'" using keep old at_h by (cases "h' = h") auto
  qed
  moreover have agr: "agrees (r2_get objs env s1) h' x"
    if "agrees (r2_get objs env s) h' x" "\<not> (h' = h \<and> other_node nd x)" for h' x
    using that keep [of h'] at_h by (cases "h' = h") (auto simp: agrees_def other_node_def)
  have was: "agrees (r2_get objs env s) h' (jm_get (rs_mem s) h')"
    "agrees (r2_get objs env s) h' (tier_node (se_decompress env) (se_tier env) (rs_tier s) (objectKey k h'))"
    "agrees (r2_get objs env s) h' (tier_node (se_decompress env) (se_cache env) (rs_cache s) (objectKey k h'))" for h' k
    using inv by (simp_all add: r2_inv_def lower_tiers_agree_def)
  have clash: "\<not> other_node nd (jm_get (rs_mem s) h)"
    "\<not> other_node nd (tier_node (se_decompress env) (se_tier env) (rs_tier s) (objectKey k h))"
    "\<not> other_node nd (tier_node (se_decompress env) (se_cache env) (rs_cache s) (objectKey k h))" for k
    using free kinds [of k] unfolding hash_taken_def by blast+
  have "agrees (r2_get objs env s1) h' (jm_get (rs_mem s1) h')" for h'
    unfolding s1 by (rule agr) (use was clash in auto)
  moreover have "lower_tiers_agree env s1 (r2_get objs env s1)"
    unfolding lower_tiers_agree_def s1 by (intro allI conjI; rule agr) (use was clash in auto)
  ultimately show ?thesis using inv s1 nodes1 at_h unfolding r2_inv_def by simp
qed

lemma put_spec:
  assumes inv: "r2_inv objs ok env s" and nok: "node_ok NODE_CAP datom_storable ref_storable nd"
    and free: "r2_put objs env s i nd \<noteq> collision"
  shows "\<exists>r s'. r2_put objs env s i nd = Inr (r, s') \<and> r2_inv objs ok env s' \<and> ref_storable r \<and>
    r2_get objs env s' (r_hash r) = Some nd \<and> r_kind r = kind_of nd \<and> r_count r = countOf nd \<and>
    r2_get objs env s \<subseteq>\<^sub>m r2_get objs env s'"
proof -
  have laws: "codec_laws (se_compress env) (se_decompress env) (se_sha env)" and okb: "ok (rs_bucket s)" using inv by (simp_all add: r2_inv_def)
  define body where "body = se_compress env (node_bytes i nd)"
  define h where "h = se_sha env body"
  define r where "r = \<lparr>r_hash = h, r_kind = kind_of nd, r_count = countOf nd\<rparr>"
  define key where "key = objectKey (kind_of nd) h"
  have ser: "serializeNode (se_compress env) (se_sha env) i nd = Inr (r, body)"
    by (simp add: serialize_ok [OF nok] r_def h_def body_def)
  have nt: "\<not> hash_taken env (objs (rs_bucket s)) s h nd body" using free by (auto simp: r2_put_def ser r_def)
  define exists where "exists \<longleftrightarrow> se_headBeforePut env \<and> bk_head (se_bucket env) (rs_bucket s) key"
  define s1 where "s1 = (if exists then s\<lparr>rs_stats := (rs_stats s)\<lparr>st_r2PutSkipped := st_r2PutSkipped (rs_stats s) + 1\<rparr>\<rparr>
    else s\<lparr>rs_bucket := bk_put (se_bucket env) (rs_bucket s) key (RBytes body) (Some octet_meta),
      rs_stats := (rs_stats s)\<lparr>st_r2Puts := st_r2Puts (rs_stats s) + 1, st_bytesWritten := st_bytesWritten (rs_stats s) + length body\<rparr>\<rparr>)"
  have same: "objs (rs_bucket s) key \<in> {None, Some body}" using nt unfolding hash_taken_def key_def by blast
  have "objs (rs_bucket s) key = Some body" if exists using that same head_has [OF okb, of key] by (auto simp: exists_def)
  then have o1: "ok (rs_bucket s1)" "objs (rs_bucket s1) = (objs (rs_bucket s))(key \<mapsto> body)"
    using put_body [OF okb, of key "RBytes body" "Some octet_meta"] okb by (auto simp: s1_def fun_eq_iff)
  have f1: "rs_mem s1 = rs_mem s" "rs_tier s1 = rs_tier s" "rs_cache s1 = rs_cache s" by (simp_all add: s1_def)
  have st: "r2_inv objs ok env s1" "r2_get objs env s1 h = Some nd" "r2_get objs env s \<subseteq>\<^sub>m r2_get objs env s1"
    using put_step [OF inv nok body_def h_def nt o1(1) o1(2) [unfolded key_def] f1] by simp_all
  have des: "deserializeNode (se_decompress env) body = Inr nd" unfolding body_def by (rule deserialize_body [OF laws nok])
  have low: "\<forall>k h. agrees (r2_get objs env s1) h (tier_node (se_decompress env) (se_tier env) (rs_tier s1) (objectKey k h))"
    using st(1) by (simp add: r2_inv_def lower_tiers_agree_def)
  obtain t' where t': "tier_put (se_tier env) (rs_tier s1) key body = Inr t'"
      "\<forall>k h. agrees (r2_get objs env s1) h (tier_node (se_decompress env) (se_tier env) t' (objectKey k h))"
    using tier_putI [OF _ des st(2) low, of "kind_of nd"] tier_ops unfolding key_def by metis
  let ?s2 = "s1\<lparr>rs_tier := t'\<rparr>"
  have rk: "r_kind r = kind_of nd" "r_hash r = h" by (simp_all add: r_def)
  have "R2NodeStore_put env s i nd =
      rbind (tier_put (se_tier env) (rs_tier s1) key body) (\<lambda>t'. Inr (r, rs_remember env h nd (s1\<lparr>rs_tier := t'\<rparr>)))"
    unfolding R2NodeStore_put_def ser rbind.simps split Let_def rk key_def [symmetric] exists_def [symmetric] s1_def [symmetric] ..
  then have put: "r2_put objs env s i nd = Inr (r, rs_remember env h nd ?s2)"
    using nt t'(1) by (simp add: r2_put_def ser rk)
  have g2: "r2_get objs env ?s2 = r2_get objs env s1" by (simp add: r2_get_def)
  have i2: "r2_inv objs ok env ?s2" using st(1) t'(2) unfolding r2_inv_def g2 lower_tiers_agree_def by simp
  have a2: "agrees (r2_get objs env ?s2) h (Some nd)" unfolding g2 agrees_def using st(2) by simp
  have "ref_storable r"
  proof -
    have "countOf nd < 2 ^ 53" using nok by (cases nd) (auto simp: NODE_CAP_def)
    then show ?thesis using laws by (auto simp: r_def h_def ref_storable_def codec_laws_def)
  qed
  then show ?thesis
    using put inv_remember [OF i2 a2] st(2,3) unfolding g2 by (simp add: r_def)
qed

end

sublocale r2_nodes \<subseteq> nodes: node_store "r2_get objs env" "r2_put objs env" "r2_inv objs ok env" ref_storable datom_storable NODE_CAP
proof (unfold_locales, goal_cases)
  case (1 s nd i)
  then show ?case using put_spec [of s nd i] by blast
next
  case (2 s nd i r s')
  then show ?case using put_spec [of s nd i] by fastforce
next
  case (3 s h nd)
  then show ?case using bucket_node_SomeD unfolding r2_inv_def r2_get_def by metis
qed

text \<open>The store of a replica: its database's part of a bucket, with rows of SQL in front.\<close>

definition replica_env ::
  "string \<Rightarrow> (bytes \<Rightarrow> bytes) \<Rightarrow> (bytes \<Rightarrow> bytes res) \<Rightarrow> (bytes \<Rightarrow> string) \<Rightarrow> (memory_bucket, sqlite_tier, unit) store_env" where
  "replica_env p compress decompress sha =
     \<lparr>se_bucket = prefixedBucket memory_r2 p, se_compress = compress, se_decompress = decompress, se_sha = sha,
      se_maxNodes = 4096, se_tier = Some sqlite_ops, se_cache = None, se_headBeforePut = False\<rparr>"

interpretation replica_nodes: r2_nodes "replica_env p compress decompress sha" "objs_under p mb_objs" mb_ok nat_digits
  for p compress decompress sha
proof -
  have "r2_bucket (se_bucket (replica_env p compress decompress sha)) (objs_under p mb_objs) mb_ok nat_digits"
    by (simp add: replica_env_def memory_under.r2_bucket_axioms)
  moreover have "r2_nodes_axioms (replica_env p compress decompress sha)"
    by (rule r2_nodes_axioms.intro) (auto simp: replica_env_def intro: sqlite.tier_contract_axioms)
  ultimately show "r2_nodes (replica_env p compress decompress sha) (objs_under p mb_objs) mb_ok nat_digits"
    by (rule r2_nodes.intro)
qed

lemma new_store_inv:
  assumes "codec_laws (se_compress env) (se_decompress env) (se_sha env)" "ok b" "\<forall>k h. objs b (objectKey k h) = None"
  shows "r2_inv objs ok env (R2NodeStore b t c)"
proof -
  have g: "r2_get objs env (R2NodeStore b t c) = (\<lambda>h. None)"
    using assms(3) by (simp add: r2_get_def R2NodeStore_def bucket_node_def bucket_body_def fun_eq_iff)
  show ?thesis unfolding r2_inv_def g using assms
    by (simp add: R2NodeStore_def bucket_nodes_ok_def lower_tiers_agree_def agrees_def)
qed

end
