(* ===== verification/GcSweep.thy ===== *)
theory GcSweep
  imports R2Store TxModel
begin

text \<open>
  Garbage collection of a database in object storage (\<open>gcSweep\<close> and \<open>retainNewest\<close> of
  \<open>internal/storage/index.ts\<close>): the hashes reachable from the retained roots are marked, every
  other node is deleted page by page, and roots that are not retained may be deleted too.
\<close>

section \<open>Mark and sweep\<close>

record gc_options =
  go_deleteRoots :: bool
  go_dryRun :: bool

record gc_result =
  gr_retainedRoots :: "int list"
  gr_reachable :: nat
  gr_deleted :: nat
  gr_scanned :: nat

text \<open>\<open>ts.slice(-n)\<close>, which is the whole array for 0.\<close>

definition retainNewest :: "nat \<Rightarrow> int list \<Rightarrow> int list" where
  "retainNewest n ts = (if n = 0 then ts else drop (length ts - n) ts)"

definition gc_keep :: "(int list \<Rightarrow> int list) \<Rightarrow> int \<Rightarrow> int list \<Rightarrow> int list" where
  "gc_keep retain currentT all = set_add currentT (fold set_add (retain all) [])"

text \<open>The nodes are read through the store, a source of nodes by hash.\<close>

fun mark_roots :: "nat \<Rightarrow> node_source \<Rightarrow> 'b r2like \<Rightarrow> int list \<Rightarrow> 'b \<Rightarrow> string set \<Rightarrow> (string set \<times> 'b) res" where
  "mark_roots n src bk [] b marked = Inr (marked, b)"
| "mark_roots n src bk (t # ts) b marked =
     (case readRootAt bk b t of
        (Inl e, b') \<Rightarrow> Inl e
      | (Inr None, b') \<Rightarrow> mark_roots n src bk ts b' marked
      | (Inr (Some rec), b') \<Rightarrow>
          (let roots = recordToRoots rec in
           rbind (rfold (\<lambda>r m. reachable n src [r] m) [ro_eavt roots, ro_aevt roots, ro_avet roots, ro_vaet roots] marked)
             (\<lambda>m. mark_roots n src bk ts b' m)))"

fun sweep_pages ::
  "nat \<Rightarrow> 'b r2like \<Rightarrow> string set \<Rightarrow> bool \<Rightarrow> string \<Rightarrow> jsstr option \<Rightarrow> 'b \<Rightarrow> nat \<Rightarrow> nat \<Rightarrow> (nat \<times> nat \<times> 'b) res" where
  "sweep_pages 0 bk marked dry p c b deleted scanned = Inl Diverges"
| "sweep_pages (Suc n) bk marked dry p c b deleted scanned =
     (let page = bk_list bk b p c 1000;
          doomed = filter (\<lambda>k. drop (length p) k \<notin> marked) (map fst (pg_objects page));
          b' = (if doomed \<noteq> [] \<and> \<not> dry then bk_delete bk b doomed else b);
          deleted' = deleted + length doomed;
          scanned' = scanned + length (pg_objects page)
      in case (if pg_truncated page then pg_cursor page else None) of
           None \<Rightarrow> Inr (deleted', scanned', b')
         | Some s \<Rightarrow> if s = [] then Inr (deleted', scanned', b')
                     else sweep_pages n bk marked dry p (Some s) b' deleted' scanned')"

definition gcSweep ::
  "nat \<Rightarrow> nat \<Rightarrow> 'b r2like \<Rightarrow> node_source \<Rightarrow> int \<Rightarrow> (int list \<Rightarrow> int list) \<Rightarrow> gc_options \<Rightarrow> 'b \<Rightarrow> (gc_result \<times> 'b) res" where
  "gcSweep pages n bk src currentT retain opts b =
     rbind (listRoots pages bk b) (\<lambda>all.
     let keep = gc_keep retain currentT all in
     rbind (mark_roots n src bk keep b {}) (\<lambda>(marked, b1).
     rbind (sweep_pages pages bk marked (go_dryRun opts) ''seg/'' None b1 0 0) (\<lambda>(deleted, scanned, b2).
     rbind (sweep_pages pages bk marked (go_dryRun opts) ''n/'' None b2 deleted scanned) (\<lambda>(deleted, scanned, b3).
       let doomed = map rootKey (filter (\<lambda>t. t \<notin> set keep) all);
           b4 = (if go_deleteRoots opts \<and> \<not> go_dryRun opts \<and> doomed \<noteq> [] then bk_delete bk b3 doomed else b3)
       in Inr (\<lparr>gr_retainedRoots = js_sort by_number keep, gr_reachable = card marked, gr_deleted = deleted,
                gr_scanned = scanned\<rparr>, b4)))))"

section \<open>Marking ends and is closed\<close>

lemma record_bytes_inj: "record_bytes r = record_bytes r' \<longleftrightarrow> r = r'"
proof
  let ?o = "\<lambda>x. \<lparr>ob_body = x, ob_meta = None\<rparr>"
  assume e: "record_bytes r = record_bytes r'"
  have "parse_record (?o (record_bytes r)) = Inr r" "parse_record (?o (record_bytes r')) = Inr r'"
    by (simp_all add: parse_record_bytes)
  then show "r = r'" unfolding e by simp
qed simp

text \<open>The roots of a record stand for trees that the marking has fuel for.\<close>

definition roots_readable :: "nat \<Rightarrow> node_source \<Rightarrow> roots \<Rightarrow> bool" where
  "roots_readable n src rts \<longleftrightarrow> (\<forall>i. \<exists>T. represents src (rootFor rts i) T \<and> nodes T < n)"

lemma mark_tree:
  assumes "represents src r T" "nodes T < n" "closed_upto src [] m"
  obtains m' where "reachable n src [r] m = Inr m'" "closed_upto src [] m'" "m \<subseteq> m'" "r_hash r \<in> m'"
  using reachable_closed [of src "[r]" "[T]" n m] assms by (auto simp: closed_upto_def)

lemma mark_four:
  assumes "\<forall>r\<in>set rs. \<exists>T. represents src r T \<and> nodes T < n" "closed_upto src [] m"
  shows "\<exists>m'. rfold (\<lambda>r m. reachable n src [r] m) rs m = Inr m' \<and> closed_upto src [] m' \<and> m \<subseteq> m' \<and> r_hash ` set rs \<subseteq> m'"
  using assms
proof (induction rs arbitrary: m)
  case (Cons r rs)
  then obtain T where "represents src r T" "nodes T < n" by auto
  then obtain m1 where m1: "reachable n src [r] m = Inr m1" "closed_upto src [] m1" "m \<subseteq> m1" "r_hash r \<in> m1"
    using mark_tree Cons.prems(2) by metis
  obtain m2 where "rfold (\<lambda>r m. reachable n src [r] m) rs m1 = Inr m2" "closed_upto src [] m2" "m1 \<subseteq> m2" "r_hash ` set rs \<subseteq> m2"
    using Cons.IH [OF _ m1(2)] Cons.prems(1) by auto
  then show ?case using m1 by auto
qed simp

lemma rootFor_list: "set [ro_eavt rts, ro_aevt rts, ro_avet rts, ro_vaet rts] = range (rootFor rts)"
proof -
  have u: "UNIV = {EAVT, AEVT, AVET, VAET}"
  proof -
    have "i \<in> {EAVT, AEVT, AVET, VAET}" for i by (cases i) simp_all
    then show ?thesis by blast
  qed
  show ?thesis unfolding u by simp
qed

text \<open>A state of the bucket in which every kept root is either absent or a record that can be read.\<close>

definition kept_roots_ok :: "nat \<Rightarrow> node_source \<Rightarrow> (string \<rightharpoonup> bytes) \<Rightarrow> int list \<Rightarrow> bool" where
  "kept_roots_ok n src m ts \<longleftrightarrow>
     (\<forall>t\<in>set ts. m (rootKey t) = None \<or>
        (\<exists>r. m (rootKey t) = Some (record_bytes r) \<and> roots_readable n src (recordToRoots r)))"

definition marks_roots :: "string set \<Rightarrow> (string \<rightharpoonup> bytes) \<Rightarrow> int list \<Rightarrow> bool" where
  "marks_roots K m ts \<longleftrightarrow>
     (\<forall>t\<in>set ts. \<forall>r. m (rootKey t) = Some (record_bytes r) \<longrightarrow> (\<forall>i. r_hash (rootFor (recordToRoots r) i) \<in> K))"

context r2_bucket begin

lemma mark_roots_ok:
  assumes "ok b" "kept_roots_ok n src (objs b) ts" "closed_upto src [] m0"
  shows "\<exists>K b'. mark_roots n src bk ts b m0 = Inr (K, b') \<and> ok b' \<and> objs b' = objs b \<and> closed_upto src [] K \<and> m0 \<subseteq> K \<and>
    marks_roots K (objs b) ts"
  using assms
proof (induction ts arbitrary: b m0)
  case (Cons t ts)
  obtain res b1 where r: "readRootAt bk b t = (res, b1)" by fastforce
  note spec = read_record_spec [OF Cons.prems(1) r [unfolded readRootAt_def]]
  have b1: "ok b1" "objs b1 = objs b" using spec by simp_all
  have rest: "kept_roots_ok n src (objs b1) ts" using Cons.prems(2) b1(2) by (simp add: kept_roots_ok_def)
  from Cons.prems(2) consider "objs b (rootKey t) = None"
    | q where "objs b (rootKey t) = Some (record_bytes q)" "roots_readable n src (recordToRoots q)"
    unfolding kept_roots_ok_def by auto
  then show ?case
  proof cases
    case 1
    then have "res = Inr None" using spec by simp
    moreover obtain K b' where "mark_roots n src bk ts b1 m0 = Inr (K, b')" "ok b'" "objs b' = objs b" "closed_upto src [] K" "m0 \<subseteq> K"
        "marks_roots K (objs b) ts"
      using Cons.IH [OF b1(1) rest Cons.prems(3)] b1(2) by auto
    ultimately show ?thesis using r 1 by (simp add: marks_roots_def)
  next
    case (2 q)
    let ?rs = "[ro_eavt (recordToRoots q), ro_aevt (recordToRoots q), ro_avet (recordToRoots q), ro_vaet (recordToRoots q)]"
    have res: "res = Inr (Some q)" using spec 2(1) by blast
    have "\<forall>r\<in>set ?rs. \<exists>T. represents src r T \<and> nodes T < n"
      unfolding rootFor_list using 2(2) by (auto simp: roots_readable_def)
    then obtain m1 where m1: "rfold (\<lambda>r m. reachable n src [r] m) ?rs m0 = Inr m1" "closed_upto src [] m1" "m0 \<subseteq> m1"
        "r_hash ` set ?rs \<subseteq> m1"
      using mark_four [OF _ Cons.prems(3)] by metis
    obtain K b' where K: "mark_roots n src bk ts b1 m1 = Inr (K, b')" "ok b'" "objs b' = objs b" "closed_upto src [] K" "m1 \<subseteq> K"
        "marks_roots K (objs b) ts"
      using Cons.IH [OF b1(1) rest m1(2)] b1(2) by auto
    have "r_hash (rootFor (recordToRoots q) i) \<in> K" for i
      using m1(4) K(5) unfolding rootFor_list by blast
    then have "marks_roots K (objs b) (t # ts)" using K(6) 2(1) by (auto simp: marks_roots_def record_bytes_inj)
    moreover have "mark_roots n src bk (t # ts) b m0 = Inr (K, b')"
      using r res m1(1) K(1) by (simp add: Let_def)
    ultimately show ?thesis using K m1(3) by auto
  qed
qed (simp add: marks_roots_def)

end

section \<open>The sweep deletes only what is not marked\<close>

lemma keys_fewer:
  assumes "keys_under m p ks" "keys_under m' p ks'" "m' \<subseteq>\<^sub>m m"
  shows "length ks' \<le> length ks"
proof -
  have "set ks' \<subseteq> set ks" using assms by (auto simp: keys_under_def map_le_def dom_def)
  moreover have "distinct ks" "distinct ks'" using assms sorted_keys_distinct by (auto simp: keys_under_def)
  ultimately show ?thesis by (metis List.finite_set card_mono distinct_card)
qed

text \<open>
  The sweep of a prefix ends and deletes only what is under the prefix and not marked. When
  the prefix has no more than one page, everything unmarked goes.
\<close>

definition garbage :: "string set \<Rightarrow> string \<Rightarrow> string set" where
  "garbage K p = {k. starts_with p k \<and> drop (length p) k \<notin> K}"

context r2_bucket begin

lemma sweep_pages_ok:
  assumes "ok b" "keys_under (objs b) p ks" "c = None \<and> j = 0 \<or> c = Some (cursor_at j)" "length ks < j + 1000 * f" "0 < f"
  shows "\<exists>d s b' X. sweep_pages f bk K dry p c b d0 s0 = Inr (d, s, b') \<and> ok b' \<and> objs b' = objs b |` (- X) \<and>
    X \<subseteq> garbage K p \<and> (dry \<longrightarrow> X = {}) \<and> (length ks \<le> j + 1000 \<longrightarrow> \<not> dry \<longrightarrow> X = set (drop j ks) \<inter> garbage K p)"
  using assms
proof (induction f arbitrary: b ks c j d0 s0)
  case (Suc f)
  define doomed where "doomed = filter (\<lambda>k. drop (length p) k \<notin> K) (take 1000 (drop j ks))"
  define b1 where "b1 = (if doomed \<noteq> [] \<and> \<not> dry then bk_delete bk b doomed else b)"
  define X1 where "X1 = (if dry then {} else set doomed)"
  have page: "bk_list bk b p c 1000 =
        \<lparr>pg_objects = map (\<lambda>x. (x, length (the (objs b x)))) (take 1000 (drop j ks)),
         pg_truncated = (j + 1000 < length ks),
         pg_cursor = (if j + 1000 < length ks then Some (cursor_at (j + 1000)) else None)\<rparr>"
    by (rule list_page [OF Suc.prems(1-3)])
  have names: "map fst (map (\<lambda>x. (x, length (the (objs b x)))) (take 1000 (drop j ks))) = take 1000 (drop j ks)"
    by (simp add: comp_def)
  have step: "\<exists>d1 s1. sweep_pages (Suc f) bk K dry p c b d0 s0 =
      (if j + 1000 < length ks then sweep_pages f bk K dry p (Some (cursor_at (j + 1000))) b1 d1 s1 else Inr (d1, s1, b1))"
    using cursor_nonempty [of "j + 1000"]
    unfolding sweep_pages.simps page Let_def r2_page.simps names doomed_def [symmetric] b1_def [symmetric] by auto
  have b1: "ok b1" "objs b1 = objs b |` (- X1)"
    using Suc.prems(1) delete_all [OF Suc.prems(1), of doomed] by (auto simp: b1_def X1_def)
  have under: "k \<in> garbage K p" if "k \<in> set (drop j ks)" "drop (length p) k \<notin> K" for k
    using that Suc.prems(2) in_set_dropD [OF that(1)] by (simp add: garbage_def keys_under_def)
  have X1: "X1 \<subseteq> garbage K p" "dry \<longrightarrow> X1 = {}"
    using under in_set_takeD [of _ 1000 "drop j ks"] by (auto simp: X1_def doomed_def split: if_splits)
  show ?case
  proof (cases "j + 1000 < length ks")
    case False
    then have all: "take 1000 (drop j ks) = drop j ks" by simp
    have X: "length ks \<le> j + 1000 \<longrightarrow> \<not> dry \<longrightarrow> X1 = set (drop j ks) \<inter> garbage K p"
      using under by (auto simp: X1_def doomed_def all garbage_def)
    obtain d1 s1 where "sweep_pages (Suc f) bk K dry p c b d0 s0 = Inr (d1, s1, b1)" using step False by auto
    then show ?thesis
      by (rule_tac x = d1 in exI, rule_tac x = s1 in exI, rule_tac x = b1 in exI, rule_tac x = X1 in exI)
        (intro conjI b1 X1 X)
  next
    case True
    obtain ks1 where ks1: "keys_under (objs b1) p ks1" using keys_exist [OF b1(1)] by blast
    have "objs b1 \<subseteq>\<^sub>m objs b" unfolding b1(2) by (auto simp: map_le_def restrict_map_def)
    then have "length ks1 \<le> length ks" using keys_fewer [OF Suc.prems(2) ks1] by blast
    then have len: "length ks1 < j + 1000 + 1000 * f" "0 < f" using Suc.prems(4) True by auto
    obtain d1 s1 where step1: "sweep_pages (Suc f) bk K dry p c b d0 s0 =
        sweep_pages f bk K dry p (Some (cursor_at (j + 1000))) b1 d1 s1" using step True by auto
    obtain d s b' X where rec: "sweep_pages f bk K dry p (Some (cursor_at (j + 1000))) b1 d1 s1 = Inr (d, s, b')"
      and b': "ok b'" "objs b' = objs b1 |` (- X)" "X \<subseteq> garbage K p" "dry \<longrightarrow> X = {}"
      using Suc.IH [OF b1(1) ks1 disjI2 [OF refl] len, of d1 s1] by (elim exE conjE) (rule that; assumption)
    have "objs b' = objs b |` (- (X1 \<union> X))" unfolding b'(2) b1(2) by (auto simp: restrict_map_def fun_eq_iff)
    moreover have "X1 \<union> X \<subseteq> garbage K p" "dry \<longrightarrow> X1 \<union> X = {}" using X1 b'(3,4) by auto
    moreover have "length ks \<le> j + 1000 \<longrightarrow> \<not> dry \<longrightarrow> X1 \<union> X = set (drop j ks) \<inter> garbage K p" using True by simp
    moreover have "sweep_pages (Suc f) bk K dry p c b d0 s0 = Inr (d, s, b')" using step1 rec by simp
    ultimately show ?thesis using b'(1)
      by (rule_tac x = d in exI, rule_tac x = s in exI, rule_tac x = b' in exI, rule_tac x = "X1 \<union> X" in exI)
        (intro conjI; assumption)
  qed
qed simp

end

lemma garbage_key: "objectKey k h \<in> garbage K ''seg/'' \<longleftrightarrow> k = KLeaf \<and> h \<notin> K"
  "objectKey k h \<in> garbage K ''n/'' \<longleftrightarrow> k = KDir \<and> h \<notin> K"
  by (cases k; auto simp: garbage_def objectKey_def)+

lemma garbage_prefixes:
  "k \<in> garbage K ''seg/'' \<Longrightarrow> \<not> starts_with ''n/'' k" "k \<in> garbage K ''seg/'' \<union> garbage K ''n/'' \<Longrightarrow> \<not> starts_with ''roots/'' k"
  "k \<in> garbage K ''seg/'' \<union> garbage K ''n/'' \<Longrightarrow> \<not> starts_with ''root/'' k"
  "k \<in> garbage K ''seg/'' \<union> garbage K ''n/'' \<Longrightarrow> \<not> starts_with ''log/'' k"
  by (cases k; auto simp: garbage_def)+

text \<open>The listed roots of a bucket and the numbers of pages that bound its listings.\<close>

definition pages_enough :: "nat \<Rightarrow> (string \<rightharpoonup> bytes) \<Rightarrow> bool" where
  "pages_enough n m \<longleftrightarrow> (\<forall>p\<in>{''roots/'', ''seg/'', ''n/''}. \<forall>ks. keys_under m p ks \<longrightarrow> length ks < 1000 * n)"

definition one_page :: "(string \<rightharpoonup> bytes) \<Rightarrow> string \<Rightarrow> bool" where
  "one_page m p \<longleftrightarrow> (\<forall>ks. keys_under m p ks \<longrightarrow> length ks \<le> 1000)"

definition holds_roots :: "(string \<rightharpoonup> bytes) \<Rightarrow> int set \<Rightarrow> bool" where
  "holds_roots m R \<longleftrightarrow> finite R \<and> (\<forall>t\<in>R. 0 \<le> t) \<and> {k \<in> dom m. starts_with ''roots/'' k} = rootKey ` R"

context r2_bucket begin

lemma listRoots_holds:
  assumes "ok b" "holds_roots (objs b) R" "pages_enough n (objs b)"
  shows "listRoots n bk b = Inr (sorted_list_of_set R)"
proof -
  obtain ks where ks: "keys_under (objs b) ''roots/'' ks" using keys_exist [OF assms(1)] by blast
  then have "set ks = rootKey ` R" "distinct ks" using assms(2) sorted_keys_distinct by (auto simp: keys_under_def holds_roots_def)
  moreover have "inj_on rootKey R" using assms(2) rootKey_inj by (auto simp: inj_on_def holds_roots_def)
  ultimately have "length ks = card R" by (metis card_image distinct_card)
  then have "card R < 1000 * n" using assms(3) ks by (auto simp: pages_enough_def)
  then show ?thesis using listRoots_all [OF assms(1)] assms(2) by (auto simp: holds_roots_def)
qed

text \<open>
  A collection ends. It deletes garbage only, and roots that are not kept when asked to;
  all of the garbage, when each prefix has at most one page.
\<close>

lemma gcSweep_ok:
  assumes b: "ok b" "holds_roots (objs b) R" "pages_enough pages (objs b)"
    and keep: "keep = gc_keep retain currentT (sorted_list_of_set R)" "kept_roots_ok n src (objs b) keep"
  shows "\<exists>res b' K X1 X2 X3. gcSweep pages n bk src currentT retain opts b = Inr (res, b') \<and> ok b' \<and>
    objs b' = objs b |` (- (X1 \<union> X2 \<union> X3)) \<and> closed_upto src [] K \<and> marks_roots K (objs b) keep \<and>
    X1 \<subseteq> garbage K ''seg/'' \<and> X2 \<subseteq> garbage K ''n/'' \<and> X3 \<subseteq> rootKey ` (R - set keep) \<and>
    (go_dryRun opts \<longrightarrow> X1 \<union> X2 \<union> X3 = {}) \<and> (\<not> go_deleteRoots opts \<longrightarrow> X3 = {}) \<and>
    (\<exists>b1. mark_roots n src bk keep b {} = Inr (K, b1)) \<and>
    (\<not> go_dryRun opts \<longrightarrow> one_page (objs b) ''seg/'' \<longrightarrow> X1 = dom (objs b) \<inter> garbage K ''seg/'') \<and>
    (\<not> go_dryRun opts \<longrightarrow> one_page (objs b) ''n/'' \<longrightarrow> X2 = dom (objs b) \<inter> garbage K ''n/'')"
proof -
  have all: "listRoots pages bk b = Inr (sorted_list_of_set R)" by (rule listRoots_holds [OF b])
  have "closed_upto src [] {}" by (simp add: closed_upto_def)
  then obtain K b1 where K: "mark_roots n src bk keep b {} = Inr (K, b1)" "ok b1" "objs b1 = objs b" "closed_upto src [] K"
      "marks_roots K (objs b) keep"
    using mark_roots_ok [OF b(1) keep(2)] by blast
  obtain ks1 where ks1: "keys_under (objs b1) ''seg/'' ks1" using keys_exist [OF K(2)] by blast
  then have len1: "length ks1 < 0 + 1000 * pages" using b(3) K(3) by (auto simp: pages_enough_def)
  then have pos: "0 < pages" by simp
  obtain d2 s2 b2 X1 where S1: "sweep_pages pages bk K (go_dryRun opts) ''seg/'' None b1 0 0 = Inr (d2, s2, b2)" "ok b2"
      "objs b2 = objs b1 |` (- X1)" "X1 \<subseteq> garbage K ''seg/''" "go_dryRun opts \<longrightarrow> X1 = {}"
      "length ks1 \<le> 0 + 1000 \<longrightarrow> \<not> go_dryRun opts \<longrightarrow> X1 = set (drop 0 ks1) \<inter> garbage K ''seg/''"
    using sweep_pages_ok [OF K(2) ks1 disjI1 [OF conjI [OF refl refl]] len1 pos, of K "go_dryRun opts" 0 0]
    by (elim exE conjE) (rule that; assumption)
  obtain ks2 where ks2: "keys_under (objs b2) ''n/'' ks2" "keys_under (objs b) ''n/'' ks2"
  proof -
    obtain ks where ks: "keys_under (objs b) ''n/'' ks" using keys_exist [OF b(1)] by blast
    have "{k \<in> dom (objs b2). starts_with ''n/'' k} = {k \<in> dom (objs b). starts_with ''n/'' k}"
      using garbage_prefixes(1) S1(4) unfolding S1(3) K(3) by auto
    with ks show ?thesis using that [of ks] by (simp add: keys_under_def)
  qed
  then have len2: "length ks2 < 0 + 1000 * pages" using b(3) by (auto simp: pages_enough_def)
  obtain d3 s3 b3 X2 where S2: "sweep_pages pages bk K (go_dryRun opts) ''n/'' None b2 d2 s2 = Inr (d3, s3, b3)" "ok b3"
      "objs b3 = objs b2 |` (- X2)" "X2 \<subseteq> garbage K ''n/''" "go_dryRun opts \<longrightarrow> X2 = {}"
      "length ks2 \<le> 0 + 1000 \<longrightarrow> \<not> go_dryRun opts \<longrightarrow> X2 = set (drop 0 ks2) \<inter> garbage K ''n/''"
    using sweep_pages_ok [OF S1(2) ks2(1) disjI1 [OF conjI [OF refl refl]] len2 pos, of K "go_dryRun opts" d2 s2]
    by (elim exE conjE) (rule that; assumption)
  define doomed where "doomed = map rootKey (filter (\<lambda>t. t \<notin> set keep) (sorted_list_of_set R))"
  define b4 where "b4 = (if go_deleteRoots opts \<and> \<not> go_dryRun opts \<and> doomed \<noteq> [] then bk_delete bk b3 doomed else b3)"
  define X3 where "X3 = (if go_deleteRoots opts \<and> \<not> go_dryRun opts then set doomed else {})"
  have b4: "ok b4" "objs b4 = objs b3 |` (- X3)" using S2(2) delete_all [OF S2(2), of doomed] by (auto simp: b4_def X3_def)
  have fin: "finite R" using b(2) by (simp add: holds_roots_def)
  have X3: "X3 \<subseteq> rootKey ` (R - set keep)" "go_dryRun opts \<longrightarrow> X3 = {}" "\<not> go_deleteRoots opts \<longrightarrow> X3 = {}"
    using fin by (auto simp: X3_def doomed_def)
  have "\<exists>res. gcSweep pages n bk src currentT retain opts b = Inr (res, b4)"
    unfolding gcSweep_def all rbind.simps Let_def keep(1) [symmetric] K(1) split S1(1) S2(1) doomed_def [symmetric] b4_def [symmetric] by blast
  then obtain res where "gcSweep pages n bk src currentT retain opts b = Inr (res, b4)" by blast
  moreover have "objs b4 = objs b |` (- (X1 \<union> X2 \<union> X3))"
    unfolding b4(2) S2(3) S1(3) K(3) by (auto simp: restrict_map_def fun_eq_iff)
  moreover have "go_dryRun opts \<longrightarrow> X1 \<union> X2 \<union> X3 = {}" using S1(5) S2(5) X3(2) by blast
  moreover have "\<exists>b1. mark_roots n src bk keep b {} = Inr (K, b1)" using K(1) by blast
  moreover have "\<not> go_dryRun opts \<longrightarrow> one_page (objs b) ''seg/'' \<longrightarrow> X1 = dom (objs b) \<inter> garbage K ''seg/''"
    using S1(6) ks1 K(3) by (auto simp: one_page_def keys_under_def garbage_def)
  moreover have "\<not> go_dryRun opts \<longrightarrow> one_page (objs b) ''n/'' \<longrightarrow> X2 = dom (objs b) \<inter> garbage K ''n/''"
    using S2(6) ks2(2) by (auto simp: one_page_def keys_under_def garbage_def)
  ultimately show ?thesis using b4(1) K(4,5) S1(4) S2(4) X3(1,3)
    by (rule_tac x = res in exI, rule_tac x = b4 in exI, rule_tac x = K in exI, rule_tac x = X1 in exI,
        rule_tac x = X2 in exI, rule_tac x = X3 in exI) (intro conjI; assumption)
qed

text \<open>The kept trees stay as readable as they were; the current root and the log are not touched.\<close>

lemma gcSweep_keeps:
  assumes b: "ok b" "holds_roots (objs b) R" "pages_enough pages (objs b)"
    and keep: "keep = gc_keep retain currentT (sorted_list_of_set R)" "kept_roots_ok n (bucket_node decompress (objs b)) (objs b) keep"
    and ret: "\<forall>ts. set (retain ts) \<subseteq> set ts" "0 \<le> currentT"
  shows "\<exists>res b'. gcSweep pages n bk (bucket_node decompress (objs b)) currentT retain opts b = Inr (res, b') \<and> ok b' \<and>
    objs b' \<subseteq>\<^sub>m objs b \<and>
    (\<forall>k. starts_with ''root/'' k \<or> starts_with ''log/'' k \<longrightarrow> objs b' k = objs b k) \<and>
    (\<forall>t\<in>set keep. objs b' (rootKey t) = objs b (rootKey t) \<and>
       (\<forall>r i T. objs b (rootKey t) = Some (record_bytes r) \<longrightarrow>
          represents (bucket_node decompress (objs b)) (rootFor (recordToRoots r) i) T \<longrightarrow>
          represents (bucket_node decompress (objs b')) (rootFor (recordToRoots r) i) T))"
proof -
  let ?src = "bucket_node decompress (objs b)"
  obtain res b' K X1 X2 X3 where G: "gcSweep pages n bk ?src currentT retain opts b = Inr (res, b')" "ok b'"
    and o': "objs b' = objs b |` (- (X1 \<union> X2 \<union> X3))" and K: "closed_upto ?src [] K" "marks_roots K (objs b) keep"
    and X: "X1 \<subseteq> garbage K ''seg/''" "X2 \<subseteq> garbage K ''n/''" "X3 \<subseteq> rootKey ` (R - set keep)"
    using gcSweep_ok [OF b keep, of opts] by (elim exE conjE) (rule that; assumption)
  have R: "finite R" "\<forall>t\<in>R. 0 \<le> t" using b(2) by (simp_all add: holds_roots_def)
  have nonneg: "0 \<le> t" if "t \<in> set keep" for t
  proof -
    have "set keep = set (retain (sorted_list_of_set R)) \<union> {currentT}"
      unfolding keep(1) gc_keep_def by (auto simp: set_add_def set_fold_set_add)
    then show ?thesis using that ret R by (metis Un_iff empty_iff insert_iff set_sorted_list_of_set subsetD)
  qed
  have gone: "starts_with ''seg/'' k \<or> starts_with ''n/'' k \<or> k \<in> X3" if "k \<in> X1 \<union> X2 \<union> X3" for k
    using that X by (auto simp: garbage_def)
  have roots: "starts_with ''roots/'' k" if "k \<in> X3" for k using that X(3) rootKey_starts by auto
  have other: "objs b' k = objs b k" if "starts_with ''root/'' k \<or> starts_with ''log/'' k" for k
  proof -
    have "k \<notin> X1 \<union> X2" using that X(1,2) garbage_prefixes(3,4) by blast
    moreover have "k \<notin> X3" using that roots [of k] by (cases k) (auto elim!: starts_with.elims)
    ultimately show ?thesis by (simp add: o')
  qed
  have rk: "objs b' (rootKey t) = objs b (rootKey t)" if "t \<in> set keep" for t
  proof -
    have "rootKey t \<notin> X1 \<union> X2" using rootKey_starts X(1,2) garbage_prefixes(2) by blast
    moreover have "rootKey t \<notin> X3" using X(3) that nonneg R(2) rootKey_inj by auto
    ultimately show ?thesis by (simp add: o')
  qed
  have same: "objs b' (objectKey k h) = objs b (objectKey k h)" if "h \<in> K" for k h
  proof -
    have "objectKey k h \<notin> X1 \<union> X2" using that X(1,2) garbage_key by blast
    moreover have "objectKey k h \<notin> X3" using roots [of "objectKey k h"] by (cases k) (auto simp: objectKey_def)
    ultimately show ?thesis by (simp add: o')
  qed
  have sub: "(\<lambda>h. if h \<in> K then ?src h else None) \<subseteq>\<^sub>m bucket_node decompress (objs b')"
  proof -
    have "bucket_node decompress (objs b') h = ?src h" if "h \<in> K" for h
      unfolding bucket_node_def bucket_body_def same [OF that] ..
    then show ?thesis by (auto simp: map_le_def split: if_splits)
  qed
  have trees: "represents (bucket_node decompress (objs b')) (rootFor (recordToRoots r) i) T"
    if "t \<in> set keep" "objs b (rootKey t) = Some (record_bytes r)" "represents ?src (rootFor (recordToRoots r) i) T" for t r i T
  proof -
    have "r_hash (rootFor (recordToRoots r) i) \<in> K" using K(2) that(1,2) unfolding marks_roots_def by blast
    then show ?thesis using closed_upto_keep [OF that(3) _ K(1)] represents_mono sub by blast
  qed
  have "objs b' \<subseteq>\<^sub>m objs b" unfolding o' by (auto simp: map_le_def restrict_map_def)
  then show ?thesis using G other rk trees by blast
qed

text \<open>
  A database that has published no root yet keeps its empty trees in the bucket, but no
  record says so: collecting it deletes every node it has.
\<close>

lemma gcSweep_unpublished:
  assumes b: "ok b" "holds_roots (objs b) {}" "pages_enough pages (objs b)" "one_page (objs b) ''seg/''" "one_page (objs b) ''n/''"
    and ret: "retain [] = []" and opts: "\<not> go_dryRun opts"
  shows "\<exists>res b'. gcSweep pages (Suc n) bk src currentT retain opts b = Inr (res, b') \<and> ok b' \<and> (\<forall>k h. objs b' (objectKey k h) = None)"
proof -
  have keep: "gc_keep retain currentT (sorted_list_of_set {}) = [currentT]" by (simp add: gc_keep_def set_add_def ret)
  have none: "objs b (rootKey currentT) = None"
  proof -
    have "rootKey currentT \<notin> {k \<in> dom (objs b). starts_with ''roots/'' k}" using b(2) by (simp add: holds_roots_def)
    then show ?thesis using rootKey_starts(1) [of currentT] by auto
  qed
  obtain g b1 where g: "readRootAt bk b currentT = (g, b1)" by fastforce
  have "g = Inr None" using read_record_spec [OF b(1) g [unfolded readRootAt_def]] none by simp
  then have m: "mark_roots (Suc n) src bk [currentT] b {} = Inr ({}, b1)" using g by simp
  have ok': "kept_roots_ok (Suc n) src (objs b) [currentT]" using none by (simp add: kept_roots_ok_def)
  obtain res b' K X1 X2 X3 b2 where G: "gcSweep pages (Suc n) bk src currentT retain opts b = Inr (res, b')" "ok b'"
    and o': "objs b' = objs b |` (- (X1 \<union> X2 \<union> X3))" and K: "mark_roots (Suc n) src bk [currentT] b {} = Inr (K, b2)"
    and X: "\<not> go_dryRun opts \<longrightarrow> one_page (objs b) ''seg/'' \<longrightarrow> X1 = dom (objs b) \<inter> garbage K ''seg/''"
      "\<not> go_dryRun opts \<longrightarrow> one_page (objs b) ''n/'' \<longrightarrow> X2 = dom (objs b) \<inter> garbage K ''n/''"
    using gcSweep_ok [OF b(1-3) keep [symmetric] ok', of opts] by (elim exE conjE) (rule that; assumption)
  have "K = {}" using K m by auto
  then have "objs b' (objectKey k h) = None" for k h
    using X b(4,5) opts garbage_key [of k h K] by (cases k) (auto simp: o' restrict_map_def)
  then show ?thesis using G by blast
qed

end

end
