(* ===== verification/Replica.thy ===== *)
theory Replica
  imports R2Store ConnRuns LogCodec
begin

text \<open>
  The replica of a database: what a reader needs to build a database value without the
  writer (\<open>internal/replica/basis.ts\<close>), and the process that follows the writer's log over a
  socket, fills gaps from the writer or from object storage, and keeps what it knows in SQL
  (\<open>internal/replica/replica-do.ts\<close>). Sessions of clients and the routing of requests are
  not modelled; a frame that throws leaves the state it had reached, and its error.
\<close>

section \<open>The basis a replica serves\<close>

record basis =
  ba_db :: string
  ba_t :: int
  ba_root :: root_record
  ba_novelty :: "novelty_frame list"
  ba_replica :: "string option"

definition last_t :: "log_entry list \<Rightarrow> int \<Rightarrow> int" where
  "last_t es t0 = (if es \<noteq> [] then le_t (last es) else t0)"

definition makeBasis :: "string \<Rightarrow> root_record \<Rightarrow> log_entry list \<Rightarrow> string option \<Rightarrow> basis" where
  "makeBasis db root es replica =
     \<lparr>ba_db = db, ba_t = last_t es (rr_t root), ba_root = root, ba_novelty = map txFrame es, ba_replica = replica\<rparr>"

text \<open>
  The cache of derived schemas by the hash of the \<open>EAVT\<close> root: at most 32, the oldest is
  dropped, and a failed derivation is forgotten.
\<close>

type_synonym schema_cache = "(string, schema) jsmap"

definition cached_schema :: "nat \<Rightarrow> node_source \<Rightarrow> roots \<Rightarrow> schema_cache \<Rightarrow> schema res \<times> schema_cache" where
  "cached_schema n src rts cache =
     (let key = r_hash (ro_eavt rts) in
      case jm_get cache key of
        Some sc \<Rightarrow> (Inr sc, cache)
      | None \<Rightarrow>
          (case deriveSchema n src rts of
             Inr sc \<Rightarrow> (let c = jm_set key sc cache in (Inr sc, if length c > 32 then tl c else c))
           | Inl e \<Rightarrow> (Inl e, if length cache \<ge> 32 then tl cache else cache)))"

definition dbFromBasis ::
  "nat \<Rightarrow> node_source \<Rightarrow> basis \<Rightarrow> int option \<Rightarrow> bool \<Rightarrow> schema_cache \<Rightarrow> db res \<times> schema_cache" where
  "dbFromBasis n src ba asOf history cache =
     (let rts = recordToRoots (ba_root ba) in
      case cached_schema n src rts cache of
        (Inl e, cache') \<Rightarrow> (Inl e, cache')
      | (Inr rootSchema, cache') \<Rightarrow>
          (rmap (\<lambda>es.
             let ds = concat (map le_datoms es);
                 sc = (if ds \<noteq> [] then Schema_apply ds (Schema_clone rootSchema) else rootSchema);
                 db = \<lparr>db_store = src, db_roots = rts, db_novelty = nv_add ds (isAvet sc) (isVaet sc) Novelty_new,
                       db_basisT = ba_t ba, db_schema = sc, db_nextEid = rr_next_eid (ba_root ba), db_asOfT = None,
                       db_isHistory = False\<rparr>;
                 db = (case asOf of Some t \<Rightarrow> Db_asOf t db | None \<Rightarrow> db)
             in if history then Db_history db else db)
           (rmaplist entryFromFrame (ba_novelty ba)), cache'))"

section \<open>The state of a replica\<close>

text \<open>
  The tables \<open>meta\<close> and \<open>novelty\<close> of its SQL storage survive a restart; the root, the entries
  since it and the counters are in memory.
\<close>

type_synonym novelty_row = "int \<times> int \<times> bytes"

record 'b replica =
  qr_bucket :: 'b
  qr_dbName :: "string option"
  qr_root :: "root_record option"
  qr_entries :: "log_entry list"
  qr_meta :: "(string, jsstr) jsmap"
  qr_novelty :: "novelty_row list"
  qr_frames :: nat
  qr_gaps :: nat
  qr_rootFlips :: nat

definition getMeta :: "(string, jsstr) jsmap \<Rightarrow> string \<Rightarrow> jsval option res" where
  "getMeta m k = (case jm_get m k of None \<Rightarrow> Inr None | Some s \<Rightarrow> rmap Some (json_parse s))"

definition setMeta :: "string \<Rightarrow> jsval \<Rightarrow> (string, jsstr) jsmap \<Rightarrow> (string, jsstr) jsmap" where
  "setMeta k v m = jm_set k (json_string v) m"

text \<open>\<open>INSERT OR REPLACE\<close>, \<open>DELETE \<dots> WHERE t <= ?\<close> and \<open>SELECT \<dots> WHERE t > ? ORDER BY t\<close> on rows by \<open>t\<close>.\<close>

definition row_replace :: "novelty_row \<Rightarrow> novelty_row list \<Rightarrow> novelty_row list" where
  "row_replace r rows = filter (\<lambda>x. fst x \<noteq> fst r) rows @ [r]"

definition rows_drop :: "int \<Rightarrow> novelty_row list \<Rightarrow> novelty_row list" where
  "rows_drop t rows = filter (\<lambda>x. fst x > t) rows"

definition rows_after :: "int \<Rightarrow> novelty_row list \<Rightarrow> novelty_row list" where
  "rows_after t rows = js_sort (\<lambda>x y. by_number (fst x) (fst y)) (filter (\<lambda>x. fst x > t) rows)"

definition first_entry :: "bytes \<Rightarrow> log_entry res" where
  "first_entry body = rbind (decodeLogChunk body) (\<lambda>es. case es of [] \<Rightarrow> Inl (TypeError ''undefined entry'') | e # _ \<Rightarrow> Inr e)"

text \<open>What a boot reads back; a stored root of another shape is outside the model.\<close>

definition load_root :: "(string, jsstr) jsmap \<Rightarrow> root_record option res" where
  "load_root m =
     rbind (getMeta m ''root'') (\<lambda>v. case v of
       None \<Rightarrow> Inr None
     | Some j \<Rightarrow> (case record_of_json j of Some r \<Rightarrow> Inr (Some r) | None \<Rightarrow> Inl (Error ''not a root record'')))"

definition load_name :: "(string, jsstr) jsmap \<Rightarrow> string option res" where
  "load_name m =
     rbind (getMeta m ''db'') (\<lambda>v. case v of
       Some (JStr s) \<Rightarrow> Inr (Some (map (\<lambda>u. char_of (unat u)) s))
     | _ \<Rightarrow> Inr None)"

definition replica_boot :: "'b \<Rightarrow> (string, jsstr) jsmap \<Rightarrow> novelty_row list \<Rightarrow> 'b replica res" where
  "replica_boot b m rows =
     rbind (load_name m) (\<lambda>name. rbind (load_root m) (\<lambda>root.
     rbind (case root of None \<Rightarrow> Inr [] | Some r \<Rightarrow> rmaplist (\<lambda>x. first_entry (snd (snd x))) (rows_after (rr_t r) rows)) (\<lambda>es.
       Inr \<lparr>qr_bucket = b, qr_dbName = name, qr_root = root, qr_entries = es, qr_meta = m, qr_novelty = rows,
            qr_frames = 0, qr_gaps = 0, qr_rootFlips = 0\<rparr>)))"

definition root_t :: "'b replica \<Rightarrow> int" where
  "root_t s = (case qr_root s of Some r \<Rightarrow> rr_t r | None \<Rightarrow> 0)"

definition basisT :: "'b replica \<Rightarrow> int" where
  "basisT s = last_t (qr_entries s) (root_t s)"

section \<open>Following the log\<close>

text \<open>
  What the replica reaches over the network: the bucket, with the codec and the number of
  pages a listing may have, and the writer's answer to \<open>/log?from&to\<close>, the earliest \<open>t\<close> of
  its log and frames, or none when the response is not ok.
\<close>

record 'b replica_net =
  rn_bucket :: "'b r2like"
  rn_pages :: nat
  rn_decompress :: "bytes \<Rightarrow> bytes res"
  rn_log :: "int \<Rightarrow> int \<Rightarrow> (int \<times> novelty_frame list) option res"

datatype wire_frame = HelloFrame int root_record | RootFrame root_record | GapFrame int | TxFrame novelty_frame

text \<open>The state a handler leaves, and the error it ended with.\<close>

type_synonym 'b step = "'b replica \<times> jserr option"

definition appendEntry :: "log_entry \<Rightarrow> 'b replica \<Rightarrow> 'b step" where
  "appendEntry e s =
     (let s = s\<lparr>qr_entries := qr_entries s @ [e]\<rparr> in
      case encodeLogChunk [e] of
        Inl err \<Rightarrow> (s, Some err)
      | Inr body \<Rightarrow> (s\<lparr>qr_novelty := row_replace (le_t e, le_txInstant e, body) (qr_novelty s)\<rparr>, None))"

definition adoptRoot :: "root_record \<Rightarrow> 'b replica \<Rightarrow> 'b replica" where
  "adoptRoot r s =
     (if (case qr_root s of Some q \<Rightarrow> rr_t r \<le> rr_t q | None \<Rightarrow> False) then s
      else s\<lparr>qr_root := Some r, qr_meta := setMeta ''root'' (record_json r) (qr_meta s),
             qr_entries := filter (\<lambda>e. le_t e > rr_t r) (qr_entries s), qr_novelty := rows_drop (rr_t r) (qr_novelty s),
             qr_rootFlips := qr_rootFlips s + 1\<rparr>)"

text \<open>The loops over entries: only the one that continues the log is applied.\<close>

fun apply_next :: "log_entry list \<Rightarrow> 'b replica \<Rightarrow> 'b step" where
  "apply_next [] s = (s, None)"
| "apply_next (e # es) s =
     (if le_t e = basisT s + 1 then
        (case appendEntry e s of (s', None) \<Rightarrow> apply_next es s' | (s', Some err) \<Rightarrow> (s', Some err))
      else apply_next es s)"

fun apply_frames :: "novelty_frame list \<Rightarrow> 'b replica \<Rightarrow> 'b step" where
  "apply_frames [] s = (s, None)"
| "apply_frames (f # fs) s =
     (case entryFromFrame f of
        Inl err \<Rightarrow> (s, Some err)
      | Inr e \<Rightarrow>
          (if le_t e = basisT s + 1 then
             (case appendEntry e s of (s', None) \<Rightarrow> apply_frames fs s' | (s', Some err) \<Rightarrow> (s', Some err))
           else apply_frames fs s))"

definition MAX_SAFE_INTEGER :: int where
  "MAX_SAFE_INTEGER = 2 ^ 53 - 1"

definition ensure_root :: "'b replica_net \<Rightarrow> 'b replica \<Rightarrow> 'b step" where
  "ensure_root net s =
     (case qr_root s of
        Some r \<Rightarrow> (s, None)
      | None \<Rightarrow>
          (case readCurrentRoot (rn_bucket net) (qr_bucket s) of
             (Inl err, b') \<Rightarrow> (s\<lparr>qr_bucket := b'\<rparr>, Some err)
           | (Inr None, b') \<Rightarrow> (s\<lparr>qr_bucket := b'\<rparr>, None)
           | (Inr (Some r), b') \<Rightarrow> (adoptRoot r (s\<lparr>qr_bucket := b'\<rparr>), None)))"

definition catchUpFromR2 :: "'b replica_net \<Rightarrow> int \<Rightarrow> int \<Rightarrow> 'b replica \<Rightarrow> 'b step" where
  "catchUpFromR2 net from to s =
     (case ensure_root net s of
        (s1, Some err) \<Rightarrow> (s1, Some err)
      | (s1, None) \<Rightarrow>
          (case readLogSince (rn_pages net) (rn_decompress net) (rn_bucket net) (qr_bucket s1) (max from (basisT s1)) (Some to) of
             (Inl err, b') \<Rightarrow> (s1\<lparr>qr_bucket := b'\<rparr>, Some err)
           | (Inr es, b') \<Rightarrow> apply_next es (s1\<lparr>qr_bucket := b'\<rparr>)))"

definition fillGap :: "'b replica_net \<Rightarrow> int \<Rightarrow> int \<Rightarrow> 'b replica \<Rightarrow> 'b step" where
  "fillGap net from to s =
     (if qr_dbName s = None then (s, None)
      else case rn_log net from to of
        Inl err \<Rightarrow> (s, Some err)
      | Inr (Some (earliest, frames)) \<Rightarrow>
          if earliest \<noteq> 0 \<and> earliest \<le> from + 1 then apply_frames frames s else catchUpFromR2 net from to s
      | Inr None \<Rightarrow> catchUpFromR2 net from to s)"

definition handle_tx :: "'b replica_net \<Rightarrow> log_entry \<Rightarrow> 'b replica \<Rightarrow> 'b step" where
  "handle_tx net e s =
     (let expected = basisT s + 1; apply = (\<lambda>s. if (case qr_root s of None \<Rightarrow> True | Some r \<Rightarrow> le_t e > rr_t r) then appendEntry e s else (s, None))
      in if le_t e < expected then (s, None)
         else if le_t e > expected then
           (case fillGap net (basisT s) (le_t e - 1) (s\<lparr>qr_gaps := qr_gaps s + 1\<rparr>) of
              (s1, Some err) \<Rightarrow> (s1, Some err)
            | (s1, None) \<Rightarrow> if le_t e \<noteq> basisT s1 + 1 then (s1, None) else apply s1)
         else apply s)"

definition handleFrame :: "'b replica_net \<Rightarrow> wire_frame \<Rightarrow> 'b replica \<Rightarrow> 'b step" where
  "handleFrame net f s =
     (let s = s\<lparr>qr_frames := qr_frames s + 1\<rparr> in
      case f of
        HelloFrame t r \<Rightarrow> (if (case qr_root s of None \<Rightarrow> True | Some q \<Rightarrow> rr_t r > rr_t q) then adoptRoot r s else s, None)
      | RootFrame r \<Rightarrow> (adoptRoot r s, None)
      | GapFrame from \<Rightarrow> catchUpFromR2 net from MAX_SAFE_INTEGER (s\<lparr>qr_gaps := qr_gaps s + 1\<rparr>)
      | TxFrame f \<Rightarrow> (case entryFromFrame f of Inl err \<Rightarrow> (s, Some err) | Inr e \<Rightarrow> handle_tx net e s))"

text \<open>Frames are handled in order; a bad one is reported and the next one follows.\<close>

definition handleFrames :: "'b replica_net \<Rightarrow> wire_frame list \<Rightarrow> 'b replica \<Rightarrow> 'b replica" where
  "handleFrames net fs s = fold (\<lambda>f s. fst (handleFrame net f s)) fs s"

section \<open>Numbered logs\<close>

text \<open>Entries whose \<open>t\<close> count up from \<open>c + 1\<close>.\<close>

definition numbered :: "int \<Rightarrow> log_entry list \<Rightarrow> bool" where
  "numbered c es \<longleftrightarrow> (\<forall>i<length es. le_t (es ! i) = c + int i + 1)"

lemma numbered_Nil [simp]: "numbered c []"
  by (simp add: numbered_def)

lemma numbered_Cons [simp]: "numbered c (e # es) \<longleftrightarrow> le_t e = c + 1 \<and> numbered (c + 1) es"
proof
  assume a: "numbered c (e # es)"
  have "le_t ((e # es) ! Suc i) = c + int (Suc i) + 1" if "i < length es" for i
    using a that unfolding numbered_def by (metis Suc_less_eq length_Cons)
  then have "numbered (c + 1) es" by (auto simp: numbered_def)
  moreover have "le_t ((e # es) ! 0) = c + int 0 + 1" using a unfolding numbered_def by (metis length_greater_0_conv list.distinct(1))
  ultimately show "le_t e = c + 1 \<and> numbered (c + 1) es" by simp
next
  assume "le_t e = c + 1 \<and> numbered (c + 1) es"
  then show "numbered c (e # es)" by (auto simp: numbered_def nth_Cons split: nat.splits)
qed

lemma numbered_append [simp]: "numbered c (es @ fs) \<longleftrightarrow> numbered c es \<and> numbered (c + int (length es)) fs"
  by (induction es arbitrary: c) (auto simp: add.assoc add.commute)

lemma numbered_take: "numbered c es \<Longrightarrow> numbered c (take n es)"
  by (simp add: numbered_def)

lemma numbered_drop: "numbered c es \<Longrightarrow> numbered (c + int n) (drop n es)"
  by (simp add: numbered_def)

lemma numbered_t: "numbered c es \<Longrightarrow> e \<in> set es \<Longrightarrow> c < le_t e \<and> le_t e \<le> c + int (length es)"
  by (induction es arbitrary: c) fastforce+

lemma numbered_gt: "numbered c es \<Longrightarrow> filter (\<lambda>e. le_t e > r) es = drop (nat (r - c)) es"
proof (induction es arbitrary: c)
  case (Cons e es)
  have IH: "filter (\<lambda>e. le_t e > r) es = drop (nat (r - (c + 1))) es" using Cons by simp
  show ?case
  proof (cases "le_t e > r")
    case True
    then have "nat (r - c) = 0" "nat (r - (c + 1)) = 0" using Cons.prems by auto
    then show ?thesis using True IH by simp
  next
    case False
    then have "nat (r - c) = Suc (nat (r - (c + 1)))" using Cons.prems by auto
    then show ?thesis using False IH by simp
  qed
qed simp

lemma numbered_le: "numbered c es \<Longrightarrow> filter (\<lambda>e. le_t e \<le> u) es = take (nat (u - c)) es"
proof (induction es arbitrary: c)
  case (Cons e es)
  have IH: "filter (\<lambda>e. le_t e \<le> u) es = take (nat (u - (c + 1))) es" using Cons by simp
  show ?case
  proof (cases "le_t e \<le> u")
    case True
    then have "nat (u - c) = Suc (nat (u - (c + 1)))" using Cons.prems by auto
    then show ?thesis using True IH by simp
  next
    case False
    then have "nat (u - c) = 0" "nat (u - (c + 1)) = 0" using Cons.prems by auto
    then show ?thesis using False IH by simp
  qed
qed simp

lemma numbered_nth: "numbered 0 H \<Longrightarrow> e \<in> set H \<Longrightarrow> le_t e = int n + 1 \<Longrightarrow> n < length H \<and> H ! n = e"
proof -
  assume a: "numbered 0 H" "e \<in> set H" "le_t e = int n + 1"
  obtain i where "i < length H" "H ! i = e" using a(2) by (metis in_set_conv_nth)
  then show ?thesis using a(1,3) by (fastforce simp: numbered_def)
qed

section \<open>What a replica holds\<close>

text \<open>The log of the writer: its entry at position \<open>i\<close> has \<open>t = i + 1\<close>, and its part between two \<open>t\<close>.\<close>

definition log_ok :: "log_entry list \<Rightarrow> bool" where
  "log_ok H \<longleftrightarrow> numbered 0 H \<and> (\<forall>e\<in>set H. entry_storable e)"

definition log_between :: "log_entry list \<Rightarrow> int \<Rightarrow> int \<Rightarrow> log_entry list" where
  "log_between H a b = drop (nat a) (take (nat b) H)"

definition entry_row :: "log_entry \<Rightarrow> novelty_row" where
  "entry_row e = (le_t e, le_txInstant e, log_bytes [e])"

lemma set_log_between: "set (log_between H a b) \<subseteq> set H"
  unfolding log_between_def by (meson set_drop_subset set_take_subset subset_trans)

lemma length_log_between: "0 \<le> a \<Longrightarrow> a \<le> b \<Longrightarrow> b \<le> int (length H) \<Longrightarrow> int (length (log_between H a b)) = b - a"
  by (simp add: log_between_def nat_le_iff)

lemma numbered_between: "numbered 0 H \<Longrightarrow> 0 \<le> a \<Longrightarrow> numbered a (log_between H a b)"
proof -
  assume a: "numbered 0 H" "0 \<le> a"
  have "numbered (0 + int (nat a)) (drop (nat a) (take (nat b) H))" by (intro numbered_drop numbered_take a(1))
  then show ?thesis unfolding log_between_def using a(2) by (simp only: int_nat_eq if_True add_0)
qed

lemma last_between:
  assumes "numbered 0 H" "0 \<le> a" "a \<le> b" "b \<le> int (length H)"
  shows "last_t (log_between H a b) a = b"
proof (cases "log_between H a b = []")
  case True
  then show ?thesis using length_log_between [OF assms(2-4)] by (simp add: last_t_def)
next
  case False
  let ?L = "log_between H a b"
  have "last ?L = ?L ! (length ?L - 1)" using False by (rule last_conv_nth)
  moreover have "le_t (?L ! (length ?L - 1)) = a + int (length ?L - 1) + 1"
    using numbered_between [OF assms(1,2), of b] False by (simp add: numbered_def)
  ultimately show ?thesis using length_log_between [OF assms(2-4)] False by (simp add: last_t_def of_nat_diff Suc_leI)
qed

lemma between_snoc:
  assumes "0 \<le> a" "a \<le> b" "nat b < length H"
  shows "log_between H a (b + 1) = log_between H a b @ [H ! nat b]"
proof -
  have "take (nat (b + 1)) H = take (nat b) H @ [H ! nat b]"
    using assms take_Suc_conv_app_nth [of "nat b" H] by (simp add: nat_add_distrib)
  moreover have "nat a \<le> length (take (nat b) H)" using assms by (simp add: nat_mono)
  ultimately show ?thesis by (simp add: log_between_def)
qed

lemma between_gt:
  assumes "numbered 0 H" "0 \<le> a" "0 \<le> r"
  shows "filter (\<lambda>e. le_t e > r) (log_between H a b) = log_between H (max a r) b"
proof -
  have "filter (\<lambda>e. le_t e > r) (log_between H a b) = drop (nat (r - a)) (log_between H a b)"
    by (rule numbered_gt [OF numbered_between [OF assms(1,2)]])
  moreover have "nat (r - a) + nat a = nat (max a r)" using assms(2,3) by linarith
  ultimately show ?thesis by (simp add: log_between_def)
qed

text \<open>
  The invariant: the entries are the part of the log from the root to the basis, without a
  gap; the tables hold the root and a part of the log from the root that reaches the basis
  at least.
\<close>

definition rows_hold :: "log_entry list \<Rightarrow> int \<Rightarrow> int \<Rightarrow> novelty_row list \<Rightarrow> bool" where
  "rows_hold H a h rows \<longleftrightarrow> distinct (map fst rows) \<and> set rows = entry_row ` set (log_between H a h)"

definition replica_ok :: "log_entry list \<Rightarrow> 'b replica \<Rightarrow> bool" where
  "replica_ok H s \<longleftrightarrow>
     (\<exists>b h. 0 \<le> root_t s \<and> root_t s \<le> b \<and> b \<le> h \<and> h \<le> int (length H) \<and>
        qr_entries s = log_between H (root_t s) b \<and> rows_hold H (root_t s) h (qr_novelty s)) \<and>
     load_root (qr_meta s) = Inr (qr_root s) \<and> load_name (qr_meta s) = Inr (qr_dbName s)"

lemma between_filter:
  assumes "numbered 0 H" "0 \<le> a"
  shows "log_between H a b = filter (\<lambda>e. a < le_t e \<and> le_t e \<le> b) H"
proof -
  have t: "filter (\<lambda>e. le_t e \<le> b) H = take (nat b) H" using numbered_le [OF assms(1), of b] by simp
  have "filter (\<lambda>e. le_t e > a) (take (nat b) H) = drop (nat (a - 0)) (take (nat b) H)"
    by (rule numbered_gt [OF numbered_take [OF assms(1)]])
  then have "log_between H a b = filter (\<lambda>e. le_t e > a) (filter (\<lambda>e. le_t e \<le> b) H)" by (simp add: log_between_def t)
  then show ?thesis by (simp add: conj_commute)
qed

lemma in_between: "numbered 0 H \<Longrightarrow> 0 \<le> a \<Longrightarrow> e \<in> set (log_between H a b) \<longleftrightarrow> e \<in> set H \<and> a < le_t e \<and> le_t e \<le> b"
  by (auto simp: between_filter)

lemma same_t: "numbered 0 H \<Longrightarrow> e \<in> set H \<Longrightarrow> f \<in> set H \<Longrightarrow> le_t e = le_t f \<Longrightarrow> e = f"
proof -
  assume a: "numbered 0 H" "e \<in> set H" "f \<in> set H" "le_t e = le_t f"
  have "0 < le_t e" using numbered_t [OF a(1,2)] by simp
  then have "le_t e = int (nat (le_t e) - 1) + 1" by simp
  then show "e = f" using numbered_nth [OF a(1,2)] numbered_nth [OF a(1,3)] a(4) by metis
qed

lemma rows_add:
  assumes "numbered 0 H" "rows_hold H a h rows" "0 \<le> a" "a < le_t e" "le_t e \<le> h + 1" "e \<in> set H"
  shows "rows_hold H a (max h (le_t e)) (row_replace (entry_row e) rows)"
proof -
  have sub: "set (filter (\<lambda>x. fst x \<noteq> fst (entry_row e)) rows) \<subseteq> set rows" by auto
  have d: "distinct (map fst (row_replace (entry_row e) rows))"
    using List.distinct_map_filter [of fst rows "\<lambda>x. fst x \<noteq> fst (entry_row e)"] assms(2) by (auto simp: rows_hold_def row_replace_def)
  have "set (row_replace (entry_row e) rows) = entry_row ` set (log_between H a (max h (le_t e)))"
  proof -
    have "set (filter (\<lambda>x. fst x \<noteq> fst (entry_row e)) rows) = entry_row ` {f \<in> set H. a < le_t f \<and> le_t f \<le> h \<and> le_t f \<noteq> le_t e}"
      using assms(1-3) by (auto simp: rows_hold_def in_between entry_row_def)
    moreover have "{f \<in> set H. a < le_t f \<and> le_t f \<le> max h (le_t e)} = insert e {f \<in> set H. a < le_t f \<and> le_t f \<le> h \<and> le_t f \<noteq> le_t e}"
    proof -
      have "f = e" if "f \<in> set H" "le_t f = le_t e" for f using same_t [OF assms(1) that(1) assms(6)] that(2) by blast
      moreover have "le_t f \<le> max h (le_t e) \<longleftrightarrow> le_t f \<le> h \<or> le_t f = le_t e" for f using assms(5) by linarith
      ultimately show ?thesis using assms(4,6) by auto
    qed
    moreover have "set (log_between H a (max h (le_t e))) = {f \<in> set H. a < le_t f \<and> le_t f \<le> max h (le_t e)}"
      using in_between [OF assms(1,3)] by auto
    ultimately show ?thesis by (simp add: row_replace_def)
  qed
  with d show ?thesis by (simp add: rows_hold_def)
qed

lemma rows_drop_hold:
  assumes "numbered 0 H" "rows_hold H a h rows" "0 \<le> a" "a \<le> r"
  shows "rows_hold H r (max h r) (rows_drop r rows)"
proof -
  have "set (rows_drop r rows) = entry_row ` set (log_between H r (max h r))"
    using assms by (auto simp: rows_hold_def rows_drop_def in_between entry_row_def)
  then show ?thesis
    using List.distinct_map_filter [of fst rows "\<lambda>x. fst x > r"] assms(2) by (simp add: rows_hold_def rows_drop_def)
qed

lemma replica_okE:
  assumes "replica_ok H s" "numbered 0 H"
  obtains h where "0 \<le> root_t s" "root_t s \<le> basisT s" "basisT s \<le> h" "h \<le> int (length H)"
    "qr_entries s = log_between H (root_t s) (basisT s)" "rows_hold H (root_t s) h (qr_novelty s)"
    "load_root (qr_meta s) = Inr (qr_root s)" "load_name (qr_meta s) = Inr (qr_dbName s)"
proof -
  obtain b h where bh: "0 \<le> root_t s" "root_t s \<le> b" "b \<le> h" "h \<le> int (length H)" "qr_entries s = log_between H (root_t s) b"
      "rows_hold H (root_t s) h (qr_novelty s)" "load_root (qr_meta s) = Inr (qr_root s)" "load_name (qr_meta s) = Inr (qr_dbName s)"
    using assms(1) unfolding replica_ok_def by blast
  have "basisT s = b" unfolding basisT_def bh(5) by (rule last_between [OF assms(2)]) (use bh in linarith)+
  with bh that show ?thesis by blast
qed

lemma replica_okI:
  assumes "numbered 0 H" "0 \<le> root_t s" "root_t s \<le> b" "b \<le> h" "h \<le> int (length H)" "qr_entries s = log_between H (root_t s) b"
    "rows_hold H (root_t s) h (qr_novelty s)" "load_root (qr_meta s) = Inr (qr_root s)"
    "load_name (qr_meta s) = Inr (qr_dbName s)"
  shows "replica_ok H s \<and> basisT s = b"
proof -
  have "basisT s = b" unfolding basisT_def assms(6) by (rule last_between [OF assms(1)]) (use assms in linarith)+
  then show ?thesis using assms unfolding replica_ok_def by blast
qed

lemma basis_bounds: "replica_ok H s \<Longrightarrow> numbered 0 H \<Longrightarrow> 0 \<le> basisT s \<and> basisT s \<le> int (length H) \<and> root_t s \<le> basisT s"
  by (erule replica_okE) (simp, linarith)

text \<open>What a handler never changes, and that the basis does not go back.\<close>

definition follows :: "'b replica \<Rightarrow> 'b replica \<Rightarrow> bool" where
  "follows s s' \<longleftrightarrow> qr_dbName s' = qr_dbName s \<and> basisT s \<le> basisT s' \<and> root_t s \<le> root_t s'"

lemma follows_refl [simp]: "follows s s"
  by (simp add: follows_def)

lemma follows_trans: "follows s s' \<Longrightarrow> follows s' s'' \<Longrightarrow> follows s s''"
  by (auto simp: follows_def)

lemma appendEntry_ok:
  assumes H: "log_ok H" and s: "replica_ok H s" and e: "e \<in> set H" "le_t e = basisT s + 1"
  shows "\<exists>s'. appendEntry e s = (s', None) \<and> replica_ok H s' \<and> follows s s' \<and>
    qr_bucket s' = qr_bucket s \<and> basisT s' = le_t e"
proof -
  have num: "numbered 0 H" and st: "entry_storable e" using H e by (simp_all add: log_ok_def)
  obtain h where h: "0 \<le> root_t s" "root_t s \<le> basisT s" "basisT s \<le> h" "h \<le> int (length H)"
    "qr_entries s = log_between H (root_t s) (basisT s)" "rows_hold H (root_t s) h (qr_novelty s)"
    "load_root (qr_meta s) = Inr (qr_root s)" "load_name (qr_meta s) = Inr (qr_dbName s)" by (rule replica_okE [OF s num])
  have enc: "encodeLogChunk [e] = Inr (log_bytes [e])" using st by (intro encodeLogChunk_bytes) simp_all
  define s' where "s' = s\<lparr>qr_entries := qr_entries s @ [e], qr_novelty := row_replace (entry_row e) (qr_novelty s)\<rparr>"
  have app: "appendEntry e s = (s', None)" by (simp add: appendEntry_def enc s'_def entry_row_def)
  have r: "root_t s' = root_t s" by (simp add: s'_def root_t_def)
  have nth: "nat (basisT s) < length H \<and> H ! nat (basisT s) = e"
    using numbered_nth [OF num e(1), of "nat (basisT s)"] e(2) h by simp
  have "qr_entries s' = log_between H (root_t s') (le_t e)"
  proof -
    have "qr_entries s' = qr_entries s @ [e]" by (simp add: s'_def)
    then show ?thesis unfolding r h(5) using between_snoc [OF h(1,2), of H] nth e(2) by simp
  qed
  moreover have "rows_hold H (root_t s') (max h (le_t e)) (qr_novelty s')"
    using rows_add [OF num h(6,1) _ _ e(1)] e(2) h(2,3) unfolding r by (simp add: s'_def)
  moreover have "le_t e \<le> int (length H)" using numbered_t [OF num e(1)] by simp
  ultimately have "replica_ok H s' \<and> basisT s' = le_t e"
    using h e(2) by (intro replica_okI [OF num, of s' "le_t e" "max h (le_t e)"]) (simp_all add: r, simp_all add: s'_def)
  then show ?thesis using app e(2) r by (simp add: follows_def) (simp add: s'_def)
qed

lemma load_root_set: "load_root (setMeta ''root'' (record_json r) m) = Inr (Some r)"
  using json_parse_string [OF record_plain] by (simp add: load_root_def getMeta_def setMeta_def record_round_trip)

lemma load_name_set: "k \<noteq> ''db'' \<Longrightarrow> load_name (setMeta k v m) = load_name m"
  by (simp add: load_name_def getMeta_def setMeta_def)

lemma adoptRoot_ok:
  assumes H: "log_ok H" and s: "replica_ok H s" and r: "0 \<le> rr_t r" "rr_t r \<le> int (length H)"
  shows "replica_ok H (adoptRoot r s) \<and> follows s (adoptRoot r s) \<and> basisT (adoptRoot r s) = max (basisT s) (rr_t r) \<and>
    qr_bucket (adoptRoot r s) = qr_bucket s \<and> qr_root (adoptRoot r s) \<noteq> None \<and> root_t (adoptRoot r s) = max (root_t s) (rr_t r)"
proof -
  have num: "numbered 0 H" using H by (simp add: log_ok_def)
  obtain h where h: "0 \<le> root_t s" "root_t s \<le> basisT s" "basisT s \<le> h" "h \<le> int (length H)"
    "qr_entries s = log_between H (root_t s) (basisT s)" "rows_hold H (root_t s) h (qr_novelty s)"
    "load_root (qr_meta s) = Inr (qr_root s)" "load_name (qr_meta s) = Inr (qr_dbName s)" by (rule replica_okE [OF s num])
  show ?thesis
  proof (cases "case qr_root s of Some q \<Rightarrow> rr_t r \<le> rr_t q | None \<Rightarrow> False")
    case True
    then have "adoptRoot r s = s" "rr_t r \<le> root_t s" "qr_root s \<noteq> None" by (auto simp: adoptRoot_def root_t_def split: option.splits)
    then show ?thesis using s h(2) by simp
  next
    case False
    then have le: "root_t s \<le> rr_t r" using r(1) by (auto simp: root_t_def split: option.splits)
    define s' where "s' = s\<lparr>qr_root := Some r, qr_meta := setMeta ''root'' (record_json r) (qr_meta s),
      qr_entries := filter (\<lambda>e. le_t e > rr_t r) (qr_entries s), qr_novelty := rows_drop (rr_t r) (qr_novelty s),
      qr_rootFlips := qr_rootFlips s + 1\<rparr>"
    have a: "adoptRoot r s = s'" using False by (simp add: adoptRoot_def s'_def)
    have rt: "root_t s' = rr_t r" by (simp add: s'_def root_t_def)
    let ?b = "max (basisT s) (rr_t r)"
    have "qr_entries s' = log_between H (rr_t r) (basisT s)"
    proof -
      have "qr_entries s' = filter (\<lambda>e. le_t e > rr_t r) (qr_entries s)" by (simp add: s'_def)
      then show ?thesis unfolding h(5) using between_gt [OF num h(1) r(1), of "basisT s"] le by (simp add: max_def)
    qed
    moreover have "log_between H (rr_t r) (basisT s) = log_between H (rr_t r) ?b"
      using between_filter [OF num r(1)] by (auto intro: filter_cong)
    moreover have "rows_hold H (rr_t r) (max h (rr_t r)) (qr_novelty s')"
      using rows_drop_hold [OF num h(6,1) le] by (simp add: s'_def)
    moreover have "load_root (qr_meta s') = Inr (qr_root s')" "load_name (qr_meta s') = Inr (qr_dbName s')"
      using h(8) by (simp_all add: s'_def load_root_set load_name_set)
    ultimately have "replica_ok H s' \<and> basisT s' = ?b"
      using h r by (intro replica_okI [OF num, of s' ?b "max h (rr_t r)"]) (simp_all add: rt)
    then show ?thesis unfolding a using le rt by (simp add: follows_def) (simp add: s'_def)
  qed
qed

lemma apply_next_ok:
  assumes "log_ok H" "replica_ok H s" "set es \<subseteq> set H"
  shows "\<exists>s'. apply_next es s = (s', None) \<and> replica_ok H s' \<and> follows s s' \<and> qr_bucket s' = qr_bucket s \<and>
    (\<forall>c. numbered c es \<longrightarrow> c \<le> basisT s \<longrightarrow> c + int (length es) \<le> basisT s')"
  using assms(2,3)
proof (induction es arbitrary: s)
  case (Cons e es)
  show ?case
  proof (cases "le_t e = basisT s + 1")
    case True
    obtain s1 where s1: "appendEntry e s = (s1, None)" "replica_ok H s1" "follows s s1" "qr_bucket s1 = qr_bucket s" "basisT s1 = le_t e"
      using appendEntry_ok [OF assms(1) Cons.prems(1) _ True] Cons.prems(2) by auto
    obtain s2 where s2: "apply_next es s1 = (s2, None)" "replica_ok H s2" "follows s1 s2" "qr_bucket s2 = qr_bucket s1"
        "\<forall>c. numbered c es \<longrightarrow> c \<le> basisT s1 \<longrightarrow> c + int (length es) \<le> basisT s2"
      using Cons.IH [OF s1(2)] Cons.prems(2) by auto
    have "c + int (length (e # es)) \<le> basisT s2" if "numbered c (e # es)" "c \<le> basisT s" for c
      using s2(5) [rule_format, of "c + 1"] that s1(5) True by simp
    then show ?thesis using True s1 s2 follows_trans [OF s1(3) s2(3)] by simp
  next
    case False
    obtain s2 where s2: "apply_next es s = (s2, None)" "replica_ok H s2" "follows s s2" "qr_bucket s2 = qr_bucket s"
        "\<forall>c. numbered c es \<longrightarrow> c \<le> basisT s \<longrightarrow> c + int (length es) \<le> basisT s2"
      using Cons.IH [OF Cons.prems(1)] Cons.prems(2) by auto
    have "c + int (length (e # es)) \<le> basisT s2" if "numbered c (e # es)" "c \<le> basisT s" for c
      using s2(5) [rule_format, of "c + 1"] that False by simp
    then show ?thesis using False s2 by simp
  qed
qed simp

lemma apply_frames_next:
  fixes s :: "'b replica"
  shows "rmaplist entryFromFrame fs = Inr es \<Longrightarrow> apply_frames fs s = apply_next es s"
proof (induction fs arbitrary: es s)
  case (Cons f fs)
  then obtain e es' where e: "entryFromFrame f = Inr e" "rmaplist entryFromFrame fs = Inr es'" "es = e # es'" by (auto simp: res_simps)
  have IH: "apply_frames fs s' = apply_next es' s'" for s' :: "'b replica" by (rule Cons.IH [OF e(2)])
  show ?case unfolding e(3) apply_frames.simps e(1) sum.case apply_next.simps IH by simp
qed simp

section \<open>Faithful messages\<close>

text \<open>
  Frames that the writer made from its log, its answers to requests for a part of it, and
  what it stored: chunks of a first part of the log and a current root.
\<close>

definition frame_ok :: "log_entry list \<Rightarrow> wire_frame \<Rightarrow> bool" where
  "frame_ok H f \<longleftrightarrow>
     (case f of
        HelloFrame t r \<Rightarrow> 0 \<le> rr_t r \<and> rr_t r \<le> int (length H)
      | RootFrame r \<Rightarrow> 0 \<le> rr_t r \<and> rr_t r \<le> int (length H)
      | GapFrame from \<Rightarrow> True
      | TxFrame f \<Rightarrow> (\<exists>e\<in>set H. entryFromFrame f = Inr e))"

text \<open>The writer answers with at most this many entries.\<close>

definition LOG_ANSWER_LIMIT :: nat where
  "LOG_ANSWER_LIMIT = 10000"

definition answers_ok :: "log_entry list \<Rightarrow> 'b replica_net \<Rightarrow> bool" where
  "answers_ok H net \<longleftrightarrow>
     (\<forall>from to e0 fs. rn_log net from to = Inr (Some (e0, fs)) \<longrightarrow>
        (\<exists>es. rmaplist entryFromFrame fs = Inr es \<and> set es \<subseteq> set H \<and>
           (e0 \<noteq> 0 \<and> e0 \<le> from + 1 \<and> 0 \<le> from \<and> from \<le> to \<and> to \<le> int (length H) \<longrightarrow>
              es = take LOG_ANSWER_LIMIT (log_between H from to))))"

definition stored_log :: "(bytes \<Rightarrow> bytes) \<Rightarrow> 'b replica_net \<Rightarrow> log_entry list \<Rightarrow> (string \<rightharpoonup> bytes) \<Rightarrow> nat \<Rightarrow> bool" where
  "stored_log compress net H m w \<longleftrightarrow>
     (\<forall>raw. rn_decompress net (compress raw) = Inr raw) \<and>
     (\<exists>css. holds_log compress m css \<and> concat css = take w H \<and> length css < 1000 * rn_pages net) \<and>
     (m ROOT_CURRENT_KEY = None \<or>
        (\<exists>r. m ROOT_CURRENT_KEY = Some (record_bytes r) \<and> 0 \<le> rr_t r \<and> rr_t r \<le> int (length H)))"

context r2_bucket begin

lemma readLogChunk_keeps: "ok b \<Longrightarrow> readLogChunk d bk b k = (g, b') \<Longrightarrow> ok b' \<and> objs b' = objs b"
  using get_body [of b k] by (cases "bk_get bk b k") (auto simp: readLogChunk_def split: option.splits)

lemma read_chunks_keeps: "ok b \<Longrightarrow> read_chunks d bk sinceT untilT cs b = (g, b') \<Longrightarrow> ok b' \<and> objs b' = objs b"
proof (induction cs arbitrary: b g)
  case (Cons c cs)
  obtain r b1 where r: "readLogChunk d bk b (lc_key c) = (r, b1)" by fastforce
  obtain r2 b2 where r2: "read_chunks d bk sinceT untilT cs b1 = (r2, b2)" by fastforce
  show ?case
    using Cons.prems r r2 Cons.IH [of b1 r2] readLogChunk_keeps [OF _ r] by (cases r) (auto split: if_splits)
qed simp

lemma readLogSince_keeps: "ok b \<Longrightarrow> readLogSince n d bk b sinceT untilT = (g, b') \<Longrightarrow> ok b' \<and> objs b' = objs b"
  using read_chunks_keeps [of b d sinceT untilT] by (auto simp: readLogSince_def split: sum.splits)

lemma ensure_root_ok:
  assumes H: "log_ok H" and s: "replica_ok H s" and b: "ok (qr_bucket s)" "stored_log compress net H (objs (qr_bucket s)) w"
    and net: "rn_bucket net = bk"
  shows "\<exists>s'. ensure_root net s = (s', None) \<and> replica_ok H s' \<and> follows s s' \<and> ok (qr_bucket s') \<and> objs (qr_bucket s') = objs (qr_bucket s)"
proof (cases "qr_root s")
  case (Some r)
  then show ?thesis using s b by (simp add: ensure_root_def)
next
  case None
  obtain g b' where g: "readCurrentRoot bk (qr_bucket s) = (g, b')" by fastforce
  note spec = read_record_spec [OF b(1) g [unfolded readCurrentRoot_def]]
  let ?s = "s\<lparr>qr_bucket := b'\<rparr>"
  have same: "root_t ?s = root_t s" "basisT ?s = basisT s" by (simp_all add: root_t_def basisT_def)
  have s1: "replica_ok H ?s" "follows s ?s" using s same unfolding replica_ok_def follows_def same by simp_all
  have cur: "objs (qr_bucket s) ROOT_CURRENT_KEY = None \<or>
      (\<exists>r. objs (qr_bucket s) ROOT_CURRENT_KEY = Some (record_bytes r) \<and> 0 \<le> rr_t r \<and> rr_t r \<le> int (length H))"
    using b(2) by (simp only: stored_log_def)
  then consider "objs (qr_bucket s) ROOT_CURRENT_KEY = None"
    | r where "objs (qr_bucket s) ROOT_CURRENT_KEY = Some (record_bytes r)" "0 \<le> rr_t r" "rr_t r \<le> int (length H)"
    by (elim disjE exE conjE)
  then show ?thesis
  proof cases
    case 1
    then have "ensure_root net s = (?s, None)" using None g spec by (simp add: ensure_root_def net)
    then show ?thesis using s1 spec by simp
  next
    case (2 r)
    then have "g = Inr (Some r)" using spec by blast
    then have "ensure_root net s = (adoptRoot r ?s, None)" using None g by (simp add: ensure_root_def net)
    then show ?thesis using adoptRoot_ok [OF H s1(1) 2(2,3)] follows_trans [OF s1(2)] spec by simp
  qed
qed

lemma catchUpFromR2_ok:
  assumes H: "log_ok H" and s: "replica_ok H s" and b: "ok (qr_bucket s)" "stored_log compress net H (objs (qr_bucket s)) w"
    and net: "rn_bucket net = bk"
  shows "\<exists>s'. catchUpFromR2 net from to s = (s', None) \<and> replica_ok H s' \<and> follows s s' \<and> ok (qr_bucket s') \<and>
    objs (qr_bucket s') = objs (qr_bucket s) \<and> (from \<le> basisT s \<longrightarrow> min (int (min w (length H))) to \<le> basisT s')"
proof -
  have num: "numbered 0 H" using H by (simp add: log_ok_def)
  obtain s1 where s1: "ensure_root net s = (s1, None)" "replica_ok H s1" "follows s s1" "ok (qr_bucket s1)"
      "objs (qr_bucket s1) = objs (qr_bucket s)"
    using ensure_root_ok [OF H s b net] by blast
  let ?f = "max from (basisT s1)" and ?W = "take w H"
  obtain css where css: "holds_log compress (objs (qr_bucket s1)) css" "concat css = ?W" "length css < 1000 * rn_pages net"
    and dec: "\<forall>raw. rn_decompress net (compress raw) = Inr raw"
    using b(2) s1(5) by (auto simp: stored_log_def)
  let ?es = "filter (\<lambda>e. le_t e > ?f \<and> upto_t (Some to) (le_t e)) ?W"
  obtain g b' where g: "readLogSince (rn_pages net) (rn_decompress net) bk (qr_bucket s1) ?f (Some to) = (g, b')" by fastforce
  have "g = Inr ?es" using readLogSince_holds [OF s1(4) css(1) dec css(3), of ?f "Some to"] g css(2) by simp
  moreover have b': "ok b' \<and> objs b' = objs (qr_bucket s1)" by (rule readLogSince_keeps [OF s1(4) g])
  ultimately have c: "catchUpFromR2 net from to s = apply_next ?es (s1\<lparr>qr_bucket := b'\<rparr>)"
    using s1(1) g by (simp add: catchUpFromR2_def net)
  let ?s = "s1\<lparr>qr_bucket := b'\<rparr>"
  have same: "root_t ?s = root_t s1" "basisT ?s = basisT s1" by (simp_all add: root_t_def basisT_def)
  have s2: "replica_ok H ?s" "follows s1 ?s" using s1(2) unfolding replica_ok_def follows_def same by simp_all
  have sub: "set ?es \<subseteq> set H" using set_take_subset [of w H] by auto
  obtain s3 where s3: "apply_next ?es ?s = (s3, None)" "replica_ok H s3" "follows ?s s3" "qr_bucket s3 = qr_bucket ?s"
      "\<forall>c. numbered c ?es \<longrightarrow> c \<le> basisT ?s \<longrightarrow> c + int (length ?es) \<le> basisT s3"
    using apply_next_ok [OF H s2(1) sub] by blast
  have "min (int (min w (length H))) to \<le> basisT s3" if "from \<le> basisT s"
  proof -
    have f: "?f = basisT s1" using that s1(3) by (simp add: follows_def)
    have nn: "0 \<le> basisT s1" using basis_bounds [OF s1(2) num] by simp
    have W: "numbered 0 ?W" by (rule numbered_take [OF num])
    have "?es = filter (\<lambda>e. basisT s1 < le_t e \<and> le_t e \<le> to) ?W" by (simp add: f upto_t_def)
    then have es: "?es = log_between ?W (basisT s1) to" using between_filter [OF W nn] by simp
    have n: "numbered (basisT s1) ?es" unfolding es by (rule numbered_between [OF W nn])
    have le: "basisT s1 + int (length ?es) \<le> basisT s3" using s3(5) n by (simp add: basisT_def root_t_def)
    have "int (length (log_between ?W (basisT s1) to)) = int (min (nat to) (min w (length H)) - nat (basisT s1))"
      by (simp add: log_between_def ac_simps)
    then show ?thesis using le nn unfolding es by linarith
  qed
  moreover have "follows s s3" using s1(3) s2(2) s3(3) follows_trans by blast
  ultimately show ?thesis using c s3(1,2,4) b' s1(5) by auto
qed

end

text \<open>The part of the log a gap needs can be had: from the writer, or from object storage.\<close>

definition served :: "'b replica_net \<Rightarrow> nat \<Rightarrow> int \<Rightarrow> int \<Rightarrow> bool" where
  "served net w from to \<longleftrightarrow>
     (case rn_log net from to of
        Inl err \<Rightarrow> False
      | Inr None \<Rightarrow> to \<le> int w
      | Inr (Some (e0, fs)) \<Rightarrow> if e0 \<noteq> 0 \<and> e0 \<le> from + 1 then to - from \<le> int LOG_ANSWER_LIMIT else to \<le> int w)"

text \<open>A handler's outcome: the invariant holds and nothing is lost, whether it ended with an error or not.\<close>

definition progress :: "('b \<Rightarrow> (string \<rightharpoonup> bytes)) \<Rightarrow> ('b \<Rightarrow> bool) \<Rightarrow> log_entry list \<Rightarrow> 'b replica \<Rightarrow> 'b replica \<Rightarrow> bool" where
  "progress objs ok H s s' \<longleftrightarrow>
     replica_ok H s' \<and> follows s s' \<and> ok (qr_bucket s') \<and> objs (qr_bucket s') = objs (qr_bucket s)"

lemma progress_refl: "replica_ok H s \<Longrightarrow> ok (qr_bucket s) \<Longrightarrow> progress objs ok H s s"
  by (simp add: progress_def)

lemma progress_trans: "progress objs ok H s s' \<Longrightarrow> progress objs ok H s' s'' \<Longrightarrow> progress objs ok H s s''"
  using follows_trans by (fastforce simp: progress_def)

lemma progress_same:
  assumes "replica_ok H s" "ok (qr_bucket s)" "qr_bucket s' = qr_bucket s" "qr_dbName s' = qr_dbName s" "qr_root s' = qr_root s"
    "qr_entries s' = qr_entries s" "qr_meta s' = qr_meta s" "qr_novelty s' = qr_novelty s"
  shows "progress objs ok H s s' \<and> basisT s' = basisT s"
proof -
  have r: "root_t s' = root_t s" "basisT s' = basisT s" by (simp_all add: root_t_def basisT_def assms)
  show ?thesis using assms(1,2) unfolding progress_def follows_def replica_ok_def r assms(3-8) by simp
qed

context r2_bucket begin

lemma fillGap_ok:
  assumes H: "log_ok H" and s: "replica_ok H s" and b: "ok (qr_bucket s)" "stored_log compress net H (objs (qr_bucket s)) w"
    and net: "rn_bucket net = bk" "answers_ok H net"
  shows "\<exists>s' err. fillGap net from to s = (s', err) \<and> progress objs ok H s s' \<and>
    (qr_dbName s \<noteq> None \<longrightarrow> served net w from to \<longrightarrow> from = basisT s \<longrightarrow> from \<le> to \<longrightarrow> to \<le> int (length H) \<longrightarrow>
       err = None \<and> to \<le> basisT s')"
proof (cases "qr_dbName s = None \<or> (\<exists>err. rn_log net from to = Inl err)")
  case True
  then have "\<exists>err. fillGap net from to s = (s, err) \<and> \<not> (qr_dbName s \<noteq> None \<and> served net w from to)"
    by (cases "qr_dbName s = None") (auto simp: fillGap_def served_def)
  then obtain err where "fillGap net from to s = (s, err)" "\<not> (qr_dbName s \<noteq> None \<and> served net w from to)" by blast
  then show ?thesis using progress_refl [where ok = ok and objs = objs, OF s b(1)] by blast
next
  case False
  then obtain answer where a: "rn_log net from to = Inr answer" "qr_dbName s \<noteq> None" by (cases "rn_log net from to") auto
  have num: "numbered 0 H" using H by (simp add: log_ok_def)
  have nn: "0 \<le> basisT s" using basis_bounds [OF s num] by simp
  have r2: ?thesis if f: "fillGap net from to s = catchUpFromR2 net from to s" and w: "served net w from to \<longrightarrow> to \<le> int w"
  proof -
    obtain s' where s': "catchUpFromR2 net from to s = (s', None)" "replica_ok H s'" "follows s s'" "ok (qr_bucket s')"
        "objs (qr_bucket s') = objs (qr_bucket s)" "from \<le> basisT s \<longrightarrow> min (int (min w (length H))) to \<le> basisT s'"
      using catchUpFromR2_ok [OF H s b net(1)] by blast
    have "to \<le> basisT s'" if "served net w from to" "from = basisT s" "to \<le> int (length H)"
      using s'(6) w that by auto
    then show ?thesis using s' f by (auto simp: progress_def)
  qed
  show ?thesis
  proof (cases "\<exists>e0 fs. answer = Some (e0, fs) \<and> e0 \<noteq> 0 \<and> e0 \<le> from + 1")
    case True
    then obtain e0 fs where e0: "answer = Some (e0, fs)" "e0 \<noteq> 0" "e0 \<le> from + 1" by blast
    then obtain es where es: "rmaplist entryFromFrame fs = Inr es" "set es \<subseteq> set H"
      "0 \<le> from \<and> from \<le> to \<and> to \<le> int (length H) \<longrightarrow> es = take LOG_ANSWER_LIMIT (log_between H from to)"
      using net(2) a(1) unfolding answers_ok_def by blast
    have f: "fillGap net from to s = apply_next es s" using a e0 apply_frames_next [OF es(1), of s] by (auto simp: fillGap_def)
    obtain s' where s': "apply_next es s = (s', None)" "replica_ok H s'" "follows s s'" "qr_bucket s' = qr_bucket s"
        "\<forall>c. numbered c es \<longrightarrow> c \<le> basisT s \<longrightarrow> c + int (length es) \<le> basisT s'"
      using apply_next_ok [OF H s es(2)] by blast
    have "to \<le> basisT s'" if t: "served net w from to" "from = basisT s" "from \<le> to" "to \<le> int (length H)"
    proof -
      have len: "int (length (log_between H from to)) = to - from" using length_log_between t nn by simp
      have "to - from \<le> int LOG_ANSWER_LIMIT" using t(1) a(1) e0 by (simp add: served_def)
      then have "es = log_between H from to" using es(3) t nn len by simp
      then have "numbered from es" "int (length es) = to - from" using numbered_between [OF num] len t nn by simp_all
      then show ?thesis using s'(5) t(2) by fastforce
    qed
    then show ?thesis using f s' b(1) by (auto simp: progress_def)
  next
    case False
    then have "fillGap net from to s = catchUpFromR2 net from to s"
      using a by (auto simp: fillGap_def split: option.splits)
    moreover have "served net w from to \<longrightarrow> to \<le> int w" using a(1) False by (auto simp: served_def split: option.splits)
    ultimately show ?thesis by (rule r2)
  qed
qed

lemma handle_tx_ok:
  assumes H: "log_ok H" and s: "replica_ok H s" and b: "ok (qr_bucket s)" "stored_log compress net H (objs (qr_bucket s)) w"
    and net: "rn_bucket net = bk" "answers_ok H net" and e: "e \<in> set H"
  shows "\<exists>s' err. handle_tx net e s = (s', err) \<and> progress objs ok H s s' \<and>
    (qr_dbName s \<noteq> None \<longrightarrow> served net w (basisT s) (le_t e - 1) \<longrightarrow> err = None \<and> le_t e \<le> basisT s')"
proof -
  have num: "numbered 0 H" using H by (simp add: log_ok_def)
  have le: "le_t e \<le> int (length H)" using numbered_t [OF num e] by simp
  let ?apply = "\<lambda>s. if (case qr_root s of None \<Rightarrow> True | Some r \<Rightarrow> le_t e > rr_t r) then appendEntry e s else (s, None)"
  have app: "\<exists>s2. ?apply s1 = (s2, None) \<and> progress objs ok H s s2 \<and> le_t e \<le> basisT s2"
    if p: "progress objs ok H s s1" and n: "le_t e = basisT s1 + 1" for s1
  proof -
    have ok1: "replica_ok H s1" "ok (qr_bucket s1)" using p by (simp_all add: progress_def)
    have "root_t s1 \<le> basisT s1" using basis_bounds [OF ok1(1) num] by simp
    then have "?apply s1 = appendEntry e s1" using n by (auto simp: root_t_def split: option.splits)
    moreover obtain s2 where s2: "appendEntry e s1 = (s2, None)" "replica_ok H s2" "follows s1 s2" "qr_bucket s2 = qr_bucket s1"
        "basisT s2 = le_t e"
      using appendEntry_ok [OF H ok1(1) e n] by blast
    moreover have "progress objs ok H s1 s2" using s2 ok1(2) by (simp add: progress_def)
    ultimately show ?thesis using progress_trans [OF p] by auto
  qed
  consider "le_t e < basisT s + 1" | "le_t e = basisT s + 1" | "le_t e > basisT s + 1" by linarith
  then show ?thesis
  proof cases
    case 1
    then show ?thesis using progress_refl [where ok = ok and objs = objs, OF s b(1)] by (simp add: handle_tx_def)
  next
    case 2
    then have "handle_tx net e s = ?apply s" by (simp add: handle_tx_def)
    then show ?thesis using app [OF progress_refl [where ok = ok and objs = objs, OF s b(1)] 2] by auto
  next
    case 3
    let ?s = "s\<lparr>qr_gaps := qr_gaps s + 1\<rparr>"
    have p0: "progress objs ok H s ?s" "basisT ?s = basisT s" using progress_same [where ok = ok and objs = objs, OF s b(1), of ?s] by simp_all
    then have s0: "replica_ok H ?s" "ok (qr_bucket ?s)" "objs (qr_bucket ?s) = objs (qr_bucket s)" "qr_dbName ?s = qr_dbName s"
      by (simp_all add: progress_def follows_def)
    obtain s1 err where f: "fillGap net (basisT s) (le_t e - 1) ?s = (s1, err)" "progress objs ok H ?s s1"
        "qr_dbName s \<noteq> None \<longrightarrow> served net w (basisT s) (le_t e - 1) \<longrightarrow> err = None \<and> le_t e - 1 \<le> basisT s1"
      using fillGap_ok [OF H s0(1,2) b(2) [folded s0(3)] net, of "basisT s" "le_t e - 1"] p0(2) s0(4) 3 le by auto
    have p1: "progress objs ok H s s1" by (rule progress_trans [OF p0(1) f(2)])
    have h: "handle_tx net e s = (case (s1, err) of (s1, Some err) \<Rightarrow> (s1, Some err)
        | (s1, None) \<Rightarrow> if le_t e \<noteq> basisT s1 + 1 then (s1, None) else ?apply s1)"
    proof -
      have c: "\<not> le_t e < basisT s + 1" using 3 by simp
      show ?thesis by (simp only: handle_tx_def Let_def c 3 if_False if_True f(1))
    qed
    show ?thesis
    proof (cases "err = None \<and> le_t e = basisT s1 + 1")
      case True
      then show ?thesis using h app [OF p1] by auto
    next
      case False
      then have r: "handle_tx net e s = (s1, err)" using h by (auto split: option.splits)
      have "err = None \<and> le_t e \<le> basisT s1" if "qr_dbName s \<noteq> None" "served net w (basisT s) (le_t e - 1)"
        using f(3) that False by auto
      then show ?thesis using r p1 by blast
    qed
  qed
qed

lemma handleFrame_ok:
  assumes H: "log_ok H" and s: "replica_ok H s" and b: "ok (qr_bucket s)" "stored_log compress net H (objs (qr_bucket s)) w"
    and net: "rn_bucket net = bk" "answers_ok H net" and f: "frame_ok H f"
  shows "\<exists>s' err. handleFrame net f s = (s', err) \<and> progress objs ok H s s' \<and>
    (\<forall>fr e. f = TxFrame fr \<longrightarrow> entryFromFrame fr = Inr e \<longrightarrow> qr_dbName s \<noteq> None \<longrightarrow> served net w (basisT s) (le_t e - 1) \<longrightarrow>
       err = None \<and> le_t e \<le> basisT s')"
proof -
  let ?s = "s\<lparr>qr_frames := qr_frames s + 1\<rparr>"
  have p0: "progress objs ok H s ?s" "basisT ?s = basisT s" using progress_same [where ok = ok and objs = objs, OF s b(1), of ?s] by simp_all
  then have s0: "replica_ok H ?s" "ok (qr_bucket ?s)" "objs (qr_bucket ?s) = objs (qr_bucket s)" by (simp_all add: progress_def)
  have adopt: "progress objs ok H s (adoptRoot r ?s)" if "0 \<le> rr_t r \<and> rr_t r \<le> int (length H)" for r
  proof -
    have "replica_ok H (adoptRoot r ?s) \<and> follows ?s (adoptRoot r ?s) \<and> qr_bucket (adoptRoot r ?s) = qr_bucket ?s"
      using adoptRoot_ok [OF H s0(1), of r] that by blast
    then have "progress objs ok H ?s (adoptRoot r ?s)" using b(1) unfolding progress_def by simp
    then show ?thesis by (rule progress_trans [OF p0(1)])
  qed
  show ?thesis
  proof (cases f)
    case (HelloFrame t r)
    then have "progress objs ok H s (adoptRoot r ?s)" using adopt [of r] f by (simp add: frame_ok_def)
    then show ?thesis using HelloFrame p0(1) by (auto simp: handleFrame_def Let_def)
  next
    case (RootFrame r)
    then show ?thesis using adopt [of r] f by (simp add: handleFrame_def frame_ok_def)
  next
    case (GapFrame k)
    let ?g = "s\<lparr>qr_frames := qr_frames s + 1, qr_gaps := qr_gaps s + 1\<rparr>"
    have p1: "progress objs ok H s ?g" using progress_same [where ok = ok and objs = objs, OF s b(1), of ?g] by simp
    then have s1: "replica_ok H ?g" by (simp add: progress_def)
    obtain s' where "catchUpFromR2 net k MAX_SAFE_INTEGER ?g = (s', None)" "replica_ok H s'" "follows ?g s'" "ok (qr_bucket s')"
        "objs (qr_bucket s') = objs (qr_bucket ?g)"
      using catchUpFromR2_ok [OF H s1 _ _ net(1), of compress w k MAX_SAFE_INTEGER] b by auto
    then show ?thesis using GapFrame progress_trans [OF p1] by (auto simp: handleFrame_def progress_def)
  next
    case (TxFrame fr)
    then obtain e where e: "e \<in> set H" "entryFromFrame fr = Inr e" using f by (auto simp: frame_ok_def)
    obtain s' err where s': "handle_tx net e ?s = (s', err)" "progress objs ok H ?s s'"
        "qr_dbName ?s \<noteq> None \<longrightarrow> served net w (basisT ?s) (le_t e - 1) \<longrightarrow> err = None \<and> le_t e \<le> basisT s'"
      using handle_tx_ok [OF H s0(1,2) b(2) [folded s0(3)] net e(1)] by blast
    then show ?thesis using TxFrame e(2) p0(2) progress_trans [OF p0(1) s'(2)] by (auto simp: handleFrame_def)
  qed
qed

end

section \<open>A restart reads back what was known\<close>

lemma between_sorted: "numbered c es \<Longrightarrow> strictly_sorted (\<lambda>x y. by_number (fst x) (fst y)) (map entry_row es)"
proof (induction es arbitrary: c)
  case (Cons e es)
  have "le_t e < le_t f" if "f \<in> set es" for f using numbered_t [of "c + 1" es f] Cons.prems that by simp
  then show ?case using Cons.IH [of "c + 1"] Cons.prems by (auto simp: strictly_sorted_def by_number_def entry_row_def)
qed (simp add: strictly_sorted_def)

lemma rows_after_hold:
  assumes "numbered 0 H" "rows_hold H a h rows" "0 \<le> a"
  shows "rows_after a rows = map entry_row (log_between H a h)"
proof -
  have "a < fst x" if "x \<in> set rows" for x
    using that assms by (auto simp: rows_hold_def in_between entry_row_def)
  then have "filter (\<lambda>x. fst x > a) rows = rows" by (intro filter_True) blast
  moreover have "js_sort (\<lambda>x y. by_number (fst x) (fst y)) rows = map entry_row (log_between H a h)"
  proof (rule js_sort_unique [where ok = "\<lambda>_. True"])
    show "cmp_order (\<lambda>x y :: novelty_row. by_number (fst x) (fst y)) (\<lambda>_. True)"
      by (rule cmp_order_pullback [OF numbers.cmp_order_axioms]) simp
    show "strictly_sorted (\<lambda>x y. by_number (fst x) (fst y)) (map entry_row (log_between H a h))"
      by (rule between_sorted [OF numbered_between [OF assms(1,3)]])
    show "distinct rows" using assms(2) by (auto simp: rows_hold_def distinct_map)
  qed (use assms(2) in \<open>simp_all add: rows_hold_def\<close>)
  ultimately show ?thesis by (simp add: rows_after_def)
qed

lemma first_entry_bytes: "entry_storable e \<Longrightarrow> first_entry (log_bytes [e]) = Inr e"
  using decodeLogChunk_bytes [of "[e]" "[]"] by (simp add: first_entry_def)

lemma rmaplist_rows:
  "\<forall>e\<in>set es. entry_storable e \<Longrightarrow> rmaplist (\<lambda>x. first_entry (snd (snd x))) (map entry_row es) = Inr es"
  by (induction es) (auto simp: entry_row_def first_entry_bytes)

lemma replica_boot_ok:
  assumes H: "log_ok H" and s: "replica_ok H s"
  shows "\<exists>s'. replica_boot b (qr_meta s) (qr_novelty s) = Inr s' \<and> replica_ok H s' \<and> qr_bucket s' = b \<and> qr_root s' = qr_root s \<and>
    qr_dbName s' = qr_dbName s \<and> (qr_root s \<noteq> None \<longrightarrow> basisT s \<le> basisT s')"
proof -
  have num: "numbered 0 H" using H by (simp add: log_ok_def)
  obtain h where h: "0 \<le> root_t s" "root_t s \<le> basisT s" "basisT s \<le> h" "h \<le> int (length H)"
    "qr_entries s = log_between H (root_t s) (basisT s)" "rows_hold H (root_t s) h (qr_novelty s)"
    "load_root (qr_meta s) = Inr (qr_root s)" "load_name (qr_meta s) = Inr (qr_dbName s)" by (rule replica_okE [OF s num])
  define es where "es = (if qr_root s = None then [] else log_between H (root_t s) h)"
  define s' where "s' = \<lparr>qr_bucket = b, qr_dbName = qr_dbName s, qr_root = qr_root s, qr_entries = es, qr_meta = qr_meta s,
    qr_novelty = qr_novelty s, qr_frames = 0, qr_gaps = 0, qr_rootFlips = 0\<rparr>"
  have st: "\<forall>e\<in>set (log_between H (root_t s) h). entry_storable e"
    using set_log_between [of H "root_t s" h] H by (auto simp: log_ok_def)
  have dec: "rmaplist (\<lambda>x. first_entry (snd (snd x))) (map entry_row (log_between H (root_t s) h)) = Inr (log_between H (root_t s) h)"
    by (rule rmaplist_rows [OF st])
  have "replica_boot b (qr_meta s) (qr_novelty s) = Inr s'"
  proof (cases "qr_root s")
    case None
    then show ?thesis by (simp add: replica_boot_def h(7,8) s'_def es_def)
  next
    case (Some r)
    then have "rr_t r = root_t s" by (simp add: root_t_def)
    then have "rmaplist (\<lambda>x. first_entry (snd (snd x))) (rows_after (rr_t r) (qr_novelty s)) = Inr es"
      using rows_after_hold [OF num h(6,1)] dec Some by (simp add: es_def)
    then show ?thesis by (simp add: replica_boot_def h(7,8) s'_def Some)
  qed
  moreover have rt: "root_t s' = root_t s" by (simp add: s'_def root_t_def)
  have "replica_ok H s' \<and> basisT s' = (if qr_root s = None then root_t s else h)"
  proof (rule replica_okI [OF num, of s' _ h])
    have "es = log_between H (root_t s) (if qr_root s = None then root_t s else h)" by (simp add: es_def log_between_def)
    then show "qr_entries s' = log_between H (root_t s') (if qr_root s = None then root_t s else h)" unfolding rt by (simp add: s'_def)
    show "rows_hold H (root_t s') h (qr_novelty s')" unfolding rt using h(6) by (simp add: s'_def)
    show "load_root (qr_meta s') = Inr (qr_root s')" "load_name (qr_meta s') = Inr (qr_dbName s')"
      using h(7,8) by (simp_all add: s'_def)
  qed (use h in \<open>simp_all add: rt\<close>)
  ultimately show ?thesis using h(3) by (intro exI [of _ s']) (auto simp: s'_def)
qed

section \<open>Runs\<close>

text \<open>
  What happens to a writer's log and a replica of it: the log grows, the writer publishes to
  the bucket, the replica is given its database, handles a frame, or restarts.
\<close>

definition assign_db :: "string \<Rightarrow> 'b replica \<Rightarrow> 'b replica" where
  "assign_db name s =
     (if qr_dbName s = None then s\<lparr>qr_dbName := Some name, qr_meta := setMeta ''db'' (JStr (js name)) (qr_meta s)\<rparr> else s)"

inductive replica_step ::
  "(log_entry list \<Rightarrow> 'b replica_net \<Rightarrow> 'b \<Rightarrow> bool) \<Rightarrow> log_entry list \<times> 'b replica \<Rightarrow> log_entry list \<times> 'b replica \<Rightarrow> bool"
  for reach where
  grow: "log_ok (H @ [e]) \<Longrightarrow> replica_step reach (H, s) (H @ [e], s)"
| publish: "replica_step reach (H, s) (H, s\<lparr>qr_bucket := b\<rparr>)"
| assign: "replica_step reach (H, s) (H, assign_db name s)"
| frame: "reach H net (qr_bucket s) \<Longrightarrow> frame_ok H f \<Longrightarrow> replica_step reach (H, s) (H, fst (handleFrame net f s))"
| restart: "replica_boot b (qr_meta s) (qr_novelty s) = Inr s' \<Longrightarrow> replica_step reach (H, s) (H, s')"

inductive_cases replica_stepE: "replica_step reach x y"

lemma log_ok_prefix: "log_ok (H @ G) \<Longrightarrow> log_ok H"
  by (simp add: log_ok_def)

lemma replica_ok_grow: "replica_ok H s \<Longrightarrow> replica_ok (H @ [e]) s"
proof -
  assume "replica_ok H s"
  then obtain b h where bh: "0 \<le> root_t s" "root_t s \<le> b" "b \<le> h" "h \<le> int (length H)" "qr_entries s = log_between H (root_t s) b"
      "rows_hold H (root_t s) h (qr_novelty s)" "load_root (qr_meta s) = Inr (qr_root s)" "load_name (qr_meta s) = Inr (qr_dbName s)"
    unfolding replica_ok_def by blast
  have "log_between (H @ [e]) (root_t s) c = log_between H (root_t s) c" if "c \<le> int (length H)" for c
    using that by (simp add: log_between_def nat_le_iff)
  then have "qr_entries s = log_between (H @ [e]) (root_t s) b" "rows_hold (H @ [e]) (root_t s) h (qr_novelty s)"
    using bh(3-6) by (simp_all add: rows_hold_def)
  then show ?thesis unfolding replica_ok_def using bh(1-4,7,8) by fastforce
qed

lemma load_name_assign: "load_name (setMeta ''db'' (JStr (js name)) m) = Inr (Some name)"
  using json_parse_string [of "JStr (js name)"] by (simp add: load_name_def getMeta_def setMeta_def js_hash_back)

lemma assign_db_ok: "replica_ok H s \<Longrightarrow> replica_ok H (assign_db name s)"
proof (cases "qr_dbName s = None")
  case True
  let ?s = "s\<lparr>qr_dbName := Some name, qr_meta := setMeta ''db'' (JStr (js name)) (qr_meta s)\<rparr>"
  assume "replica_ok H s"
  moreover have r: "root_t ?s = root_t s" by (simp add: root_t_def)
  moreover have "load_root (qr_meta ?s) = load_root (qr_meta s)" by (simp add: load_root_def getMeta_def setMeta_def)
  ultimately have "replica_ok H ?s" unfolding replica_ok_def r by (simp add: load_name_assign)
  then show ?thesis using True by (simp add: assign_db_def)
qed (auto simp: assign_db_def)

lemma bucket_replica_ok: "replica_ok H s \<Longrightarrow> replica_ok H (s\<lparr>qr_bucket := b\<rparr>)"
  by (simp add: replica_ok_def root_t_def)

text \<open>The net and the bucket a replica of a correct writer sees.\<close>

definition honest ::
  "'b r2like \<Rightarrow> ('b \<Rightarrow> (string \<rightharpoonup> bytes)) \<Rightarrow> ('b \<Rightarrow> bool) \<Rightarrow> (bytes \<Rightarrow> bytes) \<Rightarrow> log_entry list \<Rightarrow> 'b replica_net \<Rightarrow> 'b \<Rightarrow> bool" where
  "honest bk objs ok compress H net b \<longleftrightarrow>
     rn_bucket net = bk \<and> answers_ok H net \<and> ok b \<and> (\<exists>w. stored_log compress net H (objs b) w)"

context r2_bucket begin

lemma replica_step_ok:
  assumes "replica_step (honest bk objs ok compress) (H, s) (H', s')" "log_ok H" "replica_ok H s"
  shows "log_ok H' \<and> replica_ok H' s'"
  using assms(1)
proof (cases rule: replica_step.cases)
  case (grow e)
  then show ?thesis using assms(3) by (simp add: replica_ok_grow)
next
  case (publish b)
  then show ?thesis using assms(2,3) by (simp add: bucket_replica_ok)
next
  case (assign name)
  then show ?thesis using assms(2,3) by (simp add: assign_db_ok)
next
  case (frame net f)
  have "honest bk objs ok compress H net (qr_bucket s)" by (rule frame(3))
  then obtain w where h: "rn_bucket net = bk" "answers_ok H net" "ok (qr_bucket s)" "stored_log compress net H (objs (qr_bucket s)) w"
    unfolding honest_def by (elim conjE exE)
  obtain s2 err where "handleFrame net f s = (s2, err)" "progress objs ok H s s2"
    using handleFrame_ok [OF assms(2,3) h(3,4,1,2) frame(4)] by blast
  then show ?thesis using frame(1,2) assms(2) by (simp add: progress_def)
next
  case (restart b)
  obtain s2 where "replica_boot b (qr_meta s) (qr_novelty s) = Inr s2" "replica_ok H s2"
    using replica_boot_ok [OF assms(2,3), of b] by blast
  then show ?thesis using restart assms(2) by simp
qed

lemma replica_run_ok:
  assumes "(replica_step (honest bk objs ok compress))\<^sup>*\<^sup>* (H, s) (H', s')" "log_ok H" "replica_ok H s"
  shows "log_ok H' \<and> replica_ok H' s'"
  using assms(1)
proof (induction "(H', s')" arbitrary: H' s' rule: rtranclp_induct)
  case base
  then show ?case using assms(2,3) by simp
next
  case (step y)
  obtain H1 s1 where y: "y = (H1, s1)" by (cases y)
  have "log_ok H1 \<and> replica_ok H1 s1" using step(3) y by blast
  then show ?case using replica_step_ok step(2) unfolding y by blast
qed

end

section \<open>What a replica serves is the state of the log\<close>

lemma deriveSchema_returns:
  assumes "\<forall>i. represents src (rootFor rts i) (T i) \<and> wf_root i (T i) \<and> nodes (T i) < n"
  shows "\<exists>sc. deriveSchema n src rts = Inr sc"
proof -
  obtain sc where sc: "Schema_bootstrap = Inr sc" using bootstrap_both by metis
  define tmp where "tmp = \<lparr>db_store = src, db_roots = rts, db_novelty = Novelty_new, db_basisT = ro_t rts, db_schema = sc,
                  db_nextEid = 0, db_asOfT = None, db_isHistory = False\<rparr>"
  have rep: "db_rep tmp T" "\<not> db_isHistory tmp" using assms by (simp_all add: db_rep_def tmp_def)
  have read: "\<exists>ds. datomsArray n tmp i p = Inr ds" if "prefix_ok p" "p_t p = None" for i p
  proof -
    have "nodes (T i) < n" using assms by blast
    then show ?thesis using datoms_current_matching [OF rep(1) that(1) _ rep(2) that(2)] by blast
  qed
  have pre: "prefix_ok (attr_only a)" "p_t (attr_only a) = None" "prefix_ok (entity_prefix e)" "p_t (entity_prefix e) = None" for a e
    by (simp_all add: prefix_ok_def attr_only_def entity_prefix_def)
  obtain ids where ids: "datomsArray n tmp AEVT (attr_only DB_IDENT) = Inr ids" using read pre by blast
  have "\<exists>dss. rmaplist (\<lambda>e. datomsArray n tmp EAVT (entity_prefix e)) es = Inr dss" for es
  proof (induction es)
    case (Cons e es)
    obtain ds where "datomsArray n tmp EAVT (entity_prefix e) = Inr ds" using read pre by blast
    with Cons show ?case by auto
  qed simp
  then obtain dss where "rmaplist (\<lambda>e. datomsArray n tmp EAVT (entity_prefix e)) (fold (\<lambda>d es. set_add (d_e d) es) ids []) = Inr dss"
    by blast
  then show ?thesis by (simp add: deriveSchema_def sc Let_def tmp_def [symmetric] ids)
qed

text \<open>The datoms of the log up to a \<open>t\<close>, and the trees of a record that hold them.\<close>

definition log_datoms :: "log_entry list \<Rightarrow> int \<Rightarrow> datom set" where
  "log_datoms H t = {d. \<exists>e\<in>set H. le_t e \<le> t \<and> d \<in> set (le_datoms e)}"

definition root_holds :: "nat \<Rightarrow> log_entry list \<Rightarrow> node_source \<Rightarrow> root_record \<Rightarrow> bool" where
  "root_holds n H src r \<longleftrightarrow>
     (\<exists>T. (\<forall>i. represents src (rootFor (recordToRoots r) i) (T i) \<and> wf_root i (T i) \<and> nodes (T i) < n) \<and>
        (\<forall>i\<in>{EAVT, AEVT}. set (contents (T i)) = log_datoms H (rr_t r)))"

text \<open>A basis as it arrives over the network.\<close>

definition basis_sent :: "basis \<Rightarrow> basis" where
  "basis_sent ba = ba\<lparr>ba_novelty := map json_frame (ba_novelty ba)\<rparr>"

definition log_finite :: "log_entry list \<Rightarrow> bool" where
  "log_finite H \<longleftrightarrow> (\<forall>e\<in>set H. \<forall>d\<in>set (le_datoms e). value_finite (d_v d))"

lemma log_split:
  assumes "numbered 0 H" "0 \<le> a" "a \<le> b"
  shows "log_datoms H b = log_datoms H a \<union> set (concat (map le_datoms (log_between H a b)))"
proof -
  have "set (concat (map le_datoms (log_between H a b))) = {d. \<exists>e\<in>set H. a < le_t e \<and> le_t e \<le> b \<and> d \<in> set (le_datoms e)}"
    using in_between [OF assms(1,2), of _ b] by auto
  moreover have "log_datoms H b = log_datoms H a \<union> {d. \<exists>e\<in>set H. a < le_t e \<and> le_t e \<le> b \<and> d \<in> set (le_datoms e)}"
  proof -
    have "le_t e \<le> b \<longleftrightarrow> le_t e \<le> a \<or> (a < le_t e \<and> le_t e \<le> b)" for e using assms(3) by linarith
    then show ?thesis unfolding log_datoms_def by blast
  qed
  ultimately show ?thesis by simp
qed

lemma dbFromBasis_reads:
  assumes H: "log_ok H" "log_finite H" and s: "replica_ok H s" "qr_root s = Some r" and root: "root_holds n H src r"
    and ba: "ba = basis_sent (makeBasis name r (qr_entries s) rep)"
  shows "\<exists>d cache'. dbFromBasis n src ba None False cache = (Inr d, cache') \<and> db_basisT d = basisT s \<and>
    (\<forall>i\<in>{EAVT, AEVT}. \<forall>p. prefix_ok p \<longrightarrow> p_t p = None \<longrightarrow>
       (\<exists>ds. datomsArray n d i p = Inr ds \<and> index_sorted i ds \<and>
          set ds = {x \<in> currentFacts (Some (basisT s)) (log_datoms H (basisT s)). matching i p x}))"
proof -
  have num: "numbered 0 H" using H(1) by (simp add: log_ok_def)
  obtain h where h: "0 \<le> root_t s" "root_t s \<le> basisT s" "basisT s \<le> h" "h \<le> int (length H)"
    "qr_entries s = log_between H (root_t s) (basisT s)" "rows_hold H (root_t s) h (qr_novelty s)"
    "load_root (qr_meta s) = Inr (qr_root s)" "load_name (qr_meta s) = Inr (qr_dbName s)" by (rule replica_okE [OF s(1) num])
  have rt: "root_t s = rr_t r" by (simp add: root_t_def s(2))
  obtain T where T: "\<forall>i. represents src (rootFor (recordToRoots r) i) (T i) \<and> wf_root i (T i) \<and> nodes (T i) < n"
    "\<forall>i\<in>{EAVT, AEVT}. set (contents (T i)) = log_datoms H (rr_t r)" using root unfolding root_holds_def by blast
  have sub: "set (qr_entries s) \<subseteq> set H" unfolding h(5) by (rule set_log_between)
  have stor: "\<forall>e\<in>set (qr_entries s). \<forall>d\<in>set (le_datoms e). datom_ok d \<and> value_finite (d_v d)"
    using sub H by (fastforce simp: log_ok_def entry_storable_def datom_storable_def log_finite_def)
  have dec: "rmaplist entryFromFrame (ba_novelty ba) = Inr (qr_entries s)"
  proof -
    have "entryFromFrame (json_frame (txFrame e)) = Inr e" if "e \<in> set (qr_entries s)" for e
      using stor that by (intro entryFromFrame_txFrame) (auto simp: datom_ok_def)
    moreover have "ba_novelty ba = map (\<lambda>e. json_frame (txFrame e)) (qr_entries s)" by (simp add: ba basis_sent_def makeBasis_def)
    moreover have "rmaplist entryFromFrame (map (\<lambda>e. json_frame (txFrame e)) es) = Inr es"
      if "\<forall>e\<in>set es. entryFromFrame (json_frame (txFrame e)) = Inr e" for es
      using that by (induction es) auto
    ultimately show ?thesis by simp
  qed
  have root_ba: "ba_root ba = r" "ba_t ba = basisT s" by (simp_all add: ba basis_sent_def makeBasis_def basisT_def rt)
  obtain sc cache' where sc: "cached_schema n src (recordToRoots r) cache = (Inr sc, cache')"
    using deriveSchema_returns [OF T(1)] unfolding cached_schema_def Let_def by (cases "jm_get cache (r_hash (ro_eavt (recordToRoots r)))") auto
  define ds where "ds = concat (map le_datoms (qr_entries s))"
  define sc' where "sc' = (if ds \<noteq> [] then Schema_apply ds (Schema_clone sc) else sc)"
  define d where "d = \<lparr>db_store = src, db_roots = recordToRoots r, db_novelty = nv_add ds (isAvet sc') (isVaet sc') Novelty_new,
    db_basisT = basisT s, db_schema = sc', db_nextEid = rr_next_eid r, db_asOfT = None, db_isHistory = False\<rparr>"
  have res: "dbFromBasis n src ba None False cache = (Inr d, cache')"
    unfolding dbFromBasis_def Let_def root_ba sc dec prod.case sum.case rmap.simps option.case if_False ds_def [symmetric]
      sc'_def [symmetric] d_def [symmetric] ..
  have dsok: "\<forall>x\<in>set ds. datom_ok x" using stor by (auto simp: ds_def)
  have rep: "db_rep d T" using T(1) nv_add_inv [OF nv_inv_new dsok] by (simp add: db_rep_def d_def)
  have facts: "db_datoms_in d T i = log_datoms H (basisT s)" if "i \<in> {EAVT, AEVT}" for i
  proof -
    have "nv_abs (db_novelty d) i = set ds" using that by (auto simp: d_def nv_add_abs)
    moreover have "log_datoms H (basisT s) = log_datoms H (rr_t r) \<union> set ds"
      using log_split [OF num h(1,2)] unfolding ds_def h(5) rt by simp
    moreover have "set (contents (T i)) = log_datoms H (rr_t r)" using T(2) that by blast
    ultimately show ?thesis by (simp add: db_datoms_in_def)
  qed
  have eff: "effectiveT d = basisT s" "\<not> db_isHistory d" by (simp_all add: effectiveT_def d_def)
  have "\<exists>ds. datomsArray n d i p = Inr ds \<and> index_sorted i ds \<and>
      set ds = {x \<in> currentFacts (Some (basisT s)) (log_datoms H (basisT s)). matching i p x}"
    if "i \<in> {EAVT, AEVT}" "prefix_ok p" "p_t p = None" for i p
  proof -
    have "nodes (T i) < n" using T(1) by blast
    from datoms_current_matching [OF rep that(2) this eff(2) that(3)] show ?thesis unfolding eff(1) facts [OF that(1)] .
  qed
  then show ?thesis using res by (intro exI [of _ d] exI [of _ cache']) (simp add: d_def)
qed

end
