(* ===== verification/ObjectClaims.thy ===== *)
theory ObjectClaims
  imports GcSweep Replica DatabaseClaims
begin

text \<open>
  The properties of object storage and of the replicas that read from it. They are stated for
  any bucket that keeps the contract \<open>r2_bucket\<close>; the witnesses use the in-memory bucket.
\<close>

section \<open>Samples\<close>

text \<open>A bucket with the sample datom's leaf, an unreferenced node and a published root.\<close>

definition sample_leaf_ref :: node_ref where
  "sample_leaf_ref = \<lparr>r_hash = ''5a'', r_kind = KLeaf, r_count = 1\<rparr>"

definition sample_record :: root_record where
  "sample_record = \<lparr>rr_t = 7, rr_eavt = sample_leaf_ref, rr_aevt = sample_leaf_ref, rr_avet = sample_leaf_ref,
     rr_vaet = sample_leaf_ref, rr_log_watermark = 7, rr_next_eid = 1001, rr_codec = js ''none'', rr_created_at = 0\<rparr>"

definition sample_body :: bytes where
  "sample_body = node_bytes EAVT (LeafNode [sample_datom])"

definition sample_bucket :: memory_bucket where
  "sample_bucket = publishRoot memory_r2
     (MemoryBucket_put (MemoryBucket_put MemoryBucket (objectKey KLeaf ''5a'') (RBytes sample_body) None)
        (objectKey KDir ''ff'') (RBytes [1]) None) sample_record"

lemma empty_bucket [simp]: "mb_ok MemoryBucket" "mb_objs MemoryBucket = Map.empty"
  by (simp_all add: mb_ok_def mb_objs_def MemoryBucket_def jm_ok_def fun_eq_iff)

lemma memory_put [simp]: "mb_ok b \<Longrightarrow> mb_ok (MemoryBucket_put b k v m)"
  "mb_ok b \<Longrightarrow> mb_objs (MemoryBucket_put b k v m) = (mb_objs b)(k \<mapsto> body_bytes v)"
  using memory.put_body [of b k v m] by (simp_all add: memory_r2_def)

lemma sample_bucket_ok: "mb_ok sample_bucket"
  unfolding sample_bucket_def by (intro memory.publishRoot_objs(1) memory_put(1) empty_bucket(1))

lemma sample_objs: "mb_objs sample_bucket =
  [objectKey KLeaf ''5a'' \<mapsto> sample_body, objectKey KDir ''ff'' \<mapsto> [1], rootKey 7 \<mapsto> record_bytes sample_record,
   ROOT_CURRENT_KEY \<mapsto> record_bytes sample_record]"
proof -
  let ?b1 = "MemoryBucket_put MemoryBucket (objectKey KLeaf ''5a'') (RBytes sample_body) None"
  let ?b2 = "MemoryBucket_put ?b1 (objectKey KDir ''ff'') (RBytes [1]) None"
  have "mb_ok ?b1" by (intro memory_put(1) empty_bucket(1))
  moreover from this have "mb_ok ?b2" by (rule memory_put(1))
  ultimately show ?thesis
    unfolding sample_bucket_def by (simp add: memory.publishRoot_objs(2) sample_record_def)
qed

lemma keys_bounded: "keys_under m p ks \<Longrightarrow> dom m \<subseteq> set xs \<Longrightarrow> length ks \<le> length xs"
proof -
  assume a: "keys_under m p ks" "dom m \<subseteq> set xs"
  have "length ks = card (set ks)" using a(1) sorted_keys_distinct by (metis distinct_card keys_under_def)
  also have "\<dots> \<le> card (set xs)" using a by (intro card_mono) (auto simp: keys_under_def)
  also have "\<dots> \<le> length xs" by (rule card_length)
  finally show ?thesis .
qed

lemma sample_leaf_node: "bucket_node identity_decompress (mb_objs sample_bucket) ''5a'' = Some (LeafNode [sample_datom])"
proof -
  have "node_ok NODE_CAP datom_storable ref_storable (LeafNode [sample_datom])" by (simp add: NODE_CAP_def)
  from deserialize_body [OF sample_codec this, of EAVT]
  have d: "deserializeNode identity_decompress sample_body = Inr (LeafNode [sample_datom])"
    by (simp add: identity_compress_def sample_body_def)
  have "mb_objs sample_bucket (objectKey KLeaf ''5a'') = Some sample_body"
    unfolding sample_objs by (simp add: objectKey_def rootKey_def ROOT_CURRENT_KEY_def)
  then show ?thesis by (simp add: bucket_node_def bucket_body_def d)
qed

lemma sample_leaf_tree: "represents (bucket_node identity_decompress (mb_objs sample_bucket)) sample_leaf_ref (ALeaf [sample_datom])"
  using sample_leaf_node by (intro rep_leaf) (simp_all add: sample_leaf_ref_def)

section \<open>Object storage\<close>

text \<open>
  C30: A store over a bucket is a content-addressed map. Whatever its memory, its SQL tier and
  its cache hold as long as they agree with the bucket, loading a node that the bucket has
  gives that node, and storing one makes it readable under its digest and leaves every other
  node as it was, unless the digest is already taken by another node.
\<close>

theorem R2NodeStore_is_node_map:
  assumes "r2_nodes env objs ok cursor_at" "r2_inv objs ok env s"
  shows "(\<forall>r. \<exists>res s1. R2NodeStore_load env s r = (res, s1) \<and> r2_inv objs ok env s1 \<and> r2_get objs env s1 = r2_get objs env s \<and>
      (\<forall>nd. r2_get objs env s (r_hash r) = Some nd \<and> kind_of nd = r_kind r \<longrightarrow> res = Inr nd)) \<and>
    (\<forall>i nd. node_ok NODE_CAP datom_storable ref_storable nd \<and> r2_put objs env s i nd \<noteq> collision \<longrightarrow>
      (\<exists>r s2. R2NodeStore_put env s i nd = Inr (r, s2) \<and> r2_inv objs ok env s2 \<and> r_kind r = kind_of nd \<and>
        r2_get objs env s2 (r_hash r) = Some nd \<and> r2_get objs env s \<subseteq>\<^sub>m r2_get objs env s2))"
proof (intro conjI allI impI; (elim conjE)?)
  fix r
  obtain res s1 where "R2NodeStore_load env s r = (res, s1)" by fastforce
  with r2_nodes.load_spec [OF assms this]
  show "\<exists>res s1. R2NodeStore_load env s r = (res, s1) \<and> r2_inv objs ok env s1 \<and> r2_get objs env s1 = r2_get objs env s \<and>
      (\<forall>nd. r2_get objs env s (r_hash r) = Some nd \<and> kind_of nd = r_kind r \<longrightarrow> res = Inr nd)" by blast
next
  fix i nd
  assume p: "node_ok NODE_CAP datom_storable ref_storable nd" "r2_put objs env s i nd \<noteq> collision"
  from r2_nodes.put_spec [OF assms p] p(2)
  show "\<exists>r s2. R2NodeStore_put env s i nd = Inr (r, s2) \<and> r2_inv objs ok env s2 \<and> r_kind r = kind_of nd \<and>
        r2_get objs env s2 (r_hash r) = Some nd \<and> r2_get objs env s \<subseteq>\<^sub>m r2_get objs env s2"
    unfolding r2_put_def by (auto simp: serialize_ok [OF p(1)] split: if_splits)
qed

theorem R2NodeStore_is_node_map_witness:
  "\<exists>r s1 s2. R2NodeStore_put (replica_env ''db/'' identity_compress identity_decompress sample_sha)
       (R2NodeStore MemoryBucket \<lparr>sq_rows = [], sq_maxRows = 2, sq_clock = [5]\<rparr> ()) EAVT (LeafNode [sample_datom]) = Inr (r, s1) \<and>
     R2NodeStore_load (replica_env ''db/'' identity_compress identity_decompress sample_sha) s1 r = (Inr (LeafNode [sample_datom]), s2)"
proof -
  let ?env = "replica_env ''db/'' identity_compress identity_decompress sample_sha"
  let ?objs = "objs_under ''db/'' mb_objs" let ?nd = "LeafNode [sample_datom]"
  let ?s = "R2NodeStore MemoryBucket \<lparr>sq_rows = [], sq_maxRows = 2, sq_clock = [5]\<rparr> ()"
  have nok: "node_ok NODE_CAP datom_storable ref_storable ?nd" by (simp add: NODE_CAP_def)
  have e: "?objs MemoryBucket = Map.empty" by (simp add: objs_under_def fun_eq_iff)
  have inv: "r2_inv ?objs mb_ok ?env ?s"
    by (rule new_store_inv) (simp_all add: replica_env_def sample_codec e)
  have "r2_put ?objs ?env ?s EAVT ?nd \<noteq> collision"
    by (simp add: r2_put_def serialize_ok [OF nok] hash_taken_def R2NodeStore_def e tier_node_def replica_env_def sqlite_ops_def
        SqliteTier_get_def other_node_def R2NodeStore_put_def tier_put_def Let_def)
  with R2NodeStore_is_node_map [OF replica_nodes.r2_nodes_axioms inv] nok
  obtain r s1 where p: "R2NodeStore_put ?env ?s EAVT ?nd = Inr (r, s1)" "r2_inv ?objs mb_ok ?env s1" "r_kind r = kind_of ?nd"
      "r2_get ?objs ?env s1 (r_hash r) = Some ?nd" by blast
  with R2NodeStore_is_node_map [OF replica_nodes.r2_nodes_axioms p(2)] show ?thesis by metis
qed

text \<open>
  C29: Garbage collection of a bucket. A collection ends and deletes nothing but unmarked nodes
  and, when asked to, roots that are not kept: the current root and the log stay as they are,
  every kept root, the current one among them, stays, and its trees stay as readable as they were.
\<close>

theorem gcSweep_is_safe:
  assumes "r2_bucket bk objs ok cursor_at" "ok b" "holds_roots (objs b) R" "pages_enough pages (objs b)"
    and "keep = gc_keep retain currentT (sorted_list_of_set R)" "kept_roots_ok n (bucket_node decompress (objs b)) (objs b) keep"
    and "\<forall>ts. set (retain ts) \<subseteq> set ts" "0 \<le> currentT"
  shows "\<exists>res b'. gcSweep pages n bk (bucket_node decompress (objs b)) currentT retain opts b = Inr (res, b') \<and> ok b' \<and>
    objs b' \<subseteq>\<^sub>m objs b \<and> currentT \<in> set keep \<and>
    (\<forall>k. starts_with ''root/'' k \<or> starts_with ''log/'' k \<longrightarrow> objs b' k = objs b k) \<and>
    (\<forall>t\<in>set keep. objs b' (rootKey t) = objs b (rootKey t) \<and>
       (\<forall>r i T. objs b (rootKey t) = Some (record_bytes r) \<longrightarrow>
          represents (bucket_node decompress (objs b)) (rootFor (recordToRoots r) i) T \<longrightarrow>
          represents (bucket_node decompress (objs b')) (rootFor (recordToRoots r) i) T))"
proof -
  have "currentT \<in> set keep" by (simp add: assms(5) gc_keep_def set_add_def)
  with r2_bucket.gcSweep_keeps [OF assms] show ?thesis by blast
qed

theorem gcSweep_is_safe_witness:
  "\<exists>res b'. gcSweep 1 3 memory_r2 (bucket_node identity_decompress (mb_objs sample_bucket)) 7 (retainNewest 2)
       \<lparr>go_deleteRoots = True, go_dryRun = False\<rparr> sample_bucket = Inr (res, b') \<and>
     mb_objs b' (rootKey 7) = Some (record_bytes sample_record) \<and>
     represents (bucket_node identity_decompress (mb_objs b')) sample_leaf_ref (ALeaf [sample_datom])"
proof -
  let ?src = "bucket_node identity_decompress (mb_objs sample_bucket)" let ?keep = "gc_keep (retainNewest 2) 7 (sorted_list_of_set {7})"
  have keep: "?keep = [7]" by (simp add: gc_keep_def retainNewest_def set_add_def)
  have R: "holds_roots (mb_objs sample_bucket) {7}"
    using rootKey_starts(1) [of 7] rootKey_starts(2) by (auto simp: holds_roots_def sample_objs objectKey_def split: if_splits)
  have "dom (mb_objs sample_bucket) \<subseteq> set [objectKey KLeaf ''5a'', objectKey KDir ''ff'', rootKey 7, ROOT_CURRENT_KEY]"
    unfolding sample_objs by auto
  from keys_bounded [OF _ this] have "length ks \<le> 4" if "keys_under (mb_objs sample_bucket) p ks" for p ks using that by fastforce
  then have pages: "pages_enough 1 (mb_objs sample_bucket)" by (fastforce simp: pages_enough_def)
  have at7: "mb_objs sample_bucket (rootKey 7) = Some (record_bytes sample_record)"
    unfolding sample_objs by (simp add: rootKey_not_current)
  have refs: "rootFor (recordToRoots sample_record) i = sample_leaf_ref" for i
    by (cases i) (simp_all add: recordToRoots_def sample_record_def)
  have "roots_readable 3 ?src (recordToRoots sample_record)"
    unfolding roots_readable_def refs using sample_leaf_tree by (intro allI exI [of _ "ALeaf [sample_datom]"]) simp
  then have kept: "kept_roots_ok 3 ?src (mb_objs sample_bucket) ?keep" unfolding keep using at7 by (auto simp: kept_roots_ok_def)
  have ret: "\<forall>ts. set (retainNewest 2 ts) \<subseteq> set ts" by (auto simp: retainNewest_def dest: in_set_dropD)
  from gcSweep_is_safe [OF memory.r2_bucket_axioms sample_bucket_ok R pages refl kept ret, of "\<lparr>go_deleteRoots = True, go_dryRun = False\<rparr>"]
  show ?thesis unfolding keep using at7 refs sample_leaf_tree by fastforce
qed



text \<open>
  The log in object storage reads back. Writing the next chunk of a log keeps the chunks
  that are there and leaves all other objects alone, and reading since any \<open>t\<close> up to any other
  gives exactly the entries between them, in order, whatever chunks they are in.
\<close>

lemma log_chunks_read_back:
  assumes "r2_bucket bk objs ok cursor_at" "ok b" "holds_log compress (objs b) css" "chunks_ok (css @ [es])"
    and "\<forall>raw. decompress (compress raw) = Inr raw" "Suc (length css) < 1000 * n"
  shows "\<exists>k b'. putLogChunk compress bk b es = Inr (k, b') \<and> ok b' \<and> holds_log compress (objs b') (css @ [es]) \<and>
    (\<forall>k. \<not> starts_with ''log/'' k \<longrightarrow> objs b' k = objs b k) \<and>
    (\<forall>sinceT untilT. fst (readLogSince n decompress bk b' sinceT untilT) =
       Inr (filter (\<lambda>e. le_t e > sinceT \<and> upto_t untilT (le_t e)) (concat css @ es)))"
proof -
  obtain k b' where b': "putLogChunk compress bk b es = Inr (k, b')" "ok b'" "holds_log compress (objs b') (css @ [es])"
      "\<forall>k. \<not> starts_with ''log/'' k \<longrightarrow> objs b' k = objs b k"
    using r2_bucket.putLogChunk_holds [OF assms(1-4)] by blast
  moreover have "length (css @ [es]) < 1000 * n" using assms(6) by simp
  ultimately show ?thesis using r2_bucket.readLogSince_holds [OF assms(1) b'(2,3) assms(5)] by auto
qed

lemma log_chunks_read_back_witness:
  "\<exists>k b. putLogChunk identity_compress memory_r2 MemoryBucket [sample_entry] = Inr (k, b) \<and>
     fst (readLogSince 1 identity_decompress memory_r2 b 6 (Some 7)) = Inr [sample_entry]"
proof -
  have "entry_storable sample_entry" by (simp add: entry_storable_def sample_entry_def id_ok_def MAX_ID_def)
  then have c: "chunks_ok ([] @ [[sample_entry]])" by (simp add: chunks_ok_def)
  have h: "holds_log identity_compress (mb_objs MemoryBucket) []" by (simp add: holds_log_def chunks_ok_def)
  have d: "\<forall>raw. identity_decompress (identity_compress raw) = Inr raw" by (simp add: identity_compress_def identity_decompress_def)
  have "Suc (length ([] :: log_entry list list)) < 1000 * 1" by simp
  from log_chunks_read_back [OF memory.r2_bucket_axioms empty_bucket(1) h c d this]
  obtain k b where "putLogChunk identity_compress memory_r2 MemoryBucket [sample_entry] = Inr (k, b)"
    "\<forall>s u. fst (readLogSince 1 identity_decompress memory_r2 b s u) = Inr (filter (\<lambda>e. le_t e > s \<and> upto_t u (le_t e)) [sample_entry])"
    by auto
  then show ?thesis by (simp add: sample_entry_def upto_t_def)
qed

section \<open>Replicas\<close>

text \<open>A log of two entries, a root before it, and replicas that have none or one of them.\<close>

definition sample_e1 :: log_entry where
  "sample_e1 = \<lparr>le_t = 1, le_txInstant = 10, le_datoms = [sample_datom\<lparr>d_t := 1\<rparr>]\<rparr>"

definition sample_e2 :: log_entry where
  "sample_e2 = \<lparr>le_t = 2, le_txInstant = 20, le_datoms = [sample_datom\<lparr>d_e := 1001, d_t := 2\<rparr>]\<rparr>"

definition sample_root0 :: root_record where
  "sample_root0 = \<lparr>rr_t = 0, rr_eavt = sample_ref, rr_aevt = sample_ref, rr_avet = sample_ref, rr_vaet = sample_ref,
     rr_log_watermark = 0, rr_next_eid = 1000, rr_codec = js ''none'', rr_created_at = 0\<rparr>"

definition sample_replica :: "log_entry list \<Rightarrow> memory_bucket replica" where
  "sample_replica es = \<lparr>qr_bucket = MemoryBucket, qr_dbName = Some ''x'', qr_root = Some sample_root0, qr_entries = es,
     qr_meta = setMeta ''root'' (record_json sample_root0) (setMeta ''db'' (JStr (js ''x'')) []),
     qr_novelty = map entry_row es, qr_frames = 0, qr_gaps = 0, qr_rootFlips = 0\<rparr>"

text \<open>A writer that answers every request for its log with its first entry.\<close>

definition sample_net :: "memory_bucket replica_net" where
  "sample_net = \<lparr>rn_bucket = memory_r2, rn_pages = 1, rn_decompress = identity_decompress,
     rn_log = (\<lambda>from to. if from = 0 \<and> to = 1 then Inr (Some (1, [json_frame (txFrame sample_e1)])) else Inr None)\<rparr>"

lemma sample_entries_ok: "entry_storable sample_e1" "entry_storable sample_e2"
  using sample_datom_storable(1)
  by (auto simp: entry_storable_def sample_e1_def sample_e2_def id_ok_def MAX_ID_def datom_storable_def datom_ok_def sample_datom_def)

lemma sample_log_ok: "log_ok [sample_e1]" "log_ok [sample_e1, sample_e2]"
  using sample_entries_ok by (simp_all add: log_ok_def) (simp_all add: sample_e1_def sample_e2_def)

lemma sample_frame: "entryFromFrame (json_frame (txFrame sample_e1)) = Inr sample_e1" "entryFromFrame (json_frame (txFrame sample_e2)) = Inr sample_e2"
  using sample_entries_ok
  by (intro entryFromFrame_txFrame; auto simp: entry_storable_def datom_storable_def datom_ok_def; simp add: sample_e1_def sample_e2_def value_finite_def sample_datom_def)+

lemma sample_replica_fields: "root_t (sample_replica es) = 0" "basisT (sample_replica es) = last_t es 0"
  "qr_entries (sample_replica es) = es" "qr_dbName (sample_replica es) = Some ''x''" "qr_bucket (sample_replica es) = MemoryBucket"
  "qr_root (sample_replica es) = Some sample_root0" "qr_novelty (sample_replica es) = map entry_row es"
  by (simp_all add: sample_replica_def root_t_def basisT_def sample_root0_def)

lemma sample_replica_ok: "replica_ok [sample_e1] (sample_replica [sample_e1])" "replica_ok [sample_e1, sample_e2] (sample_replica [])"
proof -
  have m: "load_root (qr_meta (sample_replica es)) = Inr (qr_root (sample_replica es))"
    "load_name (qr_meta (sample_replica es)) = Inr (qr_dbName (sample_replica es))" for es
    by (simp_all add: sample_replica_def load_root_set load_name_set load_name_assign)
  have "numbered 0 [sample_e1]" "numbered 0 [sample_e1, sample_e2]" using sample_log_ok by (simp_all add: log_ok_def)
  note I = replica_okI [OF this(1), of "sample_replica [sample_e1]" 1 1] replica_okI [OF this(2), of "sample_replica []" 0 0]
  show "replica_ok [sample_e1] (sample_replica [sample_e1])"
    using I(1) m by (simp add: sample_replica_fields log_between_def rows_hold_def)
  show "replica_ok [sample_e1, sample_e2] (sample_replica [])"
    using I(2) m by (simp add: sample_replica_fields log_between_def rows_hold_def)
qed

lemma sample_net_ok: "answers_ok [sample_e1, sample_e2] sample_net" "rn_bucket sample_net = memory_r2"
  "stored_log identity_compress sample_net [sample_e1, sample_e2] (mb_objs MemoryBucket) 0"
proof -
  show "answers_ok [sample_e1, sample_e2] sample_net"
    using sample_frame by (auto simp: answers_ok_def sample_net_def log_between_def LOG_ANSWER_LIMIT_def split: if_splits)
  show "rn_bucket sample_net = memory_r2" by (simp add: sample_net_def)
  have "holds_log identity_compress Map.empty []" by (simp add: holds_log_def chunks_ok_def)
  then show "stored_log identity_compress sample_net [sample_e1, sample_e2] (mb_objs MemoryBucket) 0"
    by (auto simp: stored_log_def sample_net_def identity_compress_def identity_decompress_def intro!: exI [of _ "[]"])
qed

text \<open>
  C27: A replica holds a gap-free piece of the log. Through any sequence of log growth, new
  published objects, assignment of the database, frames of any kind and order - repeated, late
  or with a gap, answered by the writer or by object storage, handled with or without an error -
  and restarts, the entries of a replica are those of the writer's log from its root to its basis.
\<close>

theorem replica_holds_the_log:
  assumes "r2_bucket bk objs ok cursor_at" "log_ok H" "replica_ok H s"
    and "(replica_step (honest bk objs ok compress))\<^sup>*\<^sup>* (H, s) (H', s')"
  shows "replica_ok H' s' \<and> qr_entries s' = filter (\<lambda>e. root_t s' < le_t e \<and> le_t e \<le> basisT s') H' \<and>
    int (length (qr_entries s')) = basisT s' - root_t s'"
proof -
  have ok': "log_ok H'" "replica_ok H' s'" using r2_bucket.replica_run_ok [OF assms(1,4,2,3)] by simp_all
  then have num: "numbered 0 H'" by (simp add: log_ok_def)
  obtain h where h: "0 \<le> root_t s'" "root_t s' \<le> basisT s'" "basisT s' \<le> h" "h \<le> int (length H')"
    "qr_entries s' = log_between H' (root_t s') (basisT s')" by (rule replica_okE [OF ok'(2) num])
  then show ?thesis using ok'(2) between_filter [OF num h(1)] length_log_between [OF h(1,2), of H'] by simp
qed

theorem replica_holds_the_log_witness:
  "\<exists>s. (replica_step (honest memory_r2 mb_objs mb_ok identity_compress))\<^sup>*\<^sup>* ([sample_e1], sample_replica [sample_e1]) ([sample_e1, sample_e2], s) \<and>
     qr_entries s = filter (\<lambda>e. root_t s < le_t e \<and> le_t e \<le> basisT s) [sample_e1, sample_e2]"
proof -
  let ?step = "replica_step (honest memory_r2 mb_objs mb_ok identity_compress)" and ?f = "TxFrame (json_frame (txFrame sample_e2))"
  let ?s = "fst (handleFrame sample_net ?f (sample_replica [sample_e1]))"
  have "?step ([sample_e1], sample_replica [sample_e1]) ([sample_e1] @ [sample_e2], sample_replica [sample_e1])"
    using sample_log_ok(2) by (intro replica_step.grow) simp
  moreover have "honest memory_r2 mb_objs mb_ok identity_compress [sample_e1, sample_e2] sample_net (qr_bucket (sample_replica [sample_e1]))"
    unfolding honest_def sample_replica_fields using sample_net_ok by auto
  then have "?step ([sample_e1, sample_e2], sample_replica [sample_e1]) ([sample_e1, sample_e2], ?s)"
    using sample_frame by (intro replica_step.frame) (auto simp: frame_ok_def)
  ultimately have run: "?step\<^sup>*\<^sup>* ([sample_e1], sample_replica [sample_e1]) ([sample_e1, sample_e2], ?s)" by simp
  from replica_holds_the_log [OF memory.r2_bucket_axioms sample_log_ok(1) sample_replica_ok(1) run] run show ?thesis by blast
qed



text \<open>
  C28: A gap is closed. When a transaction frame arrives and the part of the log between the
  basis and the frame can be had - from the writer's log, which answers with 10000 entries at
  most, or from the chunks in object storage - the frame is handled without error and the basis reaches its \<open>t\<close>, however many frames were
  lost before it.
\<close>

theorem frame_reaches_basis:
  assumes "r2_bucket bk objs ok cursor_at" "log_ok H" "replica_ok H s" "ok (qr_bucket s)"
    and "stored_log compress net H (objs (qr_bucket s)) w" "rn_bucket net = bk" "answers_ok H net"
    and "entryFromFrame f = Inr e" "e \<in> set H" "qr_dbName s \<noteq> None" "served net w (basisT s) (le_t e - 1)"
  shows "\<exists>s'. handleFrame net (TxFrame f) s = (s', None) \<and> replica_ok H s' \<and> le_t e \<le> basisT s' \<and> basisT s \<le> basisT s'"
proof -
  have "frame_ok H (TxFrame f)" using assms(8,9) by (auto simp: frame_ok_def)
  from r2_bucket.handleFrame_ok [OF assms(1-7) this] assms(8,10,11) show ?thesis
    by (auto simp: progress_def follows_def)
qed

theorem frame_reaches_basis_witness:
  "\<exists>s'. handleFrame sample_net (TxFrame (json_frame (txFrame sample_e2))) (sample_replica []) = (s', None) \<and> 2 \<le> basisT s'"
proof -
  let ?H = "[sample_e1, sample_e2]" and ?s = "sample_replica []"
  have b: "basisT ?s = 0" "le_t sample_e2 = 2" by (simp_all add: sample_replica_fields last_t_def sample_e2_def)
  have "ok (qr_bucket ?s) = ok MemoryBucket" for ok by (simp add: sample_replica_fields)
  then have "mb_ok (qr_bucket ?s)" "stored_log identity_compress sample_net ?H (mb_objs (qr_bucket ?s)) 0"
    using sample_net_ok(3) by (simp_all add: sample_replica_fields)
  moreover have "served sample_net 0 (basisT ?s) (le_t sample_e2 - 1)" unfolding b by (simp add: served_def sample_net_def LOG_ANSWER_LIMIT_def)
  moreover have "sample_e2 \<in> set ?H" "qr_dbName ?s \<noteq> None" by (simp_all add: sample_replica_fields)
  ultimately show ?thesis
    using frame_reaches_basis [OF memory.r2_bucket_axioms sample_log_ok(2) sample_replica_ok(2) _ _ sample_net_ok(2,1) sample_frame(2)] b(2)
    by fastforce
qed



end
