(* ===== verification/Transactor.thy ===== *)
theory Transactor
  imports Replica PolicyProvision "HOL-Library.Multiset"
begin

text \<open>
  The single writer of a database (\<open>internal/transactor/transactor.ts\<close>): transactions are
  queued, resolved in batches against the connection, checked against the policy, written to
  the SQL log in one storage write per batch, and acknowledged and broadcast after it. A writer
  whose write fails is discarded and booted again from its tables.
\<close>

section \<open>The state of a writer\<close>

text \<open>An acknowledgement, a queued transaction with the number of its promise, and what a promise is settled with.\<close>

record tx_ack =
  ak_t :: int
  ak_txEid :: int
  ak_tempids :: "(jsstr, int) jsmap"
  ak_datoms :: "wire_datom list"
  ak_clientTxId :: "jsstr option"
  ak_output :: "jsval option"

record pending_tx =
  pd_id :: nat
  pd_tx :: "jsval list"
  pd_principal :: "principal option"
  pd_clientTxId :: "jsstr option"
  pd_output :: "jsval option"
  pd_system :: bool

datatype tx_failure =
    Thrown jserr
  | TxRejected string "jsval option"
  | TransactorDead string

definition RECENT_CLIENT_TX_LIMIT :: nat where
  "RECENT_CLIENT_TX_LIMIT = 256"

fun kind_text :: "principal_kind \<Rightarrow> jsstr" where
  "kind_text KService = js ''service''"
| "kind_text KUser = js ''user''"
| "kind_text KAnonymous = js ''anonymous''"

text \<open>Who a principal is: its subject, else its entity, else its class.\<close>

definition principal_who :: "principal \<Rightarrow> jsstr" where
  "principal_who p =
     (case pr_sub p of
        Some s \<Rightarrow> s
      | None \<Rightarrow> (case pr_eid p of Some e \<Rightarrow> js ''#'' @ int_string e | None \<Rightarrow> pr_class p))"

definition clientTxReplayKey :: "principal option \<Rightarrow> jsstr \<Rightarrow> jsstr" where
  "clientTxReplayKey who i =
     (case who of
        None \<Rightarrow> [0, 0x3A] @ i
      | Some p \<Rightarrow> pr_db p @ [0] @ kind_text (pr_kind p) @ [0] @ principal_who p @ [0] @ i)"

text \<open>
  The tables \<open>log\<close> and \<open>meta\<close>; the row \<open>op_acks\<close> of \<open>meta\<close>, whose acknowledgements are kept as
  values, is a field of its own. The store of the connection is a node store over the bucket.
  The clock is what the following calls of \<open>now\<close> return. Settled promises and broadcast frames
  are lists in the order in which they happen.
\<close>

record 'b transactor =
  wr_conn :: "('b, unit, unit) r2_store connection"
  wr_root :: root_record
  wr_watermark :: int
  wr_log :: "novelty_row list"
  wr_meta :: "(string, jsstr) jsmap"
  wr_opmeta :: "(jsstr \<times> tx_ack) list"
  wr_recentAcks :: "(jsstr, tx_ack) jsmap"
  wr_recentOpAcks :: "(jsstr, tx_ack) jsmap"
  wr_queue :: "pending_tx list"
  wr_txSinceIndex :: int
  wr_dead :: "string option"
  wr_clock :: "int list"
  wr_settled :: "(nat \<times> (tx_failure + tx_ack)) list"
  wr_broadcast :: "wire_frame list"
  wr_txs :: nat
  wr_batches :: nat
  wr_maxBatch :: nat
  wr_rejected :: nat
  wr_indexRuns :: nat

text \<open>
  What the writer is given: the operations of its node store, which nodes its bucket holds,
  build options, fuel, the platform and query engine, and its configuration.
\<close>

record 'b writer_env =
  wv_store :: "('b, unit, unit) store_env"
  wv_objs :: "'b \<Rightarrow> (string \<rightharpoonup> bytes)"
  wv_build :: build_options
  wv_nodes :: nat
  wv_pages :: nat
  wv_fuel :: "nat \<times> nat \<times> nat"
  wv_runtime :: runtime
  wv_cells :: int
  wv_policy :: "compiled_policy option"
  wv_maxBatch :: nat

abbreviation wv_get :: "'b writer_env \<Rightarrow> ('b, unit, unit) r2_store \<Rightarrow> node_source" where
  "wv_get env \<equiv> r2_get (wv_objs env) (wv_store env)"

abbreviation wv_bucket :: "'b writer_env \<Rightarrow> 'b r2like" where
  "wv_bucket env \<equiv> se_bucket (wv_store env)"

abbreviation wv_pf :: "'b writer_env \<Rightarrow> platform" where
  "wv_pf env \<equiv> rt_pf (wv_runtime env)"

definition tick :: "int list \<Rightarrow> int \<times> int list" where
  "tick clk = (case clk of [] \<Rightarrow> (0, []) | [x] \<Rightarrow> (x, [x]) | x # xs \<Rightarrow> (x, xs))"

section \<open>The log table\<close>

text \<open>\<open>INSERT\<close> into a table whose primary key is \<open>t\<close>.\<close>

definition appendLogRow :: "log_entry \<Rightarrow> novelty_row list \<Rightarrow> novelty_row list res" where
  "appendLogRow e rows =
     rbind (encodeLogChunk [e]) (\<lambda>body.
       if le_t e \<in> fst ` set rows then Inl (Error ''UNIQUE constraint failed: log.t'')
       else Inr (rows @ [(le_t e, le_txInstant e, body)]))"

definition readLogEntries :: "int \<Rightarrow> int \<Rightarrow> nat \<Rightarrow> novelty_row list \<Rightarrow> log_entry list res" where
  "readLogEntries from to limit rows =
     rmaplist (\<lambda>x. first_entry (snd (snd x))) (take limit (filter (\<lambda>x. fst x \<le> to) (rows_after from rows)))"

definition LOG_READ_LIMIT :: nat where
  "LOG_READ_LIMIT = 100000"

definition readLogDatoms :: "int \<Rightarrow> novelty_row list \<Rightarrow> datom list res" where
  "readLogDatoms afterT rows = rmap (\<lambda>es. concat (map le_datoms es)) (readLogEntries afterT MAX_SAFE_INTEGER LOG_READ_LIMIT rows)"

definition earliestLogT :: "novelty_row list \<Rightarrow> int" where
  "earliestLogT rows = (if rows = [] then 0 else Min (fst ` set rows))"

definition pruneLog :: "int \<Rightarrow> novelty_row list \<Rightarrow> nat \<times> novelty_row list" where
  "pruneLog throughT rows = (length (filter (\<lambda>x. fst x \<le> throughT) rows), rows_drop throughT rows)"

section \<open>Boot\<close>

definition load_number :: "(string, jsstr) jsmap \<Rightarrow> string \<Rightarrow> int option res" where
  "load_number m k =
     rbind (getMeta m k) (\<lambda>v. case v of
       None \<Rightarrow> Inr None
     | Some (JNum (NInt n)) \<Rightarrow> Inr (Some n)
     | Some j \<Rightarrow> Inl (Error ''not an integer''))"

text \<open>The node store of a writer has a memory of 4096 nodes and no other tier.\<close>

definition transactor_env :: "'b r2like \<Rightarrow> (bytes \<Rightarrow> bytes) \<Rightarrow> (bytes \<Rightarrow> bytes res) \<Rightarrow> (bytes \<Rightarrow> string) \<Rightarrow> ('b, unit, unit) store_env" where
  "transactor_env bk compress decompress sha =
     \<lparr>se_bucket = bk, se_compress = compress, se_decompress = decompress, se_sha = sha, se_maxNodes = 4096,
      se_tier = None, se_cache = None, se_headBeforePut = False\<rparr>"

definition writer_codec :: jsstr where
  "writer_codec = js ''gzip''"

text \<open>
  A fresh database: empty trees and the bootstrap transaction at \<open>t = 1\<close>, written with the
  root and the next entity in one storage write.
\<close>

definition bootstrap_tables ::
  "'b writer_env \<Rightarrow> int list \<Rightarrow> novelty_row list \<Rightarrow> (string, jsstr) jsmap \<Rightarrow> ('b, unit, unit) r2_store \<Rightarrow>
    (root_record \<times> novelty_row list \<times> (string, jsstr) jsmap \<times> ('b, unit, unit) r2_store \<times> int list) res" where
  "bootstrap_tables env clk rows m s =
     rbind (emptyRoots (r2_put (wv_objs env) (wv_store env)) (wv_build env) s) (\<lambda>(rts, s').
     rbind bootstrapDatoms (\<lambda>boot.
     let (created, clk1) = tick clk;
         (now, clk2) = tick clk1;
         fresh = rootsToRecord rts 0 FIRST_USER_EID writer_codec created
     in rmap (\<lambda>rows'. (fresh, rows', setMeta ''next_eid'' (JNum (NInt FIRST_USER_EID)) (setMeta ''root'' (record_json fresh) m), s', clk2))
          (appendLogRow \<lparr>le_t = 1, le_txInstant = now, le_datoms = boot\<rparr> rows)))"

text \<open>The root that is known: the one of the tables, else the current one of the bucket, else a new one.\<close>

definition boot_root ::
  "'b writer_env \<Rightarrow> int list \<Rightarrow> novelty_row list \<Rightarrow> (string, jsstr) jsmap \<Rightarrow> ('b, unit, unit) r2_store \<Rightarrow>
    (root_record \<times> novelty_row list \<times> (string, jsstr) jsmap \<times> ('b, unit, unit) r2_store \<times> int list) res" where
  "boot_root env clk rows m s =
     rbind (load_root m) (\<lambda>known. case known of
       Some r \<Rightarrow> Inr (r, rows, m, s, clk)
     | None \<Rightarrow>
         (case readCurrentRoot (wv_bucket env) (rs_bucket s) of
            (Inl e, b') \<Rightarrow> Inl e
          | (Inr (Some r), b') \<Rightarrow> Inr (r, rows, m, s\<lparr>rs_bucket := b'\<rparr>, clk)
          | (Inr None, b') \<Rightarrow> bootstrap_tables env clk rows m (s\<lparr>rs_bucket := b'\<rparr>)))"

definition writer_boot ::
  "'b writer_env \<Rightarrow> int list \<Rightarrow> 'b \<Rightarrow> novelty_row list \<Rightarrow> (string, jsstr) jsmap \<Rightarrow> (jsstr \<times> tx_ack) list \<Rightarrow> 'b transactor res" where
  "writer_boot env clk b rows m opmeta =
     rbind (boot_root env clk rows m (R2NodeStore b () ())) (\<lambda>(rec, rows', m', s, clk').
     let rts = recordToRoots rec
     in rbind (load_number m' ''next_eid'') (\<lambda>stored.
     let nextEid = (case stored of Some n \<Rightarrow> n | None \<Rightarrow> rr_next_eid rec)
     in rbind (readLogDatoms (ro_t rts) rows') (\<lambda>ds.
     rmap (\<lambda>c. \<lparr>wr_conn = c, wr_root = rec, wr_watermark = rr_log_watermark rec, wr_log = rows', wr_meta = m', wr_opmeta = opmeta,
            wr_recentAcks = fold (\<lambda>(k, a). jm_set k a) opmeta [], wr_recentOpAcks = fold (\<lambda>(k, a). jm_set k a) opmeta [],
            wr_queue = [], wr_txSinceIndex = max 0 (cn_basisT c - ro_t rts), wr_dead = None, wr_clock = clk', wr_settled = [],
            wr_broadcast = [], wr_txs = 0, wr_batches = 0, wr_maxBatch = 0, wr_rejected = 0, wr_indexRuns = 0\<rparr>)
       (Connection_restore (wv_nodes env) (wv_get env) s rts ds nextEid))))"

section \<open>Resolving a transaction\<close>

text \<open>What a batch builds up: the connection and the clock, the entries to write, the acknowledgements to give.\<close>

record 'b batch =
  gb_conn :: "('b, unit, unit) r2_store connection"
  gb_clock :: "int list"
  gb_entries :: "log_entry list"
  gb_acks :: "(pending_tx \<times> tx_ack) list"
  gb_batchAcks :: "(jsstr, tx_ack) jsmap"
  gb_settled :: "(nat \<times> (tx_failure + tx_ack)) list"
  gb_rejected :: nat

definition report_entry :: "tx_report \<Rightarrow> log_entry" where
  "report_entry rep =
     \<lparr>le_t = rp_t rep,
      le_txInstant = (case rp_txData rep of [] \<Rightarrow> 0 | d # ds \<Rightarrow> (case d_v d of VInst n \<Rightarrow> n | v \<Rightarrow> 0)),
      le_datoms = rp_txData rep\<rparr>"

definition commit_tx :: "'b writer_env \<Rightarrow> jsval list \<Rightarrow> 'b batch \<Rightarrow> tx_report res \<times> 'b batch" where
  "commit_tx env ops ba =
     (let (now, clk) = tick (gb_clock ba)
      in case transact (wv_fuel env) (wv_pf env) (wv_get env) ops now (gb_conn ba) of
           Inl e \<Rightarrow> (Inl e, ba\<lparr>gb_clock := clk\<rparr>)
         | Inr (rep, c') \<Rightarrow> (Inr rep, ba\<lparr>gb_clock := clk, gb_conn := c', gb_entries := gb_entries ba @ [report_entry rep]\<rparr>))"

definition batch_db :: "'b writer_env \<Rightarrow> 'b batch \<Rightarrow> db" where
  "batch_db env ba = conn_db (wv_get env) (gb_conn ba)"

text \<open>The peer-owned row of the caller is written before the transaction is judged, with a \<open>t\<close> of its own.\<close>

definition applyProvision :: "'b writer_env \<Rightarrow> pending_tx \<Rightarrow> 'b batch \<Rightarrow> pending_tx res \<times> 'b batch" where
  "applyProvision env p ba =
     (case (wv_policy env, pd_principal p) of
        (Some pol, Some who) \<Rightarrow>
          if \<not> shouldProvision who then (Inr p, ba)
          else (case provisionTx (fst (wv_fuel env)) (wv_pf env) pol who (batch_db env ba) of
              Inl e \<Rightarrow> (Inl e, ba)
            | Inr ops \<Rightarrow>
                (case (case ops of None \<Rightarrow> (Inr (), ba) | Some os \<Rightarrow> (case commit_tx env os ba of (r, ba') \<Rightarrow> (rmap (\<lambda>x. ()) r, ba'))) of
                   (Inl e, ba') \<Rightarrow> (Inl e, ba')
                 | (Inr u, ba') \<Rightarrow>
                     (rbind (resolveProvisionedEid (fst (wv_fuel env)) (wv_pf env) pol who (batch_db env ba')) (\<lambda>eid.
                        case eid of
                          None \<Rightarrow> Inr p
                        | Some k \<Rightarrow> rmap (\<lambda>e. p\<lparr>pd_principal := Some (who\<lparr>pr_eid := Some e\<rparr>)\<rparr>) (as_eid k)), ba')))
      | q \<Rightarrow> (Inr p, ba))"

text \<open>The entity of a caller that has a subject and is not resolved yet.\<close>

definition with_eid :: "'b writer_env \<Rightarrow> compiled_policy \<Rightarrow> principal \<Rightarrow> db \<Rightarrow> principal res" where
  "with_eid env pol who d =
     (if pr_eid who = None \<and> pr_sub who \<noteq> None then
        rbind (Db_entid (fst (wv_fuel env)) (wv_pf env) d (principal_ref pol who)) (\<lambda>eid.
          case eid of None \<Rightarrow> Inr who | Some k \<Rightarrow> rmap (\<lambda>e. who\<lparr>pr_eid := Some e\<rparr>) (as_eid k))
      else Inr who)"

definition authorize :: "'b writer_env \<Rightarrow> pending_tx \<Rightarrow> db \<Rightarrow> tx_failure + jsval list" where
  "authorize env p d =
     (case wv_policy env of
        None \<Rightarrow> Inr (pd_tx p)
      | Some pol \<Rightarrow>
          if pd_system p then Inr (pd_tx p)
          else (case pd_principal p of
              None \<Rightarrow> Inl (TxRejected ''policy'' None)
            | Some who \<Rightarrow>
                if isAdmin who then Inr (pd_tx p)
                else (case rbind (with_eid env pol who d) (\<lambda>w. checkTx (wv_runtime env) (wv_fuel env) (wv_cells env) (pd_tx p) d pol w None) of
                    Inl e \<Rightarrow> Inl (Thrown e)
                  | Inr (PolicyDenied a k) \<Rightarrow> Inl (TxRejected ''policy'' (Some a))
                  | Inr (CheckOk ops) \<Rightarrow> Inr ops)))"

text \<open>What the caller may see of the facts that landed, judged on the value after them.\<close>

definition ackDatoms :: "'b writer_env \<Rightarrow> datom list \<Rightarrow> principal option \<Rightarrow> db \<Rightarrow> wire_datom list res" where
  "ackDatoms env ds caller d =
     (case (wv_policy env, caller) of
        (Some pol, Some who) \<Rightarrow>
          if isAdmin who then Inr (map toWireDatom ds)
          else rbind (with_eid env pol who d) (\<lambda>w.
            case filterDb (RawDb d) (RawDb d) pol w (wv_cells env) None None of
              RawDb x \<Rightarrow> Inr (map toWireDatom ds)
            | FilteredDb f \<Rightarrow> rmap (\<lambda>(kept, m). map toWireDatom kept) (FilteredDb_keep (wv_runtime env) f ds (pv_memo (fd_view f))))
      | q \<Rightarrow> Inr (map toWireDatom ds))"

text \<open>A unique conflict names the value it collided with; under a policy only its code is told.\<close>

definition scrub :: "'b writer_env \<Rightarrow> tx_failure \<Rightarrow> pending_tx \<Rightarrow> tx_failure" where
  "scrub env err p =
     (case (wv_policy env, pd_principal p) of
        (Some pol, Some who) \<Rightarrow>
          if isAdmin who then err
          else (case err of
              Thrown (TxError msg code) \<Rightarrow> if code = ''tx/unique-conflict'' then TxRejected ''tx/unique-conflict'' None else err
            | e \<Rightarrow> e)
      | q \<Rightarrow> err)"

definition settle :: "nat \<Rightarrow> tx_failure + tx_ack \<Rightarrow> 'b batch \<Rightarrow> 'b batch" where
  "settle i r ba = ba\<lparr>gb_settled := gb_settled ba @ [(i, r)]\<rparr>"

definition reject_tx :: "'b writer_env \<Rightarrow> tx_failure \<Rightarrow> pending_tx \<Rightarrow> 'b batch \<Rightarrow> 'b batch" where
  "reject_tx env err p ba = settle (pd_id p) (Inl (scrub env err p)) (ba\<lparr>gb_rejected := gb_rejected ba + 1\<rparr>)"

definition replay_hit :: "(jsstr, tx_ack) jsmap \<Rightarrow> pending_tx \<Rightarrow> 'b batch \<Rightarrow> tx_ack option" where
  "replay_hit recent p ba =
     (case pd_clientTxId p of
        None \<Rightarrow> None
      | Some i \<Rightarrow>
          (case jm_get recent (clientTxReplayKey (pd_principal p) i) of
             Some a \<Rightarrow> Some a
           | None \<Rightarrow> jm_get (gb_batchAcks ba) (clientTxReplayKey (pd_principal p) i)))"

definition make_ack :: "pending_tx \<Rightarrow> tx_report \<Rightarrow> wire_datom list \<Rightarrow> tx_ack" where
  "make_ack p rep ds =
     \<lparr>ak_t = rp_t rep, ak_txEid = rp_txEid rep, ak_tempids = rp_tempids rep, ak_datoms = ds,
      ak_clientTxId = pd_clientTxId p, ak_output = pd_output p\<rparr>"

text \<open>
  One transaction of a batch. A failure after the commit, in reading what to acknowledge,
  rejects the caller although the entry stays in the batch.
\<close>

definition resolve_tx :: "'b writer_env \<Rightarrow> (jsstr, tx_ack) jsmap \<Rightarrow> pending_tx \<Rightarrow> 'b batch \<Rightarrow> 'b batch" where
  "resolve_tx env recent p ba =
     (case replay_hit recent p ba of
        Some a \<Rightarrow> settle (pd_id p) (Inr a) ba
      | None \<Rightarrow>
          (case (if pd_system p then (Inr p, ba) else applyProvision env p ba) of
             (Inl e, ba1) \<Rightarrow> reject_tx env (Thrown e) p ba1
           | (Inr p1, ba1) \<Rightarrow>
               (case authorize env p1 (batch_db env ba1) of
                  Inl f \<Rightarrow> reject_tx env f p1 ba1
                | Inr ops \<Rightarrow>
                    (case commit_tx env ops ba1 of
                       (Inl e, ba2) \<Rightarrow> reject_tx env (Thrown e) p1 ba2
                     | (Inr rep, ba2) \<Rightarrow>
                         (case ackDatoms env (rp_txData rep) (pd_principal p1) (batch_db env ba2) of
                            Inl e \<Rightarrow> reject_tx env (Thrown e) p1 ba2
                          | Inr ds \<Rightarrow>
                              (let a = make_ack p1 rep ds
                               in ba2\<lparr>gb_batchAcks := (case pd_clientTxId p1 of
                                      Some i \<Rightarrow> jm_set (clientTxReplayKey (pd_principal p1) i) a (gb_batchAcks ba2)
                                    | None \<Rightarrow> gb_batchAcks ba2),
                                    gb_acks := gb_acks ba2 @ [(p1, a)]\<rparr>))))))"

section \<open>Group commit\<close>

definition last_recent :: "'a list \<Rightarrow> 'a list" where
  "last_recent xs = drop (length xs - RECENT_CLIENT_TX_LIMIT) xs"

text \<open>The oldest of the remembered acknowledgements are forgotten once there are too many.\<close>

definition rememberAck :: "jsstr \<Rightarrow> tx_ack \<Rightarrow> bool \<Rightarrow> 'b transactor \<Rightarrow> 'b transactor" where
  "rememberAck i a persist w =
     (let w1 = w\<lparr>wr_recentAcks := last_recent (jm_set i a (wr_recentAcks w))\<rparr>
      in if persist then
           (let trimmed = last_recent (jm_set i a (wr_recentOpAcks w1))
            in w1\<lparr>wr_recentOpAcks := trimmed, wr_opmeta := trimmed\<rparr>)
         else w1)"

definition lookupOpAck :: "principal option \<Rightarrow> jsstr \<Rightarrow> 'b transactor \<Rightarrow> tx_ack option" where
  "lookupOpAck who i w =
     (case jm_get (wr_recentOpAcks w) (clientTxReplayKey who i) of
        Some a \<Rightarrow> Some a
      | None \<Rightarrow> jm_get (wr_recentAcks w) (clientTxReplayKey who i))"

text \<open>Submitting: a dead writer refuses, a recent client id gets its first acknowledgement again.\<close>

definition submit :: "pending_tx \<Rightarrow> 'b transactor \<Rightarrow> 'b transactor" where
  "submit p w =
     (case wr_dead w of
        Some reason \<Rightarrow> w\<lparr>wr_settled := wr_settled w @ [(pd_id p, Inl (TransactorDead reason))]\<rparr>
      | None \<Rightarrow>
          (case (case pd_clientTxId p of None \<Rightarrow> None | Some i \<Rightarrow> lookupOpAck (pd_principal p) i w) of
             Some a \<Rightarrow> w\<lparr>wr_settled := wr_settled w @ [(pd_id p, Inr a)]\<rparr>
           | None \<Rightarrow> w\<lparr>wr_queue := wr_queue w @ [p]\<rparr>))"

definition takeBatch :: "nat \<Rightarrow> pending_tx list \<Rightarrow> pending_tx list \<times> pending_tx list" where
  "takeBatch limit queue = (if 0 < limit \<and> limit < length queue then (take limit queue, drop limit queue) else (queue, []))"

definition open_batch :: "'b transactor \<Rightarrow> 'b batch" where
  "open_batch w =
     \<lparr>gb_conn = wr_conn w, gb_clock = wr_clock w, gb_entries = [], gb_acks = [], gb_batchAcks = [], gb_settled = [], gb_rejected = 0\<rparr>"

definition resolve_batch :: "'b writer_env \<Rightarrow> pending_tx list \<Rightarrow> 'b transactor \<Rightarrow> 'b batch" where
  "resolve_batch env ps w = fold (resolve_tx env (wr_recentAcks w)) ps (open_batch w)"

text \<open>The settlements of the resolve loop happen before the storage write.\<close>

definition close_batch :: "'b batch \<Rightarrow> 'b transactor \<Rightarrow> 'b transactor" where
  "close_batch gb w =
     w\<lparr>wr_conn := gb_conn gb, wr_clock := gb_clock gb, wr_settled := wr_settled w @ gb_settled gb,
       wr_rejected := wr_rejected w + gb_rejected gb\<rparr>"

definition op_acks :: "'b batch \<Rightarrow> (jsstr, tx_ack) jsmap" where
  "op_acks gb = filter (\<lambda>(k, a). ak_output a \<noteq> None) (gb_batchAcks gb)"

text \<open>
  The one storage write of a batch. It is atomic: \<open>fault\<close> is the statement that fails, if any,
  and then no table changes. The map of operation acknowledgements is memory and keeps what was
  put into it before the fault.
\<close>

definition write_batch :: "nat option \<Rightarrow> 'b batch \<Rightarrow> 'b transactor \<Rightarrow> 'b transactor \<times> jserr option" where
  "write_batch fault gb w =
     (case rfold appendLogRow (gb_entries gb) (wr_log w) of
        Inl e \<Rightarrow> (w, Some e)
      | Inr rows \<Rightarrow>
          (let stored = setMeta ''next_eid'' (JNum (NInt (cn_nextEid (gb_conn gb)))) (wr_meta w);
               ops = fold (\<lambda>(k, a). jm_set k a) (op_acks gb) (wr_recentOpAcks w);
               opsKept = (if op_acks gb = [] then wr_opmeta w else last_recent ops)
           in case fault of
                None \<Rightarrow> (w\<lparr>wr_log := rows, wr_meta := stored, wr_recentOpAcks := ops, wr_opmeta := opsKept\<rparr>, None)
              | Some k \<Rightarrow> (if length (gb_entries gb) < k then w\<lparr>wr_recentOpAcks := ops\<rparr> else w, Some (Error ''storage''))))"

definition die :: "string \<Rightarrow> jserr \<Rightarrow> pending_tx list \<Rightarrow> 'b transactor \<Rightarrow> 'b transactor" where
  "die reason cause inflight w =
     (if wr_dead w \<noteq> None then w
      else w\<lparr>wr_dead := Some reason, wr_queue := [],
             wr_settled := wr_settled w @ map (\<lambda>p. (pd_id p, Inl (Thrown cause))) inflight @
               map (\<lambda>p. (pd_id p, Inl (TransactorDead reason))) (wr_queue w)\<rparr>)"

definition finish_batch :: "'b batch \<Rightarrow> 'b transactor \<Rightarrow> 'b transactor" where
  "finish_batch gb w =
     (let n = length (gb_entries gb);
          w1 = w\<lparr>wr_txs := wr_txs w + n, wr_batches := wr_batches w + 1, wr_maxBatch := max (wr_maxBatch w) n,
                 wr_txSinceIndex := wr_txSinceIndex w + int n\<rparr>;
          w2 = fold (\<lambda>(k, a). rememberAck k a (ak_output a \<noteq> None)) (gb_batchAcks gb) w1
      in w2\<lparr>wr_settled := wr_settled w2 @ map (\<lambda>(p, a). (pd_id p, Inr a)) (gb_acks gb),
            wr_broadcast := wr_broadcast w2 @ map (\<lambda>e. TxFrame (txFrame e)) (gb_entries gb)\<rparr>)"

text \<open>One turn of the commit loop: nothing is written when no transaction of the batch landed.\<close>

definition commit_round :: "'b writer_env \<Rightarrow> nat option \<Rightarrow> 'b transactor \<Rightarrow> 'b transactor" where
  "commit_round env fault w =
     (if wr_queue w = [] \<or> wr_dead w \<noteq> None then w
      else
        let (ps, rest) = takeBatch (wv_maxBatch env) (wr_queue w);
            gb = resolve_batch env ps w;
            w1 = (close_batch gb w)\<lparr>wr_queue := rest\<rparr>
        in if gb_entries gb = [] then w1
           else (case write_batch fault gb w1 of
               (w2, Some e) \<Rightarrow> die ''log write failed'' e (map fst (gb_acks gb)) w2
             | (w2, None) \<Rightarrow> finish_batch gb w2))"

text \<open>The loop goes on while there is a queue; each round takes at least one transaction from it.\<close>

fun commitLoop :: "'b writer_env \<Rightarrow> nat option list \<Rightarrow> 'b transactor \<Rightarrow> 'b transactor" where
  "commitLoop env [] w = w"
| "commitLoop env (f # fs) w = (if wr_queue w = [] \<or> wr_dead w \<noteq> None then w else commitLoop env fs (commit_round env f w))"

text \<open>The upsert of a caller's row as a transaction of its own.\<close>

definition provision_pending :: "nat \<Rightarrow> principal \<Rightarrow> jsval list \<Rightarrow> pending_tx" where
  "provision_pending i who ops =
     \<lparr>pd_id = i, pd_tx = ops, pd_principal = Some who, pd_clientTxId = None, pd_output = None, pd_system = True\<rparr>"

section \<open>A batch extends the log\<close>

text \<open>
  What holds while a batch is resolved, for a writer whose connection was \<open>c\<close> and whose log is
  \<open>H\<close>: the connection has the facts of the log and of the entries, the entries continue the
  numbers of the log, and every acknowledgement to be given is of one of them.
\<close>

definition acks_in :: "log_entry list \<Rightarrow> tx_ack set \<Rightarrow> bool" where
  "acks_in H A \<longleftrightarrow> (\<forall>a\<in>A. \<exists>e\<in>set H. le_t e = ak_t a)"

definition batch_ok ::
  "'b writer_env \<Rightarrow> (('b, unit, unit) r2_store \<Rightarrow> bool) \<Rightarrow> log_entry list \<Rightarrow> (index \<Rightarrow> atree) \<Rightarrow>
    ('b, unit, unit) r2_store connection \<Rightarrow> 'b batch \<Rightarrow> bool" where
  "batch_ok env sok H T c gb \<longleftrightarrow>
     conn_inv (wv_get env) sok ref_storable datom_storable (gb_conn gb) T \<and>
     cn_store (gb_conn gb) = cn_store c \<and> cn_roots (gb_conn gb) = cn_roots c \<and>
     numbered (int (length H)) (gb_entries gb) \<and> (\<forall>e\<in>set (gb_entries gb). entry_storable e \<and> le_datoms e \<noteq> []) \<and>
     cn_basisT (gb_conn gb) = int (length H) + int (length (gb_entries gb)) \<and>
     (\<forall>i\<in>{EAVT, AEVT}. nv_abs (cn_novelty (gb_conn gb)) i = nv_abs (cn_novelty c) i \<union> set (concat (map le_datoms (gb_entries gb)))) \<and>
     acks_in (gb_entries gb) (snd ` set (gb_acks gb)) \<and> acks_in (gb_entries gb) (snd ` set (gb_batchAcks gb))"

lemma acks_in_append: "acks_in H A \<Longrightarrow> acks_in (H @ es) A" "acks_in es A \<Longrightarrow> acks_in (H @ es) A"
  by (auto simp: acks_in_def)

lemma acks_in_insert: "acks_in H (insert a A) \<longleftrightarrow> acks_in H {a} \<and> acks_in H A"
  by (auto simp: acks_in_def)

lemma acks_in_Un [simp]: "acks_in H (A \<union> B) \<longleftrightarrow> acks_in H A \<and> acks_in H B"
  by (auto simp: acks_in_def)

lemma acks_in_mono: "acks_in H A \<Longrightarrow> B \<subseteq> A \<Longrightarrow> acks_in H B"
  by (auto simp: acks_in_def)

lemma commit_tx_cases:
  assumes "commit_tx env ops gb = (r, gb')"
  obtains (failed) e clk where "r = Inl e" "gb' = gb\<lparr>gb_clock := clk\<rparr>"
    | (landed) rep c' now clk where "r = Inr rep" "transact (wv_fuel env) (wv_pf env) (wv_get env) ops now (gb_conn gb) = Inr (rep, c')"
      "gb' = gb\<lparr>gb_clock := clk, gb_conn := c', gb_entries := gb_entries gb @ [report_entry rep]\<rparr>"
  using assms by (auto simp: commit_tx_def split: prod.splits sum.splits)

lemma report_datoms [simp]: "le_datoms (report_entry rep) = rp_txData rep" "le_t (report_entry rep) = rp_t rep"
  by (simp_all add: report_entry_def)

lemma transact_t: "transact fuel pf get txData now c = Inr (rep, c') \<Longrightarrow> rp_t rep = cn_basisT c + 1"
  by (auto simp: transact_def Let_def res_simps)

lemma transact_nonempty: "transact fuel pf get txData now c = Inr (rep, c') \<Longrightarrow> rp_txData rep \<noteq> []"
  by (auto simp: transact_def processTx_def expandTx_def Let_def res_simps split: prod.splits)

lemma commit_tx_ok:
  assumes gb: "batch_ok env sok H T c gb" and r: "commit_tx env ops gb = (r, gb')"
    and st: "\<forall>e\<in>set (gb_entries gb'). entry_storable e"
  shows "batch_ok env sok H T c gb'"
  using r
proof (cases rule: commit_tx_cases)
  case (failed e clk)
  then show ?thesis using gb by (simp add: batch_ok_def)
next
  case (landed rep c' now clk)
  let ?e = "report_entry rep"
  have e: "entry_storable ?e" using st landed(3) by simp
  have I: "conn_inv (wv_get env) sok ref_storable datom_storable (gb_conn gb) T" using gb by (simp add: batch_ok_def)
  have "\<forall>x\<in>set (rp_txData rep). datom_ok x \<and> datom_storable x"
    using e by (auto simp: entry_storable_def datom_storable_def)
  from transact_inv [OF I landed(2) this]
  have c': "conn_inv (wv_get env) sok ref_storable datom_storable c' T" "cn_basisT c' = cn_basisT (gb_conn gb) + 1" by simp_all
  have R: "cn_store c' = cn_store (gb_conn gb)" "cn_roots c' = cn_roots (gb_conn gb)"
    "cn_novelty c' = nv_add (rp_txData rep) (isAvet (cn_schema c')) (isVaet (cn_schema c')) (cn_novelty (gb_conn gb))"
    using landed(2) by (auto simp: transact_def Let_def res_simps)
  have "\<forall>i\<in>{EAVT, AEVT}. nv_abs (cn_novelty c') i = nv_abs (cn_novelty (gb_conn gb)) i \<union> set (rp_txData rep)"
    unfolding R(3) by (auto simp: nv_add_abs)
  moreover have "le_t ?e = int (length H) + int (length (gb_entries gb)) + 1"
    using transact_t [OF landed(2)] gb by (simp add: batch_ok_def)
  moreover have "le_datoms ?e \<noteq> []" using transact_nonempty [OF landed(2)] by simp
  ultimately show ?thesis using gb c' R(1,2) e landed(3) acks_in_append(1) unfolding batch_ok_def by auto
qed

text \<open>Settling, acknowledging and rejecting leave the rest of a batch alone.\<close>

lemma settle_ok [simp]: "batch_ok env sok H T c (settle i r gb) = batch_ok env sok H T c gb"
  by (simp add: batch_ok_def settle_def)

lemma reject_ok [simp]: "batch_ok env sok H T c (reject_tx env err p gb) = batch_ok env sok H T c gb"
  by (simp add: batch_ok_def reject_tx_def settle_def)

lemma reject_entries [simp]: "gb_entries (reject_tx env err p gb) = gb_entries gb" "gb_entries (settle i r gb) = gb_entries gb"
  by (simp_all add: reject_tx_def settle_def)

lemma commit_entries: "commit_tx env ops gb = (r, gb') \<Longrightarrow> \<exists>es. gb_entries gb' = gb_entries gb @ es"
  by (erule commit_tx_cases) auto

lemma applyProvision_cases:
  assumes "applyProvision env p gb = (r, gb')"
  obtains "gb' = gb" | ops r' where "commit_tx env ops gb = (r', gb')"
  using assms by (auto simp: applyProvision_def split: option.splits if_splits prod.splits sum.splits)

lemma applyProvision_entries: "applyProvision env p gb = (r, gb') \<Longrightarrow> \<exists>es. gb_entries gb' = gb_entries gb @ es"
  by (erule applyProvision_cases) (auto dest: commit_entries)

lemma applyProvision_ok:
  "batch_ok env sok H T c gb \<Longrightarrow> applyProvision env p gb = (r, gb') \<Longrightarrow> \<forall>e\<in>set (gb_entries gb'). entry_storable e \<Longrightarrow>
    batch_ok env sok H T c gb'"
  by (erule applyProvision_cases) (auto intro: commit_tx_ok)

lemma applyProvision_pending:
  "applyProvision env p gb = (Inr p', gb') \<Longrightarrow> pd_id p' = pd_id p \<and> pd_clientTxId p' = pd_clientTxId p \<and> pd_system p' = pd_system p \<and>
    pd_tx p' = pd_tx p \<and> pd_output p' = pd_output p"
  by (auto simp: applyProvision_def res_simps split: option.splits if_splits prod.splits sum.splits)

text \<open>Which acknowledgements a batch gives before its write: remembered ones, and its own, to replays of them.\<close>

definition acks_of :: "'i \<times> (tx_failure + tx_ack) \<Rightarrow> tx_ack set" where
  "acks_of x = (case snd x of Inl f \<Rightarrow> {} | Inr a \<Rightarrow> {a})"

definition settled_acks :: "('i \<times> (tx_failure + tx_ack)) list \<Rightarrow> tx_ack set" where
  "settled_acks xs = \<Union> (acks_of ` set xs)"

lemma settled_acks_simps [simp]: "settled_acks [] = {}" "settled_acks (xs @ ys) = settled_acks xs \<union> settled_acks ys"
  "settled_acks [(i, Inr a)] = {a}" "settled_acks [(i, Inl f)] = {}" "settled_acks ((i, Inl f) # xs) = settled_acks xs"
  by (auto simp: settled_acks_def acks_of_def)

definition early_acks :: "(jsstr, tx_ack) jsmap \<Rightarrow> 'b batch \<Rightarrow> bool" where
  "early_acks recent gb \<longleftrightarrow>
     settled_acks (gb_settled gb) \<subseteq> snd ` set recent \<union> snd ` set (gb_acks gb) \<and>
     snd ` set (gb_batchAcks gb) \<subseteq> snd ` set (gb_acks gb)"

lemma jm_get_value: "jm_get m k = Some v \<Longrightarrow> v \<in> snd ` set m"
  using jm_get_mem by force

lemma jm_set_values: "snd ` set (jm_set k v m) \<subseteq> insert v (snd ` set m)"
proof (induction m)
  case (Cons x m)
  then show ?case by (cases x) (auto split: if_splits)
qed simp

lemma keyed_values: "snd ` set (case i of Some k \<Rightarrow> jm_set (f k) a m | None \<Rightarrow> m) \<subseteq> insert a (snd ` set m)"
  by (cases i) (simp_all add: jm_set_values, blast)

lemma commit_batchAcks: "commit_tx env ops gb = (r, gb') \<Longrightarrow> gb_batchAcks gb' = gb_batchAcks gb \<and> gb_acks gb' = gb_acks gb \<and> gb_settled gb' = gb_settled gb"
  by (erule commit_tx_cases) simp_all

lemma applyProvision_batchAcks:
  "applyProvision env p gb = (r, gb') \<Longrightarrow> gb_batchAcks gb' = gb_batchAcks gb \<and> gb_acks gb' = gb_acks gb \<and> gb_settled gb' = gb_settled gb"
  by (erule applyProvision_cases) (auto dest: commit_batchAcks)

lemma replay_hit_known: "replay_hit recent p gb = Some a \<Longrightarrow> a \<in> snd ` set recent \<union> snd ` set (gb_batchAcks gb)"
  by (auto simp: replay_hit_def split: option.splits dest: jm_get_value)

text \<open>The ways a transaction of a batch can end.\<close>

lemma resolve_tx_cases:
  obtains (replay) a where "replay_hit recent p gb = Some a" "resolve_tx env recent p gb = settle (pd_id p) (Inr a) gb"
  | (rejected) err p1 gb1 where "replay_hit recent p gb = None" "resolve_tx env recent p gb = reject_tx env err p1 gb1" "pd_id p1 = pd_id p"
      "gb1 = gb \<or> (\<exists>ops r. commit_tx env ops gb = (r, gb1)) \<or> (\<exists>ops r ops' r' gb'. commit_tx env ops gb = (r, gb') \<and> commit_tx env ops' gb' = (r', gb1))"
  | (acked) p1 gb1 ops rep gb2 ds where "replay_hit recent p gb = None" "pd_id p1 = pd_id p" "pd_clientTxId p1 = pd_clientTxId p"
      "gb1 = gb \<or> (\<exists>ops r. commit_tx env ops gb = (r, gb1))" "authorize env p1 (batch_db env gb1) = Inr ops"
      "commit_tx env ops gb1 = (Inr rep, gb2)" "ackDatoms env (rp_txData rep) (pd_principal p1) (batch_db env gb2) = Inr ds"
      "resolve_tx env recent p gb = gb2\<lparr>gb_batchAcks := (case pd_clientTxId p1 of
           Some i \<Rightarrow> jm_set (clientTxReplayKey (pd_principal p1) i) (make_ack p1 rep ds) (gb_batchAcks gb2)
         | None \<Rightarrow> gb_batchAcks gb2), gb_acks := gb_acks gb2 @ [(p1, make_ack p1 rep ds)]\<rparr>"
proof (cases "replay_hit recent p gb")
  case (Some a)
  then show ?thesis using replay by (simp add: resolve_tx_def)
next
  case None
  obtain r1 gb1 where r1: "(if pd_system p then (Inr p, gb) else applyProvision env p gb) = (r1, gb1)" by fastforce
  have g1: "gb1 = gb \<or> (\<exists>ops r. commit_tx env ops gb = (r, gb1))"
    using r1 by (auto split: if_splits elim!: applyProvision_cases)
  show ?thesis
  proof (cases r1)
    case (Inl e)
    have "resolve_tx env recent p gb = reject_tx env (Thrown e) p gb1"
      unfolding resolve_tx_def None option.case r1 Inl by simp
    then show ?thesis using rejected [OF None _ refl] g1 by blast
  next
    case (Inr p1)
    have p1: "pd_id p1 = pd_id p" "pd_clientTxId p1 = pd_clientTxId p"
      using r1 Inr applyProvision_pending [of env p gb p1 gb1] by (auto split: if_splits)
    note R = resolve_tx_def [of env recent p gb, unfolded None option.case r1 Inr prod.case sum.case]
    show ?thesis
    proof (cases "authorize env p1 (batch_db env gb1)")
      case (Inl f)
      then have "resolve_tx env recent p gb = reject_tx env f p1 gb1" using R by simp
      then show ?thesis using rejected [OF None _ p1(1), of f gb1] g1 by blast
    next
      case ops: (Inr ops)
      obtain r2 gb2 where c: "commit_tx env ops gb1 = (r2, gb2)" by fastforce
      have g2: "(\<exists>ops r. commit_tx env ops gb = (r, gb2)) \<or>
          (\<exists>ops r ops' r' gb'. commit_tx env ops gb = (r, gb') \<and> commit_tx env ops' gb' = (r', gb2))"
        using c g1 by blast
      show ?thesis
      proof (cases r2)
        case (Inl e)
        then have "resolve_tx env recent p gb = reject_tx env (Thrown e) p1 gb2" using R ops c by simp
        then show ?thesis using rejected [OF None _ p1(1), of "Thrown e" gb2] g2 by blast
      next
        case rep: (Inr rep)
        show ?thesis
        proof (cases "ackDatoms env (rp_txData rep) (pd_principal p1) (batch_db env gb2)")
          case (Inl e)
          then have "resolve_tx env recent p gb = reject_tx env (Thrown e) p1 gb2" using R ops c rep by simp
          then show ?thesis using rejected [OF None _ p1(1), of "Thrown e" gb2] g2 by blast
        next
          case (Inr ds)
          have "commit_tx env ops gb1 = (Inr rep, gb2)" using c rep by simp
          moreover from this have "resolve_tx env recent p gb = gb2\<lparr>gb_batchAcks := (case pd_clientTxId p1 of
              Some i \<Rightarrow> jm_set (clientTxReplayKey (pd_principal p1) i) (make_ack p1 rep ds) (gb_batchAcks gb2)
            | None \<Rightarrow> gb_batchAcks gb2), gb_acks := gb_acks gb2 @ [(p1, make_ack p1 rep ds)]\<rparr>"
            using R ops Inr by (simp add: Let_def)
          ultimately show ?thesis using acked [OF None p1 g1 ops _ Inr] by blast
        qed
      qed
    qed
  qed
qed

lemma resolve_tx_entries: "\<exists>es. gb_entries (resolve_tx env recent p gb) = gb_entries gb @ es"
proof (cases rule: resolve_tx_cases [of recent p gb env])
  case (rejected err p1 gb1)
  then have "\<exists>es. gb_entries gb1 = gb_entries gb @ es" by (auto dest!: commit_entries)
  then show ?thesis using rejected(2) by simp
next
  case (acked p1 gb1 ops rep gb2 ds)
  then have "\<exists>es. gb_entries gb2 = gb_entries gb @ es" using commit_entries [OF acked(6)] by (auto dest!: commit_entries)
  then show ?thesis using acked(8) by simp
qed simp

lemma resolve_batch_entries: "\<exists>es. gb_entries (fold (resolve_tx env recent) ps gb) = gb_entries gb @ es"
proof (induction ps arbitrary: gb)
  case (Cons p ps)
  obtain es where "gb_entries (resolve_tx env recent p gb) = gb_entries gb @ es" using resolve_tx_entries by blast
  moreover obtain fs where "gb_entries (fold (resolve_tx env recent) ps (resolve_tx env recent p gb)) =
      gb_entries (resolve_tx env recent p gb) @ fs" using Cons.IH by blast
  ultimately show ?case by simp
qed simp

lemma commit_storable:
  "commit_tx env ops gb = (r, gb') \<Longrightarrow> \<forall>e\<in>set (gb_entries gb'). entry_storable e \<Longrightarrow> \<forall>e\<in>set (gb_entries gb). entry_storable e"
  by (auto dest!: commit_entries)

lemma resolve_tx_ok:
  assumes gb: "batch_ok env sok H T c gb" and st: "\<forall>e\<in>set (gb_entries (resolve_tx env recent p gb)). entry_storable e"
  shows "batch_ok env sok H T c (resolve_tx env recent p gb)"
proof (cases rule: resolve_tx_cases [of recent p gb env])
  case (replay a)
  then show ?thesis using gb by simp
next
  case (rejected err p1 gb1)
  have "batch_ok env sok H T c gb1"
    using rejected(4)
  proof (elim disjE exE conjE)
    assume "gb1 = gb"
    then show ?thesis using gb by simp
  next
    fix ops r assume "commit_tx env ops gb = (r, gb1)"
    then show ?thesis using commit_tx_ok [OF gb] st rejected(2) by simp
  next
    fix ops r ops' r' gb' assume c: "commit_tx env ops gb = (r, gb')" "commit_tx env ops' gb' = (r', gb1)"
    have "\<forall>e\<in>set (gb_entries gb1). entry_storable e" using st rejected(2) by simp
    then show ?thesis using commit_tx_ok [OF commit_tx_ok [OF gb c(1)] c(2)] commit_storable [OF c(2)] by blast
  qed
  then show ?thesis using rejected(2) by simp
next
  case (acked p1 gb1 ops rep gb2 ds)
  have st2: "\<forall>e\<in>set (gb_entries gb2). entry_storable e" using st acked(8) by simp
  have g1: "batch_ok env sok H T c gb1"
    using acked(4) commit_tx_ok [OF gb] commit_storable [OF acked(6) st2] gb by blast
  have g2: "batch_ok env sok H T c gb2" by (rule commit_tx_ok [OF g1 acked(6) st2])
  have "report_entry rep \<in> set (gb_entries gb2)" using acked(6) by (cases rule: commit_tx_cases) auto
  then have a: "acks_in (gb_entries gb2) {make_ack p1 rep ds}" by (auto simp: acks_in_def make_ack_def intro!: bexI [of _ "report_entry rep"])
  have G: "acks_in (gb_entries gb2) (snd ` set (gb_acks gb2))" "acks_in (gb_entries gb2) (snd ` set (gb_batchAcks gb2))"
    using g2 by (simp_all add: batch_ok_def)
  have "acks_in (gb_entries gb2) (insert (make_ack p1 rep ds) (snd ` set (gb_acks gb2)))"
    unfolding acks_in_insert [of _ _ "snd ` set (gb_acks gb2)"] using a G(1) ..
  moreover have "acks_in (gb_entries gb2) (insert (make_ack p1 rep ds) (snd ` set (gb_batchAcks gb2)))"
    unfolding acks_in_insert [of _ _ "snd ` set (gb_batchAcks gb2)"] using a G(2) ..
  note acks_in_mono [OF this keyed_values [where i = "pd_clientTxId p1" and f = "clientTxReplayKey (pd_principal p1)"]]
  ultimately show ?thesis using g2 acked(8) by (simp add: batch_ok_def)
qed

lemma resolve_tx_early:
  assumes "early_acks recent gb"
  shows "early_acks recent (resolve_tx env recent p gb)"
proof (cases rule: resolve_tx_cases [of recent p gb env])
  case (replay a)
  then show ?thesis using assms replay_hit_known [OF replay(1)] by (auto simp: early_acks_def settle_def)
next
  case (rejected err p1 gb1)
  then have "gb_batchAcks gb1 = gb_batchAcks gb \<and> gb_acks gb1 = gb_acks gb \<and> gb_settled gb1 = gb_settled gb"
    by (auto dest!: commit_batchAcks)
  then have "early_acks recent gb1" using assms by (simp add: early_acks_def)
  then show ?thesis using rejected(2) by (simp add: early_acks_def reject_tx_def settle_def)
next
  case (acked p1 gb1 ops rep gb2 ds)
  then have "gb_batchAcks gb2 = gb_batchAcks gb \<and> gb_acks gb2 = gb_acks gb \<and> gb_settled gb2 = gb_settled gb"
    using commit_batchAcks [OF acked(6)] by (auto dest!: commit_batchAcks)
  then have "early_acks recent gb2" using assms by (simp add: early_acks_def)
  moreover have "snd ` set (case pd_clientTxId p1 of Some i \<Rightarrow> jm_set (clientTxReplayKey (pd_principal p1) i) (make_ack p1 rep ds) (gb_batchAcks gb2)
         | None \<Rightarrow> gb_batchAcks gb2) \<subseteq> insert (make_ack p1 rep ds) (snd ` set (gb_batchAcks gb2))"
    by (rule keyed_values)
  ultimately show ?thesis using acked(8) unfolding early_acks_def by auto
qed

lemma resolve_batch_ok:
  assumes "batch_ok env sok H T c gb" "\<forall>e\<in>set (gb_entries (fold (resolve_tx env recent) ps gb)). entry_storable e"
  shows "batch_ok env sok H T c (fold (resolve_tx env recent) ps gb)"
  using assms
proof (induction ps arbitrary: gb)
  case (Cons p ps)
  obtain es where "gb_entries (fold (resolve_tx env recent) ps (resolve_tx env recent p gb)) =
      gb_entries (resolve_tx env recent p gb) @ es" using resolve_batch_entries by blast
  then have "\<forall>e\<in>set (gb_entries (resolve_tx env recent p gb)). entry_storable e" using Cons.prems(2) by simp
  then show ?case using Cons.IH [OF resolve_tx_ok [OF Cons.prems(1)]] Cons.prems(2) by simp
qed simp

lemma resolve_batch_early: "early_acks recent gb \<Longrightarrow> early_acks recent (fold (resolve_tx env recent) ps gb)"
  by (induction ps arbitrary: gb) (simp_all add: resolve_tx_early)

section \<open>A writer and its log\<close>

text \<open>The tables hold the log since \<open>p\<close>, which is not after the root they name.\<close>

definition tables_hold :: "log_entry list \<Rightarrow> int \<Rightarrow> root_record \<Rightarrow> novelty_row list \<Rightarrow> (string, jsstr) jsmap \<Rightarrow> bool" where
  "tables_hold H p r rows m \<longleftrightarrow>
     0 \<le> p \<and> p \<le> rr_t r \<and> rr_t r \<le> int (length H) \<and> rows_hold H p (int (length H)) rows \<and>
     load_root m = Inr (Some r) \<and> (\<exists>n. load_number m ''next_eid'' = Inr (Some n))"

text \<open>What the trees of a root hold of a log, read through a store that has just been opened.\<close>

definition trees_hold ::
  "'b writer_env \<Rightarrow> (('b, unit, unit) r2_store \<Rightarrow> bool) \<Rightarrow> log_entry list \<Rightarrow> (index \<Rightarrow> atree) \<Rightarrow> root_record \<Rightarrow> 'b \<Rightarrow> bool" where
  "trees_hold env sok H T r b \<longleftrightarrow>
     sok (R2NodeStore b () ()) \<and>
     (\<forall>i. ref_storable (rootFor (recordToRoots r) i) \<and> wf_root i (T i) \<and> nodes (T i) < wv_nodes env \<and>
        represents (wv_get env (R2NodeStore b () ())) (rootFor (recordToRoots r) i) (T i) \<and>
        (\<forall>x\<in>set (contents (T i)). d_t x \<le> rr_t r)) \<and>
     (\<forall>i\<in>{EAVT, AEVT}. set (contents (T i)) = log_datoms H (rr_t r))"

text \<open>What a connection holds of a log: its trees the log up to its roots, its buffers the rest.\<close>

definition conn_holds ::
  "'b writer_env \<Rightarrow> (('b, unit, unit) r2_store \<Rightarrow> bool) \<Rightarrow> log_entry list \<Rightarrow> (index \<Rightarrow> atree) \<Rightarrow>
    ('b, unit, unit) r2_store connection \<Rightarrow> bool" where
  "conn_holds env sok H T c \<longleftrightarrow>
     conn_inv (wv_get env) sok ref_storable datom_storable c T \<and> cn_basisT c = int (length H) \<and>
     0 \<le> ro_t (cn_roots c) \<and> ro_t (cn_roots c) \<le> int (length H) \<and>
     (\<forall>i\<in>{EAVT, AEVT}. set (contents (T i)) = log_datoms H (ro_t (cn_roots c)) \<and>
        nv_abs (cn_novelty c) i = set (concat (map le_datoms (log_between H (ro_t (cn_roots c)) (int (length H))))))"

definition log_full :: "log_entry list \<Rightarrow> bool" where
  "log_full H \<longleftrightarrow> log_ok H \<and> (\<forall>e\<in>set H. le_datoms e \<noteq> [])"

text \<open>The invariant of a writer: its durable part always, its memory as long as it is alive.\<close>

definition writer_disk ::
  "'b writer_env \<Rightarrow> (('b, unit, unit) r2_store \<Rightarrow> bool) \<Rightarrow> log_entry list \<Rightarrow> int \<Rightarrow> (index \<Rightarrow> atree) \<Rightarrow> 'b transactor \<Rightarrow> bool" where
  "writer_disk env sok H p T w \<longleftrightarrow>
     tables_hold H p (wr_root w) (wr_log w) (wr_meta w) \<and>
     trees_hold env sok H T (wr_root w) (rs_bucket (cn_store (wr_conn w))) \<and> acks_in H (snd ` set (wr_opmeta w))"

definition writer_live ::
  "'b writer_env \<Rightarrow> (('b, unit, unit) r2_store \<Rightarrow> bool) \<Rightarrow> log_entry list \<Rightarrow> 'b transactor \<Rightarrow> bool" where
  "writer_live env sok H w \<longleftrightarrow>
     (\<exists>T. conn_holds env sok H T (wr_conn w)) \<and> rr_t (wr_root w) \<le> ro_t (cn_roots (wr_conn w)) \<and>
     acks_in H (snd ` set (wr_recentAcks w)) \<and> acks_in H (snd ` set (wr_recentOpAcks w))"

definition writer_holds ::
  "'b writer_env \<Rightarrow> (('b, unit, unit) r2_store \<Rightarrow> bool) \<Rightarrow> log_entry list \<Rightarrow> int \<Rightarrow> (index \<Rightarrow> atree) \<Rightarrow> 'b transactor \<Rightarrow> bool" where
  "writer_holds env sok H p T w \<longleftrightarrow>
     log_full H \<and> writer_disk env sok H p T w \<and> (wr_dead w = None \<longrightarrow> writer_live env sok H w)"

lemma appendLogRow_ok:
  assumes "entry_storable e" "le_t e \<notin> fst ` set rows"
  shows "appendLogRow e rows = Inr (rows @ [entry_row e])"
proof -
  have "encodeLogChunk [e] = Inr (log_bytes [e])" using assms(1) by (intro encodeLogChunk_bytes) simp_all
  then show ?thesis using assms(2) by (simp add: appendLogRow_def entry_row_def)
qed

lemma append_rows:
  assumes "numbered n es" "\<forall>e\<in>set es. entry_storable e" "\<forall>x\<in>set rows. fst x \<le> n"
  shows "rfold appendLogRow es rows = Inr (rows @ map entry_row es)"
  using assms
proof (induction es arbitrary: rows n)
  case (Cons e es)
  have e: "le_t e = n + 1" "numbered (n + 1) es" using Cons.prems(1) by simp_all
  have "le_t e \<notin> fst ` set rows" using Cons.prems(3) e(1) by fastforce
  then have "appendLogRow e rows = Inr (rows @ [entry_row e])" using Cons.prems(2) by (intro appendLogRow_ok) simp_all
  moreover have "\<forall>x\<in>set (rows @ [entry_row e]). fst x \<le> n + 1" using Cons.prems(3) e(1) by (auto simp: entry_row_def)
  ultimately show ?case using Cons.IH [OF e(2), of "rows @ [entry_row e]"] Cons.prems(2) by simp
qed simp

lemma numbered_distinct: "numbered n es \<Longrightarrow> distinct (map le_t es)"
proof (induction es arbitrary: n)
  case (Cons e es)
  then show ?case using numbered_t [of "n + 1" es] by fastforce
qed simp

lemma log_between_append:
  assumes "b \<le> int (length H)"
  shows "log_between (H @ es) a b = log_between H a b"
  using assms by (simp add: log_between_def nat_le_iff)

lemma log_between_extend:
  assumes "0 \<le> a" "a \<le> int (length H)"
  shows "log_between (H @ es) a (int (length (H @ es))) = log_between H a (int (length H)) @ es"
proof -
  have "nat a \<le> length H" using assms by (simp add: nat_le_iff)
  then have "nat a - length H = 0" by simp
  then show ?thesis by (simp add: log_between_def nat_add_distrib)
qed

lemma log_datoms_append:
  assumes "numbered 0 (H @ es)" "t \<le> int (length H)"
  shows "log_datoms (H @ es) t = log_datoms H t"
proof -
  have "numbered (int (length H)) es" using assms(1) by simp
  then have "\<forall>e\<in>set es. t < le_t e" using numbered_t assms(2) by fastforce
  then show ?thesis by (auto simp: log_datoms_def)
qed

lemma rows_hold_append:
  assumes "numbered 0 (H @ es)" "rows_hold H p (int (length H)) rows" "0 \<le> p" "p \<le> int (length H)"
  shows "rows_hold (H @ es) p (int (length (H @ es))) (rows @ map entry_row es)"
proof -
  have num: "numbered 0 H" "numbered (int (length H)) es" using assms(1) by simp_all
  have rows: "set rows = entry_row ` set (log_between H p (int (length H)))" "distinct (map fst rows)"
    using assms(2) by (simp_all add: rows_hold_def)
  have "set (rows @ map entry_row es) = entry_row ` set (log_between (H @ es) p (int (length (H @ es))))"
    unfolding log_between_extend [OF assms(3,4)] by (auto simp: rows(1))
  moreover have "distinct (map fst (map entry_row es))"
    using numbered_distinct [OF num(2)] by (simp add: comp_def entry_row_def)
  moreover have "fst x \<noteq> le_t e" if "x \<in> set rows" "e \<in> set es" for x e
  proof -
    have "fst x \<le> int (length H)" using that(1) rows(1) in_between [OF num(1) assms(3)] by (auto simp: entry_row_def)
    then show ?thesis using numbered_t [OF num(2) that(2)] by simp
  qed
  ultimately show ?thesis using rows(2) by (auto simp: rows_hold_def entry_row_def)
qed

lemma load_number_set: "load_number (setMeta k (JNum (NInt n)) m) k = Inr (Some n)"
  using json_parse_string [of "JNum (NInt n)"] by (simp add: load_number_def getMeta_def setMeta_def)

lemma load_root_other: "k \<noteq> ''root'' \<Longrightarrow> load_root (setMeta k v m) = load_root m"
  by (simp add: load_root_def getMeta_def setMeta_def)

lemma load_number_other: "k \<noteq> ''next_eid'' \<Longrightarrow> load_number (setMeta k v m) ''next_eid'' = load_number m ''next_eid''"
  by (simp add: load_number_def getMeta_def setMeta_def)

lemma tables_hold_append:
  assumes "numbered 0 (H @ es)" "tables_hold H p r rows m"
  shows "tables_hold (H @ es) p r (rows @ map entry_row es) (setMeta ''next_eid'' (JNum (NInt n)) m)"
proof -
  have "0 \<le> p" "p \<le> int (length H)" "rows_hold H p (int (length H)) rows" using assms(2) by (auto simp: tables_hold_def)
  from rows_hold_append [OF assms(1) this(3,1,2)] show ?thesis
    using assms(2) load_number_set [of "''next_eid''" n m] by (simp add: tables_hold_def load_root_other)
qed

lemma trees_hold_append:
  assumes "numbered 0 (H @ es)" "trees_hold env sok H T r b" "rr_t r \<le> int (length H)"
  shows "trees_hold env sok (H @ es) T r b"
  using assms(2) unfolding trees_hold_def log_datoms_append [OF assms(1,3)] .

lemma open_batch_ok: "conn_holds env sok H T (wr_conn w) \<Longrightarrow> batch_ok env sok H T (wr_conn w) (open_batch w)"
  by (simp add: batch_ok_def open_batch_def conn_holds_def acks_in_def)

lemma open_batch_early: "early_acks recent (open_batch w)"
  by (simp add: early_acks_def open_batch_def)

lemma conn_holds_append:
  assumes num: "numbered 0 H" and c: "conn_holds env sok H T c" and gb: "batch_ok env sok H T c gb"
  shows "conn_holds env sok (H @ gb_entries gb) T (gb_conn gb)"
proof -
  have r: "0 \<le> ro_t (cn_roots c)" "ro_t (cn_roots c) \<le> int (length H)" "cn_roots (gb_conn gb) = cn_roots c"
    using c gb by (simp_all add: conn_holds_def batch_ok_def)
  have "numbered 0 (H @ gb_entries gb)" using num gb by (simp add: batch_ok_def)
  from log_datoms_append [OF this r(2)] show ?thesis
    unfolding conn_holds_def r(3) log_between_extend [OF r(1,2)] using c gb by (simp add: batch_ok_def conn_holds_def)
qed

lemma log_full_append: "log_full H \<Longrightarrow> batch_ok env sok H T c gb \<Longrightarrow> log_full (H @ gb_entries gb)"
  by (auto simp: log_full_def log_ok_def batch_ok_def)

lemma set_last_recent: "set (last_recent xs) \<subseteq> set xs"
  by (simp add: last_recent_def set_drop_subset)

lemma values_jm_set: "snd ` set (jm_set k v m) \<subseteq> insert v (snd ` set m)"
  using keyed_values [where i = "Some k" and f = id and a = v and m = m] by simp

lemma values_fold_set: "snd ` set (fold (\<lambda>(k, a). jm_set k a) ops m) \<subseteq> snd ` set ops \<union> snd ` set m"
proof (induction ops arbitrary: m)
  case (Cons x ops)
  obtain k a where x: "x = (k, a)" by fastforce
  show ?case using Cons.IH [of "jm_set k a m"] values_jm_set [of k a m] by (auto simp: x)
qed simp

text \<open>What is remembered is of the log when what is added to it is; the rest of the writer stays.\<close>

definition remembers_of :: "log_entry list \<Rightarrow> 'b transactor \<Rightarrow> bool" where
  "remembers_of H w \<longleftrightarrow> acks_in H (snd ` set (wr_recentAcks w)) \<and> acks_in H (snd ` set (wr_recentOpAcks w)) \<and>
     acks_in H (snd ` set (wr_opmeta w))"

definition same_but_acks :: "'b transactor \<Rightarrow> 'b transactor \<Rightarrow> bool" where
  "same_but_acks w w' \<longleftrightarrow>
     w' = w\<lparr>wr_recentAcks := wr_recentAcks w', wr_recentOpAcks := wr_recentOpAcks w', wr_opmeta := wr_opmeta w'\<rparr>"

lemma same_but_acks_trans: "same_but_acks w w' \<Longrightarrow> same_but_acks w' w'' \<Longrightarrow> same_but_acks w w''"
  by (cases w; cases w'; cases w'') (simp add: same_but_acks_def)

lemma remember_values:
  assumes "acks_in H (snd ` set m)" "acks_in H {a}"
  shows "acks_in H (snd ` set (last_recent (jm_set i a m)))"
proof -
  have "snd ` set (last_recent (jm_set i a m)) \<subseteq> insert a (snd ` set m)"
    using set_last_recent [of "jm_set i a m"] values_jm_set [of i a m] by blast
  moreover have "acks_in H (insert a (snd ` set m))" unfolding acks_in_insert [of H a "snd ` set m"] using assms by blast
  ultimately show ?thesis by (rule acks_in_mono [rotated])
qed

lemma rememberAck_ok:
  assumes "remembers_of H w" "acks_in H {a}"
  shows "remembers_of H (rememberAck i a persist w) \<and> same_but_acks w (rememberAck i a persist w)"
  using assms remember_values [OF _ assms(2)]
  by (auto simp: remembers_of_def same_but_acks_def rememberAck_def Let_def)

lemma rememberAcks_ok:
  assumes "remembers_of H w" "acks_in H (snd ` set xs)"
  shows "remembers_of H (fold (\<lambda>(k, a). rememberAck k a (ak_output a \<noteq> None)) xs w) \<and>
    same_but_acks w (fold (\<lambda>(k, a). rememberAck k a (ak_output a \<noteq> None)) xs w)"
  using assms
proof (induction xs arbitrary: w)
  case Nil
  then show ?case by (simp add: same_but_acks_def)
next
  case (Cons x xs)
  obtain k a where x: "x = (k, a)" by fastforce
  have a: "acks_in H {a}" "acks_in H (snd ` set xs)" using Cons.prems(2) acks_in_insert [of H a "snd ` set xs"] by (simp_all add: x)
  let ?w = "rememberAck k a (ak_output a \<noteq> None) w"
  note r = rememberAck_ok [OF Cons.prems(1) a(1), of k "ak_output a \<noteq> None"]
  define w' where "w' = fold (\<lambda>(k, a). rememberAck k a (ak_output a \<noteq> None)) xs ?w"
  have "remembers_of H w' \<and> same_but_acks ?w w'" unfolding w'_def using Cons.IH [OF conjunct1 [OF r] a(2)] .
  moreover have "same_but_acks w ?w" using r by blast
  ultimately have "remembers_of H w' \<and> same_but_acks w w'"
    using same_but_acks_trans by blast
  then show ?case by (simp add: x w'_def)
qed

section \<open>A round of the commit loop\<close>

lemma rows_below:
  assumes "numbered 0 H" "rows_hold H p h rows" "0 \<le> p"
  shows "\<forall>x\<in>set rows. fst x \<le> h"
  using assms by (auto simp: rows_hold_def in_between entry_row_def)

lemma write_batch_lands:
  assumes "numbered n (gb_entries gb)" "\<forall>e\<in>set (gb_entries gb). entry_storable e" "\<forall>x\<in>set (wr_log w). fst x \<le> n"
  shows "write_batch None gb w =
    (w\<lparr>wr_log := wr_log w @ map entry_row (gb_entries gb),
       wr_meta := setMeta ''next_eid'' (JNum (NInt (cn_nextEid (gb_conn gb)))) (wr_meta w),
       wr_recentOpAcks := fold (\<lambda>(k, a). jm_set k a) (op_acks gb) (wr_recentOpAcks w),
       wr_opmeta := (if op_acks gb = [] then wr_opmeta w
         else last_recent (fold (\<lambda>(k, a). jm_set k a) (op_acks gb) (wr_recentOpAcks w)))\<rparr>, None)"
  using append_rows [OF assms] by (simp add: write_batch_def Let_def)

lemma write_batch_fails:
  "\<exists>ops e. write_batch (Some k) gb w = (w\<lparr>wr_recentOpAcks := ops\<rparr>, Some e)"
proof (cases "rfold appendLogRow (gb_entries gb) (wr_log w)")
  case (Inl e)
  then show ?thesis by (intro exI [of _ "wr_recentOpAcks w"] exI [of _ e]) (simp add: write_batch_def)
next
  case (Inr rows)
  show ?thesis
  proof (cases "length (gb_entries gb) < k")
    case True
    then show ?thesis
      by (intro exI [of _ "fold (\<lambda>(k, a). jm_set k a) (op_acks gb) (wr_recentOpAcks w)"] exI) (simp add: write_batch_def Inr Let_def)
  next
    case False
    then show ?thesis by (intro exI [of _ "wr_recentOpAcks w"] exI) (simp add: write_batch_def Inr Let_def)
  qed
qed

lemma op_acks_values: "snd ` set (op_acks gb) \<subseteq> snd ` set (gb_batchAcks gb)"
  by (auto simp: op_acks_def)

lemma finish_batch_facts:
  assumes "remembers_of H w" "acks_in H (snd ` set (gb_batchAcks gb))"
  shows "remembers_of H (finish_batch gb w) \<and> wr_conn (finish_batch gb w) = wr_conn w \<and> wr_root (finish_batch gb w) = wr_root w \<and>
    wr_log (finish_batch gb w) = wr_log w \<and> wr_meta (finish_batch gb w) = wr_meta w \<and> wr_dead (finish_batch gb w) = wr_dead w \<and>
    wr_queue (finish_batch gb w) = wr_queue w \<and>
    wr_settled (finish_batch gb w) = wr_settled w @ map (\<lambda>(p, a). (pd_id p, Inr a)) (gb_acks gb) \<and>
    wr_broadcast (finish_batch gb w) = wr_broadcast w @ map (\<lambda>e. TxFrame (txFrame e)) (gb_entries gb)"
proof -
  define n where "n = length (gb_entries gb)"
  define w1 where "w1 = w\<lparr>wr_txs := wr_txs w + n, wr_batches := wr_batches w + 1, wr_maxBatch := max (wr_maxBatch w) n,
    wr_txSinceIndex := wr_txSinceIndex w + int n\<rparr>"
  define w2 where "w2 = fold (\<lambda>(k, a). rememberAck k a (ak_output a \<noteq> None)) (gb_batchAcks gb) w1"
  have "remembers_of H w1" using assms(1) by (simp add: remembers_of_def w1_def)
  from rememberAcks_ok [OF this assms(2)] have w2: "remembers_of H w2" "same_but_acks w1 w2" unfolding w2_def by blast+
  have f: "finish_batch gb w = w2\<lparr>wr_settled := wr_settled w2 @ map (\<lambda>(p, a). (pd_id p, Inr a)) (gb_acks gb),
            wr_broadcast := wr_broadcast w2 @ map (\<lambda>e. TxFrame (txFrame e)) (gb_entries gb)\<rparr>"
    by (simp only: finish_batch_def Let_def n_def [symmetric] w1_def [symmetric] w2_def [symmetric])
  have "wr_conn w2 = wr_conn w1 \<and> wr_root w2 = wr_root w1 \<and> wr_log w2 = wr_log w1 \<and> wr_meta w2 = wr_meta w1 \<and>
      wr_dead w2 = wr_dead w1 \<and> wr_queue w2 = wr_queue w1 \<and> wr_settled w2 = wr_settled w1 \<and> wr_broadcast w2 = wr_broadcast w1"
    using w2(2) by (cases w1; cases w2) (simp add: same_but_acks_def)
  then show ?thesis using w2(1) by (simp add: f remembers_of_def w1_def)
qed

lemma settled_of_acks: "settled_acks (map (\<lambda>(p, a). (pd_id p, Inr a)) as) = snd ` set as"
  by (force simp: settled_acks_def acks_of_def)

text \<open>The batch of the next round, and what its promises are settled with before anything is written.\<close>

definition next_batch :: "'b writer_env \<Rightarrow> 'b transactor \<Rightarrow> 'b batch" where
  "next_batch env w = resolve_batch env (fst (takeBatch (wv_maxBatch env) (wr_queue w))) w"

definition batch_storable :: "'b batch \<Rightarrow> bool" where
  "batch_storable gb \<longleftrightarrow> (\<forall>e\<in>set (gb_entries gb). entry_storable e)"

lemma next_batch_ok:
  assumes "writer_holds env sok H p T w" "wr_dead w = None" "batch_storable (next_batch env w)"
  shows "\<exists>Tc. conn_holds env sok H Tc (wr_conn w) \<and> batch_ok env sok H Tc (wr_conn w) (next_batch env w) \<and>
    early_acks (wr_recentAcks w) (next_batch env w)"
proof -
  obtain Tc where "conn_holds env sok H Tc (wr_conn w)" using assms(1,2) by (auto simp: writer_holds_def writer_live_def)
  note this
  moreover from resolve_batch_ok [OF open_batch_ok [OF this]] resolve_batch_early [OF open_batch_early]
  have "batch_ok env sok H Tc (wr_conn w) (next_batch env w) \<and> early_acks (wr_recentAcks w) (next_batch env w)"
    using assms(3) unfolding next_batch_def resolve_batch_def batch_storable_def by blast
  ultimately show ?thesis by blast
qed

lemma acks_in_Nil: "acks_in [] (snd ` set as) \<Longrightarrow> as = []"
  by (cases as) (auto simp: acks_in_def)

definition round_start :: "'b writer_env \<Rightarrow> 'b transactor \<Rightarrow> 'b transactor" where
  "round_start env w = (close_batch (next_batch env w) w)\<lparr>wr_queue := snd (takeBatch (wv_maxBatch env) (wr_queue w))\<rparr>"

lemma commit_round_steps:
  assumes "wr_queue w \<noteq> []" "wr_dead w = None"
  shows "commit_round env fault w =
    (if gb_entries (next_batch env w) = [] then round_start env w
     else (case write_batch fault (next_batch env w) (round_start env w) of
         (w2, Some e) \<Rightarrow> die ''log write failed'' e (map fst (gb_acks (next_batch env w))) w2
       | (w2, None) \<Rightarrow> finish_batch (next_batch env w) w2))"
  using assms by (simp add: commit_round_def next_batch_def round_start_def split_beta Let_def)

lemma round_start_fields [simp]:
  "wr_root (round_start env w) = wr_root w" "wr_log (round_start env w) = wr_log w" "wr_meta (round_start env w) = wr_meta w"
  "wr_opmeta (round_start env w) = wr_opmeta w" "wr_dead (round_start env w) = wr_dead w"
  "wr_recentAcks (round_start env w) = wr_recentAcks w" "wr_recentOpAcks (round_start env w) = wr_recentOpAcks w"
  "wr_conn (round_start env w) = gb_conn (next_batch env w)" "wr_broadcast (round_start env w) = wr_broadcast w"
  "wr_settled (round_start env w) = wr_settled w @ gb_settled (next_batch env w)"
  "wr_queue (round_start env w) = snd (takeBatch (wv_maxBatch env) (wr_queue w))"
  by (simp_all add: round_start_def close_batch_def)

lemma early_acks_in:
  assumes "early_acks recent gb" "acks_in H (snd ` set recent)" "acks_in es (snd ` set (gb_acks gb))"
  shows "acks_in (H @ es) (settled_acks (gb_settled gb))"
proof -
  have "acks_in (H @ es) (snd ` set recent \<union> snd ` set (gb_acks gb))"
    using acks_in_append(1) [OF assms(2)] acks_in_append(2) [OF assms(3)] by simp
  moreover have "settled_acks (gb_settled gb) \<subseteq> snd ` set recent \<union> snd ` set (gb_acks gb)"
    using assms(1) by (simp add: early_acks_def)
  ultimately show ?thesis by (rule acks_in_mono)
qed

text \<open>A round whose write succeeds appends its entries to the log, and acknowledges only what the log has.\<close>

lemma round_commits:
  assumes W: "writer_holds env sok H p T w" and alive: "wr_dead w = None" and q: "wr_queue w \<noteq> []"
    and st: "batch_storable (next_batch env w)"
  defines "w' \<equiv> commit_round env None w" and "es \<equiv> gb_entries (next_batch env w)"
  shows "writer_holds env sok (H @ es) p T w' \<and> wr_dead w' = None \<and>
    wr_queue w' = snd (takeBatch (wv_maxBatch env) (wr_queue w)) \<and>
    wr_broadcast w' = wr_broadcast w @ map (\<lambda>e. TxFrame (txFrame e)) es \<and>
    (\<exists>xs. wr_settled w' = wr_settled w @ xs \<and> acks_in (H @ es) (settled_acks xs)) \<and>
    wr_settled w' = wr_settled w @ gb_settled (next_batch env w) @ map (\<lambda>(p, a). (pd_id p, Inr a)) (gb_acks (next_batch env w)) \<and>
    wr_root w' = wr_root w \<and> cn_roots (wr_conn w') = cn_roots (wr_conn w)"
proof -
  define gb where "gb = next_batch env w"
  define w1 where "w1 = round_start env w"
  have es: "es = gb_entries gb" by (simp add: es_def gb_def)
  obtain Tc where Tc: "conn_holds env sok H Tc (wr_conn w)" and gbo: "batch_ok env sok H Tc (wr_conn w) gb" "early_acks (wr_recentAcks w) gb"
    using next_batch_ok [OF W alive st] unfolding gb_def by blast
  have G: "numbered (int (length H)) es" "\<forall>e\<in>set es. entry_storable e" "acks_in es (snd ` set (gb_acks gb))"
    "acks_in es (snd ` set (gb_batchAcks gb))" "cn_store (gb_conn gb) = cn_store (wr_conn w)"
    "cn_roots (gb_conn gb) = cn_roots (wr_conn w)"
    using gbo(1) by (simp_all add: batch_ok_def es)
  have L: "log_full H" "numbered 0 H" "tables_hold H p (wr_root w) (wr_log w) (wr_meta w)"
    "trees_hold env sok H T (wr_root w) (rs_bucket (cn_store (wr_conn w)))" "acks_in H (snd ` set (wr_opmeta w))"
    "acks_in H (snd ` set (wr_recentAcks w))" "acks_in H (snd ` set (wr_recentOpAcks w))"
    "rr_t (wr_root w) \<le> ro_t (cn_roots (wr_conn w))"
    using W alive by (simp_all add: writer_holds_def writer_disk_def writer_live_def log_full_def log_ok_def)
  have r: "0 \<le> rr_t (wr_root w)" "rr_t (wr_root w) \<le> int (length H)" "0 \<le> p" "rows_hold H p (int (length H)) (wr_log w)"
    using L(3) by (auto simp: tables_hold_def)
  have num: "numbered 0 (H @ es)" using L(2) G(1) by simp
  have full: "log_full (H @ es)" using log_full_append [OF L(1) gbo(1)] by (simp add: es)
  have conn: "\<exists>T. conn_holds env sok (H @ es) T (gb_conn gb)" using conn_holds_append [OF L(2) Tc gbo(1)] unfolding es by blast
  have trees: "trees_hold env sok (H @ es) T (wr_root w) (rs_bucket (cn_store (gb_conn gb)))"
    unfolding G(5) by (rule trees_hold_append [OF num L(4) r(2)])
  have early: "acks_in (H @ es) (settled_acks (gb_settled gb))" by (rule early_acks_in [OF gbo(2) L(6) G(3)])
  note U = commit_round_steps [OF q alive, of env None, folded gb_def w1_def]
  show ?thesis
  proof (cases "es = []")
    case True
    then have "w' = w1" using U by (simp add: w'_def es)
    moreover have "gb_acks gb = []" using True G(3) by (intro acks_in_Nil) simp
    ultimately show ?thesis
      using True L G(6) full conn trees early alive
      by (simp add: w1_def gb_def [symmetric] writer_holds_def writer_disk_def writer_live_def)
  next
    case False
    define ops where "ops = fold (\<lambda>(k, a). jm_set k a) (op_acks gb) (wr_recentOpAcks w)"
    define m where "m = setMeta ''next_eid'' (JNum (NInt (cn_nextEid (gb_conn gb)))) (wr_meta w)"
    define w2 where "w2 = w1\<lparr>wr_log := wr_log w @ map entry_row es, wr_meta := m, wr_recentOpAcks := ops,
      wr_opmeta := (if op_acks gb = [] then wr_opmeta w else last_recent ops)\<rparr>"
    have "write_batch None gb w1 = (w2, None)"
      using write_batch_lands [of "int (length H)" gb w1] G rows_below [OF L(2) r(4,3)]
      by (simp add: es w2_def w1_def ops_def m_def gb_def [symmetric])
    then have w': "w' = finish_batch gb w2" using False U by (simp add: w'_def es)
    have opsin: "acks_in (H @ es) (snd ` set ops)"
    proof -
      have "snd ` set ops \<subseteq> snd ` set (gb_batchAcks gb) \<union> snd ` set (wr_recentOpAcks w)"
        using values_fold_set [of "op_acks gb" "wr_recentOpAcks w"] op_acks_values [of gb] unfolding ops_def by blast
      moreover have "acks_in (H @ es) (snd ` set (gb_batchAcks gb) \<union> snd ` set (wr_recentOpAcks w))"
        using acks_in_append(2) [OF G(4)] acks_in_append(1) [OF L(7)] by simp
      ultimately show ?thesis by (rule acks_in_mono [rotated])
    qed
    have "acks_in (H @ es) (snd ` set (last_recent ops))"
      by (rule acks_in_mono [OF opsin]) (use set_last_recent [of ops] in blast)
    then have rem: "remembers_of (H @ es) w2"
      using opsin acks_in_append(1) [OF L(5)] acks_in_append(1) [OF L(6)] by (simp add: remembers_of_def w2_def w1_def)
    note F = finish_batch_facts [OF rem acks_in_append(2) [OF G(4)], folded w']
    have tab: "tables_hold (H @ es) p (wr_root w) (wr_log w @ map entry_row es) m"
      unfolding m_def by (rule tables_hold_append [OF num L(3)])
    have set: "wr_settled w' = wr_settled w @ (gb_settled gb @ map (\<lambda>(p, a). (pd_id p, Inr a)) (gb_acks gb))"
      using F by (simp add: w2_def w1_def gb_def [symmetric])
    have "acks_in (H @ es) (settled_acks (gb_settled gb) \<union> snd ` set (gb_acks gb))"
      using early acks_in_append(2) [OF G(3)] by simp
    then have "acks_in (H @ es) (settled_acks (gb_settled gb @ map (\<lambda>(p, a). (pd_id p, Inr a)) (gb_acks gb)))"
      by (simp add: settled_of_acks)
    moreover have "writer_holds env sok (H @ es) p T w'"
      using F L(8) G(6) full conn trees tab
      by (simp add: writer_holds_def writer_disk_def writer_live_def remembers_of_def w2_def w1_def gb_def [symmetric])
    ultimately show ?thesis
      using F G(6) alive set by (intro conjI exI [of _ "gb_settled gb @ map (\<lambda>(p, a). (pd_id p, Inr a)) (gb_acks gb)"])
        (simp_all add: w2_def w1_def es gb_def [symmetric])
  qed
qed

text \<open>A round whose write fails leaves the tables as they were and kills the writer.\<close>

lemma die_fields [simp]:
  "wr_root (die reason e ps w) = wr_root w" "wr_log (die reason e ps w) = wr_log w" "wr_meta (die reason e ps w) = wr_meta w"
  "wr_opmeta (die reason e ps w) = wr_opmeta w" "wr_conn (die reason e ps w) = wr_conn w"
  "wr_broadcast (die reason e ps w) = wr_broadcast w"
  "wr_dead (die reason e ps w) = (if wr_dead w = None then Some reason else wr_dead w)"
  "wr_queue (die reason e ps w) = (if wr_dead w = None then [] else wr_queue w)"
  by (simp_all add: die_def)

lemma settled_failures: "settled_acks (map (\<lambda>p. (g p, Inl (f p))) ps) = {}"
  by (auto simp: settled_acks_def acks_of_def)

lemma settled_acks_append [simp]: "settled_acks (xs @ ys) = settled_acks xs \<union> settled_acks ys"
  by (fact settled_acks_simps(2))

lemma round_fails:
  fixes k :: nat
  assumes W: "writer_holds env sok H p T w" and alive: "wr_dead w = None" and q: "wr_queue w \<noteq> []"
    and st: "batch_storable (next_batch env w)" and es: "gb_entries (next_batch env w) \<noteq> []"
  defines "w' \<equiv> commit_round env (Some k) w"
  shows "writer_holds env sok H p T w' \<and> wr_dead w' \<noteq> None \<and> wr_queue w' = [] \<and> wr_log w' = wr_log w \<and>
    wr_meta w' = wr_meta w \<and> wr_opmeta w' = wr_opmeta w \<and> wr_broadcast w' = wr_broadcast w \<and>
    (\<exists>xs. wr_settled w' = wr_settled w @ xs \<and> settled_acks xs = settled_acks (gb_settled (next_batch env w)))"
proof -
  obtain ops e where wb: "write_batch (Some k) (next_batch env w) (round_start env w) =
      ((round_start env w)\<lparr>wr_recentOpAcks := ops\<rparr>, Some e)"
    using write_batch_fails by blast
  have w': "w' = die ''log write failed'' e (map fst (gb_acks (next_batch env w))) ((round_start env w)\<lparr>wr_recentOpAcks := ops\<rparr>)"
    using commit_round_steps [OF q alive, of env "Some k"] es by (simp add: wb w'_def)
  have "cn_store (gb_conn (next_batch env w)) = cn_store (wr_conn w)"
    using next_batch_ok [OF W alive st] by (auto simp: batch_ok_def)
  then have "writer_holds env sok H p T w'"
    using W alive by (simp add: w' writer_holds_def writer_disk_def)
  moreover define xs where "xs = gb_settled (next_batch env w) @ map (\<lambda>p. (pd_id p, Inl (Thrown e))) (map fst (gb_acks (next_batch env w))) @
      map (\<lambda>p. (pd_id p, Inl (TransactorDead ''log write failed''))) (wr_queue (round_start env w))"
  have "wr_settled w' = wr_settled w @ xs" using alive by (simp add: w' xs_def die_def)
  moreover have "settled_acks xs = settled_acks (gb_settled (next_batch env w))"
    unfolding xs_def settled_acks_append settled_failures by simp
  ultimately show ?thesis using alive by (simp add: w')
qed

section \<open>Every promise is settled once\<close>

definition promised :: "'b batch \<Rightarrow> nat multiset" where
  "promised gb = mset (map fst (gb_settled gb)) + mset (map (\<lambda>x. pd_id (fst x)) (gb_acks gb))"

lemma promised_settle [simp]: "promised (settle i r gb) = add_mset i (promised gb)"
  by (simp add: promised_def settle_def)

lemma promised_reject [simp]: "promised (reject_tx env err p gb) = add_mset (pd_id p) (promised gb)"
  by (simp add: reject_tx_def) (simp add: promised_def)

lemma promised_same:
  "gb_batchAcks gb' = gb_batchAcks gb \<and> gb_acks gb' = gb_acks gb \<and> gb_settled gb' = gb_settled gb \<Longrightarrow> promised gb' = promised gb"
  by (simp add: promised_def)

lemma promised_commit: "commit_tx env ops gb = (r, gb') \<Longrightarrow> promised gb' = promised gb"
  by (intro promised_same commit_batchAcks)

lemma resolve_tx_promised: "promised (resolve_tx env recent p gb) = add_mset (pd_id p) (promised gb)"
proof (cases rule: resolve_tx_cases [of recent p gb env])
  case (rejected err p1 gb1)
  then have "promised gb1 = promised gb" by (auto dest!: promised_commit)
  then show ?thesis using rejected(2,3) by simp
next
  case (acked p1 gb1 ops rep gb2 ds)
  then have "promised gb2 = promised gb" by (auto dest!: promised_commit)
  then show ?thesis using acked(2,8) by (simp add: promised_def)
qed simp

lemma resolve_batch_promised: "promised (resolve_batch env ps w) = mset (map pd_id ps)"
proof -
  have "promised (fold (resolve_tx env recent) ps gb) = mset (map pd_id ps) + promised gb" for recent gb
    by (induction ps arbitrary: gb) (simp_all add: resolve_tx_promised)
  then show ?thesis by (simp add: resolve_batch_def open_batch_def promised_def)
qed

lemma takeBatch_parts: "fst (takeBatch n q) @ snd (takeBatch n q) = q" "q \<noteq> [] \<Longrightarrow> fst (takeBatch n q) \<noteq> []"
  by (auto simp: takeBatch_def)

lemma rememberAcks_same: "same_but_acks w (fold (\<lambda>(k, a). rememberAck k a (ak_output a \<noteq> None)) xs w)"
proof (induction xs arbitrary: w)
  case Nil
  then show ?case by (simp add: same_but_acks_def)
next
  case (Cons x xs)
  obtain k a where x: "x = (k, a)" by fastforce
  have "same_but_acks w (rememberAck k a (ak_output a \<noteq> None) w)" by (simp add: same_but_acks_def rememberAck_def Let_def)
  then show ?case using Cons.IH [of "rememberAck k a (ak_output a \<noteq> None) w"] same_but_acks_trans by (simp add: x) blast
qed

lemma finish_batch_settled:
  "wr_settled (finish_batch gb w) = wr_settled w @ map (\<lambda>(p, a). (pd_id p, Inr a)) (gb_acks gb) \<and>
   wr_queue (finish_batch gb w) = wr_queue w \<and> wr_dead (finish_batch gb w) = wr_dead w"
proof -
  define n where "n = length (gb_entries gb)"
  define w1 where "w1 = w\<lparr>wr_txs := wr_txs w + n, wr_batches := wr_batches w + 1, wr_maxBatch := max (wr_maxBatch w) n,
    wr_txSinceIndex := wr_txSinceIndex w + int n\<rparr>"
  define w2 where "w2 = fold (\<lambda>(k, a). rememberAck k a (ak_output a \<noteq> None)) (gb_batchAcks gb) w1"
  have "same_but_acks w1 w2" unfolding w2_def by (rule rememberAcks_same)
  then have "wr_dead w2 = wr_dead w1 \<and> wr_queue w2 = wr_queue w1 \<and> wr_settled w2 = wr_settled w1"
    by (cases w1; cases w2) (simp add: same_but_acks_def)
  moreover have "finish_batch gb w = w2\<lparr>wr_settled := wr_settled w2 @ map (\<lambda>(p, a). (pd_id p, Inr a)) (gb_acks gb),
            wr_broadcast := wr_broadcast w2 @ map (\<lambda>e. TxFrame (txFrame e)) (gb_entries gb)\<rparr>"
    by (simp only: finish_batch_def Let_def n_def [symmetric] w1_def [symmetric] w2_def [symmetric])
  ultimately show ?thesis by (simp add: w1_def)
qed

lemma write_batch_frame:
  "write_batch fault gb w = (w2, r) \<Longrightarrow> wr_settled w2 = wr_settled w \<and> wr_queue w2 = wr_queue w \<and> wr_dead w2 = wr_dead w"
  by (auto simp: write_batch_def Let_def split: sum.splits option.splits if_splits)

lemma batch_no_entries_acks: "gb_entries (resolve_batch env ps w) = [] \<Longrightarrow> gb_acks (resolve_batch env ps w) = []"
proof -
  have step: "length (gb_acks (resolve_tx env recent p gb)) \<le> length (gb_entries (resolve_tx env recent p gb))"
    if "length (gb_acks gb) \<le> length (gb_entries gb)" for recent p gb
  proof (cases rule: resolve_tx_cases [of recent p gb env])
    case (replay a)
    then show ?thesis using that by (simp add: settle_def)
  next
    case (rejected err p1 gb1)
    have "gb_acks gb1 = gb_acks gb" using rejected(4) by (auto dest!: commit_batchAcks)
    moreover have "\<exists>es. gb_entries gb1 = gb_entries gb @ es" using rejected(4) by (auto dest!: commit_entries)
    ultimately show ?thesis using rejected(2) that by (auto simp: reject_tx_def settle_def)
  next
    case (acked p1 gb1 ops rep gb2 ds)
    have "gb_acks gb2 = gb_acks gb" using acked(4,6) by (auto dest!: commit_batchAcks)
    moreover have "\<exists>es. gb_entries gb1 = gb_entries gb @ es" using acked(4) by (auto dest!: commit_entries)
    moreover have "gb_entries gb2 = gb_entries gb1 @ [report_entry rep]" using acked(6) by (cases rule: commit_tx_cases) auto
    ultimately show ?thesis using acked(8) that by auto
  qed
  have "length (gb_acks gb) \<le> length (gb_entries gb) \<Longrightarrow>
      length (gb_acks (fold (resolve_tx env recent) ps gb)) \<le> length (gb_entries (fold (resolve_tx env recent) ps gb))" for recent gb
    by (induction ps arbitrary: gb) (simp_all add: step)
  from this [of "open_batch w" "wr_recentAcks w"] show "gb_entries (resolve_batch env ps w) = [] \<Longrightarrow> ?thesis"
    by (simp add: resolve_batch_def open_batch_def)
qed

lemma acked_ids: "map fst (map (\<lambda>(p, a). (pd_id p, Inr a)) as) = map (\<lambda>x. pd_id (fst x)) as"
  by auto

lemma round_settles:
  assumes q: "wr_queue w \<noteq> []" and alive: "wr_dead w = None"
  shows "\<exists>xs. wr_settled (commit_round env fault w) = wr_settled w @ xs \<and>
    mset (map fst xs) + mset (map pd_id (wr_queue (commit_round env fault w))) = mset (map pd_id (wr_queue w)) \<and>
    length (wr_queue (commit_round env fault w)) < length (wr_queue w) \<and>
    (wr_dead (commit_round env fault w) \<noteq> None \<longrightarrow> wr_queue (commit_round env fault w) = [])"
proof -
  obtain ps rest where t: "takeBatch (wv_maxBatch env) (wr_queue w) = (ps, rest)" by fastforce
  have q2: "wr_queue w = ps @ rest" "ps \<noteq> []" using takeBatch_parts(1) [of "wv_maxBatch env" "wr_queue w"] takeBatch_parts(2) [OF q, of "wv_maxBatch env"] t by simp_all
  define gb where "gb = next_batch env w"
  have gb: "gb = resolve_batch env ps w" by (simp add: gb_def next_batch_def t)
  have pr: "mset (map fst (gb_settled gb)) + mset (map (\<lambda>x. pd_id (fst x)) (gb_acks gb)) = mset (map pd_id ps)"
    using resolve_batch_promised [of env ps w] by (simp add: promised_def gb)
  define w1 where "w1 = round_start env w"
  have w1: "wr_settled w1 = wr_settled w @ gb_settled gb" "wr_queue w1 = rest" "wr_dead w1 = None"
    using alive by (simp_all add: w1_def gb_def t)
  note U = commit_round_steps [OF q alive, of env fault, folded gb_def w1_def]
  show ?thesis
  proof (cases "gb_entries gb = []")
    case True
    then have "gb_acks gb = []" using batch_no_entries_acks by (simp add: gb)
    then show ?thesis using True U pr w1 q2 by simp
  next
    case False
    obtain w2 r where wb: "write_batch fault gb w1 = (w2, r)" by fastforce
    note f = write_batch_frame [OF wb]
    show ?thesis
    proof (cases r)
      case None
      then have "commit_round env fault w = finish_batch gb w2" using U False wb by simp
      then show ?thesis
        using finish_batch_settled [of gb w2] f w1 pr q2
        by (intro exI [of _ "gb_settled gb @ map (\<lambda>(p, a). (pd_id p, Inr a)) (gb_acks gb)"])
          (simp add: acked_ids del: mset_map map_map)
    next
      case (Some e)
      then have "commit_round env fault w = die ''log write failed'' e (map fst (gb_acks gb)) w2" using U False wb by simp
      then show ?thesis
        using f w1 pr q2 by (simp add: die_def multiset.map_comp comp_def union_assoc [symmetric])
    qed
  qed
qed

lemma commitLoop_settles:
  "\<exists>xs. wr_settled (commitLoop env fs w) = wr_settled w @ xs \<and>
    mset (map fst xs) + mset (map pd_id (wr_queue (commitLoop env fs w))) = mset (map pd_id (wr_queue w)) \<and>
    length (wr_queue (commitLoop env fs w)) \<le> length (wr_queue w) - length fs \<or> wr_dead w \<noteq> None"
proof (induction fs arbitrary: w)
  case (Cons f fs)
  show ?case
  proof (cases "wr_queue w = [] \<or> wr_dead w \<noteq> None")
    case True
    then show ?thesis by auto
  next
    case False
    then obtain xs where xs: "wr_settled (commit_round env f w) = wr_settled w @ xs"
      "mset (map fst xs) + mset (map pd_id (wr_queue (commit_round env f w))) = mset (map pd_id (wr_queue w))"
      "length (wr_queue (commit_round env f w)) < length (wr_queue w)"
      "wr_dead (commit_round env f w) \<noteq> None \<longrightarrow> wr_queue (commit_round env f w) = []"
      using round_settles by blast
    have L: "commitLoop env (f # fs) w = commitLoop env fs (commit_round env f w)" using False by simp
    show ?thesis
    proof (cases "wr_dead (commit_round env f w) = None")
      case True
      with Cons.IH [of "commit_round env f w"] obtain ys where ys:
        "wr_settled (commitLoop env fs (commit_round env f w)) = wr_settled (commit_round env f w) @ ys"
        "mset (map fst ys) + mset (map pd_id (wr_queue (commitLoop env fs (commit_round env f w)))) = mset (map pd_id (wr_queue (commit_round env f w)))"
        "length (wr_queue (commitLoop env fs (commit_round env f w))) \<le> length (wr_queue (commit_round env f w)) - length fs" by blast
      show ?thesis unfolding L using xs ys by (intro disjI1 exI [of _ "xs @ ys"]) (simp add: union_assoc)
    next
      case dead: False
      then have "commitLoop env fs (commit_round env f w) = commit_round env f w" by (cases fs) simp_all
      moreover have "wr_queue (commit_round env f w) = []" using xs(4) dead by blast
      ultimately show ?thesis unfolding L using xs by (intro disjI1 exI [of _ xs]) simp
    qed
  qed
qed (auto intro: exI [of _ "[]"])

section \<open>A restart holds what the tables hold\<close>

lemma numbered_last: "numbered c es \<Longrightarrow> es \<noteq> [] \<Longrightarrow> le_t (last es) = c + int (length es)"
  by (induction es arbitrary: c) (auto split: if_splits)

lemma readLogEntries_between:
  assumes H: "log_ok H" and rows: "rows_hold H p (int (length H)) rows" and b: "0 \<le> p" "p \<le> a" "a \<le> int (length H)"
  shows "readLogEntries a u k rows = Inr (take k (log_between H a (min u (int (length H)))))"
proof -
  have num: "numbered 0 H" using H by (simp add: log_ok_def)
  have a0: "0 \<le> a" using b by linarith
  let ?es = "log_between H a (int (length H))"
  have "rows_hold H a (max (int (length H)) a) (rows_drop a rows)" by (rule rows_drop_hold [OF num rows b(1,2)])
  then have "rows_after a (rows_drop a rows) = map entry_row ?es"
    using rows_after_hold [OF num _ a0] b(3) by (simp add: max_absorb1)
  then have r: "rows_after a rows = map entry_row ?es" by (simp add: rows_after_def rows_drop_def)
  have f: "filter (\<lambda>x. fst x \<le> u) (map entry_row ?es) = map entry_row (log_between H a (min u (int (length H))))"
  proof -
    have "filter (\<lambda>x. fst x \<le> u) (map entry_row es) = map entry_row (filter (\<lambda>e. le_t e \<le> u) es)" for es
      by (induction es) (simp_all add: entry_row_def)
    moreover have "filter (\<lambda>e. le_t e \<le> u) ?es = log_between H a (min u (int (length H)))"
      unfolding between_filter [OF num a0] by (auto intro: filter_cong)
    ultimately show ?thesis by simp
  qed
  have st: "\<forall>e\<in>set (take k (log_between H a (min u (int (length H))))). entry_storable e"
    using set_log_between [of H a "min u (int (length H))"] H by (auto simp: log_ok_def dest: in_set_takeD)
  show ?thesis unfolding readLogEntries_def r f take_map by (rule rmaplist_rows [OF st])
qed

lemma log_small: "log_ok H \<Longrightarrow> int (length H) \<le> MAX_SAFE_INTEGER"
proof (cases "H = []")
  case False
  assume H: "log_ok H"
  have "last H \<in> set H" using False by simp
  then have "le_t (last H) \<le> MAX_SAFE_INTEGER"
    using H by (auto simp: log_ok_def entry_storable_def id_ok_def MAX_ID_def MAX_SAFE_INTEGER_def)
  moreover have "le_t (last H) = int (length H)"
    using H False numbered_last [of 0 H] by (simp add: log_ok_def)
  ultimately show ?thesis by simp
qed (simp add: MAX_SAFE_INTEGER_def)

lemma readLogDatoms_holds:
  assumes H: "log_ok H" and rows: "rows_hold H p (int (length H)) rows" and b: "0 \<le> p" "p \<le> a" "a \<le> int (length H)"
    and few: "int (length H) - a \<le> int LOG_READ_LIMIT"
  shows "readLogDatoms a rows = Inr (concat (map le_datoms (log_between H a (int (length H)))))"
proof -
  have "length (log_between H a (int (length H))) \<le> LOG_READ_LIMIT" using length_log_between [OF _ b(3), of H] b few by simp
  then show ?thesis
    using readLogEntries_between [OF H rows b, of MAX_SAFE_INTEGER LOG_READ_LIMIT] log_small [OF H]
    by (simp add: readLogDatoms_def min_absorb2)
qed

lemma deriveSchema_inv:
  "deriveSchema n src rts = Inr sc \<Longrightarrow> schema_inv sc \<and> ident_inv sc \<and> schema_maps_ok sc"
proof -
  assume d: "deriveSchema n src rts = Inr sc"
  obtain s0 where s0: "Schema_bootstrap = Inr s0" "schema_inv s0" "ident_inv s0" "schema_maps_ok s0" using bootstrap_both by metis
  obtain dss where "sc = Schema_apply (concat dss) s0" using d by (auto simp: deriveSchema_def s0(1) Let_def res_simps)
  then show ?thesis using s0 by (simp add: Schema_apply_inv Schema_apply_ident_inv Schema_apply_maps)
qed

lemma fold_later_t: "fold (\<lambda>d t. if d_t d > t then d_t d else t) ds b = fold max (map d_t ds) (b :: int)"
  by (induction ds arbitrary: b) (simp_all add: max_def)

lemma fold_max_reaches:
  assumes "\<forall>x\<in>set xs. x \<le> m" "m \<in> set xs \<or> m = (b :: int)" "b \<le> m"
  shows "fold max xs b = m"
  using assms
proof (induction xs arbitrary: b)
  case (Cons x xs)
  then show ?case by (auto simp: max_def)
qed simp

text \<open>The newest \<open>t\<close> of the entries after a root is that of the log.\<close>

lemma newest_t:
  assumes H: "log_full H" and a: "0 \<le> a" "a \<le> int (length H)"
  shows "fold max (map d_t (concat (map le_datoms (log_between H a (int (length H)))))) a = int (length H)"
proof (rule fold_max_reaches)
  have num: "numbered 0 H" and sto: "\<forall>e\<in>set H. entry_storable e" and ne: "\<forall>e\<in>set H. le_datoms e \<noteq> []"
    using H by (auto simp: log_full_def log_ok_def)
  note I = in_between [OF num a(1), of _ "int (length H)"]
  have t: "d_t x = le_t e" if "e \<in> set H" "x \<in> set (le_datoms e)" for e x
    using sto that by (simp add: entry_storable_def)
  show "\<forall>x\<in>set (map d_t (concat (map le_datoms (log_between H a (int (length H)))))). x \<le> int (length H)"
    using I t by auto
  show "int (length H) \<in> set (map d_t (concat (map le_datoms (log_between H a (int (length H)))))) \<or> int (length H) = a"
  proof (cases "int (length H) = a")
    case False
    then have "H \<noteq> []" using a by auto
    then have e: "last H \<in> set H" by simp
    have "le_t (last H) = int (length H)" using numbered_last [OF num \<open>H \<noteq> []\<close>] by simp
    moreover from this have "last H \<in> set (log_between H a (int (length H)))" using I [of "last H"] e False a(2) by simp
    moreover obtain x where "x \<in> set (le_datoms (last H))" using ne e by (meson list.set_sel(1))
    ultimately show ?thesis using t [OF e] by force
  qed simp
qed (use a in simp)

lemma restore_holds:
  assumes H: "log_full H" and tab: "tables_hold H p r rows m" and T: "trees_hold env sok H T r b"
    and ds: "ds = concat (map le_datoms (log_between H (rr_t r) (int (length H))))"
  shows "\<exists>c. Connection_restore (wv_nodes env) (wv_get env) (R2NodeStore b () ()) (recordToRoots r) ds n = Inr c \<and>
    conn_holds env sok H T c \<and> cn_store c = R2NodeStore b () () \<and> cn_roots c = recordToRoots r"
proof -
  let ?s = "R2NodeStore b () ()" and ?rts = "recordToRoots r"
  have num: "numbered 0 H" "log_ok H" using H by (simp_all add: log_full_def log_ok_def)
  have rt: "0 \<le> rr_t r" "rr_t r \<le> int (length H)" using tab by (auto simp: tables_hold_def)
  have tr: "sok ?s" "\<forall>i. represents (wv_get env ?s) (rootFor ?rts i) (T i) \<and> wf_root i (T i) \<and> nodes (T i) < wv_nodes env"
    "\<forall>i. ref_storable (rootFor ?rts i)" "\<forall>i. \<forall>x\<in>set (contents (T i)). d_t x \<le> rr_t r"
    using T by (simp_all add: trees_hold_def)
  obtain sc where sc: "deriveSchema (wv_nodes env) (wv_get env ?s) ?rts = Inr sc" using deriveSchema_returns [OF tr(2)] by blast
  note sci = deriveSchema_inv [OF sc]
  have ro: "ro_t ?rts = rr_t r" by (simp add: recordToRoots_def)
  have sub: "set (log_between H (rr_t r) (int (length H))) \<subseteq> set H" by (rule set_log_between)
  have dsok: "\<forall>x\<in>set ds. datom_ok x \<and> datom_storable x \<and> d_t x \<le> int (length H)"
  proof
    fix x assume "x \<in> set ds"
    then obtain e where e: "e \<in> set H" "x \<in> set (le_datoms e)" using sub by (auto simp: ds)
    have "entry_storable e" using e(1) num(2) by (simp add: log_ok_def)
    then have "datom_storable x" "d_t x = le_t e" using e(2) by (simp_all add: entry_storable_def)
    then show "datom_ok x \<and> datom_storable x \<and> d_t x \<le> int (length H)"
      using numbered_t [OF num(1) e(1)] by (simp add: datom_storable_def)
  qed
  define sc' where "sc' = (if ds = [] then sc else Schema_apply ds (Schema_clone sc))"
  define c where "c = \<lparr>cn_store = ?s, cn_roots = ?rts, cn_novelty = nv_add ds (isAvet sc') (isVaet sc') Novelty_new, cn_schema = sc',
    cn_basisT = int (length H), cn_nextEid = (if ds = [] then n else fold maxE_step ds (n - 1) + 1), cn_rootHistory = [?rts]\<rparr>"
  have basis: "fold (\<lambda>d t. if d_t d > t then d_t d else t) ds (rr_t r) = int (length H)"
    unfolding fold_later_t unfolding ds by (rule newest_t [OF H rt])
  have "Connection_restore (wv_nodes env) (wv_get env) ?s ?rts ds n = Inr c"
    by (cases "ds = []") (use basis in \<open>simp_all add: Connection_restore_def sc ro applyDatoms_def Let_def c_def sc'_def nv_add_def\<close>)
  moreover have abs: "nv_abs (cn_novelty c) i = {d \<in> set ds. keeps (isAvet sc') (isVaet sc') i d}" for i by (simp add: c_def nv_add_abs)
  have "conn_inv (wv_get env) sok ref_storable datom_storable c T"
    unfolding conn_inv_def
  proof (intro conjI)
    have "nv_inv (nv_add ds (isAvet sc') (isVaet sc') Novelty_new)" by (rule nv_add_inv [OF nv_inv_new]) (use dsok in simp)
    then show "db_rep (conn_db (wv_get env) c) T" using tr(2) by (simp add: db_rep_def c_def)
    show "db_bounded (conn_db (wv_get env) c) T"
      using tr(4) remaining_maxT [of _ ds "isAvet sc'" "isVaet sc'"] by (simp add: db_bounded_def c_def ro)
    show "\<forall>i. \<forall>x\<in>db_datoms_in (conn_db (wv_get env) c) T i. d_t x \<le> cn_basisT c"
    proof (intro allI ballI)
      fix i x assume "x \<in> db_datoms_in (conn_db (wv_get env) c) T i"
      then consider "x \<in> set (contents (T i))" | "x \<in> set ds" by (auto simp: db_datoms_in_def abs)
      then show "d_t x \<le> cn_basisT c" using tr(4) rt(2) dsok by cases (force simp: c_def)+
    qed
    have sci': "schema_inv sc' \<and> ident_inv sc' \<and> schema_maps_ok sc'"
      using sci by (simp add: sc'_def Schema_clone_id Schema_apply_inv Schema_apply_ident_inv Schema_apply_maps)
    show "schema_inv (cn_schema c)" "ident_inv (cn_schema c)" "schema_maps_ok (cn_schema c)" using sci' by (simp_all add: c_def)
    show "\<forall>i. \<forall>x\<in>nv_abs (cn_novelty c) i. datom_storable x" unfolding abs using dsok by simp
  qed (use tr in \<open>simp_all add: c_def\<close>)
  then have "conn_holds env sok H T c"
    using T rt ro unfolding conn_holds_def abs trees_hold_def by (auto simp: c_def ds)
  ultimately show ?thesis by (intro exI [of _ c]) (simp add: c_def)
qed

text \<open>Booting from the tables of a writer, dead or alive, gives a live writer of the same log.\<close>

definition reboot :: "'b writer_env \<Rightarrow> int list \<Rightarrow> 'b transactor \<Rightarrow> 'b transactor res" where
  "reboot env clk w = writer_boot env clk (rs_bucket (cn_store (wr_conn w))) (wr_log w) (wr_meta w) (wr_opmeta w)"

lemma fold_set_acks: "acks_in H (snd ` set ops) \<Longrightarrow> acks_in H (snd ` set (fold (\<lambda>(k, a). jm_set k a) ops []))"
  using values_fold_set [of ops "[]"] by (simp add: acks_in_mono)

lemma fold_set_hit: "(k, a) \<in> set ops \<or> jm_get m k \<noteq> None \<Longrightarrow> jm_get (fold (\<lambda>(k, a). jm_set k a) ops m) k \<noteq> None"
  by (induction ops arbitrary: m) (auto split: prod.splits)

lemma writer_boot_holds:
  assumes L: "log_full H" "tables_hold H p r rows m" "trees_hold env sok H T r b" "acks_in H (snd ` set opmeta)"
    and few: "int (length H) - rr_t r \<le> int LOG_READ_LIMIT"
  shows "\<exists>w. writer_boot env clk b rows m opmeta = Inr w \<and> writer_holds env sok H p T w \<and> wr_dead w = None \<and>
    wr_queue w = [] \<and> wr_settled w = [] \<and> wr_broadcast w = [] \<and> wr_root w = r \<and> wr_log w = rows \<and> wr_meta w = m \<and>
    wr_clock w = clk \<and> cn_basisT (wr_conn w) = int (length H) \<and> rs_bucket (cn_store (wr_conn w)) = b \<and>
    wr_recentAcks w = fold (\<lambda>(k, a). jm_set k a) opmeta [] \<and>
    wr_recentOpAcks w = fold (\<lambda>(k, a). jm_set k a) opmeta [] \<and> conn_holds env sok H T (wr_conn w) \<and>
    cn_roots (wr_conn w) = recordToRoots r"
proof -
  have tab: "0 \<le> p" "p \<le> rr_t r" "rr_t r \<le> int (length H)" "rows_hold H p (int (length H)) rows" "load_root m = Inr (Some r)"
    using L(2) by (simp_all add: tables_hold_def)
  obtain n where n: "load_number m ''next_eid'' = Inr (Some n)" using L(2) by (auto simp: tables_hold_def)
  have ro: "ro_t (recordToRoots r) = rr_t r" by (simp add: recordToRoots_def)
  have "log_ok H" using L(1) by (simp add: log_full_def)
  from readLogDatoms_holds [OF this tab(4,1,2,3) few]
  have ds: "readLogDatoms (rr_t r) rows = Inr (concat (map le_datoms (log_between H (rr_t r) (int (length H)))))" .
  obtain c where c: "Connection_restore (wv_nodes env) (wv_get env) (R2NodeStore b () ()) (recordToRoots r)
      (concat (map le_datoms (log_between H (rr_t r) (int (length H))))) n = Inr c"
    "conn_holds env sok H T c" "cn_store c = R2NodeStore b () ()" "cn_roots c = recordToRoots r"
    using restore_holds [OF L(1-3) refl, of n] by blast
  define w' where "w' = \<lparr>wr_conn = c, wr_root = r, wr_watermark = rr_log_watermark r, wr_log = rows, wr_meta = m, wr_opmeta = opmeta,
            wr_recentAcks = fold (\<lambda>(k, a). jm_set k a) opmeta [], wr_recentOpAcks = fold (\<lambda>(k, a). jm_set k a) opmeta [],
            wr_queue = [], wr_txSinceIndex = max 0 (cn_basisT c - rr_t r), wr_dead = None, wr_clock = clk, wr_settled = [],
            wr_broadcast = [], wr_txs = 0, wr_batches = 0, wr_maxBatch = 0, wr_rejected = 0, wr_indexRuns = 0\<rparr>"
  have root: "boot_root env clk rows m s = Inr (r, rows, m, s, clk)" for s
    by (simp add: boot_root_def tab(5))
  have "writer_boot env clk b rows m opmeta = Inr w'"
    unfolding writer_boot_def root by (simp add: n ro ds c(1) w'_def)
  moreover have "writer_holds env sok H p T w'"
    using L c fold_set_acks [OF L(4)]
    by (auto simp: writer_holds_def writer_disk_def writer_live_def w'_def R2NodeStore_def ro)
  moreover have "cn_basisT c = int (length H)" using c(2) by (simp add: conn_holds_def)
  ultimately show ?thesis by (intro exI [of _ w'] conjI; (simp add: w'_def c(2-4) R2NodeStore_def; fail)?)
qed

lemma reboot_holds:
  assumes W: "writer_holds env sok H p T w" and few: "int (length H) - rr_t (wr_root w) \<le> int LOG_READ_LIMIT"
  shows "\<exists>w'. reboot env clk w = Inr w' \<and> writer_holds env sok H p T w' \<and> wr_dead w' = None \<and> wr_queue w' = [] \<and>
    wr_settled w' = [] \<and> wr_root w' = wr_root w \<and> cn_basisT (wr_conn w') = int (length H) \<and> wr_broadcast w' = [] \<and>
    (\<forall>k a. (k, a) \<in> set (wr_opmeta w) \<longrightarrow> jm_get (wr_recentOpAcks w') k \<noteq> None) \<and> conn_holds env sok H T (wr_conn w') \<and>
    cn_roots (wr_conn w') = recordToRoots (wr_root w)"
proof -
  have L: "log_full H" "tables_hold H p (wr_root w) (wr_log w) (wr_meta w)"
    "trees_hold env sok H T (wr_root w) (rs_bucket (cn_store (wr_conn w)))" "acks_in H (snd ` set (wr_opmeta w))"
    using W by (simp_all add: writer_holds_def writer_disk_def)
  note hit = fold_set_hit [OF disjI1, of _ _ "wr_opmeta w" "[]"]
  from writer_boot_holds [OF L few, of clk] hit show ?thesis unfolding reboot_def by metis
qed

section \<open>Runs of a writer\<close>

lemma jm_get_acks: "jm_get m k = Some a \<Longrightarrow> acks_in H (snd ` set m) \<Longrightarrow> acks_in H {a}"
  using jm_get_value [of m k a] by (auto simp: acks_in_def)

lemma submit_holds:
  assumes W: "writer_holds env sok H p T w"
  shows "writer_holds env sok H p T (submit q w) \<and>
    (\<exists>xs. wr_settled (submit q w) = wr_settled w @ xs \<and> acks_in H (settled_acks xs))"
proof (cases "wr_dead w")
  case (Some reason)
  then show ?thesis using W by (simp add: submit_def writer_holds_def writer_disk_def acks_in_def)
next
  case None
  then have L: "acks_in H (snd ` set (wr_recentAcks w))" "acks_in H (snd ` set (wr_recentOpAcks w))"
    using W by (simp_all add: writer_holds_def writer_live_def)
  let ?hit = "case pd_clientTxId q of None \<Rightarrow> None | Some i \<Rightarrow> lookupOpAck (pd_principal q) i w"
  show ?thesis
  proof (cases ?hit)
    case hit: None
    then show ?thesis using W None by (simp add: submit_def writer_holds_def writer_disk_def writer_live_def acks_in_def)
  next
    case (Some a)
    then have "acks_in H {a}" using L by (auto simp: lookupOpAck_def dest: jm_get_acks split: option.splits)
    moreover have "submit q w = w\<lparr>wr_settled := wr_settled w @ [(pd_id q, Inr a)]\<rparr>" using None Some by (simp add: submit_def)
    ultimately show ?thesis using W None by (simp add: writer_holds_def writer_disk_def writer_live_def)
  qed
qed

text \<open>
  What happens to a database and its writer: a call arrives, a batch is committed (its write may
  fail at any statement). The log grows by what a write stored; \<open>A\<close> collects every acknowledgement that any caller was given. A batch whose write
  fails must not have answered a replay of one of its own transactions.
\<close>

definition answered :: "'b transactor \<Rightarrow> 'b transactor \<Rightarrow> tx_ack set" where
  "answered w w' = settled_acks (drop (length (wr_settled w)) (wr_settled w'))"

inductive writer_step ::
  "'b writer_env \<Rightarrow> log_entry list \<times> tx_ack set \<times> 'b transactor \<Rightarrow> log_entry list \<times> tx_ack set \<times> 'b transactor \<Rightarrow> bool" for env where
  arrive: "writer_step env (H, A, w) (H, A \<union> answered w (submit q w), submit q w)"
| commit: "wr_dead w = None \<Longrightarrow> wr_queue w \<noteq> [] \<Longrightarrow> batch_storable (next_batch env w) \<Longrightarrow>
    writer_step env (H, A, w)
      (H @ gb_entries (next_batch env w), A \<union> answered w (commit_round env None w), commit_round env None w)"
| fail: "wr_dead w = None \<Longrightarrow> wr_queue w \<noteq> [] \<Longrightarrow> batch_storable (next_batch env w) \<Longrightarrow> gb_entries (next_batch env w) \<noteq> [] \<Longrightarrow>
    settled_acks (gb_settled (next_batch env w)) \<subseteq> snd ` set (wr_recentAcks w) \<Longrightarrow>
    writer_step env (H, A, w) (H, A \<union> answered w (commit_round env (Some k) w), commit_round env (Some k) w)"

inductive_cases writer_stepE: "writer_step env (H, A, w) (H', A', w')"

lemma answered_new: "wr_settled w' = wr_settled w @ xs \<Longrightarrow> answered w w' = settled_acks xs"
  by (simp add: answered_def)

lemma acks_in_prefix: "acks_in H A \<Longrightarrow> \<exists>es. H' = H @ es \<Longrightarrow> acks_in H' A"
  using acks_in_append(1) by blast

lemma writer_step_holds:
  assumes st: "writer_step env (H, A, w) (H', A', w')" and W: "writer_holds env sok H p T w" and A: "acks_in H A"
  shows "(\<exists>es. H' = H @ es) \<and> A \<subseteq> A' \<and> writer_holds env sok H' p T w' \<and> acks_in H' A' \<and>
    (wr_dead w' = None \<longrightarrow> wr_dead w = None \<and> wr_root w' = wr_root w \<and> cn_roots (wr_conn w') = cn_roots (wr_conn w))"
  using st
proof (elim writer_stepE)
  fix q assume new: "H = H'" "A' = A \<union> answered w (submit q w)" "w' = submit q w"
  then obtain xs where "wr_settled w' = wr_settled w @ xs" "acks_in H (settled_acks xs)" using submit_holds [OF W, of q] by auto
  then have "acks_in H (answered w w')" by (simp only: answered_new)
  moreover have "wr_dead (submit q w) = wr_dead w" "wr_root (submit q w) = wr_root w" "wr_conn (submit q w) = wr_conn w"
    by (simp_all add: submit_def split: option.splits)
  ultimately show ?thesis using new submit_holds [OF W, of q] A by simp
next
  assume new: "H' = H @ gb_entries (next_batch env w)" "A' = A \<union> answered w (commit_round env None w)" "w' = commit_round env None w"
    and c: "wr_dead w = None" "wr_queue w \<noteq> []" "batch_storable (next_batch env w)"
  note r = round_commits [OF W c]
  then obtain xs where xs: "wr_settled w' = wr_settled w @ xs" "acks_in H' (settled_acks xs)" using new by auto
  have "acks_in H' A" using acks_in_append(1) [OF A] new by simp
  then show ?thesis using r xs new c answered_new [OF xs(1)] by simp
next
  fix k assume new: "H' = H" "A' = A \<union> answered w (commit_round env (Some k) w)" "w' = commit_round env (Some k) w"
    and c: "wr_dead w = None" "wr_queue w \<noteq> []" "batch_storable (next_batch env w)" "gb_entries (next_batch env w) \<noteq> []"
    and replays: "settled_acks (gb_settled (next_batch env w)) \<subseteq> snd ` set (wr_recentAcks w)"
  note r = round_fails [OF W c, of k]
  then obtain xs where xs: "wr_settled w' = wr_settled w @ xs" "settled_acks xs = settled_acks (gb_settled (next_batch env w))"
    using new by auto
  have "acks_in H (snd ` set (wr_recentAcks w))" using W c(1) by (simp add: writer_holds_def writer_live_def)
  from acks_in_mono [OF this replays] show ?thesis using r new A xs(2) answered_new [OF xs(1)] by auto
qed

text \<open>The database value of a live writer is that of its log.\<close>

lemma conn_reads:
  assumes num: "numbered 0 H" and c: "conn_holds env sok H T c" and n: "nodes (T i) < wv_nodes env"
    and i: "i \<in> {EAVT, AEVT}" and p: "prefix_ok q" "p_t q = None"
  shows "\<exists>ds. datomsArray (wv_nodes env) (conn_db (wv_get env) c) i q = Inr ds \<and> index_sorted i ds \<and>
    set ds = {x \<in> currentFacts (Some (int (length H))) (log_datoms H (int (length H))). matching i q x}"
proof -
  have rt: "0 \<le> ro_t (cn_roots c)" "ro_t (cn_roots c) \<le> int (length H)" using c by (simp_all add: conn_holds_def)
  have I: "db_rep (conn_db (wv_get env) c) T" "cn_basisT c = int (length H)" "set (contents (T i)) = log_datoms H (ro_t (cn_roots c))"
    "nv_abs (cn_novelty c) i = set (concat (map le_datoms (log_between H (ro_t (cn_roots c)) (int (length H)))))"
    using c i by (auto simp: conn_holds_def conn_inv_def)
  have "db_datoms_in (conn_db (wv_get env) c) T i = log_datoms H (int (length H))"
    using log_split [OF num rt] by (simp add: db_datoms_in_def I(3,4))
  then show ?thesis
    using datoms_current_matching [OF I(1) p(1) n _ p(2)] by (simp add: I(2))
qed

end
