(* ===== verification/Feed.thy ===== *)
theory Feed
  imports Transactor
begin

text \<open>
  What a writer tells its replicas: the answer to a request for a part of the log, and the frames
  a new or resuming subscriber is sent. The section ends with a replica that subscribes.
\<close>

section \<open>Answers\<close>

text \<open>\<open>GET /log\<close>: the earliest \<open>t\<close> of the table, and at most so many entries as frames.\<close>

definition log_answer :: "int \<Rightarrow> int \<Rightarrow> 'b transactor \<Rightarrow> (int \<times> novelty_frame list) res" where
  "log_answer from to w =
     rmap (\<lambda>es. (earliestLogT (wr_log w), map txFrame es)) (readLogEntries from to LOG_ANSWER_LIMIT (wr_log w))"

text \<open>
  Catching up: the frames that are sent, and the error reading the log ended with. A subscriber
  that is behind the table is told the \<open>t\<close> before its first row.
\<close>

definition sendCatchUp :: "int \<Rightarrow> 'b transactor \<Rightarrow> wire_frame list \<times> jserr option" where
  "sendCatchUp from w =
     (let t = cn_basisT (wr_conn w)
      in if from \<ge> t then ([], None)
         else
           let earliest = earliestLogT (wr_log w);
               gap = (earliest = 0 \<or> earliest > from + 1);
               start = (if gap then max from (earliest - 1) else from);
               told = (if gap then [GapFrame start] else [])
           in (case readLogEntries start t LOG_READ_LIMIT (wr_log w) of
                 Inl e \<Rightarrow> (told, Some e)
               | Inr es \<Rightarrow> (told @ map (\<lambda>e. TxFrame (txFrame e)) es, None)))"

text \<open>A new subscriber; where it wants to start from may be no number.\<close>

definition onSubscribe :: "int option \<Rightarrow> 'b transactor \<Rightarrow> wire_frame list \<times> jserr option" where
  "onSubscribe from w =
     (case sendCatchUp (case from of Some n \<Rightarrow> n | None \<Rightarrow> 0) w of
        (fs, e) \<Rightarrow> (HelloFrame (cn_basisT (wr_conn w)) (wr_root w) # fs, e))"

text \<open>Frames as they arrive: records go through JSON unchanged, novelty frames through their JSON form.\<close>

fun frame_sent :: "wire_frame \<Rightarrow> wire_frame" where
  "frame_sent (TxFrame f) = TxFrame (json_frame f)"
| "frame_sent f = f"

definition writer_answers :: "'b transactor \<Rightarrow> int \<Rightarrow> int \<Rightarrow> (int \<times> novelty_frame list) option res" where
  "writer_answers w from to = rmap (\<lambda>(e0, fs). Some (e0, map json_frame fs)) (log_answer from to w)"

section \<open>A table answers for the log\<close>

lemma earliest_row:
  assumes num: "numbered 0 H" and rows: "rows_hold H p (int (length H)) rows" and p: "0 \<le> p" "p \<le> int (length H)"
  shows "earliestLogT rows = (if p = int (length H) then 0 else p + 1)"
proof -
  let ?B = "log_between H p (int (length H))"
  have set: "fst ` set rows = le_t ` set ?B" using rows by (auto simp: rows_hold_def entry_row_def image_image)
  have n: "numbered p ?B" by (rule numbered_between [OF num p(1)])
  have len: "int (length ?B) = int (length H) - p" using length_log_between [OF p(1,2), of H] by simp
  show ?thesis
  proof (cases "p = int (length H)")
    case True
    then have "?B = []" using len by simp
    then have "rows = []" using rows by (simp add: rows_hold_def)
    then show ?thesis using True by (simp add: earliestLogT_def)
  next
    case False
    then obtain e es where B: "?B = e # es" using len by (cases ?B) auto
    then have e: "le_t e = p + 1" using n by simp
    have "Min (le_t ` set ?B) = p + 1"
    proof (rule Min_eqI)
      show "y \<ge> p + 1" if "y \<in> le_t ` set ?B" for y using that numbered_t [OF n] by fastforce
      show "p + 1 \<in> le_t ` set ?B" using B e by (metis image_eqI list.set_intros(1))
    qed simp
    moreover have "rows \<noteq> []" using set B by auto
    ultimately show ?thesis using False by (simp add: earliestLogT_def set)
  qed
qed

lemma rows_after_low:
  assumes "numbered 0 H" "rows_hold H p h rows" "0 \<le> p" "a \<le> p"
  shows "rows_after a rows = rows_after p rows"
proof -
  have "p < fst x" if "x \<in> set rows" for x using that assms(1-3) by (auto simp: rows_hold_def in_between entry_row_def)
  then have "filter (\<lambda>x. fst x > a) rows = filter (\<lambda>x. fst x > p) rows" using assms(4) by (intro filter_cong) force+
  then show ?thesis by (simp add: rows_after_def)
qed

lemma readLogEntries_some:
  assumes H: "log_ok H" and rows: "rows_hold H p (int (length H)) rows" and b: "0 \<le> p" "p \<le> int (length H)"
  shows "\<exists>es. readLogEntries a u k rows = Inr es \<and> set es \<subseteq> set H"
proof -
  have num: "numbered 0 H" using H by (simp add: log_ok_def)
  have sub: "set (take k (log_between H x y)) \<subseteq> set H" for x y using set_take_subset set_log_between by fast
  consider "a < p" | "p \<le> a" "a \<le> int (length H)" | "int (length H) < a" by linarith
  then show ?thesis
  proof cases
    case 1
    have "readLogEntries a u k rows = readLogEntries p u k rows"
      using rows_after_low [OF num rows b(1), of a] 1 by (simp add: readLogEntries_def)
    then show ?thesis using readLogEntries_between [OF H rows b(1) order_refl b(2)] sub by simp
  next
    case 2
    then show ?thesis using readLogEntries_between [OF H rows b(1) 2] sub by simp
  next
    case 3
    have "fst x \<le> int (length H)" if "x \<in> set rows" for x using rows_below [OF num rows b(1)] that by blast
    then have "filter (\<lambda>x. fst x > a) rows = []" using 3 by (force simp: filter_empty_conv)
    then show ?thesis by (simp add: readLogEntries_def rows_after_def js_sort_def)
  qed
qed

lemma frames_back:
  assumes "\<forall>e\<in>set es. entry_storable e" "log_finite es"
  shows "rmaplist entryFromFrame (map (\<lambda>e. json_frame (txFrame e)) es) = Inr es"
  using assms
proof (induction es)
  case (Cons e es)
  have "entryFromFrame (json_frame (txFrame e)) = Inr e"
    using Cons.prems by (intro entryFromFrame_txFrame) (auto simp: entry_storable_def datom_storable_def datom_ok_def log_finite_def)
  then show ?case using Cons by (simp add: log_finite_def)
qed simp

lemma log_finite_subset: "log_finite H \<Longrightarrow> set es \<subseteq> set H \<Longrightarrow> log_finite es"
  by (auto simp: log_finite_def)

text \<open>The answers of a writer are those a replica relies on.\<close>

lemma writer_answers_ok:
  assumes H: "log_ok H" "log_finite H" and rows: "rows_hold H p (int (length H)) (wr_log w)" and p: "0 \<le> p" "p \<le> int (length H)"
    and net: "rn_log net = writer_answers w"
  shows "answers_ok H net"
  unfolding answers_ok_def
proof (intro allI impI)
  fix from' to e0 fs assume a: "rn_log net from' to = Inr (Some (e0, fs))"
  obtain es where es: "readLogEntries from' to LOG_ANSWER_LIMIT (wr_log w) = Inr es" "set es \<subseteq> set H"
    using readLogEntries_some [OF H(1) rows p] by blast
  have e0: "e0 = earliestLogT (wr_log w)" "fs = map (\<lambda>e. json_frame (txFrame e)) es"
    using a es(1) by (auto simp: net writer_answers_def log_answer_def comp_def)
  have "\<forall>e\<in>set es. entry_storable e" using es(2) H(1) by (auto simp: log_ok_def)
  then have "rmaplist entryFromFrame fs = Inr es" unfolding e0(2) using log_finite_subset [OF H(2) es(2)] by (rule frames_back)
  moreover have "es = take LOG_ANSWER_LIMIT (log_between H from' to)"
    if "e0 \<noteq> 0 \<and> e0 \<le> from' + 1 \<and> 0 \<le> from' \<and> from' \<le> to \<and> to \<le> int (length H)"
  proof -
    have "numbered 0 H" using H(1) by (simp add: log_ok_def)
    then have "p \<le> from'" using that earliest_row [OF _ rows p] unfolding e0(1) by (auto split: if_splits)
    then show ?thesis using readLogEntries_between [OF H(1) rows p(1), of from' to LOG_ANSWER_LIMIT] es(1) that by (simp add: min_absorb1)
  qed
  ultimately show "\<exists>es. rmaplist entryFromFrame fs = Inr es \<and> set es \<subseteq> set H \<and>
       (e0 \<noteq> 0 \<and> e0 \<le> from' + 1 \<and> 0 \<le> from' \<and> from' \<le> to \<and> to \<le> int (length H) \<longrightarrow>
              es = take LOG_ANSWER_LIMIT (log_between H from' to))"
    using es(2) by blast
qed

text \<open>What it serves without object storage, and with it.\<close>

lemma writer_serves:
  assumes H: "log_ok H" and rows: "rows_hold H p (int (length H)) (wr_log w)" and p: "0 \<le> p" "p < int (length H)"
    and net: "rn_log net = writer_answers w" and low: "b < p \<longrightarrow> u \<le> int k" "p \<le> b \<longrightarrow> u \<le> b"
  shows "served net k b u"
proof -
  obtain es where "readLogEntries b u LOG_ANSWER_LIMIT (wr_log w) = Inr es"
    using readLogEntries_some [OF H rows p(1)] p(2) by fastforce
  moreover have "earliestLogT (wr_log w) = p + 1"
    using earliest_row [OF _ rows p(1)] p(2) H by (simp add: log_ok_def)
  ultimately show ?thesis
    using low p by (auto simp: served_def net writer_answers_def log_answer_def)
qed

section \<open>A replica that subscribes\<close>

context r2_bucket begin

text \<open>Entries of the log that arrive in order, from one that can be reached, bring a replica to the last of them.\<close>

lemma entries_arrive:
  assumes H: "log_ok H" "log_finite H" and s: "replica_ok H s" and b: "ok (qr_bucket s)" "stored_log compress net H (objs (qr_bucket s)) k"
    and net: "rn_bucket net = bk" "answers_ok H net" and db: "qr_dbName s \<noteq> None"
    and es: "numbered c es" "set es \<subseteq> set H" "c \<le> basisT s \<or> (\<forall>b. basisT s \<le> b \<longrightarrow> served net k b c)"
    and near: "\<forall>b\<ge>c. \<forall>u\<le>b. served net k b u"
  shows "progress objs ok H s (handleFrames net (map (\<lambda>e. TxFrame (json_frame (txFrame e))) es) s) \<and>
    (es \<noteq> [] \<longrightarrow> c + int (length es) \<le> basisT (handleFrames net (map (\<lambda>e. TxFrame (json_frame (txFrame e))) es) s))"
  using s b db es near
proof (induction es arbitrary: c s)
  case Nil
  then show ?case using progress_refl [where ok = ok and objs = objs, OF Nil.prems(1,2)] by (simp add: handleFrames_def)
next
  case (Cons e es)
  let ?f = "TxFrame (json_frame (txFrame e))"
  have e: "e \<in> set H" "le_t e = c + 1" using Cons.prems(5,6) by simp_all
  then have st: "entry_storable e" using H(1) by (simp add: log_ok_def)
  have dec: "entryFromFrame (json_frame (txFrame e)) = Inr e"
    using frames_back [of "[e]"] st H(2) e(1) by (simp add: log_finite_def res_simps)
  have f: "frame_ok H ?f" using e(1) dec by (auto simp: frame_ok_def)
  have served: "served net k (basisT s) (le_t e - 1)"
    using Cons.prems(7) Cons.prems(8) [rule_format, of "basisT s" c] e(2) by auto
  obtain s1 err where s1: "handleFrame net ?f s = (s1, err)" "progress objs ok H s s1" "le_t e \<le> basisT s1"
    using handleFrame_ok [OF H(1) Cons.prems(1-3) net f] dec Cons.prems(4) served by blast
  then have p: "replica_ok H s1" "ok (qr_bucket s1)" "objs (qr_bucket s1) = objs (qr_bucket s)" "qr_dbName s1 \<noteq> None"
    using Cons.prems(4) by (simp_all add: progress_def follows_def)
  have "progress objs ok H s1 (handleFrames net (map (\<lambda>e. TxFrame (json_frame (txFrame e))) es) s1) \<and>
    (es \<noteq> [] \<longrightarrow> c + 1 + int (length es) \<le> basisT (handleFrames net (map (\<lambda>e. TxFrame (json_frame (txFrame e))) es) s1))"
    by (rule Cons.IH [OF p(1,2) _ p(4)]) (use Cons.prems(3,5,6,8) p(3) s1(3) e(2) in auto)
  moreover have "handleFrames net (map (\<lambda>e. TxFrame (json_frame (txFrame e))) (e # es)) s =
      handleFrames net (map (\<lambda>e. TxFrame (json_frame (txFrame e))) es) s1"
    by (simp add: handleFrames_def s1(1))
  moreover have "c + 1 \<le> basisT s1" using s1(3) e(2) by simp
  ultimately show ?case
    using progress_trans [OF s1(2)] by (cases es) (auto simp: handleFrames_def)
qed

lemma subscribe_catches_up:
  assumes H: "log_full H" "log_finite H" and tab: "tables_hold H p (wr_root w) (wr_log w) (wr_meta w)"
    and t: "cn_basisT (wr_conn w) = int (length H)" and few: "int (length H) - p \<le> int LOG_READ_LIMIT"
    and s: "replica_ok H s" "qr_dbName s \<noteq> None" and b: "ok (qr_bucket s)" "stored_log compress net H (objs (qr_bucket s)) k"
    and net: "rn_bucket net = bk" "rn_log net = writer_answers w" and stored: "p \<le> int k"
  shows "\<exists>fs. onSubscribe (Some (basisT s)) w = (fs, None) \<and> replica_ok H (handleFrames net (map frame_sent fs) s) \<and>
    basisT (handleFrames net (map frame_sent fs) s) = int (length H)"
proof -
  have ok: "log_ok H" and num: "numbered 0 H" using H(1) by (simp_all add: log_full_def log_ok_def)
  have P: "0 \<le> p" "p \<le> rr_t (wr_root w)" "rr_t (wr_root w) \<le> int (length H)" "rows_hold H p (int (length H)) (wr_log w)"
    using tab by (simp_all add: tables_hold_def)
  have p: "p \<le> int (length H)" using P by linarith
  have ans: "answers_ok H net" by (rule writer_answers_ok [OF ok H(2) P(4,1) p net(2)])
  let ?hello = "HelloFrame (int (length H)) (wr_root w)"
  have "frame_ok H ?hello" using P by (simp add: frame_ok_def)
  then obtain s1 err where s1: "handleFrame net ?hello s = (s1, err)" "progress objs ok H s s1"
    using handleFrame_ok [OF ok s(1) b net(1) ans] by blast
  have p1: "replica_ok H s1" "ok (qr_bucket s1)" "objs (qr_bucket s1) = objs (qr_bucket s)" "qr_dbName s1 \<noteq> None" "basisT s \<le> basisT s1"
    using s1(2) s(2) by (auto simp: progress_def follows_def)
  have bound: "basisT s' \<le> int (length H)" if "replica_ok H s'" for s' :: "'b replica" using basis_bounds [OF that num] by simp
  have nn: "0 \<le> basisT s" using basis_bounds [OF s(1) num] by simp
  have run: "handleFrames net (map frame_sent (?hello # gs)) s = handleFrames net (map frame_sent gs) s1" for gs
    by (simp add: handleFrames_def s1(1))
  have sent: "map frame_sent (map (\<lambda>e. TxFrame (txFrame e)) es) = map (\<lambda>e. TxFrame (json_frame (txFrame e))) es" for es by simp
  have rd: "readLogEntries a (int (length H)) LOG_READ_LIMIT (wr_log w) = Inr (log_between H a (int (length H)))"
    if "p \<le> a" "a \<le> int (length H)" for a
  proof -
    have "length (log_between H a (int (length H))) \<le> LOG_READ_LIMIT" using length_log_between [OF _ that(2), of H] P(1) that(1) few by simp
    then show ?thesis using readLogEntries_between [OF ok P(4,1) that] by simp
  qed
  have serves: "served net k b' u" if "p < int (length H)" "b' < p \<longrightarrow> u \<le> int k" "p \<le> b' \<longrightarrow> u \<le> b'" for b' u
    by (rule writer_serves [OF ok P(4,1) that(1) net(2) that(2,3)])
  have arrive: "\<exists>s3. handleFrames net (map frame_sent (map (\<lambda>e. TxFrame (txFrame e)) (log_between H a (int (length H))))) s2 = s3 \<and>
      replica_ok H s3 \<and> basisT s3 = int (length H)"
    if s2: "progress objs ok H s1 s2" and a: "p \<le> a" "a < int (length H)" "a \<le> basisT s2 \<or> a = p" for s2 :: "'b replica" and a
  proof -
    have q: "replica_ok H s2" "ok (qr_bucket s2)" "objs (qr_bucket s2) = objs (qr_bucket s)" "qr_dbName s2 \<noteq> None"
      using s2 p1 by (simp_all add: progress_def follows_def)
    have a0: "0 \<le> a" and ale: "a \<le> int (length H)" using a P(1) by linarith+
    let ?es = "log_between H a (int (length H))"
    have len: "int (length ?es) = int (length H) - a" by (rule length_log_between [OF a0 ale order_refl])
    then have ne: "?es \<noteq> []" using a(2) by auto
    have c: "a \<le> basisT s2 \<or> (\<forall>b'. basisT s2 \<le> b' \<longrightarrow> served net k b' a)"
      using a serves stored by auto
    have near: "\<forall>b'\<ge>a. \<forall>u\<le>b'. served net k b' u" using a serves by auto
    have "progress objs ok H s2 (handleFrames net (map (\<lambda>e. TxFrame (json_frame (txFrame e))) ?es) s2) \<and>
      a + int (length ?es) \<le> basisT (handleFrames net (map (\<lambda>e. TxFrame (json_frame (txFrame e))) ?es) s2)"
      using entries_arrive [OF ok H(2) q(1,2) b(2) [folded q(3)] net(1) ans q(4) numbered_between [OF num a0] set_log_between c near] ne
      by blast
    then show ?thesis unfolding sent using len bound by (auto simp: progress_def intro: order.antisym)
  qed
  have sub: "onSubscribe (Some (basisT s)) w = (?hello # fst (sendCatchUp (basisT s) w), snd (sendCatchUp (basisT s) w))"
    by (simp add: onSubscribe_def t split_beta)
  have e0: "earliestLogT (wr_log w) = (if p = int (length H) then 0 else p + 1)" by (rule earliest_row [OF num P(4,1) p])
  consider "int (length H) \<le> basisT s" | "basisT s < int (length H)" "p = int (length H)"
    | "basisT s < p" "p < int (length H)" | "p \<le> basisT s" "basisT s < int (length H)" using p by linarith
  then show ?thesis
  proof cases
    case 1
    then have "sendCatchUp (basisT s) w = ([], None)" by (simp add: sendCatchUp_def t)
    moreover have "basisT s1 = int (length H)" using 1 p1(5) bound [OF p1(1)] by simp
    ultimately show ?thesis unfolding sub using run [of "[]"] p1(1) by (simp add: handleFrames_def)
  next
    case 2
    have "readLogEntries (basisT s) (int (length H)) LOG_READ_LIMIT (wr_log w) = readLogEntries p (int (length H)) LOG_READ_LIMIT (wr_log w)"
      using rows_after_low [OF num P(4,1), of "basisT s"] 2 by (simp add: readLogEntries_def)
    also have "\<dots> = Inr []" using rd [of p] 2 by (simp add: log_between_def)
    finally have c: "sendCatchUp (basisT s) w = ([GapFrame (basisT s)], None)" using 2 nn by (simp add: sendCatchUp_def t e0 max_def)
    let ?g = "s1\<lparr>qr_frames := qr_frames s1 + 1, qr_gaps := qr_gaps s1 + 1\<rparr>"
    have g: "progress objs ok H s1 ?g \<and> basisT ?g = basisT s1" by (rule progress_same [where ok = ok and objs = objs, OF p1(1,2)]) simp_all
    then have g1: "replica_ok H ?g" "ok (qr_bucket ?g)" "stored_log compress net H (objs (qr_bucket ?g)) k"
      using b(2) p1(3) by (simp_all add: progress_def)
    obtain s2 where s2: "catchUpFromR2 net (basisT s) MAX_SAFE_INTEGER ?g = (s2, None)" "replica_ok H s2"
        "basisT s \<le> basisT ?g \<longrightarrow> min (int (min k (length H))) MAX_SAFE_INTEGER \<le> basisT s2"
      using catchUpFromR2_ok [OF ok g1 net(1)] by blast
    have "basisT s2 = int (length H)"
      using s2(3) g p1(5) stored 2 log_small [OF ok] bound [OF s2(2)] by auto
    moreover have "handleFrames net (map frame_sent [GapFrame (basisT s)]) s1 = s2"
      using s2(1) by (simp add: handleFrames_def handleFrame_def Let_def)
    ultimately show ?thesis unfolding sub c using run [of "[GapFrame (basisT s)]"] s2(2) by simp
  next
    case 3
    have c: "sendCatchUp (basisT s) w = ([GapFrame p] @ map (\<lambda>e. TxFrame (txFrame e)) (log_between H p (int (length H))), None)"
      using 3 rd [of p] by (simp add: sendCatchUp_def t e0 max_def)
    obtain s2 err where s2: "handleFrame net (GapFrame p) s1 = (s2, err)" "progress objs ok H s1 s2"
      using handleFrame_ok [OF ok p1(1,2) b(2) [folded p1(3)] net(1) ans, of "GapFrame p"] by (auto simp: frame_ok_def)
    have "handleFrames net (map frame_sent (?hello # [GapFrame p] @ gs)) s = handleFrames net (map frame_sent gs) s2" for gs
      unfolding run by (simp add: handleFrames_def s2(1))
    then show ?thesis unfolding sub c using arrive [OF s2(2) order_refl 3(2)] by (simp del: map_map)
  next
    case 4
    have c: "sendCatchUp (basisT s) w = (map (\<lambda>e. TxFrame (txFrame e)) (log_between H (basisT s) (int (length H))), None)"
      using 4 P(1) rd [of "basisT s"] by (simp add: sendCatchUp_def t e0 Let_def)
    have "progress objs ok H s1 s1" by (rule progress_refl [where ok = ok and objs = objs, OF p1(1,2)])
    then have "replica_ok H (handleFrames net (map frame_sent (?hello # map (\<lambda>e. TxFrame (txFrame e)) (log_between H (basisT s) (int (length H))))) s) \<and>
        basisT (handleFrames net (map frame_sent (?hello # map (\<lambda>e. TxFrame (txFrame e)) (log_between H (basisT s) (int (length H))))) s) = int (length H)"
      unfolding run using arrive [OF _ 4] p1(5) by simp
    then show ?thesis unfolding sub c fst_conv snd_conv by blast
  qed
qed

end

text \<open>
  A gap frame names the last \<open>t\<close> that is missing, and the replica reads the chunks after it:
  none of them is the next entry.
\<close>

lemma apply_next_none: "\<forall>e\<in>set es. le_t e \<noteq> basisT s + 1 \<Longrightarrow> apply_next es s = (s, None)"
  by (induction es) auto

context r2_bucket begin

lemma gap_frame_stays:
  assumes H: "log_ok H" and s: "replica_ok H s" "qr_root s \<noteq> None"
    and b: "ok (qr_bucket s)" "stored_log compress net H (objs (qr_bucket s)) k"
    and net: "rn_bucket net = bk" and ahead: "basisT s < n"
  shows "\<exists>s'. handleFrame net (GapFrame n) s = (s', None) \<and> basisT s' = basisT s \<and> qr_entries s' = qr_entries s"
proof -
  let ?g = "s\<lparr>qr_frames := qr_frames s + 1, qr_gaps := qr_gaps s + 1\<rparr>"
  obtain css where css: "holds_log compress (objs (qr_bucket s)) css" "concat css = take k H" "length css < 1000 * rn_pages net"
    and dec: "\<forall>raw. rn_decompress net (compress raw) = Inr raw"
    using b(2) by (auto simp: stored_log_def)
  have basis: "basisT ?g = basisT s" by (simp add: basisT_def root_t_def)
  let ?es = "filter (\<lambda>e. le_t e > max n (basisT s) \<and> upto_t (Some MAX_SAFE_INTEGER) (le_t e)) (take k H)"
  obtain g b' where g: "readLogSince (rn_pages net) (rn_decompress net) bk (qr_bucket s) (max n (basisT s)) (Some MAX_SAFE_INTEGER) = (g, b')"
    by fastforce
  have "g = Inr ?es" using readLogSince_holds [OF b(1) css(1) dec css(3), of "max n (basisT s)" "Some MAX_SAFE_INTEGER"] g css(2) by simp
  moreover have "ensure_root net ?g = (?g, None)" using s(2) by (auto simp: ensure_root_def)
  ultimately have c: "catchUpFromR2 net n MAX_SAFE_INTEGER ?g = apply_next ?es (?g\<lparr>qr_bucket := b'\<rparr>)"
    using g basis by (simp add: catchUpFromR2_def net)
  have basis': "basisT (?g\<lparr>qr_bucket := b'\<rparr>) = basisT s" by (simp add: basisT_def root_t_def)
  have "apply_next ?es (?g\<lparr>qr_bucket := b'\<rparr>) = (?g\<lparr>qr_bucket := b'\<rparr>, None)"
    by (rule apply_next_none) (use ahead in \<open>auto simp: basisT_def root_t_def\<close>)
  then show ?thesis using c basis' by (simp add: handleFrame_def)
qed

end

end
