(* ===== verification/Indexer.thy ===== *)
theory Indexer
  imports Feed
begin

text \<open>
  The indexer (\<open>internal/transactor/indexer.ts\<close>) that runs beside the commit loop of a writer:
  it merges a bounded slice of the log into new trees, stores the slice as a log chunk,
  publishes the new root, lets the writer adopt it and prunes the log table. Its steps are
  separate, because batches are committed and the writer may die between any two of them.
\<close>

section \<open>The steps of a run\<close>

record index_options =
  io_intervalMs :: int
  io_txThreshold :: int
  io_maxTxsPerRun :: int
  io_logKeepTxs :: int
  io_gcEveryN :: nat
  io_retainRoots :: nat

text \<open>How far a run is: the \<open>t\<close> it indexes up to with the entries of the slice, then the record of its root.\<close>

datatype index_phase =
    Resting
  | Planned int "log_entry list"
  | Flushed int "log_entry list"
  | Merged int "log_entry list"
  | Recorded int root_record
  | Kept int root_record
  | Published int root_record
  | Adopted int

definition index_plan :: "index_options \<Rightarrow> 'b transactor \<Rightarrow> (int \<times> log_entry list) option res" where
  "index_plan io w =
     (let fromT = ro_t (cn_roots (wr_conn w)); t = cn_basisT (wr_conn w)
      in if t \<le> fromT then Inr None
         else
           let toT = min t (fromT + io_maxTxsPerRun io)
           in rmap (\<lambda>es. Some (toT, es)) (readLogEntries fromT toT LOG_READ_LIMIT (wr_log w)))"

definition writer_bucket :: "'b transactor \<Rightarrow> 'b" where
  "writer_bucket w = rs_bucket (cn_store (wr_conn w))"

definition set_bucket :: "'b \<Rightarrow> 'b transactor \<Rightarrow> 'b transactor" where
  "set_bucket b w = w\<lparr>wr_conn := (wr_conn w)\<lparr>cn_store := (cn_store (wr_conn w))\<lparr>rs_bucket := b\<rparr>\<rparr>\<rparr>"

definition index_flush :: "'b writer_env \<Rightarrow> log_entry list \<Rightarrow> 'b transactor \<Rightarrow> 'b transactor res" where
  "index_flush env es w =
     (if es = [] then Inr w
      else rmap (\<lambda>(k, b). set_bucket b w) (putLogChunk (se_compress (wv_store env)) (wv_bucket env) (writer_bucket w) es))"

definition index_merge :: "'b writer_env \<Rightarrow> int \<Rightarrow> 'b transactor \<Rightarrow> (roots \<times> 'b transactor) res" where
  "index_merge env toT w =
     rmap (\<lambda>(rts, c). (rts, w\<lparr>wr_conn := c\<rparr>))
       (conn_index (wv_nodes env) (wv_get env) (r2_put (wv_objs env) (wv_store env)) (wv_build env) toT (wr_conn w))"

text \<open>The record of the new root; \<open>created_at\<close> is the time.\<close>

definition index_record :: "log_entry list \<Rightarrow> 'b transactor \<Rightarrow> root_record \<times> 'b transactor" where
  "index_record es w =
     (let (now, clk) = tick (wr_clock w)
      in (rootsToRecord (cn_roots (wr_conn w)) (if es = [] then wr_watermark w else le_t (last es)) (cn_nextEid (wr_conn w))
            writer_codec now, w\<lparr>wr_clock := clk\<rparr>))"

definition index_keep :: "'b writer_env \<Rightarrow> root_record \<Rightarrow> 'b transactor \<Rightarrow> 'b transactor" where
  "index_keep env r w = set_bucket (publish_immutable (wv_bucket env) (writer_bucket w) r) w"

definition index_flip :: "'b writer_env \<Rightarrow> root_record \<Rightarrow> 'b transactor \<Rightarrow> 'b transactor" where
  "index_flip env r w =
     set_bucket (bk_put (wv_bucket env) (writer_bucket w) ROOT_CURRENT_KEY (RText (json_string (record_json r)))
       (Some \<lparr>hm_cacheControl = ROOT_CACHE_CONTROL, hm_contentType = ''application/json''\<rparr>)) w"

text \<open>The writer takes the new root over and tells its subscribers.\<close>

definition adopt_root :: "root_record \<Rightarrow> 'b transactor \<Rightarrow> 'b transactor" where
  "adopt_root r w =
     w\<lparr>wr_root := r, wr_watermark := rr_log_watermark r, wr_meta := setMeta ''root'' (record_json r) (wr_meta w),
       wr_txSinceIndex := max 0 (cn_basisT (wr_conn w) - rr_t r), wr_indexRuns := wr_indexRuns w + 1,
       wr_broadcast := wr_broadcast w @ [RootFrame r]\<rparr>"

definition index_prune :: "index_options \<Rightarrow> int \<Rightarrow> 'b transactor \<Rightarrow> 'b transactor" where
  "index_prune io toT w = w\<lparr>wr_log := snd (pruneLog (toT - io_logKeepTxs io) (wr_log w))\<rparr>"

section \<open>Other objects of the bucket\<close>

text \<open>Nodes are read under their own keys only.\<close>

definition same_nodes :: "(string \<rightharpoonup> bytes) \<Rightarrow> (string \<rightharpoonup> bytes) \<Rightarrow> bool" where
  "same_nodes m m' \<longleftrightarrow> (\<forall>k h. m' (objectKey k h) = m (objectKey k h))"

lemma same_nodes_get: "same_nodes (objs b) (objs b') \<Longrightarrow> r2_get objs env (s\<lparr>rs_bucket := b'\<rparr>) = r2_get objs env (s\<lparr>rs_bucket := b\<rparr>)"
proof -
  assume "same_nodes (objs b) (objs b')"
  then have "bucket_body (objs b') h = bucket_body (objs b) h" for h
    by (cases "objs b (objectKey KLeaf h)") (simp_all add: same_nodes_def bucket_body_def)
  then show ?thesis by (simp add: r2_get_def bucket_node_def fun_eq_iff)
qed

lemma same_nodes_inv:
  assumes inv: "r2_inv objs ok env s" and same: "same_nodes (objs (rs_bucket s)) (objs b')" and b': "ok b'"
  shows "r2_inv objs ok env (s\<lparr>rs_bucket := b'\<rparr>)"
proof -
  have g: "r2_get objs env (s\<lparr>rs_bucket := b'\<rparr>) = r2_get objs env s"
    using same_nodes_get [OF same, where s = s and env = env] by simp
  have "bucket_nodes_ok (se_compress env) (objs b')" using inv same by (simp add: r2_inv_def bucket_nodes_ok_def same_nodes_def)
  then show ?thesis using inv b' unfolding r2_inv_def g by (simp add: lower_tiers_agree_def)
qed

text \<open>A store without tiers that is opened on the bucket of another.\<close>

lemma fresh_store_inv:
  assumes "r2_inv objs ok env s" "se_tier env = None" "se_cache env = None"
  shows "r2_inv objs ok env (R2NodeStore (rs_bucket s) t c)"
  using assms by (simp add: r2_inv_def R2NodeStore_def lower_tiers_agree_def tier_node_def r2_get_def)

lemma fresh_store_get: "r2_get objs env (R2NodeStore (rs_bucket s) t c) = r2_get objs env s"
  by (simp add: r2_get_def R2NodeStore_def)

lemma log_key_no_node: "starts_with ''log/'' k \<Longrightarrow> k \<noteq> objectKey kd h"
  by (cases kd) (auto simp: objectKey_def)

lemma root_keys_no_nodes: "rootKey t \<noteq> objectKey kd h" "ROOT_CURRENT_KEY \<noteq> objectKey kd h"
  by (cases kd; simp add: objectKey_def rootKey_def ROOT_CURRENT_KEY_def)+

section \<open>The invariant through a run\<close>

text \<open>The node store of a writer over a bucket that keeps its contract, and build options that nodes can carry.\<close>

definition env_ok :: "'b writer_env \<Rightarrow> ('b \<Rightarrow> bool) \<Rightarrow> (nat \<Rightarrow> jsstr) \<Rightarrow> bool" where
  "env_ok env ok cursor_at \<longleftrightarrow>
     r2_bucket (wv_bucket env) (wv_objs env) ok cursor_at \<and> se_tier (wv_store env) = None \<and> se_cache (wv_store env) = None \<and>
     1 < bo_fanout (wv_build env) \<and> bo_fanout (wv_build env) \<le> NODE_CAP \<and> 0 < bo_leafSize (wv_build env) \<and>
     bo_leafSize (wv_build env) * 3 div 2 \<le> NODE_CAP"

abbreviation store_ok :: "'b writer_env \<Rightarrow> ('b \<Rightarrow> bool) \<Rightarrow> ('b, unit, unit) r2_store \<Rightarrow> bool" where
  "store_ok env ok \<equiv> r2_inv (wv_objs env) ok (wv_store env)"

context r2_nodes begin

lemma as_node_store: "node_store (r2_get objs env) (r2_put objs env) (r2_inv objs ok env) ref_storable datom_storable NODE_CAP"
  by (rule nodes.node_store_axioms)

end

lemma env_nodes: "env_ok env ok cursor_at \<Longrightarrow> r2_nodes (wv_store env) (wv_objs env) ok cursor_at"
  unfolding env_ok_def r2_nodes_def r2_nodes_axioms_def by simp

lemma set_bucket_fields [simp]:
  "wr_root (set_bucket b w) = wr_root w" "wr_log (set_bucket b w) = wr_log w" "wr_meta (set_bucket b w) = wr_meta w"
  "wr_opmeta (set_bucket b w) = wr_opmeta w" "wr_dead (set_bucket b w) = wr_dead w" "wr_settled (set_bucket b w) = wr_settled w"
  "wr_recentAcks (set_bucket b w) = wr_recentAcks w" "wr_recentOpAcks (set_bucket b w) = wr_recentOpAcks w"
  "cn_roots (wr_conn (set_bucket b w)) = cn_roots (wr_conn w)" "writer_bucket (set_bucket b w) = b"
  "cn_novelty (wr_conn (set_bucket b w)) = cn_novelty (wr_conn w)" "cn_basisT (wr_conn (set_bucket b w)) = cn_basisT (wr_conn w)"
  "cn_schema (wr_conn (set_bucket b w)) = cn_schema (wr_conn w)"
  by (simp_all add: set_bucket_def writer_bucket_def)

lemma set_bucket_get:
  "same_nodes (wv_objs env (writer_bucket w)) (wv_objs env b) \<Longrightarrow>
    wv_get env (cn_store (wr_conn (set_bucket b w))) = wv_get env (cn_store (wr_conn w))"
  using same_nodes_get [where s = "cn_store (wr_conn w)" and env = "wv_store env"] by (simp add: set_bucket_def writer_bucket_def)

lemma trees_hold_get:
  assumes T: "trees_hold env sok H T r b" and sok: "sok (R2NodeStore b' () ())"
    and sub: "wv_get env (R2NodeStore b () ()) \<subseteq>\<^sub>m wv_get env (R2NodeStore b' () ())"
  shows "trees_hold env sok H T r b'"
  using T sok represents_mono [OF _ sub] unfolding trees_hold_def by blast

lemma conn_holds_store:
  assumes c: "conn_holds env sok H T c" and sok: "sok s'" and g: "wv_get env s' = wv_get env (cn_store c)"
  shows "conn_holds env sok H T (c\<lparr>cn_store := s'\<rparr>)"
proof -
  have d: "conn_db (wv_get env) (c\<lparr>cn_store := s'\<rparr>) = conn_db (wv_get env) c" by (simp add: conn_db_def g)
  have "conn_inv (wv_get env) sok ref_storable datom_storable c T" using c by (simp add: conn_holds_def)
  then have "conn_inv (wv_get env) sok ref_storable datom_storable (c\<lparr>cn_store := s'\<rparr>) T" using sok unfolding conn_inv_def d by simp
  then show ?thesis using c by (simp add: conn_holds_def)
qed

text \<open>Writing any other object to the bucket.\<close>

lemma set_bucket_holds:
  assumes e: "env_ok env ok cursor_at" and W: "writer_holds env (store_ok env ok) H p T w" and alive: "wr_dead w = None"
    and b: "ok b" "same_nodes (wv_objs env (writer_bucket w)) (wv_objs env b)"
  shows "writer_holds env (store_ok env ok) H p T (set_bucket b w)"
proof -
  let ?s = "cn_store (wr_conn w)" and ?r = "rs_bucket (cn_store (wr_conn w))"
  obtain Tc where Tc: "conn_holds env (store_ok env ok) H Tc (wr_conn w)" using W alive by (auto simp: writer_holds_def writer_live_def)
  then have inv: "store_ok env ok ?s" by (simp add: conn_holds_def conn_inv_def)
  have same: "same_nodes (wv_objs env ?r) (wv_objs env b)" using b(2) by (simp add: writer_bucket_def)
  have inv': "store_ok env ok (?s\<lparr>rs_bucket := b\<rparr>)" by (rule same_nodes_inv [OF inv same b(1)])
  have g: "wv_get env (?s\<lparr>rs_bucket := b\<rparr>) = wv_get env ?s" using same_nodes_get [OF same, where s = ?s and env = "wv_store env"] by simp
  have conn: "wr_conn (set_bucket b w) = (wr_conn w)\<lparr>cn_store := ?s\<lparr>rs_bucket := b\<rparr>\<rparr>" by (simp add: set_bucket_def)
  have T: "trees_hold env (store_ok env ok) H T (wr_root w) ?r" using W by (simp add: writer_holds_def writer_disk_def)
  have "trees_hold env (store_ok env ok) H T (wr_root w) b"
  proof (rule trees_hold_get [OF T])
    show "store_ok env ok (R2NodeStore b () ())"
      using fresh_store_inv [OF inv', of "()" "()"] e by (simp add: env_ok_def)
    show "wv_get env (R2NodeStore ?r () ()) \<subseteq>\<^sub>m wv_get env (R2NodeStore b () ())"
      using fresh_store_get [where s = "?s\<lparr>rs_bucket := b\<rparr>" and env = "wv_store env" and t = "()" and c = "()"]
        fresh_store_get [where s = ?s and env = "wv_store env" and t = "()" and c = "()"] g by simp
  qed
  moreover have "conn_holds env (store_ok env ok) H Tc (wr_conn (set_bucket b w))"
    unfolding conn by (rule conn_holds_store [OF Tc inv' g])
  ultimately show ?thesis
    using W alive by (auto simp: writer_holds_def writer_disk_def writer_live_def) (auto simp: set_bucket_def)
qed

section \<open>Merging and adopting\<close>

text \<open>The fuel and the counts are enough for the trees that a connection reads.\<close>

definition fuel_fits :: "'b writer_env \<Rightarrow> ('b, unit, unit) r2_store connection \<Rightarrow> bool" where
  "fuel_fits env c \<longleftrightarrow>
     (\<forall>T. (\<forall>i. represents (wv_get env (cn_store c)) (rootFor (cn_roots c) i) (T i)) \<longrightarrow>
        (\<forall>i. nodes (T i) < wv_nodes env \<and> length (contents (T i)) + length (fst (sn_all (nv_byIndex (cn_novelty c) i))) < 2 ^ 53))"

lemma novelty_counts:
  assumes "x \<in> nv_abs n EAVT"
  shows "nv_count n \<noteq> 0"
  using assms by (auto simp: nv_count_def sn_size_def sn_abs_def)

lemma between_set:
  assumes "numbered 0 H" "0 \<le> a"
  shows "set (concat (map le_datoms (log_between H a b))) = {x. \<exists>e. e \<in> set H \<and> a < le_t e \<and> le_t e \<le> b \<and> x \<in> set (le_datoms e)}"
proof -
  have "x \<in> set (concat (map le_datoms (log_between H a b))) \<longleftrightarrow> (\<exists>e. e \<in> set (log_between H a b) \<and> x \<in> set (le_datoms e))" for x
    by auto
  then show ?thesis unfolding in_between [OF assms] by blast
qed

text \<open>The entries after a root whose datoms are not after \<open>m\<close> are those up to \<open>m\<close>.\<close>

lemma between_datoms:
  assumes H: "log_ok H" and a: "0 \<le> a" "a \<le> m" "m \<le> int (length H)"
  shows "{x \<in> set (concat (map le_datoms (log_between H a (int (length H))))). d_t x \<le> m} = set (concat (map le_datoms (log_between H a m)))"
    "{x \<in> set (concat (map le_datoms (log_between H a (int (length H))))). m < d_t x} =
      set (concat (map le_datoms (log_between H m (int (length H)))))"
proof -
  have num: "numbered 0 H" and t: "\<And>e x. e \<in> set H \<Longrightarrow> x \<in> set (le_datoms e) \<Longrightarrow> d_t x = le_t e"
    using H by (auto simp: log_ok_def entry_storable_def)
  have le: "le_t e \<le> int (length H)" if "e \<in> set H" for e using numbered_t [OF num that] by simp
  have m0: "0 \<le> m" using a by linarith
  show "{x \<in> set (concat (map le_datoms (log_between H a (int (length H))))). d_t x \<le> m} = set (concat (map le_datoms (log_between H a m)))"
    unfolding between_set [OF num a(1)] using t le by (intro set_eqI iffI; clarsimp; metis)
  show "{x \<in> set (concat (map le_datoms (log_between H a (int (length H))))). m < d_t x} =
      set (concat (map le_datoms (log_between H m (int (length H)))))"
    unfolding between_set [OF num a(1)] between_set [OF num m0] using t le a(2)
    by (intro set_eqI iffI; clarsimp) (metis, metis order.strict_trans1)
qed

lemma merge_holds:
  assumes e: "env_ok env ok cursor_at" and H: "log_full H" and c: "conn_holds env (store_ok env ok) H T c" "indexes_consistent c"
    and fits: "fuel_fits env c" and toT: "ro_t (cn_roots c) < toT" "toT \<le> int (length H)"
    and r: "conn_index (wv_nodes env) (wv_get env) (r2_put (wv_objs env) (wv_store env)) (wv_build env) toT c = Inr (rts, c')"
  shows "rts = cn_roots c' \<and> ro_t rts = toT \<and> wv_get env (cn_store c) \<subseteq>\<^sub>m wv_get env (cn_store c') \<and>
    indexes_consistent c' \<and> (\<exists>T'. conn_holds env (store_ok env ok) H T' c')"
proof -
  have ok: "log_ok H" and num: "numbered 0 H" using H by (simp_all add: log_full_def log_ok_def)
  have C: "conn_inv (wv_get env) (store_ok env ok) ref_storable datom_storable c T" "cn_basisT c = int (length H)"
    "0 \<le> ro_t (cn_roots c)" "ro_t (cn_roots c) \<le> int (length H)"
    "\<And>i. i \<in> {EAVT, AEVT} \<Longrightarrow> set (contents (T i)) = log_datoms H (ro_t (cn_roots c))"
    "\<And>i. i \<in> {EAVT, AEVT} \<Longrightarrow> nv_abs (cn_novelty c) i = set (concat (map le_datoms (log_between H (ro_t (cn_roots c)) (int (length H)))))"
    using c(1) by (auto simp: conn_holds_def)
  have rep: "\<forall>i. represents (wv_get env (cn_store c)) (rootFor (cn_roots c) i) (T i)"
    using C(1) by (simp add: conn_inv_def db_rep_def)
  have n: "nodes (T i) \<le> wv_nodes env" "length (contents (T i)) + length (fst (sn_all (nv_byIndex (cn_novelty c) i))) < 2 ^ 53" for i
    using fits rep unfolding fuel_fits_def by (force intro: less_imp_le)+
  have bo: "1 < bo_fanout (wv_build env)" "bo_fanout (wv_build env) \<le> NODE_CAP" "0 < bo_leafSize (wv_build env)"
     "bo_leafSize (wv_build env) * 3 div 2 \<le> NODE_CAP" using e by (simp_all add: env_ok_def)
  obtain c0 T' where I: "conn_index (wv_nodes env) (wv_get env) (r2_put (wv_objs env) (wv_store env)) (wv_build env) toT c = Inr (rts, c')"
    "cn_roots c' = rts" "conn_inv (wv_get env) (store_ok env ok) ref_storable datom_storable c' T'" "indexes_consistent c'"
    "cn_basisT c' = cn_basisT c" "wv_get env (cn_store c) \<subseteq>\<^sub>m wv_get env (cn_store c')"
    "nv_count (cn_novelty c) \<noteq> 0 \<and> ro_t (cn_roots c) < min toT (cn_basisT c) \<longrightarrow>
          ro_t rts = min toT (cn_basisT c) \<and>
          (\<forall>i. set (contents (T' i)) = set (contents (T i)) \<union> {x \<in> nv_abs (cn_novelty c) i. d_t x \<le> min toT (cn_basisT c)} \<and>
             nv_abs (cn_novelty c') i = {x \<in> nv_abs (cn_novelty c) i. min toT (cn_basisT c) < d_t x})"
    using node_store.conn_index_full [OF r2_nodes.as_node_store [OF env_nodes [OF e]] bo C(1) c(2) n, of toT] r by auto
  have m: "min toT (cn_basisT c) = toT" using toT(2) C(2) by simp
  have "nv_count (cn_novelty c) \<noteq> 0"
  proof -
    let ?es = "log_between H (ro_t (cn_roots c)) (int (length H))"
    have "int (length ?es) > 0" using length_log_between [OF C(3,4), of H] toT by simp
    then obtain x where x: "x \<in> set ?es" by (cases ?es) auto
    then have "le_datoms x \<noteq> []" using set_log_between H by (fastforce simp: log_full_def)
    then obtain d where "d \<in> set (le_datoms x)" by (cases "le_datoms x") auto
    then have "d \<in> nv_abs (cn_novelty c) EAVT" using x C(6) [of EAVT] by auto
    then show ?thesis by (rule novelty_counts)
  qed
  with I(7) toT(1) m have R: "ro_t rts = toT" "\<And>i. set (contents (T' i)) = set (contents (T i)) \<union> {x \<in> nv_abs (cn_novelty c) i. d_t x \<le> toT}"
    "\<And>i. nv_abs (cn_novelty c') i = {x \<in> nv_abs (cn_novelty c) i. toT < d_t x}" by auto
  have t0: "0 \<le> toT" "ro_t (cn_roots c) \<le> toT" using toT C(3) by linarith+
  note B = between_datoms [OF ok C(3) t0(2) toT(2)]
  have "conn_holds env (store_ok env ok) H T' c'"
    unfolding conn_holds_def
  proof (intro conjI ballI)
    fix i :: index assume i: "i \<in> {EAVT, AEVT}"
    show "set (contents (T' i)) = log_datoms H (ro_t (cn_roots c'))"
      unfolding R(2) C(5) [OF i] C(6) [OF i] B(1) I(2) R(1) using log_split [OF num C(3) t0(2)] by simp
    show "nv_abs (cn_novelty c') i = set (concat (map le_datoms (log_between H (ro_t (cn_roots c')) (int (length H)))))"
      unfolding R(3) C(6) [OF i] B(2) I(2) R(1) ..
  qed (use I C(2) R(1) t0 toT(2) in simp_all)
  then show ?thesis using I R(1) by auto
qed

lemma adopt_holds:
  assumes W: "writer_holds env (store_ok env ok) H p T w" and alive: "wr_dead w = None"
    and r: "recordToRoots r = cn_roots (wr_conn w)" and fits: "fuel_fits env (wr_conn w)"
  shows "\<exists>T'. writer_holds env (store_ok env ok) H p T' (adopt_root r w)"
proof -
  let ?c = "wr_conn w" and ?b = "rs_bucket (cn_store (wr_conn w))"
  obtain Tc where Tc: "conn_holds env (store_ok env ok) H Tc ?c" and live: "rr_t (wr_root w) \<le> ro_t (cn_roots ?c)"
    using W alive by (auto simp: writer_holds_def writer_live_def)
  have rt: "rr_t r = ro_t (cn_roots ?c)" using arg_cong [OF r, of ro_t] by (simp add: recordToRoots_def)
  have I: "\<forall>i. ref_storable (rootFor (cn_roots ?c) i)" "\<forall>i. represents (wv_get env (cn_store ?c)) (rootFor (cn_roots ?c) i) (Tc i) \<and> wf_root i (Tc i)"
    "\<forall>i. \<forall>x\<in>set (contents (Tc i)). d_t x \<le> ro_t (cn_roots ?c)"
    using Tc by (simp_all add: conn_holds_def conn_inv_def db_rep_def db_bounded_def)
  have disk: "tables_hold H p (wr_root w) (wr_log w) (wr_meta w)" "trees_hold env (store_ok env ok) H T (wr_root w) ?b"
    using W by (simp_all add: writer_holds_def writer_disk_def)
  have "trees_hold env (store_ok env ok) H Tc r ?b"
    unfolding trees_hold_def r rt fresh_store_get
    using I fits Tc disk(2) by (auto simp: fuel_fits_def conn_holds_def trees_hold_def)
  moreover have "tables_hold H p r (wr_log w) (setMeta ''root'' (record_json r) (wr_meta w))"
    using disk(1) live rt Tc by (auto simp: tables_hold_def load_root_set load_number_other conn_holds_def)
  ultimately show ?thesis
    using W alive rt by (intro exI [of _ Tc]) (auto simp: writer_holds_def writer_disk_def writer_live_def adopt_root_def)
qed

lemma prune_holds:
  assumes W: "writer_holds env sok H p T w" and keep: "0 \<le> io_logKeepTxs io" "toT \<le> rr_t (wr_root w)"
  shows "\<exists>p'. writer_holds env sok H p' T (index_prune io toT w)"
proof -
  let ?t = "toT - io_logKeepTxs io"
  have tab: "tables_hold H p (wr_root w) (wr_log w) (wr_meta w)" and num: "numbered 0 H"
    using W by (simp_all add: writer_holds_def writer_disk_def log_full_def log_ok_def)
  have p: "0 \<le> p" "rows_hold H p (int (length H)) (wr_log w)" "p \<le> rr_t (wr_root w)" "rr_t (wr_root w) \<le> int (length H)"
    using tab by (simp_all add: tables_hold_def)
  have "rows_hold H (max p ?t) (int (length H)) (rows_drop ?t (wr_log w))"
  proof (cases "p \<le> ?t")
    case True
    then have "?t \<le> int (length H)" using keep p by linarith
    then show ?thesis using rows_drop_hold [OF num p(2,1) True] True by (simp add: max_absorb1 max_absorb2)
  next
    case False
    have "?t < fst x" if "x \<in> set (wr_log w)" for x
      using that p(1,2) False num by (auto simp: rows_hold_def in_between entry_row_def)
    then have "rows_drop ?t (wr_log w) = wr_log w" unfolding rows_drop_def by (intro filter_True) blast
    then show ?thesis using p(2) False by (simp add: max_absorb1)
  qed
  moreover have "max p ?t \<le> rr_t (wr_root w)" using p(3) keep by simp
  ultimately have "tables_hold H (max p ?t) (wr_root w) (rows_drop ?t (wr_log w)) (wr_meta w)"
    using tab by (auto simp: tables_hold_def le_max_iff_disj)
  then have "writer_holds env sok H (max p ?t) T (index_prune io toT w)"
    using W by (simp add: writer_holds_def writer_disk_def writer_live_def index_prune_def pruneLog_def)
  then show ?thesis by blast
qed

section \<open>A database in operation\<close>

text \<open>
  The steps of a database: the writer's own, a restart (by which a run of the indexer ends), and
  those of the indexer, which may give up anywhere. The log \<open>H\<close> and the acknowledgements \<open>A\<close> that
  were given are recorded beside the writer.
\<close>

type_synonym 'b db_state = "log_entry list \<times> tx_ack set \<times> index_phase \<times> 'b transactor"

inductive db_step :: "'b writer_env \<Rightarrow> index_options \<Rightarrow> 'b db_state \<Rightarrow> 'b db_state \<Rightarrow> bool" for env io where
  work: "writer_step env (H, A, w) (H', A', w') \<Longrightarrow> db_step env io (H, A, ph, w) (H', A', ph, w')"
| restart: "int (length H) - rr_t (wr_root w) \<le> int LOG_READ_LIMIT \<Longrightarrow> reboot env clk w = Inr w' \<Longrightarrow>
    db_step env io (H, A, ph, w) (H, A, Resting, w')"
| plan: "wr_dead w = None \<Longrightarrow> index_plan io w = Inr (Some (toT, es)) \<Longrightarrow> db_step env io (H, A, Resting, w) (H, A, Planned toT es, w)"
| flush: "wr_dead w = None \<Longrightarrow> index_flush env es w = Inr w' \<Longrightarrow> db_step env io (H, A, Planned toT es, w) (H, A, Flushed toT es, w')"
| merge: "wr_dead w = None \<Longrightarrow> indexes_consistent (wr_conn w) \<Longrightarrow> fuel_fits env (wr_conn w) \<Longrightarrow>
    index_merge env toT w = Inr (rts, w') \<Longrightarrow> fuel_fits env (wr_conn w') \<Longrightarrow>
    db_step env io (H, A, Flushed toT es, w) (H, A, Merged toT es, w')"
| describe: "wr_dead w = None \<Longrightarrow> index_record es w = (r, w') \<Longrightarrow> fuel_fits env (wr_conn w) \<Longrightarrow>
    db_step env io (H, A, Merged toT es, w) (H, A, Recorded toT r, w')"
| keep: "wr_dead w = None \<Longrightarrow> db_step env io (H, A, Recorded toT r, w) (H, A, Kept toT r, index_keep env r w)"
| flip: "wr_dead w = None \<Longrightarrow> db_step env io (H, A, Kept toT r, w) (H, A, Published toT r, index_flip env r w)"
| adopt: "wr_dead w = None \<Longrightarrow> fuel_fits env (wr_conn w) \<Longrightarrow>
    db_step env io (H, A, Published toT r, w) (H, A, Adopted toT, adopt_root r w)"
| prune: "wr_dead w = None \<Longrightarrow> db_step env io (H, A, Adopted toT, w) (H, A, Resting, index_prune io toT w)"
| give_up: "db_step env io (H, A, ph, w) (H, A, Resting, w)"

inductive_cases db_stepE: "db_step env io (H, A, ph, w) (H', A', ph', w')"

text \<open>What a phase knows of a live writer.\<close>

fun phase_ok :: "log_entry list \<Rightarrow> index_phase \<Rightarrow> 'b transactor \<Rightarrow> bool" where
  "phase_ok H Resting w = True"
| "phase_ok H (Planned toT es) w = (ro_t (cn_roots (wr_conn w)) < toT \<and> toT \<le> int (length H))"
| "phase_ok H (Flushed toT es) w = (ro_t (cn_roots (wr_conn w)) < toT \<and> toT \<le> int (length H))"
| "phase_ok H (Merged toT es) w = (ro_t (cn_roots (wr_conn w)) = toT)"
| "phase_ok H (Recorded toT r) w = (recordToRoots r = cn_roots (wr_conn w) \<and> rr_t r = toT)"
| "phase_ok H (Kept toT r) w = (recordToRoots r = cn_roots (wr_conn w) \<and> rr_t r = toT)"
| "phase_ok H (Published toT r) w = (recordToRoots r = cn_roots (wr_conn w) \<and> rr_t r = toT)"
| "phase_ok H (Adopted toT) w = (rr_t (wr_root w) = toT)"

definition db_holds :: "'b writer_env \<Rightarrow> ('b \<Rightarrow> bool) \<Rightarrow> 'b db_state \<Rightarrow> bool" where
  "db_holds env ok s =
     (case s of (H, A, ph, w) \<Rightarrow>
        (\<exists>p T. writer_holds env (store_ok env ok) H p T w) \<and> acks_in H A \<and> (wr_dead w = None \<longrightarrow> phase_ok H ph w))"

lemma put_keeps_nodes:
  assumes "r2_bucket bk objs ok cursor_at" "ok b" "\<forall>kd h. k \<noteq> objectKey kd h"
  shows "ok (bk_put bk b k v m) \<and> same_nodes (objs b) (objs (bk_put bk b k v m))"
proof -
  have "objs (bk_put bk b k v m) = (objs b)(k \<mapsto> body_bytes v)" "ok (bk_put bk b k v m)"
    using r2_bucket.put_body [OF assms(1,2)] by simp_all
  then show ?thesis using assms(3) by (auto simp: same_nodes_def)
qed

lemma live_bucket_ok: "writer_holds env (store_ok env ok) H p T w \<Longrightarrow> wr_dead w = None \<Longrightarrow> ok (writer_bucket w)"
  by (auto simp: writer_holds_def writer_live_def conn_holds_def conn_inv_def r2_inv_def writer_bucket_def)

lemma put_holds:
  assumes e: "env_ok env ok cursor_at" and W: "writer_holds env (store_ok env ok) H p T w" "wr_dead w = None"
    and k: "\<forall>kd h. k \<noteq> objectKey kd h"
  shows "writer_holds env (store_ok env ok) H p T (set_bucket (bk_put (wv_bucket env) (writer_bucket w) k v m) w)"
proof -
  have "r2_bucket (wv_bucket env) (wv_objs env) ok cursor_at" using e by (simp add: env_ok_def)
  from put_keeps_nodes [OF this live_bucket_ok [OF W] k] show ?thesis using set_bucket_holds [OF e W] by blast
qed

lemma flush_holds:
  assumes e: "env_ok env ok cursor_at" and W: "writer_holds env (store_ok env ok) H p T w" "wr_dead w = None"
    and f: "index_flush env es w = Inr w'"
  shows "writer_holds env (store_ok env ok) H p T w' \<and> wr_dead w' = None \<and> wr_root w' = wr_root w \<and>
    cn_roots (wr_conn w') = cn_roots (wr_conn w)"
proof (cases "es = []")
  case True
  then show ?thesis using W f by (simp add: index_flush_def)
next
  case False
  obtain raw k m where "w' = set_bucket (bk_put (wv_bucket env) (writer_bucket w) (logKey (le_t (hd es)) (le_t (last es))) (RBytes raw) m) w"
    using f False by (auto simp: index_flush_def putLogChunk_def Let_def res_simps)
  moreover have "\<forall>kd h. logKey (le_t (hd es)) (le_t (last es)) \<noteq> objectKey kd h" using log_key_no_node [OF logKey_starts(1)] by blast
  ultimately show ?thesis using put_holds [OF e W] W(2) by simp
qed

lemma merge_writer_holds:
  assumes e: "env_ok env ok cursor_at" and W: "writer_holds env (store_ok env ok) H p T w" "wr_dead w = None"
    and c: "indexes_consistent (wr_conn w)" "fuel_fits env (wr_conn w)"
    and t: "ro_t (cn_roots (wr_conn w)) < toT" "toT \<le> int (length H)" and m: "index_merge env toT w = Inr (rts, w')"
  shows "writer_holds env (store_ok env ok) H p T w' \<and> wr_dead w' = None \<and> cn_roots (wr_conn w') = rts \<and> ro_t rts = toT"
proof -
  obtain c' where c': "conn_index (wv_nodes env) (wv_get env) (r2_put (wv_objs env) (wv_store env)) (wv_build env) toT (wr_conn w) = Inr (rts, c')"
    "w' = w\<lparr>wr_conn := c'\<rparr>" using m by (auto simp: index_merge_def res_simps)
  obtain Tc where Tc: "conn_holds env (store_ok env ok) H Tc (wr_conn w)" "rr_t (wr_root w) \<le> ro_t (cn_roots (wr_conn w))"
    using W by (auto simp: writer_holds_def writer_live_def)
  have H: "log_full H" using W(1) by (simp add: writer_holds_def)
  obtain T' where M: "rts = cn_roots c'" "ro_t rts = toT" "wv_get env (cn_store (wr_conn w)) \<subseteq>\<^sub>m wv_get env (cn_store c')"
    "conn_holds env (store_ok env ok) H T' c'"
    using merge_holds [OF e H Tc(1) c t c'(1)] by blast
  have inv: "store_ok env ok (cn_store c')" using M(4) by (simp add: conn_holds_def conn_inv_def)
  have "trees_hold env (store_ok env ok) H T (wr_root w) (rs_bucket (cn_store c'))"
  proof (rule trees_hold_get)
    show "trees_hold env (store_ok env ok) H T (wr_root w) (rs_bucket (cn_store (wr_conn w)))"
      using W(1) by (simp add: writer_holds_def writer_disk_def)
    show "store_ok env ok (R2NodeStore (rs_bucket (cn_store c')) () ())"
      using fresh_store_inv [OF inv] e by (simp add: env_ok_def)
  qed (unfold fresh_store_get, rule M(3))
  then show ?thesis
    using W M Tc(2) t(1) by (auto simp: c'(2) writer_holds_def writer_disk_def writer_live_def)
qed

text \<open>What a writer step keeps of a phase, and the steps of the indexer beside the merge.\<close>

lemma phase_work:
  assumes "phase_ok H ph w" "\<exists>es. H' = H @ es" "wr_root w' = wr_root w" "cn_roots (wr_conn w') = cn_roots (wr_conn w)"
  shows "phase_ok H' ph w'"
  using assms by (cases ph) auto

lemma plan_ok:
  assumes W: "writer_holds env sok H p T w" "wr_dead w = None" and io: "0 < io_maxTxsPerRun io"
    and pl: "index_plan io w = Inr (Some (toT, es))"
  shows "phase_ok H (Planned toT es) w"
proof -
  have "cn_basisT (wr_conn w) = int (length H)" using W by (auto simp: writer_holds_def writer_live_def conn_holds_def)
  then show ?thesis using pl io by (auto simp: index_plan_def Let_def res_simps split: if_splits)
qed

lemma record_holds:
  assumes W: "writer_holds env sok H p T w" and r: "index_record es w = (r, w')"
  shows "writer_holds env sok H p T w'" "recordToRoots r = cn_roots (wr_conn w)" "rr_t r = ro_t (cn_roots (wr_conn w))"
    "wr_dead w' = wr_dead w" "cn_roots (wr_conn w') = cn_roots (wr_conn w)" "wr_root w' = wr_root w"
proof -
  obtain now clk wm where rw: "r = rootsToRecord (cn_roots (wr_conn w)) wm (cn_nextEid (wr_conn w)) writer_codec now" "w' = w\<lparr>wr_clock := clk\<rparr>"
    using r by (auto simp: index_record_def Let_def split: prod.splits)
  show "writer_holds env sok H p T w'" using W by (simp add: rw writer_holds_def writer_disk_def writer_live_def)
  show "recordToRoots r = cn_roots (wr_conn w)" "rr_t r = ro_t (cn_roots (wr_conn w))" "wr_dead w' = wr_dead w"
    "cn_roots (wr_conn w') = cn_roots (wr_conn w)" "wr_root w' = wr_root w"
    by (simp_all add: rw recordToRoots_rootsToRecord) (simp add: rootsToRecord_def)
qed

lemma publish_holds:
  assumes e: "env_ok env ok cursor_at" and W: "writer_holds env (store_ok env ok) H p T w" "wr_dead w = None"
  shows "writer_holds env (store_ok env ok) H p T (index_keep env r w)" "writer_holds env (store_ok env ok) H p T (index_flip env r w)"
  unfolding index_keep_def index_flip_def publish_immutable_def
  by (rule put_holds [OF e W]; simp add: root_keys_no_nodes)+

lemma publish_fields:
  "wr_dead (index_keep env r w) = wr_dead w" "cn_roots (wr_conn (index_keep env r w)) = cn_roots (wr_conn w)"
  "wr_root (index_keep env r w) = wr_root w"
  "wr_dead (index_flip env r w) = wr_dead w" "cn_roots (wr_conn (index_flip env r w)) = cn_roots (wr_conn w)"
  "wr_root (index_flip env r w) = wr_root w"
  by (simp_all add: index_keep_def index_flip_def)

lemma db_holdsI:
  "writer_holds env (store_ok env ok) H p T w \<Longrightarrow> acks_in H A \<Longrightarrow> (wr_dead w = None \<longrightarrow> phase_ok H ph w) \<Longrightarrow>
    db_holds env ok (H, A, ph, w)"
  by (auto simp: db_holds_def)

lemma db_step_holds:
  assumes e: "env_ok env ok cursor_at" and io: "0 < io_maxTxsPerRun io" "0 \<le> io_logKeepTxs io"
    and st: "db_step env io (H, A, ph, w) (H', A', ph', w')" and S: "db_holds env ok (H, A, ph, w)"
  shows "db_holds env ok (H', A', ph', w') \<and> (\<exists>es. H' = H @ es) \<and> A \<subseteq> A'"
proof -
  obtain p T where W: "writer_holds env (store_ok env ok) H p T w" and A: "acks_in H A" and ph: "wr_dead w = None \<longrightarrow> phase_ok H ph w"
    using S by (auto simp: db_holds_def)
  have same: ?thesis if "writer_holds env (store_ok env ok) H p T w'" "H' = H" "A' = A" "wr_dead w' = None \<longrightarrow> phase_ok H ph' w'" for p T
    using that db_holdsI [OF that(1) A] by simp
  show ?thesis
    using st
  proof (elim db_stepE)
    assume eq: "ph' = ph" and ws: "writer_step env (H, A, w) (H', A', w')"
    note s = writer_step_holds [OF ws W A]
    have "wr_dead w' = None \<longrightarrow> phase_ok H' ph w'" using s ph phase_work [of H ph w H' w'] by blast
    moreover have "writer_holds env (store_ok env ok) H' p T w'" "acks_in H' A'" using s by blast+
    ultimately have "db_holds env ok (H', A', ph', w')" unfolding eq by (intro db_holdsI)
    then show ?thesis using s by blast
  next
    fix clk assume new: "H = H'" "A' = A" "ph' = Resting" and few: "int (length H') - rr_t (wr_root w) \<le> int LOG_READ_LIMIT"
      and b: "reboot env clk w = Inr w'"
    then have "writer_holds env (store_ok env ok) H p T w'" using reboot_holds [OF W, of clk] by auto
    then show ?thesis using new by (intro same [of p T]) simp_all
  next
    fix toT es assume "H' = H" "A' = A" "ph' = Planned toT es" "w' = w" "ph = Resting"
      and a: "wr_dead w = None" "index_plan io w = Inr (Some (toT, es))"
    then show ?thesis using plan_ok [OF W a(1) io(1) a(2)] W by (intro same [of p T]) auto
  next
    fix es toT assume "H' = H" "A' = A" "ph' = Flushed toT es" "ph = Planned toT es"
      and a: "wr_dead w = None" "index_flush env es w = Inr w'"
    then show ?thesis using flush_holds [OF e W a] ph by (intro same [of p T]) auto
  next
    fix toT rts es assume "H' = H" "A' = A" "ph' = Merged toT es" "ph = Flushed toT es"
      and a: "wr_dead w = None" "indexes_consistent (wr_conn w)" "fuel_fits env (wr_conn w)" "index_merge env toT w = Inr (rts, w')"
    moreover from this have "ro_t (cn_roots (wr_conn w)) < toT" "toT \<le> int (length H)" using ph by auto
    ultimately show ?thesis using merge_writer_holds [OF e W a(1-3) _ _ a(4)] by (intro same [of p T]) auto
  next
    fix es r toT assume "H' = H" "A' = A" "ph' = Recorded toT r" "ph = Merged toT es"
      and a: "wr_dead w = None" "index_record es w = (r, w')"
    then show ?thesis using record_holds [OF W a(2)] ph by (intro same [of p T]) auto
  next
    fix toT r assume "H' = H" "A' = A" "ph' = Kept toT r" "ph = Recorded toT r" "w' = index_keep env r w" and a: "wr_dead w = None"
    then show ?thesis using publish_holds(1) [OF e W a] ph by (intro same [of p T]) (auto simp: publish_fields)
  next
    fix toT r assume "H' = H" "A' = A" "ph' = Published toT r" "ph = Kept toT r" "w' = index_flip env r w" and a: "wr_dead w = None"
    then show ?thesis using publish_holds(2) [OF e W a] ph by (intro same [of p T]) (auto simp: publish_fields)
  next
    fix toT r assume new: "H' = H" "A' = A" "ph' = Adopted toT" "ph = Published toT r" "w' = adopt_root r w"
      and a: "wr_dead w = None" "fuel_fits env (wr_conn w)"
    then have r: "recordToRoots r = cn_roots (wr_conn w)" "rr_t r = toT" using ph by auto
    have ok': "phase_ok H (Adopted toT) (adopt_root r w)" using r(2) by (simp add: adopt_root_def)
    obtain T' where "writer_holds env (store_ok env ok) H p T' w'" using adopt_holds [OF W a(1) r(1) a(2)] new by blast
    then show ?thesis using new ok' by (intro same [of p T']) simp_all
  next
    fix toT assume new: "H' = H" "A' = A" "ph' = Resting" "ph = Adopted toT" "w' = index_prune io toT w" and a: "wr_dead w = None"
    then have "toT \<le> rr_t (wr_root w)" using ph by simp
    then obtain p' where "writer_holds env (store_ok env ok) H p' T w'" using prune_holds [OF W io(2)] new by blast
    then show ?thesis using new by (intro same [of p' T]) simp_all
  next
    assume "H' = H" "A' = A" "ph' = Resting" "w' = w"
    then show ?thesis using W by (intro same [of p T]) auto
  qed
qed

text \<open>Whatever a database does, its log only grows and what was acknowledged stays acknowledged.\<close>

lemma db_run_holds:
  assumes run: "(db_step env io)\<^sup>*\<^sup>* (H, A, ph, w) (H', A', ph', w')" and e: "env_ok env ok cursor_at"
    and io: "0 < io_maxTxsPerRun io" "0 \<le> io_logKeepTxs io" and S: "db_holds env ok (H, A, ph, w)"
  shows "db_holds env ok (H', A', ph', w') \<and> (\<exists>es. H' = H @ es) \<and> A \<subseteq> A'"
  using run
proof (induction "(H', A', ph', w')" arbitrary: H' A' ph' w' rule: rtranclp_induct)
  case base
  then show ?case using S by simp
next
  case (step s1)
  obtain H1 A1 ph1 w1 where s1: "s1 = (H1, A1, ph1, w1)" by (cases s1) auto
  note IH = step.hyps(3) [OF s1]
  have "db_holds env ok (H', A', ph', w') \<and> (\<exists>es. H' = H1 @ es) \<and> A1 \<subseteq> A'"
    using db_step_holds [OF e io step.hyps(2) [unfolded s1]] IH by blast
  then show ?case using IH by (metis append.assoc subset_trans)
qed

end
