(* ===== verification/WriterClaims.thy ===== *)
theory WriterClaims
  imports Indexer ObjectClaims PolicyClaims
begin

text \<open>The properties of the single writer.\<close>

section \<open>Samples\<close>

text \<open>A bucket with an empty leaf, a root of four empty trees, and the tables of a writer of one entry.\<close>

definition sample_hash :: string where
  "sample_hash = toHex (replicate 32 0)"

definition empty_ref :: node_ref where
  "empty_ref = \<lparr>r_hash = sample_hash, r_kind = KLeaf, r_count = 0\<rparr>"

definition empty_root :: root_record where
  "empty_root = \<lparr>rr_t = 0, rr_eavt = empty_ref, rr_aevt = empty_ref, rr_avet = empty_ref, rr_vaet = empty_ref,
     rr_log_watermark = 0, rr_next_eid = 1002, rr_codec = js ''gzip'', rr_created_at = 0\<rparr>"

definition empty_bucket_leaf :: memory_bucket where
  "empty_bucket_leaf = MemoryBucket_put MemoryBucket (objectKey KLeaf sample_hash) (RBytes (node_bytes EAVT (LeafNode []))) None"

definition sample_writer_env :: "memory_bucket writer_env" where
  "sample_writer_env = \<lparr>wv_store = transactor_env memory_r2 identity_compress identity_decompress sample_sha, wv_objs = mb_objs,
     wv_build = \<lparr>bo_leafSize = 4, bo_fanout = 4\<rparr>, wv_nodes = 2, wv_pages = 1, wv_fuel = (2, 2, 2), wv_runtime = sample_runtime,
     wv_cells = 100, wv_policy = None, wv_maxBatch = 0\<rparr>"

definition sample_meta :: "(string, jsstr) jsmap" where
  "sample_meta = setMeta ''next_eid'' (JNum (NInt 1002)) (setMeta ''root'' (record_json empty_root) [])"

lemma sample_tables: "tables_hold [sample_e1] 0 empty_root [entry_row sample_e1] sample_meta"
proof -
  have "load_root sample_meta = Inr (Some empty_root)" by (simp add: sample_meta_def load_root_other load_root_set)
  moreover have "load_number sample_meta ''next_eid'' = Inr (Some 1002)" by (simp add: sample_meta_def load_number_set)
  ultimately show ?thesis by (simp add: tables_hold_def empty_root_def rows_hold_def log_between_def)
qed

lemma empty_leaf_ok: "node_ok NODE_CAP datom_storable ref_storable (LeafNode [])"
  by (simp add: NODE_CAP_def)

lemma empty_leaf_node: "bucket_node identity_decompress (mb_objs empty_bucket_leaf) sample_hash = Some (LeafNode [])"
proof -
  from deserialize_body [OF sample_codec empty_leaf_ok, of EAVT]
  have d: "deserializeNode identity_decompress (node_bytes EAVT (LeafNode [])) = Inr (LeafNode [])"
    by (simp add: identity_compress_def)
  have "mb_objs empty_bucket_leaf = [objectKey KLeaf sample_hash \<mapsto> node_bytes EAVT (LeafNode [])]"
    by (simp add: empty_bucket_leaf_def)
  then show ?thesis using d by (simp add: bucket_node_def bucket_body_def objectKey_def)
qed


abbreviation sample_ok :: "(memory_bucket, unit, unit) r2_store \<Rightarrow> bool" where
  "sample_ok \<equiv> store_ok sample_writer_env mb_ok"

lemma sample_store_ok: "sample_ok (R2NodeStore empty_bucket_leaf () ())"
proof -
  let ?get = "r2_get mb_objs (wv_store sample_writer_env) (R2NodeStore empty_bucket_leaf () ())"
  have o: "mb_objs empty_bucket_leaf = [objectKey KLeaf sample_hash \<mapsto> node_bytes EAVT (LeafNode [])]" and ok: "mb_ok empty_bucket_leaf"
    by (simp_all add: empty_bucket_leaf_def)
  have kind: "k = KLeaf \<and> h = sample_hash" if "objectKey k h = objectKey KLeaf sample_hash" for k h
    using that by (cases k) (simp_all add: objectKey_def)
  have leaf: "node_bytes EAVT (LeafNode []) = identity_compress (node_bytes EAVT (LeafNode []))" by (simp add: identity_compress_def)
  have "bucket_nodes_ok identity_compress (mb_objs empty_bucket_leaf)"
    unfolding bucket_nodes_ok_def
  proof (intro conjI allI impI)
    fix k h body assume "mb_objs empty_bucket_leaf (objectKey k h) = Some body"
    then have "objectKey k h = objectKey KLeaf sample_hash" "body = node_bytes EAVT (LeafNode [])" by (auto simp: o split: if_splits)
    then have "node_ok NODE_CAP datom_storable ref_storable (LeafNode []) \<and> kind_of (LeafNode []) = k \<and>
        body = identity_compress (node_bytes EAVT (LeafNode []))" using kind [of k h] empty_leaf_ok leaf by simp
    then show "\<exists>i nd. node_ok NODE_CAP datom_storable ref_storable nd \<and> kind_of nd = k \<and> body = identity_compress (node_bytes i nd)" by blast
  next
    fix h show "mb_objs empty_bucket_leaf (objectKey KLeaf h) = None \<or> mb_objs empty_bucket_leaf (objectKey KDir h) = None"
      using kind [of KDir h] unfolding o by (cases "objectKey KDir h = objectKey KLeaf sample_hash") simp_all
  qed
  then show ?thesis
    using ok sample_codec by (simp add: r2_inv_def sample_writer_env_def transactor_env_def R2NodeStore_def agrees_def lower_tiers_agree_def tier_node_def)
qed

lemma sample_writer_trees: "trees_hold sample_writer_env sample_ok [sample_e1] (\<lambda>i. ALeaf []) empty_root empty_bucket_leaf"
proof -
  have refs: "rootFor (recordToRoots empty_root) i = empty_ref" for i
    by (cases i) (simp_all add: recordToRoots_def empty_root_def)
  have "represents (bucket_node identity_decompress (mb_objs empty_bucket_leaf)) empty_ref (ALeaf [])"
    using empty_leaf_node by (intro rep_leaf) (simp_all add: empty_ref_def)
  then have rep: "represents (wv_get sample_writer_env (R2NodeStore empty_bucket_leaf () ())) empty_ref (ALeaf [])"
    by (simp add: sample_writer_env_def transactor_env_def R2NodeStore_def r2_get_def)
  have "log_datoms [sample_e1] (rr_t empty_root) = {}" by (simp add: log_datoms_def empty_root_def sample_e1_def)
  moreover have "ref_storable empty_ref" "nodes (ALeaf []) < wv_nodes sample_writer_env" "wf_root i (ALeaf [])" for i
    by (auto simp: empty_ref_def ref_storable_def wf_root_def sample_writer_env_def sample_hash_def strictly_sorted_def intro!: exI [of _ "replicate 32 0"])
  ultimately show ?thesis
    using rep sample_store_ok unfolding trees_hold_def refs by simp
qed

lemma sample_log_full: "log_full [sample_e1]"
  using sample_log_ok by (simp add: log_full_def) (simp add: sample_e1_def)






text \<open>Booting the sample tables, and the batch of the one call.\<close>

lemma sample_boot:
  "\<exists>w. writer_boot sample_writer_env [20] empty_bucket_leaf [entry_row sample_e1] sample_meta [] = Inr w \<and>
    writer_holds sample_writer_env sample_ok [sample_e1] 0 (\<lambda>i. ALeaf []) w \<and> wr_dead w = None \<and> wr_queue w = [] \<and> wr_settled w = [] \<and>
    wr_broadcast w = [] \<and> wr_log w = [entry_row sample_e1] \<and> wr_clock w = [20] \<and> cn_basisT (wr_conn w) = 1 \<and>
    wr_recentAcks w = [] \<and> wr_recentOpAcks w = [] \<and> wr_root w = empty_root"
  using writer_boot_holds [OF sample_log_full sample_tables sample_writer_trees, of "[]" "[20]"]
  by (auto simp: acks_in_def empty_root_def LOG_READ_LIMIT_def)




section \<open>Group commit\<close>





section \<open>Restarts\<close>






section \<open>Subscribers\<close>

text \<open>
  C25: A subscription catches a replica up. The frames a writer sends a new subscriber from the
  replica's basis, handled in order by the replica - which asks the writer or object storage for
  what the writer's table no longer has - bring it to the end of the log, however far it was
  behind, as long as what was pruned from the table is in object storage.
\<close>

theorem subscription_catches_up:
  assumes "r2_bucket bk objs ok cursor_at" "writer_holds env sok H p T w" "wr_dead w = None" "log_finite H"
    and "int (length H) - p \<le> int LOG_READ_LIMIT" "replica_ok H s" "qr_dbName s \<noteq> None" "ok (qr_bucket s)"
    and "stored_log compress net H (objs (qr_bucket s)) k" "p \<le> int k" "rn_bucket net = bk" "rn_log net = writer_answers w"
  shows "\<exists>fs. onSubscribe (Some (basisT s)) w = (fs, None) \<and> replica_ok H (handleFrames net (map frame_sent fs) s) \<and>
    basisT (handleFrames net (map frame_sent fs) s) = int (length H)"
proof -
  have "log_full H" "tables_hold H p (wr_root w) (wr_log w) (wr_meta w)" "cn_basisT (wr_conn w) = int (length H)"
    using assms(2,3) by (auto simp: writer_holds_def writer_disk_def writer_live_def conn_holds_def)
  from r2_bucket.subscribe_catches_up [OF assms(1) this(1) assms(4) this(2,3) assms(5-9,11,12,10)] show ?thesis .
qed

theorem subscription_catches_up_witness:
  "\<exists>w fs. writer_boot sample_writer_env [20] empty_bucket_leaf [entry_row sample_e1] sample_meta [] = Inr w \<and>
     onSubscribe (Some 0) w = (fs, None) \<and>
     basisT (handleFrames (sample_net\<lparr>rn_log := writer_answers w\<rparr>) (map frame_sent fs) (sample_replica [])) = 1"
proof -
  let ?H = "[sample_e1]" and ?s = "sample_replica []"
  obtain w where w: "writer_boot sample_writer_env [20] empty_bucket_leaf [entry_row sample_e1] sample_meta [] = Inr w"
    "writer_holds sample_writer_env sample_ok ?H 0 (\<lambda>i. ALeaf []) w" "wr_dead w = None"
    using sample_boot by blast
  let ?net = "sample_net\<lparr>rn_log := writer_answers w\<rparr>"
  have fin: "log_finite ?H" by (simp add: log_finite_def sample_e1_def sample_datom_def value_finite_def)
  have num: "numbered 0 ?H" using sample_log_ok by (simp add: log_ok_def)
  have s: "replica_ok ?H ?s" "basisT ?s = 0"
    using replica_okI [OF num, of ?s 0 0] by (simp_all add: sample_replica_fields log_between_def rows_hold_def)
      (simp_all add: sample_replica_def load_root_set load_name_set load_name_assign last_t_def)
  have "holds_log identity_compress Map.empty []" by (simp add: holds_log_def chunks_ok_def)
  then have st: "stored_log identity_compress ?net ?H (mb_objs (qr_bucket ?s)) 0"
    by (auto simp: stored_log_def sample_net_def identity_compress_def identity_decompress_def sample_replica_fields intro!: exI [of _ "[]"])
  have "int (length ?H) - 0 \<le> int LOG_READ_LIMIT" by (simp add: LOG_READ_LIMIT_def)
  from subscription_catches_up [OF memory.r2_bucket_axioms w(2,3) fin this s(1) _ _ st] w(1) s(2)
  show ?thesis by (auto simp: sample_replica_fields sample_net_ok(2))
qed

text \<open>
  A gap frame alone closes no gap. The writer names the \<open>t\<close> before its first row, which is
  past the replica's basis; the replica reads the stored chunks after that \<open>t\<close>, so whatever
  object storage holds, it appends nothing and its basis stays. Only the next transaction frame
  makes it ask for what is missing.
\<close>

lemma gap_frame_closes_nothing:
  assumes "r2_bucket bk objs ok cursor_at" "log_ok H" "replica_ok H s" "qr_root s \<noteq> None" "ok (qr_bucket s)"
    and "stored_log compress net H (objs (qr_bucket s)) k" "rn_bucket net = bk" "basisT s < n"
  shows "\<exists>s'. handleFrame net (GapFrame n) s = (s', None) \<and> basisT s' = basisT s \<and> qr_entries s' = qr_entries s"
  by (rule r2_bucket.gap_frame_stays [OF assms])

lemma gap_frame_closes_nothing_witness:
  "\<exists>s'. handleFrame sample_net (GapFrame 1) (sample_replica []) = (s', None) \<and> basisT s' = 0"
  using gap_frame_closes_nothing [OF memory.r2_bucket_axioms sample_log_ok(2) sample_replica_ok(2) _ _ _ sample_net_ok(2), of identity_compress 0 1]
    sample_net_ok(3)
  by (auto simp: sample_replica_fields last_t_def)

end
