(* ===== verification/ScanMany.thy ===== *)
theory ScanMany
  imports SegTree
begin

text \<open>
  The batched seek of \<open>internal/core/tree.ts\<close>: one cursor answers many prefixes of the same
  shape in ascending order, staying in the leaf it is in where it can and galloping from
  where the last answer ended. It returns for every prefix what a scan of its own would.
\<close>

section \<open>The batched seek\<close>

text \<open>An absent component is filled with a value that no comparison looks at.\<close>

definition prefixAsDatom :: "prefix \<Rightarrow> datom" where
  "prefixAsDatom p =
     \<lparr>d_e = (case p_e p of Some e \<Rightarrow> e | None \<Rightarrow> 0), d_a = (case p_a p of Some a \<Rightarrow> a | None \<Rightarrow> 0),
      d_v = (case p_v p of Some v \<Rightarrow> v | None \<Rightarrow> VLong 0), d_t = (case p_t p of Some t \<Rightarrow> t | None \<Rightarrow> 0), d_op = True\<rparr>"

text \<open>The leading number of a prefix, when it is an integer below \<open>2 ^ 32\<close>.\<close>

definition primary_key :: "index \<Rightarrow> prefix \<Rightarrow> nat option" where
  "primary_key i p =
     (case (case i of
              EAVT \<Rightarrow> p_e p
            | AEVT \<Rightarrow> p_a p
            | AVET \<Rightarrow> p_a p
            | VAET \<Rightarrow> (case p_v p of Some (VRef x) \<Rightarrow> Some x | _ \<Rightarrow> None)) of
        Some k \<Rightarrow> if 0 \<le> k \<and> k < 2 ^ 32 then Some (nat k) else None
      | None \<Rightarrow> None)"

text \<open>
  Runs of equal primary key in the packed array, each sorted by the full comparator. The
  packed numbers are exact in a double: the key is below \<open>2 ^ 32\<close>, the index below \<open>2 ^ 20\<close>.
\<close>

function sort_runs :: "(nat \<Rightarrow> nat \<Rightarrow> int) \<Rightarrow> nat list \<Rightarrow> nat list" where
  "sort_runs cmp [] = []"
| "sort_runs cmp (v # vs) =
     (let run = map (\<lambda>w. w mod 2 ^ 20) (v # takeWhile (\<lambda>w. w div 2 ^ 20 = v div 2 ^ 20) vs)
      in (if length run > 1 then js_sort cmp run else run) @
         sort_runs cmp (dropWhile (\<lambda>w. w div 2 ^ 20 = v div 2 ^ 20) vs))"
  by pat_completeness auto
termination
  by (relation "measure (\<lambda>(cmp, vs). length vs)") (auto simp: less_Suc_eq_le length_dropWhile_le)

definition prefix_cmp :: "index \<Rightarrow> prefix list \<Rightarrow> nat \<Rightarrow> nat \<Rightarrow> int" where
  "prefix_cmp i ps x y = comparePrefix i (prefixAsDatom (ps ! x)) (ps ! y)"

definition sortedPrefixOrder :: "index \<Rightarrow> prefix list \<Rightarrow> nat list" where
  "sortedPrefixOrder i ps =
     (let n = length ps; keys = map (primary_key i) ps
      in if n < 2 ^ 20 \<and> None \<notin> set keys
         then sort_runs (prefix_cmp i ps) (sort (map (\<lambda>x. the (keys ! x) * 2 ^ 20 + x) [0..<n]))
         else js_sort (prefix_cmp i ps) [0..<n])"

text \<open>
  The cursor: the leaf it is in with the frames after it, and the end of the last answer in
  that leaf. An array is taken to be the array of the last answer when it is equal to it.
\<close>

record cursor =
  cu_leaf :: "datom list option"
  cu_frames :: "frame list"
  cu_lastEnd :: nat

definition nextLeaf :: "nat \<Rightarrow> node_source \<Rightarrow> index \<Rightarrow> prefix \<Rightarrow> frame list \<Rightarrow> (datom list option \<times> frame list) res" where
  "nextLeaf n src i p fs =
     (case dropWhile exhausted fs of
        [] \<Rightarrow> Inr (None, [])
      | (ks, rs, j) # fs' \<Rightarrow>
          if comparePrefix i (ks ! j) p > 0 then Inr (None, (ks, rs, j) # fs')
          else rmap (\<lambda>(ds, fs''). (Some ds, fs'')) (descend n src (\<lambda>_. 0) (rs ! j) ((ks, rs, j + 1) # fs')))"

text \<open>The answer of one prefix from position \<open>s\<close> of a leaf on.\<close>

fun seek_run ::
  "nat \<Rightarrow> node_source \<Rightarrow> index \<Rightarrow> (datom \<Rightarrow> prefix \<Rightarrow> int) \<Rightarrow> prefix \<Rightarrow> datom list \<Rightarrow> nat \<Rightarrow> frame list \<Rightarrow>
    (datom list \<times> cursor) res" where
  "seek_run 0 src i cmp p ds s fs = Inl Diverges"
| "seek_run (Suc n) src i cmp p ds s fs =
     (let e = upperBoundFrom cmp ds p s; here = drop s (take e ds)
      in if e < length ds then Inr (here, \<lparr>cu_leaf = Some ds, cu_frames = fs, cu_lastEnd = e\<rparr>)
         else rbind (nextLeaf n src i p fs) (\<lambda>(nl, fs').
           case nl of
             None \<Rightarrow> Inr (here, \<lparr>cu_leaf = Some ds, cu_frames = fs', cu_lastEnd = e\<rparr>)
           | Some ds' \<Rightarrow> rmap (\<lambda>(out, cu). (here @ out, cu)) (seek_run n src i cmp p ds' 0 fs')))"

definition stays :: "(datom \<Rightarrow> prefix \<Rightarrow> int) \<Rightarrow> prefix \<Rightarrow> cursor \<Rightarrow> bool" where
  "stays cmp p cu = (case cu_leaf cu of None \<Rightarrow> False | Some ds \<Rightarrow> ds \<noteq> [] \<and> \<not> cmp (last ds) p < 0)"

definition seek_step ::
  "nat \<Rightarrow> node_source \<Rightarrow> index \<Rightarrow> node_ref \<Rightarrow> (datom \<Rightarrow> prefix \<Rightarrow> int) \<Rightarrow> prefix \<Rightarrow> cursor \<Rightarrow> (datom list \<times> cursor) res" where
  "seek_step n src i root cmp p cu =
     rbind (if stays cmp p cu then Inr (the (cu_leaf cu), cu_frames cu) else descend n src (\<lambda>ks. childForPrefix i ks p) root [])
       (\<lambda>(ds, fs).
          seek_run n src i cmp p ds (lowerBoundFrom cmp ds p (if cu_leaf cu = Some ds then cu_lastEnd cu else 0)) fs)"

fun seek_loop ::
  "nat \<Rightarrow> node_source \<Rightarrow> index \<Rightarrow> node_ref \<Rightarrow> (datom \<Rightarrow> prefix \<Rightarrow> int) \<Rightarrow> prefix list \<Rightarrow> nat list \<Rightarrow>
    (prefix \<times> datom list) option \<Rightarrow> cursor \<Rightarrow> datom list list \<Rightarrow> datom list list res" where
  "seek_loop n src i root cmp ps [] prev cu results = Inr results"
| "seek_loop n src i root cmp ps (k # ks) prev cu results =
     (if (case prev of Some (q, out) \<Rightarrow> cmp (prefixAsDatom (ps ! k)) q = 0 | None \<Rightarrow> False)
      then seek_loop n src i root cmp ps ks prev cu (results[k := snd (the prev)])
      else rbind (seek_step n src i root cmp (ps ! k) cu) (\<lambda>(out, cu').
        seek_loop n src i root cmp ps ks (Some (ps ! k, out)) cu' (results[k := out])))"

definition scanMany :: "nat \<Rightarrow> node_source \<Rightarrow> index \<Rightarrow> node_ref \<Rightarrow> prefix list \<Rightarrow> datom list list res" where
  "scanMany n src i root ps =
     (if ps = [] then Inr []
      else seek_loop n src i root (prefixComparator i (hd ps)) ps (sortedPrefixOrder i ps) None
        \<lparr>cu_leaf = None, cu_frames = [], cu_lastEnd = 0\<rparr> (replicate (length ps) []))"

section \<open>The order of prefixes of one shape\<close>

definition same_shape :: "prefix \<Rightarrow> prefix \<Rightarrow> bool" where
  "same_shape p q \<longleftrightarrow> (\<forall>k. has_component p k = has_component q k)"

fun comp_cmp :: "component \<Rightarrow> prefix \<Rightarrow> prefix \<Rightarrow> int" where
  "comp_cmp CE p q = cmpNum (the (p_e p)) (the (p_e q))"
| "comp_cmp CA p q = cmpNum (the (p_a p)) (the (p_a q))"
| "comp_cmp CV p q = compareValue (the (p_v p)) (the (p_v q))"
| "comp_cmp CT p q = cmpNum (the (p_t p)) (the (p_t q))"

fun comps_cmp :: "component list \<Rightarrow> prefix \<Rightarrow> prefix \<Rightarrow> int" where
  "comps_cmp [] p q = 0"
| "comps_cmp (k # ks) p q = or_else (comp_cmp k p q) (comps_cmp ks p q)"

definition leading :: "index \<Rightarrow> prefix \<Rightarrow> component list" where
  "leading i p = takeWhile (has_component p) (INDEX_ORDER i)"

definition comps_ok :: "component list \<Rightarrow> prefix \<Rightarrow> bool" where
  "comps_ok ks p \<longleftrightarrow> prefix_ok p \<and> (\<forall>k\<in>set ks. has_component p k)"

definition full_prefix :: "datom \<Rightarrow> prefix" where
  "full_prefix d = \<lparr>p_e = Some (d_e d), p_a = Some (d_a d), p_v = Some (d_v d), p_t = Some (d_t d)\<rparr>"

lemma comparePrefix_comps: "comparePrefix i d q = comps_cmp (leading i q) (full_prefix d) q"
  by (cases i; cases "p_e q"; cases "p_a q"; cases "p_v q"; cases "p_t q") (simp_all add: leading_def full_prefix_def)

lemma leading_shape: "same_shape p q \<Longrightarrow> leading i p = leading i q"
proof -
  assume "same_shape p q"
  then have "has_component p = has_component q" unfolding same_shape_def by (intro ext) blast
  then show ?thesis by (simp add: leading_def)
qed

lemma comps_cmp_cong: "(\<And>k. k \<in> set ks \<Longrightarrow> comp_cmp k p q = comp_cmp k p' q) \<Longrightarrow> comps_cmp ks p q = comps_cmp ks p' q"
  by (induction ks) auto

lemma leading_has: "k \<in> set (leading i q) \<Longrightarrow> has_component q k"
  by (auto simp: leading_def dest: set_takeWhileD)

lemma comparePrefix_asDatom:
  assumes "same_shape p q"
  shows "comparePrefix i (prefixAsDatom p) q = comps_cmp (leading i q) p q"
  unfolding comparePrefix_comps
proof (rule comps_cmp_cong)
  fix k assume "k \<in> set (leading i q)"
  then have "has_component p k" using assms leading_has by (simp add: same_shape_def)
  then show "comp_cmp k (full_prefix (prefixAsDatom p)) q = comp_cmp k p q"
    by (cases k) (auto simp: full_prefix_def prefixAsDatom_def)
qed

lemma cmpNum_order: "cmp_order cmpNum (\<lambda>_. True)"
  by unfold_locales (auto simp: cmpNum_def split: if_splits)

lemma comps_order: "cmp_order (comps_cmp ks) (comps_ok ks)"
proof (induction ks)
  case Nil
  show ?case by unfold_locales simp_all
next
  case (Cons k ks)
  have vals: "cmp_order compareValue value_ok" using value_cmp.cmp_order_axioms .
  have num: "cmp_order (\<lambda>p q. cmpNum (f p) (f q)) (comps_ok (k # ks))" for f :: "prefix \<Rightarrow> int"
    by (rule cmp_order_pullback [OF cmpNum_order]) simp
  have "cmp_order (comp_cmp k) (comps_ok (k # ks))"
  proof (cases k)
    case CV
    have "cmp_order (\<lambda>p q. compareValue (the (p_v p)) (the (p_v q))) (comps_ok (k # ks))"
      by (rule cmp_order_pullback [OF vals]) (auto simp: comps_ok_def prefix_ok_def CV)
    then show ?thesis by (rule cmp_order_cong) (simp add: CV)
  next
    case CE
    then show ?thesis using cmp_order_cong [OF num [of "\<lambda>p. the (p_e p)"], of "comp_cmp k"] by simp
  next
    case CA
    then show ?thesis using cmp_order_cong [OF num [of "\<lambda>p. the (p_a p)"], of "comp_cmp k"] by simp
  next
    case CT
    then show ?thesis using cmp_order_cong [OF num [of "\<lambda>p. the (p_t p)"], of "comp_cmp k"] by simp
  qed
  moreover have "cmp_order (comps_cmp ks) (comps_ok (k # ks))"
    using cmp_order_pullback [OF Cons.IH, of "comps_ok (k # ks)" id] by (simp add: comps_ok_def)
  ultimately have "cmp_order (\<lambda>p q. or_else (comp_cmp k p q) (comps_cmp ks p q)) (comps_ok (k # ks))"
    by (rule cmp_order_or_else)
  then show ?case by (rule cmp_order_cong) simp
qed

lemma prefixComparator_same: "same_shape q p0 \<Longrightarrow> prefixComparator i p0 d q = comparePrefix i d q"
proof -
  assume s: "same_shape q p0"
  have "has_component q k = has_component p0 k" for k using s by (simp add: same_shape_def)
  from this [of CE] this [of CA] this [of CV] this [of CT] show ?thesis
    by (cases i; cases "p_e q"; cases "p_a q"; cases "p_v q"; cases "p_t q") (auto simp: prefixComparator_def Let_def cmpNum_def)
qed

lemma comps_ok_leading:
  assumes "same_shape p q" "prefix_ok p" "prefix_ok q"
  shows "comps_ok (leading i q) p" "comps_ok (leading i q) q"
  using assms leading_has [of _ i q] by (auto simp: comps_ok_def same_shape_def)

lemma comps_ok_full: "datom_ok d \<Longrightarrow> comps_ok ks (full_prefix d)"
proof -
  have "has_component (full_prefix d) k" for k by (cases k) (simp_all add: full_prefix_def)
  then show "datom_ok d \<Longrightarrow> comps_ok ks (full_prefix d)"
    by (simp add: comps_ok_def prefix_ok_def full_prefix_def datom_ok_def)
qed

lemma upto_then_below:
  assumes "same_shape p q" "prefix_ok p" "prefix_ok q"
    and "datom_ok d" "upto_end i p d" "comparePrefix i (prefixAsDatom p) q < 0"
  shows "below i q d"
  using cmp_order.cmp_le_less_trans [OF comps_order comps_ok_full [OF assms(4)] comps_ok_leading [OF assms(1-3)]]
    assms(5,6) leading_shape [OF assms(1), of i]
  by (simp add: comparePrefix_asDatom [OF assms(1)]) (simp add: comparePrefix_comps)

lemma equal_then_matching:
  assumes "same_shape p q" "prefix_ok p" "prefix_ok q" "datom_ok d" "comparePrefix i (prefixAsDatom p) q = 0"
  shows "matching i p d \<longleftrightarrow> matching i q d"
proof -
  let ?L = "leading i q"
  have L: "leading i p = ?L" by (rule leading_shape [OF assms(1)])
  have z: "comps_cmp ?L p q = 0" using assms(5) by (simp add: comparePrefix_asDatom [OF assms(1)])
  note o = comps_ok_leading [OF assms(1-3), of i] comps_ok_full [OF assms(4), of ?L]
  have "comps_cmp ?L p (full_prefix d) = 0 \<longleftrightarrow> comps_cmp ?L q (full_prefix d) = 0"
    by (rule cmp_order.cmp_zero_less(3) [OF comps_order o(1,2,3) z])
  then show ?thesis
    using cmp_order.cmp_sym_zero [OF comps_order o(3,1)] cmp_order.cmp_sym_zero [OF comps_order o(3,2)]
    by (simp add: comparePrefix_comps L)
qed

section \<open>Galloping finds the same bounds\<close>

lemma gallop_spec:
  assumes "lo \<le> hi" "lo \<le> L" "L \<le> n" "\<And>j. j < n \<Longrightarrow> lt j \<longleftrightarrow> j < L"
  shows "fst (gallop lt n lo hi k) \<le> L \<and> L \<le> min (snd (gallop lt n lo hi k)) n"
  using assms
proof (induction lt n lo hi k rule: gallop.induct)
  case (1 lt n lo hi k)
  show ?case
  proof (cases "hi < n \<and> lt hi")
    case True
    then have "hi < L" using "1.prems"(4) by blast
    moreover have "hi + 1 \<le> hi + 2 ^ k" by simp
    ultimately show ?thesis using "1.IH" [OF True _ _ "1.prems"(3,4)] True by (subst (1 2) gallop.simps) simp
  next
    case False
    then have "gallop lt n lo hi k = (lo, hi)" by (subst gallop.simps) auto
    moreover have "L \<le> min hi n"
    proof (cases "hi < n")
      case True
      with False have "\<not> lt hi" by blast
      with True "1.prems"(4) have "L \<le> hi" by (metis not_less)
      with True show ?thesis by simp
    qed (use "1.prems"(3) in simp)
    ultimately show ?thesis using "1.prems"(2) by simp
  qed
qed

lemma bisect_at:
  assumes "lo \<le> L" "L \<le> hi" "hi \<le> n" "\<And>j. j < n \<Longrightarrow> lt j \<longleftrightarrow> j < L"
  shows "bisect lt lo hi = L"
proof -
  have b: "lo \<le> bisect lt lo hi \<and> bisect lt lo hi \<le> hi \<and> (\<forall>i. lo \<le> i \<and> i < bisect lt lo hi \<longrightarrow> lt i) \<and>
    (\<forall>i. bisect lt lo hi \<le> i \<and> i < hi \<longrightarrow> \<not> lt i)"
  proof (rule bisect_spec)
    show "lo \<le> hi" using assms by simp
    fix i j assume "lo \<le> i" "i \<le> j" "j < hi" "lt j"
    then have "j < L" using assms(3) assms(4) [of j] by simp
    with \<open>i \<le> j\<close> \<open>j < hi\<close> show "lt i" using assms(3) assms(4) [of i] by simp
  qed
  show ?thesis
  proof (rule linorder_cases [of "bisect lt lo hi" L])
    assume l: "bisect lt lo hi < L"
    then have "\<not> lt (bisect lt lo hi)" using b assms(2) by simp
    with l assms(2-) show ?thesis by (metis less_le_trans order.strict_trans2)
  next
    assume g: "L < bisect lt lo hi"
    then have "lt L" using b assms(1) by simp
    moreover have "L < n" using g b assms(3) by linarith
    ultimately show ?thesis using assms(4) by blast
  qed
qed

lemma initial_on_index:
  assumes "initial_on P xs" "j < length xs"
  shows "P (xs ! j) \<longleftrightarrow> j < length (takeWhile P xs)"
proof
  assume P: "P (xs ! j)"
  show "j < length (takeWhile P xs)"
  proof (rule ccontr)
    assume "\<not> j < length (takeWhile P xs)"
    then have l: "length (takeWhile P xs) \<le> j" by simp
    have "P (xs ! length (takeWhile P xs))" by (rule initial_on_nth [OF assms(1) l assms(2) P])
    moreover have "length (takeWhile P xs) < length xs" using l assms(2) by simp
    ultimately show False using nth_length_takeWhile [of P xs] by blast
  qed
next
  assume "j < length (takeWhile P xs)"
  then show "P (xs ! j)" by (metis nth_mem set_takeWhileD takeWhile_nth)
qed

lemma bound_from:
  assumes "initial_on P xs" "from \<le> length (takeWhile P xs)"
  shows "(case gallop (\<lambda>h. P (xs ! h)) (length xs) from from 0 of (lo, hi) \<Rightarrow> bisect (\<lambda>m. P (xs ! m)) lo (min hi (length xs))) =
    length (takeWhile P xs)"
proof -
  obtain lo hi where g: "gallop (\<lambda>h. P (xs ! h)) (length xs) from from 0 = (lo, hi)" by fastforce
  note ix = initial_on_index [OF assms(1)]
  have "lo \<le> length (takeWhile P xs) \<and> length (takeWhile P xs) \<le> min hi (length xs)"
    using gallop_spec [of "from" "from" "length (takeWhile P xs)" "length xs" "\<lambda>h. P (xs ! h)" 0] assms(2) ix g
    by (simp add: length_takeWhile_le)
  then show ?thesis using bisect_at [of lo _ "min hi (length xs)" "length xs" "\<lambda>h. P (xs ! h)"] ix by (simp add: g)
qed

lemma lowerBoundFrom_takeWhile:
  assumes "\<And>d. cmp d p = comparePrefix i d p" "index_sorted i ds" "prefix_ok p" "from \<le> length (takeWhile (below i p) ds)"
  shows "lowerBoundFrom cmp ds p from = length (takeWhile (below i p) ds)"
  using bound_from [OF initial_below [OF assms(2,3)] assms(4)] by (simp add: lowerBoundFrom_def assms(1) Let_def)

lemma upperBoundFrom_takeWhile:
  assumes "\<And>d. cmp d p = comparePrefix i d p" "index_sorted i ds" "prefix_ok p" "from \<le> length (takeWhile (upto_end i p) ds)"
  shows "upperBoundFrom cmp ds p from = length (takeWhile (upto_end i p) ds)"
  using bound_from [OF initial_upto [OF assms(2,3)] assms(4)] by (simp add: upperBoundFrom_def assms(1) Let_def)

section \<open>The cursor\<close>

text \<open>
  Where the cursor stands after the answer of \<open>p\<close>: the datoms before its leaf are at most
  \<open>p\<close>, those after are in its frames, and the end it remembers is that of \<open>p\<close> in the leaf.
\<close>

definition stands :: "node_source \<Rightarrow> index \<Rightarrow> atree \<Rightarrow> prefix \<Rightarrow> datom list \<Rightarrow> datom list \<Rightarrow> frame list \<Rightarrow> aframe list \<Rightarrow> bool" where
  "stands src i t p pre ds fs afs \<longleftrightarrow>
     list_all2 (frame_rep src) fs afs \<and> frames_wf afs \<and> contents t = pre @ ds @ pending afs \<and>
     pending_nodes afs < nodes t \<and> (\<forall>d\<in>set pre. upto_end i p d)"

definition cursor_ok :: "node_source \<Rightarrow> index \<Rightarrow> atree \<Rightarrow> prefix \<Rightarrow> cursor \<Rightarrow> bool" where
  "cursor_ok src i t p cu \<longleftrightarrow>
     (\<exists>pre ds afs. cu_leaf cu = Some ds \<and> stands src i t p pre ds (cu_frames cu) afs \<and>
        cu_lastEnd cu = length (takeWhile (upto_end i p) ds))"

lemma takeWhile_all_upto:
  "\<not> length (takeWhile P ds) < length ds \<Longrightarrow> \<forall>d\<in>set ds. P d"
  using takeWhile_eq_all_conv [of P ds] length_takeWhile_le [of P ds] takeWhile_eq_take [of P ds] by simp

lemma nextLeaf_spec:
  assumes "list_all2 (frame_rep src) fs afs" "frames_wf afs" "index_sorted i (pending afs)" "prefix_ok p" "pending_nodes afs \<le> n"
    and "\<forall>d\<in>set (pending afs). \<not> below i p d"
  shows "\<exists>nl fs' afs'. nextLeaf n src i p fs = Inr (nl, fs') \<and> list_all2 (frame_rep src) fs' afs' \<and> frames_wf afs' \<and>
    (case nl of
       None \<Rightarrow> pending afs' = pending afs \<and> pending_nodes afs' = pending_nodes afs \<and> filter (matching i p) (pending afs) = []
     | Some ds \<Rightarrow> pending afs = ds @ pending afs' \<and> pending_nodes afs' < pending_nodes afs)"
proof -
  obtain afs' where afs': "list_all2 (frame_rep src) (dropWhile exhausted fs) afs'"
      "pending afs' = pending afs" "pending_nodes afs' = pending_nodes afs" "frames_wf afs'"
    using pending_dropWhile [OF assms(1)] assms(2) by auto
  show ?thesis
  proof (cases "dropWhile exhausted fs")
    case Nil
    then have "afs' = []" using afs'(1) by (metis list_all2_Nil)
    then have "pending afs = []" "pending_nodes afs = 0" using afs'(2,3) by simp_all
    moreover have "nextLeaf n src i p fs = Inr (None, [])" by (simp add: nextLeaf_def Nil)
    ultimately show ?thesis by (intro exI [of _ None] exI [of _ "[]"]) simp
  next
    case (Cons f gs)
    obtain ks rs j where f: "f = (ks, rs, j)" by (cases f)
    obtain kts ags where af: "afs' = (kts, j) # ags" and ks: "ks = map fst kts"
      and reps: "list_all2 (\<lambda>r kt. represents src r (snd kt)) rs kts" and gs: "list_all2 (frame_rep src) gs ags"
      using afs'(1) Cons f by (auto simp: list_all2_Cons1)
    have "\<not> exhausted f" using Cons by (metis dropWhile_eq_Cons_conv)
    then have j: "j < length rs" "j < length kts" using f list_all2_lengthD [OF reps] by auto
    obtain k t where kt: "kts ! j = (k, t)" "drop j kts = (k, t) # drop (Suc j) kts"
      "kts = take j kts @ (k, t) # drop (Suc j) kts" by (rule split_child [OF j(2)])
    have parts: "wf_tree t" "k = hd (contents t)"
      using afs'(4) af kt(3) by (metis children_wf_append(1,2) frames_wf_simps(2))+
    have pend: "pending afs = contents t @ children_datoms (drop (Suc j) kts) @ pending ags" using afs'(2) af kt(2) by simp
    have nodes: "pending_nodes afs = nodes t + children_nodes (drop (Suc j) kts) + pending_nodes ags"
      using afs'(3) af kt(2) by simp
    have keyj: "ks ! j = k" using ks kt(1) j by simp
    show ?thesis
    proof (cases "comparePrefix i k p > 0")
      case True
      obtain xs where xs: "pending afs = k # xs"
        using pend parts wf_tree_nonempty [OF parts(1)] by (cases "contents t") auto
      have "\<not> matching i p d" if d: "d \<in> set (pending afs)" for d
      proof (cases "d = k")
        case False
        then have "0 < comparePrefix i d p"
          using idx.pcmp_pos_mono [OF _ _ assms(4) _ True, of d] assms(3) d xs
          by (auto simp: index_sorted_def intro: less_imp_le)
        then show ?thesis by simp
      qed (use True in simp)
      then have "filter (matching i p) (pending afs) = []" by (simp add: filter_empty_conv)
      moreover have "nextLeaf n src i p fs = Inr (None, f # gs)" using Cons f True keyj by (simp add: nextLeaf_def)
      ultimately show ?thesis using afs' Cons by (intro exI [of _ None] exI [of _ "f # gs"] exI [of _ afs']) simp
    next
      case False
      obtain ds hs ahs where D: "descend n src (\<lambda>_. 0) (rs ! j) ((ks, rs, Suc j) # gs) =
          Inr (ds, hs @ (ks, rs, Suc j) # gs)" "list_all2 (frame_rep src) hs ahs" "frames_wf ahs"
          "contents t = ds @ pending ahs" "pending_nodes ahs < nodes t"
        using descend_leftmost [of src "rs ! j" t n "(ks, rs, Suc j) # gs"]
          list_all2_nthD [OF reps j(1)] kt(1) parts(1) nodes assms(5) by auto
      let ?fs = "hs @ (ks, rs, Suc j) # gs" and ?afs = "ahs @ (kts, Suc j) # ags"
      have "nextLeaf n src i p fs = Inr (Some ds, ?fs)" using Cons f False keyj D(1) by (simp add: nextLeaf_def)
      moreover have "list_all2 (frame_rep src) ?fs ?afs" using D(2) gs ks reps by (simp add: list_all2_appendI)
      moreover have "frames_wf ?afs" using D(3) afs'(4) af by simp
      moreover have "pending afs = ds @ pending ?afs" "pending_nodes ?afs < pending_nodes afs" using pend D(4,5) nodes by simp_all
      ultimately show ?thesis by (intro exI [of _ "Some ds"] exI [of _ ?fs] exI [of _ ?afs]) simp
    qed
  qed
qed

lemma seek_run_correct:
  assumes "\<And>d. cmp d p = comparePrefix i d p" "index_sorted i (contents t)" "prefix_ok p"
    and "stands src i t p pre ds fs afs" "pending_nodes afs < n"
    and "\<forall>d\<in>set (pending afs). \<not> below i p d" "s = length (takeWhile (below i p) ds)"
  shows "\<exists>cu. seek_run n src i cmp p ds s fs = Inr (filter (matching i p) (ds @ pending afs), cu) \<and> cursor_ok src i t p cu"
  using assms(4-7)
proof (induction n arbitrary: pre ds s fs afs)
  case (Suc n)
  have c: "contents t = pre @ ds @ pending afs" and pre: "\<forall>d\<in>set pre. upto_end i p d"
    and fr: "list_all2 (frame_rep src) fs afs" "frames_wf afs" "pending_nodes afs < nodes t"
    using Suc.prems(1) by (auto simp: stands_def)
  have s: "index_sorted i (ds @ pending afs)" "index_sorted i ds" "index_sorted i (pending afs)"
    using assms(2) unfolding c by (simp_all add: index_sorted_append)
  let ?e = "length (takeWhile (upto_end i p) ds)"
  have "s \<le> ?e" using Suc.prems(4) lowerBound_le_upperBound [OF s(2) assms(3)]
    by (simp add: lowerBound_takeWhile [OF s(2) assms(3)] upperBound_takeWhile [OF s(2) assms(3)])
  then have e: "upperBoundFrom cmp ds p s = ?e" by (rule upperBoundFrom_takeWhile [where cmp = cmp and p = p, OF assms(1) s(2) assms(3)])
  have here: "drop s (take ?e ds) = filter (matching i p) ds"
    using slice_bounds [OF s(2) assms(3)] Suc.prems(4)
    by (simp add: lowerBound_takeWhile [OF s(2) assms(3)] upperBound_takeWhile [OF s(2) assms(3)])
  show ?case
  proof (cases "?e < length ds")
    case True
    then have "filter (matching i p) (pending afs) = []"
      using past_upperBound [OF s(1) assms(3)] upperBound_takeWhile [OF s(2) assms(3)] by simp
    then show ?thesis using True here e Suc.prems(1) by (auto simp: cursor_ok_def Let_def)
  next
    case False
    then have all: "\<forall>d\<in>set ds. upto_end i p d" by (rule takeWhile_all_upto)
    have n: "pending_nodes afs \<le> n" using Suc.prems(2) by simp
    obtain nl fs' afs' where nl: "nextLeaf n src i p fs = Inr (nl, fs')" "list_all2 (frame_rep src) fs' afs'" "frames_wf afs'"
      "case nl of
         None \<Rightarrow> pending afs' = pending afs \<and> pending_nodes afs' = pending_nodes afs \<and> filter (matching i p) (pending afs) = []
       | Some ds \<Rightarrow> pending afs = ds @ pending afs' \<and> pending_nodes afs' < pending_nodes afs"
      using nextLeaf_spec [OF fr(1,2) s(3) assms(3) n Suc.prems(3)] by blast
    show ?thesis
    proof (cases nl)
      case None
      then have "seek_run (Suc n) src i cmp p ds s fs =
          Inr (filter (matching i p) ds, \<lparr>cu_leaf = Some ds, cu_frames = fs', cu_lastEnd = ?e\<rparr>)"
        using False e here nl(1) by (simp add: Let_def)
      moreover have "stands src i t p pre ds fs' afs'" using None nl c pre fr by (simp add: stands_def)
      ultimately show ?thesis using None nl(4) by (auto simp: cursor_ok_def)
    next
      case (Some ds')
      then have p': "pending afs = ds' @ pending afs'" "pending_nodes afs' < pending_nodes afs" using nl(4) by simp_all
      have st: "stands src i t p (pre @ ds) ds' fs' afs'"
        using nl(2,3) p' c pre all fr(3) by (auto simp: stands_def)
      have "takeWhile (below i p) ds' = []" using Suc.prems(3) p'(1) by (cases ds') auto
      then obtain cu where cu: "seek_run n src i cmp p ds' 0 fs' = Inr (filter (matching i p) (ds' @ pending afs'), cu)" "cursor_ok src i t p cu"
        using Suc.IH [OF st _ _, of 0] p' n Suc.prems(3) by fastforce
      have "seek_run (Suc n) src i cmp p ds s fs = Inr (filter (matching i p) ds @ filter (matching i p) (ds' @ pending afs'), cu)"
        using False e here nl(1) Some cu(1) by (simp add: Let_def)
      with cu(2) p'(1) show ?thesis by simp
    qed
  qed
qed simp

lemma seek_from:
  assumes cmp: "\<And>d. cmp d p = comparePrefix i d p" and s: "index_sorted i (contents t)" and p: "prefix_ok p"
    and fr: "list_all2 (frame_rep src) fs afs" "frames_wf afs" "contents t = pre @ ds @ pending afs" "pending_nodes afs < nodes t"
    and n: "nodes t < n" and pre: "\<forall>d\<in>set pre. below i p d" and post: "\<forall>d\<in>set (pending afs). \<not> below i p d"
    and "from": "from \<le> length (takeWhile (below i p) ds)"
  shows "\<exists>cu. seek_run n src i cmp p ds (lowerBoundFrom cmp ds p from) fs = Inr (filter (matching i p) (contents t), cu) \<and>
    cursor_ok src i t p cu"
proof -
  have sd: "index_sorted i ds" using s unfolding fr(3) by (simp add: index_sorted_append)
  have "stands src i t p pre ds fs afs" using fr pre by (auto simp: stands_def)
  moreover have "pending_nodes afs < n" using fr(4) n by simp
  moreover have "lowerBoundFrom cmp ds p from = length (takeWhile (below i p) ds)"
    by (rule lowerBoundFrom_takeWhile [where cmp = cmp and p = p, OF cmp sd p "from"])
  ultimately obtain cu where "seek_run n src i cmp p ds (lowerBoundFrom cmp ds p from) fs =
      Inr (filter (matching i p) (ds @ pending afs), cu)" "cursor_ok src i t p cu"
    using seek_run_correct [where cmp = cmp and p = p and s = "lowerBoundFrom cmp ds p from", OF cmp s p _ _ post] by blast
  then show ?thesis using filter_matching_below [OF pre] by (simp add: fr(3))
qed

lemma takeWhile_length_mono: "(\<And>x. x \<in> set xs \<Longrightarrow> P x \<Longrightarrow> Q x) \<Longrightarrow> length (takeWhile P xs) \<le> length (takeWhile Q xs)"
  by (induction xs) auto

text \<open>The cursor before the prefix \<open>p\<close>: fresh, or where an earlier prefix of its shape left it.\<close>

definition ready :: "node_source \<Rightarrow> index \<Rightarrow> atree \<Rightarrow> prefix \<Rightarrow> cursor \<Rightarrow> bool" where
  "ready src i t p cu \<longleftrightarrow>
     (cu_leaf cu = None \<or>
      (\<exists>q. cursor_ok src i t q cu \<and> same_shape q p \<and> prefix_ok q \<and> comparePrefix i (prefixAsDatom q) p < 0))"

lemma ready_leaf:
  assumes "ready src i t p cu" "cu_leaf cu = Some ds" "index_sorted i (contents t)" "prefix_ok p"
  obtains pre afs where "list_all2 (frame_rep src) (cu_frames cu) afs" "frames_wf afs" "contents t = pre @ ds @ pending afs"
    "pending_nodes afs < nodes t" "\<forall>d\<in>set pre. below i p d" "cu_lastEnd cu \<le> length (takeWhile (below i p) ds)"
proof -
  obtain q pre afs where q: "same_shape q p" "prefix_ok q" "comparePrefix i (prefixAsDatom q) p < 0"
    and st: "stands src i t q pre ds (cu_frames cu) afs" "cu_lastEnd cu = length (takeWhile (upto_end i q) ds)"
    using assms(1,2) by (auto simp: ready_def cursor_ok_def)
  have ok: "datom_ok d" if "d \<in> set (pre @ ds)" for d
    using assms(3) st(1) that by (auto simp: stands_def index_sorted_def)
  note up = upto_then_below [OF q(1,2) assms(4) ok _ q(3)]
  have "cu_lastEnd cu \<le> length (takeWhile (below i p) ds)"
    unfolding st(2) by (rule takeWhile_length_mono) (use up in auto)
  moreover have "\<forall>d\<in>set pre. below i p d" using st(1) up by (auto simp: stands_def)
  ultimately show thesis using st(1) that by (auto simp: stands_def)
qed

lemma seek_step_correct:
  assumes cmp: "\<And>d. cmp d p = comparePrefix i d p" and rep: "represents src root t" and wf: "wf_root i t" and p: "prefix_ok p"
    and n: "nodes t < n" and cu: "ready src i t p cu"
  shows "\<exists>cu'. seek_step n src i root cmp p cu = Inr (filter (matching i p) (contents t), cu') \<and> cursor_ok src i t p cu'"
proof (cases "stays cmp p cu")
  case True
  have s: "index_sorted i (contents t)" using wf by (auto simp: wf_root_def index_sorted_def)
  obtain ds where ds: "cu_leaf cu = Some ds" "ds \<noteq> []" "\<not> below i p (last ds)"
    using True by (auto simp: stays_def cmp split: option.splits)
  obtain pre afs where L: "list_all2 (frame_rep src) (cu_frames cu) afs" "frames_wf afs" "contents t = pre @ ds @ pending afs"
    "pending_nodes afs < nodes t" "\<forall>d\<in>set pre. below i p d" "cu_lastEnd cu \<le> length (takeWhile (below i p) ds)"
    by (rule ready_leaf [OF cu ds(1) s p])
  have "\<not> below i p d" if d: "d \<in> set (pending afs)" for d
  proof
    assume b: "below i p d"
    obtain zs where z: "ds = zs @ [last ds]" using ds(2) by (metis append_butlast_last_id)
    have "initial_on (below i p) (ds @ pending afs)"
      using s L(3) p by (intro initial_below) (auto simp: index_sorted_append)
    moreover obtain k where "k < length (pending afs)" "pending afs ! k = d" using d by (metis in_set_conv_nth)
    ultimately have "below i p ((ds @ pending afs) ! (length ds - 1))"
      using b ds(2) by (intro initial_on_nth [of "below i p" _ "length ds - 1" "length ds + k"]) (auto simp: initial_on_def)
    then show False using ds by (simp add: last_conv_nth nth_append)
  qed
  then have "\<exists>cu'. seek_run n src i cmp p ds (lowerBoundFrom cmp ds p (cu_lastEnd cu)) (cu_frames cu) =
      Inr (filter (matching i p) (contents t), cu') \<and> cursor_ok src i t p cu'"
    by (intro seek_from [where cmp = cmp and p = p, OF cmp s p L(1-4) n L(5) _ L(6)]) blast
  then show ?thesis using True ds(1) by (simp add: seek_step_def)
next
  case False
  have s: "index_sorted i (contents t)" using wf by (auto simp: wf_root_def index_sorted_def)
  obtain ds gs ags pre where D:
      "descend n src (\<lambda>ks. childForPrefix i ks p) root [] = Inr (ds, gs)"
      "list_all2 (frame_rep src) gs ags" "frames_wf ags" "contents t = pre @ ds @ pending ags"
      "pending_nodes ags < nodes t" "\<forall>d\<in>set pre. below i p d" "\<forall>d\<in>set (pending ags). \<not> below i p d"
    using descend_root [OF rep wf p n] by blast
  have "(if cu_leaf cu = Some ds then cu_lastEnd cu else 0) \<le> length (takeWhile (below i p) ds)"
    using ready_leaf [OF cu _ s p, of ds] by auto
  then have "\<exists>cu'. seek_run n src i cmp p ds (lowerBoundFrom cmp ds p (if cu_leaf cu = Some ds then cu_lastEnd cu else 0)) gs =
      Inr (filter (matching i p) (contents t), cu') \<and> cursor_ok src i t p cu'"
    by (rule seek_from [where cmp = cmp and p = p, OF cmp s p D(2-5) n D(6,7)])
  then show ?thesis using False D(1) by (simp add: seek_step_def)
qed

section \<open>The loop over the prefixes\<close>

definition of_shape :: "prefix \<Rightarrow> prefix \<Rightarrow> bool" where
  "of_shape p0 p \<longleftrightarrow> same_shape p p0 \<and> prefix_ok p"

lemma of_shape_same: "of_shape p0 p \<Longrightarrow> of_shape p0 q \<Longrightarrow> same_shape p q"
  by (simp add: of_shape_def same_shape_def)

lemma shape_order: "cmp_order (\<lambda>p q. comparePrefix i (prefixAsDatom p) q) (of_shape p0)"
proof -
  have "cmp_order (\<lambda>p q. comps_cmp (leading i p0) p q) (of_shape p0)"
    using cmp_order_pullback [OF comps_order [of "leading i p0"], of "of_shape p0" "\<lambda>p. p"] leading_has [of _ i p0]
    by (auto simp: of_shape_def comps_ok_def same_shape_def)
  then show ?thesis
  proof (rule cmp_order_cong)
    fix p q assume p: "of_shape p0 p" and q: "of_shape p0 q"
    have L: "leading i q = leading i p0" by (rule leading_shape) (use q in \<open>simp add: of_shape_def\<close>)
    show "comparePrefix i (prefixAsDatom p) q = comps_cmp (leading i p0) p q"
      using comparePrefix_asDatom [OF of_shape_same [OF p q], of i] by (simp only: L)
  qed
qed

text \<open>What the loop remembers after the answer of \<open>q\<close>, with the prefixes \<open>later\<close> to come.\<close>

definition loop_ok ::
  "node_source \<Rightarrow> index \<Rightarrow> atree \<Rightarrow> prefix \<Rightarrow> (prefix \<times> datom list) option \<Rightarrow> cursor \<Rightarrow> prefix set \<Rightarrow> bool" where
  "loop_ok src i t p0 prev cu later \<longleftrightarrow>
     (case prev of
        None \<Rightarrow> cu_leaf cu = None
      | Some (q, out) \<Rightarrow> of_shape p0 q \<and> out = filter (matching i q) (contents t) \<and> cursor_ok src i t q cu \<and>
          (\<forall>p\<in>later. comparePrefix i (prefixAsDatom q) p \<le> 0))"

lemma loop_ready:
  assumes "loop_ok src i t p0 prev cu later" "p \<in> later" "of_shape p0 p"
    and "\<not> (case prev of Some (q, out) \<Rightarrow> comparePrefix i (prefixAsDatom p) q = 0 | None \<Rightarrow> False)"
  shows "ready src i t p cu"
proof (cases prev)
  case None
  then show ?thesis using assms(1) by (simp add: loop_ok_def ready_def)
next
  case (Some x)
  obtain q out where x: "x = (q, out)" by (cases x)
  have q: "of_shape p0 q" "cursor_ok src i t q cu" "comparePrefix i (prefixAsDatom q) p \<le> 0"
    using assms(1,2) Some x by (auto simp: loop_ok_def)
  moreover have "comparePrefix i (prefixAsDatom q) p \<noteq> 0"
    using assms(4) Some x cmp_order.cmp_sym_zero [OF shape_order q(1) assms(3), of i] by simp
  ultimately show ?thesis using of_shape_same [OF q(1) assms(3)] by (auto simp: ready_def of_shape_def)
qed


lemma seek_loop_correct:
  assumes cmp: "\<And>d p. of_shape p0 p \<Longrightarrow> cmp d p = comparePrefix i d p" and rep: "represents src root t" and wf: "wf_root i t"
    and n: "nodes t < n" and ps: "\<forall>p\<in>set ps. of_shape p0 p"
  shows "\<lbrakk>\<forall>k\<in>set ks. k < length ps; sorted_wrt (\<lambda>x y. prefix_cmp i ps x y \<le> 0) ks; length results = length ps;
      loop_ok src i t p0 prev cu ((!) ps ` set ks)\<rbrakk> \<Longrightarrow>
    \<exists>out. seek_loop n src i root cmp ps ks prev cu results = Inr out \<and> length out = length ps \<and>
      (\<forall>k<length ps. out ! k = (if k \<in> set ks then filter (matching i (ps ! k)) (contents t) else results ! k))"
proof (induction ks arbitrary: prev cu results)
  case (Cons k ks)
  let ?p = "ps ! k" and ?ans = "filter (matching i (ps ! k)) (contents t)"
  let ?dup = "\<lambda>c. case prev of Some (q, out) \<Rightarrow> c (prefixAsDatom ?p) q = 0 | None \<Rightarrow> False"
  have k: "k < length ps" "of_shape p0 ?p" using Cons.prems(1) ps by simp_all
  have p: "prefix_ok ?p" using k(2) by (simp add: of_shape_def)
  have dup: "?dup cmp \<longleftrightarrow> ?dup (comparePrefix i)"
    using Cons.prems(4) cmp by (auto simp: loop_ok_def split: option.splits)
  have len: "length (results[k := ?ans]) = length ps" using Cons.prems(3) by simp
  have ks: "\<forall>k\<in>set ks. k < length ps" "sorted_wrt (\<lambda>x y. prefix_cmp i ps x y \<le> 0) ks" using Cons.prems(1,2) by simp_all
  let ?rest = "\<lambda>prev cu rest. seek_loop n src i root cmp ps ks prev cu (results[k := ?ans]) = Inr rest \<and> length rest = length ps \<and>
    (\<forall>j<length ps. rest ! j = (if j \<in> set ks then filter (matching i (ps ! j)) (contents t) else results[k := ?ans] ! j))"
  have IH: "\<exists>rest. ?rest prev cu rest" if "loop_ok src i t p0 prev cu ((!) ps ` set ks)" for prev cu
    by (rule Cons.IH) (fact ks len that)+
  have done': "\<exists>out. Inr rest = (Inr out :: datom list list res) \<and> length out = length ps \<and>
      (\<forall>j<length ps. out ! j = (if j \<in> set (k # ks) then filter (matching i (ps ! j)) (contents t) else results ! j))"
    if "length rest = length ps" "\<forall>j<length ps. rest ! j =
      (if j \<in> set ks then filter (matching i (ps ! j)) (contents t) else results[k := ?ans] ! j)" for rest
    using that Cons.prems(3) by (auto simp: nth_list_update)
  show ?case
  proof (cases "?dup cmp")
    case True
    then obtain q out where prev: "prev = Some (q, out)" "comparePrefix i (prefixAsDatom ?p) q = 0"
      using dup by (auto split: option.splits)
    have q: "of_shape p0 q" "out = filter (matching i q) (contents t)" using Cons.prems(4) prev(1) by (auto simp: loop_ok_def)
    have "matching i ?p d \<longleftrightarrow> matching i q d" if "d \<in> set (contents t)" for d
      using equal_then_matching [OF of_shape_same [OF k(2) q(1)] p _ _ prev(2)] q(1) that wf
      by (auto simp: of_shape_def wf_root_def)
    then have out: "out = ?ans" unfolding q(2) by (intro filter_cong) simp_all
    have "loop_ok src i t p0 prev cu ((!) ps ` set ks)" using Cons.prems(4) prev(1) by (simp add: loop_ok_def)
    from IH [OF this] obtain rest where rest: "?rest prev cu rest" by (elim exE)
    have run: "seek_loop n src i root cmp ps (k # ks) prev cu results = Inr rest" using True prev(1) out rest by simp
    show ?thesis unfolding run using rest by (intro done') (elim conjE, assumption)+
  next
    case False
    then have "ready src i t ?p cu" using loop_ready [OF Cons.prems(4) _ k(2)] dup by simp
    then obtain cu' where cu': "seek_step n src i root cmp ?p cu = Inr (?ans, cu')" "cursor_ok src i t ?p cu'"
      using seek_step_correct [where cmp = cmp and p = ?p, OF cmp [OF k(2)] rep wf p n] by blast
    have "loop_ok src i t p0 (Some (?p, ?ans)) cu' ((!) ps ` set ks)"
      using k(2) cu'(2) Cons.prems(2) by (auto simp: loop_ok_def prefix_cmp_def)
    from IH [OF this] obtain rest where rest: "?rest (Some (?p, ?ans)) cu' rest" by (elim exE)
    have run: "seek_loop n src i root cmp ps (k # ks) prev cu results = Inr rest" using False cu'(1) rest by simp
    show ?thesis unfolding run using rest by (intro done') (elim conjE, assumption)+
  qed
qed simp

section \<open>The order the prefixes are visited in\<close>

lemma prefix_cmp_order: "cmp_order (prefix_cmp i ps) (\<lambda>k. of_shape p0 (ps ! k))"
  unfolding prefix_cmp_def by (rule cmp_order_pullback [OF shape_order]) simp

lemma primary_key_cases:
  assumes "primary_key i p = Some a"
  shows "case i of EAVT \<Rightarrow> p_e p = Some (int a) | AEVT \<Rightarrow> p_a p = Some (int a) | AVET \<Rightarrow> p_a p = Some (int a)
    | VAET \<Rightarrow> p_v p = Some (VRef (int a))"
proof -
  have "k = int a" if "(if 0 \<le> k \<and> k < 2 ^ 32 then Some (nat k) else None) = Some a" for k
    using that by (metis nat_0_le option.distinct(1) option.inject)
  then show ?thesis using assms unfolding primary_key_def
    by (cases i; cases "p_v p"; cases "the (p_v p)") (simp_all split: option.splits)
qed

lemma primary_key_less:
  assumes "primary_key i p = Some a" "primary_key i q = Some b" "a < b"
  shows "comparePrefix i (prefixAsDatom p) q < 0"
  using primary_key_cases [OF assms(1)] primary_key_cases [OF assms(2)] assms(3)
  by (cases i) (simp_all add: prefixAsDatom_def cmpNum_def)

lemma primary_key_run: "w div 2 ^ 20 = v div 2 ^ 20 \<longleftrightarrow> \<not> v div 2 ^ 20 < w div 2 ^ 20"
  if "v \<le> w" for v w :: nat
  using div_le_mono [OF that, of "2 ^ 20"] by linarith

lemma js_sort_short: "\<not> length xs > 1 \<Longrightarrow> js_sort cmp xs = xs"
  by (cases xs) (auto simp: js_sort_def)

lemma set_sort_runs: "set (sort_runs cmp vs) = (\<lambda>w. w mod 2 ^ 20) ` set vs"
proof (induction cmp vs rule: sort_runs.induct)
  case (2 cmp v vs)
  let ?P = "\<lambda>w. w div 2 ^ 20 = v div 2 ^ 20"
  have "set vs = set (takeWhile ?P vs) \<union> set (dropWhile ?P vs)" by (metis set_append takeWhile_dropWhile_id)
  then show ?case using 2 by (simp add: Let_def image_Un Un_assoc)
qed simp

lemma dropWhile_runs_greater:
  assumes "sorted (v # vs)" "w \<in> set (dropWhile (\<lambda>w. w div 2 ^ 20 = v div 2 ^ 20) vs)"
  shows "v div 2 ^ 20 < (w :: nat) div 2 ^ 20"
  using assms
proof (induction vs)
  case (Cons u vs)
  show ?case
  proof (cases "u div 2 ^ 20 = v div 2 ^ 20")
    case True
    then show ?thesis using Cons by (simp del: div_mult2_eq)
  next
    case False
    then have "v div 2 ^ 20 < u div 2 ^ 20" using Cons.prems(1) primary_key_run [of v u] by simp
    moreover have "u \<le> w" using Cons.prems False by auto
    ultimately show ?thesis using div_le_mono [of u w "2 ^ 20"] by linarith
  qed
qed simp

lemma sort_runs_sorted:
  assumes "sorted vs" "\<forall>w\<in>set vs. of_shape p0 (ps ! (w mod 2 ^ 20)) \<and> primary_key i (ps ! (w mod 2 ^ 20)) = Some (w div 2 ^ 20)"
  shows "sorted_wrt (\<lambda>x y. prefix_cmp i ps x y \<le> 0) (sort_runs (prefix_cmp i ps) vs)"
  using assms
proof (induction "prefix_cmp i ps" vs rule: sort_runs.induct)
  case (2 v vs)
  let ?P = "\<lambda>w. w div 2 ^ 20 = v div 2 ^ 20" and ?le = "\<lambda>x y. prefix_cmp i ps x y \<le> 0"
  let ?run = "map (\<lambda>w. w mod 2 ^ 20) (v # takeWhile ?P vs)" and ?rest = "dropWhile ?P vs"
  have split: "sort_runs (prefix_cmp i ps) (v # vs) = js_sort (prefix_cmp i ps) ?run @ sort_runs (prefix_cmp i ps) ?rest"
    using js_sort_short [of ?run] by (simp add: Let_def)
  have "\<forall>k\<in>set ?run. of_shape p0 (ps ! k)" using "2.prems"(2) by (auto dest: set_takeWhileD)
  then have "sorted_wrt ?le (js_sort (prefix_cmp i ps) ?run)" by (rule cmp_order.js_sort_sorted [OF prefix_cmp_order])
  moreover have "sorted_wrt ?le (sort_runs (prefix_cmp i ps) ?rest)"
  proof (rule "2.hyps" [OF refl])
    show "sorted ?rest" using "2.prems"(1) by (simp add: sorted_dropWhile)
    show "\<forall>w\<in>set ?rest. of_shape p0 (ps ! (w mod 2 ^ 20)) \<and> primary_key i (ps ! (w mod 2 ^ 20)) = Some (w div 2 ^ 20)"
      using "2.prems"(2) by (auto dest: set_dropWhileD)
  qed
  moreover have "?le x y" if x: "x \<in> set ?run" and y: "y \<in> set (sort_runs (prefix_cmp i ps) ?rest)" for x y
  proof -
    obtain w where w: "w \<in> set (v # takeWhile ?P vs)" "x = w mod 2 ^ 20" using x by auto
    obtain u where u: "u \<in> set ?rest" "y = u mod 2 ^ 20" using y set_sort_runs by auto
    have "w div 2 ^ 20 = v div 2 ^ 20" using w(1) by (auto dest: set_takeWhileD)
    moreover have "v div 2 ^ 20 < u div 2 ^ 20" by (rule dropWhile_runs_greater [OF "2.prems"(1) u(1)])
    ultimately have "prefix_cmp i ps x y < 0"
      using w u "2.prems"(2) unfolding prefix_cmp_def
      by (intro primary_key_less [of i _ "w div 2 ^ 20" _ "u div 2 ^ 20"]) (auto dest: set_takeWhileD set_dropWhileD)
    then show ?thesis by simp
  qed
  ultimately show ?case unfolding split by (auto simp: sorted_wrt_append)
qed simp

lemma sortedPrefixOrder_correct:
  assumes "\<forall>p\<in>set ps. of_shape p0 p"
  shows "set (sortedPrefixOrder i ps) = {0..<length ps}"
    and "sorted_wrt (\<lambda>x y. prefix_cmp i ps x y \<le> 0) (sortedPrefixOrder i ps)"
proof -
  let ?n = "length ps" and ?keys = "map (primary_key i) ps"
  let ?vs = "sort (map (\<lambda>x. the (?keys ! x) * 2 ^ 20 + x) [0..<length ps])"
  have "set (sortedPrefixOrder i ps) = {0..<?n} \<and> sorted_wrt (\<lambda>x y. prefix_cmp i ps x y \<le> 0) (sortedPrefixOrder i ps)"
  proof (cases "?n < 2 ^ 20 \<and> None \<notin> set ?keys")
    case True
    then have o: "sortedPrefixOrder i ps = sort_runs (prefix_cmp i ps) ?vs" by (simp add: sortedPrefixOrder_def Let_def)
    have w: "(the (?keys ! x) * 2 ^ 20 + x) mod 2 ^ 20 = x \<and> (the (?keys ! x) * 2 ^ 20 + x) div 2 ^ 20 = the (?keys ! x)"
      if "x < ?n" for x using that True by simp
    have keys: "primary_key i (ps ! x) = Some (the (?keys ! x))" if "x < ?n" for x
      using that True nth_mem [of x ?keys] by (cases "primary_key i (ps ! x)") auto
    have set_vs: "set ?vs = (\<lambda>x. the (?keys ! x) * 2 ^ 20 + x) ` {0..<?n}" by (simp only: set_sort set_map set_upt)
    have "set (sortedPrefixOrder i ps) = {0..<?n}"
      unfolding o set_sort_runs set_vs image_image using w by (intro equalityI subsetI) (auto simp: image_iff)
    moreover have "sorted_wrt (\<lambda>x y. prefix_cmp i ps x y \<le> 0) (sortedPrefixOrder i ps)"
      unfolding o
    proof (rule sort_runs_sorted [of _ p0])
      show "\<forall>v\<in>set ?vs. of_shape p0 (ps ! (v mod 2 ^ 20)) \<and> primary_key i (ps ! (v mod 2 ^ 20)) = Some (v div 2 ^ 20)"
        unfolding set_vs
      proof
        fix v assume "v \<in> (\<lambda>x. the (?keys ! x) * 2 ^ 20 + x) ` {0..<?n}"
        then obtain x where x: "x < ?n" "v = the (?keys ! x) * 2 ^ 20 + x" by auto
        from w [OF x(1)] have v: "v mod 2 ^ 20 = x" "v div 2 ^ 20 = the (?keys ! x)" unfolding x(2) by blast+
        have "of_shape p0 (ps ! x)" using assms x(1) by simp
        then show "of_shape p0 (ps ! (v mod 2 ^ 20)) \<and> primary_key i (ps ! (v mod 2 ^ 20)) = Some (v div 2 ^ 20)"
          unfolding v using keys [OF x(1)] by (rule conjI)
      qed
    qed (rule sorted_sort)
    ultimately show ?thesis by blast
  next
    case False
    then have o: "sortedPrefixOrder i ps = js_sort (prefix_cmp i ps) [0..<?n]" by (auto simp: sortedPrefixOrder_def Let_def)
    have "sorted_wrt (\<lambda>x y. prefix_cmp i ps x y \<le> 0) (js_sort (prefix_cmp i ps) [0..<?n])"
      by (rule cmp_order.js_sort_sorted [OF prefix_cmp_order [of i ps p0]]) (use assms in auto)
    then show ?thesis unfolding o by simp
  qed
  then show "set (sortedPrefixOrder i ps) = {0..<?n}" "sorted_wrt (\<lambda>x y. prefix_cmp i ps x y \<le> 0) (sortedPrefixOrder i ps)"
    by blast+
qed

section \<open>The batch answers what the scans answer\<close>

lemma scanMany_correct:
  assumes rep: "represents src root t" and wf: "wf_root i t" and n: "nodes t < n" and ps: "\<forall>p\<in>set ps. of_shape (hd ps) p"
  shows "scanMany n src i root ps = Inr (map (\<lambda>p. filter (matching i p) (contents t)) ps)"
proof (cases "ps = []")
  case False
  note ord = sortedPrefixOrder_correct [OF ps, of i]
  have cmp: "prefixComparator i (hd ps) d p = comparePrefix i d p" if "of_shape (hd ps) p" for d p
    using prefixComparator_same [of p "hd ps" i d] that by (simp add: of_shape_def)
  obtain out where out: "scanMany n src i root ps = Inr out" "length out = length ps"
    "\<forall>k<length ps. out ! k = (if k \<in> set (sortedPrefixOrder i ps) then filter (matching i (ps ! k)) (contents t)
       else replicate (length ps) [] ! k)"
    using seek_loop_correct [where cmp = "prefixComparator i (hd ps)" and ?p0.0 = "hd ps" and ks = "sortedPrefixOrder i ps"
        and results = "replicate (length ps) []" and prev = None and cu = "\<lparr>cu_leaf = None, cu_frames = [], cu_lastEnd = 0\<rparr>", OF cmp rep wf n ps _ ord(2)] ord(1) False
    by (auto simp: scanMany_def loop_ok_def)
  have "out = map (\<lambda>p. filter (matching i p) (contents t)) ps"
    by (rule nth_equalityI) (use out ord(1) in auto)
  with out(1) show ?thesis by simp
qed (simp add: scanMany_def)

end
