(* ===== verification/SeekMany.thy ===== *)
theory SeekMany
  imports ScanMany PolicyFilter DatabaseClaims
begin

text \<open>
  The batched read \<open>seekMany\<close> of the database values: of \<open>internal/core/db.ts\<close>, of the
  filtered view in \<open>policy/filter.ts\<close>, and of the overlay in \<open>policy/eval.ts\<close>. Every one
  answers each prefix with what a read of that prefix alone would.
\<close>

section \<open>The batched reads\<close>

definition seek_one :: "db \<Rightarrow> index \<Rightarrow> datom list \<Rightarrow> prefix \<Rightarrow> datom list" where
  "seek_one d i ds p =
     (let ds = (if sn_size (nv_byIndex (db_novelty d) i) > 0 then
                  (case nov_range d i p of
                     None \<Rightarrow> ds
                   | Some c \<Rightarrow>
                       let nds = chunk_slice c in if ds = [] then nds else sortedUnion (comparatorFor i) ds nds)
                else ds)
      in if db_isHistory d then (if rawHistory d then ds else filter (\<lambda>x. d_t x \<le> effectiveT d) ds)
         else if ds \<noteq> [] then collapseCurrent (Some (effectiveT d)) ds else ds)"

definition Db_seekMany :: "nat \<Rightarrow> db \<Rightarrow> index \<Rightarrow> prefix list \<Rightarrow> datom list list res" where
  "Db_seekMany n d i ps =
     rmap (\<lambda>rs. map2 (seek_one d i) rs ps) (scanMany n (db_store d) i (rootFor (db_roots d) i) ps)"

fun keep_all :: "runtime \<Rightarrow> filtered_db \<Rightarrow> datom list list \<Rightarrow> policy_memo \<Rightarrow> (datom list list \<times> policy_memo) res" where
  "keep_all rt f [] m = Inr ([], m)"
| "keep_all rt f (ds # rest) m =
     rbind (FilteredDb_keep rt f ds m) (\<lambda>(kept, m1). rmap (\<lambda>(out, m2). (kept # out, m2)) (keep_all rt f rest m1))"

definition FilteredDb_seekMany ::
  "runtime \<Rightarrow> filtered_db \<Rightarrow> index \<Rightarrow> prefix list \<Rightarrow> policy_memo \<Rightarrow> (datom list list \<times> policy_memo) res" where
  "FilteredDb_seekMany rt f i ps m =
     rbind (Db_seekMany (rt_fuel rt) (fd_db f) i ps) (\<lambda>res. keep_all rt f res m)"

fun rule_db_seekMany :: "nat \<Rightarrow> rule_db \<Rightarrow> index \<Rightarrow> prefix list \<Rightarrow> datom list list res" where
  "rule_db_seekMany n (PlainDb d) i ps = Db_seekMany n d i ps"
| "rule_db_seekMany n (OverlayDb d extras) i ps =
     rmap (\<lambda>res. map2 (\<lambda>ds p. let extra = matchOverlay extras i p
                              in if extra \<noteq> [] then sortedUnion (comparatorFor i) ds extra else ds) res ps)
       (Db_seekMany n d i ps)"

section \<open>They agree with the single reads\<close>

lemma merge_union_Nil [simp]: "merge_union cmp [] ys = ys" "merge_union cmp xs [] = xs"
  by (cases ys; simp) (cases xs; simp)

lemma collapseCurrent_Nil [simp]: "collapseCurrent asOf [] = []"
  by (simp add: collapseCurrent_collapse)

lemma seek_one_union:
  assumes "db_rep d t" "prefix_ok p"
  shows "\<exists>nds. seek_one d i (filter (matching i p) ds) p =
      (let u = merge_union (comparatorFor i) (filter (matching i p) ds) nds
       in if db_isHistory d then (if rawHistory d then u else filter (\<lambda>x. d_t x \<le> effectiveT d) u)
          else collapseCurrent (Some (effectiveT d)) u) \<and>
    index_sorted i nds \<and> set nds = {x \<in> nv_abs (db_novelty d) i. matching i p x}"
proof -
  let ?s = "nv_byIndex (db_novelty d) i"
  have s: "sn_index ?s = i" "sn_inv ?s" using assms(1) by (auto simp: db_rep_def nv_inv_def)
  obtain fs s' where f: "sn_flush ?s = (fs, s')" by fastforce
  obtain nc s'' where g: "sn_range p ?s = (nc, s'')" by fastforce
  have fs: "index_sorted i fs" "set fs = sn_abs ?s" using sn_flush_spec [OF s(2) f] s(1) by auto
  let ?nds = "filter (matching i p) fs"
  have nc: "nov_range d i p = nc" by (simp add: nov_range_def g)
  have N: "(case nc of None \<Rightarrow> ?nds = [] | Some c \<Rightarrow> chunk_slice c = ?nds)"
    using sn_range_spec [OF s(2) assms(2) g f] s(1) by (auto split: option.splits)
  have empty: "?nds = []" if "sn_size ?s = 0"
  proof -
    have "sn_abs ?s = {}" using that by (simp add: sn_abs_def sn_size_def)
    then show ?thesis using fs(2) by simp
  qed
  have "seek_one d i (filter (matching i p) ds) p =
      (let u = merge_union (comparatorFor i) (filter (matching i p) ds) ?nds
       in if db_isHistory d then (if rawHistory d then u else filter (\<lambda>x. d_t x \<le> effectiveT d) u)
          else collapseCurrent (Some (effectiveT d)) u)"
    using N empty
    by (cases nc; cases "sn_size ?s = 0")
      (simp_all add: seek_one_def nc sortedUnion_def Let_def)
  then show ?thesis using fs by (intro exI [of _ ?nds]) (auto simp: index_sorted_filter)
qed

lemma seek_one_reads:
  assumes rep: "db_rep d t" and p: "prefix_ok p" and n: "nodes (t i) < n"
  shows "datomsArray n d i p = Inr (seek_one d i (filter (matching i p) (contents (t i))) p)"
proof -
  let ?ds = "filter (matching i p) (contents (t i))"
  obtain nds where nds: "seek_one d i ?ds p =
      (let u = merge_union (comparatorFor i) ?ds nds
       in if db_isHistory d then (if rawHistory d then u else filter (\<lambda>x. d_t x \<le> effectiveT d) u)
          else collapseCurrent (Some (effectiveT d)) u)"
    "index_sorted i nds" "set nds = {x \<in> nv_abs (db_novelty d) i. matching i p x}"
    using seek_one_union [OF rep p] by blast
  obtain cs where cs: "scan n (db_store d) i (rootFor (db_roots d) i) p = Inr cs"
    "index_sorted i (chunks_datoms (mergeChunks (comparatorFor i) cs (nov_range d i p)))"
    "set (chunks_datoms (mergeChunks (comparatorFor i) cs (nov_range d i p))) = {x \<in> db_datoms_in d t i. matching i p x}"
    "\<forall>c\<in>set (mergeChunks (comparatorFor i) cs (nov_range d i p)). chunk_ok c"
    using merged_scan [OF rep p n] by blast
  let ?cs = "mergeChunks (comparatorFor i) cs (nov_range d i p)"
  have ds: "index_sorted i ?ds"
    using rep by (intro index_sorted_filter) (auto simp: db_rep_def wf_root_def index_sorted_def)
  have u: "merge_union (comparatorFor i) ?ds nds = chunks_datoms ?cs"
    by (rule index_sorted_unique [OF index_sorted_merge_union [OF ds nds(2)] cs(2)])
      (auto simp: set_index_merge_union [OF ds nds(2)] nds(3) cs(3) db_datoms_in_def)
  have "concat (currentView (Some (effectiveT d)) ?cs) = collapseCurrent (Some (effectiveT d)) (chunks_datoms ?cs)"
    by (rule currentView_collapse) (use cs(4) index_sorted_grouped [OF cs(2)] in auto)
  then show ?thesis
    using cs(1) by (simp add: datomsArray_def Db_datoms_def Let_def nds(1) u concat_rawView concat_filterAsOf)
qed

lemma Db_seekMany_map:
  assumes "db_rep d t" "nodes (t i) < n" "\<forall>p\<in>set ps. of_shape (hd ps) p"
  shows "Db_seekMany n d i ps = Inr (map (\<lambda>p. seek_one d i (filter (matching i p) (contents (t i))) p) ps)"
proof -
  have r: "represents (db_store d) (rootFor (db_roots d) i) (t i)" "wf_root i (t i)" using assms(1) by (auto simp: db_rep_def)
  have "map2 (seek_one d i) (map f ps) ps = map (\<lambda>p. seek_one d i (f p) p) ps" for f by (induction ps) auto
  then show ?thesis by (simp add: Db_seekMany_def scanMany_correct [OF r assms(2,3)])
qed

lemma Db_seekMany_reads:
  assumes "db_rep d t" "nodes (t i) < n" "\<forall>p\<in>set ps. of_shape (hd ps) p"
  shows "\<exists>outs. Db_seekMany n d i ps = Inr outs \<and> map Inr outs = map (datomsArray n d i) ps"
proof -
  have "datomsArray n d i p = Inr (seek_one d i (filter (matching i p) (contents (t i))) p)" if "p \<in> set ps" for p
    using seek_one_reads [OF assms(1) _ assms(2)] assms(3) that by (simp add: of_shape_def)
  then show ?thesis by (simp add: Db_seekMany_map [OF assms])
qed

lemma keep_all_spec:
  assumes "view_ok rt (fd_view f) t cells smax" "view_memo_ok rt (fd_view f) t cells smax m"
  shows "\<exists>m'. keep_all rt f rs m = Inr (map (filter (readable rt f t cells smax)) rs, m') \<and> view_memo_ok rt (fd_view f) t cells smax m'"
  using assms(2)
proof (induction rs arbitrary: m)
  case (Cons ds rs)
  obtain m1 where m1: "FilteredDb_keep rt f ds m = Inr (filter (readable rt f t cells smax) ds, m1)" "view_memo_ok rt (fd_view f) t cells smax m1"
    using keep_spec [OF assms(1) Cons.prems] by blast
  with Cons.IH [OF m1(2)] show ?case by auto
qed simp

lemma filtered_seekMany:
  assumes "view_ok rt (fd_view f) t cells smax" "view_memo_ok rt (fd_view f) t cells smax m"
    and "Db_seekMany (rt_fuel rt) (fd_db f) i ps = Inr outs"
  shows "\<exists>m'. FilteredDb_seekMany rt f i ps m = Inr (map (filter (readable rt f t cells smax)) outs, m') \<and>
    view_memo_ok rt (fd_view f) t cells smax m'"
  using keep_all_spec [OF assms(1,2), of outs] assms(3) by (simp add: FilteredDb_seekMany_def)

text \<open>
  Over an overlay the two reads list the same datoms; \<open>seekMany\<close> drops a datom the base
  has as well, the chunked read repeats it.
\<close>

lemma set_union_chunk: "set (fst (union_chunk cmp extra arr)) \<union> set (snd (union_chunk cmp extra arr)) = set extra \<union> set arr"
proof (induction cmp extra arr rule: union_chunk.induct)
  case (3 cmp x extra y arr)
  then show ?case by (cases "cmp x y \<le> 0") (auto simp: split_beta)
qed simp_all

lemma set_overlay_union: "\<Union> (set ` set (overlay_union cmp extra src)) = set extra \<union> \<Union> (set ` set src)"
proof (induction cmp extra src rule: overlay_union.induct)
  case (2 cmp extra arr src)
  show ?case
  proof (cases "extra = []")
    case False
    obtain out rest where u: "union_chunk cmp extra arr = (out, rest)" by fastforce
    have "\<Union> (set ` set (overlay_union cmp extra (arr # src))) = set out \<union> \<Union> (set ` set (overlay_union cmp rest src))"
      using False u by simp
    also have "\<dots> = set out \<union> (set rest \<union> \<Union> (set ` set src))" using "2.IH"(2) [OF False u [symmetric]] by simp
    also have "\<dots> = set extra \<union> \<Union> (set ` set (arr # src))" using set_union_chunk [of cmp extra arr] u by auto
    finally show ?thesis .
  qed (use 2 in simp)
qed simp

lemma set_matchOverlay: "set (matchOverlay extras i p) = {x \<in> set extras. matching i p x}"
  by (auto simp: matchOverlay_def Let_def)

lemma overlay_seek_set:
  assumes "\<forall>x\<in>set extras. datom_ok x" "\<forall>x\<in>set ds. datom_ok x"
  shows "set (let extra = matchOverlay extras i p in if extra \<noteq> [] then sortedUnion (comparatorFor i) ds extra else ds) =
    set ds \<union> {x \<in> set extras. matching i p x}"
  using idx.set_merge_union [of ds "matchOverlay extras i p" i] set_matchOverlay [of extras i p] assms
  by (auto simp: Let_def sortedUnion_def)
lemma seek_one_sorted:
  assumes "db_rep d t" "prefix_ok p"
  shows "index_sorted i (seek_one d i (filter (matching i p) (contents (t i))) p)"
proof -
  have ds: "index_sorted i (filter (matching i p) (contents (t i)))"
    using assms(1) by (intro index_sorted_filter) (auto simp: db_rep_def wf_root_def index_sorted_def)
  obtain nds where nds: "seek_one d i (filter (matching i p) (contents (t i))) p =
      (let u = merge_union (comparatorFor i) (filter (matching i p) (contents (t i))) nds
       in if db_isHistory d then (if rawHistory d then u else filter (\<lambda>x. d_t x \<le> effectiveT d) u)
          else collapseCurrent (Some (effectiveT d)) u)" "index_sorted i nds"
    using seek_one_union [OF assms] by blast
  show ?thesis unfolding nds(1)
    using index_sorted_merge_union [OF ds nds(2)] collapseCurrent_facts by (simp add: Let_def index_sorted_filter)
qed

lemma overlay_seekMany:
  assumes rep: "db_rep d t" and n: "nodes (t i) < n" and ps: "\<forall>p\<in>set ps. of_shape (hd ps) p" and ok: "\<forall>x\<in>set extras. datom_ok x"
  shows "\<exists>outs. rule_db_seekMany n (OverlayDb d extras) i ps = Inr outs \<and>
    list_all2 (\<lambda>p out. \<exists>arrs. rule_db_datoms n (OverlayDb d extras) i p = Inr arrs \<and> set out = \<Union> (set ` set arrs)) ps outs"
proof -
  let ?one = "\<lambda>p. seek_one d i (filter (matching i p) (contents (t i))) p"
  let ?over = "\<lambda>p ds. let extra = matchOverlay extras i p in if extra \<noteq> [] then sortedUnion (comparatorFor i) ds extra else ds"
  have m: "map2 (\<lambda>ds p. f p ds) (map g ps) ps = map (\<lambda>p. f p (g p)) ps" for f g by (induction ps) auto
  have run: "rule_db_seekMany n (OverlayDb d extras) i ps = Inr (map (\<lambda>p. ?over p (?one p)) ps)"
    by (simp add: Db_seekMany_map [OF rep n ps]) (rule m)
  have "\<exists>arrs. rule_db_datoms n (OverlayDb d extras) i p = Inr arrs \<and> set (?over p (?one p)) = \<Union> (set ` set arrs)"
    if p: "p \<in> set ps" for p
  proof -
    have pok: "prefix_ok p" using ps p by (simp add: of_shape_def)
    obtain src where src: "Db_datoms n d i p = Inr src" "?one p = concat src"
      using seek_one_reads [OF rep pok n] by (auto simp: datomsArray_def res_simps)
    have "\<forall>x\<in>set (?one p). datom_ok x" using seek_one_sorted [OF rep pok] by (simp add: index_sorted_def)
    then have "set (?over p (?one p)) = set (?one p) \<union> {x \<in> set extras. matching i p x}" by (rule overlay_seek_set [OF ok])
    also have "\<dots> = \<Union> (set ` set (overlay_union (comparatorFor i) (matchOverlay extras i p) src))"
      unfolding set_overlay_union set_matchOverlay src(2) by auto
    finally show ?thesis using src(1) by simp
  qed
  then show ?thesis unfolding run by (auto simp: list_all2_map2 list.rel_refl_strong)
qed

section \<open>The batch is its reads\<close>

text \<open>
  C13: The batched read. For prefixes of one shape, in any order and with duplicates, one
  cursor that stays in its leaf where it can, gallops from the end of the last answer and
  merges novelty per prefix returns, prefix by prefix, what a scan of the tree and a read of
  the database value would return on their own.
\<close>

theorem seekMany_is_the_reads:
  assumes "db_rep d t" "nodes (t i) < n" "\<forall>p\<in>set ps. same_shape p (hd ps) \<and> prefix_ok p"
  shows "\<exists>found outs. scanMany n (db_store d) i (rootFor (db_roots d) i) ps = Inr found \<and>
    map Inr found = map (collect n (db_store d) i (rootFor (db_roots d) i)) ps \<and>
    Db_seekMany n d i ps = Inr outs \<and> map Inr outs = map (datomsArray n d i) ps"
proof -
  have ps: "\<forall>p\<in>set ps. of_shape (hd ps) p" using assms(3) by (simp add: of_shape_def)
  have r: "represents (db_store d) (rootFor (db_roots d) i) (t i)" "wf_root i (t i)" using assms(1) by (auto simp: db_rep_def)
  have "collect n (db_store d) i (rootFor (db_roots d) i) p = Inr (filter (matching i p) (contents (t i)))" if "p \<in> set ps" for p
    using scan_correct [OF r _ assms(2), of p] assms(3) that by (auto simp: collect_def)
  with scanMany_correct [OF r assms(2) ps] Db_seekMany_reads [OF assms(1,2) ps] show ?thesis by simp
qed

theorem seekMany_is_the_reads_witness:
  "\<exists>outs. Db_seekMany 2 sample_db EAVT [entity_prefix 1000, entity_prefix 1000] = Inr outs \<and> map set outs = [{sample_new}, {sample_new}]"
proof -
  let ?ps = "[entity_prefix 1000, entity_prefix 1000]"
  have t: "p_t (entity_prefix 1000) = None" by (simp add: entity_prefix_def)
  have sh: "\<forall>p\<in>set ?ps. same_shape p (hd ?ps) \<and> prefix_ok p" using sample_prefix(1) by (simp add: same_shape_def)
  obtain outs where outs: "Db_seekMany 2 sample_db EAVT ?ps = Inr outs" "map Inr outs = map (datomsArray 2 sample_db EAVT) ?ps"
    using seekMany_is_the_reads [OF sample_db_rep sample_nodes sh] by blast
  obtain ds where ds: "datomsArray 2 sample_db EAVT (entity_prefix 1000) = Inr ds"
    "set ds = {x \<in> currentFacts (Some (effectiveT sample_db)) (db_datoms_in sample_db sample_trees EAVT).
       matching EAVT (entity_prefix 1000) x}"
    using datoms_current_matching [OF sample_db_rep sample_prefix(1) sample_nodes sample_effective(2) t, of EAVT] by blast
  have "set ds = {sample_new}"
    unfolding ds(2) sample_effective sample_db_datoms sample_current sample_prefix filter_one by simp
  then show ?thesis using outs ds(1) by auto
qed

end
