(* ===== verification/Spec2Isabelle.thy ===== *)
theory Spec2Isabelle
  imports StorageClaims WireClaims DatabaseClaims ConnClaims PolicyClaims ObjectClaims WriterClaims SeekMany
begin

text \<open>
  Verification of the storage and transaction core of ramose, a temporal database of
  immutable facts. All paths below are relative to \<open>src/packages/ramose/src\<close>.

  \<^bold>\<open>The program.\<close> A \<^emph>\<open>datom\<close> is an entity, an attribute, a typed value, a transaction number \<open>t\<close>
  and an operation (assert or retract). The log of all datoms is kept in four orders
  (\<open>EAVT\<close>, \<open>AEVT\<close>, \<open>AVET\<close>, \<open>VAET\<close>). Older datoms lie in persistent search trees whose nodes are
  stored by the hash of their bytes (\<open>internal/core/tree.ts\<close>, \<open>segment.ts\<close>, \<open>store.ts\<close>); newer
  ones lie in sorted buffers in memory, the novelty (\<open>novelty.ts\<close>). A database value
  (\<open>db.ts\<close>) is four tree roots, the novelty, a basis \<open>t\<close> and a schema derived from the datoms
  (\<open>schema.ts\<close>); reading merges tree and novelty and keeps, per fact, the last datom. A
  transaction (\<open>tx.ts\<close>) is turned into datoms against a database value and added to the
  novelty by the connection (\<open>conn.ts\<close>), which from time to time moves novelty into new
  trees. Logs and novelty travel as binary chunks and JSON frames (\<open>log.ts\<close>, \<open>json.ts\<close>). A
  policy (\<open>policy/\<close>) says what a caller may read and write: reads go through a filtered
  database value, transactions through a check of their expansion. Nodes, root records and log
  chunks are kept as objects of a bucket (\<open>internal/storage\<close>); replicas follow the writer's log
  frame by frame and serve a basis, a root and the entries since it (\<open>internal/replica\<close>). The
  single writer (\<open>internal/transactor\<close>) commits queued transactions in batches, one storage write
  each, acknowledges and broadcasts them, is restarted from its tables when a write fails, and
  runs the indexer that turns the log into trees, publishes roots and prunes the log.

  \<^bold>\<open>The model.\<close> Every theory models the file it names, definition by definition, as
  executable functions; errors that the code throws are values of the type \<open>jserr\<close> on the
  left of a sum, and a class is a record with its methods as functions that return the new
  state.

  \<^item> \<^theory_text>\<open>Prelude\<close>: result type, fuelled folds, generic lists and orders; the contracts \<open>cmp_order\<close>
    and \<open>prefix_order\<close>, of which the four index comparators are instances.
  \<^item> \<^theory_text>\<open>Values\<close>, \<^theory_text>\<open>Datoms\<close>: \<open>datom.ts\<close>, tagged values, normalisation, comparators and prefixes.
    Doubles are their 64 bits, strings their UTF-16 units.
  \<^item> \<^theory_text>\<open>Encoding\<close>, \<^theory_text>\<open>ByteIO\<close>, \<^theory_text>\<open>Segments\<close>: the sortable value encoding, \<open>bytes.ts\<close>, and the formats of
    segments and directory nodes.
  \<^item> \<^theory_text>\<open>SegTree\<close>, \<^theory_text>\<open>TreeCount\<close>, \<^theory_text>\<open>TreeWrite\<close>: \<open>tree.ts\<close>, reading by prefix, counting, building, merging and
    marking, over the contract \<open>node_store\<close>. A source of nodes is a partial function from
    hashes, and \<open>represents\<close> relates a root reference to the tree it stands for.
  \<^item> \<^theory_text>\<open>ScanMany\<close>, \<^theory_text>\<open>SeekMany\<close>: the batched seek of \<open>tree.ts\<close> with its cursor and its order of
    prefixes, the batched reads of \<open>db.ts\<close>, \<open>filter.ts\<close> and \<open>eval.ts\<close>, and the proof that a batch
    answers what its reads would. An array is the one of the last answer when it is equal to it.
  \<^item> \<^theory_text>\<open>JsMap\<close>, \<^theory_text>\<open>Store\<close>: insertion-ordered maps; \<open>store.ts\<close>, whose \<open>MemStore\<close> is the
    interpretation \<open>mem\<close> of \<open>node_store\<close>, and the LRU cache.
  \<^item> \<^theory_text>\<open>Novelty\<close>: \<open>novelty.ts\<close>, the buffers, the merge of chunks and the current view.
  \<^item> \<^theory_text>\<open>JsValues\<close>, \<^theory_text>\<open>LogCodec\<close>, \<^theory_text>\<open>JsonCodec\<close>: JavaScript values at the border, coercion and keys;
    \<open>log.ts\<close> and \<open>json.ts\<close>.
  \<^item> \<^theory_text>\<open>SchemaModel\<close>, \<^theory_text>\<open>DbView\<close>: \<open>schema.ts\<close> and \<open>db.ts\<close>.
  \<^item> \<^theory_text>\<open>TxModel\<close>, \<^theory_text>\<open>TxCorrect\<close>: \<open>tx.ts\<close> and the proof that a transaction is a script of edits.
  \<^item> \<^theory_text>\<open>ConnModel\<close>, \<^theory_text>\<open>ConnRuns\<close>: \<open>conn.ts\<close>, its invariant, and the step relation \<open>conn_step\<close> of
    commits, failed transactions and indexing.
  \<^item> \<^theory_text>\<open>PolicyAst\<close>, \<^theory_text>\<open>PolicyEval\<close>, \<^theory_text>\<open>PolicyCorrect\<close>: \<open>policy/ast.ts\<close>, \<open>principal.ts\<close> and \<open>eval.ts\<close>; the
    meaning of rules on current facts, and the proof that memoised evaluation decides it.
  \<^item> \<^theory_text>\<open>PolicyFilter\<close>, \<^theory_text>\<open>PolicyCheck\<close>, \<^theory_text>\<open>PolicyProvision\<close>: \<open>policy/filter.ts\<close>, \<open>check.ts\<close> and
    \<open>provision.ts\<close>, the readers and writers that rules guard.
  \<^item> \<^theory_text>\<open>JsonText\<close>: the text of \<open>JSON.stringify\<close> and its parser, which gives plain values back.
  \<^item> \<^theory_text>\<open>Bucket\<close>, \<^theory_text>\<open>RootStore\<close>, \<^theory_text>\<open>R2Store\<close>, \<^theory_text>\<open>GcSweep\<close>: \<open>storage/memory.ts\<close> and \<open>storage/index.ts\<close>. The
    contract \<open>r2_bucket\<close> says what is used of a bucket and is interpreted on \<open>MemoryBucket\<close> and on
    prefixed buckets; over it, root records and log chunks, the node store with its memory,
    SQL and cache tiers (\<open>r2_nodes\<close>, a sublocale of \<open>node_store\<close>), and mark and sweep.
  \<^item> \<^theory_text>\<open>Replica\<close>: \<open>replica/basis.ts\<close> and \<open>replica-do.ts\<close>, the tables and the memory of a replica, the
    frames it follows the log by, gaps, catch-up and restart; the invariant \<open>replica_ok\<close> and the
    step relation \<open>replica_step\<close>.
  \<^item> \<^theory_text>\<open>Transactor\<close>: \<open>transactor/transactor.ts\<close>, the record \<open>transactor\<close> with its tables, boot, the
    resolving of a call and the round of the commit loop; the invariant \<open>writer_holds\<close> relates a
    writer to the log \<open>H\<close> that its tables and trees stand for, and \<open>writer_step\<close> are its steps.
  \<^item> \<^theory_text>\<open>Feed\<close>: what a writer sends its subscribers and answers at \<open>/log\<close>, and that this is what a
    replica needs.
  \<^item> \<^theory_text>\<open>Indexer\<close>: \<open>transactor/indexer.ts\<close>, the steps of an index run; \<open>db_step\<close> interleaves them with
    the steps of the writer and with restarts, and \<open>db_holds\<close> is kept by every run.
  \<^item> \<^theory_text>\<open>StorageClaims\<close>, \<^theory_text>\<open>WireClaims\<close>, \<^theory_text>\<open>DatabaseClaims\<close>, \<^theory_text>\<open>ConnClaims\<close>, \<^theory_text>\<open>PolicyClaims\<close>,
    \<^theory_text>\<open>ObjectClaims\<close>, \<^theory_text>\<open>WriterClaims\<close>: the properties, each with a witness at a concrete input.

  \<^bold>\<open>Abstraction.\<close> Below, the tree is a set of datoms in index order (\<open>contents\<close>) and a buffer is
  a set (\<open>sn_abs\<close>); \<open>currentFacts\<close> picks from a set of datoms the facts that hold at a \<open>t\<close>. The
  reads of a database value return exactly these, transactions edit them, and indexing
  does not change them.

  \<^bold>\<open>Fuel and bounds.\<close> Walks through a stored tree take fuel, since a source may hold a cycle;
  one more than the number of nodes is enough, and every theorem says that the result is
  there. Ids and counts are integers within the safe range; node formats hold fewer than
  \<open>2 ^ 32\<close> entries. Hash collisions are an outcome of their own (\<open>collision\<close>): the store would
  keep the first body, so theorems about writing say what holds up to the first one.

  \<^bold>\<open>Parameters.\<close> The digest, the compression of a codec, \<open>Date.parse\<close> and the decimal form of a
  double are arguments; what is used of them is stated where they appear. The query engine
  is an argument of rule evaluation. A bucket is any that keeps the contract \<open>r2_bucket\<close>. For a
  replica alone, what the writer answers is an argument and honest answers are a hypothesis;
  \<^theory_text>\<open>Feed\<close> shows that the writer's answers are. The clock of a writer is the list of what it returns.

  \<^bold>\<open>Not modelled.\<close> The query engine, pull and the rewriting of queries by a policy; the HTTP
  routes, sockets, alarms, metrics and log lines of the writer and the replica; index runs that
  start while a batch is being written, or collections that start within a run; the wrapper of
  the platform's cache as a tier; and the typed client. The trees of a writer fit the fuel and
  counts of its environment (\<open>fuel_fits\<close>), and an index run merges a connection whose buffers
  agree with each other (\<open>indexes_consistent\<close>). Generators are the lists they yield, and the
  asynchronous operations of a connection are the steps between which they can be observed.
\<close>

end
